(* ===== verification/Prelude.thy ===== *)
theory Prelude
  imports Main "HOL-Library.Multiset"
begin

text \<open>
  What every component shares: the machine bounds of a 64-bit target with the saturating and
  wrapping operations written out on \<^typ>\<open>nat\<close>, the checked reads of slices and masks
  (a panic is \<^term>\<open>None\<close>), the binary searches of the Rust standard library, and the list
  lemmas on sorted, duplicate-free id lists that the component proofs rest on.
\<close>

named_theorems checked_simps \<open>checked reads that are known to stay in range\<close>

section \<open>Machine bounds\<close>

text \<open>A \<open>u64\<close> (and a \<open>usize\<close>, on the 64-bit targets) is a natural number of at most
  \<open>u64_max\<close>; the saturating and wrapping operations of the language are spelled out.\<close>

definition u64_max :: nat where
  "u64_max = 2 ^ 64 - 1"

abbreviation usize_max :: nat where
  "usize_max \<equiv> u64_max"

definition sat_add :: "nat \<Rightarrow> nat \<Rightarrow> nat" where
  "sat_add a b = min (a + b) u64_max"

definition sat_mul :: "nat \<Rightarrow> nat \<Rightarrow> nat" where
  "sat_mul a b = min (a * b) u64_max"

definition wrap_sub :: "nat \<Rightarrow> nat \<Rightarrow> nat" where
  "wrap_sub a b = (if b \<le> a then a - b else 2 ^ 64 + a - b)"

definition div_ceil :: "nat \<Rightarrow> nat \<Rightarrow> nat" where
  "div_ceil a b = (a + b - 1) div b"

lemma sat_add_le [simp]: "a + b \<le> u64_max \<Longrightarrow> sat_add a b = a + b"
  by (simp add: sat_add_def)

lemma min_sat_add: "c \<le> u64_max \<Longrightarrow> min (sat_add a b) c = min (a + b) c"
  by (simp add: sat_add_def)

lemma div_ceil_pos: "0 < a \<Longrightarrow> 0 < b \<Longrightarrow> 0 < div_ceil a b"
  by (simp add: div_ceil_def div_greater_zero_iff)

lemma div_ceil_mult_ge: "0 < b \<Longrightarrow> a \<le> b * div_ceil a b"
proof -
  assume b: "0 < b"
  have "a + b - 1 = b * div_ceil a b + (a + b - 1) mod b"
    unfolding div_ceil_def by (metis mult_div_mod_eq)
  moreover have "(a + b - 1) mod b < b" using b by simp
  ultimately show ?thesis by linarith
qed

lemma div_ceil_le_iff: "0 < b \<Longrightarrow> div_ceil a b \<le> k \<longleftrightarrow> a \<le> k * b"
  unfolding div_ceil_def
  using div_less_iff_less_mult [of b "a + b - 1" "k + 1"]
  by auto

section \<open>Checked reads\<close>

text \<open>\<open>buf_slice xs lo hi\<close> is a slice \<open>xs[lo..hi]\<close>, \<open>buf_get xs i\<close> an element \<open>xs[i]\<close>: both
  panic out of range.\<close>

definition buf_slice :: "'a list \<Rightarrow> nat \<Rightarrow> nat \<Rightarrow> 'a list option" where
  "buf_slice xs lo hi =
     (if lo \<le> hi \<and> hi \<le> length xs then Some (take (hi - lo) (drop lo xs)) else None)"

definition buf_get :: "'a list \<Rightarrow> nat \<Rightarrow> 'a option" where
  "buf_get xs i = (if i < length xs then Some (xs ! i) else None)"

text \<open>A gather and a filter through a read that may panic.\<close>

fun gather :: "('a \<Rightarrow> 'b option) \<Rightarrow> 'a list \<Rightarrow> 'b list option" where
  "gather f [] = Some []"
| "gather f (x # xs) =
     (case f x of None \<Rightarrow> None | Some y \<Rightarrow> map_option (Cons y) (gather f xs))"

fun checked_filter :: "('a \<Rightarrow> bool option) \<Rightarrow> 'a list \<Rightarrow> 'a list option" where
  "checked_filter f [] = Some []"
| "checked_filter f (x # xs) =
     (case f x of None \<Rightarrow> None
      | Some keep \<Rightarrow> map_option (\<lambda>ys. if keep then x # ys else ys) (checked_filter f xs))"

lemma buf_get_Some [checked_simps]: "i < length xs \<Longrightarrow> buf_get xs i = Some (xs ! i)"
  by (simp add: buf_get_def)

lemma buf_slice_Some [checked_simps]:
  "lo \<le> hi \<Longrightarrow> hi \<le> length xs \<Longrightarrow> buf_slice xs lo hi = Some (take (hi - lo) (drop lo xs))"
  by (simp add: buf_slice_def)

lemma gather_Some: "(\<And>x. x \<in> set xs \<Longrightarrow> f x = Some (g x)) \<Longrightarrow> gather f xs = Some (map g xs)"
  by (induction xs) auto

lemma gather_None_iff: "gather f xs = None \<longleftrightarrow> (\<exists>x \<in> set xs. f x = None)"
  by (induction xs) (auto split: option.splits)

lemma checked_filter_Some:
  "(\<And>x. x \<in> set xs \<Longrightarrow> f x = Some (g x)) \<Longrightarrow> checked_filter f xs = Some (filter g xs)"
  by (induction xs) auto

lemma slice_upt: "hi \<le> n \<Longrightarrow> take (hi - lo) (drop lo [0..<n]) = [lo..<hi]"
  by (cases "lo \<le> hi") (simp_all add: drop_upt take_upt)

section \<open>Binary searches\<close>

text \<open>\<open>slice::partition_point\<close>: the binary search for the first element that fails \<open>p\<close>. On a
  slice partitioned by \<open>p\<close> its result is the length of the prefix that passes.\<close>

function pp_loop :: "('a \<Rightarrow> bool) \<Rightarrow> 'a list \<Rightarrow> nat \<Rightarrow> nat \<Rightarrow> nat" where
  "pp_loop p xs lo hi =
     (if lo < hi then
        let mid = (lo + hi) div 2
        in if p (xs ! mid) then pp_loop p xs (Suc mid) hi else pp_loop p xs lo mid
      else lo)"
  by pat_completeness auto
termination
  by (relation "measure (\<lambda>(p, xs, lo, hi). hi - lo)") auto

declare pp_loop.simps [simp del]

definition partition_point :: "('a \<Rightarrow> bool) \<Rightarrow> 'a list \<Rightarrow> nat" where
  "partition_point p xs = pp_loop p xs 0 (length xs)"

definition partitioned :: "('a \<Rightarrow> bool) \<Rightarrow> 'a list \<Rightarrow> bool" where
  "partitioned p xs \<longleftrightarrow> (\<forall>i j. i < j \<longrightarrow> j < length xs \<longrightarrow> p (xs ! j) \<longrightarrow> p (xs ! i))"

lemma pp_loop_eq:
  assumes "partitioned p xs" "lo \<le> k" "k \<le> hi" "hi \<le> length xs"
    and k: "\<And>i. i < k \<Longrightarrow> p (xs ! i)" "k < length xs \<Longrightarrow> \<not> p (xs ! k)"
  shows "pp_loop p xs lo hi = k"
  using assms
proof (induction p xs lo hi rule: pp_loop.induct)
  case (1 p xs lo hi)
  let ?mid = "(lo + hi) div 2"
  show ?case
  proof (cases "lo < hi")
    case True
    then have mid: "?mid < hi" "lo \<le> ?mid" by auto
    show ?thesis
    proof (cases "p (xs ! ?mid)")
      case pm: True
      have "Suc ?mid \<le> k"
      proof (rule ccontr)
        assume "\<not> Suc ?mid \<le> k"
        then have "k \<le> ?mid" by simp
        moreover have "p (xs ! i)" if "i < ?mid" for i
          using 1(3) pm mid 1(6) that unfolding partitioned_def by (meson less_le_trans)
        ultimately have "p (xs ! k)"
          using pm by (cases "k = ?mid") (auto simp del: div_mult_self1)
        then show False using 1(8) \<open>k \<le> ?mid\<close> mid 1(6) by auto
      qed
      then show ?thesis using True pm 1 by (subst pp_loop.simps) simp
    next
      case pm: False
      have "k \<le> ?mid" using 1(7) pm by (meson linorder_not_le)
      then show ?thesis using True pm mid 1 by (subst pp_loop.simps) simp
    qed
  next
    case False
    then show ?thesis using 1 by (subst pp_loop.simps) simp
  qed
qed

lemma partition_point_eq:
  assumes "partitioned p xs"
  shows "partition_point p xs = length (takeWhile p xs)"
  unfolding partition_point_def
proof (rule pp_loop_eq [OF assms])
  show "length (takeWhile p xs) \<le> length xs" by (rule length_takeWhile_le)
  show "p (xs ! i)" if "i < length (takeWhile p xs)" for i
    using that by (metis nth_mem set_takeWhileD takeWhile_nth)
  show "\<not> p (xs ! length (takeWhile p xs))" if "length (takeWhile p xs) < length xs"
    using that by (rule nth_length_takeWhile)
qed auto

text \<open>The ascending, unique id lists of the store.\<close>

abbreviation ascending :: "'a::linorder list \<Rightarrow> bool" where
  "ascending xs \<equiv> sorted_wrt (<) xs"

lemma ascending_nth_less: "ascending xs \<Longrightarrow> i < j \<Longrightarrow> j < length xs \<Longrightarrow> xs ! i < xs ! j"
  by (simp add: sorted_wrt_iff_nth_less)

lemma partitioned_less: "sorted xs \<Longrightarrow> partitioned (\<lambda>y. y < x) xs"
  unfolding partitioned_def
  by (metis (no_types) le_less_trans less_imp_le_nat sorted_nth_mono)

lemma partitioned_le: "sorted xs \<Longrightarrow> partitioned (\<lambda>y. y \<le> x) xs"
  unfolding partitioned_def
  by (metis (no_types) order_trans less_imp_le_nat sorted_nth_mono)

lemma ascending_sorted: "ascending xs \<Longrightarrow> sorted xs"
  by (simp add: strict_sorted_imp_sorted)

lemma ascending_distinct: "ascending xs \<Longrightarrow> distinct xs"
  by (simp add: strict_sorted_iff)

lemma takeWhile_less_sorted: "sorted xs \<Longrightarrow> takeWhile (\<lambda>y. y < x) xs = filter (\<lambda>y. y < x) xs"
  by (induction xs) (auto simp: filter_empty_conv [symmetric] not_less dest: leD order_trans
      intro!: filter_False [symmetric])

lemma dropWhile_less_sorted: "sorted xs \<Longrightarrow> dropWhile (\<lambda>y. y < x) xs = filter (\<lambda>y. x \<le> y) xs"
  by (induction xs) (auto simp: not_less intro!: filter_True [symmetric] dest: order_trans)

lemma partition_point_less:
  "sorted xs \<Longrightarrow> partition_point (\<lambda>y. y < x) xs = length (filter (\<lambda>y. y < x) xs)"
  by (simp add: partition_point_eq partitioned_less takeWhile_less_sorted)

lemma take_partition_point:
  "sorted xs \<Longrightarrow> take (partition_point (\<lambda>y. y < x) xs) xs = filter (\<lambda>y. y < x) xs"
  by (metis partition_point_less takeWhile_less_sorted takeWhile_eq_take)

lemma drop_partition_point:
  "sorted xs \<Longrightarrow> drop (partition_point (\<lambda>y. y < x) xs) xs = filter (\<lambda>y. x \<le> y) xs"
  by (metis partition_point_less takeWhile_less_sorted dropWhile_eq_drop dropWhile_less_sorted)

lemma sorted_dropWhile_gt:
  "sorted (a # xs) \<Longrightarrow> x \<in> set (dropWhile (\<lambda>c. c = a) xs) \<Longrightarrow> a < x"
proof (induction xs)
  case (Cons y ys)
  then show ?case by (cases "y = a") (auto simp: order.strict_iff_order)
qed simp

text \<open>The window of a sorted list between two partition points is its elements in the range.\<close>

lemma length_filter_less_mono:
  "a \<le> b \<Longrightarrow> length (filter (\<lambda>y. y < a) xs) \<le> length (filter (\<lambda>y. y < (b::'a::linorder)) xs)"
  by (induction xs) auto

lemma window_between_points:
  assumes "sorted xs" "a \<le> b"
  shows "take (partition_point (\<lambda>y. y < b) xs - partition_point (\<lambda>y. y < a) xs)
           (drop (partition_point (\<lambda>y. y < a) xs) xs) = filter (\<lambda>y. a \<le> y \<and> y < b) xs"
proof -
  let ?n = "\<lambda>c. partition_point (\<lambda>y. y < c) xs"
  have "take (?n b - ?n a) (drop (?n a) xs) = drop (?n a) (take (?n b) xs)"
    by (simp add: take_drop)
       (metis assms le_add_diff_inverse length_filter_less_mono partition_point_less add.commute)
  also have "\<dots> = drop (length (filter (\<lambda>y. y < a) (filter (\<lambda>y. y < b) xs)))
      (filter (\<lambda>y. y < b) xs)"
  proof -
    have "filter (\<lambda>y. y < a) (filter (\<lambda>y. y < b) xs) = filter (\<lambda>y. y < a) xs"
      using assms(2) by (auto simp: intro!: filter_cong)
    then have "partition_point (\<lambda>y. y < a) xs =
        length (filter (\<lambda>y. y < a) (filter (\<lambda>y. y < b) xs))"
      by (simp only: partition_point_less [OF assms(1)])
    then show ?thesis by (simp only: take_partition_point [OF assms(1)])
  qed
  also have "\<dots> = filter (\<lambda>y. a \<le> y) (filter (\<lambda>y. y < b) xs)"
    using drop_partition_point [of "filter (\<lambda>y. y < b) xs" a] assms(1)
    by (simp only: partition_point_less sorted_filter [of id, simplified])
  finally show ?thesis by (simp add: conj_commute)
qed

text \<open>\<open>slice::binary_search_by_key\<close> on strictly ascending keys: the position of the key
  (\<open>Inr\<close>) or where it would be inserted (\<open>Inl\<close>).\<close>

definition search_by_key :: "('a \<Rightarrow> 'k::linorder) \<Rightarrow> 'k \<Rightarrow> 'a list \<Rightarrow> nat + nat" where
  "search_by_key key x xs =
     (let at = partition_point (\<lambda>y. key y < x) xs
      in if at < length xs \<and> key (xs ! at) = x then Inr at else Inl at)"

lemma partitioned_key: "sorted (map key xs) \<Longrightarrow> partitioned (\<lambda>y. key y < x) xs"
  using partitioned_less [of "map key xs" x]
  by (simp add: partitioned_def)

lemma search_by_key_point:
  assumes "sorted (map key xs)"
  shows "partition_point (\<lambda>y. key y < x) xs = length (takeWhile (\<lambda>y. key y < x) xs)"
  by (rule partition_point_eq [OF partitioned_key [OF assms]])

lemma search_by_key_cases:
  assumes asc: "ascending (map key xs)"
  obtains (found) us y vs where "xs = us @ y # vs" "key y = x"
      "search_by_key key x xs = Inr (length us)"
      "\<forall>u \<in> set us. key u < x" "\<forall>v \<in> set vs. x < key v"
    | (missing) us vs where "xs = us @ vs" "search_by_key key x xs = Inl (length us)"
      "\<forall>u \<in> set us. key u < x" "\<forall>v \<in> set vs. x < key v"
proof -
  define us where "us = takeWhile (\<lambda>y. key y < x) xs"
  define ds where "ds = dropWhile (\<lambda>y. key y < x) xs"
  have point: "partition_point (\<lambda>y. key y < x) xs = length us"
    unfolding us_def by (rule search_by_key_point [OF ascending_sorted [OF asc]])
  have xs: "xs = us @ ds" by (simp add: us_def ds_def)
  have us: "\<forall>u \<in> set us. key u < x" using set_takeWhileD by (fastforce simp: us_def)
  have asc_ds: "ascending (map key ds)" using asc by (simp add: xs sorted_wrt_append)
  show thesis
  proof (cases ds)
    case Nil
    then show thesis
      using missing [of us "[]"] us xs point by (simp add: search_by_key_def)
  next
    case (Cons d ds')
    have le: "x \<le> key d"
      using Cons unfolding ds_def by (metis dropWhile_eq_Cons_conv leI)
    have gt: "\<forall>v \<in> set ds'. key d < key v" using asc_ds Cons by simp
    show thesis
    proof (cases "key d = x")
      case True
      then show thesis
        using found [of us d ds'] us gt xs Cons point by (simp add: search_by_key_def)
    next
      case False
      moreover have "\<forall>v \<in> set (d # ds'). x < key v" using le False gt by auto
      ultimately show thesis
        using missing [of us "d # ds'"] us xs Cons point by (simp add: search_by_key_def)
    qed
  qed
qed

section \<open>Ascending lists as sets\<close>

text \<open>Two ascending lists with the same elements are equal, so a result on id lists is fixed by
  the rows it holds.\<close>

lemma ascending_unique: "ascending xs \<Longrightarrow> ascending ys \<Longrightarrow> set xs = set ys \<Longrightarrow> xs = ys"
  by (metis sorted_distinct_set_unique strict_sorted_iff)

lemma ascending_length_le:
  assumes "ascending ids" "\<forall>i \<in> set ids. i < (n::nat)"
  shows "length ids \<le> n"
proof -
  have "card (set ids) \<le> card {0..<n}" using assms(2) by (intro card_mono) auto
  then show ?thesis using assms(1) by (simp add: ascending_distinct distinct_card)
qed

lemma ascending_filter: "ascending xs \<Longrightarrow> ascending (filter p xs)"
  by (rule sorted_wrt_filter)

lemma ascending_upt [simp]: "ascending [a..<b]"
  by (rule sorted_wrt_upt)

lemma filter_range_upt: "filter (\<lambda>i. a \<le> i \<and> i < b) [c..<d] = [max c a..<min d b]"
  by (rule ascending_unique) (auto intro: ascending_filter)

lemma ascending_take_drop: "ascending xs \<Longrightarrow> ascending (take k (drop l xs))"
  by (simp add: sorted_wrt_take sorted_wrt_drop)

lemma map_index: "map f xs = map (\<lambda>i. f (xs ! i)) [0..<length xs]"
  by (rule nth_equalityI) simp_all

lemma enumerate_map_index:
  "enumerate 0 (map f xs) = map (\<lambda>i. (i, f (xs ! i))) [0..<length xs]"
  by (rule nth_equalityI) (simp_all add: nth_enumerate_eq)

lemma in_take_drop: "x \<in> set (take k (drop l xs)) \<Longrightarrow> x \<in> set xs"
  by (meson in_set_takeD in_set_dropD)

lemma filter_length_full: "length (filter p xs) = length xs \<Longrightarrow> filter p xs = xs"
  by (metis filter_True length_filter_less less_irrefl)

lemma upt_split: "i \<le> j \<Longrightarrow> j \<le> k \<Longrightarrow> [i..<k] = [i..<j] @ [j..<k]"
  by (metis le_add_diff_inverse upt_add_eq_append)

lemma ascending_hd_last:
  assumes "ascending xs" "x \<in> set xs"
  shows "hd xs \<le> x" "x \<le> last xs"
proof -
  have ne: "xs \<noteq> []" using assms(2) by auto
  show "hd xs \<le> x" using assms by (cases xs) auto
  have "ascending (butlast xs @ [last xs])" using assms(1) ne by simp
  moreover have "x \<in> set (butlast xs @ [last xs])" using assms(2) ne by simp
  ultimately show "x \<le> last xs" by (auto simp: sorted_wrt_append)
qed

lemma ascending_map_nth:
  "ascending xs \<Longrightarrow> ascending is \<Longrightarrow> \<forall>i \<in> set is. i < length xs \<Longrightarrow> ascending (map ((!) xs) is)"
  by (induction "is") (auto simp: ascending_nth_less)

lemma ascending_concat:
  assumes "\<forall>xs \<in> set xss. ascending xs"
    and "sorted_wrt (\<lambda>xs ys. \<forall>x \<in> set xs. \<forall>y \<in> set ys. x < y) xss"
  shows "ascending (concat xss)"
  using assms by (induction xss) (auto simp: sorted_wrt_append)

text \<open>A range cut into blocks of \<open>len\<close> is their ranges end to end.\<close>

lemma concat_blocks:
  assumes "0 < (len::nat)" "a \<le> b"
  shows "concat (map (\<lambda>z. [max (z * len) start..<min (min ((z + 1) * len) n) stop]) [a..<b]) =
    [max (a * len) start..<min (min (b * len) n) stop] \<or> a = b"
  using assms(2)
proof (induction b rule: dec_induct)
  case base
  then show ?case by simp
next
  case (step b)
  show ?case
  proof (cases "a = b")
    case True
    then show ?thesis by simp
  next
    case False
    let ?lo = "max (a * len) start" and ?m = "min (min (b * len) n) stop"
    let ?hi = "min (min ((b + 1) * len) n) stop"
    have "a * len \<le> b * len" using step by simp
    have hi: "?m \<le> ?hi" by (auto simp: min_def)
    have "[?lo..<?m] @ [max (b * len) start..<?hi] = [?lo..<?hi]"
    proof (cases "?lo \<le> ?m")
      case lo: True
      show ?thesis
      proof (cases "b * len \<le> n \<and> b * len \<le> stop")
        case True
        then have "?m = b * len" "max (b * len) start = b * len" using lo by auto
        then show ?thesis using lo hi upt_split [of ?lo ?m ?hi] by simp
      next
        case False
        then have "?m = ?hi" "?hi \<le> max (b * len) start" by (auto simp: min_def)
        then show ?thesis by simp
      qed
    next
      case lo: False
      then have "max (b * len) start = ?lo \<or> ?hi \<le> max (b * len) start \<and> ?hi \<le> ?lo"
        using \<open>a * len \<le> b * len\<close> by (auto simp: min_def max_def split: if_splits)
      then show ?thesis using lo by auto
    qed
    then show ?thesis using step False by simp
  qed
qed

text \<open>A bit list read as the positions it selects.\<close>

definition positions :: "bool list \<Rightarrow> nat list" where
  "positions m = filter (\<lambda>i. m ! i) [0..<length m]"

lemma ascending_positions: "ascending (positions m)"
  by (simp add: positions_def ascending_filter)

lemma set_positions: "set (positions m) = {i. i < length m \<and> m ! i}"
  by (auto simp: positions_def)

lemma positions_select:
  "length m = length xs \<Longrightarrow>
   map ((!) xs) (positions m) = map fst (filter snd (zip xs m))"
proof (induction m arbitrary: xs rule: rev_induct)
  case Nil
  then show ?case by (simp add: positions_def)
next
  case (snoc b m)
  then obtain ys y where xs: "xs = ys @ [y]" and len: "length m = length ys"
    by (metis length_append_singleton nat.inject rev_exhaust length_0_conv Zero_not_Suc)
  have "filter (\<lambda>i. (m @ [b]) ! i) [0..<length m] = positions m"
    by (auto simp: positions_def nth_append intro!: filter_cong)
  moreover have "map ((!) (ys @ [y])) (positions m) = map ((!) ys) (positions m)"
    using len by (auto simp: set_positions nth_append)
  ultimately show ?case
    using snoc.IH [OF len] len xs nth_append_length [of m b] nth_append_length [of ys y]
    by (cases b) (simp_all add: positions_def del: map_eq_conv)
qed

end
