(* ===== verification/Selection.thy ===== *)
theory Selection
  imports Prelude
begin

text \<open>
  The row selections of \<open>core/src/store/view/selection.rs\<close>: which base rows a view covers, as
  base row ids that every refinement narrows and none renumbers. A selection is every row, one
  range of rows or an ascending id list; \<open>covered\<close> reads it as the ascending list of row ids it
  stands for, and each operation is shown to be the set operation on those rows it is named
  after, without a panic, on well-formed selections. Row ids and positions are natural numbers;
  a mask is its list of bits.
\<close>

section \<open>The selection and its shapes\<close>

datatype row_selection = AllRows | RowRange nat nat | RowIds "nat list"

datatype selected_rows = Run nat nat | RunIds "nat list"

definition empty_selection :: row_selection where
  "empty_selection = RowRange 0 0"

definition from_ids :: "nat list \<Rightarrow> row_selection" where
  "from_ids ids = (if ids = [] then empty_selection else RowIds ids)"

definition range_or_empty :: "nat \<Rightarrow> nat \<Rightarrow> row_selection" where
  "range_or_empty start end' = (if end' \<le> start then empty_selection else RowRange start end')"

definition clamped :: "nat \<Rightarrow> nat \<Rightarrow> nat \<Rightarrow> nat \<times> nat" where
  "clamped start end' base_len =
     (let s = min start base_len; e = min end' base_len in (s, max e s))"

fun as_rows :: "row_selection \<Rightarrow> nat \<Rightarrow> selected_rows" where
  "as_rows AllRows base_len = Run 0 base_len"
| "as_rows (RowRange a b) base_len = (let (s, e) = clamped a b base_len in Run s e)"
| "as_rows (RowIds ids) base_len = RunIds ids"

fun rows_of :: "selected_rows \<Rightarrow> nat list" where
  "rows_of (Run s e) = [s..<e]"
| "rows_of (RunIds ids) = ids"

fun sel_len :: "row_selection \<Rightarrow> nat \<Rightarrow> nat" where
  "sel_len AllRows base_len = base_len"
| "sel_len (RowRange a b) base_len = b - a"
| "sel_len (RowIds ids) base_len = length ids"

definition sel_is_empty :: "row_selection \<Rightarrow> nat \<Rightarrow> bool" where
  "sel_is_empty sel base_len \<longleftrightarrow> sel_len sel base_len = 0"

fun sel_contains :: "row_selection \<Rightarrow> nat \<Rightarrow> bool" where
  "sel_contains AllRows row = True"
| "sel_contains (RowRange a b) row = (a \<le> row \<and> row < b)"
| "sel_contains (RowIds ids) row =
     (case search_by_key id row ids of Inr _ \<Rightarrow> True | Inl _ \<Rightarrow> False)"

definition point_gather_max_rows :: nat where
  "point_gather_max_rows = 256"

definition point_sized :: "nat \<Rightarrow> bool" where
  "point_sized rows \<longleftrightarrow> rows \<le> point_gather_max_rows"

fun is_point_sized :: "row_selection \<Rightarrow> bool" where
  "is_point_sized AllRows = False"
| "is_point_sized (RowRange a b) = point_sized (wrap_sub b a)"
| "is_point_sized (RowIds ids) = point_sized (length ids)"

text \<open>The rows a selection stands for, and the selections the store builds: a range lies within
  the base, an id list is ascending, unique and within it.\<close>

definition covered :: "row_selection \<Rightarrow> nat \<Rightarrow> nat list" where
  "covered sel base_len = rows_of (as_rows sel base_len)"

fun wf_selection :: "nat \<Rightarrow> row_selection \<Rightarrow> bool" where
  "wf_selection base_len AllRows \<longleftrightarrow> True"
| "wf_selection base_len (RowRange a b) \<longleftrightarrow> a \<le> b \<and> b \<le> base_len"
| "wf_selection base_len (RowIds ids) \<longleftrightarrow> ascending ids \<and> (\<forall>i \<in> set ids. i < base_len)"

lemma covered_simps [simp]:
  "covered AllRows n = [0..<n]"
  "wf_selection n (RowRange a b) \<Longrightarrow> covered (RowRange a b) n = [a..<b]"
  "covered (RowIds ids) n = ids"
  "covered empty_selection n = []"
  by (auto simp: covered_def clamped_def Let_def min_def max_def empty_selection_def)

lemma wf_empty_selection [simp]: "wf_selection n empty_selection"
  by (simp add: empty_selection_def)

lemma covered_ascending: "wf_selection n sel \<Longrightarrow> ascending (covered sel n)"
  by (cases sel) auto

lemma covered_bound: "wf_selection n sel \<Longrightarrow> i \<in> set (covered sel n) \<Longrightarrow> i < n"
  by (cases sel) auto

lemma sel_len_covered: "wf_selection n sel \<Longrightarrow> sel_len sel n = length (covered sel n)"
  by (cases sel) auto

lemma from_ids_simps [simp]:
  "covered (from_ids ids) n = ids"
  "wf_selection n (from_ids ids) \<longleftrightarrow> ascending ids \<and> (\<forall>i \<in> set ids. i < n)"
  by (auto simp: from_ids_def)

lemma range_or_empty_simps [simp]:
  "b \<le> n \<Longrightarrow> covered (range_or_empty a b) n = [a..<b]"
  "b \<le> n \<Longrightarrow> wf_selection n (range_or_empty a b)"
  by (auto simp: range_or_empty_def)

lemma sel_contains_covered:
  "wf_selection n sel \<Longrightarrow> r < n \<Longrightarrow> sel_contains sel r \<longleftrightarrow> r \<in> set (covered sel n)"
proof (cases sel)
  case (RowIds ids)
  assume "wf_selection n sel"
  then have "ascending (map id ids)" using RowIds by simp
  then show ?thesis
    by (cases rule: search_by_key_cases [where x = r]) (auto simp: RowIds)
qed auto

section \<open>Narrowing by a range\<close>

text \<open>\<open>restrict_ids\<close> cuts the window of an ascending list between two partition points: the slice
  panics on a range whose end precedes its start, where that leaves the points inverted.\<close>

definition restrict_ids :: "nat list \<Rightarrow> nat \<Rightarrow> nat \<Rightarrow> nat list option" where
  "restrict_ids ids start end' =
     (let lo = partition_point (\<lambda>i. i < start) ids;
          hi = partition_point (\<lambda>i. i < end') ids
      in buf_slice ids lo hi)"

fun intersect_range :: "row_selection \<Rightarrow> nat \<Rightarrow> nat \<Rightarrow> row_selection option" where
  "intersect_range AllRows a b = Some (RowRange a b)"
| "intersect_range (RowRange c d) a b =
     (let start = max c a; end' = min d b in Some (RowRange start (max end' start)))"
| "intersect_range (RowIds ids) a b = map_option RowIds (restrict_ids ids a b)"

lemma restrict_ids_eq:
  assumes "ascending ids" "a \<le> b"
  shows "restrict_ids ids a b = Some (filter (\<lambda>i. a \<le> i \<and> i < b) ids)"
proof -
  have s: "sorted ids" by (rule ascending_sorted [OF assms(1)])
  have "partition_point (\<lambda>i. i < a) ids \<le> partition_point (\<lambda>i. i < b) ids"
    using length_filter_less_mono [OF assms(2)] by (simp add: partition_point_less [OF s])
  moreover have "partition_point (\<lambda>i. i < b) ids \<le> length ids"
    by (simp add: partition_point_less [OF s])
  ultimately show ?thesis
    by (simp add: restrict_ids_def Let_def buf_slice_Some window_between_points [OF s assms(2)])
qed

lemma intersect_range_narrows:
  assumes "wf_selection n sel" "a \<le> b" "b \<le> n"
  shows "\<exists>sel'. intersect_range sel a b = Some sel' \<and> wf_selection n sel' \<and>
    covered sel' n = filter (\<lambda>i. a \<le> i \<and> i < b) (covered sel n)"
proof (cases sel)
  case AllRows
  then show ?thesis using assms filter_range_upt [of a b 0 n] by simp
next
  case (RowRange c d)
  have "[max c a..<max (min d b) (max c a)] = [max c a..<min d b]"
    by (auto simp: max_def)
  moreover have "max c a \<le> n" "max (min d b) (max c a) \<le> n"
    using RowRange assms by auto
  ultimately show ?thesis using RowRange assms by (simp add: Let_def filter_range_upt)
next
  case (RowIds ids)
  then show ?thesis
    using assms by (auto simp: restrict_ids_eq ascending_filter)
qed

section \<open>Narrowing by an id list\<close>

definition gallop_ratio :: nat where
  "gallop_ratio = 32"

text \<open>The search of the longer list for each id of the shorter, each search starting where the
  last one ended; and the sorted merge.\<close>

fun gallop_ids :: "nat list \<Rightarrow> nat list \<Rightarrow> nat list" where
  "gallop_ids [] rest = []"
| "gallop_ids (i # short) rest =
     (let rest' = drop (partition_point (\<lambda>other. other < i) rest) rest
      in if rest' \<noteq> [] \<and> hd rest' = i then i # gallop_ids short rest' else gallop_ids short rest')"

fun merge_ids :: "nat list \<Rightarrow> nat list \<Rightarrow> nat list" where
  "merge_ids [] right = []"
| "merge_ids left [] = []"
| "merge_ids (l # left) (r # right) =
     (if l < r then merge_ids left (r # right)
      else if r < l then merge_ids (l # left) right
      else l # merge_ids left right)"

definition intersect_sorted_ids :: "nat list \<Rightarrow> nat list \<Rightarrow> nat list" where
  "intersect_sorted_ids left right =
     (let (short, long) =
        (if length left \<le> length right then (left, right) else (right, left))
      in if length short < length long div gallop_ratio then gallop_ids short long
         else merge_ids left right)"

fun intersect_ids :: "row_selection \<Rightarrow> nat list \<Rightarrow> row_selection option" where
  "intersect_ids AllRows ids = Some (RowIds ids)"
| "intersect_ids (RowRange a b) ids = map_option RowIds (restrict_ids ids a b)"
| "intersect_ids (RowIds current) ids = Some (RowIds (intersect_sorted_ids current ids))"

lemma gallop_ids_eq:
  "ascending short \<Longrightarrow> ascending rest \<Longrightarrow> gallop_ids short rest = filter (\<lambda>i. i \<in> set rest) short"
proof (induction short rest rule: gallop_ids.induct)
  case (2 i short rest)
  let ?rest = "filter (\<lambda>y. i \<le> y) rest"
  have drop: "drop (partition_point (\<lambda>other. other < i) rest) rest = ?rest"
    by (rule drop_partition_point [OF ascending_sorted [OF 2(4)]])
  have asc: "ascending ?rest" by (rule ascending_filter [OF 2(4)])
  have "filter (\<lambda>j. j \<in> set ?rest) short = filter (\<lambda>j. j \<in> set rest) short"
    using 2(3) by (intro filter_cong) auto
  moreover have "?rest \<noteq> [] \<and> hd ?rest = i \<longleftrightarrow> i \<in> set rest"
  proof (cases ?rest)
    case Nil
    then show ?thesis by (auto simp: filter_empty_conv)
  next
    case (Cons r rs)
    have "i \<in> set rest \<longleftrightarrow> i \<in> set (r # rs)" by (simp flip: Cons)
    moreover have "i \<le> r" using arg_cong [OF Cons, of set] by auto
    moreover have "\<forall>j \<in> set rs. r < j" using asc Cons by simp
    ultimately show ?thesis using Cons by auto
  qed
  ultimately show ?case using 2(1,2) 2(3) asc by (simp add: drop Let_def)
qed simp

lemma merge_ids_eq:
  "ascending left \<Longrightarrow> ascending right \<Longrightarrow> merge_ids left right = filter (\<lambda>i. i \<in> set right) left"
proof (induction left right rule: merge_ids.induct)
  case (3 l left r right)
  consider "l < r" | "r < l" | "l = r" by (rule linorder_cases)
  then show ?case
  proof cases
    case 1
    then show ?thesis using 3 by auto
  next
    case 2
    then have "filter (\<lambda>i. i \<in> set (r # right)) (l # left) = filter (\<lambda>i. i \<in> set right) (l # left)"
      using 3(4) by (intro filter_cong) auto
    then show ?thesis using 2 3 by simp
  next
    case 3
    then have "filter (\<lambda>i. i \<in> set (r # right)) left = filter (\<lambda>i. i \<in> set right) left"
      using "3.prems" by (intro filter_cong) auto
    then show ?thesis using 3 "3.prems" "3.IH" by simp
  qed
qed simp_all

lemma intersect_sorted_ids_eq:
  assumes "ascending left" "ascending right"
  shows "intersect_sorted_ids left right = filter (\<lambda>i. i \<in> set right) left"
proof -
  have "filter (\<lambda>i. i \<in> set left) right = filter (\<lambda>i. i \<in> set right) left"
    by (rule ascending_unique) (auto intro: ascending_filter simp: assms)
  then show ?thesis
    using assms by (simp add: intersect_sorted_ids_def Let_def gallop_ids_eq merge_ids_eq)
qed

text \<open>
  The two routes of the id-list intersection, the galloping search and the merge, agree on
  every pair of ascending lists, whichever is the shorter: both give the ids of the one that the
  other holds.
\<close>

theorem intersect_routes_agree:
  assumes "ascending left" "ascending right"
  shows "gallop_ids left right = merge_ids left right \<and>
    gallop_ids right left = merge_ids left right \<and>
    intersect_sorted_ids left right = merge_ids left right"
  using intersect_sorted_ids_eq [OF assms] gallop_ids_eq [OF assms] gallop_ids_eq [OF assms(2,1)]
    merge_ids_eq [OF assms]
    ascending_unique [of "filter (\<lambda>i. i \<in> set left) right" "filter (\<lambda>i. i \<in> set right) left"]
    assms by (auto simp: ascending_filter)

theorem intersect_routes_agree_witness:
  "ascending [2, 5, 7::nat] \<and> ascending [1, 2, 7, 9::nat] \<and>
   gallop_ids [2, 5, 7] [1, 2, 7, 9] = merge_ids [2, 5, 7] [1, 2, 7, 9] \<and>
   merge_ids [2, 5, 7] [1, 2, 7, 9] = [2, 7]"
  using intersect_routes_agree [of "[2, 5, 7]" "[1, 2, 7, 9]"] by simp

lemma intersect_ids_narrows:
  assumes "wf_selection n sel" "ascending ids" "\<forall>i \<in> set ids. i < n"
  shows "\<exists>sel'. intersect_ids sel ids = Some sel' \<and> wf_selection n sel' \<and>
    covered sel' n = filter (\<lambda>i. i \<in> set ids) (covered sel n)"
proof (cases sel)
  case AllRows
  have "ids = filter (\<lambda>i. i \<in> set ids) [0..<n]"
    using assms by (intro ascending_unique) (auto intro: ascending_filter)
  then show ?thesis using AllRows assms by simp
next
  case (RowRange a b)
  have "filter (\<lambda>i. a \<le> i \<and> i < b) ids = filter (\<lambda>i. i \<in> set ids) [a..<b]"
    using assms by (intro ascending_unique) (auto intro: ascending_filter)
  then show ?thesis using RowRange assms by (auto simp: restrict_ids_eq ascending_filter)
next
  case (RowIds current)
  then show ?thesis using assms by (auto simp: intersect_sorted_ids_eq ascending_filter)
qed

section \<open>Masks: tombstones, live rows and windows\<close>

text \<open>A mask is one bit per row; reading past its end panics, as does building one from an index
  past its length.\<close>

type_synonym mask = "bool list"

definition mask_value :: "mask \<Rightarrow> nat \<Rightarrow> bool option" where
  "mask_value m i = buf_get m i"

definition mask_from_indices :: "nat \<Rightarrow> nat list \<Rightarrow> mask option" where
  "mask_from_indices n ids =
     (if list_all (\<lambda>i. i < n) ids then Some (map (\<lambda>i. i \<in> set ids) [0..<n]) else None)"

definition true_count :: "mask \<Rightarrow> nat" where
  "true_count m = length (filter id m)"

definition filter_rows :: "row_selection \<Rightarrow> nat \<Rightarrow> (nat \<Rightarrow> bool option) \<Rightarrow> nat list option" where
  "filter_rows sel base_len keep =
     (case as_rows sel base_len of
        Run s e \<Rightarrow> checked_filter keep [s..<e]
      | RunIds ids \<Rightarrow> checked_filter keep ids)"

definition point_sized_live_rows :: "row_selection \<Rightarrow> mask option \<Rightarrow> nat \<Rightarrow> nat list option option" where
  "point_sized_live_rows sel deleted base_len =
     (if is_point_sized sel then
        map_option Some (filter_rows sel base_len
          (\<lambda>i. case deleted of None \<Rightarrow> Some True | Some d \<Rightarrow> map_option Not (mask_value d i)))
      else Some None)"

text \<open>The rows \<open>iter.filter(live).skip(offset).take(limit)\<close> pulls, and no more.\<close>

fun take_live :: "mask \<Rightarrow> nat \<Rightarrow> nat \<Rightarrow> nat list \<Rightarrow> nat list option" where
  "take_live deleted offset 0 rows = Some []"
| "take_live deleted offset (Suc limit) [] = Some []"
| "take_live deleted offset (Suc limit) (row # rows) =
     (case mask_value deleted row of
        None \<Rightarrow> None
      | Some True \<Rightarrow> take_live deleted offset (Suc limit) rows
      | Some False \<Rightarrow>
          if 0 < offset then take_live deleted (offset - 1) (Suc limit) rows
          else map_option (Cons row) (take_live deleted 0 limit rows))"

definition sel_window ::
    "row_selection \<Rightarrow> nat \<Rightarrow> nat \<Rightarrow> mask option \<Rightarrow> nat \<Rightarrow> row_selection option" where
  "sel_window sel offset limit deleted base_len =
     (let rows = as_rows sel base_len
      in case deleted of
           None \<Rightarrow>
             (case rows of
                Run s e \<Rightarrow>
                  let start = min (sat_add s offset) e; end' = min (sat_add start limit) e
                  in Some (range_or_empty start end')
              | RunIds ids \<Rightarrow>
                  let start = min offset (length ids);
                      end' = min (sat_add start limit) (length ids)
                  in if start = end' then Some empty_selection
                     else map_option RowIds (buf_slice ids start end'))
         | Some d \<Rightarrow> map_option from_ids (take_live d offset limit (rows_of rows)))"

text \<open>A selection as a mask over the base, and which of its own rows are live.\<close>

fun to_mask :: "row_selection \<Rightarrow> nat \<Rightarrow> mask option" where
  "to_mask AllRows base_len = Some (replicate base_len True)"
| "to_mask (RowRange a b) base_len =
     (let (s, e) = clamped a b base_len
      in if e \<le> s then Some (replicate base_len False)
         else Some (map (\<lambda>i. s \<le> i \<and> i < e) [0..<base_len]))"
| "to_mask (RowIds ids) base_len = mask_from_indices base_len ids"

fun live_mask :: "row_selection \<Rightarrow> mask \<Rightarrow> nat \<Rightarrow> mask option" where
  "live_mask AllRows deleted base_len = Some (map Not deleted)"
| "live_mask (RowRange a b) deleted base_len =
     (let (s, e) = clamped a b base_len in map_option (map Not) (buf_slice deleted s e))"
| "live_mask (RowIds ids) deleted base_len =
     (case checked_filter (\<lambda>(position, i). map_option Not (mask_value deleted i))
        (enumerate 0 ids) of
        None \<Rightarrow> None
      | Some live \<Rightarrow> mask_from_indices (length ids) (map fst live))"

definition live_len :: "row_selection \<Rightarrow> mask option \<Rightarrow> nat \<Rightarrow> nat option" where
  "live_len sel deleted base_len =
     (case deleted of
        None \<Rightarrow> Some (sel_len sel base_len)
      | Some d \<Rightarrow> map_option true_count (live_mask sel d base_len))"

text \<open>The rows of a selection that the tombstones leave live.\<close>

definition live_rows :: "row_selection \<Rightarrow> mask option \<Rightarrow> nat \<Rightarrow> nat list" where
  "live_rows sel deleted base_len =
     filter (\<lambda>i. case deleted of None \<Rightarrow> True | Some d \<Rightarrow> \<not> d ! i) (covered sel base_len)"

fun wf_deleted :: "nat \<Rightarrow> mask option \<Rightarrow> bool" where
  "wf_deleted n None \<longleftrightarrow> True"
| "wf_deleted n (Some d) \<longleftrightarrow> length d = n"

lemma mask_value_Some [checked_simps]: "i < length m \<Longrightarrow> mask_value m i = Some (m ! i)"
  by (simp add: mask_value_def buf_get_def)

lemma take_live_eq:
  "\<forall>i \<in> set rows. i < length d \<Longrightarrow>
   take_live d offset limit rows = Some (take limit (drop offset (filter (\<lambda>i. \<not> d ! i) rows)))"
  by (induction d offset limit rows rule: take_live.induct)
     (auto simp: checked_simps drop_Cons' split: bool.splits)

lemma filter_rows_eq:
  assumes "wf_selection n sel" "\<And>i. i < n \<Longrightarrow> keep i = Some (p i)"
  shows "filter_rows sel n keep = Some (filter p (covered sel n))"
proof -
  have "filter_rows sel n keep = checked_filter keep (covered sel n)"
    by (simp add: filter_rows_def covered_def split: selected_rows.split)
  also have "\<dots> = Some (filter p (covered sel n))"
    by (rule checked_filter_Some) (metis assms covered_bound)
  finally show ?thesis .
qed

lemma length_filter_enumerate:
  "length (filter (\<lambda>(position, i). p i) (enumerate k xs)) = length (filter p xs)"
  by (induction xs arbitrary: k) auto

lemma true_count_from_indices:
  assumes "distinct ids" "\<forall>i \<in> set ids. i < n"
  shows "map_option true_count (mask_from_indices n ids) = Some (length ids)"
proof -
  have sub: "{i. i < n \<and> i \<in> set ids} = set ids" using assms(2) by auto
  have "filter id (map (\<lambda>i. i \<in> set ids) [0..<n]) = map (\<lambda>i. i \<in> set ids) (filter (\<lambda>i. i \<in> set ids) [0..<n])"
    by (simp add: filter_map o_def)
  then have "length (filter id (map (\<lambda>i. i \<in> set ids) [0..<n])) = card (set ids)"
    using distinct_card [of "filter (\<lambda>i. i \<in> set ids) [0..<n]"] sub by auto
  then show ?thesis
    using assms by (simp add: mask_from_indices_def true_count_def list_all_iff distinct_card)
qed

lemma true_count_Not: "true_count (map Not m) = length (filter (\<lambda>i. \<not> m ! i) [0..<length m])"
proof -
  have "length (filter Not (map ((!) m) [0..<length m])) =
      length (filter (\<lambda>i. \<not> m ! i) [0..<length m])"
    by (simp only: length_filter_map o_def)
  then show ?thesis by (simp add: true_count_def map_nth filter_map o_def)
qed

lemma window_of_run:
  assumes "s \<le> e" "e \<le> n" "n \<le> u64_max"
  shows "\<exists>sel'. Some (range_or_empty (min (sat_add s offset) e)
        (min (sat_add (min (sat_add s offset) e) limit) e)) = Some sel' \<and> wf_selection n sel' \<and>
      covered sel' n = take limit (drop offset [s..<e])"
  using assms by (auto simp: min_sat_add drop_upt take_upt) (auto simp: take_upt min_def)

lemma ids_window:
  assumes wf: "wf_selection n (RowIds ids)" and n: "n \<le> u64_max"
  shows "\<exists>sel'. sel_window (RowIds ids) offset limit None n = Some sel' \<and> wf_selection n sel' \<and>
    covered sel' n = take limit (drop offset ids)"
proof -
  let ?s = "min offset (length ids)"
  let ?e = "min (sat_add ?s limit) (length ids)"
  have len: "length ids \<le> n" using wf by (simp add: ascending_length_le)
  then have e: "?e = min (?s + limit) (length ids)" using n by (intro min_sat_add) simp
  have win: "take (?e - ?s) (drop ?s ids) = take limit (drop offset ids)"
    unfolding e by (cases "offset \<le> length ids") (auto simp: min_def)
  have "?s = ?e \<Longrightarrow> take limit (drop offset ids) = []" using win by auto
  then show ?thesis
    using wf win e
    by (auto simp: sel_window_def Let_def checked_simps ascending_take_drop
        dest!: in_take_drop [of _ limit offset])
qed

lemma sel_window_live:
  assumes wf: "wf_selection n sel" "wf_deleted n deleted" and n: "n \<le> u64_max"
  shows "\<exists>sel'. sel_window sel offset limit deleted n = Some sel' \<and> wf_selection n sel' \<and>
    covered sel' n = take limit (drop offset (live_rows sel deleted n))"
proof (cases deleted)
  case None
  show ?thesis
  proof (cases sel)
    case AllRows
    then show ?thesis using window_of_run [of 0 n n offset limit] None n
      by (simp add: sel_window_def live_rows_def Let_def)
  next
    case (RowRange a b)
    then have "clamped a b n = (a, b)" using wf(1) by (simp add: clamped_def Let_def)
    then show ?thesis using window_of_run [of a b n offset limit] None RowRange wf(1) n
      by (simp add: sel_window_def live_rows_def Let_def del: range_or_empty_simps)
  next
    case (RowIds ids)
    then show ?thesis using ids_window [of n ids offset limit] wf(1) n None by (simp add: live_rows_def)
  qed
next
  case (Some d)
  have "take_live d offset limit (covered sel n) =
      Some (take limit (drop offset (filter (\<lambda>i. \<not> d ! i) (covered sel n))))"
    using wf covered_bound [OF wf(1)] Some by (intro take_live_eq) auto
  then show ?thesis
    using wf(1) Some covered_ascending [OF wf(1)] covered_bound [OF wf(1)]
    by (auto simp: sel_window_def live_rows_def covered_def [symmetric] ascending_take_drop
        ascending_filter dest!: in_set_takeD in_set_dropD)
qed

text \<open>
  A window over a view, with or without tombstones, never panics and is exactly its live
  rows, in base row order, after skipping \<open>offset\<close> of them, at most \<open>limit\<close>; the result is a
  well-formed selection.
\<close>

theorem sel_window_refines:
  assumes wf: "wf_selection n sel" "wf_deleted n deleted" and n: "n \<le> u64_max"
  shows "\<exists>sel'. sel_window sel offset limit deleted n = Some sel' \<and> wf_selection n sel' \<and>
    covered sel' n = take limit (drop offset (live_rows sel deleted n))"
  by (rule sel_window_live [OF assms])

theorem sel_window_refines_witness:
  "\<exists>sel'. sel_window (RowRange 1 5) 1 2 (Some [False, False, True, False, False, False]) 6 =
      Some sel' \<and> wf_selection 6 sel' \<and>
    covered sel' 6 = take 2 (drop 1 (live_rows (RowRange 1 5)
      (Some [False, False, True, False, False, False]) 6))"
  by (rule sel_window_refines) (simp_all add: u64_max_def)

lemma live_mask_rows:
  assumes wf: "wf_selection n sel" "length d = n"
  shows "live_mask sel d n = Some (map (\<lambda>i. \<not> d ! i) (covered sel n))"
proof (cases sel)
  case AllRows
  then show ?thesis using wf(2) by (auto intro: nth_equalityI)
next
  case (RowRange a b)
  then have "clamped a b n = (a, b)" using wf(1) by (simp add: clamped_def Let_def)
  moreover have "map Not (take (b - a) (drop a d)) = map (\<lambda>i. \<not> d ! i) [a..<b]"
    using RowRange wf by (intro nth_equalityI) auto
  ultimately show ?thesis using RowRange wf by (auto simp: checked_simps)
next
  case (RowIds ids)
  let ?live = "filter (\<lambda>(position, i). \<not> d ! i) (enumerate 0 ids)"
  have "checked_filter (\<lambda>(position, i). map_option Not (mask_value d i)) (enumerate 0 ids) = Some ?live"
    using RowIds wf by (intro checked_filter_Some) (auto simp: checked_simps in_set_enumerate_eq)
  moreover have "mask_from_indices (length ids) (map fst ?live) = Some (map (\<lambda>i. \<not> d ! i) ids)"
  proof -
    have "k \<in> set (map fst ?live) \<longleftrightarrow> \<not> d ! (ids ! k)" if "k < length ids" for k
      using that by (force simp: in_set_enumerate_eq)
    then have "map (\<lambda>k. k \<in> set (map fst ?live)) [0..<length ids] = map (\<lambda>i. \<not> d ! i) ids"
      by (intro nth_equalityI) (simp_all del: set_map)
    moreover have "list_all (\<lambda>i. i < length ids) (map fst ?live)"
      by (auto simp: list_all_iff in_set_enumerate_eq)
    ultimately show ?thesis by (simp only: mask_from_indices_def if_True)
  qed
  ultimately show ?thesis using RowIds by simp
qed

text \<open>
  Counting a view's live rows counts them: the tombstone mask folded through the selection
  has one set bit per covered row that is not deleted, on each shape of selection.
\<close>

theorem live_len_counts:
  assumes wf: "wf_selection n sel" "wf_deleted n deleted"
  shows "live_len sel deleted n = Some (length (live_rows sel deleted n))"
  using wf
  by (cases deleted)
    (simp_all add: live_len_def live_rows_def sel_len_covered live_mask_rows true_count_def filter_map o_def)

theorem live_len_counts_witness:
  "live_len (RowIds [0, 2, 3]) (Some [True, False, False, True]) 4 = Some 1"
  using live_len_counts [of 4 "RowIds [0, 2, 3]" "Some [True, False, False, True]"]
  by (simp add: live_rows_def)

lemma to_mask_eq:
  assumes "wf_selection n sel"
  shows "to_mask sel n = Some (map (\<lambda>i. i \<in> set (covered sel n)) [0..<n])"
proof (cases sel)
  case AllRows
  then show ?thesis by (auto intro: nth_equalityI)
next
  case (RowRange a b)
  then have "clamped a b n = (a, b)" using assms by (simp add: clamped_def Let_def)
  then show ?thesis using RowRange assms by (auto intro!: nth_equalityI)
next
  case (RowIds ids)
  then show ?thesis using assms by (simp add: mask_from_indices_def list_all_iff)
qed

section \<open>Refining by a mask over the selection's own rows\<close>

text \<open>\<open>keep.indices()\<close> tells all rows, none or the listed ones; a mask of no bits has no row either
  way.\<close>

definition refine :: "row_selection \<Rightarrow> mask \<Rightarrow> row_selection option" where
  "refine sel keep =
     (if list_all id keep then Some sel
      else if list_all Not keep then Some empty_selection
      else let local = positions keep
           in case sel of
                AllRows \<Rightarrow> Some (RowIds local)
              | RowRange a b \<Rightarrow> Some (RowIds (map (\<lambda>i. a + i) local))
              | RowIds ids \<Rightarrow> map_option RowIds (gather (buf_get ids) local))"

lemma refine_kept:
  assumes wf: "wf_selection n sel" and len: "length keep = length (covered sel n)"
  shows "\<exists>sel'. refine sel keep = Some sel' \<and> wf_selection n sel' \<and>
    covered sel' n = map fst (filter snd (zip (covered sel n) keep))"
proof -
  let ?rows = "covered sel n"
  let ?kept = "map ((!) ?rows) (positions keep)"
  have kept: "?kept = map fst (filter snd (zip ?rows keep))"
    by (rule positions_select [OF len])
  have asc: "ascending ?kept"
    by (rule ascending_map_nth [OF covered_ascending [OF wf] ascending_positions])
       (simp add: set_positions len)
  have bound: "\<forall>i \<in> set ?kept. i < n"
    using covered_bound [OF wf] len by (auto simp: set_positions)
  consider (all) "list_all id keep" | (none) "\<not> list_all id keep" "list_all Not keep"
    | (some) "\<not> list_all id keep" "\<not> list_all Not keep" by blast
  then show ?thesis
  proof cases
    case all
    then have "positions keep = [0..<length keep]"
      by (auto simp: positions_def list_all_length intro!: filter_True)
    then have "?kept = ?rows" using map_nth [of ?rows] len by simp
    then show ?thesis using all wf kept by (simp add: refine_def)
  next
    case none
    then have "positions keep = []"
      by (auto simp: positions_def list_all_length filter_empty_conv)
    then show ?thesis using none kept by (simp add: refine_def)
  next
    case some
    have "refine sel keep = Some (RowIds ?kept)"
    proof (cases sel)
      case (RowIds ids)
      then have "gather (buf_get ids) (positions keep) = Some ?kept"
        using len by (auto intro!: gather_Some simp: checked_simps set_positions)
      then show ?thesis using some RowIds by (auto simp: refine_def)
    next
      case AllRows
      then have "map ((!) [0..<n]) (positions keep) = positions keep"
        using len by (intro map_idI) (simp add: set_positions)
      then show ?thesis using some AllRows by (simp add: refine_def)
    qed (use some wf len in \<open>auto simp: refine_def Let_def set_positions\<close>)
    then show ?thesis using asc bound kept by auto
  qed
qed

text \<open>
  Refining a view by a mask with one bit per row of the view never panics and keeps exactly
  the rows whose bit is set: positions among the gathered rows are mapped back to base row ids.
\<close>

theorem refine_refines:
  assumes wf: "wf_selection n sel" and len: "length keep = length (covered sel n)"
  shows "\<exists>sel'. refine sel keep = Some sel' \<and> wf_selection n sel' \<and>
    covered sel' n = map fst (filter snd (zip (covered sel n) keep))"
  by (rule refine_kept [OF wf len])

theorem refine_refines_witness:
  "\<exists>sel'. refine (RowRange 3 6) [True, False, True] = Some sel' \<and> wf_selection 8 sel' \<and>
    covered sel' 8 = map fst (filter snd (zip (covered (RowRange 3 6) 8) [True, False, True]))"
  by (rule refine_refines) simp_all

text \<open>Narrowing to the ids that passed a test (\<open>narrow_to_ids\<close>): every row passing leaves the
  selection as it is, and a contiguous stretch of a range stays a range.\<close>

definition narrow_to_ids :: "row_selection \<Rightarrow> nat list \<Rightarrow> nat \<Rightarrow> row_selection" where
  "narrow_to_ids sel ids len =
     (if ids = [] then empty_selection
      else if length ids = len then sel
      else let first = hd ids; last' = last ids;
               contiguous = (last' - first + 1 = length ids)
           in case sel of
                RowIds _ \<Rightarrow> RowIds ids
              | _ \<Rightarrow> if contiguous then RowRange first (last' + 1) else RowIds ids)"

lemma contiguous_ascending:
  assumes "ascending ids" "ids \<noteq> []" "last ids - hd ids + 1 = length ids"
  shows "ids = [hd ids..<last ids + 1]"
proof -
  note bounds = ascending_hd_last [OF assms(1)]
  have "card (set ids) = card {hd ids..<last ids + 1}"
    using assms bounds(2) [OF hd_in_set [OF assms(2)]] by (simp add: ascending_distinct distinct_card)
  moreover have "set ids \<subseteq> {hd ids..<last ids + 1}" using bounds by (auto simp: less_Suc_eq_le)
  ultimately have "set ids = {hd ids..<last ids + 1}"
    by (intro card_subset_eq) auto
  then have "set ids = set [hd ids..<last ids + 1]" by (simp only: set_upt)
  then show ?thesis by (rule ascending_unique [OF assms(1) ascending_upt])
qed

lemma narrow_to_ids_covered:
  assumes wf: "wf_selection n sel" and ids: "ids = filter p (covered sel n)"
  shows "wf_selection n (narrow_to_ids sel ids (sel_len sel n)) \<and>
    covered (narrow_to_ids sel ids (sel_len sel n)) n = ids"
proof -
  have asc: "ascending ids" using ids covered_ascending [OF wf] by (simp add: ascending_filter)
  have bound: "\<forall>i \<in> set ids. i < n" using ids covered_bound [OF wf] by auto
  have full: "length ids = sel_len sel n \<Longrightarrow> ids = covered sel n"
    using ids by (simp add: sel_len_covered [OF wf] filter_length_full)
  have hl: "hd ids \<le> last ids" if "ids \<noteq> []"
    using ascending_hd_last(2) [OF asc hd_in_set [OF that]] .
  have run: "ids \<noteq> [] \<Longrightarrow> last ids - hd ids + 1 = length ids \<Longrightarrow>
      wf_selection n (RowRange (hd ids) (last ids + 1)) \<and>
      covered (RowRange (hd ids) (last ids + 1)) n = ids"
    using contiguous_ascending [OF asc] bound hl by (simp add: Suc_le_eq le_SucI)
  show ?thesis
    using full run asc bound wf hl
    by (auto simp: narrow_to_ids_def Let_def split: row_selection.split)
qed

section \<open>Splitting into contiguous pieces\<close>

text \<open>\<open>(start..end).step_by(per)\<close> with each piece's end clamped; a zero step panics, which \<open>split\<close>
  never takes.\<close>

function step_chunks :: "nat \<Rightarrow> nat \<Rightarrow> nat \<Rightarrow> (nat \<times> nat) list" where
  "step_chunks start end' per =
     (if start < end' \<and> 0 < per
      then (start, min (sat_add start per) end') # step_chunks (start + per) end' per else [])"
  by pat_completeness auto
termination
  by (relation "measure (\<lambda>(start, end', per). end' - start)") auto

declare step_chunks.simps [simp del]

definition sel_split :: "row_selection \<Rightarrow> nat \<Rightarrow> nat \<Rightarrow> row_selection list" where
  "sel_split sel n base_len =
     (let n = max n 1
      in case as_rows sel base_len of
           Run s e \<Rightarrow>
             (if e - s = 0 then []
              else map (\<lambda>(a, b). RowRange a b) (step_chunks s e (div_ceil (e - s) n)))
         | RunIds ids \<Rightarrow>
             (if length ids = 0 then []
              else map (\<lambda>(a, b). RowIds (take (b - a) (drop a ids)))
                     (step_chunks 0 (length ids) (div_ceil (length ids) n))))"

lemma step_chunks_upt:
  "0 < per \<Longrightarrow> end' \<le> u64_max \<Longrightarrow>
   concat (map (\<lambda>(a, b). [a..<b]) (step_chunks start end' per)) = [start..<end']"
proof (induction start end' per rule: step_chunks.induct)
  case (1 start end' per)
  show ?case
  proof (cases "start < end'")
    case True
    have "concat (map (\<lambda>(a, b). [a..<b]) (step_chunks start end' per)) =
        [start..<min (start + per) end'] @ [start + per..<end']"
      using True 1 by (subst step_chunks.simps) (simp add: min_sat_add)
    also have "\<dots> = [start..<end']"
      using upt_split [of start "start + per" end'] True by (cases "start + per \<le> end'") auto
    finally show ?thesis .
  qed (simp add: step_chunks.simps)
qed

lemma step_chunks_bounds:
  "end' \<le> u64_max \<Longrightarrow> (a, b) \<in> set (step_chunks start end' per) \<Longrightarrow> start \<le> a \<and> a < b \<and> b \<le> end'"
proof (induction start end' per rule: step_chunks.induct)
  case (1 start end' per)
  then show ?case
    by (subst (asm) (2) step_chunks.simps) (force simp: min_sat_add split: if_splits)
qed

lemma step_chunks_length:
  "end' - start \<le> k * per \<Longrightarrow> length (step_chunks start end' per) \<le> k"
proof (induction k arbitrary: start)
  case 0
  then show ?case by (simp add: step_chunks.simps)
next
  case (Suc k)
  then have "end' - (start + per) \<le> k * per" by simp
  then show ?case using Suc.IH [of "start + per"] by (subst step_chunks.simps) simp
qed

lemma slices_concat:
  assumes "\<forall>(a, b) \<in> set cs. b \<le> length xs"
  shows "concat (map (\<lambda>(a, b). take (b - a) (drop a xs)) cs) =
    map ((!) xs) (concat (map (\<lambda>(a, b). [a..<b]) cs))"
proof -
  have "take (b - a) (drop a xs) = map ((!) xs) [a..<b]" if "b \<le> length xs" for a b
    using that by (intro nth_equalityI) auto
  then show ?thesis using assms by (induction cs) auto
qed

lemma split_count: "length (step_chunks s e (div_ceil (e - s) (max n 1))) \<le> max n 1"
  by (rule step_chunks_length) (simp add: div_ceil_mult_ge)

lemma split_run:
  assumes run: "as_rows sel base_len = Run s e" "e \<le> base_len" "s < e" and base: "base_len \<le> u64_max"
  shows "concat (map (\<lambda>piece. covered piece base_len) (sel_split sel n base_len)) = [s..<e] \<and>
    length (sel_split sel n base_len) \<le> max n 1 \<and>
    (\<forall>piece \<in> set (sel_split sel n base_len).
       wf_selection base_len piece \<and> covered piece base_len \<noteq> [])"
proof -
  let ?cs = "step_chunks s e (div_ceil (e - s) (max n 1))"
  have b: "a < b \<and> b \<le> base_len" if "(a, b) \<in> set ?cs" for a b
    using step_chunks_bounds [OF le_trans [OF run(2) base] that] run(2) by linarith
  have one: "wf_selection base_len (RowRange a b) \<and> covered (RowRange a b) base_len = [a..<b] \<and>
      [a..<b] \<noteq> []" if "(a, b) \<in> set ?cs" for a b
    using b [OF that] by simp
  have pieces: "sel_split sel n base_len = map (\<lambda>(a, b). RowRange a b) ?cs"
    using run by (simp add: sel_split_def Let_def)
  have "map (\<lambda>piece. covered piece base_len) (sel_split sel n base_len) = map (\<lambda>(a, b). [a..<b]) ?cs"
    unfolding pieces map_map by (rule map_cong) (auto simp: one simp del: covered_simps)
  then have "concat (map (\<lambda>piece. covered piece base_len) (sel_split sel n base_len)) = [s..<e]"
    using step_chunks_upt [of "div_ceil (e - s) (max n 1)" e s] run base by (simp add: div_ceil_pos)
  moreover have "\<forall>piece \<in> set (sel_split sel n base_len). wf_selection base_len piece \<and> covered piece base_len \<noteq> []"
  proof
    fix piece
    assume "piece \<in> set (sel_split sel n base_len)"
    then obtain a c where "(a, c) \<in> set ?cs" "piece = RowRange a c" by (auto simp: pieces)
    then show "wf_selection base_len piece \<and> covered piece base_len \<noteq> []"
      using one [of a c] by (simp del: covered_simps)
  qed
  ultimately show ?thesis using split_count [of s e n] by (simp add: pieces)
qed

lemma split_ids:
  assumes wf: "wf_selection base_len (RowIds ids)" "ids \<noteq> []" and base: "base_len \<le> u64_max"
  shows "concat (map (\<lambda>piece. covered piece base_len) (sel_split (RowIds ids) n base_len)) = ids \<and>
    length (sel_split (RowIds ids) n base_len) \<le> max n 1 \<and>
    (\<forall>piece \<in> set (sel_split (RowIds ids) n base_len).
       wf_selection base_len piece \<and> covered piece base_len \<noteq> [])"
proof -
  let ?cs = "step_chunks 0 (length ids) (div_ceil (length ids) (max n 1))"
  have lb: "length ids \<le> u64_max" using ascending_length_le wf base by fastforce
  have b: "a < b \<and> b \<le> length ids" if "(a, b) \<in> set ?cs" for a b
    using step_chunks_bounds [OF lb that] by simp
  have "concat (map (\<lambda>(a, b). take (b - a) (drop a ids)) ?cs) = map ((!) ids) [0..<length ids]"
    using b wf(2) step_chunks_upt [OF _ lb, of "div_ceil (length ids) (max n 1)" 0]
    by (subst slices_concat) (auto simp: div_ceil_pos)
  then have cat: "concat (map (\<lambda>(a, b). take (b - a) (drop a ids)) ?cs) = ids"
    by (simp add: map_nth)
  have pieces: "sel_split (RowIds ids) n base_len = map (\<lambda>(a, b). RowIds (take (b - a) (drop a ids))) ?cs"
    using wf(2) by (simp add: sel_split_def Let_def)
  then have "map (\<lambda>piece. covered piece base_len) (sel_split (RowIds ids) n base_len) =
      map (\<lambda>(a, b). take (b - a) (drop a ids)) ?cs"
    by (simp add: split_def)
  then have "concat (map (\<lambda>piece. covered piece base_len) (sel_split (RowIds ids) n base_len)) = ids"
    by (simp only: cat)
  moreover have wfp: "wf_selection base_len (RowIds (take (c - a) (drop a ids)))" for a c
    using wf(1) by (auto simp: ascending_take_drop dest: in_take_drop)
  moreover have "\<forall>piece \<in> set (sel_split (RowIds ids) n base_len).
      wf_selection base_len piece \<and> covered piece base_len \<noteq> []"
  proof
    fix piece
    assume "piece \<in> set (sel_split (RowIds ids) n base_len)"
    then obtain a c where "(a, c) \<in> set ?cs" "piece = RowIds (take (c - a) (drop a ids))"
      by (auto simp: pieces)
    then show "wf_selection base_len piece \<and> covered piece base_len \<noteq> []"
      using b [of a c] wfp [of c a] by simp
  qed
  moreover have "length (sel_split (RowIds ids) n base_len) \<le> max n 1"
    using split_count [of 0 "length ids" n] by (simp add: pieces)
  ultimately show ?thesis by blast
qed

text \<open>
  Partitioning a view gives at most \<open>max(n, 1)\<close> pieces, none of them empty, each a well-formed
  selection, whose rows one after the other are the view's rows: no row is lost, repeated or
  moved.
\<close>

theorem sel_split_partitions:
  assumes wf: "wf_selection base_len sel" and base: "base_len \<le> u64_max"
  shows "concat (map (\<lambda>piece. covered piece base_len) (sel_split sel n base_len)) =
      covered sel base_len \<and>
    length (sel_split sel n base_len) \<le> max n 1 \<and>
    (\<forall>piece \<in> set (sel_split sel n base_len).
       wf_selection base_len piece \<and> covered piece base_len \<noteq> [])"
proof (cases "as_rows sel base_len")
  case (Run s e)
  have "covered sel base_len = [s..<e]" "e \<le> base_len"
    using Run by (simp add: covered_def, cases sel) (auto simp: clamped_def Let_def)
  then show ?thesis using split_run [OF Run _ _ base, of n] Run
    by (cases "s < e") (simp_all add: sel_split_def Let_def)
next
  case (RunIds ids)
  then have "sel = RowIds ids" by (cases sel) (auto simp: clamped_def Let_def)
  then show ?thesis using split_ids [of base_len ids n] wf base
    by (cases "ids = []") (simp_all add: sel_split_def Let_def)
qed

theorem sel_split_partitions_witness:
  "concat (map (\<lambda>piece. covered piece 9) (sel_split (RowRange 2 9) 3 9)) = covered (RowRange 2 9) 9 \<and>
   length (sel_split (RowRange 2 9) 3 9) \<le> max 3 1"
  using sel_split_partitions [of 9 "RowRange 2 9" 3] by (simp add: u64_max_def)

section \<open>Narrowing by a sorted column's runs\<close>

type_synonym runs = "(nat \<times> nat) list"

fun clip_runs :: "row_selection \<Rightarrow> runs \<Rightarrow> runs option" where
  "clip_runs (RowIds ids) runs = None"
| "clip_runs AllRows runs =
     Some (filter (\<lambda>(a, b). a < b) (map (\<lambda>(a, b). (max a 0, min b u64_max)) runs))"
| "clip_runs (RowRange c d) runs =
     Some (filter (\<lambda>(a, b). a < b) (map (\<lambda>(a, b). (max a c, min b d)) runs))"

text \<open>Each run's window of the ascending id list, searched from where the last one ended.\<close>

fun id_windows :: "nat list \<Rightarrow> nat \<Rightarrow> runs \<Rightarrow> runs" where
  "id_windows ids from [] = []"
| "id_windows ids from ((start, end') # runs) =
     (let lo = from + partition_point (\<lambda>i. i < start) (drop from ids);
          hi = lo + partition_point (\<lambda>i. i < end') (drop lo ids)
      in (if lo < hi then [(lo, hi)] else []) @ id_windows ids hi runs)"

definition intersect_runs :: "row_selection \<Rightarrow> runs \<Rightarrow> row_selection option" where
  "intersect_runs sel runs =
     (case sel of
        RowIds ids \<Rightarrow>
          (case id_windows ids 0 runs of
             [] \<Rightarrow> Some empty_selection
           | [(lo, hi)] \<Rightarrow> map_option RowIds (buf_slice ids lo hi)
           | windows \<Rightarrow> map_option (RowIds \<circ> concat) (gather (\<lambda>(lo, hi). buf_slice ids lo hi) windows))
      | _ \<Rightarrow>
          (case clip_runs sel runs of
             None \<Rightarrow> None
           | Some [] \<Rightarrow> Some empty_selection
           | Some [(a, b)] \<Rightarrow> Some (RowRange a b)
           | Some runs \<Rightarrow> Some (RowIds (concat (map (\<lambda>(a, b). [a..<b]) runs)))))"

text \<open>Ascending, disjoint runs within the base, and the rows they hold.\<close>

definition wf_runs :: "nat \<Rightarrow> runs \<Rightarrow> bool" where
  "wf_runs n runs \<longleftrightarrow>
     list_all (\<lambda>(a, b). a \<le> b \<and> b \<le> n) runs \<and> sorted_wrt (\<lambda>(a, b) (c, d). b \<le> c) runs"

definition in_runs :: "runs \<Rightarrow> nat \<Rightarrow> bool" where
  "in_runs runs i \<longleftrightarrow> list_ex (\<lambda>(a, b). a \<le> i \<and> i < b) runs"

lemma in_runs_simps [simp]:
  "\<not> in_runs [] i"
  "in_runs ((a, b) # runs) i \<longleftrightarrow> a \<le> i \<and> i < b \<or> in_runs runs i"
  by (simp_all add: in_runs_def)

lemma wf_runs_Cons:
  "wf_runs n ((a, b) # runs) \<longleftrightarrow> a \<le> b \<and> b \<le> n \<and> wf_runs n runs \<and> (\<forall>(c, d) \<in> set runs. b \<le> c)"
  by (auto simp: wf_runs_def)

lemma in_runs_after: "\<forall>(c, d) \<in> set runs. b \<le> c \<Longrightarrow> in_runs runs i \<Longrightarrow> b \<le> i"
  by (fastforce simp: in_runs_def list_ex_iff)

lemma in_runs_bound: "wf_runs n runs \<Longrightarrow> in_runs runs i \<Longrightarrow> i < n"
  by (fastforce simp: in_runs_def wf_runs_def list_ex_iff list_all_iff)

lemma clipped_rows:
  "wf_runs n runs \<Longrightarrow>
   concat (map (\<lambda>(a, b). [a..<b])
     (filter (\<lambda>(a, b). a < b) (map (\<lambda>(a, b). (max a c, min b d)) runs))) =
   filter (in_runs runs) [c..<d]"
proof (induction runs)
  case (Cons r runs)
  obtain a b where r: "r = (a, b)" by (cases r)
  have after: "\<forall>(c, d) \<in> set runs. b \<le> c" and wf: "wf_runs n runs" and ab: "a \<le> b"
    using Cons.prems r by (auto simp: wf_runs_Cons)
  have "filter (in_runs (r # runs)) [c..<d] =
      [max a c..<min b d] @ filter (in_runs runs) [c..<d]"
  proof (rule ascending_unique)
    show "ascending ([max a c..<min b d] @ filter (in_runs runs) [c..<d])"
      using in_runs_after [OF after] by (fastforce simp: sorted_wrt_append ascending_filter)
  qed (auto simp: r ascending_filter)
  then show ?case using Cons.IH [OF wf] by (auto simp: r simp del: in_runs_simps)
qed simp

lemma id_windows_rows:
  assumes "ascending ids" "wf_runs n runs" "from \<le> length ids"
  shows "list_all (\<lambda>(lo, hi). lo \<le> hi \<and> hi \<le> length ids) (id_windows ids from runs) \<and>
    concat (map (\<lambda>(lo, hi). take (hi - lo) (drop lo ids)) (id_windows ids from runs)) =
    filter (in_runs runs) (drop from ids)"
  using assms
proof (induction runs arbitrary: "from")
  case (Cons r runs)
  obtain a b where r: "r = (a, b)" by (cases r)
  have after: "\<forall>(c, d) \<in> set runs. b \<le> c" and wf: "wf_runs n runs" and ab: "a \<le> b"
    using Cons.prems r by (auto simp: wf_runs_Cons)
  let ?D = "drop from ids"
  define lo where "lo = from + partition_point (\<lambda>i. i < a) ?D"
  define hi where "hi = lo + partition_point (\<lambda>i. i < b) (drop lo ids)"
  have D: "sorted ?D" using Cons.prems(1) by (simp add: ascending_sorted sorted_wrt_drop)
  have dlo: "drop lo ids = filter (\<lambda>i. a \<le> i) ?D"
    using drop_partition_point [OF D] by (simp add: lo_def add.commute)
  have L: "sorted (drop lo ids)" using Cons.prems(1) by (simp add: ascending_sorted sorted_wrt_drop)
  have dhi: "drop hi ids = filter (\<lambda>i. b \<le> i) ?D"
  proof -
    have "drop hi ids = drop (partition_point (\<lambda>i. i < b) (drop lo ids)) (drop lo ids)"
      by (simp add: hi_def add.commute)
    also have "\<dots> = filter (\<lambda>i. b \<le> i) (drop lo ids)" by (rule drop_partition_point [OF L])
    also have "\<dots> = filter (\<lambda>i. b \<le> i) ?D" using ab by (auto simp: dlo intro!: filter_cong)
    finally show ?thesis .
  qed
  have slice: "take (hi - lo) (drop lo ids) = filter (\<lambda>i. a \<le> i \<and> i < b) ?D"
    using take_partition_point [OF L, of b] by (simp add: hi_def dlo conj_commute)
  have lo: "lo \<le> length ids"
    using Cons.prems(3) by (simp add: lo_def partition_point_less [OF D])
      (metis length_drop length_filter_le le_diff_conv2 add.commute)
  have hi: "hi \<le> length ids"
    using lo by (simp add: hi_def partition_point_less [OF L])
      (metis length_drop length_filter_le le_diff_conv2 add.commute)
  have split: "?D = filter (\<lambda>i. i < b) ?D @ filter (\<lambda>i. b \<le> i) ?D"
    using take_partition_point [OF D, of b] drop_partition_point [OF D, of b]
    by (metis append_take_drop_id)
  have "filter (in_runs (r # runs)) (filter (\<lambda>i. i < b) ?D) = filter (\<lambda>i. a \<le> i \<and> i < b) ?D"
    using in_runs_after [OF after] by (force simp: r intro!: filter_cong)
  moreover have "filter (in_runs (r # runs)) (filter (\<lambda>i. b \<le> i) ?D) =
      filter (in_runs runs) (filter (\<lambda>i. b \<le> i) ?D)"
    by (force simp: r intro!: filter_cong)
  ultimately have "filter (in_runs (r # runs)) ?D =
      take (hi - lo) (drop lo ids) @ filter (in_runs runs) (drop hi ids)"
    by (metis split filter_append slice dhi)
  moreover have "id_windows ids from (r # runs) =
      (if lo < hi then [(lo, hi)] else []) @ id_windows ids hi runs"
    by (simp add: r lo_def hi_def Let_def)
  ultimately show ?case
    using Cons.IH [OF Cons.prems(1) wf hi] hi by simp
qed (simp add: wf_runs_def)

lemma intersect_runs_narrows:
  assumes wf: "wf_selection n sel" and runs: "wf_runs n runs" and n: "n \<le> u64_max"
  shows "\<exists>sel'. intersect_runs sel runs = Some sel' \<and> wf_selection n sel' \<and>
    covered sel' n = filter (in_runs runs) (covered sel n)"
proof -
  let ?rows = "filter (in_runs runs) (covered sel n)"
  have asc: "ascending ?rows" by (rule ascending_filter [OF covered_ascending [OF wf]])
  have bound: "\<forall>i \<in> set ?rows. i < n" using covered_bound [OF wf] by auto
  show ?thesis
  proof (cases "\<exists>ids. sel = RowIds ids")
    case True
    then obtain ids where sel: "sel = RowIds ids" by blast
    let ?w = "id_windows ids 0 runs"
    have ids: "ascending ids" using wf sel by simp
    note w = id_windows_rows [OF ids runs le0]
    have "gather (\<lambda>(lo, hi). buf_slice ids lo hi) ?w =
        Some (map (\<lambda>(lo, hi). take (hi - lo) (drop lo ids)) ?w)"
      using w by (intro gather_Some) (auto simp: checked_simps list_all_iff)
    then have g: "map_option concat (gather (\<lambda>(lo, hi). buf_slice ids lo hi) ?w) = Some ?rows"
      using w sel by simp
    consider (none) "?w = []" | (one) lo hi where "?w = [(lo, hi)]"
      | (more) x x' y ws where "?w = (x, x') # y # ws" by (metis list.exhaust surj_pair)
    then show ?thesis
    proof cases
      case none
      then show ?thesis using g sel by (simp add: intersect_runs_def)
    next
      case one
      then show ?thesis using g sel asc bound
        by (simp add: intersect_runs_def split: option.splits)
    next
      case more
      then have "intersect_runs sel runs =
          map_option RowIds (map_option concat (gather (\<lambda>(lo, hi). buf_slice ids lo hi) ?w))"
        using sel by (simp add: intersect_runs_def option.map_comp del: gather.simps)
      then show ?thesis using g asc bound by auto
    qed
  next
    case False
    then obtain cs where cs: "clip_runs sel runs = Some cs"
      and rows: "concat (map (\<lambda>(a, b). [a..<b]) cs) = ?rows" and lt: "\<forall>(a, b) \<in> set cs. a < b"
    proof (cases sel)
      case AllRows
      then have "filter (in_runs runs) [0..<u64_max] = ?rows"
        using n in_runs_bound [OF runs]
        by (intro ascending_unique) (auto intro: ascending_filter order.strict_trans2)
      then show thesis
        using clipped_rows [OF runs, of 0 u64_max] AllRows by (intro that) auto
    next
      case (RowRange c d)
      then show thesis
        using clipped_rows [OF runs, of c d] wf by (intro that) auto
    qed blast
    have eq: "intersect_runs sel runs =
        (case cs of [] \<Rightarrow> Some empty_selection | [(a, b)] \<Rightarrow> Some (RowRange a b)
         | runs \<Rightarrow> Some (RowIds (concat (map (\<lambda>(a, b). [a..<b]) runs))))"
      using False cs by (cases sel) (auto simp: intersect_runs_def)
    consider (none) "cs = []" | (one) a b where "cs = [(a, b)]"
      | (more) x y ws where "cs = x # y # ws" by (metis list.exhaust surj_pair)
    then show ?thesis
    proof cases
      case one
      then have ab: "a < b" and r: "[a..<b] = ?rows" using lt rows by auto
      have "b - 1 \<in> set ?rows" using ab by (simp only: r [symmetric]) auto
      then have "b \<le> n" using bound by fastforce
      then show ?thesis using one eq ab r by simp
    qed (use eq rows asc bound in auto)
  qed
qed

section \<open>Narrowing steps\<close>

text \<open>
  What every narrowing of a view promises: on a well-formed selection it does not panic, and it
  keeps the rows it admits, in order. Chains of narrowings, and their live rows, follow from that
  alone.
\<close>

fun narrow_chain ::
    "('a \<Rightarrow> row_selection \<Rightarrow> row_selection option) \<Rightarrow> 'a list \<Rightarrow> row_selection \<Rightarrow> row_selection option"
where
  "narrow_chain narrow [] sel = Some sel"
| "narrow_chain narrow (x # xs) sel =
     (case narrow x sel of None \<Rightarrow> None | Some sel' \<Rightarrow> narrow_chain narrow xs sel')"

locale narrowing =
  fixes narrow :: "'a \<Rightarrow> row_selection \<Rightarrow> row_selection option"
    and ok :: "nat \<Rightarrow> 'a \<Rightarrow> bool"
    and admits :: "'a \<Rightarrow> nat \<Rightarrow> bool"
  assumes narrow: "wf_selection n sel \<Longrightarrow> ok n x \<Longrightarrow> n \<le> u64_max \<Longrightarrow>
    \<exists>sel'. narrow x sel = Some sel' \<and> wf_selection n sel' \<and>
      covered sel' n = filter (admits x) (covered sel n)"
begin

lemma chain:
  assumes "wf_selection n sel" "list_all (ok n) xs" "n \<le> u64_max"
  shows "\<exists>sel'. narrow_chain narrow xs sel = Some sel' \<and> wf_selection n sel' \<and>
    covered sel' n = filter (\<lambda>i. list_all (\<lambda>x. admits x i) xs) (covered sel n)"
  using assms
proof (induction xs arbitrary: sel)
  case (Cons x xs)
  then obtain sel' where "narrow x sel = Some sel'" "wf_selection n sel'"
    "covered sel' n = filter (admits x) (covered sel n)"
    using narrow by fastforce
  then show ?case using Cons.IH [of sel'] Cons.prems by (simp add: conj_commute)
qed simp

lemma chain_live:
  assumes "wf_selection n sel" "list_all (ok n) xs" "n \<le> u64_max"
    and "narrow_chain narrow xs sel = Some sel'"
  shows "live_rows sel' deleted n =
    filter (\<lambda>i. list_all (\<lambda>x. admits x i) xs) (live_rows sel deleted n)"
  using chain [OF assms(1-3)] assms(4) by (auto simp: live_rows_def intro!: filter_cong)

lemma chain_order:
  assumes "wf_selection n sel" "list_all (ok n) xs" "n \<le> u64_max" "mset ys = mset xs"
  shows "map_option (\<lambda>sel. covered sel n) (narrow_chain narrow ys sel) =
    map_option (\<lambda>sel. covered sel n) (narrow_chain narrow xs sel)"
proof -
  have "set ys = set xs" using assms(4) by (rule mset_eq_setD)
  then have "list_all (ok n) ys" "(\<lambda>i. list_all (\<lambda>x. admits x i) ys) = (\<lambda>i. list_all (\<lambda>x. admits x i) xs)"
    using assms(2) by (auto simp: list_all_iff)
  then show ?thesis
    using chain [OF assms(1-3)] chain [OF assms(1) _ assms(3), of ys] by auto
qed

end

interpretation by_range: narrowing
    "\<lambda>(a, b) sel. intersect_range sel a b" "\<lambda>n (a, b). a \<le> b \<and> b \<le> n"
    "\<lambda>(a, b) i. a \<le> i \<and> i < b"
  by unfold_locales (auto dest: intersect_range_narrows)

interpretation by_ids: narrowing
    "\<lambda>ids sel. intersect_ids sel ids" "\<lambda>n ids. ascending ids \<and> (\<forall>i \<in> set ids. i < n)"
    "\<lambda>ids i. i \<in> set ids"
  by unfold_locales (auto dest: intersect_ids_narrows)

interpretation by_runs: narrowing
    "\<lambda>runs sel. intersect_runs sel runs" wf_runs in_runs
  by unfold_locales (rule intersect_runs_narrows)

text \<open>A match narrows one view by all three in turn.\<close>

datatype narrowing_step = ByRange nat nat | ByIds "nat list" | ByRuns runs

fun narrow_step :: "narrowing_step \<Rightarrow> row_selection \<Rightarrow> row_selection option" where
  "narrow_step (ByRange a b) sel = intersect_range sel a b"
| "narrow_step (ByIds ids) sel = intersect_ids sel ids"
| "narrow_step (ByRuns runs) sel = intersect_runs sel runs"

fun step_ok :: "nat \<Rightarrow> narrowing_step \<Rightarrow> bool" where
  "step_ok n (ByRange a b) \<longleftrightarrow> a \<le> b \<and> b \<le> n"
| "step_ok n (ByIds ids) \<longleftrightarrow> ascending ids \<and> (\<forall>i \<in> set ids. i < n)"
| "step_ok n (ByRuns runs) \<longleftrightarrow> wf_runs n runs"

fun step_admits :: "narrowing_step \<Rightarrow> nat \<Rightarrow> bool" where
  "step_admits (ByRange a b) = (\<lambda>i. a \<le> i \<and> i < b)"
| "step_admits (ByIds ids) = (\<lambda>i. i \<in> set ids)"
| "step_admits (ByRuns runs) = in_runs runs"

interpretation steps: narrowing narrow_step step_ok step_admits
proof
  fix n sel x
  assume "wf_selection n sel" "step_ok n x" "n \<le> u64_max"
  then show "\<exists>sel'. narrow_step x sel = Some sel' \<and> wf_selection n sel' \<and>
      covered sel' n = filter (step_admits x) (covered sel n)"
    using by_range.narrow [of n sel "(a, b)" for a b] by_ids.narrow [of n sel]
      by_runs.narrow [of n sel]
    by (cases x) auto
qed

section \<open>Properties\<close>

text \<open>
  C9. However a match narrows a view (row ranges, ascending id lists and ascending, disjoint runs,
  in any number), no step panics, the selection stays well-formed, and the live rows left are
  exactly the view's live rows that every step admits, in base row order.
\<close>

theorem narrow_chain_refines:
  assumes "wf_selection n sel" "list_all (step_ok n) steps" "n \<le> u64_max"
  shows "\<exists>sel'. narrow_chain narrow_step steps sel = Some sel' \<and> wf_selection n sel' \<and>
    live_rows sel' deleted n =
      filter (\<lambda>i. list_all (\<lambda>x. step_admits x i) steps) (live_rows sel deleted n)"
  using steps.chain [OF assms] steps.chain_live [OF assms] by blast

theorem narrow_chain_refines_witness:
  "\<exists>sel'. narrow_chain narrow_step
        [ByRuns [(1, 4), (5, 8)], ByIds [0, 2, 3, 5, 9], ByRange 2 5] AllRows = Some sel' \<and>
    wf_selection 10 sel' \<and> live_rows sel' None 10 = [2, 3]"
proof -
  let ?steps = "[ByRuns [(1, 4), (5, 8)], ByIds [0, 2, 3, 5, 9], ByRange 2 5]"
  have "filter (\<lambda>i. list_all (\<lambda>x. step_admits x i) ?steps) (live_rows AllRows None 10) = [2, 3]"
    by code_simp
  then show ?thesis
    using narrow_chain_refines [of 10 AllRows ?steps None] by (simp add: u64_max_def wf_runs_def)
qed

text \<open>
  The order in which a view is narrowed does not matter: permuting the steps leaves the same
  rows.
\<close>

theorem narrow_chain_order:
  assumes "wf_selection n sel" "list_all (step_ok n) steps" "n \<le> u64_max"
    and "mset steps' = mset steps"
  shows "map_option (\<lambda>sel. covered sel n) (narrow_chain narrow_step steps' sel) =
    map_option (\<lambda>sel. covered sel n) (narrow_chain narrow_step steps sel)"
  by (rule steps.chain_order [OF assms])

theorem narrow_chain_order_witness:
  "map_option (\<lambda>sel. covered sel 9) (narrow_chain narrow_step [ByIds [1, 4, 6], ByRange 2 5] AllRows) =
   map_option (\<lambda>sel. covered sel 9) (narrow_chain narrow_step [ByRange 2 5, ByIds [1, 4, 6]] AllRows)"
  by (rule narrow_chain_order) (simp_all add: u64_max_def)

end
