(* ===== verification/Columns.thy ===== *)
theory Columns
  imports Prelude
begin

text \<open>
  The kernels over one column of term codes, \<open>core/src/columns/mod.rs\<close>: distinct values and value
  counts (each through a direct-mapped table where the codes are dense, through a hash table
  otherwise), the checked gather, and the starts of runs of equal rows. A code is a natural number,
  a hash set the set of its elements; a table read or write out of range is \<^term>\<open>None\<close>, and each
  kernel is shown never to do one.
\<close>

type_synonym term_code = nat

definition dense_table_fits :: "nat \<Rightarrow> nat \<Rightarrow> bool" where
  "dense_table_fits span len = (span < max (sat_mul len 4) 65536)"

fun max_code :: "nat list \<Rightarrow> nat option" where
  "max_code [] = None"
| "max_code (c # cs) = Some (foldl max c cs)"

definition buf_set :: "'a list \<Rightarrow> nat \<Rightarrow> 'a \<Rightarrow> 'a list option" where
  "buf_set xs i v = (if i < length xs then Some (xs[i := v]) else None)"

lemma buf_set_Some [checked_simps]: "i < length xs \<Longrightarrow> buf_set xs i v = Some (xs[i := v])"
  by (simp add: buf_set_def)

section \<open>Distinct codes in first-seen order\<close>

fun distinct_dense :: "nat list \<Rightarrow> bool list \<Rightarrow> nat list \<Rightarrow> nat list option" where
  "distinct_dense [] seen out = Some out"
| "distinct_dense (c # cs) seen out =
     (case buf_get seen c of
        None \<Rightarrow> None
      | Some True \<Rightarrow> distinct_dense cs seen out
      | Some False \<Rightarrow> distinct_dense cs (seen[c := True]) (out @ [c]))"

fun distinct_hashed :: "nat list \<Rightarrow> nat set \<Rightarrow> nat list \<Rightarrow> nat list" where
  "distinct_hashed [] seen out = out"
| "distinct_hashed (c # cs) seen out =
     (if c \<in> seen then distinct_hashed cs seen out
      else distinct_hashed cs (insert c seen) (out @ [c]))"

definition distinct_first_seen :: "nat list \<Rightarrow> nat list option" where
  "distinct_first_seen codes =
     (case max_code codes of
        None \<Rightarrow> Some []
      | Some m \<Rightarrow>
          if dense_table_fits m (length codes)
          then distinct_dense codes (replicate (m + 1) False) []
          else Some (distinct_hashed codes {} []))"

text \<open>The reference: each code at its first occurrence.\<close>

definition first_seen :: "nat list \<Rightarrow> nat list" where
  "first_seen codes = rev (remdups (rev codes))"

lemma first_seen_snoc:
  "first_seen (cs @ [c]) = (if c \<in> set cs then first_seen cs else first_seen cs @ [c])"
  by (simp add: first_seen_def)

lemma set_first_seen [simp]: "set (first_seen codes) = set codes"
  by (simp add: first_seen_def)

lemma distinct_first_seen_list [simp]: "distinct (first_seen codes)"
  by (simp add: first_seen_def)

lemma foldl_max_ge: "(c::nat) \<le> foldl max c cs"
proof (induction cs arbitrary: c)
  case (Cons d cs)
  then show ?case using le_trans [OF max.cobounded1 Cons.IH [of "max c d"]] by simp
qed simp

lemma foldl_max_bound: "x \<in> set cs \<Longrightarrow> x \<le> foldl max (c::nat) cs"
proof (induction cs arbitrary: c)
  case (Cons d cs)
  then show ?case using foldl_max_ge [of "max c d" cs] by auto
qed simp

lemma max_code_ge: "max_code codes = Some m \<Longrightarrow> x \<in> set codes \<Longrightarrow> x \<le> m"
  by (cases codes) (auto simp: foldl_max_ge foldl_max_bound)

lemma max_code_None [simp]: "max_code codes = None \<longleftrightarrow> codes = []"
  by (cases codes) auto

lemma distinct_dense_eq:
  assumes "\<forall>c \<in> set (done @ cs). c < length seen"
    and "\<forall>c < length seen. seen ! c \<longleftrightarrow> c \<in> set done"
  shows "distinct_dense cs seen (first_seen done) = Some (first_seen (done @ cs))"
  using assms
proof (induction cs arbitrary: seen "done")
  case (Cons c cs)
  then have get: "buf_get seen c = Some (c \<in> set done)" by (simp add: checked_simps)
  show ?case
  proof (cases "c \<in> set done")
    case True
    then have "first_seen (done @ [c]) = first_seen done" by (simp add: first_seen_snoc)
    then show ?thesis
      using True get Cons.prems Cons.IH [of "done @ [c]" seen] by (auto split: bool.split)
  next
    case False
    then have "first_seen (done @ [c]) = first_seen done @ [c]" by (simp add: first_seen_snoc)
    then show ?thesis
      using False get Cons.prems Cons.IH [of "done @ [c]" "seen[c := True]"]
      by (auto simp: nth_list_update)
  qed
qed simp

lemma distinct_hashed_eq:
  "seen = set done \<Longrightarrow> distinct_hashed cs seen (first_seen done) = first_seen (done @ cs)"
proof (induction cs arbitrary: seen "done")
  case (Cons c cs)
  then show ?case
    using Cons.IH [of _ "done @ [c]"] by (auto simp: first_seen_snoc insert_absorb)
qed simp

text \<open>
  The distinct codes of a column come out once each, in first-seen order, whichever table the
  kernel picks, and its direct-mapped table is never read past its end.
\<close>

theorem distinct_first_seen_correct: "distinct_first_seen codes = Some (first_seen codes)"
proof (cases "max_code codes")
  case None
  then show ?thesis by (simp add: distinct_first_seen_def first_seen_def)
next
  case (Some m)
  then have bound: "\<forall>c \<in> set codes. c < length (replicate (m + 1) False)"
    by (auto dest: max_code_ge simp: less_Suc_eq_le)
  have "distinct_dense codes (replicate (m + 1) False) [] = Some (first_seen codes)"
    using distinct_dense_eq [of "[]" codes "replicate (m + 1) False"] bound
    by (simp add: first_seen_def nth_append del: replicate_Suc)
  moreover have "distinct_hashed codes {} [] = first_seen codes"
    using distinct_hashed_eq [of "{}" "[]" codes] by (simp add: first_seen_def)
  ultimately show ?thesis using Some by (simp add: distinct_first_seen_def)
qed

section \<open>Value counts\<close>

text \<open>\<open>slot ! c\<close> is the 1-based position of \<open>c\<close> in \<open>order\<close>, 0 for unseen.\<close>

fun counts_dense :: "nat list \<Rightarrow> nat list \<Rightarrow> nat list \<Rightarrow> nat list \<Rightarrow> (nat list \<times> nat list) option" where
  "counts_dense [] slot order counts = Some (order, counts)"
| "counts_dense (c # cs) slot order counts =
     (case buf_get slot c of
        None \<Rightarrow> None
      | Some s \<Rightarrow>
          if s = 0 then
            counts_dense cs (slot[c := length (order @ [c])]) (order @ [c]) (counts @ [1])
          else
            (case buf_get counts (s - 1) of
               None \<Rightarrow> None
             | Some n \<Rightarrow> counts_dense cs slot order (counts[s - 1 := n + 1])))"

fun counts_hashed ::
    "nat list \<Rightarrow> (nat \<rightharpoonup> nat) \<Rightarrow> nat list \<Rightarrow> nat list \<Rightarrow> (nat list \<times> nat list) option" where
  "counts_hashed [] slot order counts = Some (order, counts)"
| "counts_hashed (c # cs) slot order counts =
     (case slot c of
        Some i \<Rightarrow>
          (case buf_get counts i of
             None \<Rightarrow> None
           | Some n \<Rightarrow> counts_hashed cs slot order (counts[i := n + 1]))
      | None \<Rightarrow> counts_hashed cs (slot(c \<mapsto> length order)) (order @ [c]) (counts @ [1]))"

definition value_counts :: "nat list \<Rightarrow> (nat list \<times> nat list) option" where
  "value_counts codes =
     (case max_code codes of
        None \<Rightarrow> Some ([], [])
      | Some m \<Rightarrow>
          if dense_table_fits m (length codes)
          then counts_dense codes (replicate (m + 1) 0) [] []
          else counts_hashed codes Map.empty [] [])"

text \<open>Both loops keep the codes seen so far in order beside their counts; a slot names a code's
  place there.\<close>

definition counted :: "nat list \<Rightarrow> nat list \<Rightarrow> nat list \<Rightarrow> bool" where
  "counted codes order counts \<longleftrightarrow>
     order = first_seen codes \<and> counts = map (count_list codes) order"

lemma counted_new:
  assumes "counted codes order counts" "c \<notin> set codes"
  shows "counted (codes @ [c]) (order @ [c]) (counts @ [1])"
proof -
  have "count_list codes c = 0" using assms(2) by (simp add: count_list_0_iff)
  then show ?thesis
    using assms by (auto simp: counted_def first_seen_snoc count_list_append)
qed

lemma counted_again:
  assumes c: "counted codes order counts" and i: "i < length order" "order ! i = x"
  shows "counted (codes @ [x]) order (counts[i := counts ! i + 1])"
proof -
  have x: "x \<in> set codes" using c i by (metis counted_def nth_mem set_first_seen)
  have "counts[i := counts ! i + 1] = map (count_list (codes @ [x])) order"
    using c i unfolding counted_def
    by (intro nth_equalityI) (auto simp: nth_list_update count_list_append nth_eq_iff_index_eq)
  then show ?thesis using c x by (simp add: counted_def first_seen_snoc)
qed

lemma counts_dense_eq:
  assumes "counted done order counts"
    and "\<forall>c \<in> set (done @ cs). c < length slot"
    and "\<forall>c < length slot. (slot ! c = 0 \<longleftrightarrow> c \<notin> set done) \<and>
      (slot ! c \<noteq> 0 \<longrightarrow> slot ! c \<le> length order \<and> order ! (slot ! c - 1) = c)"
  shows "\<exists>order' counts'. counts_dense cs slot order counts = Some (order', counts') \<and>
    counted (done @ cs) order' counts'"
  using assms
proof (induction cs arbitrary: slot order counts "done")
  case (Cons c cs)
  let ?s = "slot ! c"
  have c: "c < length slot" using Cons.prems by simp
  have len: "length counts = length order" using Cons.prems(1) by (simp add: counted_def)
  have ord: "set order = set done" using Cons.prems(1) by (simp add: counted_def)
  show ?case
  proof (cases "?s = 0")
    case True
    have a: "counted (done @ [c]) (order @ [c]) (counts @ [1])"
      using True c Cons.prems by (intro counted_new) auto
    have b: "\<forall>d < length (slot[c := length (order @ [c])]). (slot[c := length (order @ [c])] ! d = 0 \<longleftrightarrow> d \<notin> set (done @ [c])) \<and>
        (slot[c := length (order @ [c])] ! d \<noteq> 0 \<longrightarrow>
           slot[c := length (order @ [c])] ! d \<le> length (order @ [c]) \<and>
           (order @ [c]) ! (slot[c := length (order @ [c])] ! d - 1) = d)"
      using Cons.prems(3) c by (auto simp: nth_list_update nth_append)
    have "\<forall>d \<in> set ((done @ [c]) @ cs). d < length (slot[c := length (order @ [c])])"
      using Cons.prems(2) by simp
    from Cons.IH [OF a this b] have "\<exists>order' counts'.
        counts_dense cs (slot[c := length (order @ [c])]) (order @ [c]) (counts @ [1]) =
          Some (order', counts') \<and> counted (done @ c # cs) order' counts'"
      by (simp only: append_assoc append_Cons append_Nil)
    then show ?thesis by (simp only: counts_dense.simps buf_get_Some [OF c] option.simps True refl if_True)
  next
    case False
    then have "?s \<le> length order \<and> order ! (?s - 1) = c" using Cons.prems(3) [rule_format, OF c] by simp
    with False have s: "?s - 1 < length order" "order ! (?s - 1) = c" by linarith+
    have seen: "c \<in> set done" using False Cons.prems(3) [rule_format, OF c] by simp
    have a: "counted (done @ [c]) order (counts[?s - 1 := counts ! (?s - 1) + 1])"
      using counted_again [OF Cons.prems(1) s] .
    have b: "\<forall>d < length slot. (slot ! d = 0 \<longleftrightarrow> d \<notin> set (done @ [c])) \<and>
        (slot ! d \<noteq> 0 \<longrightarrow> slot ! d \<le> length order \<and> order ! (slot ! d - 1) = d)"
    proof -
      have same: "set (done @ [c]) = set done" using seen by auto
      show ?thesis unfolding same by (rule Cons.prems(3))
    qed
    have "\<forall>d \<in> set ((done @ [c]) @ cs). d < length slot" using Cons.prems(2) by simp
    from Cons.IH [OF a this b] show ?thesis
      using False c s(1) len by (simp add: checked_simps)
  qed
qed simp

lemma counts_hashed_eq:
  assumes "counted done order counts"
    and "\<forall>c. (slot c = None \<longleftrightarrow> c \<notin> set done) \<and>
      (\<forall>i. slot c = Some i \<longrightarrow> i < length order \<and> order ! i = c)"
  shows "\<exists>order' counts'. counts_hashed cs slot order counts = Some (order', counts') \<and>
    counted (done @ cs) order' counts'"
  using assms
proof (induction cs arbitrary: slot order counts "done")
  case (Cons c cs)
  have len: "length counts = length order" using Cons.prems(1) by (simp add: counted_def)
  show ?case
  proof (cases "slot c")
    case None
    have a: "counted (done @ [c]) (order @ [c]) (counts @ [1])"
      using None Cons.prems by (intro counted_new) auto
    have b: "\<forall>d. ((slot(c \<mapsto> length order)) d = None \<longleftrightarrow> d \<notin> set (done @ [c])) \<and>
        (\<forall>i. (slot(c \<mapsto> length order)) d = Some i \<longrightarrow>
           i < length (order @ [c]) \<and> (order @ [c]) ! i = d)"
      using Cons.prems(2) by (auto simp: nth_append less_Suc_eq)
    show ?thesis
      using Cons.IH [where slot = "slot(c \<mapsto> length order)", OF a b] None
      by (simp del: fun_upd_apply)
  next
    case (Some i)
    then have i: "i < length order" "order ! i = c" using Cons.prems(2) by auto
    have "c \<in> set done" using Some Cons.prems(2) by (metis option.distinct(1))
    then have "\<forall>d. (slot d = None \<longleftrightarrow> d \<notin> set (done @ [c])) \<and>
        (\<forall>i. slot d = Some i \<longrightarrow> i < length order \<and> order ! i = d)"
      using Cons.prems(2) by auto
    moreover have "counted (done @ [c]) order (counts[i := counts ! i + 1])"
      using counted_again [OF Cons.prems(1) i] .
    ultimately show ?thesis
      using Cons.IH [of "done @ [c]" order "counts[i := counts ! i + 1]" slot] Some i(1) len
      by (simp add: checked_simps)
  qed
qed simp

text \<open>
  The value counts of a column are its distinct codes in first-seen order beside how often
  each occurs, on the direct-mapped route and on the hashed one, with no table read out of range;
  the counts sum to the column's length.
\<close>

theorem value_counts_correct:
  "value_counts codes =
     Some (first_seen codes, map (count_list codes) (first_seen codes)) \<and>
   sum_list (map (count_list codes) (first_seen codes)) = length codes"
proof
  have start: "counted [] [] []" by (simp add: counted_def first_seen_def)
  show "value_counts codes = Some (first_seen codes, map (count_list codes) (first_seen codes))"
  proof (cases "max_code codes")
    case None
    then show ?thesis by (simp add: value_counts_def first_seen_def)
  next
    case (Some m)
    then have bound: "\<forall>c \<in> set codes. c < m + 1" by (auto dest: max_code_ge simp: less_Suc_eq_le)
    show ?thesis
      using counts_dense_eq [OF start, of codes "replicate (m + 1) 0"] bound
        counts_hashed_eq [OF start, of Map.empty codes] Some
      by (auto simp: value_counts_def counted_def simp del: replicate_Suc)
  qed
  have "sum_list (map (count_list codes) (first_seen codes)) =
      sum (count_list codes) (set codes)"
    by (simp add: sum_list_distinct_conv_sum_set)
  then show "sum_list (map (count_list codes) (first_seen codes)) = length codes"
    by (simp add: sum_count_set)
qed

section \<open>The gather and the run starts\<close>

fun first_bad :: "nat \<Rightarrow> nat \<Rightarrow> nat list \<Rightarrow> nat option" where
  "first_bad len at [] = None"
| "first_bad len at (i # is) = (if i < len then first_bad len (at + 1) is else Some at)"

definition take_codes :: "nat list \<Rightarrow> nat list \<Rightarrow> nat + nat list" where
  "take_codes codes indices =
     (case first_bad (length codes) 0 indices of
        Some bad \<Rightarrow> Inl bad
      | None \<Rightarrow> Inr (map ((!) codes) indices))"

definition run_starts :: "nat list list \<Rightarrow> nat list option" where
  "run_starts columns =
     (case columns of
        [] \<Rightarrow> Some []
      | first # _ \<Rightarrow>
          let len = length first
          in if list_ex (\<lambda>c. length c \<noteq> len) columns then None
             else Some (filter (\<lambda>i. i = 0 \<or> list_ex (\<lambda>c. c ! i \<noteq> c ! (i - 1)) columns) [0..<len]))"

lemma first_bad_None: "first_bad len at is = None \<longleftrightarrow> (\<forall>i \<in> set is. i < len)"
  by (induction "is" arbitrary: at) auto

lemma first_bad_Some:
  "first_bad len at is = Some b \<Longrightarrow>
   at \<le> b \<and> b - at < length is \<and> len \<le> is ! (b - at) \<and> (\<forall>j < b - at. is ! j < len)"
proof (induction "is" arbitrary: at)
  case (Cons i "is")
  show ?case
  proof (cases "i < len")
    case True
    then have IH: "at + 1 \<le> b \<and> b - (at + 1) < length is \<and> len \<le> is ! (b - (at + 1)) \<and>
        (\<forall>j < b - (at + 1). is ! j < len)" using Cons by simp
    then obtain k where "b - at = Suc k" "b - (at + 1) = k" by (metis Suc_diff_Suc Suc_eq_plus1 less_eq_Suc_le diff_Suc_Suc)
    then show ?thesis using IH True by (auto simp: nth_Cons split: nat.split)
  qed (use Cons in auto)
qed simp

text \<open>
  The gather is the column read at every index when all are in range; otherwise it reports the
  position of the first index that is not, and every index before it is.
\<close>

theorem take_codes_correct:
  "case take_codes codes indices of
     Inr out \<Rightarrow> (\<forall>i \<in> set indices. i < length codes) \<and> out = map ((!) codes) indices
   | Inl bad \<Rightarrow> bad < length indices \<and> length codes \<le> indices ! bad \<and>
       (\<forall>j < bad. indices ! j < length codes)"
  using first_bad_None [of "length codes" 0 indices] first_bad_Some [of "length codes" 0 indices]
  by (auto simp: take_codes_def split: option.split)

text \<open>The rows of parallel columns, and the run starts as the adjacent duplicates removed.\<close>

definition table_rows :: "nat list list \<Rightarrow> nat \<Rightarrow> nat list list" where
  "table_rows columns len = map (\<lambda>i. map (\<lambda>c. c ! i) columns) [0..<len]"

lemma remdups_adj_starts:
  "remdups_adj xs = map ((!) xs) (filter (\<lambda>i. i = 0 \<or> xs ! i \<noteq> xs ! (i - 1)) [0..<length xs])"
proof (induction xs rule: rev_induct)
  case (snoc x xs)
  let ?starts = "\<lambda>ys. filter (\<lambda>i. i = 0 \<or> ys ! i \<noteq> ys ! (i - 1)) [0..<length xs]"
  have pre: "map ((!) (xs @ [x])) (?starts (xs @ [x])) = map ((!) xs) (?starts xs)"
  proof (rule map_cong)
    show "?starts (xs @ [x]) = ?starts xs"
      by (intro filter_cong) (auto simp: nth_append less_imp_diff_less)
  qed (auto simp: nth_append)
  show ?case
  proof (cases "xs = []")
    case False
    then have "remdups_adj (xs @ [x]) =
        (if last xs = x then remdups_adj xs else remdups_adj xs @ [x])"
      using remdups_adj_append'' [OF False, of "[x]"] by simp
    moreover have "(xs @ [x]) ! length xs \<noteq> (xs @ [x]) ! (length xs - 1) \<longleftrightarrow> last xs \<noteq> x"
      using False by (auto simp: nth_append last_conv_nth)
    ultimately show ?thesis using False pre snoc by simp
  qed simp
qed simp

theorem take_codes_correct_witness:
  "take_codes [7, 8, 9] [2, 0, 5, 1] = Inl 2"
proof -
  have "take_codes [7, 8, 9] [2, 0, 5, 1::nat] \<noteq> Inr out" for out
    using take_codes_correct [where codes = "[7, 8, 9::nat]" and indices = "[2, 0, 5, 1]"] by auto
  then show ?thesis
    using take_codes_correct [where codes = "[7, 8, 9::nat]" and indices = "[2, 0, 5, 1]"]
    by (cases "take_codes [7, 8, 9] [2, 0, 5, 1::nat]")
       (auto simp: nth_Cons' less_Suc_eq split: if_splits)
qed

text \<open>
  Gathering the columns at the run starts keeps one row of each run of equal rows: the rows
  left are the table's rows with adjacent duplicates removed. Columns of unequal length have no
  run starts.
\<close>

theorem run_starts_correct:
  "case run_starts (first # columns) of
     None \<Rightarrow> \<exists>c \<in> set columns. length c \<noteq> length first
   | Some starts \<Rightarrow> ascending starts \<and>
       map ((!) (table_rows (first # columns) (length first))) starts =
       remdups_adj (table_rows (first # columns) (length first))"
proof (cases "\<exists>c \<in> set columns. length c \<noteq> length first")
  case True
  then show ?thesis by (auto simp: run_starts_def list_ex_iff)
next
  case False
  let ?cols = "first # columns" and ?n = "length first"
  have eq: "run_starts ?cols =
      Some (filter (\<lambda>i. i = 0 \<or> list_ex (\<lambda>c. c ! i \<noteq> c ! (i - 1)) ?cols) [0..<?n])"
    using False by (simp add: run_starts_def list_ex_iff Let_def)
  have "filter (\<lambda>i. i = 0 \<or> list_ex (\<lambda>c. c ! i \<noteq> c ! (i - 1)) ?cols) [0..<?n] =
      filter (\<lambda>i. i = 0 \<or> table_rows ?cols ?n ! i \<noteq> table_rows ?cols ?n ! (i - 1))
        [0..<length (table_rows ?cols ?n)]"
    by (intro filter_cong) (auto simp: table_rows_def list_ex_iff)
  then show ?thesis by (simp only: eq option.simps remdups_adj_starts ascending_filter ascending_upt)
qed

theorem run_starts_correct_witness:
  "\<exists>starts. run_starts [[1, 1, 2], [5, 5, 5]] = Some starts \<and> ascending starts"
  using run_starts_correct [where first = "[1, 1, 2::nat]" and columns = "[[5, 5, 5]]"] by (auto split: option.splits)

end
