(* ===== verification/Join.thy ===== *)
theory Join
  imports Columns
begin

text \<open>
  The equi-join of two code columns, \<open>core/src/columns/join.rs\<close>: the merge pass over two ascending
  columns, the right column grouped by code in a CSR table (\<open>Groups\<close>) found through a table over
  its code span or a hash map of its codes (the two implementations of the trait \<open>Slots\<close>), the
  counting pass that sizes and caps every output, and the gathered columns. The trait is the locale
  \<open>slots\<close>; both implementations are shown to satisfy its laws, and every route is shown to produce
  the nested loop's pairs in the nested loop's order.
\<close>

section \<open>The nested loop\<close>

text \<open>The reference: for every left row in order, each right row with the same code, in order.\<close>

definition matches :: "nat list \<Rightarrow> nat \<Rightarrow> nat list" where
  "matches right c = filter (\<lambda>r. right ! r = c) [0..<length right]"

definition nested_loop :: "nat list \<Rightarrow> nat list \<Rightarrow> (nat \<times> nat) list" where
  "nested_loop left right =
     concat (map (\<lambda>i. map (Pair i) (matches right (left ! i))) [0..<length left])"

definition capped :: "nat option \<Rightarrow> nat \<Rightarrow> bool" where
  "capped max_pairs pairs \<longleftrightarrow> (case max_pairs of Some m \<Rightarrow> m < pairs | None \<Rightarrow> False)"

type_synonym pair_columns = "nat list \<times> nat list"

definition within_cap :: "nat \<Rightarrow> nat option \<Rightarrow> nat + unit" where
  "within_cap pairs max_pairs =
     (case max_pairs of Some m \<Rightarrow> if m < pairs then Inl pairs else Inr () | None \<Rightarrow> Inr ())"

lemma within_cap_eq: "within_cap pairs cap = (if capped cap pairs then Inl pairs else Inr ())"
  by (auto simp: within_cap_def capped_def split: option.split)

lemma matches_less: "r \<in> set (matches right c) \<Longrightarrow> r < length right \<and> right ! r = c"
  by (simp add: matches_def)

section \<open>The merge pass\<close>

text \<open>The pairs of equal-code runs of two ascending columns, each as its range of positions. The
  suffixes left to visit start at positions \<open>i\<close> and \<open>j\<close>.\<close>

function run_pairs :: "nat \<Rightarrow> nat list \<Rightarrow> nat \<Rightarrow> nat list \<Rightarrow> ((nat \<times> nat) \<times> (nat \<times> nat)) list" where
  "run_pairs i [] j right = []"
| "run_pairs i left j [] = []"
| "run_pairs i (a # left) j (b # right) =
     (if a < b then run_pairs (i + 1) left j (b # right)
      else if b < a then run_pairs i (a # left) (j + 1) right
      else let run_l = i + length (takeWhile (\<lambda>c. c = a) (a # left));
               run_r = j + length (takeWhile (\<lambda>c. c = a) (b # right))
           in ((i, run_l), (j, run_r)) #
              run_pairs run_l (dropWhile (\<lambda>c. c = a) left) run_r (dropWhile (\<lambda>c. c = a) right))"
  by pat_completeness auto
termination
  by (relation "measure (\<lambda>(i, left, j, right). length left + length right)")
     (auto simp: less_Suc_eq_le intro!: le_SucI add_mono length_dropWhile_le)

definition merge_join_len :: "nat list \<Rightarrow> nat list \<Rightarrow> nat" where
  "merge_join_len left right =
     foldl (\<lambda>total ((a, b), (c, d)). sat_add total (sat_mul (b - a) (d - c))) 0
       (run_pairs 0 left 0 right)"

text \<open>The columns a visited pair of runs appends.\<close>

definition cross_columns :: "(nat \<times> nat) \<times> (nat \<times> nat) \<Rightarrow> pair_columns" where
  "cross_columns =
     (\<lambda>((a, b), (c, d)). (concat (map (\<lambda>li. replicate (d - c) li) [a..<b]),
                          concat (map (\<lambda>li. [c..<d]) [a..<b])))"

definition merge_join :: "nat list \<Rightarrow> nat list \<Rightarrow> nat option \<Rightarrow> nat + pair_columns" where
  "merge_join left right max_pairs =
     (case within_cap (merge_join_len left right) max_pairs of
        Inl pairs \<Rightarrow> Inl pairs
      | Inr _ \<Rightarrow>
          let columns = map cross_columns (run_pairs 0 left 0 right)
          in Inr (concat (map fst columns), concat (map snd columns)))"

text \<open>The rows of the suffixes as positions: what the nested loop makes of them.\<close>

definition loop_from :: "nat \<Rightarrow> nat list \<Rightarrow> nat \<Rightarrow> nat list \<Rightarrow> (nat \<times> nat) list" where
  "loop_from i left j right =
     concat (map (\<lambda>(li, a). map (\<lambda>(rj, _). (li, rj)) (filter (\<lambda>(_, b). b = a) (enumerate j right)))
       (enumerate i left))"

lemma enumerate_map_nth: "enumerate k xs = map (\<lambda>i. (k + i, xs ! i)) [0..<length xs]"
  by (rule nth_equalityI) (simp_all add: nth_enumerate_eq)

lemma loop_from_nested: "loop_from 0 left 0 right = nested_loop left right"
  unfolding loop_from_def nested_loop_def matches_def enumerate_map_nth
  by (simp add: filter_map o_def)

lemma loop_from_Nil [simp]: "loop_from i [] j right = []" "loop_from i left j [] = []"
  by (simp_all add: loop_from_def)

lemma in_set_enumerateD: "(n, x) \<in> set (enumerate k xs) \<Longrightarrow> x \<in> set xs"
  by (auto simp: in_set_enumerate_eq)

lemma filter_enumerate_none: "(\<And>b. b \<in> set right \<Longrightarrow> b \<noteq> a) \<Longrightarrow> filter (\<lambda>(_, b). b = a) (enumerate j right) = []"
  unfolding filter_empty_conv by (auto dest!: in_set_enumerateD)

lemma filter_enumerate_all: "(\<And>b. b \<in> set right \<Longrightarrow> b = a) \<Longrightarrow> filter (\<lambda>(_, b). b = a) (enumerate j right) = enumerate j right"
  unfolding filter_id_conv by (auto dest!: in_set_enumerateD)

lemma enumerate_append: "enumerate k (xs @ ys) = enumerate k xs @ enumerate (k + length xs) ys"
  by (induction xs arbitrary: k) auto

lemma loop_from_left:
  "loop_from i (xs @ left) j right = loop_from i xs j right @ loop_from (i + length xs) left j right"
  by (simp add: loop_from_def enumerate_append)

lemma loop_from_right_skip:
  assumes "\<And>a b. a \<in> set left \<Longrightarrow> b \<in> set xs \<Longrightarrow> a \<noteq> b"
  shows "loop_from i left j (xs @ right) = loop_from i left (j + length xs) right"
proof -
  have "filter (\<lambda>(_, b). b = a) (enumerate j (xs @ right)) =
      filter (\<lambda>(_, b). b = a) (enumerate (j + length xs) right)" if "a \<in> set left" for a
    using filter_enumerate_none [of xs a j] assms that by (fastforce simp: enumerate_append)
  then show ?thesis
    unfolding loop_from_def
    by (intro arg_cong [of _ _ concat] map_cong) (auto dest!: in_set_enumerateD)
qed

lemma loop_from_left_skip:
  assumes "\<And>a b. a \<in> set xs \<Longrightarrow> b \<in> set right \<Longrightarrow> a \<noteq> b"
  shows "loop_from i (xs @ left) j right = loop_from (i + length xs) left j right"
proof -
  have "loop_from i xs j right = []"
    using assms by (fastforce simp: loop_from_def filter_empty_conv dest!: in_set_enumerateD)
  then show ?thesis by (simp add: loop_from_left)
qed

lemma loop_from_right_after:
  assumes "\<And>b. b \<in> set ys \<Longrightarrow> b \<notin> set left"
  shows "loop_from i left j (right @ ys) = loop_from i left j right"
proof -
  have "filter (\<lambda>(_, b). b = a) (enumerate j (right @ ys)) =
      filter (\<lambda>(_, b). b = a) (enumerate j right)" if "a \<in> set left" for a
    using filter_enumerate_none [of ys a] assms that by (fastforce simp: enumerate_append)
  then show ?thesis
    unfolding loop_from_def
    by (intro arg_cong [of _ _ concat] map_cong) (auto dest!: in_set_enumerateD)
qed

lemma loop_from_equal:
  assumes "\<And>x. x \<in> set xs \<Longrightarrow> x = a" "\<And>y. y \<in> set ys \<Longrightarrow> y = a"
  shows "loop_from i xs j ys =
    concat (map (\<lambda>li. map (Pair li) [j..<j + length ys]) [i..<i + length xs])"
proof -
  have row: "map (\<lambda>(rj, _). (li, rj)) (enumerate j ys) = map (Pair li) [j..<j + length ys]" for li
  proof -
    have "map (\<lambda>(rj, _). (li, rj)) (enumerate j ys) = map (Pair li) (map fst (enumerate j ys))"
      by (simp only: map_map o_def case_prod_beta')
    then show ?thesis by (simp add: map_fst_enumerate)
  qed
  have "loop_from i xs j ys =
      concat (map (\<lambda>(li, _). map (Pair li) [j..<j + length ys]) (enumerate i xs))"
    unfolding loop_from_def using assms
    by (intro arg_cong [of _ _ concat] map_cong)
       (auto simp: filter_enumerate_all row dest!: in_set_enumerateD)
  also have "\<dots> = concat (map (\<lambda>li. map (Pair li) [j..<j + length ys]) (map fst (enumerate i xs)))"
    by (simp only: map_map o_def case_prod_beta')
  finally show ?thesis by (simp add: map_fst_enumerate)
qed

text \<open>The pairs a visited pair of runs stands for.\<close>

definition cross_pairs :: "(nat \<times> nat) \<times> (nat \<times> nat) \<Rightarrow> (nat \<times> nat) list" where
  "cross_pairs = (\<lambda>((a, b), (c, d)). concat (map (\<lambda>li. map (Pair li) [c..<d]) [a..<b]))"

lemma run_pairs_loop:
  "sorted left \<Longrightarrow> sorted right \<Longrightarrow>
   concat (map cross_pairs (run_pairs i left j right)) = loop_from i left j right"
proof (induction i left j right rule: run_pairs.induct)
  case (3 i a left j b right)
  consider (lt) "a < b" | (gt) "b < a" | (eq) "a = b" by (rule linorder_cases)
  then show ?case
  proof cases
    case lt
    have "loop_from i (a # left) j (b # right) = loop_from (i + 1) left j (b # right)"
      using loop_from_left_skip [of "[a]" "b # right" i left j] lt 3 by force
    then show ?thesis using lt 3 by simp
  next
    case gt
    have "loop_from i (a # left) j (b # right) = loop_from i (a # left) (j + 1) right"
      using loop_from_right_skip [of "a # left" "[b]" i j right] gt 3 by force
    then show ?thesis using gt 3 by simp
  next
    case eq
    define xs where "xs = takeWhile (\<lambda>c. c = a) (a # left)"
    define ys where "ys = takeWhile (\<lambda>c. c = a) (a # right)"
    define left' where "left' = dropWhile (\<lambda>c. c = a) left"
    define right' where "right' = dropWhile (\<lambda>c. c = a) right"
    have l: "a # left = xs @ left'" and r: "a # right = ys @ right'"
      by (simp_all add: xs_def ys_def left'_def right'_def)
    have xs: "\<And>x. x \<in> set xs \<Longrightarrow> x = a" and ys: "\<And>y. y \<in> set ys \<Longrightarrow> y = a"
      unfolding xs_def ys_def using set_takeWhileD by fast+
    have gt_l: "\<And>x. x \<in> set left' \<Longrightarrow> a < x" and gt_r: "\<And>x. x \<in> set right' \<Longrightarrow> a < x"
      using sorted_dropWhile_gt "3.prems" eq unfolding left'_def right'_def by auto
    have "loop_from i (a # left) j (a # right) =
        loop_from i xs j ys @ loop_from (i + length xs) left' (j + length ys) right'"
      unfolding l r loop_from_left
      using loop_from_right_after [of right' xs i j ys] loop_from_right_skip [of left' ys] gt_l gt_r xs ys
      by fastforce
    moreover have "loop_from i xs j ys = cross_pairs ((i, i + length xs), (j, j + length ys))"
      using loop_from_equal [OF xs ys] by (simp add: cross_pairs_def)
    moreover have "run_pairs i (a # left) j (b # right) =
        ((i, i + length xs), (j, j + length ys)) #
        run_pairs (i + length xs) left' (j + length ys) right'"
      using eq by (simp add: xs_def ys_def left'_def right'_def)
    moreover have "sorted left'" "sorted right'"
      using "3.prems" by (simp_all add: left'_def right'_def sorted_dropWhile)
    moreover have "i + length (takeWhile (\<lambda>c. c = a) (a # left)) = i + length xs"
      "j + length (takeWhile (\<lambda>c. c = a) (b # right)) = j + length ys"
      using eq by (simp_all add: xs_def ys_def)
    ultimately show ?thesis
      using "3.IH"(3) eq by (simp add: left'_def right'_def Let_def)
  qed
qed simp_all

text \<open>What every route of the join promises: the nested loop's pairs as parallel columns, or its
  saturated count where that exceeds the cap.\<close>

definition join_spec :: "nat list \<Rightarrow> nat list \<Rightarrow> nat option \<Rightarrow> nat + pair_columns" where
  "join_spec left right max_pairs =
     (let total = min (length (nested_loop left right)) u64_max
      in if capped max_pairs total then Inl total
         else Inr (map fst (nested_loop left right), map snd (nested_loop left right)))"

lemma sat_add_min: "sat_add (min a u64_max) (min b u64_max) = min (a + b) u64_max"
  by (simp add: sat_add_def min_def)

lemma foldl_sat_add: "foldl sat_add (min a u64_max) (map (\<lambda>x. min (f x) u64_max) xs) =
    min (a + sum_list (map f xs)) u64_max"
  by (induction xs arbitrary: a) (simp_all add: sat_add_min add.assoc)

lemma foldl_sat_add_plain: "foldl sat_add 0 xs = min (sum_list xs) u64_max"
proof -
  have "foldl sat_add (min a u64_max) xs = min (a + sum_list xs) u64_max" for a
  proof (induction xs arbitrary: a)
    case (Cons x xs)
    have "sat_add (min a u64_max) x = min (a + x) u64_max" by (simp add: sat_add_def min_def)
    then show ?case using Cons.IH [of "a + x"] by (simp add: add.assoc)
  qed simp
  from this [of 0] show ?thesis by simp
qed

lemma foldl_map_eq: "foldl (\<lambda>t x. g t (f x)) a xs = foldl g a (map f xs)"
  by (induction xs arbitrary: a) auto

lemma length_cross_pairs: "length (cross_pairs ((a, b), (c, d))) = (b - a) * (d - c)"
  by (simp add: cross_pairs_def length_concat o_def sum_list_triv)

lemma cross_columns_pairs:
  "fst (cross_columns r) = map fst (cross_pairs r)" "snd (cross_columns r) = map snd (cross_pairs r)"
  by (cases r; cases "fst r"; cases "snd r";
      simp add: cross_columns_def cross_pairs_def map_concat o_def map_replicate_const)+

lemma merge_join_len_eq:
  assumes "sorted left" "sorted right"
  shows "merge_join_len left right = min (length (nested_loop left right)) u64_max"
proof -
  let ?f = "\<lambda>((a, b), (c, d)). (b - a) * (d - (c::nat))"
  have "length (nested_loop left right) = sum_list (map ?f (run_pairs 0 left 0 right))"
    using run_pairs_loop [OF assms, of 0 0, symmetric]
    by (simp add: loop_from_nested length_concat o_def)
       (auto intro!: arg_cong [of _ _ sum_list] simp: length_cross_pairs)
  moreover have "merge_join_len left right =
      foldl sat_add (min 0 u64_max) (map (\<lambda>x. min (?f x) u64_max) (run_pairs 0 left 0 right))"
    unfolding merge_join_len_def foldl_map_eq [symmetric]
    by (simp add: sat_mul_def case_prod_beta')
  ultimately show ?thesis by (simp only: foldl_sat_add add_0)
qed

lemma merge_join_spec:
  assumes "sorted left" "sorted right"
  shows "merge_join left right max_pairs = join_spec left right max_pairs"
proof -
  have "concat (map fst (map cross_columns (run_pairs 0 left 0 right))) = map fst (nested_loop left right)"
    "concat (map snd (map cross_columns (run_pairs 0 left 0 right))) = map snd (nested_loop left right)"
    using run_pairs_loop [OF assms, of 0 0, symmetric]
    by (simp_all add: loop_from_nested map_concat o_def cross_columns_pairs)
  then show ?thesis
    by (simp add: merge_join_def join_spec_def Let_def merge_join_len_eq [OF assms] within_cap_eq)
qed

section \<open>Rows grouped by slot\<close>

record groups =
  starts :: "nat list"
  rows :: "nat list"

fun count_slots :: "nat list \<Rightarrow> nat list \<Rightarrow> nat list option" where
  "count_slots [] st = Some st"
| "count_slots (k # ks) st =
     (case buf_get st (k + 1) of None \<Rightarrow> None | Some n \<Rightarrow> count_slots ks (st[k + 1 := n + 1]))"

fun prefix_sums :: "nat list \<Rightarrow> nat list \<Rightarrow> nat list" where
  "prefix_sums [] st = st"
| "prefix_sums (k # ks) st = prefix_sums ks (st[k + 1 := st ! (k + 1) + st ! k])"

fun fill_rows :: "nat \<Rightarrow> nat list \<Rightarrow> nat list \<Rightarrow> nat list \<Rightarrow> nat list option" where
  "fill_rows r [] fill out = Some out"
| "fill_rows r (k # ks) fill out =
     (case buf_get fill k of
        None \<Rightarrow> None
      | Some at \<Rightarrow>
          (case buf_set out at r of
             None \<Rightarrow> None
           | Some out' \<Rightarrow> fill_rows (r + 1) ks (fill[k := at + 1]) out'))"

definition groups_build :: "nat \<Rightarrow> nat list \<Rightarrow> groups option" where
  "groups_build slots row_slots =
     (case count_slots row_slots (replicate (slots + 2) 0) of
        None \<Rightarrow> None
      | Some tally \<Rightarrow>
          let summed = prefix_sums [0..<slots] tally;
              st = summed[slots + 1 := summed ! slots]
          in map_option (\<lambda>out. \<lparr>starts = st, rows = out\<rparr>)
               (fill_rows 0 row_slots (take slots st) (replicate (st ! slots) 0)))"

definition groups_count :: "groups \<Rightarrow> nat \<Rightarrow> nat option" where
  "groups_count g k =
     (case (buf_get (starts g) (k + 1), buf_get (starts g) k) of
        (Some e, Some s) \<Rightarrow> Some (e - s) | _ \<Rightarrow> None)"

definition groups_rows :: "groups \<Rightarrow> nat \<Rightarrow> nat list option" where
  "groups_rows g k =
     (case (buf_get (starts g) k, buf_get (starts g) (k + 1)) of
        (Some s, Some e) \<Rightarrow> buf_slice (rows g) s e | _ \<Rightarrow> None)"

text \<open>The rows in a slot, and where a slot's rows start.\<close>

definition slot_rows :: "nat list \<Rightarrow> nat \<Rightarrow> nat list" where
  "slot_rows ks k = filter (\<lambda>r. ks ! r = k) [0..<length ks]"

definition slot_start :: "nat list \<Rightarrow> nat \<Rightarrow> nat" where
  "slot_start ks k = (\<Sum>j < k. count_list ks j)"

lemma length_slot_rows: "length (slot_rows ks k) = count_list ks k"
proof -
  have "length (filter ((=) k) (map ((!) ks) [0..<length ks])) =
      length (filter (\<lambda>r. k = ks ! r) [0..<length ks])"
    by (simp only: length_filter_map o_def)
  also have "filter (\<lambda>r. k = ks ! r) [0..<length ks] = slot_rows ks k"
    unfolding slot_rows_def by (rule filter_cong) auto
  finally show ?thesis by (simp only: map_nth count_list_eq_length_filter)
qed

lemma slot_start_Suc [simp]: "slot_start ks (Suc k) = slot_start ks k + count_list ks k"
  by (simp add: slot_start_def)

lemma slot_start_mono: "k \<le> l \<Longrightarrow> slot_start ks k \<le> slot_start ks l"
  by (auto simp: slot_start_def intro!: sum_mono2)

lemma slot_start_all: "\<forall>k \<in> set ks. k < n \<Longrightarrow> slot_start ks n = length ks"
  unfolding slot_start_def by (rule sum_count_set) auto

lemma count_slots_eq:
  "\<forall>k \<in> set ks. k + 1 < length st \<Longrightarrow>
   \<exists>st'. count_slots ks st = Some st' \<and> length st' = length st \<and> (0 < length st \<longrightarrow> st' ! 0 = st ! 0) \<and>
     (\<forall>k. k + 1 < length st \<longrightarrow> st' ! (k + 1) = st ! (k + 1) + count_list ks k)"
proof (induction ks arbitrary: st)
  case (Cons k ks)
  let ?st = "st[k + 1 := st ! (k + 1) + 1]"
  obtain st' where st': "count_slots ks ?st = Some st'" "length st' = length st"
    "0 < length st \<longrightarrow> st' ! 0 = st ! 0"
    "\<forall>j. j + 1 < length st \<longrightarrow> st' ! (j + 1) = ?st ! (j + 1) + count_list ks j"
    using Cons.IH [of ?st] Cons.prems by auto
  then show ?case using Cons.prems by (auto simp: checked_simps nth_list_update)
qed simp

lemma prefix_sums_eq:
  "m < length st \<Longrightarrow>
   length (prefix_sums [0..<m] st) = length st \<and>
   (\<forall>k < length st. prefix_sums [0..<m] st ! k = (if k \<le> m then (\<Sum>j \<le> k. st ! j) else st ! k))"
proof (induction m)
  case 0
  then show ?case by auto
next
  case (Suc m)
  have app: "prefix_sums (ks @ [k]) st =
      (prefix_sums ks st)[k + 1 := prefix_sums ks st ! (k + 1) + prefix_sums ks st ! k]" for ks k
    by (induction ks arbitrary: st) auto
  show ?case
    using Suc by (auto simp: app nth_list_update le_Suc_eq add.commute)
qed

text \<open>The cursors of the fill after the first \<open>n\<close> rows, and the rows written so far.\<close>

definition filled :: "nat list \<Rightarrow> nat \<Rightarrow> nat \<Rightarrow> nat list \<Rightarrow> nat list \<Rightarrow> bool" where
  "filled ks slots n fill out \<longleftrightarrow>
     length fill = slots \<and> length out = slot_start ks slots \<and>
     (\<forall>k < slots. fill ! k = slot_start ks k + length (slot_rows (take n ks) k) \<and>
       (\<forall>i < length (slot_rows (take n ks) k).
          out ! (slot_start ks k + i) = slot_rows (take n ks) k ! i))"

lemma slot_rows_take_Suc:
  assumes "n < length ks"
  shows "slot_rows (take (Suc n) ks) k = slot_rows (take n ks) k @ (if ks ! n = k then [n] else [])"
proof -
  have "filter (\<lambda>r. take (Suc n) ks ! r = k) [0..<n] = filter (\<lambda>r. take n ks ! r = k) [0..<n]"
    by (intro filter_cong) auto
  then show ?thesis using assms by (simp add: slot_rows_def min_absorb2)
qed

lemma slot_rows_take_le:
  assumes "n \<le> length ks"
  shows "length (slot_rows (take n ks) k) \<le> count_list ks k"
  using count_list_append [of "take n ks" "drop n ks" k] by (simp add: length_slot_rows)

lemma filled_step:
  assumes inv: "filled ks slots n fill out" and n: "n < length ks" and bound: "\<forall>k \<in> set ks. k < slots"
  shows "\<exists>at. buf_get fill (ks ! n) = Some at \<and> at < length out \<and>
    filled ks slots (Suc n) (fill[ks ! n := at + 1]) (out[at := n])"
proof -
  let ?k = "ks ! n"
  let ?len = "\<lambda>k. length (slot_rows (take n ks) k)"
  define at where "at = slot_start ks ?k + ?len ?k"
  have k: "?k < slots" using bound n by simp
  have below: "slot_start ks k + ?len k \<le> slot_start ks (Suc k)" for k
    using slot_rows_take_le [of n ks k] n by simp
  have "Suc (?len ?k) \<le> count_list ks ?k"
    using slot_rows_take_le [of "Suc n" ks ?k] slot_rows_take_Suc [OF n, of ?k] n by simp
  then have at_lt: "at < slot_start ks (Suc ?k)" by (simp add: at_def)
  have at_out: "at < length out"
    using at_lt slot_start_mono [of "Suc ?k" slots ks] k inv by (simp add: filled_def)
  have apart: "slot_start ks k + i \<noteq> at" if "k \<noteq> ?k" "i < ?len k" for k i
  proof (cases "k < ?k")
    case True
    then show ?thesis
      using below [of k] slot_start_mono [of "Suc k" ?k ks] that by (simp add: at_def)
  next
    case False
    then show ?thesis
      using at_lt slot_start_mono [of "Suc ?k" k ks] that by simp
  qed
  have get: "buf_get fill ?k = Some at" using inv k by (simp add: filled_def checked_simps at_def)
  have "filled ks slots (Suc n) (fill[?k := at + 1]) (out[at := n])"
    unfolding filled_def
  proof (intro conjI allI impI)
    show "length (fill[?k := at + 1]) = slots" "length (out[at := n]) = slot_start ks slots"
      using inv by (simp_all add: filled_def)
  next
    fix k assume "k < slots"
    then show "fill[?k := at + 1] ! k = slot_start ks k + length (slot_rows (take (Suc n) ks) k)"
      using inv by (auto simp: filled_def nth_list_update slot_rows_take_Suc [OF n] at_def)
  next
    fix k i assume k': "k < slots" and i: "i < length (slot_rows (take (Suc n) ks) k)"
    then show "out[at := n] ! (slot_start ks k + i) = slot_rows (take (Suc n) ks) k ! i"
      using inv at_out apart [of k i]
      by (cases "k = ?k"; cases "i = ?len k")
         (auto simp: filled_def nth_list_update slot_rows_take_Suc [OF n] nth_append at_def)
  qed
  then show ?thesis using get at_out by blast
qed

lemma fill_rows_eq:
  assumes "filled ks slots n fill out" "\<forall>k \<in> set ks. k < slots" "n \<le> length ks"
  shows "\<exists>fill' out'. fill_rows n (drop n ks) fill out = Some out' \<and>
    filled ks slots (length ks) fill' out'"
  using assms
proof (induction "length ks - n" arbitrary: n fill out)
  case 0
  then show ?case by auto
next
  case (Suc m)
  then have n: "n < length ks" by simp
  obtain at where at: "buf_get fill (ks ! n) = Some at" "at < length out"
    "filled ks slots (Suc n) (fill[ks ! n := at + 1]) (out[at := n])"
    using filled_step [OF Suc.prems(1) n Suc.prems(2)] by blast
  then show ?case
    using Suc.hyps(1) [OF _ at(3) Suc.prems(2)] Suc.hyps(2) n
    by (simp add: Cons_nth_drop_Suc [symmetric] checked_simps)
qed

lemma groups_build_correct:
  assumes bound: "\<forall>k \<in> set ks. k < slots"
  shows "\<exists>g. groups_build slots ks = Some g \<and> length (rows g) = length ks \<and>
    (\<forall>k \<le> slots. groups_rows g k = Some (slot_rows ks k) \<and>
       groups_count g k = Some (length (slot_rows ks k)))"
proof -
  obtain tally where tally: "count_slots ks (replicate (slots + 2) 0) = Some tally"
    "length tally = slots + 2" "tally ! 0 = 0"
    "\<forall>k. k + 1 < slots + 2 \<longrightarrow> tally ! (k + 1) = count_list ks k"
    using count_slots_eq [of ks "replicate (slots + 2) 0"] bound
    by (auto simp del: replicate_Suc simp: less_SucI)
  define summed where "summed = prefix_sums [0..<slots] tally"
  define st where "st = summed[slots + 1 := summed ! slots]"
  have sums: "(\<Sum>j \<le> k. tally ! j) = slot_start ks k" if "k \<le> slots" for k
    using that tally(3,4) by (induction k) (auto simp: slot_start_def)
  have len: "length st = slots + 2"
    using prefix_sums_eq [of slots tally] tally(2) by (simp add: st_def summed_def)
  have st: "st ! k = slot_start ks (min k slots)" if "k \<le> slots + 1" for k
    using prefix_sums_eq [of slots tally] tally(2) that sums
    by (auto simp: st_def summed_def nth_list_update min_def)
  have "filled ks slots 0 (take slots st) (replicate (st ! slots) 0)"
    using st len by (auto simp: filled_def slot_rows_def)
  from fill_rows_eq [OF this bound le0] obtain fill out
    where out: "fill_rows 0 ks (take slots st) (replicate (st ! slots) 0) = Some out"
      "filled ks slots (length ks) fill out"
    unfolding drop_0 by blast
  let ?g = "\<lparr>starts = st, rows = out\<rparr>"
  have build: "groups_build slots ks = Some ?g"
    using tally(1) out(1) by (simp add: groups_build_def Let_def st_def summed_def)
  have total: "length out = length ks" using out(2) slot_start_all [OF bound] by (simp add: filled_def)
  have "groups_rows ?g k = Some (slot_rows ks k) \<and> groups_count ?g k = Some (length (slot_rows ks k))"
    if k: "k \<le> slots" for k
  proof (cases "k = slots")
    case True
    then have "slot_rows ks k = []" using bound by (auto simp: slot_rows_def filter_empty_conv)
    then show ?thesis
      using True st [of slots] st [of "slots + 1"] len out(2)
      by (simp add: groups_rows_def groups_count_def checked_simps filled_def)
  next
    case False
    then have k: "k < slots" using k by simp
    have s: "st ! k = slot_start ks k" "st ! (k + 1) = slot_start ks k + count_list ks k"
      using st [of k] st [of "k + 1"] k by (simp_all add: min_def)
    have e: "slot_start ks k + count_list ks k \<le> length out"
      using slot_start_mono [of "Suc k" slots ks] k out(2) by (simp add: filled_def)
    have "take (count_list ks k) (drop (slot_start ks k) out) = slot_rows ks k"
      using out(2) k e by (intro nth_equalityI) (auto simp: filled_def length_slot_rows)
    then show ?thesis
      using s e len k by (simp add: groups_rows_def groups_count_def checked_simps length_slot_rows)
  qed
  then show ?thesis using build total by auto
qed

section \<open>The right index over a slot lookup\<close>

text \<open>The trait \<open>Slots\<close> as a function \<open>slot\<close> of the lookup structure: each generic method takes it,
  as its monomorphised instance does.\<close>

record 's right_index =
  ix_slots :: 's
  grouped :: groups

definition ri_rows_for :: "('s \<Rightarrow> nat \<Rightarrow> nat) \<Rightarrow> 's right_index \<Rightarrow> nat \<Rightarrow> nat list option" where
  "ri_rows_for slot ix code = groups_rows (grouped ix) (slot (ix_slots ix) code)"

definition ri_match_count :: "('s \<Rightarrow> nat \<Rightarrow> nat) \<Rightarrow> 's right_index \<Rightarrow> nat list \<Rightarrow> nat option" where
  "ri_match_count slot ix left =
     map_option
       (\<lambda>counts. if length left * length (rows (grouped ix)) \<le> usize_max
                 then sum_list counts mod 2 ^ 64 else foldl sat_add 0 counts)
       (gather (\<lambda>code. groups_count (grouped ix) (slot (ix_slots ix) code)) left)"

definition ri_join ::
    "('s \<Rightarrow> nat \<Rightarrow> nat) \<Rightarrow> 's right_index \<Rightarrow> nat list \<Rightarrow> nat option \<Rightarrow> (nat + pair_columns) option"
where
  "ri_join slot ix left max_pairs =
     (case ri_match_count slot ix left of
        None \<Rightarrow> None
      | Some pairs \<Rightarrow>
          (case within_cap pairs max_pairs of
             Inl refused \<Rightarrow> Some (Inl refused)
           | Inr _ \<Rightarrow>
               map_option
                 (\<lambda>found. Inr (concat (map (\<lambda>(i, rs). replicate (length rs) i) (enumerate 0 found)),
                               concat found))
                 (gather (ri_rows_for slot ix) left)))"

definition ri_gather_left ::
    "('s \<Rightarrow> nat \<Rightarrow> nat) \<Rightarrow> 's right_index \<Rightarrow> nat list \<Rightarrow> nat list \<Rightarrow> nat list option" where
  "ri_gather_left slot ix left column =
     map_option concat
       (gather (\<lambda>(code, value).
            map_option (\<lambda>n. replicate n value) (groups_count (grouped ix) (slot (ix_slots ix) code)))
          (zip left column))"

definition ri_gather_right ::
    "('s \<Rightarrow> nat \<Rightarrow> nat) \<Rightarrow> 's right_index \<Rightarrow> nat list \<Rightarrow> nat list \<Rightarrow> nat list option" where
  "ri_gather_right slot ix left column =
     map_option concat
       (gather (\<lambda>code. Option.bind (ri_rows_for slot ix code) (gather (buf_get column))) left)"

definition ri_gather ::
    "('s \<Rightarrow> nat \<Rightarrow> nat) \<Rightarrow> 's right_index \<Rightarrow> nat list \<Rightarrow> nat list list \<Rightarrow> nat list list \<Rightarrow>
     nat option \<Rightarrow> (nat + nat list list) option"
where
  "ri_gather slot ix left left_columns right_columns max_pairs =
     (case ri_match_count slot ix left of
        None \<Rightarrow> None
      | Some pairs \<Rightarrow>
          (case within_cap pairs max_pairs of
             Inl refused \<Rightarrow> Some (Inl refused)
           | Inr _ \<Rightarrow>
               (case gather (ri_gather_left slot ix left) left_columns of
                  None \<Rightarrow> None
                | Some ls \<Rightarrow>
                    map_option (\<lambda>rs. Inr (ls @ rs))
                      (gather (ri_gather_right slot ix left) right_columns))))"

text \<open>The laws of the trait for a lookup built over a right column: the column's codes have slots of
  their own below \<open>width\<close>, and every other code is sent to none of those.\<close>

locale slots =
  fixes slot :: "'s \<Rightarrow> nat \<Rightarrow> nat" and width :: "'s \<Rightarrow> nat" and indexes :: "'s \<Rightarrow> nat list \<Rightarrow> bool"
  assumes slot_width: "indexes s right \<Longrightarrow> c \<in> set right \<Longrightarrow> slot s c < width s"
    and slot_bound: "indexes s right \<Longrightarrow> slot s c \<le> width s"
    and slot_own: "indexes s right \<Longrightarrow> c \<le> u64_max \<Longrightarrow> d \<in> set right \<Longrightarrow> slot s c = slot s d \<Longrightarrow> c = d"
begin

lemma build:
  assumes "indexes s right"
  shows "\<exists>g. groups_build (width s) (map (slot s) right) = Some g \<and> length (rows g) = length right \<and>
    (\<forall>c \<le> u64_max. ri_rows_for slot \<lparr>ix_slots = s, grouped = g\<rparr> c = Some (matches right c) \<and>
       groups_count g (slot s c) = Some (length (matches right c)))"
proof -
  obtain g where g: "groups_build (width s) (map (slot s) right) = Some g"
    "length (rows g) = length right"
    "\<forall>k \<le> width s. groups_rows g k = Some (slot_rows (map (slot s) right) k) \<and>
       groups_count g k = Some (length (slot_rows (map (slot s) right) k))"
    using groups_build_correct [of "map (slot s) right" "width s"] slot_width [OF assms] by auto
  have "slot_rows (map (slot s) right) (slot s c) = matches right c" if "c \<le> u64_max" for c
    unfolding slot_rows_def matches_def length_map
  proof (rule filter_cong [OF refl])
    fix r assume "r \<in> set [0..<length right]"
    then show "map (slot s) right ! r = slot s c \<longleftrightarrow> right ! r = c"
      using slot_own [OF assms that, of "right ! r"] by auto
  qed
  then show ?thesis using g slot_bound [OF assms] by (auto simp: ri_rows_for_def)
qed

text \<open>A right index over \<open>right\<close>, as both kinds are built.\<close>

lemma index_rows:
  assumes "indexes s right" "groups_build (width s) (map (slot s) right) = Some g"
    and "ix = \<lparr>ix_slots = s, grouped = g\<rparr>" "c \<le> u64_max"
  shows "ri_rows_for slot ix c = Some (matches right c)"
    and "groups_count (grouped ix) (slot (ix_slots ix) c) = Some (length (matches right c))"
    and "length (rows (grouped ix)) = length right"
  using build [OF assms(1)] assms(2-4) by auto

lemma index_match_count:
  assumes ix: "indexes s right" "groups_build (width s) (map (slot s) right) = Some g"
      "ix = \<lparr>ix_slots = s, grouped = g\<rparr>"
    and left: "\<forall>c \<in> set left. c \<le> u64_max"
  shows "ri_match_count slot ix left = Some (min (length (nested_loop left right)) u64_max)"
proof -
  let ?f = "\<lambda>c. length (matches right c)"
  have counts: "gather (\<lambda>code. groups_count (grouped ix) (slot (ix_slots ix) code)) left = Some (map ?f left)"
    using left by (intro gather_Some index_rows(2) [OF ix]) auto
  have total: "sum_list (map ?f left) = length (nested_loop left right)"
  proof -
    have "map ?f left = map (\<lambda>i. ?f (left ! i)) [0..<length left]"
      by (rule map_index)
    then show ?thesis by (simp add: nested_loop_def length_concat o_def)
  qed
  have le: "?f c \<le> length right" for c
    unfolding matches_def using length_filter_le [of "\<lambda>r. right ! r = c" "[0..<length right]"] by simp
  have "sum_list (map ?f left) \<le> length left * length right"
    using le by (induction left) (auto intro: add_mono)
  moreover have "foldl sat_add 0 (map ?f left) = min (sum_list (map ?f left)) u64_max"
    by (rule foldl_sat_add_plain)
  ultimately show ?thesis
    using total index_rows(3) [OF ix, of 0]
    by (auto simp: ri_match_count_def counts u64_max_def)
qed

lemma index_join:
  assumes ix: "indexes s right" "groups_build (width s) (map (slot s) right) = Some g"
      "ix = \<lparr>ix_slots = s, grouped = g\<rparr>"
    and left: "\<forall>c \<in> set left. c \<le> u64_max"
  shows "ri_join slot ix left max_pairs = Some (join_spec left right max_pairs)"
proof -
  have "gather (ri_rows_for slot ix) left = Some (map (matches right) left)"
    using left by (intro gather_Some index_rows(1) [OF ix]) auto
  moreover have "concat (map (\<lambda>(i, rs). replicate (length rs) i) (enumerate 0 (map (matches right) left))) =
      map fst (nested_loop left right)"
    by (simp add: nested_loop_def map_concat o_def enumerate_map_index map_replicate_const)
  moreover have "concat (map (matches right) left) = map snd (nested_loop left right)"
  proof -
    have "map (matches right) left = map (\<lambda>i. matches right (left ! i)) [0..<length left]"
      by (rule map_index)
    then show ?thesis by (simp add: nested_loop_def map_concat o_def)
  qed
  ultimately show ?thesis
    by (simp add: ri_join_def index_match_count [OF ix left] within_cap_eq join_spec_def Let_def)
qed

lemma index_gather:
  assumes ix: "indexes s right" "groups_build (width s) (map (slot s) right) = Some g"
      "ix = \<lparr>ix_slots = s, grouped = g\<rparr>"
    and left: "\<forall>c \<in> set left. c \<le> u64_max"
    and lc: "\<forall>col \<in> set left_columns. length col = length left"
    and rc: "\<forall>col \<in> set right_columns. length col = length right"
  shows "ri_gather slot ix left left_columns right_columns max_pairs =
    Some (case join_spec left right max_pairs of
            Inl pairs \<Rightarrow> Inl pairs
          | Inr (out_l, out_r) \<Rightarrow>
              Inr (map (\<lambda>col. map ((!) col) out_l) left_columns @
                   map (\<lambda>col. map ((!) col) out_r) right_columns))"
proof -
  have left_col: "ri_gather_left slot ix left col = Some (map ((!) col) (map fst (nested_loop left right)))"
    if "length col = length left" for col
  proof -
    have "gather (\<lambda>(code, value). map_option (\<lambda>n. replicate n value)
          (groups_count (grouped ix) (slot (ix_slots ix) code))) (zip left col) =
        Some (map (\<lambda>(code, value). replicate (length (matches right code)) value) (zip left col))"
      using left index_rows(2) [OF ix] by (intro gather_Some) (auto dest: set_zip_leftD)
    moreover have "zip left col = map (\<lambda>i. (left ! i, col ! i)) [0..<length left]"
      using that by (intro nth_equalityI) auto
    ultimately show ?thesis
      by (simp add: ri_gather_left_def nested_loop_def map_concat o_def map_replicate_const)
  qed
  have right_col: "ri_gather_right slot ix left col = Some (map ((!) col) (map snd (nested_loop left right)))"
    if col: "length col = length right" for col
  proof -
    have "Option.bind (ri_rows_for slot ix c) (gather (buf_get col)) = Some (map ((!) col) (matches right c))"
      if "c \<in> set left" for c
      using left that col by (simp add: index_rows(1) [OF ix]) (auto intro!: gather_Some simp: checked_simps dest: matches_less)
    then have "gather (\<lambda>code. Option.bind (ri_rows_for slot ix code) (gather (buf_get col))) left =
        Some (map (\<lambda>c. map ((!) col) (matches right c)) left)"
      by (rule gather_Some)
    moreover have "map (\<lambda>c. map ((!) col) (matches right c)) left =
        map (\<lambda>i. map ((!) col) (matches right (left ! i))) [0..<length left]"
      by (rule map_index)
    ultimately show ?thesis
      by (simp add: ri_gather_right_def nested_loop_def map_concat o_def)
  qed
  have "gather (ri_gather_left slot ix left) left_columns =
      Some (map (\<lambda>col. map ((!) col) (map fst (nested_loop left right))) left_columns)"
    using lc left_col by (intro gather_Some) blast
  moreover have "gather (ri_gather_right slot ix left) right_columns =
      Some (map (\<lambda>col. map ((!) col) (map snd (nested_loop left right))) right_columns)"
    using rc right_col by (intro gather_Some) blast
  ultimately show ?thesis
    by (simp add: ri_gather_def index_match_count [OF ix left] within_cap_eq join_spec_def Let_def)
qed

end

section \<open>A table over the code span\<close>

record span =
  span_min :: nat
  span_width :: nat

fun code_range :: "nat list \<Rightarrow> (nat \<times> nat) option" where
  "code_range [] = None"
| "code_range (first # rest) =
     Some (foldl (\<lambda>(lo, hi) c. (min lo c, max hi c)) (first, first) rest)"

definition span_of :: "nat list \<Rightarrow> span option" where
  "span_of codes =
     (case code_range codes of
        None \<Rightarrow> None
      | Some (lo, hi) \<Rightarrow>
          if dense_table_fits (hi - lo) (length codes)
          then Some \<lparr>span_min = lo, span_width = (hi - lo) + 1\<rparr> else None)"

definition span_slot :: "span \<Rightarrow> nat \<Rightarrow> nat" where
  "span_slot s code = min (wrap_sub code (span_min s)) (span_width s)"

definition ri_dense :: "nat list \<Rightarrow> span \<Rightarrow> span right_index option" where
  "ri_dense right s =
     map_option (\<lambda>g. \<lparr>ix_slots = s, grouped = g\<rparr>)
       (groups_build (span_width s) (map (\<lambda>c. c - span_min s) right))"

lemma foldl_min_max:
  "foldl (\<lambda>(lo, hi) c. (min lo c, max hi c)) (lo, hi) cs = (lo', hi') \<Longrightarrow>
   lo' \<le> lo \<and> (hi::nat) \<le> hi' \<and> (\<forall>c \<in> set cs. lo' \<le> c \<and> c \<le> hi') \<and>
   (lo' = lo \<or> lo' \<in> set cs) \<and> (hi' = hi \<or> hi' \<in> set cs)"
proof (induction cs arbitrary: lo hi)
  case (Cons c cs)
  from Cons.prems have "foldl (\<lambda>(lo, hi) c. (min lo c, max hi c)) (min lo c, max hi c) cs = (lo', hi')"
    by simp
  note IH = Cons.IH [OF this]
  have "min lo c \<in> {lo, c}" "max hi c \<in> {hi, c}" by (auto simp: min_def max_def)
  with IH show ?case by auto
qed simp

lemma code_range_bounds:
  "code_range codes = Some (lo, hi) \<Longrightarrow>
   lo \<in> set codes \<and> hi \<in> set codes \<and> (\<forall>c \<in> set codes. lo \<le> c \<and> c \<le> hi)"
  using foldl_min_max [of "hd codes" "hd codes" "tl codes" lo hi] by (cases codes) auto

definition span_indexes :: "span \<Rightarrow> nat list \<Rightarrow> bool" where
  "span_indexes s right \<longleftrightarrow> span_of right = Some s \<and> (\<forall>c \<in> set right. c \<le> u64_max)"

lemma span_indexes_bounds:
  assumes "span_indexes s right"
  obtains hi where "hi \<le> u64_max" "span_min s \<le> hi" "span_width s = hi - span_min s + 1"
    "\<And>c. c \<in> set right \<Longrightarrow> span_min s \<le> c \<and> c \<le> hi"
proof -
  from assms obtain lo hi where r: "code_range right = Some (lo, hi)"
    and s: "s = \<lparr>span_min = lo, span_width = hi - lo + 1\<rparr>"
    by (auto simp: span_indexes_def span_of_def split: option.splits if_splits)
  then show thesis
    using code_range_bounds [OF r] assms by (intro that [of hi]) (auto simp: span_indexes_def)
qed

lemma span_slot_in:
  assumes "span_indexes s right" "c \<in> set right"
  shows "span_slot s c = c - span_min s" "c - span_min s < span_width s" "span_min s \<le> c"
  using span_indexes_bounds [OF assms(1)] assms(2)
  by (metis (no_types, lifting) Suc_eq_plus1 diff_le_mono le_imp_less_Suc less_imp_le_nat min_absorb1
      span_slot_def wrap_sub_def)+

lemma span_slot_miss:
  assumes "span_indexes s right" "c \<le> u64_max" "span_slot s c < span_width s"
  shows "span_min s \<le> c \<and> span_slot s c = c - span_min s"
proof (cases "span_min s \<le> c")
  case True
  then show ?thesis using assms(3) by (simp add: span_slot_def wrap_sub_def)
next
  case False
  obtain hi where hi: "hi \<le> u64_max" "span_width s = hi - span_min s + 1" "span_min s \<le> hi"
    using span_indexes_bounds [OF assms(1)] by metis
  then have "span_width s \<le> wrap_sub c (span_min s)"
    using False by (simp add: wrap_sub_def u64_max_def)
  then show ?thesis using assms(3) by (simp add: span_slot_def)
qed

interpretation span: slots span_slot span_width span_indexes
proof
  fix s right c assume s: "span_indexes s right"
  show "span_slot s c \<le> span_width s" by (simp add: span_slot_def)
  assume "c \<in> set right"
  then show "span_slot s c < span_width s" using span_slot_in [OF s] by simp
next
  fix s right c d
  assume s: "span_indexes s right" and c: "c \<le> u64_max" and d: "d \<in> set right"
    and eq: "span_slot s c = span_slot s d"
  then have "span_slot s c < span_width s" using span_slot_in [OF s d] by simp
  then show "c = d" using span_slot_miss [OF s c] span_slot_in [OF s d] eq by linarith
qed

section \<open>A map of the distinct codes\<close>

text \<open>The hash map of each distinct code to its slot, numbered in first-seen order, as the
  association list of its entries.\<close>

type_synonym hashed = "(nat \<times> nat) list"

fun hash_slots :: "nat list \<Rightarrow> hashed \<Rightarrow> nat list \<times> hashed" where
  "hash_slots [] m = ([], m)"
| "hash_slots (code # codes) m =
     (let next' = length m;
          (k, m') = (case map_of m code of Some k \<Rightarrow> (k, m) | None \<Rightarrow> (next', (code, next') # m));
          (ks, m'') = hash_slots codes m'
      in (k # ks, m''))"

definition hashed_slot :: "hashed \<Rightarrow> nat \<Rightarrow> nat" where
  "hashed_slot m code = (case map_of m code of Some k \<Rightarrow> k | None \<Rightarrow> length m)"

definition ri_hashed :: "nat list \<Rightarrow> hashed right_index option" where
  "ri_hashed right =
     (let (row_slots, m) = hash_slots right []
      in map_option (\<lambda>g. \<lparr>ix_slots = m, grouped = g\<rparr>) (groups_build (length m) row_slots))"

text \<open>The entries number distinct codes below their count.\<close>

definition numbered :: "hashed \<Rightarrow> bool" where
  "numbered m \<longleftrightarrow> map snd m = rev [0..<length m] \<and> distinct (map fst m)"

lemma numbered_lookup:
  assumes "numbered m" "map_of m c = Some k"
  shows "k < length m" and "map_of m d = Some k \<Longrightarrow> d = c"
proof -
  have "k \<in> set (map snd m)" using assms(2) by (force dest: map_of_SomeD)
  then have "k \<in> set (rev [0..<length m])" using assms(1) by (simp only: numbered_def)
  then show "k < length m" by simp
  assume "map_of m d = Some k"
  then have in_m: "(d, k) \<in> set m" "(c, k) \<in> set m" using assms(2) by (auto dest: map_of_SomeD)
  have "distinct (map snd m)" using assms(1) by (simp add: numbered_def)
  then show "d = c" using in_m by (metis distinct_map inj_onD prod.inject snd_conv)
qed

lemma hash_slots_eq:
  assumes "numbered m" "hash_slots codes m = (ks, m')"
  shows "numbered m' \<and> (\<forall>c k. map_of m c = Some k \<longrightarrow> map_of m' c = Some k) \<and>
    ks = map (hashed_slot m') codes \<and> (\<forall>c \<in> set codes. map_of m' c \<noteq> None) \<and>
    set (map fst m') = set (map fst m) \<union> set codes"
  using assms
proof (induction codes arbitrary: m ks)
  case (Cons code codes)
  obtain k m1 where km: "(k, m1) =
      (case map_of m code of Some k \<Rightarrow> (k, m) | None \<Rightarrow> (length m, (code, length m) # m))"
    by (metis surj_pair)
  obtain ks' where rec: "hash_slots codes m1 = (ks', m')" and ks: "ks = k # ks'"
    using Cons.prems(2) km by (auto simp: Let_def split: prod.splits)
  have m1: "numbered m1 \<and> map_of m1 code = Some k \<and> (\<forall>c k. map_of m c = Some k \<longrightarrow> map_of m1 c = Some k) \<and>
      set (map fst m1) = insert code (set (map fst m))"
  proof (cases "map_of m code")
    case None
    then have "code \<notin> set (map fst m)" by (simp add: map_of_eq_None_iff)
    then show ?thesis using None km Cons.prems(1) by (auto simp: numbered_def)
  next
    case (Some j)
    then have "code \<in> set (map fst m)" by (metis map_of_eq_None_iff option.distinct(1) set_map)
    then show ?thesis using Some km Cons.prems(1) by auto
  qed
  then have "numbered m1" by blast
  note IH = Cons.IH [OF this rec]
  then have "map_of m' code = Some k" using m1 by blast
  then show ?case using IH m1 ks by (auto simp: hashed_slot_def)
qed simp

definition hashed_indexes :: "hashed \<Rightarrow> nat list \<Rightarrow> bool" where
  "hashed_indexes m right \<longleftrightarrow> m = snd (hash_slots right [])"

lemma hashed_indexes_slots:
  assumes "hashed_indexes m right"
  shows "numbered m" "fst (hash_slots right []) = map (hashed_slot m) right"
    and "c \<in> set right \<longleftrightarrow> map_of m c \<noteq> None"
proof -
  have "numbered []" by (simp add: numbered_def)
  then have "numbered m \<and> fst (hash_slots right []) = map (hashed_slot m) right \<and>
      set (map fst m) = set right"
    using hash_slots_eq [of "[]" right] assms by (cases "hash_slots right []") (auto simp: hashed_indexes_def)
  then show "numbered m" "fst (hash_slots right []) = map (hashed_slot m) right"
    "c \<in> set right \<longleftrightarrow> map_of m c \<noteq> None"
    by (auto simp: map_of_eq_None_iff)
qed

interpretation hashed: slots hashed_slot length hashed_indexes
proof
  fix m right c assume m: "hashed_indexes m right"
  show "hashed_slot m c \<le> length m"
    using numbered_lookup(1) [OF hashed_indexes_slots(1) [OF m]]
    by (auto simp: hashed_slot_def less_imp_le split: option.split)
  assume "c \<in> set right"
  then show "hashed_slot m c < length m"
    using numbered_lookup(1) [OF hashed_indexes_slots(1) [OF m]] hashed_indexes_slots(3) [OF m]
    by (auto simp: hashed_slot_def split: option.split)
next
  fix m right c d
  assume m: "hashed_indexes m right" and "d \<in> set right" and eq: "hashed_slot m c = hashed_slot m d"
  then obtain k where k: "map_of m d = Some k" using hashed_indexes_slots(3) [OF m] by blast
  note num = hashed_indexes_slots(1) [OF m]
  have "map_of m c = Some k"
    using eq k numbered_lookup(1) [OF num k] by (auto simp: hashed_slot_def split: option.splits)
  then show "c = d" by (rule numbered_lookup(2) [OF num k])
qed

section \<open>The build side and the join\<close>

datatype code_groups = Dense "span right_index" | Hashed "hashed right_index"

definition code_groups_build :: "nat list \<Rightarrow> code_groups option" where
  "code_groups_build right =
     (case span_of right of
        Some s \<Rightarrow> map_option Dense (ri_dense right s)
      | None \<Rightarrow> map_option Hashed (ri_hashed right))"

fun cg_len :: "code_groups \<Rightarrow> nat" where
  "cg_len (Dense ix) = length (rows (grouped ix))"
| "cg_len (Hashed ix) = length (rows (grouped ix))"

fun cg_count :: "code_groups \<Rightarrow> nat list \<Rightarrow> nat option" where
  "cg_count (Dense ix) left = ri_match_count span_slot ix left"
| "cg_count (Hashed ix) left = ri_match_count hashed_slot ix left"

fun cg_pairs :: "code_groups \<Rightarrow> nat list \<Rightarrow> nat option \<Rightarrow> (nat + pair_columns) option" where
  "cg_pairs (Dense ix) left max_pairs = ri_join span_slot ix left max_pairs"
| "cg_pairs (Hashed ix) left max_pairs = ri_join hashed_slot ix left max_pairs"

text \<open>\<open>gather\<close> panics on a column not as long as its keys.\<close>

definition cg_gather ::
    "code_groups \<Rightarrow> nat list \<Rightarrow> nat list list \<Rightarrow> nat list list \<Rightarrow> nat option \<Rightarrow>
     (nat + nat list list) option"
where
  "cg_gather cg left left_columns right_columns max_pairs =
     (if list_all (\<lambda>c. length c = length left) left_columns \<and>
         list_all (\<lambda>c. length c = cg_len cg) right_columns
      then (case cg of
              Dense ix \<Rightarrow> ri_gather span_slot ix left left_columns right_columns max_pairs
            | Hashed ix \<Rightarrow> ri_gather hashed_slot ix left left_columns right_columns max_pairs)
      else None)"

definition equi_join_indices ::
    "nat list \<Rightarrow> nat list \<Rightarrow> nat option \<Rightarrow> (nat + pair_columns) option"
where
  "equi_join_indices left right max_pairs =
     (if left = [] \<or> right = [] then Some (Inr ([], []))
      else if sorted left \<and> sorted right then Some (merge_join left right max_pairs)
      else Option.bind (code_groups_build right) (\<lambda>cg. cg_pairs cg left max_pairs))"

definition join_count :: "nat list \<Rightarrow> nat list \<Rightarrow> nat option" where
  "join_count left right =
     (if left = [] \<or> right = [] then Some 0
      else if sorted left \<and> sorted right then Some (merge_join_len left right)
      else Option.bind (code_groups_build right) (\<lambda>cg. cg_count cg left))"

abbreviation u64_codes :: "nat list \<Rightarrow> bool" where
  "u64_codes codes \<equiv> list_all (\<lambda>c. c \<le> u64_max) codes"

text \<open>Whichever index the build picks, it holds the laws of a right index over the column.\<close>

definition groups_contract :: "nat list \<Rightarrow> code_groups \<Rightarrow> bool" where
  "groups_contract right cg \<longleftrightarrow>
     cg_len cg = length right \<and>
     (\<forall>left. u64_codes left \<longrightarrow>
        cg_count cg left = Some (min (length (nested_loop left right)) u64_max)) \<and>
     (\<forall>left max_pairs. u64_codes left \<longrightarrow>
        cg_pairs cg left max_pairs = Some (join_spec left right max_pairs)) \<and>
     (\<forall>left max_pairs lcs rcs. u64_codes left \<longrightarrow> list_all (\<lambda>c. length c = length left) lcs \<longrightarrow>
        list_all (\<lambda>c. length c = length right) rcs \<longrightarrow>
        cg_gather cg left lcs rcs max_pairs =
          Some (case join_spec left right max_pairs of
              Inl pairs \<Rightarrow> Inl pairs
            | Inr (out_l, out_r) \<Rightarrow>
                Inr (map (\<lambda>col. map ((!) col) out_l) lcs @ map (\<lambda>col. map ((!) col) out_r) rcs)))"

lemma index_contract:
  assumes "cg_len cg = length right"
    and "\<And>left. u64_codes left \<Longrightarrow>
      cg_count cg left = Some (min (length (nested_loop left right)) u64_max)"
    and "\<And>left max_pairs. u64_codes left \<Longrightarrow>
      cg_pairs cg left max_pairs = Some (join_spec left right max_pairs)"
    and "\<And>left max_pairs lcs rcs. u64_codes left \<Longrightarrow> list_all (\<lambda>c. length c = length left) lcs \<Longrightarrow>
      list_all (\<lambda>c. length c = length right) rcs \<Longrightarrow>
      cg_gather cg left lcs rcs max_pairs =
        Some (case join_spec left right max_pairs of
            Inl pairs \<Rightarrow> Inl pairs
          | Inr (out_l, out_r) \<Rightarrow>
              Inr (map (\<lambda>col. map ((!) col) out_l) lcs @ map (\<lambda>col. map ((!) col) out_r) rcs))"
  shows "groups_contract right cg"
  unfolding groups_contract_def using assms by blast

lemma contract_pairs:
  "groups_contract right cg \<Longrightarrow> u64_codes left \<Longrightarrow>
   cg_pairs cg left max_pairs = Some (join_spec left right max_pairs)"
  by (simp add: groups_contract_def)

lemma contract_count:
  "groups_contract right cg \<Longrightarrow> u64_codes left \<Longrightarrow>
   cg_count cg left = Some (min (length (nested_loop left right)) u64_max)"
  by (simp add: groups_contract_def)

lemma code_groups_correct:
  assumes right: "u64_codes right"
  obtains cg where "code_groups_build right = Some cg" "groups_contract right cg"
proof (cases "span_of right")
  case (Some s)
  then have s: "span_indexes s right" using right by (simp add: span_indexes_def list_all_iff)
  have dense: "map (\<lambda>c. c - span_min s) right = map (span_slot s) right"
    using span_slot_in(1) [OF s] by simp
  obtain g where g: "groups_build (span_width s) (map (span_slot s) right) = Some g"
    using span.build [OF s] by blast
  let ?cg = "Dense \<lparr>ix_slots = s, grouped = g\<rparr>"
  have len: "cg_len ?cg = length right" using span.index_rows(3) [OF s g refl, of 0] by simp
  show thesis
  proof (rule that [of ?cg])
    show "code_groups_build right = Some ?cg"
      using Some g by (simp add: code_groups_build_def ri_dense_def dense del: map_eq_conv)
    show "groups_contract right ?cg"
    proof (rule index_contract)
      fix left :: "nat list" and max_pairs and lcs rcs :: "nat list list"
      assume "u64_codes left"
      then have left: "\<forall>c \<in> set left. c \<le> u64_max" by (simp add: list_all_iff)
      show "cg_count ?cg left = Some (min (length (nested_loop left right)) u64_max)"
        by (simp only: cg_count.simps span.index_match_count [OF s g refl left])
      show "cg_pairs ?cg left max_pairs = Some (join_spec left right max_pairs)"
        by (simp only: cg_pairs.simps span.index_join [OF s g refl left])
      assume cols: "list_all (\<lambda>c. length c = length left) lcs" "list_all (\<lambda>c. length c = length right) rcs"
      show "cg_gather ?cg left lcs rcs max_pairs =
        Some (case join_spec left right max_pairs of
            Inl pairs \<Rightarrow> Inl pairs
          | Inr (out_l, out_r) \<Rightarrow>
              Inr (map (\<lambda>col. map ((!) col) out_l) lcs @ map (\<lambda>col. map ((!) col) out_r) rcs))"
        using span.index_gather [OF s g refl left, of lcs rcs max_pairs] cols
        by (simp add: cg_gather_def len [simplified] list_all_iff)
    qed (rule len)
  qed
next
  case None
  define m where "m = snd (hash_slots right [])"
  then have m: "hashed_indexes m right" by (simp add: hashed_indexes_def)
  obtain g where g: "groups_build (length m) (map (hashed_slot m) right) = Some g"
    using hashed.build [OF m] by blast
  let ?cg = "Hashed \<lparr>ix_slots = m, grouped = g\<rparr>"
  have len: "cg_len ?cg = length right" using hashed.index_rows(3) [OF m g refl, of 0] by simp
  show thesis
  proof (rule that [of ?cg])
    have "hash_slots right [] = (map (hashed_slot m) right, m)"
      using hashed_indexes_slots(2) [OF m] by (metis m_def prod.collapse)
    then show "code_groups_build right = Some ?cg"
      using None g by (simp add: code_groups_build_def ri_hashed_def)
    show "groups_contract right ?cg"
    proof (rule index_contract)
      fix left :: "nat list" and max_pairs and lcs rcs :: "nat list list"
      assume "u64_codes left"
      then have left: "\<forall>c \<in> set left. c \<le> u64_max" by (simp add: list_all_iff)
      show "cg_count ?cg left = Some (min (length (nested_loop left right)) u64_max)"
        by (simp only: cg_count.simps hashed.index_match_count [OF m g refl left])
      show "cg_pairs ?cg left max_pairs = Some (join_spec left right max_pairs)"
        by (simp only: cg_pairs.simps hashed.index_join [OF m g refl left])
      assume cols: "list_all (\<lambda>c. length c = length left) lcs" "list_all (\<lambda>c. length c = length right) rcs"
      show "cg_gather ?cg left lcs rcs max_pairs =
        Some (case join_spec left right max_pairs of
            Inl pairs \<Rightarrow> Inl pairs
          | Inr (out_l, out_r) \<Rightarrow>
              Inr (map (\<lambda>col. map ((!) col) out_l) lcs @ map (\<lambda>col. map ((!) col) out_r) rcs))"
        using hashed.index_gather [OF m g refl left, of lcs rcs max_pairs] cols
        by (simp add: cg_gather_def len [simplified] list_all_iff)
    qed (rule len)
  qed
qed

lemma nested_loop_empty: "left = [] \<or> right = [] \<Longrightarrow> nested_loop left right = []"
  by (auto simp: nested_loop_def matches_def)

lemma equi_join_spec:
  assumes "u64_codes left" "u64_codes right"
  shows "equi_join_indices left right max_pairs = Some (join_spec left right max_pairs)"
proof (cases "left = [] \<or> right = []")
  case True
  then show ?thesis
    by (auto simp: equi_join_indices_def join_spec_def nested_loop_empty capped_def split: option.split)
next
  case False
  obtain cg where "code_groups_build right = Some cg" and cg: "groups_contract right cg"
    by (rule code_groups_correct [OF assms(2)])
  then show ?thesis
    using False contract_pairs [OF cg assms(1)] by (simp add: equi_join_indices_def merge_join_spec)
qed

text \<open>
  C14. The join produces the nested loop's row pairs in the nested loop's order whichever strategy
  runs (the merge pass, the dense table, the hashed groups): nothing panics, and a join of more
  pairs than the cap is refused with its pair count.
\<close>

theorem equi_join_nested_loop:
  assumes "u64_codes left" "u64_codes right"
  shows "equi_join_indices left right max_pairs = Some (join_spec left right max_pairs)"
  by (rule equi_join_spec [OF assms])

theorem equi_join_nested_loop_witness:
  "equi_join_indices [1, 2, 2, 3, 7] [2, 2, 7, 1, 9] None =
     Some (Inr ([0, 1, 1, 2, 2, 4], [3, 0, 1, 0, 1, 2]))"
proof -
  have "nested_loop [1, 2, 2, 3, 7] [2, 2, 7, 1, 9] =
      [(0, 3), (1, 0), (1, 1), (2, 0), (2, 1), (4, 2)]" by code_simp
  then have "join_spec [1, 2, 2, 3, 7] [2, 2, 7, 1, 9] None =
      Inr ([0, 1, 1, 2, 2, 4], [3, 0, 1, 0, 1, 2])" by (simp add: join_spec_def capped_def)
  then show ?thesis
    using equi_join_nested_loop [of "[1, 2, 2, 3, 7]" "[2, 2, 7, 1, 9]" None] by (simp add: u64_max_def)
qed

text \<open>
  The counting pass alone agrees with the join on every route: it is the number of pairs the
  join produces, saturated at the largest \<open>usize\<close>.
\<close>

theorem join_count_pairs:
  assumes "u64_codes left" "u64_codes right"
  shows "join_count left right = Some (min (length (nested_loop left right)) usize_max)"
proof -
  obtain cg where "code_groups_build right = Some cg" and cg: "groups_contract right cg"
    by (rule code_groups_correct [OF assms(2)])
  then show ?thesis
    using contract_count [OF cg assms(1)]
    by (auto simp: join_count_def merge_join_len_eq nested_loop_empty)
qed

theorem join_count_pairs_witness: "join_count [5, 5, 3] [5, 1, 5] = Some 4"
proof -
  have "length (nested_loop [5, 5, 3] [5, 1, 5]) = 4" by code_simp
  then show ?thesis using join_count_pairs [of "[5, 5, 3]" "[5, 1, 5]"] by (simp add: u64_max_def)
qed

text \<open>
  C23. Gathering the joined columns while the pairs are found equals taking each column at the
  join's index columns, left columns first, under the same cap.
\<close>

theorem gather_takes_joined_columns:
  assumes "u64_codes left" "u64_codes right"
    and "list_all (\<lambda>c. length c = length left) lcs" "list_all (\<lambda>c. length c = length right) rcs"
  shows "Option.bind (code_groups_build right) (\<lambda>cg. cg_gather cg left lcs rcs max_pairs) =
    Some (case join_spec left right max_pairs of
            Inl pairs \<Rightarrow> Inl pairs
          | Inr (out_l, out_r) \<Rightarrow>
              Inr (map (\<lambda>col. map ((!) col) out_l) lcs @ map (\<lambda>col. map ((!) col) out_r) rcs))"
proof -
  obtain cg where cg: "code_groups_build right = Some cg" "groups_contract right cg"
    by (rule code_groups_correct [OF assms(2)])
  then have "cg_gather cg left lcs rcs max_pairs =
      Some (case join_spec left right max_pairs of
            Inl pairs \<Rightarrow> Inl pairs
          | Inr (out_l, out_r) \<Rightarrow>
              Inr (map (\<lambda>col. map ((!) col) out_l) lcs @ map (\<lambda>col. map ((!) col) out_r) rcs))"
    using assms(1,3,4) unfolding groups_contract_def by blast
  then show ?thesis using cg by simp
qed

theorem gather_takes_joined_columns_witness:
  "Option.bind (code_groups_build [7, 5]) (\<lambda>cg. cg_gather cg [5, 7, 5] [[10, 20, 30]] [[1, 2]] None) =
   Some (Inr [[10, 20, 30], [2, 1, 2]])"
proof -
  have "nested_loop [5, 7, 5] [7, 5] = [(0, 1), (1, 0), (2, 1)]" by code_simp
  then have "(case join_spec [5, 7, 5] [7, 5] None of
            Inl pairs \<Rightarrow> Inl pairs
          | Inr (out_l, out_r) \<Rightarrow>
              Inr (map (\<lambda>col. map ((!) col) out_l) [[10, 20, 30]] @
                   map (\<lambda>col. map ((!) col) out_r) [[1, 2]])) = Inr [[10, 20, 30], [2, 1, 2::nat]]"
    by (simp add: join_spec_def capped_def)
  then show ?thesis
    using gather_takes_joined_columns [of "[5, 7, 5]" "[7, 5]" "[[10, 20, 30]]" "[[1, 2]]" None]
    by (simp add: u64_max_def)
qed

lemma nested_loop_append:
  "nested_loop (left @ left') right =
     nested_loop left right @ map (\<lambda>(i, j). (length left + i, j)) (nested_loop left' right)"
proof -
  have "[0..<length (left @ left')] = [0..<length left] @ map ((+) (length left)) [0..<length left']"
    using upt_split [of 0 "length left" "length left + length left'"]
      map_add_upt [of "length left" "length left'"] by (simp add: add.commute [of _ "length left"])
  moreover have "map (\<lambda>i. map (Pair i) (matches right ((left @ left') ! i))) [0..<length left] =
      map (\<lambda>i. map (Pair i) (matches right (left ! i))) [0..<length left]"
    by (intro map_cong) (auto simp: nth_append)
  ultimately show ?thesis by (simp only: nested_loop_def map_append concat_append) (simp add: map_concat o_def)
qed

text \<open>
  The build side joined slice by slice is the one-shot join: for a left column cut in two, the
  joins of the slices, the second slice's left indices offset by its start, concatenate to the
  whole column's pairs.
\<close>

theorem slices_concatenate:
  assumes "u64_codes left" "u64_codes left'" "u64_codes right"
  shows "\<exists>cg ls rs ls' rs'. code_groups_build right = Some cg \<and>
    cg_pairs cg left None = Some (Inr (ls, rs)) \<and> cg_pairs cg left' None = Some (Inr (ls', rs')) \<and>
    equi_join_indices (left @ left') right None =
      Some (Inr (ls @ map ((+) (length left)) ls', rs @ rs'))"
proof -
  have "u64_codes (left @ left')" using assms by simp
  moreover obtain cg where "code_groups_build right = Some cg" and cg: "groups_contract right cg"
    by (rule code_groups_correct [OF assms(3)])
  ultimately show ?thesis
    using equi_join_spec [of "left @ left'" right None] assms(3)
      contract_pairs [OF cg assms(1)] contract_pairs [OF cg assms(2)]
    by (simp add: join_spec_def capped_def nested_loop_append split_def)
qed

theorem slices_concatenate_witness:
  "u64_codes [5, 7] \<and> u64_codes [7] \<and> u64_codes [7, 5, 7] \<and>
   (\<exists>cg ls rs ls' rs'. code_groups_build [7, 5, 7] = Some cg \<and>
      cg_pairs cg [5, 7] None = Some (Inr (ls, rs)) \<and> cg_pairs cg [7] None = Some (Inr (ls', rs')) \<and>
      equi_join_indices [5, 7, 7] [7, 5, 7] None = Some (Inr (ls @ map ((+) (length [5, 7::nat])) ls', rs @ rs')))"
  using slices_concatenate [of "[5, 7]" "[7]" "[7, 5, 7]"]
  by (simp add: u64_max_def)

end
