(* ===== verification/Zones.thy ===== *)
theory Zones
  imports Prelude "HOL-Library.Word"
begin

text \<open>
  Zone statistics (\<open>src/core/src/zone_stats\<close>). A code column is cut into zones of
  \<open>ZONE_ROWS\<close> rows; for each zone the store keeps the smallest and the largest code and, for a
  graph column, the codes it holds with their rows, while there are at most \<open>MAX_VALUES\<close>
  (\<open>value_counts.rs\<close>). Reads ask these maps whether a zone has no row of a code, nothing else,
  or neither (\<open>zone_map.rs\<close>, \<open>zone_set.rs\<close>), and a build gathers them in one pass
  (\<open>quad_zones.rs\<close>). The lemmas show that what is gathered is exact, that merging and the
  state written to a file lose nothing, and that each answer is true of the column's rows.
\<close>

unbundle bit_operations_syntax

section \<open>The value counts of a zone\<close>

definition MAX_VALUES :: nat where
  "MAX_VALUES = 16"

definition u32_max :: nat where
  "u32_max = 2 ^ 32 - 1"

text \<open>The counts so far, ascending by value, or too many values to record.\<close>

datatype counts = Values "(nat \<times> nat) list" | TooMany

definition counts_new :: counts where
  "counts_new = Values []"

definition counts_add :: "counts \<Rightarrow> nat \<Rightarrow> nat \<Rightarrow> nat \<Rightarrow> counts" where
  "counts_add self value n limit =
     (case self of
        TooMany \<Rightarrow> TooMany
      | Values values \<Rightarrow>
          (case search_by_key fst value values of
             Inr at \<Rightarrow> Values (values[at := (fst (values ! at), snd (values ! at) + n)])
           | Inl at \<Rightarrow>
               if limit \<le> length values then TooMany
               else Values (take at values @ (value, n) # drop at values)))"

text \<open>\<open>add_all\<close> counts a run of one value at a time and stops once there are too many.\<close>

function counts_add_all :: "counts \<Rightarrow> nat list \<Rightarrow> nat \<Rightarrow> counts" where
  "counts_add_all self [] limit = self"
| "counts_add_all self (value # rest) limit =
     (case self of
        TooMany \<Rightarrow> TooMany
      | Values _ \<Rightarrow>
          let run = length (takeWhile (\<lambda>v. v = value) (value # rest))
          in counts_add_all (counts_add self value run limit) (drop run (value # rest)) limit)"
  by pat_completeness auto
termination
  by (relation "measure (\<lambda>(self, values, limit). length values)") auto

definition counts_recorded :: "counts \<Rightarrow> (nat \<times> nat) list option" where
  "counts_recorded self =
     (case self of
        TooMany \<Rightarrow> None
      | Values values \<Rightarrow>
          gather (\<lambda>(value, n). if n \<le> u32_max then Some (value, n) else None) values)"

section \<open>The aggregate\<close>

text \<open>A state is null or two lists; \<open>pairs\<close> refuses one the aggregate does not write.\<close>

type_synonym state = "(nat list \<times> nat list) option"

definition pairs :: "nat list \<Rightarrow> nat list \<Rightarrow> (nat \<times> nat) list option" where
  "pairs values counts =
     (if length values = length counts \<and> length values \<le> MAX_VALUES \<and> ascending values \<and>
         list_all (\<lambda>n. n > 0) counts
      then Some (zip values counts) else None)"

definition decode_state :: "state \<Rightarrow> (nat \<times> nat) list option" where
  "decode_state state = Option.bind state (\<lambda>(values, counts). pairs values counts)"

definition to_scalar :: "counts \<Rightarrow> state" where
  "to_scalar partial =
     (case counts_recorded partial of
        None \<Rightarrow> None
      | Some recorded \<Rightarrow> Some (map fst recorded, map snd recorded))"

definition partial_from_scalar :: "state \<Rightarrow> counts" where
  "partial_from_scalar scalar =
     (case decode_state scalar of None \<Rightarrow> TooMany | Some ps \<Rightarrow> Values ps)"

definition merge_partials :: "nat \<Rightarrow> counts \<Rightarrow> counts \<Rightarrow> counts" where
  "merge_partials max_values first second =
     (case (first, second) of
        (Values merged, Values ps) \<Rightarrow>
          fold (\<lambda>(value, n) out. counts_add out value n max_values) ps (Values merged)
      | _ \<Rightarrow> TooMany)"

definition is_saturated :: "counts \<Rightarrow> bool" where
  "is_saturated partial = (partial = TooMany)"

text \<open>A batch of rows: a constant (its scalar null or a value), primitive values, or an array
  of another kind, which is an error (\<^term>\<open>None\<close>).\<close>

datatype batch = ConstantBatch "nat option" nat | PrimitiveBatch "nat list" | OtherBatch

definition accumulate :: "nat \<Rightarrow> counts \<Rightarrow> batch \<Rightarrow> counts option" where
  "accumulate max_values partial batch =
     (case batch of
        ConstantBatch (Some value) len \<Rightarrow> Some (counts_add partial value len max_values)
      | ConstantBatch None len \<Rightarrow> Some TooMany
      | PrimitiveBatch values \<Rightarrow> Some (counts_add_all partial values max_values)
      | OtherBatch \<Rightarrow> None)"

text \<open>The options' bytes: a little-endian \<open>u32\<close>.\<close>

definition serialize_options :: "32 word \<Rightarrow> 8 word list" where
  "serialize_options max_values = map (\<lambda>k. ucast (drop_bit (8 * k) max_values)) [0..<4]"

definition deserialize_options :: "8 word list \<Rightarrow> 32 word option" where
  "deserialize_options metadata =
     (case metadata of
        [a, b, c, d] \<Rightarrow>
          Some (ucast a OR push_bit 8 (ucast b) OR push_bit 16 (ucast c) OR push_bit 24 (ucast d))
      | _ \<Rightarrow> None)"

section \<open>The counts are the rows\<close>

text \<open>What a zone's rows are to be recorded as: each value with its rows, ascending, while there
  are at most \<open>limit\<close> values.\<close>

definition tally_pairs :: "nat multiset \<Rightarrow> (nat \<times> nat) list" where
  "tally_pairs m = map (\<lambda>v. (v, count m v)) (sorted_list_of_set (set_mset m))"

definition tally :: "nat \<Rightarrow> nat multiset \<Rightarrow> counts" where
  "tally limit m = (if card (set_mset m) \<le> limit then Values (tally_pairs m) else TooMany)"

lemma tally_pairs_keys: "map fst (tally_pairs m) = sorted_list_of_set (set_mset m)"
  by (simp add: tally_pairs_def comp_def)

lemma ascending_tally: "ascending (map fst (tally_pairs m))"
  by (simp add: tally_pairs_keys)

lemma length_tally: "length (tally_pairs m) = card (set_mset m)"
  by (simp add: tally_pairs_def)

lemma in_tally: "(v, n) \<in> set (tally_pairs m) \<longleftrightarrow> n = count m v \<and> v \<in># m"
  by (auto simp: tally_pairs_def)

text \<open>Two key-ascending lists of pairs with the same pairs are equal.\<close>

lemma ascending_pairs_unique:
  assumes "ascending (map fst xs)" "ascending (map fst ys)" "set xs = set ys"
  shows "xs = (ys :: (nat \<times> 'b) list)"
proof -
  have "map fst xs = map fst ys"
    by (rule ascending_unique [OF assms(1,2)]) (simp add: assms(3))
  then have keys: "length xs = length ys" "\<And>i. i < length xs \<Longrightarrow> fst (xs ! i) = fst (ys ! i)"
    by (auto simp: list_eq_iff_nth_eq)
  have "distinct (map fst ys)" by (rule ascending_distinct [OF assms(2)])
  then have inj: "inj_on fst (set ys)" by (simp add: distinct_map)
  show ?thesis
  proof (rule nth_equalityI [OF keys(1)])
    fix i assume i: "i < length xs"
    then have "xs ! i \<in> set ys" "ys ! i \<in> set ys"
      using assms(3) keys(1) nth_mem [of i xs] nth_mem [of i ys] by simp_all
    then show "xs ! i = ys ! i" using inj keys(2) [OF i] by (simp add: inj_on_eq_iff)
  qed
qed

lemma counts_add_tally_pairs:
  assumes "0 < n"
  shows "counts_add (Values (tally_pairs m)) v n limit =
    (if v \<in># m \<or> card (set_mset m) < limit
     then Values (tally_pairs (m + replicate_mset n v)) else TooMany)"
proof -
  let ?ps = "tally_pairs m" and ?qs = "tally_pairs (m + replicate_mset n v)"
  show ?thesis
  proof (cases rule: search_by_key_cases [where key = fst and x = v, OF ascending_tally [of m]])
    case (1 us y vs)
    have y: "y = (v, count m v)" "v \<in># m"
      using 1(1,2) in_tally [of "fst y" "snd y" m] by (cases y; auto)+
    have "us @ (v, count m v + n) # vs = ?qs"
    proof (rule ascending_pairs_unique)
      show "ascending (map fst (us @ (v, count m v + n) # vs))"
        using ascending_tally [of m] 1(1) y by simp
      show "ascending (map fst ?qs)" by (rule ascending_tally)
      have rest: "p \<in> set us \<union> set vs \<longleftrightarrow> p \<in> set ?ps \<and> fst p \<noteq> v" for p
        using 1(1,4,5) y by (cases p) auto
      show "set (us @ (v, count m v + n) # vs) = set ?qs"
      proof (rule set_eqI)
        fix p
        show "p \<in> set (us @ (v, count m v + n) # vs) \<longleftrightarrow> p \<in> set ?qs"
          using rest [of p] y(2) assms by (cases p) (auto simp: in_tally)
      qed
    qed
    then show ?thesis
      using 1 y by (simp add: counts_add_def)
  next
    case (2 us vs)
    have v: "v \<notin># m"
    proof
      assume "v \<in># m"
      then have "(v, count m v) \<in> set ?ps" by (simp add: in_tally)
      then show False using 2(1,3,4) by auto
    qed
    then have none: "count m v = 0" by (simp add: not_in_iff)
    have "us @ (v, n) # vs = ?qs"
    proof (rule ascending_pairs_unique)
      show "ascending (map fst (us @ (v, n) # vs))"
        using ascending_tally [of m] 2(1,3,4) by (auto simp: sorted_wrt_append)
      show "ascending (map fst ?qs)" by (rule ascending_tally)
      have rest: "p \<in> set us \<union> set vs \<longleftrightarrow> p \<in> set ?ps" for p
        using 2(1) by auto
      show "set (us @ (v, n) # vs) = set ?qs"
      proof (rule set_eqI)
        fix p
        show "p \<in> set (us @ (v, n) # vs) \<longleftrightarrow> p \<in> set ?qs"
          using rest [of p] v none assms by (cases p) (auto simp: in_tally)
      qed
    qed
    then show ?thesis
      using 2 v length_tally [of m] by (simp add: counts_add_def)
  qed
qed

lemma counts_add_tally:
  assumes "0 < n"
  shows "counts_add (tally limit m) v n limit = tally limit (m + replicate_mset n v)"
proof -
  have card: "card (set_mset (m + replicate_mset n v)) =
      (if v \<in># m then card (set_mset m) else Suc (card (set_mset m)))"
    using assms by (simp add: insert_absorb)
  show ?thesis
  proof (cases "card (set_mset m) \<le> limit")
    case True
    then show ?thesis
      unfolding tally_def card using counts_add_tally_pairs [OF assms, of m v limit]
      by (auto simp: insert_absorb)
  next
    case False
    then show ?thesis
      unfolding tally_def card by (auto simp: counts_add_def)
  qed
qed

lemma takeWhile_replicate: "takeWhile (\<lambda>v. v = x) xs = replicate (length (takeWhile (\<lambda>v. v = x) xs)) x"
  by (induction xs) auto

lemma counts_add_all_TooMany [simp]: "counts_add_all TooMany values limit = TooMany"
  by (cases "values") simp_all

lemma tally_mono: "tally limit m = TooMany \<Longrightarrow> tally limit (m + m') = TooMany"
proof -
  assume "tally limit m = TooMany"
  then have "limit < card (set_mset m)" by (simp add: tally_def not_le split: if_splits)
  also have "\<dots> \<le> card (set_mset (m + m'))" by (rule card_mono) auto
  finally show ?thesis by (simp add: tally_def)
qed

lemma counts_add_all_tally:
  "counts_add_all (tally limit m) values limit = tally limit (m + mset values)"
proof (induction "length values" arbitrary: m "values" rule: less_induct)
  case less
  show ?case
  proof (cases "values")
    case (Cons x rest)
    define run where "run = length (takeWhile (\<lambda>v. v = x) values)"
    have run: "0 < run" by (simp add: run_def Cons)
    have vals: "mset values = replicate_mset run x + mset (drop run values)"
      using takeWhile_replicate [of x "values"]
      by (metis append_take_drop_id mset_append mset_replicate run_def takeWhile_eq_take)
    show ?thesis
    proof (cases "tally limit m")
      case (Values ps)
      have "counts_add_all (tally limit m) values limit =
          counts_add_all (counts_add (tally limit m) x run limit) (drop run values) limit"
        using Values by (simp add: Cons run_def)
      also have "\<dots> = tally limit (m + replicate_mset run x + mset (drop run values))"
        using less(1) [of "drop run values"] run
        by (simp add: counts_add_tally Cons)
      finally show ?thesis by (simp add: vals add.assoc)
    next
      case TooMany
      then show ?thesis using tally_mono [OF TooMany, of "mset values"] by simp
    qed
  qed simp
qed

lemma tally_empty: "tally limit {#} = counts_new"
  by (simp add: tally_def tally_pairs_def counts_new_def)

text \<open>Counting a zone's rows, whatever runs they come in, gives each of its codes with the
  rows it has, ascending by code, and gives up exactly when the zone holds more than the limit's
  distinct codes.\<close>

theorem counts_of_rows:
  "counts_add_all counts_new values limit =
     (if card (set values) \<le> limit
      then Values (map (\<lambda>v. (v, count_list values v)) (sorted_list_of_set (set values)))
      else TooMany)"
proof -
  have "counts_add_all counts_new values limit = tally limit (mset values)"
    using counts_add_all_tally [of limit "{#}" "values"] by (simp add: tally_empty)
  then show ?thesis
    by (simp add: tally_def tally_pairs_def count_mset count_list_eq_length_filter)
qed

text \<open>Merging two partial counts, as the writer merges the batches of a zone.\<close>

lemma fold_counts_add_TooMany: "fold (\<lambda>(v, n) out. counts_add out v n limit) ps TooMany = TooMany"
  by (induction ps) (auto simp: counts_add_def)

lemma fold_counts_add:
  "\<forall>(v, n) \<in> set ps. 0 < n \<Longrightarrow>
   fold (\<lambda>(v, n) out. counts_add out v n limit) ps (tally limit m) =
     tally limit (m + (\<Sum>(v, n) \<leftarrow> ps. replicate_mset n v))"
proof (induction ps arbitrary: m)
  case (Cons p ps)
  then show ?case by (cases p) (simp add: counts_add_tally add.assoc)
qed simp

lemma count_sum_replicate:
  "distinct vs \<Longrightarrow>
   count (\<Sum>(v, n) \<leftarrow> map (\<lambda>v. (v, f v)) vs. replicate_mset n v) x = (if x \<in> set vs then f x else 0)"
  by (induction vs) auto

lemma tally_pairs_sum: "(\<Sum>(v, n) \<leftarrow> tally_pairs m. replicate_mset n v) = m"
  by (rule multiset_eqI)
     (simp add: tally_pairs_def count_sum_replicate not_in_iff del: map_map split: if_splits)

lemma merge_tally:
  "merge_partials limit (tally limit a) (tally limit b) = tally limit (a + b)"
proof (cases "tally limit a")
  case (Values ps)
  show ?thesis
  proof (cases "tally limit b")
    case b: (Values qs)
    have qs: "qs = tally_pairs b" using b by (simp add: tally_def split: if_splits)
    have "merge_partials limit (tally limit a) (tally limit b) =
        fold (\<lambda>(v, n) out. counts_add out v n limit) qs (tally limit a)"
      by (simp add: merge_partials_def Values b)
    also have "\<dots> = tally limit (a + (\<Sum>(v, n) \<leftarrow> qs. replicate_mset n v))"
      by (rule fold_counts_add) (auto simp: qs in_tally)
    finally show ?thesis by (simp add: qs tally_pairs_sum)
  next
    case TooMany
    then show ?thesis
      using tally_mono [OF TooMany, of a] by (simp add: merge_partials_def Values add.commute)
  qed
next
  case TooMany
  then show ?thesis using tally_mono [OF TooMany, of b] by (simp add: merge_partials_def)
qed

lemma accumulate_tally:
  "accumulate limit (tally limit m) (PrimitiveBatch vs) = Some (tally limit (m + mset vs))"
  by (simp add: accumulate_def counts_add_all_tally)

lemma tally_of_rows: "counts_add_all counts_new vs limit = tally limit (mset vs)"
  using counts_add_all_tally [of limit "{#}" vs] by (simp add: tally_empty)

text \<open>Counting two batches apart and merging the partial counts is counting their rows
  together, so how a writer cuts a zone into batches does not show in its record; a constant batch
  counts as its rows.\<close>

theorem merge_partials_homomorphic:
  "merge_partials limit (counts_add_all counts_new xs limit) (counts_add_all counts_new ys limit) =
     counts_add_all counts_new (xs @ ys) limit \<and>
   accumulate limit (counts_add_all counts_new xs limit) (ConstantBatch (Some v) (Suc n)) =
     accumulate limit (counts_add_all counts_new xs limit) (PrimitiveBatch (replicate (Suc n) v))"
proof
  show "merge_partials limit (counts_add_all counts_new xs limit)
      (counts_add_all counts_new ys limit) = counts_add_all counts_new (xs @ ys) limit"
    by (simp add: tally_of_rows merge_tally)
  have "counts_add (tally limit (mset xs)) v (Suc n) limit =
      counts_add_all (tally limit (mset xs)) (replicate (Suc n) v) limit"
    by (simp only: counts_add_tally counts_add_all_tally mset_replicate)
  then show "accumulate limit (counts_add_all counts_new xs limit)
        (ConstantBatch (Some v) (Suc n)) =
      accumulate limit (counts_add_all counts_new xs limit)
        (PrimitiveBatch (replicate (Suc n) v))"
    by (simp add: accumulate_def tally_of_rows del: replicate_Suc)
qed

text \<open>The state written for a zone, read back.\<close>

lemma counts_recorded_tally:
  "card (set_mset m) \<le> limit \<Longrightarrow> size m \<le> u32_max \<Longrightarrow>
   counts_recorded (tally limit m) = Some (tally_pairs m)"
proof -
  assume small: "card (set_mset m) \<le> limit" and fits: "size m \<le> u32_max"
  have "gather (\<lambda>(v, n). if n \<le> u32_max then Some (v, n) else None) (tally_pairs m) =
      Some (map id (tally_pairs m))"
  proof (rule gather_Some)
    fix p assume "p \<in> set (tally_pairs m)"
    then have "snd p = count m (fst p)" by (metis in_tally prod.collapse)
    then have "snd p \<le> u32_max"
      using fits count_le_size [of m "fst p"] by simp
    then show "(\<lambda>(v, n). if n \<le> u32_max then Some (v, n) else None) p = Some (id p)"
      by (cases p) simp
  qed
  then show ?thesis by (simp add: counts_recorded_def tally_def small)
qed

lemma counts_recorded_too_many:
  "limit < card (set_mset m) \<Longrightarrow> counts_recorded (tally limit m) = None"
  by (simp add: counts_recorded_def tally_def)

lemma pairs_tally:
  "card (set_mset m) \<le> MAX_VALUES \<Longrightarrow>
   pairs (map fst (tally_pairs m)) (map snd (tally_pairs m)) = Some (tally_pairs m)"
  using ascending_tally [of m]
  by (auto simp: pairs_def length_tally zip_map_fst_snd list_all_iff in_tally)

lemma state_round_trip_lemma:
  assumes "size m \<le> u32_max"
  shows "decode_state (to_scalar (tally MAX_VALUES m)) = counts_recorded (tally MAX_VALUES m)"
    and "partial_from_scalar (to_scalar (tally MAX_VALUES m)) = tally MAX_VALUES m"
proof -
  show dec: "decode_state (to_scalar (tally MAX_VALUES m)) = counts_recorded (tally MAX_VALUES m)"
  proof (cases "card (set_mset m) \<le> MAX_VALUES")
    case True
    then show ?thesis
      by (simp add: decode_state_def to_scalar_def counts_recorded_tally assms pairs_tally)
  next
    case False
    then show ?thesis
      by (simp add: decode_state_def to_scalar_def counts_recorded_too_many)
  qed
  show "partial_from_scalar (to_scalar (tally MAX_VALUES m)) = tally MAX_VALUES m"
  proof (cases "card (set_mset m) \<le> MAX_VALUES")
    case True
    then show ?thesis
      by (simp add: partial_from_scalar_def dec counts_recorded_tally assms)
         (simp add: tally_def)
  next
    case False
    then show ?thesis
      by (simp add: partial_from_scalar_def dec counts_recorded_too_many)
         (simp add: tally_def)
  qed
qed

text \<open>The state written for a zone of at most \<open>u32::MAX\<close> rows is read back as the record the
  build keeps in memory, and as the partial counts it was written from, a zone of too many codes
  included.\<close>

theorem state_round_trip:
  assumes "length rows \<le> u32_max"
  shows "decode_state (to_scalar (counts_add_all counts_new rows MAX_VALUES)) =
           counts_recorded (counts_add_all counts_new rows MAX_VALUES) \<and>
         partial_from_scalar (to_scalar (counts_add_all counts_new rows MAX_VALUES)) =
           counts_add_all counts_new rows MAX_VALUES"
  using state_round_trip_lemma [of "mset rows"] assms by (simp_all add: tally_of_rows)

theorem state_round_trip_witness:
  "decode_state (to_scalar (counts_add_all counts_new [7, 7, 3] MAX_VALUES)) =
     counts_recorded (counts_add_all counts_new [7, 7, 3] MAX_VALUES)"
  using state_round_trip [of "[7, 7, 3]"] by (simp add: u32_max_def)

text \<open>The aggregate's one option survives its four bytes, and metadata of any other length
  is refused.\<close>

theorem options_round_trip:
  "deserialize_options (serialize_options w) = Some w \<and>
   (deserialize_options bs = None \<longleftrightarrow> length bs \<noteq> 4)"
proof
  have "(ucast (ucast w :: 8 word) :: 32 word) OR
      push_bit 8 (ucast (ucast (drop_bit 8 w) :: 8 word)) OR
      push_bit 16 (ucast (ucast (drop_bit 16 w) :: 8 word)) OR
      push_bit 24 (ucast (ucast (drop_bit 24 w) :: 8 word)) = w"
  proof (rule bit_word_eqI)
    fix n assume "n < LENGTH(32)"
    then show "bit ((ucast (ucast w :: 8 word) :: 32 word) OR
        push_bit 8 (ucast (ucast (drop_bit 8 w) :: 8 word)) OR
        push_bit 16 (ucast (ucast (drop_bit 16 w) :: 8 word)) OR
        push_bit 24 (ucast (ucast (drop_bit 24 w) :: 8 word))) n = bit w n"
      by (cases "n < 8"; cases "n < 16"; cases "n < 24") (auto simp: bit_simps)
  qed
  then show "deserialize_options (serialize_options w) = Some w"
    by (simp add: deserialize_options_def serialize_options_def upt_rec)
  show "deserialize_options bs = None \<longleftrightarrow> length bs \<noteq> 4"
    by (auto simp: deserialize_options_def length_Suc_conv numeral_eq_Suc split: list.splits)
qed

section \<open>The zone map of a column\<close>

definition ZONE_ROWS :: nat where
  "ZONE_ROWS = 8192"

type_synonym recorded_zones = "(nat \<times> nat) list option list"

record column_zones =
  mins :: "nat list"
  maxes :: "nat list"
  bounds :: "(nat \<times> nat) option"
  recorded :: "recorded_zones option"
  zone_len :: nat
  row_count :: nat

text \<open>\<open>Iterator::min\<close> and \<open>Iterator::max\<close>.\<close>

definition list_min :: "nat list \<Rightarrow> nat option" where
  "list_min xs = (case xs of [] \<Rightarrow> None | x # xs \<Rightarrow> Some (fold min xs x))"

definition list_max :: "nat list \<Rightarrow> nat option" where
  "list_max xs = (case xs of [] \<Rightarrow> None | x # xs \<Rightarrow> Some (fold max xs x))"

text \<open>Errors are the source's \<open>InvalidInput\<close>.\<close>

datatype zone_error = InvalidInput

definition from_bounds ::
    "nat list \<Rightarrow> nat list \<Rightarrow> nat \<Rightarrow> nat \<Rightarrow> zone_error + column_zones" where
  "from_bounds mns mxs len rows =
     (let zones = length mns
      in if length mxs \<noteq> zones \<or> len = 0 \<or> div_ceil rows len \<noteq> zones then Inl InvalidInput
         else Inr \<lparr> mins = mns, maxes = mxs,
           bounds = (case (list_min mns, list_max mxs) of
               (Some lo, Some hi) \<Rightarrow> Some (lo, hi) | _ \<Rightarrow> None),
           recorded = None, zone_len = len, row_count = rows \<rparr>)"

definition zone_count :: "column_zones \<Rightarrow> nat" where
  "zone_count self = length (mins self)"

definition with_records :: "column_zones \<Rightarrow> recorded_zones \<Rightarrow> zone_error + column_zones" where
  "with_records self records =
     (if length records \<noteq> zone_count self then Inl InvalidInput
      else Inr (self \<lparr> recorded := Some records \<rparr>))"

definition column_bounds :: "column_zones \<Rightarrow> (nat \<times> nat) option" where
  "column_bounds self = bounds self"

definition zone_bounds :: "column_zones \<Rightarrow> nat \<Rightarrow> (nat \<times> nat) option" where
  "zone_bounds self zone =
     (case (buf_get (mins self) zone, buf_get (maxes self) zone) of
        (Some lo, Some hi) \<Rightarrow> Some (lo, hi) | _ \<Rightarrow> None)"

text \<open>The rows of a zone, as the range \<open>start..end\<close>.\<close>

definition zone_rows :: "column_zones \<Rightarrow> nat \<Rightarrow> nat \<times> nat" where
  "zone_rows self zone =
     (zone * zone_len self, min ((zone + 1) * zone_len self) (row_count self))"

definition recorded_count :: "column_zones \<Rightarrow> nat \<Rightarrow> nat \<Rightarrow> nat option" where
  "recorded_count self zone code =
     (case recorded self of
        None \<Rightarrow> None
      | Some records \<Rightarrow>
          (case buf_get records zone of
             Some (Some ps) \<Rightarrow>
               (case search_by_key fst code ps of Inr at \<Rightarrow> Some (snd (ps ! at)) | Inl _ \<Rightarrow> Some 0)
           | _ \<Rightarrow> None))"

definition eq_on_bounds :: "nat \<Rightarrow> nat \<Rightarrow> nat \<Rightarrow> bool option" where
  "eq_on_bounds lo hi code =
     (if code < lo \<or> hi < code then Some False
      else if lo = code \<and> hi = code then Some True
      else None)"

text \<open>The outer \<^term>\<open>None\<close> is the panic of a zone the map does not have.\<close>

definition eq_holds :: "column_zones \<Rightarrow> nat \<Rightarrow> nat \<Rightarrow> bool option option" where
  "eq_holds self zone code =
     (case zone_bounds self zone of
        None \<Rightarrow> None
      | Some (lo, hi) \<Rightarrow>
          (case eq_on_bounds lo hi code of
             None \<Rightarrow> if recorded_count self zone code = Some 0 then Some (Some False) else Some None
           | Some held \<Rightarrow> Some (Some held)))"

text \<open>The records read from a file's zone table: a zone whose lists are out of range, are not a
  record the aggregate writes, or do not add up to its rows stands on its bounds alone. A state is
  given as its validity and the two slices of the items, \<^term>\<open>None\<close> where out of range.\<close>

definition decode_record ::
    "nat \<Rightarrow> bool \<times> nat list option \<times> nat list option \<Rightarrow> (nat \<times> nat) list option" where
  "decode_record rows st =
     (case st of
        (True, Some codes, Some cnts) \<Rightarrow>
          (case pairs codes cnts of
             None \<Rightarrow> None
           | Some ps \<Rightarrow> if sum_list (map snd ps) = rows then Some ps else None)
      | _ \<Rightarrow> None)"

definition decode_states ::
    "(bool \<times> nat list option \<times> nat list option) list \<Rightarrow> (nat \<Rightarrow> nat) \<Rightarrow> recorded_zones" where
  "decode_states states rows =
     map (\<lambda>(zone, st). decode_record (rows zone) st) (enumerate 0 states)"

definition with_recorded ::
    "column_zones \<Rightarrow> (bool \<times> nat list option \<times> nat list option) list \<Rightarrow>
       zone_error + column_zones" where
  "with_recorded self states =
     (if length states \<noteq> zone_count self then Inl InvalidInput
      else Inr (self \<lparr> recorded := Some (decode_states states
             (\<lambda>zone. snd (zone_rows self zone) - fst (zone_rows self zone))) \<rparr>))"

section \<open>What a zone map says of a column\<close>

text \<open>The codes of a zone, and a map that describes a column: its zones' bounds are exact and a
  zone's record, where it has one, is the count of its rows.\<close>

definition zone_codes :: "column_zones \<Rightarrow> nat list \<Rightarrow> nat \<Rightarrow> nat list" where
  "zone_codes zs codes zone =
     map ((!) codes) [fst (zone_rows zs zone)..<snd (zone_rows zs zone)]"

definition geometry :: "column_zones \<Rightarrow> bool" where
  "geometry zs \<longleftrightarrow> 0 < zone_len zs \<and> zone_count zs = div_ceil (row_count zs) (zone_len zs) \<and>
     length (maxes zs) = zone_count zs"

definition exact_zone :: "column_zones \<Rightarrow> nat list \<Rightarrow> nat \<Rightarrow> bool" where
  "exact_zone zs codes zone \<longleftrightarrow>
     mins zs ! zone = Min (set (zone_codes zs codes zone)) \<and>
     maxes zs ! zone = Max (set (zone_codes zs codes zone))"

definition record_of :: "nat list \<Rightarrow> (nat \<times> nat) list option" where
  "record_of codes = counts_recorded (tally MAX_VALUES (mset codes))"

definition exact_record :: "column_zones \<Rightarrow> nat list \<Rightarrow> nat \<Rightarrow> bool" where
  "exact_record zs codes zone \<longleftrightarrow>
     (case recorded zs of
        None \<Rightarrow> True
      | Some records \<Rightarrow>
          (case records ! zone of
             None \<Rightarrow> True
           | Some ps \<Rightarrow> ps = tally_pairs (mset (zone_codes zs codes zone))))"

definition describes :: "column_zones \<Rightarrow> nat list \<Rightarrow> bool" where
  "describes zs codes \<longleftrightarrow>
     geometry zs \<and> row_count zs = length codes \<and>
     (case recorded zs of None \<Rightarrow> True | Some records \<Rightarrow> length records = zone_count zs) \<and>
     (\<forall>zone < zone_count zs. exact_zone zs codes zone \<and> exact_record zs codes zone)"

lemma zone_in_rows:
  assumes "geometry zs" "zone < zone_count zs"
  shows "zone * zone_len zs < row_count zs"
proof -
  have "\<not> div_ceil (row_count zs) (zone_len zs) \<le> zone" using assms by (simp add: geometry_def)
  then show ?thesis using assms(1) by (simp add: geometry_def div_ceil_le_iff)
qed

lemma zone_rows_nonempty:
  assumes "geometry zs" "zone < zone_count zs"
  shows "fst (zone_rows zs zone) < snd (zone_rows zs zone)"
    "snd (zone_rows zs zone) \<le> row_count zs"
  using zone_in_rows [OF assms] assms(1) by (simp_all add: zone_rows_def geometry_def)

lemma row_in_zone:
  assumes "geometry zs" "row < row_count zs"
  shows "row div zone_len zs < zone_count zs"
    "fst (zone_rows zs (row div zone_len zs)) \<le> row"
    "row < snd (zone_rows zs (row div zone_len zs))"
proof -
  let ?len = "zone_len zs"
  have len: "0 < ?len" using assms(1) by (simp add: geometry_def)
  have "\<not> div_ceil (row_count zs) ?len \<le> row div ?len"
    using assms(2) by (simp add: div_ceil_le_iff [OF len])
      (meson div_times_less_eq_dividend less_le_trans not_le order_le_less_trans)
  then show "row div ?len < zone_count zs" using assms(1) by (simp add: geometry_def)
  show "fst (zone_rows zs (row div ?len)) \<le> row" by (simp add: zone_rows_def)
  show "row < snd (zone_rows zs (row div ?len))"
    using assms(2) dividend_less_div_times [OF len, of row]
    by (simp add: zone_rows_def add.commute)
qed

section \<open>What the map answers\<close>

text \<open>A zone's codes are among the column's rows of the zone.\<close>

lemma set_zone_codes:
  "set (zone_codes zs codes zone) =
     (!) codes ` {fst (zone_rows zs zone)..<snd (zone_rows zs zone)}"
  by (simp add: zone_codes_def)

lemma describes_zone:
  assumes "describes zs codes" "zone < zone_count zs"
  shows "geometry zs" "row_count zs = length codes" "exact_zone zs codes zone"
    "exact_record zs codes zone"
    "zone_bounds zs zone = Some (Min (set (zone_codes zs codes zone)),
       Max (set (zone_codes zs codes zone)))"
    "zone_codes zs codes zone \<noteq> []"
proof -
  show geo: "geometry zs" and "row_count zs = length codes"
    and ex: "exact_zone zs codes zone" and "exact_record zs codes zone"
    using assms by (auto simp: describes_def)
  show "zone_bounds zs zone = Some (Min (set (zone_codes zs codes zone)),
       Max (set (zone_codes zs codes zone)))"
    using assms(2) geo ex
    by (simp add: zone_bounds_def exact_zone_def geometry_def zone_count_def buf_get_Some)
  show "zone_codes zs codes zone \<noteq> []"
    using zone_rows_nonempty [OF geo assms(2)] by (simp add: zone_codes_def)
qed

lemma search_tally:
  "(case search_by_key fst code (tally_pairs m) of
      Inr at \<Rightarrow> Some (snd (tally_pairs m ! at)) | Inl _ \<Rightarrow> Some 0) = Some (count m code)"
proof (cases rule: search_by_key_cases [where key = fst and x = code, OF ascending_tally [of m]])
  case (1 us y vs)
  then have "y \<in> set (tally_pairs m)" by simp
  then have "snd y = count m code" using 1(2) by (metis in_tally prod.collapse)
  then show ?thesis using 1 by simp
next
  case (2 us vs)
  have "code \<notin># m"
  proof
    assume "code \<in># m"
    then have "(code, count m code) \<in> set (tally_pairs m)" by (simp add: in_tally)
    then show False using 2(1,3,4) by auto
  qed
  then show ?thesis using 2 by (simp add: not_in_iff)
qed

lemma count_map_rows: "count (mset (map f rows)) c = length (filter (\<lambda>row. f row = c) rows)"
  by (induction rows) auto

lemma recorded_count_exact:
  assumes "describes zs codes" "zone < zone_count zs" "recorded_count zs zone code = Some n"
  shows "n = length (filter (\<lambda>row. codes ! row = code)
    [fst (zone_rows zs zone)..<snd (zone_rows zs zone)])"
proof -
  obtain records where rec: "recorded zs = Some records"
    using assms(3) by (auto simp: recorded_count_def split: option.splits)
  moreover have len: "length records = zone_count zs"
    using assms(1) rec by (simp add: describes_def)
  ultimately obtain ps where ps: "records ! zone = Some ps"
    using assms(2,3) by (auto simp: recorded_count_def buf_get_def split: option.splits)
  have "ps = tally_pairs (mset (zone_codes zs codes zone))"
    using describes_zone(4) [OF assms(1,2)] by (simp add: exact_record_def rec ps)
  then have "recorded_count zs zone code = Some (count (mset (zone_codes zs codes zone)) code)"
    using rec len ps assms(2) search_tally [of "mset (zone_codes zs codes zone)" code]
    by (simp add: recorded_count_def buf_get_def)
  then show ?thesis
    using assms(3) unfolding zone_codes_def count_map_rows by simp
qed

lemma eq_holds_sound:
  assumes "describes zs codes" "zone < zone_count zs"
  shows "\<exists>held. eq_holds zs zone code = Some held"
    and "eq_holds zs zone code = Some (Some b) \<Longrightarrow>
      fst (zone_rows zs zone) \<le> row \<Longrightarrow> row < snd (zone_rows zs zone) \<Longrightarrow>
      (codes ! row = code) = b"
proof -
  let ?cs = "set (zone_codes zs codes zone)"
  note zb = describes_zone(5) [OF assms]
  show "\<exists>held. eq_holds zs zone code = Some held"
    by (auto simp: eq_holds_def zb split: option.splits)
  assume held: "eq_holds zs zone code = Some (Some b)"
    and row: "fst (zone_rows zs zone) \<le> row" "row < snd (zone_rows zs zone)"
  have "codes ! row \<in> ?cs" using row by (simp add: set_zone_codes)
  then have bd: "Min ?cs \<le> codes ! row" "codes ! row \<le> Max ?cs" by simp_all
  show "(codes ! row = code) = b"
  proof (cases "eq_on_bounds (Min ?cs) (Max ?cs) code")
    case None
    then have "recorded_count zs zone code = Some 0" "b = False"
      using held by (simp_all add: eq_holds_def zb split: if_splits)
    then have "filter (\<lambda>row. codes ! row = code)
        [fst (zone_rows zs zone)..<snd (zone_rows zs zone)] = []"
      using recorded_count_exact [OF assms, of code 0] by simp
    then show ?thesis using row \<open>b = False\<close> by (auto simp: filter_empty_conv)
  next
    case (Some c)
    then have "c = b" using held by (simp add: eq_holds_def zb)
    then show ?thesis using Some bd by (auto simp: eq_on_bounds_def split: if_splits)
  qed
qed

section \<open>The checks of a table\<close>

datatype zone_class = ZNone | ZAll | Mixed "32 word"

record zone_check =
  bit_of :: nat
  code_of :: nat
  zones_of :: column_zones

record zone_part =
  part_zone :: nat
  part_rows :: "nat \<times> nat"

record zone_set =
  checks :: "zone_check list"
  unzoned :: "32 word"
  only_bounds :: bool

definition map_geometry :: "column_zones \<Rightarrow> nat \<times> nat \<times> nat" where
  "map_geometry zs = (zone_len zs, zone_count zs, row_count zs)"

definition zone_set_new :: "zone_check list \<Rightarrow> 32 word \<Rightarrow> zone_set option" where
  "zone_set_new cs uz =
     (case cs of
        [] \<Rightarrow> None
      | first # _ \<Rightarrow>
          if list_all (\<lambda>check. bit_of check < 32 \<and>
               map_geometry (zones_of check) = map_geometry (zones_of first)) cs
          then Some \<lparr> checks = cs, unzoned = uz, only_bounds = False \<rparr>
          else None)"

definition bounds_only :: "zone_set \<Rightarrow> zone_set" where
  "bounds_only self = self \<lparr> only_bounds := True \<rparr>"

definition set_zone_len :: "zone_set \<Rightarrow> nat" where
  "set_zone_len self = zone_len (zones_of (hd (checks self)))"

definition set_zone_rows :: "zone_set \<Rightarrow> nat \<Rightarrow> nat \<times> nat" where
  "set_zone_rows self zone = zone_rows (zones_of (hd (checks self))) zone"

definition or_bit :: "32 word \<Rightarrow> nat \<Rightarrow> 32 word" where
  "or_bit bits b = bits OR push_bit b 1"

text \<open>The walk over the checks: whether some check's bounds rule its code out, and the checks'
  answers folded into the unsettled bits. \<^term>\<open>None\<close> is a panic.\<close>

fun any_ruled_out :: "nat \<Rightarrow> zone_check list \<Rightarrow> bool option" where
  "any_ruled_out zone [] = Some False"
| "any_ruled_out zone (check # cs) =
     (case zone_bounds (zones_of check) zone of
        None \<Rightarrow> None
      | Some (lo, hi) \<Rightarrow>
          if eq_on_bounds lo hi (code_of check) = Some False then Some True
          else any_ruled_out zone cs)"

fun class_checks :: "nat \<Rightarrow> 32 word \<Rightarrow> zone_check list \<Rightarrow> zone_class option" where
  "class_checks zone unsettled [] = Some (if unsettled = 0 then ZAll else Mixed unsettled)"
| "class_checks zone unsettled (check # cs) =
     (case eq_holds (zones_of check) zone (code_of check) of
        None \<Rightarrow> None
      | Some (Some False) \<Rightarrow> Some ZNone
      | Some (Some True) \<Rightarrow> class_checks zone unsettled cs
      | Some None \<Rightarrow> class_checks zone (or_bit unsettled (bit_of check)) cs)"

definition zone_class_of :: "zone_set \<Rightarrow> nat \<Rightarrow> zone_class option" where
  "zone_class_of self zone =
     (if only_bounds self then
        (case any_ruled_out zone (checks self) of
           None \<Rightarrow> None
         | Some True \<Rightarrow> Some ZNone
         | Some False \<Rightarrow>
             Some (Mixed (fold (\<lambda>check bits. or_bit bits (bit_of check)) (checks self) (unzoned self))))
      else class_checks zone (unzoned self) (checks self))"

definition parts :: "zone_set \<Rightarrow> nat \<times> nat \<Rightarrow> zone_part list" where
  "parts self rows =
     (let start = fst rows;
          stop = min (snd rows) (row_count (zones_of (hd (checks self))));
          len = set_zone_len self;
          zones = (if stop \<le> start then [] else [start div len..<(stop - 1) div len + 1])
      in map (\<lambda>zone. let whole = set_zone_rows self zone
                    in \<lparr> part_zone = zone,
                         part_rows = (max (fst whole) start, min (snd whole) stop) \<rparr>) zones)"

definition recorded_in :: "zone_set \<Rightarrow> nat \<Rightarrow> zone_part \<Rightarrow> nat option" where
  "recorded_in self b part =
     (if part_rows part \<noteq> set_zone_rows self (part_zone part) then None
      else case List.find (\<lambda>check. bit_of check = b) (checks self) of
             None \<Rightarrow> None
           | Some check \<Rightarrow> recorded_count (zones_of check) (part_zone part) (code_of check))"

section \<open>The classes are true of the rows\<close>

text \<open>The columns a set checks, one per check, and the checks no zone map speaks for as an
  arbitrary test of a row by its bit. A row passes when it passes every check; \<open>left_passes u\<close>
  asks only the checks whose bit is in \<open>u\<close>.\<close>

definition sound_set :: "zone_set \<Rightarrow> nat list list \<Rightarrow> bool" where
  "sound_set self cols \<longleftrightarrow>
     list_all2 (\<lambda>check codes. describes (zones_of check) codes) (checks self) cols"

definition left_passes ::
    "32 word \<Rightarrow> zone_set \<Rightarrow> nat list list \<Rightarrow> (nat \<Rightarrow> nat \<Rightarrow> bool) \<Rightarrow> nat \<Rightarrow> bool" where
  "left_passes u self cols other row \<longleftrightarrow>
     list_all2 (\<lambda>check codes. bit u (bit_of check) \<longrightarrow> codes ! row = code_of check) (checks self) cols \<and>
     (\<forall>b < 32. bit (unzoned self) b \<longrightarrow> other b row)"

definition row_passes ::
    "zone_set \<Rightarrow> nat list list \<Rightarrow> (nat \<Rightarrow> nat \<Rightarrow> bool) \<Rightarrow> nat \<Rightarrow> bool" where
  "row_passes self cols other row \<longleftrightarrow>
     list_all2 (\<lambda>check codes. codes ! row = code_of check) (checks self) cols \<and>
     (\<forall>b < 32. bit (unzoned self) b \<longrightarrow> other b row)"

fun class_true ::
    "zone_class \<Rightarrow> zone_set \<Rightarrow> nat list list \<Rightarrow> (nat \<Rightarrow> nat \<Rightarrow> bool) \<Rightarrow> nat \<Rightarrow> bool" where
  "class_true ZNone self cols other row = (\<not> row_passes self cols other row)"
| "class_true ZAll self cols other row = row_passes self cols other row"
| "class_true (Mixed u) self cols other row =
     (row_passes self cols other row = left_passes u self cols other row)"

lemma bit_or_bit: "b < 32 \<Longrightarrow> bit (or_bit w b) n \<longleftrightarrow> bit w n \<or> n = b"
  by (auto simp: or_bit_def bit_simps)

lemma zone_set_new_Some:
  assumes "zone_set_new cs uz = Some self"
  shows "checks self = cs" "cs \<noteq> []" "unzoned self = uz" "only_bounds self = False"
    "check \<in> set cs \<Longrightarrow> bit_of check < 32"
    "check \<in> set cs \<Longrightarrow> map_geometry (zones_of check) = map_geometry (zones_of (hd cs))"
  using assms
  by (auto simp: zone_set_new_def list_all_iff split: list.splits if_splits)

text \<open>What the fold of a zone's answers has established of one row of the zone.\<close>

fun class_row :: "zone_class \<Rightarrow> 32 word \<Rightarrow> zone_check list \<Rightarrow> nat list list \<Rightarrow> nat \<Rightarrow> bool" where
  "class_row ZNone w cs cols row =
     (\<not> list_all2 (\<lambda>check codes. codes ! row = code_of check) cs cols)"
| "class_row ZAll w cs cols row =
     (w = 0 \<and> list_all2 (\<lambda>check codes. codes ! row = code_of check) cs cols)"
| "class_row (Mixed u) w cs cols row =
     ((\<forall>b. bit w b \<longrightarrow> bit u b) \<and>
      list_all2 (\<lambda>check codes. bit u (bit_of check) \<or> codes ! row = code_of check) cs cols)"

lemma class_checks_row:
  assumes "list_all2 (\<lambda>check codes. describes (zones_of check) codes) cs cols"
    and "\<forall>check \<in> set cs. bit_of check < 32 \<and> map_geometry (zones_of check) = geo"
    and "map_geometry zs = geo" "zone < zone_count zs"
    and "fst (zone_rows zs zone) \<le> row" "row < snd (zone_rows zs zone)"
  shows "\<exists>cls. class_checks zone w cs = Some cls \<and> class_row cls w cs cols row"
  using assms(1,2)
proof (induction arbitrary: w rule: list_all2_induct)
  case Nil
  then show ?case by simp
next
  case (Cons check cs codes cols)
  have b: "bit_of check < 32" and
    geo: "map_geometry (zones_of check) = map_geometry zs" using Cons.prems assms(3) by auto
  have zone: "zone < zone_count (zones_of check)" and
    rows: "zone_rows (zones_of check) zone = zone_rows zs zone"
    using geo assms(4) by (simp_all add: map_geometry_def zone_rows_def)
  note sound = eq_holds_sound [OF Cons.hyps(1) zone, of "code_of check"]
  obtain held where held: "eq_holds (zones_of check) zone (code_of check) = Some held"
    using sound(1) by blast
  have settled: "(codes ! row = code_of check) = c" if "held = Some c" for c
    using sound(2) [of c row] held that assms(5,6) by (simp add: rows)
  have IH: "\<exists>cls. class_checks zone w' cs = Some cls \<and> class_row cls w' cs cols row" for w'
    using Cons.IH Cons.prems by simp
  show ?case
  proof (cases held)
    case None
    obtain cls where cls: "class_checks zone (or_bit w (bit_of check)) cs = Some cls"
      "class_row cls (or_bit w (bit_of check)) cs cols row" using IH by blast
    have "or_bit w (bit_of check) \<noteq> 0"
      using bit_or_bit [OF b, of w "bit_of check"] by auto
    then have "class_row cls w (check # cs) (codes # cols) row"
      using cls(2) by (cases cls) (auto simp: bit_or_bit [OF b])
    then show ?thesis using cls(1) held None by simp
  next
    case (Some c)
    show ?thesis
    proof (cases c)
      case True
      obtain cls where cls: "class_checks zone w cs = Some cls" "class_row cls w cs cols row"
        using IH by blast
      then have "class_row cls w (check # cs) (codes # cols) row"
        using settled [OF Some] True by (cases cls) auto
      then show ?thesis using cls(1) held Some True by simp
    next
      case False
      then show ?thesis using settled [OF Some] held Some by simp
    qed
  qed
qed

lemma left_passes_iff:
  assumes "list_all2 (\<lambda>check codes. bit u (bit_of check) \<or> codes ! row = code_of check)
    (checks self) cols"
  shows "row_passes self cols other row = left_passes u self cols other row"
proof -
  have "list_all2 (\<lambda>check codes. codes ! row = code_of check) (checks self) cols \<longleftrightarrow>
    list_all2 (\<lambda>check codes. bit u (bit_of check) \<longrightarrow> codes ! row = code_of check) (checks self) cols"
    using assms by (auto simp: list_all2_conv_all_nth)
  then show ?thesis by (simp add: row_passes_def left_passes_def)
qed

lemma class_row_true:
  "class_row cls (unzoned self) (checks self) cols row \<Longrightarrow> class_true cls self cols other row"
proof (cases cls)
  case (Mixed u)
  assume "class_row cls (unzoned self) (checks self) cols row"
  then show ?thesis using left_passes_iff [of u row self cols other] Mixed by simp
qed (auto simp: row_passes_def)

text \<open>The route that reads the bounds alone.\<close>

lemma any_ruled_out_row:
  assumes "list_all2 (\<lambda>check codes. describes (zones_of check) codes) cs cols"
    and "\<forall>check \<in> set cs. map_geometry (zones_of check) = geo"
    and "map_geometry zs = geo" "zone < zone_count zs"
    and "fst (zone_rows zs zone) \<le> row" "row < snd (zone_rows zs zone)"
  shows "\<exists>out. any_ruled_out zone cs = Some out \<and>
    (out \<longrightarrow> \<not> list_all2 (\<lambda>check codes. codes ! row = code_of check) cs cols)"
  using assms(1,2)
proof (induction rule: list_all2_induct)
  case Nil
  then show ?case by (intro exI [of _ False]) simp
next
  case (Cons check cs codes cols)
  let ?cs = "set (zone_codes (zones_of check) codes zone)"
  have geo: "map_geometry (zones_of check) = map_geometry zs" using Cons.prems assms(3) by auto
  have zone: "zone < zone_count (zones_of check)" and
    rows: "zone_rows (zones_of check) zone = zone_rows zs zone"
    using geo assms(4) by (simp_all add: map_geometry_def zone_rows_def)
  note zb = describes_zone(5) [OF Cons.hyps(1) zone]
  have "codes ! row \<in> ?cs" using assms(5,6) by (simp add: set_zone_codes rows)
  then have "Min ?cs \<le> codes ! row" "codes ! row \<le> Max ?cs" by simp_all
  then have "codes ! row \<noteq> code_of check"
    if "eq_on_bounds (Min ?cs) (Max ?cs) (code_of check) = Some False"
    using that by (auto simp: eq_on_bounds_def split: if_splits)
  then have here: "eq_on_bounds (Min ?cs) (Max ?cs) (code_of check) = Some False \<Longrightarrow>
    codes ! row \<noteq> code_of check" by blast
  obtain out where rest: "any_ruled_out zone cs = Some out"
    "out \<longrightarrow> \<not> list_all2 (\<lambda>check codes. codes ! row = code_of check) cs cols"
    using Cons.IH Cons.prems by auto
  show ?case
  proof (cases "eq_on_bounds (Min ?cs) (Max ?cs) (code_of check) = Some False")
    case True
    then show ?thesis using here by (intro exI [of _ True]) (simp add: zb)
  next
    case False
    then show ?thesis using rest by (intro exI [of _ out]) (simp add: zb)
  qed
qed

lemma fold_or_bit:
  "\<forall>check \<in> set cs. bit_of check < 32 \<Longrightarrow>
   bit (fold (\<lambda>check bits. or_bit bits (bit_of check)) cs w) n \<longleftrightarrow>
     bit w n \<or> n \<in> bit_of ` set cs"
  by (induction cs arbitrary: w) (auto simp: bit_or_bit)

text \<open>A mixed class leaves unsettled at least the bits no zone map speaks for.\<close>

lemma class_checks_mixed:
  "class_checks zone w cs = Some (Mixed u) \<Longrightarrow> \<forall>check \<in> set cs. bit_of check < 32 \<Longrightarrow> bit w b \<Longrightarrow> bit u b"
  by (induction zone w cs rule: class_checks.induct)
     (auto simp: bit_or_bit split: option.splits bool.splits if_splits)

lemma class_checks_mixed_only:
  "class_checks zone w cs = Some (Mixed u) \<Longrightarrow> \<forall>check \<in> set cs. bit_of check < 32 \<Longrightarrow> bit u b \<Longrightarrow>
   bit w b \<or> b \<in> bit_of ` set cs"
  by (induction zone w cs rule: class_checks.induct)
     (auto simp: bit_or_bit split: option.splits bool.splits if_splits)

lemma zone_class_mixed_only:
  assumes "zone_class_of self zone = Some (Mixed u)" "\<forall>check \<in> set (checks self). bit_of check < 32"
    and "bit u b"
  shows "bit (unzoned self) b \<or> b \<in> bit_of ` set (checks self)"
  using assms class_checks_mixed_only [of zone "unzoned self" "checks self" u b]
  by (auto simp: zone_class_of_def fold_or_bit split: if_splits option.splits bool.splits)

lemma zone_class_mixed:
  assumes "zone_class_of self zone = Some (Mixed u)" "\<forall>check \<in> set (checks self). bit_of check < 32"
    and "bit (unzoned self) b"
  shows "bit u b"
  using assms class_checks_mixed [of zone "unzoned self" "checks self" u b]
  by (auto simp: zone_class_of_def fold_or_bit split: if_splits option.splits bool.splits)

lemma zone_class_true:
  assumes new: "zone_set_new cs uz = Some base" and self: "self = base \<or> self = bounds_only base"
    and sound: "sound_set self cols"
    and zone: "zone < zone_count (zones_of (hd cs))"
    and row: "fst (set_zone_rows self zone) \<le> row" "row < snd (set_zone_rows self zone)"
  shows "\<exists>cls. zone_class_of self zone = Some cls \<and> class_true cls self cols other row"
proof -
  note base = zone_set_new_Some [OF new]
  have cs: "checks self = cs" "unzoned self = uz"
    using self base(1,3) by (auto simp: bounds_only_def)
  have desc: "list_all2 (\<lambda>check codes. describes (zones_of check) codes) cs cols"
    using sound by (simp add: sound_set_def cs)
  have row': "fst (zone_rows (zones_of (hd cs)) zone) \<le> row"
    "row < snd (zone_rows (zones_of (hd cs)) zone)"
    using row by (simp_all add: set_zone_rows_def cs)
  show ?thesis
  proof (cases "only_bounds self")
    case False
    have "\<exists>cls. class_checks zone uz cs = Some cls \<and> class_row cls uz cs cols row"
      by (rule class_checks_row [OF desc _ refl zone row']) (simp add: base(5,6))
    then show ?thesis
      using class_row_true [of _ self cols row other] False
      by (auto simp: zone_class_of_def cs)
  next
    case True
    obtain out where out: "any_ruled_out zone cs = Some out"
      "out \<longrightarrow> \<not> list_all2 (\<lambda>check codes. codes ! row = code_of check) cs cols"
      using any_ruled_out_row [OF desc _ refl zone row'] base(6) by blast
    let ?u = "fold (\<lambda>check bits. or_bit bits (bit_of check)) cs uz"
    have "list_all2 (\<lambda>check codes. bit ?u (bit_of check) \<or> codes ! row = code_of check)
        (checks self) cols"
      using desc by (auto simp: cs list_all2_conv_all_nth fold_or_bit base(5))
    then have "class_true (Mixed ?u) self cols other row" by (simp add: left_passes_iff)
    then show ?thesis
      using True out by (cases out) (auto simp: zone_class_of_def cs row_passes_def)
  qed
qed

text \<open>C20. A zone's class is true of each of its rows, on both routes: no row of a \<open>None\<close> zone
  passes every check, each row of an \<open>All\<close> zone does, and in a \<open>Mixed\<close> zone a row passes
  exactly when it passes the unsettled checks alone, whatever the checks without a zone map say;
  the class is computed without a panic.\<close>

theorem zone_classes_sound:
  assumes "zone_set_new cs uz = Some base" "self = base \<or> self = bounds_only base"
    and "sound_set self cols" "zone < zone_count (zones_of (hd cs))"
    and "fst (set_zone_rows self zone) \<le> row" "row < snd (set_zone_rows self zone)"
  shows "\<exists>cls. zone_class_of self zone = Some cls \<and> class_true cls self cols other row"
  by (rule zone_class_true [OF assms])

definition sample_zones :: column_zones where
  "sample_zones = \<lparr> mins = [2, 4], maxes = [3, 4], bounds = Some (2, 4),
     recorded = Some [Some [(2, 1), (3, 1)], None], zone_len = 2, row_count = 3 \<rparr>"

lemma sample_zones_describe: "describes sample_zones [2, 3, 4]"
proof -
  have codes: "zone_codes sample_zones [2, 3, 4] 0 = [2, 3]" "zone_codes sample_zones [2, 3, 4] 1 = [4]"
    by code_simp+
  have ps: "tally_pairs (mset [2, 3]) = [(2, 1), (3, 1)]" by code_simp
  have zone: "zone < 2 \<Longrightarrow> zone = 0 \<or> zone = 1" for zone :: nat by linarith
  have n: "zone_count sample_zones = 2" by code_simp
  have zones: "exact_zone sample_zones [2, 3, 4] zone \<and> exact_record sample_zones [2, 3, 4] zone"
    if "zone < 2" for zone
    using zone [OF that] codes ps
    by (auto simp: exact_zone_def exact_record_def) (simp_all add: sample_zones_def)
  show ?thesis
    unfolding describes_def n using zones
    by (simp add: geometry_def n) (simp add: sample_zones_def div_ceil_def)
qed

theorem zone_classes_sound_witness:
  "\<exists>cls. zone_class_of
      \<lparr> checks = [\<lparr> bit_of = 3, code_of = 4, zones_of = sample_zones \<rparr>], unzoned = 0,
        only_bounds = False \<rparr> 1 = Some cls \<and>
    class_true cls \<lparr> checks = [\<lparr> bit_of = 3, code_of = 4, zones_of = sample_zones \<rparr>],
      unzoned = 0, only_bounds = False \<rparr> [[2, 3, 4]] (\<lambda>b row. False) 2"
proof (rule zone_classes_sound)
  show "zone_set_new [\<lparr> bit_of = 3, code_of = 4, zones_of = sample_zones \<rparr>] 0 =
    Some \<lparr> checks = [\<lparr> bit_of = 3, code_of = 4, zones_of = sample_zones \<rparr>], unzoned = 0,
      only_bounds = False \<rparr>"
    by (simp add: zone_set_new_def)
qed (simp_all add: sound_set_def sample_zones_describe, simp_all add: sample_zones_def
    zone_count_def set_zone_rows_def zone_rows_def)

section \<open>Ranges cut at zones\<close>

definition rows_in :: "nat \<times> nat \<Rightarrow> nat list" where
  "rows_in r = [fst r..<snd r]"

lemma parts_rows:
  assumes new: "zone_set_new cs uz = Some self" and geo: "geometry (zones_of (hd cs))"
  shows "concat (map (rows_in \<circ> part_rows) (parts self (start, stop))) =
    [start..<min stop (row_count (zones_of (hd cs)))]"
    and "part \<in> set (parts self (start, stop)) \<Longrightarrow>
      part_zone part < zone_count (zones_of (hd cs)) \<and>
      fst (part_rows part) < snd (part_rows part) \<and>
      fst (set_zone_rows self (part_zone part)) \<le> fst (part_rows part) \<and>
      snd (part_rows part) \<le> snd (set_zone_rows self (part_zone part))"
proof -
  let ?zs = "zones_of (hd cs)" and ?n = "row_count (zones_of (hd cs))"
  let ?len = "zone_len (zones_of (hd cs))" and ?stop = "min stop (row_count (zones_of (hd cs)))"
  note base = zone_set_new_Some [OF new]
  have len: "0 < ?len" using geo by (simp add: geometry_def)
  have checks: "checks self = cs" by (rule base(1))
  show "concat (map (rows_in \<circ> part_rows) (parts self (start, stop))) = [start..<?stop]"
  proof (cases "?stop \<le> start")
    case True
    then show ?thesis by (simp add: parts_def Let_def checks)
  next
    case False
    let ?a = "start div ?len" and ?b = "(?stop - 1) div ?len + 1"
    have "start \<le> ?stop - 1" using False by simp
    then have "?a \<le> (?stop - 1) div ?len" by (rule div_le_mono)
    then have ab: "?a \<le> ?b" "?a \<noteq> ?b" by simp_all
    have "concat (map (rows_in \<circ> part_rows) (parts self (start, stop))) =
        concat (map (\<lambda>z. [max (z * ?len) start..<min (min ((z + 1) * ?len) ?n) ?stop]) [?a..<?b])"
      using False
      by (simp add: parts_def Let_def checks set_zone_len_def set_zone_rows_def zone_rows_def
          rows_in_def comp_def)
    also have "\<dots> = [max (?a * ?len) start..<min (min (?b * ?len) ?n) ?stop]"
      using concat_blocks [OF len ab(1), of start ?n ?stop] ab(2) by simp
    also have "max (?a * ?len) start = start" by simp
    also have "min (min (?b * ?len) ?n) ?stop = ?stop"
    proof -
      have "?stop - 1 < ?b * ?len" using dividend_less_div_times [OF len, of "?stop - 1"]
        by (simp add: add.commute)
      then show ?thesis using False by simp
    qed
    finally show ?thesis .
  qed
  assume part: "part \<in> set (parts self (start, stop))"
  then have ne: "start < ?stop" by (auto simp: parts_def Let_def checks split: if_splits)
  obtain z where z: "start div ?len \<le> z" "z < (?stop - 1) div ?len + 1"
    "part_zone part = z"
    "part_rows part = (max (fst (zone_rows ?zs z)) start, min (snd (zone_rows ?zs z)) ?stop)"
    using part ne
    by (auto simp: parts_def Let_def checks set_zone_len_def set_zone_rows_def split: if_splits)
  have "z \<le> (?stop - 1) div ?len" using z(2) by simp
  then have zle: "z * ?len \<le> ?stop - 1"
    by (metis div_times_less_eq_dividend le_trans mult_le_mono1)
  have start: "start < (z + 1) * ?len"
    using z(1) dividend_less_div_times [OF len, of start]
    by (metis (no_types) add.commute add_mult_distrib less_le_trans mult_1 mult_le_mono1
        nat_add_left_cancel_le)
  have "zone_count ?zs > z"
  proof -
    have "?stop \<le> ?n" by simp
    then have "z * ?len < ?n" using zle ne by linarith
    then have "\<not> ?n \<le> z * ?len" by simp
    then have "\<not> div_ceil ?n ?len \<le> z" by (simp add: div_ceil_le_iff [OF len])
    then show ?thesis using geo by (simp add: geometry_def)
  qed
  moreover have "max (z * ?len) start < min (min ((z + 1) * ?len) ?n) ?stop"
  proof -
    have "z * ?len < ?stop" using zle ne by linarith
    then show ?thesis using start ne len by (simp add: add_mult_distrib)
  qed
  ultimately show "part_zone part < zone_count (zones_of (hd cs)) \<and>
      fst (part_rows part) < snd (part_rows part) \<and>
      fst (set_zone_rows self (part_zone part)) \<le> fst (part_rows part) \<and>
      snd (part_rows part) \<le> snd (set_zone_rows self (part_zone part))"
    by (simp add: z(3,4) set_zone_rows_def checks zone_rows_def min_le_iff_disj)
qed

text \<open>A range of the table's rows is cut at its zones: the parts are its rows within the table,
  in order and without overlap, none empty, each within the rows of its own zone.\<close>

theorem parts_partition:
  assumes "zone_set_new cs uz = Some self" "geometry (zones_of (hd cs))"
  shows "concat (map (rows_in \<circ> part_rows) (parts self (start, stop))) =
      [start..<min stop (row_count (zones_of (hd cs)))] \<and>
    list_all (\<lambda>part. part_zone part < zone_count (zones_of (hd cs)) \<and>
      fst (part_rows part) < snd (part_rows part) \<and>
      fst (set_zone_rows self (part_zone part)) \<le> fst (part_rows part) \<and>
      snd (part_rows part) \<le> snd (set_zone_rows self (part_zone part)))
      (parts self (start, stop))"
  using parts_rows [OF assms] by (simp add: list_all_iff)

theorem parts_partition_witness:
  "concat (map (rows_in \<circ> part_rows) (parts
      \<lparr> checks = [\<lparr> bit_of = 3, code_of = 4, zones_of = sample_zones \<rparr>], unzoned = 0,
        only_bounds = False \<rparr> (2, 7))) = [2]"
proof -
  have new: "zone_set_new [\<lparr> bit_of = 3, code_of = 4, zones_of = sample_zones \<rparr>] 0 =
    Some \<lparr> checks = [\<lparr> bit_of = 3, code_of = 4, zones_of = sample_zones \<rparr>], unzoned = 0,
      only_bounds = False \<rparr>"
    by (simp add: zone_set_new_def)
  have "geometry (zones_of (hd [\<lparr> bit_of = 3, code_of = 4, zones_of = sample_zones \<rparr>]))"
    using sample_zones_describe by (simp add: describes_def)
  then show ?thesis
    using parts_partition [OF new, of 2 7] by (simp add: sample_zones_def numeral_3_eq_3)
qed

lemma recorded_in_count:
  assumes "sound_set self cols" "part_zone part < zone_count (zones_of (hd (checks self)))"
    and "\<forall>check \<in> set (checks self).
      map_geometry (zones_of check) = map_geometry (zones_of (hd (checks self)))"
    and "recorded_in self b part = Some n"
  shows "\<exists>i < length cols. i < length (checks self) \<and> bit_of (checks self ! i) = b \<and>
    n = length (filter (\<lambda>row. cols ! i ! row = code_of (checks self ! i)) (rows_in (part_rows part)))"
proof -
  have whole: "part_rows part = zone_rows (zones_of (hd (checks self))) (part_zone part)"
    using assms(4) by (simp add: recorded_in_def set_zone_rows_def split: if_splits)
  obtain check where find: "List.find (\<lambda>check. bit_of check = b) (checks self) = Some check"
    and n: "recorded_count (zones_of check) (part_zone part) (code_of check) = Some n"
    using assms(4) by (auto simp: recorded_in_def split: if_splits option.splits)
  then obtain i where i: "i < length (checks self)" "checks self ! i = check" "bit_of check = b"
    by (auto simp: find_Some_iff)
  have desc: "describes (zones_of check) (cols ! i)" "length cols = length (checks self)"
    using assms(1) i by (auto simp: sound_set_def list_all2_conv_all_nth)
  have geo: "map_geometry (zones_of check) = map_geometry (zones_of (hd (checks self)))"
    using assms(3) i(1,2) nth_mem by blast
  then have zone: "part_zone part < zone_count (zones_of check)"
    and rows: "zone_rows (zones_of check) (part_zone part) = part_rows part"
    using assms(2) by (simp_all add: map_geometry_def whole zone_rows_def)
  have "n = length (filter (\<lambda>row. cols ! i ! row = code_of check) (rows_in (part_rows part)))"
    using recorded_count_exact [OF desc(1) zone n] by (simp add: rows rows_in_def)
  then show ?thesis using i desc(2) by auto
qed

text \<open>Where \<open>recorded_in\<close> answers for a part of a range, its answer is the number of the part's
  rows that hold the code of the check with that bit.\<close>

theorem recorded_in_exact:
  assumes "zone_set_new cs uz = Some self" "sound_set self cols"
    and "part_zone part < zone_count (zones_of (hd cs))"
    and "recorded_in self b part = Some n"
  shows "\<exists>i < length cols. i < length cs \<and> bit_of (cs ! i) = b \<and>
    n = length (filter (\<lambda>row. cols ! i ! row = code_of (cs ! i)) (rows_in (part_rows part)))"
  using recorded_in_count [OF assms(2) _ _ assms(4)] zone_set_new_Some(1,6) [OF assms(1)] assms(3)
  by simp

theorem recorded_in_exact_witness:
  "\<exists>i < length [[2::nat, 3, 4]]. i < length [\<lparr> bit_of = 3, code_of = 3, zones_of = sample_zones \<rparr>] \<and>
    bit_of ([\<lparr> bit_of = 3, code_of = 3, zones_of = sample_zones \<rparr>] ! i) = 3 \<and>
    1 = length (filter (\<lambda>row. [[2::nat, 3, 4]] ! i ! row =
        code_of ([\<lparr> bit_of = 3, code_of = 3, zones_of = sample_zones \<rparr>] ! i))
      (rows_in (part_rows \<lparr> part_zone = 0, part_rows = (0, 2) \<rparr>)))"
proof (rule recorded_in_exact)
  show "zone_set_new [\<lparr> bit_of = 3, code_of = 3, zones_of = sample_zones \<rparr>] 0 =
    Some \<lparr> checks = [\<lparr> bit_of = 3, code_of = 3, zones_of = sample_zones \<rparr>], unzoned = 0,
      only_bounds = False \<rparr>"
    by (simp add: zone_set_new_def)
  show "sound_set \<lparr> checks = [\<lparr> bit_of = 3, code_of = 3, zones_of = sample_zones \<rparr>], unzoned = 0,
      only_bounds = False \<rparr> [[2, 3, 4]]"
    by (simp add: sound_set_def sample_zones_describe)
  show "recorded_in \<lparr> checks = [\<lparr> bit_of = 3, code_of = 3, zones_of = sample_zones \<rparr>],
      unzoned = 0, only_bounds = False \<rparr> 3 \<lparr> part_zone = 0, part_rows = (0, 2) \<rparr> = Some 1"
    by code_simp
qed (simp add: sample_zones_def zone_count_def)

section \<open>Gathering a column's zone map\<close>

record zone_builder =
  zb_mins :: "nat list"
  zb_maxes :: "nat list"
  zb_lo :: nat
  zb_hi :: nat
  zb_filled :: nat
  zb_rows :: nat
  zb_records :: "(recorded_zones \<times> counts) option"

definition builder_new :: zone_builder where
  "builder_new = \<lparr> zb_mins = [], zb_maxes = [], zb_lo = u64_max, zb_hi = 0, zb_filled = 0,
     zb_rows = 0, zb_records = None \<rparr>"

definition builder_recording :: zone_builder where
  "builder_recording = builder_new \<lparr> zb_records := Some ([], counts_new) \<rparr>"

definition room :: "zone_builder \<Rightarrow> nat" where
  "room self = ZONE_ROWS - zb_filled self"

definition builder_close :: "zone_builder \<Rightarrow> zone_builder" where
  "builder_close self = self \<lparr>
     zb_mins := zb_mins self @ [zb_lo self],
     zb_maxes := zb_maxes self @ [zb_hi self],
     zb_records := (case zb_records self of
         None \<Rightarrow> None
       | Some (zones, cnts) \<Rightarrow> Some (zones @ [counts_recorded cnts], counts_new)),
     zb_lo := u64_max, zb_hi := 0, zb_filled := 0 \<rparr>"

definition builder_push :: "zone_builder \<Rightarrow> nat list \<Rightarrow> nat \<Rightarrow> nat \<Rightarrow> zone_builder" where
  "builder_push self part lo hi =
     (if part = [] then self
      else
        let counted = self \<lparr> zb_records := (case zb_records self of
                None \<Rightarrow> None
              | Some (zones, cnts) \<Rightarrow> Some (zones, counts_add_all cnts part MAX_VALUES)) \<rparr>;
            filled = counted \<lparr>
              zb_lo := min (zb_lo counted) lo, zb_hi := max (zb_hi counted) hi,
              zb_filled := zb_filled counted + length part,
              zb_rows := zb_rows counted + length part \<rparr>
        in if zb_filled filled = ZONE_ROWS then builder_close filled else filled)"

definition builder_finish :: "zone_builder \<Rightarrow> nat \<Rightarrow> zone_error + column_zones option" where
  "builder_finish self rows =
     (if zb_rows self \<noteq> rows \<or> rows = 0 then Inr None
      else
        let closed = (if zb_filled self > 0 then builder_close self else self)
        in case from_bounds (zb_mins closed) (zb_maxes closed) ZONE_ROWS rows of
             Inl e \<Rightarrow> Inl e
           | Inr zs \<Rightarrow>
               (case zb_records closed of
                  None \<Rightarrow> Inr (Some zs)
                | Some (records, _) \<Rightarrow>
                    (case with_records zs records of Inl e \<Rightarrow> Inl e | Inr zs' \<Rightarrow> Inr (Some zs'))))"

text \<open>A base keeps the maps that line up with its rows (\<open>QuadZones\<close>, one map per slot).\<close>

definition covering :: "column_zones option list \<Rightarrow> nat \<Rightarrow> column_zones option list" where
  "covering slot_zones rows =
     map (\<lambda>column. case column of
         None \<Rightarrow> None
       | Some zs \<Rightarrow>
           if zone_len zs \<noteq> ZONE_ROWS \<or> zone_count zs \<noteq> div_ceil rows ZONE_ROWS then None
           else Some zs) slot_zones"

text \<open>The state of a builder that has seen \<open>codes\<close>: its closed zones and the one being filled.\<close>

definition chunk :: "nat list \<Rightarrow> nat \<Rightarrow> nat list" where
  "chunk codes z = take ZONE_ROWS (drop (z * ZONE_ROWS) codes)"

definition filling :: "nat list \<Rightarrow> nat list" where
  "filling codes = drop (length codes div ZONE_ROWS * ZONE_ROWS) codes"

definition built :: "bool \<Rightarrow> zone_builder \<Rightarrow> nat list \<Rightarrow> bool" where
  "built recording zb codes \<longleftrightarrow>
     zb_rows zb = length codes \<and> zb_filled zb = length codes mod ZONE_ROWS \<and>
     zb_mins zb = map (\<lambda>z. Min (set (chunk codes z))) [0..<length codes div ZONE_ROWS] \<and>
     zb_maxes zb = map (\<lambda>z. Max (set (chunk codes z))) [0..<length codes div ZONE_ROWS] \<and>
     zb_lo zb = Min (insert u64_max (set (filling codes))) \<and>
     zb_hi zb = Max (insert 0 (set (filling codes))) \<and>
     zb_records zb = (if recording
       then Some (map (\<lambda>z. record_of (chunk codes z)) [0..<length codes div ZONE_ROWS],
         tally MAX_VALUES (mset (filling codes)))
       else None)"

lemma ZONE_ROWS_pos [simp]: "0 < ZONE_ROWS"
  by (simp add: ZONE_ROWS_def)

lemma counts_recorded_Some: "counts_recorded (tally limit m) = Some ps \<Longrightarrow> ps = tally_pairs m"
proof -
  have "gather (\<lambda>(v, n). if n \<le> u32_max then Some (v, n) else None) xs = Some ys \<Longrightarrow> ys = xs"
    for xs ys :: "(nat \<times> nat) list"
    by (induction xs arbitrary: ys) (auto split: if_splits option.splits)
  then show "counts_recorded (tally limit m) = Some ps \<Longrightarrow> ps = tally_pairs m"
    by (auto simp: counts_recorded_def tally_def split: if_splits)
qed

text \<open>What a run of rows adds, within the zone being filled or completing it.\<close>

lemma rows_after:
  fixes k r n :: nat
  assumes "r < R"
  shows "r + n < R \<Longrightarrow> (k * R + r + n) div R = k \<and> (k * R + r + n) mod R = r + n"
    and "r + n = R \<Longrightarrow> (k * R + r + n) div R = Suc k \<and> (k * R + r + n) mod R = 0"
proof -
  assume *: "r + n < R"
  have "k * R + r + n = (r + n) + k * R" by simp
  then show "(k * R + r + n) div R = k \<and> (k * R + r + n) mod R = r + n"
    using * assms by (simp only: mod_mult_self1 div_mult_self1) simp
next
  assume *: "r + n = R"
  have "k * R + r + n = Suc k * R" using * by simp
  then show "(k * R + r + n) div R = Suc k \<and> (k * R + r + n) mod R = 0"
    using assms by (metis less_nat_zero_code mod_mult_self2_is_0 nonzero_mult_div_cancel_right)
qed

lemma chunk_append: "Suc z * ZONE_ROWS \<le> length codes \<Longrightarrow> chunk (codes @ part) z = chunk codes z"
  by (simp add: chunk_def add.commute)

lemma chunk_closed: "z < length codes div ZONE_ROWS \<Longrightarrow> chunk (codes @ part) z = chunk codes z"
proof -
  assume "z < length codes div ZONE_ROWS"
  then have "Suc z * ZONE_ROWS \<le> length codes div ZONE_ROWS * ZONE_ROWS"
    by (intro mult_le_mono1) simp
  then have "Suc z * ZONE_ROWS \<le> length codes"
    using div_times_less_eq_dividend le_trans by blast
  then show "chunk (codes @ part) z = chunk codes z" by (rule chunk_append)
qed

lemma Min_insert_join:
  "finite A \<Longrightarrow> finite B \<Longrightarrow> B \<noteq> {} \<Longrightarrow> min (Min (insert (x::nat) A)) (Min B) = Min (insert x (A \<union> B))"
  by (metis Min_Un Un_insert_left finite.insertI insert_not_empty)

lemma Max_insert_join:
  "finite A \<Longrightarrow> finite B \<Longrightarrow> B \<noteq> {} \<Longrightarrow> max (Max (insert (x::nat) A)) (Max B) = Max (insert x (A \<union> B))"
  by (metis Max_Un Un_insert_left finite.insertI insert_not_empty)

lemma length_filling: "length (filling codes) = length codes mod ZONE_ROWS"
  by (simp add: filling_def minus_div_mult_eq_mod)

lemma filling_short:
  assumes "length codes mod ZONE_ROWS + length part < ZONE_ROWS"
  shows "length (codes @ part) div ZONE_ROWS = length codes div ZONE_ROWS"
    "length (codes @ part) mod ZONE_ROWS = length codes mod ZONE_ROWS + length part"
    "filling (codes @ part) = filling codes @ part"
proof -
  let ?k = "length codes div ZONE_ROWS" and ?r = "length codes mod ZONE_ROWS"
  have eq: "length (codes @ part) = ?k * ZONE_ROWS + ?r + length part" by simp
  have rows: "length (codes @ part) div ZONE_ROWS = ?k \<and>
      length (codes @ part) mod ZONE_ROWS = ?r + length part"
    unfolding eq by (rule rows_after(1)) (use assms in simp_all)
  then show k: "length (codes @ part) div ZONE_ROWS = ?k"
    and "length (codes @ part) mod ZONE_ROWS = ?r + length part" by simp_all
  show "filling (codes @ part) = filling codes @ part"
    by (simp only: filling_def k) simp
qed

lemma filling_full:
  assumes "length codes mod ZONE_ROWS + length part = ZONE_ROWS"
  shows "length (codes @ part) div ZONE_ROWS = Suc (length codes div ZONE_ROWS)"
    "length (codes @ part) mod ZONE_ROWS = 0"
    "filling (codes @ part) = []"
    "chunk (codes @ part) (length codes div ZONE_ROWS) = filling codes @ part"
proof -
  let ?k = "length codes div ZONE_ROWS" and ?r = "length codes mod ZONE_ROWS"
  have eq: "length (codes @ part) = ?k * ZONE_ROWS + ?r + length part" by simp
  have rows: "length (codes @ part) div ZONE_ROWS = Suc ?k \<and>
      length (codes @ part) mod ZONE_ROWS = 0"
    unfolding eq by (rule rows_after(2)) (use assms in simp_all)
  then show "length (codes @ part) div ZONE_ROWS = Suc ?k" and
    mod: "length (codes @ part) mod ZONE_ROWS = 0" by simp_all
  have "length (filling (codes @ part)) = 0" by (simp only: length_filling mod)
  then show "filling (codes @ part) = []" by simp
  have "chunk (codes @ part) ?k = take ZONE_ROWS (filling codes @ part)"
    by (simp add: chunk_def filling_def)
  also have "\<dots> = filling codes @ part"
    using assms by (simp add: length_filling)
  finally show "chunk (codes @ part) ?k = filling codes @ part" .
qed

text \<open>Bounds of codes that fit the machine word.\<close>

lemma Min_insert_max:
  "A \<noteq> {} \<Longrightarrow> finite A \<Longrightarrow> \<forall>a \<in> A. a \<le> u64_max \<Longrightarrow> Min (insert u64_max A) = Min A"
  by (simp add: min_absorb2)

lemma Max_insert_0: "A \<noteq> {} \<Longrightarrow> finite A \<Longrightarrow> Max (insert (0::nat) A) = Max A"
  by simp

lemma builder_push_built:
  assumes built: "built r zb codes" and room: "length part \<le> room zb" and ne: "part \<noteq> []"
    and codes: "\<forall>c \<in> set codes \<union> set part. c \<le> u64_max"
  shows "built r (builder_push zb part (Min (set part)) (Max (set part))) (codes @ part)"
proof -
  let ?f = "length codes mod ZONE_ROWS" and ?tail = "filling codes @ part"
  have zb: "zb_rows zb = length codes" "zb_filled zb = ?f"
    "zb_mins zb = map (\<lambda>z. Min (set (chunk codes z))) [0..<length codes div ZONE_ROWS]"
    "zb_maxes zb = map (\<lambda>z. Max (set (chunk codes z))) [0..<length codes div ZONE_ROWS]"
    "zb_lo zb = Min (insert u64_max (set (filling codes)))"
    "zb_hi zb = Max (insert 0 (set (filling codes)))"
    "zb_records zb = (if r
       then Some (map (\<lambda>z. record_of (chunk codes z)) [0..<length codes div ZONE_ROWS],
         tally MAX_VALUES (mset (filling codes))) else None)"
    using built by (simp_all add: built_def)
  have lo: "min (zb_lo zb) (Min (set part)) = Min (insert u64_max (set ?tail))"
    and hi: "max (zb_hi zb) (Max (set part)) = Max (insert 0 (set ?tail))"
    using ne by (simp_all add: zb Min_insert_join Max_insert_join del: Min_insert Max_insert)
  have tail_codes: "\<forall>c \<in> set ?tail. c \<le> u64_max"
    using codes set_drop_subset by (fastforce simp: filling_def)
  have less: "?f < ZONE_ROWS" by simp
  have "length part \<le> ZONE_ROWS - ?f" using room by (simp add: room_def zb)
  then have len: "?f + length part \<le> ZONE_ROWS" using less by linarith
  have recs: "(case zb_records zb of None \<Rightarrow> None
      | Some (zones, cnts) \<Rightarrow> Some (zones, counts_add_all cnts part MAX_VALUES)) =
    (if r then Some (map (\<lambda>z. record_of (chunk codes z)) [0..<length codes div ZONE_ROWS],
       tally MAX_VALUES (mset ?tail)) else None)"
    by (simp add: zb counts_add_all_tally)
  show ?thesis
  proof (cases "?f + length part = ZONE_ROWS")
    case False
    then have short: "?f + length part < ZONE_ROWS" using len by simp
    show ?thesis
      using False ne
      by (simp add: builder_push_def built_def recs lo hi zb(1-4) filling_short [OF short, simplified]
          chunk_closed del: Min_insert Max_insert)
  next
    case True
    note full = filling_full [OF True]
    have "Min (insert u64_max (set ?tail)) = Min (set ?tail)"
      "Max (insert 0 (set ?tail)) = Max (set ?tail)"
      using Min_insert_max [of "set ?tail"] Max_insert_0 [of "set ?tail"] tail_codes ne by simp_all
    then show ?thesis
      using True ne
      by (simp add: builder_push_def builder_close_def built_def recs lo hi zb(1-4) full [simplified]
          chunk_closed record_of_def tally_empty del: Min_insert Max_insert)
  qed
qed

text \<open>The runs of a pass: each within the zone being filled, pushed with its exact bounds.\<close>

fun runs_fit :: "nat \<Rightarrow> nat list list \<Rightarrow> bool" where
  "runs_fit seen [] = True"
| "runs_fit seen (part # runs) =
     (length part \<le> ZONE_ROWS - seen mod ZONE_ROWS \<and> runs_fit (seen + length part) runs)"

definition push_runs :: "zone_builder \<Rightarrow> nat list list \<Rightarrow> zone_builder" where
  "push_runs zb runs =
     fold (\<lambda>part zb. builder_push zb part (Min (set part)) (Max (set part))) runs zb"

lemma push_runs_built:
  "built r zb codes \<Longrightarrow> runs_fit (length codes) runs \<Longrightarrow>
   \<forall>c \<in> set codes \<union> set (concat runs). c \<le> u64_max \<Longrightarrow>
   built r (push_runs zb runs) (codes @ concat runs)"
proof (induction runs arbitrary: zb codes)
  case Nil
  then show ?case by (simp add: push_runs_def)
next
  case (Cons part runs)
  have "built r (builder_push zb part (Min (set part)) (Max (set part))) (codes @ part)"
  proof (cases "part = []")
    case True
    then show ?thesis using Cons.prems by (simp add: builder_push_def)
  next
    case False
    have "length part \<le> room zb" using Cons.prems by (simp add: room_def built_def)
    then show ?thesis using False Cons.prems by (intro builder_push_built) auto
  qed
  then show ?case
    using Cons.IH [of _ "codes @ part"] Cons.prems by (simp add: push_runs_def)
qed

lemma built_new: "built False builder_new []"
  by (simp add: built_def builder_new_def filling_def)

lemma built_recording: "built True builder_recording []"
  by (simp add: built_def builder_recording_def builder_new_def filling_def tally_empty)

text \<open>The closed state after the last row, as lists over all of the column's zones.\<close>

lemma chunk_last:
  "chunk codes (length codes div ZONE_ROWS) = filling codes"
proof -
  have "length (filling codes) \<le> ZONE_ROWS" by (simp add: length_filling less_imp_le)
  then show ?thesis by (simp add: chunk_def filling_def)
qed

lemma zones_of_rows:
  "div_ceil n ZONE_ROWS = (if n mod ZONE_ROWS = 0 then n div ZONE_ROWS else Suc (n div ZONE_ROWS))"
proof -
  let ?k = "n div ZONE_ROWS" and ?r = "n mod ZONE_ROWS"
  have n: "n = ?k * ZONE_ROWS + ?r" by simp
  have r: "?r < ZONE_ROWS" by simp
  have ceil: "div_ceil n ZONE_ROWS = (n + (ZONE_ROWS - 1)) div ZONE_ROWS"
    using Nat.add_diff_assoc [of 1 ZONE_ROWS n] by (simp add: div_ceil_def Suc_leI)
  show ?thesis
  proof (cases "?r = 0")
    case True
    then have "n + (ZONE_ROWS - 1) = ?k * ZONE_ROWS + 0 + (ZONE_ROWS - 1)" using n by linarith
    then show ?thesis
      using rows_after(1) [of 0 ZONE_ROWS "ZONE_ROWS - 1" ?k] True by (simp only: ceil) simp
  next
    case False
    moreover have "Suc ?k * ZONE_ROWS = ?k * ZONE_ROWS + ZONE_ROWS" by simp
    ultimately have "n + (ZONE_ROWS - 1) = Suc ?k * ZONE_ROWS + 0 + (?r - 1)"
      using n r by linarith
    then show ?thesis
      using rows_after(1) [of 0 ZONE_ROWS "?r - 1" "Suc ?k"] r False by (simp only: ceil) simp
  qed
qed

lemma builder_close_zones:
  assumes "built r zb codes" and codes: "\<forall>c \<in> set codes. c \<le> u64_max"
  defines "closed \<equiv> (if zb_filled zb > 0 then builder_close zb else zb)"
  shows "zb_mins closed = map (\<lambda>z. Min (set (chunk codes z))) [0..<div_ceil (length codes) ZONE_ROWS]"
    and "zb_maxes closed = map (\<lambda>z. Max (set (chunk codes z))) [0..<div_ceil (length codes) ZONE_ROWS]"
    and "map_option fst (zb_records closed) = (if r
      then Some (map (\<lambda>z. record_of (chunk codes z)) [0..<div_ceil (length codes) ZONE_ROWS])
      else None)"
proof -
  note zb = assms(1) [unfolded built_def]
  have tail: "filling codes \<noteq> []" if "zb_filled zb > 0"
    using that zb length_filling [of codes] by auto
  have "\<forall>c \<in> set (filling codes). c \<le> u64_max"
    using codes set_drop_subset by (fastforce simp: filling_def)
  then have bounds: "Min (insert u64_max (set (filling codes))) = Min (set (filling codes))"
    "Max (insert 0 (set (filling codes))) = Max (set (filling codes))" if "zb_filled zb > 0"
    using tail [OF that] Min_insert_max [of "set (filling codes)"]
      Max_insert_0 [of "set (filling codes)"] by simp_all
  show "zb_mins closed = map (\<lambda>z. Min (set (chunk codes z))) [0..<div_ceil (length codes) ZONE_ROWS]"
    "zb_maxes closed = map (\<lambda>z. Max (set (chunk codes z))) [0..<div_ceil (length codes) ZONE_ROWS]"
    "map_option fst (zb_records closed) = (if r
      then Some (map (\<lambda>z. record_of (chunk codes z)) [0..<div_ceil (length codes) ZONE_ROWS])
      else None)"
    using bounds zb
    by (auto simp: closed_def builder_close_def zones_of_rows chunk_last record_of_def
        simp del: Min_insert Max_insert)
qed

lemma list_min_eq: "xs \<noteq> [] \<Longrightarrow> list_min xs = Some (Min (set xs))"
  by (cases xs) (simp_all add: list_min_def Min.set_eq_fold [symmetric])

lemma list_max_eq: "xs \<noteq> [] \<Longrightarrow> list_max xs = Some (Max (set xs))"
  by (cases xs) (simp_all add: list_max_def Max.set_eq_fold [symmetric])

lemma chunk_zone:
  "zone_len zs = ZONE_ROWS \<Longrightarrow> row_count zs = length codes \<Longrightarrow>
   zone_codes zs codes z = chunk codes z"
proof (rule nth_equalityI)
  assume zs: "zone_len zs = ZONE_ROWS" "row_count zs = length codes"
  show "length (zone_codes zs codes z) = length (chunk codes z)"
    by (auto simp: zone_codes_def zone_rows_def zs chunk_def min_def)
  fix i assume "i < length (zone_codes zs codes z)"
  then have "z * ZONE_ROWS + i < min ((z + 1) * ZONE_ROWS) (length codes)"
    "i < ZONE_ROWS" "z * ZONE_ROWS + i < length codes"
    by (simp_all add: zone_codes_def zone_rows_def zs) linarith+
  then show "zone_codes zs codes z ! i = chunk codes z ! i"
    by (simp add: zone_codes_def zone_rows_def zs chunk_def nth_upt)
qed

text \<open>The column's own bounds, folded over its zones.\<close>

lemma chunks_cover: "(\<Union>z < div_ceil (length codes) ZONE_ROWS. set (chunk codes z)) = set codes"
proof (rule set_eqI)
  fix c
  show "c \<in> (\<Union>z < div_ceil (length codes) ZONE_ROWS. set (chunk codes z)) \<longleftrightarrow> c \<in> set codes"
  proof
    assume "c \<in> set codes"
    then obtain i where i: "i < length codes" "codes ! i = c" by (auto simp: in_set_conv_nth)
    let ?z = "i div ZONE_ROWS" and ?j = "i mod ZONE_ROWS"
    have "?z < div_ceil (length codes) ZONE_ROWS"
    proof -
      have "?z * ZONE_ROWS \<le> i" by simp
      then have "\<not> length codes \<le> ?z * ZONE_ROWS" using i(1) by linarith
      then have "\<not> div_ceil (length codes) ZONE_ROWS \<le> ?z"
        by (simp only: div_ceil_le_iff [OF ZONE_ROWS_pos]) simp
      then show ?thesis by (rule not_le_imp_less)
    qed
    moreover have "c \<in> set (chunk codes ?z)"
    proof -
      have at: "?z * ZONE_ROWS + ?j = i" and less: "?j < ZONE_ROWS" by simp_all
      have "?j < length codes - ?z * ZONE_ROWS" using i(1) at by linarith
      then have j: "?j < length (chunk codes ?z)"
        using less by (simp add: chunk_def del: mod_less_divisor)
      then have "chunk codes ?z ! ?j = codes ! (?z * ZONE_ROWS + ?j)"
        using less i(1) unfolding at by (simp add: chunk_def)
      then show ?thesis using j nth_mem [OF j] by (simp only: at i(2))
    qed
    ultimately show "c \<in> (\<Union>z < div_ceil (length codes) ZONE_ROWS. set (chunk codes z))" by blast
  qed (auto simp: chunk_def dest: in_set_takeD in_set_dropD)
qed

lemma chunk_nonempty: "z < div_ceil (length codes) ZONE_ROWS \<Longrightarrow> chunk codes z \<noteq> []"
proof -
  assume "z < div_ceil (length codes) ZONE_ROWS"
  then have "\<not> div_ceil (length codes) ZONE_ROWS \<le> z" by simp
  then have "\<not> length codes \<le> z * ZONE_ROWS" by (simp add: div_ceil_le_iff)
  then show ?thesis using ZONE_ROWS_pos by (simp add: chunk_def del: ZONE_ROWS_pos)
qed

lemma Min_of_chunks:
  assumes "codes \<noteq> []"
  shows "Min ((\<lambda>z. Min (set (chunk codes z))) ` {0..<div_ceil (length codes) ZONE_ROWS}) = Min (set codes)"
    and "Max ((\<lambda>z. Max (set (chunk codes z))) ` {0..<div_ceil (length codes) ZONE_ROWS}) = Max (set codes)"
proof -
  let ?n = "div_ceil (length codes) ZONE_ROWS"
  have n: "{0..<?n} \<noteq> {}" using div_ceil_pos [of "length codes" ZONE_ROWS] assms by simp
  have ne: "set (chunk codes z) \<noteq> {}" if "z < ?n" for z using chunk_nonempty [OF that] by simp
  have sub: "set (chunk codes z) \<subseteq> set codes" if "z < ?n" for z using chunks_cover [of codes] that by blast
  show "Min ((\<lambda>z. Min (set (chunk codes z))) ` {0..<?n}) = Min (set codes)"
  proof (rule Min_eqI)
    fix m assume "m \<in> (\<lambda>z. Min (set (chunk codes z))) ` {0..<?n}"
    then obtain z where z: "z < ?n" "m = Min (set (chunk codes z))" by auto
    then show "Min (set codes) \<le> m" using Min_antimono [OF sub [OF z(1)] ne [OF z(1)]] by simp
  next
    have "Min (set codes) \<in> set codes" using assms by simp
    then obtain z where z: "z < ?n" "Min (set codes) \<in> set (chunk codes z)"
      using chunks_cover [of codes] by blast
    then have "Min (set (chunk codes z)) = Min (set codes)"
      using sub [OF z(1)] by (intro Min_eqI) (auto simp: subset_iff)
    then show "Min (set codes) \<in> (\<lambda>z. Min (set (chunk codes z))) ` {0..<?n}"
      using z(1) by (metis atLeast0LessThan imageI lessThan_iff)
  qed simp
  show "Max ((\<lambda>z. Max (set (chunk codes z))) ` {0..<?n}) = Max (set codes)"
  proof (rule Max_eqI)
    fix m assume "m \<in> (\<lambda>z. Max (set (chunk codes z))) ` {0..<?n}"
    then obtain z where z: "z < ?n" "m = Max (set (chunk codes z))" by auto
    then show "m \<le> Max (set codes)" using Max_mono [OF sub [OF z(1)] ne [OF z(1)]] by simp
  next
    have "Max (set codes) \<in> set codes" using assms by simp
    then obtain z where z: "z < ?n" "Max (set codes) \<in> set (chunk codes z)"
      using chunks_cover [of codes] by blast
    then have "Max (set (chunk codes z)) = Max (set codes)"
      using sub [OF z(1)] by (intro Max_eqI) (auto simp: subset_iff)
    then show "Max (set codes) \<in> (\<lambda>z. Max (set (chunk codes z))) ` {0..<?n}"
      using z(1) by (metis atLeast0LessThan imageI lessThan_iff)
  qed simp
qed

lemma finish_built:
  assumes built: "built r zb codes" and ne: "codes \<noteq> []" and fits: "\<forall>c \<in> set codes. c \<le> u64_max"
  shows "\<exists>zs. builder_finish zb (length codes) = Inr (Some zs) \<and> describes zs codes \<and>
    zone_len zs = ZONE_ROWS \<and> column_bounds zs = Some (Min (set codes), Max (set codes)) \<and>
    recorded zs = (if r
      then Some (map (\<lambda>z. record_of (zone_codes zs codes z)) [0..<zone_count zs]) else None)"
proof -
  let ?n = "div_ceil (length codes) ZONE_ROWS"
  let ?mins = "map (\<lambda>z. Min (set (chunk codes z))) [0..<?n]"
  let ?maxes = "map (\<lambda>z. Max (set (chunk codes z))) [0..<?n]"
  let ?recs = "map (\<lambda>z. record_of (chunk codes z)) [0..<?n]"
  let ?closed = "if zb_filled zb > 0 then builder_close zb else zb"
  note closed = builder_close_zones [OF built fits]
  have n: "0 < ?n" using ne by (simp add: div_ceil_pos)
  have rows: "zb_rows zb = length codes" using built by (simp add: built_def)
  define zs where "zs = \<lparr> mins = ?mins, maxes = ?maxes,
    bounds = Some (Min (set codes), Max (set codes)),
    recorded = (if r then Some ?recs else None), zone_len = ZONE_ROWS, row_count = length codes \<rparr>"
  have "list_min ?mins = Some (Min (set ?mins))" "list_max ?maxes = Some (Max (set ?maxes))"
    using n by (simp_all add: list_min_eq list_max_eq)
  moreover have "Min (set ?mins) = Min (set codes)" "Max (set ?maxes) = Max (set codes)"
    using Min_of_chunks [OF ne] by (simp_all only: set_map set_upt)
  ultimately have from_bounds: "from_bounds ?mins ?maxes ZONE_ROWS (length codes) =
      Inr (zs \<lparr> recorded := None \<rparr>)"
    using ZONE_ROWS_pos by (simp add: from_bounds_def zs_def del: ZONE_ROWS_pos)
  have finish: "builder_finish zb (length codes) = Inr (Some zs)"
  proof (cases r)
    case False
    then have "zb_records ?closed = None" using closed(3) by simp
    then show ?thesis
      using ne from_bounds closed(1,2) False
      by (simp add: builder_finish_def rows Let_def del: map_eq_conv) (simp add: zs_def)
  next
    case True
    then obtain cnts where "zb_records ?closed = Some (?recs, cnts)" using closed(3) by auto
    then show ?thesis
      using ne from_bounds closed(1,2) True
      by (simp add: builder_finish_def rows Let_def with_records_def zone_count_def del: map_eq_conv)
        (simp add: zs_def)
  qed
  have count: "zone_count zs = ?n" by (simp add: zs_def zone_count_def)
  have zone: "zone_codes zs codes z = chunk codes z" for z
    by (rule chunk_zone) (simp_all add: zs_def)
  have "describes zs codes"
    unfolding describes_def count
  proof (intro conjI allI impI)
    show "geometry zs" unfolding geometry_def count by (simp add: zs_def)
    show "row_count zs = length codes" by (simp add: zs_def)
    show "case recorded zs of None \<Rightarrow> True | Some records \<Rightarrow> length records = ?n"
      by (simp add: zs_def)
    fix z assume z: "z < ?n"
    show "exact_zone zs codes z" unfolding exact_zone_def zone using z by (simp add: zs_def)
    show "exact_record zs codes z"
      unfolding exact_record_def zone using z
      by (auto simp: zs_def record_of_def dest: counts_recorded_Some split: option.splits)
  qed
  moreover have "recorded zs = (if r
      then Some (map (\<lambda>z. record_of (zone_codes zs codes z)) [0..<zone_count zs]) else None)"
    unfolding count zone by (simp add: zs_def)
  ultimately show ?thesis using finish by (auto simp: column_bounds_def zs_def)
qed

lemma covering_own:
  "zone_len zs = ZONE_ROWS \<Longrightarrow> describes zs codes \<Longrightarrow> covering [Some zs] (length codes) = [Some zs]"
  by (simp add: covering_def describes_def geometry_def)

text \<open>C17. The zone map a build gathers, from whatever runs its pass takes the rows in, is exact: it
  describes the column's codes, its whole bounds are the column's, a recording builder has each
  zone's codes with their rows where there are at most \<open>MAX_VALUES\<close>, and the base the column is
  of keeps it.\<close>

theorem zone_builder_exact:
  assumes "runs_fit 0 runs" "\<forall>c \<in> set (concat runs). c \<le> u64_max" "concat runs \<noteq> []"
  shows "\<exists>zs. builder_finish (push_runs (if rec then builder_recording else builder_new) runs)
        (length (concat runs)) = Inr (Some zs) \<and>
      describes zs (concat runs) \<and>
      column_bounds zs = Some (Min (set (concat runs)), Max (set (concat runs))) \<and>
      recorded zs = (if rec
        then Some (map (\<lambda>z. record_of (zone_codes zs (concat runs) z)) [0..<zone_count zs])
        else None) \<and>
      covering [Some zs] (length (concat runs)) = [Some zs]"
proof -
  have "built rec (if rec then builder_recording else builder_new) []"
    by (simp add: built_new built_recording)
  then have "built rec (push_runs (if rec then builder_recording else builder_new) runs) (concat runs)"
    using push_runs_built [of rec _ "[]" runs] assms(1,2) by simp
  from finish_built [OF this assms(3,2)] show ?thesis using covering_own by blast
qed

theorem zone_builder_exact_witness:
  "\<exists>zs. builder_finish (push_runs builder_recording [[7, 7], [5]]) 3 = Inr (Some zs) \<and>
    describes zs [7, 7, 5]"
  using zone_builder_exact [of "[[7, 7], [5]]" True] by (auto simp: ZONE_ROWS_def u64_max_def numeral_3_eq_3)

section \<open>The records of a file\<close>

text \<open>A state as a zone table holds it: its validity and its two lists' items.\<close>

definition table_state :: "state \<Rightarrow> bool \<times> nat list option \<times> nat list option" where
  "table_state st =
     (case st of None \<Rightarrow> (False, Some [], Some []) | Some (vs, ns) \<Rightarrow> (True, Some vs, Some ns))"

lemma sum_tally: "sum_list (map snd (tally_pairs m)) = size m"
proof -
  have "size (\<Sum>(v, n) \<leftarrow> ps. replicate_mset n v) = sum_list (map snd ps)" for ps :: "(nat \<times> nat) list"
    by (induction ps) auto
  then show ?thesis using tally_pairs_sum [of m] by metis
qed

lemma decode_record_tally:
  assumes "size m \<le> u32_max"
  shows "decode_record (size m) (table_state (to_scalar (tally MAX_VALUES m))) =
    counts_recorded (tally MAX_VALUES m)"
proof (cases "card (set_mset m) \<le> MAX_VALUES")
  case True
  then show ?thesis
    by (simp add: decode_record_def table_state_def to_scalar_def counts_recorded_tally assms
        pairs_tally sum_tally)
next
  case False
  then show ?thesis
    by (simp add: decode_record_def table_state_def to_scalar_def counts_recorded_too_many)
qed

lemma length_zone_codes:
  "length (zone_codes zs codes z) = snd (zone_rows zs z) - fst (zone_rows zs z)"
  by (simp add: zone_codes_def)

text \<open>C21. A zone map read back from a file: the states the aggregate wrote over each zone's rows
  are read as the records a build keeps in memory, and the map with them still describes the
  column.\<close>

theorem file_records_round_trip:
  assumes "describes zs codes" "zone_len zs \<le> u32_max"
  shows "\<exists>zs'. with_recorded zs (map (\<lambda>z. table_state (to_scalar
        (counts_add_all counts_new (zone_codes zs codes z) MAX_VALUES))) [0..<zone_count zs]) = Inr zs' \<and>
      describes zs' codes \<and>
      recorded zs' = Some (map (\<lambda>z. record_of (zone_codes zs codes z)) [0..<zone_count zs])"
proof -
  let ?states = "map (\<lambda>z. table_state (to_scalar
    (counts_add_all counts_new (zone_codes zs codes z) MAX_VALUES))) [0..<zone_count zs]"
  let ?recs = "map (\<lambda>z. record_of (zone_codes zs codes z)) [0..<zone_count zs]"
  have rec: "decode_record (snd (zone_rows zs z) - fst (zone_rows zs z)) (table_state (to_scalar
      (counts_add_all counts_new (zone_codes zs codes z) MAX_VALUES))) =
      record_of (zone_codes zs codes z)" for z
  proof -
    have "length (zone_codes zs codes z) \<le> zone_len zs"
      by (simp add: length_zone_codes zone_rows_def)
    then show ?thesis
      using decode_record_tally [of "mset (zone_codes zs codes z)"] assms(2)
      by (simp add: length_zone_codes tally_of_rows record_of_def)
  qed
  have "decode_states ?states (\<lambda>zone. snd (zone_rows zs zone) - fst (zone_rows zs zone)) = ?recs"
    unfolding decode_states_def enumerate_map_index using rec by simp
  then have read: "with_recorded zs ?states = Inr (zs \<lparr> recorded := Some ?recs \<rparr>)"
    by (simp add: with_recorded_def)
  have "describes (zs \<lparr> recorded := Some ?recs \<rparr>) codes"
    using assms(1)
    by (auto simp: describes_def geometry_def zone_count_def exact_zone_def zone_codes_def
        zone_rows_def exact_record_def record_of_def dest: counts_recorded_Some split: option.splits)
  then show ?thesis using read by auto
qed

theorem file_records_round_trip_witness:
  "\<exists>zs'. with_recorded sample_zones (map (\<lambda>z. table_state (to_scalar
        (counts_add_all counts_new (zone_codes sample_zones [2, 3, 4] z) MAX_VALUES)))
      [0..<zone_count sample_zones]) = Inr zs' \<and> describes zs' [2, 3, 4]"
proof -
  have "zone_len sample_zones \<le> u32_max" by (simp add: sample_zones_def u32_max_def)
  from file_records_round_trip [OF sample_zones_describe this] show ?thesis by blast
qed

end
