(* ===== verification/Search.thy ===== *)
theory Search
  imports Prelude "HOL-Library.Monad_Syntax"
begin

text \<open>
  The searches of the encoded columns (\<open>src/encoded-search/src/search.rs\<close>): bisection over a
  virtual index range, the search that interpolates between two probed values, and what an
  equality search gathers. Values are read through a closure that may panic (\<^term>\<open>None\<close>), and a
  machine subtraction or division that would panic is \<^term>\<open>None\<close> as well, so that the results
  below also say that no search panics. The trait of the gatherers is the locale
  \<open>eq_sink\<close>.
\<close>

section \<open>Checked arithmetic\<close>

definition usub :: "nat \<Rightarrow> nat \<Rightarrow> nat option" where
  "usub a b = (if b \<le> a then Some (a - b) else None)"

definition udiv :: "nat \<Rightarrow> nat \<Rightarrow> nat option" where
  "udiv a b = (if b = 0 then None else Some (a div b))"

lemma usub_Some [simp]: "b \<le> a \<Longrightarrow> usub a b = Some (a - b)"
  by (simp add: usub_def)

lemma udiv_Some [simp]: "b \<noteq> 0 \<Longrightarrow> udiv a b = Some (a div b)"
  by (simp add: udiv_def)

section \<open>Bisection\<close>

function bisect :: "(nat \<Rightarrow> bool option) \<Rightarrow> nat \<Rightarrow> nat \<Rightarrow> nat option" where
  "bisect below lo hi =
     (if lo < hi then
        do {
          let mid = lo + (hi - lo) div 2;
          b \<leftarrow> below mid;
          if b then bisect below (mid + 1) hi else bisect below lo mid
        }
      else Some lo)"
  by pat_completeness auto
termination
  by (relation "measure (\<lambda>(below, lo, hi). hi - lo)") auto

declare bisect.simps [simp del]

definition partition :: "nat \<Rightarrow> (nat \<Rightarrow> bool option) \<Rightarrow> nat option" where
  "partition n below = bisect below 0 n"

text \<open>The first index of a range that fails a test, and a range whose passing indices come
  first.\<close>

definition cut :: "(nat \<Rightarrow> bool) \<Rightarrow> nat \<Rightarrow> nat" where
  "cut p n = length (takeWhile p [0..<n])"

definition first_pass :: "(nat \<Rightarrow> bool) \<Rightarrow> nat \<Rightarrow> bool" where
  "first_pass p n \<longleftrightarrow> (\<forall>i j. i < j \<longrightarrow> j < n \<longrightarrow> p j \<longrightarrow> p i)"

lemma cut_le: "cut p n \<le> n"
  unfolding cut_def by (metis length_takeWhile_le length_upt minus_nat.diff_0)

lemma cut_pass: "i < cut p n \<Longrightarrow> p i"
  unfolding cut_def
  by (metis add_0 length_takeWhile_le length_upt minus_nat.diff_0 nth_mem nth_upt order_less_le_trans
      set_takeWhileD takeWhile_nth)

lemma cut_fail: "cut p n < n \<Longrightarrow> \<not> p (cut p n)"
  unfolding cut_def
  by (metis add_0 length_upt minus_nat.diff_0 nth_length_takeWhile nth_upt)

lemma cut_eqI:
  assumes "k \<le> n" "\<And>i. i < k \<Longrightarrow> p i" "k < n \<Longrightarrow> \<not> p k"
  shows "cut p n = k"
proof (rule ccontr)
  assume "cut p n \<noteq> k"
  then consider "cut p n < k" | "k < cut p n" by linarith
  then show False
  proof cases
    case 1
    then show False using assms(1,2) cut_fail [of p n] by auto
  next
    case 2
    then show False using assms(3) cut_pass [of k p n] cut_le [of p n] by auto
  qed
qed

lemma first_pass_cut: "first_pass p n \<Longrightarrow> i < n \<Longrightarrow> p i \<longleftrightarrow> i < cut p n"
  using cut_fail [of p n] cut_pass [of i p n] unfolding first_pass_def
  by (metis le_less_trans linorder_neqE_nat not_less)

lemma cut_mono: "(\<And>i. i < n \<Longrightarrow> p i \<Longrightarrow> q i) \<Longrightarrow> cut p n \<le> cut q n"
  by (metis cut_fail cut_le cut_pass leI order_less_le_trans)

lemma cut_nth: "cut (\<lambda>i. p (xs ! i)) (length xs) = length (takeWhile p xs)"
  by (rule cut_eqI)
     (auto simp: length_takeWhile_le nth_length_takeWhile dest: nth_mem set_takeWhileD,
      metis nth_mem set_takeWhileD takeWhile_nth)

text \<open>On a range read without a panic whose passing indices come first, bisection finds the cut;
  without that order it still returns an index within the range.\<close>

lemma bisect_cut:
  assumes "\<And>i. i < n \<Longrightarrow> below i = Some (p i)" "first_pass p n"
    and "lo \<le> cut p n" "cut p n \<le> hi" "hi \<le> n"
  shows "bisect below lo hi = Some (cut p n)"
  using assms(3-5)
proof (induction "hi - lo" arbitrary: lo hi rule: less_induct)
  case less
  let ?mid = "lo + (hi - lo) div 2"
  show ?case
  proof (cases "lo < hi")
    case True
    then have mid: "lo \<le> ?mid" "?mid < hi" "?mid < n" using less.prems by auto
    note here = first_pass_cut [OF assms(2) mid(3)]
    show ?thesis
    proof (cases "p ?mid")
      case pass: True
      then have "bisect below (?mid + 1) hi = Some (cut p n)"
        using less.hyps [of hi "?mid + 1"] less.prems here mid True by simp
      then show ?thesis
        using True pass assms(1) [OF mid(3)] by (simp add: bisect.simps [of below lo] Let_def)
    next
      case False
      then have "bisect below lo ?mid = Some (cut p n)"
        using less.hyps [of ?mid lo] less.prems here mid True by simp
      then show ?thesis
        using True False assms(1) [OF mid(3)] by (simp add: bisect.simps [of below lo] Let_def)
    qed
  qed (use less.prems in \<open>simp add: bisect.simps [of below lo]\<close>)
qed

lemma partition_cut:
  assumes "\<And>i. i < n \<Longrightarrow> below i = Some (p i)" "first_pass p n"
  shows "partition n below = Some (cut p n)"
  unfolding partition_def by (rule bisect_cut [OF assms]) (simp_all add: cut_le)

lemma bisect_total:
  assumes "\<And>i. i < n \<Longrightarrow> below i \<noteq> None" "lo \<le> hi" "hi \<le> n"
  shows "\<exists>k. bisect below lo hi = Some k \<and> lo \<le> k \<and> k \<le> hi"
  using assms(2,3)
proof (induction "hi - lo" arbitrary: lo hi rule: less_induct)
  case less
  let ?mid = "lo + (hi - lo) div 2"
  show ?case
  proof (cases "lo < hi")
    case True
    then have mid: "lo \<le> ?mid" "?mid < hi" "?mid < n" using less.prems by auto
    then obtain b where b: "below ?mid = Some b" using assms(1) by blast
    have "\<exists>k. bisect below (?mid + 1) hi = Some k \<and> ?mid + 1 \<le> k \<and> k \<le> hi"
      using less.hyps [of hi "?mid + 1"] less.prems mid True by simp
    moreover have "\<exists>k. bisect below lo ?mid = Some k \<and> lo \<le> k \<and> k \<le> ?mid"
      using less.hyps [of ?mid lo] less.prems mid True by simp
    ultimately show ?thesis
      using True b mid by (cases b) (auto simp: bisect.simps [of below lo] Let_def)
  next
    case False
    then show ?thesis using less.prems bisect.simps [of below lo hi] by simp
  qed
qed

section \<open>The interpolating search\<close>

definition INTERPOLATION_STEPS :: nat where
  "INTERPOLATION_STEPS = 4"

definition INTERPOLATION_MIN :: nat where
  "INTERPOLATION_MIN = 16"

text \<open>A probe reads a value and notes the first position found holding one above the needle.\<close>

definition probe :: "(nat \<Rightarrow> nat option) \<Rightarrow> nat \<Rightarrow> nat \<Rightarrow> nat \<Rightarrow> (nat \<times> nat) option" where
  "probe val needle past i =
     do { v \<leftarrow> val i; Some (v, if needle < v \<and> i < past then i else past) }"

text \<open>The three loops: bisect until a probe has landed on each side of the needle, split by value,
  bisect what is left.\<close>

function bracket ::
    "(nat \<Rightarrow> nat option) \<Rightarrow> nat \<Rightarrow> nat \<Rightarrow> nat \<Rightarrow> nat \<Rightarrow> nat option \<Rightarrow> nat option \<Rightarrow>
       (nat \<times> nat \<times> nat \<times> nat option \<times> nat option) option" where
  "bracket val needle lo hi past below at =
     (if lo < hi \<and> (below = None \<or> at = None) then
        do {
          let mid = lo + (hi - lo) div 2;
          (v, past) \<leftarrow> probe val needle past mid;
          if v < needle then bracket val needle (mid + 1) hi past (Some v) at
          else bracket val needle lo mid past below (Some v)
        }
      else Some (lo, hi, past, below, at))"
  by pat_completeness auto
termination
  by (relation "measure (\<lambda>(val, needle, lo, hi, past, below, at). hi - lo)") auto

declare bracket.simps [simp del]

definition clamp :: "nat \<Rightarrow> nat \<Rightarrow> nat \<Rightarrow> nat option" where
  "clamp x lo hi = (if lo \<le> hi then Some (max lo (min x hi)) else None)"

fun interpolate ::
    "nat \<Rightarrow> (nat \<Rightarrow> nat option) \<Rightarrow> nat \<Rightarrow> nat \<Rightarrow> nat \<Rightarrow> nat \<Rightarrow> nat \<Rightarrow> nat \<Rightarrow>
       (nat \<times> nat \<times> nat) option" where
  "interpolate 0 val needle lo hi past b a = Some (lo, hi, past)"
| "interpolate (Suc steps) val needle lo hi past b a =
     do {
       width \<leftarrow> usub hi lo;
       spread \<leftarrow> (if width \<le> INTERPOLATION_MIN then Some 0 else usub a b);
       if width \<le> INTERPOLATION_MIN \<or> spread < width div 4 then Some (lo, hi, past)
       else do {
         rise \<leftarrow> usub needle b;
         ahead \<leftarrow> udiv (rise * (width + 1)) spread;
         before \<leftarrow> usub lo 1;
         split \<leftarrow> clamp (before + ahead) lo (hi - 1);
         (v, past) \<leftarrow> probe val needle past split;
         if v < needle then interpolate steps val needle (split + 1) hi past v a
         else interpolate steps val needle lo split past b v
       }
     }"

function finish_search ::
    "(nat \<Rightarrow> nat option) \<Rightarrow> nat \<Rightarrow> nat \<Rightarrow> nat \<Rightarrow> nat \<Rightarrow> (nat \<times> nat) option" where
  "finish_search val needle lo hi past =
     (if lo < hi then
        do {
          let mid = lo + (hi - lo) div 2;
          (v, past) \<leftarrow> probe val needle past mid;
          if v < needle then finish_search val needle (mid + 1) hi past
          else finish_search val needle lo mid past
        }
      else Some (lo, past))"
  by pat_completeness auto
termination
  by (relation "measure (\<lambda>(val, needle, lo, hi, past). hi - lo)") auto

declare finish_search.simps [simp del]

definition search_ascending_capped ::
    "nat \<Rightarrow> (nat \<Rightarrow> nat option) \<Rightarrow> nat \<Rightarrow> (nat \<times> nat) option" where
  "search_ascending_capped n val needle =
     do {
       (lo, hi, past, below, at) \<leftarrow> bracket val needle 0 n n None None;
       (lo, hi, past) \<leftarrow> (case (below, at) of
           (Some b, Some a) \<Rightarrow> interpolate INTERPOLATION_STEPS val needle lo hi past b a
         | _ \<Rightarrow> Some (lo, hi, past));
       finish_search val needle lo hi past
     }"

definition search_ascending :: "nat \<Rightarrow> (nat \<Rightarrow> nat option) \<Rightarrow> nat \<Rightarrow> nat option" where
  "search_ascending n val needle = map_option fst (search_ascending_capped n val needle)"

text \<open>What every loop keeps of its window: it lies in the range, a noted position holds a value above
  the needle and does not lie before the window's end, and on ascending values the window holds the
  answer.\<close>

definition window ::
    "nat \<Rightarrow> (nat \<Rightarrow> nat) \<Rightarrow> nat \<Rightarrow> nat \<Rightarrow> nat \<Rightarrow> nat \<Rightarrow> bool" where
  "window n g needle lo hi past \<longleftrightarrow>
     lo \<le> hi \<and> hi \<le> past \<and> past \<le> n \<and> (past < n \<longrightarrow> needle < g past) \<and>
     (first_pass (\<lambda>i. g i < needle) n \<longrightarrow>
        lo \<le> cut (\<lambda>i. g i < needle) n \<and> cut (\<lambda>i. g i < needle) n \<le> hi)"

lemma probe_Some: "val i = Some v \<Longrightarrow>
  probe val needle past i = Some (v, if needle < v \<and> i < past then i else past)"
  by (simp add: probe_def)

lemma window_low:
  assumes "window n g needle lo hi past" "lo \<le> i" "i < hi" "g i < needle"
  shows "window n g needle (i + 1) hi (if needle < g i \<and> i < past then i else past)"
  using assms first_pass_cut [of "\<lambda>i. g i < needle" n i] by (auto simp: window_def)

lemma window_high:
  assumes "window n g needle lo hi past" "lo \<le> i" "i < hi" "\<not> g i < needle"
  shows "window n g needle lo i (if needle < g i \<and> i < past then i else past)"
  using assms first_pass_cut [of "\<lambda>i. g i < needle" n i] by (auto simp: window_def)

lemma bracket_window:
  assumes reads: "\<And>i. i < n \<Longrightarrow> val i = Some (g i)"
    and "window n g needle lo hi past"
    and "\<forall>b. below = Some b \<longrightarrow> b < needle \<and> 0 < lo"
    and "\<forall>a. at = Some a \<longrightarrow> needle \<le> a"
  shows "\<exists>lo' hi' past' below' at'.
    bracket val needle lo hi past below at = Some (lo', hi', past', below', at') \<and>
    window n g needle lo' hi' past' \<and>
    (\<forall>b. below' = Some b \<longrightarrow> b < needle \<and> 0 < lo') \<and> (\<forall>a. at' = Some a \<longrightarrow> needle \<le> a)"
  using assms(2-)
proof (induction "hi - lo" arbitrary: lo hi past below at rule: less_induct)
  case less
  let ?mid = "lo + (hi - lo) div 2"
  show ?case
  proof (cases "lo < hi \<and> (below = None \<or> at = None)")
    case True
    then have mid: "lo \<le> ?mid" "?mid < hi" "?mid < n" using less.prems(1) by (auto simp: window_def)
    have dec: "hi - (?mid + 1) < hi - lo" "?mid - lo < hi - lo" using mid by linarith+
    let ?past = "if needle < g ?mid \<and> ?mid < past then ?mid else past"
    have probe: "probe val needle past ?mid = Some (g ?mid, ?past)"
      by (rule probe_Some) (rule reads [OF mid(3)])
    show ?thesis
    proof (cases "g ?mid < needle")
      case low: True
      have "bracket val needle lo hi past below at =
          bracket val needle (?mid + 1) hi ?past (Some (g ?mid)) at"
        using True low probe by (simp add: bracket.simps [of val needle lo] Let_def)
      then show ?thesis
        using less.hyps [OF dec(1), of ?past "Some (g ?mid)" at] mid low less.prems(3)
          window_low [OF less.prems(1) mid(1,2) low] by simp
    next
      case high: False
      have "bracket val needle lo hi past below at =
          bracket val needle lo ?mid ?past below (Some (g ?mid))"
        using True high probe by (simp add: bracket.simps [of val needle lo] Let_def)
      then show ?thesis
        using less.hyps [OF dec(2), of ?past below "Some (g ?mid)"] mid high less.prems(2)
          window_high [OF less.prems(1) mid(1,2) high] by simp
    qed
  next
    case False
    then have "bracket val needle lo hi past below at = Some (lo, hi, past, below, at)"
      by (subst bracket.simps) (simp only: False if_False)
    then show ?thesis using less.prems by auto
  qed
qed

lemma finish_search_window:
  assumes reads: "\<And>i. i < n \<Longrightarrow> val i = Some (g i)" and "window n g needle lo hi past"
  shows "\<exists>k past'. finish_search val needle lo hi past = Some (k, past') \<and>
    window n g needle k k past'"
  using assms(2-)
proof (induction "hi - lo" arbitrary: lo hi past rule: less_induct)
  case less
  let ?mid = "lo + (hi - lo) div 2"
  show ?case
  proof (cases "lo < hi")
    case True
    then have mid: "lo \<le> ?mid" "?mid < hi" "?mid < n" using less.prems by (auto simp: window_def)
    have dec: "hi - (?mid + 1) < hi - lo" "?mid - lo < hi - lo" using mid by linarith+
    let ?past = "if needle < g ?mid \<and> ?mid < past then ?mid else past"
    have probe: "probe val needle past ?mid = Some (g ?mid, ?past)"
      by (rule probe_Some) (rule reads [OF mid(3)])
    show ?thesis
    proof (cases "g ?mid < needle")
      case low: True
      have "finish_search val needle lo hi past = finish_search val needle (?mid + 1) hi ?past"
        using True low probe by (simp add: finish_search.simps [of val needle lo] Let_def)
      then show ?thesis
        using less.hyps [OF dec(1), of ?past] mid window_low [OF less.prems mid(1,2) low] by simp
    next
      case high: False
      have "finish_search val needle lo hi past = finish_search val needle lo ?mid ?past"
        using True high probe by (simp add: finish_search.simps [of val needle lo] Let_def)
      then show ?thesis
        using less.hyps [OF dec(2), of ?past] mid window_high [OF less.prems mid(1,2) high] by simp
    qed
  next
    case False
    then have "hi = lo" using less.prems by (simp add: window_def)
    moreover have "finish_search val needle lo hi past = Some (lo, past)"
      using False by (subst finish_search.simps) simp
    ultimately show ?thesis using less.prems by simp
  qed
qed

lemma interpolate_window:
  assumes reads: "\<And>i. i < n \<Longrightarrow> val i = Some (g i)" and "window n g needle lo hi past" "b < needle" "needle \<le> a" "0 < lo"
  shows "\<exists>lo' hi' past'. interpolate steps val needle lo hi past b a = Some (lo', hi', past') \<and>
    window n g needle lo' hi' past'"
  using assms(2-)
proof (induction steps arbitrary: lo hi past b a)
  case 0
  then show ?case by simp
next
  case (Suc steps)
  have hi: "lo \<le> hi" "hi \<le> n" and ba: "b \<le> a" "b \<le> needle"
    using Suc.prems by (auto simp: window_def)
  show ?case
  proof (cases "hi - lo \<le> INTERPOLATION_MIN \<or> a - b < (hi - lo) div 4")
    case True
    then show ?thesis using Suc.prems(1) hi ba by auto
  next
    case False
    define split where "split = max lo (min (lo - 1 + (needle - b) * (hi - lo + 1) div (a - b)) (hi - 1))"
    let ?past = "if needle < g split \<and> split < past then split else past"
    have wide: "lo < hi" "a - b \<noteq> 0" using False by (auto simp: INTERPOLATION_MIN_def)
    then have split: "lo \<le> split" "split < hi" unfolding split_def by linarith+
    then have "split < n" using hi by linarith
    note split = split this
    have probe: "probe val needle past split = Some (g split, ?past)"
      by (rule probe_Some) (rule reads [OF split(3)])
    have step: "interpolate (Suc steps) val needle lo hi past b a =
        (if g split < needle then interpolate steps val needle (split + 1) hi ?past (g split) a
         else interpolate steps val needle lo split ?past b (g split))"
    proof -
      have "clamp (lo - 1 + (needle - b) * (hi - lo + 1) div (a - b)) lo (hi - 1) = Some split"
        using wide(1) by (simp only: clamp_def split_def) simp
      moreover have "(hi - lo \<le> INTERPOLATION_MIN) = False" "(a - b < (hi - lo) div 4) = False"
        using False by simp_all
      moreover have "usub hi lo = Some (hi - lo)" "usub a b = Some (a - b)"
        "usub needle b = Some (needle - b)" "usub lo 1 = Some (lo - 1)"
        using hi ba Suc.prems(4) by (simp_all add: Suc_leI)
      moreover have "udiv x (a - b) = Some (x div (a - b))" for x using wide(2) by simp
      ultimately show ?thesis
        by (simp only: interpolate.simps probe Option.bind.bind_lunit if_False simp_thms prod.case)
    qed
    show ?thesis
    proof (cases "g split < needle")
      case low: True
      then show ?thesis
        using Suc.IH [of "split + 1" hi ?past "g split" a] Suc.prems(3)
          window_low [OF Suc.prems(1) split(1,2) low] step by simp
    next
      case high: False
      then show ?thesis
        using Suc.IH [of lo split ?past b "g split"] Suc.prems(2,4)
          window_high [OF Suc.prems(1) split(1,2) high] step by simp
    qed
  qed
qed

lemma search_window:
  assumes reads: "\<And>i. i < n \<Longrightarrow> val i = Some (g i)"
  shows "\<exists>k past. search_ascending_capped n val needle = Some (k, past) \<and> window n g needle k k past"
proof -
  have start: "window n g needle 0 n n" by (simp add: window_def cut_le)
  obtain lo hi past below at where
    br: "bracket val needle 0 n n None None = Some (lo, hi, past, below, at)" and
    w: "window n g needle lo hi past" and
    ends: "\<forall>b. below = Some b \<longrightarrow> b < needle \<and> 0 < lo" "\<forall>a. at = Some a \<longrightarrow> needle \<le> a"
    using bracket_window [where n = n and val = val and g = g, OF reads start, of None None] by fastforce
  have "\<exists>lo' hi' past'. (case (below, at) of
        (Some b, Some a) \<Rightarrow> interpolate INTERPOLATION_STEPS val needle lo hi past b a
      | _ \<Rightarrow> Some (lo, hi, past)) = Some (lo', hi', past') \<and> window n g needle lo' hi' past'"
  proof (cases "below = None \<or> at = None")
    case True
    then show ?thesis using w by (auto split: option.splits)
  next
    case False
    then obtain b a where "below = Some b" "at = Some a" by auto
    then show ?thesis
      using interpolate_window [where n = n and val = val and g = g, OF reads w, of b a INTERPOLATION_STEPS] ends by simp
  qed
  then obtain lo' hi' past' where
    mid: "(case (below, at) of
        (Some b, Some a) \<Rightarrow> interpolate INTERPOLATION_STEPS val needle lo hi past b a
      | _ \<Rightarrow> Some (lo, hi, past)) = Some (lo', hi', past')" and
    w': "window n g needle lo' hi' past'"
    by blast
  have "\<exists>k p. finish_search val needle lo' hi' past' = Some (k, p) \<and> window n g needle k k p"
    by (rule finish_search_window [OF _ w']) (rule reads)
  then show ?thesis
    by (simp only: search_ascending_capped_def br Option.bind.bind_lunit prod.case
        mid [unfolded prod.case])
qed

text \<open>On a range of values read without a panic, the search does not panic whatever their order; on
  ascending values it returns the bisection's answer, and its cap bounds the needle's rows.\<close>

abbreviation rises :: "nat \<Rightarrow> (nat \<Rightarrow> nat) \<Rightarrow> bool" where
  "rises n g \<equiv> \<forall>i j. i \<le> j \<longrightarrow> j < n \<longrightarrow> g i \<le> g j"

lemma rises_first_pass:
  assumes "rises n g"
  shows "first_pass (\<lambda>i. g i < x) n" "first_pass (\<lambda>i. g i \<le> x) n"
  unfolding first_pass_def using assms by (meson le_less_trans less_imp_le order_trans)+

lemma search_capped_Some:
  assumes reads: "\<And>i. i < n \<Longrightarrow> val i = Some (g i)" and "rises n g"
  obtains past where "search_ascending_capped n val needle = Some (cut (\<lambda>i. g i < needle) n, past)"
    "cut (\<lambda>i. g i \<le> needle) n \<le> past" "past \<le> n"
proof -
  obtain k past where s: "search_ascending_capped n val needle = Some (k, past)"
    and w: "window n g needle k k past" using search_window [where n = n and val = val and g = g, OF reads] by blast
  have k: "k = cut (\<lambda>i. g i < needle) n"
    using w rises_first_pass(1) [OF assms(2)] by (auto simp: window_def)
  have "cut (\<lambda>i. g i \<le> needle) n \<le> past"
  proof (cases "past < n")
    case True
    then have "\<not> g past \<le> needle" using w by (simp add: window_def)
    then show ?thesis
      using True first_pass_cut [OF rises_first_pass(2) [OF assms(2)], of past needle] by simp
  next
    case False
    then show ?thesis using w cut_le [of _ n] by (simp add: window_def)
  qed
  then show thesis using that s k w by (simp add: window_def)
qed

lemma search_ascending_Some:
  assumes "\<And>i. i < n \<Longrightarrow> val i = Some (g i)" "rises n g"
  shows "search_ascending n val needle = Some (cut (\<lambda>i. g i < needle) n)"
  using search_capped_Some [OF assms, of needle] by (auto simp: search_ascending_def)

text \<open>C22. The interpolating search over ascending values returns what bisection returns, the first
  index whose value is not below the needle, and a cap at or after the end of the needle's rows
  that is the range's end or holds a larger value; over values in any order, read without a panic,
  it still returns, within the range.\<close>

theorem search_ascending_bisects:
  assumes reads: "\<And>i. i < n \<Longrightarrow> val i = Some (g i)"
  shows "\<exists>k past. search_ascending_capped n val needle = Some (k, past) \<and>
    k \<le> past \<and> past \<le> n \<and> (past < n \<longrightarrow> needle < g past) \<and>
    (rises n g \<longrightarrow> partition n (\<lambda>i. Some (g i < needle)) = Some k \<and>
       cut (\<lambda>i. g i \<le> needle) n \<le> past)"
proof -
  obtain k past where s: "search_ascending_capped n val needle = Some (k, past)"
    and w: "window n g needle k k past" using search_window [where n = n and val = val and g = g, OF reads] by blast
  have "partition n (\<lambda>i. Some (g i < needle)) = Some k \<and> cut (\<lambda>i. g i \<le> needle) n \<le> past"
    if up: "rises n g"
  proof -
    obtain past' where *: "search_ascending_capped n val needle = Some (cut (\<lambda>i. g i < needle) n, past')"
      "cut (\<lambda>i. g i \<le> needle) n \<le> past'" by (rule search_capped_Some [where n = n and val = val and g = g and needle = needle, OF reads up])
    have "partition n (\<lambda>i. Some (g i < needle)) = Some (cut (\<lambda>i. g i < needle) n)"
      by (rule partition_cut [OF _ rises_first_pass(1) [OF up]]) simp
    then show ?thesis using * s by simp
  qed
  then show ?thesis using s w by (auto simp: window_def)
qed

theorem search_ascending_bisects_witness:
  "\<exists>k past. search_ascending_capped 3 (\<lambda>i. Some (10 * i)) 15 = Some (k, past) \<and> k \<le> past"
  using search_ascending_bisects [of 3 "\<lambda>i. Some (10 * i)" "\<lambda>i. 10 * i" 15] by auto

section \<open>What an equality search gathers\<close>

text \<open>The three gatherers of the source: a count, the offsets, and the codes a dictionary holds a
  needle under (none, one or several).\<close>

datatype code_of = NoCode | OneCode nat | SeveralCodes

datatype sink = Count nat | Offsets "nat list" | Codes code_of

fun code_add :: "nat \<Rightarrow> code_of \<Rightarrow> code_of" where
  "code_add code NoCode = OneCode code"
| "code_add code _ = SeveralCodes"

fun sink_run :: "nat \<Rightarrow> nat \<Rightarrow> sink \<Rightarrow> sink" where
  "sink_run lo hi (Count c) = Count (c + (hi - lo))"
| "sink_run lo hi (Offsets os) = Offsets (os @ [lo..<hi])"
| "sink_run lo hi (Codes cs) = Codes (fold code_add (take 2 [lo..<hi]) cs)"

text \<open>Narrow words are tallied in a byte, a block of 255 at a time; \<open>bytes\<close> is the bytes of a word.\<close>

definition U8_MAX :: nat where
  "U8_MAX = 255"

function tally_blocks :: "'a \<Rightarrow> 'a list \<Rightarrow> nat" where
  "tally_blocks needle values =
     (if values = [] then 0
      else fold (\<lambda>v tally. (tally + (if v = needle then 1 else 0)) mod 256) (take U8_MAX values) 0 +
        tally_blocks needle (drop U8_MAX values))"
  by pat_completeness auto
termination
  by (relation "measure (\<lambda>(needle, values). length values)") (auto simp: U8_MAX_def)

declare tally_blocks.simps [simp del]

definition match_offsets :: "nat \<Rightarrow> nat list \<Rightarrow> nat \<Rightarrow> nat list" where
  "match_offsets at values needle =
     map (\<lambda>(k, v). at + k) (filter (\<lambda>(k, v). v = needle) (enumerate 0 values))"

fun sink_matching :: "nat \<Rightarrow> nat \<Rightarrow> nat list \<Rightarrow> nat \<Rightarrow> sink \<Rightarrow> sink" where
  "sink_matching bytes at values needle (Count c) =
     Count (c + (if bytes < 8 then tally_blocks needle values
                 else length (filter (\<lambda>v. v = needle) values)))"
| "sink_matching bytes at values needle (Offsets os) =
     Offsets (os @ match_offsets at values needle)"
| "sink_matching bytes at values needle (Codes cs) =
     Codes (fold code_add (match_offsets at values needle) cs)"

text \<open>The trait's contract: whatever a gatherer keeps, it keeps it of the matching offsets one by
  one, in order.\<close>

locale eq_sink =
  fixes run :: "nat \<Rightarrow> nat \<Rightarrow> 's \<Rightarrow> 's"
    and matching :: "nat \<Rightarrow> nat \<Rightarrow> nat list \<Rightarrow> nat \<Rightarrow> 's \<Rightarrow> 's"
    and one :: "nat \<Rightarrow> 's \<Rightarrow> 's"
  assumes run_each: "run lo hi s = fold one [lo..<hi] s"
    and matching_each: "matching bytes at values needle s =
      fold one (map (\<lambda>k. at + k) (filter (\<lambda>k. values ! k = needle) [0..<length values])) s"
begin

text \<open>Handing a window over in two parts is handing it over whole.\<close>

lemma run_split: "lo \<le> mid \<Longrightarrow> mid \<le> hi \<Longrightarrow> run mid hi (run lo mid s) = run lo hi s"
  by (simp add: run_each upt_split [of lo mid hi])

lemma run_empty: "hi \<le> lo \<Longrightarrow> run lo hi s = s"
  by (simp add: run_each)

lemma matching_append:
  "matching bytes (at + length xs) ys needle (matching bytes at xs needle s) =
   matching bytes at (xs @ ys) needle s"
proof -
  have "[0..<length (xs @ ys)] = [0..<length xs] @ map (\<lambda>k. length xs + k) [0..<length ys]"
    using upt_add_eq_append [of 0 "length xs" "length ys"] by (simp add: map_add_upt add.commute)
  moreover have "filter (\<lambda>k. (xs @ ys) ! k = needle) [0..<length xs] =
      filter (\<lambda>k. xs ! k = needle) [0..<length xs]"
    by (rule filter_cong) (simp_all add: nth_append)
  moreover have "filter (\<lambda>k. (xs @ ys) ! k = needle) (map (\<lambda>k. length xs + k) [0..<length ys]) =
      map (\<lambda>k. length xs + k) (filter (\<lambda>k. ys ! k = needle) [0..<length ys])"
    by (simp add: filter_map comp_def nth_append)
  ultimately have "filter (\<lambda>k. (xs @ ys) ! k = needle) [0..<length (xs @ ys)] =
      filter (\<lambda>k. xs ! k = needle) [0..<length xs] @
      map (\<lambda>k. length xs + k) (filter (\<lambda>k. ys ! k = needle) [0..<length ys])"
    by (simp only: filter_append)
  then show ?thesis by (simp add: matching_each add.assoc comp_def)
qed

lemma matching_const: "matching bytes at (replicate n x) x s = run at (at + n) s"
proof -
  have "map (\<lambda>k. at + k) [0..<n] = [at..<at + n]" by (simp add: map_add_upt add.commute)
  moreover have "filter (\<lambda>k. replicate n x ! k = x) [0..<n] = [0..<n]" by (simp add: filter_True)
  ultimately show ?thesis by (simp add: matching_each run_each)
qed

lemma matching_none: "needle \<notin> set values \<Longrightarrow> matching bytes at values needle s = s"
proof -
  assume "needle \<notin> set values"
  then have "filter (\<lambda>k. values ! k = needle) [0..<length values] = []"
    by (auto simp: filter_empty_conv)
  then show ?thesis by (simp add: matching_each)
qed

lemma matching_bytes: "matching bytes at values needle s = matching bytes' at values needle s"
  by (simp add: matching_each)

end

text \<open>The source's gatherers keep the contract.\<close>

lemma tally_byte:
  "t + length vs < 256 \<Longrightarrow>
   fold (\<lambda>v tally. (tally + (if v = needle then 1 else 0)) mod 256) vs t =
     t + length (filter (\<lambda>v. v = needle) vs)"
  by (induction vs arbitrary: t) auto

lemma tally_blocks_count: "tally_blocks needle values = length (filter (\<lambda>v. v = needle) values)"
proof (induction needle "values" rule: tally_blocks.induct)
  case (1 needle vs)
  have "length (filter (\<lambda>v. v = needle) vs) =
      length (filter (\<lambda>v. v = needle) (take U8_MAX vs @ drop U8_MAX vs))"
    by (simp only: append_take_drop_id)
  then show ?case
    using 1 tally_byte [of 0 "take U8_MAX vs" needle]
    by (subst tally_blocks.simps) (simp add: U8_MAX_def filter_append del: append_take_drop_id)
qed

lemma fold_code_add: "fold code_add cs SeveralCodes = SeveralCodes"
  by (induction cs) auto

lemma fold_code_take: "fold code_add (take 2 cs) c = fold code_add cs c"
  by (cases cs; cases c; cases "tl cs") (auto simp: fold_code_add numeral_2_eq_2)

fun sink_one :: "nat \<Rightarrow> sink \<Rightarrow> sink" where
  "sink_one k (Count c) = Count (Suc c)"
| "sink_one k (Offsets os) = Offsets (os @ [k])"
| "sink_one k (Codes cs) = Codes (code_add k cs)"

lemma sink_one_fold:
  "fold sink_one ks (Count c) = Count (c + length ks)"
  "fold sink_one ks (Offsets os) = Offsets (os @ ks)"
  "fold sink_one ks (Codes cs) = Codes (fold code_add ks cs)"
  by (induction ks arbitrary: c os cs) auto

lemma match_offsets_eq:
  "match_offsets at values needle =
   map (\<lambda>k. at + k) (filter (\<lambda>k. values ! k = needle) [0..<length values])"
proof -
  have "enumerate 0 values = map (\<lambda>k. (k, values ! k)) [0..<length values]"
    using enumerate_map_index [of id "values"] by simp
  then show ?thesis by (simp add: match_offsets_def filter_map comp_def)
qed

lemma length_match_offsets:
  "length (filter (\<lambda>v. v = needle) values) = length (match_offsets at values needle)"
proof -
  have "length (filter (\<lambda>v. v = needle) vs) =
      length (filter (\<lambda>(k, v). v = needle) (enumerate n vs))" for n vs
    by (induction vs arbitrary: n) auto
  then show ?thesis by (simp add: match_offsets_def)
qed

interpretation sink: eq_sink sink_run sink_matching sink_one
proof unfold_locales
  show "sink_run lo hi s = fold sink_one [lo..<hi] s" for lo hi s
    by (cases s) (simp_all add: sink_one_fold fold_code_take)
  show "sink_matching bytes at values needle s =
      fold sink_one (map (\<lambda>k. at + k) (filter (\<lambda>k. values ! k = needle) [0..<length values])) s"
    for bytes at "values" needle s
    by (cases s) (simp_all add: sink_one_fold match_offsets_eq [symmetric] tally_blocks_count
        length_match_offsets [of needle "values" at])
qed

end
