(* ===== verification/Nodes.thy ===== *)
theory Nodes
  imports Search "HOL-Library.Word"
begin

text \<open>
  The probe tree of the encoded columns (\<open>src/encoded-search/src\<close>: \<open>words.rs\<close>,
  \<open>bitpacked.rs\<close>, \<open>delta.rs\<close>, \<open>node.rs\<close>). A node mirrors one encoded array: it is read a value
  at a time or a window at a time, searched for the rows equal to a needle, and, where its values
  ascend, for a needle's bounds, without being decoded. The FastLanes kernels are another
  package's: they are the record of functions \<open>kernels\<close>, an argument of every definition that
  uses them. A read that panics (an index out of range, a machine subtraction below zero) is
  \<^term>\<open>None\<close>. The caches of a decoded block and of a chunk's last value hold the value of a pure
  read and are not modelled; a mutable output slice is the list written to it.
\<close>

section \<open>Word buffers\<close>

datatype words = U8 "8 word list" | U16 "16 word list" | U32 "32 word list" | U64 "64 word list"

fun word_bytes :: "words \<Rightarrow> nat" where
  "word_bytes (U8 ws) = 1"
| "word_bytes (U16 ws) = 2"
| "word_bytes (U32 ws) = 4"
| "word_bytes (U64 ws) = 8"

fun words_len :: "words \<Rightarrow> nat" where
  "words_len (U8 ws) = length ws"
| "words_len (U16 ws) = length ws"
| "words_len (U32 ws) = length ws"
| "words_len (U64 ws) = length ws"

text \<open>The words, widened.\<close>

fun word_values :: "words \<Rightarrow> nat list" where
  "word_values (U8 ws) = map unat ws"
| "word_values (U16 ws) = map unat ws"
| "word_values (U32 ws) = map unat ws"
| "word_values (U64 ws) = map unat ws"

definition words_get :: "words \<Rightarrow> nat \<Rightarrow> nat option" where
  "words_get w i = buf_get (word_values w) i"

definition words_read_into :: "words \<Rightarrow> nat \<Rightarrow> nat \<Rightarrow> nat list option" where
  "words_read_into w start n = buf_slice (word_values w) start (start + n)"

text \<open>Whether a needle fits the words (\<open>T::try_from\<close>).\<close>

definition fits_word :: "nat \<Rightarrow> nat \<Rightarrow> bool" where
  "fits_word bytes needle \<longleftrightarrow> needle < 2 ^ (8 * bytes)"

definition words_eq_into :: "words \<Rightarrow> nat \<Rightarrow> nat \<Rightarrow> nat \<Rightarrow> nat \<Rightarrow> sink \<Rightarrow> sink option" where
  "words_eq_into w start len needle base s =
     do {
       ws \<leftarrow> buf_slice (word_values w) start (start + len);
       Some (if fits_word (word_bytes w) needle then sink_matching (word_bytes w) base ws needle s
             else s)
     }"

definition words_lower_bound :: "words \<Rightarrow> nat \<Rightarrow> nat" where
  "words_lower_bound w needle =
     (if fits_word (word_bytes w) needle then partition_point (\<lambda>v. v < needle) (word_values w)
      else words_len w)"

section \<open>The tree\<close>

definition FL_CHUNK :: nat where
  "FL_CHUNK = 1024"

text \<open>The FastLanes kernels, by the bytes of the stored words: one value of a packed buffer, a
  whole chunk of 1024 from its words, the values at given positions of a chunk, and the two steps
  that decode a delta block.\<close>

record kernels =
  unpack_single :: "nat \<Rightarrow> nat list \<Rightarrow> nat \<Rightarrow> nat \<Rightarrow> nat"
  unpack_whole :: "nat \<Rightarrow> nat \<Rightarrow> nat list \<Rightarrow> nat list"
  unpack_indices :: "nat \<Rightarrow> nat \<Rightarrow> nat list \<Rightarrow> nat list \<Rightarrow> nat list"
  undelta :: "nat \<Rightarrow> nat list \<Rightarrow> nat list \<Rightarrow> nat list"
  untranspose :: "nat \<Rightarrow> nat list \<Rightarrow> nat list"

datatype delta_width = D8 | D16 | D32 | D64

fun delta_lanes :: "delta_width \<Rightarrow> nat" where
  "delta_lanes D8 = 128"
| "delta_lanes D16 = 64"
| "delta_lanes D32 = 32"
| "delta_lanes D64 = 16"

fun delta_bytes :: "delta_width \<Rightarrow> nat" where
  "delta_bytes D8 = 1"
| "delta_bytes D16 = 2"
| "delta_bytes D32 = 4"
| "delta_bytes D64 = 8"

datatype node =
    Primitive words
  | Constant (const_value: nat) (const_len: nat)
  | Sequence (seq_base: nat) (seq_multiplier: nat) (seq_len: nat)
  | RunEnd (run_ends: node) (run_values: node) (run_offset: nat) (run_len: nat)
  | FoR (for_reference: nat) (for_child: node)
  | ChunkedFoR (cfor_references: node) (cfor_offset: nat) (cfor_child: node)
  | BitPacked packed_node
  | Slice (slice_child: node) (slice_start: nat) (slice_len: nat)
  | Chunked (chunked_chunks: "probe_chunk list") (chunked_len: nat)
  | Dict (dict_codes: node) (dict_values: node)
  | Delta delta_node
  | Sparse (sparse_fill: nat) (sparse_patches: patch_probe) (sparse_len: nat)
  | Rle (rle_values: node) (rle_indices: node) (rle_value_offsets: node) (rle_base: nat)
      (rle_offset: nat) (rle_len: nat)
and packed_node =
    PackedNode (pk_packed: words) (pk_bit_width: nat) (pk_offset: nat) (pk_len: nat)
      (pk_patches: "patch_probe option")
and patch_probe =
    PatchProbe (pp_indices: node) (pp_values: node) (pp_offset: nat)
and delta_node =
    DeltaNode (dn_bases: node) (dn_deltas: node) (dn_width: delta_width) (dn_offset: nat)
      (dn_len: nat)
and probe_chunk =
    Chunk (chunk_start: nat) (chunk_node: node)

primrec node_len :: "node \<Rightarrow> nat"
  and packed_len :: "packed_node \<Rightarrow> nat"
  and delta_len :: "delta_node \<Rightarrow> nat" where
  "node_len (Primitive w) = words_len w"
| "node_len (Constant value len) = len"
| "node_len (Sequence base multiplier len) = len"
| "node_len (RunEnd ends values offset len) = len"
| "node_len (FoR reference child) = node_len child"
| "node_len (ChunkedFoR references offset child) = node_len child"
| "node_len (BitPacked p) = packed_len p"
| "node_len (Slice child start len) = len"
| "node_len (Chunked chunks len) = len"
| "node_len (Dict codes values) = node_len codes"
| "node_len (Delta d) = delta_len d"
| "node_len (Sparse fill patches len) = len"
| "node_len (Rle values indices value_offsets base offset len) = len"
| "packed_len (PackedNode packed bit_width offset len patches) = len"
| "delta_len (DeltaNode bases deltas width offset len) = len"

text \<open>The checks of the two constructors, which the unchecked unpacks rely on.\<close>

definition packed_new ::
    "words \<Rightarrow> nat \<Rightarrow> nat \<Rightarrow> nat \<Rightarrow> patch_probe option \<Rightarrow> packed_node option" where
  "packed_new packed bit_width offset len patches =
     (let bytes = word_bytes packed
      in if 8 * bytes < bit_width then None
         else if usize_max < offset + len then None
         else let chunks = div_ceil (offset + len) FL_CHUNK;
                  words = chunks * (128 * bit_width div bytes)
              in if usize_max < words then None
                 else if words \<le> words_len packed
                 then Some (PackedNode packed bit_width offset len patches)
                 else None)"

definition delta_blocks :: "nat \<Rightarrow> nat \<Rightarrow> nat" where
  "delta_blocks offset len = div_ceil (offset + len) FL_CHUNK"

definition delta_new :: "node \<Rightarrow> node \<Rightarrow> delta_width \<Rightarrow> nat \<Rightarrow> nat \<Rightarrow> delta_node option" where
  "delta_new bases deltas width offset len =
     (if FL_CHUNK \<le> offset then None
      else let blocks = delta_blocks offset len
           in if node_len deltas < blocks * FL_CHUNK \<or> node_len bases < blocks * delta_lanes width
              then None
              else Some (DeltaNode bases deltas width offset len))"

section \<open>Run ends\<close>

text \<open>The runs overlapping a window and the first row of a run, over the reads of the run ends.\<close>

definition window_runs :: "nat \<Rightarrow> (nat \<Rightarrow> nat option) \<Rightarrow> nat \<Rightarrow> nat \<Rightarrow> (nat \<times> nat) option" where
  "window_runs nruns end_at offset len =
     (if len = 0 then Some (0, 0)
      else do {
        whole \<leftarrow> (if offset = 0 \<and> nruns > 0
                   then do { e \<leftarrow> end_at (nruns - 1); Some (e = len) } else Some False);
        if whole then Some (0, nruns)
        else do {
          first \<leftarrow> partition nruns (\<lambda>r. do { e \<leftarrow> end_at r; Some (e \<le> offset) });
          last \<leftarrow> partition nruns (\<lambda>r. do { e \<leftarrow> end_at r; Some (e \<le> offset + len - 1) });
          span \<leftarrow> usub (min (last + 1) nruns) first;
          Some (first, span)
        }
      })"

definition run_start :: "(nat \<Rightarrow> nat option) \<Rightarrow> nat \<Rightarrow> nat \<Rightarrow> nat \<Rightarrow> nat option" where
  "run_start end_at run offset len =
     (if run = 0 then Some 0 else do { e \<leftarrow> end_at (run - 1); Some (min (e - offset) len) })"

definition clamp_to_len :: "nat \<Rightarrow> nat \<Rightarrow> nat" where
  "clamp_to_len q len = (if q \<le> usize_max then min q len else len)"

section \<open>One value\<close>

text \<open>\<open>narrow\<close> is the conversion to a block's stored width, zero for a value that does not fit.\<close>

definition narrow :: "delta_width \<Rightarrow> nat \<Rightarrow> nat" where
  "narrow width v = (if fits_word (delta_bytes width) v then v else 0)"

definition decode_block ::
    "'k kernels_scheme \<Rightarrow> delta_width \<Rightarrow> (nat \<Rightarrow> nat option) \<Rightarrow> (nat \<Rightarrow> nat option) \<Rightarrow> nat \<Rightarrow>
       nat list option" where
  "decode_block fl width base_at delta_at b =
     do {
       ds \<leftarrow> gather delta_at (map (\<lambda>j. b * FL_CHUNK + j) [0..<FL_CHUNK]);
       bs \<leftarrow> gather base_at (map (\<lambda>l. b * delta_lanes width + l) [0..<delta_lanes width]);
       Some (untranspose fl (delta_bytes width)
         (undelta fl (delta_bytes width) (map (narrow width) ds) (map (narrow width) bs)))
     }"

lemma size_buf_get [termination_simp]:
  "buf_get chunks c = Some (Chunk start child) \<Longrightarrow> size child < size_list size chunks"
proof -
  assume "buf_get chunks c = Some (Chunk start child)"
  then have "Chunk start child \<in> set chunks"
    by (auto simp: buf_get_def split: if_splits) (metis nth_mem)
  then have "size (Chunk start child) \<le> size_list size chunks" by (rule size_list_estimation') simp
  then show ?thesis by simp
qed

fun value_at :: "'k kernels_scheme \<Rightarrow> node \<Rightarrow> nat \<Rightarrow> nat option"
  and packed_value_at :: "'k kernels_scheme \<Rightarrow> packed_node \<Rightarrow> nat \<Rightarrow> nat option"
  and patch_lookup :: "'k kernels_scheme \<Rightarrow> patch_probe \<Rightarrow> nat \<Rightarrow> nat option option"
  and delta_value_at :: "'k kernels_scheme \<Rightarrow> delta_node \<Rightarrow> nat \<Rightarrow> nat option"
  and lower_bound :: "'k kernels_scheme \<Rightarrow> node \<Rightarrow> nat \<Rightarrow> nat option" where
  "value_at fl (Primitive w) i = words_get w i"
| "value_at fl (Constant v len) i = Some v"
| "value_at fl (Sequence base multiplier len) i = Some ((base + i * multiplier) mod 2 ^ 64)"
| "value_at fl (RunEnd ends vs offset len) i =
     do {
       run \<leftarrow> partition (node_len ends) (\<lambda>r. do { e \<leftarrow> value_at fl ends r; Some (e \<le> i + offset) });
       value_at fl vs run
     }"
| "value_at fl (FoR reference child) i =
     do { v \<leftarrow> value_at fl child i; Some (sat_add reference v) }"
| "value_at fl (ChunkedFoR references offset child) i =
     do {
       v \<leftarrow> value_at fl child i;
       r \<leftarrow> value_at fl references ((offset + i) div FL_CHUNK);
       Some ((v + r) mod 2 ^ 64)
     }"
| "value_at fl (BitPacked p) i = packed_value_at fl p i"
| "value_at fl (Slice child start len) i = value_at fl child (start + i)"
| "value_at fl (Chunked chunks len) i =
     do {
       after \<leftarrow> partition (length chunks) (\<lambda>c. do { ch \<leftarrow> buf_get chunks c; Some (chunk_start ch \<le> i) });
       c \<leftarrow> usub after 1;
       case buf_get chunks c of
         None \<Rightarrow> None
       | Some (Chunk start child) \<Rightarrow> do { at \<leftarrow> usub i start; value_at fl child at }
     }"
| "value_at fl (Dict codes vs) i = do { code \<leftarrow> value_at fl codes i; value_at fl vs code }"
| "value_at fl (Delta d) i = delta_value_at fl d i"
| "value_at fl (Sparse fill patches len) i =
     do { patched \<leftarrow> patch_lookup fl patches i; Some (case patched of Some v \<Rightarrow> v | None \<Rightarrow> fill) }"
| "value_at fl (Rle vs indices value_offsets base offset len) i =
     do {
       o1 \<leftarrow> value_at fl value_offsets ((offset + i) div FL_CHUNK);
       first \<leftarrow> usub o1 base;
       k \<leftarrow> value_at fl indices (offset + i);
       value_at fl vs (first + k)
     }"
| "packed_value_at fl (PackedNode packed bit_width offset len patches) i =
     do {
       patched \<leftarrow> (case patches of None \<Rightarrow> Some None | Some p \<Rightarrow> patch_lookup fl p i);
       Some (case patched of
           Some v \<Rightarrow> v
         | None \<Rightarrow> if bit_width = 0 then 0
             else unpack_single fl (word_bytes packed) (word_values packed) bit_width (i + offset))
     }"
| "patch_lookup fl (PatchProbe indices vs offset) i =
     do {
       at \<leftarrow> lower_bound fl indices (i + offset);
       found \<leftarrow> (if at < node_len indices
                 then do { k \<leftarrow> value_at fl indices at; Some (k = i + offset) } else Some False);
       if found then do { v \<leftarrow> value_at fl vs at; Some (Some v) } else Some None
     }"
| "delta_value_at fl (DeltaNode bases deltas width offset len) i =
     (if (offset + i) div FL_CHUNK < delta_blocks offset len
      then do {
        block \<leftarrow> decode_block fl width (value_at fl bases) (value_at fl deltas)
          ((offset + i) div FL_CHUNK);
        buf_get block ((offset + i) mod FL_CHUNK)
      }
      else None)"
| "lower_bound fl (Primitive w) needle = Some (words_lower_bound w needle)"
| "lower_bound fl (Constant v len) needle = Some (if v < needle then len else 0)"
| "lower_bound fl (Sequence base multiplier len) needle =
     Some (if needle \<le> base then 0 else clamp_to_len (div_ceil (needle - base) multiplier) len)"
| "lower_bound fl (RunEnd ends vs offset len) needle =
     do {
       (first, span) \<leftarrow> window_runs (node_len ends) (value_at fl ends) offset len;
       k \<leftarrow> search_ascending span (\<lambda>k. value_at fl vs (first + k)) needle;
       run_start (value_at fl ends) (first + k) offset len
     }"
| "lower_bound fl (FoR reference child) needle =
     (if needle \<le> reference then Some 0 else lower_bound fl child (needle - reference))"
| "lower_bound fl (BitPacked p) needle =
     search_ascending (packed_len p) (packed_value_at fl p) needle"
| "lower_bound fl (Slice child start len) needle =
     partition len (\<lambda>i. do { v \<leftarrow> value_at fl child (start + i); Some (v < needle) })"
| "lower_bound fl (Chunked chunks len) needle =
     do {
       c \<leftarrow> partition (length chunks) (\<lambda>c.
         case buf_get chunks c of
           None \<Rightarrow> None
         | Some (Chunk start child) \<Rightarrow>
             do { at \<leftarrow> usub (node_len child) 1; v \<leftarrow> value_at fl child at; Some (v < needle) });
       if c = length chunks then Some len
       else case buf_get chunks c of
           None \<Rightarrow> None
         | Some (Chunk start child) \<Rightarrow> do { k \<leftarrow> lower_bound fl child needle; Some (start + k) }
     }"
| "lower_bound fl (Dict codes vs) needle =
     partition (node_len codes)
       (\<lambda>i. do { code \<leftarrow> value_at fl codes i; v \<leftarrow> value_at fl vs code; Some (v < needle) })"
| "lower_bound fl (Delta d) needle =
     partition (delta_len d) (\<lambda>i. do { v \<leftarrow> delta_value_at fl d i; Some (v < needle) })"
| "lower_bound fl (ChunkedFoR references offset child) needle =
     partition (node_len child) (\<lambda>i. do { v \<leftarrow> value_at fl (ChunkedFoR references offset child) i;
       Some (v < needle) })"
| "lower_bound fl (Sparse fill patches len) needle =
     partition len (\<lambda>i. do { v \<leftarrow> value_at fl (Sparse fill patches len) i; Some (v < needle) })"
| "lower_bound fl (Rle vs indices value_offsets base offset len) needle =
     partition len (\<lambda>i. do { v \<leftarrow> value_at fl (Rle vs indices value_offsets base offset len) i;
       Some (v < needle) })"

end
