(* ===== verification/NodeValues.thy ===== *)
theory NodeValues
  imports Nodes
begin

text \<open>
  What a probe tree stands for and that its point reads and lower bounds are right.
  \<open>decode\<close> gives the values a node encodes, by the meaning of each encoding, and \<open>wf_node\<close> what
  the construction of a tree promises of it. A point read of a well-formed node returns the decoded
  value; over ascending values the lower bound is the first index whose value is not below the
  needle, found by each node's own search.
\<close>

section \<open>The values a node encodes\<close>

fun expand_runs :: "nat \<Rightarrow> nat list \<Rightarrow> nat list \<Rightarrow> nat list" where
  "expand_runs prev (e # ends) (v # vs) = replicate (e - prev) v @ expand_runs e ends vs"
| "expand_runs prev _ _ = []"

definition apply_patches :: "(nat \<times> nat) list \<Rightarrow> nat list \<Rightarrow> nat list" where
  "apply_patches ps xs = fold (\<lambda>(i, v) xs. xs[i := v]) ps xs"

definition raw_packed :: "'k kernels_scheme \<Rightarrow> words \<Rightarrow> nat \<Rightarrow> nat \<Rightarrow> nat \<Rightarrow> nat list" where
  "raw_packed fl packed bit_width offset len =
     map (\<lambda>i. if bit_width = 0 then 0
              else unpack_single fl (word_bytes packed) (word_values packed) bit_width (i + offset))
       [0..<len]"

definition raw_block ::
    "'k kernels_scheme \<Rightarrow> delta_width \<Rightarrow> nat list \<Rightarrow> nat list \<Rightarrow> nat \<Rightarrow> nat list" where
  "raw_block fl width bs ds b =
     untranspose fl (delta_bytes width) (undelta fl (delta_bytes width)
       (map (narrow width) (take FL_CHUNK (drop (b * FL_CHUNK) ds)))
       (map (narrow width) (take (delta_lanes width) (drop (b * delta_lanes width) bs))))"

fun decode :: "'k kernels_scheme \<Rightarrow> node \<Rightarrow> nat list"
  and decode_packed :: "'k kernels_scheme \<Rightarrow> packed_node \<Rightarrow> nat list"
  and decode_patches :: "'k kernels_scheme \<Rightarrow> patch_probe \<Rightarrow> (nat \<times> nat) list"
  and decode_delta :: "'k kernels_scheme \<Rightarrow> delta_node \<Rightarrow> nat list"
  and decode_chunk :: "'k kernels_scheme \<Rightarrow> probe_chunk \<Rightarrow> nat list" where
  "decode fl (Primitive w) = word_values w"
| "decode fl (Constant v len) = replicate len v"
| "decode fl (Sequence base multiplier len) = map (\<lambda>i. base + i * multiplier) [0..<len]"
| "decode fl (RunEnd ends vs offset len) =
     take len (drop offset (expand_runs 0 (decode fl ends) (decode fl vs)))"
| "decode fl (FoR reference child) = map (\<lambda>v. reference + v) (decode fl child)"
| "decode fl (ChunkedFoR references offset child) =
     map (\<lambda>(i, v). (v + decode fl references ! ((offset + i) div FL_CHUNK)) mod 2 ^ 64)
       (enumerate 0 (decode fl child))"
| "decode fl (BitPacked p) = decode_packed fl p"
| "decode fl (Slice child start len) = take len (drop start (decode fl child))"
| "decode fl (Chunked chunks len) = concat (map (decode_chunk fl) chunks)"
| "decode fl (Dict codes vs) = map (\<lambda>code. decode fl vs ! code) (decode fl codes)"
| "decode fl (Delta d) = decode_delta fl d"
| "decode fl (Sparse fill patches len) =
     apply_patches (decode_patches fl patches) (replicate len fill)"
| "decode fl (Rle vs indices value_offsets base offset len) =
     map (\<lambda>i. decode fl vs ! (decode fl value_offsets ! ((offset + i) div FL_CHUNK) - base +
         decode fl indices ! (offset + i))) [0..<len]"
| "decode_packed fl (PackedNode packed bit_width offset len patches) =
     (case patches of
        None \<Rightarrow> raw_packed fl packed bit_width offset len
      | Some p \<Rightarrow> apply_patches (decode_patches fl p) (raw_packed fl packed bit_width offset len))"
| "decode_patches fl (PatchProbe indices vs offset) =
     zip (map (\<lambda>i. i - offset) (decode fl indices)) (decode fl vs)"
| "decode_delta fl (DeltaNode bases deltas width offset len) =
     take len (drop offset (concat (map (raw_block fl width (decode fl bases) (decode fl deltas))
       [0..<delta_blocks offset len])))"
| "decode_chunk fl (Chunk start child) = decode fl child"

section \<open>What construction promises\<close>

text \<open>The kernels as their package documents them: a whole chunk and the values at positions are
  what single unpacks give, and every kernel answers values of the stored width.\<close>

definition lawful :: "'k kernels_scheme \<Rightarrow> bool" where
  "lawful fl \<longleftrightarrow>
     (\<forall>bytes \<in> {1, 2, 4, 8}. \<forall>bw \<le> 8 * bytes. \<forall>ws.
        (\<forall>i. unpack_single fl bytes ws bw i < 2 ^ (8 * bytes)) \<and>
        (\<forall>c. Suc c * (128 * bw div bytes) \<le> length ws \<longrightarrow>
           unpack_whole fl bytes bw (take (128 * bw div bytes) (drop (c * (128 * bw div bytes)) ws)) =
             map (\<lambda>i. unpack_single fl bytes ws bw (c * FL_CHUNK + i)) [0..<FL_CHUNK])) \<and>
     (\<forall>bytes bw ws ps. (\<forall>i \<in> set ps. i < FL_CHUNK) \<longrightarrow>
        unpack_indices fl bytes bw ws ps = map (\<lambda>i. unpack_whole fl bytes bw ws ! i) ps) \<and>
     (\<forall>bytes \<in> {1, 2, 4, 8}. \<forall>ds bs. length ds = FL_CHUNK \<longrightarrow>
        length (untranspose fl bytes (undelta fl bytes ds bs)) = FL_CHUNK \<and>
        (\<forall>v \<in> set (untranspose fl bytes (undelta fl bytes ds bs)). v < 2 ^ (8 * bytes)))"

fun starts_at :: "nat \<Rightarrow> probe_chunk list \<Rightarrow> bool" where
  "starts_at at [] = True"
| "starts_at at (Chunk start child # chunks) =
     (start = at \<and> 0 < node_len child \<and> starts_at (at + node_len child) chunks)"

fun wf_node :: "'k kernels_scheme \<Rightarrow> node \<Rightarrow> bool"
  and wf_packed :: "'k kernels_scheme \<Rightarrow> packed_node \<Rightarrow> bool"
  and wf_patches :: "'k kernels_scheme \<Rightarrow> nat \<Rightarrow> patch_probe \<Rightarrow> bool"
  and wf_delta :: "'k kernels_scheme \<Rightarrow> delta_node \<Rightarrow> bool"
  and wf_chunk :: "'k kernels_scheme \<Rightarrow> probe_chunk \<Rightarrow> bool" where
  "wf_node fl (Primitive w) = True"
| "wf_node fl (Constant v len) = (v \<le> u64_max)"
| "wf_node fl (Sequence base multiplier len) =
     (0 < multiplier \<and> len \<le> usize_max \<and> (0 < len \<longrightarrow> base + (len - 1) * multiplier \<le> u64_max))"
| "wf_node fl (RunEnd ends vs offset len) =
     (wf_node fl ends \<and> wf_node fl vs \<and> node_len ends = node_len vs \<and>
      ascending (decode fl ends) \<and> (\<forall>e \<in> set (decode fl ends). 0 < e) \<and>
      (0 < len \<longrightarrow> decode fl ends \<noteq> [] \<and> offset + len \<le> last (decode fl ends)))"
| "wf_node fl (FoR reference child) =
     (wf_node fl child \<and> (\<forall>v \<in> set (decode fl child). reference + v \<le> u64_max))"
| "wf_node fl (ChunkedFoR references offset child) =
     (wf_node fl references \<and> wf_node fl child \<and>
      div_ceil (offset + node_len child) FL_CHUNK \<le> node_len references)"
| "wf_node fl (BitPacked p) = wf_packed fl p"
| "wf_node fl (Slice child start len) = (wf_node fl child \<and> start + len \<le> node_len child)"
| "wf_node fl (Chunked chunks len) =
     (list_all (wf_chunk fl) chunks \<and> starts_at 0 chunks \<and>
      len = sum_list (map (\<lambda>ch. node_len (chunk_node ch)) chunks))"
| "wf_node fl (Dict codes vs) =
     (wf_node fl codes \<and> wf_node fl vs \<and> (\<forall>code \<in> set (decode fl codes). code < node_len vs))"
| "wf_node fl (Delta d) = wf_delta fl d"
| "wf_node fl (Sparse fill patches len) = (wf_patches fl len patches \<and> fill \<le> u64_max)"
| "wf_node fl (Rle vs indices value_offsets base offset len) =
     (wf_node fl vs \<and> wf_node fl indices \<and> wf_node fl value_offsets \<and>
      offset + len \<le> node_len indices \<and> div_ceil (offset + len) FL_CHUNK \<le> node_len value_offsets \<and>
      (\<forall>i < len. base \<le> decode fl value_offsets ! ((offset + i) div FL_CHUNK) \<and>
         decode fl value_offsets ! ((offset + i) div FL_CHUNK) - base +
           decode fl indices ! (offset + i) < node_len vs))"
| "wf_packed fl (PackedNode packed bit_width offset len patches) =
     (packed_new packed bit_width offset len patches \<noteq> None \<and>
      (case patches of None \<Rightarrow> True | Some p \<Rightarrow> wf_patches fl len p))"
| "wf_patches fl len (PatchProbe indices vs offset) =
     (wf_node fl indices \<and> wf_node fl vs \<and> node_len indices = node_len vs \<and>
      ascending (decode fl indices) \<and>
      (\<forall>i \<in> set (decode fl indices). offset \<le> i \<and> i < offset + len))"
| "wf_delta fl (DeltaNode bases deltas width offset len) =
     (delta_new bases deltas width offset len \<noteq> None \<and> wf_node fl bases \<and> wf_node fl deltas)"
| "wf_chunk fl (Chunk start child) = wf_node fl child"

section \<open>Reads of a list\<close>

text \<open>\<open>reads f xs\<close>: a read function that answers the list's values; the searches over it.\<close>

definition reads :: "(nat \<Rightarrow> nat option) \<Rightarrow> nat list \<Rightarrow> bool" where
  "reads f xs \<longleftrightarrow> (\<forall>i < length xs. f i = Some (xs ! i))"

abbreviation below :: "nat \<Rightarrow> nat list \<Rightarrow> nat" where
  "below x xs \<equiv> length (takeWhile (\<lambda>v. v < x) xs)"

abbreviation upto_value :: "nat \<Rightarrow> nat list \<Rightarrow> nat" where
  "upto_value x xs \<equiv> length (takeWhile (\<lambda>v. v \<le> x) xs)"

lemma readsD: "reads f xs \<Longrightarrow> i < length xs \<Longrightarrow> f i = Some (xs ! i)"
  by (simp add: reads_def)

lemma sorted_rises: "sorted xs \<Longrightarrow> rises (length xs) ((!) xs)"
  by (simp add: sorted_nth_mono)

lemma cut_values:
  "cut (\<lambda>i. xs ! i < x) (length xs) = below x xs"
  "cut (\<lambda>i. xs ! i \<le> x) (length xs) = upto_value x xs"
  by (rule cut_nth)+

lemma partition_reads:
  assumes "reads f xs" "sorted xs"
  shows "partition (length xs) (\<lambda>i. do { v \<leftarrow> f i; Some (v < x) }) = Some (below x xs)"
    and "partition (length xs) (\<lambda>i. do { v \<leftarrow> f i; Some (v \<le> x) }) = Some (upto_value x xs)"
proof -
  have "partition (length xs) (\<lambda>i. do { v \<leftarrow> f i; Some (v < x) }) =
      Some (cut (\<lambda>i. xs ! i < x) (length xs))"
    by (rule partition_cut)
       (simp_all add: readsD [OF assms(1)] rises_first_pass(1) [OF sorted_rises [OF assms(2)]])
  then show "partition (length xs) (\<lambda>i. do { v \<leftarrow> f i; Some (v < x) }) = Some (below x xs)"
    by (simp add: cut_values)
  have "partition (length xs) (\<lambda>i. do { v \<leftarrow> f i; Some (v \<le> x) }) =
      Some (cut (\<lambda>i. xs ! i \<le> x) (length xs))"
    by (rule partition_cut)
       (simp_all add: readsD [OF assms(1)] rises_first_pass(2) [OF sorted_rises [OF assms(2)]])
  then show "partition (length xs) (\<lambda>i. do { v \<leftarrow> f i; Some (v \<le> x) }) = Some (upto_value x xs)"
    by (simp add: cut_values)
qed

lemma search_reads:
  assumes "reads f xs" "sorted xs"
  shows "search_ascending (length xs) f x = Some (below x xs)"
proof -
  have "search_ascending (length xs) f x = Some (cut (\<lambda>i. xs ! i < x) (length xs))"
    by (rule search_ascending_Some [OF _ sorted_rises [OF assms(2)]]) (rule readsD [OF assms(1)])
  then show ?thesis by (simp add: cut_values)
qed

lemma below_eqI:
  assumes "k \<le> length xs" "\<And>i. i < length xs \<Longrightarrow> xs ! i < x \<longleftrightarrow> i < k"
  shows "below x xs = k"
proof -
  have "cut (\<lambda>i. xs ! i < x) (length xs) = k" by (rule cut_eqI) (use assms in auto)
  then show ?thesis by (simp add: cut_values)
qed

lemma below_iff: "sorted xs \<Longrightarrow> i < length xs \<Longrightarrow> xs ! i < x \<longleftrightarrow> i < below x xs"
  using first_pass_cut [OF rises_first_pass(1) [OF sorted_rises], of xs i x] by (simp add: cut_values)

lemma upto_iff: "sorted xs \<Longrightarrow> i < length xs \<Longrightarrow> xs ! i \<le> x \<longleftrightarrow> i < upto_value x xs"
  using first_pass_cut [OF rises_first_pass(2) [OF sorted_rises], of xs i x] by (simp add: cut_values)

lemma upto_le: "upto_value x xs \<le> length xs"
  by (rule length_takeWhile_le)

lemma below_le: "below x xs \<le> length xs"
  by (rule length_takeWhile_le)

section \<open>Run ends\<close>

lemma sorted_last_ge: "sorted xs \<Longrightarrow> x \<in> set xs \<Longrightarrow> x \<le> last xs"
  by (induction xs) auto

lemma length_expand_runs:
  "ascending (prev # es) \<Longrightarrow> length es = length vs \<Longrightarrow>
   length (expand_runs prev es vs) = last (prev # es) - prev"
proof (induction prev es vs rule: expand_runs.induct)
  case (1 prev e ends v vs)
  have "e \<le> last (e # ends)" using 1(2) by (intro sorted_last_ge) (auto dest: ascending_sorted)
  then show ?case using 1 by auto
qed auto

lemma expand_runs_nth:
  "ascending (prev # es) \<Longrightarrow> length es = length vs \<Longrightarrow> prev \<le> pos \<Longrightarrow> pos < last (prev # es) \<Longrightarrow>
   expand_runs prev es vs ! (pos - prev) = vs ! upto_value pos es \<and> upto_value pos es < length es"
proof (induction prev es vs rule: expand_runs.induct)
  case (1 prev e ends v vs)
  show ?case
  proof (cases "pos < e")
    case True
    moreover from this have "pos - prev < e - prev" using 1(4) by linarith
    ultimately show ?thesis using 1(2-) by (simp add: nth_append)
  next
    case False
    then have "expand_runs e ends vs ! (pos - e) = vs ! upto_value pos ends \<and>
        upto_value pos ends < length ends"
      using 1(1) 1(2-) by (auto split: if_splits)
    moreover have "pos - prev - (e - prev) = pos - e" "\<not> pos - prev < e - prev"
      using 1(2,4) False by auto
    ultimately show ?thesis using False 1(2-) by (simp add: nth_append)
  qed
qed auto

lemma ascending_positive: "ascending es \<Longrightarrow> \<forall>e \<in> set es. 0 < e \<Longrightarrow> ascending ((0::nat) # es)"
  by simp

lemma run_window:
  assumes es: "ascending es" "\<forall>e \<in> set es. (0::nat) < e" "length es = length vs"
    and win: "0 < len \<longrightarrow> es \<noteq> [] \<and> offset + len \<le> last es"
  shows "length (take len (drop offset (expand_runs 0 es vs))) = len"
    and "i < len \<Longrightarrow> take len (drop offset (expand_runs 0 es vs)) ! i = vs ! upto_value (offset + i) es"
    and "i < len \<Longrightarrow> upto_value (offset + i) es < length es"
proof -
  note asc = ascending_positive [OF es(1,2)]
  have length: "length (expand_runs 0 es vs) = last (0 # es)"
    using length_expand_runs [OF asc es(3)] by simp
  show "length (take len (drop offset (expand_runs 0 es vs))) = len"
    using win length by (cases len) auto
  assume i: "i < len"
  then have "offset + i < last (0 # es)" using win by auto
  then show "take len (drop offset (expand_runs 0 es vs)) ! i = vs ! upto_value (offset + i) es"
    "upto_value (offset + i) es < length es"
    using expand_runs_nth [OF asc es(3), of "offset + i"] length i by simp_all
qed

text \<open>The runs of a window, and the row a run starts at.\<close>

lemma upto_less_iff:
  assumes "ascending es" "r \<le> length es" "0 < r"
  shows "upto_value pos es < r \<longleftrightarrow> pos < es ! (r - 1)"
proof -
  have "es ! (r - 1) \<le> pos \<longleftrightarrow> r - 1 < upto_value pos es"
    by (rule upto_iff [OF ascending_sorted [OF assms(1)]]) (use assms in simp)
  then show ?thesis using assms(3) by linarith
qed

lemma upto_mono: "a \<le> b \<Longrightarrow> upto_value a es \<le> upto_value b es"
  by (induction es) auto

lemma window_runs_Some:
  assumes es: "ascending es" "\<forall>e \<in> set es. (0::nat) < e" and reads: "reads f es"
    and len: "0 < len" and win: "es \<noteq> []" "offset + len \<le> last es"
  shows "window_runs (length es) f offset len =
    Some (upto_value offset es, Suc (upto_value (offset + len - 1) es) - upto_value offset es)"
    and "upto_value (offset + len - 1) es < length es"
proof -
  have last: "last es = es ! (length es - 1)" by (rule last_conv_nth [OF win(1)])
  have le: "upto_value (offset + len - 1) es < length es" if "offset + len \<le> last es"
  proof -
    have "\<not> es ! (length es - 1) \<le> offset + len - 1" using that len last by simp
    then show ?thesis
      using upto_iff [OF ascending_sorted [OF es(1)], of "length es - 1" "offset + len - 1"]
        upto_le [of "offset + len - 1" es] win(1) by (auto simp: le_less)
  qed
  show less: "upto_value (offset + len - 1) es < length es" by (rule le [OF win(2)])
  have mono: "upto_value offset es \<le> upto_value (offset + len - 1) es"
    using len by (intro upto_mono) simp
  have parts: "partition (length es) (\<lambda>r. do { e \<leftarrow> f r; Some (e \<le> x) }) = Some (upto_value x es)" for x
    by (rule partition_reads(2) [OF reads ascending_sorted [OF es(1)]])
  have split: "do {
      first \<leftarrow> partition (length es) (\<lambda>r. do { e \<leftarrow> f r; Some (e \<le> offset) });
      last \<leftarrow> partition (length es) (\<lambda>r. do { e \<leftarrow> f r; Some (e \<le> offset + len - 1) });
      span \<leftarrow> usub (min (last + 1) (length es)) first;
      Some (first, span)
    } = Some (upto_value offset es, Suc (upto_value (offset + len - 1) es) - upto_value offset es)"
    using mono less by (simp add: parts)
  show "window_runs (length es) f offset len =
    Some (upto_value offset es, Suc (upto_value (offset + len - 1) es) - upto_value offset es)"
  proof (cases "offset = 0 \<and> last es = len")
    case True
    have pos: "0 < length es" using win(1) by simp
    have "upto_value 0 es = 0" using es(2) by (cases es) auto
    moreover have "Suc (upto_value (len - 1) es) = length es"
    proof -
      have "length es - 1 \<le> upto_value (len - 1) es"
      proof (rule ccontr)
        assume "\<not> length es - 1 \<le> upto_value (len - 1) es"
        then have lt: "upto_value (len - 1) es < length es - 1" by simp
        then have "upto_value (len - 1) es < length es" by linarith
        then have "len - 1 < es ! upto_value (len - 1) es"
          using upto_iff [OF ascending_sorted [OF es(1)], of "upto_value (len - 1) es" "len - 1"]
          by simp
        moreover have "es ! upto_value (len - 1) es < es ! (length es - 1)"
          using ascending_nth_less [OF es(1) lt] pos by simp
        ultimately show False using True last by simp
      qed
      then show ?thesis using less True pos by simp
    qed
    moreover have "f (length es - 1) = Some len"
      using readsD [OF reads, of "length es - 1"] pos True last by simp
    ultimately show ?thesis
      using True len pos by (simp add: window_runs_def)
  next
    case False
    have "(if offset = 0 \<and> 0 < length es then do { e \<leftarrow> f (length es - 1); Some (e = len) }
        else Some False) = Some False"
      using readsD [OF reads, of "length es - 1"] win(1) False last by auto
    then show ?thesis using len split by (simp only: window_runs_def) simp
  qed
qed

text \<open>Over a window of ascending rows: the values of the window's runs ascend, and a search of the
  runs is a search of the rows.\<close>

lemma run_end_search:
  fixes es vs :: "nat list" and offset len :: nat
  defines "xs \<equiv> take len (drop offset (expand_runs 0 es vs))"
    and "first \<equiv> upto_value offset es" and "final \<equiv> upto_value (offset + len - 1) es"
  assumes es: "ascending es" "\<forall>e \<in> set es. (0::nat) < e" "length es = length vs"
    and win: "es \<noteq> []" "offset + len \<le> last es" and len: "0 < len"
    and reads: "reads f es" and sorted: "sorted xs"
  shows "rises (Suc final - first) (\<lambda>k. vs ! (first + k))"
    and "k \<le> Suc final - first \<Longrightarrow>
      (\<And>r. first \<le> r \<Longrightarrow> r \<le> final \<Longrightarrow> P (vs ! r) \<longleftrightarrow> r < first + k) \<Longrightarrow>
      run_start f (first + k) offset len = Some (length (takeWhile P xs))"
proof -
  have win': "0 < len \<longrightarrow> es \<noteq> [] \<and> offset + len \<le> last es" using win by simp
  note runs = window_runs_Some [OF es(1,2) reads len win, folded first_def final_def]
  note rows = run_window [OF es win', folded xs_def]
  have run: "first \<le> upto_value (offset + i) es" "upto_value (offset + i) es \<le> final"
    if "i < len" for i
    using that by (auto simp: first_def final_def intro!: upto_mono)
  text \<open>Each of the window's runs holds one of its rows, and later runs later rows.\<close>
  define row where "row r = (if r = first then 0 else es ! (r - 1) - offset)" for r
  have row: "row r < len \<and> upto_value (offset + row r) es = r" if r: "first \<le> r" "r \<le> final" for r
  proof (cases "r = first")
    case True
    then show ?thesis using len by (simp add: row_def first_def)
  next
    case False
    then have r0: "first < r" using r by simp
    have rlen: "r < length es" using r runs(2) by simp
    have low: "offset < es ! (r - 1)"
      using upto_less_iff [OF es(1), of r offset] r0 rlen by (simp add: first_def)
    have high: "es ! (r - 1) \<le> offset + len - 1"
      using upto_less_iff [OF es(1), of r "offset + len - 1"] r0 r rlen by (simp add: final_def)
    have "upto_value (es ! (r - 1)) es = r"
    proof (rule antisym)
      have "es ! (r - 1) < es ! r" using ascending_nth_less [OF es(1), of "r - 1" r] r0 rlen by simp
      then have "upto_value (es ! (r - 1)) es < Suc r"
        using upto_less_iff [OF es(1), of "Suc r" "es ! (r - 1)"] rlen by simp
      then show "upto_value (es ! (r - 1)) es \<le> r" by simp
      show "r \<le> upto_value (es ! (r - 1)) es"
        using upto_less_iff [OF es(1), of r "es ! (r - 1)"] r0 rlen by (simp add: not_less [symmetric])
    qed
    moreover have "offset + row r = es ! (r - 1)" using low False by (simp add: row_def)
    ultimately show ?thesis using high len by simp
  qed
  have row_mono: "row r \<le> row r'" if "first \<le> r" "r \<le> r'" "r' \<le> final" for r r'
  proof (rule ccontr)
    assume "\<not> row r \<le> row r'"
    then have "upto_value (offset + row r') es \<le> upto_value (offset + row r) es"
      by (intro upto_mono) simp
    then have "r' \<le> r" using row that by simp
    then show False using that \<open>\<not> row r \<le> row r'\<close> by simp
  qed
  have run_value: "vs ! r = xs ! row r" if "first \<le> r" "r \<le> final" for r
    using rows(2) [of "row r"] row [OF that] by simp
  have rises: "rises (Suc final - first) (\<lambda>k. vs ! (first + k))"
  proof (intro allI impI)
    fix i j assume ij: "i \<le> j" "j < Suc final - first"
    then have r: "first + i \<le> final" "first + j \<le> final" by linarith+
    have "xs ! row (first + i) \<le> xs ! row (first + j)"
      using row_mono [of "first + i" "first + j"] row [of "first + j"] r ij rows(1)
      by (intro sorted_nth_mono [OF sorted]) simp_all
    then show "vs ! (first + i) \<le> vs ! (first + j)"
      using run_value [of "first + i"] run_value [of "first + j"] r by simp
  qed
  then show "rises (Suc final - first) (\<lambda>k. vs ! (first + k))" .
  assume k: "k \<le> Suc final - first"
    and cut: "\<And>r. first \<le> r \<Longrightarrow> r \<le> final \<Longrightarrow> P (vs ! r) \<longleftrightarrow> r < first + k"
  have whole: "length (takeWhile P xs) = n"
    if "n \<le> len" "\<And>i. i < len \<Longrightarrow> P (xs ! i) \<longleftrightarrow> i < n" for n
  proof -
    have "cut (\<lambda>i. P (xs ! i)) (length xs) = n" by (rule cut_eqI) (use that rows(1) in auto)
    then show ?thesis by (simp add: cut_nth)
  qed
  show "run_start f (first + k) offset len = Some (length (takeWhile P xs))"
  proof (cases "first + k = 0")
    case True
    have "length (takeWhile P xs) = 0"
      by (rule whole) (use rows run cut True in auto)
    then show ?thesis using True by (simp add: run_start_def)
  next
    case False
    have "first \<le> final" unfolding first_def final_def by (rule upto_mono) (use len in simp)
    then have rl: "first + k - 1 < length es" "first + k \<le> length es"
      using k runs(2) False by linarith+
    have "length (takeWhile P xs) = min (es ! (first + k - 1) - offset) len"
    proof (rule whole)
      fix i assume i: "i < len"
      have "P (xs ! i) \<longleftrightarrow> upto_value (offset + i) es < first + k"
        using rows(2) [OF i] cut run [OF i] by simp
      also have "\<dots> \<longleftrightarrow> offset + i < es ! (first + k - 1)"
        using upto_less_iff [OF es(1) rl(2)] False by simp
      finally show "P (xs ! i) \<longleftrightarrow> i < min (es ! (first + k - 1) - offset) len" using i by auto
    qed simp
    then show ?thesis
      by (simp only: run_start_def False if_False readsD [OF reads rl(1)]
          Option.bind.bind_lunit)
  qed
qed

lemma run_end_lower_bound:
  assumes es: "ascending es" "\<forall>e \<in> set es. (0::nat) < e" "length es = length vs"
    and win: "0 < len \<longrightarrow> es \<noteq> [] \<and> offset + len \<le> last es"
    and reads: "reads f es" "reads g vs"
    and sorted: "sorted (take len (drop offset (expand_runs 0 es vs)))"
  shows "do {
      (first, span) \<leftarrow> window_runs (length es) f offset len;
      k \<leftarrow> search_ascending span (\<lambda>k. g (first + k)) x;
      run_start f (first + k) offset len
    } = Some (below x (take len (drop offset (expand_runs 0 es vs))))"
proof (cases "len = 0")
  case True
  have "search_ascending 0 (\<lambda>k. g (0 + k)) x = Some 0"
    using search_ascending_Some [of 0 "\<lambda>k. g (0 + k)" "\<lambda>k. 0" x] by (simp add: cut_def)
  then show ?thesis using True by (simp add: window_runs_def run_start_def)
next
  case False
  then have len: "0 < len" and win': "es \<noteq> []" "offset + len \<le> last es" using win by auto
  let ?first = "upto_value offset es" and ?last = "upto_value (offset + len - 1) es"
  let ?span = "Suc ?last - ?first"
  note runs = window_runs_Some [OF es(1,2) reads(1) len win']
  note search = run_end_search [OF es win' len reads(1) sorted]
  define k where "k = cut (\<lambda>k. vs ! (?first + k) < x) ?span"
  have k: "search_ascending ?span (\<lambda>k. g (?first + k)) x = Some k" "k \<le> ?span"
    unfolding k_def
    by (rule search_ascending_Some [OF _ search(1)], use readsD [OF reads(2)] runs(2) es(3) in simp)
       (rule cut_le)
  have "vs ! r < x \<longleftrightarrow> r < ?first + k" if "?first \<le> r" "r \<le> ?last" for r
    using first_pass_cut [OF rises_first_pass(1) [OF search(1)], of "r - ?first" x] that
    unfolding k_def by auto
  note start = search(2) [of k "\<lambda>v. v < x", OF k(2) this]
  show ?thesis by (simp only: runs(1) k(1) start Option.bind.bind_lunit prod.case)
qed

section \<open>Patches\<close>

lemma length_apply_patches [simp]: "length (apply_patches ps xs) = length xs"
  unfolding apply_patches_def by (induction ps arbitrary: xs) auto

lemma apply_patches_nth:
  assumes "ascending (map fst ps)" "i < length xs"
  shows "apply_patches ps xs ! i = (case map_of ps i of Some v \<Rightarrow> v | None \<Rightarrow> xs ! i)"
  using assms
proof (induction ps arbitrary: xs)
  case (Cons p ps)
  obtain a v where p: "p = (a, v)" by (cases p)
  have step: "apply_patches ((a, v) # ps) xs = apply_patches ps (xs[a := v])"
    by (simp add: apply_patches_def)
  have "map_of ps a = None" using Cons.prems(1) p by (auto simp: map_of_eq_None_iff)
  then show ?case using Cons.IH [of "xs[a := v]"] Cons.prems p
    by (auto simp: step nth_list_update split: option.splits)
qed (simp add: apply_patches_def)

lemma apply_patches_set:
  "set (apply_patches ps xs) \<subseteq> set xs \<union> set (map snd ps)"
  unfolding apply_patches_def
proof (induction ps arbitrary: xs)
  case (Cons p ps)
  have "set (xs[fst p := snd p]) \<subseteq> insert (snd p) (set xs)" by (rule set_update_subset_insert)
  then show ?case using Cons [of "xs[fst p := snd p]"] by (cases p) auto
qed simp

lemma ascending_minus:
  "ascending xs \<Longrightarrow> \<forall>x \<in> set xs. (c::nat) \<le> x \<Longrightarrow> ascending (map (\<lambda>x. x - c) xs)"
  by (induction xs) (auto intro: diff_less_mono)

text \<open>What the search of the patch indices answers.\<close>

lemma lookup_reads:
  assumes idx: "ascending idx" "length idx = length vs" "\<forall>x \<in> set idx. offset \<le> x"
    and at: "at = below (i + offset) idx" and reads: "reads f idx" "reads g vs"
  shows "do {
      found \<leftarrow> (if at < length idx then do { k \<leftarrow> f at; Some (k = i + offset) } else Some False);
      if found then do { v \<leftarrow> g at; Some (Some v) } else Some None
    } = Some (map_of (zip (map (\<lambda>x. x - offset) idx) vs) i)"
proof -
  have dist: "distinct (map (\<lambda>x. x - offset) idx)"
    by (rule ascending_distinct) (rule ascending_minus [OF idx(1,3)])
  show ?thesis
  proof (cases "at < length idx \<and> idx ! at = i + offset")
    case True
    then have "map_of (zip (map (\<lambda>x. x - offset) idx) vs) i = Some (vs ! at)"
      using map_of_zip_nth [of "map (\<lambda>x. x - offset) idx" vs at] dist idx(2) by simp
    then show ?thesis
      using True readsD [OF reads(1), of at] readsD [OF reads(2), of at] idx(2) by simp
  next
    case False
    have "i + offset \<notin> set idx"
    proof
      assume "i + offset \<in> set idx"
      then obtain j where j: "j < length idx" "idx ! j = i + offset" by (auto simp: in_set_conv_nth)
      have sorted: "sorted idx" by (rule ascending_sorted [OF idx(1)])
      have "\<not> j < at" using below_iff [OF sorted j(1), of "i + offset"] j(2) at by simp
      moreover have "\<not> at < j"
      proof
        assume "at < j"
        then have "idx ! at < i + offset" using ascending_nth_less [OF idx(1) _ j(1)] j(2) by metis
        then show False using below_iff [OF sorted, of at "i + offset"] \<open>at < j\<close> j(1) at by simp
      qed
      ultimately show False using False j by auto
    qed
    then have "i \<notin> (\<lambda>x. x - offset) ` set idx" using idx(3) by force
    then have "map_of (zip (map (\<lambda>x. x - offset) idx) vs) i = None"
      using idx(2) by (simp add: map_of_zip_is_None)
    then show ?thesis using False readsD [OF reads(1), of at] by auto
  qed
qed

section \<open>Chunks end to end\<close>

lemma starts_at_nth:
  "starts_at at chunks \<Longrightarrow> c < length chunks \<Longrightarrow>
   chunk_start (chunks ! c) = at + sum_list (map (\<lambda>ch. node_len (chunk_node ch)) (take c chunks)) \<and>
   0 < node_len (chunk_node (chunks ! c))"
proof (induction at chunks arbitrary: c rule: starts_at.induct)
  case (2 at start child chunks)
  then show ?case by (cases c) auto
qed simp

lemma starts_at_ascending: "starts_at at chunks \<Longrightarrow> ascending (map chunk_start chunks) \<and>
    (\<forall>s \<in> set (map chunk_start chunks). at \<le> s)"
proof (induction at chunks rule: starts_at.induct)
  case (2 at start child chunks)
  then show ?case by fastforce
qed simp

text \<open>The chunk of a row: the last one that starts at or before it.\<close>

lemma chunk_of_row:
  assumes "starts_at at chunks" "length xss = length chunks"
    and "\<forall>c < length chunks. length (xss ! c) = node_len (chunk_node (chunks ! c))"
    and "at \<le> i" "i < at + length (concat xss)"
  shows "\<exists>c start child. upto_value i (map chunk_start chunks) = Suc c \<and> c < length chunks \<and>
    chunks ! c = Chunk start child \<and> start \<le> i \<and> i - start < node_len child \<and>
    concat xss ! (i - at) = xss ! c ! (i - start)"
  using assms
proof (induction at chunks arbitrary: xss rule: starts_at.induct)
  case (1 at)
  then show ?case by simp
next
  case (2 at start child chunks)
  obtain xs xss' where xss: "xss = xs # xss'" using 2(3) by (cases xss) auto
  have start: "start = at" and rest: "starts_at (at + node_len child) chunks" using 2(2) by auto
  have len: "length xs = node_len child" using 2(4) xss by force
  have lens: "\<forall>c < length chunks. length (xss' ! c) = node_len (chunk_node (chunks ! c))"
    using 2(4) xss by force
  show ?case
  proof (cases "i < at + node_len child")
    case True
    have "upto_value i (map chunk_start chunks) = 0"
      using starts_at_ascending [OF rest] True by (cases chunks) auto
    moreover have "i - at < node_len child" using True 2(5) by linarith
    ultimately show ?thesis
      using True start len xss 2(5)
      by - (rule exI [of _ 0], rule exI [of _ at], rule exI [of _ child], simp add: nth_append)
  next
    case False
    have "i < at + node_len child + length (concat xss')" using 2(6) xss len by simp
    then obtain c s ch where *: "upto_value i (map chunk_start chunks) = Suc c" "c < length chunks"
      "chunks ! c = Chunk s ch" "s \<le> i" "i - s < node_len ch"
      "concat xss' ! (i - (at + node_len child)) = xss' ! c ! (i - s)"
      using 2(1) [OF rest _ lens] False 2(3) xss by fastforce
    moreover have "\<not> i - at < node_len child" "i - at - node_len child = i - (at + node_len child)"
      using False 2(5) by linarith+
    ultimately show ?thesis
      using False start len xss 2(5)
      by - (rule exI [of _ "Suc c"], rule exI [of _ s], rule exI [of _ ch], simp add: nth_append)
  qed
qed

section \<open>Every node answers its values\<close>

definition ok_node :: "'k kernels_scheme \<Rightarrow> node \<Rightarrow> bool" where
  "ok_node fl n \<longleftrightarrow> (wf_node fl n \<longrightarrow>
     length (decode fl n) = node_len n \<and> (\<forall>v \<in> set (decode fl n). v \<le> u64_max) \<and>
     reads (value_at fl n) (decode fl n) \<and>
     (sorted (decode fl n) \<longrightarrow> (\<forall>x. lower_bound fl n x = Some (below x (decode fl n)))))"

definition ok_packed :: "'k kernels_scheme \<Rightarrow> packed_node \<Rightarrow> bool" where
  "ok_packed fl p \<longleftrightarrow> (wf_packed fl p \<longrightarrow>
     length (decode_packed fl p) = packed_len p \<and> (\<forall>v \<in> set (decode_packed fl p). v \<le> u64_max) \<and>
     reads (packed_value_at fl p) (decode_packed fl p))"

definition ok_patches :: "'k kernels_scheme \<Rightarrow> patch_probe \<Rightarrow> bool" where
  "ok_patches fl p \<longleftrightarrow> (\<forall>len. wf_patches fl len p \<longrightarrow>
     ascending (map fst (decode_patches fl p)) \<and>
     (\<forall>(i, v) \<in> set (decode_patches fl p). i < len \<and> v \<le> u64_max) \<and>
     (\<forall>i. patch_lookup fl p i = Some (map_of (decode_patches fl p) i)))"

definition ok_delta :: "'k kernels_scheme \<Rightarrow> delta_node \<Rightarrow> bool" where
  "ok_delta fl d \<longleftrightarrow> (wf_delta fl d \<longrightarrow>
     length (decode_delta fl d) = delta_len d \<and> (\<forall>v \<in> set (decode_delta fl d). v \<le> u64_max) \<and>
     reads (delta_value_at fl d) (decode_delta fl d))"

definition ok_chunk :: "'k kernels_scheme \<Rightarrow> probe_chunk \<Rightarrow> bool" where
  "ok_chunk fl ch \<longleftrightarrow> ok_node fl (chunk_node ch)"

lemma ok_nodeD:
  assumes "ok_node fl n" "wf_node fl n"
  shows "length (decode fl n) = node_len n" "v \<in> set (decode fl n) \<Longrightarrow> v \<le> u64_max"
    "reads (value_at fl n) (decode fl n)"
    "sorted (decode fl n) \<Longrightarrow> lower_bound fl n x = Some (below x (decode fl n))"
    "i < node_len n \<Longrightarrow> value_at fl n i = Some (decode fl n ! i)"
  using assms by (auto simp: ok_node_def reads_def)

lemma ok_nodeI:
  assumes "wf_node fl n \<Longrightarrow> length (decode fl n) = node_len n"
    and "\<And>v. wf_node fl n \<Longrightarrow> v \<in> set (decode fl n) \<Longrightarrow> v \<le> u64_max"
    and "wf_node fl n \<Longrightarrow> reads (value_at fl n) (decode fl n)"
    and "\<And>x. wf_node fl n \<Longrightarrow> reads (value_at fl n) (decode fl n) \<Longrightarrow> sorted (decode fl n) \<Longrightarrow>
      lower_bound fl n x = Some (below x (decode fl n))"
  shows "ok_node fl n"
  using assms by (auto simp: ok_node_def)

text \<open>Nodes without a child.\<close>

lemma length_word_values [simp]: "length (word_values w) = words_len w"
  by (cases w) simp_all

lemma word_values_fit: "v \<in> set (word_values w) \<Longrightarrow> v < 2 ^ (8 * word_bytes w)"
proof -
  assume "v \<in> set (word_values w)"
  then show ?thesis
    using unsigned_less [where 'b = 8 and 'a = nat] unsigned_less [where 'b = 16 and 'a = nat]
      unsigned_less [where 'b = 32 and 'a = nat] unsigned_less [where 'b = 64 and 'a = nat]
    by (cases w) auto
qed

lemma u64_mod: "v \<le> u64_max \<Longrightarrow> v mod 2 ^ 64 = v"
proof -
  assume "v \<le> u64_max"
  then have "v < 2 ^ 64" by (simp add: u64_max_def)
  then show ?thesis by (rule mod_less)
qed

lemma word_bytes_cases: "word_bytes w \<in> {1, 2, 4, 8}"
  by (cases w) simp_all

lemma fits_u64: "bytes \<in> {1, 2, 4, 8::nat} \<Longrightarrow> v < 2 ^ (8 * bytes) \<Longrightarrow> v \<le> u64_max"
proof -
  assume b: "bytes \<in> {1, 2, 4, 8::nat}" and v: "v < 2 ^ (8 * bytes)"
  have "8 * bytes \<le> 64" using b by auto
  then have "(2::nat) ^ (8 * bytes) \<le> 2 ^ 64" by (intro power_increasing) simp_all
  then have "v < 2 ^ 64" using v by (rule less_le_trans [rotated])
  then show ?thesis by (simp add: u64_max_def)
qed

lemma below_all: "(\<And>v. v \<in> set xs \<Longrightarrow> v < x) \<Longrightarrow> below x xs = length xs"
  by (simp add: takeWhile_eq_all_conv [THEN iffD2])

lemma words_lower_bound_below:
  assumes "sorted (word_values w)"
  shows "words_lower_bound w x = below x (word_values w)"
proof (cases "fits_word (word_bytes w) x")
  case True
  then show ?thesis
    by (simp add: words_lower_bound_def partition_point_eq [OF partitioned_less [OF assms]])
next
  case False
  have "v < x" if "v \<in> set (word_values w)" for v
    using word_values_fit [OF that] False by (simp add: fits_word_def)
  then show ?thesis using False below_all [of "word_values w" x] by (simp add: words_lower_bound_def)
qed

lemma ok_Primitive: "ok_node fl (Primitive w)"
  using fits_u64 [OF word_bytes_cases word_values_fit] words_lower_bound_below
  by (intro ok_nodeI) (auto simp: reads_def words_get_def buf_get_Some)

lemma ok_Constant: "ok_node fl (Constant v len)"
  by (intro ok_nodeI) (auto simp: reads_def takeWhile_replicate)

lemma sequence_term:
  assumes "wf_node fl (Sequence base multiplier len)" "i < len"
  shows "base + i * multiplier \<le> u64_max"
proof -
  have "i * multiplier \<le> (len - 1) * multiplier" using assms(2) by (intro mult_le_mono1) simp
  moreover have "base + (len - 1) * multiplier \<le> u64_max" using assms by simp
  ultimately show ?thesis by linarith
qed

lemma ok_Sequence: "ok_node fl (Sequence base multiplier len)"
proof (rule ok_nodeI)
  assume wf: "wf_node fl (Sequence base multiplier len)"
  show "reads (value_at fl (Sequence base multiplier len)) (decode fl (Sequence base multiplier len))"
    using u64_mod [OF sequence_term [OF wf]] by (simp add: reads_def del: wf_node.simps)
  show "v \<le> u64_max" if "v \<in> set (decode fl (Sequence base multiplier len))" for v
    using sequence_term [OF wf] that by auto
  fix x
  have m: "0 < multiplier" using wf by simp
  have "below x (map (\<lambda>i. base + i * multiplier) [0..<len]) =
      (if x \<le> base then 0 else clamp_to_len (div_ceil (x - base) multiplier) len)"
  proof (rule below_eqI)
    show "(if x \<le> base then 0 else clamp_to_len (div_ceil (x - base) multiplier) len) \<le>
        length (map (\<lambda>i. base + i * multiplier) [0..<len])"
      by (simp add: clamp_to_len_def)
    fix i assume "i < length (map (\<lambda>i. base + i * multiplier) [0..<len])"
    then have i: "i < len" by simp
    have len: "len \<le> u64_max" using wf by simp
    have "base + i * multiplier < x \<longleftrightarrow> \<not> div_ceil (x - base) multiplier \<le> i" if "base < x"
      using that by (simp add: div_ceil_le_iff [OF m]) linarith
    then show "map (\<lambda>i. base + i * multiplier) [0..<len] ! i < x \<longleftrightarrow>
        i < (if x \<le> base then 0 else clamp_to_len (div_ceil (x - base) multiplier) len)"
      using i len by (auto simp: clamp_to_len_def not_le)
  qed
  then show "lower_bound fl (Sequence base multiplier len) x =
      Some (below x (decode fl (Sequence base multiplier len)))" by simp
qed simp

text \<open>Nodes over a child.\<close>

lemma ok_RunEnd:
  assumes "ok_node fl ends" "ok_node fl vs"
  shows "ok_node fl (RunEnd ends vs offset len)"
proof (rule ok_nodeI)
  assume wf: "wf_node fl (RunEnd ends vs offset len)"
  let ?es = "decode fl ends" and ?vs = "decode fl vs"
  have wfs: "wf_node fl ends" "wf_node fl vs" and lens: "node_len ends = node_len vs" and
    asc: "ascending ?es" "\<forall>e \<in> set ?es. 0 < e" and
    win: "0 < len \<longrightarrow> ?es \<noteq> [] \<and> offset + len \<le> last ?es" using wf by auto
  note es = ok_nodeD [OF assms(1) wfs(1)] and vs = ok_nodeD [OF assms(2) wfs(2)]
  have len: "length ?es = length ?vs" using es(1) vs(1) lens by simp
  note rows = run_window [OF asc len win]
  show "length (decode fl (RunEnd ends vs offset len)) = node_len (RunEnd ends vs offset len)"
    using rows(1) by simp
  show "v \<le> u64_max" if v: "v \<in> set (decode fl (RunEnd ends vs offset len))" for v
  proof -
    obtain i where i: "i < len" "v = decode fl (RunEnd ends vs offset len) ! i"
      using v rows(1) by (auto simp: in_set_conv_nth)
    then have "v = ?vs ! upto_value (offset + i) ?es" "upto_value (offset + i) ?es < length ?vs"
      using rows(2,3) len by auto
    then show ?thesis using vs(2) by simp
  qed
  show "reads (value_at fl (RunEnd ends vs offset len)) (decode fl (RunEnd ends vs offset len))"
    unfolding reads_def
  proof (intro allI impI)
    fix i assume "i < length (decode fl (RunEnd ends vs offset len))"
    then have i: "i < len" using rows(1) by simp
    have "partition (node_len ends) (\<lambda>r. do { e \<leftarrow> value_at fl ends r; Some (e \<le> i + offset) }) =
        Some (upto_value (offset + i) ?es)"
      using partition_reads(2) [OF es(3) ascending_sorted [OF asc(1)], of "i + offset"]
      by (simp add: es(1) add.commute)
    then show "value_at fl (RunEnd ends vs offset len) i = Some (decode fl (RunEnd ends vs offset len) ! i)"
      using rows(2,3) [OF i] readsD [OF vs(3)] len by simp
  qed
  fix x assume sorted: "sorted (decode fl (RunEnd ends vs offset len))"
  have "window_runs (node_len ends) (value_at fl ends) offset len =
      window_runs (length ?es) (value_at fl ends) offset len" by (simp only: es(1))
  then show "lower_bound fl (RunEnd ends vs offset len) x =
      Some (below x (decode fl (RunEnd ends vs offset len)))"
    using run_end_lower_bound [OF asc len win es(3) vs(3), of x] sorted by simp
qed

lemma reads_map: "reads f xs \<Longrightarrow> reads (\<lambda>i. do { v \<leftarrow> f i; Some (g v) }) (map g xs)"
  by (simp add: reads_def)

lemma ok_FoR:
  assumes "ok_node fl child"
  shows "ok_node fl (FoR reference child)"
proof (rule ok_nodeI)
  assume wf: "wf_node fl (FoR reference child)"
  then have wfc: "wf_node fl child" and fit: "\<And>v. v \<in> set (decode fl child) \<Longrightarrow> reference + v \<le> u64_max"
    by auto
  note c = ok_nodeD [OF assms wfc]
  show "length (decode fl (FoR reference child)) = node_len (FoR reference child)" using c(1) by simp
  show "v \<le> u64_max" if "v \<in> set (decode fl (FoR reference child))" for v using that fit by auto
  show "reads (value_at fl (FoR reference child)) (decode fl (FoR reference child))"
    using c(3) fit by (simp add: reads_def)
  fix x assume sorted: "sorted (decode fl (FoR reference child))"
  have sortedc: "sorted (decode fl child)" using sorted by (simp add: sorted_map)
  have "below x (map (\<lambda>v. reference + v) (decode fl child)) =
      (if x \<le> reference then 0 else below (x - reference) (decode fl child))"
  proof (rule below_eqI)
    show "(if x \<le> reference then 0 else below (x - reference) (decode fl child)) \<le>
        length (map (\<lambda>v. reference + v) (decode fl child))"
      by (simp add: below_le)
    fix i assume "i < length (map (\<lambda>v. reference + v) (decode fl child))"
    then have i: "i < length (decode fl child)" by simp
    have "reference + decode fl child ! i < x \<longleftrightarrow> decode fl child ! i < x - reference" by linarith
    then show "map (\<lambda>v. reference + v) (decode fl child) ! i < x \<longleftrightarrow>
        i < (if x \<le> reference then 0 else below (x - reference) (decode fl child))"
      using below_iff [OF sortedc i, of "x - reference"] i by auto
  qed
  then show "lower_bound fl (FoR reference child) x = Some (below x (decode fl (FoR reference child)))"
    using c(4) [OF sortedc] by simp
qed

lemma chunk_index: "div_ceil n FL_CHUNK \<le> m \<Longrightarrow> p < n \<Longrightarrow> p div FL_CHUNK < m"
proof -
  assume "div_ceil n FL_CHUNK \<le> m" "p < n"
  then have "p < m * FL_CHUNK" by (simp add: div_ceil_le_iff FL_CHUNK_def)
  then show ?thesis by (simp add: less_mult_imp_div_less)
qed

lemma ok_ChunkedFoR:
  assumes "ok_node fl references" "ok_node fl child"
  shows "ok_node fl (ChunkedFoR references offset child)"
proof (rule ok_nodeI)
  let ?n = "ChunkedFoR references offset child"
  assume wf: "wf_node fl ?n"
  then have wfs: "wf_node fl references" "wf_node fl child"
    and refs: "div_ceil (offset + node_len child) FL_CHUNK \<le> node_len references" by auto
  note r = ok_nodeD [OF assms(1) wfs(1)] and c = ok_nodeD [OF assms(2) wfs(2)]
  show len: "length (decode fl ?n) = node_len ?n" using c(1) by simp
  show "v \<le> u64_max" if v: "v \<in> set (decode fl ?n)" for v
  proof -
    have "v < 2 ^ 64" using v by auto
    then show ?thesis by (simp add: u64_max_def)
  qed
  show reads: "reads (value_at fl ?n) (decode fl ?n)"
    unfolding reads_def
  proof (intro allI impI)
    fix i assume "i < length (decode fl ?n)"
    then have i: "i < node_len child" using len by simp
    have "value_at fl references ((offset + i) div FL_CHUNK) =
        Some (decode fl references ! ((offset + i) div FL_CHUNK))"
      using r(5) chunk_index [OF refs, of "offset + i"] i by simp
    then show "value_at fl ?n i = Some (decode fl ?n ! i)"
      using c(5) [OF i] i c(1) by (simp add: nth_enumerate_eq)
  qed
  fix x assume sorted: "sorted (decode fl ?n)"
  show "lower_bound fl ?n x = Some (below x (decode fl ?n))"
    using partition_reads(1) [OF reads sorted, of x] len
    by (simp only: lower_bound.simps node_len.simps)
qed

lemma ok_Slice:
  assumes "ok_node fl child"
  shows "ok_node fl (Slice child start len)"
proof (rule ok_nodeI)
  let ?n = "Slice child start len"
  assume wf: "wf_node fl ?n"
  then have wfc: "wf_node fl child" and fit: "start + len \<le> node_len child" by auto
  note c = ok_nodeD [OF assms wfc]
  show length: "length (decode fl ?n) = node_len ?n" using c(1) fit by simp
  show "v \<le> u64_max" if "v \<in> set (decode fl ?n)" for v
    using that c(2) by (auto dest: in_take_drop)
  show reads: "reads (value_at fl ?n) (decode fl ?n)"
    using c(5) c(1) fit by (simp add: reads_def)
  fix x assume sorted: "sorted (decode fl ?n)"
  show "lower_bound fl ?n x = Some (below x (decode fl ?n))"
    using partition_reads(1) [OF reads sorted, of x] length
    by (simp only: lower_bound.simps node_len.simps value_at.simps)
qed

lemma ok_Dict:
  assumes "ok_node fl codes" "ok_node fl vs"
  shows "ok_node fl (Dict codes vs)"
proof (rule ok_nodeI)
  let ?n = "Dict codes vs"
  assume wf: "wf_node fl ?n"
  then have wfs: "wf_node fl codes" "wf_node fl vs"
    and fit: "\<And>code. code \<in> set (decode fl codes) \<Longrightarrow> code < node_len vs" by auto
  note c = ok_nodeD [OF assms(1) wfs(1)] and v = ok_nodeD [OF assms(2) wfs(2)]
  show len: "length (decode fl ?n) = node_len ?n" using c(1) by simp
  show "w \<le> u64_max" if "w \<in> set (decode fl ?n)" for w
    using that fit v(1,2) by auto
  have "value_at fl ?n i = Some (decode fl ?n ! i)" if "i < length (decode fl ?n)" for i
  proof -
    have i: "i < length (decode fl codes)" using that by simp
    have "decode fl codes ! i < node_len vs" by (rule fit) (rule nth_mem [OF i])
    then show ?thesis using readsD [OF c(3) i] v(5) i by simp
  qed
  then show reads: "reads (value_at fl ?n) (decode fl ?n)" by (simp add: reads_def)
  fix x assume sorted: "sorted (decode fl ?n)"
  show "lower_bound fl ?n x = Some (below x (decode fl ?n))"
    using partition_reads(1) [OF reads sorted, of x] len by simp
qed

lemma ok_Rle:
  assumes "ok_node fl vs" "ok_node fl indices" "ok_node fl value_offsets"
  shows "ok_node fl (Rle vs indices value_offsets base offset len)"
proof (rule ok_nodeI)
  let ?n = "Rle vs indices value_offsets base offset len"
  let ?vo = "decode fl value_offsets" and ?ix = "decode fl indices"
  assume wf: "wf_node fl ?n"
  then have wfs: "wf_node fl vs" "wf_node fl indices" "wf_node fl value_offsets"
    and fit: "offset + len \<le> node_len indices"
      "div_ceil (offset + len) FL_CHUNK \<le> node_len value_offsets"
    and at: "\<And>i. i < len \<Longrightarrow> base \<le> ?vo ! ((offset + i) div FL_CHUNK)"
      "\<And>i. i < len \<Longrightarrow> ?vo ! ((offset + i) div FL_CHUNK) - base + ?ix ! (offset + i) < node_len vs"
    by auto
  note v = ok_nodeD [OF assms(1) wfs(1)] and x = ok_nodeD [OF assms(2) wfs(2)]
    and o = ok_nodeD [OF assms(3) wfs(3)]
  show length: "length (decode fl ?n) = node_len ?n" by simp
  show "w \<le> u64_max" if w: "w \<in> set (decode fl ?n)" for w
  proof -
    obtain i where "i < len"
      "w = decode fl vs ! (?vo ! ((offset + i) div FL_CHUNK) - base + ?ix ! (offset + i))"
      using w by auto
    then show ?thesis using at(2) v(1) v(2) [OF nth_mem] by simp
  qed
  show reads: "reads (value_at fl ?n) (decode fl ?n)"
    unfolding reads_def
  proof (intro allI impI)
    fix i assume "i < length (decode fl ?n)"
    then have i: "i < len" by simp
    have "value_at fl value_offsets ((offset + i) div FL_CHUNK) =
        Some (?vo ! ((offset + i) div FL_CHUNK))"
      using o(5) chunk_index [OF fit(2), of "offset + i"] i by simp
    moreover have "value_at fl indices (offset + i) = Some (?ix ! (offset + i))"
      using x(5) fit(1) i by simp
    ultimately show "value_at fl ?n i = Some (decode fl ?n ! i)"
      using at [OF i] v(5) i by simp
  qed
  fix y assume sorted: "sorted (decode fl ?n)"
  show "lower_bound fl ?n y = Some (below y (decode fl ?n))"
    using partition_reads(1) [OF reads sorted, of y] length
    by (simp only: lower_bound.simps node_len.simps)
qed

text \<open>Patches, and the nodes they are written over.\<close>

lemma ok_PatchProbe:
  assumes "ok_node fl indices" "ok_node fl vs"
  shows "ok_patches fl (PatchProbe indices vs offset)"
  unfolding ok_patches_def
proof (intro allI impI)
  let ?p = "PatchProbe indices vs offset" and ?idx = "decode fl indices" and ?vs = "decode fl vs"
  fix len assume wf: "wf_patches fl len ?p"
  then have wfs: "wf_node fl indices" "wf_node fl vs" and lens: "node_len indices = node_len vs"
    and asc: "ascending ?idx" and fit: "\<And>i. i \<in> set ?idx \<Longrightarrow> offset \<le> i \<and> i < offset + len" by auto
  note x = ok_nodeD [OF assms(1) wfs(1)] and v = ok_nodeD [OF assms(2) wfs(2)]
  have len: "length ?idx = length ?vs" using x(1) v(1) lens by simp
  have "ascending (map fst (decode_patches fl ?p))"
    using ascending_minus [OF asc, of offset] fit len by simp
  moreover have "\<forall>(i, w) \<in> set (decode_patches fl ?p). i < len \<and> w \<le> u64_max"
  proof
    fix q assume q: "q \<in> set (decode_patches fl ?p)"
    obtain i w where iw: "q = (i, w)" by (cases q)
    have "i \<in> (\<lambda>i. i - offset) ` set ?idx"
      using set_zip_leftD [of i w "map (\<lambda>i. i - offset) ?idx" ?vs] q iw by simp
    moreover have "w \<in> set ?vs"
      using set_zip_rightD [of i w "map (\<lambda>i. i - offset) ?idx" ?vs] q iw by simp
    ultimately show "case q of (i, w) \<Rightarrow> i < len \<and> w \<le> u64_max"
      using fit v(2) iw by fastforce
  qed
  moreover have "patch_lookup fl ?p i = Some (map_of (decode_patches fl ?p) i)" for i
  proof -
    have lower: "lower_bound fl indices (i + offset) = Some (below (i + offset) ?idx)"
      by (rule x(4)) (rule ascending_sorted [OF asc])
    have "\<forall>y \<in> set ?idx. offset \<le> y" using fit by blast
    from lookup_reads [OF asc len this refl x(3) v(3), of i]
    show ?thesis by (simp only: patch_lookup.simps lower Option.bind.bind_lunit x(1) decode_patches.simps)
  qed
  ultimately show "ascending (map fst (decode_patches fl ?p)) \<and>
      (\<forall>(i, w) \<in> set (decode_patches fl ?p). i < len \<and> w \<le> u64_max) \<and>
      (\<forall>i. patch_lookup fl ?p i = Some (map_of (decode_patches fl ?p) i))" by blast
qed

lemma patched_bounded:
  assumes "\<forall>(i, w) \<in> set ps. i < len \<and> w \<le> u64_max" "\<forall>x \<in> set xs. x \<le> u64_max"
    "v \<in> set (apply_patches ps xs)"
  shows "v \<le> u64_max"
proof -
  consider "v \<in> set xs" | p where "p \<in> set ps" "v = snd p"
    using apply_patches_set [of ps xs] assms(3) by auto
  then show ?thesis using assms(1,2) by cases fastforce+
qed

lemma ok_Sparse:
  assumes "ok_patches fl patches"
  shows "ok_node fl (Sparse fill patches len)"
proof (rule ok_nodeI)
  let ?n = "Sparse fill patches len" and ?ps = "decode_patches fl patches"
  assume wf: "wf_node fl ?n"
  then have wfp: "wf_patches fl len patches" and fill: "fill \<le> u64_max" by auto
  have p: "ascending (map fst ?ps)" "\<forall>(i, w) \<in> set ?ps. i < len \<and> w \<le> u64_max"
    "\<And>i. patch_lookup fl patches i = Some (map_of ?ps i)"
    using assms wfp unfolding ok_patches_def by blast+
  show length: "length (decode fl ?n) = node_len ?n" by simp
  show "v \<le> u64_max" if "v \<in> set (decode fl ?n)" for v
    using patched_bounded [OF p(2), of "replicate len fill" v] that fill by simp
  show reads: "reads (value_at fl ?n) (decode fl ?n)"
    unfolding reads_def
    using p(3) apply_patches_nth [OF p(1), of _ "replicate len fill"]
    by (auto split: option.splits)
  fix x assume sorted: "sorted (decode fl ?n)"
  show "lower_bound fl ?n x = Some (below x (decode fl ?n))"
    using partition_reads(1) [OF reads sorted, of x] length
    by (simp only: lower_bound.simps node_len.simps)
qed

lemma lawful_single:
  assumes "lawful fl" "bw \<le> 8 * word_bytes w"
  shows "unpack_single fl (word_bytes w) ws bw i \<le> u64_max"
proof -
  have "unpack_single fl (word_bytes w) ws bw i < 2 ^ (8 * word_bytes w)"
    using assms word_bytes_cases [of w] unfolding lawful_def by blast
  then show ?thesis by (rule fits_u64 [OF word_bytes_cases])
qed

lemma packed_new_Some:
  assumes "packed_new packed bit_width offset len patches \<noteq> None"
  shows "bit_width \<le> 8 * word_bytes packed"
    "div_ceil (offset + len) FL_CHUNK * (128 * bit_width div word_bytes packed) \<le> words_len packed"
  using assms by (auto simp: packed_new_def Let_def split: if_splits)

lemma raw_packed_bounded:
  assumes "lawful fl" "bit_width \<le> 8 * word_bytes packed"
    "v \<in> set (raw_packed fl packed bit_width offset len)"
  shows "v \<le> u64_max"
  using assms(3) lawful_single [OF assms(1,2)] by (auto simp: raw_packed_def)

lemma length_raw_packed [simp]: "length (raw_packed fl packed bit_width offset len) = len"
  by (simp add: raw_packed_def)

lemma ok_PackedNode:
  assumes lawful: "lawful fl" and patches: "\<And>p. patches = Some p \<Longrightarrow> ok_patches fl p"
  shows "ok_packed fl (PackedNode packed bit_width offset len patches)"
  unfolding ok_packed_def
proof
  let ?n = "PackedNode packed bit_width offset len patches"
  let ?raw = "raw_packed fl packed bit_width offset len"
  assume wf: "wf_packed fl ?n"
  then have new: "packed_new packed bit_width offset len patches \<noteq> None" by simp
  note raw = raw_packed_bounded [OF lawful packed_new_Some(1) [OF new]]
  show "length (decode_packed fl ?n) = packed_len ?n \<and> (\<forall>v \<in> set (decode_packed fl ?n). v \<le> u64_max) \<and>
      reads (packed_value_at fl ?n) (decode_packed fl ?n)"
  proof (cases patches)
    case None
    then show ?thesis using raw by (auto simp: reads_def raw_packed_def)
  next
    case (Some p)
    let ?ps = "decode_patches fl p"
    have wfp: "wf_patches fl len p" using wf Some by simp
    have p: "ascending (map fst ?ps)" "\<forall>(i, w) \<in> set ?ps. i < len \<and> w \<le> u64_max"
      "\<And>i. patch_lookup fl p i = Some (map_of ?ps i)"
      using patches [OF Some] wfp unfolding ok_patches_def by blast+
    have "v \<le> u64_max" if "v \<in> set (apply_patches ?ps ?raw)" for v
      using patched_bounded [OF p(2) _ that] raw by blast
    moreover have "packed_value_at fl ?n i = Some (apply_patches ?ps ?raw ! i)" if "i < len" for i
      using p(3) apply_patches_nth [OF p(1), of i ?raw] that Some
      by (simp add: raw_packed_def split: option.splits)
    ultimately show ?thesis using Some by (simp add: reads_def)
  qed
qed

lemma ok_BitPacked:
  assumes "ok_packed fl p"
  shows "ok_node fl (BitPacked p)"
proof (rule ok_nodeI)
  assume wf: "wf_node fl (BitPacked p)"
  then have p: "length (decode_packed fl p) = packed_len p" "\<forall>v \<in> set (decode_packed fl p). v \<le> u64_max"
    "reads (packed_value_at fl p) (decode_packed fl p)"
    using assms by (auto simp: ok_packed_def)
  show "length (decode fl (BitPacked p)) = node_len (BitPacked p)" using p(1) by simp
  show "v \<le> u64_max" if "v \<in> set (decode fl (BitPacked p))" for v using p(2) that by simp
  show "reads (value_at fl (BitPacked p)) (decode fl (BitPacked p))" using p(3) by (simp add: reads_def)
  fix x assume "sorted (decode fl (BitPacked p))"
  then show "lower_bound fl (BitPacked p) x = Some (below x (decode fl (BitPacked p)))"
    using search_reads [OF p(3), of x] p(1) by simp
qed

text \<open>Delta blocks.\<close>

lemma width_bytes: "delta_bytes width \<in> {1, 2, 4, 8}"
  by (cases width) simp_all

lemma gather_slice:
  assumes "reads f xs" "(b + 1) * k \<le> length xs"
  shows "gather f (map (\<lambda>j. b * k + j) [0..<k]) = Some (take k (drop (b * k) xs))"
proof -
  have "gather f (map (\<lambda>j. b * k + j) [0..<k]) =
      Some (map ((!) xs) (map (\<lambda>j. b * k + j) [0..<k]))"
    by (rule gather_Some) (use readsD [OF assms(1)] assms(2) in auto)
  moreover have "map ((!) xs) (map (\<lambda>j. b * k + j) [0..<k]) = take k (drop (b * k) xs)"
    using assms(2) by (intro nth_equalityI) simp_all
  ultimately show ?thesis by simp
qed

lemma delta_new_Some:
  assumes "delta_new bases deltas width offset len \<noteq> None" "b < delta_blocks offset len"
  shows "(b + 1) * FL_CHUNK \<le> node_len deltas" "(b + 1) * delta_lanes width \<le> node_len bases"
proof -
  have "delta_blocks offset len * FL_CHUNK \<le> node_len deltas"
    "delta_blocks offset len * delta_lanes width \<le> node_len bases"
    using assms(1) by (auto simp: delta_new_def Let_def split: if_splits)
  moreover have "(b + 1) * k \<le> delta_blocks offset len * k" for k
    using assms(2) by (intro mult_le_mono1) simp
  ultimately show "(b + 1) * FL_CHUNK \<le> node_len deltas" "(b + 1) * delta_lanes width \<le> node_len bases"
    by (meson le_trans)+
qed

lemma raw_block_props:
  assumes "lawful fl" "(b + 1) * FL_CHUNK \<le> length ds"
  shows "length (raw_block fl width bs ds b) = FL_CHUNK"
    and "v \<in> set (raw_block fl width bs ds b) \<Longrightarrow> v \<le> u64_max"
proof -
  have len: "length (map (narrow width) (take FL_CHUNK (drop (b * FL_CHUNK) ds))) = FL_CHUNK"
    using assms(2) by simp
  then show "length (raw_block fl width bs ds b) = FL_CHUNK"
    using assms(1) width_bytes [of width] unfolding lawful_def raw_block_def by blast
  assume "v \<in> set (raw_block fl width bs ds b)"
  then have "v < 2 ^ (8 * delta_bytes width)"
    using assms(1) width_bytes [of width] len unfolding lawful_def raw_block_def by blast
  then show "v \<le> u64_max" by (rule fits_u64 [OF width_bytes])
qed

lemma concat_equal_blocks:
  assumes "\<And>b. b < n \<Longrightarrow> length (f b) = k" "0 < k"
  shows "length (concat (map f [0..<n])) = n * k"
    and "p < n * k \<Longrightarrow> concat (map f [0..<n]) ! p = f (p div k) ! (p mod k)"
proof -
  have both: "length (concat (map f [0..<n])) = n * k \<and>
      (p < n * k \<longrightarrow> concat (map f [0..<n]) ! p = f (p div k) ! (p mod k))"
    using assms(1)
  proof (induction n)
    case (Suc n)
    have IH: "length (concat (map f [0..<n])) = n * k"
      "p < n * k \<longrightarrow> concat (map f [0..<n]) ! p = f (p div k) ! (p mod k)" using Suc by simp_all
    show ?case
    proof (intro conjI impI)
      show "length (concat (map f [0..<Suc n])) = Suc n * k" using IH(1) Suc.prems by simp
      assume p: "p < Suc n * k"
      show "concat (map f [0..<Suc n]) ! p = f (p div k) ! (p mod k)"
      proof (cases "p < n * k")
        case True
        then show ?thesis using IH by (simp add: nth_append)
      next
        case False
        then have "p div k = n" using p assms(2)
          by (metis div_less_iff_less_mult less_Suc_eq)
        moreover from this have "p mod k = p - n * k" by (simp add: minus_div_mult_eq_mod [symmetric])
        ultimately show ?thesis using IH(1) False by (simp add: nth_append)
      qed
    qed
  qed simp
  then show "length (concat (map f [0..<n])) = n * k"
    "p < n * k \<Longrightarrow> concat (map f [0..<n]) ! p = f (p div k) ! (p mod k)" by simp_all
qed

lemma ok_DeltaNode:
  assumes lawful: "lawful fl" and oks: "ok_node fl bases" "ok_node fl deltas"
  shows "ok_delta fl (DeltaNode bases deltas width offset len)"
  unfolding ok_delta_def
proof
  let ?d = "DeltaNode bases deltas width offset len"
  let ?f = "raw_block fl width (decode fl bases) (decode fl deltas)"
  let ?n = "delta_blocks offset len"
  assume wf: "wf_delta fl ?d"
  then have new: "delta_new bases deltas width offset len \<noteq> None"
    and wfs: "wf_node fl bases" "wf_node fl deltas" by auto
  note bs = ok_nodeD [OF oks(1) wfs(1)] and ds = ok_nodeD [OF oks(2) wfs(2)]
  note fits = delta_new_Some [OF new]
  have block: "length (?f b) = FL_CHUNK" "v \<in> set (?f b) \<Longrightarrow> v \<le> u64_max" if "b < ?n" for b v
    using raw_block_props [OF lawful, of b "decode fl deltas"] fits(1) [OF that] ds(1) by simp_all
  have k: "0 < FL_CHUNK" by (simp add: FL_CHUNK_def)
  note blocks = concat_equal_blocks [of ?n ?f FL_CHUNK, OF block(1) k]
  have reach: "offset + len \<le> ?n * FL_CHUNK"
    using div_ceil_mult_ge [OF k, of "offset + len"] by (simp add: delta_blocks_def mult.commute)
  have len: "length (decode_delta fl ?d) = len" using blocks(1) reach by simp
  have "delta_value_at fl ?d i = Some (decode_delta fl ?d ! i)" if i: "i < len" for i
  proof -
    let ?b = "(offset + i) div FL_CHUNK"
    have pos: "offset + i < ?n * FL_CHUNK" using i reach by simp
    then have b: "?b < ?n" by (simp add: less_mult_imp_div_less)
    have "decode_block fl width (value_at fl bases) (value_at fl deltas) ?b = Some (?f ?b)"
      using gather_slice [OF ds(3), of ?b FL_CHUNK] gather_slice [OF bs(3), of ?b "delta_lanes width"]
        fits [OF b] ds(1) bs(1)
      by (simp add: decode_block_def raw_block_def)
    moreover have "(offset + i) mod FL_CHUNK < length (?f ?b)" using block(1) [OF b] k by simp
    moreover have "decode_delta fl ?d ! i = ?f ?b ! ((offset + i) mod FL_CHUNK)"
      using blocks(2) [OF _ pos] i len by simp
    ultimately show ?thesis using b by (simp add: buf_get_Some)
  qed
  moreover have "v \<le> u64_max" if "v \<in> set (decode_delta fl ?d)" for v
    using that block(2) by (auto dest!: in_take_drop)
  ultimately show "length (decode_delta fl ?d) = delta_len ?d \<and>
      (\<forall>v \<in> set (decode_delta fl ?d). v \<le> u64_max) \<and>
      reads (delta_value_at fl ?d) (decode_delta fl ?d)"
    using len by (simp add: reads_def)
qed

lemma ok_Delta:
  assumes "ok_delta fl d"
  shows "ok_node fl (Delta d)"
proof (rule ok_nodeI)
  assume wf: "wf_node fl (Delta d)"
  then have p: "length (decode_delta fl d) = delta_len d" "\<forall>v \<in> set (decode_delta fl d). v \<le> u64_max"
    "reads (delta_value_at fl d) (decode_delta fl d)"
    using assms by (auto simp: ok_delta_def)
  show "length (decode fl (Delta d)) = node_len (Delta d)" using p(1) by simp
  show "v \<le> u64_max" if "v \<in> set (decode fl (Delta d))" for v using p(2) that by simp
  show "reads (value_at fl (Delta d)) (decode fl (Delta d))" using p(3) by (simp add: reads_def)
  fix x assume "sorted (decode fl (Delta d))"
  then show "lower_bound fl (Delta d) x = Some (below x (decode fl (Delta d)))"
    using partition_reads(1) [OF p(3), of x] p(1) by simp
qed

text \<open>Chunked trees.\<close>

lemma decode_chunk_node: "decode_chunk fl ch = decode fl (chunk_node ch)"
  by (cases ch) simp

lemma wf_chunk_node: "wf_chunk fl ch = wf_node fl (chunk_node ch)"
  by (cases ch) simp

lemma sorted_concat_nth:
  assumes "sorted (concat xss)" "a \<le> b" "b < length xss" "i < length (xss ! a)" "j < length (xss ! b)"
    and "a < b \<or> i \<le> j"
  shows "xss ! a ! i \<le> xss ! b ! j"
  using assms
proof (induction xss arbitrary: a b)
  case (Cons xs xss)
  show ?case
  proof (cases b)
    case 0
    then show ?thesis using Cons.prems by (auto simp: sorted_append intro: sorted_nth_mono)
  next
    case (Suc b')
    show ?thesis
    proof (cases a)
      case 0
      have "xss ! b' ! j \<in> set (concat xss)" using Cons.prems Suc nth_mem by fastforce
      then show ?thesis using Cons.prems Suc 0 by (auto simp: sorted_append)
    next
      case (Suc a')
      then show ?thesis using Cons.IH [of a' b'] Cons.prems \<open>b = Suc b'\<close> by (auto simp: sorted_append)
    qed
  qed
qed simp

text \<open>In an ascending column cut into chunks, the first index at or past a needle lies in the first
  chunk whose last value reaches it.\<close>

lemma below_concat:
  fixes xss :: "nat list list" and x :: nat
  assumes "\<forall>xs \<in> set xss. xs \<noteq> []" "sorted (concat xss)"
  defines "c \<equiv> cut (\<lambda>c. last (xss ! c) < x) (length xss)"
  shows "below x (concat xss) =
    (if c = length xss then length (concat xss)
     else length (concat (take c xss)) + below x (xss ! c))"
proof -
  have upto: "below x (concat xss) = length (concat (take k xss)) + below x (concat (drop k xss))"
    if "k \<le> c" for k
    using that
  proof (induction k)
    case (Suc k)
    then have kc: "k < c" by simp
    then have k: "k < length xss" using cut_le [of "\<lambda>c. last (xss ! c) < x" "length xss"] c_def by simp
    have last: "last (xss ! k) < x" using cut_pass [of k "\<lambda>c. last (xss ! c) < x"] kc c_def by simp
    have sk: "sorted (xss ! k)"
      using assms(2) k id_take_nth_drop [OF k] by (metis concat.simps(2) concat_append sorted_append)
    have all: "v < x" if "v \<in> set (xss ! k)" for v
      using sorted_last_ge [OF sk that] last by simp
    have "below x (concat (drop k xss)) = length (xss ! k) + below x (concat (drop (Suc k) xss))"
      using all by (simp add: Cons_nth_drop_Suc [OF k, symmetric] takeWhile_append2)
    moreover have "length (concat (take (Suc k) xss)) = length (concat (take k xss)) + length (xss ! k)"
      by (simp add: take_Suc_conv_app_nth [OF k])
    ultimately show ?case using Suc by simp
  qed simp
  show ?thesis
  proof (cases "c = length xss")
    case True
    then show ?thesis using upto [of c] by simp
  next
    case False
    then have c: "c < length xss" using cut_le [of "\<lambda>c. last (xss ! c) < x" "length xss"] c_def by simp
    have "\<not> last (xss ! c) < x" using cut_fail [of "\<lambda>c. last (xss ! c) < x" "length xss"] c c_def by simp
    moreover have "last (xss ! c) \<in> set (xss ! c)" using assms(1) c by simp
    ultimately have "takeWhile (\<lambda>v. v < x) (xss ! c @ concat (drop (Suc c) xss)) =
        takeWhile (\<lambda>v. v < x) (xss ! c)"
      by (intro takeWhile_append1)
    then have "below x (concat (drop c xss)) = below x (xss ! c)"
      by (simp add: Cons_nth_drop_Suc [OF c, symmetric])
    then show ?thesis using upto [of c] False by simp
  qed
qed

lemma ok_Chunked:
  assumes oks: "\<And>ch. ch \<in> set chunks \<Longrightarrow> ok_chunk fl ch"
  shows "ok_node fl (Chunked chunks len)"
proof (rule ok_nodeI)
  let ?n = "Chunked chunks len" and ?xss = "map (decode_chunk fl) chunks"
  assume wf: "wf_node fl ?n"
  then have wfs: "\<And>ch. ch \<in> set chunks \<Longrightarrow> wf_chunk fl ch" and starts: "starts_at 0 chunks"
    and len: "len = sum_list (map (\<lambda>ch. node_len (chunk_node ch)) chunks)"
    by (auto simp: list_all_iff)
  have ch: "length (decode_chunk fl ch) = node_len (chunk_node ch)"
      "\<And>v. v \<in> set (decode_chunk fl ch) \<Longrightarrow> v \<le> u64_max"
      "reads (value_at fl (chunk_node ch)) (decode_chunk fl ch)"
      "\<And>x. sorted (decode_chunk fl ch) \<Longrightarrow>
         lower_bound fl (chunk_node ch) x = Some (below x (decode_chunk fl ch))"
    if "ch \<in> set chunks" for ch
    using ok_nodeD [of fl "chunk_node ch"] oks [OF that] wfs [OF that]
    by (simp_all add: ok_chunk_def decode_chunk_node wf_chunk_node)
  have lens: "\<forall>c < length chunks. length (?xss ! c) = node_len (chunk_node (chunks ! c))"
    using ch(1) by simp
  show length: "length (decode fl ?n) = node_len ?n"
    using ch(1) by (simp add: len length_concat comp_def cong: map_cong)
  show "v \<le> u64_max" if "v \<in> set (decode fl ?n)" for v using that ch(2) by auto
  have parts: "partition (length chunks)
      (\<lambda>c. do { ch \<leftarrow> buf_get chunks c; Some (chunk_start ch \<le> i) }) =
      Some (upto_value i (map chunk_start chunks))" for i
  proof -
    have "reads (\<lambda>c. map_option chunk_start (buf_get chunks c)) (map chunk_start chunks)"
      by (simp add: reads_def buf_get_Some)
    from partition_reads(2) [OF this, of i] starts_at_ascending [OF starts]
    have "partition (length chunks)
      (\<lambda>c. do { v \<leftarrow> map_option chunk_start (buf_get chunks c); Some (v \<le> i) }) =
      Some (upto_value i (map chunk_start chunks))" by (simp add: ascending_sorted)
    moreover have "do { v \<leftarrow> map_option chunk_start (buf_get chunks c); Some (v \<le> i) } =
        do { ch \<leftarrow> buf_get chunks c; Some (chunk_start ch \<le> i) }" for c
      by (cases "buf_get chunks c") simp_all
    ultimately show ?thesis by simp
  qed
  show "reads (value_at fl ?n) (decode fl ?n)"
    unfolding reads_def
  proof (intro allI impI)
    fix i assume i: "i < length (decode fl ?n)"
    obtain c start child where c: "upto_value i (map chunk_start chunks) = Suc c" "c < length chunks"
      "chunks ! c = Chunk start child" "start \<le> i" "i - start < node_len child"
      "concat ?xss ! i = ?xss ! c ! (i - start)"
      using chunk_of_row [OF starts _ lens, of i] i by auto
    have mem: "Chunk start child \<in> set chunks" using c(2,3) nth_mem by metis
    have "value_at fl child (i - start) = Some (decode fl child ! (i - start))"
      using ch(3) [OF mem] ch(1) [OF mem] c(5) by (simp add: reads_def)
    then show "value_at fl ?n i = Some (decode fl ?n ! i)"
      using c parts [of i] by (simp add: buf_get_Some)
  qed
  fix x assume sorted: "sorted (decode fl ?n)"
  let ?c = "cut (\<lambda>c. last (?xss ! c) < x) (length chunks)"
  have ne: "decode_chunk fl ch \<noteq> []" if "ch \<in> set chunks" for ch
  proof -
    note mem = that
    obtain c where "c < length chunks" "chunks ! c = ch" using mem by (auto simp: in_set_conv_nth)
    then show ?thesis using starts_at_nth [OF starts, of c] ch(1) [OF mem] by auto
  qed
  have part: "partition (length chunks) (\<lambda>c.
         case buf_get chunks c of
           None \<Rightarrow> None
         | Some (Chunk start child) \<Rightarrow>
             do { at \<leftarrow> usub (node_len child) 1; v \<leftarrow> value_at fl child at; Some (v < x) }) = Some ?c"
  proof (rule partition_cut)
    fix c assume c: "c < length chunks"
    obtain start child where cc: "chunks ! c = Chunk start child" by (cases "chunks ! c")
    have mem: "Chunk start child \<in> set chunks" using c cc nth_mem by metis
    have pos: "0 < node_len child" using starts_at_nth [OF starts c] cc by simp
    have "value_at fl child (node_len child - 1) = Some (last (decode fl child))"
      using readsD [OF ch(3) [OF mem], of "node_len child - 1"] ch(1) [OF mem] pos ne [OF mem]
      by (simp add: last_conv_nth)
    then show "(case buf_get chunks c of
           None \<Rightarrow> None
         | Some (Chunk start child) \<Rightarrow>
             do { at \<leftarrow> usub (node_len child) 1; v \<leftarrow> value_at fl child at; Some (v < x) }) =
        Some (last (?xss ! c) < x)"
      using c cc pos by (simp add: buf_get_Some Suc_leI)
  next
    show "first_pass (\<lambda>c. last (?xss ! c) < x) (length chunks)"
      unfolding first_pass_def
    proof (intro allI impI)
      fix a b assume ab: "a < b" "b < length chunks" "last (?xss ! b) < x"
      have "?xss ! a \<noteq> []" "?xss ! b \<noteq> []" using ne ab by simp_all
      then have "last (?xss ! a) \<le> last (?xss ! b)"
        using sorted_concat_nth [of ?xss a b "length (?xss ! a) - 1" "length (?xss ! b) - 1"] sorted ab
        by (simp add: last_conv_nth)
      then show "last (?xss ! a) < x" using ab(3) by simp
    qed
  qed
  have "below x (decode fl ?n) =
      (if ?c = length chunks then len
       else length (concat (take ?c ?xss)) + below x (?xss ! ?c))"
    using below_concat [of ?xss x] ne sorted length by simp
  moreover have "length (concat (take c ?xss)) + k = chunk_start (chunks ! c) + k"
    if "c < length chunks" for c k
    using starts_at_nth [OF starts that]
    by (simp add: length_concat take_map comp_def) (auto intro!: arg_cong [where f = sum_list] ch(1) dest: in_set_takeD)
  moreover have "?c \<noteq> length chunks \<Longrightarrow> ?c < length chunks"
    using cut_le [of "\<lambda>c. last (?xss ! c) < x" "length chunks"] by simp
  moreover have "lower_bound fl child x = Some (below x (?xss ! c))"
    if "c < length chunks" "chunks ! c = Chunk start child" for c start child
  proof -
    have mem: "Chunk start child \<in> set chunks" using that nth_mem by metis
    have "sorted (?xss ! c)"
      using sorted_concat_nth [of ?xss c c] sorted that(1)
      by (auto simp: sorted_iff_nth_mono)
    then show ?thesis using ch(4) [OF mem] that by simp
  qed
  ultimately show "lower_bound fl ?n x = Some (below x (decode fl ?n))"
    using part
    by (cases "chunks ! ?c") (auto simp: buf_get_Some)
qed

section \<open>Point reads and lower bounds of any tree\<close>

lemma every_node_ok:
  assumes "lawful fl"
  shows "ok_node fl n" "ok_packed fl p" "ok_patches fl q" "ok_delta fl d" "ok_chunk fl ch"
proof (induction n and p and q and d and ch)
  case (Chunk s child)
  then show ?case by (simp add: ok_chunk_def)
next
  case (PackedNode packed bit_width offset len patches)
  then show ?case by (intro ok_PackedNode [OF assms]) auto
next
  case (DeltaNode bases deltas width offset len)
  then show ?case by (intro ok_DeltaNode [OF assms])
qed (simp_all add: ok_Primitive ok_Constant ok_Sequence ok_RunEnd ok_FoR ok_ChunkedFoR ok_BitPacked
    ok_Slice ok_Chunked ok_Dict ok_Delta ok_Sparse ok_Rle ok_PatchProbe)

end
