(* ===== verification/Scans.thy ===== *)
theory Scans
  imports Nodes
begin

text \<open>
  Reading and searching a window of a probe tree (\<open>read_into\<close>, \<open>eq_into\<close> of
  \<open>src/encoded-search/src/node.rs\<close>, \<open>bitpacked.rs\<close> and \<open>delta.rs\<close>). A window read is written
  over an output slice; an equality search hands the matching offsets to a gatherer. Both work on
  the encoding: a run-end node walks its runs, a bit-packed node unpacks each part of a chunk by the
  read rule (one by one, at its positions, or the whole chunk), a dictionary searches its codes.
  The theory \<open>ScanValues\<close> shows that each is the plain read of, or search through, the decoded
  values.
\<close>

section \<open>The read rule\<close>

definition unpack_crossover :: "nat \<Rightarrow> nat" where
  "unpack_crossover bytes = (if bytes = 1 then 16 else if bytes = 2 then 32 else if bytes = 4 then 96 else 128)"

definition UNPACK_ONE_BY_ONE :: nat where
  "UNPACK_ONE_BY_ONE = 6"

definition PART_MAX :: nat where
  "PART_MAX = unpack_crossover 8"

datatype tier = OneByOne | Positions | WholeChunk

definition unpack_tier :: "nat \<Rightarrow> nat \<Rightarrow> tier" where
  "unpack_tier bytes values =
     (if values \<le> UNPACK_ONE_BY_ONE then OneByOne
      else if values \<le> unpack_crossover bytes then Positions
      else WholeChunk)"

text \<open>The chunks that positions \<open>first..stop\<close> touch, each with the part of its positions in range.\<close>

definition chunk_parts :: "nat \<Rightarrow> nat \<Rightarrow> (nat \<times> nat \<times> nat) list" where
  "chunk_parts first stop =
     map (\<lambda>c. let at = c * FL_CHUNK
              in (c, max first at - at, min stop (at + FL_CHUNK) - at))
       [first div FL_CHUNK..<div_ceil stop FL_CHUNK]"

section \<open>Packed windows\<close>

definition chunk_words :: "words \<Rightarrow> nat \<Rightarrow> nat \<Rightarrow> nat list option" where
  "chunk_words packed bit_width c =
     (let n = 128 * bit_width div word_bytes packed
      in buf_slice (word_values packed) (c * n) ((c + 1) * n))"

definition unpack_chunk :: "'k kernels_scheme \<Rightarrow> words \<Rightarrow> nat \<Rightarrow> nat \<Rightarrow> nat list option" where
  "unpack_chunk fl packed bit_width c =
     do { ws \<leftarrow> chunk_words packed bit_width c; Some (unpack_whole fl (word_bytes packed) bit_width ws) }"

text \<open>The static table of a chunk's positions.\<close>

definition POSITIONS :: "nat list" where
  "POSITIONS = [0..<FL_CHUNK]"

definition unpack_positions ::
    "'k kernels_scheme \<Rightarrow> words \<Rightarrow> nat \<Rightarrow> nat \<Rightarrow> nat \<times> nat \<Rightarrow> nat list option" where
  "unpack_positions fl packed bit_width c part =
     (if snd part - fst part \<le> PART_MAX
      then do {
        ws \<leftarrow> chunk_words packed bit_width c;
        ps \<leftarrow> buf_slice POSITIONS (fst part) (snd part);
        Some (unpack_indices fl (word_bytes packed) bit_width ws ps)
      }
      else None)"

definition unpack_each :: "'k kernels_scheme \<Rightarrow> words \<Rightarrow> nat \<Rightarrow> nat list \<Rightarrow> nat list" where
  "unpack_each fl packed bit_width is =
     map (\<lambda>i. unpack_single fl (word_bytes packed) (word_values packed) bit_width i) is"

text \<open>A part of at most the crossover's values; a longer one is unreachable.\<close>

definition read_short_part ::
    "'k kernels_scheme \<Rightarrow> words \<Rightarrow> nat \<Rightarrow> nat \<Rightarrow> nat \<times> nat \<Rightarrow> nat list option" where
  "read_short_part fl packed bit_width c part =
     (case unpack_tier (word_bytes packed) (snd part - fst part) of
        OneByOne \<Rightarrow>
          Some (unpack_each fl packed bit_width (map (\<lambda>i. c * FL_CHUNK + i) [fst part..<snd part]))
      | Positions \<Rightarrow> unpack_positions fl packed bit_width c part
      | WholeChunk \<Rightarrow> None)"

definition read_long_part ::
    "'k kernels_scheme \<Rightarrow> words \<Rightarrow> nat \<Rightarrow> nat \<Rightarrow> nat \<times> nat \<Rightarrow> nat list option" where
  "read_long_part fl packed bit_width c part =
     (if unpack_tier (word_bytes packed) (snd part - fst part) = WholeChunk
      then do { chunk \<leftarrow> unpack_chunk fl packed bit_width c; buf_slice chunk (fst part) (snd part) }
      else read_short_part fl packed bit_width c part)"

text \<open>The parts of the window \<open>first..first + n\<close>, each with its offset in the window: what the
  source hands to its closure.\<close>

definition read_parts ::
    "'k kernels_scheme \<Rightarrow> words \<Rightarrow> nat \<Rightarrow> nat \<Rightarrow> nat \<Rightarrow> (nat \<times> nat list) list option" where
  "read_parts fl packed bit_width first n =
     (let part = (\<lambda>read. gather (\<lambda>(c, lo, hi). do {
            at \<leftarrow> usub (c * FL_CHUNK + lo) first;
            vs \<leftarrow> read c (lo, hi);
            Some (at, vs)
          }) (chunk_parts first (first + n)))
      in case unpack_tier (word_bytes packed) n of
           OneByOne \<Rightarrow> Some [(0, unpack_each fl packed bit_width [first..<first + n])]
         | Positions \<Rightarrow> part (read_short_part fl packed bit_width)
         | WholeChunk \<Rightarrow> part (read_long_part fl packed bit_width))"

text \<open>Writing a part over the output, in range.\<close>

definition write_at :: "nat \<Rightarrow> nat list \<Rightarrow> nat list \<Rightarrow> nat list option" where
  "write_at at vs out =
     (if at + length vs \<le> length out then Some (take at out @ vs @ drop (at + length vs) out)
      else None)"

fun write_parts :: "(nat \<times> nat list) list \<Rightarrow> nat list \<Rightarrow> nat list option" where
  "write_parts [] out = Some out"
| "write_parts ((at, vs) # parts) out = do { out \<leftarrow> write_at at vs out; write_parts parts out }"

text \<open>The patches in range, found by one search and walked.\<close>

function overwrite_from ::
    "'k kernels_scheme \<Rightarrow> patch_probe \<Rightarrow> nat \<Rightarrow> nat \<Rightarrow> nat \<Rightarrow> nat list \<Rightarrow> nat list option" where
  "overwrite_from fl p first stop at out =
     (if at < node_len (pp_indices p)
      then do {
        key \<leftarrow> value_at fl (pp_indices p) at;
        if stop \<le> key then Some out
        else do {
          k \<leftarrow> usub key first;
          v \<leftarrow> value_at fl (pp_values p) at;
          out \<leftarrow> write_at k [v] out;
          overwrite_from fl p first stop (at + 1) out
        }
      }
      else Some out)"
  by pat_completeness auto
termination
  by (relation "measure (\<lambda>(fl, p, first, stop, at, out). node_len (pp_indices p) - at)") auto

declare overwrite_from.simps [simp del]

definition overwrite :: "'k kernels_scheme \<Rightarrow> patch_probe \<Rightarrow> nat \<Rightarrow> nat list \<Rightarrow> nat list option" where
  "overwrite fl p start out =
     do {
       let first = start + pp_offset p;
       at \<leftarrow> lower_bound fl (pp_indices p) first;
       overwrite_from fl p first (first + length out) at out
     }"

fun packed_read_into ::
    "'k kernels_scheme \<Rightarrow> packed_node \<Rightarrow> nat \<Rightarrow> nat list \<Rightarrow> nat list option" where
  "packed_read_into fl (PackedNode packed bit_width offset len patches) start out =
     do {
       out \<leftarrow> (if bit_width = 0 then Some (replicate (length out) 0)
          else let first = offset + start
               in if unpack_tier (word_bytes packed) (length out) = OneByOne
                  then Some (unpack_each fl packed bit_width [first..<first + length out])
                  else do {
                    parts \<leftarrow> read_parts fl packed bit_width first (length out);
                    write_parts parts out
                  });
       (case patches of None \<Rightarrow> Some out | Some p \<Rightarrow> overwrite fl p start out)
     }"

fun packed_eq_into ::
    "'k kernels_scheme \<Rightarrow> packed_node \<Rightarrow> nat \<Rightarrow> nat \<Rightarrow> nat \<Rightarrow> nat \<Rightarrow> sink \<Rightarrow> sink option" where
  "packed_eq_into fl (PackedNode packed bit_width offset len patches) start n needle base s =
     (if bit_width = 0 then Some (if needle = 0 then sink_run base (base + n) s else s)
      else if \<not> fits_word (word_bytes packed) needle then Some s
      else do {
        parts \<leftarrow> read_parts fl packed bit_width (offset + start) n;
        Some (fold (\<lambda>(at, vs) s. sink_matching (word_bytes packed) (base + at) vs needle s) parts s)
      })"

section \<open>Runs and delta blocks\<close>

text \<open>The runs a window reaches, each as its offsets in the window and its value. Run ends that no
  run carries to the window's end fail the walk.\<close>

function runs_from ::
    "nat \<Rightarrow> (nat \<Rightarrow> nat option) \<Rightarrow> (nat \<Rightarrow> nat option) \<Rightarrow> nat \<Rightarrow> nat \<Rightarrow> nat \<Rightarrow> nat \<Rightarrow>
       (nat \<times> nat \<times> nat) list option" where
  "runs_from nruns end_at value_of first stop run at =
     (if at < stop then
        (if run < nruns then
           do {
             e \<leftarrow> end_at run;
             e' \<leftarrow> clamp e at stop;
             v \<leftarrow> value_of run;
             rest \<leftarrow> runs_from nruns end_at value_of first stop (run + 1) e';
             Some ((at - first, e' - first, v) # rest)
           }
         else None)
      else Some [])"
  by pat_completeness auto
termination
  by (relation "measure (\<lambda>(nruns, end_at, value_of, first, stop, run, at). nruns - run)") auto

declare runs_from.simps [simp del]

definition runs_in ::
    "'k kernels_scheme \<Rightarrow> node \<Rightarrow> node \<Rightarrow> nat \<Rightarrow> nat \<Rightarrow> nat \<Rightarrow> (nat \<times> nat \<times> nat) list option" where
  "runs_in fl ends vs offset start len =
     do {
       let first = start + offset;
       run \<leftarrow> partition (node_len ends) (\<lambda>r. do { e \<leftarrow> value_at fl ends r; Some (e \<le> first) });
       runs_from (node_len ends) (value_at fl ends) (value_at fl vs) first (first + len) run first
     }"

definition delta_block :: "'k kernels_scheme \<Rightarrow> delta_node \<Rightarrow> nat \<Rightarrow> nat list option" where
  "delta_block fl d b =
     (if b < delta_blocks (dn_offset d) (dn_len d)
      then decode_block fl (dn_width d) (value_at fl (dn_bases d)) (value_at fl (dn_deltas d)) b
      else None)"

function delta_copy ::
    "'k kernels_scheme \<Rightarrow> delta_node \<Rightarrow> nat \<Rightarrow> nat \<Rightarrow> nat \<Rightarrow> nat list \<Rightarrow> nat list option" where
  "delta_copy fl d n physical done out =
     (if done < n then
        let at = physical mod FL_CHUNK;
            step = min (FL_CHUNK - at) (n - done)
        in do {
          block \<leftarrow> delta_block fl d (physical div FL_CHUNK);
          vs \<leftarrow> buf_slice block at (at + step);
          out \<leftarrow> write_at done vs out;
          delta_copy fl d n (physical + step) (done + step) out
        }
      else Some out)"
  by pat_completeness auto
termination
  by (relation "measure (\<lambda>(fl, d, n, physical, done, out). n - done)") (auto simp: FL_CHUNK_def)

declare delta_copy.simps [simp del]

definition delta_read_into :: "'k kernels_scheme \<Rightarrow> delta_node \<Rightarrow> nat \<Rightarrow> nat list \<Rightarrow> nat list option" where
  "delta_read_into fl d start out = delta_copy fl d (length out) (dn_offset d + start) 0 out"

section \<open>Windows of any node\<close>

text \<open>Filling the rows of each run.\<close>

definition fill_runs :: "(nat \<times> nat \<times> nat) list \<Rightarrow> nat list \<Rightarrow> nat list option" where
  "fill_runs runs out =
     write_parts (map (\<lambda>(lo, hi, v). (lo, replicate (hi - lo) v)) runs) out"

text \<open>The chunks of a tree that a window reaches are walked from the one that holds its first row:
  \<open>from\<close> is where the window enters a chunk, \<open>step\<close> how many of its values it takes.\<close>

definition first_chunk :: "probe_chunk list \<Rightarrow> nat \<Rightarrow> nat option" where
  "first_chunk chunks start =
     do {
       after \<leftarrow> partition (length chunks)
         (\<lambda>c. do { ch \<leftarrow> buf_get chunks c; Some (chunk_start ch \<le> start) });
       usub after 1
     }"

lemma size_list_drop [termination_simp]: "size_list size (drop c chunks) \<le> size_list size chunks"
  by (induction chunks arbitrary: c) (auto simp: drop_Cons split: nat.split intro: le_SucI trans_le_add2)

fun read_into :: "'k kernels_scheme \<Rightarrow> node \<Rightarrow> nat \<Rightarrow> nat list \<Rightarrow> nat list option"
  and read_chunks ::
    "'k kernels_scheme \<Rightarrow> probe_chunk list \<Rightarrow> nat \<Rightarrow> nat \<Rightarrow> nat list \<Rightarrow> nat list option" where
  "read_into fl n start out =
     (if out = [] then Some []
      else case n of
          Primitive w \<Rightarrow>
          words_read_into w start (length out)
        | Constant v len \<Rightarrow>
          Some (replicate (length out) v)
        | RunEnd ends vs offset len \<Rightarrow>
          do { runs \<leftarrow> runs_in fl ends vs offset start (length out); fill_runs runs out }
        | FoR reference child \<Rightarrow>
          do { out \<leftarrow> read_into fl child start out; Some (map (sat_add reference) out) }
        | ChunkedFoR references offset child \<Rightarrow>
          do {
            out \<leftarrow> read_into fl child start out;
            gather (\<lambda>(k, v). do {
                r \<leftarrow> value_at fl references ((offset + start + k) div FL_CHUNK);
                Some ((v + r) mod 2 ^ 64)
              }) (enumerate 0 out)
          }
        | BitPacked p \<Rightarrow>
          packed_read_into fl p start out
        | Slice child at len \<Rightarrow>
          read_into fl child (at + start) out
        | Chunked chunks len \<Rightarrow>
          do { c \<leftarrow> first_chunk chunks start; read_chunks fl (drop c chunks) start 0 out }
        | Dict codes vs \<Rightarrow>
          do { out \<leftarrow> read_into fl codes start out; gather (value_at fl vs) out }
        | Delta d \<Rightarrow>
          delta_read_into fl d start out
        | Sparse fill patches len \<Rightarrow>
          overwrite fl patches start (replicate (length out) fill)
        | Sequence base multiplier len \<Rightarrow>
          gather (\<lambda>k. value_at fl (Sequence base multiplier len) (start + k)) [0..<length out]
        | Rle vs indices value_offsets base offset len \<Rightarrow>
          gather (\<lambda>k. value_at fl (Rle vs indices value_offsets base offset len) (start + k))
            [0..<length out])"
| "read_chunks fl [] start done out = Some out"
| "read_chunks fl (Chunk at child # chunks) start done out =
     (if done < length out then
        do {
          from \<leftarrow> usub (start + done) at;
          rest \<leftarrow> usub (node_len child) from;
          let step = min rest (length out - done);
          window \<leftarrow> buf_slice out done (done + step);
          vs \<leftarrow> read_into fl child from window;
          out \<leftarrow> write_at done vs out;
          read_chunks fl chunks start (done + step) out
        }
      else Some out)"

section \<open>Searching a window\<close>

text \<open>\<open>eq_into_read\<close> reads the window a block at a time.\<close>

function eq_blocks ::
    "'k kernels_scheme \<Rightarrow> node \<Rightarrow> nat \<Rightarrow> nat \<Rightarrow> nat \<Rightarrow> nat \<Rightarrow> nat \<Rightarrow> sink \<Rightarrow> sink option" where
  "eq_blocks fl n start needle base at stop s =
     (if at < stop then
        let step = min (stop - at) FL_CHUNK
        in do {
          block \<leftarrow> read_into fl n at (replicate step 0);
          eq_blocks fl n start needle base (at + step) stop
            (sink_matching 8 (base + at - start) block needle s)
        }
      else Some s)"
  by pat_completeness auto
termination
  by (relation "measure (\<lambda>(fl, n, start, needle, base, at, stop, s). stop - at)")
     (auto simp: FL_CHUNK_def)

declare eq_blocks.simps [simp del]

definition eq_into_read ::
    "'k kernels_scheme \<Rightarrow> node \<Rightarrow> nat \<Rightarrow> nat \<Rightarrow> nat \<Rightarrow> nat \<Rightarrow> sink \<Rightarrow> sink option" where
  "eq_into_read fl n start len needle base s =
     eq_blocks fl n start needle base start (start + len) s"

definition eq_runs :: "nat \<Rightarrow> nat \<Rightarrow> (nat \<times> nat \<times> nat) list \<Rightarrow> sink \<Rightarrow> sink" where
  "eq_runs base needle runs s =
     fold (\<lambda>(lo, hi, v) s. if v = needle then sink_run (base + lo) (base + hi) s else s) runs s"

definition unpatched :: "packed_node \<Rightarrow> bool" where
  "unpatched p = (pk_patches p = None)"

text \<open>A dictionary of no more values than the window maps the needle to its code once.\<close>

function eq_into :: "'k kernels_scheme \<Rightarrow> node \<Rightarrow> nat \<Rightarrow> nat \<Rightarrow> nat \<Rightarrow> nat \<Rightarrow> sink \<Rightarrow> sink option"
  and eq_chunks ::
    "'k kernels_scheme \<Rightarrow> probe_chunk list \<Rightarrow> nat \<Rightarrow> nat \<Rightarrow> nat \<Rightarrow> nat \<Rightarrow> nat \<Rightarrow> sink \<Rightarrow> sink option" where
  "eq_into fl n start len needle base s =
     (if len = 0 then Some s
      else case n of
          Primitive w \<Rightarrow>
          words_eq_into w start len needle base s
        | Constant v clen \<Rightarrow>
          Some (if v = needle then sink_run base (base + len) s else s)
        | Sequence first multiplier slen \<Rightarrow>
          (case usub needle first of
             None \<Rightarrow> Some s
           | Some step \<Rightarrow>
               if multiplier = 0 then None
               else if step mod multiplier = 0 \<and> step div multiplier \<le> usize_max \<and>
                   start \<le> step div multiplier \<and> step div multiplier < start + len
               then do {
                 at \<leftarrow> usub (base + step div multiplier) start;
                 Some (sink_run at (at + 1) s)
               }
               else Some s)
        | RunEnd ends vs offset rlen \<Rightarrow>
          do { runs \<leftarrow> runs_in fl ends vs offset start len; Some (eq_runs base needle runs s) }
        | FoR reference child \<Rightarrow>
          (case usub needle reference of
             None \<Rightarrow> Some s
           | Some shifted \<Rightarrow> eq_into fl child start len shifted base s)
        | Slice child at slen \<Rightarrow>
          eq_into fl child (at + start) len needle base s
        | Chunked chunks clen \<Rightarrow>
          do { c \<leftarrow> first_chunk chunks start; eq_chunks fl (drop c chunks) start len 0 needle base s }
        | Dict codes vs \<Rightarrow>
          (if node_len vs \<le> len then
             do {
               found \<leftarrow> eq_into fl vs 0 (node_len vs) needle 0 (Codes NoCode);
               case found of
                 Codes NoCode \<Rightarrow> Some s
               | Codes (OneCode code) \<Rightarrow> eq_into fl codes start len code base s
               | _ \<Rightarrow> eq_into_read fl (Dict codes vs) start len needle base s
             }
           else eq_into_read fl (Dict codes vs) start len needle base s)
        | BitPacked p \<Rightarrow>
          (if unpatched p then packed_eq_into fl p start len needle base s
           else eq_into_read fl (BitPacked p) start len needle base s)
        | ChunkedFoR references offset child \<Rightarrow>
          eq_into_read fl (ChunkedFoR references offset child) start len needle base s
        | Delta d \<Rightarrow>
          eq_into_read fl (Delta d) start len needle base s
        | Sparse fill patches slen \<Rightarrow>
          eq_into_read fl (Sparse fill patches slen) start len needle base s
        | Rle vs indices value_offsets rbase offset rlen \<Rightarrow>
          eq_into_read fl (Rle vs indices value_offsets rbase offset rlen) start len needle base s)"
| "eq_chunks fl [] start len done needle base s = Some s"
| "eq_chunks fl (Chunk at child # chunks) start len done needle base s =
     (if done < len then
        do {
          from \<leftarrow> usub (start + done) at;
          rest \<leftarrow> usub (node_len child) from;
          let step = min rest (len - done);
          s \<leftarrow> eq_into fl child from step needle (base + done) s;
          eq_chunks fl chunks start len (done + step) needle base s
        }
      else Some s)"
  by pat_completeness auto
termination
proof (relation "measure (\<lambda>x. case x of Inl (fl, n, _) \<Rightarrow> size n | Inr (fl, chs, _) \<Rightarrow> size_list size chs)")
qed (auto simp: le_imp_less_Suc size_list_drop)

declare read_into.simps [simp del] eq_into.simps [simp del]

end
