(* ===== verification/ScanValues.thy ===== *)
theory ScanValues
  imports NodeValues Scans
begin

text \<open>
  Window reads and equality searches are right: reading a window of a well-formed tree writes its
  decoded values over the whole output, and searching it hands the gatherer exactly the offsets of
  the values equal to the needle, whichever route each node takes.
\<close>

section \<open>Parts end to end\<close>

abbreviation window_of :: "nat \<Rightarrow> nat \<Rightarrow> nat list \<Rightarrow> nat list" where
  "window_of start n xs \<equiv> take n (drop start xs)"

fun contiguous :: "nat \<Rightarrow> (nat \<times> nat list) list \<Rightarrow> bool" where
  "contiguous at [] = True"
| "contiguous at ((a, vs) # parts) = (a = at \<and> contiguous (at + length vs) parts)"

lemma write_parts_contiguous:
  "contiguous at parts \<Longrightarrow> at + length (concat (map snd parts)) \<le> length out \<Longrightarrow>
   write_parts parts out = Some (take at out @ concat (map snd parts) @
     drop (at + length (concat (map snd parts))) out)"
proof (induction at parts arbitrary: out rule: contiguous.induct)
  case (2 at a vs parts)
  then have "write_at a vs out = Some (take at out @ vs @ drop (at + length vs) out)"
    by (simp add: write_at_def)
  moreover have "write_parts parts (take at out @ vs @ drop (at + length vs) out) =
      Some (take (at + length vs) (take at out @ vs @ drop (at + length vs) out) @
        concat (map snd parts) @
        drop (at + length vs + length (concat (map snd parts))) (take at out @ vs @ drop (at + length vs) out))"
    using 2 by simp
  ultimately show ?case using 2(3) by (simp add: ac_simps)
qed simp

lemma write_parts_whole:
  "contiguous 0 parts \<Longrightarrow> length (concat (map snd parts)) = length out \<Longrightarrow>
   write_parts parts out = Some (concat (map snd parts))"
  using write_parts_contiguous [of 0 parts out] by simp

lemma match_parts_contiguous:
  "contiguous at parts \<Longrightarrow>
   fold (\<lambda>(a, vs) s. sink_matching bytes (base + a) vs needle s) parts s =
   sink_matching bytes (base + at) (concat (map snd parts)) needle s"
proof (induction at parts arbitrary: s rule: contiguous.induct)
  case (1 at)
  then show ?case using sink.matching_none [of needle "[]"] by simp
next
  case (2 at a vs parts)
  then show ?case
    using sink.matching_append [of bytes "base + at" vs "concat (map snd parts)" needle s]
    by (simp add: add.assoc)
qed

lemma match_bytes: "sink_matching bytes at vs needle s = sink_matching 8 at vs needle s"
  by (rule sink.matching_bytes)

text \<open>The parts of a range of positions, block by block.\<close>

lemma contiguous_blocks:
  assumes "0 < (k::nat)" "a \<le> b" "first < (a + 1) * k" "\<And>c. a < c \<Longrightarrow> c < b \<Longrightarrow> c * k \<le> stop"
  shows "contiguous (max first (a * k) - first)
      (map (\<lambda>c. (max first (c * k) - first, map f [max first (c * k)..<min stop (c * k + k)])) [a..<b])"
  using assms(2-4)
proof (induction "b - a" arbitrary: a)
  case 0
  then show ?case by simp
next
  case (Suc m)
  then have ab: "a < b" by simp
  have tail: "contiguous (max first (Suc a * k) - first)
      (map (\<lambda>c. (max first (c * k) - first, map f [max first (c * k)..<min stop (c * k + k)]))
        [Suc a..<b])"
    using Suc.hyps(2) Suc.prems by (intro Suc.hyps(1)) (auto simp: add_mult_distrib)
  show ?case
  proof (cases "Suc a < b")
    case True
    have "Suc a * k \<le> stop" by (rule Suc.prems(3)) (use True in simp_all)
    moreover have "first < Suc a * k" using Suc.prems(2) by simp
    ultimately have "max first (a * k) - first + (min stop (a * k + k) - max first (a * k)) =
        max first (Suc a * k) - first"
      by (auto simp: max_def min_def)
    then show ?thesis using tail ab by (simp add: upt_conv_Cons)
  next
    case False
    then have "b = Suc a" using ab by simp
    then show ?thesis by simp
  qed
qed

lemma block_bounds:
  assumes "0 < (k::nat)" "first < stop"
  shows "first div k \<le> div_ceil stop k" "first < (first div k + 1) * k"
    "c < div_ceil stop k \<Longrightarrow> c * k < stop"
    "concat (map (\<lambda>c. [max first (c * k)..<min stop (c * k + k)]) [first div k..<div_ceil stop k]) =
       [first..<stop]"
proof -
  show lt: "c < div_ceil stop k \<Longrightarrow> c * k < stop" for c
    using div_ceil_le_iff [OF assms(1), of stop c] by linarith
  have "\<not> div_ceil stop k \<le> first div k"
    using div_ceil_le_iff [OF assms(1), of stop "first div k"] assms(2)
      div_times_less_eq_dividend [of first k] by linarith
  then have less: "first div k < div_ceil stop k" by simp
  then show "first div k \<le> div_ceil stop k" by simp
  show "first < (first div k + 1) * k"
    using dividend_less_div_times [OF assms(1), of first] by (simp add: add.commute)
  have "concat (map (\<lambda>c. [max (c * k) first..<min (min ((c + 1) * k) stop) stop])
      [first div k..<div_ceil stop k]) =
      [max (first div k * k) first..<min (min (div_ceil stop k * k) stop) stop]"
    using concat_blocks [OF assms(1), of "first div k" "div_ceil stop k" first stop stop] less by simp
  moreover have "max (first div k * k) first = first" by simp
  moreover have "min (min (div_ceil stop k * k) stop) stop = stop"
    using div_ceil_mult_ge [OF assms(1), of stop] by (simp add: mult.commute)
  moreover have "max (c * k) first = max first (c * k)" "min (min ((c + 1) * k) stop) stop = min stop (c * k + k)" for c
    by (simp_all add: max.commute min.commute add.commute)
  ultimately show "concat (map (\<lambda>c. [max first (c * k)..<min stop (c * k + k)])
      [first div k..<div_ceil stop k]) = [first..<stop]" by simp
qed

section \<open>Packed parts\<close>

lemma tier_short:
  "n \<le> m \<Longrightarrow> unpack_tier bytes m \<noteq> WholeChunk \<Longrightarrow> unpack_tier bytes n \<noteq> WholeChunk"
  by (auto simp: unpack_tier_def split: if_splits)

lemma crossover_max: "unpack_crossover bytes \<le> PART_MAX"
  by (simp add: PART_MAX_def unpack_crossover_def)

lemma chunk_words_Some:
  assumes "(c + 1) * (128 * bw div word_bytes packed) \<le> words_len packed"
  shows "chunk_words packed bw c = Some (take (128 * bw div word_bytes packed)
    (drop (c * (128 * bw div word_bytes packed)) (word_values packed)))"
  using assms by (simp add: chunk_words_def Let_def buf_slice_def)

lemma lawful_whole:
  assumes "lawful fl" "bw \<le> 8 * word_bytes packed"
    and "(c + 1) * (128 * bw div word_bytes packed) \<le> words_len packed"
  shows "unpack_whole fl (word_bytes packed) bw (take (128 * bw div word_bytes packed)
      (drop (c * (128 * bw div word_bytes packed)) (word_values packed))) =
    map (\<lambda>i. unpack_single fl (word_bytes packed) (word_values packed) bw (c * FL_CHUNK + i)) [0..<FL_CHUNK]"
  using assms word_bytes_cases [of packed] unfolding lawful_def
  by (metis Suc_eq_plus1 length_word_values)

lemma lawful_indices:
  assumes "lawful fl" "\<forall>i \<in> set ps. i < FL_CHUNK"
  shows "unpack_indices fl bytes bw ws ps = map (\<lambda>i. unpack_whole fl bytes bw ws ! i) ps"
  using assms unfolding lawful_def by blast

lemma read_short_part_Some:
  assumes "lawful fl" "bw \<le> 8 * word_bytes packed"
    and "(c + 1) * (128 * bw div word_bytes packed) \<le> words_len packed"
    and part: "lo \<le> hi" "hi \<le> FL_CHUNK" "unpack_tier (word_bytes packed) (hi - lo) \<noteq> WholeChunk"
  shows "read_short_part fl packed bw c (lo, hi) =
    Some (unpack_each fl packed bw (map (\<lambda>i. c * FL_CHUNK + i) [lo..<hi]))"
proof (cases "unpack_tier (word_bytes packed) (hi - lo)")
  case Positions
  have "hi - lo \<le> PART_MAX"
    using Positions crossover_max [of "word_bytes packed"] by (simp add: unpack_tier_def split: if_splits)
  moreover have "buf_slice POSITIONS lo hi = Some [lo..<hi]"
    using part by (simp add: POSITIONS_def buf_slice_def slice_upt)
  moreover have "\<forall>i \<in> set [lo..<hi]. i < FL_CHUNK" using part by simp
  ultimately show ?thesis
    using Positions part lawful_indices [OF assms(1)]
    by (simp add: read_short_part_def unpack_positions_def chunk_words_Some [OF assms(3)]
        lawful_whole [OF assms(1-3)] unpack_each_def)
qed (use part in \<open>simp_all add: read_short_part_def\<close>)

lemma read_long_part_Some:
  assumes "lawful fl" "bw \<le> 8 * word_bytes packed"
    and "(c + 1) * (128 * bw div word_bytes packed) \<le> words_len packed"
    and part: "lo \<le> hi" "hi \<le> FL_CHUNK"
  shows "read_long_part fl packed bw c (lo, hi) =
    Some (unpack_each fl packed bw (map (\<lambda>i. c * FL_CHUNK + i) [lo..<hi]))"
proof (cases "unpack_tier (word_bytes packed) (hi - lo) = WholeChunk")
  case True
  have "buf_slice (map g [0..<FL_CHUNK]) lo hi = Some (map g [lo..<hi])" for g :: "nat \<Rightarrow> nat"
    using part by (simp add: buf_slice_def take_map drop_map slice_upt)
  then show ?thesis
    using True
    by (simp add: read_long_part_def unpack_chunk_def chunk_words_Some [OF assms(3)]
        lawful_whole [OF assms(1-3)] unpack_each_def)
next
  case False
  then show ?thesis using read_short_part_Some [OF assms] by (simp add: read_long_part_def)
qed

lemma map_shift: "map (\<lambda>i. a + i) [lo..<hi] = [a + lo..<a + (hi::nat)]"
  by (rule nth_equalityI) simp_all

text \<open>The reader \<open>read\<close> answers each part of a chunk with its unpacked values.\<close>

lemma gather_parts:
  assumes "first < stop"
    and read: "\<And>c lo hi. c < div_ceil stop FL_CHUNK \<Longrightarrow> lo \<le> hi \<Longrightarrow> hi \<le> FL_CHUNK \<Longrightarrow> hi - lo \<le> stop - first \<Longrightarrow>
      read c (lo, hi) = Some (unpack_each fl packed bw (map (\<lambda>i. c * FL_CHUNK + i) [lo..<hi]))"
  shows "\<exists>parts. gather (\<lambda>(c, lo, hi). do {
        at \<leftarrow> usub (c * FL_CHUNK + lo) first;
        vs \<leftarrow> read c (lo, hi);
        Some (at, vs)
      }) (chunk_parts first stop) = Some parts \<and> contiguous 0 parts \<and>
    concat (map snd parts) = unpack_each fl packed bw [first..<stop]"
proof -
  let ?k = FL_CHUNK and ?f = "\<lambda>i. unpack_single fl (word_bytes packed) (word_values packed) bw i"
  have k: "0 < ?k" by (simp add: FL_CHUNK_def)
  let ?cs = "[first div ?k..<div_ceil stop ?k]"
  let ?parts = "map (\<lambda>c. (max first (c * ?k) - first, map ?f [max first (c * ?k)..<min stop (c * ?k + ?k)])) ?cs"
  note bounds = block_bounds [OF k assms(1)]
  have each: "(case (c, max first (c * ?k) - c * ?k, min stop (c * ?k + ?k) - c * ?k) of (c, lo, hi) \<Rightarrow> do {
        at \<leftarrow> usub (c * ?k + lo) first;
        vs \<leftarrow> read c (lo, hi);
        Some (at, vs)
      }) = Some (max first (c * ?k) - first, map ?f [max first (c * ?k)..<min stop (c * ?k + ?k)])"
    if c: "c \<in> set ?cs" for c
  proof -
    let ?lo = "max first (c * ?k) - c * ?k" and ?hi = "min stop (c * ?k + ?k) - c * ?k"
    have cb: "first div ?k \<le> c" "c < div_ceil stop ?k" using c by auto
    have "(first div ?k + 1) * ?k \<le> (c + 1) * ?k" using cb(1) by (intro mult_le_mono1) simp
    from less_le_trans [OF bounds(2) this] have firstc: "first < c * ?k + ?k"
      by (simp add: add_mult_distrib add.commute)
    have stopc: "c * ?k < stop" by (rule bounds(3) [OF cb(2)])
    have lohi: "?lo \<le> ?hi" "?hi \<le> ?k" "?hi - ?lo \<le> stop - first"
      using firstc stopc assms(1) by linarith+
    have eq: "c * ?k + ?lo = max first (c * ?k)" "c * ?k + ?hi = min stop (c * ?k + ?k)"
      using stopc by simp_all
    have "map (\<lambda>i. c * ?k + i) [?lo..<?hi] = [c * ?k + ?lo..<c * ?k + ?hi]"
      by (rule map_shift)
    then have "read c (?lo, ?hi) =
        Some (map ?f [max first (c * ?k)..<min stop (c * ?k + ?k)])"
      using read [OF cb(2) lohi] by (simp only: unpack_each_def eq)
    then show ?thesis by (simp only: prod.case eq) (simp del: map_map)
  qed
  have "gather (\<lambda>(c, lo, hi). do {
        at \<leftarrow> usub (c * ?k + lo) first;
        vs \<leftarrow> read c (lo, hi);
        Some (at, vs)
      }) (chunk_parts first stop) = Some ?parts"
  proof -
    have gathered: "gather h (map g xs) = Some (map r xs)"
      if "\<And>x. x \<in> set xs \<Longrightarrow> h (g x) = Some (r x)" for h :: "nat \<times> nat \<times> nat \<Rightarrow> (nat \<times> nat list) option"
        and g :: "nat \<Rightarrow> nat \<times> nat \<times> nat" and r xs
      using that by (induction xs) auto
    show ?thesis unfolding chunk_parts_def Let_def by (rule gathered) (rule each)
  qed
  moreover have "contiguous 0 ?parts"
  proof -
    have "max first (first div ?k * ?k) - first = 0" by simp
    moreover have "c * ?k \<le> stop" if "c < div_ceil stop ?k" for c using bounds(3) [OF that] by simp
    ultimately show ?thesis
      using contiguous_blocks [OF k bounds(1,2), of stop ?f] by simp
  qed
  moreover have "concat (map snd ?parts) = unpack_each fl packed bw [first..<stop]"
  proof -
    have "concat (map snd ?parts) = map ?f (concat (map (\<lambda>c. [max first (c * ?k)..<min stop (c * ?k + ?k)]) ?cs))"
      by (simp add: map_concat comp_def)
    then show ?thesis by (simp only: bounds(4) unpack_each_def)
  qed
  ultimately show ?thesis by blast
qed

lemma read_parts_Some:
  assumes "lawful fl" "bw \<le> 8 * word_bytes packed"
    and words: "div_ceil (first + n) FL_CHUNK * (128 * bw div word_bytes packed) \<le> words_len packed"
  obtains parts where "read_parts fl packed bw first n = Some parts" "contiguous 0 parts"
    "concat (map snd parts) = unpack_each fl packed bw [first..<first + n]"
proof -
  let ?w = "128 * bw div word_bytes packed"
  have chunk: "(c + 1) * ?w \<le> words_len packed" if "c < div_ceil (first + n) FL_CHUNK" for c
  proof -
    have "(c + 1) * ?w \<le> div_ceil (first + n) FL_CHUNK * ?w" using that by (intro mult_le_mono1) simp
    then show ?thesis using words by linarith
  qed
  note short = read_short_part_Some [OF assms(1,2) chunk]
  note long = read_long_part_Some [OF assms(1,2) chunk]
  show thesis
  proof (cases "unpack_tier (word_bytes packed) n")
    case OneByOne
    then show ?thesis using that by (simp add: read_parts_def)
  next
    case Positions
    then have n: "first < first + n" by (auto simp: unpack_tier_def split: if_splits)
    have "hi - lo \<le> n \<Longrightarrow> unpack_tier (word_bytes packed) (hi - lo) \<noteq> WholeChunk" for lo hi
      using tier_short [of "hi - lo" n "word_bytes packed"] Positions by simp
    then show ?thesis
      using gather_parts [OF n, of "read_short_part fl packed bw" fl packed bw] short that Positions
      by (simp add: read_parts_def) blast
  next
    case WholeChunk
    then have n: "first < first + n" by (auto simp: unpack_tier_def split: if_splits)
    show ?thesis
      using gather_parts [OF n, of "read_long_part fl packed bw" fl packed bw] long that WholeChunk
      by (simp add: read_parts_def) blast
  qed
qed

lemma packed_parts_fit:
  assumes "packed_new packed bw offset len patches \<noteq> None" "start + n \<le> len"
  shows "div_ceil (offset + start + n) FL_CHUNK * (128 * bw div word_bytes packed) \<le> words_len packed"
proof -
  have "div_ceil (offset + start + n) FL_CHUNK \<le> div_ceil (offset + len) FL_CHUNK"
    using assms(2) by (auto simp: div_ceil_def intro!: div_le_mono)
  then have "div_ceil (offset + start + n) FL_CHUNK * (128 * bw div word_bytes packed) \<le>
      div_ceil (offset + len) FL_CHUNK * (128 * bw div word_bytes packed)"
    by (rule mult_le_mono1)
  then show ?thesis using packed_new_Some(2) [OF assms(1)] by linarith
qed

lemma raw_window:
  assumes "start + n \<le> len" "bw \<noteq> 0"
  shows "unpack_each fl packed bw [offset + start..<offset + start + n] =
    window_of start n (raw_packed fl packed bw offset len)"
  using assms by (intro nth_equalityI) (simp_all add: unpack_each_def raw_packed_def add.commute add.left_commute)

section \<open>Patches over a window\<close>

lemma write_one: "k < length out \<Longrightarrow> write_at k [v] out = Some (out[k := v])"
  by (simp add: write_at_def upd_conv_take_nth_drop)

text \<open>The walk over the patches writes those before the window's end, in order.\<close>

lemma overwrite_from_Some:
  assumes reads: "reads (value_at fl (pp_indices p)) idx" "reads (value_at fl (pp_values p)) vs"
    and len: "node_len (pp_indices p) = length idx" "length idx = length vs"
    and asc: "ascending idx" and "stop = first + length out"
    and "\<forall>i \<in> set (drop at idx). first \<le> i"
  shows "overwrite_from fl p first stop at out = Some (apply_patches
    (map (\<lambda>(i, v). (i - first, v)) (filter (\<lambda>(i, v). i < stop) (drop at (zip idx vs)))) out)"
  using assms(6,7)
proof (induction "length idx - at" arbitrary: at out)
  case 0
  then show ?case by (subst overwrite_from.simps) (simp add: len apply_patches_def)
next
  case (Suc m)
  then have at: "at < length idx" by simp
  have drop: "drop at (zip idx vs) = (idx ! at, vs ! at) # drop (Suc at) (zip idx vs)"
    using at len(2) by (simp add: Cons_nth_drop_Suc [symmetric])
  have first: "first \<le> idx ! at" using Suc.prems(2) at by (simp add: Cons_nth_drop_Suc [symmetric])
  show ?case
  proof (cases "stop \<le> idx ! at")
    case True
    have "stop \<le> i" if "i \<in> set (drop (Suc at) idx)" for i
    proof -
      obtain d where d: "d < length (drop (Suc at) idx)" "drop (Suc at) idx ! d = i"
        by (meson \<open>i \<in> set (drop (Suc at) idx)\<close> in_set_conv_nth)
      define j where "j = Suc at + d"
      have "at < j" "j < length idx" "idx ! j = i" using d by (simp_all add: j_def)
      then show ?thesis using ascending_nth_less [OF asc, of at j] True by simp
    qed
    then have "filter (\<lambda>(i, v). i < stop) (drop (Suc at) (zip idx vs)) = []"
      by (fastforce simp: filter_empty_conv drop_zip dest: set_zip_leftD)
    then show ?thesis
      using True at readsD [OF reads(1) at] drop
      by (subst overwrite_from.simps) (simp add: len apply_patches_def)
  next
    case False
    let ?out = "out[idx ! at - first := vs ! at]"
    have k: "idx ! at - first < length out" using False first Suc.prems(1) by linarith
    have "overwrite_from fl p first stop at out = overwrite_from fl p first stop (Suc at) ?out"
      using at False first k readsD [OF reads(1) at] readsD [OF reads(2), of at] len
      by (subst overwrite_from.simps) (simp add: write_one)
    also have "\<dots> = Some (apply_patches
        (map (\<lambda>(i, v). (i - first, v)) (filter (\<lambda>(i, v). i < stop) (drop (Suc at) (zip idx vs)))) ?out)"
    proof (rule Suc.hyps(1))
      show "m = length idx - Suc at" using Suc.hyps(2) by simp
      show "stop = first + length ?out" using Suc.prems(1) by simp
      show "\<forall>i \<in> set (drop (Suc at) idx). first \<le> i"
        using Suc.prems(2) at by (simp add: Cons_nth_drop_Suc [symmetric])
    qed
    finally show ?thesis using False drop by (simp add: apply_patches_def)
  qed
qed

lemma overwrite_window:
  assumes lawful: "lawful fl" and wf: "wf_patches fl len p"
    and fit: "start + length out \<le> len" and base: "out = window_of start (length out) xs" "length xs = len"
  shows "overwrite fl p start out = Some (window_of start (length out) (apply_patches (decode_patches fl p) xs))"
proof (cases p)
  case (PatchProbe indices vs offset)
  let ?idx = "decode fl indices" and ?vs = "decode fl vs" and ?first = "start + offset"
  have wfs: "wf_node fl indices" "wf_node fl vs" and lens: "node_len indices = node_len vs"
    and asc: "ascending ?idx" and in_range: "\<And>i. i \<in> set ?idx \<Longrightarrow> offset \<le> i \<and> i < offset + len"
    using wf PatchProbe by auto
  note x = ok_nodeD [OF every_node_ok(1) [OF lawful] wfs(1)]
    and v = ok_nodeD [OF every_node_ok(1) [OF lawful] wfs(2)]
  have len: "length ?idx = length ?vs" using x(1) v(1) lens by simp
  have sorted: "sorted ?idx" by (rule ascending_sorted [OF asc])
  let ?at = "below ?first ?idx"
  have after: "\<forall>i \<in> set (drop ?at ?idx). ?first \<le> i"
  proof
    fix i assume "i \<in> set (drop ?at ?idx)"
    then obtain j where "?at \<le> j" "j < length ?idx" "?idx ! j = i"
      by (auto simp: in_set_conv_nth) (metis add.commute le_add2 less_diff_conv)
    then show "?first \<le> i" using below_iff [OF sorted, of j ?first] by simp
  qed
  let ?ps = "map (\<lambda>(i, v). (i - ?first, v))
    (filter (\<lambda>(i, v). i < ?first + length out) (drop ?at (zip ?idx ?vs)))"
  have run: "overwrite fl p start out = Some (apply_patches ?ps out)"
    using overwrite_from_Some [of fl p ?idx ?vs "?first + length out" ?first out ?at] x v asc len after
      PatchProbe x(4) [OF sorted, of ?first]
    by (simp add: overwrite_def Let_def)
  have keys: "map fst (drop ?at (zip ?idx ?vs)) = drop ?at ?idx"
    using len by (simp add: drop_zip)
  have asc_ps: "ascending (map fst ?ps)"
  proof -
    have "map fst ?ps = map (\<lambda>i. i - ?first) (filter (\<lambda>i. i < ?first + length out) (drop ?at ?idx))"
      unfolding keys [symmetric] by (simp add: filter_map comp_def case_prod_beta')
    then show ?thesis
      using ascending_minus [of "filter (\<lambda>i. i < ?first + length out) (drop ?at ?idx)" ?first] after asc
      by (simp add: ascending_filter sorted_wrt_drop)
  qed
  have asc_all: "ascending (map fst (decode_patches fl p))"
    using ascending_minus [OF asc, of offset] in_range len PatchProbe by simp
  have same: "map_of ?ps k = map_of (decode_patches fl p) (start + k)" if k: "k < length out" for k
  proof -
    have mem: "(k, w) \<in> set ?ps \<longleftrightarrow> (start + k, w) \<in> set (decode_patches fl p)" for w
    proof -
      have zip_map: "zip (map (\<lambda>i. i - offset) ?idx) ?vs = map (\<lambda>(i, v). (i - offset, v)) (zip ?idx ?vs)"
        by (simp add: zip_map1)
      have key: "i = ?first + k" if "(i, w) \<in> set (zip ?idx ?vs)" "i - offset = start + k" for i
      proof -
        have "offset \<le> i" using in_range set_zip_leftD [OF that(1)] by blast
        then show ?thesis using that(2) by linarith
      qed
      have "(k, w) \<in> set ?ps \<longleftrightarrow> (?first + k, w) \<in> set (drop ?at (zip ?idx ?vs))"
      proof
        assume "(k, w) \<in> set ?ps"
        then obtain i where i: "(i, w) \<in> set (drop ?at (zip ?idx ?vs))" "k = i - ?first" by auto
        moreover have "i \<in> set (drop ?at ?idx)" using i(1) keys by (metis fst_conv image_eqI list.set_map)
        ultimately show "(?first + k, w) \<in> set (drop ?at (zip ?idx ?vs))" using after by auto
      qed (use k in force)
      also have "\<dots> \<longleftrightarrow> (?first + k, w) \<in> set (zip ?idx ?vs)"
      proof
        assume "(?first + k, w) \<in> set (zip ?idx ?vs)"
        then obtain j where j: "j < length ?idx" "?idx ! j = ?first + k" "?vs ! j = w" "j < length ?vs"
          by (auto simp: set_zip)
        have "?at \<le> j" using below_iff [OF sorted j(1), of ?first] j(2) by simp
        then have "drop ?at (zip ?idx ?vs) ! (j - ?at) = (?first + k, w)" "j - ?at < length (drop ?at (zip ?idx ?vs))"
          using j len by simp_all
        then show "(?first + k, w) \<in> set (drop ?at (zip ?idx ?vs))" by (metis nth_mem)
      qed (rule in_set_dropD)
      also have "\<dots> \<longleftrightarrow> (start + k, w) \<in> set (decode_patches fl p)"
      proof
        assume "(?first + k, w) \<in> set (zip ?idx ?vs)"
        then have "(\<lambda>(i, v). (i - offset, v)) (?first + k, w) \<in>
            (\<lambda>(i, v). (i - offset, v)) ` set (zip ?idx ?vs)" by (rule imageI)
        then show "(start + k, w) \<in> set (decode_patches fl p)" by (simp add: PatchProbe zip_map)
      next
        assume "(start + k, w) \<in> set (decode_patches fl p)"
        then obtain i where "(i, w) \<in> set (zip ?idx ?vs)" "i - offset = start + k"
          by (auto simp: PatchProbe zip_map)
        then show "(?first + k, w) \<in> set (zip ?idx ?vs)" using key by blast
      qed
      finally show ?thesis .
    qed
    have "map_of ?ps k = Some w \<longleftrightarrow> map_of (decode_patches fl p) (start + k) = Some w" for w
      using mem [of w] ascending_distinct [OF asc_ps] ascending_distinct [OF asc_all]
      by (simp only: map_of_eq_Some_iff)
    then show ?thesis by (metis not_None_eq)
  qed
  have "apply_patches ?ps out = window_of start (length out) (apply_patches (decode_patches fl p) xs)"
  proof (rule nth_equalityI)
    fix k assume "k < length (apply_patches ?ps out)"
    then have k: "k < length out" by simp
    have "out ! k = xs ! (start + k)" using base k by (metis add.commute fit le_add2 nth_drop nth_take order_trans)
    then show "apply_patches ?ps out ! k =
        window_of start (length out) (apply_patches (decode_patches fl p) xs) ! k"
      using k fit base(2) apply_patches_nth [OF asc_ps k] same [OF k]
        apply_patches_nth [OF asc_all, of "start + k" xs] by (simp split: option.split)
  qed (use fit base(2) in simp)
  then show ?thesis using run by simp
qed

section \<open>Packed windows\<close>

lemma packed_read_into_Some:
  assumes lawful: "lawful fl" and wf: "wf_packed fl p" and fit: "start + length out \<le> packed_len p"
  shows "packed_read_into fl p start out = Some (window_of start (length out) (decode_packed fl p))"
proof (cases p)
  case (PackedNode packed bw offset len patches)
  let ?raw = "raw_packed fl packed bw offset len"
  have new: "packed_new packed bw offset len patches \<noteq> None" using wf PackedNode by simp
  have fit': "start + length out \<le> len" using fit PackedNode by simp
  let ?first = "offset + start"
  have raw: "(if bw = 0 then Some (replicate (length out) 0)
      else if unpack_tier (word_bytes packed) (length out) = OneByOne
      then Some (unpack_each fl packed bw [?first..<?first + length out])
      else do { parts \<leftarrow> read_parts fl packed bw ?first (length out); write_parts parts out }) =
    Some (window_of start (length out) ?raw)"
  proof (cases "bw = 0")
    case True
    then show ?thesis using fit' by (simp add: raw_packed_def map_replicate_const)
  next
    case False
    obtain parts where parts: "read_parts fl packed bw ?first (length out) = Some parts" "contiguous 0 parts"
      "concat (map snd parts) = unpack_each fl packed bw [?first..<?first + length out]"
      using read_parts_Some [OF lawful packed_new_Some(1) [OF new], of ?first "length out"]
        packed_parts_fit [OF new fit'] by (auto simp: add.assoc)
    have "write_parts parts out = Some (concat (map snd parts))"
      using parts(3) by (intro write_parts_whole [OF parts(2)]) (simp add: unpack_each_def)
    then show ?thesis using False parts raw_window [OF fit' False] by simp
  qed
  have step: "packed_read_into fl p start out =
      (case patches of None \<Rightarrow> Some (window_of start (length out) ?raw)
       | Some q \<Rightarrow> overwrite fl q start (window_of start (length out) ?raw))"
    by (simp only: PackedNode packed_read_into.simps Let_def raw Option.bind.bind_lunit)
  show ?thesis
  proof (cases patches)
    case None
    then show ?thesis using step PackedNode by simp
  next
    case (Some q)
    have "wf_patches fl len q" using wf PackedNode Some by simp
    from overwrite_window [OF lawful this, of start "window_of start (length out) ?raw" ?raw] fit'
    show ?thesis using step PackedNode Some by simp
  qed
qed

lemma packed_eq_into_Some:
  assumes lawful: "lawful fl" and wf: "wf_packed fl p" and "unpatched p" and fit: "start + n \<le> packed_len p"
  shows "packed_eq_into fl p start n needle base s =
    Some (sink_matching 8 base (window_of start n (decode_packed fl p)) needle s)"
proof (cases p)
  case (PackedNode packed bw offset len patches)
  let ?raw = "raw_packed fl packed bw offset len" and ?first = "offset + start"
  have none: "patches = None" using assms(3) PackedNode by (simp add: unpatched_def)
  have new: "packed_new packed bw offset len patches \<noteq> None" using wf PackedNode by simp
  have fit': "start + n \<le> len" using fit PackedNode by simp
  have dec: "decode_packed fl p = ?raw" using PackedNode none by simp
  show ?thesis
  proof (cases "bw = 0")
    case True
    then have zeros: "window_of start n ?raw = replicate n 0"
      using fit' by (simp add: raw_packed_def map_replicate_const)
    show ?thesis
    proof (cases "needle = 0")
      case True
      then have "packed_eq_into fl p start n needle base s = Some (sink_run base (base + n) s)"
        using \<open>bw = 0\<close> PackedNode by simp
      then show ?thesis
        using True sink.matching_const [of 8 base n 0 s] by (simp add: dec zeros)
    next
      case False
      then have "needle \<notin> set (replicate n 0)" by simp
      moreover have "packed_eq_into fl p start n needle base s = Some s"
        using \<open>bw = 0\<close> PackedNode False by simp
      ultimately show ?thesis
        using sink.matching_none [of needle "replicate n 0" 8 base s] by (simp add: dec zeros)
    qed
  next
    case bw: False
    note bw_fits = packed_new_Some(1) [OF new]
    obtain parts where parts: "read_parts fl packed bw ?first n = Some parts" "contiguous 0 parts"
      "concat (map snd parts) = unpack_each fl packed bw [?first..<?first + n]"
      using read_parts_Some [OF lawful bw_fits, of ?first n] packed_parts_fit [OF new fit']
      by (auto simp: add.assoc)
    note vals = raw_window [OF fit' bw]
    show ?thesis
    proof (cases "fits_word (word_bytes packed) needle")
      case True
      then have "packed_eq_into fl p start n needle base s =
          Some (fold (\<lambda>(at, vs) s. sink_matching (word_bytes packed) (base + at) vs needle s) parts s)"
        using bw PackedNode parts(1) by simp
      then show ?thesis
        using match_parts_contiguous [OF parts(2), of "word_bytes packed" base needle s]
        by (simp add: dec parts(3) vals match_bytes [of "word_bytes packed"])
    next
      case False
      have "needle \<notin> set ?raw"
      proof
        assume "needle \<in> set ?raw"
        then obtain i where "needle = unpack_single fl (word_bytes packed) (word_values packed) bw i"
          using bw by (auto simp: raw_packed_def)
        moreover have "unpack_single fl (word_bytes packed) (word_values packed) bw i < 2 ^ (8 * word_bytes packed)" for i
          using lawful word_bytes_cases [of packed] bw_fits unfolding lawful_def by blast
        ultimately show False using False by (simp add: fits_word_def)
      qed
      then have "needle \<notin> set (window_of start n ?raw)" by (blast dest: in_take_drop)
      moreover have "packed_eq_into fl p start n needle base s = Some s"
        using bw False PackedNode by simp
      ultimately show ?thesis using sink.matching_none by (simp add: dec)
    qed
  qed
qed

section \<open>Runs of a window\<close>

lemma run_values: "(\<And>p. p \<in> set [a..<b] \<Longrightarrow> f p = v) \<Longrightarrow> map f [a..<b] = replicate (b - a) v"
  by (intro nth_equalityI) simp_all

lemma runs_from_Some:
  assumes reads: "reads f es" "reads g vs" and es: "ascending es" "length es = length vs"
    and "first \<le> at" "at \<le> stop" "at < stop \<longrightarrow> run = upto_value at es"
    and "es \<noteq> []" "stop \<le> last es"
  shows "\<exists>runs. runs_from (length es) f g first stop run at = Some runs \<and>
    contiguous (at - first) (map (\<lambda>(lo, hi, v). (lo, replicate (hi - lo) v)) runs) \<and>
    concat (map (\<lambda>(lo, hi, v). replicate (hi - lo) v) runs) = map (\<lambda>p. vs ! upto_value p es) [at..<stop]"
  using assms(5-7)
proof (induction "length es - run" arbitrary: run at rule: less_induct)
  case less
  show ?case
  proof (cases "at < stop")
    case False
    then show ?thesis by (subst runs_from.simps) simp
  next
    case True
    have sorted: "sorted es" by (rule ascending_sorted [OF es(1)])
    have run: "run = upto_value at es" using less.prems True by simp
    have last: "last es = es ! (length es - 1)" by (rule last_conv_nth [OF assms(8)])
    have "\<not> es ! (length es - 1) \<le> at" using True assms(9) last by simp
    then have "\<not> length es - 1 < run"
      using upto_iff [OF sorted, of "length es - 1" at] assms(8) run by simp
    then have rl: "run < length es" using assms(8) by (cases es) auto
    have gt: "at < es ! run" using upto_iff [OF sorted rl, of at] run by simp
    define e where "e = max at (min (es ! run) stop)"
    have e_min: "e = min (es ! run) stop" and e_gt: "at < e" using gt True by (simp_all add: e_def)
    have same: "upto_value p es = run" if "at \<le> p" "p < es ! run" for p
    proof (rule antisym)
      have "upto_value p es < Suc run"
        using upto_less_iff [OF es(1), of "Suc run" p] rl that(2) by simp
      then show "upto_value p es \<le> run" by simp
      show "run \<le> upto_value p es" unfolding run by (rule upto_mono [OF that(1)])
    qed
    have next_run: "Suc run = upto_value e es" if "e < stop"
    proof -
      have ee: "e = es ! run" using that e_min by simp
      show ?thesis
      proof (rule antisym)
        show "Suc run \<le> upto_value e es" using upto_iff [OF sorted rl, of e] ee by simp
        show "upto_value e es \<le> Suc run"
        proof (cases "Suc run < length es")
          case True
          then have "es ! run < es ! Suc run" using ascending_nth_less [OF es(1)] by simp
          then have "\<not> Suc run < upto_value e es" using upto_iff [OF sorted True, of e] ee by simp
          then show ?thesis by simp
        next
          case False
          then show ?thesis using upto_le [of e es] by simp
        qed
      qed
    qed
    obtain runs where runs: "runs_from (length es) f g first stop (Suc run) e = Some runs"
      "contiguous (e - first) (map (\<lambda>(lo, hi, v). (lo, replicate (hi - lo) v)) runs)"
      "concat (map (\<lambda>(lo, hi, v). replicate (hi - lo) v) runs) = map (\<lambda>p. vs ! upto_value p es) [e..<stop]"
    proof -
      have "length es - Suc run < length es - run" "first \<le> e" "e \<le> stop"
        "e < stop \<longrightarrow> Suc run = upto_value e es"
        using rl less.prems(1) e_gt e_min next_run by auto
      from less.hyps [OF this] show thesis using that by blast
    qed
    have step: "runs_from (length es) f g first stop run at =
        Some ((at - first, e - first, vs ! run) # runs)"
      using True rl readsD [OF reads(1) rl] readsD [OF reads(2), of run] es(2) runs(1)
      by (subst runs_from.simps) (simp add: clamp_def e_def [symmetric])
    have bounds: "at \<le> e" "e \<le> stop" using e_gt e_min by simp_all
    have "map (\<lambda>p. vs ! upto_value p es) [at..<stop] =
        map (\<lambda>p. vs ! upto_value p es) [at..<e] @ map (\<lambda>p. vs ! upto_value p es) [e..<stop]"
      using upt_split [OF bounds] by (metis map_append)
    moreover have "map (\<lambda>p. vs ! upto_value p es) [at..<e] = replicate (e - at) (vs ! run)"
      by (rule run_values) (use same e_min in auto)
    moreover have "e - first - (at - first) = e - at" "at - first + (e - at) = e - first"
      using less.prems(1) bounds by linarith+
    ultimately show ?thesis using step runs(2,3) by simp
  qed
qed

lemma runs_in_Some:
  assumes lawful: "lawful fl" and wf: "wf_node fl (RunEnd ends vs offset len)"
    and fit: "start + n \<le> len" "0 < n"
  obtains runs where "runs_in fl ends vs offset start n = Some runs"
    "contiguous 0 (map (\<lambda>(lo, hi, v). (lo, replicate (hi - lo) v)) runs)"
    "concat (map (\<lambda>(lo, hi, v). replicate (hi - lo) v) runs) =
       window_of start n (decode fl (RunEnd ends vs offset len))"
proof -
  let ?es = "decode fl ends" and ?vs = "decode fl vs" and ?first = "start + offset"
  have wfs: "wf_node fl ends" "wf_node fl vs" and lens: "node_len ends = node_len vs" and
    asc: "ascending ?es" "\<forall>e \<in> set ?es. 0 < e" and
    win: "0 < len \<longrightarrow> ?es \<noteq> [] \<and> offset + len \<le> last ?es" using wf by auto
  note es = ok_nodeD [OF every_node_ok(1) [OF lawful] wfs(1)]
    and vs = ok_nodeD [OF every_node_ok(1) [OF lawful] wfs(2)]
  have len: "length ?es = length ?vs" using es(1) vs(1) lens by simp
  have pos: "?es \<noteq> []" "?first + n \<le> last ?es" using win fit by auto
  have "partition (node_len ends) (\<lambda>r. do { e \<leftarrow> value_at fl ends r; Some (e \<le> ?first) }) =
      Some (upto_value ?first ?es)"
    using partition_reads(2) [OF es(3) ascending_sorted [OF asc(1)], of ?first] by (simp add: es(1))
  moreover obtain runs where runs: "runs_from (length ?es) (value_at fl ends) (value_at fl vs) ?first (?first + n)
      (upto_value ?first ?es) ?first = Some runs"
    "contiguous (?first - ?first) (map (\<lambda>(lo, hi, v). (lo, replicate (hi - lo) v)) runs)"
    "concat (map (\<lambda>(lo, hi, v). replicate (hi - lo) v) runs) =
       map (\<lambda>p. ?vs ! upto_value p ?es) [?first..<?first + n]"
    using runs_from_Some [OF es(3) vs(3) asc(1) len, of ?first ?first "?first + n" "upto_value ?first ?es"] pos
    by auto
  ultimately have run: "runs_in fl ends vs offset start n = Some runs"
    by (simp add: runs_in_def Let_def es(1))
  have "map (\<lambda>p. ?vs ! upto_value p ?es) [?first..<?first + n] =
      window_of start n (decode fl (RunEnd ends vs offset len))"
  proof (rule nth_equalityI)
    have "length (decode fl (RunEnd ends vs offset len)) = len"
      using run_window(1) [OF asc len win] by simp
    then show "length (map (\<lambda>p. ?vs ! upto_value p ?es) [?first..<?first + n]) =
        length (window_of start n (decode fl (RunEnd ends vs offset len)))"
      using fit by (simp del: decode.simps)
    fix i assume "i < length (map (\<lambda>p. ?vs ! upto_value p ?es) [?first..<?first + n])"
    then have i: "i < n" by simp
    have "window_of start n (decode fl (RunEnd ends vs offset len)) ! i =
        decode fl (RunEnd ends vs offset len) ! (start + i)"
      using i fit \<open>length (decode fl (RunEnd ends vs offset len)) = len\<close> by (simp del: decode.simps)
    also have "\<dots> = ?vs ! upto_value (offset + (start + i)) ?es"
      using run_window(2) [OF asc len win, of "start + i"] i fit by simp
    finally show "map (\<lambda>p. ?vs ! upto_value p ?es) [?first..<?first + n] ! i =
        window_of start n (decode fl (RunEnd ends vs offset len)) ! i"
      using i by (simp add: ac_simps)
  qed
  then show thesis using that [OF run] runs(2,3) by simp
qed

section \<open>Delta windows\<close>

lemma window_take_add:
  "a + b \<le> n \<Longrightarrow> window_of at a xs @ window_of (at + a) b xs = window_of at (a + b) xs"
  by (simp add: take_add add.commute)

lemma delta_blocks_Some:
  assumes lawful: "lawful fl" and wf: "wf_delta fl (DeltaNode bases deltas width offset len)"
    and b: "b < delta_blocks offset len"
  shows "decode_block fl width (value_at fl bases) (value_at fl deltas) b =
      Some (raw_block fl width (decode fl bases) (decode fl deltas) b)"
    and "length (raw_block fl width (decode fl bases) (decode fl deltas) b) = FL_CHUNK"
proof -
  have new: "delta_new bases deltas width offset len \<noteq> None"
    and wfs: "wf_node fl bases" "wf_node fl deltas" using wf by auto
  note bs = ok_nodeD [OF every_node_ok(1) [OF lawful] wfs(1)]
    and ds = ok_nodeD [OF every_node_ok(1) [OF lawful] wfs(2)]
  note fits = delta_new_Some [OF new b]
  show "decode_block fl width (value_at fl bases) (value_at fl deltas) b =
      Some (raw_block fl width (decode fl bases) (decode fl deltas) b)"
    using gather_slice [OF ds(3), of b FL_CHUNK] gather_slice [OF bs(3), of b "delta_lanes width"]
      fits ds(1) bs(1)
    by (simp add: decode_block_def raw_block_def)
  show "length (raw_block fl width (decode fl bases) (decode fl deltas) b) = FL_CHUNK"
    by (rule raw_block_props(1) [OF lawful]) (use fits(1) ds(1) in simp)
qed

lemma delta_copy_Some:
  assumes block: "\<And>b. b < nb \<Longrightarrow> delta_block fl d b = Some (f b)" "\<And>b. b < nb \<Longrightarrow> length (f b) = FL_CHUNK"
    and "length out = n" "done \<le> n" "physical + (n - done) \<le> nb * FL_CHUNK"
  shows "delta_copy fl d n physical done out =
    Some (take done out @ window_of physical (n - done) (concat (map f [0..<nb])))"
  using assms(3-5)
proof (induction "n - done" arbitrary: physical "done" out rule: less_induct)
  case less
  let ?xs = "concat (map f [0..<nb])"
  have k: "0 < FL_CHUNK" by (simp add: FL_CHUNK_def)
  note blocks = concat_equal_blocks [of nb f FL_CHUNK, OF block(2) k]
  show ?case
  proof (cases "done < n")
    case False
    then show ?thesis using less.prems by (subst delta_copy.simps) simp
  next
    case True
    define b where "b = physical div FL_CHUNK"
    define at where "at = physical mod FL_CHUNK"
    define step where "step = min (FL_CHUNK - at) (n - done)"
    have at: "at < FL_CHUNK" "physical = b * FL_CHUNK + at" using k by (simp_all add: at_def b_def)
    have step: "0 < step" "at + step \<le> FL_CHUNK" "done + step \<le> n"
      using at(1) True by (auto simp: step_def)
    have "physical < nb * FL_CHUNK" using less.prems(3) True by linarith
    then have b: "b < nb" unfolding b_def by (simp add: less_mult_imp_div_less)
    have "(b + 1) * FL_CHUNK \<le> nb * FL_CHUNK" using b by (intro mult_le_mono1) simp
    then have end_b: "b * FL_CHUNK + FL_CHUNK \<le> nb * FL_CHUNK" by (simp add: add_mult_distrib)
    have vs: "window_of at step (f b) = window_of physical step ?xs"
    proof (rule nth_equalityI)
      show "length (window_of at step (f b)) = length (window_of physical step ?xs)"
        using step(2) block(2) [OF b] blocks(1) end_b at(2) by simp
      fix i assume "i < length (window_of at step (f b))"
      then have i: "i < step" "at + i < FL_CHUNK" using step(2) block(2) [OF b] by auto
      have p: "physical + i < nb * FL_CHUNK" using i(2) at(2) end_b by linarith
      have q: "physical + i = (at + i) + b * FL_CHUNK" using at(2) by simp
      have "(physical + i) div FL_CHUNK = b" "(physical + i) mod FL_CHUNK = at + i"
        unfolding q using i(2) k by simp_all
      then have "?xs ! (physical + i) = f b ! (at + i)" using blocks(2) [OF _ p] by simp
      then show "window_of at step (f b) ! i = window_of physical step ?xs ! i"
        using i step(2) block(2) [OF b] blocks(1) p by simp
    qed
    define out' where "out' = take done out @ window_of at step (f b) @ drop (done + step) out"
    have len_vs: "length (window_of at step (f b)) = step" using step(2) block(2) [OF b] by simp
    have out': "length out' = n" using less.prems(1) step(3) len_vs by (simp add: out'_def)
    have "delta_copy fl d n physical done out = delta_copy fl d n (physical + step) (done + step) out'"
      using True block(1) [OF b] step len_vs less.prems(1) block(2) [OF b]
      by (subst delta_copy.simps)
         (simp add: Let_def b_def [symmetric] at_def [symmetric] step_def [symmetric] buf_slice_def
           write_at_def out'_def)
    also have "\<dots> = Some (take (done + step) out' @ window_of (physical + step) (n - (done + step)) ?xs)"
      using less.prems step by (intro less.hyps out') auto
    also have "take (done + step) out' = take done out @ window_of physical step ?xs"
      using less.prems(1) step(3) len_vs by (simp add: out'_def vs)
    also have "(take done out @ window_of physical step ?xs) @ window_of (physical + step) (n - (done + step)) ?xs =
        take done out @ window_of physical (n - done) ?xs"
      using window_take_add [of step "n - (done + step)" n physical ?xs] step(3) by simp
    finally show ?thesis .
  qed
qed

lemma delta_read_into_Some:
  assumes lawful: "lawful fl" and wf: "wf_delta fl d" and fit: "start + length out \<le> delta_len d"
  shows "delta_read_into fl d start out = Some (window_of start (length out) (decode_delta fl d))"
proof (cases d)
  case (DeltaNode bases deltas width offset len)
  let ?f = "raw_block fl width (decode fl bases) (decode fl deltas)" and ?n = "delta_blocks offset len"
  have wf': "wf_delta fl (DeltaNode bases deltas width offset len)" using wf DeltaNode by simp
  have k: "0 < FL_CHUNK" by (simp add: FL_CHUNK_def)
  have reach: "offset + len \<le> ?n * FL_CHUNK"
    using div_ceil_mult_ge [OF k, of "offset + len"] by (simp add: delta_blocks_def mult.commute)
  have block: "delta_block fl d b = Some (?f b)" if "b < ?n" for b
    using delta_blocks_Some(1) [OF lawful wf' that] that by (simp add: DeltaNode delta_block_def)
  have fit': "start + length out \<le> len" using fit DeltaNode by simp
  have "delta_copy fl d (length out) (offset + start) 0 out =
      Some (take 0 out @ window_of (offset + start) (length out - 0) (concat (map ?f [0..<?n])))"
    using fit' reach
    by (intro delta_copy_Some block delta_blocks_Some(2) [OF lawful wf']) auto
  moreover have "window_of start (length out) (decode_delta fl d) =
      window_of (offset + start) (length out) (concat (map ?f [0..<?n]))"
    using fit' by (simp add: DeltaNode drop_take min_def add.commute)
  ultimately show ?thesis by (simp add: delta_read_into_def DeltaNode)
qed

section \<open>Chunks of a window\<close>

lemma starts_at_drop:
  "starts_at at chunks \<Longrightarrow> c < length chunks \<Longrightarrow> starts_at (chunk_start (chunks ! c)) (drop c chunks)"
proof (induction at chunks arbitrary: c rule: starts_at.induct)
  case (2 at start child chunks)
  then show ?case by (cases c) auto
qed simp

lemma first_chunk_Some:
  assumes lawful: "lawful fl" and wf: "wf_node fl (Chunked chunks len)"
    and start: "start < len"
  obtains c where "first_chunk chunks start = Some c" "c < length chunks"
    "chunk_start (chunks ! c) \<le> start" "start - chunk_start (chunks ! c) < node_len (chunk_node (chunks ! c))"
    "chunk_start (chunks ! c) + length (concat (map (decode_chunk fl) (drop c chunks))) = len"
    "\<And>n. window_of start n (concat (map (decode_chunk fl) chunks)) =
       window_of (start - chunk_start (chunks ! c)) n (concat (map (decode_chunk fl) (drop c chunks)))"
proof -
  let ?xss = "map (decode_chunk fl) chunks"
  have wfs: "\<And>ch. ch \<in> set chunks \<Longrightarrow> wf_chunk fl ch" and starts: "starts_at 0 chunks"
    using wf by (auto simp: list_all_iff)
  have ch: "length (decode_chunk fl ch) = node_len (chunk_node ch)" if "ch \<in> set chunks" for ch
    using ok_nodeD(1) [OF every_node_ok(1) [OF lawful], of "chunk_node ch"] wfs [OF that]
    by (simp add: decode_chunk_node wf_chunk_node)
  have lens: "\<forall>c < length chunks. length (?xss ! c) = node_len (chunk_node (chunks ! c))"
    using ch by simp
  have len: "length (concat ?xss) = len"
    using ok_nodeD(1) [OF every_node_ok(1) [OF lawful] wf] by simp
  obtain c s child where c: "upto_value start (map chunk_start chunks) = Suc c" "c < length chunks"
    "chunks ! c = Chunk s child" "s \<le> start" "start - s < node_len child"
    using chunk_of_row [OF starts _ lens, of start] start len by auto
  have "reads (\<lambda>c. map_option chunk_start (buf_get chunks c)) (map chunk_start chunks)"
    by (simp add: reads_def buf_get_Some)
  from partition_reads(2) [OF this, of start] starts_at_ascending [OF starts]
  have "partition (length chunks)
    (\<lambda>c. do { v \<leftarrow> map_option chunk_start (buf_get chunks c); Some (v \<le> start) }) = Some (Suc c)"
    by (simp add: ascending_sorted c(1))
  moreover have "do { v \<leftarrow> map_option chunk_start (buf_get chunks c); Some (v \<le> start) } =
      do { ch \<leftarrow> buf_get chunks c; Some (chunk_start ch \<le> start) }" for c
    by (cases "buf_get chunks c") simp_all
  ultimately have first: "first_chunk chunks start = Some c" by (simp add: first_chunk_def)
  have "length (concat (take c ?xss)) = s"
  proof -
    have "sum_list (map (\<lambda>ch. length (decode_chunk fl ch)) (take c chunks)) =
        sum_list (map (\<lambda>ch. node_len (chunk_node ch)) (take c chunks))"
      by (rule arg_cong [where f = sum_list]) (auto intro: ch dest: in_set_takeD)
    then show ?thesis
      using starts_at_nth [OF starts c(2)] c(3) by (simp add: length_concat take_map comp_def)
  qed
  moreover have split: "concat ?xss = concat (take c ?xss) @ concat (map (decode_chunk fl) (drop c chunks))"
    by (metis append_take_drop_id concat_append drop_map)
  ultimately show thesis
    using that [OF first c(2)] c(3-5) len by simp
qed

lemma read_chunks_Some:
  assumes child: "\<And>ch w at. ch \<in> set chunks \<Longrightarrow> at + length w \<le> node_len (chunk_node ch) \<Longrightarrow>
      read_into fl (chunk_node ch) at w = Some (window_of at (length w) (decode_chunk fl ch))"
    and len: "\<And>ch. ch \<in> set chunks \<Longrightarrow> length (decode_chunk fl ch) = node_len (chunk_node ch)"
    and "starts_at at0 chunks" "done \<le> length out" "at0 \<le> start + done"
    and "done < length out \<longrightarrow> chunks \<noteq> [] \<and> start + done - at0 < node_len (chunk_node (hd chunks))"
    and "start + length out \<le> at0 + length (concat (map (decode_chunk fl) chunks))"
  shows "read_chunks fl chunks start done out = Some (take done out @
    window_of (start + done - at0) (length out - done) (concat (map (decode_chunk fl) chunks)))"
  using assms
proof (induction chunks arbitrary: at0 "done" out)
  case Nil
  then show ?case by simp
next
  case (Cons ch chunks)
  obtain at child where ch: "ch = Chunk at child" by (cases ch)
  have at: "at = at0" and starts: "starts_at (at0 + node_len child) chunks" and pos: "0 < node_len child"
    using Cons.prems(3) ch by auto
  let ?xs = "decode fl child" and ?rest = "concat (map (decode_chunk fl) chunks)"
  have xs: "length ?xs = node_len child" using Cons.prems(2) [of ch] ch by simp
  show ?case
  proof (cases "done < length out")
    case False
    then show ?thesis using Cons.prems(4) ch by simp
  next
    case True
    define into where "into = start + done - at0"
    define step where "step = min (node_len child - into) (length out - done)"
    have into: "into < node_len child" "at0 \<le> start + done" "start + done = at0 + into"
      using Cons.prems(5,6) True ch by (simp_all add: into_def)
    have step: "0 < step" "into + step \<le> node_len child" "done + step \<le> length out"
      using into(1) True by (auto simp: step_def)
    define w where "w = take step (drop done out)"
    have w: "length w = step" "buf_slice out done (done + step) = Some w"
      using step(3) by (simp_all add: w_def buf_slice_def)
    have read: "read_into fl child into w = Some (window_of into step ?xs)"
      using Cons.prems(1) [of ch into w] ch w(1) step(2) by simp
    define vs where "vs = window_of into step ?xs"
    have vs: "length vs = step" using step(2) xs by (simp add: vs_def)
    define out' where "out' = take done out @ vs @ drop (done + step) out"
    have out': "length out' = length out" using vs step(3) by (simp add: out'_def)
    have here: "read_chunks fl (ch # chunks) start done out = read_chunks fl chunks start (done + step) out'"
      using True into step w(2) read vs at
      by (simp add: ch into_def [symmetric] Let_def step_def [symmetric] write_at_def vs_def [symmetric]
          out'_def)
    show ?thesis
    proof (cases "done + step = length out")
      case True
      have "read_chunks fl chunks start (done + step) out' = Some out'"
        using True out' by (cases chunks; cases "hd chunks") simp_all
      moreover have "out' = take done out @ window_of into (length out - done) (?xs @ ?rest)"
        using True step(2) xs by (simp add: out'_def vs_def) (metis add_diff_cancel_left')
      ultimately show ?thesis using here ch by (simp add: into_def)
    next
      case False
      then have cross: "into + step = node_len child"
        using step by (auto simp: step_def min_def split: if_splits)
      have rest: "start + length out \<le> at0 + node_len child + length ?rest"
        using Cons.prems(7) ch xs by simp
      have ne: "chunks \<noteq> []" using rest cross into(3) step(3) False by auto
      have hd: "0 < node_len (chunk_node (hd chunks))"
        using starts ne by (cases chunks; cases "hd chunks") auto
      have "read_chunks fl chunks start (done + step) out' = Some (take (done + step) out' @
          window_of (start + (done + step) - (at0 + node_len child)) (length out' - (done + step)) ?rest)"
        using out' step(3) cross into(3) ne hd rest Cons.prems(1,2)
        by (intro Cons.IH [OF _ _ starts]) auto
      moreover have "start + (done + step) - (at0 + node_len child) = 0" using cross into(3) by linarith
      moreover have "take (done + step) out' = take done out @ vs" using vs step(3) by (simp add: out'_def)
      moreover have "window_of into (length out - done) (?xs @ ?rest) = vs @ take (length out - (done + step)) ?rest"
      proof -
        have "length out + into - (done + node_len child) = length out - (done + step)"
          using cross step(3) by linarith
        then show ?thesis using cross xs step(3) by (simp add: vs_def)
      qed
      ultimately show ?thesis using here ch out' by (simp add: into_def)
    qed
  qed
qed

section \<open>Window reads of any tree\<close>

lemma size_patch_indices: "size (pp_indices p) < size p" "size (pp_values p) < size p"
  by (cases p; simp)+

lemma size_chunk_child: "ch \<in> set chunks \<Longrightarrow> size (chunk_node ch) < size (Chunked chunks len)"
proof -
  assume "ch \<in> set chunks"
  then have "size ch \<le> size_list size chunks" by (rule size_list_estimation') simp
  moreover have "size (chunk_node ch) < size ch" by (cases ch) simp
  ultimately show ?thesis by simp
qed

lemma window_map: "window_of start n (map g xs) = map g (window_of start n xs)"
  by (simp add: take_map drop_map)

lemma gather_reads:
  assumes "reads f xs" "start + n \<le> length xs"
  shows "gather (\<lambda>k. f (start + k)) [0..<n] = Some (window_of start n xs)"
proof -
  have "gather (\<lambda>k. f (start + k)) [0..<n] = Some (map (\<lambda>k. xs ! (start + k)) [0..<n])"
    by (rule gather_Some) (use readsD [OF assms(1)] assms(2) in auto)
  moreover have "map (\<lambda>k. xs ! (start + k)) [0..<n] = window_of start n xs"
    using assms(2) by (intro nth_equalityI) simp_all
  ultimately show ?thesis by simp
qed

lemma read_into_Some:
  assumes lawful: "lawful fl"
  shows "wf_node fl n \<Longrightarrow> start + length out \<le> node_len n \<Longrightarrow>
    read_into fl n start out = Some (window_of start (length out) (decode fl n))"
proof (induction "size n" arbitrary: n start out rule: less_induct)
  case less
  note ok = ok_nodeD [OF every_node_ok(1) [OF lawful]]
  have len: "length (decode fl n) = node_len n" by (rule ok(1) [OF less.prems(1)])
  note reads = ok(3) [OF less.prems(1)]
  show ?case
  proof (cases "out = []")
    case True
    then show ?thesis by (subst read_into.simps) simp
  next
    case ne: False
    then have pos: "0 < length out" by simp
    show ?thesis
    proof (cases n)
      case (Primitive w)
      then show ?thesis
        using ne less.prems(2) by (subst read_into.simps) (simp add: words_read_into_def buf_slice_def)
    next
      case (Constant v clen)
      then show ?thesis using ne less.prems(2) by (subst read_into.simps) simp
    next
      case (Sequence base multiplier slen)
      then show ?thesis
        using ne gather_reads [OF reads, of start "length out"] less.prems(2) len
        by (subst read_into.simps) simp
    next
      case (RunEnd ends vs offset rlen)
      obtain runs where runs: "runs_in fl ends vs offset start (length out) = Some runs"
        "contiguous 0 (map (\<lambda>(lo, hi, v). (lo, replicate (hi - lo) v)) runs)"
        "concat (map (\<lambda>(lo, hi, v). replicate (hi - lo) v) runs) =
           window_of start (length out) (decode fl n)"
        using runs_in_Some [OF lawful, of ends vs offset rlen start "length out"] less.prems pos RunEnd
        by auto
      have "fill_runs runs out = Some (concat (map snd (map (\<lambda>(lo, hi, v). (lo, replicate (hi - lo) v)) runs)))"
        unfolding fill_runs_def
      proof (rule write_parts_whole [OF runs(2)])
        have "length (concat (map (\<lambda>(lo, hi, v). replicate (hi - lo) v) runs)) = length out"
          using runs(3) less.prems(2) len by simp
        then show "length (concat (map snd (map (\<lambda>(lo, hi, v). (lo, replicate (hi - lo) v)) runs))) = length out"
          by (simp add: comp_def case_prod_beta')
      qed
      then show ?thesis
        using ne runs(1,3) RunEnd by (subst read_into.simps) (simp add: comp_def case_prod_beta')
    next
      case (FoR reference child)
      have wf: "wf_node fl child" and fit: "\<And>v. v \<in> set (decode fl child) \<Longrightarrow> reference + v \<le> u64_max"
        using less.prems(1) FoR by auto
      have "read_into fl child start out = Some (window_of start (length out) (decode fl child))"
        using less.hyps [of child] less.prems(2) wf FoR by simp
      moreover have "map (sat_add reference) (window_of start (length out) (decode fl child)) =
          map (\<lambda>v. reference + v) (window_of start (length out) (decode fl child))"
        using fit by (auto dest: in_take_drop)
      ultimately show ?thesis using ne FoR by (subst read_into.simps) (simp add: window_map)
    next
      case (ChunkedFoR references offset child)
      have wf: "wf_node fl child" "wf_node fl references"
        and refs: "div_ceil (offset + node_len child) FL_CHUNK \<le> node_len references"
        using less.prems(1) ChunkedFoR by auto
      have clen: "length (decode fl child) = node_len child" by (rule ok(1) [OF wf(1)])
      let ?xs = "window_of start (length out) (decode fl child)"
      let ?g = "\<lambda>(k, v). (v + decode fl references ! ((offset + start + k) div FL_CHUNK)) mod 2 ^ 64"
      have child: "read_into fl child start out = Some ?xs"
        using less.hyps [of child] less.prems(2) wf ChunkedFoR by simp
      have xs: "length ?xs = length out" using less.prems(2) clen ChunkedFoR by simp
      have "gather (\<lambda>(k, v). do {
             r \<leftarrow> value_at fl references ((offset + start + k) div FL_CHUNK);
             Some ((v + r) mod 2 ^ 64)
           }) (enumerate 0 ?xs) = Some (map ?g (enumerate 0 ?xs))"
      proof (rule gather_Some)
        fix kv assume "kv \<in> set (enumerate 0 ?xs)"
        obtain k v where kv': "kv = (k, v)" by (cases kv)
        then have "k < length out"
          using \<open>kv \<in> set (enumerate 0 ?xs)\<close> xs by (simp add: in_set_enumerate_eq)
        note kv = kv' this
        have "(offset + start + k) div FL_CHUNK < node_len references"
          by (rule chunk_index [OF refs]) (use kv less.prems(2) ChunkedFoR in simp)
        from ok(5) [OF wf(2) this]
        show "(case kv of (k, v) \<Rightarrow> do {
             r \<leftarrow> value_at fl references ((offset + start + k) div FL_CHUNK);
             Some ((v + r) mod 2 ^ 64)
           }) = Some (?g kv)" using kv by simp
      qed
      moreover have "map ?g (enumerate 0 ?xs) = window_of start (length out) (decode fl n)"
        using xs less.prems(2) clen ChunkedFoR
        by (intro nth_equalityI) (simp_all add: nth_enumerate_eq add.assoc)
      ultimately show ?thesis using ne child ChunkedFoR by (subst read_into.simps) simp
    next
      case (BitPacked p)
      then show ?thesis
        using ne packed_read_into_Some [OF lawful, of p start out] less.prems
        by (subst read_into.simps) simp
    next
      case (Slice child at slen)
      then have "read_into fl child (at + start) out =
          Some (window_of (at + start) (length out) (decode fl child))"
        using less.hyps [of child "at + start" out] less.prems by simp
      then show ?thesis
        using ne Slice less.prems(2) by (subst read_into.simps) (simp add: drop_take min_def add.commute)
    next
      case (Chunked chunks clen)
      have wfs: "\<And>ch. ch \<in> set chunks \<Longrightarrow> wf_node fl (chunk_node ch)" and starts: "starts_at 0 chunks"
        using less.prems(1) Chunked by (auto simp: list_all_iff wf_chunk_node)
      have wf: "wf_node fl (Chunked chunks clen)" using less.prems(1) by (simp only: Chunked)
      have "start + length out \<le> clen" using less.prems(2) Chunked by simp
      then have start: "start < clen" using pos by linarith
      obtain c where c: "first_chunk chunks start = Some c" "c < length chunks"
        "chunk_start (chunks ! c) \<le> start"
        "start - chunk_start (chunks ! c) < node_len (chunk_node (chunks ! c))"
        "chunk_start (chunks ! c) + length (concat (map (decode_chunk fl) (drop c chunks))) = clen"
        "\<And>n. window_of start n (concat (map (decode_chunk fl) chunks)) =
           window_of (start - chunk_start (chunks ! c)) n (concat (map (decode_chunk fl) (drop c chunks)))"
        by (rule first_chunk_Some [OF lawful wf start]) blast
      have "read_chunks fl (drop c chunks) start 0 out = Some (take 0 out @
          window_of (start + 0 - chunk_start (chunks ! c)) (length out - 0)
            (concat (map (decode_chunk fl) (drop c chunks))))"
      proof (rule read_chunks_Some)
        fix ch and w :: "nat list" and at
        assume ch: "ch \<in> set (drop c chunks)" and fit: "at + length w \<le> node_len (chunk_node ch)"
        then have mem: "ch \<in> set chunks" by (rule_tac in_set_dropD)
        show "read_into fl (chunk_node ch) at w = Some (window_of at (length w) (decode_chunk fl ch))"
          using less.hyps [of "chunk_node ch" at w] size_chunk_child [OF mem, of clen] wfs [OF mem] fit Chunked
          by (simp add: decode_chunk_node)
      next
        fix ch assume "ch \<in> set (drop c chunks)"
        then have mem: "ch \<in> set chunks" by (rule in_set_dropD)
        show "length (decode_chunk fl ch) = node_len (chunk_node ch)"
          using ok(1) [OF wfs [OF mem]] by (simp add: decode_chunk_node)
      next
        show "starts_at (chunk_start (chunks ! c)) (drop c chunks)" by (rule starts_at_drop [OF starts c(2)])
        show "0 < length out \<longrightarrow> drop c chunks \<noteq> [] \<and>
            start + 0 - chunk_start (chunks ! c) < node_len (chunk_node (hd (drop c chunks)))"
          using c(2,4) by (simp add: hd_drop_conv_nth)
        show "start + length out \<le> chunk_start (chunks ! c) +
            length (concat (map (decode_chunk fl) (drop c chunks)))"
          using c(5) less.prems(2) Chunked by simp
      qed (use c(3) in simp_all)
      then show ?thesis using ne c(1) c(6) Chunked by (subst read_into.simps) simp
    next
      case (Dict codes vs)
      have wf: "wf_node fl codes" "wf_node fl vs"
        and fit: "\<And>code. code \<in> set (decode fl codes) \<Longrightarrow> code < node_len vs"
        using less.prems(1) Dict by auto
      let ?cs = "window_of start (length out) (decode fl codes)"
      have "read_into fl codes start out = Some ?cs"
        using less.hyps [of codes] less.prems(2) wf Dict by simp
      moreover have "gather (value_at fl vs) ?cs = Some (map (\<lambda>code. decode fl vs ! code) ?cs)"
        by (rule gather_Some) (use ok(5) [OF wf(2)] fit in \<open>auto dest: in_take_drop\<close>)
      ultimately show ?thesis using ne Dict by (subst read_into.simps) (simp add: window_map)
    next
      case (Delta d)
      then show ?thesis
        using ne delta_read_into_Some [OF lawful, of d start out] less.prems
        by (subst read_into.simps) simp
    next
      case (Sparse fill patches slen)
      have wfp: "wf_patches fl slen patches" using less.prems(1) Sparse by simp
      have "replicate (length out) fill =
          window_of start (length (replicate (length out) fill)) (replicate slen fill)"
        using less.prems(2) Sparse by simp
      from overwrite_window [OF lawful wfp _ this] less.prems(2) Sparse
      have "overwrite fl patches start (replicate (length out) fill) =
          Some (window_of start (length out) (decode fl n))" by simp
      then show ?thesis using ne Sparse by (subst read_into.simps) simp
    next
      case (Rle vs indices value_offsets base offset rlen)
      then show ?thesis
        using ne gather_reads [OF reads, of start "length out"] less.prems(2) len
        by (subst read_into.simps) (simp del: decode.simps value_at.simps)
    qed
  qed
qed

section \<open>Equality searches of any tree\<close>

lemma eq_blocks_Some:
  assumes lawful: "lawful fl" and wf: "wf_node fl n" and fit: "stop \<le> node_len n"
    and "start \<le> at" "at \<le> stop"
  shows "eq_blocks fl n start needle base at stop s =
    Some (sink_matching 8 (base + at - start) (window_of at (stop - at) (decode fl n)) needle s)"
  using assms(4,5)
proof (induction "stop - at" arbitrary: at s rule: less_induct)
  case less
  have len: "length (decode fl n) = node_len n" by (rule ok_nodeD(1) [OF every_node_ok(1) [OF lawful] wf])
  show ?case
  proof (cases "at < stop")
    case False
    then show ?thesis
      using less.prems sink.matching_none [of needle "[]"] by (subst eq_blocks.simps) simp
  next
    case True
    define step where "step = min (stop - at) FL_CHUNK"
    have step: "0 < step" "at + step \<le> stop" using True by (auto simp: step_def FL_CHUNK_def)
    let ?block = "window_of at step (decode fl n)"
    have read: "read_into fl n at (replicate step 0) = Some ?block"
      using read_into_Some [OF lawful wf, of at "replicate step 0"] step fit by simp
    have "eq_blocks fl n start needle base at stop s =
        eq_blocks fl n start needle base (at + step) stop
          (sink_matching 8 (base + at - start) ?block needle s)"
      using True read by (subst eq_blocks.simps) (simp add: Let_def step_def [symmetric])
    also have "\<dots> = Some (sink_matching 8 (base + (at + step) - start)
        (window_of (at + step) (stop - (at + step)) (decode fl n)) needle
        (sink_matching 8 (base + at - start) ?block needle s))"
      using less.prems step by (intro less.hyps) auto
    also have "base + (at + step) - start = base + at - start + length ?block"
      using less.prems(1) step fit len by simp
    also have "sink_matching 8 (base + at - start + length ?block)
        (window_of (at + step) (stop - (at + step)) (decode fl n)) needle
        (sink_matching 8 (base + at - start) ?block needle s) =
      sink_matching 8 (base + at - start) (window_of at (stop - at) (decode fl n)) needle s"
      using sink.matching_append [of 8 "base + at - start" ?block] step(2)
        window_take_add [of step "stop - (at + step)" "stop - at" at "decode fl n"] by simp
    finally show ?thesis .
  qed
qed

lemma eq_into_read_Some:
  assumes "lawful fl" "wf_node fl n" "start + len \<le> node_len n"
  shows "eq_into_read fl n start len needle base s =
    Some (sink_matching 8 base (window_of start len (decode fl n)) needle s)"
  using eq_blocks_Some [OF assms(1,2), of "start + len" start start needle base s] assms(3)
  by (simp add: eq_into_read_def)

text \<open>Equal matches of two windows.\<close>

lemma match_cong:
  assumes "length xs = length ys" "\<And>k. k < length ys \<Longrightarrow> xs ! k = x \<longleftrightarrow> ys ! k = y"
  shows "sink_matching 8 at xs x s = sink_matching 8 at ys y s"
proof -
  have "filter (\<lambda>k. xs ! k = x) [0..<length xs] = filter (\<lambda>k. ys ! k = y) [0..<length ys]"
    using assms by (intro filter_cong) auto
  then show ?thesis by (simp add: sink.matching_each)
qed

lemma match_only:
  assumes "k < length xs" "\<And>j. j < length xs \<Longrightarrow> xs ! j = x \<longleftrightarrow> j = k"
  shows "sink_matching 8 at xs x s = sink_run (at + k) (at + k + 1) s"
proof -
  have "filter (\<lambda>j. xs ! j = x) [0..<length xs] = filter (\<lambda>j. j = k) [0..<length xs]"
    using assms(2) by (intro filter_cong) auto
  also have "\<dots> = [k]" by (rule ascending_unique) (use assms(1) in \<open>auto simp: ascending_filter\<close>)
  finally show ?thesis by (simp add: sink.matching_each sink.run_each)
qed

lemma match_const: "sink_matching 8 at (replicate n v) x s = (if v = x then sink_run at (at + n) s else s)"
  using sink.matching_const [of 8 at n v s] sink.matching_none [of x "replicate n v" 8 at s] by auto

lemma eq_runs_match:
  "eq_runs base needle runs s =
   fold (\<lambda>(at, vs) s. sink_matching 8 (base + at) vs needle s)
     (map (\<lambda>(lo, hi, v). (lo, replicate (hi - lo) v)) runs) s"
proof -
  have run: "sink_run (base + lo) (base + hi) s = sink_run (base + lo) (base + lo + (hi - lo)) s" for lo hi s
    by (cases "lo \<le> hi") (simp_all add: sink.run_empty)
  show ?thesis
    unfolding eq_runs_def fold_map comp_def
    by (rule arg_cong [where f = "\<lambda>f. fold f runs s"]) (auto simp: fun_eq_iff match_const run [symmetric])
qed

lemma words_eq_into_Some:
  assumes "start + len \<le> words_len w"
  shows "words_eq_into w start len needle base s =
    Some (sink_matching 8 base (window_of start len (word_values w)) needle s)"
proof (cases "fits_word (word_bytes w) needle")
  case True
  then show ?thesis
    using assms by (simp add: words_eq_into_def buf_slice_def match_bytes [of "word_bytes w"])
next
  case False
  have "needle \<notin> set (word_values w)" using word_values_fit [of needle w] False by (auto simp: fits_word_def)
  then have "needle \<notin> set (window_of start len (word_values w))" by (blast dest: in_take_drop)
  then show ?thesis using assms False sink.matching_none by (simp add: words_eq_into_def buf_slice_def)
qed

lemma sequence_match:
  assumes m: "0 < multiplier" and fit: "start + len \<le> slen" "slen \<le> usize_max"
  shows "(case usub needle first of
        None \<Rightarrow> Some s
      | Some step \<Rightarrow>
          if multiplier = 0 then None
          else if step mod multiplier = 0 \<and> step div multiplier \<le> usize_max \<and>
              start \<le> step div multiplier \<and> step div multiplier < start + len
          then do {
            at \<leftarrow> usub (base + step div multiplier) start;
            Some (sink_run at (at + 1) s)
          }
          else Some s) =
    Some (sink_matching 8 base (window_of start len (map (\<lambda>i. first + i * multiplier) [0..<slen])) needle s)"
proof -
  let ?xs = "window_of start len (map (\<lambda>i. first + i * multiplier) [0..<slen])"
  have xs: "length ?xs = len" "\<And>k. k < len \<Longrightarrow> ?xs ! k = first + (start + k) * multiplier"
    using fit by simp_all
  have none: "sink_matching 8 base ?xs needle s = s" if "\<And>k. k < len \<Longrightarrow> first + (start + k) * multiplier \<noteq> needle"
    using sink.matching_none [of needle ?xs 8 base s] that xs by (metis in_set_conv_nth)
  show ?thesis
  proof (cases "first \<le> needle")
    case False
    then show ?thesis using none by (simp add: usub_def)
  next
    case True
    define q where "q = (needle - first) div multiplier"
    define r where "r = (needle - first) mod multiplier"
    show ?thesis
    proof (cases "r = 0 \<and> start \<le> q \<and> q < start + len")
      case hit: True
      have val: "needle = first + q * multiplier"
        proof -
        have "needle - first = q * multiplier + r" by (simp add: q_def r_def)
        then show ?thesis using hit True by simp
      qed
      have "sink_matching 8 base ?xs needle s = sink_run (base + (q - start)) (base + (q - start) + 1) s"
      proof (rule match_only)
        show "q - start < length ?xs" using hit xs(1) by linarith
        fix j assume "j < length ?xs"
        then have j: "j < len" using xs(1) by simp
        have "first + (start + j) * multiplier = needle \<longleftrightarrow> (start + j) * multiplier = q * multiplier"
          using val by linarith
        also have "\<dots> \<longleftrightarrow> start + j = q" using m by simp
        finally show "?xs ! j = needle \<longleftrightarrow> j = q - start" using xs(2) [OF j] hit by auto
      qed
      moreover have "(r = 0 \<and> q \<le> usize_max \<and> start \<le> q \<and> q < start + len) = True"
        using hit fit by auto
      moreover have "usub (base + q) start = Some (base + (q - start))"
        using hit by (simp add: usub_def)
      moreover have "usub needle first = Some (needle - first)" using True by simp
      moreover have "(multiplier = 0) = False" using m by simp
      ultimately show ?thesis
        by (simp only: option.case q_def [symmetric] r_def [symmetric] if_True if_False
            Option.bind.bind_lunit)
    next
      case miss: False
      have "first + (start + k) * multiplier \<noteq> needle" if k: "k < len" for k
      proof
        assume eq: "first + (start + k) * multiplier = needle"
        then have "needle - first = (start + k) * multiplier" by simp
        then have "q = start + k" "r = 0" using m by (simp_all add: q_def r_def)
        then show False using miss k by simp
      qed
      then have "sink_matching 8 base ?xs needle s = s" by (rule none)
      moreover have "\<not> (r = 0 \<and> q \<le> usize_max \<and> start \<le> q \<and> q < start + len)" using miss by blast
      ultimately show ?thesis
        using True m by (simp only: usub_Some option.case q_def [symmetric] r_def [symmetric]) simp
    qed
  qed
qed

lemma eq_chunks_Some:
  assumes child: "\<And>ch at n b s. ch \<in> set chunks \<Longrightarrow> at + n \<le> node_len (chunk_node ch) \<Longrightarrow>
      eq_into fl (chunk_node ch) at n needle b s =
        Some (sink_matching 8 b (window_of at n (decode_chunk fl ch)) needle s)"
    and len: "\<And>ch. ch \<in> set chunks \<Longrightarrow> length (decode_chunk fl ch) = node_len (chunk_node ch)"
    and "starts_at at0 chunks" "d \<le> n_all" "at0 \<le> start + d"
    and "d < n_all \<longrightarrow> chunks \<noteq> [] \<and> start + d - at0 < node_len (chunk_node (hd chunks))"
    and "start + n_all \<le> at0 + length (concat (map (decode_chunk fl) chunks))"
  shows "eq_chunks fl chunks start n_all d needle base s = Some (sink_matching 8 (base + d)
    (window_of (start + d - at0) (n_all - d) (concat (map (decode_chunk fl) chunks))) needle s)"
  using assms
proof (induction chunks arbitrary: at0 d s)
  case Nil
  then show ?case using sink.matching_none [of needle "[]"] by simp
next
  case (Cons ch chunks)
  obtain at child where ch: "ch = Chunk at child" by (cases ch)
  have at: "at = at0" and starts: "starts_at (at0 + node_len child) chunks" and pos: "0 < node_len child"
    using Cons.prems(3) ch by auto
  let ?xs = "decode fl child" and ?rest = "concat (map (decode_chunk fl) chunks)"
  have xs: "length ?xs = node_len child" using Cons.prems(2) [of ch] ch by simp
  show ?case
  proof (cases "d < n_all")
    case False
    then show ?thesis using Cons.prems(4) ch sink.matching_none [of needle "[]"] by simp
  next
    case True
    define into where "into = start + d - at0"
    define step where "step = min (node_len child - into) (n_all - d)"
    have into: "into < node_len child" "at0 \<le> start + d" "start + d = at0 + into"
      using Cons.prems(5,6) True ch by (simp_all add: into_def)
    have step: "0 < step" "into + step \<le> node_len child" "d + step \<le> n_all"
      using into(1) True by (auto simp: step_def)
    define vs where "vs = window_of into step ?xs"
    have vs: "length vs = step" using step(2) xs by (simp add: vs_def)
    let ?s = "sink_matching 8 (base + d) vs needle s"
    have read: "eq_into fl child into step needle (base + d) s = Some ?s"
      using Cons.prems(1) [of ch into step "base + d" s] ch step(2) by (simp add: vs_def)
    have here: "eq_chunks fl (ch # chunks) start n_all d needle base s =
        eq_chunks fl chunks start n_all (d + step) needle base ?s"
      using True into step read at
      by (simp add: ch into_def [symmetric] Let_def step_def [symmetric])
    show ?thesis
    proof (cases "d + step = n_all")
      case True
      have "eq_chunks fl chunks start n_all (d + step) needle base ?s = Some ?s"
        using True by (cases chunks; cases "hd chunks") simp_all
      moreover have "vs = window_of into (n_all - d) (?xs @ ?rest)"
      proof -
        have "n_all - d = step" using True by linarith
        then show ?thesis using step(2) xs by (simp add: vs_def)
      qed
      ultimately show ?thesis using here ch by (simp add: into_def)
    next
      case False
      then have cross: "into + step = node_len child"
        using step by (auto simp: step_def min_def split: if_splits)
      have rest: "start + n_all \<le> at0 + node_len child + length ?rest"
        using Cons.prems(7) ch xs by simp
      have ne: "chunks \<noteq> []" using rest cross into(3) step(3) False by auto
      have hd: "0 < node_len (chunk_node (hd chunks))"
        using starts ne by (cases chunks; cases "hd chunks") auto
      have "eq_chunks fl chunks start n_all (d + step) needle base ?s =
          Some (sink_matching 8 (base + (d + step))
            (window_of (start + (d + step) - (at0 + node_len child)) (n_all - (d + step)) ?rest) needle ?s)"
        using step(3) cross into(3) ne hd rest Cons.prems(1,2)
        by (intro Cons.IH [OF _ _ starts]) auto
      moreover have "start + (d + step) - (at0 + node_len child) = 0" using cross into(3) by linarith
      moreover have "window_of into (n_all - d) (?xs @ ?rest) = vs @ take (n_all - (d + step)) ?rest"
      proof -
        have "n_all + into - (d + node_len child) = n_all - (d + step)"
          using cross step(3) by linarith
        then show ?thesis using cross xs step(3) by (simp add: vs_def)
      qed
      ultimately show ?thesis
        using here ch sink.matching_append [of 8 "base + d" vs "take (n_all - (d + step)) ?rest" needle s] vs
        by (simp add: into_def add.assoc)
    qed
  qed
qed

text \<open>The codes a dictionary holds a needle under.\<close>

lemma codes_found:
  "sink_matching 8 0 xs x (Codes NoCode) = Codes c \<Longrightarrow>
   (c = NoCode \<longrightarrow> x \<notin> set xs) \<and>
   (\<forall>k. c = OneCode k \<longrightarrow> (\<forall>j < length xs. xs ! j = x \<longleftrightarrow> j = k))"
proof -
  let ?ks = "filter (\<lambda>k. xs ! k = x) [0..<length xs]"
  have ks: "sink_matching 8 0 xs x (Codes NoCode) = Codes (fold code_add ?ks NoCode)"
    by (simp add: match_offsets_eq)
  assume "sink_matching 8 0 xs x (Codes NoCode) = Codes c"
  then have c: "c = fold code_add ?ks NoCode" using ks by simp
  have mem: "j \<in> set ?ks \<longleftrightarrow> j < length xs \<and> xs ! j = x" for j by auto
  show ?thesis
  proof (cases ?ks)
    case Nil
    then have "x \<notin> set xs" using mem by (metis in_set_conv_nth list.set(1) empty_iff)
    then show ?thesis using c Nil by simp
  next
    case (Cons k ks)
    show ?thesis
    proof (cases ks)
      case Nil
      then show ?thesis using c Cons mem by auto
    next
      case (Cons k' ks')
      then have "c = SeveralCodes" using c \<open>?ks = k # ks\<close> fold_code_add by simp
      then show ?thesis by simp
    qed
  qed
qed

lemma eq_into_Some:
  assumes lawful: "lawful fl"
  shows "wf_node fl n \<Longrightarrow> start + len \<le> node_len n \<Longrightarrow>
    eq_into fl n start len needle base s =
      Some (sink_matching 8 base (window_of start len (decode fl n)) needle s)"
proof (induction "size n" arbitrary: n start len needle base s rule: less_induct)
  case less
  note ok = ok_nodeD [OF every_node_ok(1) [OF lawful]]
  note read = eq_into_read_Some [OF lawful less.prems, of needle base s]
  show ?case
  proof (cases "len = 0")
    case True
    then show ?thesis using sink.matching_none [of needle "[]"] by (subst eq_into.simps) simp
  next
    case pos: False
    show ?thesis
    proof (cases n)
      case (Primitive w)
      then show ?thesis
        using pos words_eq_into_Some [of start len w needle base s] less.prems(2)
        by (subst eq_into.simps) simp
    next
      case (Constant v clen)
      then show ?thesis using pos less.prems(2) by (subst eq_into.simps) (simp add: match_const)
    next
      case (Sequence first multiplier slen)
      then show ?thesis
        using pos less.prems sequence_match [where multiplier = multiplier and start = start and
          len = len and slen = slen and first = first and needle = needle and base = base and s = s]
        by (subst eq_into.simps) (simp del: match_const)
    next
      case (RunEnd ends vs offset rlen)
      obtain runs where runs: "runs_in fl ends vs offset start len = Some runs"
        "contiguous 0 (map (\<lambda>(lo, hi, v). (lo, replicate (hi - lo) v)) runs)"
        "concat (map (\<lambda>(lo, hi, v). replicate (hi - lo) v) runs) = window_of start len (decode fl n)"
        using runs_in_Some [OF lawful, of ends vs offset rlen start len] less.prems pos RunEnd by auto
      have "eq_runs base needle runs s =
          sink_matching 8 (base + 0) (concat (map snd (map (\<lambda>(lo, hi, v). (lo, replicate (hi - lo) v)) runs))) needle s"
        unfolding eq_runs_match by (rule match_parts_contiguous [OF runs(2)])
      also have "concat (map snd (map (\<lambda>(lo, hi, v). (lo, replicate (hi - lo) v)) runs)) =
          window_of start len (decode fl n)"
        using runs(3) by (simp add: comp_def case_prod_beta')
      finally show ?thesis
        using pos runs(1) RunEnd by (subst eq_into.simps) simp
    next
      case (FoR reference child)
      have wf: "wf_node fl child" and fit: "start + len \<le> node_len child"
        using less.prems FoR by auto
      let ?xs = "window_of start len (decode fl child)"
      have dec: "window_of start len (decode fl n) = map (\<lambda>v. reference + v) ?xs"
        using FoR by (simp add: window_map)
      show ?thesis
      proof (cases "reference \<le> needle")
        case True
        have "eq_into fl child start len (needle - reference) base s =
            Some (sink_matching 8 base ?xs (needle - reference) s)"
          using less.hyps [of child] wf fit FoR by simp
        moreover have "sink_matching 8 base ?xs (needle - reference) s =
            sink_matching 8 base (map (\<lambda>v. reference + v) ?xs) needle s"
          by (rule match_cong) (use True in \<open>auto simp del: length_take\<close>)
        ultimately show ?thesis using pos True FoR dec by (subst eq_into.simps) simp
      next
        case False
        then have "needle \<notin> set (map (\<lambda>v. reference + v) ?xs)" by auto
        then have "sink_matching 8 base (window_of start len (decode fl n)) needle s = s"
          unfolding dec by (rule sink.matching_none)
        then show ?thesis using pos False FoR by (subst eq_into.simps) (simp add: usub_def)
      qed
    next
      case (ChunkedFoR references offset child)
      then show ?thesis using pos read by (subst eq_into.simps) (simp del: decode.simps)
    next
      case (BitPacked p)
      then show ?thesis
        using pos read packed_eq_into_Some [OF lawful, of p start len needle base s] less.prems
        by (subst eq_into.simps) simp
    next
      case (Slice child at slen)
      then have "eq_into fl child (at + start) len needle base s =
          Some (sink_matching 8 base (window_of (at + start) len (decode fl child)) needle s)"
        using less.hyps [of child "at + start" len needle base s] less.prems by simp
      then show ?thesis
        using pos Slice less.prems(2) by (subst eq_into.simps) (simp add: drop_take min_def add.commute)
    next
      case (Chunked chunks clen)
      have wfs: "\<And>ch. ch \<in> set chunks \<Longrightarrow> wf_node fl (chunk_node ch)" and starts: "starts_at 0 chunks"
        using less.prems(1) Chunked by (auto simp: list_all_iff wf_chunk_node)
      have wf: "wf_node fl (Chunked chunks clen)" using less.prems(1) by (simp only: Chunked)
      have fit: "start + len \<le> clen" using less.prems(2) Chunked by simp
      then have start: "start < clen" using pos by linarith
      obtain c where c: "first_chunk chunks start = Some c" "c < length chunks"
        "chunk_start (chunks ! c) \<le> start"
        "start - chunk_start (chunks ! c) < node_len (chunk_node (chunks ! c))"
        "chunk_start (chunks ! c) + length (concat (map (decode_chunk fl) (drop c chunks))) = clen"
        "\<And>n. window_of start n (concat (map (decode_chunk fl) chunks)) =
           window_of (start - chunk_start (chunks ! c)) n (concat (map (decode_chunk fl) (drop c chunks)))"
        by (rule first_chunk_Some [OF lawful wf start]) blast
      have "eq_chunks fl (drop c chunks) start len 0 needle base s = Some (sink_matching 8 (base + 0)
          (window_of (start + 0 - chunk_start (chunks ! c)) (len - 0)
            (concat (map (decode_chunk fl) (drop c chunks)))) needle s)"
      proof (rule eq_chunks_Some)
        fix ch at n b s
        assume ch: "ch \<in> set (drop c chunks)" and fit: "at + n \<le> node_len (chunk_node ch)"
        then have mem: "ch \<in> set chunks" using in_set_dropD by metis
        show "eq_into fl (chunk_node ch) at n needle b s =
            Some (sink_matching 8 b (window_of at n (decode_chunk fl ch)) needle s)"
          using less.hyps [of "chunk_node ch" at n needle b s] size_chunk_child [OF mem, of clen]
            wfs [OF mem] fit Chunked
          by (simp add: decode_chunk_node)
      next
        fix ch assume "ch \<in> set (drop c chunks)"
        then have mem: "ch \<in> set chunks" by (rule in_set_dropD)
        show "length (decode_chunk fl ch) = node_len (chunk_node ch)"
          using ok(1) [OF wfs [OF mem]] by (simp add: decode_chunk_node)
      next
        show "starts_at (chunk_start (chunks ! c)) (drop c chunks)" by (rule starts_at_drop [OF starts c(2)])
        show "0 < len \<longrightarrow> drop c chunks \<noteq> [] \<and>
            start + 0 - chunk_start (chunks ! c) < node_len (chunk_node (hd (drop c chunks)))"
          using c(2,4) by (simp add: hd_drop_conv_nth)
        show "start + len \<le> chunk_start (chunks ! c) +
            length (concat (map (decode_chunk fl) (drop c chunks)))"
          using c(5) fit by simp
      qed (use c(3) in simp_all)
      then show ?thesis using pos c(1) c(6) Chunked by (subst eq_into.simps) simp
    next
      case (Dict codes vs)
      have wf: "wf_node fl codes" "wf_node fl vs"
        and fit: "\<And>code. code \<in> set (decode fl codes) \<Longrightarrow> code < node_len vs"
        using less.prems(1) Dict by auto
      have lens: "length (decode fl codes) = node_len codes" "length (decode fl vs) = node_len vs"
        by (rule ok(1) [OF wf(1)], rule ok(1) [OF wf(2)])
      let ?cs = "window_of start len (decode fl codes)"
      have dec: "window_of start len (decode fl n) = map (\<lambda>code. decode fl vs ! code) ?cs"
        using Dict by (simp add: window_map)
      have code: "code < length (decode fl vs)" if "code \<in> set ?cs" for code
        using fit [OF in_take_drop [OF that]] lens(2) by simp
      show ?thesis
      proof (cases "node_len vs \<le> len")
        case False
        then show ?thesis using pos read Dict by (subst eq_into.simps) (simp del: decode.simps)
      next
        case small: True
        have vs: "eq_into fl vs 0 (node_len vs) needle 0 (Codes NoCode) =
            Some (sink_matching 8 0 (decode fl vs) needle (Codes NoCode))"
          using less.hyps [of vs 0 "node_len vs" needle 0 "Codes NoCode"] wf Dict lens(2) by simp
        obtain c where c: "sink_matching 8 0 (decode fl vs) needle (Codes NoCode) = Codes c" by simp
        note found = codes_found [OF c]
        show ?thesis
        proof (cases c)
          case NoCode
          then have "needle \<notin> set (map (\<lambda>code. decode fl vs ! code) ?cs)"
            using found code nth_mem by fastforce
          then have "sink_matching 8 base (window_of start len (decode fl n)) needle s = s"
            unfolding dec by (rule sink.matching_none)
          then show ?thesis
            using pos small vs c NoCode Dict by (subst eq_into.simps) (simp del: sink_matching.simps)
        next
          case (OneCode k)
          have "eq_into fl codes start len k base s = Some (sink_matching 8 base ?cs k s)"
            using less.hyps [of codes start len k base s] wf less.prems(2) Dict by simp
          moreover have "sink_matching 8 base ?cs k s =
              sink_matching 8 base (map (\<lambda>code. decode fl vs ! code) ?cs) needle s"
          proof (rule match_cong)
            fix j assume j: "j < length (map (\<lambda>code. decode fl vs ! code) ?cs)"
            then have "?cs ! j \<in> set ?cs" by (intro nth_mem) simp
            then show "?cs ! j = k \<longleftrightarrow> map (\<lambda>code. decode fl vs ! code) ?cs ! j = needle"
              using found OneCode code j by (simp del: nth_take)
          qed simp
          ultimately show ?thesis
            using pos small vs c OneCode Dict dec
            by (subst eq_into.simps) (simp del: sink_matching.simps decode.simps)
        next
          case SeveralCodes
          then show ?thesis
            using pos small vs c read Dict
            by (subst eq_into.simps) (simp del: sink_matching.simps decode.simps)
        qed
      qed
    next
      case (Delta d)
      then show ?thesis using pos read by (subst eq_into.simps) (simp del: decode.simps)
    next
      case (Sparse fill patches slen)
      then show ?thesis using pos read by (subst eq_into.simps) (simp del: decode.simps)
    next
      case (Rle vs indices value_offsets rbase offset rlen)
      then show ?thesis using pos read by (subst eq_into.simps) (simp del: decode.simps)
    qed
  qed
qed

end
