(* ===== verification/Probe.thy ===== *)
theory Probe
  imports ScanValues
begin

text \<open>
  The probe's interface (\<open>src/encoded-search/src/lib.rs\<close>) over the tree of \<open>node.rs\<close>: the bounds
  of a needle, of the whole column or of a window whose values alone ascend, checked point and
  window reads, the rows equal to a needle, counted or found, and reads at given indices. An
  assertion that fails is \<^term>\<open>None\<close>. The theorems say what each returns of the decoded values of
  any well-formed tree.
\<close>

section \<open>Bounds of a needle\<close>

text \<open>The largest 64-bit needle has no successor.\<close>

definition upper_bound :: "'k kernels_scheme \<Rightarrow> node \<Rightarrow> nat \<Rightarrow> nat option" where
  "upper_bound fl n needle =
     (if needle + 1 \<le> u64_max then lower_bound fl n (needle + 1) else Some (node_len n))"

definition runend_bounds ::
    "'k kernels_scheme \<Rightarrow> node \<Rightarrow> node \<Rightarrow> nat \<Rightarrow> nat \<Rightarrow> nat \<Rightarrow> (nat \<times> nat) option" where
  "runend_bounds fl ends vs offset len needle =
     do {
       (first, span) \<leftarrow> window_runs (node_len ends) (value_at fl ends) offset len;
       k \<leftarrow> search_ascending span (\<lambda>k. value_at fl vs (first + k)) needle;
       found \<leftarrow> (if k = span then Some False
                 else do { v \<leftarrow> value_at fl vs (first + k); Some (v = needle) });
       past \<leftarrow> (if \<not> found then Some k
                else do {
                  alone \<leftarrow> (if k + 1 = span then Some True
                            else do { v \<leftarrow> value_at fl vs (first + k + 1); Some (needle < v) });
                  if alone then Some (k + 1)
                  else do {
                    rest \<leftarrow> usub span k;
                    rest \<leftarrow> usub rest 1;
                    j \<leftarrow> partition rest
                      (\<lambda>j. do { v \<leftarrow> value_at fl vs (first + k + 1 + j); Some (v \<le> needle) });
                    Some (k + 1 + j)
                  }
                });
       lo \<leftarrow> run_start (value_at fl ends) (first + k) offset len;
       hi \<leftarrow> run_start (value_at fl ends) (first + past) offset len;
       Some (lo, hi)
     }"

text \<open>One search of ascending reads, and the upper bound searched below its cap.\<close>

definition capped_bounds :: "nat \<Rightarrow> (nat \<Rightarrow> nat option) \<Rightarrow> nat \<Rightarrow> (nat \<times> nat) option" where
  "capped_bounds n val needle =
     do {
       (lo, past) \<leftarrow> search_ascending_capped n val needle;
       rows \<leftarrow> usub past lo;
       k \<leftarrow> partition rows (\<lambda>i. do { v \<leftarrow> val (lo + i); Some (v \<le> needle) });
       Some (lo, lo + k)
     }"

fun bounds :: "'k kernels_scheme \<Rightarrow> node \<Rightarrow> nat \<Rightarrow> (nat \<times> nat) option" where
  "bounds fl (RunEnd ends vs offset len) needle = runend_bounds fl ends vs offset len needle"
| "bounds fl (FoR reference child) needle =
     (case usub needle reference of
        Some encoded \<Rightarrow> bounds fl child encoded
      | None \<Rightarrow> Some (0, 0))"
| "bounds fl (BitPacked p) needle = capped_bounds (packed_len p) (packed_value_at fl p) needle"
| "bounds fl n needle =
     do {
       lo \<leftarrow> lower_bound fl n needle;
       hi \<leftarrow> upper_bound fl n needle;
       Some (lo, hi)
     }"

section \<open>The kinds of a tree\<close>

datatype node_kind =
    KPrimitive | KConstant | KSequence | KRunEnd | KFoR | KBitPacked | KPatches | KSlice | KChunked
  | KDict | KDelta | KSparse | KRle

primrec collect_kinds :: "node \<Rightarrow> node_kind list"
  and packed_kinds :: "packed_node \<Rightarrow> node_kind list"
  and patch_kinds :: "patch_probe \<Rightarrow> node_kind list"
  and delta_kinds :: "delta_node \<Rightarrow> node_kind list"
  and chunk_kinds :: "probe_chunk \<Rightarrow> node_kind list" where
  "collect_kinds (Primitive w) = [KPrimitive]"
| "collect_kinds (Constant v len) = [KConstant]"
| "collect_kinds (Sequence base multiplier len) = [KSequence]"
| "collect_kinds (RunEnd ends vs offset len) = KRunEnd # collect_kinds ends @ collect_kinds vs"
| "collect_kinds (FoR reference child) = KFoR # collect_kinds child"
| "collect_kinds (ChunkedFoR references offset child) =
     KFoR # collect_kinds child @ collect_kinds references"
| "collect_kinds (BitPacked p) = KBitPacked # packed_kinds p"
| "collect_kinds (Slice child start len) = KSlice # collect_kinds child"
| "collect_kinds (Chunked chunks len) = KChunked # concat (map chunk_kinds chunks)"
| "collect_kinds (Dict codes vs) = KDict # collect_kinds codes @ collect_kinds vs"
| "collect_kinds (Delta d) = delta_kinds d"
| "collect_kinds (Sparse fill patches len) = KSparse # patch_kinds patches"
| "collect_kinds (Rle vs indices value_offsets base offset len) =
     KRle # collect_kinds vs @ collect_kinds indices @ collect_kinds value_offsets"
| "packed_kinds (PackedNode packed bit_width offset len patches) =
     (case map_option patch_kinds patches of None \<Rightarrow> [] | Some kinds \<Rightarrow> KPatches # kinds)"
| "patch_kinds (PatchProbe indices vs offset) = collect_kinds indices @ collect_kinds vs"
| "delta_kinds (DeltaNode bases deltas width offset len) =
     KDelta # collect_kinds bases @ collect_kinds deltas"
| "chunk_kinds (Chunk start child) = collect_kinds child"

section \<open>The interface\<close>

definition probe_len :: "node \<Rightarrow> nat" where
  "probe_len root = node_len root"

definition probe_is_empty :: "node \<Rightarrow> bool" where
  "probe_is_empty root = (probe_len root = 0)"

definition node_kinds :: "node \<Rightarrow> node_kind list" where
  "node_kinds root = collect_kinds root"

definition probe_value_at :: "'k kernels_scheme \<Rightarrow> node \<Rightarrow> nat \<Rightarrow> nat option" where
  "probe_value_at fl root index =
     (if index < probe_len root then value_at fl root index else None)"

definition bounds_in ::
    "'k kernels_scheme \<Rightarrow> node \<Rightarrow> nat \<Rightarrow> nat \<Rightarrow> nat \<Rightarrow> (nat \<times> nat) option" where
  "bounds_in fl root start stop needle =
     (if stop \<le> probe_len root
      then do {
        (lo, hi) \<leftarrow> capped_bounds (stop - start) (\<lambda>i. probe_value_at fl root (start + i)) needle;
        Some (start + lo, start + hi)
      }
      else None)"

text \<open>A window that lies in the column, its end an index.\<close>

definition in_column :: "node \<Rightarrow> nat \<Rightarrow> nat \<Rightarrow> bool" where
  "in_column root start n \<longleftrightarrow> start + n \<le> usize_max \<and> start + n \<le> probe_len root"

definition probe_read_into :: "'k kernels_scheme \<Rightarrow> node \<Rightarrow> nat \<Rightarrow> nat list \<Rightarrow> nat list option" where
  "probe_read_into fl root start out =
     (if in_column root start (length out) then read_into fl root start out else None)"

definition count_eq :: "'k kernels_scheme \<Rightarrow> node \<Rightarrow> nat \<Rightarrow> nat \<Rightarrow> nat \<Rightarrow> nat option" where
  "count_eq fl root start len needle =
     (if in_column root start len
      then case eq_into fl root start len needle 0 (Count 0) of
          Some (Count c) \<Rightarrow> Some c
        | _ \<Rightarrow> None
      else None)"

definition eq_offsets ::
    "'k kernels_scheme \<Rightarrow> node \<Rightarrow> nat \<Rightarrow> nat \<Rightarrow> nat \<Rightarrow> nat list \<Rightarrow> nat list option" where
  "eq_offsets fl root start len needle out =
     (if in_column root start len
      then case eq_into fl root start len needle 0 (Offsets out) of
          Some (Offsets out) \<Rightarrow> Some out
        | _ \<Rightarrow> None
      else None)"

definition consecutive_run :: "'a list \<Rightarrow> ('a \<Rightarrow> 'a) \<Rightarrow> nat" where
  "consecutive_run xs next = 1 + length (takeWhile (\<lambda>(x, y). y = next x) (zip xs (tl xs)))"

lemma consecutive_run_pos: "0 < consecutive_run xs next"
  by (simp add: consecutive_run_def)

function read_runs ::
    "'k kernels_scheme \<Rightarrow> node \<Rightarrow> nat list \<Rightarrow> nat \<Rightarrow> nat list \<Rightarrow> nat list option" where
  "read_runs fl root indices i out =
     (if i < length indices
      then do {
        let run = consecutive_run (drop i indices) Suc;
        out \<leftarrow> (if run = 1 then do { v \<leftarrow> probe_value_at fl root (indices ! i); write_at i [v] out }
                else do {
                  window \<leftarrow> buf_slice out i (i + run);
                  vs \<leftarrow> probe_read_into fl root (indices ! i) window;
                  write_at i vs out
                });
        read_runs fl root indices (i + run) out
      }
      else Some out)"
  by pat_completeness auto
termination
  by (relation "measure (\<lambda>(fl, root, indices, i, out). length indices - i)")
     (auto simp: consecutive_run_def)

declare read_runs.simps [simp del]

definition read_at :: "'k kernels_scheme \<Rightarrow> node \<Rightarrow> nat list \<Rightarrow> nat list \<Rightarrow> nat list option" where
  "read_at fl root indices out =
     (if length indices = length out then read_runs fl root indices 0 out else None)"

section \<open>Bounds are right\<close>

lemma cut_shift:
  assumes "k \<le> n" "\<And>i. i < k \<Longrightarrow> p i"
  shows "cut p n = k + cut (\<lambda>j. p (k + j)) (n - k)"
proof (rule cut_eqI)
  let ?j = "cut (\<lambda>j. p (k + j)) (n - k)"
  show "k + ?j \<le> n" using cut_le [of "\<lambda>j. p (k + j)" "n - k"] assms(1) by linarith
  show "p i" if "i < k + ?j" for i
    using assms(2) [of i] cut_pass [of "i - k" "\<lambda>j. p (k + j)" "n - k"] that
    by (cases "i < k") auto
  show "\<not> p (k + ?j)" if "k + ?j < n"
    using cut_fail [of "\<lambda>j. p (k + j)" "n - k"] that by simp
qed

lemma cut_below_cap: "cut p n \<le> m \<Longrightarrow> m \<le> n \<Longrightarrow> cut p m = cut p n"
  by (rule cut_eqI) (use cut_pass cut_fail [of p n] in auto)

lemma upto_below: "upto_value x xs = below (x + 1) xs"
  by (simp add: less_Suc_eq_le)

lemma capped_bounds_Some:
  assumes reads: "reads val xs" and sorted: "sorted xs"
  shows "capped_bounds (length xs) val x = Some (below x xs, upto_value x xs)"
proof -
  let ?n = "length xs" and ?lo = "below x xs"
  obtain past where past: "search_ascending_capped ?n val x = Some (cut (\<lambda>i. xs ! i < x) ?n, past)"
    "cut (\<lambda>i. xs ! i \<le> x) ?n \<le> past" "past \<le> ?n"
    by (rule search_capped_Some [OF readsD [OF reads] sorted_rises [OF sorted]])
  have up: "cut (\<lambda>i. xs ! i \<le> x) past = upto_value x xs"
    using cut_below_cap [OF past(2,3)] by (simp add: cut_values)
  have mono: "?lo \<le> upto_value x xs"
    using cut_mono [of ?n "\<lambda>i. xs ! i < x" "\<lambda>i. xs ! i \<le> x"] by (simp add: cut_values)
  have lo: "?lo \<le> past" using mono past(2) by (simp add: cut_values)
  have small: "xs ! i \<le> x" if "i < ?lo" for i
    using cut_pass [of i "\<lambda>i. xs ! i < x" ?n] that by (simp add: cut_values)
  have "first_pass (\<lambda>i. xs ! (?lo + i) \<le> x) (past - ?lo)"
    unfolding first_pass_def
  proof (intro allI impI)
    fix i j assume ij: "i < j" "j < past - ?lo" "xs ! (?lo + j) \<le> x"
    then have "xs ! (?lo + i) \<le> xs ! (?lo + j)"
      using past(3) by (intro sorted_nth_mono [OF sorted]) simp_all
    then show "xs ! (?lo + i) \<le> x" using ij(3) by simp
  qed
  then have "partition (past - ?lo) (\<lambda>i. do { v \<leftarrow> val (?lo + i); Some (v \<le> x) }) =
      Some (cut (\<lambda>i. xs ! (?lo + i) \<le> x) (past - ?lo))"
    using past(3) by (intro partition_cut) (simp_all add: readsD [OF reads])
  moreover have "?lo + cut (\<lambda>i. xs ! (?lo + i) \<le> x) (past - ?lo) = upto_value x xs"
    using cut_shift [of ?lo past "\<lambda>i. xs ! i \<le> x"] lo small up by simp
  ultimately show ?thesis
    using past(1) lo by (simp add: capped_bounds_def cut_values)
qed

lemma runend_bounds_Some:
  assumes es: "ascending es" "\<forall>e \<in> set es. (0::nat) < e" "length es = length vs"
    and win: "0 < len \<longrightarrow> es \<noteq> [] \<and> offset + len \<le> last es"
    and reads: "reads (value_at fl ends) es" "reads (value_at fl vals) vs"
    and nruns: "node_len ends = length es"
    and sorted: "sorted xs" and xs: "xs = take len (drop offset (expand_runs 0 es vs))"
  shows "runend_bounds fl ends vals offset len x = Some (below x xs, upto_value x xs)"
proof (cases "len = 0")
  case True
  have "search_ascending 0 (\<lambda>k. value_at fl vals (0 + k)) x = Some 0"
    using search_ascending_Some [of 0 "\<lambda>k. value_at fl vals (0 + k)" "\<lambda>k. 0" x] by (simp add: cut_def)
  then show ?thesis using True xs by (simp add: runend_bounds_def window_runs_def run_start_def)
next
  case False
  then have len: "0 < len" and win': "es \<noteq> []" "offset + len \<le> last es" using win by auto
  define first where "first = upto_value offset es"
  define final where "final = upto_value (offset + len - 1) es"
  define span where "span = Suc final - first"
  define g where "g k = vs ! (first + k)" for k
  define k where "k = cut (\<lambda>k. g k < x) span"
  define past where "past = cut (\<lambda>k. g k \<le> x) span"
  note defs = first_def [symmetric] final_def [symmetric] span_def [symmetric]
  note runs = window_runs_Some [OF es(1,2) reads(1) len win', unfolded defs]
  note search = run_end_search [OF es win' len reads(1) sorted [unfolded xs], unfolded defs,
      folded xs g_def]
  have le: "first \<le> final" unfolding first_def final_def by (rule upto_mono) (use len in simp)
  have read: "value_at fl vals (first + j) = Some (g j)" if "j < span" for j
    using readsD [OF reads(2)] runs(2) es(3) that le by (simp add: g_def span_def)
  have read': "value_at fl vals (first + k + 1 + j) = Some (g (k + 1 + j))" if "k + 1 + j < span" for k j
    using read [OF that] by (simp add: add.assoc)
  have k: "search_ascending span (\<lambda>k. value_at fl vals (first + k)) x = Some k" "k \<le> span"
    "past \<le> span" unfolding k_def past_def
    by (rule search_ascending_Some [OF _ search(1)], erule read) (rule cut_le)+
  note lt = first_pass_cut [OF rises_first_pass(1) [OF search(1)], of _ x, folded k_def]
    and le_x = first_pass_cut [OF rises_first_pass(2) [OF search(1)], of _ x, folded past_def]
  have kp: "k \<le> past" unfolding k_def past_def by (rule cut_mono) simp
  have past: "(do {
       found \<leftarrow> (if k = span then Some False
                 else do { v \<leftarrow> value_at fl vals (first + k); Some (v = x) });
       (if \<not> found then Some k
                else do {
                  alone \<leftarrow> (if k + 1 = span then Some True
                            else do { v \<leftarrow> value_at fl vals (first + k + 1); Some (x < v) });
                  if alone then Some (k + 1)
                  else do {
                    rest \<leftarrow> usub span k;
                    rest \<leftarrow> usub rest 1;
                    j \<leftarrow> partition rest
                      (\<lambda>j. do { v \<leftarrow> value_at fl vals (first + k + 1 + j); Some (v \<le> x) });
                    Some (k + 1 + j)
                  }
                })}) = Some past"
  proof (cases "k < span \<and> g k = x")
    case False
    have "past = k"
    proof (rule ccontr)
      assume "past \<noteq> k"
      then have "k < past" "k < span" using kp k(3) by linarith+
      then show False using lt [of k] le_x [of k] False by auto
    qed
    then show ?thesis using False read [of k] k(2) by (cases "k = span") auto
  next
    case True
    then have here: "k < past" using le_x [of k] by auto
    show ?thesis
    proof (cases "k + 1 = span \<or> x < g (k + 1)")
      case alone: True
      have "past = k + 1"
      proof (rule ccontr)
        assume "past \<noteq> k + 1"
        then have "k + 1 < past" "k + 1 < span" using here k(3) by linarith+
        then show False using le_x [of "k + 1"] alone by auto
      qed
      then show ?thesis using True alone read [of k] read' [of k 0] by auto
    next
      case False
      then have more: "k + 1 < span" "g (k + 1) \<le> x" using True by auto
      have fp: "first_pass (\<lambda>j. g (k + 1 + j) \<le> x) (span - k - 1)"
        unfolding first_pass_def
      proof (intro allI impI)
        fix i j assume ij: "i < j" "j < span - k - 1" "g (k + 1 + j) \<le> x"
        then have "g (k + 1 + i) \<le> g (k + 1 + j)" by (intro search(1) [rule_format]) simp_all
        then show "g (k + 1 + i) \<le> x" using ij(3) by simp
      qed
      have "partition (span - k - 1)
          (\<lambda>j. do { v \<leftarrow> value_at fl vals (first + k + 1 + j); Some (v \<le> x) }) =
          Some (cut (\<lambda>j. g (k + 1 + j) \<le> x) (span - k - 1))"
        by (rule partition_cut [OF _ fp]) (simp add: read' [simplified])
      moreover have "past = k + 1 + cut (\<lambda>j. g (k + 1 + j) \<le> x) (span - (k + 1))"
        unfolding past_def
      proof (rule cut_shift)
        fix i assume "i < k + 1"
        then show "g i \<le> x" using le_x [of i] here more(1) by simp
      qed (use more(1) in simp)
      ultimately show ?thesis
        using True more read [of k] read' [of k 0] by (simp add: not_less)
    qed
  qed
  have lo: "run_start (value_at fl ends) (first + k) offset len = Some (below x xs)"
  proof (rule search(2))
    fix r assume "first \<le> r" "r \<le> final"
    then show "vs ! r < x \<longleftrightarrow> r < first + k"
      using lt [of "r - first"] by (auto simp: g_def span_def)
  qed (rule k(2))
  have hi: "run_start (value_at fl ends) (first + past) offset len = Some (upto_value x xs)"
  proof (rule search(2))
    fix r assume "first \<le> r" "r \<le> final"
    then show "vs ! r \<le> x \<longleftrightarrow> r < first + past"
      using le_x [of "r - first"] by (auto simp: g_def span_def)
  qed (rule k(3))
  show ?thesis
    by (simp only: runend_bounds_def nruns runs(1) k(1) Option.bind.bind_lunit prod.case)
       (simp only: Option.bind_assoc [symmetric] past [unfolded Option.bind_assoc [symmetric]]
         Option.bind.bind_lunit lo hi)
qed


text \<open>The bounds of any tree whose values ascend.\<close>

lemma below_all_le: "(\<And>v. v \<in> set xs \<Longrightarrow> x < v) \<Longrightarrow> upto_value x xs = 0 \<and> below x xs = 0"
  by (cases xs) fastforce+

lemma upper_bound_Some:
  assumes "lawful fl" "wf_node fl n" "sorted (decode fl n)"
  shows "upper_bound fl n x = Some (upto_value x (decode fl n))"
proof (cases "x + 1 \<le> u64_max")
  case True
  then show ?thesis
    using ok_nodeD(4) [OF every_node_ok(1) [OF assms(1)] assms(2,3)]
    by (simp add: upper_bound_def less_Suc_eq_le)
next
  case False
  have "takeWhile (\<lambda>v. v \<le> x) (decode fl n) = decode fl n"
    by (rule takeWhile_eq_all_conv [THEN iffD2])
       (use ok_nodeD(2) [OF every_node_ok(1) [OF assms(1)] assms(2)] False in fastforce)
  then have "upto_value x (decode fl n) = node_len n"
    using ok_nodeD(1) [OF every_node_ok(1) [OF assms(1)] assms(2)] by (simp only:)
  then show ?thesis using False by (simp only: upper_bound_def if_False)
qed

lemma takeWhile_shift:
  fixes r :: nat
  assumes "r \<le> x"
  shows "below x (map ((+) r) xs) = below (x - r) xs"
    and "upto_value x (map ((+) r) xs) = upto_value (x - r) xs"
  using assms by (simp_all add: takeWhile_map comp_def less_diff_conv le_diff_conv2 add.commute)

lemma two_searches:
  assumes "lawful fl" "wf_node fl n" "sorted (decode fl n)"
  shows "do { lo \<leftarrow> lower_bound fl n x; hi \<leftarrow> upper_bound fl n x; Some (lo, hi) } =
    Some (below x (decode fl n), upto_value x (decode fl n))"
  by (simp only: upper_bound_Some [OF assms] ok_nodeD(4) [OF every_node_ok(1) [OF assms(1)] assms(2,3)]
      Option.bind.bind_lunit)

lemma bounds_Some:
  "lawful fl \<Longrightarrow> wf_node fl n \<Longrightarrow> sorted (decode fl n) \<Longrightarrow>
    bounds fl n x = Some (below x (decode fl n), upto_value x (decode fl n))"
proof (induction fl n x rule: bounds.induct)
  case (1 fl ends vs offset len x)
  note ok = ok_nodeD [OF every_node_ok(1) [OF 1(1)]]
  have wf: "wf_node fl ends" "wf_node fl vs" using 1 by auto
  have lens: "length (decode fl ends) = length (decode fl vs)" "node_len ends = length (decode fl ends)"
    using ok(1) [OF wf(1)] ok(1) [OF wf(2)] 1(2) by auto
  show ?case
    unfolding bounds.simps
    by (rule runend_bounds_Some [OF _ _ lens(1) _ ok(3) [OF wf(1)] ok(3) [OF wf(2)] lens(2)])
       (use 1 in auto)
next
  case (2 fl r child x)
  have wf: "wf_node fl child" and sorted: "sorted (decode fl child)"
    using 2(3,4) by (auto simp: sorted_map)
  show ?case
  proof (cases "r \<le> x")
    case True
    then show ?thesis using 2(1,2) wf sorted takeWhile_shift [OF True] by simp
  next
    case False
    then have "upto_value x (map ((+) r) (decode fl child)) = 0 \<and> below x (map ((+) r) (decode fl child)) = 0"
      by (intro below_all_le) auto
    then show ?thesis using False by (simp add: usub_def)
  qed
next
  case (3 fl p x)
  then have "ok_packed fl p" "wf_packed fl p" by (simp_all add: every_node_ok(2))
  then have "length (decode_packed fl p) = packed_len p" "reads (packed_value_at fl p) (decode_packed fl p)"
    by (simp_all add: ok_packed_def)
  then show ?case
    using 3 capped_bounds_Some [of "packed_value_at fl p" "decode_packed fl p" x] by simp
qed (simp_all only: bounds.simps two_searches)

section \<open>Runs of indices\<close>

lemma consecutive_run_le: "xs \<noteq> [] \<Longrightarrow> consecutive_run xs next \<le> length xs"
  using length_takeWhile_le [of "\<lambda>(x, y). y = next x" "zip xs (tl xs)"]
  by (cases xs) (auto simp: consecutive_run_def)

lemma consecutive_run_step:
  assumes "Suc k < consecutive_run xs next"
  shows "xs ! Suc k = next (xs ! k)"
proof -
  let ?ps = "zip xs (tl xs)"
  have k: "k < length (takeWhile (\<lambda>(x, y). y = next x) ?ps)"
    using assms by (simp add: consecutive_run_def)
  then have "k < length ?ps" using length_takeWhile_le le_trans by (metis not_le)
  then have "?ps ! k = (xs ! k, xs ! Suc k)" by (simp add: nth_tl)
  moreover have "(\<lambda>(x, y). y = next x) (takeWhile (\<lambda>(x, y). y = next x) ?ps ! k)"
    using nth_mem [OF k] by (rule set_takeWhileD [THEN conjunct2])
  ultimately show ?thesis using takeWhile_nth [OF k] by simp
qed

lemma consecutive_run_values:
  "k < consecutive_run xs Suc \<Longrightarrow> xs ! k = xs ! 0 + k"
  by (induction k) (simp_all add: consecutive_run_step Suc_lessD)

lemma consecutive_run_take:
  assumes "xs \<noteq> []"
  shows "take (consecutive_run xs Suc) xs = [hd xs..<hd xs + consecutive_run xs Suc]"
proof (rule nth_equalityI)
  show "length (take (consecutive_run xs Suc) xs) = length [hd xs..<hd xs + consecutive_run xs Suc]"
    using consecutive_run_le [OF assms] by simp
  fix k assume "k < length (take (consecutive_run xs Suc) xs)"
  then have k: "k < consecutive_run xs Suc" by simp
  then show "take (consecutive_run xs Suc) xs ! k = [hd xs..<hd xs + consecutive_run xs Suc] ! k"
    using consecutive_run_values [OF k] assms by (simp add: hd_conv_nth)
qed

section \<open>What the interface returns\<close>

lemma probe_value_at_decode:
  assumes "lawful fl" "wf_node fl root"
  shows "probe_value_at fl root i =
    (if i < length (decode fl root) then Some (decode fl root ! i) else None)"
  using ok_nodeD(1,5) [OF every_node_ok(1) [OF assms(1)] assms(2)]
  by (simp add: probe_value_at_def probe_len_def)

lemma in_column_decode:
  assumes "lawful fl" "wf_node fl root"
  shows "in_column root start n \<longleftrightarrow> start + n \<le> usize_max \<and> start + n \<le> length (decode fl root)"
  using ok_nodeD(1) [OF every_node_ok(1) [OF assms(1)] assms(2)]
  by (simp add: in_column_def probe_len_def)

lemma probe_read_into_decode:
  assumes "lawful fl" "wf_node fl root"
  shows "probe_read_into fl root start out =
    (if start + length out \<le> usize_max \<and> start + length out \<le> length (decode fl root)
     then Some (window_of start (length out) (decode fl root)) else None)"
  using read_into_Some [OF assms, of start out] in_column_decode [OF assms]
    ok_nodeD(1) [OF every_node_ok(1) [OF assms(1)] assms(2)]
  by (simp add: probe_read_into_def)

text \<open>The reads at runs of indices fill the output from its start.\<close>

lemma read_runs_decode:
  fixes fl root defines "xs \<equiv> decode fl root"
  assumes fl: "lawful fl" and wf: "wf_node fl root" and small: "length xs \<le> usize_max"
    and out: "length out = length indices" "i \<le> length indices"
  shows "read_runs fl root indices i out =
    (if \<forall>index \<in> set (drop i indices). index < length xs
     then Some (take i out @ map ((!) xs) (drop i indices)) else None)"
  using out
proof (induction "length indices - i" arbitrary: i out rule: less_induct)
  case less
  show ?case
  proof (cases "i < length indices")
    case False
    then show ?thesis using less.prems by (subst read_runs.simps) simp
  next
    case True
    define js where "js = drop i indices"
    define run where "run = consecutive_run js Suc"
    have ne: "js \<noteq> []" using True by (simp add: js_def)
    have run: "0 < run" "i + run \<le> length indices"
      using consecutive_run_pos consecutive_run_le [OF ne, of Suc] True by (auto simp: run_def js_def)
    have hd: "indices ! i = hd js" using True by (simp add: js_def hd_drop_conv_nth)
    have split: "js = [hd js..<hd js + run] @ drop (i + run) indices"
    proof -
      have "take run js = [hd js..<hd js + run]" unfolding run_def by (rule consecutive_run_take [OF ne])
      moreover have "drop run js = drop (i + run) indices" by (simp add: js_def add.commute)
      ultimately show ?thesis using append_take_drop_id [of run js] by (simp only:)
    qed
    let ?ok = "hd js + run \<le> length xs"
    let ?out = "take i out @ map ((!) xs) [hd js..<hd js + run] @ drop (i + run) out"
    have all: "(\<forall>index \<in> set js. index < length xs) \<longleftrightarrow>
        ?ok \<and> (\<forall>index \<in> set (drop (i + run) indices). index < length xs)"
      by (subst split) (use run(1) in \<open>auto simp: Ball_def dest: spec [of _ "hd js + run - 1"]\<close>)
    have step: "read_runs fl root indices i out =
        (if ?ok then read_runs fl root indices (i + run) ?out else None)"
    proof (cases "run = 1")
      case one: True
      then show ?thesis
        using True hd probe_value_at_decode [OF fl wf, of "hd js"] less.prems(1)
        by (subst read_runs.simps)
           (simp add: Let_def js_def [symmetric] run_def [symmetric] xs_def [symmetric] write_at_def Suc_le_eq)
    next
      case more: False
      let ?vs = "map ((!) xs) [hd js..<hd js + run]"
      have len: "length (take run (drop i out)) = run" using less.prems(1) run by simp
      have "window_of (hd js) run xs = ?vs" if "?ok"
        by (rule nth_equalityI) (use that in auto)
      then have read: "probe_read_into fl root (hd js) (take run (drop i out)) =
          (if ?ok then Some ?vs else None)"
        using probe_read_into_decode [OF fl wf, of "hd js" "take run (drop i out)"] small
        by (simp only: len xs_def [symmetric]) auto
      have slice: "buf_slice out i (i + run) = Some (take run (drop i out))"
        using less.prems(1) run by (simp add: buf_slice_def)
      have placed: "write_at i ?vs out = Some ?out"
        using less.prems(1) run by (simp add: write_at_def)
      have "(run = 1) = False" using more by simp
      then show ?thesis
        by (subst read_runs.simps)
           (simp only: True if_True if_False Let_def js_def [symmetric] run_def [symmetric] hd slice
             Option.bind.bind_lunit read placed split: if_splits, simp add: placed)
    qed
    show ?thesis
    proof (cases ?ok)
      case False
      then show ?thesis using step all by (simp add: js_def)
    next
      case True
      have "read_runs fl root indices (i + run) ?out =
          (if \<forall>index \<in> set (drop (i + run) indices). index < length xs
           then Some (take (i + run) ?out @ map ((!) xs) (drop (i + run) indices)) else None)"
        by (rule less.hyps) (use less.prems run in auto)
      moreover have "take (i + run) ?out @ map ((!) xs) (drop (i + run) indices) =
          take i out @ map ((!) xs) js"
        by (subst (3) split) (use less.prems run in simp)
      ultimately show ?thesis using step True all by (simp add: js_def)
    qed
  qed
qed

section \<open>Kernels that keep the contract\<close>

text \<open>Values packed one after another in the little-endian number a chunk's words spell, blocks of
  deltas as they come: one instance of what the kernels' package promises.\<close>

definition chunk_number :: "nat \<Rightarrow> nat list \<Rightarrow> nat" where
  "chunk_number bytes ws = foldr (\<lambda>w number. w + 2 ^ (8 * bytes) * number) ws 0"

definition packed_field :: "nat \<Rightarrow> nat \<Rightarrow> nat list \<Rightarrow> nat \<Rightarrow> nat" where
  "packed_field bytes bw ws j = chunk_number bytes ws div 2 ^ (bw * j) mod 2 ^ min bw (8 * bytes)"

definition plain_kernels :: kernels where
  "plain_kernels =
     \<lparr>unpack_single = (\<lambda>bytes ws bw i.
        packed_field bytes bw
          (take (128 * bw div bytes) (drop (i div FL_CHUNK * (128 * bw div bytes)) ws)) (i mod FL_CHUNK)),
      unpack_whole = (\<lambda>bytes bw ws. map (packed_field bytes bw ws) [0..<FL_CHUNK]),
      unpack_indices = (\<lambda>bytes bw ws ps. map (packed_field bytes bw ws) ps),
      undelta = (\<lambda>bytes ds bs. ds),
      untranspose = (\<lambda>bytes vs. map (\<lambda>v. v mod 2 ^ (8 * bytes)) vs)\<rparr>"

lemma packed_field_less: "packed_field bytes bw ws j < 2 ^ (8 * bytes)"
proof -
  have "packed_field bytes bw ws j < 2 ^ min bw (8 * bytes)" by (simp add: packed_field_def)
  also have "\<dots> \<le> 2 ^ (8 * bytes)" by (rule power_increasing) simp_all
  finally show ?thesis .
qed

lemma plain_kernels_lawful: "lawful plain_kernels"
proof -
  have at: "(c * FL_CHUNK + i) div FL_CHUNK = c" "(c * FL_CHUNK + i) mod FL_CHUNK = i"
    if "i < FL_CHUNK" for c i using that by simp_all
  have "unpack_whole plain_kernels bytes bw
      (take (128 * bw div bytes) (drop (c * (128 * bw div bytes)) ws)) =
      map (\<lambda>i. unpack_single plain_kernels bytes ws bw (c * FL_CHUNK + i)) [0..<FL_CHUNK]"
    for bytes bw ws c
    by (rule nth_equalityI) (simp_all add: plain_kernels_def at del: mult_Suc)
  moreover have "unpack_single plain_kernels bytes ws bw i < 2 ^ (8 * bytes)" for bytes ws bw i
    by (simp add: plain_kernels_def packed_field_less)
  moreover have "unpack_indices plain_kernels bytes bw ws ps =
      map (\<lambda>i. unpack_whole plain_kernels bytes bw ws ! i) ps" if "\<forall>i \<in> set ps. i < FL_CHUNK"
    for bytes bw ws ps using that by (simp add: plain_kernels_def)
  ultimately show ?thesis by (simp add: lawful_def plain_kernels_def)
qed

text \<open>A tree over several encodings: the values \<^term>\<open>[10, 10, 15, 20, 30, 30::nat]\<close>.\<close>

definition sample_tree :: node where
  "sample_tree = Chunked
     [Chunk 0 (FoR 10 (Primitive (U8 [0, 0, 5]))),
      Chunk 3 (RunEnd (Primitive (U16 [2, 4])) (Primitive (U32 [20, 30])) 1 3)] 6"

lemma replicate_two: "replicate 2 x = [x, x]"
  by (simp add: numeral_2_eq_2)

lemma sample_tree_decode: "decode fl sample_tree = [10, 10, 15, 20, 30, 30]"
  by (simp add: sample_tree_def replicate_two)

lemma sample_tree_wf: "wf_node fl sample_tree"
  by (simp add: sample_tree_def u64_max_def)

section \<open>The theorems of the probe\<close>

text \<open>C19. A point read returns the value the column encodes and refuses an index past its end; a
  window read returns the values of the window, whatever encodings it crosses, and refuses a window
  that does not lie in the column.\<close>

theorem probe_reads_column:
  assumes "lawful fl" "wf_node fl root"
  shows "probe_value_at fl root i =
      (if i < length (decode fl root) then Some (decode fl root ! i) else None) \<and>
    probe_read_into fl root start out =
      (if start + length out \<le> usize_max \<and> start + length out \<le> length (decode fl root)
       then Some (take (length out) (drop start (decode fl root))) else None)"
  using probe_value_at_decode [OF assms] probe_read_into_decode [OF assms] by blast

theorem probe_reads_column_witness:
  "probe_value_at plain_kernels sample_tree 4 = Some 30 \<and>
   probe_read_into plain_kernels sample_tree 1 [0, 0, 0] = Some [10, 15, 20]"
  using probe_reads_column [OF plain_kernels_lawful sample_tree_wf, of 4 1 "[0, 0, 0]"]
  by (simp add: sample_tree_decode u64_max_def)

text \<open>C10. Over a column whose values ascend, the lower bound is the number of values below the
  needle, the upper bound the number not above it, and the two together, found by each encoding's
  own search, the half-open range of the needle's rows. The searches do not panic.\<close>

theorem bounds_hold_needle_rows:
  assumes "lawful fl" "wf_node fl root" "sorted (decode fl root)"
  shows "lower_bound fl root x = Some (length (takeWhile (\<lambda>v. v < x) (decode fl root))) \<and>
    upper_bound fl root x = Some (length (takeWhile (\<lambda>v. v \<le> x) (decode fl root))) \<and>
    (\<exists>lo hi. bounds fl root x = Some (lo, hi) \<and>
       (\<forall>i < node_len root. decode fl root ! i = x \<longleftrightarrow> lo \<le> i \<and> i < hi) \<and>
       lower_bound fl root x = Some lo \<and> upper_bound fl root x = Some hi)"
proof -
  let ?xs = "decode fl root"
  have len: "length ?xs = node_len root" by (rule ok_nodeD(1) [OF every_node_ok(1) [OF assms(1)] assms(2)])
  have lo: "lower_bound fl root x = Some (below x ?xs)"
    by (rule ok_nodeD(4) [OF every_node_ok(1) [OF assms(1)] assms(2,3)])
  have hi: "upper_bound fl root x = Some (upto_value x ?xs)" by (rule upper_bound_Some [OF assms])
  have "?xs ! i = x \<longleftrightarrow> below x ?xs \<le> i \<and> i < upto_value x ?xs" if "i < node_len root" for i
    using below_iff [OF assms(3), of i x] upto_iff [OF assms(3), of i x] that len by fastforce
  then show ?thesis using lo hi bounds_Some [OF assms, of x] by auto
qed

theorem bounds_hold_needle_rows_witness:
  "\<exists>lo hi. bounds plain_kernels sample_tree 30 = Some (lo, hi) \<and> lower_bound plain_kernels sample_tree 30 = Some lo"
  using bounds_hold_needle_rows [OF plain_kernels_lawful sample_tree_wf, of 30]
  by (auto simp: sample_tree_decode)

lemma bounds_in_slice:
  assumes "lawful fl" "wf_node fl root"
    and "sorted (take (stop - start) (drop start (decode fl root)))"
  shows "bounds_in fl root start stop x =
    (if stop \<le> length (decode fl root)
     then let w = take (stop - start) (drop start (decode fl root))
          in Some (start + length (takeWhile (\<lambda>v. v < x) w), start + length (takeWhile (\<lambda>v. v \<le> x) w))
     else None)"
proof (cases "stop \<le> length (decode fl root)")
  case True
  let ?w = "window_of start (stop - start) (decode fl root)"
  have len: "length ?w = stop - start" using True by auto
  have "reads (\<lambda>i. probe_value_at fl root (start + i)) ?w"
    using True by (auto simp: reads_def probe_value_at_decode [OF assms(1,2)])
  from capped_bounds_Some [OF this assms(3)] show ?thesis
    using True ok_nodeD(1) [OF every_node_ok(1) [OF assms(1)] assms(2)]
    by (simp only: len bounds_in_def probe_len_def) (simp add: Let_def)
next
  case False
  then show ?thesis
    using ok_nodeD(1) [OF every_node_ok(1) [OF assms(1)] assms(2)]
    by (simp add: bounds_in_def probe_len_def)
qed

text \<open>Bounds inside a window whose values alone ascend are the needle's rows among the
  window's, in the column's indices; rows outside it may be in any order. A window that ends past
  the column is refused.\<close>

theorem bounds_in_window:
  assumes "lawful fl" "wf_node fl root"
    and "sorted (take (stop - start) (drop start (decode fl root)))"
  shows "bounds_in fl root start stop x =
    (if stop \<le> length (decode fl root)
     then let w = take (stop - start) (drop start (decode fl root))
          in Some (start + length (takeWhile (\<lambda>v. v < x) w), start + length (takeWhile (\<lambda>v. v \<le> x) w))
     else None)"
  by (rule bounds_in_slice [OF assms])

theorem bounds_in_window_witness:
  "bounds_in plain_kernels (Primitive (U8 [9, 2, 4, 4, 1])) 1 4 4 = Some (2, 4)"
  using bounds_in_window [OF plain_kernels_lawful, of "Primitive (U8 [9, 2, 4, 4, 1])" 4 1 4]
  by simp

lemma equality_search:
  assumes "lawful fl" "wf_node fl root"
  shows "count_eq fl root start len needle =
      (if start + len \<le> usize_max \<and> start + len \<le> length (decode fl root)
       then Some (length (filter (\<lambda>k. decode fl root ! (start + k) = needle) [0..<len])) else None) \<and>
    eq_offsets fl root start len needle out =
      (if start + len \<le> usize_max \<and> start + len \<le> length (decode fl root)
       then Some (out @ filter (\<lambda>k. decode fl root ! (start + k) = needle) [0..<len]) else None)"
proof -
  let ?xs = "decode fl root" and ?w = "window_of start len (decode fl root)"
  have offsets: "match_offsets 0 ?w needle = filter (\<lambda>k. ?xs ! (start + k) = needle) [0..<len]"
    if "start + len \<le> length ?xs"
    using that by (auto simp: match_offsets_eq intro: filter_cong)
  have eq: "eq_into fl root start len needle 0 s = Some (sink_matching 8 0 ?w needle s)"
    if "start + len \<le> length ?xs" for s
    using eq_into_Some [OF assms, of start len needle 0 s] that
      ok_nodeD(1) [OF every_node_ok(1) [OF assms(1)] assms(2)] by simp
  have count: "count_eq fl root start len needle =
      (if start + len \<le> usize_max \<and> start + len \<le> length ?xs
       then Some (length (filter (\<lambda>k. ?xs ! (start + k) = needle) [0..<len])) else None)"
    using eq offsets length_match_offsets [of needle ?w 0]
    by (simp add: count_eq_def in_column_decode [OF assms])
  have "eq_offsets fl root start len needle out =
      (if start + len \<le> usize_max \<and> start + len \<le> length ?xs
       then Some (out @ filter (\<lambda>k. ?xs ! (start + k) = needle) [0..<len]) else None)"
    using eq offsets by (simp add: eq_offsets_def in_column_decode [OF assms])
  with count show ?thesis ..
qed

text \<open>C18. The equality search, on the encoding where it allows and by reading otherwise, finds
  exactly the rows of the window whose value is the needle: \<open>count_eq\<close> their number, and
  \<open>eq_offsets\<close> their offsets in the window, ascending, after what the caller's vector held. A window
  that does not lie in the column is refused.\<close>

theorem equal_rows_found:
  assumes "lawful fl" "wf_node fl root"
  shows "count_eq fl root start len needle =
      (if start + len \<le> usize_max \<and> start + len \<le> length (decode fl root)
       then Some (length (filter (\<lambda>k. decode fl root ! (start + k) = needle) [0..<len])) else None) \<and>
    eq_offsets fl root start len needle out =
      (if start + len \<le> usize_max \<and> start + len \<le> length (decode fl root)
       then Some (out @ filter (\<lambda>k. decode fl root ! (start + k) = needle) [0..<len]) else None)"
  by (rule equality_search [OF assms])

theorem equal_rows_found_witness:
  "count_eq plain_kernels sample_tree 1 5 30 = Some 2 \<and>
   eq_offsets plain_kernels sample_tree 1 5 30 [7] = Some [7, 3, 4]"
  using equal_rows_found [OF plain_kernels_lawful sample_tree_wf, of 1 5 30 "[7]"]
  by (simp add: sample_tree_decode u64_max_def upt_rec)

text \<open>Reads at given indices, each run of consecutive ones in one pass, return the value at
  each index in the caller's order, repeated and unordered indices included, whenever every index
  lies in the column and the output holds one value per index; otherwise they are refused.\<close>

theorem read_at_indices:
  assumes "lawful fl" "wf_node fl root" "node_len root \<le> usize_max"
  shows "read_at fl root indices out =
    (if length indices = length out \<and> (\<forall>index \<in> set indices. index < length (decode fl root))
     then Some (map (\<lambda>index. decode fl root ! index) indices) else None)"
  using read_runs_decode [OF assms(1,2), of out indices 0] assms(3)
    ok_nodeD(1) [OF every_node_ok(1) [OF assms(1)] assms(2)]
  by (simp add: read_at_def)

theorem read_at_indices_witness:
  "read_at plain_kernels sample_tree [4, 2, 3, 4, 0] [0, 0, 0, 0, 0] = Some [30, 15, 20, 30, 10]"
  using read_at_indices [OF plain_kernels_lawful sample_tree_wf, of "[4, 2, 3, 4, 0]" "[0, 0, 0, 0, 0]"]
  by (simp add: sample_tree_decode) (simp add: sample_tree_def u64_max_def)

end
