(* ===== verification/Pieces.thy ===== *)
theory Pieces
  imports Search
begin

text \<open>
  Walks that may stop short: the cursor of a window over matches found part by part
  (\<open>core/src/store/read/live.rs\<close>) and the growing pieces a fold cuts its rows into
  (\<open>core/src/store/scan/pieces.rs\<close>). \<open>cursor_inv\<close> says what a cursor holds after the matches it has
  counted, and every step of a walk keeps it.
\<close>

section \<open>The window cursor\<close>

datatype live = Exact nat | AtLeast nat

fun at_least :: "live \<Rightarrow> nat" where
  "at_least (Exact n) = n"
| "at_least (AtLeast n) = n"

record cursor =
  cur_offset :: nat
  cur_limit :: "nat option"
  cur_seen :: nat
  cur_rows :: "nat list"

definition cursor_new :: "nat \<Rightarrow> nat option \<Rightarrow> cursor" where
  "cursor_new offset limit =
     \<lparr>cur_offset = offset, cur_limit = limit, cur_seen = 0, cur_rows = []\<rparr>"

definition cursor_skips :: "nat \<Rightarrow> cursor \<Rightarrow> bool \<times> cursor" where
  "cursor_skips n c =
     (if sat_add (cur_seen c) n \<le> cur_offset c then (True, c\<lparr>cur_seen := cur_seen c + n\<rparr>)
      else (False, c))"

text \<open>A cursor never holds more rows than its limit, so the subtraction does not panic.\<close>

definition cursor_take :: "nat list \<Rightarrow> cursor \<Rightarrow> cursor option" where
  "cursor_take ms c =
     do {
       let from' = min (cur_offset c - cur_seen c) (length ms);
       room \<leftarrow> (case cur_limit c of None \<Rightarrow> Some usize_max | Some limit \<Rightarrow> usub limit (length (cur_rows c)));
       rows \<leftarrow> buf_slice ms from' (min (sat_add from' room) (length ms));
       Some (c\<lparr>cur_rows := cur_rows c @ rows, cur_seen := cur_seen c + length ms\<rparr>)
     }"

definition cursor_is_full :: "cursor \<Rightarrow> bool" where
  "cursor_is_full c =
     (case cur_limit c of None \<Rightarrow> False | Some limit \<Rightarrow> limit \<le> length (cur_rows c))"

definition cursor_finish :: "bool \<Rightarrow> cursor \<Rightarrow> nat list \<times> live" where
  "cursor_finish ended c = (cur_rows c, if ended then Exact (cur_seen c) else AtLeast (cur_seen c))"

text \<open>What a cursor holds of the matches counted so far: their number, and the window's rows among
  them.\<close>

fun within_limit :: "nat option \<Rightarrow> nat list \<Rightarrow> nat list" where
  "within_limit None xs = xs"
| "within_limit (Some limit) xs = take limit xs"

definition cursor_inv :: "nat \<Rightarrow> nat option \<Rightarrow> nat list \<Rightarrow> cursor \<Rightarrow> bool" where
  "cursor_inv offset limit ms c \<longleftrightarrow>
     cur_offset c = offset \<and> cur_limit c = limit \<and> cur_seen c = length ms \<and>
     cur_rows c = within_limit limit (drop offset ms)"

lemma cursor_inv_new: "cursor_inv offset limit [] (cursor_new offset limit)"
  by (cases limit) (simp_all add: cursor_inv_def cursor_new_def)

lemma cursor_inv_skips:
  assumes "cursor_inv offset limit ms c" "length ms + n \<le> u64_max" "length ns = n"
  shows "cursor_skips n c = (True, c') \<Longrightarrow> cursor_inv offset limit (ms @ ns) c'"
    and "cursor_skips n c = (False, c') \<Longrightarrow> c' = c"
  using assms
  by (cases limit; auto simp: cursor_inv_def cursor_skips_def split: if_splits)+

lemma cursor_inv_take:
  assumes inv: "cursor_inv offset limit ms c" and small: "length ms + length ns \<le> u64_max"
  shows "\<exists>c'. cursor_take ns c = Some c' \<and> cursor_inv offset limit (ms @ ns) c'"
proof -
  note c = inv [unfolded cursor_inv_def]
  define f where "f = min (offset - length ms) (length ns)"
  have f: "f \<le> length ns" "drop f ns = drop (offset - length ms) ns" by (simp_all add: f_def min_def)
  have whole: "min (sat_add f usize_max) (length ns) = length ns"
    using small by (simp add: sat_add_def)
  show ?thesis
  proof (cases limit)
    case None
    have "cursor_take ns c = Some (c\<lparr>cur_rows := cur_rows c @ drop f ns, cur_seen := cur_seen c + length ns\<rparr>)"
      using c None f(1) whole
      by (simp add: cursor_take_def f_def [symmetric] buf_slice_def)
    then show ?thesis using c None f(2) by (simp add: cursor_inv_def)
  next
    case (Some l)
    define room where "room = l - length (cur_rows c)"
    have room: "usub l (length (cur_rows c)) = Some room" using c Some by (simp add: room_def usub_def)
    have sat: "f \<le> sat_add f room" using small f(1) by (simp add: sat_add_def)
    have stop: "min (sat_add f room) (length ns) = min (f + room) (length ns)"
      using small by (simp add: sat_add_def min_def)
    have "take (min (f + room) (length ns) - f) (drop f ns) = take room (drop f ns)"
      by (cases "f + room \<le> length ns") (simp_all add: min_def)
    then have take: "cursor_take ns c =
        Some (c\<lparr>cur_rows := cur_rows c @ take room (drop f ns), cur_seen := cur_seen c + length ns\<rparr>)"
      using c Some room f(1) sat unfolding cursor_take_def
      by (simp only: f_def [symmetric] option.case Option.bind.bind_lunit Let_def stop) (simp add: buf_slice_def stop [symmetric])
    have "room = l - (length ms - offset)" using c Some by (simp add: room_def min_def)
    then show ?thesis
      using c Some f(2) take by (simp add: cursor_inv_def)
  qed
qed

lemma cursor_inv_full:
  assumes "cursor_inv offset limit ms c" "cursor_is_full c"
  shows "cur_rows c = within_limit limit (drop offset (ms @ ns))"
proof (cases limit)
  case (Some l)
  then have "cur_rows c = take l (drop offset ms)" "l \<le> length (drop offset ms)"
    using assms by (auto simp: cursor_inv_def cursor_is_full_def)
  then show ?thesis using Some by simp
qed (use assms in \<open>simp add: cursor_inv_def cursor_is_full_def\<close>)

section \<open>Growing pieces\<close>

definition PIECE_GROWTH :: nat where
  "PIECE_GROWTH = 4"

text \<open>Each piece comes with the index of the range it was cut from. On ranges of machine words a
  piece always advances, so the guard on it never ends the walk early.\<close>

function cut_pieces :: "(nat \<times> nat \<times> nat) list \<Rightarrow> nat \<Rightarrow> (nat \<times> nat \<times> nat) list" where
  "cut_pieces [] room = []"
| "cut_pieces ((index, start, stop) # ranges) room =
     (if start < stop
      then let stop' = min (sat_add start room) stop
           in (index, start, stop') #
             (if start < stop' then cut_pieces ((index, stop', stop) # ranges) (sat_mul room PIECE_GROWTH)
              else [])
      else cut_pieces ranges room)"
  by pat_completeness auto
termination
  by (relation "measure (\<lambda>(ranges, room). length ranges + sum_list (map (\<lambda>(_, a, b). b - a) ranges))") auto

definition growing_pieces :: "(nat \<times> nat) list \<Rightarrow> nat \<Rightarrow> (nat \<times> nat \<times> nat) list" where
  "growing_pieces ranges first = cut_pieces (enumerate 0 ranges) (max first 1)"

lemma cut_pieces_rows:
  "0 < room \<Longrightarrow> \<forall>(i, a, b) \<in> set ranges. b \<le> u64_max \<Longrightarrow>
   concat (map (\<lambda>(i, a, b). [a..<b]) (cut_pieces ranges room)) =
     concat (map (\<lambda>(i, a, b). [a..<b]) ranges) \<and>
   (\<forall>(i, a, b) \<in> set (cut_pieces ranges room). a < b)"
proof (induction ranges room rule: cut_pieces.induct)
  case (2 index start stop ranges room)
  show ?case
  proof (cases "start < stop")
    case True
    let ?stop = "min (sat_add start room) stop"
    have up: "start < ?stop" "?stop \<le> stop" using True 2(3,4) by (auto simp: sat_add_def)
    have "0 < sat_mul room PIECE_GROWTH" using 2(3) by (simp add: sat_mul_def PIECE_GROWTH_def u64_max_def)
    then have "concat (map (\<lambda>(i, a, b). [a..<b]) (cut_pieces ((index, ?stop, stop) # ranges) (sat_mul room PIECE_GROWTH))) =
        [?stop..<stop] @ concat (map (\<lambda>(i, a, b). [a..<b]) ranges) \<and>
        (\<forall>(i, a, b) \<in> set (cut_pieces ((index, ?stop, stop) # ranges) (sat_mul room PIECE_GROWTH)). a < b)"
      using 2(1) [OF True refl up(1)] 2(4) by simp
    moreover have "[start..<stop] = [start..<?stop] @ [?stop..<stop]"
      using upt_split [of start ?stop stop] up by simp
    ultimately show ?thesis
      using True up by (subst (1 2) cut_pieces.simps) (simp only: if_True Let_def, simp)
  next
    case False
    then show ?thesis using 2(2-4) by simp
  qed
qed simp

lemma cut_pieces_within:
  "0 < room \<Longrightarrow> \<forall>(i, a, b) \<in> set ranges. b \<le> u64_max \<Longrightarrow> (i, a, b) \<in> set (cut_pieces ranges room) \<Longrightarrow>
   \<exists>start stop. (i, start, stop) \<in> set ranges \<and> start \<le> a \<and> a \<le> b \<and> b \<le> stop"
proof (induction ranges room rule: cut_pieces.induct)
  case (2 index start stop ranges room)
  let ?stop = "min (sat_add start room) stop"
  have grown: "0 < sat_mul room PIECE_GROWTH"
    using 2(3) by (simp add: sat_mul_def PIECE_GROWTH_def u64_max_def)
  show ?case
  proof (cases "start < stop")
    case False
    then show ?thesis using 2(2) [OF False 2(3)] 2(4,5) by auto
  next
    case True
    then have bounds: "start < ?stop" "?stop \<le> stop" using 2(3,4) by (auto simp: sat_add_def min_def)
    consider "i = index" "a = start" "b = ?stop"
      | "(i, a, b) \<in> set (cut_pieces ((index, ?stop, stop) # ranges) (sat_mul room PIECE_GROWTH))"
      using 2(5) True bounds(1) by (subst (asm) cut_pieces.simps) (auto simp only: if_True Let_def set_simps)
    then show ?thesis
    proof cases
      case 1
      then show ?thesis using bounds by (intro exI [of _ start] exI [of _ stop]) simp
    next
      case 2
      from "2.IH"(1) [OF True refl bounds(1) grown _ 2] "2.prems"(2) obtain start' stop' where
        range: "(i, start', stop') \<in> set ((index, ?stop, stop) # ranges)" "start' \<le> a" "a \<le> b" "b \<le> stop'"
        by auto
      then show ?thesis
      proof (cases "(i, start', stop') = (index, ?stop, stop)")
        case True
        then have "start \<le> a" "b \<le> stop" using bounds(1) range(2,4) by auto
        then show ?thesis using True range(3) by (intro exI [of _ start] exI [of _ stop]) simp
      next
        case False
        then show ?thesis using range by auto
      qed
    qed
  qed
qed simp

lemma enumerate_words:
  "\<forall>(a, b) \<in> set ranges. b \<le> u64_max \<Longrightarrow> \<forall>(i, a, b) \<in> set (enumerate n ranges). b \<le> u64_max"
  by (auto simp: in_set_enumerate_eq) (metis (no_types, lifting) add.commute case_prod_conv less_diff_conv2 nth_mem)

lemma growing_pieces_rows:
  assumes "\<forall>(a, b) \<in> set ranges. b \<le> u64_max"
  shows "concat (map (\<lambda>(i, a, b). [a..<b]) (growing_pieces ranges first)) =
      concat (map (\<lambda>(a, b). [a..<b]) ranges)"
proof -
  have le: "\<forall>(i, a, b) \<in> set (enumerate 0 ranges). b \<le> u64_max"
    by (rule enumerate_words [OF assms])
  have "map (\<lambda>(i, a, b). [a..<b]) (enumerate n ranges) = map (\<lambda>(a, b). [a..<b]) ranges" for n
    by (induction ranges arbitrary: n) auto
  then show ?thesis
    using cut_pieces_rows [OF _ le, of "max first 1"] by (simp add: growing_pieces_def)
qed

lemma growing_pieces_within:
  assumes "\<forall>(a, b) \<in> set ranges. b \<le> u64_max" "(i, a, b) \<in> set (growing_pieces ranges first)"
  shows "i < length ranges \<and> fst (ranges ! i) \<le> a \<and> a \<le> b \<and> b \<le> snd (ranges ! i)"
  using cut_pieces_within [OF _ enumerate_words [OF assms(1)] assms(2) [unfolded growing_pieces_def]]
  by (fastforce simp: in_set_enumerate_eq)

end
