(* ===== verification/TypedEq.thy ===== *)
theory TypedEq
  imports Selection Probe
begin

text \<open>
  Comparing a table's rows with the equalities of a pattern: the typed row loops of
  \<open>core/src/store/scan/typed_eq.rs\<close>, the canonical codes of a column
  (\<open>core/src/store/resident.rs\<close>) and the mask of \<open>core/src/store/scan/residual.rs\<close>. An array is its
  type, its nullability, its cells, the encoding the code asks for and the probe its encoding
  resolves to, if any; a table is its named columns beside the probes resolved for them. The array
  library's compare of a column with a scalar is the argument \<open>equal_to\<close>, beside the kernels of the
  probes. \<open>holds\<close> says when a row passes every equality, and every compare is shown to narrow a
  selection to exactly those rows. \<^term>\<open>None\<close> is an error of the array library or a panic. The
  environment's switch that turns the encoded search off is taken as unset.
\<close>

section \<open>Columns and tables\<close>

datatype dtype = UInt nat | Utf8 | OtherType

datatype scalar = CodeScalar nat | TextScalar string | OtherScalar nat | NullScalar

text \<open>A shared wrapper's list is its decoded source; the flag tells whether its one-way cache is
  filled. Filling it changes no value, so a column that is read stays as it is.\<close>

datatype encoding =
    PrimitiveEncoding "nat list" | SharedEncoding "nat list" bool | ViewEncoding "string list"
  | OtherEncoding

record column =
  col_type :: dtype
  col_nullable :: bool
  col_cells :: "scalar list"
  col_encoding :: encoding
  col_probe :: "node option"

record table =
  tb_len :: nat
  tb_columns :: "(string \<times> column) list"
  tb_probes :: "(string \<times> node option) list"
  tb_component :: bool

type_synonym equalities = "(string \<times> scalar) list"

record compute = kernels +
  equal_to :: "dtype \<Rightarrow> scalar list \<Rightarrow> scalar \<Rightarrow> bool list option"

definition by_name :: "table \<Rightarrow> string \<Rightarrow> node option" where
  "by_name t field = (case map_of (tb_probes t) field of Some (Some pr) \<Rightarrow> Some pr | _ \<Rightarrow> None)"

fun unsigned_value :: "scalar \<Rightarrow> nat option" where
  "unsigned_value (CodeScalar code) = Some code"
| "unsigned_value s = None"

fun is_unsigned_int :: "dtype \<Rightarrow> bool" where
  "is_unsigned_int (UInt w) = True"
| "is_unsigned_int ty = False"

text \<open>The canonical codes of a column: where one exists already, and where a shared wrapper's source
  may be decoded for it.\<close>

definition canonical_code :: "column \<Rightarrow> nat list option" where
  "canonical_code col =
     (if \<not> is_unsigned_int (col_type col) \<or> col_nullable col then None
      else case col_encoding col of
          PrimitiveEncoding xs \<Rightarrow> if col_type col = UInt 8 then Some xs else None
        | _ \<Rightarrow> None)"

definition shared_code_primitive :: "column \<Rightarrow> nat list option" where
  "shared_code_primitive col =
     (case canonical_code col of
        Some xs \<Rightarrow> Some xs
      | None \<Rightarrow>
          (case col_encoding col of
             SharedEncoding xs filled \<Rightarrow> if col_type col = UInt 8 then Some xs else None
           | _ \<Rightarrow> None))"

definition cached_code_primitive :: "column \<Rightarrow> nat list option" where
  "cached_code_primitive col =
     (case canonical_code col of
        Some xs \<Rightarrow> Some xs
      | None \<Rightarrow>
          (case col_encoding col of
             SharedEncoding xs filled \<Rightarrow>
               if filled then canonical_code (col \<lparr> col_encoding := PrimitiveEncoding xs \<rparr>) else None
           | _ \<Rightarrow> None))"

section \<open>Typed equalities\<close>

datatype needle = CodeNeedle nat | StrNeedle string

fun from_scalar :: "scalar \<Rightarrow> needle option" where
  "from_scalar (CodeScalar code) = Some (CodeNeedle code)"
| "from_scalar (TextScalar s) = Some (StrNeedle s)"
| "from_scalar s = None"

definition extract_needles :: "equalities \<Rightarrow> needle list option" where
  "extract_needles eqs = (if eqs = [] then None else gather (\<lambda>(field, s). from_scalar s) eqs)"

datatype typed_eq = CodeEq "nat list" nat | ProbeEq node nat | StrEq "string list" string

definition bind_col :: "column \<Rightarrow> needle \<Rightarrow> bool \<Rightarrow> node option \<Rightarrow> typed_eq option" where
  "bind_col col needle canonicalize cached =
     (if col_nullable col then None
      else case needle of
          CodeNeedle code \<Rightarrow>
            if \<not> is_unsigned_int (col_type col) then None
            else
              (case (if canonicalize then shared_code_primitive col else cached_code_primitive col) of
                 Some xs \<Rightarrow> Some (CodeEq xs code)
               | None \<Rightarrow>
                   (case cached of
                      Some pr \<Rightarrow> Some (ProbeEq pr code)
                    | None \<Rightarrow> map_option (\<lambda>pr. ProbeEq pr code) (col_probe col)))
        | StrNeedle s \<Rightarrow>
            if col_type col \<noteq> Utf8 then None
            else (case col_encoding col of ViewEncoding views \<Rightarrow> Some (StrEq views s) | _ \<Rightarrow> None))"

definition bind_eqs ::
    "(string \<times> column) list \<Rightarrow> equalities \<Rightarrow> needle list \<Rightarrow> bool \<Rightarrow> (string \<Rightarrow> node option) \<Rightarrow>
       typed_eq list option" where
  "bind_eqs cols eqs needles canonicalize probes =
     gather (\<lambda>((field, s), needle).
         case map_of cols field of
           None \<Rightarrow> None
         | Some col \<Rightarrow> bind_col col needle canonicalize (probes field))
       (zip eqs needles)"

fun te_matches :: "'k kernels_scheme \<Rightarrow> typed_eq \<Rightarrow> nat \<Rightarrow> bool option" where
  "te_matches fl (CodeEq xs code) i = map_option (\<lambda>v. v = code) (buf_get xs i)"
| "te_matches fl (ProbeEq pr code) i = map_option (\<lambda>v. v = code) (probe_value_at fl pr i)"
| "te_matches fl (StrEq views s) i =
     map_option (\<lambda>view. length view = length s \<and> view = s) (buf_get views i)"

text \<open>\<open>iter().all\<close>: the first equality that fails ends the row.\<close>

fun all_hold :: "('a \<Rightarrow> bool option) \<Rightarrow> 'a list \<Rightarrow> bool option" where
  "all_hold p [] = Some True"
| "all_hold p (x # xs) =
     (case p x of None \<Rightarrow> None | Some False \<Rightarrow> Some False | Some True \<Rightarrow> all_hold p xs)"

definition code_views :: "typed_eq list \<Rightarrow> (nat list \<times> nat) list option" where
  "code_views cols =
     gather (\<lambda>c. case c of CodeEq xs code \<Rightarrow> Some (xs, code) | _ \<Rightarrow> None) cols"

fun is_probe_eq :: "typed_eq \<Rightarrow> bool" where
  "is_probe_eq (ProbeEq pr code) = True"
| "is_probe_eq c = False"

definition row_test :: "'k kernels_scheme \<Rightarrow> typed_eq list \<Rightarrow> nat \<Rightarrow> bool option" where
  "row_test fl cols i =
     (case code_views cols of
        Some codes \<Rightarrow> all_hold (\<lambda>(xs, code). map_option (\<lambda>v. v = code) (buf_get xs i)) codes
      | None \<Rightarrow> all_hold (\<lambda>c. te_matches fl c i) cols)"

definition TYPED_EQ_MAX_ROWS :: nat where
  "TYPED_EQ_MAX_ROWS = 4096"

definition TYPED_PROBE_MAX_ROWS :: nat where
  "TYPED_PROBE_MAX_ROWS = 256"

text \<open>The inner \<^term>\<open>None\<close> is the decline that sends the caller to the mask scan.\<close>

definition typed_residual_ids_reading ::
    "'k kernels_scheme \<Rightarrow> table \<Rightarrow> row_selection \<Rightarrow> nat \<Rightarrow> equalities \<Rightarrow> nat \<Rightarrow> nat list option option" where
  "typed_residual_ids_reading fl t sel base_len eqs work =
     (case extract_needles eqs of
        None \<Rightarrow> Some None
      | Some needles \<Rightarrow>
          let selected = sel_len sel base_len; wide = TYPED_EQ_MAX_ROWS < selected
          in if length eqs < 2 \<and> wide then Some None
             else let canonicalize = (base_len \<le> sat_mul (max work selected) (length eqs))
                  in case bind_eqs (tb_columns t) eqs needles canonicalize (by_name t) of
                       None \<Rightarrow> Some None
                     | Some cols \<Rightarrow>
                         if TYPED_PROBE_MAX_ROWS < selected \<and> list_ex is_probe_eq cols then Some None
                         else map_option Some (filter_rows sel base_len (row_test fl cols)))"

text \<open>The tail's rows: one table, or tables appended one after another.\<close>

datatype applied = FlatStruct table | ChunkedStructs "table option list" | OtherShape

definition positions_of ::
    "'k kernels_scheme \<Rightarrow> table \<Rightarrow> equalities \<Rightarrow> needle list \<Rightarrow> nat \<Rightarrow> nat list \<Rightarrow> nat list option option" where
  "positions_of fl sa eqs needles offset out =
     (case bind_eqs (tb_columns sa) eqs needles True (\<lambda>field. None) of
        None \<Rightarrow> Some None
      | Some cols \<Rightarrow>
          map_option (\<lambda>rows. Some (out @ map (\<lambda>i. offset + i) rows))
            (checked_filter (row_test fl cols) [0..<tb_len sa]))"

fun chunk_positions ::
    "'k kernels_scheme \<Rightarrow> table option list \<Rightarrow> equalities \<Rightarrow> needle list \<Rightarrow> nat \<Rightarrow> nat list \<Rightarrow>
       nat list option option" where
  "chunk_positions fl [] eqs needles offset out = Some (Some out)"
| "chunk_positions fl (None # chunks) eqs needles offset out = Some None"
| "chunk_positions fl (Some sa # chunks) eqs needles offset out =
     (case positions_of fl sa eqs needles offset out of
        None \<Rightarrow> None
      | Some None \<Rightarrow> Some None
      | Some (Some out) \<Rightarrow> chunk_positions fl chunks eqs needles (offset + tb_len sa) out)"

definition typed_positions :: "'k kernels_scheme \<Rightarrow> applied \<Rightarrow> equalities \<Rightarrow> nat list option option" where
  "typed_positions fl applied eqs =
     (case extract_needles eqs of
        None \<Rightarrow> Some None
      | Some needles \<Rightarrow>
          (case applied of
             FlatStruct sa \<Rightarrow> positions_of fl sa eqs needles 0 []
           | ChunkedStructs chunks \<Rightarrow> chunk_positions fl chunks eqs needles 0 []
           | OtherShape \<Rightarrow> Some None))"

section \<open>The mask scan and the compares\<close>

fun apply_cells :: "row_selection \<Rightarrow> 'a list \<Rightarrow> 'a list option" where
  "apply_cells AllRows base = Some base"
| "apply_cells (RowRange a b) base = (let (s, e) = clamped a b (length base) in buf_slice base s e)"
| "apply_cells (RowIds ids) base = gather (buf_get base) ids"

fun mask_loop ::
    "'k compute_scheme \<Rightarrow> (string \<Rightarrow> (dtype \<times> scalar list) option) \<Rightarrow> equalities \<Rightarrow> mask option \<Rightarrow>
       mask option option" where
  "mask_loop fl cols [] acc = Some acc"
| "mask_loop fl cols ((field, s) # eqs) acc =
     (case cols field of
        None \<Rightarrow> None
      | Some (ty, cells) \<Rightarrow>
          (case equal_to fl ty cells s of
             None \<Rightarrow> None
           | Some m \<Rightarrow>
               mask_loop fl cols eqs
                 (Some (case acc of Some prev \<Rightarrow> map2 (\<and>) prev m | None \<Rightarrow> m))))"

definition mask_for ::
    "'k compute_scheme \<Rightarrow> (string \<Rightarrow> (dtype \<times> scalar list) option) \<Rightarrow> nat \<Rightarrow> equalities \<Rightarrow> mask option" where
  "mask_for fl cols n eqs =
     (case mask_loop fl cols eqs None of
        None \<Rightarrow> None
      | Some (Some keep) \<Rightarrow> Some keep
      | Some None \<Rightarrow> Some (replicate n True))"

definition compared ::
    "'k compute_scheme \<Rightarrow> table \<Rightarrow> row_selection \<Rightarrow> equalities \<Rightarrow> nat \<Rightarrow> row_selection option" where
  "compared fl t sel eqs work =
     (case typed_residual_ids_reading fl t sel (tb_len t) eqs work of
        None \<Rightarrow> None
      | Some (Some ids) \<Rightarrow> Some (RowIds ids)
      | Some None \<Rightarrow>
          do {
            columns \<leftarrow> gather (\<lambda>(name, col). map_option (\<lambda>cells. (name, col_type col, cells))
                         (apply_cells sel (col_cells col))) (tb_columns t);
            keep \<leftarrow> mask_for fl (map_of columns) (sel_len sel (tb_len t)) eqs;
            refine sel keep
          })"

text \<open>\<open>execute::<PrimitiveArray>\<close> and its \<open>as_slice::<u64>\<close>, which panics on another width.\<close>

definition primitive_codes :: "dtype \<Rightarrow> scalar list \<Rightarrow> nat list option" where
  "primitive_codes ty cells = (if ty = UInt 8 then gather unsigned_value cells else None)"

definition component_compared ::
    "'k compute_scheme \<Rightarrow> table \<Rightarrow> row_selection \<Rightarrow> equalities \<Rightarrow> row_selection option" where
  "component_compared fl t sel eqs =
     (case (as_rows sel (tb_len t), eqs) of
        (Run start stop, [(field, s)]) \<Rightarrow>
          (case unsigned_value s of
             None \<Rightarrow> compared fl t sel eqs (tb_len t)
           | Some code \<Rightarrow>
               do {
                 offsets \<leftarrow>
                   (case by_name t field of
                      Some pr \<Rightarrow> eq_offsets fl pr start (stop - start) code []
                    | None \<Rightarrow>
                        do {
                          col \<leftarrow> map_of (tb_columns t) field;
                          cells \<leftarrow> buf_slice (col_cells col) start stop;
                          xs \<leftarrow> primitive_codes (col_type col) cells;
                          Some (map fst (filter (\<lambda>(at, v). v = code) (enumerate 0 xs)))
                        });
                 Some (from_ids (map (\<lambda>at. start + at) offsets))
               })
      | _ \<Rightarrow> compared fl t sel eqs (tb_len t))"

section \<open>Rows that pass, and narrowing to them\<close>

fun fits :: "dtype \<Rightarrow> scalar \<Rightarrow> bool" where
  "fits (UInt w) (CodeScalar code) = (code < 2 ^ (8 * w))"
| "fits Utf8 (TextScalar s) = True"
| "fits OtherType (OtherScalar v) = True"
| "fits ty s = False"

text \<open>What the array library's compare promises: over cells of the column's type, and a scalar that
  casts to it, each row's bit is whether its cell is the scalar. The bit of a null cell is not
  specified: a mask drops the compare's validity.\<close>

definition lawful_compute :: "'k compute_scheme \<Rightarrow> bool" where
  "lawful_compute fl \<longleftrightarrow> lawful fl \<and>
     (\<forall>ty cells s. fits ty s \<longrightarrow> (\<forall>c \<in> set cells. fits ty c \<or> c = NullScalar) \<longrightarrow>
        (\<exists>m. equal_to fl ty cells s = Some m \<and> length m = length cells \<and>
           (\<forall>i < length cells. cells ! i \<noteq> NullScalar \<longrightarrow> m ! i = (cells ! i = s))))"

lemma equal_to_fits:
  assumes "lawful_compute fl" "fits ty s" "\<forall>c \<in> set cells. fits ty c"
  shows "equal_to fl ty cells s = Some (map (\<lambda>c. c = s) cells)"
proof -
  obtain m where m: "equal_to fl ty cells s = Some m" "length m = length cells"
    "\<forall>i < length cells. cells ! i \<noteq> NullScalar \<longrightarrow> m ! i = (cells ! i = s)"
    using assms unfolding lawful_compute_def by blast
  have "cells ! i \<noteq> NullScalar" if "i < length cells" for i
    using assms(3) nth_mem [OF that] by (cases ty) auto
  then have "m = map (\<lambda>c. c = s) cells" using m by (intro nth_equalityI) auto
  then show ?thesis using m(1) by simp
qed

definition probe_for :: "'k kernels_scheme \<Rightarrow> node \<Rightarrow> column \<Rightarrow> bool" where
  "probe_for fl pr col \<longleftrightarrow> wf_node fl pr \<and> col_cells col = map CodeScalar (decode fl pr)"

definition wf_column :: "'k kernels_scheme \<Rightarrow> nat \<Rightarrow> column \<Rightarrow> bool" where
  "wf_column fl n col \<longleftrightarrow> length (col_cells col) = n \<and>
     (case col_encoding col of
        PrimitiveEncoding xs \<Rightarrow> is_unsigned_int (col_type col) \<longrightarrow> \<not> col_nullable col \<longrightarrow> col_cells col = map CodeScalar xs
      | SharedEncoding xs filled \<Rightarrow> is_unsigned_int (col_type col) \<longrightarrow> \<not> col_nullable col \<longrightarrow> col_cells col = map CodeScalar xs
      | ViewEncoding views \<Rightarrow> \<not> col_nullable col \<longrightarrow> col_cells col = map TextScalar views
      | OtherEncoding \<Rightarrow> True) \<and>
     (\<forall>pr. col_probe col = Some pr \<longrightarrow> probe_for fl pr col)"

definition wf_table :: "'k kernels_scheme \<Rightarrow> table \<Rightarrow> bool" where
  "wf_table fl t \<longleftrightarrow> tb_len t \<le> usize_max \<and>
     (\<forall>(name, col) \<in> set (tb_columns t). wf_column fl (tb_len t) col \<and> (tb_component t \<longrightarrow> col_type col = UInt 8)) \<and>
     (\<forall>field pr. by_name t field = Some pr \<longrightarrow>
        (\<exists>col. map_of (tb_columns t) field = Some col \<and> probe_for fl pr col))"

definition wf_eqs :: "table \<Rightarrow> equalities \<Rightarrow> bool" where
  "wf_eqs t eqs \<longleftrightarrow>
     (\<forall>(field, s) \<in> set eqs. \<exists>col. map_of (tb_columns t) field = Some col \<and>
        fits (col_type col) s \<and> (\<forall>c \<in> set (col_cells col). fits (col_type col) c))"

definition eq_row :: "table \<Rightarrow> string \<times> scalar \<Rightarrow> nat \<Rightarrow> bool" where
  "eq_row t e row =
     (case map_of (tb_columns t) (fst e) of None \<Rightarrow> False | Some col \<Rightarrow> col_cells col ! row = snd e)"

definition holds :: "table \<Rightarrow> equalities \<Rightarrow> nat \<Rightarrow> bool" where
  "holds t eqs row = list_all (\<lambda>e. eq_row t e row) eqs"

definition narrows :: "nat \<Rightarrow> row_selection \<Rightarrow> (nat \<Rightarrow> bool) \<Rightarrow> row_selection option \<Rightarrow> bool" where
  "narrows n sel p res \<longleftrightarrow>
     (\<exists>sel'. res = Some sel' \<and> wf_selection n sel' \<and> covered sel' n = filter p (covered sel n))"


lemma narrowsI:
  "res = Some sel' \<Longrightarrow> wf_selection n sel' \<Longrightarrow> covered sel' n = filter p (covered sel n) \<Longrightarrow>
   narrows n sel p res"
  by (auto simp: narrows_def)

lemma narrows_ids:
  assumes "wf_selection n sel"
  shows "narrows n sel p (Some (RowIds (filter p (covered sel n))))"
    and "narrows n sel p (Some (from_ids (filter p (covered sel n))))"
  using covered_ascending [OF assms] covered_bound [OF assms]
  by (auto intro!: narrowsI simp: ascending_filter)

lemma narrows_cong:
  "(\<And>row. row \<in> set (covered sel n) \<Longrightarrow> p row = q row) \<Longrightarrow> narrows n sel p res \<Longrightarrow> narrows n sel q res"
  by (auto simp: narrows_def cong: filter_cong)

section \<open>A compare narrows to the rows that pass\<close>

lemma gather_SomeD: "gather f xs = Some ys \<Longrightarrow> list_all2 (\<lambda>x y. f x = Some y) xs ys"
  by (induction xs arbitrary: ys) (auto split: option.splits)

lemma gather_nth:
  "gather f xs = Some ys \<Longrightarrow> length ys = length xs \<and> (\<forall>i < length xs. f (xs ! i) = Some (ys ! i))"
  using gather_SomeD by (auto simp: list_all2_conv_all_nth)

lemma gather_map: "gather f (map g xs) = gather (f \<circ> g) xs"
  by (induction xs) (simp_all split: option.split)

lemma all_hold_Some:
  "(\<And>x. x \<in> set xs \<Longrightarrow> p x = Some (q x)) \<Longrightarrow> all_hold p xs = Some (list_all q xs)"
  by (induction xs) (auto split: bool.split)

lemma canonical_cells:
  assumes "wf_column fl n col" "\<not> col_nullable col" "is_unsigned_int (col_type col)"
    and "shared_code_primitive col = Some xs \<or> cached_code_primitive col = Some xs"
  shows "col_cells col = map CodeScalar xs"
  using assms
  by (auto simp: wf_column_def shared_code_primitive_def cached_code_primitive_def canonical_code_def
      split: encoding.splits if_splits option.splits)

lemma bind_col_matches:
  assumes fl: "lawful fl" and wf: "wf_column fl n col" and n: "n \<le> usize_max"
    and cached: "\<And>pr. cached = Some pr \<Longrightarrow> probe_for fl pr col"
    and bound: "bind_col col needle canonicalize cached = Some c" "from_scalar s = Some needle" "i < n"
  shows "te_matches fl c i = Some (col_cells col ! i = s)"
proof -
  have len: "length (col_cells col) = n" using wf by (simp add: wf_column_def)
  have plain: "\<not> col_nullable col" using bound(1) by (auto simp: bind_col_def split: if_splits)
  show ?thesis
  proof (cases needle)
    case (StrNeedle x)
    then obtain views where "c = StrEq views x" "col_cells col = map TextScalar views" "s = TextScalar x"
      using bound plain wf
      by (cases s) (auto simp: bind_col_def wf_column_def split: if_splits encoding.splits)
    then show ?thesis using bound(3) len by (auto simp: buf_get_def)
  next
    case (CodeNeedle code)
    have s: "s = CodeScalar code" using bound(2) CodeNeedle by (cases s) auto
    have uint: "is_unsigned_int (col_type col)"
      using bound(1) CodeNeedle by (auto simp: bind_col_def split: if_splits)
    have probed: "te_matches fl (ProbeEq pr code) i = Some (col_cells col ! i = s)"
      if "probe_for fl pr col" for pr
      using that bound(3) len
      by (auto simp: probe_for_def s probe_value_at_decode [OF fl])
    have "(\<exists>xs. c = CodeEq xs code \<and> col_cells col = map CodeScalar xs) \<or>
        (\<exists>pr. c = ProbeEq pr code \<and> probe_for fl pr col)"
      using bound(1) CodeNeedle canonical_cells [OF wf plain uint] cached wf plain uint
      by (auto simp: bind_col_def wf_column_def split: if_splits option.splits)
    then show ?thesis
    proof (elim disjE exE conjE)
      fix xs
      assume "c = CodeEq xs code" "col_cells col = map CodeScalar xs"
      then show ?thesis using bound(3) len s by (auto simp: buf_get_def)
    next
      fix pr
      assume "c = ProbeEq pr code" "probe_for fl pr col"
      then show ?thesis using probed [of pr] by (simp only:)
    qed
  qed
qed


lemma map_of_column:
  "wf_table fl t \<Longrightarrow> map_of (tb_columns t) field = Some col \<Longrightarrow> wf_column fl (tb_len t) col"
  by (auto simp: wf_table_def dest: map_of_SomeD)

lemma probe_of_column:
  "wf_table fl t \<Longrightarrow> by_name t field = Some pr \<Longrightarrow> map_of (tb_columns t) field = Some col \<Longrightarrow>
   probe_for fl pr col"
  unfolding wf_table_def by (metis option.inject)

lemma row_test_holds:
  assumes fl: "lawful fl" and wf: "wf_table fl t"
    and probes: "probes = by_name t \<or> probes = (\<lambda>field. None)"
    and needles: "extract_needles eqs = Some needles"
    and bound: "bind_eqs (tb_columns t) eqs needles canonicalize probes = Some cols"
    and i: "i < tb_len t"
  shows "row_test fl cols i = Some (holds t eqs i)"
proof -
  have fs: "length needles = length eqs" "\<And>k. k < length eqs \<Longrightarrow> from_scalar (snd (eqs ! k)) = Some (needles ! k)"
    using needles gather_nth [of "\<lambda>(field, s). from_scalar s" eqs needles]
    by (auto simp: extract_needles_def case_prod_unfold split: if_splits)
  have cols: "length cols = length eqs"
    "\<And>k. k < length eqs \<Longrightarrow> \<exists>col. map_of (tb_columns t) (fst (eqs ! k)) = Some col \<and>
      bind_col col (needles ! k) canonicalize (probes (fst (eqs ! k))) = Some (cols ! k)"
    using gather_nth [OF bound [unfolded bind_eqs_def]] fs(1)
    by (auto simp: case_prod_unfold split: option.splits)
  have eq: "te_matches fl (cols ! k) i = Some (eq_row t (eqs ! k) i)" if k: "k < length eqs" for k
  proof -
    obtain col where col: "map_of (tb_columns t) (fst (eqs ! k)) = Some col"
      "bind_col col (needles ! k) canonicalize (probes (fst (eqs ! k))) = Some (cols ! k)"
      using cols(2) [OF k] by blast
    have "probe_for fl pr col" if "probes (fst (eqs ! k)) = Some pr" for pr
      using that probes probe_of_column [OF wf _ col(1)] by auto
    then show ?thesis
      using bind_col_matches [OF fl map_of_column [OF wf col(1)] _ _ col(2) fs(2) [OF k] i] wf col(1)
      by (simp add: eq_row_def wf_table_def)
  qed
  have "all_hold (\<lambda>c. te_matches fl c i) cols = Some (holds t eqs i)"
  proof -
    have "all_hold (\<lambda>c. te_matches fl c i) cols = Some (list_all (\<lambda>c. te_matches fl c i = Some True) cols)"
      using eq cols(1) by (intro all_hold_Some) (auto simp: in_set_conv_nth)
    then show ?thesis using eq cols(1) by (auto simp: holds_def list_all_length)
  qed
  moreover have "all_hold (\<lambda>(xs, code). map_option (\<lambda>v. v = code) (buf_get xs i)) codes =
      all_hold (\<lambda>c. te_matches fl c i) cols" if "code_views cols = Some codes" for codes
    using that
  proof (induction cols arbitrary: codes)
    case (Cons c cols)
    then show ?case
      by (cases c) (auto simp: code_views_def split: option.splits bool.splits)
  qed (simp add: code_views_def)
  ultimately show ?thesis by (simp add: row_test_def split: option.split)
qed

lemma typed_ids_hold:
  assumes "lawful fl" "wf_table fl t" "wf_selection (tb_len t) sel"
  shows "typed_residual_ids_reading fl t sel (tb_len t) eqs work \<in>
    {Some None, Some (Some (filter (holds t eqs) (covered sel (tb_len t))))}"
proof -
  have "filter_rows sel (tb_len t) (row_test fl cols) = Some (filter (holds t eqs) (covered sel (tb_len t)))"
    if "extract_needles eqs = Some needles"
      "bind_eqs (tb_columns t) eqs needles canonicalize (by_name t) = Some cols" for needles canonicalize cols
    using row_test_holds [OF assms(1,2) disjI1 [OF refl] that] by (rule filter_rows_eq [OF assms(3)])
  then show ?thesis
    by (auto simp: typed_residual_ids_reading_def Let_def split: option.split)
qed

lemma mask_loop_bits:
  assumes fl: "lawful_compute fl"
    and eqs: "\<And>field s. (field, s) \<in> set eqs \<Longrightarrow> \<exists>ty cells. cols field = Some (ty, cells) \<and>
        length cells = length rows \<and> fits ty s \<and> (\<forall>c \<in> set cells. fits ty c) \<and>
        map (\<lambda>c. c = s) cells = map (eq_row t (field, s)) rows"
    and acc: "acc = Some (map p rows) \<or> acc = None \<and> p = (\<lambda>row. True)"
  shows "\<exists>res. mask_loop fl cols eqs acc = Some res \<and>
    (res = Some (map (\<lambda>row. p row \<and> holds t eqs row) rows) \<or> res = None \<and> acc = None \<and> eqs = [])"
  using eqs acc
proof (induction eqs arbitrary: acc p)
  case Nil
  then show ?case by (auto simp: holds_def)
next
  case (Cons e eqs)
  obtain field s where e: "e = (field, s)" by fastforce
  obtain ty cells where c: "cols field = Some (ty, cells)" "length cells = length rows" "fits ty s"
    "\<forall>c \<in> set cells. fits ty c" "map (\<lambda>c. c = s) cells = map (eq_row t (field, s)) rows"
    using Cons.prems(1) [of field s] e by auto
  have "equal_to fl ty cells s = Some (map (eq_row t (field, s)) rows)"
    using equal_to_fits [OF fl c(3,4)] c(5) by simp
  moreover have "(case acc of Some prev \<Rightarrow> map2 (\<and>) prev (map (eq_row t (field, s)) rows)
        | None \<Rightarrow> map (eq_row t (field, s)) rows) = map (\<lambda>row. p row \<and> eq_row t (field, s) row) rows"
    using Cons.prems(2) by (auto simp: zip_map_map zip_same_conv_map)
  ultimately show ?case
    using Cons.IH [of "Some (map (\<lambda>row. p row \<and> eq_row t (field, s) row) rows)"
        "\<lambda>row. p row \<and> eq_row t (field, s) row"] Cons.prems(1) c(1) e
    by (auto simp: holds_def conj_assoc)
qed

lemma apply_cells_rows:
  assumes "wf_selection (length cells) sel"
  shows "apply_cells sel cells = Some (map ((!) cells) (covered sel (length cells)))"
proof (cases sel)
  case AllRows
  then show ?thesis by (simp add: map_nth)
next
  case (RowRange a b)
  then have "clamped a b (length cells) = (a, b)" "a \<le> b" "b \<le> length cells"
    using assms by (auto simp: clamped_def Let_def)
  then show ?thesis using RowRange assms
    by (simp add: buf_slice_Some) (metis drop_map length_upt map_nth slice_upt take_map)
next
  case (RowIds ids)
  then show ?thesis using assms by (auto intro!: gather_Some simp: checked_simps)
qed


lemma compared_narrows:
  assumes fl: "lawful_compute fl" and wf: "wf_table fl t" and sel: "wf_selection (tb_len t) sel"
    and eqs: "wf_eqs t eqs"
  shows "narrows (tb_len t) sel (holds t eqs) (compared fl t sel eqs work)"
proof -
  let ?n = "tb_len t" and ?rows = "covered sel (tb_len t)"
  have law: "lawful fl" using fl by (simp add: lawful_compute_def)
  have typed: "narrows ?n sel (holds t eqs) (compared fl t sel eqs work)"
    if "typed_residual_ids_reading fl t sel ?n eqs work = Some (Some (filter (holds t eqs) ?rows))"
    using narrows_ids(1) [OF sel] by (simp add: compared_def that)
  have masked: "narrows ?n sel (holds t eqs) (compared fl t sel eqs work)"
    if none: "typed_residual_ids_reading fl t sel ?n eqs work = Some None"
  proof -
    let ?applied = "\<lambda>col. map ((!) (col_cells col)) ?rows"
    let ?columns = "map (\<lambda>(name, col). (name, col_type col, ?applied col)) (tb_columns t)"
    have len: "length (col_cells col) = ?n" if "(name, col) \<in> set (tb_columns t)" for name col
      using wf that by (auto simp: wf_table_def wf_column_def)
    have "apply_cells sel (col_cells col) = Some (?applied col)" if "(name, col) \<in> set (tb_columns t)" for name col
      using apply_cells_rows [of "col_cells col" sel] sel len [OF that] by simp
    then have columns: "gather (\<lambda>(name, col). map_option (\<lambda>cells. (name, col_type col, cells))
        (apply_cells sel (col_cells col))) (tb_columns t) = Some ?columns"
      by (intro gather_Some) (auto split: prod.split)
    have lookup: "map_of ?columns field = map_option (\<lambda>col. (col_type col, ?applied col)) (map_of (tb_columns t) field)"
      for field using map_of_map [of "\<lambda>col. (col_type col, ?applied col)" "tb_columns t"] by simp
    have "\<exists>res. mask_loop fl (map_of ?columns) eqs None = Some res \<and>
      (res = Some (map (\<lambda>row. True \<and> holds t eqs row) ?rows) \<or> res = None \<and> (None :: mask option) = None \<and> eqs = [])"
    proof (rule mask_loop_bits [OF fl])
      fix field s
      assume "(field, s) \<in> set eqs"
      then obtain col where col: "map_of (tb_columns t) field = Some col" "fits (col_type col) s"
        "\<forall>c \<in> set (col_cells col). fits (col_type col) c" using eqs by (auto simp: wf_eqs_def)
      have "\<forall>c \<in> set (?applied col). fits (col_type col) c"
        using col(3) covered_bound [OF sel] len [OF map_of_SomeD [OF col(1)]] by auto
      then show "\<exists>ty cells. map_of ?columns field = Some (ty, cells) \<and>
          length cells = length ?rows \<and> fits ty s \<and> (\<forall>c \<in> set cells. fits ty c) \<and>
          map (\<lambda>c. c = s) cells = map (eq_row t (field, s)) ?rows"
        using col by (simp add: lookup eq_row_def)
    qed simp
    then have "mask_for fl (map_of ?columns) (sel_len sel ?n) eqs = Some (map (holds t eqs) ?rows)"
      by (auto simp: mask_for_def holds_def sel_len_covered [OF sel] map_replicate_const [symmetric])
    moreover have "narrows ?n sel (holds t eqs) (refine sel (map (holds t eqs) ?rows))"
      using refine_kept [OF sel, of "map (holds t eqs) ?rows"]
      by (auto simp: narrows_def zip_map2 zip_same_conv_map filter_map o_def)
    ultimately show ?thesis by (simp add: compared_def none columns)
  qed
  show ?thesis using typed_ids_hold [OF law wf sel, of eqs work] typed masked by auto
qed

lemma enumerate_matches:
  "map fst (filter (\<lambda>(at, v). v = code) (enumerate 0 xs)) = filter (\<lambda>k. xs ! k = code) [0..<length xs]"
proof -
  have "enumerate 0 xs = map (\<lambda>k. (k, xs ! k)) [0..<length xs]"
    using enumerate_map_index [of id xs] by simp
  then show ?thesis by (simp only: filter_map map_map o_def case_prod_conv fst_conv map_ident)
qed

lemma component_compared_narrows:
  assumes fl: "lawful_compute fl" and wf: "wf_table fl t" and sel: "wf_selection (tb_len t) sel"
    and eqs: "wf_eqs t eqs" and component: "tb_component t"
  shows "narrows (tb_len t) sel (holds t eqs) (component_compared fl t sel eqs)"
proof -
  let ?n = "tb_len t"
  have law: "lawful fl" and n: "?n \<le> usize_max"
    using fl wf by (simp_all add: lawful_compute_def wf_table_def)
  note compare = compared_narrows [OF fl wf sel eqs, of ?n]
  show ?thesis
  proof (cases "\<exists>start stop field code. as_rows sel ?n = Run start stop \<and> eqs = [(field, CodeScalar code)]")
    case False
    then have "component_compared fl t sel eqs = compared fl t sel eqs ?n"
      by (cases "as_rows sel ?n"; cases eqs; cases "tl eqs"; cases "hd eqs"; cases "snd (hd eqs)")
        (auto simp: component_compared_def)
    then show ?thesis using compare by simp
  next
    case True
    then obtain start stop field code where run: "as_rows sel ?n = Run start stop"
      and eqs1: "eqs = [(field, CodeScalar code)]" by blast
    have rows: "covered sel ?n = [start..<stop]" using run by (simp add: covered_def)
    have span: "start \<le> stop" "stop \<le> ?n" using run sel by (cases sel; auto simp: clamped_def Let_def)+
    obtain col where col: "map_of (tb_columns t) field = Some col"
      "\<forall>c \<in> set (col_cells col). fits (col_type col) c" using eqs by (auto simp: wf_eqs_def eqs1)
    have wfc: "wf_column fl ?n col" by (rule map_of_column [OF wf col(1)])
    then have len: "length (col_cells col) = ?n" by (simp add: wf_column_def)
    have type: "col_type col = UInt 8"
      using wf component col(1) by (auto simp: wf_table_def dest: map_of_SomeD)
    have test: "holds t eqs row \<longleftrightarrow> col_cells col ! row = CodeScalar code" for row
      by (simp add: holds_def eqs1 eq_row_def col(1))
    define found where "found = filter (\<lambda>k. col_cells col ! (start + k) = CodeScalar code) [0..<stop - start]"
    have offsets: "(case by_name t field of
          Some pr \<Rightarrow> eq_offsets fl pr start (stop - start) code []
        | None \<Rightarrow> do {
            col \<leftarrow> map_of (tb_columns t) field;
            cells \<leftarrow> buf_slice (col_cells col) start stop;
            xs \<leftarrow> primitive_codes (col_type col) cells;
            Some (map fst (filter (\<lambda>(at, v). v = code) (enumerate 0 xs)))
          }) = Some found"
    proof (cases "by_name t field")
      case (Some pr)
      then have pr: "wf_node fl pr" "col_cells col = map CodeScalar (decode fl pr)"
        using probe_of_column [OF wf Some col(1)] by (simp_all add: probe_for_def)
      then have "eq_offsets fl pr start (stop - start) code [] = Some found"
        using equality_search [OF law pr(1), of start "stop - start" code "[]"] span len n
        by (auto simp: found_def intro!: filter_cong)
      then show ?thesis using Some by simp
    next
      case None
      have cells: "\<forall>c \<in> set (col_cells col). \<exists>v. c = CodeScalar v"
        using col(2) type by (metis fits.elims(2) dtype.distinct(1,3))
      define xs where "xs = map (\<lambda>k. the (unsigned_value (col_cells col ! (start + k)))) [0..<stop - start]"
      have slice: "buf_slice (col_cells col) start stop = Some (map (\<lambda>k. col_cells col ! (start + k)) [0..<stop - start])"
        using span len by (simp add: buf_slice_Some) (rule nth_equalityI; simp)
      have cell: "unsigned_value (col_cells col ! (start + k)) = Some (xs ! k) \<and>
          (xs ! k = code \<longleftrightarrow> col_cells col ! (start + k) = CodeScalar code)" if "k < stop - start" for k
      proof -
        have "start + k < length (col_cells col)" using that span len by simp
        then obtain v where "col_cells col ! (start + k) = CodeScalar v" using cells nth_mem by blast
        then show ?thesis using that by (simp add: xs_def)
      qed
      have "primitive_codes (col_type col) (map (\<lambda>k. col_cells col ! (start + k)) [0..<stop - start]) = Some xs"
        using cell by (simp add: primitive_codes_def type gather_map o_def)
          (rule trans [OF gather_Some [where g = "(!) xs"]], simp_all add: map_nth [of xs, simplified] xs_def)
      moreover have "map fst (filter (\<lambda>(at, v). v = code) (enumerate 0 xs)) = found"
        unfolding enumerate_matches found_def using cell by (intro filter_cong) (simp_all add: xs_def del: upt_Suc)
      ultimately show ?thesis using None by (simp add: col(1) slice)
    qed
    have "map (\<lambda>at. start + at) found = filter (holds t eqs) (covered sel ?n)"
    proof -
      have "[start..<stop] = map (\<lambda>k. start + k) [0..<stop - start]" using span by (intro nth_equalityI) simp_all
      then show ?thesis by (simp only: rows found_def filter_map o_def test)
    qed
    then have "component_compared fl t sel eqs = Some (from_ids (filter (holds t eqs) (covered sel ?n)))"
      using offsets by (simp add: component_compared_def run eqs1)
    then show ?thesis using narrows_ids(2) [OF sel] by simp
  qed
qed


section \<open>The positions of a tail\<close>

text \<open>The rows of a tail are its tables' rows, one table after another.\<close>

fun tail_holds :: "table list \<Rightarrow> equalities \<Rightarrow> nat \<Rightarrow> bool" where
  "tail_holds [] eqs i = False"
| "tail_holds (t # ts) eqs i = (if i < tb_len t then holds t eqs i else tail_holds ts eqs (i - tb_len t))"

lemma filter_upt_append:
  "filter p [0..<m + n] = filter p [0..<m] @ map (\<lambda>i. m + i) (filter (\<lambda>i. p (m + i)) [0..<n])"
proof -
  have "[0..<m + n] = [0..<m] @ map (\<lambda>i. m + i) [0..<n]"
    by (rule nth_equalityI) (simp_all add: nth_append)
  then show ?thesis by (simp only: filter_append filter_map o_def)
qed

lemma positions_of_rows:
  assumes "lawful fl" "wf_table fl sa" "extract_needles eqs = Some needles"
  shows "positions_of fl sa eqs needles offset out \<in>
    {Some None, Some (Some (out @ map (\<lambda>i. offset + i) (filter (holds sa eqs) [0..<tb_len sa])))}"
proof -
  have "checked_filter (row_test fl cols) [0..<tb_len sa] = Some (filter (holds sa eqs) [0..<tb_len sa])"
    if "bind_eqs (tb_columns sa) eqs needles True (\<lambda>field. None) = Some cols" for cols
    using row_test_holds [OF assms(1,2) disjI2 [OF refl] assms(3) that] by (intro checked_filter_Some) simp
  then show ?thesis by (simp add: positions_of_def split: option.split)
qed

lemma chunk_positions_rows:
  assumes "lawful fl" "extract_needles eqs = Some needles"
  shows "list_all (wf_table fl) ts \<Longrightarrow>
    chunk_positions fl (map Some ts) eqs needles offset out \<in>
      {Some None, Some (Some (out @ map (\<lambda>i. offset + i)
         (filter (tail_holds ts eqs) [0..<sum_list (map tb_len ts)])))}"
proof (induction ts arbitrary: offset out)
  case (Cons sa ts)
  let ?here = "map (\<lambda>i. offset + i) (filter (holds sa eqs) [0..<tb_len sa])"
  let ?rest = "map (\<lambda>i. offset + tb_len sa + i) (filter (tail_holds ts eqs) [0..<sum_list (map tb_len ts)])"
  have all: "map (\<lambda>i. offset + i) (filter (tail_holds (sa # ts) eqs) [0..<sum_list (map tb_len (sa # ts))]) =
      ?here @ ?rest"
  proof -
    have "filter (tail_holds (sa # ts) eqs) [0..<tb_len sa] = filter (holds sa eqs) [0..<tb_len sa]"
      by (rule filter_cong) simp_all
    then show ?thesis by (simp add: filter_upt_append add.assoc o_def)
  qed
  consider (none) "positions_of fl sa eqs needles offset out = Some None"
    | (some) "positions_of fl sa eqs needles offset out = Some (Some (out @ ?here))"
    using positions_of_rows [OF assms(1) _ assms(2), of sa offset out] Cons.prems by auto
  then show ?case
  proof cases
    case some
    then show ?thesis
      using Cons.IH [of "offset + tb_len sa" "out @ ?here"] Cons.prems by (simp only: all) simp
  qed simp
qed simp


section \<open>A table to try them on\<close>

definition plain_compute :: compute where
  "plain_compute = kernels.extend plain_kernels
     \<lparr> equal_to = (\<lambda>ty cells s. Some (map (\<lambda>c. c = s) cells)) \<rparr>"

lemma plain_compute_lawful: "lawful_compute plain_compute"
proof -
  have "lawful plain_compute \<longleftrightarrow> lawful plain_kernels"
    by (simp add: lawful_def plain_compute_def kernels.defs)
  then show ?thesis
    by (simp add: lawful_compute_def plain_kernels_lawful) (simp add: plain_compute_def kernels.defs)
qed

definition sample_codes :: column where
  "sample_codes = \<lparr> col_type = UInt 8, col_nullable = False,
     col_cells = map CodeScalar [10, 10, 15, 20, 30, 30],
     col_encoding = SharedEncoding [10, 10, 15, 20, 30, 30] False, col_probe = Some sample_tree \<rparr>"

definition sample_texts :: column where
  "sample_texts = \<lparr> col_type = Utf8, col_nullable = False,
     col_cells = map TextScalar [''a'', ''b'', ''a'', ''a'', ''b'', ''a''],
     col_encoding = ViewEncoding [''a'', ''b'', ''a'', ''a'', ''b'', ''a''], col_probe = None \<rparr>"

definition sample_table :: table where
  "sample_table = \<lparr> tb_len = 6, tb_columns = [(''s'', sample_codes), (''o'', sample_texts)],
     tb_probes = [(''s'', Some sample_tree), (''o'', None)], tb_component = False \<rparr>"

lemma sample_codes_fit: "\<forall>c \<in> set (col_cells sample_codes). fits (UInt 8) c"
  by (simp add: sample_codes_def)

lemma sample_table_simps [simp]:
  "tb_len sample_table = 6" "\<not> tb_component sample_table"
  "tb_columns sample_table = [(''s'', sample_codes), (''o'', sample_texts)]"
  "by_name sample_table field = (if field = ''s'' then Some sample_tree else None)"
  by (simp_all add: sample_table_def by_name_def)

lemma sample_table_wf: "wf_table plain_compute sample_table"
proof -
  have law: "lawful plain_compute" using plain_compute_lawful by (simp add: lawful_compute_def)
  have pr: "probe_for plain_compute sample_tree sample_codes"
    by (simp add: probe_for_def sample_tree_decode sample_tree_wf) (simp add: sample_codes_def)
  then have codes: "wf_column plain_compute 6 sample_codes"
    by (simp add: wf_column_def) (simp add: sample_codes_def)
  have "wf_column plain_compute 6 sample_texts"
    by (simp add: wf_column_def sample_texts_def)
  then show ?thesis
    using pr codes by (auto simp: wf_table_def u64_max_def)
qed

lemma sample_eqs_wf:
  "wf_eqs sample_table [(''s'', CodeScalar 30), (''o'', TextScalar ''a'')]"
  "wf_eqs sample_table [(''s'', CodeScalar 30)]"
  by (simp_all add: wf_eqs_def) (simp_all add: sample_codes_def sample_texts_def)



text \<open>C25. Over a tail of one table or of tables appended one after another, the typed compares give
  the positions of exactly the rows that pass, in the tail's own row order, or decline to the mask
  scan; they never panic.\<close>

theorem typed_positions_exact:
  assumes "lawful fl" "list_all (wf_table fl) ts"
  shows "typed_positions fl (ChunkedStructs (map Some ts)) eqs \<in>
      {Some None, Some (Some (filter (tail_holds ts eqs) [0..<sum_list (map tb_len ts)]))} \<and>
    (case ts of [t] \<Rightarrow> typed_positions fl (FlatStruct t) eqs \<in>
      {Some None, Some (Some (filter (holds t eqs) [0..<tb_len t]))} | _ \<Rightarrow> True)"
proof -
  have "typed_positions fl (ChunkedStructs (map Some ts)) eqs \<in>
      {Some None, Some (Some (filter (tail_holds ts eqs) [0..<sum_list (map tb_len ts)]))}"
    using chunk_positions_rows [OF assms(1) _ assms(2), of eqs _ 0 "[]"]
    by (auto simp: typed_positions_def split: option.split)
  moreover have "typed_positions fl (FlatStruct t) eqs \<in>
      {Some None, Some (Some (filter (holds t eqs) [0..<tb_len t]))}" if "ts = [t]" for t
    using positions_of_rows [OF assms(1), of t eqs _ 0 "[]"] assms(2) that
    by (auto simp: typed_positions_def split: option.split)
  ultimately show ?thesis by (simp split: list.split)
qed

theorem typed_positions_exact_witness:
  "typed_positions plain_compute (ChunkedStructs [Some sample_table, Some sample_table]) [(''s'', CodeScalar 15)] =
     Some (Some [2, 8])"
proof -
  have law: "lawful plain_compute" using plain_compute_lawful by (simp add: lawful_compute_def)
  have bound: "bind_col sample_codes (CodeNeedle 15) True None = Some (CodeEq [10, 10, 15, 20, 30, 30] 15)"
    by (simp add: bind_col_def sample_codes_def shared_code_primitive_def canonical_code_def)
  have answered: "typed_positions plain_compute (ChunkedStructs [Some sample_table, Some sample_table])
      [(''s'', CodeScalar 15)] \<noteq> Some None"
    by (auto simp: typed_positions_def extract_needles_def positions_of_def bind_eqs_def bound
        split: option.splits)
  have "filter (tail_holds [sample_table, sample_table] [(''s'', CodeScalar 15)]) [0..<12] = [2, 8]"
    by (simp add: upt_rec holds_def eq_row_def sample_codes_def)
  then show ?thesis
    using typed_positions_exact [OF law, of "[sample_table, sample_table]" "[(''s'', CodeScalar 15)]"]
      sample_table_wf answered
    by simp
qed

end
