(* ===== verification/Residual.thy ===== *)
theory Residual
  imports TypedEq Zones Pieces
begin

text \<open>
  The residual compare of \<open>core/src/store/scan/residual.rs\<close>: the equalities of a pattern no prefix
  search or index answered, over a selection of a table's rows. The statistics settle what they can
  (\<open>ask_statistics\<close>), then a walk by zones or by growing pieces counts the live matches, takes a
  window of them or finds them all. \<open>sound_classes\<close> says what the zone maps a residual walks by must
  be true of; under it every walk is shown to answer for exactly the selected rows that pass every
  equality. Test events and timers are left out. \<^term>\<open>None\<close> is an error of the array library or a
  panic.
\<close>

unbundle bit_operations_syntax

section \<open>Selected rows\<close>

definition asks_statistics :: "nat \<Rightarrow> bool" where
  "asks_statistics rows \<longleftrightarrow> ZONE_ROWS < rows"

definition sel_span :: "selected_rows \<Rightarrow> (nat \<times> nat) option" where
  "sel_span rows =
     (case rows of
        Run start stop \<Rightarrow> if start < stop then Some (start, stop) else None
      | RunIds ids \<Rightarrow> (case ids of [] \<Rightarrow> None | _ \<Rightarrow> Some (hd ids, last ids + 1)))"

definition part_of :: "selected_rows \<Rightarrow> nat \<times> nat \<Rightarrow> row_selection option" where
  "part_of rows run =
     (case rows of
        Run start stop \<Rightarrow> Some (RowRange (fst run) (snd run))
      | RunIds ids \<Rightarrow>
          let start = partition_point (\<lambda>i. i < fst run) ids; stop = partition_point (\<lambda>i. i < snd run) ids
          in map_option RowIds (buf_slice ids start stop))"

definition rows_at :: "selected_rows \<Rightarrow> nat \<times> nat \<Rightarrow> row_selection option" where
  "rows_at rows places =
     (case rows of
        Run start stop \<Rightarrow> Some (RowRange (start + fst places) (start + snd places))
      | RunIds ids \<Rightarrow> map_option RowIds (buf_slice ids (fst places) (snd places)))"

definition extend_rows :: "nat list \<Rightarrow> row_selection \<Rightarrow> nat \<Rightarrow> nat list" where
  "extend_rows ids sel base_len =
     (case as_rows sel base_len of Run start stop \<Rightarrow> ids @ [start..<stop] | RunIds rows \<Rightarrow> ids @ rows)"

definition tombstoned :: "row_selection \<Rightarrow> mask \<Rightarrow> nat \<Rightarrow> nat option" where
  "tombstoned sel deleted base_len =
     (case as_rows sel base_len of
        Run start stop \<Rightarrow> map_option true_count (buf_slice deleted start stop)
      | RunIds ids \<Rightarrow> map_option length (checked_filter (mask_value deleted) ids))"

definition live_ids :: "row_selection \<Rightarrow> mask option \<Rightarrow> nat \<Rightarrow> nat list option" where
  "live_ids sel deleted base_len =
     (let ids = extend_rows [] sel base_len
      in case deleted of
           None \<Rightarrow> Some ids
         | Some d \<Rightarrow> checked_filter (\<lambda>i. map_option Not (mask_value d i)) ids)"

definition live_count :: "row_selection \<Rightarrow> mask option \<Rightarrow> nat \<Rightarrow> nat option" where
  "live_count sel deleted base_len =
     do {
       dead \<leftarrow> (case deleted of None \<Rightarrow> Some 0 | Some d \<Rightarrow> tombstoned sel d base_len);
       usub (sel_len sel base_len) dead
     }"

section \<open>Equalities by their bits, and the statistics\<close>

definition every_eq :: "nat \<Rightarrow> 32 word" where
  "every_eq eqs = (if 32 \<le> eqs then - 1 else push_bit eqs 1 - 1)"

definition picked :: "equalities \<Rightarrow> 32 word \<Rightarrow> equalities" where
  "picked eqs bits =
     map snd (filter (\<lambda>(i, e). i < 32 \<longrightarrow> bits AND push_bit i 1 \<noteq> 0) (enumerate 0 eqs))"

definition unzoned_bits :: "nat \<Rightarrow> zone_check list \<Rightarrow> 32 word" where
  "unzoned_bits eqs cs = fold (\<lambda>check bits. bits AND NOT (push_bit (bit_of check) 1)) cs (every_eq eqs)"

definition primary_slot :: "string \<Rightarrow> nat option" where
  "primary_slot name =
     (if name = ''s'' then Some 0 else if name = ''p'' then Some 1
      else if name = ''o'' then Some 2 else if name = ''g'' then Some 3 else None)"

type_synonym quad_zones = "column_zones option list"

definition zones_get :: "quad_zones \<Rightarrow> nat \<Rightarrow> column_zones option" where
  "zones_get zones slot = (case buf_get zones slot of Some (Some zs) \<Rightarrow> Some zs | _ \<Rightarrow> None)"

definition zone_check_of :: "quad_zones \<Rightarrow> nat \<Rightarrow> string \<Rightarrow> scalar \<Rightarrow> zone_check option" where
  "zone_check_of zones b field s =
     do {
       b \<leftarrow> (if b < 32 then Some b else None);
       code \<leftarrow> unsigned_value s;
       slot \<leftarrow> primary_slot field;
       zs \<leftarrow> zones_get zones slot;
       Some \<lparr> bit_of = b, code_of = code, zones_of = zs \<rparr>
     }"

datatype classes = Zoned zone_set | Pieces "zone_set option"

record memory_base =
  mem_table :: table
  mem_zones :: quad_zones

definition classes_zoned :: "zone_check list \<Rightarrow> nat \<Rightarrow> row_selection \<Rightarrow> nat \<Rightarrow> classes option" where
  "classes_zoned zoned eqs sel base_len =
     (case sel_span (as_rows sel base_len) of
        None \<Rightarrow> None
      | Some _ \<Rightarrow>
          if 32 < eqs then None
          else map_option Zoned (zone_set_new zoned (unzoned_bits eqs zoned)))"

definition unasked_classes :: "memory_base \<Rightarrow> equalities \<Rightarrow> classes" where
  "unasked_classes memory eqs =
     (let cs = List.map_filter (\<lambda>(at, (field, s)). zone_check_of (mem_zones memory) at field s) (enumerate 0 eqs)
      in Pieces (map_option bounds_only (zone_set_new cs (unzoned_bits (length eqs) cs))))"

datatype asked = Nothing | Everything | Open equalities classes

fun ask_loop ::
    "quad_zones \<Rightarrow> equalities \<Rightarrow> equalities \<Rightarrow> zone_check list \<Rightarrow> (equalities \<times> zone_check list) option" where
  "ask_loop zones [] open zoned = Some (open, zoned)"
| "ask_loop zones ((field, s) # eqs) open zoned =
     (case zone_check_of zones (length open) field s of
        Some check \<Rightarrow>
          (case (case column_bounds (zones_of check) of
                   None \<Rightarrow> None
                 | Some (lo, hi) \<Rightarrow> eq_on_bounds lo hi (code_of check)) of
             Some False \<Rightarrow> None
           | Some True \<Rightarrow> ask_loop zones eqs open zoned
           | None \<Rightarrow> ask_loop zones eqs (open @ [(field, s)]) (zoned @ [check]))
      | None \<Rightarrow> ask_loop zones eqs (open @ [(field, s)]) zoned)"

definition ask_statistics :: "memory_base \<Rightarrow> row_selection \<Rightarrow> equalities \<Rightarrow> asked" where
  "ask_statistics memory sel eqs =
     (case ask_loop (mem_zones memory) eqs [] [] of
        None \<Rightarrow> Nothing
      | Some (open, zoned) \<Rightarrow>
          if open = [] then Everything
          else Open open
            (case classes_zoned zoned (length open) sel (tb_len (mem_table memory)) of
               Some classes \<Rightarrow> classes
             | None \<Rightarrow> unasked_classes memory open))"

section \<open>The compare and its walks\<close>

record residual =
  rc_table :: table
  rc_selection :: row_selection
  rc_eqs :: equalities
  rc_classes :: classes
  rc_deleted :: "mask option"

datatype unread = Recorded nat nat | Encoded node nat "nat \<times> nat"

datatype step = Skip | Take | Unread unread | Compare "32 word"

fun joins :: "step \<Rightarrow> step \<Rightarrow> bool" where
  "joins Skip Skip = True"
| "joins Take Take = True"
| "joins (Compare bits) (Compare other) = (bits = other)"
| "joins a b = False"

definition rc_len :: "residual \<Rightarrow> nat" where
  "rc_len self = tb_len (rc_table self)"

definition selected_rows :: "residual \<Rightarrow> selected_rows" where
  "selected_rows self = as_rows (rc_selection self) (rc_len self)"

definition work :: "residual \<Rightarrow> nat" where
  "work self = sel_len (rc_selection self) (rc_len self)"

definition residual_live :: "residual \<Rightarrow> row_selection \<Rightarrow> nat option" where
  "residual_live self matched = live_count matched (rc_deleted self) (rc_len self)"

definition compare :: "'k compute_scheme \<Rightarrow> residual \<Rightarrow> row_selection \<Rightarrow> 32 word \<Rightarrow> row_selection option" where
  "compare fl self sel bits =
     (let eqs = picked (rc_eqs self) bits
      in if tb_component (rc_table self) then component_compared fl (rc_table self) sel eqs
         else compared fl (rc_table self) sel eqs (work self))"

text \<open>The walk by zones. The accumulator is the list of steps, the last one first; \<open>mixed\<close> chooses a
  mixed zone's step.\<close>

fun steps_loop ::
    "residual \<Rightarrow> zone_set \<Rightarrow> selected_rows \<Rightarrow> (zone_part \<Rightarrow> row_selection \<Rightarrow> 32 word \<Rightarrow> step option) \<Rightarrow>
       zone_part list \<Rightarrow> ((nat \<times> nat) \<times> step) list \<Rightarrow> ((nat \<times> nat) \<times> step) list option" where
  "steps_loop self zs rows mixed [] acc = Some (rev acc)"
| "steps_loop self zs rows mixed (zone # zones) acc =
     do {
       selected \<leftarrow> part_of rows (part_rows zone);
       if sel_is_empty selected (rc_len self)
       then steps_loop self zs rows mixed zones
         (case acc of
            (run, last') # acc' \<Rightarrow> ((fst run, snd (part_rows zone)), last') # acc'
          | [] \<Rightarrow> [])
       else do {
         cls \<leftarrow> zone_class_of zs (part_zone zone);
         step \<leftarrow> (case cls of
             ZNone \<Rightarrow> Some Skip
           | ZAll \<Rightarrow> Some Take
           | Mixed unsettled \<Rightarrow> mixed zone selected unsettled);
         steps_loop self zs rows mixed zones
           (case acc of
              (run, last') # acc' \<Rightarrow>
                if snd run = fst (part_rows zone) \<and> joins last' step
                then ((fst run, snd (part_rows zone)), last') # acc'
                else (part_rows zone, step) # acc
            | [] \<Rightarrow> [(part_rows zone, step)])
       }
     }"

definition steps ::
    "residual \<Rightarrow> zone_set \<Rightarrow> selected_rows \<Rightarrow> nat \<times> nat \<Rightarrow>
       (zone_part \<Rightarrow> row_selection \<Rightarrow> 32 word \<Rightarrow> step option) \<Rightarrow> ((nat \<times> nat) \<times> step) list option" where
  "steps self zs rows sp mixed = steps_loop self zs rows mixed (parts zs sp) []"

fun is_compare :: "step \<Rightarrow> bool" where
  "is_compare (Compare bits) = True"
| "is_compare step = False"

definition compares_whole ::
    "selected_rows \<Rightarrow> ((nat \<times> nat) \<times> step) list \<Rightarrow> nat \<Rightarrow> nat \<Rightarrow> bool option" where
  "compares_whole rows sts selected len =
     do {
       compares \<leftarrow> gather (\<lambda>(run, step). map_option (\<lambda>part. sel_len part len) (part_of rows run))
         (filter (\<lambda>(run, step). is_compare step) sts);
       Some (1 < length compares \<and> selected < sat_mul (sum_list compares) 2)
     }"

definition count_ones :: "32 word \<Rightarrow> nat" where
  "count_ones bits = length (filter (bit bits) [0..<32])"

definition trailing_zeros :: "32 word \<Rightarrow> nat" where
  "trailing_zeros bits = length (takeWhile (\<lambda>i. \<not> bit bits i) [0..<32])"

text \<open>How a mixed zone is counted unread; the outer \<^term>\<open>None\<close> is a panic.\<close>

definition unread_plan ::
    "residual \<Rightarrow> zone_set \<Rightarrow> zone_part \<Rightarrow> row_selection \<Rightarrow> 32 word \<Rightarrow> unread option option" where
  "unread_plan self zs zone part bits =
     (let len = rc_len self
      in if count_ones bits \<noteq> 1 then Some None
         else do {
           dead \<leftarrow> (case rc_deleted self of None \<Rightarrow> Some 0 | Some d \<Rightarrow> tombstoned part d len);
           if 0 < dead then Some None
           else do {
             (field, s) \<leftarrow> buf_get (rc_eqs self) (trailing_zeros bits);
             case unsigned_value s of
               None \<Rightarrow> Some None
             | Some code \<Rightarrow>
                 (let whole = set_zone_rows zs (part_zone zone); rows = snd whole - fst whole;
                      counted = (if sel_len part len = rows
                        then recorded_in zs (trailing_zeros bits) \<lparr> part_zone = part_zone zone, part_rows = whole \<rparr>
                        else None)
                  in case counted of
                       Some matches \<Rightarrow> Some (Some (Recorded rows matches))
                     | None \<Rightarrow>
                         (case as_rows part len of
                            RunIds ids \<Rightarrow> Some None
                          | Run start stop \<Rightarrow>
                              (case by_name (rc_table self) field of
                                 None \<Rightarrow> Some None
                               | Some pr \<Rightarrow> Some (Some (Encoded pr code (start, stop))))))
           }
         })"

fun unread_count :: "'k kernels_scheme \<Rightarrow> unread \<Rightarrow> nat option" where
  "unread_count fl (Recorded rows matches) = Some matches"
| "unread_count fl (Encoded pr code run) = count_eq fl pr (fst run) (snd run - fst run) code"

text \<open>All matches of a selection by the classes of its zones.\<close>

fun rows_steps ::
    "'k compute_scheme \<Rightarrow> residual \<Rightarrow> selected_rows \<Rightarrow> ((nat \<times> nat) \<times> step) list \<Rightarrow> nat list \<Rightarrow> nat list option" where
  "rows_steps fl self rows [] ids = Some ids"
| "rows_steps fl self rows ((run, step) # sts) ids =
     do {
       part \<leftarrow> part_of rows run;
       ids' \<leftarrow> (case step of
           Skip \<Rightarrow> Some ids
         | Take \<Rightarrow> Some (extend_rows ids part (rc_len self))
         | Unread plan \<Rightarrow> None
         | Compare bits \<Rightarrow> map_option (\<lambda>matched. extend_rows ids matched (rc_len self)) (compare fl self part bits));
       rows_steps fl self rows sts ids'
     }"

definition rows_by :: "'k compute_scheme \<Rightarrow> residual \<Rightarrow> zone_set \<Rightarrow> row_selection \<Rightarrow> row_selection option" where
  "rows_by fl self zs sel =
     (let len = rc_len self; rows = as_rows sel len
      in case sel_span rows of
           None \<Rightarrow> Some sel
         | Some sp \<Rightarrow>
             do {
               sts \<leftarrow> steps self zs rows sp (\<lambda>zone selected bits. Some (Compare bits));
               if list_all (\<lambda>(run, step). step = Take) sts then Some sel
               else do {
                 whole \<leftarrow> compares_whole rows sts (sel_len sel len) len;
                 if whole then compare fl self sel (every_eq (length (rc_eqs self)))
                 else map_option from_ids (rows_steps fl self rows sts [])
               }
             })"

definition pieces_compared ::
    "'k compute_scheme \<Rightarrow> residual \<Rightarrow> zone_set option \<Rightarrow> row_selection \<Rightarrow> row_selection option" where
  "pieces_compared fl self bnds sel =
     (case bnds of
        Some zs \<Rightarrow>
          if asks_statistics (sel_len sel (rc_len self)) then rows_by fl self zs sel
          else compare fl self sel (every_eq (length (rc_eqs self)))
      | None \<Rightarrow> compare fl self sel (every_eq (length (rc_eqs self))))"

definition residual_rows :: "'k compute_scheme \<Rightarrow> residual \<Rightarrow> row_selection option" where
  "residual_rows fl self =
     (case rc_classes self of
        Zoned zs \<Rightarrow> rows_by fl self zs (rc_selection self)
      | Pieces bnds \<Rightarrow> pieces_compared fl self bnds (rc_selection self))"

text \<open>The full count by zones.\<close>

fun count_steps ::
    "'k compute_scheme \<Rightarrow> residual \<Rightarrow> selected_rows \<Rightarrow> ((nat \<times> nat) \<times> step) list \<Rightarrow> nat \<Rightarrow> nat option" where
  "count_steps fl self rows [] n = Some n"
| "count_steps fl self rows ((run, step) # sts) n =
     do {
       more \<leftarrow> (case step of
           Skip \<Rightarrow> Some 0
         | Take \<Rightarrow> do { part \<leftarrow> part_of rows run; residual_live self part }
         | Unread plan \<Rightarrow> unread_count fl plan
         | Compare bits \<Rightarrow> do { part \<leftarrow> part_of rows run; matched \<leftarrow> compare fl self part bits; residual_live self matched });
       count_steps fl self rows sts (n + more)
     }"

definition full_count :: "'k compute_scheme \<Rightarrow> residual \<Rightarrow> zone_set \<Rightarrow> nat \<times> nat \<Rightarrow> nat option" where
  "full_count fl self zs sp =
     (let rows = selected_rows self
      in do {
        sts \<leftarrow> steps self zs rows sp (\<lambda>zone selected bits.
            map_option (\<lambda>plan. case plan of Some plan \<Rightarrow> Unread plan | None \<Rightarrow> Compare bits)
              (unread_plan self zs zone selected bits));
        whole \<leftarrow> compares_whole rows sts (work self) (rc_len self);
        if whole
        then do { matched \<leftarrow> compare fl self (rc_selection self) (every_eq (length (rc_eqs self))); residual_live self matched }
        else count_steps fl self rows sts 0
      })"

text \<open>The parts of a walk that may stop short, computed as the walk reaches them: a part is a panic,
  a zone with no selected row, or one to read.\<close>

datatype part = ZonePart zone_set zone_part row_selection zone_class | PiecePart "zone_set option" row_selection

definition FIRST_PIECE_ROWS :: nat where
  "FIRST_PIECE_ROWS = ZONE_ROWS"

definition walk_parts :: "residual \<Rightarrow> nat \<times> nat \<Rightarrow> nat \<Rightarrow> part option option list" where
  "walk_parts self sp want =
     (let rows = selected_rows self; len = rc_len self
      in case rc_classes self of
           Zoned zs \<Rightarrow>
             map (\<lambda>zone. do {
                 selected \<leftarrow> part_of rows (part_rows zone);
                 if sel_is_empty selected len then Some None
                 else map_option (\<lambda>cls. Some (ZonePart zs zone selected cls)) (zone_class_of zs (part_zone zone))
               }) (parts zs sp)
         | Pieces bnds \<Rightarrow>
             let rows_in_all = work self; first = (if rows_in_all \<le> want then rows_in_all else FIRST_PIECE_ROWS)
             in map (\<lambda>(index, a, b). map_option (\<lambda>selected. Some (PiecePart bnds selected)) (rows_at rows (a, b)))
                  (growing_pieces [(0, rows_in_all)] first))"

fun part_unread :: "'k kernels_scheme \<Rightarrow> residual \<Rightarrow> part \<Rightarrow> nat option option" where
  "part_unread fl self (PiecePart bnds selected) = Some None"
| "part_unread fl self (ZonePart zs zone selected cls) =
     (case cls of
        ZNone \<Rightarrow> Some (Some 0)
      | ZAll \<Rightarrow> map_option Some (residual_live self selected)
      | Mixed unsettled \<Rightarrow>
          do {
            plan \<leftarrow> unread_plan self zs zone selected unsettled;
            case plan of None \<Rightarrow> Some None | Some plan \<Rightarrow> map_option Some (unread_count fl plan)
          })"

fun part_matched :: "'k compute_scheme \<Rightarrow> residual \<Rightarrow> part \<Rightarrow> row_selection option" where
  "part_matched fl self (PiecePart bnds selected) = pieces_compared fl self bnds selected"
| "part_matched fl self (ZonePart zs zone selected cls) =
     (case cls of
        ZNone \<Rightarrow> Some empty_selection
      | ZAll \<Rightarrow> Some selected
      | Mixed unsettled \<Rightarrow> compare fl self selected unsettled)"

fun capped_count :: "'k compute_scheme \<Rightarrow> residual \<Rightarrow> nat \<Rightarrow> part option option list \<Rightarrow> nat \<Rightarrow> nat option" where
  "capped_count fl self cap [] n = Some n"
| "capped_count fl self cap (part # ps) n =
     (case part of
        None \<Rightarrow> None
      | Some None \<Rightarrow> capped_count fl self cap ps n
      | Some (Some part) \<Rightarrow>
          if cap \<le> n then Some n
          else do {
            unread \<leftarrow> part_unread fl self part;
            more \<leftarrow> (case unread of
                Some matches \<Rightarrow> Some matches
              | None \<Rightarrow> do { matched \<leftarrow> part_matched fl self part; residual_live self matched });
            capped_count fl self cap ps (n + more)
          })"

definition residual_count :: "'k compute_scheme \<Rightarrow> residual \<Rightarrow> nat option \<Rightarrow> nat option" where
  "residual_count fl self cap =
     (case sel_span (selected_rows self) of
        None \<Rightarrow> Some 0
      | Some sp \<Rightarrow>
          (case (cap, rc_classes self) of
             (None, Zoned zs) \<Rightarrow> full_count fl self zs sp
           | (None, Pieces bnds) \<Rightarrow> do { matched \<leftarrow> residual_rows fl self; residual_live self matched }
           | (Some cap, _) \<Rightarrow> capped_count fl self cap (walk_parts self sp cap) 0))"

fun window_loop ::
    "'k compute_scheme \<Rightarrow> residual \<Rightarrow> part option option list \<Rightarrow> cursor \<Rightarrow> (bool \<times> cursor) option" where
  "window_loop fl self [] c = Some (True, c)"
| "window_loop fl self (part # ps) c =
     (case part of
        None \<Rightarrow> None
      | Some None \<Rightarrow> window_loop fl self ps c
      | Some (Some part) \<Rightarrow>
          if cursor_is_full c then Some (False, c)
          else do {
            unread \<leftarrow> part_unread fl self part;
            let (skipped, c') = (case unread of
                Some matches \<Rightarrow> if matches = 0 then (True, c) else cursor_skips matches c
              | None \<Rightarrow> (False, c));
            if skipped then window_loop fl self ps c'
            else do {
              matched \<leftarrow> part_matched fl self part;
              ids \<leftarrow> live_ids matched (rc_deleted self) (rc_len self);
              c'' \<leftarrow> cursor_take ids c';
              window_loop fl self ps c''
            }
          })"

definition residual_window ::
    "'k compute_scheme \<Rightarrow> residual \<Rightarrow> nat \<Rightarrow> nat \<Rightarrow> (nat list \<times> Pieces.live) option" where
  "residual_window fl self offset limit =
     (case sel_span (selected_rows self) of
        None \<Rightarrow> Some ([], Exact 0)
      | Some sp \<Rightarrow>
          do {
            (ended, c) \<leftarrow> window_loop fl self (walk_parts self sp (sat_add offset limit))
              (cursor_new offset (Some limit));
            Some (cursor_finish ended c)
          })"

end
