(* ===== verification/ResidualWalks.thy ===== *)
theory ResidualWalks
  imports Residual
begin

text \<open>
  The walks of the residual compare are right. \<open>sound_zones\<close> says that a zone set speaks for a
  residual's equalities; under it a zone's class is true of its rows, the steps of a walk cut the
  selection without losing a row, and every count, window and list of matches is the one the rows
  that pass give.
\<close>

section \<open>Live rows, parts and spans\<close>

definition live_of :: "mask option \<Rightarrow> nat list \<Rightarrow> nat list" where
  "live_of deleted xs = filter (\<lambda>i. case deleted of None \<Rightarrow> True | Some d \<Rightarrow> \<not> d ! i) xs"

definition within :: "nat \<times> nat \<Rightarrow> nat \<Rightarrow> bool" where
  "within r row \<longleftrightarrow> fst r \<le> row \<and> row < snd r"

lemma live_of_simps [simp]:
  "live_of None xs = xs" "live_of d [] = []" "live_of d (xs @ ys) = live_of d xs @ live_of d ys"
  by (simp_all add: live_of_def)

lemma rows_of_as_rows: "rows_of (as_rows sel n) = covered sel n"
  by (simp add: covered_def)

lemma extend_rows_covered: "extend_rows ids sel n = ids @ covered sel n"
  by (simp add: extend_rows_def covered_def split: selected_rows.split)

lemma as_rows_Run:
  assumes "wf_selection n sel" "as_rows sel n = Run start stop"
  shows "start \<le> stop" "stop \<le> n" "covered sel n = [start..<stop]"
  using assms by (cases sel; auto simp: clamped_def Let_def covered_def)+

lemma tombstoned_dead:
  assumes wf: "wf_selection n sel" and d: "length d = n"
  shows "tombstoned sel d n = Some (length (filter (\<lambda>i. d ! i) (covered sel n)))"
proof (cases "as_rows sel n")
  case (Run start stop)
  note run = as_rows_Run [OF wf Run]
  have "take (stop - start) (drop start d) = map ((!) d) [start..<stop]"
    using run(1,2) d by (intro nth_equalityI) simp_all
  then show ?thesis
    using run d by (simp add: tombstoned_def Run buf_slice_Some true_count_def filter_map o_def)
next
  case (RunIds ids)
  then have "covered sel n = ids" by (simp add: covered_def)
  moreover have "checked_filter (mask_value d) ids = Some (filter (\<lambda>i. d ! i) ids)"
    using covered_bound [OF wf] calculation d by (intro checked_filter_Some mask_value_Some) auto
  ultimately show ?thesis by (simp add: tombstoned_def RunIds)
qed

lemma live_count_covered:
  assumes wf: "wf_selection n sel" and d: "wf_deleted n deleted"
  shows "live_count sel deleted n = Some (length (live_of deleted (covered sel n)))"
proof (cases deleted)
  case None
  then show ?thesis by (simp add: live_count_def usub_def sel_len_covered [OF wf])
next
  case (Some dead)
  have "length (filter (\<lambda>i. dead ! i) (covered sel n)) + length (filter (\<lambda>i. \<not> dead ! i) (covered sel n)) =
      length (covered sel n)" by (rule sum_length_filter_compl)
  then show ?thesis
    using Some d tombstoned_dead [OF wf, of dead]
    by (simp add: live_count_def usub_def sel_len_covered [OF wf] live_of_def)
qed

lemma live_ids_covered:
  assumes wf: "wf_selection n sel" and d: "wf_deleted n deleted"
  shows "live_ids sel deleted n = Some (live_of deleted (covered sel n))"
proof (cases deleted)
  case (Some dead)
  have "checked_filter (\<lambda>i. map_option Not (mask_value dead i)) (covered sel n) =
      Some (filter (\<lambda>i. \<not> dead ! i) (covered sel n))"
    using covered_bound [OF wf] d Some by (intro checked_filter_Some) (simp add: mask_value_Some)
  then show ?thesis by (simp add: live_ids_def extend_rows_covered live_of_def Some)
qed (simp add: live_ids_def extend_rows_covered)

lemma span_cases:
  assumes wf: "wf_selection n sel"
  shows "sel_span (as_rows sel n) = None \<and> covered sel n = [] \<or>
    (\<exists>a b. sel_span (as_rows sel n) = Some (a, b) \<and> a < b \<and> b \<le> n \<and>
       (\<forall>row \<in> set (covered sel n). within (a, b) row) \<and>
       (\<forall>start stop. as_rows sel n = Run start stop \<longrightarrow> start = a \<and> stop = b))"
proof (cases "as_rows sel n")
  case (Run start stop)
  note run = as_rows_Run [OF wf Run]
  show ?thesis using run Run by (auto simp: sel_span_def within_def)
next
  case (RunIds ids)
  then have ids: "covered sel n = ids" by (simp add: covered_def)
  show ?thesis
  proof (cases ids)
    case Nil
    then show ?thesis using RunIds ids by (simp add: sel_span_def)
  next
    case (Cons i rest)
    have asc: "ascending ids" using covered_ascending [OF wf] ids by simp
    note hl = ascending_hd_last [OF asc]
    have "last ids < n" using covered_bound [OF wf] ids Cons by (metis last_in_set list.distinct(1))
    moreover have "hd ids \<le> last ids" using hl(2) Cons by simp
    moreover have "\<forall>row \<in> set ids. within (hd ids, last ids + 1) row"
      using hl by (auto simp: within_def less_Suc_eq_le)
    ultimately show ?thesis using RunIds ids Cons by (simp add: sel_span_def)
  qed
qed

lemma part_of_narrows:
  assumes wf: "wf_selection n sel" and sel_span: "sel_span (as_rows sel n) = Some (a, b)"
    and run: "a \<le> x" "x \<le> y" "y \<le> b"
  shows "narrows n sel (within (x, y)) (part_of (as_rows sel n) (x, y))"
proof (cases "as_rows sel n")
  case (Run start stop)
  then have "start = a" "stop = b" "b \<le> n" using span_cases [OF wf] sel_span by auto
  then have "covered sel n = [a..<b]" using as_rows_Run(3) [OF wf Run] by simp
  moreover have "[x..<y] = filter (within (x, y)) [a..<b]"
    using filter_range_upt [of x y a b] run by (simp add: within_def max_absorb1 min_absorb1 cong: filter_cong)
  ultimately show ?thesis
    using run \<open>b \<le> n\<close> by (intro narrowsI [of _ "RowRange x y"]) (simp_all add: part_of_def Run)
next
  case (RunIds ids)
  then have sel: "covered sel n = ids" by (simp add: covered_def)
  have asc: "ascending ids" using covered_ascending [OF wf] sel by simp
  have "part_of (as_rows sel n) (x, y) = map_option RowIds (restrict_ids ids x y)"
    by (simp add: part_of_def RunIds restrict_ids_def)
  also have "\<dots> = Some (RowIds (filter (within (x, y)) (covered sel n)))"
    by (simp add: restrict_ids_eq [OF asc run(2)] sel within_def cong: filter_cong)
  finally show ?thesis using narrows_ids(1) [OF wf, of "within (x, y)"] by simp
qed

lemma rows_at_places:
  assumes wf: "wf_selection n sel" and places: "x \<le> y" "y \<le> length (covered sel n)"
  shows "\<exists>sel'. rows_at (as_rows sel n) (x, y) = Some sel' \<and> wf_selection n sel' \<and>
    covered sel' n = take (y - x) (drop x (covered sel n))"
proof (cases "as_rows sel n")
  case (Run start stop)
  note run = as_rows_Run [OF wf Run]
  then show ?thesis
    using places by (simp add: rows_at_def Run take_upt drop_upt)
next
  case (RunIds ids)
  then have sel: "covered sel n = ids" by (simp add: covered_def)
  then show ?thesis
    using places covered_ascending [OF wf] covered_bound [OF wf]
    by (auto simp: rows_at_def RunIds buf_slice_Some ascending_take_drop dest: in_take_drop)
qed


section \<open>Equalities picked by bits\<close>

lemma bit_every_eq: "bit (every_eq n) b \<longleftrightarrow> b < 32 \<and> b < n"
proof (cases "32 \<le> n")
  case False
  then have "every_eq n = mask n" by (simp add: every_eq_def mask_eq_exp_minus_1 push_bit_of_1)
  then show ?thesis by (simp add: bit_mask_iff)
qed (auto simp: every_eq_def)

lemma bit_unzoned_bits:
  assumes "\<forall>check \<in> set cs. bit_of check < 32"
  shows "bit (unzoned_bits n cs) b \<longleftrightarrow> b < 32 \<and> b < n \<and> b \<notin> bit_of ` set cs"
proof -
  have "bit (fold (\<lambda>check bits. bits AND NOT (push_bit (bit_of check) 1)) cs w) b \<longleftrightarrow>
      bit w b \<and> b \<notin> bit_of ` set cs" for w :: "32 word"
    using assms
  proof (induction cs arbitrary: w)
    case (Cons check cs)
    have "bit (w AND NOT (push_bit (bit_of check) 1)) b \<longleftrightarrow> bit w b \<and> b \<noteq> bit_of check"
      by (auto simp: bit_simps dest: bit_imp_le_length)
    then show ?case using Cons by auto
  qed simp
  then show ?thesis by (auto simp: unzoned_bits_def bit_every_eq)
qed

lemma picked_map: "picked eqs bits = map ((!) eqs) (filter (\<lambda>i. i < 32 \<longrightarrow> bit bits i) [0..<length eqs])"
proof -
  have enum: "enumerate 0 eqs = map (\<lambda>i. (i, eqs ! i)) [0..<length eqs]"
    using enumerate_map_index [of id eqs] by simp
  have test: "bits AND push_bit i 1 \<noteq> 0 \<longleftrightarrow> bit bits i" for i
    by (simp only: bit_iff_and_push_bit_not_eq_0)
  show ?thesis
    unfolding picked_def enum by (simp only: filter_map map_map o_def case_prod_conv snd_conv test)
qed

lemma holds_nth: "holds t eqs row \<longleftrightarrow> (\<forall>i < length eqs. eq_row t (eqs ! i) row)"
  by (simp add: holds_def list_all_length)

lemma holds_picked:
  "holds t (picked eqs bits) row \<longleftrightarrow> (\<forall>i < length eqs. (i < 32 \<longrightarrow> bit bits i) \<longrightarrow> eq_row t (eqs ! i) row)"
  by (auto simp: picked_map holds_def list_all_iff)

lemma holds_picked_every: "holds t (picked eqs (every_eq (length eqs))) row = holds t eqs row"
  unfolding holds_picked holds_nth [of t eqs] by (auto simp: bit_every_eq)

lemma picked_wf: "wf_eqs t eqs \<Longrightarrow> wf_eqs t (picked eqs bits)"
  by (fastforce simp: wf_eqs_def picked_map)

lemma lone_bit:
  assumes "count_ones bits = 1"
  shows "bit bits b \<longleftrightarrow> b = trailing_zeros bits"
proof -
  obtain k where k: "filter (bit bits) [0..<32] = [k]"
    using assms by (auto simp: count_ones_def length_Suc_conv)
  have k_bit: "bit bits b \<longleftrightarrow> b = k" for b
  proof -
    have "bit bits b \<longleftrightarrow> b \<in> set (filter (bit bits) [0..<32])"
      by (auto dest: bit_imp_le_length)
    then show ?thesis by (simp add: k)
  qed
  have "k < 32" using k_bit [of k] by (auto dest: bit_imp_le_length)
  have "takeWhile (\<lambda>i. \<not> bit bits i) [0..<32] = [0..<k]"
  proof -
    have "[0..<32] = [0..<k] @ k # [Suc k..<32]"
      using \<open>k < 32\<close> upt_split [of 0 k 32] by (simp add: upt_conv_Cons)
    moreover have "takeWhile (\<lambda>i. i \<noteq> k) ([0..<k] @ k # [Suc k..<32]) = [0..<k]"
      by (subst takeWhile_append2) auto
    ultimately show ?thesis by (simp only: k_bit)
  qed
  then show ?thesis using k_bit by (simp add: trailing_zeros_def)
qed

lemma holds_lone:
  assumes "count_ones bits = 1" "trailing_zeros bits < length eqs" "length eqs \<le> 32"
  shows "holds t (picked eqs bits) row = eq_row t (eqs ! trailing_zeros bits) row"
  using assms(2,3) by (auto simp: holds_picked lone_bit [OF assms(1)])

section \<open>Zone sets that speak for the equalities\<close>

definition speaks_for :: "table \<Rightarrow> equalities \<Rightarrow> zone_check \<Rightarrow> nat list \<Rightarrow> bool" where
  "speaks_for t eqs check codes \<longleftrightarrow>
     bit_of check < length eqs \<and> snd (eqs ! bit_of check) = CodeScalar (code_of check) \<and>
     (\<exists>col. map_of (tb_columns t) (fst (eqs ! bit_of check)) = Some col \<and>
        col_cells col = map CodeScalar codes) \<and>
     describes (zones_of check) codes"

definition sound_zones :: "table \<Rightarrow> equalities \<Rightarrow> zone_set \<Rightarrow> bool" where
  "sound_zones t eqs zs \<longleftrightarrow>
     (\<exists>base cs. zone_set_new cs (unzoned_bits (length eqs) cs) = Some base \<and>
        (zs = base \<and> length eqs \<le> 32 \<or> zs = bounds_only base) \<and>
        (\<forall>check \<in> set cs. row_count (zones_of check) = tb_len t \<and> (\<exists>codes. speaks_for t eqs check codes)))"

fun sound_classes :: "table \<Rightarrow> equalities \<Rightarrow> classes \<Rightarrow> bool" where
  "sound_classes t eqs (Zoned zs) \<longleftrightarrow> sound_zones t eqs zs \<and> length eqs \<le> 32"
| "sound_classes t eqs (Pieces None) \<longleftrightarrow> True"
| "sound_classes t eqs (Pieces (Some zs)) \<longleftrightarrow> sound_zones t eqs zs"

lemma speaks_for_row:
  "speaks_for t eqs check codes \<Longrightarrow> row < length codes \<Longrightarrow>
   eq_row t (eqs ! bit_of check) row \<longleftrightarrow> codes ! row = code_of check"
  by (auto simp: speaks_for_def eq_row_def)

lemma zone_class_sound:
  assumes sound: "sound_zones t eqs zs" and zone: "zone < zone_count (zones_of (hd (checks zs)))"
  shows "\<exists>cls. zone_class_of zs zone = Some cls \<and>
    (\<forall>row. within (set_zone_rows zs zone) row \<longrightarrow>
      (case cls of
         ZNone \<Rightarrow> \<not> holds t eqs row
       | ZAll \<Rightarrow> holds t eqs row
       | Mixed u \<Rightarrow> holds t eqs row = holds t (picked eqs u) row))"
proof -
  obtain base cs where new: "zone_set_new cs (unzoned_bits (length eqs) cs) = Some base"
    and zs: "zs = base \<and> length eqs \<le> 32 \<or> zs = bounds_only base"
    and speak: "\<And>check. check \<in> set cs \<Longrightarrow> row_count (zones_of check) = tb_len t \<and> (\<exists>codes. speaks_for t eqs check codes)"
    using sound by (auto simp: sound_zones_def)
  note base = zone_set_new_Some [OF new]
  have cs: "checks zs = cs" "unzoned zs = unzoned_bits (length eqs) cs"
    using zs base(1,3) by (auto simp: bounds_only_def)
  have b32: "\<forall>check \<in> set cs. bit_of check < 32" using base(5) by blast
  define codes where "codes check = (SOME codes. speaks_for t eqs check codes)" for check
  have codes: "speaks_for t eqs check (codes check)" if "check \<in> set cs" for check
    unfolding codes_def using speak [OF that] by (metis someI)
  have sound': "sound_set zs (map codes cs)"
    using codes by (auto simp: sound_set_def cs list_all2_conv_all_nth speaks_for_def)
  define other where "other b row = (b < length eqs \<longrightarrow> eq_row t (eqs ! b) row)" for b row
  have geo: "geometry (zones_of (hd cs))" "row_count (zones_of (hd cs)) = tb_len t"
    using codes [of "hd cs"] speak [of "hd cs"] base(2) by (auto simp: speaks_for_def describes_def)
  have cell: "codes check ! row = code_of check \<longleftrightarrow> eq_row t (eqs ! bit_of check) row"
    if "check \<in> set cs" "within (set_zone_rows zs zone) row" for check row
  proof -
    have "row < tb_len t"
      using zone_rows_nonempty(2) [OF geo(1), of zone] zone that(2) geo(2)
      by (simp add: cs within_def set_zone_rows_def)
    moreover have "length (codes check) = tb_len t"
      using codes [OF that(1)] speak [OF that(1)] by (auto simp: speaks_for_def describes_def)
    ultimately show ?thesis using speaks_for_row [OF codes [OF that(1)]] by simp
  qed
  have passes: "row_passes zs (map codes cs) other row \<longleftrightarrow> (\<forall>i < length eqs. i < 32 \<longrightarrow> eq_row t (eqs ! i) row)"
    if row: "within (set_zone_rows zs zone) row" for row
  proof -
    have "row_passes zs (map codes cs) other row \<longleftrightarrow>
        (\<forall>check \<in> set cs. eq_row t (eqs ! bit_of check) row) \<and>
        (\<forall>b < 32. bit (unzoned_bits (length eqs) cs) b \<longrightarrow> other b row)"
      using cell [OF _ row] by (auto simp: row_passes_def cs list_all2_conv_all_nth all_set_conv_all_nth)
    also have "\<dots> \<longleftrightarrow> (\<forall>i < length eqs. i < 32 \<longrightarrow> eq_row t (eqs ! i) row)"
      using codes b32 by (auto simp: bit_unzoned_bits [OF b32] other_def speaks_for_def)
    finally show ?thesis .
  qed
  have left: "left_passes u zs (map codes cs) other row \<longleftrightarrow>
      (\<forall>i < length eqs. i < 32 \<longrightarrow> bit u i \<longrightarrow> eq_row t (eqs ! i) row)"
    if row: "within (set_zone_rows zs zone) row" and mixed: "zone_class_of zs zone = Some (Mixed u)" for u row
  proof -
    have u: "bit (unzoned_bits (length eqs) cs) b \<Longrightarrow> bit u b" for b
      using zone_class_mixed [OF mixed] b32 by (simp add: cs)
    have "left_passes u zs (map codes cs) other row \<longleftrightarrow>
        (\<forall>check \<in> set cs. bit u (bit_of check) \<longrightarrow> eq_row t (eqs ! bit_of check) row) \<and>
        (\<forall>b < 32. bit (unzoned_bits (length eqs) cs) b \<longrightarrow> other b row)"
      using cell [OF _ row] by (auto simp: left_passes_def cs list_all2_conv_all_nth all_set_conv_all_nth)
    also have "\<dots> \<longleftrightarrow> (\<forall>i < length eqs. i < 32 \<longrightarrow> bit u i \<longrightarrow> eq_row t (eqs ! i) row)"
      using codes b32 u by (auto simp: bit_unzoned_bits [OF b32] other_def speaks_for_def)
    finally show ?thesis .
  qed
  have classed: "\<exists>cls. zone_class_of zs zone = Some cls \<and> class_true cls zs (map codes cs) other row"
    if "within (set_zone_rows zs zone) row" for row
    using zone_class_true [OF new _ sound', of zone row other] zs zone that by (auto simp: within_def cs)
  have nonempty: "within (set_zone_rows zs zone) (fst (set_zone_rows zs zone))"
    using zone_rows_nonempty(1) [OF geo(1), of zone] zone by (simp add: within_def set_zone_rows_def cs)
  then obtain cls where cls: "zone_class_of zs zone = Some cls" using classed by blast
  have short: "length eqs \<le> 32" if "cls = ZAll"
  proof -
    have "\<not> only_bounds zs"
      using cls that by (auto simp: zone_class_of_def split: option.splits bool.splits if_splits)
    then show ?thesis using zs by (auto simp: bounds_only_def)
  qed
  have "case cls of ZNone \<Rightarrow> \<not> holds t eqs row | ZAll \<Rightarrow> holds t eqs row
      | Mixed u \<Rightarrow> holds t eqs row = holds t (picked eqs u) row"
    if row: "within (set_zone_rows zs zone) row" for row
  proof -
    have true: "class_true cls zs (map codes cs) other row" using classed [OF row] cls by simp
    show ?thesis
    proof (cases cls)
      case (Mixed u)
      have "holds t eqs row \<longleftrightarrow> row_passes zs (map codes cs) other row \<and>
          (\<forall>i < length eqs. \<not> i < 32 \<longrightarrow> eq_row t (eqs ! i) row)"
        unfolding holds_nth passes [OF row] by blast
      moreover have "holds t (picked eqs u) row \<longleftrightarrow> left_passes u zs (map codes cs) other row \<and>
          (\<forall>i < length eqs. \<not> i < 32 \<longrightarrow> eq_row t (eqs ! i) row)"
        unfolding holds_picked left [OF row cls [unfolded Mixed]] by blast
      ultimately show ?thesis using true Mixed by simp
    qed (use true passes [OF row] short in \<open>auto simp: holds_nth\<close>)
  qed
  then show ?thesis using cls by blast
qed

section \<open>Compares and unread counts\<close>

definition wf_residual :: "'k compute_scheme \<Rightarrow> residual \<Rightarrow> bool" where
  "wf_residual fl self \<longleftrightarrow> lawful_compute fl \<and> wf_table fl (rc_table self) \<and>
     wf_selection (rc_len self) (rc_selection self) \<and> wf_eqs (rc_table self) (rc_eqs self) \<and>
     wf_deleted (rc_len self) (rc_deleted self) \<and>
     sound_classes (rc_table self) (rc_eqs self) (rc_classes self)"

definition passes :: "residual \<Rightarrow> nat \<Rightarrow> bool" where
  "passes self row = holds (rc_table self) (rc_eqs self) row"

definition matches_of :: "residual \<Rightarrow> nat list \<Rightarrow> nat list" where
  "matches_of self rows = live_of (rc_deleted self) (filter (passes self) rows)"

lemma matches_of_simps [simp]:
  "matches_of self [] = []" "matches_of self (xs @ ys) = matches_of self xs @ matches_of self ys"
  by (simp_all add: matches_of_def)

lemma compare_narrows:
  assumes "wf_residual fl self" "wf_selection (rc_len self) sel"
  shows "narrows (rc_len self) sel (holds (rc_table self) (picked (rc_eqs self) bits)) (compare fl self sel bits)"
  using compared_narrows [of fl "rc_table self" sel "picked (rc_eqs self) bits" "work self"]
    component_compared_narrows [of fl "rc_table self" sel "picked (rc_eqs self) bits"] assms
  by (simp add: compare_def wf_residual_def rc_len_def picked_wf Let_def)

lemma compare_every:
  assumes "wf_residual fl self" "wf_selection (rc_len self) sel"
  shows "narrows (rc_len self) sel (passes self) (compare fl self sel (every_eq (length (rc_eqs self))))"
  by (rule narrows_cong [OF _ compare_narrows [OF assms]]) (simp add: holds_picked_every passes_def)

lemma live_matches:
  assumes "wf_residual fl self" "narrows (rc_len self) sel p (Some matched)"
  shows "residual_live self matched = Some (length (live_of (rc_deleted self) (filter p (covered sel (rc_len self)))))"
  using live_count_covered [of "rc_len self" matched "rc_deleted self"] assms
  by (auto simp: residual_live_def wf_residual_def narrows_def)

lemma ascending_full:
  assumes "ascending xs" "\<forall>x \<in> set xs. a \<le> x \<and> x < b" "length xs = b - a"
  shows "xs = [a..<b]"
proof -
  have "card (set xs) = card {a..<b}"
    using assms(1,3) by (simp add: ascending_distinct distinct_card)
  moreover have "set xs \<subseteq> {a..<b}" using assms(2) by auto
  ultimately have "set xs = {a..<b}" by (intro card_subset_eq) auto
  then have "set xs = set [a..<b]" by (simp only: set_upt)
  then show ?thesis by (rule ascending_unique [OF assms(1) ascending_upt])
qed

lemma sound_zones_checks:
  assumes "sound_zones t eqs zs"
  shows "geometry (zones_of (hd (checks zs)))" "row_count (zones_of (hd (checks zs))) = tb_len t"
    and "\<exists>cs base. zone_set_new cs (unzoned_bits (length eqs) cs) = Some base \<and> checks zs = cs \<and>
      checks base = cs \<and> unzoned zs = unzoned_bits (length eqs) cs \<and> (zs = base \<or> zs = bounds_only base) \<and>
      (\<forall>check \<in> set cs. bit_of check < 32 \<and> row_count (zones_of check) = tb_len t \<and>
         map_geometry (zones_of check) = map_geometry (zones_of (hd cs)) \<and> (\<exists>codes. speaks_for t eqs check codes))"
proof -
  obtain base cs where new: "zone_set_new cs (unzoned_bits (length eqs) cs) = Some base"
    and zs: "zs = base \<and> length eqs \<le> 32 \<or> zs = bounds_only base"
    and speak: "\<And>check. check \<in> set cs \<Longrightarrow> row_count (zones_of check) = tb_len t \<and> (\<exists>codes. speaks_for t eqs check codes)"
    using assms by (auto simp: sound_zones_def)
  note base = zone_set_new_Some [OF new]
  have cs: "checks zs = cs" using zs base(1) by (auto simp: bounds_only_def)
  show "geometry (zones_of (hd (checks zs)))" "row_count (zones_of (hd (checks zs))) = tb_len t"
    using speak [of "hd cs"] base(2) by (auto simp: cs speaks_for_def describes_def)
  show "\<exists>cs base. zone_set_new cs (unzoned_bits (length eqs) cs) = Some base \<and> checks zs = cs \<and>
      checks base = cs \<and> unzoned zs = unzoned_bits (length eqs) cs \<and> (zs = base \<or> zs = bounds_only base) \<and>
      (\<forall>check \<in> set cs. bit_of check < 32 \<and> row_count (zones_of check) = tb_len t \<and>
         map_geometry (zones_of check) = map_geometry (zones_of (hd cs)) \<and> (\<exists>codes. speaks_for t eqs check codes))"
  proof (intro exI conjI ballI)
    show "zone_set_new cs (unzoned_bits (length eqs) cs) = Some base" by (rule new)
    show "checks zs = cs" "checks base = cs" by (rule cs, rule base(1))
    show "unzoned zs = unzoned_bits (length eqs) cs" using zs base(3) by (auto simp: bounds_only_def)
    show "zs = base \<or> zs = bounds_only base" using zs by blast
  next
    fix check
    assume check: "check \<in> set cs"
    show "bit_of check < 32" "map_geometry (zones_of check) = map_geometry (zones_of (hd cs))"
      using base(5,6) [OF check] by simp_all
    show "row_count (zones_of check) = tb_len t" using speak [OF check] by simp
    obtain codes where "speaks_for t eqs check codes" using speak [OF check] by blast
    then show "speaks_for t eqs check (SOME codes. speaks_for t eqs check codes)" by (rule someI)
  qed
qed

lemma mixed_bits:
  assumes "sound_zones t eqs zs" "zone_class_of zs zone = Some (Mixed u)" "bit u b"
  shows "b < length eqs"
proof -
  obtain cs where cs: "checks zs = cs" "unzoned zs = unzoned_bits (length eqs) cs"
    "\<forall>check \<in> set cs. bit_of check < 32 \<and> (\<exists>codes. speaks_for t eqs check codes)"
    using sound_zones_checks(3) [OF assms(1)] by blast
  have "bit (unzoned zs) b \<or> b \<in> bit_of ` set (checks zs)"
    using zone_class_mixed_only [OF assms(2) _ assms(3)] cs by simp
  then show ?thesis using cs by (auto simp: bit_unzoned_bits speaks_for_def)
qed

lemma recorded_matches:
  assumes sound: "sound_zones t eqs zs" and zone: "z < zone_count (zones_of (hd (checks zs)))"
    and rec: "recorded_in zs b \<lparr> part_zone = z, part_rows = r \<rparr> = Some n"
  shows "n = length (filter (eq_row t (eqs ! b)) (rows_in r)) \<and> r = set_zone_rows zs z"
proof -
  obtain cs where cs: "checks zs = cs" "\<forall>check \<in> set cs. row_count (zones_of check) = tb_len t \<and>
      map_geometry (zones_of check) = map_geometry (zones_of (hd cs)) \<and> (\<exists>codes. speaks_for t eqs check codes)"
    using sound_zones_checks(3) [OF sound] by blast
  define codes where "codes check = (SOME codes. speaks_for t eqs check codes)" for check
  have codes: "speaks_for t eqs check (codes check)" if "check \<in> set cs" for check
    unfolding codes_def using cs(2) that by (metis someI)
  have "sound_set zs (map codes cs)"
    using codes by (auto simp: sound_set_def cs list_all2_conv_all_nth speaks_for_def)
  from recorded_in_count [OF this _ _ rec]
  obtain i where i: "i < length cs" "bit_of (cs ! i) = b"
    "n = length (filter (\<lambda>row. codes (cs ! i) ! row = code_of (cs ! i)) (rows_in r))"
    using zone cs by auto
  have r: "r = set_zone_rows zs z" using rec by (auto simp: recorded_in_def split: if_splits)
  have check: "cs ! i \<in> set cs" using i(1) by simp
  have "row < length (codes (cs ! i))" if "row \<in> set (rows_in r)" for row
    using that r zone_rows_nonempty(2) [OF sound_zones_checks(1) [OF sound] zone] sound_zones_checks(2) [OF sound]
      codes [OF check] cs(2) check by (auto simp: rows_in_def set_zone_rows_def speaks_for_def describes_def)
  then have "filter (eq_row t (eqs ! b)) (rows_in r) =
      filter (\<lambda>row. codes (cs ! i) ! row = code_of (cs ! i)) (rows_in r)"
    using speaks_for_row [OF codes [OF check]] i(2) by (intro filter_cong) auto
  then show ?thesis using i(3) r by simp
qed

lemma encoded_matches:
  assumes fl: "lawful fl" and wf: "wf_table fl t" and name: "by_name t field = Some pr"
    and run: "start \<le> stop" "stop \<le> tb_len t" and col: "map_of (tb_columns t) field \<noteq> None"
  shows "count_eq fl pr start (stop - start) code =
    Some (length (filter (eq_row t (field, CodeScalar code)) [start..<stop]))"
proof -
  obtain c where c: "map_of (tb_columns t) field = Some c" using col by blast
  have pr: "wf_node fl pr" "col_cells c = map CodeScalar (decode fl pr)"
    using probe_of_column [OF wf name c] by (simp_all add: probe_for_def)
  have len: "length (decode fl pr) = tb_len t"
    using map_of_column [OF wf c] pr(2) by (simp add: wf_column_def)
  have "[start..<stop] = map (\<lambda>k. start + k) [0..<stop - start]"
    using run(1) by (intro nth_equalityI) simp_all
  moreover have "filter (\<lambda>k. decode fl pr ! (start + k) = code) [0..<stop - start] =
      filter (\<lambda>k. eq_row t (field, CodeScalar code) (start + k)) [0..<stop - start]"
    using run len by (intro filter_cong) (auto simp: eq_row_def c pr(2))
  ultimately have "length (filter (eq_row t (field, CodeScalar code)) [start..<stop]) =
      length (filter (\<lambda>k. decode fl pr ! (start + k) = code) [0..<stop - start])"
    by (simp add: filter_map o_def)
  moreover have "start + (stop - start) \<le> usize_max" "start + (stop - start) \<le> length (decode fl pr)"
    using run len wf by (simp_all add: wf_table_def)
  ultimately show ?thesis using equality_search [OF fl pr(1), of start "stop - start" code "[]"] by simp
qed

lemma unread_plan_counts:
  assumes wf: "wf_residual fl self" and sound: "sound_zones (rc_table self) (rc_eqs self) zs"
    and few: "length (rc_eqs self) \<le> 32"
    and zone: "part_zone zone < zone_count (zones_of (hd (checks zs)))"
    and mixed: "zone_class_of zs (part_zone zone) = Some (Mixed u)"
    and sel: "wf_selection (rc_len self) part"
    and inside: "\<forall>row \<in> set (covered part (rc_len self)). within (set_zone_rows zs (part_zone zone)) row"
  shows "\<exists>plan. unread_plan self zs zone part u = Some plan \<and>
    (\<forall>how. plan = Some how \<longrightarrow> unread_count fl how = Some (length (matches_of self (covered part (rc_len self)))))"
proof (cases "count_ones u = 1")
  case False
  then show ?thesis by (simp add: unread_plan_def)
next
  case True
  let ?t = "rc_table self" and ?n = "rc_len self" and ?eqs = "rc_eqs self" and ?k = "trailing_zeros u"
  let ?rows = "covered part ?n" and ?whole = "set_zone_rows zs (part_zone zone)"
  have law: "lawful fl" and wft: "wf_table fl ?t" and eqs: "wf_eqs ?t ?eqs" and del: "wf_deleted ?n (rc_deleted self)"
    using wf by (auto simp: wf_residual_def lawful_compute_def)
  have k: "?k < length ?eqs"
    using mixed_bits [OF sound mixed, of ?k] lone_bit [OF True] by simp
  obtain field s where e: "?eqs ! ?k = (field, s)" by fastforce
  have col: "map_of (tb_columns ?t) field \<noteq> None"
    using eqs k e nth_mem [OF k] by (auto simp: wf_eqs_def)
  have passes: "passes self row = eq_row ?t (field, s) row" if "row \<in> set ?rows" for row
    using zone_class_sound [OF sound zone] mixed inside that holds_lone [OF True k few]
    by (auto simp: passes_def e)
  have filtered: "filter (passes self) ?rows = filter (eq_row ?t (field, s)) ?rows"
    using passes by (intro filter_cong) auto
  define dead where "dead = (case rc_deleted self of None \<Rightarrow> [] | Some d \<Rightarrow> filter (\<lambda>i. d ! i) ?rows)"
  have tomb: "(case rc_deleted self of None \<Rightarrow> Some 0 | Some d \<Rightarrow> tombstoned part d ?n) = Some (length dead)"
    using tombstoned_dead [OF sel] del by (cases "rc_deleted self") (simp_all add: dead_def)
  show ?thesis
  proof (cases "dead = []")
    case False
    then show ?thesis by (simp add: unread_plan_def True tomb)
  next
    case alive: True
    have "live_of (rc_deleted self) xs = xs" if "set xs \<subseteq> set ?rows" for xs
      using alive that by (auto simp: live_of_def dead_def filter_empty_conv split: option.splits intro!: filter_True)
    then have count: "length (matches_of self ?rows) = length (filter (eq_row ?t (field, s)) ?rows)"
      by (simp add: matches_of_def filtered)
    show ?thesis
    proof (cases "unsigned_value s")
      case None
      then show ?thesis by (simp add: unread_plan_def True tomb alive checked_simps k e)
    next
      case (Some code)
      then have s: "s = CodeScalar code" by (cases s) auto
      define rec where "rec = (if sel_len part ?n = snd ?whole - fst ?whole
        then recorded_in zs ?k \<lparr> part_zone = part_zone zone, part_rows = ?whole \<rparr> else None)"
      have plan: "unread_plan self zs zone part u = (case rec of
          Some matches \<Rightarrow> Some (Some (Recorded (snd ?whole - fst ?whole) matches))
        | None \<Rightarrow> (case as_rows part ?n of
            RunIds ids \<Rightarrow> Some None
          | Run start stop \<Rightarrow> (case by_name ?t field of
              None \<Rightarrow> Some None
            | Some pr \<Rightarrow> Some (Some (Encoded pr code (start, stop))))))"
        by (simp add: unread_plan_def True tomb alive checked_simps k e Some rec_def Let_def)
      have recorded: "matches = length (filter (eq_row ?t (field, s)) ?rows)" if "rec = Some matches" for matches
      proof -
        have full: "sel_len part ?n = snd ?whole - fst ?whole"
          and rec: "recorded_in zs ?k \<lparr> part_zone = part_zone zone, part_rows = ?whole \<rparr> = Some matches"
          using that by (simp_all add: rec_def split: if_splits)
        have "?rows = rows_in ?whole"
          using ascending_full [OF covered_ascending [OF sel], of "fst ?whole" "snd ?whole"] inside full
          by (simp add: rows_in_def within_def sel_len_covered [OF sel])
        then show ?thesis using recorded_matches [OF sound zone rec] e by simp
      qed
      have encoded: "count_eq fl pr start (stop - start) code = Some (length (filter (eq_row ?t (field, s)) ?rows))"
        if "as_rows part ?n = Run start stop" "by_name ?t field = Some pr" for start stop pr
        using encoded_matches [OF law wft that(2) _ _ col] as_rows_Run [OF sel that(1)] s
        by (simp add: rc_len_def)
      show ?thesis
        using recorded encoded
        by (auto simp: plan count split: option.splits selected_rows.splits)
    qed
  qed
qed

section \<open>The steps of a walk cut the selection\<close>

fun step_true :: "'k kernels_scheme \<Rightarrow> residual \<Rightarrow> nat list \<Rightarrow> step \<Rightarrow> bool" where
  "step_true fl self xs Skip \<longleftrightarrow> (\<forall>row \<in> set xs. \<not> passes self row)"
| "step_true fl self xs Take \<longleftrightarrow> (\<forall>row \<in> set xs. passes self row)"
| "step_true fl self xs (Compare bits) \<longleftrightarrow>
     (\<forall>row \<in> set xs. passes self row = holds (rc_table self) (picked (rc_eqs self) bits) row)"
| "step_true fl self xs (Unread plan) \<longleftrightarrow> unread_count fl plan = Some (length (matches_of self xs))"

text \<open>Steps cut rows up to a row: the rows of their runs, one after another, are those before it, and
  each step is true of the rows of its run. The last step comes first.\<close>

definition cut_steps ::
    "'k kernels_scheme \<Rightarrow> residual \<Rightarrow> nat list \<Rightarrow> nat \<times> nat \<Rightarrow> ((nat \<times> nat) \<times> step) list \<Rightarrow> nat \<Rightarrow> bool" where
  "cut_steps fl self C sp acc end_row \<longleftrightarrow>
     (\<forall>(run, step) \<in> set acc. fst sp \<le> fst run \<and> fst run \<le> snd run \<and> snd run \<le> snd sp \<and>
        step_true fl self (filter (within run) C) step) \<and>
     concat (map (\<lambda>(run, step). filter (within run) C) (rev acc)) = filter (\<lambda>row. row < end_row) C \<and>
     (acc \<noteq> [] \<longrightarrow> snd (fst (hd acc)) = end_row)"

lemma within_append:
  assumes "ascending C" "x \<le> m" "m \<le> y"
  shows "filter (within (x, y)) C = filter (within (x, m)) C @ filter (within (m, y)) C"
proof (rule ascending_unique)
  show "ascending (filter (within (x, m)) C @ filter (within (m, y)) C)"
    using assms(1) by (auto simp: sorted_wrt_append ascending_filter within_def)
qed (use assms in \<open>auto simp: ascending_filter within_def\<close>)

lemma below_append:
  assumes "ascending C" "x \<le> m"
  shows "filter (\<lambda>row. row < m) C = filter (\<lambda>row. row < x) C @ filter (within (x, m)) C"
proof -
  have "(\<lambda>row. row < k) = within (0, k)" for k by (simp add: fun_eq_iff within_def)
  then show ?thesis using within_append [OF assms(1), of 0 x m] assms(2) by simp
qed

lemma upt_head:
  assumes "[x..<y] @ zs = [a..<b]" "x < y"
  shows "x = a" "y \<le> b" "zs = [y..<b]"
proof -
  have ab: "a < b" using assms by (cases "a < b") auto
  then show x: "x = a" using arg_cong [OF assms(1), of hd] assms(2) by simp
  have "length ([x..<y] @ zs) = b - a" using assms(1) by simp
  then show y: "y \<le> b" using x ab by simp
  have "zs = drop (y - x) ([x..<y] @ zs)" by simp
  also have "\<dots> = [y..<b]" using assms x y by (simp only: assms(1) drop_upt) simp
  finally show "zs = [y..<b]" .
qed

lemma joins_true:
  "joins a b \<Longrightarrow> step_true fl self xs a \<Longrightarrow> step_true fl self ys b \<Longrightarrow> step_true fl self (xs @ ys) a"
  by (cases a; cases b) auto

lemma cut_steps_push:
  assumes cut: "cut_steps fl self C sp acc x" and asc: "ascending C" and r: "fst sp \<le> x" "x \<le> y" "y \<le> snd sp"
    and true: "step_true fl self (filter (within (x, y)) C) step"
  shows "cut_steps fl self C sp (((x, y), step) # acc) y"
  using cut r true below_append [OF asc r(2)] by (auto simp: cut_steps_def)

lemma cut_steps_extend:
  assumes cut: "cut_steps fl self C sp ((run, last') # acc) x" and asc: "ascending C" and r: "x \<le> y" "y \<le> snd sp"
    and true: "step_true fl self (filter (within run) C @ filter (within (x, y)) C) last'"
  shows "cut_steps fl self C sp (((fst run, y), last') # acc) y"
proof -
  have run: "snd run = x" "fst run \<le> x" using cut by (auto simp: cut_steps_def)
  have rows: "filter (within (fst run, y)) C = filter (within run) C @ filter (within (x, y)) C"
    using within_append [OF asc run(2) r(1)] run(1) by (metis prod.collapse)
  show ?thesis
    using cut r run true below_append [OF asc r(1)] by (auto simp: cut_steps_def rows)
qed

lemma steps_loop_cut:
  assumes wf: "wf_selection (rc_len self) sel" and rows: "rows = as_rows sel (rc_len self)"
    and sel_span: "sel_span rows = Some sp" and C: "C = covered sel (rc_len self)"
    and sound: "sound_zones (rc_table self) (rc_eqs self) zs"
    and mixed: "\<And>zone part u. part_zone zone < zone_count (zones_of (hd (checks zs))) \<Longrightarrow>
      zone_class_of zs (part_zone zone) = Some (Mixed u) \<Longrightarrow> wf_selection (rc_len self) part \<Longrightarrow>
      \<forall>row \<in> set (covered part (rc_len self)). within (set_zone_rows zs (part_zone zone)) row \<Longrightarrow>
      \<exists>step. mixed zone part u = Some step \<and> step_true fl self (covered part (rc_len self)) step"
  shows "cut_steps fl self C sp acc x \<Longrightarrow> concat (map (rows_in \<circ> part_rows) zones) = [x..<snd sp] \<Longrightarrow>
      fst sp \<le> x \<Longrightarrow> x \<le> snd sp \<Longrightarrow>
      \<forall>zone \<in> set zones. part_zone zone < zone_count (zones_of (hd (checks zs))) \<and>
        fst (part_rows zone) < snd (part_rows zone) \<and>
        fst (set_zone_rows zs (part_zone zone)) \<le> fst (part_rows zone) \<and>
        snd (part_rows zone) \<le> snd (set_zone_rows zs (part_zone zone)) \<Longrightarrow>
      \<exists>sts. steps_loop self zs rows mixed zones acc = Some sts \<and> cut_steps fl self C sp (rev sts) (snd sp)"
proof (induction zones arbitrary: acc x)
  case Nil
  from Nil.prems(2) have "[x..<snd sp] = []" by simp
  then have "x = snd sp" using Nil.prems(4) by auto
  then show ?case using Nil by simp
next
  case (Cons zone zones)
  have asc: "ascending C" using covered_ascending [OF wf] C by simp
  obtain x' y where r: "part_rows zone = (x', y)" by fastforce
  have z: "part_zone zone < zone_count (zones_of (hd (checks zs)))" "x' < y"
    "fst (set_zone_rows zs (part_zone zone)) \<le> x'" "y \<le> snd (set_zone_rows zs (part_zone zone))"
    using Cons.prems(5) r by auto
  have "[x'..<y] @ concat (map (rows_in \<circ> part_rows) zones) = [x..<snd sp]"
    using Cons.prems(2) r by (simp add: rows_in_def [of "(x', y)"] comp_def)
  note head = upt_head [OF this z(2)]
  obtain selected where selected: "part_of rows (x, y) = Some selected" "wf_selection (rc_len self) selected"
    "covered selected (rc_len self) = filter (within (x, y)) C"
    using part_of_narrows [OF wf, of "fst sp" "snd sp" x y] sel_span rows Cons.prems(3) head(1,2) z(2) C
    by (auto simp: narrows_def)
  have empty: "sel_is_empty selected (rc_len self) \<longleftrightarrow> filter (within (x, y)) C = []"
    using selected by (simp add: sel_is_empty_def sel_len_covered)
  have IH: "\<exists>sts. steps_loop self zs rows mixed zones acc' = Some sts \<and> cut_steps fl self C sp (rev sts) (snd sp)"
    if "cut_steps fl self C sp acc' y" for acc'
    using Cons.IH [OF that head(3)] head(1,2) z(2) Cons.prems(3,5) by simp
  show ?case
  proof (cases "filter (within (x, y)) C = []")
    case True
    define acc' where "acc' = (case acc of
        (run, last') # acc' \<Rightarrow> ((fst run, snd (part_rows zone)), last') # acc' | [] \<Rightarrow> [])"
    have "cut_steps fl self C sp acc' y"
    proof (cases acc)
      case Nil
      then show ?thesis
        using Cons.prems(1) below_append [OF asc, of x y] True head(1) z(2) by (simp add: acc'_def cut_steps_def)
    next
      case (Cons a rest)
      then obtain run last' where a: "acc = (run, last') # rest" by (cases a) auto
      have "step_true fl self (filter (within run) C) last'" using Cons.prems(1) a by (auto simp: cut_steps_def)
      then show ?thesis
        using cut_steps_extend [OF Cons.prems(1) [unfolded a] asc, of y] True head z(2)
        by (simp add: a acc'_def r)
    qed
    then show ?thesis using IH [of acc'] selected(1) True empty r head(1) by (simp add: acc'_def [symmetric])
  next
    case False
    have zoned: "within (set_zone_rows zs (part_zone zone)) row" if "within (x, y) row" for row
      using that z(3,4) head(1) by (simp add: within_def)
    obtain cls where cls: "zone_class_of zs (part_zone zone) = Some cls" "\<And>row. within (x, y) row \<Longrightarrow>
        (case cls of ZNone \<Rightarrow> \<not> passes self row | ZAll \<Rightarrow> passes self row
         | Mixed u \<Rightarrow> passes self row = holds (rc_table self) (picked (rc_eqs self) u) row)"
      using zone_class_sound [OF sound z(1)] zoned unfolding passes_def by blast
    have inside: "\<forall>row \<in> set (covered selected (rc_len self)). within (set_zone_rows zs (part_zone zone)) row"
      using selected(3) z(3,4) head(1) by (auto simp: within_def)
    define chosen where "chosen = (case cls of ZNone \<Rightarrow> Some Skip | ZAll \<Rightarrow> Some Take
        | Mixed unsettled \<Rightarrow> mixed zone selected unsettled)"
    obtain step where step: "chosen = Some step" "step_true fl self (filter (within (x, y)) C) step"
      using cls mixed [OF z(1) _ selected(2) inside] selected(3)
      by (cases cls) (auto simp: chosen_def)
    define acc' where "acc' = (case acc of
        (run, last') # acc' \<Rightarrow>
          if snd run = fst (part_rows zone) \<and> joins last' step
          then ((fst run, snd (part_rows zone)), last') # acc' else (part_rows zone, step) # acc
      | [] \<Rightarrow> [(part_rows zone, step)])"
    have push: "cut_steps fl self C sp (((x, y), step) # acc) y"
      using cut_steps_push [OF Cons.prems(1) asc Cons.prems(3) _ _ step(2)] head z(2) by simp
    have "cut_steps fl self C sp acc' y"
    proof (cases acc)
      case Nil
      then show ?thesis using push r head(1) by (simp add: acc'_def)
    next
      case (Cons a rest)
      then obtain run last' where a: "acc = (run, last') # rest" by (cases a) auto
      have "step_true fl self (filter (within run) C) last'" using Cons.prems(1) a by (auto simp: cut_steps_def)
      then show ?thesis
        using cut_steps_extend [OF Cons.prems(1) [unfolded a] asc, of y] push joins_true [OF _ _ step(2)]
          head z(2) r by (simp add: a acc'_def)
    qed
    then show ?thesis
      using IH [of acc'] selected(1) False empty r head(1) cls(1) step(1)
      by (simp add: acc'_def [symmetric] chosen_def [symmetric])
  qed
qed

definition run_spec :: "'k kernels_scheme \<Rightarrow> residual \<Rightarrow> row_selection \<Rightarrow> ((nat \<times> nat) \<times> step) list \<Rightarrow> bool" where
  "run_spec fl self sel sts \<longleftrightarrow>
     concat (map (\<lambda>(run, step). filter (within run) (covered sel (rc_len self))) sts) = covered sel (rc_len self) \<and>
     (\<forall>(run, step) \<in> set sts.
        narrows (rc_len self) sel (within run) (part_of (as_rows sel (rc_len self)) run) \<and>
        step_true fl self (filter (within run) (covered sel (rc_len self))) step)"

lemma zone_set_parts:
  assumes sound: "sound_zones t eqs zs"
  shows "concat (map (rows_in \<circ> part_rows) (parts zs (a, b))) = [a..<min b (tb_len t)]"
    and "zone \<in> set (parts zs (a, b)) \<Longrightarrow> part_zone zone < zone_count (zones_of (hd (checks zs))) \<and>
        fst (part_rows zone) < snd (part_rows zone) \<and>
        fst (set_zone_rows zs (part_zone zone)) \<le> fst (part_rows zone) \<and>
        snd (part_rows zone) \<le> snd (set_zone_rows zs (part_zone zone))"
    and "zone \<in> set (parts zs (a, b)) \<Longrightarrow> a \<le> fst (part_rows zone) \<and> snd (part_rows zone) \<le> b"
proof -
  obtain cs base where cs: "zone_set_new cs (unzoned_bits (length eqs) cs) = Some base" "checks zs = cs"
    "zs = base \<or> zs = bounds_only base"
    using sound_zones_checks(3) [OF sound] by blast
  have same: "parts zs sp = parts base sp" "set_zone_rows zs = set_zone_rows base" for sp
    using cs zone_set_new_Some(1) [OF cs(1)]
    by (auto simp: bounds_only_def parts_def set_zone_len_def set_zone_rows_def [abs_def])
  have geo: "geometry (zones_of (hd cs))" "row_count (zones_of (hd cs)) = tb_len t"
    using sound_zones_checks(1,2) [OF sound] cs(2) by simp_all
  show rows: "concat (map (rows_in \<circ> part_rows) (parts zs (a, b))) = [a..<min b (tb_len t)]"
    using parts_rows(1) [OF cs(1) geo(1), of a b] by (simp add: same(1) geo(2))
  show each: "part_zone zone < zone_count (zones_of (hd (checks zs))) \<and>
        fst (part_rows zone) < snd (part_rows zone) \<and>
        fst (set_zone_rows zs (part_zone zone)) \<le> fst (part_rows zone) \<and>
        snd (part_rows zone) \<le> snd (set_zone_rows zs (part_zone zone))"
    if "zone \<in> set (parts zs (a, b))" for zone
    using parts_rows(2) [OF cs(1) geo(1), of zone a b] that by (simp add: same(1,2) cs(2))
  assume zone: "zone \<in> set (parts zs (a, b))"
  have "set (rows_in (part_rows zone)) \<subseteq> {a..<b}"
  proof -
    have "set (rows_in (part_rows zone)) \<subseteq> set (concat (map (rows_in \<circ> part_rows) (parts zs (a, b))))"
      using zone by auto
    then show ?thesis unfolding rows by auto
  qed
  then show "a \<le> fst (part_rows zone) \<and> snd (part_rows zone) \<le> b"
    using each [OF zone] by (intro conjI; cases "snd (part_rows zone)") (force simp: rows_in_def)+
qed

lemma steps_spec:
  assumes wf: "wf_selection (rc_len self) sel" and sel_span: "sel_span (as_rows sel (rc_len self)) = Some sp"
    and sound: "sound_zones (rc_table self) (rc_eqs self) zs"
    and mixed: "\<And>zone part u. part_zone zone < zone_count (zones_of (hd (checks zs))) \<Longrightarrow>
      zone_class_of zs (part_zone zone) = Some (Mixed u) \<Longrightarrow> wf_selection (rc_len self) part \<Longrightarrow>
      \<forall>row \<in> set (covered part (rc_len self)). within (set_zone_rows zs (part_zone zone)) row \<Longrightarrow>
      \<exists>step. mixed zone part u = Some step \<and> step_true fl self (covered part (rc_len self)) step"
  shows "\<exists>sts. steps self zs (as_rows sel (rc_len self)) sp mixed = Some sts \<and> run_spec fl self sel sts"
proof -
  let ?n = "rc_len self" and ?C = "covered sel (rc_len self)"
  obtain a b where sp: "sp = (a, b)" "a < b" "b \<le> ?n" "\<forall>row \<in> set ?C. within sp row"
    using span_cases [OF wf] sel_span by auto
  note zones = zone_set_parts [OF sound, where a = a and b = b]
  have parts: "concat (map (rows_in \<circ> part_rows) (parts zs sp)) = [a..<b]"
    using zones(1) sp(1,3) by (simp add: rc_len_def)
  have each: "\<forall>zone \<in> set (parts zs sp). part_zone zone < zone_count (zones_of (hd (checks zs))) \<and>
        fst (part_rows zone) < snd (part_rows zone) \<and>
        fst (set_zone_rows zs (part_zone zone)) \<le> fst (part_rows zone) \<and>
        snd (part_rows zone) \<le> snd (set_zone_rows zs (part_zone zone))"
    using zones(2) sp(1) by simp
  have start: "cut_steps fl self ?C sp [] a"
    using sp(1,4) by (force simp: cut_steps_def within_def intro!: filter_False [symmetric])
  have "\<exists>sts. steps_loop self zs (as_rows sel ?n) mixed (parts zs sp) [] = Some sts \<and>
      cut_steps fl self ?C sp (rev sts) (snd sp)"
    by (rule steps_loop_cut [OF wf refl sel_span refl sound mixed start]) (use parts each sp(1,2) in auto)
  then obtain sts where sts: "steps_loop self zs (as_rows sel ?n) mixed (parts zs sp) [] = Some sts"
    "cut_steps fl self ?C sp (rev sts) b" using sp(1) by auto
  have "filter (\<lambda>row. row < b) ?C = ?C" using sp(1,4) by (auto simp: within_def intro!: filter_True)
  moreover have "narrows ?n sel (within run) (part_of (as_rows sel ?n) run)" if "(run, step) \<in> set sts" for run step
    using part_of_narrows [OF wf sel_span [unfolded sp(1)], of "fst run" "snd run"] sts(2) that sp(1)
    by (auto simp: cut_steps_def)
  ultimately have "run_spec fl self sel sts" using sts(2) by (auto simp: run_spec_def cut_steps_def)
  then show ?thesis using sts(1) by (auto simp: steps_def)
qed

lemma steps_loop_all:
  assumes "P Skip" "P Take" "\<And>zone part u step. mixed zone part u = Some step \<Longrightarrow> P step"
  shows "steps_loop self zs rows mixed zones acc = Some sts \<Longrightarrow> \<forall>(run, step) \<in> set acc. P step \<Longrightarrow>
    \<forall>(run, step) \<in> set sts. P step"
proof (induction zones arbitrary: acc)
  case (Cons zone zones)
  obtain selected where selected: "part_of rows (part_rows zone) = Some selected"
    using Cons.prems(1) by (cases "part_of rows (part_rows zone)") auto
  show ?case
  proof (cases "sel_is_empty selected (rc_len self)")
    case True
    then show ?thesis
      using Cons.prems selected by (auto split: list.splits elim!: Cons.IH)
  next
    case False
    obtain cls step where step: "zone_class_of zs (part_zone zone) = Some cls"
      "(case cls of ZNone \<Rightarrow> Some Skip | ZAll \<Rightarrow> Some Take | Mixed u \<Rightarrow> mixed zone selected u) = Some step"
      using Cons.prems(1) selected False by (auto split: Option.bind_splits)
    then have P: "P step" using assms by (auto split: zone_class.splits)
    show ?thesis
      using Cons.prems selected False step P
      by (auto split: list.splits if_splits elim!: Cons.IH)
  qed
qed auto

section \<open>Every match\<close>

lemma compares_whole_Some:
  assumes "run_spec fl self sel sts"
  shows "\<exists>whole. compares_whole (as_rows sel (rc_len self)) sts k (rc_len self) = Some whole"
proof -
  let ?f = "\<lambda>(run, step). map_option (\<lambda>part. sel_len part (rc_len self)) (part_of (as_rows sel (rc_len self)) run)"
  have "?f x \<noteq> None" if "x \<in> set sts" for x
    using assms that by (auto simp: run_spec_def narrows_def)
  then have "gather ?f (filter (\<lambda>(run, step). is_compare step) sts) \<noteq> None"
    unfolding gather_None_iff by (meson filter_is_subset subsetD)
  then show ?thesis by (auto simp: compares_whole_def)
qed

lemma rows_steps_matches:
  assumes wf: "wf_residual fl self" and sel: "wf_selection (rc_len self) sel"
  shows "(\<And>run step. (run, step) \<in> set sts \<Longrightarrow> (\<forall>plan. step \<noteq> Unread plan) \<and>
        narrows (rc_len self) sel (within run) (part_of (as_rows sel (rc_len self)) run) \<and>
        step_true fl self (filter (within run) (covered sel (rc_len self))) step) \<Longrightarrow>
      rows_steps fl self (as_rows sel (rc_len self)) sts ids =
        Some (ids @ concat (map (\<lambda>(run, step). filter (passes self) (filter (within run) (covered sel (rc_len self)))) sts))"
proof (induction sts arbitrary: ids)
  case (Cons a sts)
  obtain run step where a: "a = (run, step)" by fastforce
  let ?n = "rc_len self" and ?rows = "filter (within run) (covered sel (rc_len self))"
  have here: "\<forall>plan. step \<noteq> Unread plan" "step_true fl self ?rows step"
    "narrows ?n sel (within run) (part_of (as_rows sel ?n) run)" using Cons.prems [of run step] a by simp_all
  obtain part where part: "part_of (as_rows sel ?n) run = Some part" "wf_selection ?n part" "covered part ?n = ?rows"
    using here(3) by (auto simp: narrows_def)
  define found where "found = (case step of
           Skip \<Rightarrow> Some ids
         | Take \<Rightarrow> Some (extend_rows ids part ?n)
         | Unread plan \<Rightarrow> None
         | Compare bits \<Rightarrow> map_option (\<lambda>matched. extend_rows ids matched ?n) (compare fl self part bits))"
  have "found = Some (ids @ filter (passes self) ?rows)"
  proof (cases step)
    case (Compare bits)
    obtain matched where "compare fl self part bits = Some matched"
      "covered matched ?n = filter (holds (rc_table self) (picked (rc_eqs self) bits)) ?rows"
      using compare_narrows [OF wf part(2), of bits] part(3) by (auto simp: narrows_def)
    moreover have "filter (holds (rc_table self) (picked (rc_eqs self) bits)) ?rows = filter (passes self) ?rows"
      using here(2) Compare by (intro filter_cong) auto
    ultimately show ?thesis by (simp add: found_def Compare extend_rows_covered)
  next
    case Take
    then have "filter (passes self) ?rows = ?rows" using here(2) by (intro filter_True) simp
    then show ?thesis using Take part by (simp add: found_def extend_rows_covered del: filter_filter)
  qed (use here part in \<open>auto simp: found_def filter_empty_conv\<close>)
  moreover have "rows_steps fl self (as_rows sel ?n) sts ids' =
      Some (ids' @ concat (map (\<lambda>(run, step). filter (passes self) (filter (within run) (covered sel ?n))) sts))" for ids'
    by (rule Cons.IH) (use Cons.prems in auto)
  ultimately show ?case by (simp add: a part(1) found_def [symmetric] del: filter_filter)
qed simp

lemma rows_by_narrows:
  assumes wf: "wf_residual fl self" and sound: "sound_zones (rc_table self) (rc_eqs self) zs"
    and sel: "wf_selection (rc_len self) sel"
  shows "narrows (rc_len self) sel (passes self) (rows_by fl self zs sel)"
proof (cases "sel_span (as_rows sel (rc_len self))")
  case None
  then have "covered sel (rc_len self) = []" using span_cases [OF sel] by auto
  then show ?thesis using None sel by (auto simp: rows_by_def intro!: narrowsI)
next
  case (Some sp)
  let ?n = "rc_len self" and ?C = "covered sel (rc_len self)"
  have mixed: "\<exists>step. Some (Compare u) = Some step \<and> step_true fl self (covered part ?n) step"
    if "part_zone zone < zone_count (zones_of (hd (checks zs)))"
      "zone_class_of zs (part_zone zone) = Some (Mixed u)"
      "\<forall>row \<in> set (covered part ?n). within (set_zone_rows zs (part_zone zone)) row" for zone part u
    using zone_class_sound [OF sound that(1)] that(2,3) by (auto simp: passes_def)
  obtain sts where sts: "steps self zs (as_rows sel ?n) sp (\<lambda>zone selected bits. Some (Compare bits)) = Some sts"
    and spec: "run_spec fl self sel sts"
    using steps_spec [OF sel Some sound, of "\<lambda>zone selected bits. Some (Compare bits)" fl] mixed by blast
  have compares: "\<forall>plan. step \<noteq> Unread plan" if "(run, step) \<in> set sts" for run step
    using steps_loop_all [where P = "\<lambda>step. \<forall>plan. step \<noteq> Unread plan", OF _ _ _ sts [unfolded steps_def]] that
    by fastforce
  obtain whole where whole: "compares_whole (as_rows sel ?n) sts (sel_len sel ?n) ?n = Some whole"
    using compares_whole_Some [OF spec] by blast
  have all: "filter (passes self) ?C = ?C" if "list_all (\<lambda>(run, step). step = Take) sts"
  proof -
    have "\<forall>row \<in> set (filter (within run) ?C). passes self row" if "(run, step) \<in> set sts" for run step
      using spec that \<open>list_all (\<lambda>(run, step). step = Take) sts\<close> by (force simp: run_spec_def list_all_iff)
    then have "\<forall>row \<in> set (concat (map (\<lambda>(run, step). filter (within run) ?C) sts)). passes self row"
      by fastforce
    moreover have "concat (map (\<lambda>(run, step). filter (within run) ?C) sts) = ?C"
      using spec by (simp add: run_spec_def)
    ultimately show ?thesis by (intro filter_True) (simp only:)
  qed
  have "rows_steps fl self (as_rows sel ?n) sts [] =
      Some (concat (map (\<lambda>(run, step). filter (passes self) (filter (within run) ?C)) sts))"
    using rows_steps_matches [OF wf sel, of sts "[]"] spec compares by (fastforce simp: run_spec_def)
  also have "concat (map (\<lambda>(run, step). filter (passes self) (filter (within run) ?C)) sts) =
      filter (passes self) (concat (map (\<lambda>(run, step). filter (within run) ?C) sts))"
    by (induction sts) (auto simp del: filter_filter)
  also have "\<dots> = filter (passes self) ?C" using spec by (simp add: run_spec_def)
  finally have rows: "rows_steps fl self (as_rows sel ?n) sts [] = Some (filter (passes self) ?C)" .
  show ?thesis
    using all narrowsI [of "Some sel" sel ?n "passes self" sel] sel
      compare_every [OF wf sel] narrows_ids(2) [OF sel, of "passes self"]
    by (simp add: rows_by_def Some sts whole rows Let_def)
qed

end
