(* ===== verification/ResidualCounts.thy ===== *)
theory ResidualCounts
  imports ResidualWalks
begin

text \<open>
  What the residual compare answers: its matches, its full and capped counts and its windows, over
  the parts its walk reads (\<open>core/src/store/scan/residual.rs\<close>).
\<close>

section \<open>Matches by classes and by pieces\<close>

lemma pieces_compared_narrows:
  assumes wf: "wf_residual fl self" and sel: "wf_selection (rc_len self) sel"
    and sound: "\<And>zs. bnds = Some zs \<Longrightarrow> sound_zones (rc_table self) (rc_eqs self) zs"
  shows "narrows (rc_len self) sel (passes self) (pieces_compared fl self bnds sel)"
  using rows_by_narrows [OF wf sound sel] compare_every [OF wf sel]
  by (simp add: pieces_compared_def split: option.split)

lemma residual_rows_narrows:
  assumes wf: "wf_residual fl self"
  shows "narrows (rc_len self) (rc_selection self) (passes self) (residual_rows fl self)"
proof -
  have sel: "wf_selection (rc_len self) (rc_selection self)" using wf by (simp add: wf_residual_def)
  show ?thesis
  proof (cases "rc_classes self")
    case (Zoned zs)
    then show ?thesis using rows_by_narrows [OF wf _ sel] wf by (simp add: residual_rows_def wf_residual_def)
  next
    case (Pieces bnds)
    then have "\<And>zs. bnds = Some zs \<Longrightarrow> sound_zones (rc_table self) (rc_eqs self) zs"
      using wf by (auto simp: wf_residual_def)
    then show ?thesis using pieces_compared_narrows [OF wf sel] Pieces by (simp add: residual_rows_def)
  qed
qed

section \<open>The full count\<close>

lemma live_narrowed:
  assumes "wf_residual fl self" "narrows (rc_len self) sel (passes self) res"
  shows "\<exists>matched. res = Some matched \<and>
    residual_live self matched = Some (length (matches_of self (covered sel (rc_len self))))"
  using assms live_matches [OF assms(1), of sel "passes self"] by (auto simp: narrows_def matches_of_def)

lemma count_steps_matches:
  assumes wf: "wf_residual fl self" and sel: "wf_selection (rc_len self) sel"
  shows "(\<And>run step. (run, step) \<in> set sts \<Longrightarrow>
        narrows (rc_len self) sel (within run) (part_of (as_rows sel (rc_len self)) run) \<and>
        step_true fl self (filter (within run) (covered sel (rc_len self))) step) \<Longrightarrow>
      count_steps fl self (as_rows sel (rc_len self)) sts n =
        Some (n + length (matches_of self (concat (map (\<lambda>(run, step). filter (within run) (covered sel (rc_len self))) sts))))"
proof (induction sts arbitrary: n)
  case (Cons a sts)
  obtain run step where a: "a = (run, step)" by fastforce
  let ?n = "rc_len self" and ?rows = "filter (within run) (covered sel (rc_len self))"
  have here: "step_true fl self ?rows step"
    "narrows ?n sel (within run) (part_of (as_rows sel ?n) run)" using Cons.prems [of run step] a by simp_all
  obtain part where part: "part_of (as_rows sel ?n) run = Some part" "wf_selection ?n part" "covered part ?n = ?rows"
    using here(2) by (auto simp: narrows_def)
  define found where "found = (case step of
           Skip \<Rightarrow> Some 0
         | Take \<Rightarrow> do { part \<leftarrow> part_of (as_rows sel ?n) run; residual_live self part }
         | Unread plan \<Rightarrow> unread_count fl plan
         | Compare bits \<Rightarrow> do { part \<leftarrow> part_of (as_rows sel ?n) run; matched \<leftarrow> compare fl self part bits; residual_live self matched })"
  have "found = Some (length (matches_of self ?rows))"
  proof (cases step)
    case (Compare bits)
    have "narrows ?n part (passes self) (compare fl self part bits)"
      by (rule narrows_cong [OF _ compare_narrows [OF wf part(2)]]) (use here(1) Compare part(3) in auto)
    from live_narrowed [OF wf this] show ?thesis using part by (auto simp: found_def Compare)
  next
    case Take
    then have all: "filter (passes self) ?rows = ?rows" using here(1) by (intro filter_True) simp
    have "residual_live self part = Some (length (live_of (rc_deleted self) ?rows))"
      using live_count_covered [OF part(2), of "rc_deleted self"] wf part(3) by (simp add: residual_live_def wf_residual_def)
    then show ?thesis by (simp add: found_def Take part(1) matches_of_def all del: filter_filter)
  next
    case Skip
    then have "filter (passes self) ?rows = []" using here(1) by (auto simp: filter_empty_conv)
    then show ?thesis by (simp add: found_def Skip matches_of_def del: filter_filter)
  qed (use here in \<open>simp add: found_def\<close>)
  moreover have "count_steps fl self (as_rows sel ?n) sts (n + length (matches_of self ?rows)) =
      Some (n + length (matches_of self ?rows) +
        length (matches_of self (concat (map (\<lambda>(run, step). filter (within run) (covered sel ?n)) sts))))"
    by (rule Cons.IH) (use Cons.prems in auto)
  ultimately show ?case by (simp add: a found_def [symmetric] add.assoc)
qed simp

lemma full_count_matches:
  assumes wf: "wf_residual fl self" and zs: "rc_classes self = Zoned zs"
    and sel_span: "sel_span (selected_rows self) = Some sp"
  shows "full_count fl self zs sp = Some (length (matches_of self (covered (rc_selection self) (rc_len self))))"
proof -
  let ?n = "rc_len self" and ?sel = "rc_selection self"
  have sel: "wf_selection ?n ?sel" and sound: "sound_zones (rc_table self) (rc_eqs self) zs"
    and few: "length (rc_eqs self) \<le> 32"
    using wf zs by (auto simp: wf_residual_def)
  let ?mixed = "\<lambda>zone selected bits. map_option (\<lambda>plan. case plan of Some plan \<Rightarrow> Unread plan | None \<Rightarrow> Compare bits)
      (unread_plan self zs zone selected bits)"
  have mixed: "\<exists>step. ?mixed zone part u = Some step \<and> step_true fl self (covered part ?n) step"
    if "part_zone zone < zone_count (zones_of (hd (checks zs)))"
      "zone_class_of zs (part_zone zone) = Some (Mixed u)" "wf_selection ?n part"
      "\<forall>row \<in> set (covered part ?n). within (set_zone_rows zs (part_zone zone)) row" for zone part u
    using unread_plan_counts [OF wf sound few that] zone_class_sound [OF sound that(1)] that(2,4)
    by (fastforce simp: passes_def split: option.split)
  obtain sts where sts: "steps self zs (as_rows ?sel ?n) sp ?mixed = Some sts" and spec: "run_spec fl self ?sel sts"
    using steps_spec [OF sel sel_span [unfolded selected_rows_def] sound, of ?mixed fl] mixed by blast
  obtain whole where whole: "compares_whole (as_rows ?sel ?n) sts (work self) ?n = Some whole"
    using compares_whole_Some [OF spec] by blast
  have count: "count_steps fl self (as_rows ?sel ?n) sts 0 = Some (length (matches_of self (covered ?sel ?n)))"
    using count_steps_matches [OF wf sel, of sts 0] spec by (fastforce simp: run_spec_def)
  obtain matched where "compare fl self ?sel (every_eq (length (rc_eqs self))) = Some matched"
    "residual_live self matched = Some (length (matches_of self (covered ?sel ?n)))"
    using live_narrowed [OF wf compare_every [OF wf sel]] by blast
  then show ?thesis by (simp add: full_count_def selected_rows_def sts whole count)
qed

section \<open>The parts of a walk\<close>

definition part_reads :: "'k compute_scheme \<Rightarrow> residual \<Rightarrow> nat list \<Rightarrow> part option option \<Rightarrow> bool" where
  "part_reads fl self xs p \<longleftrightarrow>
     p = Some None \<and> xs = [] \<or>
     (\<exists>part. p = Some (Some part) \<and>
        (\<exists>unread. part_unread fl self part = Some unread \<and>
           (\<forall>m. unread = Some m \<longrightarrow> m = length (matches_of self xs))) \<and>
        (\<exists>matched. part_matched fl self part = Some matched \<and> wf_selection (rc_len self) matched \<and>
           covered matched (rc_len self) = filter (passes self) xs))"

lemma zone_part_reads:
  assumes wf: "wf_residual fl self" and zs: "rc_classes self = Zoned zs"
    and zone: "part_zone zone < zone_count (zones_of (hd (checks zs)))"
    and sel: "wf_selection (rc_len self) selected"
    and inside: "\<forall>row \<in> set (covered selected (rc_len self)). within (set_zone_rows zs (part_zone zone)) row"
  shows "\<exists>cls. zone_class_of zs (part_zone zone) = Some cls \<and>
    part_reads fl self (covered selected (rc_len self)) (Some (Some (ZonePart zs zone selected cls)))"
proof -
  let ?n = "rc_len self" and ?xs = "covered selected (rc_len self)"
  have sound: "sound_zones (rc_table self) (rc_eqs self) zs" and few: "length (rc_eqs self) \<le> 32"
    using wf zs by (auto simp: wf_residual_def)
  obtain cls where cls: "zone_class_of zs (part_zone zone) = Some cls"
    "\<And>row. within (set_zone_rows zs (part_zone zone)) row \<Longrightarrow>
        (case cls of ZNone \<Rightarrow> \<not> passes self row | ZAll \<Rightarrow> passes self row
         | Mixed u \<Rightarrow> passes self row = holds (rc_table self) (picked (rc_eqs self) u) row)"
    using zone_class_sound [OF sound zone] unfolding passes_def by blast
  have "part_reads fl self ?xs (Some (Some (ZonePart zs zone selected cls)))"
  proof (cases cls)
    case ZNone
    then have "filter (passes self) ?xs = []" using cls(2) inside by (auto simp: filter_empty_conv)
    then show ?thesis using ZNone by (simp add: part_reads_def matches_of_def)
  next
    case ZAll
    then have all: "filter (passes self) ?xs = ?xs" using cls(2) inside by (intro filter_True) auto
    have "residual_live self selected = Some (length (live_of (rc_deleted self) ?xs))"
      using live_count_covered [OF sel, of "rc_deleted self"] wf by (simp add: residual_live_def wf_residual_def)
    then show ?thesis using ZAll sel by (simp add: part_reads_def matches_of_def all)
  next
    case (Mixed u)
    have "narrows ?n selected (passes self) (compare fl self selected u)"
      by (rule narrows_cong [OF _ compare_narrows [OF wf sel]]) (use cls(2) inside Mixed in auto)
    then obtain matched where "compare fl self selected u = Some matched" "wf_selection ?n matched"
      "covered matched ?n = filter (passes self) ?xs" by (auto simp: narrows_def)
    moreover obtain plan where "unread_plan self zs zone selected u = Some plan"
      "\<forall>how. plan = Some how \<longrightarrow> unread_count fl how = Some (length (matches_of self ?xs))"
      using unread_plan_counts [OF wf sound few zone _ sel inside] cls(1) Mixed by blast
    ultimately show ?thesis using Mixed by (simp add: part_reads_def split: option.split)
  qed
  then show ?thesis using cls(1) by blast
qed

lemma list_all2_mapI: "(\<And>x. x \<in> set xs \<Longrightarrow> P (f x) (g x)) \<Longrightarrow> list_all2 P (map f xs) (map g xs)"
  by (simp add: list_all2_conv_all_nth)

lemma filter_rows_in:
  assumes "ascending C"
  shows "\<forall>r \<in> set rs. fst r \<le> snd r \<Longrightarrow> concat (map rows_in rs) = [a..<b] \<Longrightarrow>
    concat (map (\<lambda>r. filter (within r) C) rs) = filter (within (a, b)) C"
proof (induction rs arbitrary: a)
  case Nil
  then have "\<not> a < b" by (metis concat.simps(1) list.simps(8) upt_eq_Nil_conv not_less0 bot_nat_0.extremum_strict order_less_le_trans not_le)
  then show ?case by (auto simp: within_def filter_empty_conv)
next
  case (Cons r rs)
  obtain x y where r: "r = (x, y)" by fastforce
  show ?case
  proof (cases "x < y")
    case True
    have "[x..<y] @ concat (map rows_in rs) = [a..<b]" using Cons.prems(2) by (simp add: r rows_in_def [of "(x, y)"])
    note head = upt_head [OF this True]
    show ?thesis
      using Cons.IH [OF _ head(3)] Cons.prems(1) within_append [OF assms, of x y b] head True by (simp add: r)
  next
    case False
    then have "rows_in r = []" "filter (within r) C = []" by (auto simp: r rows_in_def within_def filter_empty_conv)
    then show ?thesis using Cons by simp
  qed
qed

lemma walk_parts_zones:
  assumes wf: "wf_residual fl self" and zs: "rc_classes self = Zoned zs"
    and sel_span: "sel_span (selected_rows self) = Some sp"
  shows "\<exists>xss. list_all2 (\<lambda>p xs. part_reads fl self xs p) (walk_parts self sp want) xss \<and>
    concat xss = covered (rc_selection self) (rc_len self)"
proof -
  let ?n = "rc_len self" and ?sel = "rc_selection self" and ?C = "covered (rc_selection self) (rc_len self)"
  have sel: "wf_selection ?n ?sel" and sound: "sound_zones (rc_table self) (rc_eqs self) zs"
    using wf zs by (auto simp: wf_residual_def)
  obtain a b where sp: "sp = (a, b)" "a < b" "b \<le> ?n" "\<forall>row \<in> set ?C. within sp row"
    using span_cases [OF sel] sel_span by (auto simp: selected_rows_def)
  note zones = zone_set_parts [OF sound, where a = a and b = b]
  have asc: "ascending ?C" by (rule covered_ascending [OF sel])
  let ?rows = "\<lambda>zone. filter (within (part_rows zone)) ?C"
  have "part_reads fl self (?rows zone) (do {
        selected \<leftarrow> part_of (selected_rows self) (part_rows zone);
        if sel_is_empty selected ?n then Some None
        else map_option (\<lambda>cls. Some (ZonePart zs zone selected cls)) (zone_class_of zs (part_zone zone))
      })" if zone: "zone \<in> set (parts zs sp)" for zone
  proof -
    note z = zones(2) [OF zone [unfolded sp(1)]]
    have inside: "a \<le> fst (part_rows zone)" "snd (part_rows zone) \<le> b"
      using zones(3) [OF zone [unfolded sp(1)]] by simp_all
    obtain selected where selected: "part_of (selected_rows self) (part_rows zone) = Some selected"
      "wf_selection ?n selected" "covered selected ?n = ?rows zone"
      using part_of_narrows [OF sel, of a b "fst (part_rows zone)" "snd (part_rows zone)"] sel_span sp(1) inside z
      by (auto simp: narrows_def selected_rows_def)
    have within: "\<forall>row \<in> set (covered selected ?n). within (set_zone_rows zs (part_zone zone)) row"
      using selected(3) z by (auto simp: within_def)
    obtain cls where "zone_class_of zs (part_zone zone) = Some cls"
      "part_reads fl self (covered selected ?n) (Some (Some (ZonePart zs zone selected cls)))"
      using zone_part_reads [OF wf zs _ selected(2) within] z by blast
    then show ?thesis
      using selected by (simp add: sel_is_empty_def sel_len_covered) (simp add: part_reads_def)
  qed
  then have "list_all2 (\<lambda>p xs. part_reads fl self xs p) (walk_parts self sp want) (map ?rows (parts zs sp))"
    unfolding walk_parts_def by (simp add: zs Let_def list_all2_mapI)
  moreover have "concat (map ?rows (parts zs sp)) = ?C"
  proof -
    have "concat (map (\<lambda>r. filter (within r) ?C) (map part_rows (parts zs sp))) = filter (within (a, b)) ?C"
    proof (rule filter_rows_in [OF asc])
      show "\<forall>r \<in> set (map part_rows (parts zs sp)). fst r \<le> snd r"
        using zones(2) sp(1) by (auto intro: less_imp_le)
      show "concat (map rows_in (map part_rows (parts zs sp))) = [a..<b]"
        using zones(1) sp(2,3) by (simp add: sp(1) comp_def rc_len_def)
    qed
    also have "\<dots> = ?C" using sp(1,4) by (intro filter_True) simp
    finally show ?thesis by (simp add: comp_def)
  qed
  ultimately show ?thesis by blast
qed

lemma slice_nth: "a \<le> b \<Longrightarrow> b \<le> length xs \<Longrightarrow> take (b - a) (drop a xs) = map ((!) xs) [a..<b]"
  by (intro nth_equalityI) simp_all

lemma walk_parts_pieces:
  assumes wf: "wf_residual fl self" and pieces: "rc_classes self = Pieces bnds"
  shows "\<exists>xss. list_all2 (\<lambda>p xs. part_reads fl self xs p) (walk_parts self sp want) xss \<and>
    concat xss = covered (rc_selection self) (rc_len self)"
proof -
  let ?n = "rc_len self" and ?sel = "rc_selection self" and ?C = "covered (rc_selection self) (rc_len self)"
  have sel: "wf_selection ?n ?sel" and n: "?n \<le> usize_max" using wf by (auto simp: wf_residual_def wf_table_def rc_len_def)
  have total: "work self = length ?C" by (simp add: work_def sel_len_covered [OF sel])
  have words: "\<forall>(a, b) \<in> set [(0, work self)]. b \<le> u64_max"
    using ascending_length_le [OF covered_ascending [OF sel], of ?n] covered_bound [OF sel] n total by simp
  define first where "first = (if work self \<le> want then work self else FIRST_PIECE_ROWS)"
  let ?cuts = "growing_pieces [(0, work self)] first"
  have cut: "a \<le> b \<and> b \<le> length ?C" if "(i, a, b) \<in> set ?cuts" for i a b
    using growing_pieces_within [OF words that] total by auto
  have sound: "\<And>zs. bnds = Some zs \<Longrightarrow> sound_zones (rc_table self) (rc_eqs self) zs"
    using wf pieces by (auto simp: wf_residual_def)
  have reads: "part_reads fl self (map ((!) ?C) [a..<b])
      (map_option (\<lambda>selected. Some (PiecePart bnds selected)) (rows_at (selected_rows self) (a, b)))"
    if within: "(i, a, b) \<in> set ?cuts" for i a b
  proof -
    obtain selected where selected: "rows_at (selected_rows self) (a, b) = Some selected" "wf_selection ?n selected"
      "covered selected ?n = map ((!) ?C) [a..<b]"
      using rows_at_places [OF sel, of a b] cut [OF within] by (auto simp: selected_rows_def slice_nth)
    then show ?thesis
      using pieces_compared_narrows [OF wf selected(2) sound] by (auto simp: part_reads_def narrows_def)
  qed
  have "list_all2 (\<lambda>p xs. part_reads fl self xs p) (walk_parts self sp want)
      (map (\<lambda>(i, a, b). map ((!) ?C) [a..<b]) ?cuts)"
    unfolding walk_parts_def
    by (simp add: pieces Let_def first_def [symmetric]) (rule list_all2_mapI, use reads in auto)
  moreover have "concat (map (\<lambda>(i, a, b). map ((!) ?C) [a..<b]) ?cuts) = map ((!) ?C) (concat (map (\<lambda>(i, a, b). [a..<b]) ?cuts))"
    by (simp add: map_concat case_prod_unfold comp_def)
  moreover have "map ((!) ?C) (concat (map (\<lambda>(i, a, b). [a..<b]) ?cuts)) = ?C"
    using growing_pieces_rows [OF words, of first] total by (simp add: map_nth)
  ultimately show ?thesis by metis
qed

lemma walk_parts_read:
  assumes wf: "wf_residual fl self" and sel_span: "sel_span (selected_rows self) = Some sp"
  shows "\<exists>xss. list_all2 (\<lambda>p xs. part_reads fl self xs p) (walk_parts self sp want) xss \<and>
    concat xss = covered (rc_selection self) (rc_len self)"
  using walk_parts_zones [OF wf _ sel_span] walk_parts_pieces [OF wf] by (cases "rc_classes self") auto

section \<open>Counts and windows that stop short\<close>

lemma part_count:
  assumes wf: "wf_residual fl self" and reads: "part_reads fl self xs (Some (Some part))"
  shows "\<exists>unread. part_unread fl self part = Some unread \<and>
    (case unread of Some matches \<Rightarrow> Some matches
     | None \<Rightarrow> do { matched \<leftarrow> part_matched fl self part; residual_live self matched }) = Some (length (matches_of self xs))"
proof -
  obtain matched where matched: "part_matched fl self part = Some matched" "wf_selection (rc_len self) matched"
    "covered matched (rc_len self) = filter (passes self) xs" using reads by (auto simp: part_reads_def)
  have "residual_live self matched = Some (length (matches_of self xs))"
    using live_count_covered [OF matched(2), of "rc_deleted self"] wf matched(3)
    by (simp add: residual_live_def matches_of_def wf_residual_def)
  then show ?thesis using reads matched(1) by (auto simp: part_reads_def split: option.split)
qed

lemma capped_count_matches:
  assumes wf: "wf_residual fl self"
  shows "list_all2 (\<lambda>p xs. part_reads fl self xs p) ps xss \<Longrightarrow>
    \<exists>m. capped_count fl self cap ps n = Some m \<and> m \<le> n + length (matches_of self (concat xss)) \<and>
      (cap \<le> m \<or> m = n + length (matches_of self (concat xss)))"
proof (induction arbitrary: n rule: list_all2_induct)
  case Nil
  then show ?case by simp
next
  case (Cons p ps xs xss)
  show ?case
  proof (cases "p = Some None \<and> xs = []")
    case True
    then show ?thesis using Cons.IH by simp
  next
    case False
    then obtain part where p: "p = Some (Some part)" using Cons.hyps(1) by (auto simp: part_reads_def)
    obtain unread where unread: "part_unread fl self part = Some unread"
      "(case unread of Some matches \<Rightarrow> Some matches
        | None \<Rightarrow> do { matched \<leftarrow> part_matched fl self part; residual_live self matched }) = Some (length (matches_of self xs))"
      using part_count [OF wf Cons.hyps(1) [unfolded p]] by blast
    obtain m where "capped_count fl self cap ps (n + length (matches_of self xs)) = Some m"
      "m \<le> n + length (matches_of self xs) + length (matches_of self (concat xss))"
      "cap \<le> m \<or> m = n + length (matches_of self xs) + length (matches_of self (concat xss))"
      using Cons.IH by blast
    then show ?thesis using p unread by (cases "cap \<le> n") (auto simp: add.assoc)
  qed
qed

lemma window_loop_matches:
  assumes wf: "wf_residual fl self"
  shows "list_all2 (\<lambda>p xs. part_reads fl self xs p) ps xss \<Longrightarrow> cursor_inv offset limit ms c \<Longrightarrow>
    length (ms @ matches_of self (concat xss)) \<le> u64_max \<Longrightarrow>
    \<exists>ended c'. window_loop fl self ps c = Some (ended, c') \<and>
      cur_rows c' = within_limit limit (drop offset (ms @ matches_of self (concat xss))) \<and>
      cur_seen c' \<le> length (ms @ matches_of self (concat xss)) \<and>
      (ended \<longrightarrow> cur_seen c' = length (ms @ matches_of self (concat xss)))"
proof (induction arbitrary: ms c rule: list_all2_induct)
  case Nil
  then show ?case by (auto simp: cursor_inv_def)
next
  case (Cons p ps xs xss)
  let ?here = "matches_of self xs" and ?rest = "matches_of self (concat xss)"
  show ?case
  proof (cases "p = Some None \<and> xs = []")
    case True
    then show ?thesis using Cons.IH Cons.prems by simp
  next
    case False
    then obtain part where p: "p = Some (Some part)" using Cons.hyps(1) by (auto simp: part_reads_def)
    show ?thesis
    proof (cases "cursor_is_full c")
      case True
      then show ?thesis
        using cursor_inv_full [OF Cons.prems(1) True, of "?here @ ?rest"] Cons.prems(1)
        by (simp add: p) (auto simp: cursor_inv_def intro!: exI [of _ False])
    next
      case open_window: False
      obtain unread where unread: "part_unread fl self part = Some unread"
        "\<And>m. unread = Some m \<Longrightarrow> m = length ?here"
        using Cons.hyps(1) by (auto simp: p part_reads_def)
      obtain matched where matched: "part_matched fl self part = Some matched" "wf_selection (rc_len self) matched"
        "covered matched (rc_len self) = filter (passes self) xs" using Cons.hyps(1) by (auto simp: p part_reads_def)
      have ids: "live_ids matched (rc_deleted self) (rc_len self) = Some ?here"
        using live_ids_covered [OF matched(2), of "rc_deleted self"] wf matched(3)
        by (simp add: matches_of_def wf_residual_def)
      define skipped where "skipped = (case unread of
          Some matches \<Rightarrow> if matches = 0 then (True, c) else cursor_skips matches c | None \<Rightarrow> (False, c))"
      have loop: "window_loop fl self (p # ps) c =
          (if fst skipped then window_loop fl self ps (snd skipped)
           else do { c'' \<leftarrow> cursor_take ?here (snd skipped); window_loop fl self ps c'' })"
        by (simp add: p open_window unread(1) skipped_def [symmetric] matched(1) ids case_prod_unfold)
      have rest: "length ((ms @ ?here) @ ?rest) \<le> u64_max" using Cons.prems(2) by simp
      have skip: "cursor_inv offset limit (ms @ ?here) (snd skipped)" if "fst skipped"
      proof (cases unread)
        case (Some m)
        then have m: "length ?here = m" using unread(2) by simp
        show ?thesis
        proof (cases "m = 0")
          case True
          then show ?thesis using Some m Cons.prems(1) by (simp add: skipped_def)
        next
          case False
          then have "cursor_skips m c = (True, snd skipped)"
            using that Some by (metis (mono_tags, lifting) option.case(2) prod.collapse skipped_def)
          moreover have "length ms + m \<le> u64_max" using Cons.prems(2) m by simp
          ultimately show ?thesis using cursor_inv_skips(1) [OF Cons.prems(1) _ m] by simp
        qed
      qed (use that in \<open>simp add: skipped_def\<close>)
      have same: "snd skipped = c" if "\<not> fst skipped"
        using that by (cases unread) (simp_all add: skipped_def cursor_skips_def split: if_splits)
      show ?thesis
      proof (cases "fst skipped")
        case True
        then show ?thesis using Cons.IH [OF skip [OF True] rest] loop by simp
      next
        case False
        obtain c' where "cursor_take ?here c = Some c'" "cursor_inv offset limit (ms @ ?here) c'"
          using cursor_inv_take [OF Cons.prems(1), of ?here] Cons.prems(2) by auto
        then show ?thesis using Cons.IH [OF _ rest] loop same [OF False] False by simp
      qed
    qed
  qed
qed

lemma matches_small:
  assumes "wf_residual fl self"
  shows "length (matches_of self (covered (rc_selection self) (rc_len self))) \<le> u64_max"
proof -
  have sel: "wf_selection (rc_len self) (rc_selection self)" and n: "rc_len self \<le> usize_max"
    using assms by (auto simp: wf_residual_def wf_table_def rc_len_def)
  have "length (covered (rc_selection self) (rc_len self)) \<le> rc_len self"
    using ascending_length_le [OF covered_ascending [OF sel], of "rc_len self"] covered_bound [OF sel] by blast
  moreover have "length (matches_of self C) \<le> length C" for C
    unfolding matches_of_def live_of_def by (meson length_filter_le le_trans)
  ultimately show ?thesis using n by (meson le_trans)
qed

lemma no_span: "wf_residual fl self \<Longrightarrow> sel_span (selected_rows self) = None \<Longrightarrow>
  covered (rc_selection self) (rc_len self) = []"
  using span_cases [of "rc_len self" "rc_selection self"] by (auto simp: wf_residual_def selected_rows_def)

lemma residual_count_matches:
  assumes wf: "wf_residual fl self"
  shows "residual_count fl self None =
      Some (length (matches_of self (covered (rc_selection self) (rc_len self))))"
    and "\<exists>m. residual_count fl self (Some cap) = Some m \<and>
      m \<le> length (matches_of self (covered (rc_selection self) (rc_len self))) \<and>
      (cap \<le> m \<or> m = length (matches_of self (covered (rc_selection self) (rc_len self))))"
proof -
  let ?C = "covered (rc_selection self) (rc_len self)"
  show "residual_count fl self None = Some (length (matches_of self ?C))"
  proof (cases "sel_span (selected_rows self)")
    case None
    then show ?thesis by (simp add: residual_count_def no_span [OF wf])
  next
    case (Some sp)
    obtain matched where "residual_rows fl self = Some matched" "residual_live self matched = Some (length (matches_of self ?C))"
      using live_narrowed [OF wf residual_rows_narrows [OF wf]] by blast
    then show ?thesis
      using full_count_matches [OF wf _ Some] Some by (cases "rc_classes self") (simp_all add: residual_count_def)
  qed
  show "\<exists>m. residual_count fl self (Some cap) = Some m \<and> m \<le> length (matches_of self ?C) \<and>
      (cap \<le> m \<or> m = length (matches_of self ?C))"
  proof (cases "sel_span (selected_rows self)")
    case None
    then show ?thesis by (simp add: residual_count_def no_span [OF wf])
  next
    case (Some sp)
    then show ?thesis
      using walk_parts_read [OF wf Some, of cap] capped_count_matches [OF wf, of _ _ cap 0]
      by (fastforce simp: residual_count_def)
  qed
qed

lemma residual_window_matches:
  assumes wf: "wf_residual fl self"
  defines "ms \<equiv> matches_of self (covered (rc_selection self) (rc_len self))"
  shows "\<exists>seen. residual_window fl self offset limit = Some (take limit (drop offset ms), seen) \<and>
    at_least seen \<le> length ms \<and> (case seen of Exact n \<Rightarrow> n = length ms | AtLeast n \<Rightarrow> True)"
proof (cases "sel_span (selected_rows self)")
  case None
  then have "ms = []" by (simp add: ms_def no_span [OF wf])
  then show ?thesis using None by (simp add: residual_window_def)
next
  case (Some sp)
  obtain xss where xss: "list_all2 (\<lambda>p xs. part_reads fl self xs p) (walk_parts self sp (sat_add offset limit)) xss"
    "concat xss = covered (rc_selection self) (rc_len self)" using walk_parts_read [OF wf Some] by blast
  have "\<exists>ended c'. window_loop fl self (walk_parts self sp (sat_add offset limit)) (cursor_new offset (Some limit)) =
        Some (ended, c') \<and> cur_rows c' = take limit (drop offset ms) \<and> cur_seen c' \<le> length ms \<and>
        (ended \<longrightarrow> cur_seen c' = length ms)"
    using window_loop_matches [OF wf xss(1) cursor_inv_new, of offset "Some limit"] matches_small [OF wf] xss(2)
    by (simp add: ms_def)
  then show ?thesis by (auto simp: residual_window_def Some cursor_finish_def)
qed

end
