(* ===== verification/Pending.thy ===== *)
theory Pending
  imports ResidualCounts
begin

text \<open>
  What the statistics settle of a residual (\<open>ask_statistics\<close> of \<open>core/src/store/scan/residual.rs\<close>)
  and a residual left pending (\<open>core/src/store/view/pending.rs\<close>): its matches, once every one is
  known, are kept, and every count and window is the same whether they are.
\<close>

section \<open>Asking the statistics\<close>

definition whole_bounds :: "column_zones \<Rightarrow> nat list \<Rightarrow> bool" where
  "whole_bounds zs codes \<longleftrightarrow>
     (case column_bounds zs of None \<Rightarrow> True | Some (lo, hi) \<Rightarrow> \<forall>c \<in> set codes. lo \<le> c \<and> c \<le> hi)"

definition wf_memory :: "'k compute_scheme \<Rightarrow> memory_base \<Rightarrow> bool" where
  "wf_memory fl memory \<longleftrightarrow> wf_table fl (mem_table memory) \<and>
     (\<forall>field slot zs col. primary_slot field = Some slot \<longrightarrow> zones_get (mem_zones memory) slot = Some zs \<longrightarrow>
        map_of (tb_columns (mem_table memory)) field = Some col \<longrightarrow>
        (\<exists>codes. col_cells col = map CodeScalar codes \<and> describes zs codes \<and> whole_bounds zs codes))"

definition check_true :: "table \<Rightarrow> equalities \<Rightarrow> zone_check \<Rightarrow> bool" where
  "check_true t eqs check \<longleftrightarrow>
     bit_of check < 32 \<and> row_count (zones_of check) = tb_len t \<and> (\<exists>codes. speaks_for t eqs check codes)"

lemma zone_check_true:
  assumes wf: "wf_memory fl memory" and check: "zone_check_of (mem_zones memory) b field s = Some check"
    and eq: "b < length eqs" "eqs ! b = (field, s)" "wf_eqs (mem_table memory) eqs"
  shows "check_true (mem_table memory) eqs check \<and> bit_of check = b \<and>
    (\<forall>held. (case column_bounds (zones_of check) of None \<Rightarrow> None
        | Some (lo, hi) \<Rightarrow> eq_on_bounds lo hi (code_of check)) = Some held \<longrightarrow>
      (\<forall>row < tb_len (mem_table memory). eq_row (mem_table memory) (field, s) row = held))"
proof -
  let ?t = "mem_table memory"
  obtain code slot zs where c: "b < 32" "unsigned_value s = Some code" "primary_slot field = Some slot"
    "zones_get (mem_zones memory) slot = Some zs" "check = \<lparr> bit_of = b, code_of = code, zones_of = zs \<rparr>"
    using check by (auto simp: zone_check_of_def split: if_splits Option.bind_splits)
  then have s: "s = CodeScalar code" by (cases s) auto
  obtain col where col: "map_of (tb_columns ?t) field = Some col"
    using eq nth_mem [OF eq(1)] by (auto simp: wf_eqs_def)
  then obtain codes where codes: "col_cells col = map CodeScalar codes" "describes zs codes" "whole_bounds zs codes"
    using wf c(3,4) unfolding wf_memory_def by blast
  have len: "length codes = tb_len ?t"
    using map_of_column [of fl ?t field col] wf col codes(1) by (simp add: wf_memory_def wf_column_def)
  have "speaks_for ?t eqs check codes" using eq col codes c(5) s by (simp add: speaks_for_def)
  then have true: "check_true ?t eqs check" using c(1,5) codes(2) len by (auto simp: check_true_def describes_def)
  have "eq_row ?t (field, s) row = held"
    if held: "(case column_bounds zs of None \<Rightarrow> None | Some (lo, hi) \<Rightarrow> eq_on_bounds lo hi code) = Some held"
      and row: "row < tb_len ?t" for held row
  proof -
    obtain lo hi where b: "column_bounds zs = Some (lo, hi)" "eq_on_bounds lo hi code = Some held"
      using held by (auto split: option.splits)
    have "lo \<le> codes ! row" "codes ! row \<le> hi"
      using codes(3) b(1) nth_mem [of row codes] row len by (auto simp: whole_bounds_def)
    then show ?thesis
      using b(2) row len by (auto simp: eq_row_def col codes(1) s eq_on_bounds_def split: if_splits)
  qed
  then show ?thesis using true unfolding c(5) zone_check.simps by blast
qed

lemma check_true_append: "check_true t eqs check \<Longrightarrow> check_true t (eqs @ extra) check"
  by (auto simp: check_true_def speaks_for_def nth_append)

lemma holds_append: "holds t (xs @ ys) row \<longleftrightarrow> holds t xs row \<and> holds t ys row"
  by (simp add: holds_def)

lemma ask_loop_sound:
  assumes wf: "wf_memory fl memory"
  defines "t \<equiv> mem_table memory"
  shows "wf_eqs t (left @ eqs) \<Longrightarrow> \<forall>check \<in> set zoned. check_true t left check \<Longrightarrow>
    (case ask_loop (mem_zones memory) eqs left zoned of
       None \<Rightarrow> \<forall>row < tb_len t. \<not> holds t (left @ eqs) row
     | Some (left', zoned') \<Rightarrow> wf_eqs t left' \<and> (\<forall>check \<in> set zoned'. check_true t left' check) \<and>
         (\<forall>row < tb_len t. holds t (left @ eqs) row = holds t left' row))"
proof (induction eqs arbitrary: left zoned)
  case Nil
  then show ?case by simp
next
  case (Cons e eqs)
  obtain field s where e: "e = (field, s)" by fastforce
  have opened: "?case" if loop: "ask_loop (mem_zones memory) (e # eqs) left zoned =
      ask_loop (mem_zones memory) eqs (left @ [e]) zoned'" and
      zoned: "\<forall>check \<in> set zoned'. check_true t (left @ [e]) check" for zoned'
    using Cons.IH [of "left @ [e]" zoned'] Cons.prems(1) zoned
    by (auto simp: loop split: option.splits)
  show ?case
  proof (cases "zone_check_of (mem_zones memory) (length left) field s")
    case None
    then show ?thesis
      using Cons.prems(2) check_true_append by (intro opened [of zoned]) (auto simp: e)
  next
    case (Some check)
    note check = zone_check_true [OF wf Some, of "left @ e # eqs", folded t_def]
    have at: "length left < length (left @ e # eqs)" "(left @ e # eqs) ! length left = (field, s)"
      by (simp_all add: e)
    define settled where "settled = (case column_bounds (zones_of check) of None \<Rightarrow> None
        | Some (lo, hi) \<Rightarrow> eq_on_bounds lo hi (code_of check))"
    have held: "eq_row t e row = held" if "settled = Some held" "row < tb_len t" for held row
      using check [OF at Cons.prems(1)] that by (auto simp: settled_def e)
    have "wf_eqs t (left @ [e])" using Cons.prems(1) by (auto simp: wf_eqs_def)
    then have here: "check_true t (left @ [e]) check"
      using zone_check_true [OF wf Some, of "left @ [e]", folded t_def] by (simp add: e)
    show ?thesis
    proof (cases settled)
      case None
      then show ?thesis
        using Some here Cons.prems(2) check_true_append
        by (intro opened [of "zoned @ [check]"]) (auto simp: e settled_def)
    next
      case settled: (Some b)
      show ?thesis
      proof (cases b)
        case True
        have "wf_eqs t (left @ eqs)" using Cons.prems(1) by (auto simp: wf_eqs_def)
        moreover have "ask_loop (mem_zones memory) (e # eqs) left zoned = ask_loop (mem_zones memory) eqs left zoned"
          using Some settled True by (simp add: e settled_def)
        moreover have "holds t (left @ e # eqs) row = holds t (left @ eqs) row" if "row < tb_len t" for row
          using held [OF settled that] True by (simp add: holds_def)
        ultimately show ?thesis
          using Cons.IH [of left zoned] Cons.prems(2) by (auto split: option.splits)
      next
        case False
        then show ?thesis
          using Some settled held [OF settled] by (simp add: e settled_def [symmetric] holds_def)
      qed
    qed
  qed
qed

lemma checks_sound:
  assumes "\<forall>check \<in> set cs. check_true t eqs check" "zone_set_new cs (unzoned_bits (length eqs) cs) = Some base"
  shows "sound_zones t eqs (bounds_only base)" "length eqs \<le> 32 \<Longrightarrow> sound_zones t eqs base"
  using assms unfolding sound_zones_def check_true_def by blast+

lemma unasked_classes_sound:
  assumes wf: "wf_memory fl memory" and eqs: "wf_eqs (mem_table memory) eqs"
  shows "sound_classes (mem_table memory) eqs (unasked_classes memory eqs)"
proof -
  let ?f = "\<lambda>(at, (field, s)). zone_check_of (mem_zones memory) at field s"
  have "check_true (mem_table memory) eqs check" if checked: "check \<in> set (List.map_filter ?f (enumerate 0 eqs))" for check
  proof -
    obtain at field s where "(at, (field, s)) \<in> set (enumerate 0 eqs)"
      "zone_check_of (mem_zones memory) at field s = Some check"
      using checked by (auto simp: map_filter_def split: prod.splits)
    then show ?thesis
      using zone_check_true [OF wf, of at field s check eqs] eqs by (auto simp: in_set_enumerate_eq)
  qed
  then show ?thesis
    using checks_sound(1) [of "List.map_filter ?f (enumerate 0 eqs)" "mem_table memory" eqs]
    by (auto simp: unasked_classes_def Let_def map_option_case split: option.split)
qed

lemma asked_right:
  assumes wf: "wf_memory fl memory" and eqs: "wf_eqs (mem_table memory) eqs"
  shows "case ask_statistics memory sel eqs of
      Nothing \<Rightarrow> \<forall>row < tb_len (mem_table memory). \<not> holds (mem_table memory) eqs row
    | Everything \<Rightarrow> \<forall>row < tb_len (mem_table memory). holds (mem_table memory) eqs row
    | Open eqs' classes \<Rightarrow> wf_eqs (mem_table memory) eqs' \<and> sound_classes (mem_table memory) eqs' classes \<and>
        (\<forall>row < tb_len (mem_table memory). holds (mem_table memory) eqs row = holds (mem_table memory) eqs' row)"
proof (cases "ask_loop (mem_zones memory) eqs [] []")
  case None
  then show ?thesis using ask_loop_sound [OF wf, of "[]" eqs "[]"] eqs by (simp add: ask_statistics_def)
next
  case (Some left_zoned)
  obtain left zoned where lz: "left_zoned = (left, zoned)" by fastforce
  let ?t = "mem_table memory"
  have sound: "wf_eqs ?t left" "\<forall>check \<in> set zoned. check_true ?t left check"
    "\<forall>row < tb_len ?t. holds ?t eqs row = holds ?t left row"
    using ask_loop_sound [OF wf, of "[]" eqs "[]"] eqs Some lz by simp_all
  have "sound_classes ?t left classes"
    if "classes_zoned zoned (length left) sel (tb_len ?t) = Some classes" for classes
    using that checks_sound(2) [OF sound(2)] by (auto simp: classes_zoned_def split: option.splits if_splits)
  then show ?thesis
    using sound unasked_classes_sound [OF wf sound(1)] Some lz
    by (auto simp: ask_statistics_def holds_def split: option.split)
qed


section \<open>A residual left pending\<close>

record pending =
  pd_memory :: memory_base
  pd_selection :: row_selection
  pd_eqs :: equalities
  pd_classes :: classes
  pd_ids :: "nat list option"

definition pending_new :: "memory_base \<Rightarrow> row_selection \<Rightarrow> equalities \<Rightarrow> classes \<Rightarrow> pending" where
  "pending_new memory sel eqs cls =
     \<lparr> pd_memory = memory, pd_selection = sel, pd_eqs = eqs, pd_classes = cls, pd_ids = None \<rparr>"

definition pending_compare :: "pending \<Rightarrow> mask option \<Rightarrow> residual" where
  "pending_compare self deleted =
     \<lparr> rc_table = mem_table (pd_memory self), rc_selection = pd_selection self, rc_eqs = pd_eqs self,
       rc_classes = pd_classes self, rc_deleted = deleted \<rparr>"

definition pending_len :: "pending \<Rightarrow> nat" where
  "pending_len self = tb_len (mem_table (pd_memory self))"

definition reaches_every_row :: "pending \<Rightarrow> nat \<Rightarrow> bool" where
  "reaches_every_row self want \<longleftrightarrow>
     (case pd_classes self of
        Pieces _ \<Rightarrow> sel_len (pd_selection self) (pending_len self) \<le> want
      | Zoned _ \<Rightarrow> False)"

text \<open>The matches once they are known, and the compare that keeps them.\<close>

definition materialized :: "'k compute_scheme \<Rightarrow> pending \<Rightarrow> (nat list \<times> pending) option" where
  "materialized fl self =
     (case pd_ids self of
        Some ids \<Rightarrow> Some (ids, self)
      | None \<Rightarrow>
          do {
            matched \<leftarrow> residual_rows fl (pending_compare self None);
            let ids = (case as_rows matched (pending_len self) of Run start stop \<Rightarrow> [start..<stop] | RunIds ids \<Rightarrow> ids);
            Some (ids, self \<lparr> pd_ids := Some ids \<rparr>)
          })"

definition count_live :: "nat list \<Rightarrow> mask option \<Rightarrow> nat option" where
  "count_live ids deleted =
     (case deleted of
        None \<Rightarrow> Some (length ids)
      | Some d \<Rightarrow> map_option length (checked_filter (\<lambda>i. map_option Not (mask_value d i)) ids))"

definition pending_live_ids :: "nat list \<Rightarrow> mask option \<Rightarrow> nat list option" where
  "pending_live_ids ids deleted =
     (case deleted of
        None \<Rightarrow> Some ids
      | Some d \<Rightarrow> checked_filter (\<lambda>i. map_option Not (mask_value d i)) ids)"

definition window_rows :: "nat \<Rightarrow> nat \<Rightarrow> nat \<Rightarrow> (nat \<times> nat) option" where
  "window_rows offset limit width =
     (let start = min offset width; stop = min (sat_add offset limit) width
      in if start < stop then Some (start, stop) else None)"

fun is_zoned :: "classes \<Rightarrow> bool" where
  "is_zoned (Zoned zs) = True"
| "is_zoned (Pieces bnds) = False"

definition pending_count :: "'k compute_scheme \<Rightarrow> pending \<Rightarrow> mask option \<Rightarrow> (nat \<times> pending) option" where
  "pending_count fl self deleted =
     (if pd_ids self = None \<and> is_zoned (pd_classes self)
      then map_option (\<lambda>n. (n, self)) (residual_count fl (pending_compare self deleted) None)
      else do {
        (ids, self) \<leftarrow> materialized fl self;
        n \<leftarrow> count_live ids deleted;
        Some (n, self)
      })"

definition len_if_known :: "pending \<Rightarrow> nat option" where
  "len_if_known self = map_option length (pd_ids self)"

definition count_capped :: "'k compute_scheme \<Rightarrow> pending \<Rightarrow> nat \<Rightarrow> mask option \<Rightarrow> (nat \<times> pending) option" where
  "count_capped fl self limit deleted =
     (if pd_ids self = None \<and> \<not> reaches_every_row self limit
      then map_option (\<lambda>n. (min n limit, self)) (residual_count fl (pending_compare self deleted) (Some limit))
      else do {
        (ids, self) \<leftarrow> materialized fl self;
        n \<leftarrow> count_live ids deleted;
        Some (min n limit, self)
      })"

definition pending_window ::
    "'k compute_scheme \<Rightarrow> pending \<Rightarrow> nat \<Rightarrow> nat \<Rightarrow> mask option \<Rightarrow> ((nat list \<times> Pieces.live) \<times> pending) option" where
  "pending_window fl self offset limit deleted =
     (if pd_ids self = None \<and> \<not> reaches_every_row self (sat_add offset limit)
      then map_option (\<lambda>w. (w, self)) (residual_window fl (pending_compare self deleted) offset limit)
      else do {
        (ids, self) \<leftarrow> materialized fl self;
        live \<leftarrow> pending_live_ids ids deleted;
        let (start, stop) = (case window_rows offset limit (length live) of None \<Rightarrow> (0, 0) | Some rows \<Rightarrow> rows);
        rows \<leftarrow> buf_slice live start stop;
        Some ((rows, Exact (length live)), self)
      })"

text \<open>What is true of a pending compare at every moment: its classes speak for its equalities, and
  the matches it keeps, if any, are all of them.\<close>

definition pending_matches :: "pending \<Rightarrow> nat list" where
  "pending_matches self =
     filter (holds (mem_table (pd_memory self)) (pd_eqs self)) (covered (pd_selection self) (pending_len self))"

definition wf_pending :: "'k compute_scheme \<Rightarrow> pending \<Rightarrow> bool" where
  "wf_pending fl self \<longleftrightarrow> wf_residual fl (pending_compare self None) \<and>
     (pd_ids self = None \<or> pd_ids self = Some (pending_matches self))"

lemma pending_residual:
  assumes "wf_pending fl self" "wf_deleted (pending_len self) deleted"
  shows "wf_residual fl (pending_compare self deleted)"
    and "matches_of (pending_compare self deleted)
      (covered (rc_selection (pending_compare self deleted)) (rc_len (pending_compare self deleted))) =
        live_of deleted (pending_matches self)"
  using assms
  by (simp_all add: wf_pending_def wf_residual_def pending_compare_def pending_len_def rc_len_def
      matches_of_def passes_def [abs_def] pending_matches_def)

lemma materialized_matches:
  assumes wf: "wf_pending fl self"
  shows "\<exists>self'. materialized fl self = Some (pending_matches self, self') \<and> wf_pending fl self' \<and>
    self' = self \<lparr> pd_ids := Some (pending_matches self) \<rparr>"
proof (cases "pd_ids self")
  case (Some ids)
  then have "self = self \<lparr> pd_ids := Some (pending_matches self) \<rparr>"
    using wf by (simp add: wf_pending_def)
  then show ?thesis using Some wf by (auto simp: materialized_def wf_pending_def)
next
  case None
  let ?rc = "pending_compare self None"
  have "narrows (rc_len ?rc) (rc_selection ?rc) (passes ?rc) (residual_rows fl ?rc)"
    by (rule residual_rows_narrows) (use wf in \<open>simp add: wf_pending_def\<close>)
  then obtain matched where m: "residual_rows fl ?rc = Some matched"
    "covered matched (pending_len self) = pending_matches self"
    by (auto simp: narrows_def pending_matches_def passes_def [abs_def] pending_compare_def rc_len_def pending_len_def)
  have "(case as_rows matched (pending_len self) of Run start stop \<Rightarrow> [start..<stop] | RunIds ids \<Rightarrow> ids) =
      pending_matches self"
    using m(2) by (cases "as_rows matched (pending_len self)") (simp_all add: covered_def)
  then show ?thesis
    using m(1) None wf
    by (simp add: materialized_def Let_def)
      (simp add: wf_pending_def pending_compare_def pending_matches_def pending_len_def)
qed

lemma pending_live:
  assumes wf: "wf_pending fl self" and d: "wf_deleted (pending_len self) deleted"
  shows "pending_live_ids (pending_matches self) deleted = Some (live_of deleted (pending_matches self))"
    and "count_live (pending_matches self) deleted = Some (length (live_of deleted (pending_matches self)))"
proof -
  have sel: "wf_selection (pending_len self) (pd_selection self)"
    using wf by (simp add: wf_pending_def wf_residual_def pending_compare_def rc_len_def pending_len_def)
  have "checked_filter (\<lambda>i. map_option Not (mask_value dead i)) (pending_matches self) =
      Some (filter (\<lambda>i. \<not> dead ! i) (pending_matches self))" if "deleted = Some dead" for dead
    using d that covered_bound [OF sel]
    by (intro checked_filter_Some) (simp add: mask_value_Some pending_matches_def)
  then show "pending_live_ids (pending_matches self) deleted = Some (live_of deleted (pending_matches self))"
    "count_live (pending_matches self) deleted = Some (length (live_of deleted (pending_matches self)))"
    by (cases deleted; simp add: pending_live_ids_def count_live_def live_of_def)+
qed

lemma window_rows_slice:
  assumes "length xs \<le> u64_max"
  shows "(let (start, stop) = (case window_rows offset limit (length xs) of None \<Rightarrow> (0, 0) | Some rows \<Rightarrow> rows)
      in buf_slice xs start stop) = Some (take limit (drop offset xs))"
proof -
  have stop: "min (sat_add offset limit) (length xs) = min (offset + limit) (length xs)"
    by (rule min_sat_add [OF assms])
  show ?thesis
  proof (cases "min offset (length xs) < min (offset + limit) (length xs)")
    case True
    then have off: "min offset (length xs) = offset" by (simp add: min_def split: if_splits)
    have "take (min (offset + limit) (length xs) - offset) (drop offset xs) = take limit (drop offset xs)"
      by (cases "offset + limit \<le> length xs") (simp_all add: min_def)
    then show ?thesis using True unfolding window_rows_def stop off by (simp add: Let_def buf_slice_Some)
  next
    case False
    then have "take limit (drop offset xs) = []" by (auto simp: min_def split: if_splits)
    then show ?thesis
      unfolding window_rows_def stop Let_def if_not_P [OF False] by (simp add: buf_slice_def)
  qed
qed

lemma pending_answers_lemma:
  assumes wf: "wf_pending fl self" and d: "wf_deleted (pending_len self) deleted"
  defines "ms \<equiv> live_of deleted (pending_matches self)"
  shows "\<exists>self'. pending_count fl self deleted = Some (length ms, self') \<and> wf_pending fl self' \<and>
      pending_matches self' = pending_matches self"
    and "\<exists>self'. count_capped fl self limit deleted = Some (min (length ms) limit, self') \<and> wf_pending fl self' \<and>
      pending_matches self' = pending_matches self"
    and "\<exists>self' seen. pending_window fl self offset limit deleted = Some ((take limit (drop offset ms), seen), self') \<and>
      at_least seen \<le> length ms \<and> (case seen of Exact n \<Rightarrow> n = length ms | AtLeast n \<Rightarrow> True) \<and>
      wf_pending fl self' \<and> pending_matches self' = pending_matches self"
proof -
  note rc = pending_residual [OF wf d] and live = pending_live [OF wf d]
  obtain self' where kept: "materialized fl self = Some (pending_matches self, self')" "wf_pending fl self'"
    "pending_matches self' = pending_matches self"
    using materialized_matches [OF wf] by (auto simp: pending_matches_def pending_len_def)
  show "\<exists>self'. pending_count fl self deleted = Some (length ms, self') \<and> wf_pending fl self' \<and>
      pending_matches self' = pending_matches self"
    using residual_count_matches(1) [OF rc(1)] kept live(2) wf by (auto simp: pending_count_def rc(2) ms_def)
  obtain m where "residual_count fl (pending_compare self deleted) (Some limit) = Some m"
    "m \<le> length ms" "limit \<le> m \<or> m = length ms"
    using residual_count_matches(2) [OF rc(1), of limit] unfolding rc(2) ms_def by blast
  then show "\<exists>self'. count_capped fl self limit deleted = Some (min (length ms) limit, self') \<and> wf_pending fl self' \<and>
      pending_matches self' = pending_matches self"
    using kept live(2) wf by (auto simp: count_capped_def ms_def)
  have small: "length ms \<le> u64_max" using matches_small [OF rc(1)] unfolding rc(2) ms_def .
  have slice: "do {
        let (start, stop) = (case window_rows offset limit (length ms) of None \<Rightarrow> (0, 0) | Some rows \<Rightarrow> rows);
        rows \<leftarrow> buf_slice ms start stop;
        Some ((rows, Exact (length ms)), self')
      } = Some ((take limit (drop offset ms), Exact (length ms)), self')"
    using window_rows_slice [OF small, of offset limit] by (simp add: Let_def case_prod_unfold)
  have window: "\<exists>seen. residual_window fl (pending_compare self deleted) offset limit =
      Some (take limit (drop offset ms), seen) \<and> at_least seen \<le> length ms \<and>
      (case seen of Exact n \<Rightarrow> n = length ms | AtLeast n \<Rightarrow> True)"
    using residual_window_matches [OF rc(1), of offset limit] unfolding rc(2) ms_def .
  show "\<exists>self' seen. pending_window fl self offset limit deleted = Some ((take limit (drop offset ms), seen), self') \<and>
      at_least seen \<le> length ms \<and> (case seen of Exact n \<Rightarrow> n = length ms | AtLeast n \<Rightarrow> True) \<and>
      wf_pending fl self' \<and> pending_matches self' = pending_matches self"
  proof (cases "pd_ids self = None \<and> \<not> reaches_every_row self (sat_add offset limit)")
    case True
    then show ?thesis using window wf by (auto simp: pending_window_def)
  next
    case False
    have "pending_window fl self offset limit deleted = Some ((take limit (drop offset ms), Exact (length ms)), self')"
      unfolding pending_window_def if_not_P [OF False] using slice kept(1) live(1)
      by (simp add: ms_def [symmetric])
    then show ?thesis using kept(2,3) by auto
  qed
qed


section \<open>A base to try them on\<close>

definition sample_map :: column_zones where
  "sample_map = \<lparr> mins = [10, 15, 30], maxes = [10, 20, 30], bounds = Some (10, 30),
     recorded = None, zone_len = 2, row_count = 6 \<rparr>"

definition sample_memory :: memory_base where
  "sample_memory = \<lparr> mem_table = sample_table, mem_zones = [Some sample_map, None, None, None] \<rparr>"

lemma sample_map_describes: "describes sample_map [10, 10, 15, 20, 30, 30]"
proof -
  have codes: "zone_codes sample_map [10, 10, 15, 20, 30, 30] 0 = [10, 10]"
    "zone_codes sample_map [10, 10, 15, 20, 30, 30] 1 = [15, 20]"
    "zone_codes sample_map [10, 10, 15, 20, 30, 30] 2 = [30, 30]"
    by code_simp+
  have zone: "zone < 3 \<Longrightarrow> zone = 0 \<or> zone = 1 \<or> zone = 2" for zone :: nat by linarith
  have n: "zone_count sample_map = 3" by code_simp
  have zones: "exact_zone sample_map [10, 10, 15, 20, 30, 30] zone" if "zone < 3" for zone
    using zone [OF that] codes by (auto simp: exact_zone_def) (simp_all add: sample_map_def)
  show ?thesis
    unfolding describes_def n using zones
    by (simp add: geometry_def n exact_record_def) (simp add: sample_map_def div_ceil_def)
qed

lemma sample_memory_wf: "wf_memory plain_compute sample_memory"
proof -
  have zoned: "slot = 0 \<and> zs = sample_map" if "zones_get (mem_zones sample_memory) slot = Some zs" for slot zs
  proof -
    have zones: "mem_zones sample_memory = [Some sample_map, None, None, None]" by (simp add: sample_memory_def)
    have "slot < 4" using that by (auto simp: zones zones_get_def buf_get_def split: if_splits)
    then consider "slot = 0" | "slot = 1" | "slot = 2" | "slot = 3" by linarith
    then show ?thesis using that by cases (auto simp: zones zones_get_def buf_get_def)
  qed
  have slot: "field = ''s''" if "primary_slot field = Some 0" for field
    using that by (simp add: primary_slot_def split: if_splits)
  have "col_cells sample_codes = map CodeScalar [10, 10, 15, 20, 30, 30]" by (simp add: sample_codes_def)
  moreover have "whole_bounds sample_map [10, 10, 15, 20, 30, 30]"
    by (simp add: whole_bounds_def column_bounds_def sample_map_def)
  ultimately have codes: "\<exists>codes. col_cells sample_codes = map CodeScalar codes \<and> describes sample_map codes \<and>
      whole_bounds sample_map codes"
    using sample_map_describes by blast
  show ?thesis
    unfolding wf_memory_def
  proof (intro conjI allI impI)
    show "wf_table plain_compute (mem_table sample_memory)" by (simp add: sample_memory_def sample_table_wf)
    fix field slot zs col
    assume "primary_slot field = Some slot" "zones_get (mem_zones sample_memory) slot = Some zs"
      "map_of (tb_columns (mem_table sample_memory)) field = Some col"
    then have "zs = sample_map" "col = sample_codes"
      using zoned slot by (auto simp: sample_memory_def)
    then show "\<exists>codes. col_cells col = map CodeScalar codes \<and> describes zs codes \<and> whole_bounds zs codes"
      using codes by simp
  qed
qed

text \<open>The zones settle \<open>s = 30\<close> of the last two rows, and the text is compared.\<close>

definition sample_eqs :: equalities where
  "sample_eqs = [(''s'', CodeScalar 30), (''o'', TextScalar ''a'')]"

definition sample_set :: zone_set where
  "sample_set = \<lparr> checks = [\<lparr> bit_of = 0, code_of = 30, zones_of = sample_map \<rparr>], unzoned = 2, only_bounds = False \<rparr>"

definition sample_residual :: "mask option \<Rightarrow> residual" where
  "sample_residual deleted = \<lparr> rc_table = sample_table, rc_selection = RowRange 1 6, rc_eqs = sample_eqs,
     rc_classes = Zoned sample_set, rc_deleted = deleted \<rparr>"

lemma sample_asked: "ask_statistics sample_memory (RowRange 1 6) sample_eqs = Open sample_eqs (Zoned sample_set)"
proof -
  have check: "zone_check_of [Some sample_map, None, None, None] 0 ''s'' (CodeScalar 30) =
      Some \<lparr> bit_of = 0, code_of = 30, zones_of = sample_map \<rparr>"
    by (simp add: zone_check_of_def primary_slot_def zones_get_def buf_get_def)
  have none: "zone_check_of [Some sample_map, None, None, None] b ''o'' (TextScalar ''a'') = None" for b
    by (simp add: zone_check_of_def)
  have bnds: "column_bounds sample_map = Some (10, 30)" by (simp add: column_bounds_def sample_map_def)
  have bits: "unzoned_bits 2 [\<lparr> bit_of = 0, code_of = 30, zones_of = sample_map \<rparr>] = 2"
    by (simp add: unzoned_bits_def every_eq_def)
  show ?thesis
    by (simp add: ask_statistics_def sample_memory_def sample_eqs_def check none bnds eq_on_bounds_def
        classes_zoned_def zone_set_new_def sample_set_def sel_span_def clamped_def bits [unfolded numeral_2_eq_2])
qed

lemma sample_residual_wf:
  assumes "wf_deleted 6 deleted"
  shows "wf_residual plain_compute (sample_residual deleted)"
proof -
  have "sound_classes sample_table sample_eqs (Zoned sample_set)"
    using asked_right [OF sample_memory_wf, of sample_eqs "RowRange 1 6"] sample_eqs_wf(1)
    unfolding sample_asked by (simp add: sample_memory_def sample_eqs_def [symmetric])
  then show ?thesis
    using assms sample_eqs_wf(1) plain_compute_lawful sample_table_wf
    by (simp add: wf_residual_def sample_residual_def rc_len_def) (simp add: sample_eqs_def)
qed

lemma sample_passes: "passes (sample_residual deleted) row = (row = 5)" if "1 \<le> row" "row < 6"
  using that
  by (auto simp: passes_def sample_residual_def sample_eqs_def holds_def eq_row_def sample_codes_def sample_texts_def
      numeral_eq_Suc less_Suc_eq)

lemma sample_found: "filter (passes (sample_residual deleted)) [1..<6] = [5]"
  by (simp add: upt_rec sample_passes cong: filter_cong)


section \<open>The properties\<close>

text \<open>C26. What the statistics say of a residual is true of every row of the base: no row passes, every
  row does, or the equalities they leave open decide, by classes that speak for them.\<close>

theorem ask_statistics_sound:
  assumes "wf_memory fl memory" "wf_eqs (mem_table memory) eqs"
  shows "case ask_statistics memory sel eqs of
      Nothing \<Rightarrow> \<forall>row < tb_len (mem_table memory). \<not> holds (mem_table memory) eqs row
    | Everything \<Rightarrow> \<forall>row < tb_len (mem_table memory). holds (mem_table memory) eqs row
    | Open eqs' classes \<Rightarrow> wf_eqs (mem_table memory) eqs' \<and> sound_classes (mem_table memory) eqs' classes \<and>
        (\<forall>row < tb_len (mem_table memory). holds (mem_table memory) eqs row = holds (mem_table memory) eqs' row)"
  by (rule asked_right [OF assms])

theorem ask_statistics_sound_witness:
  "sound_classes sample_table sample_eqs (Zoned sample_set)"
  using ask_statistics_sound [OF sample_memory_wf, of sample_eqs "RowRange 1 6"] sample_eqs_wf(1)
  unfolding sample_asked by (simp add: sample_memory_def sample_eqs_def [symmetric])





text \<open>A residual left pending answers every count, capped count and window of its live matches the
  same whether its matches are kept yet or not, without a panic, and whatever an answer computes and
  keeps, the pending compare stays right.\<close>

theorem pending_answers:
  assumes "wf_pending fl self" "wf_deleted (pending_len self) deleted"
  shows "(\<exists>self'. pending_count fl self deleted =
        Some (length (live_of deleted (pending_matches self)), self') \<and>
      wf_pending fl self' \<and> pending_matches self' = pending_matches self) \<and>
    (\<exists>self'. count_capped fl self limit deleted =
        Some (min (length (live_of deleted (pending_matches self))) limit, self') \<and>
      wf_pending fl self' \<and> pending_matches self' = pending_matches self) \<and>
    (\<exists>self' seen. pending_window fl self offset limit deleted =
        Some ((take limit (drop offset (live_of deleted (pending_matches self))), seen), self') \<and>
      at_least seen \<le> length (live_of deleted (pending_matches self)) \<and>
      (case seen of Exact n \<Rightarrow> n = length (live_of deleted (pending_matches self)) | AtLeast n \<Rightarrow> True) \<and>
      wf_pending fl self' \<and> pending_matches self' = pending_matches self)"
  using pending_answers_lemma [OF assms] by blast

theorem pending_answers_witness:
  "\<exists>self'. count_capped plain_compute (pending_new sample_memory (RowRange 1 6) sample_eqs (Zoned sample_set)) 4 None =
     Some (1, self')"
proof -
  let ?pd = "pending_new sample_memory (RowRange 1 6) sample_eqs (Zoned sample_set)"
  have same: "pending_compare ?pd None = sample_residual None"
    by (simp add: pending_compare_def pending_new_def sample_residual_def sample_memory_def)
  have "wf_pending plain_compute ?pd"
    unfolding wf_pending_def same using sample_residual_wf [of None] by (simp add: pending_new_def)
  moreover have "pending_matches ?pd = [5]"
  proof -
    have "filter (holds sample_table sample_eqs) [1..<6] = [5]"
      using sample_found [of None] by (simp add: passes_def [abs_def] sample_residual_def)
    then show ?thesis
      by (simp add: pending_matches_def pending_len_def pending_new_def sample_memory_def covered_def clamped_def)
  qed
  ultimately show ?thesis using pending_answers [of plain_compute ?pd None 4] by auto
qed

end
