(* ===== verification/Terms.thy ===== *)
theory Terms
  imports Prelude "HOL-Library.Word"
begin

text \<open>
  RDF terms and their N-Triples spellings: the parsers of \<open>src/core/src/common/terms.rs\<close> and the
  quads of \<open>src/core/src/common/quad.rs\<close>. A string is the list of its UTF-8 bytes. The RDF library
  is a parameter, the record \<open>oxrdf\<close>: its validating constructors, its literals with what they
  answer, and how it prints one.
\<close>

unbundle bit_operations_syntax

section \<open>Strings\<close>

abbreviation quote :: char where
  "quote \<equiv> CHR 0x22"

abbreviation backslash :: char where
  "backslash \<equiv> CHR 0x5C"

text \<open>The string methods of the standard library the parsers use: \<open>position\<close>, \<open>starts_with\<close>,
  \<open>trim_matches\<close>, \<open>trim_start_matches\<close> (which strips its pattern as often as it leads), the ASCII
  lower case, the digits of base 16 and the UTF-8 bytes of a scalar value.\<close>

definition position :: "('a \<Rightarrow> bool) \<Rightarrow> 'a list \<Rightarrow> nat option" where
  "position p xs = find (\<lambda>i. p (xs ! i)) [0..<length xs]"

definition starts_with :: "string \<Rightarrow> string \<Rightarrow> bool" where
  "starts_with s p \<longleftrightarrow> take (length p) s = p"

definition trim_matches :: "(char \<Rightarrow> bool) \<Rightarrow> string \<Rightarrow> string" where
  "trim_matches p s = rev (dropWhile p (rev (dropWhile p s)))"

function trim_start_matches :: "string \<Rightarrow> string \<Rightarrow> string" where
  "trim_start_matches p s =
     (if p \<noteq> [] \<and> s \<noteq> [] \<and> starts_with s p then trim_start_matches p (drop (length p) s) else s)"
  by pat_completeness auto
termination
  by (relation "measure (\<lambda>(p, s). length s)") auto

declare trim_start_matches.simps [simp del]

definition ascii_lower :: "char \<Rightarrow> char" where
  "ascii_lower c =
     (let n = (of_char c :: nat) in if 65 \<le> n \<and> n \<le> 90 then char_of (n + 32) else c)"

definition to_digit16 :: "char \<Rightarrow> nat option" where
  "to_digit16 c =
     (let n = (of_char c :: nat)
      in if 48 \<le> n \<and> n \<le> 57 then Some (n - 48)
         else if 97 \<le> n \<and> n \<le> 102 then Some (n - 87)
         else if 65 \<le> n \<and> n \<le> 70 then Some (n - 55)
         else None)"

definition scalar_value :: "nat \<Rightarrow> bool" where
  "scalar_value n \<longleftrightarrow> n < 0xD800 \<or> 0xDFFF < n \<and> n \<le> 0x10FFFF"

definition utf8 :: "nat \<Rightarrow> string" where
  "utf8 n =
     map char_of
       (if n < 0x80 then [n]
        else if n < 0x800 then [0xC0 + n div 64, 0x80 + n mod 64]
        else if n < 0x10000 then [0xE0 + n div 4096, 0x80 + n div 64 mod 64, 0x80 + n mod 64]
        else [0xF0 + n div 262144, 0x80 + n div 4096 mod 64, 0x80 + n div 64 mod 64,
              0x80 + n mod 64])"

section \<open>Errors\<close>

text \<open>The errors the parsers report: \<open>InvalidInput\<close> with what it names (the position, what was
  invalid, its spelling) and \<open>Deserialization\<close>.\<close>

datatype rdf_error =
    Serialization "string list" | Deserialization "string list" | InvalidOperation "string list"
  | InvalidInput "string list"

type_synonym 'a fallible = "rdf_error + 'a"

definition and_then :: "'a fallible \<Rightarrow> ('a \<Rightarrow> 'b fallible) \<Rightarrow> 'b fallible" where
  "and_then r f = (case r of Inl e \<Rightarrow> Inl e | Inr x \<Rightarrow> f x)"

definition map_ok :: "('a \<Rightarrow> 'b) \<Rightarrow> 'a fallible \<Rightarrow> 'b fallible" where
  "map_ok f r = and_then r (\<lambda>x. Inr (f x))"

definition at_place :: "string \<Rightarrow> 'a fallible \<Rightarrow> 'a fallible" where
  "at_place place parsed =
     (case parsed of
        Inl (InvalidInput message) \<Rightarrow> Inl (InvalidInput (place # message))
      | other \<Rightarrow> other)"

named_theorems ok_simps \<open>steps of a parse whose parts are known to succeed\<close>

lemma and_then_Inr [simp, ok_simps]: "and_then (Inr x) f = f x"
  by (simp add: and_then_def)

lemma and_then_Inl [simp]: "and_then (Inl e) f = Inl e"
  by (simp add: and_then_def)

lemma and_then_Inr_iff: "and_then r f = Inr y \<longleftrightarrow> (\<exists>x. r = Inr x \<and> f x = Inr y)"
  by (cases r) auto

lemma map_ok_Inr [simp, ok_simps]: "map_ok f (Inr x) = Inr (f x)"
  by (simp add: map_ok_def)

lemma map_ok_Inr_iff: "map_ok f r = Inr y \<longleftrightarrow> (\<exists>x. r = Inr x \<and> y = f x)"
  by (auto simp: map_ok_def and_then_Inr_iff)

lemma at_place_Inr_iff [simp]: "at_place place r = Inr y \<longleftrightarrow> r = Inr y"
  by (cases r) (auto simp: at_place_def split: rdf_error.splits)

section \<open>The closing quote of a literal\<close>

text \<open>\<open>find_quote\<close> reads eight bytes at a time: a word that holds a quote has a zero byte once
  eight quotes are XORed in, and the lowest byte the zero-byte test flags is a real one.\<close>

definition le_word :: "string \<Rightarrow> 64 word" where
  "le_word bytes = horner_sum of_char 256 bytes"

definition ONES :: "64 word" where
  "ONES = 0x0101010101010101"

definition HIGHS :: "64 word" where
  "HIGHS = 0x8080808080808080"

definition QUOTES :: "64 word" where
  "QUOTES = 0x2222222222222222"

definition ctz :: "64 word \<Rightarrow> nat" where
  "ctz w = length (takeWhile (\<lambda>i. \<not> bit w i) [0..<64])"

definition zero_bytes :: "string \<Rightarrow> 64 word" where
  "zero_bytes bytes = (let x = le_word bytes XOR QUOTES in (x - ONES) AND (NOT x) AND HIGHS)"

definition as_chunks8 :: "string \<Rightarrow> string list \<times> string" where
  "as_chunks8 b =
     (map (\<lambda>i. take 8 (drop (i * 8) b)) [0..<length b div 8], drop (length b div 8 * 8) b)"

fun find_word :: "nat \<Rightarrow> string list \<Rightarrow> nat option" where
  "find_word i [] = None"
| "find_word i (w # words) =
     (let zeros = zero_bytes w
      in if zeros \<noteq> 0 then Some (i * 8 + ctz zeros div 8) else find_word (Suc i) words)"

definition find_quote :: "string \<Rightarrow> nat option" where
  "find_quote b =
     (case as_chunks8 b of
        (words, tail) \<Rightarrow>
          (case find_word 0 words of
             Some i \<Rightarrow> Some i
           | None \<Rightarrow>
               let at = length words * 8
               in map_option (\<lambda>i. at + i) (position (\<lambda>c. c = quote) tail)))"

subsection \<open>The zero-byte test\<close>

text \<open>A byte below a word of higher bytes: its bits are the low ones.\<close>

lemma bit_low_high:
  assumes "0 \<le> r" "r < 256"
  shows "bit (r + 256 * q :: int) j \<longleftrightarrow> (if j < 8 then bit r j else bit q (j - 8))"
proof -
  have r: "take_bit 8 r = r"
    using assms by (simp add: take_bit_int_eq_self_iff)
  have "r + 256 * q = concat_bit 8 r q"
    by (simp add: concat_bit_eq r push_bit_eq_mult)
  then show ?thesis by (simp add: bit_concat_bit_iff)
qed

definition bytes_int :: "int list \<Rightarrow> int" where
  "bytes_int bs = horner_sum id 256 bs"

lemma bytes_int_simps [simp]: "bytes_int [] = 0" "bytes_int (b # bs) = b + 256 * bytes_int bs"
  by (simp_all add: bytes_int_def)

lemma bit_128: "bit (128 :: int) j \<longleftrightarrow> j = 7"
  using bit_push_bit_iff_int [of 7 1 j] by (auto simp: push_bit_eq_mult bit_1_iff)

lemma bit_7: "0 \<le> b \<Longrightarrow> b < 256 \<Longrightarrow> bit (b :: int) 7 \<longleftrightarrow> 128 \<le> b"
proof -
  assume "0 \<le> b" "b < 256"
  then have "b div 128 = (if 128 \<le> b then 1 else 0)" by auto
  then show ?thesis by (simp add: bit_iff_odd)
qed

text \<open>The test of one low byte: a zero byte flags its top bit and no bit below it, any other byte
  flags nothing and borrows nothing from the bytes above.\<close>

lemma low_byte_test:
  assumes "0 < b" "b < 256" "j < 8"
  shows "\<not> (bit (b - 1 :: int) j \<and> \<not> bit b j \<and> bit (128 :: int) j)"
proof
  assume *: "bit (b - 1) j \<and> \<not> bit b j \<and> bit (128 :: int) j"
  then have j: "j = 7" by (simp add: bit_128)
  have "bit (b - 1) 7 \<longleftrightarrow> 128 \<le> b - 1" "bit b 7 \<longleftrightarrow> 128 \<le> b"
    using assms by (simp_all add: bit_7)
  then show False using * j by auto
qed

definition flags :: "int list \<Rightarrow> nat \<Rightarrow> bool" where
  "flags bs j \<longleftrightarrow>
     bit (bytes_int bs - bytes_int (replicate (length bs) 1)) j \<and> \<not> bit (bytes_int bs) j \<and>
     bit (bytes_int (replicate (length bs) 128)) j"

lemma bit_bytes_high: "\<forall>b \<in> set bs. 0 \<le> b \<and> b < 256 \<Longrightarrow> bit (bytes_int bs) j \<Longrightarrow> j < 8 * length bs"
proof (induction bs arbitrary: j)
  case (Cons b bs)
  have "bit (b + 256 * bytes_int bs) j \<longleftrightarrow> (if j < 8 then bit b j else bit (bytes_int bs) (j - 8))"
    using Cons.prems by (intro bit_low_high) auto
  then show ?case using Cons.IH [of "j - 8"] Cons.prems by (auto split: if_splits)
qed simp

lemma flags_step:
  assumes "(b :: int) - 1 = r + 256 * c" "0 \<le> r" "r < 256" "0 \<le> b" "b < 256"
  shows "flags (b # bs) j \<longleftrightarrow>
    (if j < 8 then bit r j \<and> \<not> bit b j \<and> bit (128 :: int) j
     else bit (bytes_int bs - bytes_int (replicate (length bs) 1) + c) (j - 8) \<and>
          \<not> bit (bytes_int bs) (j - 8) \<and> bit (bytes_int (replicate (length bs) 128)) (j - 8))"
proof -
  let ?X = "bytes_int bs" and ?O = "bytes_int (replicate (length bs) 1)"
    and ?H = "bytes_int (replicate (length bs) 128)"
  have "(b + 256 * ?X) - (1 + 256 * ?O) = r + 256 * (?X - ?O + c)"
    using assms(1) by (simp add: algebra_simps)
  then have "flags (b # bs) j \<longleftrightarrow>
      bit (r + 256 * (?X - ?O + c)) j \<and> \<not> bit (b + 256 * ?X) j \<and> bit (128 + 256 * ?H) j"
    by (simp only: flags_def bytes_int_simps list.size(4) replicate_Suc add_Suc_right add_0_right)
  then show ?thesis
    using bit_low_high [OF assms(2,3), of "?X - ?O + c" j] bit_low_high [OF assms(4,5), of ?X j]
      bit_low_high [of 128 ?H j] by auto
qed

lemma flags_Cons:
  assumes b: "0 < b" "b < 256"
  shows "flags (b # bs) j \<longleftrightarrow> 8 \<le> j \<and> flags bs (j - 8)"
  using flags_step [of b "b - 1" 0 bs j] low_byte_test [OF b, of j] b by (auto simp: flags_def)

lemma flags_zero:
  assumes "j < 8"
  shows "flags (0 # bs) j \<longleftrightarrow> j = 7"
proof -
  have "bit (255 :: int) 7" by (simp add: bit_iff_odd)
  then show ?thesis
    using flags_step [of 0 255 "-1" bs j] assms by (auto simp: bit_128 simp del: bit_simps)
qed

lemma flags_first:
  assumes "\<forall>b \<in> set bs. 0 \<le> b \<and> b < 256" "i < length bs" "bs ! i = 0" "\<forall>k < i. bs ! k \<noteq> 0"
  shows "flags bs (7 + 8 * i) \<and> (\<forall>j < 7 + 8 * i. \<not> flags bs j)"
  using assms
proof (induction bs arbitrary: i)
  case (Cons b bs)
  show ?case
  proof (cases i)
    case 0
    then have "b = 0" using Cons.prems by simp
    then show ?thesis using 0 by (auto simp: flags_zero)
  next
    case (Suc k)
    have "bs ! l \<noteq> 0" if "l < k" for l
      using Cons.prems(4) Suc that by (metis Suc_less_eq nth_Cons_Suc)
    then have IH: "flags bs (7 + 8 * k) \<and> (\<forall>j < 7 + 8 * k. \<not> flags bs j)"
      using Cons.IH [of k] Cons.prems Suc by auto
    have b: "0 < b" "b < 256"
      using Cons.prems Suc by (force simp: le_less)+
    show ?thesis using IH Suc by (auto simp: flags_Cons [OF b])
  qed
qed simp

lemma flags_none:
  assumes "\<forall>b \<in> set bs. 0 < b \<and> b < 256"
  shows "\<not> flags bs j"
  using assms by (induction bs arbitrary: j) (auto simp: flags_Cons, simp add: flags_def)

subsection \<open>Words of quotes\<close>

definition byte_of :: "char \<Rightarrow> int" where
  "byte_of c = of_char c"

lemma byte_of_range: "0 \<le> byte_of c" "byte_of c < 256"
  unfolding byte_of_def by (cases c, simp add: of_char_def horner_sum_simps)+

lemma le_word_int: "le_word bytes = word_of_int (bytes_int (map byte_of bytes))"
proof (induction bytes)
  case Nil
  then show ?case by (simp add: le_word_def)
next
  case (Cons c cs)
  have "(of_char c :: 64 word) = word_of_int (byte_of c)"
    unfolding byte_of_def by (cases c) (simp add: of_char_def horner_sum_simps)
  then show ?case using Cons.IH by (simp add: le_word_def)
qed

lemma bytes_int_xor:
  assumes "length bs = length cs" "\<forall>b \<in> set bs. 0 \<le> b \<and> b < 256" "\<forall>c \<in> set cs. 0 \<le> c \<and> c < 256"
  shows "bytes_int bs XOR bytes_int cs = bytes_int (map2 (XOR) bs cs)"
  using assms
proof (induction bs cs rule: list_induct2)
  case (Cons b bs c cs)
  let ?X = "bytes_int bs" and ?Y = "bytes_int cs"
  have range: "0 \<le> b XOR c" "b XOR c < 256"
    using Cons.prems XOR_upper [of b 8 c] by simp_all
  have "(b + 256 * ?X) XOR (c + 256 * ?Y) = (b XOR c) + 256 * (?X XOR ?Y)"
  proof (rule bit_eqI)
    fix j
    show "bit ((b + 256 * ?X) XOR (c + 256 * ?Y)) j \<longleftrightarrow> bit ((b XOR c) + 256 * (?X XOR ?Y)) j"
      unfolding bit_xor_iff bit_low_high [OF range]
      using bit_low_high [of b ?X j] bit_low_high [of c ?Y j] Cons.prems by (simp add: bit_xor_iff)
  qed
  then show ?case using Cons by simp
qed simp

definition xored :: "string \<Rightarrow> int list" where
  "xored bytes = map (\<lambda>c. byte_of c XOR 34) bytes"

lemma xored_range: "\<forall>b \<in> set (xored bytes). 0 \<le> b \<and> b < 256"
  using byte_of_range XOR_upper [of _ 8 34] by (auto simp: xored_def)

lemma xored_zero: "byte_of c XOR 34 = 0 \<longleftrightarrow> c = quote"
proof -
  have "byte_of c XOR 34 = 0 \<longleftrightarrow> byte_of c = 34"
    by (metis xor.assoc xor.left_neutral xor.right_neutral xor_self_eq)
  moreover have "byte_of quote = 34"
    by (simp add: byte_of_def of_char_def horner_sum_simps)
  moreover have "byte_of c = byte_of quote \<longleftrightarrow> c = quote"
    by (simp only: byte_of_def of_char_eq_iff)
  ultimately show ?thesis by (simp only:)
qed

lemma bit_zero_bytes:
  assumes "length bytes = 8"
  shows "bit (zero_bytes bytes) j \<longleftrightarrow> j < 64 \<and> flags (xored bytes) j"
proof -
  have "QUOTES = word_of_int (bytes_int (replicate 8 34))"
    by (simp add: QUOTES_def eval_nat_numeral)
  then have "le_word bytes XOR QUOTES =
      word_of_int (bytes_int (map byte_of bytes) XOR bytes_int (replicate 8 34))"
    by (simp add: le_word_int bit_eq_iff bit_xor_iff bit_word_of_int_iff)
  also have "bytes_int (map byte_of bytes) XOR bytes_int (replicate 8 34) = bytes_int (xored bytes)"
  proof -
    have "map2 (XOR) (map byte_of bytes) (replicate 8 34) = xored bytes"
      using assms unfolding xored_def by (intro nth_equalityI) auto
    then show ?thesis using assms byte_of_range by (subst bytes_int_xor) auto
  qed
  finally have x: "le_word bytes XOR QUOTES = word_of_int (bytes_int (xored bytes))" .
  have ones: "ONES = word_of_int (bytes_int (replicate (length (xored bytes)) 1))"
    and highs: "HIGHS = word_of_int (bytes_int (replicate (length (xored bytes)) 128))"
    using assms by (simp_all add: ONES_def HIGHS_def xored_def numeral_eq_Suc)
  show ?thesis
    unfolding zero_bytes_def Let_def x ones highs flags_def wi_hom_sub bit_and_iff bit_not_iff
      bit_word_of_int_iff possible_bit_word
    by auto
qed

lemma ctz_eq:
  assumes "bit w i" "\<forall>j < i. \<not> bit w j"
  shows "ctz w = i"
proof -
  have i: "i < 64" using assms(1) bit_imp_le_length [of w i] by simp
  then have "[0..<64] = [0..<i] @ i # [Suc i..<64]"
    by (metis less_imp_add_positive less_eq_nat.simps(1) upt_add_eq_append upt_conv_Cons
        less_or_eq_imp_le add_0)
  moreover have "takeWhile (\<lambda>i. \<not> bit w i) ([0..<i] @ i # [Suc i..<64]) = [0..<i]"
    using assms by (subst takeWhile_append2) auto
  ultimately have "takeWhile (\<lambda>i. \<not> bit w i) [0..<64] = [0..<i]" by (simp only:)
  then show ?thesis by (simp add: ctz_def)
qed

subsection \<open>The first quote\<close>

text \<open>\<open>position\<close> is the first index that passes.\<close>

lemma position_Some_iff:
  "position p xs = Some i \<longleftrightarrow> i < length xs \<and> p (xs ! i) \<and> (\<forall>j < i. \<not> p (xs ! j))"
  unfolding position_def by (auto simp: find_Some_iff)

lemma position_None_iff: "position p xs = None \<longleftrightarrow> (\<forall>i < length xs. \<not> p (xs ! i))"
  unfolding position_def by (auto simp: find_None_iff)

lemma position_append:
  "position p (xs @ ys) =
     (case position p xs of
        Some i \<Rightarrow> Some i | None \<Rightarrow> map_option (\<lambda>i. length xs + i) (position p ys))"
proof (cases "position p xs")
  case None
  show ?thesis
  proof (cases "position p ys")
    case (Some i)
    then have "position p (xs @ ys) = Some (length xs + i)"
      using None by (auto simp: position_Some_iff position_None_iff nth_append)
    then show ?thesis using None Some by simp
  next
    case ys: None
    then have "position p (xs @ ys) = None"
      using None by (auto simp: position_None_iff nth_append)
    then show ?thesis using None ys by simp
  qed
next
  case (Some i)
  then have "position p (xs @ ys) = Some i"
    by (auto simp: position_Some_iff nth_append)
  then show ?thesis using Some by simp
qed

abbreviation first_quote :: "string \<Rightarrow> nat option" where
  "first_quote b \<equiv> position (\<lambda>c. c = quote) b"

lemma zero_bytes_first:
  assumes "length bytes = 8"
  shows "first_quote bytes =
     (if zero_bytes bytes \<noteq> 0 then Some (ctz (zero_bytes bytes) div 8) else None)"
proof (cases "first_quote bytes")
  case None
  then have "\<forall>b \<in> set (xored bytes). b \<noteq> 0"
    by (auto simp: xored_def xored_zero position_None_iff in_set_conv_nth)
  then have "\<forall>b \<in> set (xored bytes). 0 < b \<and> b < 256"
    using xored_range [of bytes] by (force simp: le_less)
  then have "zero_bytes bytes = 0"
    using bit_zero_bytes [OF assms] flags_none by (auto intro!: bit_word_eqI)
  then show ?thesis using None by simp
next
  case (Some i)
  then have i: "i < 8" "bytes ! i = quote" "\<forall>j < i. bytes ! j \<noteq> quote"
    using assms by (auto simp: position_Some_iff)
  have "flags (xored bytes) (7 + 8 * i) \<and> (\<forall>j < 7 + 8 * i. \<not> flags (xored bytes) j)"
    using i assms xored_range by (intro flags_first) (auto simp: xored_def xored_zero)
  then have bits: "bit (zero_bytes bytes) (7 + 8 * i)" "\<forall>j < 7 + 8 * i. \<not> bit (zero_bytes bytes) j"
    using i by (auto simp: bit_zero_bytes [OF assms])
  then have "ctz (zero_bytes bytes) = 7 + 8 * i" by (rule ctz_eq)
  moreover have "zero_bytes bytes \<noteq> 0" using bits(1) by (metis bit_0_eq bot_apply bot_bool_def)
  ultimately show ?thesis using Some by simp
qed

lemma find_word_first:
  assumes "\<forall>w \<in> set words. length w = 8"
  shows "find_word k words = map_option (\<lambda>i. k * 8 + i) (first_quote (concat words))"
  using assms
proof (induction words arbitrary: k)
  case Nil
  then show ?case by (simp add: position_def)
next
  case (Cons w words)
  then show ?case
    using zero_bytes_first [of w]
    by (auto simp: Let_def position_append option.map_comp comp_def algebra_simps
        intro!: option.map_cong)
qed

lemma concat_chunks8: "n * 8 \<le> length b \<Longrightarrow> concat (map (\<lambda>i. take 8 (drop (i * 8) b)) [0..<n]) = take (n * 8) b"
proof (induction n)
  case (Suc n)
  then show ?case by (simp add: take_add add.commute [of 8])
qed simp

text \<open>The eight-byte scan finds the first quote.\<close>

lemma find_quote_first: "find_quote b = first_quote b"
proof -
  let ?n = "length b div 8" and ?words = "fst (as_chunks8 b)"
  have "\<forall>w \<in> set ?words. length w = 8"
    by (auto simp: as_chunks8_def)
  then have "find_word 0 ?words = first_quote (take (?n * 8) b)"
    by (simp add: find_word_first option.map_ident as_chunks8_def concat_chunks8)
  moreover have "first_quote b = first_quote (take (?n * 8) b @ drop (?n * 8) b)" by simp
  ultimately show ?thesis
    unfolding find_quote_def Let_def position_append
    by (simp add: as_chunks8_def min_absorb2 split: option.splits)
qed

lemma find_quote_less: "find_quote b = Some i \<Longrightarrow> i < length b"
  by (simp add: find_quote_first position_Some_iff)

subsection \<open>Escapes before a quote\<close>

text \<open>The run of backslashes that ends right before \<open>run\<close>, down to the literal's second byte.\<close>

fun back_run :: "string \<Rightarrow> nat \<Rightarrow> nat" where
  "back_run b 0 = 0"
| "back_run b (Suc run) = (if 1 < Suc run \<and> b ! run = backslash then back_run b run else Suc run)"

function closing_loop :: "string \<Rightarrow> nat \<Rightarrow> nat option" where
  "closing_loop b from_at =
     (case find_quote (drop from_at b) of
        None \<Rightarrow> None
      | Some i \<Rightarrow>
          let q = from_at + i; run = back_run b q
          in if even (q - run) then Some q else closing_loop b (q + 1))"
  by pat_completeness auto
termination
  by (relation "measure (\<lambda>(b, from_at). length b - from_at)") (auto dest!: find_quote_less)

declare closing_loop.simps [simp del]

definition closing_quote :: "string \<Rightarrow> nat option" where
  "closing_quote s = (if s = [] \<or> hd s \<noteq> quote then None else closing_loop s 1)"

text \<open>What the closing quote is: reading the bytes after the opening one from left to right, a
  backslash escapes the byte behind it, and the first quote not escaped closes the literal.\<close>

fun scan_quote :: "bool \<Rightarrow> string \<Rightarrow> nat option" where
  "scan_quote escaped [] = None"
| "scan_quote escaped (c # cs) =
     (if escaped then map_option Suc (scan_quote False cs)
      else if c = quote then Some 0
      else map_option Suc (scan_quote (c = backslash) cs))"

text \<open>Whether the byte at \<open>k\<close> is escaped, as the left-to-right reading has it.\<close>

definition escaped_at :: "string \<Rightarrow> nat \<Rightarrow> bool" where
  "escaped_at b k \<longleftrightarrow> odd (k - back_run b k)"

lemma back_run_le: "back_run b k \<le> k"
  by (induction k) (auto intro: le_SucI)

lemma escaped_at_Suc: "0 < k \<Longrightarrow> escaped_at b (Suc k) \<longleftrightarrow> \<not> escaped_at b k \<and> b ! k = backslash"
  using back_run_le [of b k] by (simp add: escaped_at_def Suc_diff_le)

lemma escaped_at_one: "\<not> escaped_at b (Suc 0)"
  by (simp add: escaped_at_def)

text \<open>Both are the first quote no backslash escapes.\<close>

abbreviation open_quotes :: "string \<Rightarrow> nat \<Rightarrow> nat option" where
  "open_quotes b k \<equiv> find (\<lambda>i. b ! i = quote \<and> \<not> escaped_at b i) [k..<length b]"

lemma closing_loop_finds: "closing_loop b k = open_quotes b k"
proof (induction b k rule: closing_loop.induct)
  case (1 b k)
  show ?case
  proof (cases "find_quote (drop k b)")
    case None
    then have "\<forall>i. k \<le> i \<longrightarrow> i < length b \<longrightarrow> b ! i \<noteq> quote"
      by (auto simp: find_quote_first position_None_iff less_diff_conv dest!: le_Suc_ex)
    then show ?thesis using None
      by (subst closing_loop.simps) (auto simp: find_None_iff intro!: sym [OF iffD2 [OF find_None_iff]])
  next
    case (Some i)
    then have i: "k + i < length b" "b ! (k + i) = quote"
      and before: "\<And>j. k \<le> j \<Longrightarrow> j < k + i \<Longrightarrow> b ! j \<noteq> quote"
      by (auto simp: find_quote_first position_Some_iff less_diff_conv add.commute dest!: le_Suc_ex)
    have "[k..<length b] = [k..<k + i] @ (k + i) # [Suc (k + i)..<length b]"
      using i upt_add_eq_append [of k "k + i" "length b - (k + i)"] upt_conv_Cons [of "k + i" "length b"]
      by simp
    moreover have "find (\<lambda>j. b ! j = quote \<and> \<not> escaped_at b j) ([k..<k + i] @ ys) =
        find (\<lambda>j. b ! j = quote \<and> \<not> escaped_at b j) ys" for ys
      using before by (induction i arbitrary: ys) auto
    ultimately have "open_quotes b k =
        (if \<not> escaped_at b (k + i) then Some (k + i) else open_quotes b (Suc (k + i)))"
      using i by simp
    then show ?thesis
      using Some 1 by (subst closing_loop.simps) (auto simp: Let_def escaped_at_def)
  qed
qed

lemma scan_quote_finds:
  assumes "0 < k"
  shows "map_option (\<lambda>i. k + i) (scan_quote (escaped_at b k) (drop k b)) = open_quotes b k"
  using assms
proof (induction "length b - k" arbitrary: k)
  case 0
  then show ?case by simp
next
  case (Suc n)
  then have k: "k < length b" by simp
  have IH: "map_option (\<lambda>i. Suc k + i) (scan_quote (escaped_at b (Suc k)) (drop (Suc k) b)) =
      open_quotes b (Suc k)"
    using Suc by (intro Suc.hyps) auto
  have "drop k b = b ! k # drop (Suc k) b" "[k..<length b] = k # [Suc k..<length b]"
    using k by (simp_all add: Cons_nth_drop_Suc upt_conv_Cons)
  then show ?case
    using IH Suc.prems
    by (auto simp: escaped_at_Suc option.map_comp comp_def split: if_splits)
qed

lemma closing_quote_scan:
  "closing_quote s =
     (case s of
        [] \<Rightarrow> None
      | c # cs \<Rightarrow> if c = quote then map_option Suc (scan_quote False cs) else None)"
proof (cases s)
  case (Cons c cs)
  then show ?thesis
    using scan_quote_finds [of 1 s]
    by (auto simp: closing_quote_def closing_loop_finds escaped_at_one)
qed (simp add: closing_quote_def)

section \<open>Literals\<close>

text \<open>The three shapes of a literal, the value still escaped.\<close>

datatype literal_form =
    Simple (form_value: string)
  | Language (form_value: string) (form_lang: string)
  | Typed (form_value: string) (form_datatype: string)

definition strip_prefix :: "string \<Rightarrow> string \<Rightarrow> string option" where
  "strip_prefix s p = (if starts_with s p then Some (drop (length p) s) else None)"

definition split_literal :: "string \<Rightarrow> literal_form option" where
  "split_literal s =
     (case closing_quote s of
        None \<Rightarrow> None
      | Some close \<Rightarrow>
          let v = drop 1 (take close s); rest = drop (close + 1) s
          in if rest = [] then Some (Simple v)
             else case strip_prefix rest ''^^'' of
                 Some datatype \<Rightarrow> Some (Typed v datatype)
               | None \<Rightarrow> map_option (\<lambda>lang. Language v lang) (strip_prefix rest ''@''))"

datatype escapes = Strict | Lenient

text \<open>\<open>hex_escape\<close> reads the hexadecimal digits of a scalar value; \<open>decoded\<close> is the escape that
  starts the suffix \<open>b\<close>, with the bytes it takes.\<close>

fun hex_value :: "nat \<Rightarrow> string \<Rightarrow> nat option" where
  "hex_value cp [] = Some cp"
| "hex_value cp (d # ds) =
     (case to_digit16 d of None \<Rightarrow> None | Some n \<Rightarrow> hex_value (cp * 16 + n) ds)"

definition hex_escape :: "string \<Rightarrow> nat \<Rightarrow> nat \<Rightarrow> string option" where
  "hex_escape b start len =
     (if length b < start + len then None
      else case hex_value 0 (take len (drop start b)) of
          None \<Rightarrow> None
        | Some cp \<Rightarrow> if scalar_value cp then Some (utf8 cp) else None)"

definition short_escapes :: "(char \<times> char) list" where
  "short_escapes =
     [(CHR ''t'', CHR 0x09), (CHR ''b'', CHR 0x08), (CHR ''n'', CHR 0x0A), (CHR ''r'', CHR 0x0D),
      (CHR ''f'', CHR 0x0C), (quote, quote), (CHR 0x27, CHR 0x27), (backslash, backslash)]"

definition decoded :: "string \<Rightarrow> (string \<times> nat) option" where
  "decoded b =
     (if length b \<le> 1 then None
      else case map_of short_escapes (b ! 1) of
          Some c \<Rightarrow> Some ([c], 2)
        | None \<Rightarrow>
            if b ! 1 = CHR ''u'' then map_option (\<lambda>c. (c, 6)) (hex_escape b 2 4)
            else if b ! 1 = CHR ''U'' then map_option (\<lambda>c. (c, 10)) (hex_escape b 2 8)
            else None)"

lemma decoded_width: "decoded b = Some (c, width) \<Longrightarrow> 0 < width \<and> b \<noteq> []"
  by (auto simp: decoded_def split: option.splits if_splits)

function unescape_loop :: "escapes \<Rightarrow> string \<Rightarrow> string option" where
  "unescape_loop esc b =
     (if b = [] then Some []
      else if hd b \<noteq> backslash then
        map_option (append (takeWhile (\<lambda>c. c \<noteq> backslash) b))
          (unescape_loop esc (dropWhile (\<lambda>c. c \<noteq> backslash) b))
      else case decoded b of
          Some (c, width) \<Rightarrow> map_option (append c) (unescape_loop esc (drop width b))
        | None \<Rightarrow>
            (case esc of
               Lenient \<Rightarrow> map_option (Cons backslash) (unescape_loop esc (drop 1 b))
             | Strict \<Rightarrow> None))"
  by pat_completeness auto
termination
proof (relation "measure (\<lambda>(esc, b). length b)", goal_cases)
  case (2 esc b)
  then show ?case
    by (cases b) (auto simp: less_Suc_eq_le length_dropWhile_le)
qed (auto dest: decoded_width)

declare unescape_loop.simps [simp del]

definition unescape :: "string \<Rightarrow> escapes \<Rightarrow> string option" where
  "unescape s esc = (if backslash \<notin> set s then Some s else unescape_loop esc s)"

definition unescape_literal_value :: "string \<Rightarrow> string" where
  "unescape_literal_value s = (case unescape s Lenient of Some v \<Rightarrow> v | None \<Rightarrow> s)"

section \<open>Terms\<close>

text \<open>What the code uses of the RDF library: whether its validating constructors take an IRI, a
  blank node's id or a language tag (and which tag they keep), the literals they build, what a
  literal answers, and its printed form.\<close>

record 'l oxrdf =
  valid_iri :: "string \<Rightarrow> bool"
  valid_blank :: "string \<Rightarrow> bool"
  checked_tag :: "string \<Rightarrow> string option"
  simple_literal :: "string \<Rightarrow> 'l"
  tagged_literal :: "string \<Rightarrow> string \<Rightarrow> 'l"
  typed_literal :: "string \<Rightarrow> string \<Rightarrow> 'l"
  literal_value :: "'l \<Rightarrow> string"
  literal_language :: "'l \<Rightarrow> string option"
  literal_datatype :: "'l \<Rightarrow> string"
  print_literal :: "'l \<Rightarrow> string"

text \<open>The library's types a quad is made of; a named node is its IRI, a blank node its id.\<close>

datatype subject_term = SubjectNamed string | SubjectBlank string

datatype 'l object_term = TermNamed string | TermBlank string | TermLiteral 'l

datatype graph_term = DefaultGraph | GraphNamed string | GraphBlank string

record 'l rdf_quad =
  quad_subject :: subject_term
  quad_predicate :: string
  quad_object :: "'l object_term"
  quad_graph :: graph_term

datatype trust = Stored | Input

definition named_node :: "'l oxrdf \<Rightarrow> string \<Rightarrow> trust \<Rightarrow> string fallible" where
  "named_node ox s trust =
     (let iri = trim_matches (\<lambda>c. c = CHR ''<'' \<or> c = CHR ''>'') s
      in case trust of
          Stored \<Rightarrow> Inr iri
        | Input \<Rightarrow> if valid_iri ox iri then Inr iri else Inl (InvalidInput [''IRI'', iri]))"

definition blank_node :: "'l oxrdf \<Rightarrow> string \<Rightarrow> trust \<Rightarrow> string fallible" where
  "blank_node ox s trust =
     (let name = trim_start_matches ''_:'' s
      in case trust of
          Stored \<Rightarrow> Inr name
        | Input \<Rightarrow>
            if valid_blank ox name then Inr name else Inl (InvalidInput [''blank node'', s]))"

definition parse_subject :: "'l oxrdf \<Rightarrow> string \<Rightarrow> trust \<Rightarrow> subject_term fallible" where
  "parse_subject ox s trust =
     (if starts_with s ''_:'' then map_ok SubjectBlank (blank_node ox s trust)
      else map_ok SubjectNamed (named_node ox s trust))"

definition parse_literal :: "'l oxrdf \<Rightarrow> string \<Rightarrow> trust \<Rightarrow> 'l fallible" where
  "parse_literal ox s trust =
     (case split_literal s of
        Some (Simple v) \<Rightarrow> Inr (simple_literal ox (unescape_literal_value v))
      | Some (Language v lang) \<Rightarrow>
          (case trust of
             Stored \<Rightarrow> Inr (tagged_literal ox (unescape_literal_value v) lang)
           | Input \<Rightarrow>
               (case checked_tag ox lang of
                  Some tag \<Rightarrow> Inr (tagged_literal ox (unescape_literal_value v) tag)
                | None \<Rightarrow> Inl (InvalidInput [''language tag'', lang])))
      | Some (Typed v datatype) \<Rightarrow>
          map_ok (typed_literal ox (unescape_literal_value v)) (named_node ox datatype trust)
      | None \<Rightarrow>
          (case trust of
             Stored \<Rightarrow> Inr (simple_literal ox (trim_matches (\<lambda>c. c = quote) s))
           | Input \<Rightarrow> Inl (InvalidInput [''malformed literal'', s])))"

definition is_default_graph_spelling :: "string \<Rightarrow> bool" where
  "is_default_graph_spelling s \<longleftrightarrow> s = [] \<or> map ascii_lower s = ''default'' \<or> s = ''[]''"

definition parse_graph :: "'l oxrdf \<Rightarrow> string \<Rightarrow> trust \<Rightarrow> graph_term fallible" where
  "parse_graph ox s trust =
     (if (case trust of Stored \<Rightarrow> s = [] | Input \<Rightarrow> is_default_graph_spelling s) then Inr DefaultGraph
      else if starts_with s ''_:'' then map_ok GraphBlank (blank_node ox s trust)
      else map_ok GraphNamed (named_node ox s trust))"

definition parse_term :: "'l oxrdf \<Rightarrow> string \<Rightarrow> trust \<Rightarrow> 'l object_term fallible" where
  "parse_term ox s trust =
     (if starts_with s ''_:'' then map_ok TermBlank (blank_node ox s trust)
      else if starts_with s [quote] then map_ok TermLiteral (parse_literal ox s trust)
      else if trust = Input \<or> starts_with s ''<'' then map_ok TermNamed (named_node ox s trust)
      else Inl (Deserialization [''invalid term'', s]))"

definition quad_from_terms ::
    "'l oxrdf \<Rightarrow> string \<Rightarrow> string \<Rightarrow> string \<Rightarrow> string \<Rightarrow> 'l rdf_quad fallible" where
  "quad_from_terms ox s p obj g =
     and_then (parse_subject ox s Stored) (\<lambda>subj.
     and_then (named_node ox p Stored) (\<lambda>pred.
     and_then (parse_term ox obj Stored) (\<lambda>ob.
     map_ok (\<lambda>gr. \<lparr> quad_subject = subj, quad_predicate = pred, quad_object = ob, quad_graph = gr \<rparr>)
       (parse_graph ox g Stored))))"

section \<open>Quads as strings\<close>

datatype raw_quad = RawQuad (raw_s: string) (raw_p: string) (raw_o: string) (raw_g: string)

definition named_node_string :: "string \<Rightarrow> string" where
  "named_node_string iri = ''<'' @ iri @ ''>''"

definition blank_node_string :: "string \<Rightarrow> string" where
  "blank_node_string name = ''_:'' @ name"

fun subject_spelling :: "subject_term \<Rightarrow> string" where
  "subject_spelling (SubjectNamed n) = named_node_string n"
| "subject_spelling (SubjectBlank b) = blank_node_string b"

text \<open>\<open>push_spelling\<close> appends what \<open>from_quad\<close> renders for an object.\<close>

fun push_spelling :: "'l oxrdf \<Rightarrow> string \<Rightarrow> 'l object_term \<Rightarrow> string" where
  "push_spelling ox out (TermNamed n) = out @ ''<'' @ n @ ''>''"
| "push_spelling ox out (TermBlank b) = out @ ''_:'' @ b"
| "push_spelling ox out (TermLiteral l) = out @ print_literal ox l"

fun object_spelling :: "'l oxrdf \<Rightarrow> 'l object_term \<Rightarrow> string" where
  "object_spelling ox (TermNamed n) = named_node_string n"
| "object_spelling ox (TermBlank b) = blank_node_string b"
| "object_spelling ox (TermLiteral l) = print_literal ox l"

fun graph_spelling :: "graph_term \<Rightarrow> string" where
  "graph_spelling DefaultGraph = []"
| "graph_spelling (GraphNamed n) = named_node_string n"
| "graph_spelling (GraphBlank b) = blank_node_string b"

definition from_quad :: "'l oxrdf \<Rightarrow> 'l rdf_quad \<Rightarrow> raw_quad" where
  "from_quad ox q =
     RawQuad (subject_spelling (quad_subject q)) (named_node_string (quad_predicate q))
       (object_spelling ox (quad_object q)) (graph_spelling (quad_graph q))"

definition canonical ::
    "'l oxrdf \<Rightarrow> string \<Rightarrow> string \<Rightarrow> string \<Rightarrow> string \<Rightarrow> raw_quad fallible" where
  "canonical ox s p obj g =
     and_then (at_place ''quad subject'' (parse_subject ox s Input)) (\<lambda>subj.
     and_then (at_place ''quad predicate'' (named_node ox p Input)) (\<lambda>pred.
     and_then (at_place ''quad object'' (parse_term ox obj Input)) (\<lambda>ob.
     and_then (at_place ''quad graph'' (parse_graph ox g Input)) (\<lambda>gr.
     Inr (from_quad ox
       \<lparr> quad_subject = subj, quad_predicate = pred, quad_object = ob, quad_graph = gr \<rparr>)))))"

definition canonical_spelling :: "'l oxrdf \<Rightarrow> string \<Rightarrow> string fallible" where
  "canonical_spelling ox spelling =
     (if is_default_graph_spelling spelling then Inr []
      else map_ok (object_spelling ox) (parse_term ox spelling Input))"

section \<open>Lines\<close>

record nquad_lines =
  lines_text :: string
  named_graph :: bool

definition no_lines :: nquad_lines where
  "no_lines = \<lparr> lines_text = [], named_graph = False \<rparr>"

definition lines_term :: "nquad_lines \<Rightarrow> string \<Rightarrow> nquad_lines" where
  "lines_term self t = self\<lparr> lines_text := lines_text self @ t @ '' '' \<rparr>"

definition lines_end :: "nquad_lines \<Rightarrow> string \<Rightarrow> nquad_lines" where
  "lines_end self g =
     (let self = (if g = [] then self else lines_term (self\<lparr> named_graph := True \<rparr>) g)
      in self\<lparr> lines_text := lines_text self @ ''.'' @ [CHR 0x0A] \<rparr>)"

definition lines_push :: "nquad_lines \<Rightarrow> raw_quad \<Rightarrow> nquad_lines" where
  "lines_push self q =
     lines_end (lines_term (lines_term (lines_term self (raw_s q)) (raw_p q)) (raw_o q)) (raw_g q)"

end
