(* ===== verification/Spellings.thy ===== *)
theory Spellings
  imports Terms
begin

text \<open>
  The spellings of terms read back. \<open>spells\<close> says which escaped texts stand for a literal's value,
  \<open>lawful_oxrdf\<close> what the RDF library promises of its literals and their printed form; under it a
  quad written to the columns is read back as it was, and a canonical spelling is its own.
\<close>

section \<open>The RDF library\<close>

definition XSD_STRING :: string where
  "XSD_STRING = ''http://www.w3.org/2001/XMLSchema#string''"

definition RDF_LANG_STRING :: string where
  "RDF_LANG_STRING = ''http://www.w3.org/1999/02/22-rdf-syntax-ns#langString''"

text \<open>The lexical grammar of N-Triples: a value is spelled by its bytes, the short escapes and the
  two hexadecimal ones.\<close>

inductive spells :: "string \<Rightarrow> string \<Rightarrow> bool" where
  spells_Nil: "spells [] []"
| spells_raw: "c \<noteq> quote \<Longrightarrow> c \<noteq> backslash \<Longrightarrow> spells e v \<Longrightarrow> spells (c # e) (c # v)"
| spells_short: "(x, c) \<in> set short_escapes \<Longrightarrow> spells e v \<Longrightarrow> spells (backslash # x # e) (c # v)"
| spells_hex: "x = CHR ''u'' \<and> length h = 4 \<or> x = CHR ''U'' \<and> length h = 8 \<Longrightarrow>
    hex_value 0 h = Some cp \<Longrightarrow> scalar_value cp \<Longrightarrow> spells e v \<Longrightarrow>
    spells (backslash # x # h @ e) (utf8 cp @ v)"

definition literal_suffix :: "'l oxrdf \<Rightarrow> 'l \<Rightarrow> string" where
  "literal_suffix ox l =
     (case literal_language ox l of
        Some tag \<Rightarrow> ''@'' @ tag
      | None \<Rightarrow>
          if literal_datatype ox l = XSD_STRING then []
          else ''^^<'' @ literal_datatype ox l @ ''>'')"

definition same_literal :: "'l oxrdf \<Rightarrow> 'l \<Rightarrow> 'l \<Rightarrow> bool" where
  "same_literal ox l k \<longleftrightarrow>
     literal_value ox l = literal_value ox k \<and> literal_language ox l = literal_language ox k \<and>
     literal_datatype ox l = literal_datatype ox k"

text \<open>What the library documents: a valid IRI is not empty and has no angle bracket, a checked tag is checked to
  itself, literals are what their value, language and datatype say, and a literal is printed
  between quotes with its suffix.\<close>

definition lawful_oxrdf :: "'l oxrdf \<Rightarrow> bool" where
  "lawful_oxrdf ox \<longleftrightarrow>
     (\<forall>iri. valid_iri ox iri \<longrightarrow> CHR ''<'' \<notin> set iri \<and> CHR ''>'' \<notin> set iri) \<and>
     valid_iri ox XSD_STRING \<and> \<not> valid_iri ox [] \<and>
     (\<forall>tag t. checked_tag ox tag = Some t \<longrightarrow> checked_tag ox t = Some t) \<and>
     (\<forall>v. literal_value ox (simple_literal ox v) = v \<and>
          literal_language ox (simple_literal ox v) = None \<and>
          literal_datatype ox (simple_literal ox v) = XSD_STRING) \<and>
     (\<forall>v tag. literal_value ox (tagged_literal ox v tag) = v \<and>
          literal_language ox (tagged_literal ox v tag) = Some tag \<and>
          literal_datatype ox (tagged_literal ox v tag) = RDF_LANG_STRING) \<and>
     (\<forall>v dt. literal_value ox (typed_literal ox v dt) = v \<and>
          literal_language ox (typed_literal ox v dt) = None \<and>
          literal_datatype ox (typed_literal ox v dt) = dt) \<and>
     (\<forall>l k. same_literal ox l k \<longrightarrow> l = k) \<and>
     (\<forall>l. \<exists>e. spells e (literal_value ox l) \<and>
          print_literal ox l = [quote] @ e @ [quote] @ literal_suffix ox l)"

text \<open>The literals, terms and quads the library validated. A blank node whose id leads with the
  prefix itself has no spelling that reads back: the parser strips the prefix as often as it
  leads.\<close>

definition wf_literal :: "'l oxrdf \<Rightarrow> 'l \<Rightarrow> bool" where
  "wf_literal ox l \<longleftrightarrow>
     (case literal_language ox l of
        Some tag \<Rightarrow> literal_datatype ox l = RDF_LANG_STRING
      | None \<Rightarrow> valid_iri ox (literal_datatype ox l))"

definition wf_blank :: "string \<Rightarrow> bool" where
  "wf_blank b \<longleftrightarrow> \<not> starts_with b ''_:''"

fun wf_subject :: "'l oxrdf \<Rightarrow> subject_term \<Rightarrow> bool" where
  "wf_subject ox (SubjectNamed n) \<longleftrightarrow> valid_iri ox n"
| "wf_subject ox (SubjectBlank b) \<longleftrightarrow> wf_blank b"

fun wf_object :: "'l oxrdf \<Rightarrow> 'l object_term \<Rightarrow> bool" where
  "wf_object ox (TermNamed n) \<longleftrightarrow> valid_iri ox n"
| "wf_object ox (TermBlank b) \<longleftrightarrow> wf_blank b"
| "wf_object ox (TermLiteral l) \<longleftrightarrow> wf_literal ox l"

fun wf_graph :: "'l oxrdf \<Rightarrow> graph_term \<Rightarrow> bool" where
  "wf_graph ox DefaultGraph \<longleftrightarrow> True"
| "wf_graph ox (GraphNamed n) \<longleftrightarrow> valid_iri ox n"
| "wf_graph ox (GraphBlank b) \<longleftrightarrow> wf_blank b"

definition wf_quad :: "'l oxrdf \<Rightarrow> 'l rdf_quad \<Rightarrow> bool" where
  "wf_quad ox q \<longleftrightarrow>
     wf_subject ox (quad_subject q) \<and> valid_iri ox (quad_predicate q) \<and>
     wf_object ox (quad_object q) \<and> wf_graph ox (quad_graph q)"

section \<open>Literals read back\<close>

lemma hex_digit_plain: "to_digit16 d = Some n \<Longrightarrow> d \<noteq> quote \<and> d \<noteq> backslash"
proof -
  have "to_digit16 quote = None" "to_digit16 backslash = None"
    by (simp_all add: to_digit16_def)
  then show "to_digit16 d = Some n \<Longrightarrow> d \<noteq> quote \<and> d \<noteq> backslash" by auto
qed

lemma hex_digits_plain:
  "hex_value cp h = Some n \<Longrightarrow> \<forall>d \<in> set h. d \<noteq> quote \<and> d \<noteq> backslash"
proof (induction cp h rule: hex_value.induct)
  case (2 cp d ds)
  then show ?case using hex_digit_plain [of d] by (cases "to_digit16 d") auto
qed simp

lemma scan_quote_plain:
  assumes "\<forall>d \<in> set h. d \<noteq> quote \<and> d \<noteq> backslash"
  shows "scan_quote False (h @ s) = map_option (\<lambda>i. length h + i) (scan_quote False s)"
  using assms
proof (induction h)
  case Nil
  then show ?case by (simp add: option.map_ident)
next
  case (Cons d h)
  have "scan_quote False ((d # h) @ s) = map_option Suc (scan_quote False (h @ s))"
    using Cons.prems by simp
  then show ?case using Cons by (simp add: option.map_comp comp_def)
qed

lemma scan_quote_spells:
  "spells e v \<Longrightarrow> scan_quote False (e @ quote # s) = Some (length e)"
proof (induction rule: spells.induct)
  case (spells_hex x h cp e v)
  then show ?case using hex_digits_plain [of 0 h cp] by (auto simp: scan_quote_plain)
qed auto

lemma unescape_loop_Nil [simp]: "unescape_loop esc [] = Some []"
  by (simp add: unescape_loop.simps)

lemma unescape_loop_raw:
  assumes "c \<noteq> backslash"
  shows "unescape_loop esc (c # b) = map_option (Cons c) (unescape_loop esc b)"
proof (cases "b = [] \<or> hd b = backslash")
  case True
  then have "takeWhile (\<lambda>c. c \<noteq> backslash) b = []" "dropWhile (\<lambda>c. c \<noteq> backslash) b = b"
    by (cases b; auto)+
  then show ?thesis using assms by (subst unescape_loop.simps) (auto simp: fun_eq_iff intro!: option.map_cong)
next
  case False
  then have "unescape_loop esc b =
      map_option (append (takeWhile (\<lambda>c. c \<noteq> backslash) b))
        (unescape_loop esc (dropWhile (\<lambda>c. c \<noteq> backslash) b))"
    by (subst unescape_loop.simps) auto
  then show ?thesis using assms
    by (subst unescape_loop.simps) (auto simp: option.map_comp comp_def intro!: option.map_cong)
qed

lemma unescape_loop_escape:
  "decoded (backslash # b) = Some (c, width) \<Longrightarrow>
   unescape_loop esc (backslash # b) = map_option (append c) (unescape_loop esc (drop width (backslash # b)))"
  by (subst unescape_loop.simps) simp

lemma unescape_loop_spells: "spells e v \<Longrightarrow> unescape_loop esc e = Some v"
proof (induction rule: spells.induct)
  case (spells_short x c e v)
  then have "decoded (backslash # x # e) = Some ([c], 2)"
    by (auto simp: decoded_def short_escapes_def)
  then show ?case using spells_short by (simp add: unescape_loop_escape)
next
  case (spells_hex x h cp e v)
  then have "decoded (backslash # x # h @ e) = Some (utf8 cp, 2 + length h)"
    by (auto simp: decoded_def short_escapes_def hex_escape_def)
  then show ?case using spells_hex by (simp add: unescape_loop_escape)
qed (auto simp: unescape_loop_raw)

lemma unescape_spells:
  assumes "spells e v"
  shows "unescape e esc = Some v"
proof (cases "backslash \<in> set e")
  case False
  have "unescape_loop esc e = Some e"
    using False by (induction e) (auto simp: unescape_loop_raw)
  then show ?thesis using False unescape_loop_spells [OF assms, of esc] by (simp add: unescape_def)
qed (simp add: unescape_def unescape_loop_spells [OF assms])

lemma unescape_literal_value_spells: "spells e v \<Longrightarrow> unescape_literal_value e = v"
  by (simp add: unescape_literal_value_def unescape_spells)

text \<open>The literal's shape is found wherever a spelled value ends.\<close>

lemma split_literal_spells:
  assumes "spells e v"
  shows "split_literal ([quote] @ e @ [quote] @ rest) =
    (if rest = [] then Some (Simple e)
     else case strip_prefix rest ''^^'' of
         Some dt \<Rightarrow> Some (Typed e dt)
       | None \<Rightarrow> map_option (\<lambda>lang. Language e lang) (strip_prefix rest ''@''))"
proof -
  have "closing_quote ([quote] @ e @ [quote] @ rest) = Some (Suc (length e))"
    using scan_quote_spells [OF assms] by (simp add: closing_quote_scan)
  then show ?thesis by (simp add: split_literal_def Let_def)
qed

section \<open>Terms read back\<close>

lemma trim_brackets:
  assumes "CHR ''<'' \<notin> set n" "CHR ''>'' \<notin> set n"
  shows "trim_matches (\<lambda>c. c = CHR ''<'' \<or> c = CHR ''>'') (''<'' @ n @ ''>'') = n"
proof -
  let ?p = "\<lambda>c. c = CHR ''<'' \<or> c = CHR ''>''"
  have plain: "dropWhile ?p m = m" if "set m \<subseteq> set n" for m
    using assms that by (cases m) auto
  show ?thesis
  proof (cases n)
    case (Cons c cs)
    then have "\<not> ?p c" using assms by auto
    then have "dropWhile ?p (n @ ''>'') = n @ ''>''" using Cons by simp
    moreover have "dropWhile ?p (rev n) = rev n" by (intro plain) simp
    ultimately show ?thesis by (simp add: trim_matches_def)
  qed (simp add: trim_matches_def)
qed

lemma trim_start_blank: "wf_blank b \<Longrightarrow> trim_start_matches ''_:'' (''_:'' @ b) = b"
  by (subst trim_start_matches.simps, subst trim_start_matches.simps)
     (simp add: wf_blank_def starts_with_def)

lemma wf_blank_trim: "wf_blank (trim_start_matches ''_:'' s)"
proof (induction "''_:''" s rule: trim_start_matches.induct)
  case (1 s)
  show ?case
  proof (cases "s \<noteq> [] \<and> starts_with s ''_:''")
    case True
    then show ?thesis using 1 by (subst trim_start_matches.simps) simp
  next
    case False
    then have "\<not> starts_with s ''_:''" by (auto simp: starts_with_def)
    then show ?thesis by (subst trim_start_matches.simps) (simp add: wf_blank_def)
  qed
qed

text \<open>What a trust level asks of a term besides its being well formed.\<close>

definition takes_blank :: "'l oxrdf \<Rightarrow> trust \<Rightarrow> string \<Rightarrow> bool" where
  "takes_blank ox trust b \<longleftrightarrow> wf_blank b \<and> (trust = Input \<longrightarrow> valid_blank ox b)"

definition takes_literal :: "'l oxrdf \<Rightarrow> trust \<Rightarrow> 'l \<Rightarrow> bool" where
  "takes_literal ox trust l \<longleftrightarrow>
     wf_literal ox l \<and>
     (trust = Input \<longrightarrow> (\<forall>tag. literal_language ox l = Some tag \<longrightarrow> checked_tag ox tag = Some tag))"

fun takes_subject :: "'l oxrdf \<Rightarrow> trust \<Rightarrow> subject_term \<Rightarrow> bool" where
  "takes_subject ox trust (SubjectNamed n) \<longleftrightarrow> valid_iri ox n"
| "takes_subject ox trust (SubjectBlank b) \<longleftrightarrow> takes_blank ox trust b"

fun takes_object :: "'l oxrdf \<Rightarrow> trust \<Rightarrow> 'l object_term \<Rightarrow> bool" where
  "takes_object ox trust (TermNamed n) \<longleftrightarrow> valid_iri ox n"
| "takes_object ox trust (TermBlank b) \<longleftrightarrow> takes_blank ox trust b"
| "takes_object ox trust (TermLiteral l) \<longleftrightarrow> takes_literal ox trust l"

fun takes_graph :: "'l oxrdf \<Rightarrow> trust \<Rightarrow> graph_term \<Rightarrow> bool" where
  "takes_graph ox trust DefaultGraph \<longleftrightarrow> True"
| "takes_graph ox trust (GraphNamed n) \<longleftrightarrow> valid_iri ox n"
| "takes_graph ox trust (GraphBlank b) \<longleftrightarrow> takes_blank ox trust b"

lemma named_node_reads:
  assumes "lawful_oxrdf ox" "valid_iri ox n"
  shows "named_node ox (named_node_string n) trust = Inr n"
proof -
  have "trim_matches (\<lambda>c. c = CHR ''<'' \<or> c = CHR ''>'') (''<'' @ n @ ''>'') = n"
    using assms by (intro trim_brackets) (auto simp: lawful_oxrdf_def)
  then show ?thesis using assms(2) by (cases trust) (simp_all add: named_node_def named_node_string_def)
qed

lemma blank_node_reads:
  "takes_blank ox trust b \<Longrightarrow> blank_node ox (blank_node_string b) trust = Inr b"
  using trim_start_blank [of b]
  by (cases trust) (simp_all add: blank_node_def blank_node_string_def takes_blank_def)

lemma named_spelling_starts:
  "\<not> starts_with (named_node_string n) ''_:''" "starts_with (named_node_string n) ''<''"
  "\<not> starts_with (named_node_string n) [quote]" "\<not> is_default_graph_spelling (named_node_string n)"
  by (auto simp: named_node_string_def starts_with_def is_default_graph_spelling_def ascii_lower_def)

lemma blank_spelling_starts:
  "starts_with (blank_node_string n) ''_:''" "\<not> is_default_graph_spelling (blank_node_string n)"
  by (auto simp: blank_node_string_def starts_with_def is_default_graph_spelling_def ascii_lower_def)

lemma parse_literal_reads:
  assumes law: "lawful_oxrdf ox" and l: "takes_literal ox trust l"
  shows "parse_literal ox (print_literal ox l) trust = Inr l"
proof -
  obtain e where e: "spells e (literal_value ox l)"
    and print: "print_literal ox l = [quote] @ e @ [quote] @ literal_suffix ox l"
    using law unfolding lawful_oxrdf_def by blast
  note v = unescape_literal_value_spells [OF e]
  have same: "k = l" if "same_literal ox k l" for k
    using law that unfolding lawful_oxrdf_def by blast
  note split = split_literal_spells [OF e, of "literal_suffix ox l"]
  show ?thesis
  proof (cases "literal_language ox l")
    case (Some tag)
    then have "split_literal (print_literal ox l) = Some (Language e tag)"
      using split print by (simp add: literal_suffix_def strip_prefix_def starts_with_def)
    moreover have "tagged_literal ox (literal_value ox l) tag = l"
      using law l Some by (intro same) (auto simp: same_literal_def lawful_oxrdf_def takes_literal_def wf_literal_def)
    ultimately show ?thesis
      using l Some v by (cases trust) (auto simp: parse_literal_def takes_literal_def)
  next
    case None
    show ?thesis
    proof (cases "literal_datatype ox l = XSD_STRING")
      case True
      then have "split_literal (print_literal ox l) = Some (Simple e)"
        using split print None by (simp add: literal_suffix_def)
      moreover have "simple_literal ox (literal_value ox l) = l"
        using law None True by (intro same) (auto simp: same_literal_def lawful_oxrdf_def)
      ultimately show ?thesis using v by (simp add: parse_literal_def)
    next
      case False
      let ?dt = "literal_datatype ox l"
      have "split_literal (print_literal ox l) = Some (Typed e (named_node_string ?dt))"
        using split print None False
        by (simp add: literal_suffix_def strip_prefix_def starts_with_def named_node_string_def)
      moreover have "typed_literal ox (literal_value ox l) ?dt = l"
        using law None by (intro same) (auto simp: same_literal_def lawful_oxrdf_def)
      moreover have "named_node ox (named_node_string ?dt) trust = Inr ?dt"
        using law l None by (intro named_node_reads) (auto simp: takes_literal_def wf_literal_def)
      ultimately show ?thesis using v by (simp add: parse_literal_def)
    qed
  qed
qed

lemma print_starts:
  assumes "lawful_oxrdf ox"
  shows "starts_with (print_literal ox l) [quote]" "\<not> starts_with (print_literal ox l) ''_:''"
    "\<not> starts_with (print_literal ox l) ''<''"
proof -
  obtain e where "print_literal ox l = [quote] @ e @ [quote] @ literal_suffix ox l"
    using assms unfolding lawful_oxrdf_def by blast
  then show "starts_with (print_literal ox l) [quote]" "\<not> starts_with (print_literal ox l) ''_:''"
    "\<not> starts_with (print_literal ox l) ''<''"
    by (simp_all add: starts_with_def)
qed

lemma subject_reads:
  "lawful_oxrdf ox \<Longrightarrow> takes_subject ox trust t \<Longrightarrow> parse_subject ox (subject_spelling t) trust = Inr t"
  by (cases t)
     (simp_all add: parse_subject_def named_spelling_starts blank_spelling_starts named_node_reads
       blank_node_reads)

lemma object_reads:
  "lawful_oxrdf ox \<Longrightarrow> takes_object ox trust t \<Longrightarrow> parse_term ox (object_spelling ox t) trust = Inr t"
  by (cases t)
     (simp_all add: parse_term_def named_spelling_starts blank_spelling_starts named_node_reads
       blank_node_reads print_starts parse_literal_reads)

lemma graph_reads:
  assumes "lawful_oxrdf ox" "takes_graph ox trust t"
  shows "parse_graph ox (graph_spelling t) trust = Inr t"
proof (cases t)
  case DefaultGraph
  then show ?thesis by (cases trust) (simp_all add: parse_graph_def is_default_graph_spelling_def)
next
  case (GraphNamed n)
  then show ?thesis using assms
    by (cases trust) (simp_all add: parse_graph_def named_spelling_starts named_node_reads, simp add: named_node_string_def)
next
  case (GraphBlank b)
  then show ?thesis using assms
    by (cases trust) (simp_all add: parse_graph_def blank_spelling_starts blank_node_reads, simp add: blank_node_string_def)
qed

section \<open>What a parse of input accepts\<close>

lemma named_node_Input: "named_node ox s Input = Inr n \<Longrightarrow> valid_iri ox n"
  by (auto simp: named_node_def Let_def split: if_splits)

lemma blank_node_Input: "blank_node ox s Input = Inr b \<Longrightarrow> takes_blank ox Input b"
  using wf_blank_trim [of s] by (auto simp: blank_node_def Let_def takes_blank_def split: if_splits)

lemma parse_subject_Input: "parse_subject ox s Input = Inr t \<Longrightarrow> takes_subject ox Input t"
  by (auto simp: parse_subject_def map_ok_Inr_iff named_node_Input blank_node_Input split: if_splits)

lemma parse_literal_Input:
  assumes "lawful_oxrdf ox" "parse_literal ox s Input = Inr l"
  shows "takes_literal ox Input l"
  using assms
  by (auto simp: parse_literal_def takes_literal_def wf_literal_def lawful_oxrdf_def map_ok_Inr_iff
      dest!: named_node_Input split: option.splits literal_form.splits)

lemma parse_term_Input:
  "lawful_oxrdf ox \<Longrightarrow> parse_term ox s Input = Inr t \<Longrightarrow> takes_object ox Input t"
  by (auto simp: parse_term_def map_ok_Inr_iff named_node_Input blank_node_Input parse_literal_Input
      split: if_splits)

lemma parse_graph_Input: "parse_graph ox s Input = Inr t \<Longrightarrow> takes_graph ox Input t"
  by (auto simp: parse_graph_def map_ok_Inr_iff named_node_Input blank_node_Input split: if_splits)

lemma takes_Stored:
  "wf_subject ox s \<Longrightarrow> takes_subject ox Stored s"
  "wf_object ox t \<Longrightarrow> takes_object ox Stored t"
  "wf_graph ox g \<Longrightarrow> takes_graph ox Stored g"
    apply (cases s; simp add: takes_blank_def)
   apply (cases t; simp add: takes_blank_def takes_literal_def)
  apply (cases g; simp add: takes_blank_def)
  done

lemma takes_Input:
  "takes_subject ox Input s \<Longrightarrow> wf_subject ox s"
  "takes_object ox Input t \<Longrightarrow> wf_object ox t"
  "takes_graph ox Input g \<Longrightarrow> wf_graph ox g"
    apply (cases s; simp add: takes_blank_def)
   apply (cases t; simp add: takes_blank_def takes_literal_def)
  apply (cases g; simp add: takes_blank_def)
  done

lemma quad_reads:
  assumes "lawful_oxrdf ox" "wf_quad ox q" "from_quad ox q = raw"
  shows "quad_from_terms ox (raw_s raw) (raw_p raw) (raw_o raw) (raw_g raw) = Inr q"
proof -
  note raw = assms(3) [symmetric]
  show ?thesis
    using assms(1,2) unfolding raw wf_quad_def quad_from_terms_def from_quad_def raw_quad.sel
    by (simp add: subject_reads object_reads graph_reads named_node_reads takes_Stored)
qed

text \<open>The spelling of any position is its own canonical spelling: a subject's and a graph's nodes
  are spelled as an object's are.\<close>

lemma canonical_spelling_object:
  assumes "lawful_oxrdf ox" "takes_object ox Input t"
  shows "canonical_spelling ox (object_spelling ox t) = Inr (object_spelling ox t)"
proof -
  have "\<not> is_default_graph_spelling (object_spelling ox t)"
  proof (cases t)
    case (TermLiteral l)
    then obtain cs where "object_spelling ox t = quote # cs"
      using print_starts(1) [OF assms(1), of l] by (cases "print_literal ox l") (auto simp: starts_with_def)
    then show ?thesis by (simp add: is_default_graph_spelling_def ascii_lower_def)
  qed (simp_all add: named_spelling_starts blank_spelling_starts)
  then show ?thesis using object_reads [OF assms] by (simp add: canonical_spelling_def)
qed

fun subject_object :: "subject_term \<Rightarrow> 'l object_term" where
  "subject_object (SubjectNamed n) = TermNamed n"
| "subject_object (SubjectBlank b) = TermBlank b"

lemma subject_object_spelling [simp]:
  "object_spelling ox (subject_object s) = subject_spelling s"
  "takes_object ox trust (subject_object s) \<longleftrightarrow> takes_subject ox trust s"
  by (cases s; simp)+

lemma canonical_spelling_graph:
  assumes "lawful_oxrdf ox" "takes_graph ox Input g"
  shows "canonical_spelling ox (graph_spelling g) = Inr (graph_spelling g)"
  using assms canonical_spelling_object [of ox "TermNamed _"] canonical_spelling_object [of ox "TermBlank _"]
  by (cases g) (simp_all add: canonical_spelling_def is_default_graph_spelling_def)

section \<open>A concrete library\<close>

text \<open>Literals as their value, language and datatype, printed with the quotes and backslashes
  escaped: the laws can hold.\<close>

datatype plain_literal = PlainLiteral (pl_value: string) (pl_language: "string option") (pl_datatype: string)

definition plain_escape :: "string \<Rightarrow> string" where
  "plain_escape v =
     concat (map (\<lambda>c. if c = quote \<or> c = backslash then [backslash, c] else [c]) v)"

definition plain_print :: "plain_literal \<Rightarrow> string" where
  "plain_print l =
     [quote] @ plain_escape (pl_value l) @ [quote] @
     (case pl_language l of
        Some tag \<Rightarrow> ''@'' @ tag
      | None \<Rightarrow> if pl_datatype l = XSD_STRING then [] else ''^^<'' @ pl_datatype l @ ''>'')"

definition plain_oxrdf :: "plain_literal oxrdf" where
  "plain_oxrdf =
     \<lparr> valid_iri = (\<lambda>iri. CHR ''<'' \<notin> set iri \<and> CHR ''>'' \<notin> set iri \<and> CHR '':'' \<in> set iri),
       valid_blank = (\<lambda>b. b \<noteq> []),
       checked_tag = (\<lambda>tag. if tag = [] then None else Some (map ascii_lower tag)),
       simple_literal = (\<lambda>v. PlainLiteral v None XSD_STRING),
       tagged_literal = (\<lambda>v tag. PlainLiteral v (Some tag) RDF_LANG_STRING),
       typed_literal = (\<lambda>v dt. PlainLiteral v None dt),
       literal_value = pl_value, literal_language = pl_language, literal_datatype = pl_datatype,
       print_literal = plain_print \<rparr>"

lemma plain_escape_Cons:
  "plain_escape (c # v) =
     (if c = quote \<or> c = backslash then backslash # c # plain_escape v else c # plain_escape v)"
  by (simp add: plain_escape_def)

lemma plain_escape_spells: "spells (plain_escape v) v"
proof (induction v)
  case Nil
  then show ?case by (simp add: plain_escape_def spells_Nil)
next
  case (Cons c v)
  have short: "(quote, quote) \<in> set short_escapes" "(backslash, backslash) \<in> set short_escapes"
    by (simp_all add: short_escapes_def)
  show ?case
  proof (cases "c = quote \<or> c = backslash")
    case True
    then have "(c, c) \<in> set short_escapes" using short by blast
    then show ?thesis using True spells_short Cons.IH by (simp only: plain_escape_Cons if_True)
  next
    case False
    then have "spells (c # plain_escape v) (c # v)"
      using Cons.IH by (intro spells_raw) simp_all
    then show ?thesis using False by (simp only: plain_escape_Cons if_False)
  qed
qed

lemma ascii_lower_idem: "ascii_lower (ascii_lower c) = ascii_lower c"
proof (cases "65 \<le> (of_char c :: nat) \<and> of_char c \<le> (90 :: nat)")
  case True
  then have "ascii_lower c = char_of (of_char c + 32 :: nat)" "(of_char c + 32 :: nat) mod 256 = of_char c + 32"
    by (simp_all add: ascii_lower_def)
  then show ?thesis using True by (simp add: ascii_lower_def [of "char_of _"])
next
  case False
  then have "ascii_lower c = c" by (auto simp: ascii_lower_def Let_def)
  then show ?thesis by simp
qed

lemma plain_fields [simp]:
  "valid_iri plain_oxrdf iri \<longleftrightarrow> CHR ''<'' \<notin> set iri \<and> CHR ''>'' \<notin> set iri \<and> CHR '':'' \<in> set iri"
  "valid_blank plain_oxrdf b \<longleftrightarrow> b \<noteq> []"
  "checked_tag plain_oxrdf tag = (if tag = [] then None else Some (map ascii_lower tag))"
  "simple_literal plain_oxrdf v = PlainLiteral v None XSD_STRING"
  "tagged_literal plain_oxrdf v tag = PlainLiteral v (Some tag) RDF_LANG_STRING"
  "typed_literal plain_oxrdf v dt = PlainLiteral v None dt"
  "literal_value plain_oxrdf = pl_value" "literal_language plain_oxrdf = pl_language"
  "literal_datatype plain_oxrdf = pl_datatype" "print_literal plain_oxrdf = plain_print"
  by (simp_all add: plain_oxrdf_def)

lemma plain_print_spells:
  "\<exists>e. spells e (pl_value l) \<and> plain_print l = [quote] @ e @ [quote] @ literal_suffix plain_oxrdf l"
proof (intro exI conjI)
  show "plain_print l = [quote] @ plain_escape (pl_value l) @ [quote] @ literal_suffix plain_oxrdf l"
    by (simp add: plain_print_def literal_suffix_def split: option.splits)
qed (rule plain_escape_spells)

lemma plain_lawful: "lawful_oxrdf plain_oxrdf"
  unfolding lawful_oxrdf_def plain_fields
  using plain_print_spells
  by (simp add: XSD_STRING_def ascii_lower_idem same_literal_def plain_literal.expand)

section \<open>Round trips\<close>

text \<open>C36. The closing quote of a literal, found eight bytes at a time and by counting the backslashes
  behind each quote, is the first quote that reading the bytes in order finds unescaped; a spelling
  that does not open with a quote has none.\<close>

theorem closing_quote_first_unescaped:
  "closing_quote s =
     (case s of
        [] \<Rightarrow> None
      | c # cs \<Rightarrow> if c = quote then map_option Suc (scan_quote False cs) else None)"
  by (rule closing_quote_scan)

text \<open>C31. A quad of validated terms, no blank id of which itself starts with \<open>_:\<close>, written as strings is read
  back from them, whatever escapes the library prints its literals with, and a literal spelled straight into a line is spelled as the
  columns hold it.\<close>

theorem stored_quads_round_trip:
  assumes "lawful_oxrdf ox" "wf_quad ox q"
  shows "quad_from_terms ox (raw_s (from_quad ox q)) (raw_p (from_quad ox q)) (raw_o (from_quad ox q))
           (raw_g (from_quad ox q)) = Inr q \<and>
         push_spelling ox out (quad_object q) = out @ raw_o (from_quad ox q)"
  using quad_reads [OF assms refl]
  by (cases "quad_object q") (simp_all add: from_quad_def named_node_string_def blank_node_string_def)

definition sample_quad :: "plain_literal rdf_quad" where
  "sample_quad =
     \<lparr> quad_subject = SubjectBlank ''b'', quad_predicate = ''a:p'',
       quad_object = TermLiteral (PlainLiteral [quote, backslash, CHR ''x''] (Some ''en'') RDF_LANG_STRING),
       quad_graph = DefaultGraph \<rparr>"

theorem stored_quads_round_trip_witness:
  "quad_from_terms plain_oxrdf ''_:b'' ''<a:p>''
     [quote, backslash, quote, backslash, backslash, CHR ''x'', quote, CHR ''@'', CHR ''e'', CHR ''n''] [] =
   Inr sample_quad"
proof -
  have wf: "wf_quad plain_oxrdf sample_quad"
    by (simp add: wf_quad_def sample_quad_def wf_blank_def starts_with_def wf_literal_def)
  have "from_quad plain_oxrdf sample_quad =
      RawQuad ''_:b'' ''<a:p>''
        [quote, backslash, quote, backslash, backslash, CHR ''x'', quote, CHR ''@'', CHR ''e'', CHR ''n''] []"
    by (simp add: from_quad_def sample_quad_def blank_node_string_def named_node_string_def
        plain_print_def plain_escape_def)
  then show ?thesis using stored_quads_round_trip [OF plain_lawful wf, of "[]"] by simp
qed

text \<open>C34. A canonical quad is a normal form: its four spellings are canonical again, give the same
  quad, are each their own canonical spelling, and are what the terms they read back to are written
  as.\<close>

theorem canonical_normal_form:
  assumes "lawful_oxrdf ox" "canonical ox s p obj g = Inr raw"
  shows "canonical ox (raw_s raw) (raw_p raw) (raw_o raw) (raw_g raw) = Inr raw \<and>
    (\<exists>q. quad_from_terms ox (raw_s raw) (raw_p raw) (raw_o raw) (raw_g raw) = Inr q \<and> from_quad ox q = raw) \<and>
    canonical_spelling ox (raw_s raw) = Inr (raw_s raw) \<and>
    canonical_spelling ox (raw_p raw) = Inr (raw_p raw) \<and>
    canonical_spelling ox (raw_o raw) = Inr (raw_o raw) \<and>
    canonical_spelling ox (raw_g raw) = Inr (raw_g raw)"
proof -
  obtain subj pred ob gr where parsed: "parse_subject ox s Input = Inr subj" "named_node ox p Input = Inr pred"
      "parse_term ox obj Input = Inr ob" "parse_graph ox g Input = Inr gr"
    and raw: "from_quad ox
       \<lparr> quad_subject = subj, quad_predicate = pred, quad_object = ob, quad_graph = gr \<rparr> = raw"
    using assms(2) by (auto simp: canonical_def and_then_Inr_iff)
  note takes = parse_subject_Input [OF parsed(1)] named_node_Input [OF parsed(2)]
    parse_term_Input [OF assms(1) parsed(3)] parse_graph_Input [OF parsed(4)]
  define q where
    "q = \<lparr> quad_subject = subj, quad_predicate = pred, quad_object = ob, quad_graph = gr \<rparr>"
  have wf: "wf_quad ox q"
    using takes by (simp add: q_def wf_quad_def takes_Input)
  have fields: "raw_s raw = subject_spelling subj" "raw_p raw = named_node_string pred"
      "raw_o raw = object_spelling ox ob" "raw_g raw = graph_spelling gr"
    by (simp_all add: raw [symmetric] from_quad_def)
  have "canonical ox (raw_s raw) (raw_p raw) (raw_o raw) (raw_g raw) = Inr raw"
    using assms(1) takes
    by (simp add: canonical_def fields subject_reads named_node_reads object_reads graph_reads raw
        at_place_def)
  then show ?thesis
    using quad_reads [OF assms(1) wf raw [folded q_def]] raw takes
      canonical_spelling_object [OF assms(1), of "subject_object subj"]
      canonical_spelling_object [OF assms(1), of "TermNamed pred"]
      canonical_spelling_object [OF assms(1), of ob] canonical_spelling_graph [OF assms(1), of gr]
    by (auto simp: fields q_def)
qed

theorem canonical_normal_form_witness:
  "canonical plain_oxrdf ''a:s'' ''a:p'' [quote, CHR ''x'', quote, CHR ''@'', CHR ''E''] ''DEFAULT'' =
     Inr (RawQuad ''<a:s>'' ''<a:p>'' [quote, CHR ''x'', quote, CHR ''@'', CHR ''e''] []) \<and>
   canonical plain_oxrdf ''<a:s>'' ''<a:p>'' [quote, CHR ''x'', quote, CHR ''@'', CHR ''e''] [] =
     Inr (RawQuad ''<a:s>'' ''<a:p>'' [quote, CHR ''x'', quote, CHR ''@'', CHR ''e''] [])"
proof -
  have "canonical plain_oxrdf ''a:s'' ''a:p'' [quote, CHR ''x'', quote, CHR ''@'', CHR ''E''] ''DEFAULT'' =
      Inr (RawQuad ''<a:s>'' ''<a:p>'' [quote, CHR ''x'', quote, CHR ''@'', CHR ''e''] [])"
    by code_simp
  then show ?thesis using canonical_normal_form [OF plain_lawful] by fastforce
qed

text \<open>A blank node whose id leads with the prefix is read back as another one.\<close>

lemma blank_prefix_stripped_twice:
  "blank_node ox (blank_node_string ''_:x'') Stored = Inr ''x''"
proof -
  have "trim_start_matches ''_:'' (''_:'' @ ''_:'' @ ''x'') = ''x''"
    by (simp add: trim_start_matches.simps starts_with_def)
  then show ?thesis by (simp add: blank_node_def blank_node_string_def)
qed

end
