(* ===== verification/StringLayouts.thy ===== *)
theory StringLayouts
  imports TypedEq Spellings
begin

text \<open>
  The layouts that store terms as strings: Default's four columns
  (\<open>src/core/src/store/layouts/default.rs\<close>), TypedObject's object split into kind, value, datatype
  and language (\<open>typed_object.rs\<close>), and their rows read back as quads, as raw quads and as lines
  (\<open>strings.rs\<close>). A chunk is the table of its columns; the null cells of a string column have an
  empty view. The sortedness stamp a build may set on a column is a statistic and no cell.
\<close>

section \<open>Objects in typed sub-columns\<close>

type_synonym object_parts = "nat \<times> string \<times> string option \<times> string option"

fun decompose_object :: "'l oxrdf \<Rightarrow> 'l object_term \<Rightarrow> object_parts" where
  "decompose_object ox (TermNamed n) = (0, n, None, None)"
| "decompose_object ox (TermBlank b) = (1, b, None, None)"
| "decompose_object ox (TermLiteral l) =
     (case literal_language ox l of
        Some lang \<Rightarrow> (3, literal_value ox l, None, Some lang)
      | None \<Rightarrow>
          let dt = literal_datatype ox l
          in if dt = XSD_STRING then (2, literal_value ox l, None, None)
             else (4, literal_value ox l, Some dt, None))"

definition unwrap_or :: "'a option \<Rightarrow> 'a \<Rightarrow> 'a" where
  "unwrap_or x d = (case x of Some y \<Rightarrow> y | None \<Rightarrow> d)"

definition compose_object ::
    "'l oxrdf \<Rightarrow> nat \<Rightarrow> string \<Rightarrow> string option \<Rightarrow> string option \<Rightarrow> 'l object_term fallible" where
  "compose_object ox kind v datatype lang =
     (if kind = 0 then Inr (TermNamed v)
      else if kind = 1 then Inr (TermBlank v)
      else if kind = 2 then Inr (TermLiteral (simple_literal ox v))
      else if kind = 3 then Inr (TermLiteral (tagged_literal ox v (unwrap_or lang [])))
      else if kind = 4 then Inr (TermLiteral (typed_literal ox v (unwrap_or datatype XSD_STRING)))
      else Inl (Deserialization [''Unknown object kind'']))"

section \<open>Columns of strings\<close>

datatype string_layout = DefaultStrings | TypedObjectStrings

definition make_string_array :: "string list \<Rightarrow> column" where
  "make_string_array xs =
     \<lparr> col_type = Utf8, col_nullable = False, col_cells = map TextScalar xs,
       col_encoding = ViewEncoding xs, col_probe = None \<rparr>"

definition nullable_string_array :: "string option list \<Rightarrow> column" where
  "nullable_string_array xs =
     \<lparr> col_type = Utf8, col_nullable = True,
       col_cells = map (\<lambda>x. case x of Some s \<Rightarrow> TextScalar s | None \<Rightarrow> NullScalar) xs,
       col_encoding = ViewEncoding (map (\<lambda>x. unwrap_or x []) xs), col_probe = None \<rparr>"

definition kind_array :: "nat list \<Rightarrow> column" where
  "kind_array ks =
     \<lparr> col_type = UInt 1, col_nullable = False, col_cells = map CodeScalar ks,
       col_encoding = PrimitiveEncoding ks, col_probe = None \<rparr>"

text \<open>\<open>collect\<close> into a result: the first error ends it.\<close>

fun collect :: "'a fallible list \<Rightarrow> 'a list fallible" where
  "collect [] = Inr []"
| "collect (x # xs) = and_then x (\<lambda>y. map_ok (Cons y) (collect xs))"

definition default_columns :: "raw_quad list \<Rightarrow> (string \<times> column) list" where
  "default_columns quads =
     [(''s'', make_string_array (map raw_s quads)), (''p'', make_string_array (map raw_p quads)),
      (''o'', make_string_array (map raw_o quads)), (''g'', make_string_array (map raw_g quads))]"

definition typed_object_columns ::
    "'l oxrdf \<Rightarrow> raw_quad list \<Rightarrow> (string \<times> column) list fallible" where
  "typed_object_columns ox quads =
     map_ok (\<lambda>parts.
         [(''s'', make_string_array (map raw_s quads)), (''p'', make_string_array (map raw_p quads)),
          (''o_kind'', kind_array (map fst parts)),
          (''o_value'', make_string_array (map (fst \<circ> snd) parts)),
          (''o_datatype'', nullable_string_array (map (fst \<circ> snd \<circ> snd) parts)),
          (''o_lang'', nullable_string_array (map (snd \<circ> snd \<circ> snd) parts)),
          (''g'', make_string_array (map raw_g quads))])
       (collect (map (\<lambda>q. map_ok (decompose_object ox) (parse_term ox (raw_o q) Stored)) quads))"

definition rows_table :: "nat \<Rightarrow> (string \<times> column) list \<Rightarrow> table" where
  "rows_table n cols = \<lparr> tb_len = n, tb_columns = cols, tb_probes = [], tb_component = False \<rparr>"

definition build_struct_array :: "'l oxrdf \<Rightarrow> string_layout \<Rightarrow> raw_quad list \<Rightarrow> table fallible" where
  "build_struct_array ox layout quads =
     map_ok (rows_table (length quads))
       (case layout of
          DefaultStrings \<Rightarrow> Inr (default_columns quads)
        | TypedObjectStrings \<Rightarrow> typed_object_columns ox quads)"

section \<open>Rows read back\<close>

text \<open>A string column by name, read through its views; a missing or differently typed column is an
  error.\<close>

definition field_strings :: "table \<Rightarrow> string \<Rightarrow> string list fallible" where
  "field_strings t name =
     (case map_of (tb_columns t) name of
        None \<Rightarrow> Inl (Deserialization [name])
      | Some col \<Rightarrow>
          (case col_encoding col of
             ViewEncoding views \<Rightarrow>
               if col_type col = Utf8 then Inr views else Inl (Deserialization [name])
           | _ \<Rightarrow> Inl (Deserialization [name])))"

definition field_kinds :: "table \<Rightarrow> string \<Rightarrow> nat list fallible" where
  "field_kinds t name =
     (case map_of (tb_columns t) name of
        None \<Rightarrow> Inl (Deserialization [name])
      | Some col \<Rightarrow>
          (case col_encoding col of
             PrimitiveEncoding ks \<Rightarrow>
               if col_type col = UInt 1 then Inr ks else Inl (Deserialization [name])
           | _ \<Rightarrow> Inl (Deserialization [name])))"

definition ok :: "'a fallible \<Rightarrow> 'a option" where
  "ok r = (case r of Inl e \<Rightarrow> None | Inr x \<Rightarrow> Some x)"

record object_columns =
  oc_kind :: "nat list"
  oc_value :: "string list"
  oc_datatype :: "string list option"
  oc_lang :: "string list option"

definition load_objects :: "table \<Rightarrow> object_columns fallible" where
  "load_objects t =
     and_then (field_kinds t ''o_kind'') (\<lambda>kinds.
     map_ok (\<lambda>vals.
         \<lparr> oc_kind = kinds, oc_value = vals, oc_datatype = ok (field_strings t ''o_datatype''),
           oc_lang = ok (field_strings t ''o_lang'') \<rparr>)
       (field_strings t ''o_value''))"

definition nullable_str_at :: "string list option \<Rightarrow> nat \<Rightarrow> string option" where
  "nullable_str_at col i =
     (case col of
        None \<Rightarrow> None
      | Some views \<Rightarrow> if views ! i = [] then None else Some (views ! i))"

definition term_at :: "'l oxrdf \<Rightarrow> object_columns \<Rightarrow> nat \<Rightarrow> 'l object_term fallible" where
  "term_at ox cols i =
     compose_object ox (oc_kind cols ! i) (oc_value cols ! i) (nullable_str_at (oc_datatype cols) i)
       (nullable_str_at (oc_lang cols) i)"

definition object_terms :: "'l oxrdf \<Rightarrow> table \<Rightarrow> string list fallible" where
  "object_terms ox t =
     and_then (load_objects t) (\<lambda>objects.
     collect (map (\<lambda>i. map_ok (push_spelling ox []) (term_at ox objects i)) [0..<tb_len t]))"

definition raw_quads :: "'l oxrdf \<Rightarrow> string_layout \<Rightarrow> table \<Rightarrow> raw_quad list fallible" where
  "raw_quads ox layout t =
     and_then (case layout of
         DefaultStrings \<Rightarrow> field_strings t ''o''
       | TypedObjectStrings \<Rightarrow> object_terms ox t) (\<lambda>objects.
     and_then (field_strings t ''s'') (\<lambda>s.
     and_then (field_strings t ''p'') (\<lambda>p.
     map_ok (\<lambda>g. map (\<lambda>(((s, p), ob), g). RawQuad s p ob g) (zip (zip (zip s p) objects) g))
       (field_strings t ''g''))))"

text \<open>\<open>decode_chunk\<close> of either layout: a column that cannot be read is the one error, a row whose
  terms do not parse an error at its place.\<close>

definition default_decode :: "'l oxrdf \<Rightarrow> table \<Rightarrow> 'l rdf_quad fallible list" where
  "default_decode ox t =
     (case and_then (field_strings t ''s'') (\<lambda>s. and_then (field_strings t ''p'') (\<lambda>p.
           and_then (field_strings t ''o'') (\<lambda>ob. map_ok (\<lambda>g. (s, p, ob, g)) (field_strings t ''g'')))) of
        Inl e \<Rightarrow> [Inl e]
      | Inr (s, p, ob, g) \<Rightarrow>
          map (\<lambda>i. quad_from_terms ox (s ! i) (p ! i) (ob ! i) (g ! i)) [0..<tb_len t])"

definition typed_object_decode :: "'l oxrdf \<Rightarrow> table \<Rightarrow> 'l rdf_quad fallible list" where
  "typed_object_decode ox t =
     (case and_then (field_strings t ''s'') (\<lambda>s. and_then (field_strings t ''p'') (\<lambda>p.
           and_then (load_objects t) (\<lambda>ob. map_ok (\<lambda>g. (s, p, ob, g)) (field_strings t ''g'')))) of
        Inl e \<Rightarrow> [Inl e]
      | Inr (s, p, objects, g) \<Rightarrow>
          map (\<lambda>i.
              and_then (parse_subject ox (s ! i) Stored) (\<lambda>subj.
              and_then (named_node ox (p ! i) Stored) (\<lambda>pred.
              and_then (term_at ox objects i) (\<lambda>ob.
              map_ok (\<lambda>gr. \<lparr> quad_subject = subj, quad_predicate = pred, quad_object = ob,
                             quad_graph = gr \<rparr>)
                (parse_graph ox (g ! i) Stored))))) [0..<tb_len t])"

definition layout_quads :: "'l oxrdf \<Rightarrow> string_layout \<Rightarrow> table \<Rightarrow> 'l rdf_quad fallible list" where
  "layout_quads ox layout t =
     (case layout of
        DefaultStrings \<Rightarrow> default_decode ox t
      | TypedObjectStrings \<Rightarrow> typed_object_decode ox t)"

fun typed_lines ::
    "'l oxrdf \<Rightarrow> object_columns \<Rightarrow> (nat \<Rightarrow> string) \<Rightarrow> (nat \<Rightarrow> string) \<Rightarrow> (nat \<Rightarrow> string) \<Rightarrow> nat list \<Rightarrow>
       nquad_lines \<Rightarrow> nquad_lines fallible" where
  "typed_lines ox objects s p g [] lines = Inr lines"
| "typed_lines ox objects s p g (i # rest) lines =
     (let lines = lines_term (lines_term lines (s i)) (p i)
      in and_then (term_at ox objects i) (\<lambda>t.
           let lines = lines\<lparr> lines_text := push_spelling ox (lines_text lines) t @ '' '' \<rparr>
           in typed_lines ox objects s p g rest (lines_end lines (g i))))"

definition layout_lines :: "'l oxrdf \<Rightarrow> string_layout \<Rightarrow> table \<Rightarrow> nquad_lines fallible" where
  "layout_lines ox layout t =
     and_then (field_strings t ''s'') (\<lambda>s.
     and_then (field_strings t ''p'') (\<lambda>p.
     and_then (field_strings t ''g'') (\<lambda>g.
     (case layout of
        DefaultStrings \<Rightarrow>
          map_ok (\<lambda>ob. fold (\<lambda>i lines. lines_push lines (RawQuad (s ! i) (p ! i) (ob ! i) (g ! i)))
              [0..<tb_len t] no_lines)
            (field_strings t ''o'')
      | TypedObjectStrings \<Rightarrow>
          and_then (load_objects t) (\<lambda>objects.
            typed_lines ox objects ((!) s) ((!) p) ((!) g) [0..<tb_len t] no_lines)))))"

section \<open>What is built is read back\<close>

lemma collect_Inr: "(\<And>x. x \<in> set xs \<Longrightarrow> f x = Inr (h x)) \<Longrightarrow> collect (map f xs) = Inr (map h xs)"
  by (induction xs) auto

lemma map_ok_comp: "map_ok f (map_ok h r) = map_ok (f \<circ> h) r"
  by (cases r) (simp_all add: map_ok_def)

text \<open>The cells of the nullable columns: an absent or an empty value reads as none.\<close>

definition read_back :: "string option \<Rightarrow> string option" where
  "read_back x = (case x of Some s \<Rightarrow> if s = [] then None else Some s | None \<Rightarrow> None)"

lemma nullable_str_at_cells:
  "i < length xs \<Longrightarrow> nullable_str_at (Some (map (\<lambda>x. unwrap_or x []) xs)) i = read_back (xs ! i)"
  by (auto simp: nullable_str_at_def read_back_def unwrap_or_def split: option.splits)

lemma same_literalI:
  "lawful_oxrdf ox \<Longrightarrow> same_literal ox l k \<Longrightarrow> l = k"
  unfolding lawful_oxrdf_def by blast

lemma compose_decompose:
  assumes law: "lawful_oxrdf ox" and t: "wf_object ox t" and parts: "decompose_object ox t = (k, v, d, l)"
  shows "compose_object ox k v (read_back d) (read_back l) = Inr t"
proof (cases t)
  case (TermLiteral lit)
  show ?thesis
  proof (cases "literal_language ox lit")
    case (Some tag)
    then have dt: "literal_datatype ox lit = RDF_LANG_STRING"
      using t TermLiteral by (simp add: wf_literal_def)
    have "tagged_literal ox (literal_value ox lit) tag = lit"
      using law Some dt by (intro same_literalI [OF law]) (simp add: same_literal_def lawful_oxrdf_def)
    then show ?thesis using parts TermLiteral Some
      by (auto simp: compose_object_def read_back_def unwrap_or_def split: option.splits)
  next
    case None
    then have valid: "valid_iri ox (literal_datatype ox lit)"
      using t TermLiteral by (simp add: wf_literal_def)
    then have ne: "literal_datatype ox lit \<noteq> []" using law by (auto simp: lawful_oxrdf_def)
    have "typed_literal ox (literal_value ox lit) (literal_datatype ox lit) = lit"
      using law None by (intro same_literalI [OF law]) (simp add: same_literal_def lawful_oxrdf_def)
    moreover have "simple_literal ox (literal_value ox lit) = lit"
      if "literal_datatype ox lit = XSD_STRING"
      using law None that by (intro same_literalI [OF law]) (simp add: same_literal_def lawful_oxrdf_def)
    ultimately show ?thesis using parts TermLiteral None ne
      by (auto simp: compose_object_def read_back_def unwrap_or_def Let_def split: if_splits)
  qed
qed (use parts in \<open>auto simp: compose_object_def\<close>)

text \<open>The columns \<open>built\<close> of a list of quads, and what each field reads.\<close>

definition built :: "'l oxrdf \<Rightarrow> string_layout \<Rightarrow> 'l rdf_quad list \<Rightarrow> table" where
  "built ox layout qs =
     (let raws = map (from_quad ox) qs; parts = map (\<lambda>q. decompose_object ox (quad_object q)) qs
      in rows_table (length qs)
        (case layout of
           DefaultStrings \<Rightarrow> default_columns raws
         | TypedObjectStrings \<Rightarrow>
             [(''s'', make_string_array (map raw_s raws)), (''p'', make_string_array (map raw_p raws)),
              (''o_kind'', kind_array (map fst parts)),
              (''o_value'', make_string_array (map (fst \<circ> snd) parts)),
              (''o_datatype'', nullable_string_array (map (fst \<circ> snd \<circ> snd) parts)),
              (''o_lang'', nullable_string_array (map (snd \<circ> snd \<circ> snd) parts)),
              (''g'', make_string_array (map raw_g raws))]))"

lemma build_built:
  assumes "lawful_oxrdf ox" "\<forall>q \<in> set qs. wf_quad ox q"
  shows "build_struct_array ox layout (map (from_quad ox) qs) = Inr (built ox layout qs)"
proof (cases layout)
  case TypedObjectStrings
  have "map_ok (decompose_object ox) (parse_term ox (raw_o (from_quad ox q)) Stored) =
      Inr (decompose_object ox (quad_object q))" if "q \<in> set qs" for q
    using assms that by (simp add: from_quad_def object_reads takes_Stored wf_quad_def)
  then have "collect (map (\<lambda>q. map_ok (decompose_object ox) (parse_term ox (raw_o q) Stored))
        (map (from_quad ox) qs)) = Inr (map (\<lambda>q. decompose_object ox (quad_object q)) qs)"
    unfolding map_map comp_def by (intro collect_Inr) simp
  then show ?thesis using TypedObjectStrings
    by (simp add: build_struct_array_def typed_object_columns_def built_def Let_def)
qed (simp add: build_struct_array_def built_def)

lemma built_len [simp]: "tb_len (built ox layout qs) = length qs"
  by (simp add: built_def rows_table_def Let_def)

lemma built_fields:
  "field_strings (built ox layout qs) ''s'' = Inr (map (\<lambda>q. raw_s (from_quad ox q)) qs)"
  "field_strings (built ox layout qs) ''p'' = Inr (map (\<lambda>q. raw_p (from_quad ox q)) qs)"
  "field_strings (built ox layout qs) ''g'' = Inr (map (\<lambda>q. raw_g (from_quad ox q)) qs)"
  "field_strings (built ox DefaultStrings qs) ''o'' = Inr (map (\<lambda>q. raw_o (from_quad ox q)) qs)"
  by (cases layout; simp add: built_def field_strings_def default_columns_def rows_table_def
      make_string_array_def Let_def comp_def)+

definition built_objects :: "'l oxrdf \<Rightarrow> 'l rdf_quad list \<Rightarrow> object_columns" where
  "built_objects ox qs =
     (let parts = map (\<lambda>q. decompose_object ox (quad_object q)) qs
      in \<lparr> oc_kind = map fst parts, oc_value = map (fst \<circ> snd) parts,
           oc_datatype = Some (map (\<lambda>x. unwrap_or x []) (map (fst \<circ> snd \<circ> snd) parts)),
           oc_lang = Some (map (\<lambda>x. unwrap_or x []) (map (snd \<circ> snd \<circ> snd) parts)) \<rparr>)"

lemma built_objects: "load_objects (built ox TypedObjectStrings qs) = Inr (built_objects ox qs)"
  by (simp add: built_objects_def load_objects_def built_def rows_table_def field_kinds_def
      field_strings_def make_string_array_def nullable_string_array_def kind_array_def ok_def Let_def
      comp_def)

lemma term_at_built:
  assumes "lawful_oxrdf ox" "\<forall>q \<in> set qs. wf_quad ox q" "i < length qs"
  shows "term_at ox (built_objects ox qs) i = Inr (quad_object (qs ! i))"
proof -
  obtain k v d l where parts: "decompose_object ox (quad_object (qs ! i)) = (k, v, d, l)"
    by (metis prod_cases4)
  have "nullable_str_at (oc_datatype (built_objects ox qs)) i = read_back d"
      "nullable_str_at (oc_lang (built_objects ox qs)) i = read_back l"
    using assms(3) parts by (simp_all add: built_objects_def Let_def nullable_str_at_cells del: map_map)
  then show ?thesis
    using compose_decompose [OF assms(1) _ parts] assms(2,3) parts
    by (simp add: term_at_def built_objects_def Let_def wf_quad_def)
qed

lemma zip_raw_quads:
  "map (\<lambda>(((s, p), ob), g). RawQuad s p ob g)
     (zip (zip (zip (map (\<lambda>q. raw_s (f q)) qs) (map (\<lambda>q. raw_p (f q)) qs)) (map (\<lambda>q. raw_o (f q)) qs))
       (map (\<lambda>q. raw_g (f q)) qs)) = map f qs"
  by (induction qs) auto

lemma push_spelling_object: "push_spelling ox out t = out @ object_spelling ox t"
  by (cases t) (simp_all add: named_node_string_def blank_node_string_def)

lemma map_upt_nth: "map (\<lambda>i. f (xs ! i)) [0..<length xs] = map f xs"
  by (rule nth_equalityI) simp_all

lemma raw_quads_built:
  assumes "lawful_oxrdf ox" "\<forall>q \<in> set qs. wf_quad ox q"
  shows "raw_quads ox layout (built ox layout qs) = Inr (map (from_quad ox) qs)"
proof (cases layout)
  case DefaultStrings
  then show ?thesis
    by (simp add: raw_quads_def built_fields zip_raw_quads)
next
  case TypedObjectStrings
  have "object_terms ox (built ox TypedObjectStrings qs) =
      Inr (map (\<lambda>i. object_spelling ox (quad_object (qs ! i))) [0..<length qs])"
    unfolding object_terms_def built_objects and_then_Inr built_len
    by (intro collect_Inr) (simp add: term_at_built [OF assms] push_spelling_object)
  also have "\<dots> = Inr (map (\<lambda>q. raw_o (from_quad ox q)) qs)"
    using map_upt_nth [of "\<lambda>q. object_spelling ox (quad_object q)" qs]
    by (simp add: from_quad_def)
  finally show ?thesis using TypedObjectStrings
    by (simp add: raw_quads_def built_fields zip_raw_quads)
qed

lemma decode_built:
  assumes "lawful_oxrdf ox" "\<forall>q \<in> set qs. wf_quad ox q"
  shows "layout_quads ox layout (built ox layout qs) = map Inr qs"
proof -
  have "layout_quads ox layout (built ox layout qs) = map (\<lambda>i. Inr (qs ! i)) [0..<length qs]"
  proof (cases layout)
    case DefaultStrings
    show ?thesis
      unfolding DefaultStrings layout_quads_def string_layout.case default_decode_def built_fields
        and_then_Inr map_ok_Inr sum.case prod.case built_len
      by (rule map_cong [OF refl]) (use assms in \<open>simp add: quad_reads [OF _ _ refl]\<close>)
  next
    case TypedObjectStrings
    show ?thesis
      unfolding TypedObjectStrings layout_quads_def string_layout.case typed_object_decode_def
        built_fields built_objects and_then_Inr map_ok_Inr sum.case prod.case built_len
    proof (rule map_cong [OF refl], goal_cases)
      case (1 i)
      then have i: "i < length qs" "wf_quad ox (qs ! i)" using assms by auto
      then show ?case
        using assms(1) by (simp add: term_at_built [OF assms] from_quad_def wf_quad_def subject_reads
            named_node_reads graph_reads takes_Stored)
    qed
  qed
  then show ?thesis using map_upt_nth [of Inr qs] by simp
qed

lemma lines_push_alt:
  "lines_push lines q =
     lines_end (let lines = lines_term (lines_term lines (raw_s q)) (raw_p q)
                in lines\<lparr> lines_text := (lines_text lines @ raw_o q) @ '' '' \<rparr>) (raw_g q)"
  by (simp add: lines_push_def lines_term_def)

lemma typed_lines_built:
  assumes "lawful_oxrdf ox" "\<forall>q \<in> set qs. wf_quad ox q" "\<forall>i \<in> set is. i < length qs"
    and "\<And>i. i < length qs \<Longrightarrow> s i = raw_s (from_quad ox (qs ! i)) \<and> p i = raw_p (from_quad ox (qs ! i)) \<and>
           g i = raw_g (from_quad ox (qs ! i))"
  shows "typed_lines ox (built_objects ox qs) s p g is lines =
    Inr (fold (\<lambda>i lines. lines_push lines (from_quad ox (qs ! i))) is lines)"
  using assms(3)
proof (induction "is" arbitrary: lines)
  case (Cons i rest)
  have "raw_o (from_quad ox (qs ! i)) = object_spelling ox (quad_object (qs ! i))"
    by (simp add: from_quad_def)
  then have "lines_push lines (from_quad ox (qs ! i)) =
      lines_end (let lines = lines_term (lines_term lines (s i)) (p i)
        in lines\<lparr> lines_text := push_spelling ox (lines_text lines) (quad_object (qs ! i)) @ '' '' \<rparr>) (g i)"
    using assms(4) [of i] Cons.prems by (simp add: lines_push_alt push_spelling_object)
  then show ?case
    using Cons by (simp add: term_at_built [OF assms(1,2)] Let_def)
qed simp

lemma fold_upt_nth: "fold (\<lambda>i. f (xs ! i)) [0..<length xs] = fold f xs"
  by (rule ext) (metis (no_types, lifting) fold_map map_nth comp_def fold_cong)

lemma lines_built:
  assumes "lawful_oxrdf ox" "\<forall>q \<in> set qs. wf_quad ox q"
  shows "layout_lines ox layout (built ox layout qs) =
    Inr (fold (\<lambda>q lines. lines_push lines q) (map (from_quad ox) qs) no_lines)"
proof -
  have "layout_lines ox layout (built ox layout qs) =
    Inr (fold (\<lambda>i lines. lines_push lines (from_quad ox (qs ! i))) [0..<length qs] no_lines)"
  proof (cases layout)
    case DefaultStrings
    have "fold (\<lambda>i lines. lines_push lines (RawQuad (map (\<lambda>q. raw_s (from_quad ox q)) qs ! i)
           (map (\<lambda>q. raw_p (from_quad ox q)) qs ! i) (map (\<lambda>q. raw_o (from_quad ox q)) qs ! i)
           (map (\<lambda>q. raw_g (from_quad ox q)) qs ! i))) [0..<length qs] no_lines =
        fold (\<lambda>i lines. lines_push lines (from_quad ox (qs ! i))) [0..<length qs] no_lines"
      by (rule fold_cong) simp_all
    then show ?thesis using DefaultStrings
      by (simp add: layout_lines_def built_fields)
  next
    case TypedObjectStrings
    then show ?thesis
      using assms by (simp add: layout_lines_def built_fields built_objects typed_lines_built)
  qed
  also have "fold (\<lambda>i lines. lines_push lines (from_quad ox (qs ! i))) [0..<length qs] no_lines =
      fold (\<lambda>q lines. lines_push lines (from_quad ox q)) qs no_lines"
    using fold_upt_nth [of "\<lambda>q lines. lines_push lines (from_quad ox q)" qs] by simp
  finally show ?thesis by (simp add: fold_map comp_def)
qed

text \<open>C35. Whichever string layout a build writes, the columns of validated quads are built without
  error and read back as the quads themselves, as their raw spellings (a TypedObject object
  recomposed from its parts) and as the lines of those spellings. No blank id of the quads starts
  with \<open>_:\<close>.\<close>

theorem string_layouts_read_back:
  assumes "lawful_oxrdf ox" "\<forall>q \<in> set qs. wf_quad ox q"
  shows "\<exists>t. build_struct_array ox layout (map (from_quad ox) qs) = Inr t \<and>
    layout_quads ox layout t = map Inr qs \<and>
    raw_quads ox layout t = Inr (map (from_quad ox) qs) \<and>
    layout_lines ox layout t = Inr (fold (\<lambda>q lines. lines_push lines q) (map (from_quad ox) qs) no_lines)"
  using build_built [OF assms] decode_built [OF assms] raw_quads_built [OF assms] lines_built [OF assms]
  by blast

lemma sample_quad_wf: "wf_quad plain_oxrdf sample_quad"
  by (simp add: wf_quad_def sample_quad_def wf_blank_def starts_with_def wf_literal_def)

theorem string_layouts_read_back_witness:
  "\<exists>t. build_struct_array plain_oxrdf TypedObjectStrings (map (from_quad plain_oxrdf) [sample_quad]) = Inr t \<and>
    layout_quads plain_oxrdf TypedObjectStrings t = [Inr sample_quad]"
  using string_layouts_read_back [OF plain_lawful, of "[sample_quad]" TypedObjectStrings] sample_quad_wf
  by auto

end
