(* ===== verification/Dictionary.thy ===== *)
theory Dictionary
  imports Spellings "HOL-Library.List_Lexorder" "HOL-Library.Char_ord"
begin

text \<open>
  The term dictionary of a Dictionary-layout store
  (\<open>src/core/src/store/layouts/dictionary/term_dict.rs\<close>): a store's distinct spellings in byte
  order, a term's code being its rank. How the terms are stored (compressed, in chunks) is left to
  the storage: the model has the terms it decodes. Strings compare as their bytes do.
\<close>

section \<open>Searches\<close>

datatype comparison = Less | Equal | Greater

definition compare_bytes :: "string \<Rightarrow> string \<Rightarrow> comparison" where
  "compare_bytes a b = (if a < b then Less else if a = b then Equal else Greater)"

function lower_bound_by :: "nat \<Rightarrow> nat \<Rightarrow> (nat \<Rightarrow> bool) \<Rightarrow> nat" where
  "lower_bound_by lo hi is_below =
     (if lo < hi then
        let mid = lo + (hi - lo) div 2
        in if is_below mid then lower_bound_by (mid + 1) hi is_below
           else lower_bound_by lo mid is_below
      else lo)"
  by pat_completeness auto
termination
  by (relation "measure (\<lambda>(lo, hi, is_below). hi - lo)") auto

declare lower_bound_by.simps [simp del]

function find_by :: "nat \<Rightarrow> nat \<Rightarrow> (nat \<Rightarrow> comparison) \<Rightarrow> nat option" where
  "find_by lo hi cmp =
     (if lo < hi then
        let mid = lo + (hi - lo) div 2
        in case cmp mid of
            Less \<Rightarrow> find_by (mid + 1) hi cmp
          | Equal \<Rightarrow> Some mid
          | Greater \<Rightarrow> find_by lo mid cmp
      else None)"
  by pat_completeness auto
termination
  by (relation "measure (\<lambda>(lo, hi, cmp). hi - lo)") auto

declare find_by.simps [simp del]

text \<open>The galloping search: the probes step out from the start, doubling, until one fails. A probe
  before \<open>lo\<close> would need a position past \<open>usize::MAX\<close>, where no range reaches.\<close>

function gallop_loop :: "nat \<Rightarrow> nat \<Rightarrow> nat \<Rightarrow> (nat \<Rightarrow> bool) \<Rightarrow> nat" where
  "gallop_loop lo past step is_below =
     (if lo < past then
        let probe = min (sat_add lo (step - 1)) (past - 1)
        in if \<not> is_below probe then lower_bound_by lo probe is_below
           else if probe < lo then past
           else gallop_loop (probe + 1) past (sat_mul step 2) is_below
      else past)"
  by pat_completeness auto
termination
  by (relation "measure (\<lambda>(lo, past, step, is_below). past - lo)") auto

declare gallop_loop.simps [simp del]

definition gallop_lower_bound_by :: "nat \<Rightarrow> nat \<Rightarrow> (nat \<Rightarrow> bool) \<Rightarrow> nat" where
  "gallop_lower_bound_by lo past is_below = gallop_loop lo past 1 is_below"

definition next_lower_bound_by :: "nat \<Rightarrow> nat \<Rightarrow> nat \<Rightarrow> (nat \<Rightarrow> bool) \<Rightarrow> nat" where
  "next_lower_bound_by lo past left is_below =
     (if past - lo < sat_mul left left then gallop_lower_bound_by lo past is_below
      else lower_bound_by lo past is_below)"

section \<open>The dictionary\<close>

text \<open>A code space is the number of its terms: outside the tests the first code is 0.\<close>

definition code_rank :: "nat \<Rightarrow> nat \<Rightarrow> nat \<Rightarrow> nat option" where
  "code_rank code base len =
     (if code < base then None else if code - base < len then Some (code - base) else None)"

definition code_base :: nat where
  "code_base = 0"

record term_dictionary =
  dict_terms :: "string list"

definition dict_len :: "term_dictionary \<Rightarrow> nat" where
  "dict_len d = length (dict_terms d)"

definition rank_of :: "term_dictionary \<Rightarrow> nat \<Rightarrow> nat option" where
  "rank_of d code = code_rank code code_base (dict_len d)"

definition code_at :: "nat \<Rightarrow> nat" where
  "code_at rank = code_base + rank"

definition code_end :: "term_dictionary \<Rightarrow> nat" where
  "code_end d = code_at (dict_len d)"

definition check_code :: "term_dictionary \<Rightarrow> nat \<Rightarrow> nat fallible" where
  "check_code d code =
     (case rank_of d code of
        Some rank \<Rightarrow> Inr rank
      | None \<Rightarrow> Inl (Deserialization [''Term code out of dictionary bounds'']))"

definition dict_decode :: "term_dictionary \<Rightarrow> nat \<Rightarrow> string option" where
  "dict_decode d code = map_option (\<lambda>rank. dict_terms d ! rank) (rank_of d code)"

definition encode_exact :: "term_dictionary \<Rightarrow> string \<Rightarrow> nat option" where
  "encode_exact d t =
     map_option code_at (find_by 0 (dict_len d) (\<lambda>i. compare_bytes (dict_terms d ! i) t))"

definition dict_lower_bound :: "term_dictionary \<Rightarrow> string \<Rightarrow> nat" where
  "dict_lower_bound d needle = code_at (lower_bound_by 0 (dict_len d) (\<lambda>i. dict_terms d ! i < needle))"

fun prefix_end :: "string \<Rightarrow> nat \<Rightarrow> nat" where
  "prefix_end p 0 = 0"
| "prefix_end p (Suc n) = (if p ! n = CHR 0xFF then prefix_end p n else Suc n)"

definition prefix_successor :: "string \<Rightarrow> string option" where
  "prefix_successor p =
     (let n = prefix_end p (length p)
      in if n = 0 then None
         else Some ((take n p)[n - 1 := char_of (of_char (p ! (n - 1)) + 1 :: nat)]))"

definition prefix_range_from :: "nat \<Rightarrow> nat option \<Rightarrow> nat \<Rightarrow> nat \<times> nat" where
  "prefix_range_from lo hi past = (lo, max (case hi of Some h \<Rightarrow> h | None \<Rightarrow> past) lo)"

definition prefix_range :: "term_dictionary \<Rightarrow> string \<Rightarrow> nat \<times> nat" where
  "prefix_range d p =
     prefix_range_from (dict_lower_bound d p)
       (map_option (dict_lower_bound d) (prefix_successor p)) (code_end d)"

text \<open>A lookup tolerant of spelling retries a miss with the canonical spelling.\<close>

definition tolerant_fallback :: "'l oxrdf \<Rightarrow> string \<Rightarrow> string option fallible" where
  "tolerant_fallback ox t =
     map_ok (\<lambda>spelled. if spelled \<noteq> t then Some spelled else None) (canonical_spelling ox t)"

definition fallback_code :: "'l oxrdf \<Rightarrow> term_dictionary \<Rightarrow> string \<Rightarrow> nat option fallible" where
  "fallback_code ox d t =
     map_ok (\<lambda>f. case f of None \<Rightarrow> None | Some spelled \<Rightarrow> encode_exact d spelled)
       (tolerant_fallback ox t)"

definition dict_encode :: "'l oxrdf \<Rightarrow> term_dictionary \<Rightarrow> string \<Rightarrow> nat option fallible" where
  "dict_encode ox d t =
     (case encode_exact d t of Some code \<Rightarrow> Inr (Some code) | None \<Rightarrow> fallback_code ox d t)"

text \<open>The batch: the exact lookups in byte order, each from where the one before landed, then the
  fallbacks in the order of the input.\<close>

fun search_sorted ::
    "term_dictionary \<Rightarrow> string list \<Rightarrow> nat list \<Rightarrow> nat \<Rightarrow> nat option list \<Rightarrow> nat option list" where
  "search_sorted d terms [] start codes = codes"
| "search_sorted d terms (at # order) start codes =
     (let needle = terms ! at; left = Suc (length order);
          rank = next_lower_bound_by start (dict_len d) left (\<lambda>i. dict_terms d ! i < needle)
      in search_sorted d terms order rank
           (if rank < dict_len d \<and> dict_terms d ! rank = needle then codes[at := Some (code_at rank)]
            else codes))"

fun fill_misses ::
    "'l oxrdf \<Rightarrow> term_dictionary \<Rightarrow> (nat option \<times> string) list \<Rightarrow> nat option list fallible" where
  "fill_misses ox d [] = Inr []"
| "fill_misses ox d ((Some code, t) # rest) = map_ok (Cons (Some code)) (fill_misses ox d rest)"
| "fill_misses ox d ((None, t) # rest) =
     and_then (fallback_code ox d t) (\<lambda>code. map_ok (Cons code) (fill_misses ox d rest))"

definition encode_many :: "'l oxrdf \<Rightarrow> term_dictionary \<Rightarrow> string list \<Rightarrow> nat option list fallible" where
  "encode_many ox d terms =
     (let order = sort_key (\<lambda>at. terms ! at) [0..<length terms];
          codes = search_sorted d terms order 0 (replicate (length terms) None)
      in fill_misses ox d (zip codes terms))"

definition decode_many :: "term_dictionary \<Rightarrow> nat list \<Rightarrow> string option list" where
  "decode_many d codes =
     map (\<lambda>code. case rank_of d code of Some rank \<Rightarrow> Some (dict_terms d ! rank) | None \<Rightarrow> None) codes"

section \<open>The searches find the bound\<close>

text \<open>\<open>bound_at\<close> is where the positions stop being below.\<close>

definition bound_at :: "nat \<Rightarrow> nat \<Rightarrow> (nat \<Rightarrow> bool) \<Rightarrow> nat \<Rightarrow> bool" where
  "bound_at lo hi is_below k \<longleftrightarrow>
     lo \<le> k \<and> k \<le> hi \<and> (\<forall>i. lo \<le> i \<longrightarrow> i < k \<longrightarrow> is_below i) \<and>
     (\<forall>i. k \<le> i \<longrightarrow> i < hi \<longrightarrow> \<not> is_below i)"

lemma lower_bound_by_eq: "bound_at lo hi is_below k \<Longrightarrow> lower_bound_by lo hi is_below = k"
proof (induction lo hi is_below rule: lower_bound_by.induct)
  case (1 lo hi is_below)
  let ?mid = "lo + (hi - lo) div 2"
  show ?case
  proof (cases "lo < hi")
    case True
    then have mid: "lo \<le> ?mid" "?mid < hi" by auto
    show ?thesis
    proof (cases "is_below ?mid")
      case below: True
      then have "?mid < k" using 1(3) mid unfolding bound_at_def by (metis not_le)
      then have "bound_at (?mid + 1) hi is_below k" using 1(3) mid by (auto simp: bound_at_def)
      then show ?thesis using 1(1) True below by (subst lower_bound_by.simps) (simp add: Let_def)
    next
      case False
      then have "k \<le> ?mid" using 1(3) mid unfolding bound_at_def by (metis not_le)
      then have "bound_at lo ?mid is_below k" using 1(3) mid by (auto simp: bound_at_def)
      then show ?thesis using 1(2) True False by (subst lower_bound_by.simps) (simp add: Let_def)
    qed
  next
    case False
    then show ?thesis using 1(3) by (subst lower_bound_by.simps) (auto simp: bound_at_def)
  qed
qed

lemma gallop_loop_eq: "bound_at lo past is_below k \<Longrightarrow> past \<le> u64_max \<Longrightarrow> gallop_loop lo past step is_below = k"
proof (induction lo past step is_below rule: gallop_loop.induct)
  case (1 lo past step is_below)
  let ?probe = "min (sat_add lo (step - 1)) (past - 1)"
  show ?case
  proof (cases "lo < past")
    case True
    then have probe: "lo \<le> ?probe" "?probe < past" using 1(3) by (auto simp: sat_add_def)
    show ?thesis
    proof (cases "is_below ?probe")
      case below: True
      then have "?probe < k" using 1(2) probe unfolding bound_at_def by (metis not_le)
      then have "bound_at (?probe + 1) past is_below k" using 1(2) probe by (auto simp: bound_at_def)
      moreover have "\<not> ?probe < lo" using probe by linarith
      ultimately show ?thesis using 1 True below by (subst gallop_loop.simps) (simp only: Let_def if_True if_False not_True_eq_False simp_thms)
    next
      case False
      then have "k \<le> ?probe" using 1(2) probe unfolding bound_at_def by (metis not_le)
      then have "bound_at lo ?probe is_below k" using 1(2) probe by (auto simp: bound_at_def)
      then show ?thesis using True False by (subst gallop_loop.simps) (simp add: Let_def lower_bound_by_eq)
    qed
  next
    case False
    then show ?thesis using 1(2) by (subst gallop_loop.simps) (auto simp: bound_at_def)
  qed
qed

lemma next_lower_bound_by_eq:
  "bound_at lo past is_below k \<Longrightarrow> past \<le> u64_max \<Longrightarrow> next_lower_bound_by lo past left is_below = k"
  by (simp add: next_lower_bound_by_def gallop_lower_bound_by_def gallop_loop_eq lower_bound_by_eq)

section \<open>Lookups\<close>

text \<open>A frozen dictionary: distinct terms in byte order, no more than a \<open>usize\<close> counts.\<close>

definition wf_dictionary :: "term_dictionary \<Rightarrow> bool" where
  "wf_dictionary d \<longleftrightarrow> sorted_wrt (<) (dict_terms d) \<and> dict_len d \<le> u64_max"

lemma terms_less:
  "wf_dictionary d \<Longrightarrow> i < j \<Longrightarrow> j < dict_len d \<Longrightarrow> dict_terms d ! i < dict_terms d ! j"
  by (simp add: wf_dictionary_def dict_len_def sorted_wrt_nth_less)

lemma terms_less_iff:
  "wf_dictionary d \<Longrightarrow> i < dict_len d \<Longrightarrow> j < dict_len d \<Longrightarrow>
   dict_terms d ! i < dict_terms d ! j \<longleftrightarrow> i < j"
  by (metis terms_less less_asym less_irrefl linorder_neqE_nat)

text \<open>The number of terms below a spelling bounds them.\<close>

definition below :: "term_dictionary \<Rightarrow> string \<Rightarrow> nat" where
  "below d t = length (takeWhile (\<lambda>x. x < t) (dict_terms d))"

lemma terms_below_le: "below d t \<le> dict_len d"
  by (simp add: below_def dict_len_def length_takeWhile_le)

lemma terms_below_iff:
  assumes "wf_dictionary d" "i < dict_len d"
  shows "dict_terms d ! i < t \<longleftrightarrow> i < below d t"
proof
  assume i: "dict_terms d ! i < t"
  show "i < below d t"
  proof (rule ccontr)
    let ?k = "below d t"
    assume "\<not> i < ?k"
    then have k: "?k \<le> i" by simp
    then have "\<not> dict_terms d ! ?k < t"
      using assms(2) unfolding below_def dict_len_def by (intro nth_length_takeWhile) linarith
    moreover have "dict_terms d ! ?k \<le> dict_terms d ! i"
      using k assms terms_less [of d ?k i] by (cases "?k = i") auto
    ultimately show False using i by (meson le_less_trans)
  qed
next
  assume "i < below d t"
  then show "dict_terms d ! i < t"
    unfolding below_def using set_takeWhileD [OF nth_mem] takeWhile_nth by metis
qed

lemma bound_at_below:
  "wf_dictionary d \<Longrightarrow> lo \<le> below d t \<Longrightarrow> bound_at lo (dict_len d) (\<lambda>i. dict_terms d ! i < t) (below d t)"
  using terms_below_le [of d t] by (auto simp: bound_at_def terms_below_iff)

lemma dict_lower_bound_below: "wf_dictionary d \<Longrightarrow> dict_lower_bound d t = below d t"
  using lower_bound_by_eq [OF bound_at_below] by (simp add: dict_lower_bound_def code_at_def code_base_def)

lemma below_mono: "t \<le> u \<Longrightarrow> below d t \<le> below d u"
proof -
  assume "t \<le> u"
  then have "takeWhile (\<lambda>x. x < t) xs = takeWhile (\<lambda>x. x < t) (takeWhile (\<lambda>x. x < u) xs)" for xs :: "string list"
    by (induction xs) auto
  then show ?thesis unfolding below_def by (metis length_takeWhile_le)
qed

lemma find_by_Some:
  "find_by lo hi cmp = Some i \<Longrightarrow> lo \<le> i \<and> i < hi \<and> cmp i = Equal"
proof (induction lo hi cmp rule: find_by.induct)
  case (1 lo hi cmp)
  let ?mid = "lo + (hi - lo) div 2"
  have "lo < hi" using 1(3) by (subst (asm) find_by.simps) (auto split: if_splits)
  then have mid: "lo \<le> ?mid" "?mid < hi" by auto
  show ?case
    using 1 \<open>lo < hi\<close> mid by (subst (asm) find_by.simps) (auto simp: Let_def split: comparison.splits)
qed

lemma find_by_found:
  assumes "wf_dictionary d" "hi \<le> dict_len d" "lo \<le> k" "k < hi"
  shows "find_by lo hi (\<lambda>i. compare_bytes (dict_terms d ! i) (dict_terms d ! k)) = Some k"
  using assms(2-)
proof (induction "hi - lo" arbitrary: lo hi rule: less_induct)
  case less
  let ?cmp = "\<lambda>i. compare_bytes (dict_terms d ! i) (dict_terms d ! k)"
  let ?mid = "lo + (hi - lo) div 2"
  have mid: "lo \<le> ?mid" "?mid < hi" using less.prems by auto
  have cmp: "?cmp ?mid = (if ?mid < k then Less else if ?mid = k then Equal else Greater)"
    using terms_less_iff [OF assms(1), of ?mid k] terms_less_iff [OF assms(1), of k ?mid] less.prems mid
    by (auto simp: compare_bytes_def)
  have step: "find_by lo hi ?cmp =
      (case ?cmp ?mid of Less \<Rightarrow> find_by (?mid + 1) hi ?cmp | Equal \<Rightarrow> Some ?mid | Greater \<Rightarrow> find_by lo ?mid ?cmp)"
    using less.prems by (subst find_by.simps) (simp add: Let_def)
  consider "?mid < k" | "?mid = k" | "k < ?mid" by linarith
  then show ?case
  proof cases
    case 1
    then show ?thesis using less.hyps [of hi "?mid + 1"] less.prems mid step cmp by simp
  next
    case 2
    then show ?thesis using step cmp by simp
  next
    case 3
    then show ?thesis using less.hyps [of ?mid lo] less.prems mid step cmp by simp
  qed
qed

lemma encode_exact_Some_iff:
  assumes "wf_dictionary d"
  shows "encode_exact d t = Some code \<longleftrightarrow> code < dict_len d \<and> dict_terms d ! code = t"
proof
  assume "encode_exact d t = Some code"
  then have "find_by 0 (dict_len d) (\<lambda>i. compare_bytes (dict_terms d ! i) t) = Some code"
    by (auto simp: encode_exact_def code_at_def code_base_def)
  from find_by_Some [OF this] show "code < dict_len d \<and> dict_terms d ! code = t"
    by (auto simp: compare_bytes_def split: if_splits)
next
  assume "code < dict_len d \<and> dict_terms d ! code = t"
  then show "encode_exact d t = Some code"
    using find_by_found [OF assms, of "dict_len d" 0 code]
    by (auto simp: encode_exact_def code_at_def code_base_def)
qed

section \<open>Prefixes\<close>

lemma starts_with_Nil [simp]: "starts_with t []"
  by (simp add: starts_with_def)

lemma starts_with_Cons [simp]: "starts_with (d # t) (c # p) \<longleftrightarrow> d = c \<and> starts_with t p"
  "\<not> starts_with [] (c # p)"
  by (auto simp: starts_with_def)

lemma byte_bound: "(of_char c :: nat) \<le> 255"
  using nat_of_char_less_256 [of c] by linarith

lemma byte_le: "c \<le> CHR 0xFF"
  using byte_bound [of c] by (simp add: less_eq_char_def)

lemma starts_with_le: "starts_with t p \<Longrightarrow> p \<le> t"
proof (induction p arbitrary: t)
  case (Cons c p)
  then show ?case by (cases t) auto
qed simp

lemma top_bytes_prefix: "replicate k (CHR 0xFF) \<le> t \<Longrightarrow> starts_with t (replicate k (CHR 0xFF))"
proof (induction k arbitrary: t)
  case (Suc k)
  then obtain d t' where t: "t = d # t'" by (cases t) auto
  then have "d = CHR 0xFF" "replicate k (CHR 0xFF) \<le> t'"
    using Suc.prems byte_le [of d] by (auto simp: leD)
  then show ?case using Suc.IH t by simp
qed simp

lemma prefix_below_successor:
  assumes "(of_char e :: nat) = of_char c + 1" "p = u @ c # replicate k (CHR 0xFF)" "p \<le> t"
  shows "t < u @ [e] \<longleftrightarrow> starts_with t p"
  using assms(2,3)
proof (induction u arbitrary: p t)
  case Nil
  then obtain d t' where t: "t = d # t'" by (cases t) auto
  have "c < e" using assms(1) by (simp add: less_char_def)
  have "d < e \<longleftrightarrow> d \<le> c" using assms(1) by (auto simp: less_char_def less_eq_char_def)
  then show ?case
    using Nil t \<open>c < e\<close> by (auto intro: top_bytes_prefix dest: starts_with_le)
next
  case (Cons x u)
  then obtain d t' where t: "t = d # t'" by (cases t) auto
  show ?case using Cons.prems Cons.IH [OF refl, of t'] t by auto
qed

lemma prefix_end_spec:
  "m \<le> length p \<Longrightarrow> prefix_end p m \<le> m \<and> (\<forall>i. prefix_end p m \<le> i \<longrightarrow> i < m \<longrightarrow> p ! i = CHR 0xFF) \<and>
     (0 < prefix_end p m \<longrightarrow> p ! (prefix_end p m - 1) \<noteq> CHR 0xFF)"
  by (induction m) (auto simp: less_Suc_eq)

lemma prefix_successor_bounds:
  assumes "p \<le> t"
  shows "starts_with t p \<longleftrightarrow> (case prefix_successor p of None \<Rightarrow> True | Some q \<Rightarrow> t < q)"
proof -
  let ?n = "prefix_end p (length p)"
  have n: "?n \<le> length p" "\<And>i. ?n \<le> i \<Longrightarrow> i < length p \<Longrightarrow> p ! i = CHR 0xFF"
    and last_byte: "0 < ?n \<Longrightarrow> p ! (?n - 1) \<noteq> CHR 0xFF"
    using prefix_end_spec [of "length p" p] by auto
  have tops: "drop ?n p = replicate (length p - ?n) (CHR 0xFF)"
    using n by (intro nth_equalityI) auto
  show ?thesis
  proof (cases "?n = 0")
    case True
    then show ?thesis
      using tops top_bytes_prefix [of "length p" t] assms by (simp add: prefix_successor_def)
  next
    case False
    let ?c = "p ! (?n - 1)" and ?u = "take (?n - 1) p"
    let ?e = "char_of (of_char ?c + 1 :: nat)"
    have "(of_char ?c :: nat) \<noteq> of_char (CHR 0xFF)"
      using last_byte False unfolding of_char_eq_iff by blast
    then have "(of_char ?c :: nat) \<noteq> 255" by simp
    then have "(of_char ?c :: nat) + 1 < 256" using byte_bound [of ?c] by linarith
    then have e: "(of_char ?e :: nat) = of_char ?c + 1" by simp
    have "take ?n p = ?u @ [?c]"
      using False n(1) take_Suc_conv_app_nth [of "?n - 1" p] by simp
    then have "p = ?u @ ?c # replicate (length p - ?n) (CHR 0xFF)"
      using tops append_take_drop_id [of ?n p] by (metis append.assoc append_Cons append_Nil)
    moreover have "prefix_successor p = Some (?u @ [?e])"
      using False n(1) \<open>take ?n p = ?u @ [?c]\<close>
      by (simp add: prefix_successor_def Let_def list_update_append)
    ultimately show ?thesis using prefix_below_successor [OF e _ assms] by simp
  qed
qed

lemma prefix_range_codes:
  assumes "wf_dictionary d" "prefix_range d p = (lo, hi)"
  shows "lo \<le> code \<and> code < hi \<longleftrightarrow> code < dict_len d \<and> starts_with (dict_terms d ! code) p"
proof (cases "code < dict_len d")
  case True
  let ?t = "dict_terms d ! code"
  have lo: "lo = below d p"
    and hi: "hi = max (case prefix_successor p of Some q \<Rightarrow> below d q | None \<Rightarrow> dict_len d) (below d p)"
    using assms by (auto simp: prefix_range_def prefix_range_from_def dict_lower_bound_below code_end_def
        code_at_def code_base_def split: option.splits)
  have "lo \<le> code \<longleftrightarrow> p \<le> ?t"
    using terms_below_iff [OF assms(1) True, of p] lo by auto
  moreover have "starts_with ?t p \<longleftrightarrow> code < hi" if "p \<le> ?t"
  proof -
    have ge: "below d p \<le> code" using that terms_below_iff [OF assms(1) True, of p] by auto
    show ?thesis
    proof (cases "prefix_successor p")
      case None
      then show ?thesis using prefix_successor_bounds [OF that] hi True by simp
    next
      case (Some q)
      then have "starts_with ?t p \<longleftrightarrow> code < below d q"
        using prefix_successor_bounds [OF that] terms_below_iff [OF assms(1) True, of q] by simp
      then show ?thesis using Some hi ge by (simp add: less_max_iff_disj)
    qed
  qed
  ultimately show ?thesis using True starts_with_le [of ?t p] by auto
next
  case False
  have "hi \<le> dict_len d"
    using assms terms_below_le [of d] by (auto simp: prefix_range_def prefix_range_from_def
        dict_lower_bound_below code_end_def code_at_def code_base_def split: option.splits)
  then show ?thesis using False by auto
qed

section \<open>Batches\<close>

lemma below_rank:
  assumes "wf_dictionary d" "rank < dict_len d"
  shows "below d (dict_terms d ! rank) = rank"
proof (rule ccontr)
  let ?b = "below d (dict_terms d ! rank)"
  assume "?b \<noteq> rank"
  moreover have "\<not> rank < ?b" using terms_below_iff [OF assms, of "dict_terms d ! rank"] by simp
  ultimately have "?b < rank" by simp
  then have "dict_terms d ! ?b < dict_terms d ! rank" using terms_less assms by blast
  then show False using terms_below_iff [OF assms(1), of ?b "dict_terms d ! rank"] \<open>?b < rank\<close> assms(2) by simp
qed

lemma encode_exact_below:
  assumes "wf_dictionary d"
  shows "encode_exact d t =
    (if below d t < dict_len d \<and> dict_terms d ! below d t = t then Some (below d t) else None)"
proof (cases "encode_exact d t")
  case None
  then show ?thesis using encode_exact_Some_iff [OF assms, of t "below d t"] by auto
next
  case (Some code)
  then have "code < dict_len d" "dict_terms d ! code = t"
    using encode_exact_Some_iff [OF assms] by auto
  then show ?thesis using Some below_rank [OF assms, of code] by auto
qed

lemma search_sorted_codes:
  assumes "wf_dictionary d" "sorted (map ((!) terms) order)" "distinct order"
    and "\<forall>at \<in> set order. at < length codes \<and> codes ! at = None \<and> start \<le> below d (terms ! at)"
  shows "length (search_sorted d terms order start codes) = length codes \<and>
    (\<forall>j < length codes. search_sorted d terms order start codes ! j =
       (if j \<in> set order then encode_exact d (terms ! j) else codes ! j))"
  using assms(2-)
proof (induction order arbitrary: start codes)
  case (Cons at order)
  let ?needle = "terms ! at"
  have max: "dict_len d \<le> u64_max" using assms(1) by (simp add: wf_dictionary_def)
  have rank: "next_lower_bound_by start (dict_len d) (Suc (length order)) (\<lambda>i. dict_terms d ! i < ?needle) =
      below d ?needle"
    using Cons.prems(3) by (intro next_lower_bound_by_eq [OF bound_at_below max]) (auto simp: assms(1))
  define codes' where "codes' = (if below d ?needle < dict_len d \<and> dict_terms d ! below d ?needle = ?needle
     then codes[at := Some (code_at (below d ?needle))] else codes)"
  have codes': "length codes' = length codes" "\<And>j. j < length codes \<Longrightarrow>
      codes' ! j = (if j = at then encode_exact d ?needle else codes ! j)"
    using Cons.prems(3)
    by (auto simp: codes'_def encode_exact_below [OF assms(1)] code_at_def code_base_def)
  have step: "search_sorted d terms (at # order) start codes =
      search_sorted d terms order (below d ?needle) codes'"
    by (simp add: rank codes'_def Let_def)
  have "length (search_sorted d terms order (below d ?needle) codes') = length codes' \<and>
    (\<forall>j < length codes'. search_sorted d terms order (below d ?needle) codes' ! j =
       (if j \<in> set order then encode_exact d (terms ! j) else codes' ! j))"
    using Cons.prems codes' by (intro Cons.IH) (auto intro: below_mono)
  then show ?case
    unfolding step using codes' Cons.prems by auto
qed simp

text \<open>\<open>collect\<close> into a result: the first error ends it.\<close>

fun encode_each :: "'l oxrdf \<Rightarrow> term_dictionary \<Rightarrow> string list \<Rightarrow> nat option list fallible" where
  "encode_each ox d [] = Inr []"
| "encode_each ox d (t # terms) =
     and_then (dict_encode ox d t) (\<lambda>code. map_ok (Cons code) (encode_each ox d terms))"

lemma fill_misses_encode:
  "fill_misses ox d (zip (map (encode_exact d) terms) terms) = encode_each ox d terms"
proof (induction terms)
  case (Cons t terms)
  then show ?case by (cases "encode_exact d t") (simp_all add: dict_encode_def)
qed simp

section \<open>What a dictionary answers\<close>

text \<open>C39. A term's code is its rank: a spelling has the code its decoding gives back and no other,
  every code below the dictionary's size has a term, and codes compare as their spellings' bytes do.\<close>

theorem dictionary_codes_are_ranks:
  assumes "wf_dictionary d"
  shows "(encode_exact d t = Some code \<longleftrightarrow> dict_decode d code = Some t) \<and>
    (dict_decode d code \<noteq> None \<longleftrightarrow> code < dict_len d) \<and>
    (dict_decode d code = Some t \<and> dict_decode d other = Some u \<longrightarrow> (code < other \<longleftrightarrow> t < u)) \<and>
    (dict_decode d code = Some t \<longrightarrow> dict_lower_bound d t = code)"
  using encode_exact_Some_iff [OF assms, of t code] terms_less_iff [OF assms, of code other]
    below_rank [OF assms, of code] dict_lower_bound_below [OF assms, of t]
  by (auto simp: dict_decode_def rank_of_def code_rank_def code_base_def)

definition sample_dictionary :: term_dictionary where
  "sample_dictionary = \<lparr> dict_terms = [[], ''<a:b>'', ''<a:c>'', ''_:x''] \<rparr>"

lemma sample_dictionary_wf: "wf_dictionary sample_dictionary"
  by (simp add: wf_dictionary_def sample_dictionary_def dict_len_def u64_max_def less_char_def)

theorem dictionary_codes_are_ranks_witness:
  "encode_exact sample_dictionary ''<a:c>'' = Some 2"
  using dictionary_codes_are_ranks [OF sample_dictionary_wf, of "''<a:c>''" 2]
  by (simp add: sample_dictionary_def dict_decode_def rank_of_def code_rank_def code_base_def dict_len_def)

text \<open>C38. The code range of a prefix holds exactly the codes whose terms are spelled with it, up to
  prefixes of top bytes, which have no successor.\<close>

theorem prefix_range_exact:
  assumes "wf_dictionary d" "prefix_range d p = (lo, hi)"
  shows "lo \<le> code \<and> code < hi \<longleftrightarrow> (\<exists>t. dict_decode d code = Some t \<and> starts_with t p)"
  using prefix_range_codes [OF assms, of code]
  by (auto simp: dict_decode_def rank_of_def code_rank_def code_base_def)

theorem prefix_range_exact_witness:
  "prefix_range sample_dictionary ''<a:'' = (1, 3) \<and>
   ((1::nat) \<le> 2 \<and> (2::nat) < 3 \<longleftrightarrow> (\<exists>t. dict_decode sample_dictionary 2 = Some t \<and> starts_with t ''<a:''))"
proof -
  have "prefix_range sample_dictionary ''<a:'' = (1, 3)" by code_simp
  then show ?thesis using prefix_range_exact [OF sample_dictionary_wf, of "''<a:''" 1 3 2] by blast
qed

text \<open>C37. Encoding a batch, its exact lookups run in byte order and each from where the last one
  landed, is encoding each term alone, in order, with the first malformed miss the error.\<close>

theorem encode_many_is_each:
  assumes "wf_dictionary d"
  shows "encode_many ox d terms = encode_each ox d terms"
proof -
  let ?order = "sort_key (\<lambda>at. terms ! at) [0..<length terms]"
  have "length (search_sorted d terms ?order 0 (replicate (length terms) None)) = length terms \<and>
    (\<forall>j < length terms. search_sorted d terms ?order 0 (replicate (length terms) None) ! j =
       encode_exact d (terms ! j))"
    using search_sorted_codes [OF assms, of terms ?order "replicate (length terms) None" 0] by auto
  then have "search_sorted d terms ?order 0 (replicate (length terms) None) = map (encode_exact d) terms"
    by (intro nth_equalityI) auto
  then show ?thesis by (simp add: encode_many_def fill_misses_encode)
qed

theorem encode_many_is_each_witness:
  "encode_many plain_oxrdf sample_dictionary [''_:x'', ''a:b'', ''<a:d>''] = Inr [Some 3, Some 1, None]"
proof -
  have "encode_each plain_oxrdf sample_dictionary [''_:x'', ''a:b'', ''<a:d>''] = Inr [Some 3, Some 1, None]"
    by code_simp
  then show ?thesis using encode_many_is_each [OF sample_dictionary_wf] by metis
qed

end
