(* ===== verification/Patterns.thy ===== *)
theory Patterns
  imports StringLayouts Dictionary
begin

text \<open>
  Quad patterns and what they compile to (\<open>src/core/src/store/layouts/pattern.rs\<close>, the columns of
  \<open>schema.rs\<close> and the resolution of bound terms by \<open>layouts/dictionary/handles.rs\<close>): four positions
  bound or free, the codes a match's prelude resolves, and the per-column equalities the bound
  terms lower to. The render buffer the codes carry holds no state a later call reads.
\<close>

section \<open>Columns by role\<close>

datatype quad_column = ColS | ColP | ColO | ColG

definition all_columns :: "quad_column list" where
  "all_columns = [ColS, ColP, ColO, ColG]"

fun column_index :: "quad_column \<Rightarrow> nat" where
  "column_index ColS = 0"
| "column_index ColP = 1"
| "column_index ColO = 2"
| "column_index ColG = 3"

fun column_name :: "quad_column \<Rightarrow> string" where
  "column_name ColS = ''s''"
| "column_name ColP = ''p''"
| "column_name ColO = ''o''"
| "column_name ColG = ''g''"

definition from_index :: "nat \<Rightarrow> quad_column option" where
  "from_index i = (if i < length all_columns then Some (all_columns ! i) else None)"

definition from_name :: "string \<Rightarrow> quad_column option" where
  "from_name name = find (\<lambda>c. column_name c = name) all_columns"

section \<open>Patterns\<close>

record 'l quad_pattern =
  pat_subject :: "subject_term option"
  pat_predicate :: "string option"
  pat_object :: "'l object_term option"
  pat_graph :: "graph_term option"

datatype 'l term_ref =
  RefSubject subject_term | RefPredicate string | RefObject "'l object_term" | RefGraph graph_term

definition any_bound :: "'l quad_pattern \<Rightarrow> bool" where
  "any_bound p \<longleftrightarrow>
     pat_subject p \<noteq> None \<or> pat_predicate p \<noteq> None \<or> pat_object p \<noteq> None \<or> pat_graph p \<noteq> None"

fun flatten :: "'a option list \<Rightarrow> 'a list" where
  "flatten [] = []"
| "flatten (None # xs) = flatten xs"
| "flatten (Some x # xs) = x # flatten xs"

fun while_some :: "'a option list \<Rightarrow> 'a list" where
  "while_some [] = []"
| "while_some (None # xs) = []"
| "while_some (Some x # xs) = x # while_some xs"

definition bound_roles :: "'l quad_pattern \<Rightarrow> 'l term_ref list" where
  "bound_roles p =
     flatten [map_option RefSubject (pat_subject p), map_option RefPredicate (pat_predicate p),
              map_option RefObject (pat_object p), map_option RefGraph (pat_graph p)]"

definition prefix_behind_subject :: "'l quad_pattern \<Rightarrow> 'l term_ref list" where
  "prefix_behind_subject p =
     while_some [map_option RefPredicate (pat_predicate p), map_option RefObject (pat_object p),
                 map_option RefGraph (pat_graph p)]"

definition clear_prefix_behind_subject :: "'l quad_pattern \<Rightarrow> nat \<Rightarrow> 'l quad_pattern" where
  "clear_prefix_behind_subject p answered =
     (let p = (if 0 < answered then p\<lparr> pat_predicate := None \<rparr> else p);
          p = (if 1 < answered then p\<lparr> pat_object := None \<rparr> else p)
      in if 2 < answered then p\<lparr> pat_graph := None \<rparr> else p)"

fun both :: "'a option \<Rightarrow> 'a option \<Rightarrow> 'a option option" where
  "both (Some a) (Some b) = (if a \<noteq> b then None else Some (Some a))"
| "both (Some a) None = Some (Some a)"
| "both None b = Some b"

definition pattern_and :: "'l quad_pattern \<Rightarrow> 'l quad_pattern \<Rightarrow> 'l quad_pattern option" where
  "pattern_and mine other =
     (case both (pat_subject mine) (pat_subject other) of None \<Rightarrow> None | Some s \<Rightarrow>
     (case both (pat_predicate mine) (pat_predicate other) of None \<Rightarrow> None | Some p \<Rightarrow>
     (case both (pat_object mine) (pat_object other) of None \<Rightarrow> None | Some ob \<Rightarrow>
     (case both (pat_graph mine) (pat_graph other) of None \<Rightarrow> None | Some g \<Rightarrow>
        Some \<lparr> pat_subject = s, pat_predicate = p, pat_object = ob, pat_graph = g \<rparr>))))"

fun role :: "'l term_ref \<Rightarrow> quad_column" where
  "role (RefSubject s) = ColS"
| "role (RefPredicate p) = ColP"
| "role (RefObject ob) = ColO"
| "role (RefGraph g) = ColG"

text \<open>The term's printed form, the default graph as the empty string of the \<open>g\<close> column.\<close>

fun write_nt :: "'l oxrdf \<Rightarrow> 'l term_ref \<Rightarrow> string" where
  "write_nt ox (RefSubject s) = subject_spelling s"
| "write_nt ox (RefPredicate p) = named_node_string p"
| "write_nt ox (RefObject ob) = object_spelling ox ob"
| "write_nt ox (RefGraph g) = graph_spelling g"

section \<open>Resolved codes\<close>

datatype layout_strategy = DefaultLayout | TypedObjectLayout | DictionaryLayout

text \<open>A role is not resolved, resolved and absent, or a code.\<close>

record pattern_codes =
  pc_roles :: "nat option option list"
  pc_layout :: layout_strategy

definition codes_new :: "layout_strategy \<Rightarrow> pattern_codes" where
  "codes_new layout = \<lparr> pc_roles = replicate 4 None, pc_layout = layout \<rparr>"

definition resolve ::
    "'l oxrdf \<Rightarrow> pattern_codes \<Rightarrow> 'l term_ref \<Rightarrow> (string \<Rightarrow> nat option) \<Rightarrow> nat option \<times> pattern_codes" where
  "resolve ox self t f =
     (let i = column_index (role t)
      in case pc_roles self ! i of
          Some cached \<Rightarrow> (cached, self)
        | None \<Rightarrow>
            let resolved = f (write_nt ox t)
            in (resolved, self\<lparr> pc_roles := (pc_roles self)[i := Some resolved] \<rparr>))"

definition seed :: "pattern_codes \<Rightarrow> 'l term_ref \<Rightarrow> nat option \<Rightarrow> pattern_codes" where
  "seed self t code =
     (let i = column_index (role t)
      in case pc_roles self ! i of
          Some cached \<Rightarrow> self
        | None \<Rightarrow> self\<lparr> pc_roles := (pc_roles self)[i := Some code] \<rparr>)"

definition probes_by_string :: "pattern_codes \<Rightarrow> bool" where
  "probes_by_string self \<longleftrightarrow> pc_layout self \<noteq> DictionaryLayout"

definition pattern_code :: "pattern_codes \<Rightarrow> 'l term_ref \<Rightarrow> nat option fallible" where
  "pattern_code self t =
     (case pc_roles self ! column_index (role t) of
        Some resolved \<Rightarrow> Inr resolved
      | None \<Rightarrow> Inl (Deserialization [''no code resolution'']))"

definition probe_scalar :: "'l oxrdf \<Rightarrow> pattern_codes \<Rightarrow> 'l term_ref \<Rightarrow> scalar option fallible" where
  "probe_scalar ox self t =
     (if probes_by_string self then Inr (Some (TextScalar (write_nt ox t)))
      else map_ok (map_option CodeScalar) (pattern_code self t))"

definition probe_code :: "pattern_codes \<Rightarrow> 'l term_ref \<Rightarrow> nat option fallible" where
  "probe_code self t = (if probes_by_string self then Inr None else pattern_code self t)"

definition provably_empty :: "pattern_codes \<Rightarrow> 'l quad_pattern \<Rightarrow> bool" where
  "provably_empty self p \<longleftrightarrow>
     \<not> probes_by_string self \<and>
     list_ex (\<lambda>t. pc_roles self ! column_index (role t) = Some None) (bound_roles p)"

datatype column_constraints = AlwaysFalse | EqAll equalities

fun constraints_loop ::
    "'l oxrdf \<Rightarrow> pattern_codes \<Rightarrow> 'l term_ref list \<Rightarrow> equalities \<Rightarrow> column_constraints fallible" where
  "constraints_loop ox self [] eqs = Inr (EqAll eqs)"
| "constraints_loop ox self (t # terms) eqs =
     (case (pc_layout self, t) of
        (TypedObjectLayout, RefObject ob) \<Rightarrow>
          (case decompose_object ox ob of
             (kind, v, dt, lang) \<Rightarrow>
               constraints_loop ox self terms
                 (eqs @ [(''o_kind'', CodeScalar kind), (''o_value'', TextScalar v)] @
                  (case dt of Some s \<Rightarrow> [(''o_datatype'', TextScalar s)] | None \<Rightarrow> []) @
                  (case lang of Some s \<Rightarrow> [(''o_lang'', TextScalar s)] | None \<Rightarrow> [])))
      | _ \<Rightarrow>
          if probes_by_string self then
            constraints_loop ox self terms (eqs @ [(column_name (role t), TextScalar (write_nt ox t))])
          else
            and_then (pattern_code self t) (\<lambda>code.
              case code of
                Some c \<Rightarrow> constraints_loop ox self terms (eqs @ [(column_name (role t), CodeScalar c)])
              | None \<Rightarrow> Inr AlwaysFalse))"

definition constraints :: "'l oxrdf \<Rightarrow> pattern_codes \<Rightarrow> 'l quad_pattern \<Rightarrow> column_constraints fallible" where
  "constraints ox self p = constraints_loop ox self (bound_roles p) []"

section \<open>The prelude\<close>

text \<open>A resolved layout reaches a dictionary in memory, or one left in its file, whose searches of
  the bound terms are the argument \<open>search\<close>.\<close>

datatype dict_access = Resident term_dictionary | FileBacked "string \<Rightarrow> nat option fallible"

datatype resolved_layout = ResolvedDefault | ResolvedTypedObject | ResolvedDictionary dict_access

fun strategy :: "resolved_layout \<Rightarrow> layout_strategy" where
  "strategy ResolvedDefault = DefaultLayout"
| "strategy ResolvedTypedObject = TypedObjectLayout"
| "strategy (ResolvedDictionary d) = DictionaryLayout"

fun resolve_loop ::
    "'l oxrdf \<Rightarrow> (string \<Rightarrow> nat option) \<Rightarrow> 'l term_ref list \<Rightarrow> pattern_codes \<Rightarrow> pattern_codes" where
  "resolve_loop ox f [] codes = codes"
| "resolve_loop ox f (t # terms) codes =
     (case resolve ox codes t f of
        (None, codes) \<Rightarrow> codes
      | (Some code, codes) \<Rightarrow> resolve_loop ox f terms codes)"

fun seed_loop ::
    "('l term_ref \<times> nat option fallible) list \<Rightarrow> pattern_codes \<Rightarrow> pattern_codes fallible" where
  "seed_loop [] codes = Inr codes"
| "seed_loop ((t, code) # rest) codes = and_then code (\<lambda>c. seed_loop rest (seed codes t c))"

fun resolve_pattern ::
    "'l oxrdf \<Rightarrow> dict_access \<Rightarrow> 'l quad_pattern \<Rightarrow> pattern_codes \<Rightarrow> pattern_codes fallible" where
  "resolve_pattern ox (Resident d) p codes = Inr (resolve_loop ox (encode_exact d) (bound_roles p) codes)"
| "resolve_pattern ox (FileBacked search) p codes =
     (let rendered = map (write_nt ox) (bound_roles p); resolved = map search rendered
      in seed_loop (zip (bound_roles p) resolved) codes)"

datatype prepared = PreparedEmpty | PreparedCodes pattern_codes

definition prepare_pattern ::
    "'l oxrdf \<Rightarrow> resolved_layout \<Rightarrow> 'l quad_pattern \<Rightarrow> prepared fallible" where
  "prepare_pattern ox layout p =
     map_ok (\<lambda>codes. if provably_empty codes p then PreparedEmpty else PreparedCodes codes)
       (case layout of
          ResolvedDictionary d \<Rightarrow> resolve_pattern ox d p (codes_new (strategy layout))
        | _ \<Rightarrow> Inr (codes_new (strategy layout)))"

section \<open>What a pattern means\<close>

fun ref_holds :: "'l rdf_quad \<Rightarrow> 'l term_ref \<Rightarrow> bool" where
  "ref_holds q (RefSubject s) \<longleftrightarrow> quad_subject q = s"
| "ref_holds q (RefPredicate p) \<longleftrightarrow> quad_predicate q = p"
| "ref_holds q (RefObject ob) \<longleftrightarrow> quad_object q = ob"
| "ref_holds q (RefGraph g) \<longleftrightarrow> quad_graph q = g"

fun bound_to :: "'a option \<Rightarrow> 'a \<Rightarrow> bool" where
  "bound_to None x \<longleftrightarrow> True"
| "bound_to (Some y) x \<longleftrightarrow> x = y"

definition quad_matches :: "'l quad_pattern \<Rightarrow> 'l rdf_quad \<Rightarrow> bool" where
  "quad_matches p q \<longleftrightarrow>
     bound_to (pat_subject p) (quad_subject q) \<and> bound_to (pat_predicate p) (quad_predicate q) \<and>
     bound_to (pat_object p) (quad_object q) \<and> bound_to (pat_graph p) (quad_graph q)"

fun wf_ref :: "'l oxrdf \<Rightarrow> 'l term_ref \<Rightarrow> bool" where
  "wf_ref ox (RefSubject s) \<longleftrightarrow> wf_subject ox s"
| "wf_ref ox (RefPredicate p) \<longleftrightarrow> valid_iri ox p"
| "wf_ref ox (RefObject ob) \<longleftrightarrow> wf_object ox ob"
| "wf_ref ox (RefGraph g) \<longleftrightarrow> wf_graph ox g"

definition wf_pattern :: "'l oxrdf \<Rightarrow> 'l quad_pattern \<Rightarrow> bool" where
  "wf_pattern ox p \<longleftrightarrow> list_all (wf_ref ox) (bound_roles p)"

lemma quad_matches_refs: "quad_matches p q \<longleftrightarrow> list_all (ref_holds q) (bound_roles p)"
  by (cases "pat_subject p"; cases "pat_predicate p"; cases "pat_object p"; cases "pat_graph p")
     (simp_all add: quad_matches_def bound_roles_def)

lemma bound_roles_distinct: "distinct (map role (bound_roles p))"
  by (cases "pat_subject p"; cases "pat_predicate p"; cases "pat_object p"; cases "pat_graph p")
     (simp_all add: bound_roles_def)

lemma any_bound_roles: "any_bound p \<longleftrightarrow> bound_roles p \<noteq> []"
  by (cases "pat_subject p"; cases "pat_predicate p"; cases "pat_object p"; cases "pat_graph p")
     (simp_all add: bound_roles_def any_bound_def)

text \<open>The spelling a quad's row has in a term's column.\<close>

fun quad_ref :: "'l rdf_quad \<Rightarrow> quad_column \<Rightarrow> 'l term_ref" where
  "quad_ref q ColS = RefSubject (quad_subject q)"
| "quad_ref q ColP = RefPredicate (quad_predicate q)"
| "quad_ref q ColO = RefObject (quad_object q)"
| "quad_ref q ColG = RefGraph (quad_graph q)"

lemma ref_holds_alt: "ref_holds q t \<longleftrightarrow> quad_ref q (role t) = t"
  by (cases t) simp_all

lemma wf_quad_ref: "wf_quad ox q \<Longrightarrow> wf_ref ox (quad_ref q c)"
  by (cases c) (simp_all add: wf_quad_def)

lemma subject_spelling_inj:
  assumes "lawful_oxrdf ox" "wf_subject ox s" "wf_subject ox s'" "subject_spelling s = subject_spelling s'"
  shows "s = s'"
proof -
  have "Inr s = parse_subject ox (subject_spelling s) Stored"
    using subject_reads [OF assms(1) takes_Stored(1) [OF assms(2)]] by (rule sym)
  also have "\<dots> = Inr s'"
    unfolding assms(4) by (rule subject_reads [OF assms(1) takes_Stored(1) [OF assms(3)]])
  finally show ?thesis by simp
qed

lemma object_spelling_inj:
  assumes "lawful_oxrdf ox" "wf_object ox t" "wf_object ox t'" "object_spelling ox t = object_spelling ox t'"
  shows "t = t'"
proof -
  have "Inr t = parse_term ox (object_spelling ox t) Stored"
    using object_reads [OF assms(1) takes_Stored(2) [OF assms(2)]] by (rule sym)
  also have "\<dots> = Inr t'"
    unfolding assms(4) by (rule object_reads [OF assms(1) takes_Stored(2) [OF assms(3)]])
  finally show ?thesis by simp
qed

lemma graph_spelling_inj:
  assumes "lawful_oxrdf ox" "wf_graph ox g" "wf_graph ox g'" "graph_spelling g = graph_spelling g'"
  shows "g = g'"
proof -
  have "Inr g = parse_graph ox (graph_spelling g) Stored"
    using graph_reads [OF assms(1) takes_Stored(3) [OF assms(2)]] by (rule sym)
  also have "\<dots> = Inr g'"
    unfolding assms(4) by (rule graph_reads [OF assms(1) takes_Stored(3) [OF assms(3)]])
  finally show ?thesis by simp
qed

text \<open>Validated terms with the same spelling in the same role are the same.\<close>

lemma write_nt_inj:
  assumes "lawful_oxrdf ox" "wf_ref ox t" "wf_ref ox u" "role t = role u" "write_nt ox t = write_nt ox u"
  shows "t = u"
proof (cases t)
  case (RefSubject s)
  then obtain s' where u: "u = RefSubject s'" using assms(4) by (cases u) auto
  have "wf_subject ox s" "wf_subject ox s'" "subject_spelling s = subject_spelling s'"
    using assms(2,3,5) unfolding RefSubject u by simp_all
  then have "s = s'" by (rule subject_spelling_inj [OF assms(1)])
  then show ?thesis using RefSubject u by simp
next
  case (RefPredicate p)
  then obtain p' where "u = RefPredicate p'" using assms(4) by (cases u) auto
  then show ?thesis using RefPredicate assms by (simp add: named_node_string_def)
next
  case (RefObject ob)
  then obtain ob' where u: "u = RefObject ob'" using assms(4) by (cases u) auto
  have "wf_object ox ob" "wf_object ox ob'" "object_spelling ox ob = object_spelling ox ob'"
    using assms(2,3,5) unfolding RefObject u by simp_all
  then have "ob = ob'" by (rule object_spelling_inj [OF assms(1)])
  then show ?thesis using RefObject u by simp
next
  case (RefGraph g)
  then obtain g' where u: "u = RefGraph g'" using assms(4) by (cases u) auto
  have "wf_graph ox g" "wf_graph ox g'" "graph_spelling g = graph_spelling g'"
    using assms(2,3,5) unfolding RefGraph u by simp_all
  then have "g = g'" by (rule graph_spelling_inj [OF assms(1)])
  then show ?thesis using RefGraph u by simp
qed

lemma ref_holds_spelling:
  assumes "lawful_oxrdf ox" "wf_ref ox t" "wf_quad ox q"
  shows "ref_holds q t \<longleftrightarrow> write_nt ox (quad_ref q (role t)) = write_nt ox t"
  using write_nt_inj [OF assms(1) wf_quad_ref [OF assms(3)] assms(2), of "role t"]
  by (cases t) (auto simp: ref_holds_alt)

section \<open>Equalities of the string layouts\<close>

fun string_strategy :: "string_layout \<Rightarrow> layout_strategy" where
  "string_strategy DefaultStrings = DefaultLayout"
| "string_strategy TypedObjectStrings = TypedObjectLayout"

fun ref_eqs :: "'l oxrdf \<Rightarrow> string_layout \<Rightarrow> 'l term_ref \<Rightarrow> equalities" where
  "ref_eqs ox TypedObjectStrings (RefObject ob) =
     (case decompose_object ox ob of
        (kind, v, dt, lang) \<Rightarrow>
          [(''o_kind'', CodeScalar kind), (''o_value'', TextScalar v)] @
          (case dt of Some s \<Rightarrow> [(''o_datatype'', TextScalar s)] | None \<Rightarrow> []) @
          (case lang of Some s \<Rightarrow> [(''o_lang'', TextScalar s)] | None \<Rightarrow> []))"
| "ref_eqs ox layout t = [(column_name (role t), TextScalar (write_nt ox t))]"

lemma constraints_loop_strings:
  assumes "pc_layout codes = string_strategy layout"
  shows "constraints_loop ox codes terms eqs = Inr (EqAll (eqs @ concat (map (ref_eqs ox layout) terms)))"
proof (induction terms arbitrary: eqs)
  case (Cons t terms)
  have "probes_by_string codes" using assms by (cases layout) (simp_all add: probes_by_string_def)
  then show ?case using Cons assms
    by (cases layout; cases t) (simp_all split: prod.split)
qed simp

lemma prepare_pattern_strings:
  "prepare_pattern ox (case layout of DefaultStrings \<Rightarrow> ResolvedDefault | TypedObjectStrings \<Rightarrow> ResolvedTypedObject) p =
     Inr (PreparedCodes (codes_new (string_strategy layout)))"
  by (cases layout) (simp_all add: prepare_pattern_def provably_empty_def probes_by_string_def codes_new_def)

lemma string_cell:
  assumes "i < length qs" "layout = DefaultStrings \<or> role t \<noteq> ColO"
  shows "eq_row (built ox layout qs) (column_name (role t), TextScalar (write_nt ox t)) i \<longleftrightarrow>
    write_nt ox (quad_ref (qs ! i) (role t)) = write_nt ox t"
  using assms
  by (cases layout; cases t)
     (simp_all add: eq_row_def built_def rows_table_def default_columns_def make_string_array_def
       from_quad_def Let_def)

lemma decompose_inj:
  assumes "lawful_oxrdf ox" "wf_object ox t" "wf_object ox u" "decompose_object ox t = decompose_object ox u"
  shows "t = u"
proof -
  obtain k v d l where "decompose_object ox t = (k, v, d, l)" by (metis prod_cases4)
  then show ?thesis using compose_decompose assms by (metis Inr_inject)
qed

text \<open>The equalities of a decomposed object name all of its parts: its kind says which of the
  datatype and the language are absent.\<close>

lemma decompose_parts:
  assumes "decompose_object ox t = (k, v, d, l)" "decompose_object ox u = (k, v', d', l')"
  shows "(d = None \<longleftrightarrow> d' = None) \<and> (l = None \<longleftrightarrow> l' = None)"
  using assms by (cases t; cases u) (auto simp: Let_def split: option.splits if_splits)

lemma object_cells:
  assumes law: "lawful_oxrdf ox" and qs: "\<forall>q \<in> set qs. wf_quad ox q" and i: "i < length qs" and ob: "wf_object ox ob"
  shows "list_all (\<lambda>e. eq_row (built ox TypedObjectStrings qs) e i) (ref_eqs ox TypedObjectStrings (RefObject ob)) \<longleftrightarrow>
    quad_object (qs ! i) = ob"
proof -
  obtain k v d l where parts: "decompose_object ox ob = (k, v, d, l)" by (metis prod_cases4)
  obtain k' v' d' l' where row: "decompose_object ox (quad_object (qs ! i)) = (k', v', d', l')"
    by (metis prod_cases4)
  have cells: "eq_row (built ox TypedObjectStrings qs) (''o_kind'', CodeScalar x) i \<longleftrightarrow> k' = x"
      "eq_row (built ox TypedObjectStrings qs) (''o_value'', TextScalar s) i \<longleftrightarrow> v' = s"
      "eq_row (built ox TypedObjectStrings qs) (''o_datatype'', TextScalar s) i \<longleftrightarrow> d' = Some s"
      "eq_row (built ox TypedObjectStrings qs) (''o_lang'', TextScalar s) i \<longleftrightarrow> l' = Some s" for x s
    using i row
    by (auto simp: eq_row_def built_def rows_table_def make_string_array_def nullable_string_array_def
        kind_array_def Let_def split: option.splits)
  have "list_all (\<lambda>e. eq_row (built ox TypedObjectStrings qs) e i)
      (ref_eqs ox TypedObjectStrings (RefObject ob)) \<longleftrightarrow> (k', v', d', l') = (k, v, d, l)"
    using decompose_parts [OF row, of ob v d l] parts
    by (cases d; cases l) (auto simp: cells)
  also have "\<dots> \<longleftrightarrow> quad_object (qs ! i) = ob"
    using decompose_inj [OF law _ ob, of "quad_object (qs ! i)"] qs i parts row
    by (auto simp: wf_quad_def)
  finally show ?thesis .
qed

lemma ref_eqs_hold:
  assumes "lawful_oxrdf ox" "\<forall>q \<in> set qs. wf_quad ox q" "i < length qs" "wf_ref ox t"
  shows "list_all (\<lambda>e. eq_row (built ox layout qs) e i) (ref_eqs ox layout t) \<longleftrightarrow> ref_holds (qs ! i) t"
proof (cases "layout = TypedObjectStrings \<and> role t = ColO")
  case True
  then obtain ob where "t = RefObject ob" by (cases t) auto
  then show ?thesis using True object_cells [OF assms(1-3), of ob] assms(4) by auto
next
  case False
  then have "ref_eqs ox layout t = [(column_name (role t), TextScalar (write_nt ox t))]"
    by (cases layout; cases t) auto
  moreover have "layout = DefaultStrings \<or> role t \<noteq> ColO" using False by (cases layout) auto
  ultimately show ?thesis
    using string_cell [OF assms(3)] ref_holds_spelling [OF assms(1,4)] assms(2,3) by simp
qed

lemma concat_eqs_hold:
  assumes "lawful_oxrdf ox" "\<forall>q \<in> set qs. wf_quad ox q" "i < length qs" "list_all (wf_ref ox) terms"
  shows "holds (built ox layout qs) (concat (map (ref_eqs ox layout) terms)) i \<longleftrightarrow>
    list_all (ref_holds (qs ! i)) terms"
  using assms(4)
  by (induction terms) (simp_all add: holds_def ref_eqs_hold [OF assms(1-3)])

section \<open>Equalities of the Dictionary layout\<close>

text \<open>The rows a Dictionary layout holds: each quad's terms as their codes.\<close>

definition code_column :: "nat list \<Rightarrow> column" where
  "code_column xs =
     \<lparr> col_type = UInt 8, col_nullable = False, col_cells = map CodeScalar xs,
       col_encoding = PrimitiveEncoding xs, col_probe = None \<rparr>"

definition term_code :: "'l oxrdf \<Rightarrow> term_dictionary \<Rightarrow> 'l term_ref \<Rightarrow> nat option" where
  "term_code ox d t = encode_exact d (write_nt ox t)"

definition code_rows :: "'l oxrdf \<Rightarrow> term_dictionary \<Rightarrow> 'l rdf_quad list \<Rightarrow> table" where
  "code_rows ox d qs =
     rows_table (length qs)
       (map (\<lambda>c. (column_name c, code_column (map (\<lambda>q. the (term_code ox d (quad_ref q c))) qs)))
         all_columns)"

definition held_by :: "'l oxrdf \<Rightarrow> term_dictionary \<Rightarrow> 'l rdf_quad \<Rightarrow> bool" where
  "held_by ox d q \<longleftrightarrow> (\<forall>c. term_code ox d (quad_ref q c) \<noteq> None)"

lemma code_cell:
  "i < length qs \<Longrightarrow> eq_row (code_rows ox d qs) (column_name c, CodeScalar code) i \<longleftrightarrow>
     the (term_code ox d (quad_ref (qs ! i) c)) = code"
  by (cases c)
     (simp_all add: eq_row_def code_rows_def rows_table_def code_column_def all_columns_def)

lemma term_code_inj:
  assumes "lawful_oxrdf ox" "wf_dictionary d" "wf_ref ox t" "wf_ref ox u" "role t = role u"
    and "term_code ox d t = Some code" "term_code ox d u = Some code"
  shows "t = u"
proof -
  have "write_nt ox t = write_nt ox u"
    using assms(6,7) by (simp add: term_code_def encode_exact_Some_iff [OF assms(2)])
  then show ?thesis by (rule write_nt_inj [OF assms(1,3,4,5)])
qed

lemma code_ref_holds:
  assumes "lawful_oxrdf ox" "wf_dictionary d" "wf_quad ox q" "held_by ox d q" "wf_ref ox t"
    and "term_code ox d t = Some code"
  shows "the (term_code ox d (quad_ref q (role t))) = code \<longleftrightarrow> ref_holds q t"
proof -
  obtain other where other: "term_code ox d (quad_ref q (role t)) = Some other"
    using assms(4) unfolding held_by_def by blast
  have role: "role (quad_ref q (role t)) = role t" by (cases t) simp_all
  show ?thesis
  proof
    assume "the (term_code ox d (quad_ref q (role t))) = code"
    then have "term_code ox d (quad_ref q (role t)) = Some code" using other by simp
    then show "ref_holds q t"
      using term_code_inj [OF assms(1,2) wf_quad_ref [OF assms(3)] assms(5) role _ assms(6)]
      by (simp add: ref_holds_alt)
  next
    assume "ref_holds q t"
    then show "the (term_code ox d (quad_ref q (role t))) = code"
      using assms(6) by (simp add: ref_holds_alt)
  qed
qed

lemma not_held_absent:
  assumes "held_by ox d q" "term_code ox d t = None"
  shows "\<not> ref_holds q t"
  using assms unfolding held_by_def ref_holds_alt by metis

text \<open>What resolving the bound roles leaves: every one its code, or one of them absent.\<close>

abbreviation slot_of :: "'l term_ref \<Rightarrow> nat" where
  "slot_of t \<equiv> column_index (role t)"

lemma column_index_inj [simp]: "column_index a = column_index b \<longleftrightarrow> a = b"
  by (cases a; cases b) simp_all

lemma column_index_less [simp]: "column_index c < 4"
  by (cases c) simp_all

lemma resolve_loop_roles:
  assumes "length (pc_roles codes) = 4" "\<forall>t \<in> set terms. pc_roles codes ! slot_of t = None"
    and "distinct (map role terms)"
  shows "(let r = resolve_loop ox f terms codes in
      pc_layout r = pc_layout codes \<and> length (pc_roles r) = 4 \<and>
      (\<forall>c. c \<notin> role ` set terms \<longrightarrow> pc_roles r ! column_index c = pc_roles codes ! column_index c) \<and>
      ((\<forall>t \<in> set terms. pc_roles r ! slot_of t = Some (f (write_nt ox t))) \<or>
       (\<exists>t \<in> set terms. f (write_nt ox t) = None \<and> pc_roles r ! slot_of t = Some None)))"
  using assms
proof (induction terms arbitrary: codes)
  case (Cons t terms)
  define codes' where "codes' = codes\<lparr> pc_roles := (pc_roles codes)[slot_of t := Some (f (write_nt ox t))] \<rparr>"
  have resolve: "resolve ox codes t f = (f (write_nt ox t), codes')"
    using Cons.prems by (simp add: resolve_def codes'_def Let_def)
  have slots: "pc_layout codes' = pc_layout codes" "length (pc_roles codes') = 4"
      "\<And>c. pc_roles codes' ! column_index c =
        (if c = role t then Some (f (write_nt ox t)) else pc_roles codes ! column_index c)"
    using Cons.prems by (auto simp: codes'_def nth_list_update)
  show ?case
  proof (cases "f (write_nt ox t)")
    case None
    then show ?thesis using resolve slots by (simp add: Let_def)
  next
    case (Some code)
    have fresh: "\<forall>u \<in> set terms. pc_roles codes' ! slot_of u = None"
      using Cons.prems slots(3) by (auto simp: image_iff)
    define r where "r = resolve_loop ox f terms codes'"
    have "(let r = resolve_loop ox f terms codes' in
      pc_layout r = pc_layout codes' \<and> length (pc_roles r) = 4 \<and>
      (\<forall>c. c \<notin> role ` set terms \<longrightarrow> pc_roles r ! column_index c = pc_roles codes' ! column_index c) \<and>
      ((\<forall>t \<in> set terms. pc_roles r ! slot_of t = Some (f (write_nt ox t))) \<or>
       (\<exists>t \<in> set terms. f (write_nt ox t) = None \<and> pc_roles r ! slot_of t = Some None)))"
      using Cons.prems by (intro Cons.IH [OF slots(2) fresh]) auto
    note IH = this [unfolded Let_def, folded r_def]
    have loop: "resolve_loop ox f (t # terms) codes = r"
      using resolve Some by (simp add: r_def)
    have "role t \<notin> role ` set terms" using Cons.prems(3) by auto
    then have "pc_roles r ! slot_of t = Some (f (write_nt ox t))"
      using IH slots(3) by simp
    then show ?thesis
      unfolding Let_def loop using IH slots by auto
  qed
qed simp

lemma seed_loop_roles:
  assumes "length (pc_roles codes) = 4" "\<forall>t \<in> set terms. pc_roles codes ! slot_of t = None"
    and "distinct (map role terms)"
  shows "\<exists>r. seed_loop (zip terms (map (\<lambda>s. Inr (f s)) (map (write_nt ox) terms))) codes = Inr r \<and>
      pc_layout r = pc_layout codes \<and> length (pc_roles r) = 4 \<and>
      (\<forall>c. c \<notin> role ` set terms \<longrightarrow> pc_roles r ! column_index c = pc_roles codes ! column_index c) \<and>
      (\<forall>t \<in> set terms. pc_roles r ! slot_of t = Some (f (write_nt ox t)))"
  using assms
proof (induction terms arbitrary: codes)
  case (Cons t terms)
  define codes' where "codes' = seed codes t (f (write_nt ox t))"
  have slots: "pc_layout codes' = pc_layout codes" "length (pc_roles codes') = 4"
      "\<And>c. pc_roles codes' ! column_index c =
        (if c = role t then Some (f (write_nt ox t)) else pc_roles codes ! column_index c)"
    using Cons.prems by (auto simp: codes'_def seed_def Let_def nth_list_update)
  have fresh: "\<forall>u \<in> set terms. pc_roles codes' ! slot_of u = None"
    using Cons.prems slots(3) by (auto simp: image_iff)
  obtain r where r: "seed_loop (zip terms (map (\<lambda>s. Inr (f s)) (map (write_nt ox) terms))) codes' = Inr r"
      "pc_layout r = pc_layout codes'" "length (pc_roles r) = 4"
      "\<forall>c. c \<notin> role ` set terms \<longrightarrow> pc_roles r ! column_index c = pc_roles codes' ! column_index c"
      "\<forall>t \<in> set terms. pc_roles r ! slot_of t = Some (f (write_nt ox t))"
    using Cons.IH [OF slots(2) fresh] Cons.prems(3) by auto
  have "role t \<notin> role ` set terms" using Cons.prems(3) by auto
  then have "pc_roles r ! slot_of t = Some (f (write_nt ox t))" using r(4) slots(3) by simp
  then show ?case using r slots by (intro exI [of _ r]) (auto simp: codes'_def)
qed simp

text \<open>A dictionary access answers as the dictionary does, in memory or through its file.\<close>

definition accesses :: "term_dictionary \<Rightarrow> dict_access \<Rightarrow> bool" where
  "accesses d access \<longleftrightarrow> access = Resident d \<or> access = FileBacked (\<lambda>s. Inr (encode_exact d s))"

lemma prepare_pattern_codes:
  assumes "accesses d access"
  shows "\<exists>codes. pc_layout codes = DictionaryLayout \<and>
    prepare_pattern ox (ResolvedDictionary access) p =
      Inr (if \<exists>t \<in> set (bound_roles p). term_code ox d t = None then PreparedEmpty else PreparedCodes codes) \<and>
    ((\<forall>t \<in> set (bound_roles p). term_code ox d t \<noteq> None) \<longrightarrow>
      (\<forall>t \<in> set (bound_roles p). pc_roles codes ! slot_of t = Some (term_code ox d t)))"
proof -
  let ?terms = "bound_roles p" and ?new = "codes_new DictionaryLayout"
  have new: "length (pc_roles ?new) = 4" "\<forall>t \<in> set ?terms. pc_roles ?new ! slot_of t = None"
    by (simp_all add: codes_new_def)
  obtain r where r: "resolve_pattern ox access p ?new = Inr r" "pc_layout r = DictionaryLayout"
    "(\<forall>t \<in> set ?terms. pc_roles r ! slot_of t = Some (term_code ox d t)) \<or>
     (\<exists>t \<in> set ?terms. term_code ox d t = None \<and> pc_roles r ! slot_of t = Some None)"
  proof (cases "access = Resident d")
    case True
    then show thesis
      using that resolve_loop_roles [OF new bound_roles_distinct, of ox "encode_exact d"]
      by (simp add: Let_def codes_new_def term_code_def)
  next
    case False
    then have access: "access = FileBacked (\<lambda>s. Inr (encode_exact d s))" using assms by (auto simp: accesses_def)
    show thesis
      using that seed_loop_roles [OF new bound_roles_distinct, of "encode_exact d" ox]
      unfolding access by (auto simp: codes_new_def term_code_def comp_def)
  qed
  have "provably_empty r p \<longleftrightarrow> (\<exists>t \<in> set ?terms. term_code ox d t = None)"
    using r(2,3) by (auto simp: provably_empty_def probes_by_string_def list_ex_iff)
  then show ?thesis using r by (intro exI [of _ r]) (auto simp: prepare_pattern_def)
qed

lemma constraints_loop_codes:
  assumes "pc_layout codes = DictionaryLayout"
    "\<forall>t \<in> set terms. pc_roles codes ! slot_of t = Some (term_code ox d t) \<and> term_code ox d t \<noteq> None"
  shows "constraints_loop ox codes terms eqs =
    Inr (EqAll (eqs @ map (\<lambda>t. (column_name (role t), CodeScalar (the (term_code ox d t)))) terms))"
  using assms(2)
proof (induction terms arbitrary: eqs)
  case (Cons t terms)
  then obtain code where code: "term_code ox d t = Some code" by auto
  have "\<not> probes_by_string codes" "pattern_code codes t = Inr (Some code)"
    using assms(1) Cons.prems code by (simp_all add: probes_by_string_def pattern_code_def)
  then show ?case using Cons assms(1) code by simp
qed simp

section \<open>Compiled patterns are exact\<close>

definition resolved_strings :: "string_layout \<Rightarrow> resolved_layout" where
  "resolved_strings layout =
     (case layout of DefaultStrings \<Rightarrow> ResolvedDefault | TypedObjectStrings \<Rightarrow> ResolvedTypedObject)"

lemma string_constraints:
  assumes "lawful_oxrdf ox" "\<forall>q \<in> set qs. wf_quad ox q" "wf_pattern ox p"
  shows "\<exists>codes. prepare_pattern ox (resolved_strings layout) p = Inr (PreparedCodes codes) \<and>
    constraints ox codes p = Inr (EqAll (concat (map (ref_eqs ox layout) (bound_roles p)))) \<and>
    (\<forall>i < length qs. holds (built ox layout qs) (concat (map (ref_eqs ox layout) (bound_roles p))) i \<longleftrightarrow>
       quad_matches p (qs ! i))"
proof (intro exI conjI allI impI)
  show "prepare_pattern ox (resolved_strings layout) p = Inr (PreparedCodes (codes_new (string_strategy layout)))"
    using prepare_pattern_strings [of ox layout p] by (simp add: resolved_strings_def)
  show "constraints ox (codes_new (string_strategy layout)) p =
      Inr (EqAll (concat (map (ref_eqs ox layout) (bound_roles p))))"
    by (simp add: constraints_def codes_new_def constraints_loop_strings)
next
  fix i
  assume "i < length qs"
  then show "holds (built ox layout qs) (concat (map (ref_eqs ox layout) (bound_roles p))) i \<longleftrightarrow>
      quad_matches p (qs ! i)"
    using concat_eqs_hold [OF assms(1,2)] assms(3) by (simp add: wf_pattern_def quad_matches_refs)
qed

lemma code_constraints:
  assumes "lawful_oxrdf ox" "wf_dictionary d" "accesses d access" "\<forall>q \<in> set qs. wf_quad ox q \<and> held_by ox d q"
    "wf_pattern ox p"
  shows "prepare_pattern ox (ResolvedDictionary access) p = Inr PreparedEmpty \<and>
      (\<forall>q \<in> set qs. \<not> quad_matches p q) \<or>
    (\<exists>codes eqs. prepare_pattern ox (ResolvedDictionary access) p = Inr (PreparedCodes codes) \<and>
      constraints ox codes p = Inr (EqAll eqs) \<and>
      (\<forall>i < length qs. holds (code_rows ox d qs) eqs i \<longleftrightarrow> quad_matches p (qs ! i)))"
proof (cases "\<exists>t \<in> set (bound_roles p). term_code ox d t = None")
  case True
  then show ?thesis
    using prepare_pattern_codes [OF assms(3), of ox p] not_held_absent assms(4)
    by (fastforce simp: quad_matches_refs list_all_iff)
next
  case False
  obtain codes where codes: "pc_layout codes = DictionaryLayout"
      "prepare_pattern ox (ResolvedDictionary access) p = Inr (PreparedCodes codes)"
      "\<forall>t \<in> set (bound_roles p). pc_roles codes ! slot_of t = Some (term_code ox d t)"
    using prepare_pattern_codes [OF assms(3), of ox p] False by auto
  let ?eqs = "map (\<lambda>t. (column_name (role t), CodeScalar (the (term_code ox d t)))) (bound_roles p)"
  have "constraints ox codes p = Inr (EqAll ?eqs)"
    using constraints_loop_codes [OF codes(1), of "bound_roles p" ox d "[]"] codes(3) False
    by (auto simp: constraints_def)
  moreover have "holds (code_rows ox d qs) ?eqs i \<longleftrightarrow> quad_matches p (qs ! i)" if i: "i < length qs" for i
  proof -
    have "eq_row (code_rows ox d qs) (column_name (role t), CodeScalar (the (term_code ox d t))) i \<longleftrightarrow>
        ref_holds (qs ! i) t" if t: "t \<in> set (bound_roles p)" for t
    proof -
      have "wf_ref ox t" using assms(5) t by (simp add: wf_pattern_def list_all_iff)
      moreover obtain code where "term_code ox d t = Some code" using False t by auto
      ultimately show ?thesis
        using code_ref_holds [OF assms(1,2)] assms(4) i by (simp add: code_cell)
    qed
    then show ?thesis by (simp add: holds_def quad_matches_refs list_all_iff)
  qed
  ultimately show ?thesis using codes(2) by blast
qed

text \<open>C32. What a pattern compiles to is exact under every layout: a string layout's equalities hold
  of exactly the rows of the built columns whose quads match, and under the Dictionary layout the
  prelude either proves that no quad matches, at a term the dictionary lacks, or resolves every
  bound term, and the codes' equalities hold of exactly the matching rows. No
  blank id of the quads starts with \<open>_:\<close>.\<close>

theorem pattern_constraints_exact:
  assumes "lawful_oxrdf ox" "\<forall>q \<in> set qs. wf_quad ox q \<and> held_by ox d q" "wf_pattern ox p"
    and "wf_dictionary d" "accesses d access"
    and "build_struct_array ox layout (map (from_quad ox) qs) = Inr t"
  shows "(\<exists>codes eqs. prepare_pattern ox (resolved_strings layout) p = Inr (PreparedCodes codes) \<and>
      constraints ox codes p = Inr (EqAll eqs) \<and>
      (\<forall>i < length qs. holds t eqs i \<longleftrightarrow> quad_matches p (qs ! i))) \<and>
    (prepare_pattern ox (ResolvedDictionary access) p = Inr PreparedEmpty \<and>
      (\<forall>q \<in> set qs. \<not> quad_matches p q) \<or>
     (\<exists>codes eqs. prepare_pattern ox (ResolvedDictionary access) p = Inr (PreparedCodes codes) \<and>
      constraints ox codes p = Inr (EqAll eqs) \<and>
      (\<forall>i < length qs. holds (code_rows ox d qs) eqs i \<longleftrightarrow> quad_matches p (qs ! i))))"
proof -
  have wf: "\<forall>q \<in> set qs. wf_quad ox q" using assms(2) by blast
  have "t = built ox layout qs" using build_built [OF assms(1) wf, of layout] assms(6) by simp
  then show ?thesis
    using string_constraints [OF assms(1) wf assms(3), of layout]
      code_constraints [OF assms(1,4,5,2,3)] by blast
qed

definition sample_quads :: "plain_literal rdf_quad list" where
  "sample_quads =
     [\<lparr> quad_subject = SubjectNamed ''a:b'', quad_predicate = ''a:c'', quad_object = TermBlank ''x'',
        quad_graph = DefaultGraph \<rparr>,
      \<lparr> quad_subject = SubjectBlank ''x'', quad_predicate = ''a:c'', quad_object = TermNamed ''a:b'',
        quad_graph = DefaultGraph \<rparr>]"

definition sample_pattern :: "plain_literal quad_pattern" where
  "sample_pattern =
     \<lparr> pat_subject = None, pat_predicate = Some ''a:c'', pat_object = Some (TermNamed ''a:b''),
       pat_graph = None \<rparr>"

lemma sample_quads_wf: "\<forall>q \<in> set sample_quads. wf_quad plain_oxrdf q"
  by (simp add: sample_quads_def wf_quad_def wf_blank_def starts_with_def)

lemma sample_pattern_wf: "wf_pattern plain_oxrdf sample_pattern"
  by (simp add: sample_pattern_def wf_pattern_def bound_roles_def)

lemma sample_quads_held: "\<forall>q \<in> set sample_quads. held_by plain_oxrdf sample_dictionary q"
proof -
  have "list_all (\<lambda>q. list_all (\<lambda>c. term_code plain_oxrdf sample_dictionary (quad_ref q c) \<noteq> None)
      [ColS, ColP, ColO, ColG]) sample_quads"
    by code_simp
  then have "term_code plain_oxrdf sample_dictionary (quad_ref q c) \<noteq> None" if "q \<in> set sample_quads" for q c
    using that by (cases c) (auto simp: list_all_iff)
  then show ?thesis by (simp add: held_by_def)
qed

theorem pattern_constraints_exact_witness:
  "\<exists>codes eqs. prepare_pattern plain_oxrdf ResolvedTypedObject sample_pattern = Inr (PreparedCodes codes) \<and>
     constraints plain_oxrdf codes sample_pattern = Inr (EqAll eqs) \<and>
     \<not> holds (built plain_oxrdf TypedObjectStrings sample_quads) eqs 0 \<and>
     holds (built plain_oxrdf TypedObjectStrings sample_quads) eqs 1"
proof -
  have held: "\<forall>q \<in> set sample_quads. wf_quad plain_oxrdf q \<and> held_by plain_oxrdf sample_dictionary q"
    using sample_quads_wf sample_quads_held by blast
  have "accesses sample_dictionary (Resident sample_dictionary)" by (simp add: accesses_def)
  note exact = pattern_constraints_exact [OF plain_lawful held sample_pattern_wf sample_dictionary_wf this
    build_built [OF plain_lawful sample_quads_wf]]
  have "quad_matches sample_pattern (sample_quads ! 1)" "\<not> quad_matches sample_pattern (sample_quads ! 0)"
    "length sample_quads = 2"
    by (simp_all add: quad_matches_def sample_pattern_def sample_quads_def)
  then show ?thesis
    using exact [of TypedObjectStrings] by (auto simp: resolved_strings_def)
qed

text \<open>Binding what two patterns bind matches what both match, where they agree on their terms.\<close>

lemma pattern_and_matches:
  "pattern_and mine other = Some b \<Longrightarrow> quad_matches b q \<longleftrightarrow> quad_matches mine q \<and> quad_matches other q"
proof -
  have one: "both a c = Some r \<Longrightarrow> bound_to r x \<longleftrightarrow> bound_to a x \<and> bound_to c x" for a c r :: "'b option" and x
    by (induction a c rule: both.induct) (auto split: if_splits)
  assume "pattern_and mine other = Some b"
  then show ?thesis
    by (auto simp: pattern_and_def quad_matches_def one split: option.splits)
qed

lemma pattern_and_None:
  "pattern_and mine other = None \<Longrightarrow> \<not> (quad_matches mine q \<and> quad_matches other q)"
proof -
  have one: "both a c = None \<Longrightarrow> \<not> (bound_to a x \<and> bound_to c x)" for a c :: "'b option" and x
    by (induction a c rule: both.induct) (auto split: if_splits)
  assume "pattern_and mine other = None"
  then show ?thesis
    by (auto simp: pattern_and_def quad_matches_def dest!: one split: option.splits)
qed

end
