(* ===== verification/TailKeys.thy ===== *)
theory TailKeys
  imports StringLayouts "HOL-Library.Product_Lexorder"
begin

text \<open>
  The row keys of a tail (\<open>src/core/src/store/view/tail_keys.rs\<close>): a hash of each row's values in
  the columns a fully bound pattern constrains, in sorted runs over consecutive rows. The hasher is
  the argument \<open>fx\<close>, a function of what is written to it. A row of a table is what each of its
  columns holds there.
\<close>

section \<open>Rows\<close>

type_synonym row = "string \<Rightarrow> scalar option"

definition row_at :: "table \<Rightarrow> nat \<Rightarrow> row" where
  "row_at t i name = map_option (\<lambda>col. col_cells col ! i) (map_of (tb_columns t) name)"

definition table_rows :: "table \<Rightarrow> row list" where
  "table_rows t = map (row_at t) [0..<tb_len t]"

definition rows_of :: "table list \<Rightarrow> row list" where
  "rows_of ts = concat (map table_rows ts)"

definition row_holds :: "equalities \<Rightarrow> row \<Rightarrow> bool" where
  "row_holds eqs r \<longleftrightarrow> list_all (\<lambda>(name, s). r name = Some s) eqs"

lemma length_table_rows [simp]: "length (table_rows t) = tb_len t"
  by (simp add: table_rows_def)

lemma length_rows_of: "length (rows_of ts) = sum_list (map tb_len ts)"
  by (simp add: rows_of_def length_concat comp_def)

lemma holds_row_at: "holds t eqs i \<longleftrightarrow> row_holds eqs (row_at t i)"
  by (auto simp: holds_def row_holds_def eq_row_def row_at_def list_all_iff split: option.splits)

lemma tail_holds_rows:
  "i < sum_list (map tb_len ts) \<Longrightarrow> tail_holds ts eqs i \<longleftrightarrow> row_holds eqs (rows_of ts ! i)"
  by (induction ts arbitrary: i) (auto simp: rows_of_def nth_append holds_row_at table_rows_def)

section \<open>Keys\<close>

text \<open>What is written to the hasher, and a key column's value.\<close>

datatype hash_write = WriteU8 nat | WriteU64 nat | WriteBytes string

type_synonym hasher = "hash_write list \<Rightarrow> nat"

datatype key_value = KeyStr string | KeyNum nat

fun hash_into :: "key_value \<Rightarrow> hash_write list \<Rightarrow> hash_write list" where
  "hash_into (KeyStr bytes) h = h @ [WriteU8 0, WriteU64 (length bytes), WriteBytes bytes]"
| "hash_into (KeyNum n) h = h @ [WriteU8 1, WriteU64 n]"

text \<open>A value as it is read off a row and off an equality; a null has none.\<close>

fun scalar_key :: "scalar \<Rightarrow> key_value option" where
  "scalar_key (CodeScalar n) = Some (KeyNum n)"
| "scalar_key (TextScalar s) = Some (KeyStr s)"
| "scalar_key s = None"

definition key_columns :: "string_layout \<Rightarrow> string list" where
  "key_columns layout =
     (case layout of
        DefaultStrings \<Rightarrow> [''s'', ''p'', ''o'', ''g'']
      | TypedObjectStrings \<Rightarrow> [''s'', ''p'', ''o_kind'', ''o_value'', ''g''])"

text \<open>The keys of rows, column by column over one hasher each.\<close>

fun row_keys_loop :: "row list \<Rightarrow> string list \<Rightarrow> hash_write list list \<Rightarrow> hash_write list list option" where
  "row_keys_loop rows [] hashers = Some hashers"
| "row_keys_loop rows (name # names) hashers =
     (case gather (\<lambda>r. Option.bind (r name) scalar_key) rows of
        None \<Rightarrow> None
      | Some vals \<Rightarrow> row_keys_loop rows names (map2 hash_into vals hashers))"

definition row_keys :: "hasher \<Rightarrow> row list \<Rightarrow> string list \<Rightarrow> nat list option" where
  "row_keys fx rows columns =
     map_option (map fx) (row_keys_loop rows columns (replicate (length rows) []))"

type_synonym key_run = "(nat \<times> nat) list"

record tail_keys =
  tk_columns :: "string list"
  tk_runs :: "key_run list"
  tk_rows :: nat

fun merged :: "key_run \<Rightarrow> key_run \<Rightarrow> key_run" where
  "merged [] newer = newer"
| "merged older [] = older"
| "merged (x # older) (y # newer) =
     (if x \<le> y then x # merged older (y # newer) else y # merged (x # older) newer)"

function merge_back :: "key_run list \<Rightarrow> key_run \<Rightarrow> key_run list \<times> key_run" where
  "merge_back runs run =
     (if runs \<noteq> [] \<and> length (last runs) \<le> length run * 2
      then merge_back (butlast runs) (merged (last runs) run)
      else (runs, run))"
  by pat_completeness auto
termination
  by (relation "measure (\<lambda>(runs, run). length runs)") auto

declare merge_back.simps [simp del]

definition keys_extended :: "hasher \<Rightarrow> tail_keys \<Rightarrow> row list \<Rightarrow> tail_keys option" where
  "keys_extended fx self fresh =
     (let start = tk_rows self
      in case row_keys fx fresh (tk_columns self) of
          None \<Rightarrow> None
        | Some keys \<Rightarrow>
            let run = sort (zip keys [start..<start + length keys]);
                (runs, run) = merge_back (tk_runs self) run;
                runs = (if run \<noteq> [] then runs @ [run] else runs)
            in Some \<lparr> tk_columns = tk_columns self, tk_runs = runs, tk_rows = start + length fresh \<rparr>)"

definition keys_of :: "hasher \<Rightarrow> row list \<Rightarrow> string_layout \<Rightarrow> tail_keys option" where
  "keys_of fx rows layout =
     keys_extended fx \<lparr> tk_columns = key_columns layout, tk_runs = [], tk_rows = 0 \<rparr> rows"

fun eqs_key :: "equalities \<Rightarrow> string list \<Rightarrow> hash_write list \<Rightarrow> hash_write list option" where
  "eqs_key eqs [] h = Some h"
| "eqs_key eqs (column # columns) h =
     (case find (\<lambda>(name, s). name = column) eqs of
        None \<Rightarrow> None
      | Some (name, s) \<Rightarrow>
          (case scalar_key s of None \<Rightarrow> None | Some v \<Rightarrow> eqs_key eqs columns (hash_into v h)))"

definition run_rows :: "nat \<Rightarrow> key_run \<Rightarrow> nat list" where
  "run_rows key run =
     (let start = partition_point (\<lambda>(k, r). k < key) run
      in map snd (takeWhile (\<lambda>(k, r). k = key) (drop start run)))"

definition candidates :: "hasher \<Rightarrow> tail_keys \<Rightarrow> equalities \<Rightarrow> nat list option" where
  "candidates fx self eqs =
     (case eqs_key eqs (tk_columns self) [] of
        None \<Rightarrow> None
      | Some h \<Rightarrow> Some (sort (concat (map (run_rows (fx h)) (tk_runs self)))))"

section \<open>A row's key\<close>

text \<open>What a row writes to its hasher.\<close>

fun row_writes :: "string list \<Rightarrow> row \<Rightarrow> hash_write list \<Rightarrow> hash_write list option" where
  "row_writes [] r h = Some h"
| "row_writes (name # names) r h =
     (case Option.bind (r name) scalar_key of None \<Rightarrow> None | Some v \<Rightarrow> row_writes names r (hash_into v h))"

definition keyed :: "string list \<Rightarrow> row \<Rightarrow> bool" where
  "keyed columns r \<longleftrightarrow> (\<forall>name \<in> set columns. \<exists>s v. r name = Some s \<and> scalar_key s = Some v)"

definition row_key :: "hasher \<Rightarrow> string list \<Rightarrow> row \<Rightarrow> nat" where
  "row_key fx columns r = fx (the (row_writes columns r []))"

lemma row_writes_Some: "keyed columns r \<Longrightarrow> \<exists>w. row_writes columns r h = Some w"
  by (induction columns arbitrary: h) (auto simp: keyed_def)

lemma row_keys_loop_rows:
  assumes "\<forall>r \<in> set rows. keyed columns r" "length hashers = length rows"
  shows "row_keys_loop rows columns hashers =
    Some (map2 (\<lambda>r h. the (row_writes columns r h)) rows hashers)"
  using assms
proof (induction columns arbitrary: hashers)
  case Nil
  then have "map2 (\<lambda>r h. h) rows hashers = hashers"
    by (intro nth_equalityI) auto
  then show ?case by simp
next
  case (Cons name columns)
  let ?v = "\<lambda>r. the (Option.bind (r name) scalar_key)"
  have v: "Option.bind (r name) scalar_key = Some (?v r)" if "r \<in> set rows" for r
    using Cons.prems(1) that by (force simp: keyed_def)
  then have vals: "gather (\<lambda>r. Option.bind (r name) scalar_key) rows = Some (map ?v rows)"
    by (rule gather_Some)
  have "map2 (\<lambda>r h. the (row_writes columns r h)) rows (map2 hash_into (map ?v rows) hashers) =
      map2 (\<lambda>r h. the (row_writes (name # columns) r h)) rows hashers"
  proof (rule nth_equalityI)
    fix i
    assume "i < length (map2 (\<lambda>r h. the (row_writes columns r h)) rows (map2 hash_into (map ?v rows) hashers))"
    then have i: "i < length rows" "i < length hashers" by auto
    then obtain x where "Option.bind ((rows ! i) name) scalar_key = Some x" using v nth_mem by metis
    then show "map2 (\<lambda>r h. the (row_writes columns r h)) rows (map2 hash_into (map ?v rows) hashers) ! i =
        map2 (\<lambda>r h. the (row_writes (name # columns) r h)) rows hashers ! i"
      using i by simp
  qed simp
  then show ?case
    using Cons.IH [of "map2 hash_into (map ?v rows) hashers"] Cons.prems by (simp add: vals keyed_def)
qed

lemma row_keys_rows:
  assumes "\<forall>r \<in> set rows. keyed columns r"
  shows "row_keys fx rows columns = Some (map (row_key fx columns) rows)"
proof -
  have "map2 (\<lambda>r h. the (row_writes columns r h)) rows (replicate (length rows) []) =
      map (\<lambda>r. the (row_writes columns r [])) rows"
    by (intro nth_equalityI) auto
  then show ?thesis using assms by (simp add: row_keys_def row_keys_loop_rows row_key_def comp_def)
qed

text \<open>The equalities' key is the key of every row they hold of.\<close>

lemma eqs_key_row:
  assumes "eqs_key eqs columns h = Some w" "row_holds eqs r"
  shows "row_writes columns r h = Some w"
  using assms(1)
proof (induction columns arbitrary: h)
  case (Cons name columns)
  then obtain e where e: "find (\<lambda>(n, s). n = name) eqs = Some e" by (auto split: option.splits)
  then have "fst e = name" by (auto simp: find_Some_iff)
  then obtain s v where s: "find (\<lambda>(n, s). n = name) eqs = Some (name, s)" "scalar_key s = Some v"
      "eqs_key eqs columns (hash_into v h) = Some w"
    using Cons.prems e by (cases e) (auto split: option.splits)
  then obtain i where "i < length eqs" "eqs ! i = (name, s)" by (auto simp: find_Some_iff)
  then have "(name, s) \<in> set eqs" using nth_mem by force
  then have "r name = Some s" using assms(2) by (auto simp: row_holds_def list_all_iff)
  then show ?case using s Cons.IH by simp
qed simp

section \<open>Runs\<close>

lemma mset_merged [simp]: "mset (merged xs ys) = mset xs + mset ys"
  by (induction xs ys rule: merged.induct) auto

lemma set_merged [simp]: "set (merged xs ys) = set xs \<union> set ys"
  by (metis mset_merged set_mset_mset set_mset_union)

lemma sorted_merged: "sorted xs \<Longrightarrow> sorted ys \<Longrightarrow> sorted (merged xs ys)"
  by (induction xs ys rule: merged.induct) (auto simp: not_le intro: less_imp_le order_trans)

lemma length_merged [simp]: "length (merged xs ys) = length xs + length ys"
  by (metis mset_merged size_mset size_union)

text \<open>The runs hold each keyed row once, each run ascends and is under half the one before it.\<close>

fun shrinking :: "nat list \<Rightarrow> bool" where
  "shrinking [] = True"
| "shrinking [n] = (0 < n)"
| "shrinking (m # n # ns) = (2 * n < m \<and> shrinking (n # ns))"

definition wf_keys :: "hasher \<Rightarrow> tail_keys \<Rightarrow> row list \<Rightarrow> bool" where
  "wf_keys fx self rows \<longleftrightarrow>
     tk_rows self = length rows \<and>
     mset (concat (tk_runs self)) = mset (zip (map (row_key fx (tk_columns self)) rows) [0..<length rows]) \<and>
     (\<forall>run \<in> set (tk_runs self). sorted run) \<and> shrinking (map length (tk_runs self))"

lemma shrinking_snoc:
  "shrinking (ns @ [n]) \<longleftrightarrow> 0 < n \<and> shrinking ns \<and> (ns \<noteq> [] \<longrightarrow> 2 * n < last ns)"
proof (induction ns rule: shrinking.induct)
  case (3 m n' ns)
  then show ?case by (cases ns) auto
qed auto

lemma merge_back_spec:
  assumes "\<forall>r \<in> set runs. sorted r" "sorted run" "shrinking (map length runs)"
  shows "(case merge_back runs run of (runs', run') \<Rightarrow>
      mset (concat runs') + mset run' = mset (concat runs) + mset run \<and>
      (\<forall>r \<in> set runs'. sorted r) \<and> sorted run' \<and> shrinking (map length runs') \<and>
      (runs' \<noteq> [] \<longrightarrow> 2 * length run' < length (last runs')))"
  using assms
proof (induction runs run rule: merge_back.induct)
  case (1 runs run)
  show ?case
  proof (cases "runs \<noteq> [] \<and> length (last runs) \<le> length run * 2")
    case True
    then have split: "runs = butlast runs @ [last runs]" by simp
    have sh: "shrinking (map length (butlast runs))"
    proof -
      have "map length runs = map length (butlast runs) @ [length (last runs)]"
        using arg_cong [OF split, of "map length"] by simp
      then show ?thesis using 1(4) by (simp add: shrinking_snoc)
    qed
    have step: "merge_back runs run = merge_back (butlast runs) (merged (last runs) run)"
      using True by (subst merge_back.simps) simp
    have "mset (concat runs) = mset (concat (butlast runs)) + mset (last runs)"
      using arg_cong [OF split, of "\<lambda>rs. mset (concat rs)"] by simp
    moreover have "\<forall>r \<in> set (butlast runs). sorted r" using 1(2) by (auto dest: in_set_butlastD)
    moreover have "sorted (merged (last runs) run)" using 1(2,3) True by (simp add: sorted_merged)
    ultimately show ?thesis
      unfolding step using 1(1) [OF True _ _ sh] by (auto simp: ac_simps split: prod.splits)
  next
    case False
    then have "merge_back runs run = (runs, run)" by (subst merge_back.simps) (simp only: if_False)
    then show ?thesis using False 1 by auto
  qed
qed

lemma keys_extended_wf:
  assumes wf: "wf_keys fx self rows" and keyed: "\<forall>r \<in> set fresh. keyed (tk_columns self) r"
  shows "\<exists>self'. keys_extended fx self fresh = Some self' \<and> tk_columns self' = tk_columns self \<and>
    wf_keys fx self' (rows @ fresh)"
proof -
  let ?key = "row_key fx (tk_columns self)" and ?n = "tk_rows self"
  let ?run = "sort (zip (map ?key fresh) [?n..<?n + length fresh])"
  obtain runs run where mb: "merge_back (tk_runs self) ?run = (runs, run)" by fastforce
  have spec: "mset (concat runs) + mset run = mset (concat (tk_runs self)) + mset ?run"
      "\<forall>r \<in> set runs. sorted r" "sorted run" "shrinking (map length runs)"
      "runs \<noteq> [] \<longrightarrow> 2 * length run < length (last runs)"
    using merge_back_spec [of "tk_runs self" ?run] wf mb by (auto simp: wf_keys_def)
  define all_runs where "all_runs = (if run \<noteq> [] then runs @ [run] else runs)"
  have n: "?n = length rows" using wf by (simp add: wf_keys_def)
  have "zip (map ?key (rows @ fresh)) [0..<length (rows @ fresh)] =
      zip (map ?key rows) [0..<length rows] @ zip (map ?key fresh) [?n..<?n + length fresh]"
    by (simp add: n upt_add_eq_append [of 0] zip_append)
  then have "mset (concat all_runs) = mset (zip (map ?key (rows @ fresh)) [0..<length (rows @ fresh)])"
    using spec(1) wf by (auto simp: all_runs_def wf_keys_def)
  moreover have "shrinking (map length all_runs)"
    using spec(4,5) by (auto simp: all_runs_def shrinking_snoc last_map)
  moreover have "\<forall>r \<in> set all_runs. sorted r"
    using spec(2,3) by (simp add: all_runs_def)
  moreover have "keys_extended fx self fresh =
      Some \<lparr> tk_columns = tk_columns self, tk_runs = all_runs, tk_rows = ?n + length fresh \<rparr>"
    using keyed mb by (simp add: keys_extended_def row_keys_rows all_runs_def Let_def)
  ultimately show ?thesis using n by (auto simp: wf_keys_def)
qed

section \<open>Candidates\<close>

lemma takeWhile_key:
  "sorted (map fst run) \<Longrightarrow>
   takeWhile (\<lambda>y. fst y = key) (dropWhile (\<lambda>y. fst y < key) run) = filter (\<lambda>y. fst y = (key :: nat)) run"
proof (induction run)
  case (Cons y run)
  have none: "filter (\<lambda>y. fst y = key) run = []" if "key < fst y"
    using Cons.prems that by (auto simp: filter_empty_conv)
  have "takeWhile (\<lambda>y. fst y = key) run = filter (\<lambda>y. fst y = key) run" if "fst y = key"
  proof -
    have "dropWhile (\<lambda>y. fst y < key) run = run"
      using Cons.prems that by (cases run) auto
    then show ?thesis using Cons by simp
  qed
  then show ?case using Cons none by (cases "fst y" key rule: linorder_cases) auto
qed simp

lemma sorted_keys: "sorted (run :: key_run) \<Longrightarrow> sorted (map fst run)"
  by (induction run) (auto simp: less_eq_prod_def)

lemma run_rows_filter:
  assumes "sorted run"
  shows "run_rows key run = map snd (filter (\<lambda>y. fst y = key) run)"
proof -
  have "partition_point (\<lambda>(k, r). k < key) run = length (takeWhile (\<lambda>y. fst y < key) run)"
    using partition_point_eq [OF partitioned_key [OF sorted_keys [OF assms], of key]]
    by (simp add: case_prod_unfold)
  then have "run_rows key run = map snd (takeWhile (\<lambda>y. fst y = key) (dropWhile (\<lambda>y. fst y < key) run))"
    by (simp add: run_rows_def case_prod_unfold dropWhile_eq_drop)
  then show ?thesis using takeWhile_key [OF sorted_keys [OF assms]] by simp
qed

lemma zip_rows: "zip (map f rows) [0..<length rows] = map (\<lambda>i. (f (rows ! i), i)) [0..<length rows]"
  by (rule nth_equalityI) auto

lemma candidates_wf:
  assumes wf: "wf_keys fx self rows" and h: "eqs_key eqs (tk_columns self) [] = Some h"
  shows "candidates fx self eqs =
    Some (filter (\<lambda>i. row_key fx (tk_columns self) (rows ! i) = fx h) [0..<length rows])"
proof -
  let ?key = "row_key fx (tk_columns self)" and ?p = "\<lambda>y. fst y = fx h"
  have "concat (map (run_rows (fx h)) (tk_runs self)) =
      concat (map (\<lambda>run. map snd (filter ?p run)) (tk_runs self))"
    using wf by (intro arg_cong [of _ _ concat] map_cong refl run_rows_filter) (auto simp: wf_keys_def)
  also have "\<dots> = map snd (filter ?p (concat (tk_runs self)))"
    by (simp add: filter_concat map_concat comp_def)
  finally have "mset (concat (map (run_rows (fx h)) (tk_runs self))) =
      image_mset snd (filter_mset ?p (mset (concat (tk_runs self))))"
    by simp
  also have "\<dots> = mset (map snd (filter ?p (zip (map ?key rows) [0..<length rows])))"
    using wf by (simp add: wf_keys_def)
  also have "map snd (filter ?p (zip (map ?key rows) [0..<length rows])) =
      filter (\<lambda>i. ?key (rows ! i) = fx h) [0..<length rows]"
    unfolding zip_rows filter_map map_map comp_def by simp
  finally have "sort (concat (map (run_rows (fx h)) (tk_runs self))) =
      filter (\<lambda>i. ?key (rows ! i) = fx h) [0..<length rows]"
    by (intro properties_for_sort) (simp_all add: sorted_wrt_filter)
  then show ?thesis by (simp add: candidates_def h)
qed

lemma candidates_hold:
  assumes "wf_keys fx self rows" "candidates fx self eqs = Some named"
  shows "\<exists>key. named = filter (\<lambda>i. row_key fx (tk_columns self) (rows ! i) = key) [0..<length rows] \<and>
    (\<forall>i < length rows. row_holds eqs (rows ! i) \<longrightarrow> row_key fx (tk_columns self) (rows ! i) = key)"
proof -
  obtain h where h: "eqs_key eqs (tk_columns self) [] = Some h"
    using assms(2) by (auto simp: candidates_def split: option.splits)
  show ?thesis
    using candidates_wf [OF assms(1) h] assms(2) eqs_key_row [OF h]
    by (intro exI [of _ "fx h"]) (auto simp: row_key_def)
qed

section \<open>A lookup reads a handful of runs\<close>

lemma shrinking_length: "shrinking ns \<Longrightarrow> ns \<noteq> [] \<Longrightarrow> 2 ^ length ns \<le> hd ns + 1"
proof (induction ns rule: shrinking.induct)
  case (3 m n ns)
  then have "2 ^ length (n # ns) \<le> n + 1" by simp
  then show ?case using 3 by simp
qed auto

lemma runs_bound:
  assumes "wf_keys fx self rows"
  shows "2 ^ length (tk_runs self) \<le> length rows + 1"
proof (cases "tk_runs self")
  case (Cons run runs)
  have "size (mset (concat (tk_runs self))) = length rows"
    using assms by (simp add: wf_keys_def)
  then have "length run \<le> length rows" using Cons by simp
  moreover have "2 ^ length (tk_runs self) \<le> length run + 1"
    using shrinking_length [of "map length (tk_runs self)"] assms Cons by (simp add: wf_keys_def)
  ultimately show ?thesis by linarith
qed simp

text \<open>Batches of rows joining a tail one after another.\<close>

fun keys_appended :: "hasher \<Rightarrow> tail_keys \<Rightarrow> row list list \<Rightarrow> tail_keys option" where
  "keys_appended fx self [] = Some self"
| "keys_appended fx self (fresh # batches) =
     (case keys_extended fx self fresh of
        None \<Rightarrow> None | Some self \<Rightarrow> keys_appended fx self batches)"

lemma keys_appended_wf:
  assumes "wf_keys fx self rows" "\<forall>r \<in> set (concat batches). keyed (tk_columns self) r"
  shows "\<exists>keys. keys_appended fx self batches = Some keys \<and> tk_columns keys = tk_columns self \<and>
    wf_keys fx keys (rows @ concat batches)"
  using assms
proof (induction batches arbitrary: self rows)
  case (Cons fresh batches)
  obtain self' where self': "keys_extended fx self fresh = Some self'" "tk_columns self' = tk_columns self"
      "wf_keys fx self' (rows @ fresh)"
    using keys_extended_wf [OF Cons.prems(1), of fresh] Cons.prems(2) by auto
  then show ?case using Cons.IH [OF self'(3)] Cons.prems(2) by auto
qed simp

lemma wf_keys_empty: "wf_keys fx \<lparr> tk_columns = columns, tk_runs = [], tk_rows = 0 \<rparr> []"
  by (simp add: wf_keys_def)

lemma keys_of_wf:
  assumes "\<forall>r \<in> set rows. keyed (key_columns layout) r"
  shows "\<exists>keys. keys_of fx rows layout = Some keys \<and> tk_columns keys = key_columns layout \<and>
    wf_keys fx keys rows"
  using keys_extended_wf [OF wf_keys_empty, of rows "key_columns layout" fx] assms
  by (simp add: keys_of_def)

text \<open>C40. However a tail's rows joined it, in one batch or in many, its keys name a pattern's rows
  soundly: the candidates ascend, are the rows of one key, and miss no row the equalities hold of; a
  lookup reads at most logarithmically many runs.\<close>

theorem tail_keys_name_rows:
  assumes "\<forall>r \<in> set (concat (first # batches)). keyed (key_columns layout) r"
  shows "\<exists>self keys. keys_of fx first layout = Some self \<and> keys_appended fx self batches = Some keys \<and>
    tk_rows keys = length (concat (first # batches)) \<and>
    2 ^ length (tk_runs keys) \<le> length (concat (first # batches)) + 1 \<and>
    (\<forall>named. candidates fx keys eqs = Some named \<longrightarrow>
       (\<exists>key. named = filter (\<lambda>i. row_key fx (key_columns layout) (concat (first # batches) ! i) = key)
           [0..<length (concat (first # batches))] \<and>
         (\<forall>i < length (concat (first # batches)). row_holds eqs (concat (first # batches) ! i) \<longrightarrow>
            row_key fx (key_columns layout) (concat (first # batches) ! i) = key)))"
proof -
  obtain self where self: "keys_of fx first layout = Some self" "tk_columns self = key_columns layout"
      "wf_keys fx self first"
    using keys_of_wf [of first layout fx] assms by auto
  obtain keys where keys: "keys_appended fx self batches = Some keys" "tk_columns keys = tk_columns self"
      "wf_keys fx keys (first @ concat batches)"
    using keys_appended_wf [OF self(3), of batches] self(2) assms by auto
  have "tk_rows keys = length (first @ concat batches)" using keys(3) by (simp add: wf_keys_def)
  then show ?thesis
    using self keys candidates_hold [OF keys(3)] runs_bound [OF keys(3)] by auto
qed

theorem tail_keys_name_rows_witness:
  "\<exists>self keys. keys_of (\<lambda>h. length h mod 5) [\<lambda>name. Some (TextScalar ''a'')] DefaultStrings = Some self \<and>
     keys_appended (\<lambda>h. length h mod 5) self [[\<lambda>name. Some (TextScalar ''b'')]] = Some keys \<and>
     tk_rows keys = 2 \<and> 2 ^ length (tk_runs keys) \<le> (3 :: nat)"
proof -
  let ?first = "[\<lambda>name :: string. Some (TextScalar ''a'')]" and ?rest = "[[\<lambda>name :: string. Some (TextScalar ''b'')]]"
  have "\<forall>r \<in> set (concat (?first # ?rest)). keyed (key_columns DefaultStrings) r"
    by (simp add: keyed_def)
  from tail_keys_name_rows [OF this, of "\<lambda>h. length h mod 5" "[]"]
  obtain self keys where "keys_of (\<lambda>h. length h mod 5) ?first DefaultStrings = Some self"
      "keys_appended (\<lambda>h. length h mod 5) self ?rest = Some keys"
      "tk_rows keys = length (concat (?first # ?rest))"
      "2 ^ length (tk_runs keys) \<le> length (concat (?first # ?rest)) + 1"
    by (elim exE conjE)
  then show ?thesis by (intro exI conjI) (assumption | simp)+
qed

end
