(* ===== verification/Tails.thy ===== *)
theory Tails
  imports TailKeys Patterns
begin

text \<open>
  The rows appended to a store since its construction (\<open>Tail\<close> of
  \<open>src/core/src/store/view/mod.rs\<close>), the gathering of live rows
  (\<open>src/core/src/store/scan/gather.rs\<close>) and the match of a pattern on a tail
  (\<open>src/core/src/store/query/matching/tail.rs\<close>). A tail's array is its chunks. The array library's
  slice or take, its filter and its canonical form are the record \<open>library\<close>; \<^term>\<open>None\<close> is an error.
\<close>

section \<open>The array library\<close>

type_synonym row_dtype = "(string \<times> dtype \<times> bool) list"

definition table_dtype :: "table \<Rightarrow> row_dtype" where
  "table_dtype t = map (\<lambda>(name, col). (name, col_type col, col_nullable col)) (tb_columns t)"

text \<open>A selection's rows come with the shape the typed compare finds them in.\<close>

record library =
  lib_apply :: "row_selection \<Rightarrow> table list \<Rightarrow> (applied \<times> table list) option"
  lib_filter :: "table list \<Rightarrow> mask \<Rightarrow> table list option"
  lib_canonical :: "table list \<Rightarrow> table option"

definition rows_len :: "table list \<Rightarrow> nat" where
  "rows_len ts = sum_list (map tb_len ts)"

text \<open>A row of a type has a cell of each column's type, null only where the column may be. Chunks of
  one array have one type, and no more rows than a \<open>usize\<close> counts.\<close>

definition row_ok :: "row_dtype \<Rightarrow> row \<Rightarrow> bool" where
  "row_ok dt r \<longleftrightarrow> (\<forall>name. map_of dt name = None \<longrightarrow> r name = None) \<and>
     (\<forall>name ty nullable. map_of dt name = Some (ty, nullable) \<longrightarrow>
        (\<exists>c. r name = Some c \<and> (fits ty c \<or> nullable \<and> c = NullScalar)))"

definition chunks_ok :: "'k kernels_scheme \<Rightarrow> row_dtype \<Rightarrow> table list \<Rightarrow> bool" where
  "chunks_ok fl dt ts \<longleftrightarrow> ts \<noteq> [] \<and> rows_len ts \<le> usize_max \<and> distinct (map fst dt) \<and>
     (\<forall>t \<in> set ts. wf_table fl t \<and> table_dtype t = dt) \<and> (\<forall>r \<in> set (rows_of ts). row_ok dt r)"

text \<open>The canonical struct of rows: each column executed to its canonical array.\<close>

fun cell_code :: "scalar \<Rightarrow> nat" where
  "cell_code (CodeScalar n) = n"
| "cell_code c = 0"

fun cell_text :: "scalar \<Rightarrow> string" where
  "cell_text (TextScalar s) = s"
| "cell_text c = []"

definition canonical_column :: "dtype \<Rightarrow> bool \<Rightarrow> scalar list \<Rightarrow> column" where
  "canonical_column ty nullable cells =
     \<lparr> col_type = ty, col_nullable = nullable, col_cells = cells,
       col_encoding = (case ty of
           UInt w \<Rightarrow> PrimitiveEncoding (map cell_code cells)
         | Utf8 \<Rightarrow> ViewEncoding (map cell_text cells)
         | OtherType \<Rightarrow> OtherEncoding),
       col_probe = None \<rparr>"

definition canonical_table :: "row_dtype \<Rightarrow> row list \<Rightarrow> table" where
  "canonical_table dt rows =
     rows_table (length rows)
       (map (\<lambda>(name, ty, nullable). (name, canonical_column ty nullable (map (\<lambda>r. the (r name)) rows))) dt)"

text \<open>What is documented of the library: a slice or a take has the selected rows, in order, a filter
  the rows whose bit is set, and canonical arrays the same rows; all of the same type.\<close>

definition lawful_library :: "'k kernels_scheme \<Rightarrow> library \<Rightarrow> bool" where
  "lawful_library fl lib \<longleftrightarrow>
     (\<forall>dt sel ts. chunks_ok fl dt ts \<longrightarrow> wf_selection (rows_len ts) sel \<longrightarrow>
        (\<exists>a us. lib_apply lib sel ts = Some (a, us) \<and> chunks_ok fl dt us \<and>
           rows_of us = map ((!) (rows_of ts)) (covered sel (rows_len ts)) \<and>
           (a = OtherShape \<or> a = ChunkedStructs (map Some us) \<or> (\<exists>u. us = [u] \<and> a = FlatStruct u)))) \<and>
     (\<forall>dt ts m. chunks_ok fl dt ts \<longrightarrow> length m = rows_len ts \<longrightarrow>
        (\<exists>us. lib_filter lib ts m = Some us \<and> chunks_ok fl dt us \<and>
           rows_of us = map fst (filter snd (zip (rows_of ts) m)))) \<and>
     (\<forall>dt ts. chunks_ok fl dt ts \<longrightarrow> lib_canonical lib ts = Some (canonical_table dt (rows_of ts)))"

section \<open>Live rows\<close>

text \<open>No probe resolves a string column, so the point reads decline and a tail's rows come from the
  general pipeline.\<close>

definition gather_live :: "library \<Rightarrow> table list \<Rightarrow> row_selection \<Rightarrow> mask option \<Rightarrow> table list option" where
  "gather_live lib base sel deleted =
     (case lib_apply lib sel base of
        None \<Rightarrow> None
      | Some (a, rows) \<Rightarrow>
          (case deleted of
             None \<Rightarrow> Some rows
           | Some d \<Rightarrow>
               (case live_mask sel d (rows_len base) of
                  None \<Rightarrow> None
                | Some live \<Rightarrow> if list_all id live then Some rows else lib_filter lib rows live)))"

definition union_deleted :: "mask option \<Rightarrow> mask \<Rightarrow> mask" where
  "union_deleted existing doomed =
     (case existing of Some d \<Rightarrow> map2 (\<or>) d doomed | None \<Rightarrow> doomed)"

section \<open>Tails\<close>

record tail =
  tail_rows :: "table list"
  tail_selection :: row_selection
  tail_deleted :: "mask option"
  tail_layout :: string_layout
  tail_key_runs :: tail_keys

definition TAIL_FLATTEN_FLOOR :: nat where
  "TAIL_FLATTEN_FLOOR = 1024"

definition TAIL_MAX_CHUNKS :: nat where
  "TAIL_MAX_CHUNKS = 64"

fun layout_for :: "resolved_layout \<Rightarrow> string_layout" where
  "layout_for ResolvedDefault = DefaultStrings"
| "layout_for (ResolvedDictionary d) = DefaultStrings"
| "layout_for ResolvedTypedObject = TypedObjectStrings"

definition tail_new :: "hasher \<Rightarrow> table list \<Rightarrow> string_layout \<Rightarrow> tail option" where
  "tail_new fx rows layout =
     map_option (\<lambda>keys. \<lparr> tail_rows = rows, tail_selection = AllRows, tail_deleted = None,
                           tail_layout = layout, tail_key_runs = keys \<rparr>)
       (keys_of fx (rows_of rows) layout)"

definition tail_with_selection :: "tail \<Rightarrow> row_selection \<Rightarrow> tail" where
  "tail_with_selection self sel = self\<lparr> tail_selection := sel \<rparr>"

definition tail_live_len :: "tail \<Rightarrow> nat option" where
  "tail_live_len self = live_len (tail_selection self) (tail_deleted self) (rows_len (tail_rows self))"

definition tail_window :: "tail \<Rightarrow> nat \<Rightarrow> nat \<Rightarrow> tail option" where
  "tail_window self offset limit =
     map_option (tail_with_selection self)
       (sel_window (tail_selection self) offset limit (tail_deleted self) (rows_len (tail_rows self)))"

definition tail_tombstoned :: "tail \<Rightarrow> row_selection \<Rightarrow> tail option" where
  "tail_tombstoned self doomed =
     map_option (\<lambda>m. self\<lparr> tail_deleted := Some (union_deleted (tail_deleted self) m) \<rparr>)
       (to_mask doomed (rows_len (tail_rows self)))"

definition tail_live_rows :: "library \<Rightarrow> tail \<Rightarrow> table list option" where
  "tail_live_rows lib self = gather_live lib (tail_rows self) (tail_selection self) (tail_deleted self)"

definition tail_raw_quads :: "'l oxrdf \<Rightarrow> library \<Rightarrow> tail \<Rightarrow> raw_quad list fallible option" where
  "tail_raw_quads ox lib self =
     map_option (raw_quads ox (tail_layout self)) (Option.bind (tail_live_rows lib self) (lib_canonical lib))"

definition tail_append :: "hasher \<Rightarrow> library \<Rightarrow> tail \<Rightarrow> table \<Rightarrow> tail option" where
  "tail_append fx lib self fresh =
     (case tail_live_rows lib self of
        None \<Rightarrow> None
      | Some old \<Rightarrow>
          if table_dtype fresh \<noteq> table_dtype (hd old) then None
          else
            (case (case (tail_deleted self, tail_selection self) of
                     (None, AllRows) \<Rightarrow> map_option Some (keys_extended fx (tail_key_runs self) (table_rows fresh))
                   | _ \<Rightarrow> Some None) of
               None \<Rightarrow> None
             | Some keys \<Rightarrow>
                 let flat_len = tb_len (hd old);
                     accreted = rows_len (tl old) + tb_len fresh;
                     chunks = old @ [fresh]
                 in case (if max flat_len TAIL_FLATTEN_FLOOR \<le> accreted \<or> TAIL_MAX_CHUNKS < length chunks
                          then map_option (\<lambda>u. [u]) (lib_canonical lib chunks) else Some chunks) of
                     None \<Rightarrow> None
                   | Some rows \<Rightarrow>
                       (case keys of
                          Some keys \<Rightarrow>
                            Some \<lparr> tail_rows = rows, tail_selection = AllRows, tail_deleted = None,
                                   tail_layout = tail_layout self, tail_key_runs = keys \<rparr>
                        | None \<Rightarrow> tail_new fx rows (tail_layout self))))"

section \<open>The match of a tail\<close>

text \<open>A column of the rows executed to one struct; a mask from the positions set in it.\<close>

definition struct_column :: "table list \<Rightarrow> string \<Rightarrow> (dtype \<times> scalar list) option" where
  "struct_column ts name =
     (case ts of
        [] \<Rightarrow> None
      | t # _ \<Rightarrow> map_option (\<lambda>col. (col_type col, map (\<lambda>r. the (r name)) (rows_of ts))) (map_of (tb_columns t) name))"

definition tail_rows_holding ::
    "'k compute_scheme \<Rightarrow> library \<Rightarrow> table list \<Rightarrow> row_selection \<Rightarrow> equalities \<Rightarrow> row_selection option" where
  "tail_rows_holding fl lib rows sel eqs =
     (if sel_is_empty sel (rows_len rows) then Some sel
      else case lib_apply lib sel rows of
          None \<Rightarrow> None
        | Some (applied, us) \<Rightarrow>
            (case typed_positions fl applied eqs of
               None \<Rightarrow> None
             | Some (Some places) \<Rightarrow>
                 Option.bind (mask_from_indices (rows_len us) places) (refine sel)
             | Some None \<Rightarrow>
                 Option.bind (mask_for fl (struct_column us) (rows_len us) eqs) (refine sel)))"

definition match_tail ::
    "'l oxrdf \<Rightarrow> hasher \<Rightarrow> 'k compute_scheme \<Rightarrow> library \<Rightarrow> tail \<Rightarrow> 'l quad_pattern \<Rightarrow> tail option" where
  "match_tail ox fx fl lib self p =
     (if sel_is_empty (tail_selection self) (rows_len (tail_rows self)) then
        Some (tail_with_selection self (tail_selection self))
      else case prepare_pattern ox (resolved_strings (tail_layout self)) p of
          Inl e \<Rightarrow> None
        | Inr PreparedEmpty \<Rightarrow> Some (tail_with_selection self empty_selection)
        | Inr (PreparedCodes codes) \<Rightarrow>
            (case constraints ox codes p of
               Inl e \<Rightarrow> None
             | Inr AlwaysFalse \<Rightarrow> Some (tail_with_selection self empty_selection)
             | Inr (EqAll eqs) \<Rightarrow>
                 if eqs = [] then Some (tail_with_selection self (tail_selection self))
                 else
                   let compared = (case candidates fx (tail_key_runs self) eqs of
                         Some named \<Rightarrow> from_ids (filter (sel_contains (tail_selection self)) named)
                       | None \<Rightarrow> tail_selection self)
                   in map_option (tail_with_selection self)
                        (tail_rows_holding fl lib (tail_rows self) compared eqs)))"

section \<open>Rows of a type\<close>

lemma rows_len_rows: "rows_len ts = length (rows_of ts)"
  by (simp add: rows_len_def length_rows_of)

lemma canonical_table_simps [simp]:
  "tb_len (canonical_table dt rows) = length rows" "table_dtype (canonical_table dt rows) = dt"
  by (auto simp: canonical_table_def rows_table_def table_dtype_def canonical_column_def comp_def
      case_prod_unfold)

lemma canonical_lookup:
  "map_of (tb_columns (canonical_table dt rows)) name =
     map_option (\<lambda>(ty, nullable). canonical_column ty nullable (map (\<lambda>r. the (r name)) rows)) (map_of dt name)"
  by (induction dt) (auto simp: canonical_table_def rows_table_def)

lemma canonical_row:
  assumes "row_ok dt r" "i < length rows" "rows ! i = r"
  shows "row_at (canonical_table dt rows) i = r"
proof
  fix name
  show "row_at (canonical_table dt rows) i name = r name"
    using assms by (cases "map_of dt name")
      (fastforce simp: row_at_def canonical_lookup canonical_column_def row_ok_def)+
qed

lemma canonical_rows:
  assumes "\<forall>r \<in> set rows. row_ok dt r"
  shows "rows_of [canonical_table dt rows] = rows"
  using assms by (auto simp: rows_of_def table_rows_def canonical_row intro!: nth_equalityI)

lemma canonical_column_wf:
  assumes "length cells = n" "\<forall>c \<in> set cells. fits ty c \<or> nullable \<and> c = NullScalar"
  shows "wf_column fl n (canonical_column ty nullable cells)"
proof -
  have "map (CodeScalar \<circ> cell_code) cells = cells" if "ty = UInt w" "\<not> nullable" for w
    using assms(2) that by (intro map_idI) (auto elim!: fits.elims)
  moreover have "map (TextScalar \<circ> cell_text) cells = cells" if "ty = Utf8" "\<not> nullable"
    using assms(2) that by (intro map_idI) (auto elim!: fits.elims)
  ultimately show ?thesis
    using assms(1) by (cases ty) (auto simp: wf_column_def canonical_column_def)
qed

lemma canonical_ok:
  assumes "distinct (map fst dt)" "\<forall>r \<in> set rows. row_ok dt r" "length rows \<le> usize_max"
  shows "chunks_ok fl dt [canonical_table dt rows]"
proof -
  have "wf_column fl (length rows) (canonical_column ty nullable (map (\<lambda>r. the (r name)) rows))"
    if "(name, ty, nullable) \<in> set dt" for name ty nullable
  proof (rule canonical_column_wf)
    have "map_of dt name = Some (ty, nullable)" using that assms(1) by simp
    then show "\<forall>c \<in> set (map (\<lambda>r. the (r name)) rows). fits ty c \<or> nullable \<and> c = NullScalar"
      using assms(2) by (fastforce simp: row_ok_def)
  qed simp
  then have "wf_table fl (canonical_table dt rows)"
    using assms(3) by (auto simp: wf_table_def canonical_table_def rows_table_def by_name_def)
  then show ?thesis
    using assms canonical_rows [OF assms(2)] by (simp add: chunks_ok_def rows_len_def)
qed

section \<open>The rows of quads\<close>

definition built_dtype :: "string_layout \<Rightarrow> row_dtype" where
  "built_dtype layout =
     (case layout of
        DefaultStrings \<Rightarrow> [(''s'', Utf8, False), (''p'', Utf8, False), (''o'', Utf8, False), (''g'', Utf8, False)]
      | TypedObjectStrings \<Rightarrow>
          [(''s'', Utf8, False), (''p'', Utf8, False), (''o_kind'', UInt 1, False), (''o_value'', Utf8, False),
           (''o_datatype'', Utf8, True), (''o_lang'', Utf8, True), (''g'', Utf8, False)])"

definition quad_row :: "'l oxrdf \<Rightarrow> string_layout \<Rightarrow> 'l rdf_quad \<Rightarrow> row" where
  "quad_row ox layout q = row_at (built ox layout [q]) 0"

lemma built_dtype_distinct: "distinct (map fst (built_dtype layout))"
  by (simp add: built_dtype_def split: string_layout.split)

lemma decompose_kind: "decompose_object ox t = (k, v, d, l) \<Longrightarrow> k < 5"
  by (cases t) (auto simp: Let_def split: option.splits if_splits)

lemma quad_row_default:
  "quad_row ox DefaultStrings q =
     [''s'' \<mapsto> TextScalar (raw_s (from_quad ox q)), ''p'' \<mapsto> TextScalar (raw_p (from_quad ox q)),
      ''o'' \<mapsto> TextScalar (raw_o (from_quad ox q)), ''g'' \<mapsto> TextScalar (raw_g (from_quad ox q))]"
  by (auto simp: quad_row_def row_at_def built_def rows_table_def default_columns_def make_string_array_def)

fun nullable_cell :: "string option \<Rightarrow> scalar" where
  "nullable_cell None = NullScalar"
| "nullable_cell (Some s) = TextScalar s"

lemma quad_row_typed:
  assumes "decompose_object ox (quad_object q) = (k, v, d, l)"
  shows "quad_row ox TypedObjectStrings q =
     [''s'' \<mapsto> TextScalar (raw_s (from_quad ox q)), ''p'' \<mapsto> TextScalar (raw_p (from_quad ox q)),
      ''o_kind'' \<mapsto> CodeScalar k, ''o_value'' \<mapsto> TextScalar v, ''o_datatype'' \<mapsto> nullable_cell d,
      ''o_lang'' \<mapsto> nullable_cell l, ''g'' \<mapsto> TextScalar (raw_g (from_quad ox q))]"
  using assms
  by (cases d; cases l)
    (auto simp: quad_row_def row_at_def built_def rows_table_def make_string_array_def kind_array_def
      nullable_string_array_def Let_def)

lemma quad_row_ok: "row_ok (built_dtype layout) (quad_row ox layout q)"
proof (cases layout)
  case DefaultStrings
  then show ?thesis by (auto simp: row_ok_def built_dtype_def quad_row_default split: if_splits)
next
  case TypedObjectStrings
  obtain k v d l where parts: "decompose_object ox (quad_object q) = (k, v, d, l)" by (metis prod_cases4)
  then have "k < 256" using decompose_kind by fastforce
  then show ?thesis
    using TypedObjectStrings
    by (cases d; cases l) (auto simp: row_ok_def built_dtype_def quad_row_typed [OF parts] split: if_splits)
qed

lemma built_row: "i < length qs \<Longrightarrow> row_at (built ox layout qs) i = quad_row ox layout (qs ! i)"
  by (cases layout)
    (auto simp: quad_row_def row_at_def built_def rows_table_def default_columns_def make_string_array_def
      nullable_string_array_def kind_array_def Let_def)

lemma table_rows_built: "table_rows (built ox layout qs) = map (quad_row ox layout) qs"
  by (auto simp: table_rows_def built_row intro: nth_equalityI)

lemma built_canonical:
  "built ox layout qs = canonical_table (built_dtype layout) (map (quad_row ox layout) qs)"
proof (cases layout)
  case DefaultStrings
  then show ?thesis
    by (simp add: built_def canonical_table_def built_dtype_def quad_row_default canonical_column_def
        default_columns_def make_string_array_def comp_def)
next
  case TypedObjectStrings
  have row: "quad_row ox TypedObjectStrings q =
     (case decompose_object ox (quad_object q) of (k, v, d, l) \<Rightarrow>
       [''s'' \<mapsto> TextScalar (raw_s (from_quad ox q)), ''p'' \<mapsto> TextScalar (raw_p (from_quad ox q)),
        ''o_kind'' \<mapsto> CodeScalar k, ''o_value'' \<mapsto> TextScalar v, ''o_datatype'' \<mapsto> nullable_cell d,
        ''o_lang'' \<mapsto> nullable_cell l, ''g'' \<mapsto> TextScalar (raw_g (from_quad ox q))])" for q
    using quad_row_typed [of ox q] by (cases "decompose_object ox (quad_object q)") simp
  have cell: "(case x of None \<Rightarrow> NullScalar | Some s \<Rightarrow> TextScalar s) = nullable_cell x"
    "unwrap_or x [] = cell_text (nullable_cell x)" for x
    by (cases x; simp add: unwrap_or_def)+
  show ?thesis
    using TypedObjectStrings
    by (simp add: built_def canonical_table_def built_dtype_def row canonical_column_def cell
        make_string_array_def kind_array_def nullable_string_array_def comp_def case_prod_unfold Let_def)
qed

lemma built_ok:
  "length qs \<le> usize_max \<Longrightarrow> chunks_ok fl (built_dtype layout) [built ox layout qs]"
  unfolding built_canonical by (rule canonical_ok) (auto simp: quad_row_ok built_dtype_distinct)

section \<open>What a pattern's equalities ask of a row\<close>

abbreviation pattern_eqs :: "'l oxrdf \<Rightarrow> string_layout \<Rightarrow> 'l quad_pattern \<Rightarrow> equalities" where
  "pattern_eqs ox layout p \<equiv> concat (map (ref_eqs ox layout) (bound_roles p))"

lemma pattern_eqs_row:
  assumes "lawful_oxrdf ox" "wf_quad ox q" "wf_pattern ox p"
  shows "row_holds (pattern_eqs ox layout p) (quad_row ox layout q) \<longleftrightarrow> quad_matches p q"
proof -
  have "holds (built ox layout [q]) (pattern_eqs ox layout p) 0 \<longleftrightarrow> quad_matches p q"
    using string_constraints [OF assms(1) _ assms(3), of "[q]" layout] assms(2) by auto
  then show ?thesis by (simp add: holds_row_at quad_row_def)
qed

text \<open>An equality is of its column's type, and where a row fails, some equality fails at a cell that
  is not null: a compare's bit is right there.\<close>

definition eqs_typed :: "row_dtype \<Rightarrow> equalities \<Rightarrow> bool" where
  "eqs_typed dt eqs \<longleftrightarrow> (\<forall>(name, s) \<in> set eqs. \<exists>ty nullable. map_of dt name = Some (ty, nullable) \<and> fits ty s)"

definition decisive :: "equalities \<Rightarrow> row \<Rightarrow> bool" where
  "decisive eqs r \<longleftrightarrow>
     row_holds eqs r \<or> (\<exists>(name, s) \<in> set eqs. \<exists>c. r name = Some c \<and> c \<noteq> NullScalar \<and> c \<noteq> s)"

lemma ref_eqs_typed: "eqs_typed (built_dtype layout) (ref_eqs ox layout t)"
proof (cases "layout = TypedObjectStrings \<and> role t = ColO")
  case True
  then obtain ob where t: "t = RefObject ob" by (cases t) auto
  obtain k v d l where parts: "decompose_object ox ob = (k, v, d, l)" by (metis prod_cases4)
  then have "k < 256" using decompose_kind by fastforce
  then show ?thesis using True t parts
    by (cases d; cases l) (auto simp: eqs_typed_def built_dtype_def)
next
  case False
  then show ?thesis by (cases layout; cases t) (auto simp: eqs_typed_def built_dtype_def)
qed

lemma pattern_eqs_typed: "eqs_typed (built_dtype layout) (pattern_eqs ox layout p)"
  using ref_eqs_typed [of layout ox] by (fastforce simp: eqs_typed_def)

lemma ref_eqs_decisive: "decisive (ref_eqs ox layout t) (quad_row ox layout q)"
proof (cases "layout = TypedObjectStrings \<and> role t = ColO")
  case True
  then obtain ob where t: "t = RefObject ob" by (cases t) auto
  obtain k v d l where parts: "decompose_object ox ob = (k, v, d, l)" by (metis prod_cases4)
  obtain k' v' d' l' where row: "decompose_object ox (quad_object q) = (k', v', d', l')" by (metis prod_cases4)
  show ?thesis
  proof (cases "k = k'")
    case True
    then have "(d = None \<longleftrightarrow> d' = None) \<and> (l = None \<longleftrightarrow> l' = None)"
      using decompose_parts [of ox ob k v d l] parts row by blast
    then show ?thesis using \<open>layout = TypedObjectStrings \<and> role t = ColO\<close> t parts
      by (cases d; cases l; cases d'; cases l')
        (auto simp: decisive_def row_holds_def quad_row_typed [OF row])
  next
    case False
    then show ?thesis using \<open>layout = TypedObjectStrings \<and> role t = ColO\<close> t parts
      by (auto simp: decisive_def quad_row_typed [OF row])
  qed
next
  case False
  then have one: "ref_eqs ox layout t = [(column_name (role t), TextScalar (write_nt ox t))]"
    by (cases layout; cases t) auto
  obtain k v d l where row: "decompose_object ox (quad_object q) = (k, v, d, l)" by (metis prod_cases4)
  have "\<exists>c. quad_row ox layout q (column_name (role t)) = Some c \<and> c \<noteq> NullScalar"
    using False by (cases layout; cases t) (simp_all add: quad_row_default quad_row_typed [OF row])
  then show ?thesis by (auto simp: one decisive_def row_holds_def)
qed

lemma decisive_concat:
  "\<forall>eqs \<in> set eqss. decisive eqs r \<Longrightarrow> decisive (concat eqss) r"
  unfolding decisive_def row_holds_def list_all_iff set_concat by blast

lemma pattern_eqs_decisive: "decisive (pattern_eqs ox layout p) (quad_row ox layout q)"
  by (rule decisive_concat) (auto simp: ref_eqs_decisive)

section \<open>The mask of a tail's rows\<close>

lemma mask_bit:
  assumes fl: "lawful_compute fl" and s: "fits ty s" and cells: "\<forall>r \<in> set rows. fits ty (f r) \<or> f r = NullScalar"
  shows "\<exists>m. equal_to fl ty (map f rows) s = Some m \<and> length m = length rows \<and>
    (\<forall>i < length rows. (f (rows ! i) = s \<longrightarrow> m ! i) \<and> (m ! i \<longrightarrow> f (rows ! i) = NullScalar \<or> f (rows ! i) = s))"
proof -
  have "\<forall>c \<in> set (map f rows). fits ty c \<or> c = NullScalar" using cells by auto
  then obtain m where "equal_to fl ty (map f rows) s = Some m" "length m = length (map f rows)"
      "\<forall>i < length (map f rows). map f rows ! i \<noteq> NullScalar \<longrightarrow> m ! i = (map f rows ! i = s)"
    using fl s unfolding lawful_compute_def by blast
  moreover have "s \<noteq> NullScalar" using s by auto
  ultimately show ?thesis by auto
qed

text \<open>A row's bit is set where every equality holds, and only where each equality holds or meets a
  null; \<open>prev\<close> is the mask so far.\<close>

definition bit_between :: "(mask option \<Rightarrow> nat \<Rightarrow> bool) \<Rightarrow> mask option \<Rightarrow> equalities \<Rightarrow> row \<Rightarrow> nat \<Rightarrow> bool \<Rightarrow> bool" where
  "bit_between prev acc eqs r i b \<longleftrightarrow>
     (prev acc i \<and> row_holds eqs r \<longrightarrow> b) \<and>
     (b \<longrightarrow> prev acc i \<and> list_all (\<lambda>(name, s). r name = Some NullScalar \<or> r name = Some s) eqs)"

definition so_far :: "mask option \<Rightarrow> nat \<Rightarrow> bool" where
  "so_far acc i \<longleftrightarrow> (case acc of None \<Rightarrow> True | Some m \<Rightarrow> m ! i)"

lemma mask_loop_between:
  assumes fl: "lawful_compute fl"
    and eqs: "\<forall>(name, s) \<in> set eqs. \<exists>ty. cols name = Some (ty, map (\<lambda>r. the (r name)) rows) \<and> fits ty s \<and>
        (\<forall>r \<in> set rows. \<exists>c. r name = Some c \<and> (fits ty c \<or> c = NullScalar))"
    and acc: "case acc of None \<Rightarrow> True | Some prev \<Rightarrow> length prev = length rows"
  shows "\<exists>res. mask_loop fl cols eqs acc = Some res \<and> (res = None \<longrightarrow> acc = None \<and> eqs = []) \<and>
    (\<forall>m. res = Some m \<longrightarrow> length m = length rows \<and>
       (\<forall>i < length rows. bit_between so_far acc eqs (rows ! i) i (m ! i)))"
  using eqs acc
proof (induction eqs arbitrary: acc)
  case Nil
  then show ?case by (auto simp: bit_between_def so_far_def row_holds_def split: option.splits)
next
  case (Cons e eqs)
  obtain name s where e: "e = (name, s)" by fastforce
  obtain ty where ty: "cols name = Some (ty, map (\<lambda>r. the (r name)) rows)" "fits ty s"
      "\<forall>r \<in> set rows. \<exists>c. r name = Some c \<and> (fits ty c \<or> c = NullScalar)"
    using Cons.prems(1) e by auto
  then obtain m where m: "equal_to fl ty (map (\<lambda>r. the (r name)) rows) s = Some m" "length m = length rows"
      "\<forall>i < length rows. (the ((rows ! i) name) = s \<longrightarrow> m ! i) \<and>
         (m ! i \<longrightarrow> the ((rows ! i) name) = NullScalar \<or> the ((rows ! i) name) = s)"
    using mask_bit [OF fl ty(2), of rows "\<lambda>r. the (r name)"] by fastforce
  let ?acc = "Some (case acc of Some prev \<Rightarrow> map2 (\<and>) prev m | None \<Rightarrow> m)"
  obtain res where res: "mask_loop fl cols eqs ?acc = Some res" "res = None \<longrightarrow> ?acc = None \<and> eqs = []"
      "\<forall>m. res = Some m \<longrightarrow> length m = length rows \<and>
         (\<forall>i < length rows. bit_between so_far ?acc eqs (rows ! i) i (m ! i))"
    using Cons.IH [of ?acc] Cons.prems m(2) by (auto split: option.splits)
  have step: "bit_between so_far acc (e # eqs) (rows ! i) i b"
    if i: "i < length rows" and b: "bit_between so_far ?acc eqs (rows ! i) i b" for i b
  proof -
    obtain c where c: "(rows ! i) name = Some c" using ty(3) nth_mem [OF i] by blast
    have "so_far ?acc i \<longleftrightarrow> so_far acc i \<and> m ! i"
      using i Cons.prems(2) m(2) by (cases acc) (auto simp: so_far_def)
    moreover have "(c = s \<longrightarrow> m ! i) \<and> (m ! i \<longrightarrow> c = NullScalar \<or> c = s)"
      using m(3) i c by fastforce
    moreover have "row_holds (e # eqs) (rows ! i) \<longleftrightarrow> c = s \<and> row_holds eqs (rows ! i)"
      by (simp add: row_holds_def e c)
    moreover have "list_all (\<lambda>(name, s). (rows ! i) name = Some NullScalar \<or> (rows ! i) name = Some s) (e # eqs) \<longleftrightarrow>
        (c = NullScalar \<or> c = s) \<and>
        list_all (\<lambda>(name, s). (rows ! i) name = Some NullScalar \<or> (rows ! i) name = Some s) eqs"
      by (simp add: e c)
    ultimately show ?thesis using b unfolding bit_between_def by blast
  qed
  show ?case
    using e ty(1) m(1) res step by (intro exI [of _ res]) auto
qed

lemma table_dtype_lookup:
  "map_of (table_dtype t) name =
     map_option (\<lambda>col. (col_type col, col_nullable col)) (map_of (tb_columns t) name)"
  using map_of_map [of "\<lambda>col. (col_type col, col_nullable col)" "tb_columns t"]
  by (simp add: table_dtype_def)

lemma struct_column_rows:
  assumes "chunks_ok fl dt us" "map_of dt name = Some (ty, nullable)"
  shows "struct_column us name = Some (ty, map (\<lambda>r. the (r name)) (rows_of us))"
proof -
  obtain t ts where us: "us = t # ts" using assms(1) by (cases us) (auto simp: chunks_ok_def)
  then have "table_dtype t = dt" using assms(1) by (simp add: chunks_ok_def)
  then obtain col where "map_of (tb_columns t) name = Some col" "col_type col = ty"
    using table_dtype_lookup [of t name] assms(2) by (cases "map_of (tb_columns t) name") auto
  then show ?thesis using us by (simp add: struct_column_def)
qed

lemma mask_for_rows:
  assumes fl: "lawful_compute fl" and us: "chunks_ok fl' dt us" and typed: "eqs_typed dt eqs"
    and decisive: "\<forall>r \<in> set (rows_of us). decisive eqs r"
  shows "mask_for fl (struct_column us) (rows_len us) eqs = Some (map (row_holds eqs) (rows_of us))"
proof -
  let ?rows = "rows_of us"
  have "\<forall>(name, s) \<in> set eqs. \<exists>ty. struct_column us name = Some (ty, map (\<lambda>r. the (r name)) ?rows) \<and> fits ty s \<and>
      (\<forall>r \<in> set ?rows. \<exists>c. r name = Some c \<and> (fits ty c \<or> c = NullScalar))"
  proof clarify
    fix name s
    assume "(name, s) \<in> set eqs"
    then obtain ty nullable where ty: "map_of dt name = Some (ty, nullable)" "fits ty s"
      using typed by (auto simp: eqs_typed_def)
    have "\<exists>c. r name = Some c \<and> (fits ty c \<or> c = NullScalar)" if "r \<in> set ?rows" for r
      using us that ty(1) by (fastforce simp: chunks_ok_def row_ok_def)
    then show "\<exists>ty. struct_column us name = Some (ty, map (\<lambda>r. the (r name)) ?rows) \<and> fits ty s \<and>
      (\<forall>r \<in> set ?rows. \<exists>c. r name = Some c \<and> (fits ty c \<or> c = NullScalar))"
      using struct_column_rows [OF us ty(1)] ty(2) by blast
  qed
  then obtain res where res: "mask_loop fl (struct_column us) eqs None = Some res" "res = None \<longrightarrow> eqs = []"
      "\<forall>m. res = Some m \<longrightarrow> length m = length ?rows \<and>
         (\<forall>i < length ?rows. bit_between so_far None eqs (?rows ! i) i (m ! i))"
    using mask_loop_between [OF fl, of eqs "struct_column us" ?rows None] by auto
  show ?thesis
  proof (cases res)
    case None
    then show ?thesis using res
      by (simp add: mask_for_def row_holds_def rows_len_rows map_replicate_const [symmetric])
  next
    case (Some m)
    have "m ! i \<longleftrightarrow> row_holds eqs (?rows ! i)" if i: "i < length ?rows" for i
    proof -
      have b: "bit_between so_far None eqs (?rows ! i) i (m ! i)" using res(3) Some i by simp
      have "decisive eqs (?rows ! i)" using decisive i by simp
      then have "row_holds eqs (?rows ! i)"
        if "list_all (\<lambda>(name, s). (?rows ! i) name = Some NullScalar \<or> (?rows ! i) name = Some s) eqs"
        using that unfolding decisive_def list_all_iff by fastforce
      then show ?thesis using b unfolding bit_between_def so_far_def by auto
    qed
    then have "m = map (row_holds eqs) ?rows" using res(3) Some by (intro nth_equalityI) simp_all
    then show ?thesis using res(1) Some by (simp add: mask_for_def)
  qed
qed

section \<open>The rows of a tail that hold the equalities\<close>

lemma refine_narrows:
  assumes "wf_selection n sel"
  shows "narrows n sel p (refine sel (map p (covered sel n)))"
  using refine_kept [OF assms, of "map p (covered sel n)"]
  by (auto simp: narrows_def zip_map2 zip_same_conv_map filter_map o_def)

lemma typed_places:
  assumes fl: "lawful fl" and us: "chunks_ok fl dt us"
    and shape: "a = OtherShape \<or> a = ChunkedStructs (map Some us) \<or> (\<exists>u. us = [u] \<and> a = FlatStruct u)"
  shows "typed_positions fl a eqs \<in>
    {Some None, Some (Some (filter (\<lambda>i. row_holds eqs (rows_of us ! i)) [0..<length (rows_of us)]))}"
proof -
  have wf: "list_all (wf_table fl) us" using us by (simp add: chunks_ok_def list_all_iff)
  have chunked: "filter (tail_holds us eqs) [0..<sum_list (map tb_len us)] =
      filter (\<lambda>i. row_holds eqs (rows_of us ! i)) [0..<length (rows_of us)]"
    unfolding length_rows_of by (rule filter_cong) (simp_all add: tail_holds_rows)
  have flat: "filter (holds u eqs) [0..<tb_len u] =
      filter (\<lambda>i. row_holds eqs (rows_of us ! i)) [0..<length (rows_of us)]" if "us = [u]" for u
    using that by (intro filter_cong) (simp_all add: rows_of_def table_rows_def holds_row_at)
  from shape show ?thesis
  proof (elim disjE exE conjE)
    assume "a = ChunkedStructs (map Some us)"
    then show ?thesis
      using chunk_positions_rows [OF fl _ wf, of eqs _ 0 "[]"] chunked
      by (auto simp: typed_positions_def split: option.split)
  next
    fix u
    assume u: "us = [u]" "a = FlatStruct u"
    then show ?thesis
      using positions_of_rows [OF fl, of u eqs _ 0 "[]"] wf flat [OF u(1)]
      by (auto simp: typed_positions_def split: option.split)
  qed (simp add: typed_positions_def split: option.split)
qed

lemma mask_from_filter:
  "mask_from_indices n (filter p [0..<n]) = Some (map p [0..<n])"
  by (simp add: mask_from_indices_def list_all_iff)

lemma tail_rows_holding_narrows:
  assumes fl: "lawful_compute fl" and lib: "lawful_library fl lib" and ts: "chunks_ok fl dt ts"
    and sel: "wf_selection (length (rows_of ts)) sel" and typed: "eqs_typed dt eqs"
    and decisive: "\<forall>r \<in> set (rows_of ts). decisive eqs r"
  shows "narrows (length (rows_of ts)) sel (\<lambda>i. row_holds eqs (rows_of ts ! i)) (tail_rows_holding fl lib ts sel eqs)"
proof (cases "sel_is_empty sel (rows_len ts)")
  case True
  then have "covered sel (length (rows_of ts)) = []"
    using sel_len_covered [OF sel] by (simp add: sel_is_empty_def rows_len_rows)
  then show ?thesis using True sel by (simp add: tail_rows_holding_def narrows_def)
next
  case False
  let ?n = "length (rows_of ts)"
  obtain a us where app: "lib_apply lib sel ts = Some (a, us)" "chunks_ok fl dt us"
      "rows_of us = map ((!) (rows_of ts)) (covered sel ?n)"
      "a = OtherShape \<or> a = ChunkedStructs (map Some us) \<or> (\<exists>u. us = [u] \<and> a = FlatStruct u)"
    using lib ts sel unfolding lawful_library_def rows_len_rows by blast
  have keep: "map (row_holds eqs) (rows_of us) = map (\<lambda>i. row_holds eqs (rows_of ts ! i)) (covered sel ?n)"
    by (simp add: app(3))
  have "\<forall>r \<in> set (rows_of us). decisive eqs r"
    using decisive covered_bound [OF sel] by (auto simp: app(3))
  then have "mask_for fl (struct_column us) (rows_len us) eqs = Some (map (row_holds eqs) (rows_of us))"
    by (rule mask_for_rows [OF fl app(2) typed])
  moreover have "mask_from_indices (rows_len us)
      (filter (\<lambda>i. row_holds eqs (rows_of us ! i)) [0..<length (rows_of us)]) =
      Some (map (row_holds eqs) (rows_of us))"
    unfolding rows_len_rows mask_from_filter by (auto intro: nth_equalityI)
  ultimately have "tail_rows_holding fl lib ts sel eqs = refine sel (map (row_holds eqs) (rows_of us))"
    using typed_places [OF _ app(2,4), of eqs] fl False app(1)
    by (auto simp: tail_rows_holding_def lawful_compute_def)
  then show ?thesis unfolding keep using refine_narrows [OF sel] by simp
qed

section \<open>A tail holds quads\<close>

text \<open>The tail's rows are those of \<open>qs\<close>, its keys theirs; its quads are the selected ones that no
  tombstone hides.\<close>

definition tail_of :: "'l oxrdf \<Rightarrow> 'k compute_scheme \<Rightarrow> hasher \<Rightarrow> 'l rdf_quad list \<Rightarrow> tail \<Rightarrow> bool" where
  "tail_of ox fl fx qs self \<longleftrightarrow>
     (\<forall>q \<in> set qs. wf_quad ox q) \<and> chunks_ok fl (built_dtype (tail_layout self)) (tail_rows self) \<and>
     rows_of (tail_rows self) = map (quad_row ox (tail_layout self)) qs \<and>
     wf_selection (length qs) (tail_selection self) \<and> wf_deleted (length qs) (tail_deleted self) \<and>
     tk_columns (tail_key_runs self) = key_columns (tail_layout self) \<and>
     wf_keys fx (tail_key_runs self) (rows_of (tail_rows self))"

definition tail_quads :: "'l rdf_quad list \<Rightarrow> tail \<Rightarrow> 'l rdf_quad list" where
  "tail_quads qs self = map ((!) qs) (live_rows (tail_selection self) (tail_deleted self) (length qs))"

lemma tail_len: "tail_of ox fl fx qs self \<Longrightarrow> rows_len (tail_rows self) = length qs"
  by (simp add: tail_of_def rows_len_rows)

lemma quad_row_keyed: "keyed (key_columns layout) (quad_row ox layout q)"
proof -
  obtain k v d l where "decompose_object ox (quad_object q) = (k, v, d, l)" by (metis prod_cases4)
  then show ?thesis
    by (cases layout) (auto simp: keyed_def key_columns_def quad_row_default quad_row_typed)
qed

lemma rows_pattern:
  assumes "lawful_oxrdf ox" "tail_of ox fl fx qs self" "wf_pattern ox p" "i < length qs"
  shows "row_holds (pattern_eqs ox (tail_layout self) p) (rows_of (tail_rows self) ! i) \<longleftrightarrow> quad_matches p (qs ! i)"
  using assms pattern_eqs_row [OF assms(1) _ assms(3)] by (simp add: tail_of_def)

lemma tail_prepared:
  assumes "lawful_oxrdf ox" "wf_pattern ox p"
  shows "\<exists>codes. prepare_pattern ox (resolved_strings layout) p = Inr (PreparedCodes codes) \<and>
    constraints ox codes p = Inr (EqAll (pattern_eqs ox layout p))"
  using string_constraints [OF assms(1) _ assms(2), of "[]" layout] by auto

text \<open>The rows a key names, cut to the selection, miss none that holds the equalities.\<close>

lemma named_covered:
  assumes sel: "wf_selection n sel" and key: "\<forall>i < n. p i \<longrightarrow> k i"
  shows "filter p (filter (sel_contains sel) (filter k [0..<n])) = filter p (covered sel n)"
proof -
  have "filter (\<lambda>i. i \<in> set (covered sel n)) [0..<n] = covered sel n"
    using covered_ascending [OF sel] covered_bound [OF sel]
    by (intro ascending_unique ascending_filter) auto
  moreover have "filter p (filter (sel_contains sel) (filter k [0..<n])) =
      filter p (filter (\<lambda>i. i \<in> set (covered sel n)) [0..<n])"
    unfolding filter_filter using key sel_contains_covered [OF sel] by (intro filter_cong) auto
  ultimately show ?thesis by (simp only:)
qed

lemma match_tail_narrows:
  assumes ox: "lawful_oxrdf ox" and fl: "lawful_compute fl" and lib: "lawful_library fl lib"
    and self: "tail_of ox fl fx qs self" and p: "wf_pattern ox p"
  shows "\<exists>sel. match_tail ox fx fl lib self p = Some (tail_with_selection self sel) \<and> wf_selection (length qs) sel \<and>
    covered sel (length qs) = filter (\<lambda>i. quad_matches p (qs ! i)) (covered (tail_selection self) (length qs))"
proof -
  let ?n = "length qs" and ?layout = "tail_layout self" and ?ts = "tail_rows self"
  let ?eqs = "pattern_eqs ox ?layout p" and ?sel = "tail_selection self"
  have wf: "wf_selection ?n ?sel" and ok: "chunks_ok fl (built_dtype ?layout) ?ts"
      and rows: "length (rows_of ?ts) = ?n"
    using self by (simp_all add: tail_of_def)
  have matches: "filter (\<lambda>i. row_holds ?eqs (rows_of ?ts ! i)) (covered sel ?n) =
      filter (\<lambda>i. quad_matches p (qs ! i)) (covered sel ?n)" if "wf_selection ?n sel" for sel
    using rows_pattern [OF ox self p] covered_bound [OF that] by (intro filter_cong) auto
  show ?thesis
  proof (cases "sel_is_empty ?sel ?n")
    case True
    then have "covered ?sel ?n = []" using sel_len_covered [OF wf] by (simp add: sel_is_empty_def)
    then show ?thesis using True wf by (intro exI [of _ ?sel]) (simp add: match_tail_def tail_len [OF self])
  next
    case False
    obtain codes where codes: "prepare_pattern ox (resolved_strings ?layout) p = Inr (PreparedCodes codes)"
        "constraints ox codes p = Inr (EqAll ?eqs)"
      using tail_prepared [OF ox p] by blast
    show ?thesis
    proof (cases "?eqs = []")
      case True
      then have "filter (\<lambda>i. quad_matches p (qs ! i)) (covered ?sel ?n) = covered ?sel ?n"
        using matches [OF wf] unfolding True row_holds_def by simp
      then show ?thesis using True False codes wf
        by (intro exI [of _ ?sel]) (simp add: match_tail_def tail_len [OF self])
    next
      case nonempty: False
      define compared where "compared = (case candidates fx (tail_key_runs self) ?eqs of
          Some named \<Rightarrow> from_ids (filter (sel_contains ?sel) named) | None \<Rightarrow> ?sel)"
      have compared: "wf_selection ?n compared \<and>
          filter (\<lambda>i. row_holds ?eqs (rows_of ?ts ! i)) (covered compared ?n) =
          filter (\<lambda>i. row_holds ?eqs (rows_of ?ts ! i)) (covered ?sel ?n)"
      proof (cases "candidates fx (tail_key_runs self) ?eqs")
        case (Some named)
        then obtain key where key: "named = filter (\<lambda>i. row_key fx (key_columns ?layout) (rows_of ?ts ! i) = key) [0..<?n]"
            "\<forall>i < ?n. row_holds ?eqs (rows_of ?ts ! i) \<longrightarrow> row_key fx (key_columns ?layout) (rows_of ?ts ! i) = key"
          using candidates_hold [of fx "tail_key_runs self" "rows_of ?ts" ?eqs named] self
          by (auto simp: tail_of_def)
        then show ?thesis
          using Some named_covered [OF wf key(2)]
          by (auto simp: compared_def sorted_wrt_filter)
      qed (simp add: compared_def wf)
      have "\<forall>r \<in> set (rows_of ?ts). decisive ?eqs r"
        using self by (auto simp: tail_of_def pattern_eqs_decisive)
      then have "narrows ?n compared (\<lambda>i. row_holds ?eqs (rows_of ?ts ! i)) (tail_rows_holding fl lib ?ts compared ?eqs)"
        using tail_rows_holding_narrows [OF fl lib ok, of compared ?eqs] pattern_eqs_typed compared rows
        by metis
      then show ?thesis
        using False nonempty codes compared matches [OF wf]
        by (auto simp: match_tail_def tail_len [OF self] narrows_def compared_def Let_def)
    qed
  qed
qed

section \<open>Tails read, deleted from and appended to\<close>

lemma live_rows_bound: "wf_selection n sel \<Longrightarrow> i \<in> set (live_rows sel deleted n) \<Longrightarrow> i < n"
  by (auto simp: live_rows_def covered_bound)

lemma gather_live_rows:
  assumes lib: "lawful_library fl lib" and ts: "chunks_ok fl dt ts"
    and wf: "wf_selection (length (rows_of ts)) sel" "wf_deleted (length (rows_of ts)) deleted"
  shows "\<exists>us. gather_live lib ts sel deleted = Some us \<and> chunks_ok fl dt us \<and>
    rows_of us = map ((!) (rows_of ts)) (live_rows sel deleted (length (rows_of ts)))"
proof -
  let ?n = "length (rows_of ts)"
  obtain a us where us: "lib_apply lib sel ts = Some (a, us)" "chunks_ok fl dt us"
      "rows_of us = map ((!) (rows_of ts)) (covered sel ?n)"
    using lib ts wf(1) unfolding lawful_library_def rows_len_rows by blast
  show ?thesis
  proof (cases deleted)
    case None
    then show ?thesis using us by (simp add: gather_live_def live_rows_def)
  next
    case (Some d)
    let ?live = "map (\<lambda>i. \<not> d ! i) (covered sel ?n)"
    have live: "live_mask sel d ?n = Some ?live" using live_mask_rows [OF wf(1)] wf(2) Some by simp
    have kept: "map fst (filter snd (zip (rows_of us) ?live)) =
        map ((!) (rows_of ts)) (live_rows sel deleted ?n)"
      by (simp add: us(3) Some live_rows_def zip_map_map zip_same_conv_map filter_map o_def)
    show ?thesis
    proof (cases "list_all id ?live")
      case True
      then have "filter (\<lambda>i. \<not> d ! i) (covered sel ?n) = covered sel ?n"
        by (simp add: list_all_iff filter_id_conv)
      then show ?thesis using us live True Some by (simp add: gather_live_def rows_len_rows live_rows_def)
    next
      case False
      have "length ?live = rows_len us" by (simp add: rows_len_rows us(3))
      then obtain vs where "lib_filter lib us ?live = Some vs" "chunks_ok fl dt vs"
          "rows_of vs = map fst (filter snd (zip (rows_of us) ?live))"
        using lib us(2) unfolding lawful_library_def by blast
      then show ?thesis using us live False Some kept by (simp add: gather_live_def rows_len_rows)
    qed
  qed
qed

lemma tail_live_rows_quads:
  assumes lib: "lawful_library fl lib" and self: "tail_of ox fl fx qs self"
  shows "\<exists>us. tail_live_rows lib self = Some us \<and> chunks_ok fl (built_dtype (tail_layout self)) us \<and>
    rows_of us = map (quad_row ox (tail_layout self)) (tail_quads qs self)"
proof -
  have wf: "wf_selection (length (rows_of (tail_rows self))) (tail_selection self)"
      "wf_deleted (length (rows_of (tail_rows self))) (tail_deleted self)"
      and rows: "rows_of (tail_rows self) = map (quad_row ox (tail_layout self)) qs"
    using self by (simp_all add: tail_of_def)
  have "map ((!) (rows_of (tail_rows self))) (live_rows (tail_selection self) (tail_deleted self) (length qs)) =
      map (quad_row ox (tail_layout self)) (tail_quads qs self)"
    using live_rows_bound wf(1) rows by (auto simp: tail_quads_def)
  then show ?thesis
    using gather_live_rows [OF lib _ wf] self rows by (simp add: tail_of_def tail_live_rows_def)
qed

lemma tail_quads_wf: "tail_of ox fl fx qs self \<Longrightarrow> q \<in> set (tail_quads qs self) \<Longrightarrow> wf_quad ox q"
  using live_rows_bound by (fastforce simp: tail_of_def tail_quads_def)

lemma tail_raw_quads_read:
  assumes ox: "lawful_oxrdf ox" and lib: "lawful_library fl lib" and self: "tail_of ox fl fx qs self"
  shows "tail_raw_quads ox lib self = Some (Inr (map (from_quad ox) (tail_quads qs self)))"
proof -
  let ?layout = "tail_layout self" and ?qs = "tail_quads qs self"
  obtain us where us: "tail_live_rows lib self = Some us" "chunks_ok fl (built_dtype ?layout) us"
      "rows_of us = map (quad_row ox ?layout) ?qs"
    using tail_live_rows_quads [OF lib self] by blast
  have "lib_canonical lib us = Some (built ox ?layout ?qs)"
    using lib us(2) unfolding lawful_library_def built_canonical us(3) [symmetric] by blast
  moreover have "raw_quads ox ?layout (built ox ?layout ?qs) = Inr (map (from_quad ox) ?qs)"
    using raw_quads_built [OF ox] tail_quads_wf [OF self] by blast
  ultimately show ?thesis using us(1) by (simp add: tail_raw_quads_def)
qed

lemma tail_new_of:
  assumes ts: "chunks_ok fl (built_dtype layout) ts" "rows_of ts = map (quad_row ox layout) qs"
    and qs: "\<forall>q \<in> set qs. wf_quad ox q"
  shows "\<exists>self. tail_new fx ts layout = Some self \<and> tail_of ox fl fx qs self \<and> tail_layout self = layout \<and>
    tail_selection self = AllRows \<and> tail_deleted self = None \<and> tail_rows self = ts"
proof -
  obtain keys where "keys_of fx (rows_of ts) layout = Some keys" "tk_columns keys = key_columns layout"
      "wf_keys fx keys (rows_of ts)"
    using keys_of_wf [of "rows_of ts" layout fx] ts(2) by (auto simp: quad_row_keyed)
  then show ?thesis using ts qs by (simp add: tail_new_def tail_of_def)
qed

lemma chunks_ok_append:
  assumes "chunks_ok fl dt ts" "chunks_ok fl dt us" "rows_len ts + rows_len us \<le> usize_max"
  shows "chunks_ok fl dt (ts @ us)"
  using assms by (auto simp: chunks_ok_def rows_len_def rows_of_def)

lemma flatten_ok:
  assumes lib: "lawful_library fl lib" and ok: "chunks_ok fl dt chunks"
  shows "\<exists>rows. (if big then map_option (\<lambda>u. [u]) (lib_canonical lib chunks) else Some chunks) = Some rows \<and>
    chunks_ok fl dt rows \<and> rows_of rows = rows_of chunks \<and> rows = (if big then [canonical_table dt (rows_of chunks)] else chunks)"
proof -
  have typed: "\<forall>r \<in> set (rows_of chunks). row_ok dt r" "distinct (map fst dt)" "length (rows_of chunks) \<le> usize_max"
    using ok by (simp_all add: chunks_ok_def rows_len_rows)
  moreover have "lib_canonical lib chunks = Some (canonical_table dt (rows_of chunks))"
    using lib ok unfolding lawful_library_def by blast
  ultimately show ?thesis using ok canonical_ok [OF typed(2,1,3), of fl] canonical_rows [OF typed(1)] by simp
qed

lemma tail_append_of:
  assumes lib: "lawful_library fl lib" and self: "tail_of ox fl fx qs self"
    and new: "\<forall>q \<in> set new. wf_quad ox q" "length (tail_quads qs self) + length new \<le> usize_max"
  shows "\<exists>self'. tail_append fx lib self (built ox (tail_layout self) new) = Some self' \<and>
    tail_of ox fl fx (tail_quads qs self @ new) self' \<and> tail_layout self' = tail_layout self \<and>
    tail_selection self' = AllRows \<and> tail_deleted self' = None \<and> length (tail_rows self') \<le> TAIL_MAX_CHUNKS"
proof -
  let ?layout = "tail_layout self" and ?dt = "built_dtype (tail_layout self)"
  let ?fresh = "built ox ?layout new" and ?old = "tail_quads qs self"
  obtain old where old: "tail_live_rows lib self = Some old" "chunks_ok fl ?dt old"
      "rows_of old = map (quad_row ox ?layout) ?old"
    using tail_live_rows_quads [OF lib self] by blast
  have all: "rows_of (old @ [?fresh]) = map (quad_row ox ?layout) (?old @ new)"
    using old(3) by (simp add: rows_of_def table_rows_built)
  have "chunks_ok fl ?dt [?fresh]" using new(2) by (intro built_ok) simp
  then have ok: "chunks_ok fl ?dt (old @ [?fresh])"
    using old(2,3) new(2) by (intro chunks_ok_append) (simp_all add: rows_len_rows rows_of_def table_rows_built)
  define big where "big \<longleftrightarrow> max (tb_len (hd old)) TAIL_FLATTEN_FLOOR \<le> rows_len (tl old) + tb_len ?fresh \<or>
    TAIL_MAX_CHUNKS < length (old @ [?fresh])"
  obtain rows where rows: "(if big then map_option (\<lambda>u. [u]) (lib_canonical lib (old @ [?fresh])) else Some (old @ [?fresh])) = Some rows"
      "chunks_ok fl ?dt rows" "rows_of rows = map (quad_row ox ?layout) (?old @ new)"
      "rows = (if big then [canonical_table ?dt (rows_of (old @ [?fresh]))] else old @ [?fresh])"
    using flatten_ok [OF lib ok, of big] all by metis
  have chunks: "length rows \<le> TAIL_MAX_CHUNKS"
    using rows(4) by (cases big) (simp_all add: big_def TAIL_MAX_CHUNKS_def)
  have dt: "table_dtype ?fresh = table_dtype (hd old)"
    using ok old(2) by (cases old) (simp_all add: chunks_ok_def)
  have wf: "\<forall>q \<in> set (?old @ new). wf_quad ox q" using new(1) tail_quads_wf [OF self] by auto
  show ?thesis
  proof (cases "tail_deleted self = None \<and> tail_selection self = AllRows")
    case True
    then have "?old = qs" by (simp add: tail_quads_def live_rows_def map_nth)
    then have before: "rows_of (tail_rows self) = map (quad_row ox ?layout) ?old"
        "wf_keys fx (tail_key_runs self) (rows_of (tail_rows self))"
        "tk_columns (tail_key_runs self) = key_columns ?layout"
      using self by (auto simp: tail_of_def)
    then obtain keys where keys: "keys_extended fx (tail_key_runs self) (table_rows ?fresh) = Some keys"
        "tk_columns keys = key_columns ?layout" "wf_keys fx keys (rows_of rows)"
      using keys_extended_wf [OF before(2), of "table_rows ?fresh"] rows(3)
      by (auto simp: table_rows_built quad_row_keyed)
    then show ?thesis
      using True old(1) dt rows chunks wf unfolding big_def
      by (simp add: tail_append_def tail_of_def Let_def)
  next
    case False
    then have "(case (tail_deleted self, tail_selection self) of
        (None, AllRows) \<Rightarrow> map_option Some (keys_extended fx (tail_key_runs self) (table_rows ?fresh))
      | _ \<Rightarrow> Some None) = Some None"
      by (cases "tail_deleted self"; cases "tail_selection self") simp_all
    moreover obtain self' where self': "tail_new fx rows ?layout = Some self'" "tail_of ox fl fx (?old @ new) self'"
        "tail_layout self' = ?layout" "tail_selection self' = AllRows" "tail_deleted self' = None" "tail_rows self' = rows"
      using tail_new_of [OF rows(2,3) wf, of fx] by blast
    ultimately have "tail_append fx lib self ?fresh = Some self'"
      using old(1) dt rows(1) unfolding big_def by (simp add: tail_append_def Let_def)
    then show ?thesis using self' chunks by blast
  qed
qed

lemma tail_tombstoned_of:
  assumes self: "tail_of ox fl fx qs self" and doomed: "wf_selection (length qs) doomed"
  shows "\<exists>self'. tail_tombstoned self doomed = Some self' \<and> tail_of ox fl fx qs self' \<and>
    tail_layout self' = tail_layout self \<and> tail_selection self' = tail_selection self \<and>
    live_rows (tail_selection self') (tail_deleted self') (length qs) =
      filter (\<lambda>i. i \<notin> set (covered doomed (length qs))) (live_rows (tail_selection self) (tail_deleted self) (length qs))"
proof -
  let ?n = "length qs" and ?m = "map (\<lambda>i. i \<in> set (covered doomed (length qs))) [0..<length qs]"
  have sel: "wf_selection ?n (tail_selection self)" and del: "wf_deleted ?n (tail_deleted self)"
    using self by (simp_all add: tail_of_def)
  have "length (union_deleted (tail_deleted self) ?m) = ?n"
    using del by (cases "tail_deleted self") (simp_all add: union_deleted_def)
  moreover have "union_deleted (tail_deleted self) ?m ! i \<longleftrightarrow>
      i \<in> set (covered doomed ?n) \<or> (\<exists>d. tail_deleted self = Some d \<and> d ! i)" if "i < ?n" for i
    using del that by (cases "tail_deleted self") (auto simp: union_deleted_def)
  then have "live_rows (tail_selection self) (Some (union_deleted (tail_deleted self) ?m)) ?n =
      filter (\<lambda>i. i \<notin> set (covered doomed ?n)) (live_rows (tail_selection self) (tail_deleted self) ?n)"
    using covered_bound [OF sel] unfolding live_rows_def filter_filter
    by (intro filter_cong) (auto split: option.splits)
  ultimately show ?thesis
    using self by (auto simp: tail_tombstoned_def tail_len [OF self] to_mask_eq [OF doomed] tail_of_def)
qed

section \<open>A library to try them on\<close>

definition plain_library :: library where
  "plain_library =
     \<lparr> lib_apply = (\<lambda>sel ts.
         let u = canonical_table (table_dtype (hd ts)) (map ((!) (rows_of ts)) (covered sel (rows_len ts)))
         in Some (FlatStruct u, [u])),
       lib_filter = (\<lambda>ts m.
         Some [canonical_table (table_dtype (hd ts)) (map fst (filter snd (zip (rows_of ts) m)))]),
       lib_canonical = (\<lambda>ts. Some (canonical_table (table_dtype (hd ts)) (rows_of ts))) \<rparr>"

lemma plain_library_lawful: "lawful_library fl plain_library"
proof -
  have dt: "table_dtype (hd ts) = dt" if "chunks_ok fl dt ts" for dt ts
    using that by (cases ts) (simp_all add: chunks_ok_def)
  have parts: "distinct (map fst dt)" "\<forall>r \<in> set (rows_of ts). row_ok dt r" "length (rows_of ts) \<le> usize_max"
    if "chunks_ok fl dt ts" for dt ts
    using that by (simp_all add: chunks_ok_def rows_len_rows)
  have sub: "chunks_ok fl dt [canonical_table dt rows] \<and> rows_of [canonical_table dt rows] = rows"
    if "chunks_ok fl dt ts" "set rows \<subseteq> set (rows_of ts)" "length rows \<le> length (rows_of ts)" for dt ts rows
    using canonical_ok [of dt rows fl] canonical_rows [of rows dt] parts [OF that(1)] that(2,3) by fastforce
  have app: "chunks_ok fl dt [canonical_table dt (map ((!) (rows_of ts)) (covered sel (rows_len ts)))] \<and>
      rows_of [canonical_table dt (map ((!) (rows_of ts)) (covered sel (rows_len ts)))] =
        map ((!) (rows_of ts)) (covered sel (rows_len ts))"
    if "chunks_ok fl dt ts" "wf_selection (rows_len ts) sel" for dt ts sel
    using covered_bound [OF that(2)] ascending_length_le [OF covered_ascending [OF that(2)]]
    by (intro sub [OF that(1)]) (auto simp: rows_len_rows)
  have fil: "chunks_ok fl dt [canonical_table dt (map fst (filter snd (zip (rows_of ts) m)))] \<and>
      rows_of [canonical_table dt (map fst (filter snd (zip (rows_of ts) m)))] =
        map fst (filter snd (zip (rows_of ts) m))"
    if "chunks_ok fl dt ts" "length m = rows_len ts" for dt ts m
    by (intro sub [OF that(1)]) (auto simp: set_zip intro: order_trans [OF length_filter_le])
  show ?thesis
    unfolding lawful_library_def using app fil dt by (auto simp: plain_library_def Let_def)
qed

section \<open>What a tail answers\<close>

lemma match_tail_quads:
  assumes "lawful_oxrdf ox" "lawful_compute fl" "lawful_library fl lib" "tail_of ox fl fx qs self" "wf_pattern ox p"
  shows "\<exists>self'. match_tail ox fx fl lib self p = Some self' \<and> tail_of ox fl fx qs self' \<and>
    tail_layout self' = tail_layout self \<and> tail_deleted self' = tail_deleted self \<and>
    live_rows (tail_selection self') (tail_deleted self') (length qs) =
      filter (\<lambda>i. quad_matches p (qs ! i)) (live_rows (tail_selection self) (tail_deleted self) (length qs))"
proof -
  obtain sel where sel: "match_tail ox fx fl lib self p = Some (tail_with_selection self sel)"
      "wf_selection (length qs) sel"
      "covered sel (length qs) = filter (\<lambda>i. quad_matches p (qs ! i)) (covered (tail_selection self) (length qs))"
    using match_tail_narrows [OF assms] by blast
  have "live_rows sel (tail_deleted self) (length qs) =
      filter (\<lambda>i. quad_matches p (qs ! i)) (live_rows (tail_selection self) (tail_deleted self) (length qs))"
    unfolding live_rows_def sel(3) filter_filter by (simp add: conj_commute)
  then show ?thesis
    using sel(1,2) assms(4) by (auto simp: tail_with_selection_def tail_of_def)
qed

lemma quads_at_filter: "map ((!) qs) (filter (\<lambda>i. p (qs ! i)) is) = filter p (map ((!) qs) is)"
  by (simp add: filter_map o_def)

text \<open>C29. The match of a pattern on a tail never fails: whatever keys, selection and tombstones the
  tail has, its view of the result holds exactly the quads of the tail that match, in their order. No
  blank id of the quads starts with \<open>_:\<close>.\<close>

theorem tail_match_exact:
  assumes "lawful_oxrdf ox" "lawful_compute fl" "lawful_library fl lib" "tail_of ox fl fx qs self" "wf_pattern ox p"
  shows "\<exists>self'. match_tail ox fx fl lib self p = Some self' \<and> tail_of ox fl fx qs self' \<and>
    tail_quads qs self' = filter (quad_matches p) (tail_quads qs self) \<and>
    tail_raw_quads ox lib self' = Some (Inr (map (from_quad ox) (filter (quad_matches p) (tail_quads qs self))))"
proof -
  obtain self' where self': "match_tail ox fx fl lib self p = Some self'" "tail_of ox fl fx qs self'"
      "tail_quads qs self' = filter (quad_matches p) (tail_quads qs self)"
    using match_tail_quads [OF assms] by (auto simp: tail_quads_def quads_at_filter)
  then show ?thesis using tail_raw_quads_read [OF assms(1,3) self'(2)] by simp
qed

lemma sample_tail:
  "\<exists>self. tail_new fx [built plain_oxrdf DefaultStrings sample_quads] DefaultStrings = Some self \<and>
     tail_of plain_oxrdf plain_compute fx sample_quads self \<and> tail_quads sample_quads self = sample_quads"
proof -
  have "chunks_ok plain_compute (built_dtype DefaultStrings) [built plain_oxrdf DefaultStrings sample_quads]"
    by (rule built_ok) (simp add: sample_quads_def u64_max_def)
  moreover have "rows_of [built plain_oxrdf DefaultStrings sample_quads] =
      map (quad_row plain_oxrdf DefaultStrings) sample_quads"
    by (simp add: rows_of_def table_rows_built)
  ultimately obtain self where "tail_new fx [built plain_oxrdf DefaultStrings sample_quads] DefaultStrings = Some self"
      "tail_of plain_oxrdf plain_compute fx sample_quads self" "tail_selection self = AllRows" "tail_deleted self = None"
    using tail_new_of [OF _ _ sample_quads_wf] by blast
  then show ?thesis by (auto simp: tail_quads_def live_rows_def map_nth)
qed

theorem tail_match_exact_witness:
  "\<exists>self self'. tail_new (\<lambda>h. length h mod 5) [built plain_oxrdf DefaultStrings sample_quads] DefaultStrings = Some self \<and>
     match_tail plain_oxrdf (\<lambda>h. length h mod 5) plain_compute plain_library self sample_pattern = Some self' \<and>
     tail_quads sample_quads self' = [sample_quads ! 1]"
proof -
  obtain self where self: "tail_new (\<lambda>h. length h mod 5) [built plain_oxrdf DefaultStrings sample_quads] DefaultStrings = Some self"
      "tail_of plain_oxrdf plain_compute (\<lambda>h. length h mod 5) sample_quads self"
      "tail_quads sample_quads self = sample_quads"
    using sample_tail by blast
  have "filter (quad_matches sample_pattern) sample_quads = [sample_quads ! 1]"
    by (simp add: quad_matches_def sample_pattern_def sample_quads_def)
  then show ?thesis
    using tail_match_exact [OF plain_lawful plain_compute_lawful plain_library_lawful self(2) sample_pattern_wf]
      self by auto
qed

text \<open>C30. Appending to a tail keeps exactly its live quads, in order, and the new ones after them, in at
  most 64 chunks and under no tombstone or selection, and the tail that results is read back as
  those quads. No blank id of the quads starts with \<open>_:\<close>.\<close>

theorem tail_append_keeps_quads:
  assumes "lawful_oxrdf ox" "lawful_library fl lib" "tail_of ox fl fx qs self"
    and "\<forall>q \<in> set new. wf_quad ox q" "length (tail_quads qs self) + length new \<le> usize_max"
  shows "\<exists>self'. tail_append fx lib self (built ox (tail_layout self) new) = Some self' \<and>
    tail_of ox fl fx (tail_quads qs self @ new) self' \<and> length (tail_rows self') \<le> TAIL_MAX_CHUNKS \<and>
    tail_live_len self' = Some (length (tail_quads qs self) + length new) \<and>
    tail_raw_quads ox lib self' = Some (Inr (map (from_quad ox) (tail_quads qs self @ new)))"
proof -
  obtain self' where self': "tail_append fx lib self (built ox (tail_layout self) new) = Some self'"
      "tail_of ox fl fx (tail_quads qs self @ new) self'" "tail_selection self' = AllRows"
      "tail_deleted self' = None" "length (tail_rows self') \<le> TAIL_MAX_CHUNKS"
    using tail_append_of [OF assms(2,3,4,5)] by blast
  moreover have "tail_quads (tail_quads qs self @ new) self' = tail_quads qs self @ new"
    using self'(3,4) map_nth [of "tail_quads qs self @ new"] by (simp add: tail_quads_def live_rows_def)
  moreover have "tail_live_len self' = Some (length (tail_quads qs self) + length new)"
    using self'(3,4) tail_len [OF self'(2)] by (simp add: tail_live_len_def live_len_def)
  ultimately show ?thesis using tail_raw_quads_read [OF assms(1,2) self'(2)] by auto
qed

theorem tail_append_keeps_quads_witness:
  "\<exists>self self'. tail_new (\<lambda>h. length h mod 5) [built plain_oxrdf DefaultStrings sample_quads] DefaultStrings = Some self \<and>
     tail_append (\<lambda>h. length h mod 5) plain_library self
       (built plain_oxrdf (tail_layout self) [sample_quads ! 0]) = Some self' \<and>
     tail_live_len self' = Some 3"
proof -
  obtain self where self: "tail_new (\<lambda>h. length h mod 5) [built plain_oxrdf DefaultStrings sample_quads] DefaultStrings = Some self"
      "tail_of plain_oxrdf plain_compute (\<lambda>h. length h mod 5) sample_quads self"
      "tail_quads sample_quads self = sample_quads"
    using sample_tail by blast
  have len: "length sample_quads = 2" by (simp add: sample_quads_def)
  then have "\<forall>q \<in> set [sample_quads ! 0]. wf_quad plain_oxrdf q" using sample_quads_wf by simp
  moreover have "length (tail_quads sample_quads self) + length [sample_quads ! 0] \<le> usize_max"
    using self(3) len by (simp add: u64_max_def)
  ultimately show ?thesis
    using tail_append_keeps_quads [OF plain_lawful plain_library_lawful self(2)] self(1,3) len by fastforce
qed

end
