(* ===== verification/RowIds.thy ===== *)
theory RowIds
  imports Spellings
begin

text \<open>
  Row ids of the secondary indexes: the limit an indexed build numbers its rows to
  (\<open>src/core/src/store/indexes/mod.rs\<close>) and the sorting of unique ids
  (\<open>src/core/src/store/indexes/components.rs\<close>): left as they are, set as bits of a bitmap and read
  back, or compared. An index child may name its rows by 64-bit ids whatever a position is wide.
\<close>

unbundle bit_operations_syntax

section \<open>Row ids\<close>

text \<open>The ids start at 0 outside of the tests' hook.\<close>

definition row_limit :: nat where
  "row_limit = u64_max"

fun decimal :: "nat \<Rightarrow> string" where
  "decimal n = (if n < 10 then [char_of (48 + n)] else decimal (n div 10) @ [char_of (48 + n mod 10)])"

declare decimal.simps [simp del]

definition with_separators :: "nat \<Rightarrow> string" where
  "with_separators n =
     (let digits = decimal n
      in concat (map (\<lambda>(i, digit).
           if 0 < i \<and> (length digits - i) mod 3 = 0 then [CHR '','', digit] else [digit])
         (enumerate 0 digits)))"

definition too_many_rows :: "nat option \<Rightarrow> rdf_error" where
  "too_many_rows rows =
     Serialization
       [''the store would exceed '', with_separators row_limit, '' quads'',
        (case rows of Some n \<Rightarrow> '' ('' @ with_separators n @ '' quads)'' | None \<Rightarrow> '''')]"

definition check_indexed_rows :: "nat \<Rightarrow> unit fallible" where
  "check_indexed_rows rows = (if row_limit < rows then Inl (too_many_rows (Some rows)) else Inr ())"

text \<open>The id of the next row, and the count of the rows numbered.\<close>

definition next_row_id :: "nat \<Rightarrow> (nat \<times> nat) fallible" where
  "next_row_id assigned =
     (if row_limit \<le> assigned then Inl (too_many_rows None) else Inr (assigned, assigned + 1))"

definition row_id :: "nat \<Rightarrow> nat option" where
  "row_id i = (if i \<le> u64_max then Some i else None)"

definition index_of :: "nat \<Rightarrow> nat \<Rightarrow> nat fallible" where
  "index_of index_max row =
     (if row \<le> index_max then Inr row else Inl (Deserialization [''an index child names row'', decimal row]))"

definition row_index :: "nat \<Rightarrow> nat fallible" where
  "row_index row = index_of usize_max row"

section \<open>Sorting row ids\<close>

definition BITMAP_BITS_PER_ID :: nat where
  "BITMAP_BITS_PER_ID = 64"

datatype sort_path = SortedAscending | SortedCompared | SortedBitmap

text \<open>The ids set as bits over their span.\<close>

definition set_id :: "nat \<Rightarrow> nat \<Rightarrow> 64 word list \<Rightarrow> 64 word list" where
  "set_id low rid words =
     (let b = rid - low in words[b div 64 := words ! (b div 64) OR push_bit (b mod 64) 1])"

text \<open>A word's set bits, the lowest first, each cleared as it is read.\<close>

lemma and_pred_less: "w \<noteq> 0 \<Longrightarrow> unat (w AND (w - 1)) < unat (w :: 64 word)"
proof -
  assume "w \<noteq> 0"
  then have "unat w \<noteq> 0" by (simp add: unat_eq_zero)
  then have "w - 1 < w" using \<open>w \<noteq> 0\<close> by (simp add: word_less_nat_alt unat_minus_one)
  then have "w AND (w - 1) < w" using word_and_le1 [of w "w - 1"] by (rule le_less_trans [rotated])
  then show ?thesis by (simp add: word_less_nat_alt)
qed

function read_bits :: "nat \<Rightarrow> 64 word \<Rightarrow> nat list" where
  "read_bits start w = (if w \<noteq> 0 then (start + ctz w) # read_bits start (w AND (w - 1)) else [])"
  by pat_completeness auto
termination
  by (relation "measure (\<lambda>(start, w). unat w)") (simp_all add: and_pred_less)

declare read_bits.simps [simp del]

definition sort_unique_ids :: "nat list \<Rightarrow> sort_path \<times> nat list" where
  "sort_unique_ids ids =
     (if sorted ids then (SortedAscending, ids)
      else
        let (low, high) = fold (\<lambda>id (lo, hi). (min lo id, max hi id)) ids (u64_max, 0);
            reach = high - low
        in if length ids \<le> reach div BITMAP_BITS_PER_ID then (SortedCompared, sort ids)
           else
             let words = fold (set_id low) ids (replicate (reach div 64 + 1) 0);
                 found = concat (map (\<lambda>(w, word). read_bits (low + w * 64) word) (enumerate 0 words))
             in (SortedBitmap, found @ drop (length found) ids))"

definition check_addressable :: "nat list \<Rightarrow> unit fallible" where
  "check_addressable ids = (if ids = [] then Inr () else map_ok (\<lambda>_. ()) (row_index (last ids)))"

section \<open>Every path sorts\<close>

lemma and_pred_unset:
  fixes w :: "64 word"
  assumes k: "bit w k" and low: "\<forall>i < k. \<not> bit w i"
  shows "w AND (w - 1) = unset_bit k w"
proof -
  let ?u = "unset_bit k w" and ?one = "push_bit k 1 :: 64 word"
  have len: "k < 64" using bit_imp_le_length [OF k] by simp
  have "w = ?u OR ?one"
    using k len by (intro bit_eqI) (auto simp: bit_simps)
  also have "\<dots> = ?u + ?one"
    by (rule disjunctive_add [symmetric]) (auto simp: bit_simps)
  finally have "w - 1 = ?u + (?one - 1)" by (metis add_diff_eq)
  also have "?one - 1 = mask k" by (simp add: mask_eq_exp_minus_1 push_bit_eq_mult)
  also have "?u + mask k = ?u OR mask k"
    using low by (intro disjunctive_add) (auto simp: bit_simps)
  finally show ?thesis
    using low by (intro bit_eqI) (auto simp: bit_simps)
qed

lemma ctz_lowest:
  fixes w :: "64 word"
  assumes "w \<noteq> 0"
  shows "bit w (ctz w)" "\<forall>i < ctz w. \<not> bit w i" "ctz w < 64"
proof -
  obtain i where "bit w i" using assms by (metis bit_eqI bit_0_eq bot_apply bot_bool_def)
  then obtain k where k: "bit w k" "\<forall>i < k. \<not> bit w i"
    using exists_least_iff [of "bit w"] by blast
  then have "ctz w = k" by (rule ctz_eq)
  then show "bit w (ctz w)" "\<forall>i < ctz w. \<not> bit w i" "ctz w < 64"
    using k bit_imp_le_length [OF k(1)] by simp_all
qed

lemma read_bits_eq: "read_bits start w = map ((+) start) (filter (bit w) [0..<64])"
proof (induction start w rule: read_bits.induct)
  case (1 start w)
  show ?case
  proof (cases "w = 0")
    case True
    then show ?thesis by (simp add: read_bits.simps)
  next
    case False
    note low = ctz_lowest [OF False]
    have rest: "w AND (w - 1) = unset_bit (ctz w) w" by (rule and_pred_unset [OF low(1,2)])
    have unset: "bit (unset_bit (ctz w) w) i \<longleftrightarrow> bit w i \<and> i \<noteq> ctz w" for i
      by (auto simp: bit_unset_bit_iff)
    have "ctz w < i" if "bit w i" "i \<noteq> ctz w" for i
      using low(2) that by (meson linorder_neqE_nat)
    then have "ascending (ctz w # filter (bit (unset_bit (ctz w) w)) [0..<64])"
      by (simp add: unset ascending_filter)
    moreover have "set (filter (bit w) [0..<64]) = set (ctz w # filter (bit (unset_bit (ctz w) w)) [0..<64])"
      using low(1,3) by (auto simp: unset)
    ultimately have "filter (bit w) [0..<64] = ctz w # filter (bit (unset_bit (ctz w) w)) [0..<64]"
      using ascending_filter [OF ascending_upt] by (intro ascending_unique)
    then show ?thesis using 1 [OF False] False rest by (simp add: read_bits.simps [of start w])
  qed
qed

lemma set_id_bits:
  assumes "j < length words" "b < 64" "(rid - low) div 64 < length words"
  shows "bit (set_id low rid words ! j) b \<longleftrightarrow> bit (words ! j) b \<or> rid - low = 64 * j + b"
proof (cases "j = (rid - low) div 64")
  case True
  have "rid - low = 64 * j + b \<longleftrightarrow> b = (rid - low) mod 64"
    unfolding True by (metis add_left_cancel mult_div_mod_eq)
  moreover have "bit (push_bit ((rid - low) mod 64) 1 :: 64 word) b \<longleftrightarrow> b = (rid - low) mod 64"
    using assms(2) by (auto simp: bit_simps)
  ultimately show ?thesis using True assms by (simp add: set_id_def Let_def bit_or_iff)
next
  case False
  then have "rid - low \<noteq> 64 * j + b" using assms(2) by auto
  then show ?thesis using False by (simp add: set_id_def Let_def)
qed

lemma length_set_id [simp]: "length (set_id low rid words) = length words"
  by (simp add: set_id_def Let_def)

lemma fold_set_id_length [simp]: "length (fold (set_id low) ids words) = length words"
  by (induction ids arbitrary: words) simp_all

lemma fold_set_id_bits:
  assumes "j < length words" "b < 64" "\<forall>rid \<in> set ids. (rid - low) div 64 < length words"
  shows "bit (fold (set_id low) ids words ! j) b \<longleftrightarrow> bit (words ! j) b \<or> (\<exists>rid \<in> set ids. rid - low = 64 * j + b)"
  using assms by (induction ids arbitrary: words) (auto simp: set_id_bits)

lemma fold_min_max:
  "fold (\<lambda>id (lo, hi). (min lo id, max hi id)) ids (a, b) = (Min (insert a (set ids)), Max (insert b (set ids)))"
proof (induction ids arbitrary: a b)
  case (Cons x xs)
  show ?case by (simp add: Cons.IH insert_commute) (cases "xs = []"; simp add: ac_simps)
qed simp

lemma bitmap_sorts:
  assumes "ids \<noteq> []" "\<forall>rid \<in> set ids. low \<le> rid \<and> rid - low \<le> reach"
  shows "concat (map (\<lambda>(w, word). read_bits (low + w * 64) word)
      (enumerate 0 (fold (set_id low) ids (replicate (reach div 64 + 1) 0)))) = sorted_list_of_set (set ids)"
proof -
  let ?words = "fold (set_id low) ids (replicate (reach div 64 + 1) 0)"
  let ?block = "\<lambda>w. map ((+) (low + w * 64)) (filter (bit (?words ! w)) [0..<64])"
  have place: "(rid - low) div 64 < reach div 64 + 1" if "rid \<in> set ids" for rid
    using assms(2) that by (simp add: div_le_mono le_imp_less_Suc)
  have bits: "bit (?words ! w) b \<longleftrightarrow> (\<exists>rid \<in> set ids. rid = low + w * 64 + b)" if "w < reach div 64 + 1" "b < 64" for w b
  proof -
    have "bit (?words ! w) b \<longleftrightarrow> (\<exists>rid \<in> set ids. rid - low = 64 * w + b)"
      using fold_set_id_bits [of w "replicate (reach div 64 + 1) 0" b ids low] that place
        nth_replicate [OF that(1), of "0 :: 64 word"] by (simp only: length_replicate bit_0_eq bot_apply bot_bool_def) simp
    moreover have "rid - low = 64 * w + b \<longleftrightarrow> rid = low + w * 64 + b" if "rid \<in> set ids" for rid
      using assms(2) that by auto
    then have "(\<exists>rid \<in> set ids. rid - low = 64 * w + b) \<longleftrightarrow> (\<exists>rid \<in> set ids. rid = low + w * 64 + b)"
      by (intro bex_cong refl)
    ultimately show ?thesis by (rule trans)
  qed
  have found: "concat (map (\<lambda>(w, word). read_bits (low + w * 64) word) (enumerate 0 ?words)) =
      concat (map ?block [0..<reach div 64 + 1])"
    using enumerate_map_index [of id ?words] by (simp add: read_bits_eq comp_def del: upt_Suc)
  have "sorted_wrt (\<lambda>w w'. \<forall>x \<in> set (?block w). \<forall>y \<in> set (?block w'). x < y) [0..<reach div 64 + 1]"
    by (rule sorted_wrt_mono_rel [OF _ ascending_upt]) auto
  moreover have "ascending (?block w)" for w
    by (simp add: sorted_wrt_map ascending_filter)
  ultimately have "ascending (concat (map ?block [0..<reach div 64 + 1]))"
    by (intro ascending_concat) (auto simp: sorted_wrt_map simp del: upt_Suc)
  moreover have "set (concat (map ?block [0..<reach div 64 + 1])) = set ids"
  proof (intro set_eqI iffI)
    fix rid
    assume "rid \<in> set (concat (map ?block [0..<reach div 64 + 1]))"
    then show "rid \<in> set ids" using bits by (auto simp del: upt_Suc)
  next
    fix rid
    assume rid: "rid \<in> set ids"
    let ?w = "(rid - low) div 64" and ?b = "(rid - low) mod 64"
    have "rid = low + ?w * 64 + ?b" using assms(2) rid by auto
    moreover have "?w < reach div 64 + 1" "bit (?words ! ?w) ?b"
      using bits [of ?w ?b] place [OF rid] rid calculation by auto
    ultimately show "rid \<in> set (concat (map ?block [0..<reach div 64 + 1]))"
      by (auto simp del: upt_Suc intro!: bexI [of _ ?w] image_eqI [of _ _ ?b])
  qed
  ultimately show ?thesis
    unfolding found using ascending_unique [of _ "sorted_list_of_set (set ids)"] by simp
qed

lemma sort_unique_ids_sorts:
  assumes "distinct ids" "\<forall>rid \<in> set ids. rid \<le> u64_max"
  shows "snd (sort_unique_ids ids) = sort ids"
proof -
  let ?low = "Min (insert u64_max (set ids))" and ?high = "Max (insert 0 (set ids))"
  have sort: "sort ids = sorted_list_of_set (set ids)"
    using assms(1) by (simp add: sorted_list_of_set_sort_remdups distinct_remdups_id)
  have "concat (map (\<lambda>(w, word). read_bits (?low + w * 64) word)
      (enumerate 0 (fold (set_id ?low) ids (replicate ((?high - ?low) div 64 + 1) 0)))) = sort ids" if "ids \<noteq> []"
    unfolding sort by (rule bitmap_sorts [OF that]) (auto intro: diff_le_mono)
  moreover have "ids = []" if "\<not> sorted ids" "ids = []" using that by simp
  ultimately show ?thesis
    by (cases "sorted ids"; cases "ids = []")
      (auto simp: sort_unique_ids_def fold_min_max Let_def sorted_sort_id simp del: replicate.simps)
qed

end
