(* ===== verification/Indexes.thy ===== *)
theory Indexes
  imports RowIds Patterns Pending "HOL-Library.Product_Lexorder"
begin

text \<open>
  The secondary indexes of a store (\<open>src/core/src/store/indexes\<close>: \<open>mod.rs\<close>, \<open>copy.rs\<close>,
  \<open>reference.rs\<close> and \<open>components.rs\<close>): the index types and the children they keep, the probe an
  index chooses for a pattern, and the builds of the children over a store's quads or codes. A child is a table sorted by its keys, whose \<open>rid\<close> column names the base row
  each of its rows is of. The standard library's unstable sort is the argument \<open>us\<close>, which leaves
  the order of equal keys open; the resolution of an array to a probe is the argument \<open>rs\<close>.
  \<^term>\<open>None\<close> is a panic or an error of the array library.
\<close>

section \<open>Scalars in order\<close>

fun scalar_key :: "scalar \<Rightarrow> nat \<times> nat \<times> string" where
  "scalar_key NullScalar = (0, 0, [])"
| "scalar_key (CodeScalar n) = (1, n, [])"
| "scalar_key (TextScalar s) = (2, 0, s)"
| "scalar_key (OtherScalar n) = (3, n, [])"

lemma scalar_key_inj: "scalar_key a = scalar_key b \<longleftrightarrow> a = b"
  by (cases a; cases b) simp_all

instantiation scalar :: linorder
begin

definition less_eq_scalar :: "scalar \<Rightarrow> scalar \<Rightarrow> bool" where
  "less_eq_scalar a b \<longleftrightarrow> scalar_key a \<le> scalar_key b"

definition less_scalar :: "scalar \<Rightarrow> scalar \<Rightarrow> bool" where
  "less_scalar a b \<longleftrightarrow> scalar_key a < scalar_key b"

instance
  by standard (auto simp: less_eq_scalar_def less_scalar_def less_le_not_le scalar_key_inj [symmetric])

end

lemma scalar_order [simp]:
  "CodeScalar m \<le> CodeScalar n \<longleftrightarrow> m \<le> n" "CodeScalar m < CodeScalar n \<longleftrightarrow> m < n"
  "TextScalar s \<le> TextScalar t \<longleftrightarrow> s \<le> t" "TextScalar s < TextScalar t \<longleftrightarrow> s < t"
  by (auto simp: less_eq_scalar_def less_scalar_def)

section \<open>Index types and their children\<close>

datatype index_type = SecondaryByCopy | SecondaryByReference

definition ALL_INDEX_TYPES :: "index_type list" where
  "ALL_INDEX_TYPES = [SecondaryByCopy, SecondaryByReference]"

fun index_name :: "index_type \<Rightarrow> string" where
  "index_name SecondaryByCopy = ''secondary-by-copy''"
| "index_name SecondaryByReference = ''secondary-by-reference''"

definition index_from_str :: "string \<Rightarrow> index_type fallible" where
  "index_from_str s =
     (if s = ''secondary-by-copy'' then Inr SecondaryByCopy
      else if s = ''secondary-by-reference'' then Inr SecondaryByReference
      else Inl (rdf_error.InvalidInput [''unknown index type'', s]))"

record component_identity =
  ci_name :: string
  ci_slug :: string
  ci_index :: index_type

datatype copy_family = Posg | Ospg

datatype ref_family = ObjectRefs | PredicateRefs

fun copy_identity :: "copy_family \<Rightarrow> component_identity" where
  "copy_identity Posg =
     \<lparr> ci_name = ''index:posg'', ci_slug = ''secondary-by-copy/posg'', ci_index = SecondaryByCopy \<rparr>"
| "copy_identity Ospg =
     \<lparr> ci_name = ''index:ospg'', ci_slug = ''secondary-by-copy/ospg'', ci_index = SecondaryByCopy \<rparr>"

fun ref_identity :: "ref_family \<Rightarrow> component_identity" where
  "ref_identity ObjectRefs =
     \<lparr> ci_name = ''index:ref-o'', ci_slug = ''secondary-by-reference/o'', ci_index = SecondaryByReference \<rparr>"
| "ref_identity PredicateRefs =
     \<lparr> ci_name = ''index:ref-p'', ci_slug = ''secondary-by-reference/p'', ci_index = SecondaryByReference \<rparr>"

fun component_identities :: "index_type \<Rightarrow> component_identity list" where
  "component_identities SecondaryByCopy = [copy_identity Posg, copy_identity Ospg]"
| "component_identities SecondaryByReference = [ref_identity ObjectRefs, ref_identity PredicateRefs]"

definition known_component :: "string \<Rightarrow> component_identity option" where
  "known_component implementation =
     List.find (\<lambda>identity. ci_slug identity = implementation)
       (concat (map component_identities ALL_INDEX_TYPES))"

fun key_order :: "copy_family \<Rightarrow> nat list" where
  "key_order Posg = [1, 2, 0, 3]"
| "key_order Ospg = [2, 0, 1, 3]"

definition copy_child_columns :: "string list" where
  "copy_child_columns = [''s'', ''p'', ''o'', ''g'', ''rid'']"

definition key_positions :: "copy_family \<Rightarrow> nat list" where
  "key_positions family =
     fold (\<lambda>key places. places[key_order family ! key := key]) [0..<length (key_order family)] [0, 0, 0, 0]"

definition key_column :: "copy_family \<Rightarrow> nat \<Rightarrow> string" where
  "key_column family key = copy_child_columns ! (key_order family ! key)"

section \<open>The probe an index chooses\<close>

record resolved_roles =
  rr_predicate :: bool
  rr_object :: bool
  rr_graph :: bool

definition roles_predicate :: resolved_roles where
  "roles_predicate = \<lparr> rr_predicate = True, rr_object = False, rr_graph = False \<rparr>"

definition roles_object :: resolved_roles where
  "roles_object = \<lparr> rr_predicate = False, rr_object = True, rr_graph = False \<rparr>"

definition roles_predicate_object :: resolved_roles where
  "roles_predicate_object = \<lparr> rr_predicate = True, rr_object = True, rr_graph = False \<rparr>"

definition with_graph :: "resolved_roles \<Rightarrow> resolved_roles" where
  "with_graph self = self\<lparr> rr_graph := True \<rparr>"

definition clear_roles :: "resolved_roles \<Rightarrow> 'l quad_pattern \<Rightarrow> 'l quad_pattern" where
  "clear_roles self p =
     p\<lparr> pat_predicate := (if rr_predicate self then None else pat_predicate p),
        pat_object := (if rr_object self then None else pat_object p),
        pat_graph := (if rr_graph self then None else pat_graph p) \<rparr>"

datatype sort_order = SpogOrder | PosgOrder | OspgOrder

record serve_decode =
  sd_layout :: resolved_layout
  sd_order :: sort_order

record 'l index_probe =
  ip_identity :: component_identity
  ip_keys :: "(string \<times> 'l term_ref) list"
  ip_residual :: "(string \<times> 'l term_ref) list"
  ip_graph :: "'l term_ref option"
  ip_resolves :: resolved_roles
  ip_serve :: "serve_decode option"
  ip_rids_ascend :: bool

fun copy_decode_layout :: "resolved_layout \<Rightarrow> resolved_layout" where
  "copy_decode_layout (ResolvedDictionary d) = ResolvedDictionary d"
| "copy_decode_layout layout = ResolvedDefault"

definition copy_choose :: "'l quad_pattern \<Rightarrow> resolved_layout \<Rightarrow> 'l index_probe option" where
  "copy_choose p layout =
     (if pat_subject p \<noteq> None then None
      else
        (case (case (pat_predicate p, pat_object p) of
                 (Some pr, Some ob) \<Rightarrow>
                   Some (Posg, RefPredicate pr, Some (RefObject ob), roles_predicate_object, SpogOrder)
               | (Some pr, None) \<Rightarrow> Some (Posg, RefPredicate pr, None, roles_predicate, PosgOrder)
               | (None, Some ob) \<Rightarrow> Some (Ospg, RefObject ob, None, roles_object, SpogOrder)
               | (None, None) \<Rightarrow> None) of
           None \<Rightarrow> None
         | Some (family, lead, second, resolves, order) \<Rightarrow>
             Some \<lparr> ip_identity = copy_identity family,
                    ip_keys = (key_column family 0, lead) #
                      (case second of Some t \<Rightarrow> [(key_column family 1, t)] | None \<Rightarrow> []),
                    ip_residual = (case pat_graph p of Some g \<Rightarrow> [(''g'', RefGraph g)] | None \<Rightarrow> []),
                    ip_graph = map_option RefGraph (pat_graph p),
                    ip_resolves = resolves,
                    ip_serve = Some \<lparr> sd_layout = copy_decode_layout layout, sd_order = order \<rparr>,
                    ip_rids_ascend = False \<rparr>))"

definition ref_probe :: "'l quad_pattern \<Rightarrow> ref_family \<Rightarrow> 'l term_ref \<Rightarrow> resolved_roles \<Rightarrow> 'l index_probe" where
  "ref_probe p family t resolves =
     \<lparr> ip_identity = ref_identity family, ip_keys = [(''val'', t)], ip_residual = [],
        ip_graph = map_option RefGraph (pat_graph p), ip_resolves = resolves, ip_serve = None,
        ip_rids_ascend = True \<rparr>"

definition ref_choose :: "'l quad_pattern \<Rightarrow> 'l index_probe option" where
  "ref_choose p =
     (if pat_subject p \<noteq> None then None
      else case pat_object p of
          Some ob \<Rightarrow> Some (ref_probe p ObjectRefs (RefObject ob) roles_object)
        | None \<Rightarrow>
            (case pat_predicate p of
               Some pr \<Rightarrow> Some (ref_probe p PredicateRefs (RefPredicate pr) roles_predicate)
             | None \<Rightarrow> None))"

definition index_choose :: "index_type \<Rightarrow> 'l quad_pattern \<Rightarrow> resolved_layout \<Rightarrow> 'l index_probe option" where
  "index_choose self p layout =
     (case (case self of
              SecondaryByCopy \<Rightarrow> copy_choose p layout
            | SecondaryByReference \<Rightarrow> ref_choose p) of
        None \<Rightarrow> None
      | Some chosen \<Rightarrow> if ip_keys chosen = [] then None else Some chosen)"

section \<open>Building the children\<close>

record quad_codes =
  codes_s :: "nat list"
  codes_p :: "nat list"
  codes_o :: "nat list"
  codes_g :: "nat list"

datatype index_input = QuadInput "raw_quad list" | CodeInput quad_codes

fun input_rows :: "index_input \<Rightarrow> nat" where
  "input_rows (QuadInput quads) = length quads"
| "input_rows (CodeInput codes) = length (codes_s codes)"

record index_component =
  ic_identity :: component_identity
  ic_rows :: table
  ic_graph_zones :: "column_zones option"

type_synonym resolver = "column \<Rightarrow> node option"

text \<open>A table under a fresh cache of probes, which resolves each column on first use.\<close>

definition fresh_probes :: "resolver \<Rightarrow> table \<Rightarrow> table" where
  "fresh_probes rs t = t\<lparr> tb_probes := map (\<lambda>(name, col). (name, rs col)) (tb_columns t) \<rparr>"

definition component_built :: "resolver \<Rightarrow> component_identity \<Rightarrow> table \<Rightarrow> index_component" where
  "component_built rs identity rows =
     \<lparr> ic_identity = identity, ic_rows = fresh_probes rs rows, ic_graph_zones = None \<rparr>"

definition named_struct :: "string list \<Rightarrow> column list \<Rightarrow> nat \<Rightarrow> table option" where
  "named_struct names columns len =
     (if length names = length columns \<and> list_all (\<lambda>col. length (col_cells col) = len) columns
      then Some (rows_table len (zip names columns)) else None)"

definition components_from ::
    "resolver \<Rightarrow> string list \<Rightarrow> (component_identity \<times> column list) list \<Rightarrow> index_component list option" where
  "components_from rs child_columns families =
     gather (\<lambda>(identity, columns).
         map_option (component_built rs identity)
           (named_struct child_columns columns
             (case columns of [] \<Rightarrow> 0 | col # _ \<Rightarrow> length (col_cells col))))
       families"

definition rid_column :: "nat list \<Rightarrow> column option" where
  "rid_column perm = map_option code_column (gather row_id perm)"

text \<open>Orderings, and the unstable sort of positions under one.\<close>

type_synonym sorter = "(nat \<Rightarrow> nat \<Rightarrow> comparison) \<Rightarrow> nat list \<Rightarrow> nat list"

fun then_with :: "comparison \<Rightarrow> comparison \<Rightarrow> comparison" where
  "then_with Equal other = other"
| "then_with c other = c"

definition compare_of :: "'a :: linorder \<Rightarrow> 'a \<Rightarrow> comparison" where
  "compare_of a b = (if a < b then Less else if a = b then Equal else Greater)"

fun cmp_quads :: "copy_family \<Rightarrow> raw_quad \<Rightarrow> raw_quad \<Rightarrow> comparison" where
  "cmp_quads Posg a b =
     then_with (compare_bytes (raw_p a) (raw_p b))
       (then_with (compare_bytes (raw_o a) (raw_o b))
         (then_with (compare_bytes (raw_s a) (raw_s b)) (compare_bytes (raw_g a) (raw_g b))))"
| "cmp_quads Ospg a b =
     then_with (compare_bytes (raw_o a) (raw_o b))
       (then_with (compare_bytes (raw_s a) (raw_s b))
         (then_with (compare_bytes (raw_p a) (raw_p b)) (compare_bytes (raw_g a) (raw_g b))))"

definition string_perm :: "sorter \<Rightarrow> raw_quad list \<Rightarrow> copy_family \<Rightarrow> nat list" where
  "string_perm us quads family =
     us (\<lambda>a b. cmp_quads family (quads ! a) (quads ! b)) [0..<length quads]"

definition code_perm :: "sorter \<Rightarrow> quad_codes \<Rightarrow> copy_family \<Rightarrow> nat list" where
  "code_perm us codes family =
     (let spog = [codes_s codes, codes_p codes, codes_o codes, codes_g codes];
          key = (\<lambda>i. map (\<lambda>component. spog ! component ! i) (key_order family))
      in us (\<lambda>i j. compare_of (key i) (key j)) [0..<length (codes_s codes)])"

definition family_columns :: "nat list \<Rightarrow> (nat list \<Rightarrow> column) list \<Rightarrow> column list option" where
  "family_columns perm term_of = map_option (\<lambda>rid. map (\<lambda>col. col perm) term_of @ [rid]) (rid_column perm)"

definition family_components ::
    "resolver \<Rightarrow> (copy_family \<Rightarrow> nat list) \<Rightarrow> (nat list \<Rightarrow> column) list \<Rightarrow> index_component list option" where
  "family_components rs perm_by term_of =
     Option.bind
       (gather (\<lambda>family. map_option (Pair (copy_identity family)) (family_columns (perm_by family) term_of))
         [Posg, Ospg])
       (components_from rs copy_child_columns)"

fun copy_components :: "resolver \<Rightarrow> sorter \<Rightarrow> index_input \<Rightarrow> index_component list option" where
  "copy_components rs us (QuadInput quads) =
     family_components rs (string_perm us quads)
       (map (\<lambda>field perm. make_string_array (map (\<lambda>i. field (quads ! i)) perm)) [raw_s, raw_p, raw_o, raw_g])"
| "copy_components rs us (CodeInput codes) =
     family_components rs (code_perm us codes)
       (map (\<lambda>column perm. code_column (map ((!) column) perm))
         [codes_s codes, codes_p codes, codes_o codes, codes_g codes])"

definition ref_child_columns :: "string list" where
  "ref_child_columns = [''val'', ''rid'']"

definition graph_child_columns :: "string list" where
  "graph_child_columns = [''val'', ''rid'', ''g'']"

definition ref_string_columns :: "sorter \<Rightarrow> (raw_quad \<Rightarrow> string) \<Rightarrow> raw_quad list \<Rightarrow> column list option" where
  "ref_string_columns us term_of quads =
     (let perm = us (\<lambda>a b. then_with (compare_bytes (term_of (quads ! a)) (term_of (quads ! b))) (compare_of a b))
            [0..<length quads]
      in map_option (\<lambda>rid. [make_string_array (map (\<lambda>i. term_of (quads ! i)) perm), rid]) (rid_column perm))"

text \<open>Distinct pairs have one ascending order, whatever sort finds it.\<close>

definition ref_code_columns :: "nat list \<Rightarrow> nat list \<Rightarrow> column list option" where
  "ref_code_columns graphs column =
     map_option (\<lambda>rids.
         let pairs = sort (zip column rids)
         in [code_column (map fst pairs), code_column (map snd pairs),
             code_column (map (\<lambda>(code, rid). graphs ! rid) pairs)])
       (gather row_id [0..<length column])"

definition ref_components_of ::
    "resolver \<Rightarrow> string list \<Rightarrow> column list option \<Rightarrow> column list option \<Rightarrow> index_component list option" where
  "ref_components_of rs columns ob pr =
     (case (ob, pr) of
        (Some ob, Some pr) \<Rightarrow>
          components_from rs columns [(ref_identity ObjectRefs, ob), (ref_identity PredicateRefs, pr)]
      | _ \<Rightarrow> None)"

fun ref_components :: "resolver \<Rightarrow> sorter \<Rightarrow> index_input \<Rightarrow> index_component list option" where
  "ref_components rs us (QuadInput quads) =
     ref_components_of rs ref_child_columns
       (ref_string_columns us raw_o quads) (ref_string_columns us raw_p quads)"
| "ref_components rs us (CodeInput codes) =
     ref_components_of rs graph_child_columns
       (ref_code_columns (codes_g codes) (codes_o codes)) (ref_code_columns (codes_g codes) (codes_p codes))"

fun index_components :: "resolver \<Rightarrow> sorter \<Rightarrow> index_type \<Rightarrow> index_input \<Rightarrow> index_component list option" where
  "index_components rs us SecondaryByCopy input = copy_components rs us input"
| "index_components rs us SecondaryByReference input = ref_components rs us input"

text \<open>The roster: its children, found by name, and the index types it implies.\<close>

definition find_component :: "index_component list \<Rightarrow> string \<Rightarrow> index_component option" where
  "find_component components name = List.find (\<lambda>c. ci_name (ic_identity c) = name) components"

definition indexes_from_components :: "index_component list \<Rightarrow> index_type list" where
  "indexes_from_components components =
     filter (\<lambda>index. list_ex (\<lambda>c. ci_index (ic_identity c) = index) components) ALL_INDEX_TYPES"

definition check_component_rows :: "string \<Rightarrow> nat \<Rightarrow> nat \<Rightarrow> unit fallible" where
  "check_component_rows name component_rows quad_rows =
     (if component_rows \<noteq> quad_rows
      then Inl (Deserialization [name, decimal component_rows, decimal quad_rows]) else Inr ())"

definition with_graph_zones :: "column_zones option \<Rightarrow> index_component \<Rightarrow> index_component" where
  "with_graph_zones zones self =
     (let rows = tb_len (ic_rows self)
      in self\<lparr> ic_graph_zones :=
           (case zones of
              Some zs \<Rightarrow>
                if zone_len zs = ZONE_ROWS \<and> zone_count zs = div_ceil rows ZONE_ROWS \<and> row_count zs = rows
                then Some zs else None
            | None \<Rightarrow> None) \<rparr>)"

text \<open>The pass that compresses a child's integer columns hands back its rows and the zone map it took
  of the graph column.\<close>

type_synonym compressor = "table \<Rightarrow> (table \<times> column_zones option) option"

definition rebuilt :: "resolver \<Rightarrow> (table \<Rightarrow> table option) \<Rightarrow> index_component \<Rightarrow> index_component option" where
  "rebuilt rs transform self =
     map_option (\<lambda>rows. self\<lparr> ic_rows := fresh_probes rs rows \<rparr>) (transform (ic_rows self))"

definition into_compressed :: "resolver \<Rightarrow> compressor \<Rightarrow> index_component \<Rightarrow> index_component option" where
  "into_compressed rs compress self =
     (case compress (ic_rows self) of
        None \<Rightarrow> None
      | Some (rows, graph) \<Rightarrow>
          map_option (with_graph_zones graph) (rebuilt rs (\<lambda>_. Some rows) self))"

section \<open>What a child holds\<close>

definition lawful_sorter :: "sorter \<Rightarrow> bool" where
  "lawful_sorter us \<longleftrightarrow>
     (\<forall>cmp xs. (\<forall>a b. cmp a b = Greater \<longleftrightarrow> cmp b a = Less) \<longrightarrow>
        (\<forall>a b c. cmp a b \<noteq> Greater \<longrightarrow> cmp b c \<noteq> Greater \<longrightarrow> cmp a c \<noteq> Greater) \<longrightarrow>
        mset (us cmp xs) = mset xs \<and> sorted_wrt (\<lambda>a b. cmp a b \<noteq> Greater) (us cmp xs))"

definition lawful_resolver :: "'k kernels_scheme \<Rightarrow> resolver \<Rightarrow> bool" where
  "lawful_resolver fl rs \<longleftrightarrow> (\<forall>col pr. rs col = Some pr \<longrightarrow> probe_for fl pr col)"

definition typed_column :: "table \<Rightarrow> string \<Rightarrow> dtype \<Rightarrow> scalar list \<Rightarrow> bool" where
  "typed_column t name ty cells \<longleftrightarrow>
     (\<exists>col. map_of (tb_columns t) name = Some col \<and> col_type col = ty \<and> \<not> col_nullable col \<and> col_cells col = cells)"

type_synonym base_cells = "quad_column \<Rightarrow> scalar list"

fun raw_field :: "quad_column \<Rightarrow> raw_quad \<Rightarrow> string" where
  "raw_field ColS = raw_s"
| "raw_field ColP = raw_p"
| "raw_field ColO = raw_o"
| "raw_field ColG = raw_g"

fun code_field :: "quad_column \<Rightarrow> quad_codes \<Rightarrow> nat list" where
  "code_field ColS = codes_s"
| "code_field ColP = codes_p"
| "code_field ColO = codes_o"
| "code_field ColG = codes_g"

fun input_cells :: "index_input \<Rightarrow> base_cells" where
  "input_cells (QuadInput quads) c = map (TextScalar \<circ> raw_field c) quads"
| "input_cells (CodeInput codes) c = map CodeScalar (code_field c codes)"

fun input_type :: "index_input \<Rightarrow> dtype" where
  "input_type (QuadInput quads) = Utf8"
| "input_type (CodeInput codes) = UInt 8"

definition wf_input :: "index_input \<Rightarrow> bool" where
  "wf_input input \<longleftrightarrow> input_rows input \<le> usize_max \<and>
     (\<forall>c. length (input_cells input c) = input_rows input \<and> list_all (fits (input_type input)) (input_cells input c))"

text \<open>The keys of a child, each a column and what it is of, and the key of a base row.\<close>

fun copy_keys :: "copy_family \<Rightarrow> (string \<times> quad_column) list" where
  "copy_keys Posg = [(''p'', ColP), (''o'', ColO), (''s'', ColS), (''g'', ColG)]"
| "copy_keys Ospg = [(''o'', ColO), (''s'', ColS), (''p'', ColP), (''g'', ColG)]"

fun ref_keys :: "ref_family \<Rightarrow> (string \<times> quad_column) list" where
  "ref_keys ObjectRefs = [(''val'', ColO)]"
| "ref_keys PredicateRefs = [(''val'', ColP)]"

definition key_at :: "base_cells \<Rightarrow> (string \<times> quad_column) list \<Rightarrow> nat \<Rightarrow> scalar list" where
  "key_at cells keys i = map (\<lambda>(name, c). cells c ! i) keys"

text \<open>A child's rows are the base rows \<open>perm\<close> lists, each once, ascending by their keys, and under
  equal keys by their ids where the child breaks ties so; \<open>graphs\<close> tells whether it has the graphs.\<close>

definition child_of ::
    "dtype \<Rightarrow> base_cells \<Rightarrow> nat \<Rightarrow> (string \<times> quad_column) list \<Rightarrow> bool \<Rightarrow> bool \<Rightarrow> nat list \<Rightarrow> table \<Rightarrow> bool" where
  "child_of ty cells n keys ties graphs perm t \<longleftrightarrow>
     mset perm = mset [0..<n] \<and> tb_len t = n \<and>
     (\<forall>(name, c) \<in> set keys. typed_column t name ty (map ((!) (cells c)) perm)) \<and>
     typed_column t ''rid'' (UInt 8) (map CodeScalar perm) \<and>
     (graphs \<longrightarrow> typed_column t ''g'' ty (map ((!) (cells ColG)) perm)) \<and>
     sorted (map (key_at cells keys) perm) \<and>
     (ties \<longrightarrow> sorted (map (\<lambda>i. (key_at cells keys i, i)) perm))"

section \<open>Builds are sorted permutations\<close>

lemma compare_bytes_of: "compare_bytes a b = compare_of a b"
  by (simp add: compare_bytes_def compare_of_def)

lemma sorter_sorts:
  fixes key :: "nat \<Rightarrow> 'k :: linorder"
  assumes us: "lawful_sorter us" and cmp: "\<And>a b. cmp a b = compare_of (key a) (key b)"
  shows "mset (us cmp xs) = mset xs" "sorted (map key (us cmp xs))"
proof -
  have le: "cmp a b \<noteq> Greater \<longleftrightarrow> key a \<le> key b" and flip: "cmp a b = Greater \<longleftrightarrow> cmp b a = Less" for a b
    by (auto simp: cmp compare_of_def)
  have trans: "cmp a b \<noteq> Greater \<longrightarrow> cmp b c \<noteq> Greater \<longrightarrow> cmp a c \<noteq> Greater" for a b c
    unfolding le by (blast intro: order_trans)
  have "mset (us cmp xs) = mset xs \<and> sorted_wrt (\<lambda>a b. cmp a b \<noteq> Greater) (us cmp xs)"
    using us flip trans unfolding lawful_sorter_def by blast
  then show "mset (us cmp xs) = mset xs" "sorted (map key (us cmp xs))"
    by (simp_all only: le sorted_map)
qed

lemma compare_of_simps:
  "compare_of (a # as) (b # bs) = then_with (compare_of a b) (compare_of as bs)"
  "compare_of [] [] = Equal" "then_with c Equal = c"
  "compare_of (TextScalar s) (TextScalar t) = compare_of s t"
  "compare_of (CodeScalar m) (CodeScalar n) = compare_of m n"
  by (cases c; auto simp: compare_of_def)+

definition quad_key :: "(string \<times> quad_column) list \<Rightarrow> raw_quad \<Rightarrow> scalar list" where
  "quad_key keys q = map (\<lambda>(name, c). TextScalar (raw_field c q)) keys"

definition code_key :: "(string \<times> quad_column) list \<Rightarrow> quad_codes \<Rightarrow> nat \<Rightarrow> scalar list" where
  "code_key keys codes i = map (\<lambda>(name, c). CodeScalar (code_field c codes ! i)) keys"

lemma cmp_quads_key:
  "cmp_quads family a b = compare_of (quad_key (copy_keys family) a) (quad_key (copy_keys family) b)"
  by (cases family) (simp_all add: quad_key_def compare_bytes_of compare_of_simps)

lemma code_perm_key:
  "compare_of (map (\<lambda>component. [codes_s codes, codes_p codes, codes_o codes, codes_g codes] ! component ! i) (key_order family))
     (map (\<lambda>component. [codes_s codes, codes_p codes, codes_o codes, codes_g codes] ! component ! j) (key_order family)) =
   compare_of (code_key (copy_keys family) codes i) (code_key (copy_keys family) codes j)"
  by (cases family) (simp_all add: code_key_def compare_of_simps eval_nat_numeral)

lemma quad_key_at: "i < length quads \<Longrightarrow> key_at (input_cells (QuadInput quads)) keys i = quad_key keys (quads ! i)"
  by (auto simp: key_at_def quad_key_def)

lemma code_key_at:
  "wf_input (CodeInput codes) \<Longrightarrow> i < length (codes_s codes) \<Longrightarrow>
     key_at (input_cells (CodeInput codes)) keys i = code_key keys codes i"
  by (auto simp: key_at_def code_key_def wf_input_def)

lemma gather_row_id: "\<forall>i \<in> set perm. i \<le> u64_max \<Longrightarrow> gather row_id perm = Some perm"
  using gather_Some [of perm row_id id] by (simp add: row_id_def)

lemma perm_facts:
  assumes "mset perm = mset [0..<n]"
  shows "set perm = {0..<n}" "length perm = n" "distinct perm"
  using mset_eq_setD [OF assms] mset_eq_length [OF assms] mset_eq_imp_distinct_iff [OF assms] by auto

lemma rid_column_perm:
  "mset perm = mset [0..<n] \<Longrightarrow> n \<le> usize_max \<Longrightarrow> rid_column perm = Some (code_column perm)"
  using perm_facts(1) [of perm n] gather_row_id [of perm] by (auto simp: rid_column_def)

definition child_keys :: "string \<Rightarrow> (string \<times> quad_column) list" where
  "child_keys name =
     (case map_of [(''index:posg'', copy_keys Posg), (''index:ospg'', copy_keys Ospg),
                   (''index:ref-o'', ref_keys ObjectRefs), (''index:ref-p'', ref_keys PredicateRefs)] name of
        Some keys \<Rightarrow> keys | None \<Rightarrow> [])"

fun has_graphs :: "index_type \<Rightarrow> index_input \<Rightarrow> bool" where
  "has_graphs SecondaryByCopy input = True"
| "has_graphs SecondaryByReference (QuadInput quads) = False"
| "has_graphs SecondaryByReference (CodeInput codes) = True"

text \<open>A component is right for a store's rows.\<close>

definition component_ok :: "index_input \<Rightarrow> index_component \<Rightarrow> nat list \<Rightarrow> bool" where
  "component_ok input part perm \<longleftrightarrow>
     child_of (input_type input) (input_cells input) (input_rows input) (child_keys (ci_name (ic_identity part)))
       (ci_index (ic_identity part) = SecondaryByReference) (has_graphs (ci_index (ic_identity part)) input)
       perm (ic_rows part)"

lemma typed_column_fresh [simp]: "typed_column (fresh_probes rs t) name ty cells = typed_column t name ty cells"
  by (simp add: typed_column_def fresh_probes_def)

lemma child_of_fresh [simp]:
  "child_of ty cells n keys ties graphs perm (fresh_probes rs t) = child_of ty cells n keys ties graphs perm t"
  by (simp add: child_of_def) (simp add: fresh_probes_def)

text \<open>The copies' permutation and term columns, by strings or by codes.\<close>

fun input_perm :: "sorter \<Rightarrow> index_input \<Rightarrow> copy_family \<Rightarrow> nat list" where
  "input_perm us (QuadInput quads) family = string_perm us quads family"
| "input_perm us (CodeInput codes) family = code_perm us codes family"

fun term_column :: "index_input \<Rightarrow> quad_column \<Rightarrow> nat list \<Rightarrow> column" where
  "term_column (QuadInput quads) c perm = make_string_array (map (\<lambda>i. raw_field c (quads ! i)) perm)"
| "term_column (CodeInput codes) c perm = code_column (map ((!) (code_field c codes)) perm)"

lemma term_column_simps [simp]:
  "length (col_cells (term_column input c perm)) = length perm"
  "col_type (term_column input c perm) = input_type input" "\<not> col_nullable (term_column input c perm)"
  by (cases input; simp add: make_string_array_def code_column_def)+

lemma term_column_cells:
  assumes "wf_input input" "set perm \<subseteq> {0..<input_rows input}"
  shows "col_cells (term_column input c perm) = map ((!) (input_cells input c)) perm"
  using assms
  by (cases input) (fastforce simp: make_string_array_def code_column_def wf_input_def)+

lemma key_at_perm:
  assumes "wf_input input" "set perm \<subseteq> {0..<input_rows input}"
  shows "map (key_at (input_cells input) keys) perm =
    map (case input of QuadInput quads \<Rightarrow> quad_key keys \<circ> (!) quads | CodeInput codes \<Rightarrow> code_key keys codes) perm"
  using assms by (cases input) (auto simp: quad_key_at code_key_at simp del: input_cells.simps)

lemma input_perm_sorted:
  assumes us: "lawful_sorter us" and wf: "wf_input input"
  shows "mset (input_perm us input family) = mset [0..<input_rows input]"
    "sorted (map (key_at (input_cells input) (copy_keys family)) (input_perm us input family))"
proof -
  have perm: "mset (input_perm us input family) = mset [0..<input_rows input] \<and>
    sorted (map (case input of QuadInput quads \<Rightarrow> quad_key (copy_keys family) \<circ> (!) quads
       | CodeInput codes \<Rightarrow> code_key (copy_keys family) codes) (input_perm us input family))"
  proof (cases input)
    case (QuadInput quads)
    then show ?thesis
      using sorter_sorts [OF us, of "\<lambda>a b. cmp_quads family (quads ! a) (quads ! b)"
          "quad_key (copy_keys family) \<circ> (!) quads"]
      by (simp add: string_perm_def cmp_quads_key)
  next
    case (CodeInput codes)
    then show ?thesis
      using sorter_sorts [OF us, of _ "code_key (copy_keys family) codes", OF code_perm_key]
      by (simp add: code_perm_def Let_def)
  qed
  then show "mset (input_perm us input family) = mset [0..<input_rows input]" by blast
  then have "set (input_perm us input family) \<subseteq> {0..<input_rows input}" by (simp only: perm_facts(1))
  then show "sorted (map (key_at (input_cells input) (copy_keys family)) (input_perm us input family))"
    using perm key_at_perm [OF wf] by (simp only:)
qed

lemma input_funs:
  "input_perm us (QuadInput quads) = string_perm us quads" "input_perm us (CodeInput codes) = code_perm us codes"
  "term_column (QuadInput quads) c = (\<lambda>perm. make_string_array (map (\<lambda>i. raw_field c (quads ! i)) perm))"
  "term_column (CodeInput codes) c = (\<lambda>perm. code_column (map ((!) (code_field c codes)) perm))"
  by (simp_all add: fun_eq_iff)

definition copy_table :: "index_input \<Rightarrow> nat list \<Rightarrow> table" where
  "copy_table input perm =
     rows_table (length perm)
       (zip copy_child_columns (map (\<lambda>c. term_column input c perm) all_columns @ [code_column perm]))"

lemma copy_components_tables:
  assumes us: "lawful_sorter us" and wf: "wf_input input"
  shows "copy_components rs us input =
    Some (map (\<lambda>family. component_built rs (copy_identity family) (copy_table input (input_perm us input family))) [Posg, Ospg])"
proof -
  have rid: "rid_column (input_perm us input family) = Some (code_column (input_perm us input family))" for family
    using rid_column_perm [OF input_perm_sorted(1) [OF us wf]] wf by (simp add: wf_input_def)
  have "copy_components rs us input =
      family_components rs (input_perm us input) (map (term_column input) all_columns)"
    by (cases input) (simp_all add: all_columns_def input_funs)
  then show ?thesis
    by (simp add: family_components_def family_columns_def rid components_from_def named_struct_def
        copy_table_def copy_child_columns_def all_columns_def code_column_def)
qed

lemma copy_table_child:
  assumes us: "lawful_sorter us" and wf: "wf_input input"
  shows "child_of (input_type input) (input_cells input) (input_rows input) (copy_keys family) False True
    (input_perm us input family) (copy_table input (input_perm us input family))"
proof -
  let ?perm = "input_perm us input family"
  have perm: "mset ?perm = mset [0..<input_rows input]" "sorted (map (key_at (input_cells input) (copy_keys family)) ?perm)"
    using input_perm_sorted [OF us wf] by blast+
  have set: "set ?perm \<subseteq> {0..<input_rows input}" using perm_facts(1) [OF perm(1)] by simp
  have "typed_column (copy_table input ?perm) (column_name c) (input_type input) (map ((!) (input_cells input c)) ?perm)" for c
    by (cases c) (simp_all add: typed_column_def copy_table_def rows_table_def copy_child_columns_def
        all_columns_def term_column_cells [OF wf set] del: input_cells.simps)
  from this [of ColS] this [of ColP] this [of ColO] this [of ColG]
  have columns: "\<forall>(name, c) \<in> set (copy_keys family). typed_column (copy_table input ?perm) name (input_type input)
       (map ((!) (input_cells input c)) ?perm)"
      "typed_column (copy_table input ?perm) ''g'' (input_type input) (map ((!) (input_cells input ColG)) ?perm)"
    by (cases family; simp)+
  have "typed_column (copy_table input ?perm) ''rid'' (UInt 8) (map CodeScalar ?perm)"
    by (simp add: typed_column_def copy_table_def rows_table_def copy_child_columns_def all_columns_def code_column_def)
  then show ?thesis
    using perm columns perm_facts(2) [OF perm(1)]
    by (simp add: child_of_def) (simp add: copy_table_def rows_table_def)
qed

text \<open>The back-references' permutation: by value, then by position.\<close>

fun ref_column :: "ref_family \<Rightarrow> quad_column" where
  "ref_column ObjectRefs = ColO"
| "ref_column PredicateRefs = ColP"

fun ref_perm :: "sorter \<Rightarrow> index_input \<Rightarrow> quad_column \<Rightarrow> nat list" where
  "ref_perm us (QuadInput quads) c =
     us (\<lambda>a b. then_with (compare_bytes (raw_field c (quads ! a)) (raw_field c (quads ! b))) (compare_of a b))
       [0..<length quads]"
| "ref_perm us (CodeInput codes) c = map snd (sort (zip (code_field c codes) [0..<length (code_field c codes)]))"

fun ref_graphs :: "index_input \<Rightarrow> nat list \<Rightarrow> (string \<times> column) list" where
  "ref_graphs (QuadInput quads) perm = []"
| "ref_graphs (CodeInput codes) perm = [(''g'', code_column (map ((!) (codes_g codes)) perm))]"

definition ref_table :: "index_input \<Rightarrow> quad_column \<Rightarrow> nat list \<Rightarrow> table" where
  "ref_table input c perm =
     rows_table (length perm)
       ([(''val'', term_column input c perm), (''rid'', code_column perm)] @ ref_graphs input perm)"

lemma then_with_pair: "then_with (compare_of a b) (compare_of c d) = compare_of (a, c) (b, d)"
  by (auto simp: compare_of_def)

lemma zip_pairs:
  assumes "mset ps = mset (zip xs [0..<length xs])"
  shows "mset (map snd ps) = mset [0..<length xs]" "map fst ps = map ((!) xs) (map snd ps)"
proof -
  show "mset (map snd ps) = mset [0..<length xs]"
    using arg_cong [OF assms, of "image_mset snd"] by (simp flip: mset_map)
  show "map fst ps = map ((!) xs) (map snd ps)"
    using mset_eq_setD [OF assms] by (auto simp: set_zip)
qed

lemma sorted_pairs_key:
  fixes f :: "nat \<Rightarrow> 'a :: linorder" and g :: "nat \<Rightarrow> 'b :: linorder"
  assumes "sorted (map (\<lambda>i. (f i, i)) perm)" "\<forall>i \<in> set perm. g i = h (f i)"
    and "\<And>x y. h x \<le> h y \<longleftrightarrow> x \<le> y" "\<And>x y. h x < h y \<longleftrightarrow> x < y"
  shows "sorted (map (\<lambda>i. (g i, i)) perm)"
proof -
  have "sorted_wrt (\<lambda>i j. (g i, i) \<le> (g j, j)) perm"
    using assms(1) unfolding sorted_map
    by (rule sorted_wrt_mono_rel [rotated]) (use assms(2-4) in \<open>auto simp: less_eq_prod_def\<close>)
  then show ?thesis by (simp only: sorted_map)
qed

lemma ref_perm_sorted:
  assumes us: "lawful_sorter us" and wf: "wf_input input"
  shows "mset (ref_perm us input c) = mset [0..<input_rows input]"
    "sorted (map (\<lambda>i. (key_at (input_cells input) [(''val'', c)] i, i)) (ref_perm us input c))"
proof -
  have perm: "mset (ref_perm us input c) = mset [0..<input_rows input] \<and>
    sorted (map (\<lambda>i. (input_cells input c ! i, i)) (ref_perm us input c))"
  proof (cases input)
    case (QuadInput quads)
    let ?cmp = "\<lambda>a b. then_with (compare_bytes (raw_field c (quads ! a)) (raw_field c (quads ! b))) (compare_of a b)"
    have cmp: "?cmp a b = compare_of (raw_field c (quads ! a), a) (raw_field c (quads ! b), b)" for a b
      by (simp only: compare_bytes_of then_with_pair)
    have perm: "mset (us ?cmp [0..<length quads]) = mset [0..<length quads]"
        "sorted (map (\<lambda>i. (raw_field c (quads ! i), i)) (us ?cmp [0..<length quads]))"
      by (rule sorter_sorts [OF us cmp])+
    have "set (us ?cmp [0..<length quads]) = {0..<length quads}" by (rule perm_facts(1) [OF perm(1)])
    then have "sorted (map (\<lambda>i. (input_cells input c ! i, i)) (us ?cmp [0..<length quads]))"
      by (intro sorted_pairs_key [OF perm(2), where h = TextScalar]) (simp_all add: QuadInput)
    then show ?thesis using perm(1) QuadInput by (simp del: mset_upt input_cells.simps)
  next
    case (CodeInput codes)
    let ?xs = "code_field c codes" and ?pairs = "sort (zip (code_field c codes) [0..<length (code_field c codes)])"
    have n: "length ?xs = input_rows input" using wf CodeInput by (simp add: wf_input_def)
    note pairs = zip_pairs [of ?pairs ?xs, OF mset_sort]
    have "map (\<lambda>i. (?xs ! i, i)) (map snd ?pairs) = ?pairs"
      by (auto simp: set_zip intro!: map_idI)
    then have "sorted (map (\<lambda>i. (?xs ! i, i)) (map snd ?pairs))" by (simp only: sorted_sort)
    moreover have "set (map snd ?pairs) = {0..<length ?xs}" by (rule perm_facts(1) [OF pairs(1)])
    ultimately have "sorted (map (\<lambda>i. (input_cells input c ! i, i)) (map snd ?pairs))"
      using CodeInput by (intro sorted_pairs_key [where f = "(!) ?xs" and h = CodeScalar]) simp_all
    then show ?thesis using pairs(1) CodeInput n by (simp del: mset_upt input_cells.simps)
  qed
  then show "mset (ref_perm us input c) = mset [0..<input_rows input]" by blast
  show "sorted (map (\<lambda>i. (key_at (input_cells input) [(''val'', c)] i, i)) (ref_perm us input c))"
    by (rule sorted_pairs_key [OF conjunct2 [OF perm], where h = "\<lambda>x. [x]"]) (auto simp: key_at_def)
qed

lemma ref_components_tables:
  assumes us: "lawful_sorter us" and wf: "wf_input input"
  shows "ref_components rs us input =
    Some (map (\<lambda>family. component_built rs (ref_identity family)
      (ref_table input (ref_column family) (ref_perm us input (ref_column family)))) [ObjectRefs, PredicateRefs])"
proof -
  have rid: "rid_column (ref_perm us input c) = Some (code_column (ref_perm us input c))" for c
    using rid_column_perm [OF ref_perm_sorted(1) [OF us wf]] wf by (simp add: wf_input_def)
  show ?thesis
  proof (cases input)
    case (QuadInput quads)
    then show ?thesis
      using rid [of ColO] rid [of ColP]
      by (simp add: ref_string_columns_def Let_def ref_components_of_def components_from_def named_struct_def
          ref_table_def ref_child_columns_def make_string_array_def code_column_def)
  next
    case (CodeInput codes)
    have cols: "ref_code_columns (codes_g codes) (code_field c codes) =
        Some [term_column input c (ref_perm us input c), code_column (ref_perm us input c),
              code_column (map ((!) (codes_g codes)) (ref_perm us input c))]" for c
    proof -
      let ?xs = "code_field c codes"
      have "length ?xs \<le> u64_max" using wf CodeInput by (simp add: wf_input_def)
      then have "gather row_id [0..<length ?xs] = Some [0..<length ?xs]" by (intro gather_row_id) auto
      moreover have "map fst (sort (zip ?xs [0..<length ?xs])) = map ((!) ?xs) (map snd (sort (zip ?xs [0..<length ?xs])))"
        by (rule zip_pairs(2)) (rule mset_sort)
      ultimately show ?thesis
        unfolding ref_code_columns_def Let_def
        using CodeInput by (simp only: option.map term_column.simps ref_perm.simps) (simp add: case_prod_unfold comp_def)
    qed
    show ?thesis
      using CodeInput cols [of ColO] cols [of ColP]
      by (simp add: ref_components_of_def components_from_def named_struct_def
          ref_table_def graph_child_columns_def code_column_def)
  qed
qed

lemma ref_table_child:
  assumes us: "lawful_sorter us" and wf: "wf_input input"
  shows "child_of (input_type input) (input_cells input) (input_rows input) (ref_keys family) True
    (has_graphs SecondaryByReference input) (ref_perm us input (ref_column family))
    (ref_table input (ref_column family) (ref_perm us input (ref_column family)))"
proof -
  let ?c = "ref_column family" and ?keys = "ref_keys family"
  let ?perm = "ref_perm us input ?c" and ?t = "ref_table input ?c (ref_perm us input ?c)"
  have keys: "?keys = [(''val'', ?c)]" by (cases family) simp_all
  have perm: "mset ?perm = mset [0..<input_rows input]"
      "sorted (map (\<lambda>i. (key_at (input_cells input) ?keys i, i)) ?perm)"
    using ref_perm_sorted [OF us wf, of ?c] unfolding keys by blast+
  have set: "set ?perm \<subseteq> {0..<input_rows input}" using perm_facts(1) [OF perm(1)] by simp
  have "sorted (map (key_at (input_cells input) ?keys) ?perm)"
    using perm(2) unfolding sorted_map by (rule sorted_wrt_mono_rel [rotated]) (auto simp: less_eq_prod_def)
  moreover have "typed_column ?t ''val'' (input_type input) (map ((!) (input_cells input ?c)) ?perm)"
    by (simp add: typed_column_def ref_table_def rows_table_def term_column_cells [OF wf set] del: input_cells.simps)
  moreover have "typed_column ?t ''rid'' (UInt 8) (map CodeScalar ?perm)"
    by (simp add: typed_column_def ref_table_def rows_table_def code_column_def)
  moreover have "typed_column ?t ''g'' (input_type input) (map ((!) (input_cells input ColG)) ?perm)"
    if "has_graphs SecondaryByReference input"
    using that term_column_cells [OF wf set, of ColG]
    by (cases input) (simp_all add: typed_column_def ref_table_def rows_table_def code_column_def del: input_cells.simps)
  ultimately show ?thesis
    using perm perm_facts(2) [OF perm(1)]
    by (simp add: child_of_def keys del: has_graphs.simps) (simp add: ref_table_def rows_table_def)
qed

lemma index_components_ok:
  assumes us: "lawful_sorter us" and wf: "wf_input input"
  shows "\<exists>parts. index_components rs us index input = Some parts \<and>
    map ic_identity parts = component_identities index \<and>
    (\<forall>part \<in> set parts. ic_graph_zones part = None \<and> (\<exists>perm. component_ok input part perm))"
proof (cases index)
  case SecondaryByCopy
  then show ?thesis
    using copy_components_tables [OF us wf, of rs] copy_table_child [OF us wf, of Posg]
      copy_table_child [OF us wf, of Ospg]
    by (auto simp: component_built_def component_ok_def child_keys_def)
next
  case SecondaryByReference
  then show ?thesis
    using ref_components_tables [OF us wf, of rs] ref_table_child [OF us wf, of ObjectRefs]
      ref_table_child [OF us wf, of PredicateRefs]
    by (auto simp: component_built_def component_ok_def child_keys_def simp del: has_graphs.simps)
qed

text \<open>A sort by insertion is one the builds may use.\<close>

fun insert_by :: "('a \<Rightarrow> 'a \<Rightarrow> comparison) \<Rightarrow> 'a \<Rightarrow> 'a list \<Rightarrow> 'a list" where
  "insert_by cmp x [] = [x]"
| "insert_by cmp x (y # ys) = (if cmp x y \<noteq> Greater then x # y # ys else y # insert_by cmp x ys)"

definition insertion_sorter :: sorter where
  "insertion_sorter cmp xs = foldr (insert_by cmp) xs []"

lemma insert_by_mset [simp]: "mset (insert_by cmp x ys) = add_mset x (mset ys)"
  by (induction ys) auto

lemma insert_by_sorted:
  assumes flip: "\<forall>a b. cmp a b = Greater \<longleftrightarrow> cmp b a = Less"
    and trans: "\<forall>a b c. cmp a b \<noteq> Greater \<longrightarrow> cmp b c \<noteq> Greater \<longrightarrow> cmp a c \<noteq> Greater"
  shows "sorted_wrt (\<lambda>a b. cmp a b \<noteq> Greater) ys \<Longrightarrow> sorted_wrt (\<lambda>a b. cmp a b \<noteq> Greater) (insert_by cmp x ys)"
proof (induction ys)
  case (Cons y ys)
  have set: "set (insert_by cmp x ys) = insert x (set ys)"
    using mset_eq_setD [of "insert_by cmp x ys" "x # ys"] by simp
  have "cmp y x \<noteq> Greater" if "cmp x y = Greater" using that flip by auto
  then show ?case using Cons trans by (auto simp: set)
qed simp

lemma insertion_sorter_lawful: "lawful_sorter insertion_sorter"
  unfolding lawful_sorter_def
proof (intro allI impI conjI)
  fix cmp :: "nat \<Rightarrow> nat \<Rightarrow> comparison" and xs
  assume order: "\<forall>a b. cmp a b = Greater \<longleftrightarrow> cmp b a = Less"
    "\<forall>a b c. cmp a b \<noteq> Greater \<longrightarrow> cmp b c \<noteq> Greater \<longrightarrow> cmp a c \<noteq> Greater"
  show "mset (insertion_sorter cmp xs) = mset xs" by (induction xs) (simp_all add: insertion_sorter_def)
  show "sorted_wrt (\<lambda>a b. cmp a b \<noteq> Greater) (insertion_sorter cmp xs)"
    using insert_by_sorted [OF order] by (induction xs) (simp_all add: insertion_sorter_def)
qed

text \<open>C16. Every index builds, of strings or of codes, whatever order the sort leaves equal keys in:
  its children are the declared ones, and the rows of each are the store's rows, every one once,
  beside its row id, ascending by the child's keys (and a back-reference child's equal keys by row
  id), with the graph of each row where the child keeps it.\<close>

theorem index_children_sorted:
  assumes "lawful_sorter us" "wf_input input"
  shows "\<exists>parts. index_components rs us index input = Some parts \<and>
    map ic_identity parts = component_identities index \<and>
    (\<forall>part \<in> set parts. ic_graph_zones part = None \<and> (\<exists>perm. component_ok input part perm))"
  by (rule index_components_ok [OF assms])

definition sample_codes :: quad_codes where
  "sample_codes = \<lparr> codes_s = [4, 5, 6], codes_p = [2, 1, 2], codes_o = [9, 7, 8], codes_g = [0, 0, 3] \<rparr>"

lemma sample_codes_wf: "wf_input (CodeInput sample_codes)"
proof -
  have "length (code_field c sample_codes) = 3 \<and> list_all (fits (UInt 8)) (map CodeScalar (code_field c sample_codes))" for c
    by (cases c) (simp_all add: sample_codes_def)
  then show ?thesis by (simp add: wf_input_def u64_max_def) (simp add: sample_codes_def)
qed

theorem index_children_sorted_witness:
  "\<exists>part perm. index_components (\<lambda>_. None) insertion_sorter SecondaryByReference (CodeInput sample_codes) =
       Some part \<and> length part = 2 \<and> component_ok (CodeInput sample_codes) (hd part) perm"
proof -
  obtain parts where parts: "index_components (\<lambda>_. None) insertion_sorter SecondaryByReference (CodeInput sample_codes) = Some parts"
      "map ic_identity parts = component_identities SecondaryByReference"
      "\<forall>part \<in> set parts. \<exists>perm. component_ok (CodeInput sample_codes) part perm"
    using index_children_sorted [OF insertion_sorter_lawful sample_codes_wf] by blast
  have "length parts = 2" using arg_cong [OF parts(2), of length] by simp
  moreover from this have "hd parts \<in> set parts" by (cases parts) auto
  ultimately show ?thesis using parts by blast
qed

end
