(* ===== verification/IndexRuns.thy ===== *)
theory IndexRuns
  imports Indexes
begin

text \<open>
  The row ids of an index resolution (\<open>src/core/src/store/indexes/lazy_ids.rs\<close>), decoded when they
  are first needed and kept, and the check of a run's bound graph inside its component
  (\<open>src/core/src/store/indexes/graph_check.rs\<close>), which is the residual compare of the component's
  graph column. A run's row ids are the cells of its slice of the \<open>rid\<close> column. What a call keeps is
  an option of the state each operation hands back; \<^term>\<open>None\<close> of an operation is an error.
\<close>

section \<open>Decoded ids\<close>

definition decoded_row_ids :: "scalar list \<Rightarrow> nat list option" where
  "decoded_row_ids cells = gather unsigned_value cells"

definition addressable :: "nat list \<Rightarrow> nat list option" where
  "addressable ids = (case check_addressable ids of Inl e \<Rightarrow> None | Inr _ \<Rightarrow> Some ids)"

definition sorted_row_ids :: "scalar list \<Rightarrow> nat list option" where
  "sorted_row_ids cells =
     (if cells = [] then Some []
      else Option.bind (decoded_row_ids cells) (\<lambda>ids. addressable (snd (sort_unique_ids ids))))"

text \<open>Every id is addressable where a \<open>usize\<close> has 64 bits.\<close>

definition run_order_row_ids :: "scalar list \<Rightarrow> nat list option" where
  "run_order_row_ids cells = (if cells = [] then Some [] else decoded_row_ids cells)"

definition sorted_copy :: "nat list \<Rightarrow> nat list option" where
  "sorted_copy ids = addressable (snd (sort_unique_ids ids))"

section \<open>The graph check\<close>

record graph_check =
  gc_rows :: "nat \<times> nat"
  gc_table :: table
  gc_selection :: row_selection
  gc_eqs :: equalities
  gc_classes :: classes

definition graph_check_new :: "index_component \<Rightarrow> nat \<times> nat \<Rightarrow> nat \<Rightarrow> column_zones \<Rightarrow> graph_check option" where
  "graph_check_new part rows code zones =
     map_option (\<lambda>set. \<lparr> gc_rows = rows, gc_table = ic_rows part,
                        gc_selection = RowRange (fst rows) (snd rows),
                        gc_eqs = [(''g'', CodeScalar code)], gc_classes = Zoned set \<rparr>)
       (zone_set_new [\<lparr> bit_of = 0, code_of = code, zones_of = zones \<rparr>] 0)"

definition gc_compare :: "graph_check \<Rightarrow> residual" where
  "gc_compare self =
     \<lparr> rc_table = (gc_table self)\<lparr> tb_component := True \<rparr>, rc_selection = gc_selection self,
        rc_eqs = gc_eqs self, rc_classes = gc_classes self, rc_deleted = None \<rparr>"

definition gc_count :: "'k compute_scheme \<Rightarrow> graph_check \<Rightarrow> nat option" where
  "gc_count fl self = residual_count fl (gc_compare self) None"

definition gc_count_capped :: "'k compute_scheme \<Rightarrow> graph_check \<Rightarrow> nat \<Rightarrow> nat option" where
  "gc_count_capped fl self limit = residual_count fl (gc_compare self) (Some limit)"

text \<open>The ids at ascending positions, each zone's span of them decoded once.\<close>

lemma pp_loop_pos: "p (xs ! 0) \<Longrightarrow> lo < hi \<or> 0 < lo \<Longrightarrow> 0 < pp_loop p xs lo hi"
proof (induction p xs lo hi rule: pp_loop.induct)
  case (1 p xs lo hi)
  let ?mid = "(lo + hi) div 2"
  show ?case
  proof (cases "lo < hi")
    case True
    have "0 < ?mid" if "\<not> p (xs ! ?mid)" using that 1(3) by (metis gr_zeroI)
    then show ?thesis using 1 True by (subst pp_loop.simps) (auto simp: Let_def)
  next
    case False
    then show ?thesis using 1(4) by (subst pp_loop.simps) simp
  qed
qed

lemma partition_point_pos: "p x \<Longrightarrow> 0 < partition_point p (x # xs)"
  unfolding partition_point_def by (rule pp_loop_pos) simp_all

function zone_ids :: "nat \<Rightarrow> scalar list \<Rightarrow> nat list \<Rightarrow> nat list option" where
  "zone_ids start rids [] = Some []"
| "zone_ids start rids (first # rest) =
     (let zone_end = (first div ZONE_ROWS + 1) * ZONE_ROWS;
          cut = partition_point (\<lambda>row. row < zone_end) (first # rest);
          here = take cut (first # rest)
      in if first < start then None
         else
           do {
             decoded \<leftarrow> Option.bind (buf_slice rids (first - start) (last here + 1 - start)) run_order_row_ids;
             ids \<leftarrow> gather (\<lambda>row. buf_get decoded (row - first)) here;
             more \<leftarrow> zone_ids start rids (drop cut (first # rest));
             Some (ids @ more)
           })"
  by pat_completeness auto
termination
proof (relation "measure (\<lambda>(start, rids, positions). length positions)", goal_cases)
  case (2 start rids first rest zone_end cut here)
  have "first < (first div ZONE_ROWS + 1) * ZONE_ROWS"
    using dividend_less_times_div [OF ZONE_ROWS_pos, of first] by (simp add: mult.commute)
  then have "0 < cut" unfolding 2(1,2) by (rule partition_point_pos)
  then show ?case by simp
qed simp

definition ids_at :: "graph_check \<Rightarrow> scalar list \<Rightarrow> row_selection \<Rightarrow> nat list option" where
  "ids_at self rids matched =
     (let start = fst (gc_rows self)
      in case as_rows matched (tb_len (gc_table self)) of
          Run a b \<Rightarrow>
            if a = b then Some []
            else if a < start then None
            else Option.bind (buf_slice rids (a - start) (b - start)) run_order_row_ids
        | RunIds places \<Rightarrow> zone_ids start rids places)"

definition gc_ids :: "'k compute_scheme \<Rightarrow> graph_check \<Rightarrow> scalar list \<Rightarrow> nat list option" where
  "gc_ids fl self rids = Option.bind (residual_rows fl (gc_compare self)) (ids_at self rids)"

definition gc_window ::
    "'k compute_scheme \<Rightarrow> graph_check \<Rightarrow> scalar list \<Rightarrow> nat \<Rightarrow> nat \<Rightarrow> (nat list \<times> Pieces.live) option" where
  "gc_window fl self rids offset limit =
     do {
       (places, seen) \<leftarrow> residual_window fl (gc_compare self) offset limit;
       ids \<leftarrow> ids_at self rids (RowIds places);
       Some (ids, seen)
     }"

section \<open>Runs and lazy ids\<close>

record component_run =
  cr_rids :: "scalar list"
  cr_ascending :: bool
  cr_sorted :: "nat list option"
  cr_run_order :: "nat list option"

definition component_run_new :: "scalar list \<Rightarrow> bool \<Rightarrow> component_run" where
  "component_run_new rids ascends =
     \<lparr> cr_rids = rids, cr_ascending = ascends, cr_sorted = None, cr_run_order = None \<rparr>"

text \<open>What a cell holds, or what it is filled with.\<close>

definition get_or_try_init :: "'a option \<Rightarrow> 'a option \<Rightarrow> 'a option" where
  "get_or_try_init cell init = (case cell of Some v \<Rightarrow> Some v | None \<Rightarrow> init)"

definition cr_ordered :: "component_run \<Rightarrow> (nat list \<times> component_run) option" where
  "cr_ordered self =
     map_option (\<lambda>ids. (ids, self\<lparr> cr_run_order := Some ids \<rparr>))
       (get_or_try_init (cr_run_order self) (run_order_row_ids (cr_rids self)))"

record checked_run =
  kr_rids :: "scalar list"
  kr_ascending :: bool
  kr_check :: graph_check
  kr_count :: "nat option"
  kr_run_order :: "nat list option"
  kr_sorted :: "nat list option"

definition checked_run_new :: "scalar list \<Rightarrow> bool \<Rightarrow> graph_check \<Rightarrow> checked_run" where
  "checked_run_new rids ascends check =
     \<lparr> kr_rids = rids, kr_ascending = ascends, kr_check = check, kr_count = None, kr_run_order = None,
        kr_sorted = None \<rparr>"

definition known_ids :: "checked_run \<Rightarrow> nat list option" where
  "known_ids self = (case kr_sorted self of Some ids \<Rightarrow> Some ids | None \<Rightarrow> kr_run_order self)"

definition known_len :: "checked_run \<Rightarrow> nat option" where
  "known_len self =
     (case kr_count self of Some n \<Rightarrow> Some n | None \<Rightarrow> map_option length (known_ids self))"

definition kr_counted :: "'k compute_scheme \<Rightarrow> checked_run \<Rightarrow> (nat \<times> checked_run) option" where
  "kr_counted fl self =
     (case known_len self of
        Some n \<Rightarrow> Some (n, self)
      | None \<Rightarrow>
          map_option (\<lambda>n. (n, self\<lparr> kr_count := Some n \<rparr>))
            (get_or_try_init (kr_count self) (gc_count fl (kr_check self))))"

definition kr_count_capped :: "'k compute_scheme \<Rightarrow> checked_run \<Rightarrow> nat \<Rightarrow> nat option" where
  "kr_count_capped fl self limit =
     map_option (\<lambda>n. min n limit)
       (case known_len self of Some n \<Rightarrow> Some n | None \<Rightarrow> gc_count_capped fl (kr_check self) limit)"

definition kr_ordered :: "'k compute_scheme \<Rightarrow> checked_run \<Rightarrow> (nat list \<times> checked_run) option" where
  "kr_ordered fl self =
     map_option (\<lambda>ids. (ids, self\<lparr> kr_run_order := Some ids \<rparr>))
       (get_or_try_init (kr_run_order self) (gc_ids fl (kr_check self) (kr_rids self)))"

definition kr_window ::
    "'k compute_scheme \<Rightarrow> checked_run \<Rightarrow> nat \<Rightarrow> nat \<Rightarrow> (nat list \<times> Pieces.live) option" where
  "kr_window fl self offset limit =
     (case known_ids self of
        Some ids \<Rightarrow>
          (let (a, b) = (case window_rows offset limit (length ids) of None \<Rightarrow> (0, 0) | Some rows \<Rightarrow> rows)
           in map_option (\<lambda>rows. (rows, Exact (length ids))) (buf_slice ids a b))
      | None \<Rightarrow> gc_window fl (kr_check self) (kr_rids self) offset limit)"

datatype lazy_ids =
    ComponentIds component_run | CheckedIds checked_run | UnsortedIds "nat list" "nat list option"

definition from_unsorted_ids :: "nat list \<Rightarrow> lazy_ids" where
  "from_unsorted_ids ids = UnsortedIds ids None"

fun lazy_len_if_known :: "lazy_ids \<Rightarrow> nat option" where
  "lazy_len_if_known (ComponentIds run) = Some (length (cr_rids run))"
| "lazy_len_if_known (CheckedIds run) = known_len run"
| "lazy_len_if_known (UnsortedIds ids cached) = Some (length ids)"

fun lazy_count :: "'k compute_scheme \<Rightarrow> lazy_ids \<Rightarrow> (nat option \<times> lazy_ids) option" where
  "lazy_count fl (CheckedIds run) = map_option (\<lambda>(n, run). (Some n, CheckedIds run)) (kr_counted fl run)"
| "lazy_count fl self = Some (lazy_len_if_known self, self)"

fun lazy_count_capped :: "'k compute_scheme \<Rightarrow> lazy_ids \<Rightarrow> nat \<Rightarrow> nat option option" where
  "lazy_count_capped fl (CheckedIds run) limit = map_option Some (kr_count_capped fl run limit)"
| "lazy_count_capped fl self limit = Some None"

fun live_index_order :: "lazy_ids \<Rightarrow> nat list option" where
  "live_index_order (UnsortedIds ids cached) = Some ids"
| "live_index_order self = None"

fun lazy_window :: "'k compute_scheme \<Rightarrow> lazy_ids \<Rightarrow> nat \<Rightarrow> nat \<Rightarrow> nat list option option" where
  "lazy_window fl (ComponentIds run) offset limit =
     (if cr_ascending run then
        (case window_rows offset limit (length (cr_rids run)) of
           Some (a, b) \<Rightarrow> map_option Some (Option.bind (buf_slice (cr_rids run) a b) sorted_row_ids)
         | None \<Rightarrow> Some (Some []))
      else Some None)"
| "lazy_window fl (CheckedIds run) offset limit =
     (if kr_ascending run then map_option (Some \<circ> fst) (kr_window fl run offset limit) else Some None)"
| "lazy_window fl (UnsortedIds ids cached) offset limit = Some None"

fun window_with_live ::
    "'k compute_scheme \<Rightarrow> lazy_ids \<Rightarrow> nat \<Rightarrow> nat \<Rightarrow> (nat list \<times> Pieces.live) option option" where
  "window_with_live fl (CheckedIds run) offset limit =
     (if kr_ascending run then map_option Some (kr_window fl run offset limit) else Some None)"
| "window_with_live fl self offset limit =
     (case lazy_len_if_known self of
        None \<Rightarrow> Some None
      | Some n \<Rightarrow> map_option (map_option (\<lambda>ids. (ids, Exact n))) (lazy_window fl self offset limit))"

fun live_len_without_io :: "'k compute_scheme \<Rightarrow> lazy_ids \<Rightarrow> mask \<Rightarrow> (nat \<times> lazy_ids) option" where
  "live_len_without_io fl (UnsortedIds ids cached) deleted = Some (length ids, UnsortedIds ids cached)"
| "live_len_without_io fl (ComponentIds run) deleted =
     do {
       (ids, run) \<leftarrow> (case cr_sorted run of Some ids \<Rightarrow> Some (ids, run) | None \<Rightarrow> cr_ordered run);
       n \<leftarrow> count_live ids (Some deleted);
       Some (n, ComponentIds run)
     }"
| "live_len_without_io fl (CheckedIds run) deleted =
     do {
       (ids, run) \<leftarrow> (case kr_sorted run of Some ids \<Rightarrow> Some (ids, run) | None \<Rightarrow> kr_ordered fl run);
       n \<leftarrow> count_live ids (Some deleted);
       Some (n, CheckedIds run)
     }"

fun lazy_materialized :: "'k compute_scheme \<Rightarrow> lazy_ids \<Rightarrow> (nat list \<times> lazy_ids) option" where
  "lazy_materialized fl (ComponentIds run) =
     map_option (\<lambda>ids. (ids, ComponentIds (run\<lparr> cr_sorted := Some ids \<rparr>)))
       (get_or_try_init (cr_sorted run)
         (case cr_run_order run of Some ids \<Rightarrow> sorted_copy ids | None \<Rightarrow> sorted_row_ids (cr_rids run)))"
| "lazy_materialized fl (CheckedIds run) =
     (case kr_sorted run of
        Some ids \<Rightarrow> Some (ids, CheckedIds run)
      | None \<Rightarrow>
          do {
            (ids, run) \<leftarrow> kr_ordered fl run;
            ids \<leftarrow> (if kr_ascending run \<or> sorted ids then Some ids else sorted_copy ids);
            Some (ids, CheckedIds (run\<lparr> kr_sorted := Some ids \<rparr>))
          })"
| "lazy_materialized fl (UnsortedIds ids cached) =
     map_option (\<lambda>sids. (sids, UnsortedIds ids (Some sids))) (get_or_try_init cached (sorted_copy ids))"

section \<open>What is decoded\<close>

lemma decoded_codes [simp]: "decoded_row_ids (map CodeScalar ids) = Some ids"
  using gather_Some [of ids "unsigned_value \<circ> CodeScalar" id]
  by (simp add: decoded_row_ids_def gather_map)

lemma run_order_codes [simp]: "run_order_row_ids (map CodeScalar ids) = Some ids"
  by (simp add: run_order_row_ids_def)

lemma buf_slice_codes:
  "buf_slice (map CodeScalar ids) a b = map_option (map CodeScalar) (buf_slice ids a b)"
  by (simp add: buf_slice_def take_map drop_map)

definition unique_ids :: "nat list \<Rightarrow> bool" where
  "unique_ids ids \<longleftrightarrow> distinct ids \<and> (\<forall>i \<in> set ids. i \<le> usize_max) \<and> length ids \<le> usize_max"

lemma sorted_ids_addressable:
  assumes "unique_ids ids"
  shows "addressable (snd (sort_unique_ids ids)) = Some (sort ids)"
proof -
  have sort: "snd (sort_unique_ids ids) = sort ids"
    using assms by (intro sort_unique_ids_sorts) (simp_all add: unique_ids_def)
  show ?thesis
  proof (cases "ids = []")
    case True
    then show ?thesis unfolding sort by (simp add: addressable_def check_addressable_def)
  next
    case False
    then have ne: "sort ids \<noteq> []" by (metis length_0_conv length_sort)
    then have "last (sort ids) \<in> set ids" using last_in_set [OF ne] by simp
    then have "last (sort ids) \<le> usize_max" using assms by (simp add: unique_ids_def)
    then show ?thesis
      using ne unfolding sort by (simp add: addressable_def check_addressable_def row_index_def index_of_def)
  qed
qed

lemma sorted_row_ids_codes: "unique_ids ids \<Longrightarrow> sorted_row_ids (map CodeScalar ids) = Some (sort ids)"
  by (simp add: sorted_row_ids_def sorted_ids_addressable)

lemma sorted_copy_eq: "unique_ids ids \<Longrightarrow> sorted_copy ids = Some (sort ids)"
  by (simp add: sorted_copy_def sorted_ids_addressable)

text \<open>The ids at ascending positions of a run.\<close>

lemma ascending_span:
  assumes "ascending (first # rest)" "row \<in> set (take k (first # rest))" "0 < k"
  shows "first \<le> row" "row \<le> last (take k (first # rest))"
proof -
  have asc: "ascending (take k (first # rest))" using assms(1) by (rule sorted_wrt_take)
  show "first \<le> row" using assms(1) in_set_takeD [OF assms(2)] by auto
  show "row \<le> last (take k (first # rest))"
    using asc assms(2) by (rule ascending_hd_last(2))
qed

lemma zone_ids_at:
  assumes "ascending places" "\<forall>row \<in> set places. start \<le> row \<and> row < start + length ids"
  shows "zone_ids start (map CodeScalar ids) places = Some (map (\<lambda>row. ids ! (row - start)) places)"
  using assms
proof (induction start "map CodeScalar ids" places rule: zone_ids.induct)
  case (2 start first rest)
  define zone_end where "zone_end = (first div ZONE_ROWS + 1) * ZONE_ROWS"
  define cut where "cut = partition_point (\<lambda>row. row < zone_end) (first # rest)"
  define here where "here = take cut (first # rest)"
  have "first < zone_end"
    using dividend_less_times_div [OF ZONE_ROWS_pos, of first] by (simp add: zone_end_def mult.commute)
  then have cut: "0 < cut" unfolding cut_def by (rule partition_point_pos)
  have span: "first \<le> row" "row \<le> last here" if "row \<in> set here" for row
    using ascending_span [OF 2(2) _ cut] that by (simp_all add: here_def)
  have "last here \<in> set here" using cut by (cases cut) (simp_all add: here_def)
  then have last: "last here \<in> set (first # rest)" "first \<le> last here"
    using in_set_takeD span unfolding here_def by fast+
  have in_run: "start \<le> first" "last here < start + length ids"
    using 2(3) last(1) by auto
  let ?part = "take (last here + 1 - first) (drop (first - start) ids)"
  have slice: "Option.bind (buf_slice (map CodeScalar ids) (first - start) (last here + 1 - start)) run_order_row_ids =
      Some ?part"
    using in_run last(2) by (simp add: buf_slice_codes buf_slice_Some Suc_diff_le)
  have "gather (\<lambda>row. buf_get ?part (row - first)) here = Some (map (\<lambda>row. ids ! (row - start)) here)"
  proof (rule gather_Some)
    fix row
    assume row: "row \<in> set here"
    then show "buf_get ?part (row - first) = Some (ids ! (row - start))"
      using span [OF row] in_run by (simp add: buf_get_def)
  qed
  moreover have "zone_ids start (map CodeScalar ids) (drop cut (first # rest)) =
      Some (map (\<lambda>row. ids ! (row - start)) (drop cut (first # rest)))"
    using 2(1) [OF zone_end_def cut_def here_def _ slice calculation] in_run(1) 2(3)
      sorted_wrt_drop [OF 2(2), of cut] in_set_dropD [of _ cut "first # rest"] by fastforce
  moreover have "map f (here @ drop cut (first # rest)) = map f (first # rest)" for f :: "nat \<Rightarrow> nat"
    by (simp only: here_def append_take_drop_id)
  ultimately show ?case
    using slice in_run unfolding zone_ids.simps Let_def zone_end_def [symmetric] cut_def [symmetric] here_def [symmetric]
    by (simp only: not_less [symmetric]) (simp flip: map_append)
qed simp

lemma ids_at_selection:
  assumes sel: "wf_selection (tb_len (gc_table self)) sel"
    and rows: "gc_rows self = (start, start + length ids)"
    and run: "\<forall>row \<in> set (covered sel (tb_len (gc_table self))). start \<le> row \<and> row < start + length ids"
  shows "ids_at self (map CodeScalar ids) sel =
    Some (map (\<lambda>row. ids ! (row - start)) (covered sel (tb_len (gc_table self))))"
proof (cases "as_rows sel (tb_len (gc_table self))")
  case (Run a b)
  have cov: "covered sel (tb_len (gc_table self)) = [a..<b]"
    using rows_of_as_rows [of sel "tb_len (gc_table self)"] Run by simp
  show ?thesis
  proof (cases "a < b")
    case True
    then have "start \<le> a" "b \<le> start + length ids" using run unfolding cov by (auto dest: bspec [of _ _ "b - 1"])
    moreover from this have "map (\<lambda>row. ids ! (row - start)) [a..<b] = take (b - start - (a - start)) (drop (a - start) ids)"
      using True by (intro nth_equalityI) (auto simp: add.commute)
    ultimately show ?thesis
      using True Run rows cov by (simp add: ids_at_def buf_slice_codes buf_slice_Some)
  next
    case False
    have "a \<le> b" using as_rows_Run [OF sel Run] by simp
    then show ?thesis using False Run rows cov by (simp add: ids_at_def)
  qed
next
  case (RunIds places)
  then have "covered sel (tb_len (gc_table self)) = places"
    using rows_of_as_rows [of sel "tb_len (gc_table self)"] by simp
  then show ?thesis
    using RunIds rows run covered_ascending [OF sel] by (simp add: ids_at_def zone_ids_at)
qed

section \<open>Lazy ids name what they are of\<close>

definition cached :: "'a option \<Rightarrow> 'a \<Rightarrow> bool" where
  "cached cell v \<longleftrightarrow> cell = None \<or> cell = Some v"

lemma cached_simps [simp]: "cached None v" "cached (Some u) v \<longleftrightarrow> u = v"
  by (auto simp: cached_def)

lemma get_or_try_init_cached: "cached cell v \<Longrightarrow> init = Some v \<Longrightarrow> get_or_try_init cell init = Some v"
  by (auto simp: cached_def get_or_try_init_def)

text \<open>The check of a run: its rows of the component, and which of them hold the graph.\<close>

definition check_of :: "'k compute_scheme \<Rightarrow> nat \<Rightarrow> nat list \<Rightarrow> graph_check \<Rightarrow> bool" where
  "check_of fl start ids check \<longleftrightarrow>
     wf_residual fl (gc_compare check) \<and> gc_rows check = (start, start + length ids) \<and>
     gc_selection check = RowRange start (start + length ids) \<and> start + length ids \<le> tb_len (gc_table check)"

definition checked_ids :: "nat \<Rightarrow> nat list \<Rightarrow> graph_check \<Rightarrow> nat list" where
  "checked_ids start ids check =
     map (\<lambda>row. ids ! (row - start)) (filter (passes (gc_compare check)) [start..<start + length ids])"

fun lazy_of :: "'k compute_scheme \<Rightarrow> nat list \<Rightarrow> lazy_ids \<Rightarrow> bool" where
  "lazy_of fl ids (ComponentIds run) \<longleftrightarrow>
     unique_ids ids \<and> cr_rids run = map CodeScalar ids \<and> (cr_ascending run \<longrightarrow> sorted ids) \<and>
     cached (cr_sorted run) (sort ids) \<and> cached (cr_run_order run) ids"
| "lazy_of fl ids (CheckedIds run) \<longleftrightarrow>
     (\<exists>start all. unique_ids all \<and> kr_rids run = map CodeScalar all \<and> (kr_ascending run \<longrightarrow> sorted all) \<and>
        check_of fl start all (kr_check run) \<and> ids = checked_ids start all (kr_check run)) \<and>
     cached (kr_count run) (length ids) \<and> cached (kr_run_order run) ids \<and> cached (kr_sorted run) (sort ids)"
| "lazy_of fl ids (UnsortedIds all cell) \<longleftrightarrow> unique_ids ids \<and> all = ids \<and> cached cell (sort ids)"

lemma gc_compare_simps [simp]:
  "rc_selection (gc_compare check) = gc_selection check" "rc_len (gc_compare check) = tb_len (gc_table check)"
  "rc_deleted (gc_compare check) = None"
  by (simp_all add: gc_compare_def rc_len_def)

lemma check_covered:
  assumes "check_of fl start ids check"
  shows "covered (gc_selection check) (tb_len (gc_table check)) = [start..<start + length ids]"
    "matches_of (gc_compare check) [start..<start + length ids] =
       filter (passes (gc_compare check)) [start..<start + length ids]"
  using assms by (simp_all add: check_of_def matches_of_def live_of_def)

lemma gc_ids_checked:
  assumes "check_of fl start ids check"
  shows "gc_ids fl check (map CodeScalar ids) = Some (checked_ids start ids check)"
proof -
  have wf: "wf_residual fl (gc_compare check)" and rows: "gc_rows check = (start, start + length ids)"
    using assms by (simp_all add: check_of_def)
  obtain sel where sel: "residual_rows fl (gc_compare check) = Some sel"
      "wf_selection (tb_len (gc_table check)) sel"
      "covered sel (tb_len (gc_table check)) = filter (passes (gc_compare check)) [start..<start + length ids]"
    using residual_rows_narrows [OF wf] by (auto simp: narrows_def check_covered [OF assms])
  then show ?thesis
    using ids_at_selection [OF sel(2) rows] by (simp add: gc_ids_def checked_ids_def)
qed

lemma gc_counts:
  assumes "check_of fl start ids check"
  shows "gc_count fl check = Some (length (checked_ids start ids check))"
    "\<exists>m. gc_count_capped fl check limit = Some m \<and> min m limit = min (length (checked_ids start ids check)) limit"
proof -
  have wf: "wf_residual fl (gc_compare check)" using assms by (simp add: check_of_def)
  show "gc_count fl check = Some (length (checked_ids start ids check))"
    using residual_count_matches(1) [OF wf] by (simp add: gc_count_def checked_ids_def check_covered [OF assms])
  show "\<exists>m. gc_count_capped fl check limit = Some m \<and> min m limit = min (length (checked_ids start ids check)) limit"
    using residual_count_matches(2) [OF wf, of limit]
    by (auto simp: gc_count_capped_def checked_ids_def check_covered [OF assms])
qed

lemma gc_window_checked:
  assumes "check_of fl start ids check"
  shows "\<exists>seen. gc_window fl check (map CodeScalar ids) offset limit =
      Some (take limit (drop offset (checked_ids start ids check)), seen) \<and>
    at_least seen \<le> length (checked_ids start ids check) \<and>
    (case seen of Exact n \<Rightarrow> n = length (checked_ids start ids check) | AtLeast n \<Rightarrow> True)"
proof -
  let ?places = "filter (passes (gc_compare check)) [start..<start + length ids]"
  let ?w = "take limit (drop offset ?places)"
  have wf: "wf_residual fl (gc_compare check)" and rows: "gc_rows check = (start, start + length ids)"
    and len: "start + length ids \<le> tb_len (gc_table check)" using assms by (simp_all add: check_of_def)
  have all: "matches_of (gc_compare check) (covered (rc_selection (gc_compare check)) (rc_len (gc_compare check))) = ?places"
    by (simp add: check_covered [OF assms])
  obtain seen where seen: "residual_window fl (gc_compare check) offset limit = Some (?w, seen)"
      "at_least seen \<le> length ?places" "case seen of Exact n \<Rightarrow> n = length ?places | AtLeast n \<Rightarrow> True"
    using residual_window_matches [OF wf, of offset limit] unfolding all by blast
  have asc: "ascending ?w" by (intro ascending_take_drop ascending_filter ascending_upt)
  have mem: "\<forall>row \<in> set ?w. start \<le> row \<and> row < start + length ids"
    by (auto dest: in_take_drop)
  have "ids_at check (map CodeScalar ids) (RowIds ?w) = Some (map (\<lambda>row. ids ! (row - start)) ?w)"
    using zone_ids_at [OF asc mem] rows by (simp add: ids_at_def)
  then show ?thesis
    using seen by (cases seen) (simp_all add: gc_window_def checked_ids_def take_map drop_map)
qed

lemma checked_unique:
  assumes "unique_ids all"
  shows "unique_ids (checked_ids start all check)" "sorted all \<Longrightarrow> sorted (checked_ids start all check)"
proof -
  let ?p = "passes (gc_compare check)"
  have nth: "checked_ids start all check = map ((!) all) (filter (\<lambda>k. ?p (start + k)) [0..<length all])"
    by (simp add: checked_ids_def map_add_upt [symmetric] filter_map comp_def add.commute [of start] del: map_add_upt)
  have "set (checked_ids start all check) \<subseteq> set all" by (auto simp: nth)
  moreover have "distinct (checked_ids start all check)"
    using assms by (auto simp: nth distinct_map unique_ids_def inj_on_def nth_eq_iff_index_eq)
  moreover have "length (checked_ids start all check) \<le> length all"
    unfolding nth by (rule order_trans [OF _ length_filter_le, of _ "\<lambda>k. ?p (start + k)" "[0..<length all]", simplified]) simp
  ultimately show "unique_ids (checked_ids start all check)"
    using assms by (auto simp: unique_ids_def)
  show "sorted (checked_ids start all check)" if "sorted all"
    using that unfolding nth sorted_map
    by (intro sorted_wrt_mono_rel [OF _ sorted_wrt_filter [OF sorted_wrt_upt]]) (auto simp: sorted_iff_nth_mono)
qed

lemma lazy_unique: "lazy_of fl ids self \<Longrightarrow> unique_ids ids"
  by (cases self) (auto simp: checked_unique)

lemma kr_ordered_ids:
  assumes "lazy_of fl ids (CheckedIds run)"
  shows "kr_ordered fl run = Some (ids, run\<lparr> kr_run_order := Some ids \<rparr>)"
proof -
  obtain start all where "kr_rids run = map CodeScalar all" "check_of fl start all (kr_check run)"
      "ids = checked_ids start all (kr_check run)" "cached (kr_run_order run) ids"
    using assms by auto
  then have "get_or_try_init (kr_run_order run) (gc_ids fl (kr_check run) (kr_rids run)) = Some ids"
    by (intro get_or_try_init_cached) (simp_all add: gc_ids_checked)
  then show ?thesis by (simp add: kr_ordered_def)
qed

lemma kr_sorts: "lazy_of fl ids (CheckedIds run) \<Longrightarrow> kr_ascending run \<Longrightarrow> sorted ids"
  by (auto intro: checked_unique(2))

lemma lazy_materialized_sorts:
  assumes "lazy_of fl ids self"
  shows "\<exists>self'. lazy_materialized fl self = Some (sort ids, self') \<and> lazy_of fl ids self'"
proof (cases self)
  case (ComponentIds run)
  have "(case cr_run_order run of Some ids \<Rightarrow> sorted_copy ids | None \<Rightarrow> sorted_row_ids (cr_rids run)) = Some (sort ids)"
    using assms ComponentIds by (auto simp: cached_def sorted_copy_eq sorted_row_ids_codes)
  then show ?thesis
    using assms ComponentIds get_or_try_init_cached [of "cr_sorted run" "sort ids"] by simp
next
  case (CheckedIds run)
  show ?thesis
  proof (cases "kr_sorted run")
    case None
    have "(if kr_ascending run \<or> sorted ids then Some ids else sorted_copy ids) = Some (sort ids)"
      using kr_sorts [OF assms [unfolded CheckedIds]] lazy_unique [OF assms]
      by (auto simp: sorted_copy_eq sorted_sort_id)
    then show ?thesis
      using None assms CheckedIds kr_ordered_ids [of fl ids run] by simp
  qed (use assms CheckedIds in simp)
next
  case (UnsortedIds all cell)
  then show ?thesis
    using assms get_or_try_init_cached [of cell "sort ids"] by (simp add: sorted_copy_eq)
qed

lemma lazy_count_length:
  assumes "lazy_of fl ids self"
  shows "\<exists>self'. lazy_count fl self = Some (Some (length ids), self') \<and> lazy_of fl ids self'"
proof (cases self)
  case (CheckedIds run)
  then obtain start all where run: "check_of fl start all (kr_check run)" "ids = checked_ids start all (kr_check run)"
    using assms by auto
  have "gc_count fl (kr_check run) = Some (length ids)" using gc_counts(1) [OF run(1)] run(2) by simp
  then show ?thesis
    using assms CheckedIds
    by (auto simp: kr_counted_def known_len_def known_ids_def cached_def get_or_try_init_def split: option.splits)
qed (use assms in auto)

lemma lazy_count_capped_min:
  assumes "lazy_of fl ids self"
  shows "lazy_count_capped fl self limit \<in> {Some None, Some (Some (min (length ids) limit))}"
proof (cases self)
  case (CheckedIds run)
  then obtain start all where run: "check_of fl start all (kr_check run)" "ids = checked_ids start all (kr_check run)"
    using assms by auto
  obtain m where "gc_count_capped fl (kr_check run) limit = Some m" "min m limit = min (length ids) limit"
    using gc_counts(2) [OF run(1)] run(2) by blast
  then show ?thesis
    using assms CheckedIds
    by (auto simp: kr_count_capped_def known_len_def known_ids_def cached_def split: option.splits)
qed simp_all

lemma window_slice_case:
  assumes "length xs \<le> u64_max"
  shows "(case window_rows offset limit (length xs) of Some (a, b) \<Rightarrow> buf_slice xs a b | None \<Rightarrow> Some []) =
    Some (take limit (drop offset xs))"
  using window_rows_slice [OF assms, of offset limit]
  by (cases "window_rows offset limit (length xs)") (auto simp: buf_slice_def split: if_splits)

lemma window_with_live_slice:
  assumes "lazy_of fl ids self"
  shows "window_with_live fl self offset limit = Some None \<or>
    (\<exists>seen. window_with_live fl self offset limit = Some (Some (take limit (drop offset (sort ids)), seen)) \<and>
       at_least seen \<le> length ids \<and> (case seen of Exact n \<Rightarrow> n = length ids | AtLeast n \<Rightarrow> True))"
proof (cases self)
  case (ComponentIds run)
  show ?thesis
  proof (cases "cr_ascending run")
    case True
    have ids: "unique_ids ids" "cr_rids run = map CodeScalar ids" "sort ids = ids"
      using assms ComponentIds True by (auto simp: sorted_sort_id)
    have win: "unique_ids (take limit (drop offset ids))" "sorted (take limit (drop offset ids))"
      using ids(1,3) sorted_sort [of ids] by (auto simp: unique_ids_def dest: in_take_drop intro: sorted_wrt_take sorted_wrt_drop)
    have "lazy_window fl self offset limit = Some (Some (take limit (drop offset ids)))"
      using True ComponentIds ids(2) win window_slice_case [of ids offset limit] ids(1)
      by (auto simp: buf_slice_codes sorted_row_ids_codes sorted_sort_id unique_ids_def split: option.splits)
    then show ?thesis using ComponentIds ids by simp
  qed (use ComponentIds in simp)
next
  case (CheckedIds run)
  show ?thesis
  proof (cases "kr_ascending run")
    case True
    have sort: "sort ids = ids" by (rule sorted_sort_id [OF kr_sorts [OF assms [unfolded CheckedIds] True]])
    obtain start all where run: "kr_rids run = map CodeScalar all" "check_of fl start all (kr_check run)"
        "ids = checked_ids start all (kr_check run)"
      using assms CheckedIds by auto
    have "known_ids run = None \<or> known_ids run = Some ids"
      using assms CheckedIds sort by (auto simp: known_ids_def cached_def)
    moreover have "length ids \<le> u64_max" using lazy_unique [OF assms] by (simp add: unique_ids_def)
    ultimately show ?thesis
      using True CheckedIds gc_window_checked [OF run(2), of offset limit] run(1,3) sort
        window_rows_slice [of ids offset limit]
      by (auto simp: kr_window_def Let_def split: option.splits)
  qed (use CheckedIds in simp)
qed simp

lemma live_len_live:
  assumes ids: "lazy_of fl ids self" and covered: "\<forall>i \<in> set ids. i < length deleted"
    and narrowed: "\<forall>all cell. self = UnsortedIds all cell \<longrightarrow> (\<forall>i \<in> set ids. \<not> deleted ! i)"
  shows "\<exists>self'. live_len_without_io fl self deleted = Some (length (filter (\<lambda>i. \<not> deleted ! i) ids), self') \<and>
    lazy_of fl ids self'"
proof -
  have live: "count_live xs (Some deleted) = Some (length (filter (\<lambda>i. \<not> deleted ! i) xs))" if "set xs = set ids" for xs
    using covered that checked_filter_Some [of xs "\<lambda>i. map_option Not (mask_value deleted i)" "\<lambda>i. \<not> deleted ! i"]
    by (simp add: count_live_def mask_value_Some)
  have sorted: "length (filter p (sort ids)) = length (filter p ids)" for p
    by (metis filter_sort length_sort)
  show ?thesis
  proof (cases self)
    case (ComponentIds run)
    then show ?thesis
      using ids live [of ids] live [of "sort ids"] sorted
        get_or_try_init_cached [of "cr_run_order run" ids "run_order_row_ids (cr_rids run)"]
      by (cases "cr_sorted run") (auto simp: cr_ordered_def)
  next
    case (CheckedIds run)
    then show ?thesis
      using ids live [of ids] live [of "sort ids"] sorted kr_ordered_ids [of fl ids run]
      by (cases "kr_sorted run") auto
  next
    case (UnsortedIds all cell)
    then have "filter (\<lambda>i. \<not> deleted ! i) ids = ids" using narrowed by (auto simp: filter_id_conv)
    then show ?thesis using UnsortedIds ids by simp
  qed
qed

text \<open>C33. The row ids of a resolution answer alike whatever earlier calls kept of them: materialized
  they are the resolved ids in ascending order, a count is their number and a capped count their
  number under the cap, and a window that is answered is the window of the ascending ids, with a
  count that is exact or a lower bound; what a call hands back still stands for the same ids.\<close>

theorem lazy_ids_answer:
  assumes "lazy_of fl ids self"
  shows "(\<exists>self'. lazy_materialized fl self = Some (sort ids, self') \<and> lazy_of fl ids self') \<and>
    (\<exists>self'. lazy_count fl self = Some (Some (length ids), self') \<and> lazy_of fl ids self') \<and>
    lazy_count_capped fl self limit \<in> {Some None, Some (Some (min (length ids) limit))} \<and>
    (window_with_live fl self offset limit = Some None \<or>
     (\<exists>seen. window_with_live fl self offset limit = Some (Some (take limit (drop offset (sort ids)), seen)) \<and>
        at_least seen \<le> length ids \<and> (case seen of Exact n \<Rightarrow> n = length ids | AtLeast n \<Rightarrow> True)))"
  using lazy_materialized_sorts [OF assms] lazy_count_length [OF assms] lazy_count_capped_min [OF assms]
    window_with_live_slice [OF assms] by blast

theorem lazy_ids_answer_witness:
  "\<exists>self'. lazy_materialized plain_compute (ComponentIds (component_run_new (map CodeScalar [5, 2, 9]) False)) =
     Some ([2, 5, 9], self')"
proof -
  have "lazy_of plain_compute [5, 2, 9] (ComponentIds (component_run_new (map CodeScalar [5, 2, 9]) False))"
    by (simp add: component_run_new_def unique_ids_def u64_max_def)
  from lazy_ids_answer [OF this] show ?thesis by simp
qed

end
