(* ===== verification/Serve.thy ===== *)
theory Serve
  imports IndexRuns
begin

text \<open>
  Serving plans (\<open>src/core/src/store/indexes/serve\<close>: \<open>mod.rs\<close> and \<open>memory.rs\<close>): the rows of an
  index child that a resolved view covers, a range of them or the rows a narrowing kept, read in
  the child's order. The row ids a plan decodes are kept in its run; each operation that may decode
  hands the plan back. \<^term>\<open>None\<close> is a panic or an error.
\<close>

section \<open>Served rows\<close>

record served_rows =
  sr_positions :: "nat list"
  sr_rids :: "nat list"

definition served_len :: "served_rows \<Rightarrow> nat" where
  "served_len self = length (sr_rids self)"

definition positions_and_rids :: "served_rows \<Rightarrow> (nat \<times> nat) list" where
  "positions_and_rids self = zip (sr_positions self) (sr_rids self)"

fun collect_loop ::
    "('a \<Rightarrow> (nat \<times> nat) option option) \<Rightarrow> 'a list \<Rightarrow> nat list \<Rightarrow> nat list \<Rightarrow> served_rows option" where
  "collect_loop keep [] places rids = Some \<lparr> sr_positions = places, sr_rids = rids \<rparr>"
| "collect_loop keep (row # rows) places rids =
     (case keep row of
        None \<Rightarrow> None
      | Some None \<Rightarrow> collect_loop keep rows places rids
      | Some (Some (place, rid)) \<Rightarrow> collect_loop keep rows (places @ [place]) (rids @ [rid]))"

definition served_collect :: "'a list \<Rightarrow> ('a \<Rightarrow> (nat \<times> nat) option option) \<Rightarrow> served_rows option" where
  "served_collect rows keep = collect_loop keep rows [] []"

definition served_slice :: "served_rows \<Rightarrow> nat \<Rightarrow> nat \<Rightarrow> served_rows option" where
  "served_slice self a b =
     do {
       positions \<leftarrow> buf_slice (sr_positions self) a b;
       rids \<leftarrow> buf_slice (sr_rids self) a b;
       Some \<lparr> sr_positions = positions, sr_rids = rids \<rparr>
     }"

datatype served_span = SpanRange nat nat | SpanKept served_rows

fun span_len :: "served_span \<Rightarrow> nat" where
  "span_len (SpanRange a b) = b - a"
| "span_len (SpanKept rows) = served_len rows"

datatype served_live = LiveRange nat nat | LiveSpanned served_rows | LiveKept served_rows

fun served_live_len :: "served_live \<Rightarrow> nat" where
  "served_live_len (LiveRange a b) = b - a"
| "served_live_len (LiveSpanned rows) = served_len rows"
| "served_live_len (LiveKept rows) = served_len rows"

fun served_live_slice :: "served_live \<Rightarrow> nat \<Rightarrow> nat \<Rightarrow> served_live option" where
  "served_live_slice (LiveRange a b) i j = Some (LiveRange (a + i) (a + j))"
| "served_live_slice (LiveSpanned rows) i j = map_option LiveSpanned (served_slice rows i j)"
| "served_live_slice (LiveKept rows) i j = map_option LiveKept (served_slice rows i j)"

fun into_span :: "served_live \<Rightarrow> (nat \<Rightarrow> nat \<Rightarrow> lazy_ids option) \<Rightarrow> (served_span \<times> lazy_ids) option" where
  "into_span (LiveRange a b) range_ids = map_option (Pair (SpanRange a b)) (range_ids a b)"
| "into_span (LiveSpanned rows) range_ids =
     do {
       first \<leftarrow> buf_get (sr_positions rows) 0;
       final \<leftarrow> usub (served_len rows) 1;
       final \<leftarrow> buf_get (sr_positions rows) final;
       Some (SpanRange first (final + 1), from_unsorted_ids (sr_rids rows))
     }"
| "into_span (LiveKept rows) range_ids = Some (SpanKept rows, from_unsorted_ids (sr_rids rows))"

section \<open>Plans\<close>

record serve_plan =
  sp_decode :: serve_decode
  sp_component :: string
  sp_array :: table
  sp_run :: "nat \<times> nat"
  sp_span :: served_span
  sp_narrowed :: bool
  sp_ids :: component_run

definition serve_plan_new :: "serve_decode \<Rightarrow> string \<Rightarrow> table \<Rightarrow> nat \<times> nat \<Rightarrow> component_run \<Rightarrow> serve_plan" where
  "serve_plan_new decoder component array run ids =
     \<lparr> sp_decode = decoder, sp_component = component, sp_array = array, sp_run = run,
        sp_span = SpanRange (fst run) (snd run), sp_narrowed = False, sp_ids = ids \<rparr>"

definition read_order :: "serve_plan \<Rightarrow> sort_order" where
  "read_order self = sd_order (sp_decode self)"

definition plan_span_len :: "serve_plan \<Rightarrow> nat" where
  "plan_span_len self = span_len (sp_span self)"

definition with_span :: "served_span \<Rightarrow> serve_plan \<Rightarrow> serve_plan" where
  "with_span span self = self\<lparr> sp_span := span, sp_narrowed := True \<rparr>"

definition run_order :: "serve_plan \<Rightarrow> (nat list \<times> serve_plan) option" where
  "run_order self = map_option (\<lambda>(ids, run). (ids, self\<lparr> sp_ids := run \<rparr>)) (cr_ordered (sp_ids self))"

text \<open>The part of the run's ids that component rows hold.\<close>

definition run_slots :: "serve_plan \<Rightarrow> nat list \<Rightarrow> nat \<Rightarrow> nat \<Rightarrow> nat list option" where
  "run_slots self ids a b =
     do {
       i \<leftarrow> usub a (fst (sp_run self));
       j \<leftarrow> usub b (fst (sp_run self));
       buf_slice ids i j
     }"

definition range_rids :: "serve_plan \<Rightarrow> nat \<Rightarrow> nat \<Rightarrow> (nat list \<times> serve_plan) option" where
  "range_rids self a b =
     do {
       (ids, self) \<leftarrow> run_order self;
       rids \<leftarrow> run_slots self ids a b;
       Some (rids, self)
     }"

definition kept_rows ::
    "serve_plan \<Rightarrow> mask option \<Rightarrow> (nat \<Rightarrow> nat \<Rightarrow> bool option) \<Rightarrow> (served_rows \<times> serve_plan) option" where
  "kept_rows self deleted admit =
     (let taken = (\<lambda>(position, rid). map_option (\<lambda>keep. if keep then Some (position, rid) else None)
        (admit position rid))
      in case sp_span self of
          SpanKept kept \<Rightarrow>
            map_option (\<lambda>rows. (rows, self)) (served_collect (positions_and_rids kept) taken)
        | SpanRange a b \<Rightarrow>
            do {
              (ids, self) \<leftarrow> run_order self;
              rids \<leftarrow> run_slots self ids a b;
              rows \<leftarrow> served_collect (zip [a..<b] rids)
                (case deleted of
                   None \<Rightarrow> taken
                 | Some deleted \<Rightarrow> (\<lambda>(position, rid).
                     do { dead \<leftarrow> mask_value deleted rid; if dead then Some None else taken (position, rid) }));
              Some (rows, self)
            })"

definition live_rids :: "serve_plan \<Rightarrow> mask option \<Rightarrow> (nat list \<times> serve_plan) option" where
  "live_rids self deleted =
     (case sp_span self of
        SpanKept kept \<Rightarrow> Some (sr_rids kept, self)
      | SpanRange a b \<Rightarrow>
          do {
            (rids, self) \<leftarrow> range_rids self a b;
            rids \<leftarrow> (case deleted of
                        None \<Rightarrow> Some rids
                      | Some deleted \<Rightarrow> checked_filter (\<lambda>rid. map_option Not (mask_value deleted rid)) rids);
            Some (rids, self)
          })"

definition plan_live :: "serve_plan \<Rightarrow> mask option \<Rightarrow> (served_live \<times> serve_plan) option" where
  "plan_live self deleted =
     (case (sp_span self, deleted) of
        (SpanKept kept, _) \<Rightarrow> Some (LiveKept kept, self)
      | (SpanRange a b, None) \<Rightarrow> Some (LiveRange a b, self)
      | (SpanRange a b, Some _) \<Rightarrow>
          map_option (\<lambda>(rows, self). (LiveSpanned rows, self)) (kept_rows self deleted (\<lambda>_ _. Some True)))"

section \<open>What a plan serves\<close>

text \<open>A plan of a run that holds the ids \<open>all\<close>, and the rows its span covers: each a row of the
  component beside the base row it is of.\<close>

definition plan_of :: "nat list \<Rightarrow> serve_plan \<Rightarrow> bool" where
  "plan_of all self \<longleftrightarrow>
     snd (sp_run self) = fst (sp_run self) + length all \<and>
     cr_rids (sp_ids self) = map CodeScalar all \<and> cached (cr_run_order (sp_ids self)) all \<and>
     (case sp_span self of
        SpanRange a b \<Rightarrow> fst (sp_run self) \<le> a \<and> a \<le> b \<and> b \<le> snd (sp_run self)
      | SpanKept rows \<Rightarrow> length (sr_positions rows) = length (sr_rids rows))"

definition plan_rows :: "nat list \<Rightarrow> serve_plan \<Rightarrow> (nat \<times> nat) list" where
  "plan_rows all self =
     (case sp_span self of
        SpanRange a b \<Rightarrow> map (\<lambda>i. (i, all ! (i - fst (sp_run self)))) [a..<b]
      | SpanKept rows \<Rightarrow> positions_and_rids rows)"

text \<open>Kept rows are live already; a range's are live where no tombstone marks their base row.\<close>

definition served :: "nat list \<Rightarrow> serve_plan \<Rightarrow> mask option \<Rightarrow> (nat \<times> nat) list" where
  "served all self deleted =
     (case (sp_span self, deleted) of
        (SpanRange a b, Some m) \<Rightarrow> filter (\<lambda>(i, rid). \<not> m ! rid) (plan_rows all self)
      | _ \<Rightarrow> plan_rows all self)"

definition marks_run :: "nat list \<Rightarrow> mask option \<Rightarrow> bool" where
  "marks_run all deleted \<longleftrightarrow> (\<forall>m. deleted = Some m \<longrightarrow> (\<forall>rid \<in> set all. rid < length m))"

lemma collect_loop_eq:
  assumes "\<And>x. x \<in> set rows \<Longrightarrow> keep x = Some (if p x then Some (f x) else None)"
  shows "collect_loop keep rows places rids =
    Some \<lparr> sr_positions = places @ map (fst \<circ> f) (filter p rows), sr_rids = rids @ map (snd \<circ> f) (filter p rows) \<rparr>"
  using assms
  by (induction rows arbitrary: places rids) (auto split: prod.splits)

lemma served_collect_eq:
  assumes "\<And>x. x \<in> set rows \<Longrightarrow> keep x = Some (if p x then Some x else None)"
  shows "\<exists>kept. served_collect rows keep = Some kept \<and> positions_and_rids kept = filter p rows \<and>
    length (sr_positions kept) = length (sr_rids kept) \<and> sr_rids kept = map snd (filter p rows)"
  using collect_loop_eq [of rows keep p id "[]" "[]"] assms
  by (simp add: served_collect_def positions_and_rids_def zip_map_fst_snd)

lemma run_order_eq:
  assumes "plan_of all self"
  shows "\<exists>self'. run_order self = Some (all, self') \<and> plan_of all self' \<and>
    self' = self\<lparr> sp_ids := (sp_ids self)\<lparr> cr_run_order := Some all \<rparr> \<rparr>"
proof -
  have "get_or_try_init (cr_run_order (sp_ids self)) (run_order_row_ids (cr_rids (sp_ids self))) = Some all"
    using assms by (intro get_or_try_init_cached) (simp_all add: plan_of_def)
  then show ?thesis
    using assms by (cases "sp_span self") (simp_all add: run_order_def cr_ordered_def plan_of_def)
qed

lemma run_slots_eq:
  assumes "plan_of all self" "sp_span self = SpanRange a b"
  shows "run_slots self all a b = Some (map (\<lambda>i. all ! (i - fst (sp_run self))) [a..<b])"
proof -
  let ?s = "fst (sp_run self)"
  have rows: "?s \<le> a" "a \<le> b" "b - ?s \<le> length all" using assms by (auto simp: plan_of_def)
  then have "take (b - ?s - (a - ?s)) (drop (a - ?s) all) = map (\<lambda>i. all ! (i - ?s)) [a..<b]"
    by (intro nth_equalityI) (auto simp: add.commute)
  then show ?thesis using rows by (simp add: run_slots_def buf_slice_Some usub_def diff_le_mono)
qed

lemma kept_rows_eq:
  assumes plan: "plan_of all self" and marks: "marks_run all deleted"
    and admit: "\<And>i rid. (i, rid) \<in> set (plan_rows all self) \<Longrightarrow> admit i rid = Some (p i rid)"
  shows "\<exists>rows self'. kept_rows self deleted admit = Some (rows, self') \<and>
    positions_and_rids rows = filter (\<lambda>(i, rid). p i rid) (served all self deleted) \<and>
    sr_rids rows = map snd (filter (\<lambda>(i, rid). p i rid) (served all self deleted)) \<and>
    length (sr_positions rows) = length (sr_rids rows) \<and> plan_of all self' \<and> plan_rows all self' = plan_rows all self"
proof (cases "sp_span self")
  case (SpanKept kept)
  then have "\<exists>rows. served_collect (positions_and_rids kept)
      (\<lambda>(i, rid). map_option (\<lambda>keep. if keep then Some (i, rid) else None) (admit i rid)) = Some rows \<and>
      positions_and_rids rows = filter (\<lambda>(i, rid). p i rid) (positions_and_rids kept) \<and>
      length (sr_positions rows) = length (sr_rids rows) \<and>
      sr_rids rows = map snd (filter (\<lambda>(i, rid). p i rid) (positions_and_rids kept))"
    using admit by (intro served_collect_eq) (auto simp: plan_rows_def)
  then show ?thesis
    using SpanKept plan by (auto simp: kept_rows_def served_def plan_rows_def Let_def split: option.splits)
next
  case (SpanRange a b)
  let ?rids = "map (\<lambda>i. all ! (i - fst (sp_run self))) [a..<b]"
  let ?taken = "\<lambda>(i, rid). map_option (\<lambda>keep. if keep then Some (i, rid) else None) (admit i rid)"
  let ?keep = "case deleted of None \<Rightarrow> ?taken
     | Some m \<Rightarrow> (\<lambda>(i, rid). do { dead \<leftarrow> mask_value m rid; if dead then Some None else ?taken (i, rid) })"
  let ?live = "\<lambda>rid. case deleted of None \<Rightarrow> True | Some m \<Rightarrow> \<not> m ! rid"
  have rows: "plan_rows all self = zip [a..<b] ?rids"
    using SpanRange by (simp add: plan_rows_def zip_map2 zip_same_conv_map)
  have in_run: "rid \<in> set all" if "(i, rid) \<in> set (zip [a..<b] ?rids)" for i rid
  proof -
    have "i - fst (sp_run self) < length all" "rid = all ! (i - fst (sp_run self))"
      using that plan SpanRange by (auto simp: plan_of_def set_zip)
    then show ?thesis by simp
  qed
  have "?keep x = Some (if (case x of (i, rid) \<Rightarrow> ?live rid \<and> p i rid) then Some x else None)"
    if x: "x \<in> set (zip [a..<b] ?rids)" for x
  proof -
    obtain i rid where ir: "x = (i, rid)" by fastforce
    have here: "admit i rid = Some (p i rid)" "rid \<in> set all"
      using admit [of i rid] in_run [of i rid] x unfolding rows ir by blast+
    show ?thesis
    proof (cases deleted)
      case (Some m)
      then have "mask_value m rid = Some (m ! rid)" using marks here(2) by (simp add: marks_run_def mask_value_Some)
      then show ?thesis using Some here(1) ir by simp
    qed (use here(1) ir in simp)
  qed
  then obtain kept where kept: "served_collect (zip [a..<b] ?rids) ?keep = Some kept"
      "positions_and_rids kept = filter (\<lambda>(i, rid). ?live rid \<and> p i rid) (zip [a..<b] ?rids)"
      "length (sr_positions kept) = length (sr_rids kept)"
      "sr_rids kept = map snd (filter (\<lambda>(i, rid). ?live rid \<and> p i rid) (zip [a..<b] ?rids))"
    using served_collect_eq [of "zip [a..<b] ?rids" ?keep "\<lambda>(i, rid). ?live rid \<and> p i rid"] by blast
  have served: "filter (\<lambda>(i, rid). p i rid) (served all self deleted) =
      filter (\<lambda>(i, rid). ?live rid \<and> p i rid) (zip [a..<b] ?rids)"
    using SpanRange unfolding served_def rows
    by (cases deleted) (auto simp: rows intro!: filter_cong)
  obtain self' where self': "run_order self = Some (all, self')" "plan_of all self'"
      "self' = self\<lparr> sp_ids := (sp_ids self)\<lparr> cr_run_order := Some all \<rparr> \<rparr>"
    using run_order_eq [OF plan] by blast
  have "run_slots self' all a b = Some ?rids"
    using run_slots_eq [OF self'(2)] SpanRange self'(3) by simp
  moreover have "plan_rows all self' = plan_rows all self" 
    unfolding self'(3) by (cases "sp_span self") (simp_all add: plan_rows_def)
  ultimately show ?thesis
    using SpanRange self'(1,2) kept unfolding kept_rows_def Let_def served by simp
qed

lemma range_rids_eq:
  assumes plan: "plan_of all self" and part: "fst (sp_run self) \<le> a" "a \<le> b" "b \<le> snd (sp_run self)"
  shows "\<exists>self'. range_rids self a b = Some (map (\<lambda>i. all ! (i - fst (sp_run self))) [a..<b], self') \<and>
    plan_of all self' \<and> plan_rows all self' = plan_rows all self"
proof -
  obtain self' where self': "run_order self = Some (all, self')" "plan_of all self'"
      "self' = self\<lparr> sp_ids := (sp_ids self)\<lparr> cr_run_order := Some all \<rparr> \<rparr>"
    using run_order_eq [OF plan] by blast
  have "plan_of all (self'\<lparr> sp_span := SpanRange a b \<rparr>)"
    using self'(2,3) part by (simp add: plan_of_def)
  then have "run_slots (self'\<lparr> sp_span := SpanRange a b \<rparr>) all a b = Some (map (\<lambda>i. all ! (i - fst (sp_run self))) [a..<b])"
    using run_slots_eq [of all "self'\<lparr> sp_span := SpanRange a b \<rparr>" a b] self'(3) by simp
  then have "run_slots self' all a b = Some (map (\<lambda>i. all ! (i - fst (sp_run self))) [a..<b])"
    by (simp add: run_slots_def)
  moreover have "plan_rows all self' = plan_rows all self"
    unfolding self'(3) by (cases "sp_span self") (simp_all add: plan_rows_def)
  ultimately show ?thesis using self'(1,2) by (simp add: range_rids_def)
qed

lemma run_rid_member:
  assumes "plan_of all self" "sp_span self = SpanRange a b" "a \<le> i" "i < b"
  shows "all ! (i - fst (sp_run self)) \<in> set all"
  using assms by (auto simp: plan_of_def intro!: nth_mem)

lemma live_rids_eq:
  assumes plan: "plan_of all self" and marks: "marks_run all deleted"
  shows "\<exists>self'. live_rids self deleted = Some (map snd (served all self deleted), self') \<and> plan_of all self'"
proof (cases "sp_span self")
  case (SpanKept kept)
  then have "map snd (positions_and_rids kept) = sr_rids kept"
    using plan by (simp add: plan_of_def positions_and_rids_def)
  then show ?thesis
    using SpanKept plan by (auto simp: live_rids_def served_def plan_rows_def split: option.splits)
next
  case (SpanRange a b)
  let ?rids = "map (\<lambda>i. all ! (i - fst (sp_run self))) [a..<b]"
  obtain self' where self': "range_rids self a b = Some (?rids, self')" "plan_of all self'"
    using range_rids_eq [OF plan, of a b] plan SpanRange by (auto simp: plan_of_def)
  show ?thesis
  proof (cases deleted)
    case None
    then show ?thesis using self' SpanRange by (simp add: live_rids_def served_def plan_rows_def comp_def)
  next
    case (Some m)
    have "checked_filter (\<lambda>rid. map_option Not (mask_value m rid)) ?rids = Some (filter (\<lambda>rid. \<not> m ! rid) ?rids)"
      using run_rid_member [OF plan SpanRange] marks Some
      by (intro checked_filter_Some) (auto simp: marks_run_def mask_value_Some)
    then show ?thesis
      using self' SpanRange Some by (simp add: live_rids_def served_def plan_rows_def filter_map comp_def)
  qed
qed

text \<open>A part of the rows of a range that pass a test, as the range from its first to its last.\<close>

lemma filter_slice_range:
  fixes a b :: nat
  assumes "i < j" "j \<le> length (filter P [a..<b])"
  shows "take (j - i) (drop i (filter P [a..<b])) = filter P [filter P [a..<b] ! i..<filter P [a..<b] ! (j - 1) + 1]"
    "a \<le> filter P [a..<b] ! i" "filter P [a..<b] ! i \<le> filter P [a..<b] ! (j - 1)" "filter P [a..<b] ! (j - 1) < b"
proof -
  let ?xs = "filter P [a..<b]"
  have asc: "ascending ?xs" by (intro ascending_filter ascending_upt)
  have ends: "?xs ! i \<in> set ?xs" "?xs ! (j - 1) \<in> set ?xs" by (rule nth_mem; use assms in linarith)+
  then show "a \<le> ?xs ! i" "?xs ! (j - 1) < b" by auto
  have mono: "?xs ! k \<le> ?xs ! l" if "k \<le> l" "l < length ?xs" for k l
    using sorted_nth_mono [of ?xs k l] asc that by (simp add: strict_sorted_iff)
  show "?xs ! i \<le> ?xs ! (j - 1)" using mono [of i "j - 1"] assms by linarith
  have iff: "?xs ! k \<le> ?xs ! l \<longleftrightarrow> k \<le> l" if "k < length ?xs" "l < length ?xs" for k l
    using mono [of k l] ascending_nth_less [OF asc, of l k] that by (cases "k \<le> l") auto
  have slice: "take (j - i) (drop i ?xs) = map ((!) ?xs) [i..<j]"
    using assms by (intro nth_equalityI) auto
  have "set (take (j - i) (drop i ?xs)) = set (filter P [?xs ! i..<?xs ! (j - 1) + 1])"
  proof (intro set_eqI iffI)
    fix x
    assume "x \<in> set (take (j - i) (drop i ?xs))"
    then obtain k where k: "i \<le> k" "k < j" "x = ?xs ! k" unfolding slice by auto
    then have "?xs ! i \<le> x" "x \<le> ?xs ! (j - 1)" using mono [of i k] mono [of k "j - 1"] assms(2) by auto
    moreover have "x \<in> set ?xs" unfolding k(3) by (rule nth_mem) (use k(2) assms(2) in simp)
    ultimately show "x \<in> set (filter P [?xs ! i..<?xs ! (j - 1) + 1])" by (simp del: One_nat_def add: less_Suc_eq_le)
  next
    fix x
    assume x: "x \<in> set (filter P [?xs ! i..<?xs ! (j - 1) + 1])"
    then have "x \<in> set ?xs" using ends by auto
    then obtain k where k: "k < length ?xs" "x = ?xs ! k" by (metis in_set_conv_nth)
    moreover have "?xs ! i \<le> x" "x \<le> ?xs ! (j - 1)" using x by auto
    ultimately have "i \<le> k" "k \<le> j - 1" using iff [of i k] iff [of k "j - 1"] assms by auto
    then show "x \<in> set (take (j - i) (drop i ?xs))" unfolding slice using k assms by auto
  qed
  moreover have "ascending (take (j - i) (drop i ?xs))" "ascending (filter P [?xs ! i..<?xs ! (j - 1) + 1])"
    by (intro ascending_take_drop asc ascending_filter ascending_upt)+
  ultimately show "take (j - i) (drop i ?xs) = filter P [?xs ! i..<?xs ! (j - 1) + 1]"
    by (intro strict_sorted_equal) auto
qed

definition plan_range_ids :: "serve_plan \<Rightarrow> nat \<Rightarrow> nat \<Rightarrow> lazy_ids option" where
  "plan_range_ids self a b = map_option (\<lambda>(rids, self). from_unsorted_ids rids) (range_rids self a b)"

definition narrows_to :: "nat list \<Rightarrow> serve_plan \<Rightarrow> mask option \<Rightarrow> served_live \<Rightarrow> (nat \<times> nat) list \<Rightarrow> bool" where
  "narrows_to all self deleted live rows \<longleftrightarrow>
     (\<exists>span. into_span live (plan_range_ids self) = Some (span, from_unsorted_ids (map snd rows)) \<and>
        plan_of all (with_span span self) \<and> served all (with_span span self) deleted = rows)"

lemma live_range_narrows:
  assumes plan: "plan_of all self" and span: "sp_span self = SpanRange a b" and ij: "i < j" "j \<le> b - a"
  shows "narrows_to all self None (LiveRange (a + i) (a + j)) (take (j - i) (drop i (plan_rows all self)))"
proof -
  have part: "fst (sp_run self) \<le> a + i" "a + i \<le> a + j" "a + j \<le> snd (sp_run self)"
    using plan span ij by (auto simp: plan_of_def)
  have rows: "take (j - i) (drop i (plan_rows all self)) =
      map (\<lambda>k. (k, all ! (k - fst (sp_run self)))) [a + i..<a + j]"
    using ij by (simp add: plan_rows_def span take_map drop_map)
  have "plan_of all (with_span (SpanRange (a + i) (a + j)) self)"
    using plan part by (simp add: plan_of_def with_span_def)
  moreover have "served all (with_span (SpanRange (a + i) (a + j)) self) None = take (j - i) (drop i (plan_rows all self))"
    unfolding rows by (simp add: served_def plan_rows_def with_span_def)
  ultimately show ?thesis
    using range_rids_eq [OF plan part] unfolding narrows_to_def rows
    by (auto simp: plan_range_ids_def comp_def)
qed

lemma live_kept_narrows:
  assumes plan: "plan_of all self" and rows: "length (sr_positions rows) = length (sr_rids rows)"
    and ij: "i \<le> j" "j \<le> length (positions_and_rids rows)"
  shows "\<exists>part. served_slice rows i j = Some part \<and>
    narrows_to all self deleted (LiveKept part) (take (j - i) (drop i (positions_and_rids rows)))"
proof -
  let ?part = "\<lparr> sr_positions = take (j - i) (drop i (sr_positions rows)), sr_rids = take (j - i) (drop i (sr_rids rows)) \<rparr>"
  have len: "j \<le> length (sr_rids rows)" using rows ij(2) by (simp add: positions_and_rids_def)
  have zip: "positions_and_rids ?part = take (j - i) (drop i (positions_and_rids rows))"
    by (simp add: positions_and_rids_def take_zip drop_zip)
  have snd: "map snd (take (j - i) (drop i (positions_and_rids rows))) = sr_rids ?part"
    using rows by (simp add: positions_and_rids_def flip: take_map drop_map)
  have "narrows_to all self deleted (LiveKept ?part) (take (j - i) (drop i (positions_and_rids rows)))"
    using plan rows unfolding narrows_to_def snd
    by (simp add: with_span_def plan_of_def served_def plan_rows_def zip)
  moreover have "served_slice rows i j = Some ?part"
    using ij(1) len rows by (simp add: served_slice_def buf_slice_Some)
  ultimately show ?thesis by blast
qed

lemma live_spanned_narrows:
  assumes plan: "plan_of all self" and span: "sp_span self = SpanRange a b"
    and rows: "positions_and_rids rows = served all self (Some m)" "length (sr_positions rows) = length (sr_rids rows)"
    and ij: "i < j" "j \<le> length (positions_and_rids rows)"
  shows "\<exists>part. served_slice rows i j = Some part \<and>
    narrows_to all self (Some m) (LiveSpanned part) (take (j - i) (drop i (positions_and_rids rows)))"
proof -
  let ?live = "\<lambda>k. \<not> m ! (all ! (k - fst (sp_run self)))" and ?at = "\<lambda>k. (k, all ! (k - fst (sp_run self)))"
  let ?part = "\<lparr> sr_positions = take (j - i) (drop i (sr_positions rows)), sr_rids = take (j - i) (drop i (sr_rids rows)) \<rparr>"
  have pairs: "positions_and_rids rows = map ?at (filter ?live [a..<b])"
    unfolding rows(1) by (simp add: served_def plan_rows_def span filter_map comp_def)
  have pos: "sr_positions rows = filter ?live [a..<b]"
    using arg_cong [OF pairs, of "map fst"] rows(2) by (simp add: positions_and_rids_def comp_def)
  have len: "j \<le> length (filter ?live [a..<b])" "j \<le> length (sr_rids rows)"
    using ij(2) rows(2) pos by (auto simp: pairs)
  note slice = filter_slice_range [OF ij(1) len(1)]
  let ?first = "filter ?live [a..<b] ! i" and ?last = "filter ?live [a..<b] ! (j - 1)"
  have part: "served_slice rows i j = Some ?part"
    using ij(1) len(2) rows(2) by (simp add: served_slice_def buf_slice_Some)
  have "served_len ?part = j - i" using len(2) by (simp add: served_len_def)
  then have ends: "into_span (LiveSpanned ?part) f = Some (SpanRange ?first (?last + 1), from_unsorted_ids (sr_rids ?part))" for f
    using ij(1) len(1) by (simp add: buf_get_def usub_def pos)
  have "plan_of all (with_span (SpanRange ?first (?last + 1)) self)"
    using plan span slice(2-4) by (auto simp: plan_of_def with_span_def)
  moreover have "served all (with_span (SpanRange ?first (?last + 1)) self) (Some m) =
      take (j - i) (drop i (positions_and_rids rows))"
    unfolding pairs using slice(1)
    by (simp add: served_def plan_rows_def with_span_def filter_map comp_def take_map drop_map)
  moreover have "map snd (take (j - i) (drop i (positions_and_rids rows))) = sr_rids ?part"
    using rows(2) by (simp add: positions_and_rids_def flip: take_map drop_map)
  ultimately show ?thesis using part ends by (simp add: narrows_to_def)
qed

lemma plan_live_narrows:
  assumes plan: "plan_of all self" and marks: "marks_run all deleted"
  shows "\<exists>live self'. plan_live self deleted = Some (live, self') \<and> plan_of all self' \<and>
    served_live_len live = length (served all self deleted) \<and>
    (\<forall>i j. i < j \<longrightarrow> j \<le> length (served all self deleted) \<longrightarrow>
       (\<exists>piece. served_live_slice live i j = Some piece \<and>
          narrows_to all self' deleted piece (take (j - i) (drop i (served all self deleted)))))"
proof (cases "sp_span self")
  case (SpanKept kept)
  have rows: "length (sr_positions kept) = length (sr_rids kept)"
      "served all self deleted = positions_and_rids kept"
    using plan SpanKept by (auto simp: plan_of_def served_def plan_rows_def split: option.splits)
  then have "served_len kept = length (positions_and_rids kept)"
    by (simp add: served_len_def positions_and_rids_def)
  moreover have "\<exists>piece. served_live_slice (LiveKept kept) i j = Some piece \<and>
      narrows_to all self deleted piece (take (j - i) (drop i (positions_and_rids kept)))"
    if "i < j" "j \<le> length (positions_and_rids kept)" for i j
    using live_kept_narrows [OF plan rows(1), of i j deleted] that by auto
  ultimately show ?thesis using SpanKept plan rows(2) by (simp add: plan_live_def)
next
  case (SpanRange a b)
  show ?thesis
  proof (cases deleted)
    case None
    have "served all self deleted = plan_rows all self" "length (plan_rows all self) = b - a"
      using None SpanRange by (simp_all add: served_def plan_rows_def)
    then show ?thesis
      using None SpanRange plan live_range_narrows [OF plan SpanRange] by (auto simp: plan_live_def)
  next
    case (Some m)
    obtain rows self' where rows: "kept_rows self deleted (\<lambda>_ _. Some True) = Some (rows, self')"
        "positions_and_rids rows = served all self deleted" "length (sr_positions rows) = length (sr_rids rows)"
        "plan_of all self'" "plan_rows all self' = plan_rows all self"
      using kept_rows_eq [OF plan marks, of "\<lambda>_ _. Some True" "\<lambda>_ _. True"] by auto
    have span: "sp_span self' = SpanRange a b"
      using rows(1) SpanRange
      by (auto simp: kept_rows_def run_order_def cr_ordered_def Let_def split: Option.bind_splits)
    have "served all self' deleted = served all self deleted"
      using rows(5) span SpanRange Some by (simp add: served_def)
    moreover have "served_len rows = length (positions_and_rids rows)"
      using rows(3) by (simp add: served_len_def positions_and_rids_def)
    moreover have "\<exists>piece. served_live_slice (LiveSpanned rows) i j = Some piece \<and>
        narrows_to all self' (Some m) piece (take (j - i) (drop i (positions_and_rids rows)))"
      if "i < j" "j \<le> length (positions_and_rids rows)" for i j
      using live_spanned_narrows [OF rows(4) span, of rows m i j] rows(2,3) calculation(1) Some that by auto
    ultimately show ?thesis
      using Some SpanRange rows by (intro exI [of _ "LiveSpanned rows"] exI [of _ self']) (simp add: plan_live_def)
  qed
qed

text \<open>A served view reads its index's rows in the index's order: its live row ids are those of
  its span less the tombstoned ones, a keep keeps exactly the rows it admits of them, and a window
  or partition of its live rows is served again, by a plan whose rows are exactly that part, with
  the same ids.\<close>

theorem served_view_narrows:
  assumes "plan_of all self" "marks_run all deleted"
    and "\<And>i rid. (i, rid) \<in> set (plan_rows all self) \<Longrightarrow> admit i rid = Some (p i rid)"
  shows "(\<exists>self'. live_rids self deleted = Some (map snd (served all self deleted), self') \<and> plan_of all self') \<and>
    (\<exists>rows self'. kept_rows self deleted admit = Some (rows, self') \<and> plan_of all self' \<and>
       positions_and_rids rows = filter (\<lambda>(i, rid). p i rid) (served all self deleted)) \<and>
    (\<exists>live self'. plan_live self deleted = Some (live, self') \<and> plan_of all self' \<and>
       served_live_len live = length (served all self deleted) \<and>
       (\<forall>i j. i < j \<longrightarrow> j \<le> length (served all self deleted) \<longrightarrow>
          (\<exists>piece. served_live_slice live i j = Some piece \<and>
             narrows_to all self' deleted piece (take (j - i) (drop i (served all self deleted))))))"
proof (intro conjI)
  show "\<exists>rows self'. kept_rows self deleted admit = Some (rows, self') \<and> plan_of all self' \<and>
      positions_and_rids rows = filter (\<lambda>(i, rid). p i rid) (served all self deleted)"
    using kept_rows_eq [where admit = admit and p = p, OF assms] by blast
qed (rule live_rids_eq [OF assms(1,2)], rule plan_live_narrows [OF assms(1,2)])

definition sample_plan :: serve_plan where
  "sample_plan =
     serve_plan_new \<lparr> sd_layout = ResolvedDefault, sd_order = PosgOrder \<rparr> ''index:posg'' (rows_table 9 []) (2, 6)
       (component_run_new (map CodeScalar [7, 1, 4, 0]) False)"

theorem served_view_narrows_witness:
  "\<exists>rows self'. kept_rows sample_plan (Some [False, True, False, False, False, False, False, False])
       (\<lambda>i rid. Some (rid < 5)) = Some (rows, self') \<and>
     positions_and_rids rows = [(4, 4), (5, 0)]"
proof -
  let ?all = "[7, 1, 4, 0]" and ?m = "[False, True, False, False, False, False, False, False]"
  have plan: "plan_of ?all sample_plan"
    by (simp add: plan_of_def sample_plan_def serve_plan_new_def component_run_new_def)
  have marks: "marks_run ?all (Some ?m)" by (simp add: marks_run_def)
  have "served ?all sample_plan (Some ?m) = [(2, 7), (4, 4), (5, 0)]"
    by (simp add: served_def plan_rows_def sample_plan_def serve_plan_new_def upt_rec)
  then show ?thesis
    using served_view_narrows [OF plan marks, of "\<lambda>i rid. Some (rid < 5)" "\<lambda>i rid. rid < 5"] by auto
qed

end
