(* ===== verification/Resolve.thy ===== *)
theory Resolve
  imports Serve
begin

text \<open>
  The resolution of a pattern against the index children of an in-memory store
  (\<open>src/core/src/store/indexes/resolve.rs\<close> and the loop over the indexes of \<open>indexes/mod.rs\<close>): one
  search per key, each in the run of the keys before it, then the run's row ids. The array library
  is the argument \<open>sx\<close>: it resolves an array to a probe, slices a column, and searches one that
  ascends; \<^term>\<open>None\<close> of an operation is a panic or an error.
\<close>

section \<open>Searching a column\<close>

record array_search =
  sx_resolve :: resolver
  sx_slice :: "column \<Rightarrow> nat \<Rightarrow> nat \<Rightarrow> column option"
  sx_search :: "column \<Rightarrow> scalar \<Rightarrow> bool \<Rightarrow> nat option"

definition search_sorted_bounds ::
    "'k kernels_scheme \<Rightarrow> array_search \<Rightarrow> column \<Rightarrow> scalar \<Rightarrow> (nat \<times> nat) option" where
  "search_sorted_bounds fl sx arr s =
     (let searched =
        do {
          lo \<leftarrow> sx_search sx arr s False;
          hi \<leftarrow> sx_search sx arr s True;
          Some (lo, hi)
        }
      in if is_unsigned_int (col_type arr) \<and> \<not> col_nullable arr then
        (case unsigned_value s of
           None \<Rightarrow> searched
         | Some needle \<Rightarrow>
             (case sx_resolve sx arr of
                Some encoded \<Rightarrow> Probe.bounds fl encoded needle
              | None \<Rightarrow>
                  if fits (col_type arr) s then searched
                  else Some (length (col_cells arr), length (col_cells arr))))
      else searched)"

definition scalar_cast :: "dtype \<Rightarrow> scalar \<Rightarrow> scalar option" where
  "scalar_cast ty s = (if fits ty s then Some s else None)"

text \<open>Of a search that returns, \<^term>\<open>None\<close> declines.\<close>

definition probe_run ::
    "'k kernels_scheme \<Rightarrow> array_search \<Rightarrow> index_component \<Rightarrow> string \<Rightarrow> scalar \<Rightarrow> (nat \<times> nat) option \<Rightarrow>
     (nat \<times> nat) option option" where
  "probe_run fl sx self name native inside =
     (case (by_name (ic_rows self) name, unsigned_value native) of
        (Some pr, Some needle) \<Rightarrow>
          map_option Some
            (case inside of
               None \<Rightarrow> Probe.bounds fl pr needle
             | Some (a, b) \<Rightarrow> bounds_in fl pr a b needle)
      | _ \<Rightarrow>
          (let (a, b) = (case inside of None \<Rightarrow> (0, tb_len (ic_rows self)) | Some rows \<Rightarrow> rows)
           in case map_of (tb_columns (ic_rows self)) name of
               None \<Rightarrow> Some None
             | Some col \<Rightarrow>
                 (case scalar_cast (col_type col) native of
                    None \<Rightarrow> Some None
                  | Some s \<Rightarrow>
                      do {
                        run \<leftarrow> sx_slice sx col a b;
                        (lo, hi) \<leftarrow> search_sorted_bounds fl sx run s;
                        Some (Some (a + lo, a + hi))
                      })))"

section \<open>Resolving a probe\<close>

datatype index_resolution =
    Declined | ResolvedEmpty | Resolved lazy_ids resolved_roles "serve_plan option"

datatype keys_probed = KeysDeclined | KeysEmpty | KeysRun "nat \<times> nat"

definition ok :: "'a fallible \<Rightarrow> 'a option" where
  "ok r = (case r of Inl e \<Rightarrow> None | Inr x \<Rightarrow> Some x)"

fun probe_keys ::
    "'k kernels_scheme \<Rightarrow> array_search \<Rightarrow> 'l oxrdf \<Rightarrow> pattern_codes \<Rightarrow> index_component \<Rightarrow>
     (string \<times> 'l term_ref) list \<Rightarrow> (nat \<times> nat) option \<Rightarrow> keys_probed option" where
  "probe_keys fl sx ox codes component [] run = map_option KeysRun run"
| "probe_keys fl sx ox codes component ((name, t) # keys) run =
     do {
       native \<leftarrow> ok (probe_scalar ox codes t);
       (case native of
          None \<Rightarrow> Some KeysEmpty
        | Some native \<Rightarrow>
            do {
              narrowed \<leftarrow> probe_run fl sx component name native run;
              (case narrowed of
                 None \<Rightarrow> Some KeysDeclined
               | Some (a, b) \<Rightarrow>
                   if \<not> a < b then Some KeysEmpty
                   else probe_keys fl sx ox codes component keys (Some (a, b)))
            })
     }"

text \<open>The graph check of a run: none, one, or a graph that no row holds.\<close>

datatype graph_checked = Unchecked | AbsentGraph | CheckWith graph_check

definition check_graph ::
    "'l oxrdf \<Rightarrow> pattern_codes \<Rightarrow> 'l index_probe \<Rightarrow> index_component \<Rightarrow> nat \<times> nat \<Rightarrow> bool \<Rightarrow> graph_checked option" where
  "check_graph ox codes chosen component run windowed =
     (case (ip_graph chosen, ic_graph_zones component) of
        (Some graph, Some zones) \<Rightarrow>
          if ip_rids_ascend chosen \<or> \<not> windowed then
            do {
              native \<leftarrow> ok (probe_scalar ox codes graph);
              (case native of
                 None \<Rightarrow> Some AbsentGraph
               | Some native \<Rightarrow>
                   (case unsigned_value native of
                      Some code \<Rightarrow> map_option CheckWith (graph_check_new component run code zones)
                    | None \<Rightarrow> Some Unchecked))
            }
          else Some Unchecked
      | _ \<Rightarrow> Some Unchecked)"

definition resolve_in_memory ::
    "'k kernels_scheme \<Rightarrow> array_search \<Rightarrow> 'l oxrdf \<Rightarrow> 'l index_probe \<Rightarrow> index_component list \<Rightarrow>
     pattern_codes \<Rightarrow> bool \<Rightarrow> index_resolution option" where
  "resolve_in_memory fl sx ox chosen components codes windowed =
     (case find_component components (ci_name (ip_identity chosen)) of
        None \<Rightarrow> Some Declined
      | Some component \<Rightarrow>
          do {
            probed \<leftarrow> probe_keys fl sx ox codes component (ip_keys chosen) None;
            (case probed of
               KeysDeclined \<Rightarrow> Some Declined
             | KeysEmpty \<Rightarrow> Some ResolvedEmpty
             | KeysRun (a, b) \<Rightarrow>
                 do {
                   rid \<leftarrow> map_of (tb_columns (ic_rows component)) ''rid'';
                   rids \<leftarrow> buf_slice (col_cells rid) a b;
                   checked \<leftarrow> check_graph ox codes chosen component (a, b) windowed;
                   (case checked of
                      AbsentGraph \<Rightarrow> Some ResolvedEmpty
                    | CheckWith check \<Rightarrow>
                        Some (Resolved (CheckedIds (checked_run_new rids (ip_rids_ascend chosen) check))
                          (with_graph (ip_resolves chosen)) None)
                    | Unchecked \<Rightarrow>
                        (let ids = component_run_new rids (ip_rids_ascend chosen)
                         in Some (Resolved (ComponentIds ids) (ip_resolves chosen)
                              (map_option (\<lambda>decode. serve_plan_new decode (ci_name (ic_identity component))
                                 (ic_rows component) (a, b) ids) (ip_serve chosen)))))
                 })
          })"

fun resolve_indexes_in_memory ::
    "'k kernels_scheme \<Rightarrow> array_search \<Rightarrow> 'l oxrdf \<Rightarrow> index_type list \<Rightarrow> index_component list \<Rightarrow>
     resolved_layout \<Rightarrow> 'l quad_pattern \<Rightarrow> pattern_codes \<Rightarrow> bool \<Rightarrow> index_resolution option" where
  "resolve_indexes_in_memory fl sx ox [] components layout p codes windowed = Some Declined"
| "resolve_indexes_in_memory fl sx ox (index # indexes) components layout p codes windowed =
     (case index_choose index p layout of
        None \<Rightarrow> resolve_indexes_in_memory fl sx ox indexes components layout p codes windowed
      | Some chosen \<Rightarrow>
          do {
            resolved \<leftarrow> resolve_in_memory fl sx ox chosen components codes windowed;
            (case resolved of
               Declined \<Rightarrow> resolve_indexes_in_memory fl sx ox indexes components layout p codes windowed
             | _ \<Rightarrow> Some resolved)
          })"

section \<open>What the array library promises\<close>

definition lawful_search :: "'k kernels_scheme \<Rightarrow> array_search \<Rightarrow> bool" where
  "lawful_search fl sx \<longleftrightarrow> lawful_resolver fl (sx_resolve sx) \<and>
     (\<forall>col a b. a \<le> b \<longrightarrow> b \<le> length (col_cells col) \<longrightarrow>
        (\<exists>run. sx_slice sx col a b = Some run \<and> col_type run = col_type col \<and>
           col_nullable run = col_nullable col \<and> col_cells run = take (b - a) (drop a (col_cells col)))) \<and>
     (\<forall>col s right. list_all (fits (col_type col)) (col_cells col) \<longrightarrow> fits (col_type col) s \<longrightarrow>
        sorted (col_cells col) \<longrightarrow>
        sx_search sx col s right = Some (length (takeWhile (\<lambda>c. if right then c \<le> s else c < s) (col_cells col))))"

text \<open>The rows of a sorted slice that hold a scalar.\<close>

definition run_of :: "scalar list \<Rightarrow> nat \<Rightarrow> nat \<Rightarrow> scalar \<Rightarrow> nat \<times> nat" where
  "run_of cells a b s =
     (a + length (takeWhile (\<lambda>c. c < s) (take (b - a) (drop a cells))),
      a + length (takeWhile (\<lambda>c. c \<le> s) (take (b - a) (drop a cells))))"

lemma takeWhile_sorted_iff:
  fixes xs :: "'a :: linorder list"
  assumes "sorted xs" "i < length xs"
  shows "xs ! i < s \<longleftrightarrow> i < length (takeWhile (\<lambda>c. c < s) xs)"
    "xs ! i \<le> s \<longleftrightarrow> i < length (takeWhile (\<lambda>c. c \<le> s) xs)"
proof -
  have iff: "P (xs ! i) \<longleftrightarrow> i < length (takeWhile P xs)" if down: "\<And>x y. x \<le> y \<Longrightarrow> P y \<Longrightarrow> P x" for P
  proof
    assume "P (xs ! i)"
    show "i < length (takeWhile P xs)"
    proof (rule ccontr)
      let ?k = "length (takeWhile P xs)"
      assume "\<not> i < ?k"
      then have "?k \<le> i" by simp
      then have "P (xs ! ?k)"
        using \<open>P (xs ! i)\<close> down [of "xs ! ?k" "xs ! i"] assms by (simp add: sorted_nth_mono)
      then show False using nth_length_takeWhile [of P xs] \<open>?k \<le> i\<close> assms(2) by simp
    qed
  next
    assume "i < length (takeWhile P xs)"
    then show "P (xs ! i)" by (metis nth_mem set_takeWhileD takeWhile_nth)
  qed
  show "xs ! i < s \<longleftrightarrow> i < length (takeWhile (\<lambda>c. c < s) xs)" by (rule iff) auto
  show "xs ! i \<le> s \<longleftrightarrow> i < length (takeWhile (\<lambda>c. c \<le> s) xs)" by (rule iff) auto
qed

lemma run_of_rows:
  assumes "sorted (take (b - a) (drop a cells))" "b \<le> length cells" "run_of cells a b s = (lo, hi)"
  shows "a \<le> lo" "hi \<le> max a b" "\<forall>r. lo \<le> r \<and> r < hi \<longleftrightarrow> a \<le> r \<and> r < b \<and> cells ! r = s"
proof -
  let ?w = "take (b - a) (drop a cells)"
  have lo: "lo = a + length (takeWhile (\<lambda>c. c < s) ?w)" and hi: "hi = a + length (takeWhile (\<lambda>c. c \<le> s) ?w)"
    using assms(3) by (simp_all add: run_of_def)
  have len: "length ?w = b - a" using assms(2) by auto
  show "a \<le> lo" by (simp add: lo)
  have up: "length (takeWhile P ?w) \<le> b - a" for P
    using length_takeWhile_le [of P ?w] len by simp
  show "hi \<le> max a b" using up [of "\<lambda>c. c \<le> s"] unfolding hi by linarith
  show "\<forall>r. lo \<le> r \<and> r < hi \<longleftrightarrow> a \<le> r \<and> r < b \<and> cells ! r = s"
  proof
    fix r
    show "lo \<le> r \<and> r < hi \<longleftrightarrow> a \<le> r \<and> r < b \<and> cells ! r = s"
    proof (cases "a \<le> r \<and> r < b")
      case True
      then have "r - a < b - a" by (simp add: diff_less_mono)
      then have r: "r - a < length ?w" "?w ! (r - a) = cells ! r" using True len assms(2) by simp_all
      have "?w ! (r - a) = s \<longleftrightarrow> \<not> ?w ! (r - a) < s \<and> ?w ! (r - a) \<le> s" by auto
      then show ?thesis
        using takeWhile_sorted_iff [OF assms(1) r(1), of s] True r(2) unfolding lo hi by auto
    next
      case False
      then show ?thesis using up [of "\<lambda>c. c \<le> s"] lo hi by auto
    qed
  qed
qed

text \<open>A component's column, searched in a slice of it that ascends.\<close>

lemma code_takeWhile:
  "length (takeWhile (\<lambda>c. c < CodeScalar x) (map CodeScalar xs)) = length (takeWhile (\<lambda>v. v < x) xs)"
  "length (takeWhile (\<lambda>c. c \<le> CodeScalar x) (map CodeScalar xs)) = length (takeWhile (\<lambda>v. v \<le> x) xs)"
  by (simp_all add: takeWhile_map comp_def)

lemma sorted_codes: "sorted (map CodeScalar xs) \<longleftrightarrow> sorted xs"
  by (simp add: sorted_map)

lemma unsigned_value_Some: "unsigned_value s = Some code \<longleftrightarrow> s = CodeScalar code"
  by (cases s) auto

lemma encoded_bounds:
  assumes "lawful fl" "probe_for fl pr col" "sorted (col_cells col)"
  shows "Probe.bounds fl pr x = Some (run_of (col_cells col) 0 (length (col_cells col)) (CodeScalar x))"
proof -
  have "sorted (decode fl pr)" "wf_node fl pr" "col_cells col = map CodeScalar (decode fl pr)"
    using assms(2,3) by (simp_all add: probe_for_def sorted_codes)
  then show ?thesis using bounds_Some [OF assms(1)] by (simp add: run_of_def code_takeWhile)
qed

lemma search_sorted_bounds_run:
  assumes fl: "lawful fl" and sx: "lawful_search fl sx"
    and col: "list_all (fits (col_type col)) (col_cells col)" "sorted (col_cells col)" "fits (col_type col) s"
  shows "search_sorted_bounds fl sx col s = Some (run_of (col_cells col) 0 (length (col_cells col)) s)"
proof -
  have searched: "sx_search sx col s right =
      Some (length (takeWhile (\<lambda>c. if right then c \<le> s else c < s) (col_cells col)))" for right
    using sx col unfolding lawful_search_def by blast
  have resolved: "probe_for fl pr col" if "sx_resolve sx col = Some pr" for pr
    using sx that unfolding lawful_search_def lawful_resolver_def by blast
  show ?thesis
    using encoded_bounds [OF fl resolved col(2)] col(3)
    by (auto simp: search_sorted_bounds_def searched run_of_def unsigned_value_Some Let_def split: option.splits)
qed

lemma probe_run_runs:
  assumes fl: "lawful fl" and sx: "lawful_search fl sx"
    and wf: "wf_table fl (ic_rows part)" and col: "map_of (tb_columns (ic_rows part)) name = Some col"
      "list_all (fits (col_type col)) (col_cells col)" "fits (col_type col) s"
    and rows: "a \<le> b" "b \<le> length (col_cells col)" "length (col_cells col) = tb_len (ic_rows part)"
      "inside = Some (a, b) \<or> inside = None \<and> a = 0 \<and> b = length (col_cells col)"
    and sorted: "sorted (take (b - a) (drop a (col_cells col)))"
  shows "probe_run fl sx part name s inside = Some (Some (run_of (col_cells col) a b s))"
proof (cases "\<exists>pr needle. by_name (ic_rows part) name = Some pr \<and> unsigned_value s = Some needle")
  case True
  then obtain pr x where pr: "by_name (ic_rows part) name = Some pr" "s = CodeScalar x"
    by (auto simp: unsigned_value_Some)
  have probe: "probe_for fl pr col" using wf pr(1) col(1) by (fastforce simp: wf_table_def)
  then have cells: "wf_node fl pr" "col_cells col = map CodeScalar (decode fl pr)" by (simp_all add: probe_for_def)
  have slice: "take (b - a) (drop a (col_cells col)) = map CodeScalar (take (b - a) (drop a (decode fl pr)))"
    by (simp add: cells(2) take_map drop_map)
  have "sorted (take (b - a) (drop a (decode fl pr)))" using sorted unfolding slice by (simp only: sorted_codes)
  then have inside: "bounds_in fl pr a b x = Some (run_of (col_cells col) a b s)"
    using bounds_in_slice [OF fl cells(1)] rows(2)
    unfolding run_of_def slice pr(2) code_takeWhile by (simp add: cells(2) Let_def)
  show ?thesis
  proof (cases inside)
    case None
    then have whole: "a = 0" "b = length (col_cells col)" using rows(4) by simp_all
    then have "sorted (col_cells col)" using sorted by simp
    then show ?thesis
      using None encoded_bounds [OF fl probe] whole pr by (simp add: probe_run_def)
  next
    case (Some rows')
    then show ?thesis using rows(4) inside pr by (simp add: probe_run_def)
  qed
next
  case False
  obtain run where run: "sx_slice sx col a b = Some run" "col_type run = col_type col"
      "col_cells run = take (b - a) (drop a (col_cells col))"
    using sx rows(1,2) unfolding lawful_search_def by blast
  have "list_all (fits (col_type run)) (col_cells run)"
    using col(2) by (auto simp: run list_all_iff dest!: in_set_takeD in_set_dropD)
  then have bounds: "search_sorted_bounds fl sx run s = Some (run_of (col_cells run) 0 (length (col_cells run)) s)"
    using search_sorted_bounds_run [OF fl sx] sorted col(3) run by simp
  have "run_of (col_cells col) a b s =
      (case run_of (col_cells run) 0 (length (col_cells run)) s of (lo, hi) \<Rightarrow> (a + lo, a + hi))"
    using rows(1,2) by (simp add: run_of_def run(3) min_absorb2 diff_le_mono)
  moreover have "(case inside of None \<Rightarrow> (0, tb_len (ic_rows part)) | Some rows \<Rightarrow> rows) = (a, b)"
    using rows by auto
  ultimately show ?thesis
    using False bounds run(1) col
    by (auto simp: probe_run_def scalar_cast_def run_of_def Let_def split: option.splits)
qed

section \<open>The keys of a child\<close>

definition component_of :: "'k kernels_scheme \<Rightarrow> index_input \<Rightarrow> index_component \<Rightarrow> nat list \<Rightarrow> bool" where
  "component_of fl input part perm \<longleftrightarrow>
     component_ok input part perm \<and> wf_table fl (ic_rows part) \<and>
     ic_identity part \<in> set (concat (map component_identities ALL_INDEX_TYPES)) \<and>
     (\<forall>zs. ic_graph_zones part = Some zs \<longrightarrow>
        (\<exists>codes. input = CodeInput codes \<and> wf_table fl ((ic_rows part)\<lparr> tb_component := True \<rparr>) \<and>
           describes zs (map ((!) (codes_g codes)) perm)))"

text \<open>A term's probe is exact: it is absent where no quad holds it, else the scalar of the cells
  of the quads that do.\<close>

definition probes_exactly ::
    "'l oxrdf \<Rightarrow> pattern_codes \<Rightarrow> index_input \<Rightarrow> 'l rdf_quad list \<Rightarrow> 'l term_ref \<Rightarrow> bool" where
  "probes_exactly ox codes input qs t \<longleftrightarrow>
     (case probe_scalar ox codes t of
        Inl e \<Rightarrow> False
      | Inr None \<Rightarrow> \<forall>q \<in> set qs. \<not> ref_holds q t
      | Inr (Some s) \<Rightarrow> fits (input_type input) s \<and>
          (\<forall>i < length qs. input_cells input (role t) ! i = s \<longleftrightarrow> ref_holds (qs ! i) t))"

lemma lex_nth:
  fixes xs ys :: "'a :: linorder list"
  assumes "xs \<le> ys" "take j xs = take j ys" "j < length xs" "j < length ys"
  shows "xs ! j \<le> ys ! j"
  using assms
proof (induction j arbitrary: xs ys)
  case 0
  then show ?case by (cases xs; cases ys) auto
next
  case (Suc j)
  then show ?case by (cases xs; cases ys) auto
qed

lemma key_at_simps [simp]:
  "length (key_at cells keys i) = length keys"
  "k < length keys \<Longrightarrow> key_at cells keys i ! k = cells (snd (keys ! k)) ! i"
  by (simp_all add: key_at_def case_prod_unfold)

lemma prefix_run_sorted:
  assumes sorted: "sorted (map (key_at cells cks) perm)" and k: "k < length cks" and b: "b \<le> length perm"
    and run: "\<forall>r. a \<le> r \<and> r < b \<longrightarrow> take k (key_at cells cks (perm ! r)) = ss"
  shows "sorted (take (b - a) (drop a (map ((!) (cells (snd (cks ! k)))) perm)))"
proof (unfold sorted_iff_nth_mono, intro allI impI)
  fix i j
  assume ij: "i \<le> j" "j < length (take (b - a) (drop a (map ((!) (cells (snd (cks ! k)))) perm)))"
  then have j: "a + j < b" "a + i < b" using b by auto
  have "key_at cells cks (perm ! (a + i)) \<le> key_at cells cks (perm ! (a + j))"
    using sorted_nth_mono [OF sorted, of "a + i" "a + j"] ij(1) j b by simp
  moreover have "take k (key_at cells cks (perm ! (a + i))) = take k (key_at cells cks (perm ! (a + j)))"
    using run j by simp
  ultimately have "key_at cells cks (perm ! (a + i)) ! k \<le> key_at cells cks (perm ! (a + j)) ! k"
    using lex_nth k by (metis key_at_simps(1))
  then show "take (b - a) (drop a (map ((!) (cells (snd (cks ! k)))) perm)) ! i \<le>
      take (b - a) (drop a (map ((!) (cells (snd (cks ! k)))) perm)) ! j"
    using ij j k b by (simp add: less_diff_conv2)
qed

lemma probe_keys_runs:
  assumes fl: "lawful fl" and sx: "lawful_search fl sx" and wf: "wf_table fl (ic_rows part)"
    and child: "child_of ty cells n cks ties graphs perm (ic_rows part)"
    and fit: "\<forall>c. length (cells c) = n \<and> list_all (fits ty) (cells c)"
    and exact: "\<forall>(name, t) \<in> set keys. case probe_scalar ox codes t of
        Inl e \<Rightarrow> False
      | Inr None \<Rightarrow> \<forall>i < n. \<not> held t i
      | Inr (Some s) \<Rightarrow> fits ty s \<and> (\<forall>i < n. cells (role t) ! i = s \<longleftrightarrow> held t i)"
    and cks: "cks = dks @ map (\<lambda>(name, t). (name, role t)) keys @ others"
    and run: "\<forall>r < n. a \<le> r \<and> r < b \<longleftrightarrow> take (length dks) (key_at cells cks (perm ! r)) = ss"
      "a \<le> b" "b \<le> n" "length ss = length dks"
      "inside = Some (a, b) \<or> inside = None \<and> a = 0 \<and> b = n \<and> keys \<noteq> []"
  shows "\<exists>probed. probe_keys fl sx ox codes part keys inside = Some probed \<and>
    (case probed of
       KeysDeclined \<Rightarrow> False
     | KeysEmpty \<Rightarrow> \<forall>r < n. \<not> (a \<le> r \<and> r < b \<and> (\<forall>(name, t) \<in> set keys. held t (perm ! r)))
     | KeysRun (lo, hi) \<Rightarrow> lo \<le> hi \<and> hi \<le> n \<and>
         (\<forall>r < n. lo \<le> r \<and> r < hi \<longleftrightarrow> a \<le> r \<and> r < b \<and> (\<forall>(name, t) \<in> set keys. held t (perm ! r))))"
  using exact cks run
proof (induction keys arbitrary: dks ss inside a b)
  case Nil
  then show ?case by auto
next
  case (Cons key keys)
  obtain name t where key: "key = (name, t)" by fastforce
  let ?k = "length dks" and ?c = "role t"
  have perm: "length perm = n" "\<And>r. r < n \<Longrightarrow> perm ! r < n"
    using child perm_facts [of perm n] nth_mem [of _ perm] by (auto simp: child_of_def)
  have at: "cks ! ?k = (name, ?c)" "?k < length cks" using Cons.prems(2) key by simp_all
  obtain native where native: "probe_scalar ox codes t = Inr native"
    using Cons.prems(1) key by (auto split: sum.splits)
  show ?case
  proof (cases native)
    case None
    then have "\<forall>i < n. \<not> held t i" using Cons.prems(1) key native by simp
    then show ?thesis using None native key perm(2) by (auto simp: ok_def)
  next
    case (Some s)
    have s: "fits ty s" "\<forall>i < n. cells ?c ! i = s \<longleftrightarrow> held t i"
      using Cons.prems(1) key native Some by simp_all
    have "(name, ?c) \<in> set cks" using Cons.prems(2) key by simp
    then obtain col where col: "map_of (tb_columns (ic_rows part)) name = Some col" "col_type col = ty"
        "col_cells col = map ((!) (cells ?c)) perm"
      using child by (fastforce simp: child_of_def typed_column_def)
    have fitting: "list_all (fits (col_type col)) (col_cells col)"
    proof -
      have "fits ty (cells ?c ! i)" if "i < n" for i
        using fit [rule_format, of ?c] that by (simp add: list_all_length)
      then show ?thesis using perm by (auto simp: col list_all_iff in_set_conv_nth)
    qed
    have len: "length (col_cells col) = tb_len (ic_rows part)" "length (col_cells col) = n"
      using child perm(1) by (simp_all add: col child_of_def)
    have sorted: "sorted (take (b - a) (drop a (col_cells col)))"
    proof -
      have "\<forall>r. a \<le> r \<and> r < b \<longrightarrow> take ?k (key_at cells cks (perm ! r)) = ss"
        using Cons.prems(3,5) by (meson order_less_le_trans)
      moreover have "sorted (map (key_at cells cks) perm)" using child by (simp add: child_of_def)
      ultimately show ?thesis
        using prefix_run_sorted [of cells cks perm ?k b a ss] at Cons.prems(5) perm(1) by (simp add: col)
    qed
    obtain lo hi where run: "run_of (col_cells col) a b s = (lo, hi)" by fastforce
    have probed: "probe_run fl sx part name s inside = Some (Some (lo, hi))"
      using probe_run_runs [OF fl sx wf col(1) fitting _ Cons.prems(4) _ len(1) _ sorted] s(1) Cons.prems(5,7) run len(2)
      by (simp add: col(2))
    have rows: "a \<le> lo" "hi \<le> b" "\<forall>r. lo \<le> r \<and> r < hi \<longleftrightarrow> a \<le> r \<and> r < b \<and> col_cells col ! r = s"
      using run_of_rows [OF sorted _ run] Cons.prems(4,5) len(2) by auto
    have here: "lo \<le> r \<and> r < hi \<longleftrightarrow> a \<le> r \<and> r < b \<and> held t (perm ! r)" if "r < n" for r
      using rows(3) s(2) perm that by (auto simp: col(3))
    show ?thesis
    proof (cases "lo < hi")
      case False
      then have "\<forall>r < n. \<not> (a \<le> r \<and> r < b \<and> held t (perm ! r))" using here by (meson order_le_less_trans)
      then show ?thesis using False native Some probed key by (auto simp: ok_def)
    next
      case True
      have step: "\<forall>r < n. lo \<le> r \<and> r < hi \<longleftrightarrow>
          take (length (dks @ [(name, ?c)])) (key_at cells cks (perm ! r)) = ss @ [s]"
      proof (intro allI impI)
        fix r
        assume r: "r < n"
        have "take (Suc ?k) (key_at cells cks (perm ! r)) =
            take ?k (key_at cells cks (perm ! r)) @ [cells ?c ! (perm ! r)]"
          using at by (simp add: take_Suc_conv_app_nth)
        then show "lo \<le> r \<and> r < hi \<longleftrightarrow>
            take (length (dks @ [(name, ?c)])) (key_at cells cks (perm ! r)) = ss @ [s]"
          using rows(3) Cons.prems(3) r perm(1) by (auto simp: col(3))
      qed
      obtain probed where "probe_keys fl sx ox codes part keys (Some (lo, hi)) = Some probed"
          "case probed of
             KeysDeclined \<Rightarrow> False
           | KeysEmpty \<Rightarrow> \<forall>r < n. \<not> (lo \<le> r \<and> r < hi \<and> (\<forall>(name, t) \<in> set keys. held t (perm ! r)))
           | KeysRun (lo', hi') \<Rightarrow> lo' \<le> hi' \<and> hi' \<le> n \<and>
               (\<forall>r < n. lo' \<le> r \<and> r < hi' \<longleftrightarrow> lo \<le> r \<and> r < hi \<and> (\<forall>(name, t) \<in> set keys. held t (perm ! r)))"
        using Cons.IH [of "dks @ [(name, ?c)]" lo hi "ss @ [s]" "Some (lo, hi)"] Cons.prems(1,2,5,6) key step True rows(2)
        by auto
      then show ?thesis
        using True native Some probed key here by (auto simp: ok_def split: keys_probed.splits)
    qed
  qed
qed

section \<open>What an index chooses\<close>

definition keep_roles :: "resolved_roles \<Rightarrow> 'l quad_pattern \<Rightarrow> 'l quad_pattern" where
  "keep_roles self p =
     \<lparr> pat_subject = None,
        pat_predicate = (if rr_predicate self then pat_predicate p else None),
        pat_object = (if rr_object self then pat_object p else None),
        pat_graph = (if rr_graph self then pat_graph p else None) \<rparr>"

lemma keep_and_clear:
  "quad_matches p q \<longleftrightarrow> quad_matches (keep_roles self p) q \<and> quad_matches (clear_roles self p) q"
  by (auto simp: quad_matches_def keep_roles_def clear_roles_def)

lemma choose_facts:
  assumes "index_choose index p layout = Some chosen"
  shows "ip_keys chosen \<noteq> []"
    "\<exists>others. child_keys (ci_name (ip_identity chosen)) = map (\<lambda>(name, t). (name, role t)) (ip_keys chosen) @ others \<and>
      (ci_index (ip_identity chosen) = SecondaryByReference \<longrightarrow> others = [])"
    "snd ` set (ip_keys chosen) \<subseteq> set (bound_roles p)"
    "(\<forall>(name, t) \<in> set (ip_keys chosen). ref_holds q t) \<longleftrightarrow> quad_matches (keep_roles (ip_resolves chosen) p) q"
    "ip_graph chosen = map_option RefGraph (pat_graph p)" "\<not> rr_graph (ip_resolves chosen)"
    "ip_identity chosen \<in> set (component_identities index)"
    "ip_rids_ascend chosen \<longleftrightarrow> index = SecondaryByReference"
  using assms
  by (cases index; cases "pat_predicate p"; cases "pat_object p"; cases "pat_graph p";
      auto simp: index_choose_def copy_choose_def ref_choose_def ref_probe_def keep_roles_def quad_matches_def
        key_column_def copy_child_columns_def child_keys_def bound_roles_def roles_predicate_def
        roles_object_def roles_predicate_object_def split: if_splits)+

section \<open>Resolutions are exact\<close>

lemma input_facts:
  assumes "wf_input input"
  shows "\<forall>c. length (input_cells input c) = input_rows input \<and> list_all (fits (input_type input)) (input_cells input c)"
    "input_rows input \<le> usize_max"
  using assms unfolding wf_input_def by blast+

text \<open>The check of a run in a component that keeps its graphs' zone map.\<close>

lemma graph_check_of:
  assumes fl: "lawful_compute fl" and wf: "wf_input input" and part: "component_of fl input part perm"
    and zones: "ic_graph_zones part = Some zs" and run: "a \<le> b" "b \<le> input_rows input"
    and code: "fits (input_type input) (CodeScalar code)"
  shows "\<exists>check. graph_check_new part (a, b) code zs = Some check \<and>
    check_of fl a (take (b - a) (drop a perm)) check \<and>
    (\<forall>row < input_rows input. passes (gc_compare check) row \<longleftrightarrow> input_cells input ColG ! (perm ! row) = CodeScalar code)"
proof -
  obtain codes where codes: "input = CodeInput codes" "wf_table fl ((ic_rows part)\<lparr> tb_component := True \<rparr>)"
      "describes zs (map ((!) (codes_g codes)) perm)"
    using part zones unfolding component_of_def by blast
  have "has_graphs index input" for index using codes(1) by (cases index) simp_all
  then have child: "mset perm = mset [0..<input_rows input]" "tb_len (ic_rows part) = input_rows input"
      "typed_column (ic_rows part) ''g'' (UInt 8) (map ((!) (input_cells input ColG)) perm)"
    using part codes(1) by (simp_all add: component_of_def component_ok_def child_of_def del: input_cells.simps)
  have perm: "set perm = {0..<input_rows input}" "length perm = input_rows input" using perm_facts [OF child(1)] by blast+
  have len: "length (codes_g codes) = input_rows input"
    using input_facts(1) [OF wf, rule_format, of ColG] codes(1) by simp
  let ?codes = "map ((!) (codes_g codes)) perm"
  have cells: "map ((!) (input_cells input ColG)) perm = map CodeScalar ?codes"
    using codes(1) len perm(1) by (auto simp: map_eq_conv)
  obtain col where col: "map_of (tb_columns (ic_rows part)) ''g'' = Some col" "col_type col = UInt 8"
      "col_cells col = map CodeScalar ?codes"
    using child(3) unfolding typed_column_def cells by blast
  have fits: "\<forall>c \<in> set (col_cells col). fits (UInt 8) c"
  proof -
    have "\<forall>c \<in> set (input_cells input ColG). fits (UInt 8) c"
      using input_facts(1) [OF wf] codes(1) by (simp add: list_all_iff del: input_cells.simps)
    then show ?thesis
      using perm(1) input_facts(1) [OF wf] unfolding col(3) cells [symmetric]
      by (auto simp del: input_cells.simps)
  qed
  let ?cs = "[\<lparr> bit_of = 0, code_of = code, zones_of = zs \<rparr>]"
  define zset where "zset = \<lparr> checks = ?cs, unzoned = 0, only_bounds = False \<rparr>"
  have new: "zone_set_new ?cs 0 = Some zset" by (simp add: zone_set_new_def zset_def)
  let ?check = "\<lparr> gc_rows = (a, b), gc_table = ic_rows part, gc_selection = RowRange a b,
      gc_eqs = [(''g'', CodeScalar code)], gc_classes = Zoned zset \<rparr>"
  let ?t = "(ic_rows part)\<lparr> tb_component := True \<rparr>" and ?eqs = "[(''g'', CodeScalar code)]"
  have speaks: "speaks_for ?t ?eqs (hd ?cs) ?codes"
    using col codes(3) by (simp add: speaks_for_def)
  have rows: "row_count zs = tb_len ?t"
    using codes(3) child(2) perm(2) by (simp add: describes_def)
  have "unzoned_bits (length ?eqs) ?cs = 0"
    by (rule bit_eqI) (subst bit_unzoned_bits; auto)
  then have "sound_zones ?t ?eqs zset"
    unfolding sound_zones_def
    using new speaks rows by (intro exI [of _ zset] exI [of _ ?cs]) auto
  then have residual: "wf_residual fl (gc_compare ?check)"
    using fl codes(2) run child(2) code col fits
    by (simp add: wf_residual_def gc_compare_def rc_len_def wf_eqs_def codes(1))
  have "passes (gc_compare ?check) row \<longleftrightarrow> input_cells input ColG ! (perm ! row) = CodeScalar code"
    if row: "row < input_rows input" for row
  proof -
    have "map ((!) (input_cells input ColG)) perm ! row = map CodeScalar ?codes ! row" by (simp only: cells)
    then show ?thesis
      using row perm(2) col by (simp add: passes_def gc_compare_def holds_def eq_row_def del: input_cells.simps)
  qed
  moreover have "check_of fl a (take (b - a) (drop a perm)) ?check"
    using residual run child(2) perm(2) by (simp add: check_of_def min_absorb2 diff_le_mono)
  ultimately show ?thesis using new by (intro exI [of _ ?check]) (simp add: graph_check_new_def)
qed

text \<open>What a resolution says: the ids are the rows the resolved roles hold of, so with the other
  roles checked they are the rows the pattern matches.\<close>

definition resolves_exactly ::
    "'k compute_scheme \<Rightarrow> 'l rdf_quad list \<Rightarrow> 'l quad_pattern \<Rightarrow> index_resolution \<Rightarrow> bool" where
  "resolves_exactly fl qs p res \<longleftrightarrow>
     (case res of
        Declined \<Rightarrow> True
      | ResolvedEmpty \<Rightarrow> \<forall>q \<in> set qs. \<not> quad_matches p q
      | Resolved row_ids roles serve \<Rightarrow>
          \<exists>ids. lazy_of fl ids row_ids \<and>
            (\<forall>i. i \<in> set ids \<longleftrightarrow> i < length qs \<and> quad_matches (keep_roles roles p) (qs ! i)))"

lemma resolves_exactly_empty: "resolves_exactly fl qs p ResolvedEmpty \<longleftrightarrow> (\<forall>q \<in> set qs. \<not> quad_matches p q)"
  by (simp add: resolves_exactly_def)

lemma resolves_exactly_rows:
  assumes "resolves_exactly fl qs p (Resolved row_ids roles serve)"
  shows "\<exists>ids. lazy_of fl ids row_ids \<and>
    (\<forall>i < length qs. quad_matches p (qs ! i) \<longleftrightarrow> i \<in> set ids \<and> quad_matches (clear_roles roles p) (qs ! i))"
  using assms keep_and_clear [of p _ roles] by (fastforce simp: resolves_exactly_def)

text \<open>The ids of a run.\<close>

lemma run_ids:
  assumes perm: "mset perm = mset [0..<n]" "n \<le> usize_max" and run: "a \<le> b" "b \<le> n"
  shows "unique_ids (take (b - a) (drop a perm))"
    "set (take (b - a) (drop a perm)) = (!) perm ` {a..<b}" "length (take (b - a) (drop a perm)) = b - a"
    "i \<in> set (take (b - a) (drop a perm)) \<Longrightarrow> i < n"
proof -
  note facts = perm_facts [OF perm(1)]
  show len: "length (take (b - a) (drop a perm)) = b - a" using facts(2) run by simp
  show "set (take (b - a) (drop a perm)) = (!) perm ` {a..<b}"
    using slice_nth [OF run(1), of perm] facts(2) run(2) by simp
  show less: "i < n" if "i \<in> set (take (b - a) (drop a perm))" for i
    using in_take_drop [OF that] facts(1) by simp
  show "unique_ids (take (b - a) (drop a perm))"
    unfolding unique_ids_def
  proof (intro conjI ballI)
    show "distinct (take (b - a) (drop a perm))" using facts(3) by simp
    show "i \<le> usize_max" if "i \<in> set (take (b - a) (drop a perm))" for i
      using less [OF that] perm(2) by linarith
    show "length (take (b - a) (drop a perm)) \<le> usize_max" unfolding len using run perm(2) by linarith
  qed
qed

lemma run_ids_sorted:
  assumes sorted: "sorted (map (\<lambda>i. (key_at cells cks i, i)) perm)" and len: "b \<le> length perm"
    and same: "\<And>r. a \<le> r \<Longrightarrow> r < b \<Longrightarrow> key_at cells cks (perm ! r) = key"
  shows "sorted (take (b - a) (drop a perm))"
proof (unfold sorted_iff_nth_mono, intro allI impI)
  fix i j
  assume ij: "i \<le> j" "j < length (take (b - a) (drop a perm))"
  then have j: "a + j < b" by auto
  have "map (\<lambda>i. (key_at cells cks i, i)) perm ! (a + i) \<le> map (\<lambda>i. (key_at cells cks i, i)) perm ! (a + j)"
    using sorted_nth_mono [OF sorted, of "a + i" "a + j"] ij(1) j len by simp
  then have "perm ! (a + i) \<le> perm ! (a + j)"
    using same [of "a + i"] same [of "a + j"] ij(1) j len by (simp add: less_eq_prod_def)
  then show "take (b - a) (drop a perm) ! i \<le> take (b - a) (drop a perm) ! j"
    using ij j len by simp
qed

lemma checked_ids_set:
  assumes "a \<le> b" "b \<le> length perm"
  shows "set (checked_ids a (take (b - a) (drop a perm)) check) =
    (!) perm ` {r. a \<le> r \<and> r < b \<and> passes (gc_compare check) r}"
  using assms by (force simp: checked_ids_def min_absorb2 diff_le_mono)

lemma probes_cases:
  assumes "probes_exactly ox codes input qs t" "length qs = input_rows input"
  shows "case probe_scalar ox codes t of
      Inl e \<Rightarrow> False
    | Inr None \<Rightarrow> \<forall>i < input_rows input. \<not> ref_holds (qs ! i) t
    | Inr (Some s) \<Rightarrow> fits (input_type input) s \<and>
        (\<forall>i < input_rows input. input_cells input (role t) ! i = s \<longleftrightarrow> ref_holds (qs ! i) t)"
  using assms nth_mem [of _ qs] by (fastforce simp: probes_exactly_def split: sum.splits option.splits)

lemma resolve_in_memory_lemma:
  assumes fl: "lawful_compute fl" and sx: "lawful_search fl sx"
    and wf: "wf_input input" "length qs = input_rows input"
    and parts: "\<forall>part \<in> set components. \<exists>perm. component_of fl input part perm"
    and exact: "\<forall>t \<in> set (bound_roles p). probes_exactly ox codes input qs t"
    and chosen: "index_choose index p layout = Some chosen"
  shows "\<exists>res. resolve_in_memory fl sx ox chosen components codes windowed = Some res \<and>
    resolves_exactly fl qs p res \<and>
    (res = Declined \<longleftrightarrow> find_component components (ci_name (ip_identity chosen)) = None)"
proof (cases "find_component components (ci_name (ip_identity chosen))")
  case None
  then show ?thesis by (simp add: resolve_in_memory_def resolves_exactly_def)
next
  case (Some part)
  let ?n = "input_rows input" and ?keys = "ip_keys chosen"
  have name: "part \<in> set components" "ci_name (ic_identity part) = ci_name (ip_identity chosen)"
    using Some by (auto simp: find_component_def find_Some_iff)
  obtain perm where part: "component_of fl input part perm" using parts name(1) by blast
  have identity: "ic_identity part = ip_identity chosen"
    using part name(2) choose_facts(7) [OF chosen]
    by (cases index) (auto simp: component_of_def ALL_INDEX_TYPES_def)
  obtain others where cks: "child_keys (ci_name (ip_identity chosen)) = map (\<lambda>(name, t). (name, role t)) ?keys @ others"
      "ci_index (ip_identity chosen) = SecondaryByReference \<Longrightarrow> others = []"
    using choose_facts(2) [OF chosen] by blast
  let ?cks = "child_keys (ci_name (ip_identity chosen))"
  have child: "child_of (input_type input) (input_cells input) ?n ?cks
      (ci_index (ip_identity chosen) = SecondaryByReference)
      (has_graphs (ci_index (ip_identity chosen)) input) perm (ic_rows part)"
    using part by (simp add: component_of_def component_ok_def identity)
  have perm: "mset perm = mset [0..<?n]" using child by (simp only: child_of_def)
  have wf_rows: "wf_table fl (ic_rows part)" using part by (simp add: component_of_def)
  have "lawful fl" using fl by (simp add: lawful_compute_def)
  note probes = probes_cases [OF _ wf(2)]
  have "\<forall>(name, t) \<in> set ?keys. probes_exactly ox codes input qs t"
    using exact choose_facts(3) [OF chosen] by fastforce
  then obtain probed where probed: "probe_keys fl sx ox codes part ?keys None = Some probed"
      "case probed of
         KeysDeclined \<Rightarrow> False
       | KeysEmpty \<Rightarrow> \<forall>r < ?n. \<not> (0 \<le> r \<and> r < ?n \<and> (\<forall>(name, t) \<in> set ?keys. ref_holds (qs ! (perm ! r)) t))
       | KeysRun (lo, hi) \<Rightarrow> lo \<le> hi \<and> hi \<le> ?n \<and>
           (\<forall>r < ?n. lo \<le> r \<and> r < hi \<longleftrightarrow> 0 \<le> r \<and> r < ?n \<and> (\<forall>(name, t) \<in> set ?keys. ref_holds (qs ! (perm ! r)) t))"
    using probe_keys_runs [OF \<open>lawful fl\<close> sx wf_rows child input_facts(1) [OF wf(1)], of ?keys
        "\<lambda>t i. ref_holds (qs ! i) t" ox codes "[]" others 0 ?n "[]" None] probes cks(1) choose_facts(1) [OF chosen]
    by fastforce
  have held: "(\<forall>(name, t) \<in> set ?keys. ref_holds q t) \<longleftrightarrow> quad_matches (keep_roles (ip_resolves chosen) p) q" for q
    by (rule choose_facts(4) [OF chosen])
  have row: "\<exists>r < ?n. perm ! r = i" if "i < ?n" for i
    using perm_facts [OF perm] that by (metis atLeastLessThan_iff in_set_conv_nth le0)
  show ?thesis
  proof (cases probed)
    case KeysDeclined
    then show ?thesis using probed by simp
  next
    case KeysEmpty
    have "\<not> quad_matches p (qs ! i)" if i: "i < length qs" for i
    proof -
      obtain r where "r < ?n" "perm ! r = i" using row [of i] i wf(2) by auto
      then have "\<not> (\<forall>(name, t) \<in> set ?keys. ref_holds (qs ! i) t)" using probed(2) KeysEmpty by auto
      then show ?thesis using held keep_and_clear by blast
    qed
    then show ?thesis
      using probed(1) KeysEmpty Some
      by (auto simp: resolve_in_memory_def resolves_exactly_def in_set_conv_nth)
  next
    case (KeysRun run)
    obtain a b where run: "run = (a, b)" by fastforce
    have rows: "a \<le> b" "b \<le> ?n"
        "\<And>r. r < ?n \<Longrightarrow> a \<le> r \<and> r < b \<longleftrightarrow> (\<forall>(name, t) \<in> set ?keys. ref_holds (qs ! (perm ! r)) t)"
      using probed(2) KeysRun run by auto
    let ?ids = "take (b - a) (drop a perm)"
    note ids = run_ids [OF perm input_facts(2) [OF wf(1)] rows(1,2)]
    have members: "i \<in> set ?ids \<longleftrightarrow> i < length qs \<and> quad_matches (keep_roles (ip_resolves chosen) p) (qs ! i)" for i
    proof
      assume i: "i \<in> set ?ids"
      then obtain r where "a \<le> r" "r < b" "i = perm ! r" using ids(2) by auto
      then show "i < length qs \<and> quad_matches (keep_roles (ip_resolves chosen) p) (qs ! i)"
        using rows(2) rows(3) [of r] ids(4) [OF i] wf(2) held by auto
    next
      assume i: "i < length qs \<and> quad_matches (keep_roles (ip_resolves chosen) p) (qs ! i)"
      then obtain r where r: "r < ?n" "perm ! r = i" using row [of i] wf(2) by auto
      then have "a \<le> r \<and> r < b" using rows(3) i held by auto
      then show "i \<in> set ?ids" using ids(2) r(2) by auto
    qed
    obtain rid where rid: "map_of (tb_columns (ic_rows part)) ''rid'' = Some rid" "col_cells rid = map CodeScalar perm"
      using child by (auto simp: child_of_def typed_column_def)
    have rids: "buf_slice (col_cells rid) a b = Some (map CodeScalar ?ids)"
      using rows(1,2) perm_facts(2) [OF perm] by (simp add: rid(2) buf_slice_codes buf_slice_Some)
    have sorted: "sorted ?ids" if "ip_rids_ascend chosen"
    proof -
      have ref: "ci_index (ip_identity chosen) = SecondaryByReference"
        using that choose_facts(7,8) [OF chosen] by (cases index) auto
      define key where "key = map (\<lambda>(name, t). case probe_scalar ox codes t of Inr (Some s) \<Rightarrow> s | _ \<Rightarrow> NullScalar) ?keys"
      have same: "key_at (input_cells input) ?cks (perm ! r) = key" if r: "a \<le> r" "r < b" for r
      proof -
        have "input_cells input (role t) ! (perm ! r) = (case probe_scalar ox codes t of Inr (Some s) \<Rightarrow> s | _ \<Rightarrow> NullScalar)"
          if t: "(name, t) \<in> set ?keys" for name t
        proof -
          have "r < ?n" using r(2) rows(2) by linarith
          then have "ref_holds (qs ! (perm ! r)) t" using t r rows(3) [of r] by auto
          moreover have "perm ! r < ?n" using r ids(4) [of "perm ! r"] unfolding ids(2) by simp
          moreover have "probes_exactly ox codes input qs t" using t \<open>\<forall>(name, t) \<in> set ?keys. probes_exactly ox codes input qs t\<close> by auto
          ultimately show ?thesis
            using probes [of ox codes t] by (auto split: sum.splits option.splits)
        qed
        then show ?thesis unfolding cks(1) cks(2) [OF ref] by (auto simp: key_at_def key_def)
      qed
      have "sorted (map (\<lambda>i. (key_at (input_cells input) ?cks i, i)) perm)"
        using child ref by (simp add: child_of_def)
      then show ?thesis
        by (rule run_ids_sorted [OF _ _ same]) (use rows(2) perm_facts(2) [OF perm] in simp_all)
    qed
    have plain: "resolves_exactly fl qs p
        (Resolved (ComponentIds (component_run_new (map CodeScalar ?ids) (ip_rids_ascend chosen))) (ip_resolves chosen) serve)" for serve
      unfolding resolves_exactly_def index_resolution.case
      by (intro exI [of _ ?ids] conjI allI members) (use ids(1) sorted in \<open>simp add: component_run_new_def\<close>)
    obtain checked where checked: "check_graph ox codes chosen part (a, b) windowed = Some checked"
        "checked = Unchecked \<or> checked = AbsentGraph \<and> (\<forall>q \<in> set qs. \<not> quad_matches p q) \<or>
         (\<exists>check. checked = CheckWith check \<and> resolves_exactly fl qs p
            (Resolved (CheckedIds (checked_run_new (map CodeScalar ?ids) (ip_rids_ascend chosen) check))
              (with_graph (ip_resolves chosen)) None))"
    proof (cases "\<exists>g zs. pat_graph p = Some g \<and> ic_graph_zones part = Some zs \<and> (ip_rids_ascend chosen \<or> \<not> windowed)")
      case False
      then have "check_graph ox codes chosen part (a, b) windowed = Some Unchecked"
        by (auto simp: check_graph_def choose_facts(5) [OF chosen] split: option.splits)
      then show ?thesis using that by blast
    next
      case True
      then obtain g zs where g: "pat_graph p = Some g" "ic_graph_zones part = Some zs"
          "ip_rids_ascend chosen \<or> \<not> windowed" by blast
      have bound: "RefGraph g \<in> set (bound_roles p)" 
        by (cases "pat_subject p"; cases "pat_predicate p"; cases "pat_object p"; simp add: bound_roles_def g(1))
      have graph: "quad_matches (keep_roles (with_graph (ip_resolves chosen)) p) q \<longleftrightarrow>
          quad_matches (keep_roles (ip_resolves chosen) p) q \<and> ref_holds q (RefGraph g)" for q
        using choose_facts(6) [OF chosen] g(1) by (auto simp: quad_matches_def keep_roles_def with_graph_def)
      have exactly: "probes_exactly ox codes input qs (RefGraph g)" using exact bound by blast
      then obtain native where native: "probe_scalar ox codes (RefGraph g) = Inr native"
        by (auto simp: probes_exactly_def split: sum.splits)
      show ?thesis
      proof (cases native)
        case None
        then have "\<forall>q \<in> set qs. \<not> ref_holds q (RefGraph g)" using exactly native by (simp add: probes_exactly_def)
        then have "\<forall>q \<in> set qs. \<not> quad_matches p q"
          using bound by (auto simp: quad_matches_refs list_all_iff simp del: ref_holds.simps)
        moreover have "check_graph ox codes chosen part (a, b) windowed = Some AbsentGraph"
          using g native None by (auto simp: check_graph_def choose_facts(5) [OF chosen] ok_def)
        ultimately show ?thesis using that by blast
      next
        case (Some s)
        show ?thesis
        proof (cases "unsigned_value s")
          case None
          then have "check_graph ox codes chosen part (a, b) windowed = Some Unchecked"
            using g native Some by (auto simp: check_graph_def choose_facts(5) [OF chosen] ok_def)
          then show ?thesis using that by blast
        next
          case code: (Some code)
          then have s: "s = CodeScalar code" by (simp only: unsigned_value_Some)
          have cell: "fits (input_type input) (CodeScalar code)"
              "\<forall>i < ?n. input_cells input ColG ! i = CodeScalar code \<longleftrightarrow> ref_holds (qs ! i) (RefGraph g)"
            using probes [OF exactly] native Some s by (simp_all del: ref_holds.simps)
          obtain check where check: "graph_check_new part (a, b) code zs = Some check" "check_of fl a ?ids check"
              "\<forall>row < ?n. passes (gc_compare check) row \<longleftrightarrow> input_cells input ColG ! (perm ! row) = CodeScalar code"
            using graph_check_of [OF fl wf(1) part g(2) rows(1,2) cell(1)] by blast
          have kept: "set (checked_ids a ?ids check) = (!) perm ` {r. a \<le> r \<and> r < b \<and> passes (gc_compare check) r}"
            using checked_ids_set [of a b perm check] rows(1,2) perm_facts(2) [OF perm] by simp
          have pass: "passes (gc_compare check) r \<longleftrightarrow> ref_holds (qs ! (perm ! r)) (RefGraph g)" if "r < b" for r
          proof -
            have "r < ?n" using that rows(2) by linarith
            moreover from this have "perm ! r < ?n"
              using perm_facts [OF perm] nth_mem [of r perm] by simp
            ultimately show ?thesis using check(3) cell(2) by blast
          qed
          have "i \<in> set (checked_ids a ?ids check) \<longleftrightarrow>
              i < length qs \<and> quad_matches (keep_roles (with_graph (ip_resolves chosen)) p) (qs ! i)" for i
          proof -
            have "i \<in> set (checked_ids a ?ids check) \<longleftrightarrow> i \<in> set ?ids \<and> ref_holds (qs ! i) (RefGraph g)"
              unfolding kept ids(2) using pass by auto
            then show ?thesis unfolding members graph by blast
          qed
          moreover have "lazy_of fl (checked_ids a ?ids check)
              (CheckedIds (checked_run_new (map CodeScalar ?ids) (ip_rids_ascend chosen) check))"
            using ids(1) sorted check(2) by (auto simp: checked_run_new_def)
          ultimately have "resolves_exactly fl qs p
              (Resolved (CheckedIds (checked_run_new (map CodeScalar ?ids) (ip_rids_ascend chosen) check))
                (with_graph (ip_resolves chosen)) None)"
            unfolding resolves_exactly_def index_resolution.case by blast
          moreover have "check_graph ox codes chosen part (a, b) windowed = Some (CheckWith check)"
            using g native Some code check(1) by (auto simp: check_graph_def choose_facts(5) [OF chosen] ok_def)
          ultimately show ?thesis using that by blast
        qed
      qed
    qed
    then show ?thesis
      using probed(1) KeysRun run Some rid(1) rids plain
      by (auto simp: resolve_in_memory_def resolves_exactly_empty Let_def)
  qed
qed

lemma resolve_indexes_lemma:
  assumes fl: "lawful_compute fl" and sx: "lawful_search fl sx"
    and wf: "wf_input input" "length qs = input_rows input"
    and parts: "\<forall>part \<in> set components. \<exists>perm. component_of fl input part perm"
    and exact: "\<forall>t \<in> set (bound_roles p). probes_exactly ox codes input qs t"
  shows "\<exists>res. resolve_indexes_in_memory fl sx ox indexes components layout p codes windowed = Some res \<and>
    resolves_exactly fl qs p res"
proof (induction indexes)
  case Nil
  then show ?case by (simp add: resolves_exactly_def)
next
  case (Cons index indexes)
  show ?case
  proof (cases "index_choose index p layout")
    case (Some chosen)
    obtain res where "resolve_in_memory fl sx ox chosen components codes windowed = Some res"
        "resolves_exactly fl qs p res"
      using resolve_in_memory_lemma [OF fl sx wf parts exact Some] by blast
    then show ?thesis using Cons Some by (cases res) auto
  qed (use Cons in simp)
qed

section \<open>The layouts' inputs\<close>

definition quad_codes_of :: "'l oxrdf \<Rightarrow> term_dictionary \<Rightarrow> 'l rdf_quad list \<Rightarrow> quad_codes" where
  "quad_codes_of ox d qs =
     (let codes = (\<lambda>c. map (\<lambda>q. the (term_code ox d (quad_ref q c))) qs)
      in \<lparr> codes_s = codes ColS, codes_p = codes ColP, codes_o = codes ColO, codes_g = codes ColG \<rparr>)"

fun layout_input :: "'l oxrdf \<Rightarrow> term_dictionary \<Rightarrow> resolved_layout \<Rightarrow> 'l rdf_quad list \<Rightarrow> index_input" where
  "layout_input ox d (ResolvedDictionary access) qs = CodeInput (quad_codes_of ox d qs)"
| "layout_input ox d layout qs = QuadInput (map (from_quad ox) qs)"

fun layout_reads :: "term_dictionary \<Rightarrow> resolved_layout \<Rightarrow> bool" where
  "layout_reads d (ResolvedDictionary access) = accesses d access"
| "layout_reads d layout = True"

lemma code_field_of: "code_field c (quad_codes_of ox d qs) = map (\<lambda>q. the (term_code ox d (quad_ref q c))) qs"
  by (cases c) (simp_all add: quad_codes_of_def)

lemma raw_field_of: "raw_field c (from_quad ox q) = write_nt ox (quad_ref q c)"
  by (cases c) (simp_all add: from_quad_def)

lemma codes_s_of: "length (codes_s (quad_codes_of ox d qs)) = length qs"
  by (simp add: quad_codes_of_def)

lemma layout_input_rows [simp]: "input_rows (layout_input ox d layout qs) = length qs"
  by (cases layout) (simp_all add: quad_codes_of_def)

lemma dictionary_codes_fit:
  assumes "wf_dictionary d" "held_by ox d q"
  shows "fits (UInt 8) (CodeScalar (the (term_code ox d (quad_ref q c))))"
proof -
  obtain code where code: "term_code ox d (quad_ref q c) = Some code" using assms(2) unfolding held_by_def by blast
  then have "code < dict_len d" by (simp add: term_code_def encode_exact_Some_iff [OF assms(1)])
  then show ?thesis using assms(1) code by (simp add: wf_dictionary_def u64_max_def)
qed

lemma layout_input_wf:
  assumes "wf_dictionary d" "\<forall>q \<in> set qs. held_by ox d q" "length qs \<le> usize_max"
  shows "wf_input (layout_input ox d layout qs)"
  using assms(2,3) dictionary_codes_fit [OF assms(1)]
  by (cases layout) (auto simp: wf_input_def code_field_of codes_s_of list_all_iff simp del: fits.simps(1))

lemma layout_probes_exactly:
  assumes ox: "lawful_oxrdf ox" and qs: "\<forall>q \<in> set qs. wf_quad ox q \<and> held_by ox d q" and p: "wf_pattern ox p"
    and d: "wf_dictionary d" "layout_reads d layout" and codes: "prepare_pattern ox layout p = Inr (PreparedCodes codes)"
    and t: "t \<in> set (bound_roles p)"
  shows "probes_exactly ox codes (layout_input ox d layout qs) qs t"
proof -
  have wf: "wf_ref ox t" using p t by (simp add: wf_pattern_def list_all_iff)
  have strings: "probes_exactly ox codes (QuadInput (map (from_quad ox) qs)) qs t" if "probes_by_string codes"
  proof -
    have "ref_holds (qs ! i) t \<longleftrightarrow> write_nt ox (quad_ref (qs ! i) (role t)) = write_nt ox t" if "i < length qs" for i
      using ref_holds_spelling [OF ox wf] qs that by simp
    then show ?thesis using that by (simp add: probes_exactly_def probe_scalar_def raw_field_of)
  qed
  show ?thesis
  proof (cases layout)
    case (ResolvedDictionary access)
    have "accesses d access" using d(2) ResolvedDictionary by simp
    then obtain codes' where codes': "pc_layout codes' = DictionaryLayout"
        "prepare_pattern ox (ResolvedDictionary access) p =
           Inr (if \<exists>t \<in> set (bound_roles p). term_code ox d t = None then PreparedEmpty else PreparedCodes codes')"
        "(\<forall>t \<in> set (bound_roles p). term_code ox d t \<noteq> None) \<longrightarrow>
           (\<forall>t \<in> set (bound_roles p). pc_roles codes' ! slot_of t = Some (term_code ox d t))"
      using prepare_pattern_codes [of d access ox p] by blast
    have held: "\<forall>t \<in> set (bound_roles p). term_code ox d t \<noteq> None" "codes = codes'"
      using codes codes'(2) ResolvedDictionary by (auto split: if_splits)
    then obtain code where code: "term_code ox d t = Some code" using t by auto
    have "pc_roles codes ! slot_of t = Some (Some code)" using codes'(3) held t code by simp
    then have native: "probe_scalar ox codes t = Inr (Some (CodeScalar code))"
      using codes'(1) held(2) by (simp add: probe_scalar_def probes_by_string_def pattern_code_def map_ok_def)
    have "the (term_code ox d (quad_ref (qs ! i) (role t))) = code \<longleftrightarrow> ref_holds (qs ! i) t" if "i < length qs" for i
      using code_ref_holds [OF ox d(1) _ _ wf code, of "qs ! i"] qs that by simp
    moreover have "fits (UInt 8) (CodeScalar code)"
      using code d(1) by (simp add: term_code_def encode_exact_Some_iff [OF d(1)] wf_dictionary_def u64_max_def)
    ultimately show ?thesis
      using native ResolvedDictionary by (simp add: probes_exactly_def code_field_of)
  qed (use strings codes in \<open>auto simp: prepare_pattern_def probes_by_string_def codes_new_def map_ok_def split: if_splits\<close>)
qed

section \<open>Built and compressed components\<close>

definition table_fit :: "'k kernels_scheme \<Rightarrow> index_input \<Rightarrow> table \<Rightarrow> bool" where
  "table_fit fl input t \<longleftrightarrow> tb_len t \<le> usize_max \<and> \<not> tb_component t \<and>
     (\<forall>(name, col) \<in> set (tb_columns t).
        wf_column fl (tb_len t) col \<and> list_all (fits (col_type col)) (col_cells col) \<and>
        ((\<exists>codes. input = CodeInput codes) \<longrightarrow> col_type col = UInt 8) \<and>
        (name = ''g'' \<longrightarrow> col_type col = input_type input))"

text \<open>What the compression of a child promises: the same columns in another encoding, and a zone map
  only of a graph column of codes, which it describes.\<close>

definition same_cells :: "column \<Rightarrow> column \<Rightarrow> bool" where
  "same_cells col col' \<longleftrightarrow>
     col_type col = col_type col' \<and> col_nullable col = col_nullable col' \<and> col_cells col = col_cells col'"

definition compresses :: "'k kernels_scheme \<Rightarrow> compressor \<Rightarrow> table \<Rightarrow> bool" where
  "compresses fl compress t \<longleftrightarrow>
     (\<forall>rows graph. compress t = Some (rows, graph) \<longrightarrow>
        tb_len rows = tb_len t \<and> tb_component rows = tb_component t \<and>
        list_all2 (\<lambda>(name, col) (name', col'). name = name' \<and> same_cells col col' \<and> wf_column fl (tb_len t) col')
          (tb_columns t) (tb_columns rows) \<and>
        (\<forall>zs. graph = Some zs \<longrightarrow>
           (\<exists>col codes. map_of (tb_columns rows) ''g'' = Some col \<and> col_type col = UInt 8 \<and>
              col_cells col = map CodeScalar codes \<and> describes zs codes)))"

lemma wf_fresh:
  assumes rs: "lawful_resolver fl rs" and t: "table_fit fl input t"
  shows "wf_table fl (fresh_probes rs t)"
    "\<exists>codes. input = CodeInput codes \<Longrightarrow> wf_table fl ((fresh_probes rs t)\<lparr> tb_component := True \<rparr>)"
proof -
  have probes: "map_of (map (\<lambda>(name, col). (name, rs col)) columns) field = map_option rs (map_of columns field)"
    for columns field by (induction columns) auto
  have named: "\<exists>col. map_of (tb_columns t) field = Some col \<and> probe_for fl pr col"
    if "by_name ((fresh_probes rs t)\<lparr> tb_component := b \<rparr>) field = Some pr" for b field pr
    using that rs
    by (auto simp: by_name_def fresh_probes_def probes lawful_resolver_def split: option.splits)
  have "wf_table fl ((fresh_probes rs t)\<lparr> tb_component := b \<rparr>)"
    if "b \<Longrightarrow> \<exists>codes. input = CodeInput codes" for b
    using t named that by (fastforce simp: wf_table_def table_fit_def fresh_probes_def)
  from this [of True] this [of False]
  moreover have "(fresh_probes rs t)\<lparr> tb_component := False \<rparr> = fresh_probes rs t"
    using t by (cases t) (simp add: table_fit_def fresh_probes_def)
  ultimately show "\<exists>codes. input = CodeInput codes \<Longrightarrow> wf_table fl ((fresh_probes rs t)\<lparr> tb_component := True \<rparr>)"
    "wf_table fl (fresh_probes rs t)"
    by simp_all
qed

lemma built_columns_fit:
  assumes wf: "wf_input input" and perm: "mset perm = mset [0..<input_rows input]"
  shows "table_fit fl input (copy_table input perm)" "table_fit fl input (ref_table input c perm)"
proof -
  note facts = perm_facts [OF perm] and rows = input_facts [OF wf]
  have terms: "list_all (fits (input_type input)) (col_cells (term_column input c perm))" for c
  proof -
    have "fits (input_type input) (input_cells input c ! i)" if "i < input_rows input" for i
      using rows(1) [rule_format, of c] that by (simp add: list_all_length)
    then show ?thesis using facts(1) by (auto simp: term_column_cells [OF wf] list_all_iff)
  qed
  have ids: "list_all (fits (UInt 8)) (map CodeScalar perm)"
    using facts(1) rows(2) by (auto simp: list_all_iff u64_max_def)
  have graphs: "ref_graphs input perm = [] \<or> ref_graphs input perm = [(''g'', term_column input ColG perm)]"
    by (cases input) simp_all
  have text_col: "wf_column fl (length perm) (term_column input c perm)" for c
    by (cases input) (simp_all add: wf_column_def make_string_array_def code_column_def)
  have code_col: "wf_column fl (length perm) (code_column perm)"
    by (simp add: wf_column_def code_column_def)
  have native: "(\<exists>codes. input = CodeInput codes) \<longrightarrow> input_type input = UInt 8" by auto
  show "table_fit fl input (copy_table input perm)"
    using terms ids text_col code_col native rows(2) facts(2)
    by (simp add: table_fit_def copy_table_def rows_table_def copy_child_columns_def all_columns_def)
       (simp add: code_column_def)
  show "table_fit fl input (ref_table input c perm)"
    using terms ids text_col code_col native rows(2) facts(2) graphs
    by (auto simp: table_fit_def ref_table_def rows_table_def simp del: ref_graphs.simps)
       (simp_all add: code_column_def)
qed

lemma component_built_ex:
  "table_fit fl input t \<Longrightarrow>
     \<exists>t'. component_built rs i t = component_built rs (ic_identity (component_built rs i t)) t' \<and> table_fit fl input t'"
  by (rule exI [of _ t]) (simp add: component_built_def)

lemma index_components_of:
  assumes us: "lawful_sorter us" and rs: "lawful_resolver fl rs" and wf: "wf_input input"
  shows "\<exists>parts. index_components rs us index input = Some parts \<and>
    map ic_identity parts = component_identities index \<and>
    (\<forall>part \<in> set parts. \<exists>t perm. part = component_built rs (ic_identity part) t \<and>
       table_fit fl input t \<and> component_ok input part perm)"
proof -
  have copy: "mset (input_perm us input family) = mset [0..<input_rows input]" for family
    by (rule input_perm_sorted(1) [OF us wf])
  have ref: "mset (ref_perm us input c) = mset [0..<input_rows input]" for c
    by (rule ref_perm_sorted(1) [OF us wf])
  obtain parts where parts: "index_components rs us index input = Some parts"
      "map ic_identity parts = component_identities index"
      "\<forall>part \<in> set parts. \<exists>perm. component_ok input part perm"
    using index_components_ok [OF us wf, of rs index] by blast
  have "\<forall>part \<in> set parts. \<exists>t. part = component_built rs (ic_identity part) t \<and> table_fit fl input t"
    using parts(1) built_columns_fit [OF wf, of _ fl] copy ref
    by (cases index)
       (auto simp: copy_components_tables [OF us wf] ref_components_tables [OF us wf]
         simp del: copy_identity.simps ref_identity.simps intro!: component_built_ex)
  then show ?thesis using parts by blast
qed

lemma built_component_of:
  assumes "lawful_resolver fl rs" "part = component_built rs (ic_identity part) t" "table_fit fl input t"
    and "component_ok input part perm" "ic_identity part \<in> set (component_identities index)"
  shows "component_of fl input part perm"
proof -
  have rows: "ic_rows part = fresh_probes rs t" "ic_graph_zones part = None"
    by (subst assms(2), simp add: component_built_def)+
  have "ic_identity part \<in> set (concat (map component_identities ALL_INDEX_TYPES))"
    using assms(5) by (cases index) (auto simp: ALL_INDEX_TYPES_def)
  then show ?thesis
    using assms(4) wf_fresh(1) [OF assms(1,3)] by (simp add: component_of_def rows)
qed

lemma map_of_list_all2:
  assumes "list_all2 (\<lambda>(name, x) (name', y). name = name' \<and> P x y) xs ys"
  shows "map_of xs k = Some x \<Longrightarrow> \<exists>y. map_of ys k = Some y \<and> P x y"
    "map_of ys k = Some y \<Longrightarrow> \<exists>x. map_of xs k = Some x \<and> P x y"
    "(k, y) \<in> set ys \<Longrightarrow> \<exists>x. (k, x) \<in> set xs \<and> P x y"
  using assms by (induction xs ys rule: list_all2_induct) (auto split: if_splits)

lemma graph_cells:
  assumes "typed_column t ''g'' ty (map ((!) (input_cells (CodeInput codes) ColG)) perm)"
    and "wf_input (CodeInput codes)" "set perm = {0..<length (codes_s codes)}"
  shows "typed_column t ''g'' ty (map CodeScalar (map ((!) (codes_g codes)) perm))"
proof -
  have "length (codes_g codes) = length (codes_s codes)"
    using input_facts(1) [OF assms(2), rule_format, of ColG] by simp
  then have "map ((!) (input_cells (CodeInput codes) ColG)) perm = map CodeScalar (map ((!) (codes_g codes)) perm)"
    using assms(3) by (auto simp: map_eq_conv)
  then show ?thesis using assms(1) by (simp only:)
qed

lemma compressed_component_of:
  assumes rs: "lawful_resolver fl rs" and compress: "compresses fl compress (fresh_probes rs t)" and wf: "wf_input input"
    and part: "part = component_built rs (ic_identity part) t" "table_fit fl input t" "component_ok input part perm"
      "ic_identity part \<in> set (component_identities index)"
    and out: "into_compressed rs compress part = Some part'"
  shows "component_of fl input part' perm"
proof -
  have built: "ic_rows part = fresh_probes rs t" "ic_graph_zones part = None"
    by (subst part(1), simp add: component_built_def)+
  obtain rows graph where rows: "compress (fresh_probes rs t) = Some (rows, graph)"
      "part' = with_graph_zones graph (part\<lparr> ic_rows := fresh_probes rs rows \<rparr>)"
    using out by (auto simp: into_compressed_def rebuilt_def built split: option.splits)
  have cols: "tb_len rows = tb_len t" "tb_component rows = tb_component t"
      "list_all2 (\<lambda>(name, col) (name', col'). name = name' \<and> (same_cells col col' \<and> wf_column fl (tb_len t) col'))
        (tb_columns t) (tb_columns rows)"
      "\<And>zs. graph = Some zs \<Longrightarrow> \<exists>col codes. map_of (tb_columns rows) ''g'' = Some col \<and> col_type col = UInt 8 \<and>
          col_cells col = map CodeScalar codes \<and> describes zs codes"
    using spec [OF spec [OF compress [unfolded compresses_def]], of rows graph] rows(1)
    by (simp_all add: fresh_probes_def)
  have typed: "typed_column t name ty cells \<Longrightarrow> typed_column rows name ty cells" for name ty cells
    using map_of_list_all2(1) [OF cols(3)] by (fastforce simp: typed_column_def same_cells_def)
  have fit: "table_fit fl input rows"
    unfolding table_fit_def
  proof (intro conjI ballI)
    show "tb_len rows \<le> usize_max" "\<not> tb_component rows" using part(2) cols(1,2) by (simp_all add: table_fit_def)
    fix named
    assume named: "named \<in> set (tb_columns rows)"
    obtain name col where col: "named = (name, col)" by fastforce
    obtain old where "(name, old) \<in> set (tb_columns t)" "same_cells old col" "wf_column fl (tb_len t) col"
      using map_of_list_all2(3) [OF cols(3)] named col by blast
    moreover then have "case (name, old) of (name, col) \<Rightarrow> wf_column fl (tb_len t) col \<and> list_all (fits (col_type col)) (col_cells col) \<and>
        ((\<exists>codes. input = CodeInput codes) \<longrightarrow> col_type col = UInt 8) \<and> (name = ''g'' \<longrightarrow> col_type col = input_type input)"
      using part(2) unfolding table_fit_def by blast
    ultimately show "case named of (name, col) \<Rightarrow> wf_column fl (tb_len rows) col \<and> list_all (fits (col_type col)) (col_cells col) \<and>
        ((\<exists>codes. input = CodeInput codes) \<longrightarrow> col_type col = UInt 8) \<and>
        (name = ''g'' \<longrightarrow> col_type col = input_type input)"
      using cols(1) col by (simp add: same_cells_def)
  qed
  have same: "ic_identity part' = ic_identity part" "ic_rows part' = fresh_probes rs rows"
      "ic_graph_zones part' = Some zs \<Longrightarrow> graph = Some zs" for zs
    using rows(2) by (auto simp: with_graph_zones_def Let_def split: option.splits if_splits)
  have ok: "component_ok input part' perm"
    using part(3) typed cols(1)
    by (auto simp: component_ok_def child_of_def same built) (auto simp: fresh_probes_def)
  have "\<exists>codes. input = CodeInput codes \<and> wf_table fl ((ic_rows part')\<lparr> tb_component := True \<rparr>) \<and>
      describes zs (map ((!) (codes_g codes)) perm)" if zs: "ic_graph_zones part' = Some zs" for zs
  proof -
    obtain col gs where g: "map_of (tb_columns rows) ''g'' = Some col" "col_type col = UInt 8"
        "col_cells col = map CodeScalar gs" "describes zs gs"
      using cols(4) [OF same(3) [OF zs]] by blast
    have "input_type input = UInt 8" using fit map_of_SomeD [OF g(1)] g(2) by (fastforce simp: table_fit_def)
    then obtain codes where codes: "input = CodeInput codes" by (cases input) auto
    have perm: "mset perm = mset [0..<length (codes_s codes)]"
      and graphs: "typed_column (ic_rows part') ''g'' (UInt 8) (map ((!) (input_cells input ColG)) perm)"
      using ok codes by (cases "ci_index (ic_identity part')"; simp add: component_ok_def child_of_def del: mset_upt input_cells.simps)+
    have "typed_column (ic_rows part') ''g'' (UInt 8) (map CodeScalar (map ((!) (codes_g codes)) perm))"
      using graph_cells [OF graphs [unfolded codes] wf [unfolded codes] perm_facts(1) [OF perm]] .
    then have "map CodeScalar (map ((!) (codes_g codes)) perm) = map CodeScalar gs"
      using g by (simp add: typed_column_def same) (simp add: fresh_probes_def)
    then have "map ((!) (codes_g codes)) perm = gs" by (rule map_injective) (simp add: inj_def)
    then show ?thesis using codes g(4) wf_fresh(2) [OF rs fit] same(2) by auto
  qed
  moreover have "ic_identity part \<in> set (concat (map component_identities ALL_INDEX_TYPES))"
    using part(4) by (cases index) (auto simp: ALL_INDEX_TYPES_def)
  ultimately show ?thesis
    using ok wf_fresh(1) [OF rs fit] by (simp add: component_of_def same)
qed

section \<open>Patterns resolve exactly\<close>

text \<open>C15. A pattern resolved against a store's index children, built or compressed, under every
  layout, is exact: the children answer without an error, an empty answer is given only where no
  quad matches, and otherwise the row ids, however they are kept, come out ascending, and are
  exactly the rows that the roles the index resolved hold of, so that filtering them by the other
  roles leaves exactly the rows the pattern matches. No blank id of the quads starts with \<open>_:\<close>.\<close>

theorem index_resolution_exact:
  assumes "lawful_compute fl" "lawful_search fl sx" "lawful_oxrdf ox"
    and "\<forall>q \<in> set qs. wf_quad ox q \<and> held_by ox d q" "length qs \<le> usize_max" "wf_pattern ox p"
    and "wf_dictionary d" "layout_reads d layout"
    and "\<forall>part \<in> set components. \<exists>perm. component_of fl (layout_input ox d layout qs) part perm"
    and "prepare_pattern ox layout p = Inr (PreparedCodes codes)"
  shows "\<exists>res. resolve_indexes_in_memory fl sx ox indexes components layout p codes windowed = Some res \<and>
    (case res of
       Declined \<Rightarrow> True
     | ResolvedEmpty \<Rightarrow> \<forall>q \<in> set qs. \<not> quad_matches p q
     | Resolved row_ids roles serve \<Rightarrow>
         \<exists>ids row_ids'. lazy_materialized fl row_ids = Some (ids, row_ids') \<and> ascending ids \<and>
           (\<forall>i. i \<in> set ids \<longleftrightarrow> i < length qs \<and> quad_matches (keep_roles roles p) (qs ! i)) \<and>
           (\<forall>i < length qs. quad_matches p (qs ! i) \<longleftrightarrow>
              i \<in> set ids \<and> quad_matches (clear_roles roles p) (qs ! i)))"
proof -
  have wf: "wf_input (layout_input ox d layout qs)" using layout_input_wf assms(4,5,7) by blast
  have exact: "\<forall>t \<in> set (bound_roles p). probes_exactly ox codes (layout_input ox d layout qs) qs t"
    using layout_probes_exactly [OF assms(3,4,6,7,8,10)] by blast
  obtain res where res: "resolve_indexes_in_memory fl sx ox indexes components layout p codes windowed = Some res"
      "resolves_exactly fl qs p res"
    using resolve_indexes_lemma [OF assms(1,2) wf _ assms(9) exact, of indexes layout windowed] by auto
  have "\<exists>ids row_ids'. lazy_materialized fl row_ids = Some (ids, row_ids') \<and> ascending ids \<and>
      (\<forall>i. i \<in> set ids \<longleftrightarrow> i < length qs \<and> quad_matches (keep_roles roles p) (qs ! i)) \<and>
      (\<forall>i < length qs. quad_matches p (qs ! i) \<longleftrightarrow> i \<in> set ids \<and> quad_matches (clear_roles roles p) (qs ! i))"
    if eq: "res = Resolved row_ids roles serve" for row_ids roles serve
  proof -
    obtain ids where ids: "lazy_of fl ids row_ids"
        "\<forall>i. i \<in> set ids \<longleftrightarrow> i < length qs \<and> quad_matches (keep_roles roles p) (qs ! i)"
      using res(2) eq by (auto simp: resolves_exactly_def simp del: lazy_of.simps)
    obtain row_ids' where out: "lazy_materialized fl row_ids = Some (sort ids, row_ids')"
      using lazy_materialized_sorts [OF ids(1)] by blast
    have "ascending (sort ids)"
      using lazy_unique [OF ids(1)] by (simp add: unique_ids_def strict_sorted_iff)
    then show ?thesis
      using out ids(2) keep_and_clear [of p _ roles]
      by (intro exI [of _ "sort ids"] exI [of _ row_ids'] conjI) auto
  qed
  then show ?thesis using res by (cases res) (auto simp: resolves_exactly_def)
qed

text \<open>An array library that resolves nothing and searches by counting.\<close>

definition plain_search :: array_search where
  "plain_search =
     \<lparr> sx_resolve = (\<lambda>_. None),
        sx_slice = (\<lambda>col a b. if a \<le> b \<and> b \<le> length (col_cells col)
           then Some (col\<lparr> col_cells := take (b - a) (drop a (col_cells col)), col_encoding := OtherEncoding,
                           col_probe := None \<rparr>) else None),
        sx_search = (\<lambda>col s right.
           Some (length (takeWhile (\<lambda>c. if right then c \<le> s else c < s) (col_cells col)))) \<rparr>"

lemma plain_search_lawful: "lawful_search fl plain_search"
  by (simp add: lawful_search_def plain_search_def lawful_resolver_def)

definition sample_layout :: resolved_layout where
  "sample_layout = ResolvedDictionary (Resident sample_dictionary)"

lemma sample_input_wf: "wf_input (layout_input plain_oxrdf sample_dictionary sample_layout sample_quads)"
  using sample_quads_held by (intro layout_input_wf [OF sample_dictionary_wf]) (simp_all add: sample_quads_def u64_max_def)

text \<open>The second of the sample's quads is the one match, found by its object in the children of
  back-references; its predicate is resolved by them too or left to the filter.\<close>

theorem index_resolution_exact_witness:
  "\<exists>codes parts res. prepare_pattern plain_oxrdf sample_layout sample_pattern = Inr (PreparedCodes codes) \<and>
     index_components (\<lambda>_. None) insertion_sorter SecondaryByReference
       (layout_input plain_oxrdf sample_dictionary sample_layout sample_quads) = Some parts \<and>
     resolve_indexes_in_memory plain_compute plain_search plain_oxrdf [SecondaryByReference] parts
       sample_layout sample_pattern codes False = Some res \<and> res \<noteq> ResolvedEmpty"
proof -
  let ?input = "layout_input plain_oxrdf sample_dictionary sample_layout sample_quads"
  have none: "lawful_resolver plain_compute (\<lambda>_. None)" by (simp add: lawful_resolver_def)
  obtain parts where parts: "index_components (\<lambda>_. None) insertion_sorter SecondaryByReference ?input = Some parts"
      "map ic_identity parts = component_identities SecondaryByReference"
      "\<forall>part \<in> set parts. \<exists>t perm. part = component_built (\<lambda>_. None) (ic_identity part) t \<and>
         table_fit plain_compute ?input t \<and> component_ok ?input part perm"
    using index_components_of [OF insertion_sorter_lawful none sample_input_wf] by blast
  have "\<exists>perm. component_of plain_compute ?input part perm" if part: "part \<in> set parts" for part
  proof -
    have "ic_identity part \<in> set (component_identities SecondaryByReference)"
      unfolding parts(2) [symmetric] using part by simp
    then show ?thesis using parts(3) part built_component_of [OF none] by blast
  qed
  then have components: "\<forall>part \<in> set parts. \<exists>perm. component_of plain_compute ?input part perm" by blast
  have held: "\<forall>q \<in> set sample_quads. wf_quad plain_oxrdf q \<and> held_by plain_oxrdf sample_dictionary q"
    using sample_quads_wf sample_quads_held by blast
  have reads: "layout_reads sample_dictionary sample_layout" by (simp add: sample_layout_def accesses_def)
  have "\<exists>codes. prepare_pattern plain_oxrdf sample_layout sample_pattern = Inr (PreparedCodes codes)"
  proof -
    have "list_all (\<lambda>t. term_code plain_oxrdf sample_dictionary t \<noteq> None) (bound_roles sample_pattern)" by code_simp
    then have "\<forall>t \<in> set (bound_roles sample_pattern). term_code plain_oxrdf sample_dictionary t \<noteq> None"
      by (simp add: list_all_iff)
    then show ?thesis
      using prepare_pattern_codes [of sample_dictionary "Resident sample_dictionary" plain_oxrdf sample_pattern]
      by (auto simp: sample_layout_def accesses_def)
  qed
  then obtain codes where codes: "prepare_pattern plain_oxrdf sample_layout sample_pattern = Inr (PreparedCodes codes)" ..
  obtain res where res: "resolve_indexes_in_memory plain_compute plain_search plain_oxrdf [SecondaryByReference] parts
      sample_layout sample_pattern codes False = Some res"
      "res = ResolvedEmpty \<Longrightarrow> \<forall>q \<in> set sample_quads. \<not> quad_matches sample_pattern q"
    using index_resolution_exact [OF plain_compute_lawful plain_search_lawful plain_lawful held _ sample_pattern_wf
        sample_dictionary_wf reads components codes, of "[SecondaryByReference]" False]
    by (fastforce simp: sample_quads_def u64_max_def)
  moreover have "\<exists>q \<in> set sample_quads. quad_matches sample_pattern q"
    by (simp add: quad_matches_def sample_pattern_def sample_quads_def)
  ultimately show ?thesis using parts(1) codes by blast
qed

end
