(* ===== verification/Views.thy ===== *)
theory Views
  imports Resolve Tails
begin

text \<open>
  The view a store is (\<open>src/core/src/store/mod.rs\<close>, \<open>view/mod.rs\<close>, \<open>view/selection.rs\<close>): a base with
  the rows it selects, exactly or still pending, its tombstones, and a tail; and the counts of a
  view (\<open>read/count.rs\<close>). The base is one in memory. A selection hands itself back from each
  operation that may keep what it computed. \<^term>\<open>None\<close> is a panic or an error.
\<close>

section \<open>Selections, exact and pending\<close>

datatype 'l view_selection =
    ExactRows row_selection | PendingIds lazy_ids "'l quad_pattern option" | PendingCompare pending

definition view_all :: "'l view_selection" where
  "view_all = ExactRows AllRows"

definition view_pending :: "lazy_ids \<Rightarrow> 'l view_selection" where
  "view_pending row_ids = PendingIds row_ids None"

fun held_index_order :: "'l view_selection \<Rightarrow> nat list option" where
  "held_index_order (PendingIds row_ids matched) = live_index_order row_ids"
| "held_index_order self = None"

fun view_is_all :: "'l view_selection \<Rightarrow> bool" where
  "view_is_all (ExactRows AllRows) = True"
| "view_is_all self = False"

fun is_exact :: "'l view_selection \<Rightarrow> bool" where
  "is_exact (ExactRows sel) = True"
| "is_exact self = False"

fun view_materialized :: "'k compute_scheme \<Rightarrow> 'l view_selection \<Rightarrow> (row_selection \<times> 'l view_selection) option" where
  "view_materialized fl (ExactRows sel) = Some (sel, ExactRows sel)"
| "view_materialized fl (PendingIds row_ids matched) =
     map_option (\<lambda>(ids, row_ids). (RowIds ids, PendingIds row_ids matched)) (lazy_materialized fl row_ids)"
| "view_materialized fl (PendingCompare residual) =
     map_option (\<lambda>(ids, residual). (RowIds ids, PendingCompare residual)) (materialized fl residual)"

fun view_len_if_known :: "'l view_selection \<Rightarrow> nat \<Rightarrow> nat option" where
  "view_len_if_known (ExactRows sel) base_len = Some (sel_len sel base_len)"
| "view_len_if_known (PendingIds row_ids matched) base_len = lazy_len_if_known row_ids"
| "view_len_if_known (PendingCompare residual) base_len = len_if_known residual"

fun view_count ::
    "'k compute_scheme \<Rightarrow> 'l view_selection \<Rightarrow> mask option \<Rightarrow> nat \<Rightarrow> (nat option \<times> 'l view_selection) option" where
  "view_count fl (ExactRows sel) deleted base_len =
     map_option (\<lambda>n. (Some n, ExactRows sel)) (live_len sel deleted base_len)"
| "view_count fl (PendingIds row_ids matched) None base_len =
     map_option (\<lambda>(n, row_ids). (n, PendingIds row_ids matched)) (lazy_count fl row_ids)"
| "view_count fl (PendingIds row_ids matched) (Some deleted) base_len =
     map_option (\<lambda>(n, row_ids). (Some n, PendingIds row_ids matched)) (live_len_without_io fl row_ids deleted)"
| "view_count fl (PendingCompare residual) deleted base_len =
     map_option (\<lambda>(n, residual). (Some n, PendingCompare residual)) (pending_count fl residual deleted)"

fun view_count_capped ::
    "'k compute_scheme \<Rightarrow> 'l view_selection \<Rightarrow> nat \<Rightarrow> mask option \<Rightarrow> (nat option \<times> 'l view_selection) option" where
  "view_count_capped fl (PendingCompare residual) limit deleted =
     map_option (\<lambda>(n, residual). (Some n, PendingCompare residual)) (count_capped fl residual limit deleted)"
| "view_count_capped fl (PendingIds row_ids matched) limit None =
     map_option (\<lambda>n. (n, PendingIds row_ids matched)) (lazy_count_capped fl row_ids limit)"
| "view_count_capped fl self limit deleted = Some (None, self)"

fun view_window ::
    "'k compute_scheme \<Rightarrow> 'l view_selection \<Rightarrow> nat \<Rightarrow> nat \<Rightarrow> mask option \<Rightarrow>
     ((row_selection \<times> Pieces.live) option \<times> 'l view_selection) option" where
  "view_window fl (PendingCompare residual) offset limit deleted =
     map_option (\<lambda>((ids, seen), residual). (Some (from_ids ids, seen), PendingCompare residual))
       (pending_window fl residual offset limit deleted)"
| "view_window fl (PendingIds row_ids matched) offset limit None =
     map_option (\<lambda>w. (map_option (\<lambda>(ids, seen). (from_ids ids, seen)) w, PendingIds row_ids matched))
       (window_with_live fl row_ids offset limit)"
| "view_window fl self offset limit deleted = Some (None, self)"

fun expect_exact :: "'l view_selection \<Rightarrow> row_selection option" where
  "expect_exact (ExactRows sel) = Some sel"
| "expect_exact self = None"

section \<open>Sources\<close>

text \<open>A base in memory: its columns with their probes and zone maps, the index children over them,
  whether the subjects carry the stamp of the sorted order, and a served view's plan.\<close>

record resident_base = memory_base +
  rb_components :: "index_component list"
  rb_sorted :: bool
  rb_serve :: "serve_plan option"

record 'l quads_source =
  qs_selection :: "'l view_selection"
  qs_deleted :: "mask option"
  qs_memory :: resident_base

definition source_new :: "resident_base \<Rightarrow> 'l quads_source" where
  "source_new memory = \<lparr> qs_selection = view_all, qs_deleted = None, qs_memory = memory \<rparr>"

definition served_component :: "'l quads_source \<Rightarrow> string option" where
  "served_component self = map_option sp_component (rb_serve (qs_memory self))"

definition is_pending_without_plan :: "'l quads_source \<Rightarrow> bool" where
  "is_pending_without_plan self \<longleftrightarrow> \<not> is_exact (qs_selection self) \<and> served_component self = None"

text \<open>A base in memory has no filter.\<close>

definition is_unrefined :: "'l quads_source \<Rightarrow> bool" where
  "is_unrefined self \<longleftrightarrow> view_is_all (qs_selection self)"

definition base_len :: "'l quads_source \<Rightarrow> nat" where
  "base_len self = tb_len (mem_table (qs_memory self))"

definition subject_sorted :: "'l quads_source \<Rightarrow> bool" where
  "subject_sorted self \<longleftrightarrow> rb_sorted (qs_memory self)"

definition source_read_order :: "'l quads_source \<Rightarrow> sort_order option" where
  "source_read_order self =
     (case rb_serve (qs_memory self) of
        Some plan \<Rightarrow> Some (read_order plan)
      | None \<Rightarrow> if subject_sorted self then Some SpogOrder else None)"

definition materialized_selection ::
    "'k compute_scheme \<Rightarrow> 'l quads_source \<Rightarrow> (row_selection \<times> 'l quads_source) option" where
  "materialized_selection fl self =
     map_option (\<lambda>(sel, vs). (sel, self\<lparr> qs_selection := vs \<rparr>)) (view_materialized fl (qs_selection self))"

definition located_window ::
    "'k compute_scheme \<Rightarrow> 'l quads_source \<Rightarrow> nat \<Rightarrow> nat \<Rightarrow>
     ((row_selection \<times> Pieces.live) option \<times> 'l quads_source) option" where
  "located_window fl self offset limit =
     map_option (\<lambda>(w, vs). (w, self\<lparr> qs_selection := vs \<rparr>))
       (view_window fl (qs_selection self) offset limit (qs_deleted self))"

definition in_memory_with ::
    "'l quads_source \<Rightarrow> resident_base \<Rightarrow> 'l view_selection \<Rightarrow> serve_plan option \<Rightarrow> 'l quads_source" where
  "in_memory_with self memory sel plan =
     \<lparr> qs_selection = sel, qs_deleted = qs_deleted self, qs_memory = memory\<lparr> rb_serve := plan \<rparr> \<rparr>"

definition with_selection :: "'l quads_source \<Rightarrow> 'l view_selection \<Rightarrow> 'l quads_source" where
  "with_selection self sel = in_memory_with self (qs_memory self) sel None"

definition unrestricted :: "'l quads_source \<Rightarrow> 'l quads_source" where
  "unrestricted self = in_memory_with self (qs_memory self) view_all None"

definition with_tombstones :: "'l quads_source \<Rightarrow> mask \<Rightarrow> 'l quads_source" where
  "with_tombstones self doomed =
     (with_selection self (qs_selection self))\<lparr> qs_deleted := Some (union_deleted (qs_deleted self) doomed) \<rparr>"

definition emptied :: "'l quads_source \<Rightarrow> 'l quads_source" where
  "emptied self =
     (let source = with_selection self (ExactRows empty_selection)
      in source\<lparr> qs_memory := (qs_memory source)\<lparr> rb_components := [] \<rparr> \<rparr>)"

section \<open>Stores\<close>

record 'l store =
  st_quads :: "'l quads_source"
  st_layout :: resolved_layout
  st_indexes :: "index_type list"
  st_generation :: nat
  st_tail :: "tail option"

definition derived :: "'l store \<Rightarrow> 'l quads_source \<Rightarrow> tail option \<Rightarrow> 'l store" where
  "derived self quads tail =
     \<lparr> st_quads = quads, st_layout = st_layout self, st_indexes = st_indexes self,
        st_generation = st_generation self, st_tail = tail \<rparr>"

definition tail_len :: "'l store \<Rightarrow> nat" where
  "tail_len self = (case st_tail self of None \<Rightarrow> 0 | Some tail \<Rightarrow> rows_len (tail_rows tail))"

definition is_code_view :: "'l store \<Rightarrow> bool" where
  "is_code_view self \<longleftrightarrow> strategy (st_layout self) = DictionaryLayout \<and> tail_len self = 0"

text \<open>The wording of the messages is left out: an error is told by its kind.\<close>

definition ensure_no_dictionary_tail :: "'l store \<Rightarrow> string \<Rightarrow> unit fallible" where
  "ensure_no_dictionary_tail self operation =
     (if strategy (st_layout self) = DictionaryLayout \<and> tail_len self \<noteq> 0
      then Inl (InvalidOperation [operation]) else Inr ())"

definition ensure_code_view :: "'l store \<Rightarrow> string \<Rightarrow> unit fallible" where
  "ensure_code_view self operation =
     (if strategy (st_layout self) \<noteq> DictionaryLayout then Inl (InvalidOperation [operation])
      else ensure_no_dictionary_tail self operation)"

definition empty_view :: "'l store \<Rightarrow> 'l store" where
  "empty_view self =
     (derived self (emptied (st_quads self))
        (map_option (\<lambda>tail. tail_with_selection tail empty_selection) (st_tail self)))\<lparr> st_indexes := [] \<rparr>"

section \<open>Counts\<close>

definition uadd :: "nat \<Rightarrow> nat \<Rightarrow> nat option" where
  "uadd a b = (if a + b \<le> usize_max then Some (a + b) else None)"

definition live_count_of ::
    "'k compute_scheme \<Rightarrow> 'l quads_source \<Rightarrow> (nat option \<times> 'l quads_source) option" where
  "live_count_of fl self =
     map_option (\<lambda>(n, vs). (n, self\<lparr> qs_selection := vs \<rparr>))
       (view_count fl (qs_selection self) (qs_deleted self) (base_len self))"

definition base_size :: "'k compute_scheme \<Rightarrow> 'l store \<Rightarrow> (nat \<times> 'l store) option" where
  "base_size fl self =
     do {
       (counted, quads) \<leftarrow> live_count_of fl (st_quads self);
       let self = self\<lparr> st_quads := quads \<rparr>;
       (case counted of
          Some live \<Rightarrow> Some (live, self)
        | None \<Rightarrow>
            do {
              (sel, quads) \<leftarrow> materialized_selection fl quads;
              n \<leftarrow> live_len sel (qs_deleted quads) (base_len quads);
              Some (n, self\<lparr> st_quads := quads \<rparr>)
            })
     }"

definition tail_size :: "'l store \<Rightarrow> nat option" where
  "tail_size self = (case st_tail self of None \<Rightarrow> Some 0 | Some tail \<Rightarrow> tail_live_len tail)"

definition store_size :: "'k compute_scheme \<Rightarrow> 'l store \<Rightarrow> (nat \<times> 'l store) option" where
  "store_size fl self =
     do {
       (base, self) \<leftarrow> base_size fl self;
       appended \<leftarrow> tail_size self;
       n \<leftarrow> uadd base appended;
       Some (n, self)
     }"

definition base_size_capped :: "'k compute_scheme \<Rightarrow> 'l store \<Rightarrow> nat \<Rightarrow> (nat \<times> 'l store) option" where
  "base_size_capped fl self limit =
     do {
       (counted, vs) \<leftarrow> view_count_capped fl (qs_selection (st_quads self)) limit (qs_deleted (st_quads self));
       let self = self\<lparr> st_quads := (st_quads self)\<lparr> qs_selection := vs \<rparr> \<rparr>;
       (case counted of
          Some n \<Rightarrow> Some (n, self)
        | None \<Rightarrow> map_option (\<lambda>(n, self). (min n limit, self)) (base_size fl self))
     }"

definition size_capped :: "'k compute_scheme \<Rightarrow> 'l store \<Rightarrow> nat \<Rightarrow> (nat \<times> 'l store) option" where
  "size_capped fl self limit =
     (if limit = 0 then Some (0, self)
      else do {
        (base, self) \<leftarrow> base_size_capped fl self limit;
        if limit \<le> base then Some (limit, self)
        else do {
          appended \<leftarrow> tail_size self;
          n \<leftarrow> uadd base appended;
          Some (min n limit, self)
        }
      })"

definition store_exists :: "'k compute_scheme \<Rightarrow> 'l store \<Rightarrow> (bool \<times> 'l store) option" where
  "store_exists fl self = map_option (\<lambda>(n, self). (0 < n, self)) (size_capped fl self 1)"

text \<open>The base's rows as far as they are known.\<close>

record known_rows =
  br_live :: "nat option"
  br_selected :: nat

definition base_rows ::
    "'k compute_scheme \<Rightarrow> 'l quads_source \<Rightarrow> (nat \<Rightarrow> bool) \<Rightarrow> (known_rows \<times> 'l quads_source) option" where
  "base_rows fl self counts =
     (let known = view_len_if_known (qs_selection self) (base_len self);
          selected = (case known of None \<Rightarrow> base_len self | Some n \<Rightarrow> n)
      in map_option (\<lambda>(live, self). (\<lparr> br_live = live, br_selected = selected \<rparr>, self))
           (if qs_deleted self = None then Some (known, self)
            else if counts selected then live_count_of fl self else Some (None, self)))"

definition rows_upper_bound :: "known_rows \<Rightarrow> nat" where
  "rows_upper_bound self = (case br_live self of None \<Rightarrow> br_selected self | Some n \<Rightarrow> n)"

section \<open>What a selection selects\<close>

text \<open>The base rows a selection stands for, in ascending order. Ids that a narrowing of a served view
  holds are live.\<close>

fun selects :: "'k compute_scheme \<Rightarrow> nat \<Rightarrow> mask option \<Rightarrow> 'l view_selection \<Rightarrow> nat list \<Rightarrow> bool" where
  "selects fl n deleted (ExactRows sel) rows \<longleftrightarrow> wf_selection n sel \<and> rows = covered sel n"
| "selects fl n deleted (PendingIds row_ids matched) rows \<longleftrightarrow>
     (\<exists>ids. lazy_of fl ids row_ids \<and> rows = sort ids \<and> (\<forall>i \<in> set ids. i < n) \<and>
        (\<forall>all cell m. row_ids = UnsortedIds all cell \<longrightarrow> deleted = Some m \<longrightarrow> (\<forall>i \<in> set ids. \<not> m ! i)))"
| "selects fl n deleted (PendingCompare residual) rows \<longleftrightarrow>
     wf_pending fl residual \<and> pending_len residual = n \<and> rows = pending_matches residual"

lemma live_of_rows: "live_rows sel deleted n = live_of deleted (covered sel n)"
  by (simp add: live_rows_def live_of_def)

lemma pending_matches_ascending: "wf_pending fl self \<Longrightarrow> ascending (pending_matches self)"
  using covered_ascending
  by (auto simp: pending_matches_def wf_pending_def wf_residual_def pending_compare_def pending_len_def rc_len_def
      intro!: ascending_filter)

lemma pending_matches_bound: "wf_pending fl self \<Longrightarrow> i \<in> set (pending_matches self) \<Longrightarrow> i < pending_len self"
  using covered_bound
  by (auto simp: pending_matches_def wf_pending_def wf_residual_def pending_compare_def pending_len_def rc_len_def)

lemma ascending_sort_ids: "unique_ids ids \<Longrightarrow> ascending (sort ids)"
  by (simp add: unique_ids_def strict_sorted_iff)

lemma selects_rows:
  assumes "selects fl n deleted vs rows"
  shows "ascending rows" "\<forall>i \<in> set rows. i < n"
  using assms covered_ascending covered_bound ascending_sort_ids lazy_unique
    pending_matches_ascending pending_matches_bound
  by (cases vs; fastforce simp del: lazy_of.simps)+

lemma view_materialized_rows:
  assumes "selects fl n deleted vs rows"
  shows "\<exists>sel vs'. view_materialized fl vs = Some (sel, vs') \<and> wf_selection n sel \<and> covered sel n = rows \<and>
    selects fl n deleted vs' rows"
proof (cases vs)
  case (ExactRows sel)
  then show ?thesis using assms by auto
next
  case (PendingIds row_ids matched)
  then obtain ids where ids: "lazy_of fl ids row_ids" "rows = sort ids"
      "\<forall>all cell m. row_ids = UnsortedIds all cell \<longrightarrow> deleted = Some m \<longrightarrow> (\<forall>i \<in> set ids. \<not> m ! i)"
    using assms by (auto simp del: lazy_of.simps)
  obtain row_ids' where out: "lazy_materialized fl row_ids = Some (sort ids, row_ids')" "lazy_of fl ids row_ids'"
    using lazy_materialized_sorts [OF ids(1)] by blast
  have "\<exists>all cell. row_ids = UnsortedIds all cell" if "row_ids' = UnsortedIds all' cell'" for all' cell'
    using out(1) that by (cases row_ids) (auto split: option.splits Option.bind_splits)
  then have "selects fl n deleted (PendingIds row_ids' matched) rows"
    using out(2) ids selects_rows [OF assms] by (fastforce simp del: lazy_of.simps)
  then show ?thesis
    using PendingIds out(1) selects_rows [OF assms] ids(2) by (auto simp del: lazy_of.simps selects.simps)
next
  case (PendingCompare residual)
  then have r: "wf_pending fl residual" "pending_len residual = n" "rows = pending_matches residual"
    using assms by simp_all
  obtain residual' where out: "materialized fl residual = Some (rows, residual')" "wf_pending fl residual'"
      "residual' = residual\<lparr> pd_ids := Some rows \<rparr>"
    using materialized_matches [OF r(1)] r(3) by auto
  then have "selects fl n deleted (PendingCompare residual') rows"
    using r by (simp add: pending_len_def pending_matches_def)
  then show ?thesis using PendingCompare out(1) selects_rows [OF assms] by simp
qed

lemma live_len_of_rows:
  assumes "wf_selection n sel" "wf_deleted n deleted"
  shows "live_len sel deleted n = Some (length (live_of deleted (covered sel n)))"
  using live_len_counts [OF assms] by (simp add: live_of_rows)

lemma live_of_sort: "length (live_of d (sort ids)) = length (live_of d ids)"
  unfolding live_of_def filter_sort by simp

lemma materialized_len: "materialized fl self = Some (ids, self') \<Longrightarrow> pending_len self' = pending_len self"
  by (auto simp: materialized_def pending_len_def Let_def split: option.splits Option.bind_splits)

lemma view_count_rows:
  assumes sel: "selects fl n deleted vs rows" and d: "wf_deleted n deleted"
  shows "\<exists>vs'. view_count fl vs deleted n = Some (Some (length (live_of deleted rows)), vs') \<and>
    selects fl n deleted vs' rows"
proof (cases vs)
  case (ExactRows sel)
  then show ?thesis using assms live_len_of_rows by auto
next
  case (PendingIds row_ids matched)
  then obtain ids where ids: "lazy_of fl ids row_ids" "rows = sort ids" "\<forall>i \<in> set ids. i < n"
      "\<forall>all cell m. row_ids = UnsortedIds all cell \<longrightarrow> deleted = Some m \<longrightarrow> (\<forall>i \<in> set ids. \<not> m ! i)"
    using sel by (auto simp del: lazy_of.simps)
  show ?thesis
  proof (cases deleted)
    case None
    obtain row_ids' where "lazy_count fl row_ids = Some (Some (length ids), row_ids')" "lazy_of fl ids row_ids'"
      using lazy_count_length [OF ids(1)] by blast
    then show ?thesis using PendingIds None ids by (auto simp del: lazy_of.simps)
  next
    case (Some m)
    obtain row_ids' where out: "live_len_without_io fl row_ids m = Some (length (filter (\<lambda>i. \<not> m ! i) ids), row_ids')"
        "lazy_of fl ids row_ids'"
      using live_len_live [OF ids(1), of m] ids(3,4) d Some by auto
    have "\<exists>all cell. row_ids = UnsortedIds all cell" if "row_ids' = UnsortedIds all' cell'" for all' cell'
      using out(1) that by (cases row_ids) (auto split: option.splits Option.bind_splits)
    then have "selects fl n deleted (PendingIds row_ids' matched) rows"
      using out(2) ids by (fastforce simp del: lazy_of.simps)
    moreover have "length (live_of deleted rows) = length (filter (\<lambda>i. \<not> m ! i) ids)"
      unfolding ids(2) live_of_sort by (simp add: live_of_def Some)
    ultimately show ?thesis using PendingIds Some out(1) by (auto simp del: lazy_of.simps selects.simps)
  qed
next
  case (PendingCompare residual)
  then have r: "wf_pending fl residual" "pending_len residual = n" "rows = pending_matches residual"
    using sel by simp_all
  obtain residual' where out: "pending_count fl residual deleted = Some (length (live_of deleted rows), residual')"
      "wf_pending fl residual'" "pending_matches residual' = rows"
    using pending_answers_lemma(1) [OF r(1), of deleted] d r(2,3) by auto
  have "pending_len residual' = n"
    using out(1) r(2) by (auto simp: pending_count_def materialized_len split: if_splits Option.bind_splits)
  then show ?thesis using PendingCompare out by simp
qed

lemma view_count_capped_rows:
  assumes sel: "selects fl n deleted vs rows" and d: "wf_deleted n deleted"
  shows "\<exists>counted vs'. view_count_capped fl vs limit deleted = Some (counted, vs') \<and>
    selects fl n deleted vs' rows \<and> counted \<in> {None, Some (min (length (live_of deleted rows)) limit)}"
proof (cases vs)
  case (PendingIds row_ids matched)
  then obtain ids where ids: "lazy_of fl ids row_ids" "rows = sort ids"
    using sel by (auto simp del: lazy_of.simps)
  show ?thesis
    using lazy_count_capped_min [OF ids(1), of limit] sel PendingIds ids(2)
    by (cases deleted) (auto simp del: lazy_of.simps selects.simps)
next
  case (PendingCompare residual)
  then have r: "wf_pending fl residual" "pending_len residual = n" "rows = pending_matches residual"
    using sel by simp_all
  obtain residual' where out: "count_capped fl residual limit deleted = Some (min (length (live_of deleted rows)) limit, residual')"
      "wf_pending fl residual'" "pending_matches residual' = rows"
    using pending_answers_lemma(2) [OF r(1), of deleted] d r(2,3) by auto
  have "pending_len residual' = n"
    using out(1) r(2) by (auto simp: count_capped_def materialized_len split: if_splits Option.bind_splits)
  then show ?thesis using PendingCompare out by simp
qed (use sel in auto)

lemma view_window_rows:
  assumes sel: "selects fl n deleted vs rows" and d: "wf_deleted n deleted"
  shows "\<exists>w vs'. view_window fl vs offset limit deleted = Some (w, vs') \<and> selects fl n deleted vs' rows \<and>
    (\<forall>sel seen. w = Some (sel, seen) \<longrightarrow> wf_selection n sel \<and>
       covered sel n = take limit (drop offset (live_of deleted rows)) \<and>
       at_least seen \<le> length (live_of deleted rows) \<and>
       (case seen of Exact m \<Rightarrow> m = length (live_of deleted rows) | AtLeast m \<Rightarrow> True))"
proof -
  let ?part = "take limit (drop offset (live_of deleted rows))"
  have part: "wf_selection n (from_ids ?part)" "covered (from_ids ?part) n = ?part"
    using selects_rows [OF sel]
    by (auto simp: live_of_def intro!: ascending_take_drop ascending_filter dest!: in_take_drop)
  show ?thesis
  proof (cases vs)
    case (PendingIds row_ids matched)
    then obtain ids where ids: "lazy_of fl ids row_ids" "rows = sort ids"
      using sel by (auto simp del: lazy_of.simps)
    show ?thesis
    proof (cases "deleted = None \<and> window_with_live fl row_ids offset limit \<noteq> Some None")
      case True
      then obtain seen where out: "window_with_live fl row_ids offset limit = Some (Some (take limit (drop offset (sort ids)), seen))"
          "at_least seen \<le> length ids" "case seen of Exact n \<Rightarrow> n = length ids | AtLeast n \<Rightarrow> True"
        using window_with_live_slice [OF ids(1), of offset limit] by blast
      have "length ids = length (live_of deleted rows)" "take limit (drop offset (sort ids)) = ?part"
        using True ids(2) by simp_all
      then show ?thesis
        using True out sel PendingIds part by (cases seen) (simp_all del: selects.simps)
    next
      case False
      then have "view_window fl vs offset limit deleted = Some (None, vs)" using PendingIds by (cases deleted) simp_all
      then show ?thesis using sel by auto
    qed
  next
    case (PendingCompare residual)
    then have r: "wf_pending fl residual" "pending_len residual = n" "rows = pending_matches residual"
      using sel by simp_all
    obtain residual' seen where out: "pending_window fl residual offset limit deleted = Some ((?part, seen), residual')"
        "at_least seen \<le> length (live_of deleted rows)"
        "case seen of Exact m \<Rightarrow> m = length (live_of deleted rows) | AtLeast m \<Rightarrow> True"
        "wf_pending fl residual'" "pending_matches residual' = rows"
      using pending_answers_lemma(3) [OF r(1), of deleted offset limit] d r(2,3) by auto
    have "pending_len residual' = n"
      using out(1) r(2) by (auto simp: pending_window_def materialized_len Let_def case_prod_unfold
          split: if_splits Option.bind_splits)
    then show ?thesis using PendingCompare out part by simp
  qed (use sel in auto)
qed

section \<open>What a store holds\<close>

text \<open>A base holds quads: its columns are those of the schema and hold their cells, its children and zone maps are theirs, and
  the stamp of the order is true. The bases are those of the Default and the Dictionary layouts,
  whose columns have no nulls.\<close>

definition quad_keys :: "(string \<times> quad_column) list" where
  "quad_keys = map (\<lambda>c. (column_name c, c)) all_columns"

definition holds_quads :: "'l oxrdf \<Rightarrow> term_dictionary \<Rightarrow> resolved_layout \<Rightarrow> 'l rdf_quad list \<Rightarrow> bool" where
  "holds_quads ox d layout qs \<longleftrightarrow>
     length qs \<le> usize_max \<and> (\<forall>q \<in> set qs. wf_quad ox q) \<and>
     (case layout of
        ResolvedDefault \<Rightarrow> True
      | ResolvedTypedObject \<Rightarrow> False
      | ResolvedDictionary access \<Rightarrow> wf_dictionary d \<and> accesses d access \<and> (\<forall>q \<in> set qs. held_by ox d q))"

definition schema_dtype :: "dtype \<Rightarrow> row_dtype" where
  "schema_dtype ty = map (\<lambda>c. (column_name c, ty, False)) all_columns"

definition base_of ::
    "'k compute_scheme \<Rightarrow> 'l oxrdf \<Rightarrow> term_dictionary \<Rightarrow> resolved_layout \<Rightarrow> 'l rdf_quad list \<Rightarrow> resident_base \<Rightarrow> bool" where
  "base_of fl ox d layout qs memory \<longleftrightarrow>
     (let input = layout_input ox d layout qs
      in holds_quads ox d layout qs \<and> table_dtype (mem_table memory) = schema_dtype (input_type input) \<and> wf_memory fl (memory_base.truncate memory) \<and>
         tb_len (mem_table memory) = length qs \<and>
         (\<forall>c. typed_column (mem_table memory) (column_name c) (input_type input) (input_cells input c)) \<and>
         (\<forall>part \<in> set (rb_components memory). \<exists>perm. component_of fl input part perm) \<and>
         (rb_sorted memory \<longrightarrow> sorted (map (key_at (input_cells input) quad_keys) [0..<length qs])))"

text \<open>A plan serves rows: those of an index child that its span covers are, beside the tombstones,
  the rows the view selects, and the child's columns hold their cells, which the plan decodes by the
  store's layout. The run's ids are \<open>all\<close>.\<close>

definition plan_ids :: "serve_plan \<Rightarrow> nat list" where
  "plan_ids plan = map (\<lambda>s. case unsigned_value s of None \<Rightarrow> 0 | Some rid \<Rightarrow> rid) (cr_rids (sp_ids plan))"

definition run_rows :: "serve_plan \<Rightarrow> (nat \<times> nat) list" where
  "run_rows plan = enumerate (fst (sp_run plan)) (plan_ids plan)"

definition plan_reads :: "index_input \<Rightarrow> serve_plan \<Rightarrow> bool" where
  "plan_reads input plan \<longleftrightarrow>
     (\<forall>c. \<exists>col. map_of (tb_columns (sp_array plan)) (column_name c) = Some col \<and> col_type col = input_type input \<and>
        (\<forall>s \<in> set (col_cells col). fits (input_type input) s) \<and> snd (sp_run plan) \<le> length (col_cells col) \<and>
        (\<forall>(i, rid) \<in> set (run_rows plan). i < length (col_cells col) \<and> col_cells col ! i = input_cells input c ! rid)) \<and>
     (\<exists>col. map_of (tb_columns (sp_array plan)) ''rid'' = Some col \<and> col_type col = UInt 8 \<and>
        (\<forall>(i, rid) \<in> set (run_rows plan). i < length (col_cells col) \<and> col_cells col ! i = CodeScalar rid))"

definition serves ::
    "'k kernels_scheme \<Rightarrow> resolved_layout \<Rightarrow> index_input \<Rightarrow> mask option \<Rightarrow> nat list \<Rightarrow> serve_plan \<Rightarrow> bool" where
  "serves fl layout input deleted rows plan \<longleftrightarrow>
     plan_of (plan_ids plan) plan \<and> unique_ids (plan_ids plan) \<and> (\<forall>i \<in> set (plan_ids plan). i < input_rows input) \<and>
     plan_reads input plan \<and> wf_table fl (sp_array plan) \<and> sd_layout (sp_decode plan) = copy_decode_layout layout \<and>
     (case sp_span plan of
        SpanRange a b \<Rightarrow> True
      | SpanKept kept \<Rightarrow> set (positions_and_rids kept) \<subseteq> set (run_rows plan) \<and> distinct (sr_rids kept)) \<and>
     set (map snd (served (plan_ids plan) plan deleted)) = set (live_of deleted rows)"

fun named_pattern :: "'l view_selection \<Rightarrow> 'l quad_pattern option" where
  "named_pattern (PendingIds row_ids matched) = matched"
| "named_pattern vs = None"

text \<open>Ids that a narrowing of a served view holds are in the plan's order.\<close>

definition in_plan_order :: "'l quads_source \<Rightarrow> bool" where
  "in_plan_order source \<longleftrightarrow>
     (\<forall>plan ids. rb_serve (qs_memory source) = Some plan \<longrightarrow> held_index_order (qs_selection source) = Some ids \<longrightarrow>
        ids = map snd (served (plan_ids plan) plan (qs_deleted source)))"

lemma in_plan_order_triv [simp]:
  "rb_serve (qs_memory source) = None \<Longrightarrow> in_plan_order source"
  "held_index_order (qs_selection source) = None \<Longrightarrow> in_plan_order source"
  by (simp_all add: in_plan_order_def)

definition source_of ::
    "'k compute_scheme \<Rightarrow> 'l oxrdf \<Rightarrow> term_dictionary \<Rightarrow> resolved_layout \<Rightarrow> 'l rdf_quad list \<Rightarrow>
     'l quads_source \<Rightarrow> nat list \<Rightarrow> bool" where
  "source_of fl ox d layout qs source rows \<longleftrightarrow>
     base_of fl ox d layout qs (qs_memory source) \<and> wf_deleted (length qs) (qs_deleted source) \<and>
     selects fl (length qs) (qs_deleted source) (qs_selection source) rows \<and>
     (\<forall>p. named_pattern (qs_selection source) = Some p \<longrightarrow>
        wf_pattern ox p \<and> rows = filter (\<lambda>i. quad_matches p (qs ! i)) [0..<length qs]) \<and>
     (\<forall>plan. rb_serve (qs_memory source) = Some plan \<longrightarrow>
        serves fl layout (layout_input ox d layout qs) (qs_deleted source) rows plan) \<and>
     in_plan_order source"

text \<open>A store holds the quads \<open>qs\<close> in its base and \<open>appended\<close> in its tail; a view of it shows the base's
  rows \<open>rows\<close> that no tombstone hides, and its tail's quads.\<close>

definition store_of ::
    "'k compute_scheme \<Rightarrow> 'l oxrdf \<Rightarrow> hasher \<Rightarrow> term_dictionary \<Rightarrow> 'l rdf_quad list \<Rightarrow> 'l rdf_quad list \<Rightarrow>
     'l store \<Rightarrow> nat list \<Rightarrow> bool" where
  "store_of fl ox fx d qs appended self rows \<longleftrightarrow>
     source_of fl ox d (st_layout self) qs (st_quads self) rows \<and>
     (\<forall>tail. st_tail self = Some tail \<longrightarrow>
        tail_of ox fl fx appended tail \<and> tail_layout tail = layout_for (st_layout self))"

text \<open>A view reads its base's rows in its plan's order, or in the base's.\<close>

definition view_rows :: "'l quads_source \<Rightarrow> nat list \<Rightarrow> nat list" where
  "view_rows source rows =
     (case rb_serve (qs_memory source) of
        None \<Rightarrow> live_of (qs_deleted source) rows
      | Some plan \<Rightarrow> map snd (served (plan_ids plan) plan (qs_deleted source)))"

lemma view_rows_reselected [simp]: "view_rows (source\<lparr> qs_selection := vs \<rparr>) rows = view_rows source rows"
  by (simp add: view_rows_def split: option.split)

definition base_quads :: "'l rdf_quad list \<Rightarrow> 'l store \<Rightarrow> nat list \<Rightarrow> 'l rdf_quad list" where
  "base_quads qs self rows = map ((!) qs) (view_rows (st_quads self) rows)"

definition appended_quads :: "'l rdf_quad list \<Rightarrow> 'l store \<Rightarrow> 'l rdf_quad list" where
  "appended_quads appended self =
     (case st_tail self of None \<Rightarrow> [] | Some tail \<Rightarrow> tail_quads appended tail)"

definition store_quads :: "'l rdf_quad list \<Rightarrow> 'l rdf_quad list \<Rightarrow> 'l store \<Rightarrow> nat list \<Rightarrow> 'l rdf_quad list" where
  "store_quads qs appended self rows = base_quads qs self rows @ appended_quads appended self"

section \<open>Counts are right\<close>

lemma source_len: "source_of fl ox d layout qs source rows \<Longrightarrow> base_len source = length qs"
  by (simp add: source_of_def base_of_def base_len_def Let_def)

lemma lazy_order_kept:
  "lazy_materialized fl row_ids = Some (ids, row_ids') \<Longrightarrow> live_index_order row_ids' = live_index_order row_ids"
  "lazy_count fl row_ids = Some (n, row_ids') \<Longrightarrow> live_index_order row_ids' = live_index_order row_ids"
  "live_len_without_io fl row_ids m = Some (n', row_ids') \<Longrightarrow> live_index_order row_ids' = live_index_order row_ids"
  by (cases row_ids; auto split: option.splits Option.bind_splits if_splits)+

lemma named_kept:
  "view_materialized fl vs = Some (sel, vs') \<Longrightarrow>
     named_pattern vs' = named_pattern vs \<and> held_index_order vs' = held_index_order vs"
  "view_count fl vs deleted n = Some (counted, vs') \<Longrightarrow>
     named_pattern vs' = named_pattern vs \<and> held_index_order vs' = held_index_order vs"
  "view_count_capped fl vs limit deleted = Some (counted, vs') \<Longrightarrow>
     named_pattern vs' = named_pattern vs \<and> held_index_order vs' = held_index_order vs"
  "view_window fl vs offset limit deleted = Some (w, vs') \<Longrightarrow>
     named_pattern vs' = named_pattern vs \<and> held_index_order vs' = held_index_order vs"
  by (cases vs; cases deleted; auto simp: lazy_order_kept)+

lemma source_reselected:
  assumes "source_of fl ox d layout qs source rows" "selects fl (length qs) (qs_deleted source) vs rows"
    and "named_pattern vs = named_pattern (qs_selection source) \<and> held_index_order vs = held_index_order (qs_selection source)"
  shows "source_of fl ox d layout qs (source\<lparr> qs_selection := vs \<rparr>) rows"
  using assms by (simp add: source_of_def in_plan_order_def)

lemma source_facts:
  assumes "source_of fl ox d layout qs source rows"
  shows "selects fl (length qs) (qs_deleted source) (qs_selection source) rows"
    "wf_deleted (length qs) (qs_deleted source)" "base_of fl ox d layout qs (qs_memory source)"
  using assms by (simp_all add: source_of_def)

lemma plan_ids_of: "plan_of all plan \<Longrightarrow> plan_ids plan = all"
  by (simp add: plan_ids_def plan_of_def comp_def)

lemma plan_rows_run:
  assumes "serves fl layout input deleted rows plan"
  shows "set (plan_rows (plan_ids plan) plan) \<subseteq> set (run_rows plan)"
    "distinct (map snd (plan_rows (plan_ids plan) plan))"
proof -
  let ?all = "plan_ids plan" and ?s = "fst (sp_run plan)"
  have plan: "plan_of ?all plan" "unique_ids ?all" using assms by (simp_all add: serves_def)
  have "set (plan_rows ?all plan) \<subseteq> set (run_rows plan) \<and> distinct (map snd (plan_rows ?all plan))"
  proof (cases "sp_span plan")
    case (SpanRange a b)
    then have ab: "?s \<le> a" "a \<le> b" "b \<le> ?s + length ?all" using plan(1) by (simp_all add: plan_of_def)
    have rows: "plan_rows ?all plan = map (\<lambda>i. (i, ?all ! (i - ?s))) [a..<b]" by (simp add: plan_rows_def SpanRange)
    have "distinct (map (\<lambda>i. ?all ! (i - ?s)) [a..<b])"
      using ab plan(2) by (auto simp: distinct_map inj_on_def unique_ids_def nth_eq_iff_index_eq)
    then show ?thesis
      using ab by (auto simp: rows run_rows_def in_set_enumerate_eq comp_def)
  next
    case (SpanKept kept)
    then have "length (sr_positions kept) = length (sr_rids kept)" using plan(1) by (simp add: plan_of_def)
    then show ?thesis
      using assms SpanKept by (simp add: serves_def plan_rows_def positions_and_rids_def)
  qed
  then show "set (plan_rows ?all plan) \<subseteq> set (run_rows plan)" "distinct (map snd (plan_rows ?all plan))" by blast+
qed

lemma served_rows_of: "set (served all plan deleted) \<subseteq> set (plan_rows all plan)"
  by (auto simp: served_def split: served_span.split option.split)

lemma served_distinct:
  assumes "distinct (map snd (plan_rows all plan))"
  shows "distinct (map snd (served all plan deleted))"
  using assms by (auto simp: served_def distinct_map_filter split: served_span.split option.split)

lemma view_rows_live:
  assumes "source_of fl ox d layout qs source rows"
  shows "distinct (view_rows source rows)" "set (view_rows source rows) = set (live_of (qs_deleted source) rows)"
    "length (view_rows source rows) = length (live_of (qs_deleted source) rows)"
proof -
  have asc: "ascending rows" using source_facts(1) [OF assms] by (rule selects_rows)
  then have live: "distinct (live_of (qs_deleted source) rows)"
    by (simp add: live_of_def ascending_distinct)
  show distinct: "distinct (view_rows source rows)"
    using assms live by (auto simp: view_rows_def source_of_def split: option.split intro!: served_distinct plan_rows_run(2))
  show set: "set (view_rows source rows) = set (live_of (qs_deleted source) rows)"
    using assms by (auto simp: view_rows_def source_of_def serves_def split: option.split)
  show "length (view_rows source rows) = length (live_of (qs_deleted source) rows)"
    using distinct_card [OF distinct] distinct_card [OF live] set by simp
qed

lemma live_count_of_rows:
  assumes "source_of fl ox d layout qs source rows"
  shows "\<exists>vs. live_count_of fl source =
      Some (Some (length (view_rows source rows)), source\<lparr> qs_selection := vs \<rparr>) \<and>
    source_of fl ox d layout qs (source\<lparr> qs_selection := vs \<rparr>) rows \<and>
    named_pattern vs = named_pattern (qs_selection source)"
proof -
  note facts = source_facts [OF assms]
  obtain vs where vs: "view_count fl (qs_selection source) (qs_deleted source) (length qs) =
      Some (Some (length (live_of (qs_deleted source) rows)), vs)"
      "selects fl (length qs) (qs_deleted source) vs rows"
    using view_count_rows [OF facts(1,2)] by blast
  then show ?thesis
    using source_reselected [OF assms vs(2) named_kept(2) [OF vs(1)]] named_kept(2) [OF vs(1)]
    by (intro exI [of _ vs]) (simp add: live_count_of_def source_len [OF assms] view_rows_live(3) [OF assms])
qed

text \<open>Two stores that differ only in what a pending selection has kept hold the same.\<close>

definition same_store :: "'l store \<Rightarrow> 'l store \<Rightarrow> bool" where
  "same_store self self' \<longleftrightarrow>
     (\<exists>vs. self' = self\<lparr> st_quads := (st_quads self)\<lparr> qs_selection := vs \<rparr> \<rparr> \<and>
       named_pattern vs = named_pattern (qs_selection (st_quads self)))"

lemma same_store_refl: "same_store self self"
  unfolding same_store_def by (intro exI [of _ "qs_selection (st_quads self)"]) simp

lemma same_store_trans: "same_store a b \<Longrightarrow> same_store b c \<Longrightarrow> same_store a c"
  unfolding same_store_def by auto

lemma same_store_quads:
  assumes "same_store self self'"
  shows "store_quads qs appended self' rows = store_quads qs appended self rows" "tail_size self' = tail_size self"
  using assms by (auto simp: same_store_def store_quads_def base_quads_def appended_quads_def tail_size_def)

lemma base_size_rows:
  assumes "store_of fl ox fx d qs appended self rows"
  shows "\<exists>self'. base_size fl self = Some (length (base_quads qs self rows), self') \<and>
    store_of fl ox fx d qs appended self' rows \<and> same_store self self'"
proof -
  have source: "source_of fl ox d (st_layout self) qs (st_quads self) rows" using assms by (simp add: store_of_def)
  obtain vs where vs: "live_count_of fl (st_quads self) =
      Some (Some (length (view_rows (st_quads self) rows)), (st_quads self)\<lparr> qs_selection := vs \<rparr>)"
      "source_of fl ox d (st_layout self) qs ((st_quads self)\<lparr> qs_selection := vs \<rparr>) rows"
      "named_pattern vs = named_pattern (qs_selection (st_quads self))"
    using live_count_of_rows [OF source] by blast
  then show ?thesis
    using vs assms
    by (intro exI [of _ "self\<lparr> st_quads := (st_quads self)\<lparr> qs_selection := vs \<rparr> \<rparr>"])
       (auto simp: base_size_def base_quads_def store_of_def same_store_def)
qed

lemma tail_size_quads:
  assumes "store_of fl ox fx d qs appended self rows"
  shows "tail_size self = Some (length (appended_quads appended self))"
proof (cases "st_tail self")
  case (Some tail)
  then have tail: "tail_of ox fl fx appended tail" using assms by (simp add: store_of_def)
  have wf: "wf_selection (length appended) (tail_selection tail)" "wf_deleted (length appended) (tail_deleted tail)"
    using tail by (simp_all add: tail_of_def)
  show ?thesis
    using live_len_counts [OF wf] Some tail_len [OF tail]
    by (simp add: tail_size_def tail_live_len_def appended_quads_def tail_quads_def)
qed (simp add: tail_size_def appended_quads_def)

lemma store_size_quads:
  assumes "store_of fl ox fx d qs appended self rows" "length (store_quads qs appended self rows) \<le> usize_max"
  shows "\<exists>self'. store_size fl self = Some (length (store_quads qs appended self rows), self') \<and>
    store_of fl ox fx d qs appended self' rows \<and> same_store self self'"
proof -
  obtain self' where base: "base_size fl self = Some (length (base_quads qs self rows), self')"
      "store_of fl ox fx d qs appended self' rows" "same_store self self'"
    using base_size_rows [OF assms(1)] by blast
  then show ?thesis
    using tail_size_quads [OF assms(1)] assms(2)
    by (intro exI [of _ self']) (simp add: store_size_def same_store_quads store_quads_def uadd_def)
qed

lemma size_capped_quads:
  assumes "store_of fl ox fx d qs appended self rows" "length (store_quads qs appended self rows) \<le> usize_max"
  shows "\<exists>self'. size_capped fl self limit = Some (min (length (store_quads qs appended self rows)) limit, self') \<and>
    store_of fl ox fx d qs appended self' rows \<and> same_store self self'"
proof -
  let ?n = "length (base_quads qs self rows)"
  have source: "source_of fl ox d (st_layout self) qs (st_quads self) rows" using assms by (simp add: store_of_def)
  note facts = source_facts [OF source]
  obtain counted vs where capped: "view_count_capped fl (qs_selection (st_quads self)) limit (qs_deleted (st_quads self)) =
        Some (counted, vs)"
      "selects fl (length qs) (qs_deleted (st_quads self)) vs rows" "counted \<in> {None, Some (min ?n limit)}"
    using view_count_capped_rows [OF facts(1,2), of limit] by (auto simp: base_quads_def view_rows_live(3) [OF source])
  let ?mid = "self\<lparr> st_quads := (st_quads self)\<lparr> qs_selection := vs \<rparr> \<rparr>"
  have mid: "store_of fl ox fx d qs appended ?mid rows" "same_store self ?mid"
    using source_reselected [OF source capped(2) named_kept(3) [OF capped(1)]] assms(1) named_kept(3) [OF capped(1)]
    by (auto simp: store_of_def same_store_def)
  obtain self' where self': "base_size_capped fl self limit = Some (min ?n limit, self')"
      "store_of fl ox fx d qs appended self' rows" "same_store self self'"
  proof (cases counted)
    case None
    obtain self' where "base_size fl ?mid = Some (length (base_quads qs ?mid rows), self')"
        "store_of fl ox fx d qs appended self' rows" "same_store ?mid self'"
      using base_size_rows [OF mid(1)] by blast
    then show ?thesis
      using that capped(1) None same_store_trans [OF mid(2)]
      by (auto simp: base_size_capped_def base_quads_def)
  next
    case (Some n)
    then show ?thesis using that capped mid by (auto simp: base_size_capped_def)
  qed
  show ?thesis
  proof (cases "limit = 0")
    case True
    then show ?thesis using assms(1) same_store_refl by (auto simp: size_capped_def)
  next
    case False
    then show ?thesis
      using self' tail_size_quads [OF assms(1)] assms(2) same_store_quads(2) [OF self'(3)]
      by (intro exI [of _ self']) (auto simp: size_capped_def store_quads_def uadd_def min_def)
  qed
qed

section \<open>Windows that stop counting are full\<close>

lemma cursor_limit_kept:
  "cursor_skips k b = (skipped, b') \<Longrightarrow> cur_limit b' = cur_limit b"
  "cursor_take xs b = Some b' \<Longrightarrow> cur_limit b' = cur_limit b"
  by (auto simp: cursor_skips_def cursor_take_def Let_def split: if_splits Option.bind_splits)

lemma window_loop_full:
  "window_loop fl self ps c = Some (ended, c') \<Longrightarrow> cur_limit c' = cur_limit c \<and> (\<not> ended \<longrightarrow> cursor_is_full c')"
proof (induction ps arbitrary: c)
  case (Cons part ps)
  show ?case
  proof (cases part)
    case None
    then show ?thesis using Cons.prems by simp
  next
    case (Some inner)
    show ?thesis
    proof (cases inner)
      case None
      then show ?thesis using Cons.prems Cons.IH [of c] Some by simp
    next
      case some: (Some p)
      show ?thesis
      proof (cases "cursor_is_full c")
        case True
        then show ?thesis using Cons.prems Some some by simp
      next
        case False
        obtain unread where unread: "part_unread fl self p = Some unread"
          using Cons.prems Some some False by (cases "part_unread fl self p") simp_all
        obtain skipped b where b: "(case unread of
            Some matches \<Rightarrow> if matches = 0 then (True, c) else cursor_skips matches c
          | None \<Rightarrow> (False, c)) = (skipped, b)" by fastforce
        have limit: "cur_limit b = cur_limit c"
          using b cursor_limit_kept(1) by (auto split: option.splits if_splits)
        have loop: "(if skipped then window_loop fl self ps b
            else do {
              matched \<leftarrow> part_matched fl self p;
              ids \<leftarrow> live_ids matched (rc_deleted self) (rc_len self);
              c'' \<leftarrow> cursor_take ids b;
              window_loop fl self ps c''
            }) = Some (ended, c')"
          using Cons.prems Some some False unread b by simp
        show ?thesis
        proof (cases skipped)
          case True
          then show ?thesis using loop Cons.IH [of b] limit by simp
        next
          case False
          then obtain ids c'' where "cursor_take ids b = Some c''" "window_loop fl self ps c'' = Some (ended, c')"
            using loop by (auto split: Option.bind_splits)
          then show ?thesis using Cons.IH [of c''] limit cursor_limit_kept(2) by fastforce
        qed
      qed
    qed
  qed
qed simp

lemma residual_window_full:
  assumes "residual_window fl self offset limit = Some (rows, AtLeast n)"
  shows "limit \<le> length rows"
proof -
  obtain sp ended c where c: "sel_span (selected_rows self) = Some sp"
      "window_loop fl self (walk_parts self sp (sat_add offset limit)) (cursor_new offset (Some limit)) = Some (ended, c)"
      "cursor_finish ended c = (rows, AtLeast n)"
    using assms by (auto simp: residual_window_def split: option.splits Option.bind_splits)
  then have "\<not> ended" "rows = cur_rows c" by (auto simp: cursor_finish_def split: if_splits)
  moreover have "cur_limit c = Some limit" "\<not> ended \<longrightarrow> cursor_is_full c"
    using window_loop_full [OF c(2)] by (simp_all add: cursor_new_def)
  ultimately show ?thesis by (simp add: cursor_is_full_def)
qed

lemma gc_window_full:
  assumes check: "check_of fl start ids check"
    and w: "gc_window fl check (map CodeScalar ids) offset limit = Some (rows, AtLeast n)"
  shows "limit \<le> length rows"
proof -
  let ?places = "filter (passes (gc_compare check)) [start..<start + length ids]"
  have wf: "wf_residual fl (gc_compare check)" using check by (simp add: check_of_def)
  have all: "matches_of (gc_compare check) (covered (rc_selection (gc_compare check)) (rc_len (gc_compare check))) = ?places"
    by (simp add: check_covered [OF check])
  obtain places where places: "residual_window fl (gc_compare check) offset limit = Some (places, AtLeast n)"
    using w by (auto simp: gc_window_def split: Option.bind_splits)
  have "places = take limit (drop offset ?places)"
    using residual_window_matches [OF wf, of offset limit] places unfolding all by auto
  moreover have "rows = take limit (drop offset (checked_ids start ids check))"
    using gc_window_checked [OF check, of offset limit] w by auto
  moreover have "length (checked_ids start ids check) = length ?places" by (simp add: checked_ids_def)
  ultimately have "length rows = length places" by simp
  then show ?thesis using residual_window_full [OF places] by simp
qed

lemma view_window_full:
  assumes sel: "selects fl n deleted vs rows"
    and w: "view_window fl vs offset limit deleted = Some (Some (sel, AtLeast seen), vs')"
  shows "limit \<le> length (covered sel n)"
proof (cases vs)
  case (ExactRows sel)
  then show ?thesis using w by simp
next
  case (PendingCompare residual)
  obtain ids residual' where out: "pending_window fl residual offset limit deleted = Some ((ids, AtLeast seen), residual')"
      "sel = from_ids ids"
    using w PendingCompare by auto
  then have "residual_window fl (pending_compare residual deleted) offset limit = Some (ids, AtLeast seen)"
    by (auto simp: pending_window_def Let_def case_prod_unfold split: if_splits Option.bind_splits)
  then show ?thesis using residual_window_full out(2) by simp
next
  case (PendingIds row_ids matched)
  then have d: "deleted = None" using w by (cases deleted) simp_all
  obtain ids where out: "window_with_live fl row_ids offset limit = Some (Some (ids, AtLeast seen))" "sel = from_ids ids"
    using w PendingIds d by auto
  then obtain run where run: "row_ids = CheckedIds run" "kr_window fl run offset limit = Some (ids, AtLeast seen)"
    by (cases row_ids) (auto split: if_splits option.splits)
  have known: "known_ids run = None"
    using run(2) by (auto simp: kr_window_def Let_def split: option.splits prod.splits)
  obtain start all where "kr_rids run = map CodeScalar all" "check_of fl start all (kr_check run)"
    using sel PendingIds run(1) by auto
  then show ?thesis
    using gc_window_full [of fl start all "kr_check run" offset limit ids seen] run(2) known out(2)
    by (simp add: kr_window_def)
qed

section \<open>Counts of a view\<close>

text \<open>A base of columns as they are built, with no child, no zone map and no stamp.\<close>

definition built_base :: "'l oxrdf \<Rightarrow> 'l rdf_quad list \<Rightarrow> resident_base" where
  "built_base ox qs =
     \<lparr> mem_table = StringLayouts.built ox DefaultStrings qs, mem_zones = replicate 4 None, rb_components = [],
        rb_sorted = False, rb_serve = None \<rparr>"

lemma built_base_of:
  assumes "\<forall>q \<in> set qs. wf_quad ox q" "length qs \<le> usize_max"
  shows "base_of fl ox d ResolvedDefault qs (built_base ox qs)"
proof -
  have "wf_table fl (StringLayouts.built ox DefaultStrings qs)"
    using built_ok [OF assms(2), of fl DefaultStrings ox] by (simp add: chunks_ok_def)
  moreover have "zones_get (replicate 4 None) slot = None" for slot
    by (simp add: zones_get_def buf_get_def)
  ultimately have "wf_memory fl (memory_base.truncate (built_base ox qs))"
    by (simp add: wf_memory_def built_base_def memory_base.defs)
  moreover have "typed_column (StringLayouts.built ox DefaultStrings qs) (column_name c) Utf8 (map (TextScalar \<circ> raw_field c) (map (from_quad ox) qs))" for c
    by (cases c) (auto simp: typed_column_def StringLayouts.built_def rows_table_def default_columns_def make_string_array_def)
  moreover have "tb_len (StringLayouts.built ox DefaultStrings qs) = length qs"
    "table_dtype (StringLayouts.built ox DefaultStrings qs) = schema_dtype Utf8"
    by (simp_all add: built_canonical built_dtype_def schema_dtype_def all_columns_def)
  ultimately show ?thesis
    using assms by (simp add: base_of_def holds_quads_def Let_def) (simp add: built_base_def)
qed

definition sample_store :: "mask option \<Rightarrow> plain_literal store" where
  "sample_store deleted =
     \<lparr> st_quads = (source_new (built_base plain_oxrdf sample_quads))\<lparr> qs_deleted := deleted \<rparr>,
        st_layout = ResolvedDefault, st_indexes = [], st_generation = 0, st_tail = None \<rparr>"

lemma sample_store_of:
  assumes "wf_deleted (length sample_quads) deleted"
  shows "store_of plain_compute plain_oxrdf fx d sample_quads [] (sample_store deleted) [0..<length sample_quads]"
proof -
  have "base_of plain_compute plain_oxrdf d ResolvedDefault sample_quads (built_base plain_oxrdf sample_quads)"
    using sample_quads_wf by (intro built_base_of) (simp_all add: sample_quads_def u64_max_def)
  then show ?thesis
    using assms
    by (simp add: store_of_def source_of_def sample_store_def source_new_def view_all_def)
       (simp add: built_base_def)
qed

lemma sample_store_quads:
  "store_quads sample_quads [] (sample_store None) [0..<length sample_quads] = sample_quads"
  by (simp add: store_quads_def base_quads_def view_rows_def appended_quads_def sample_store_def source_new_def
      built_base_def map_nth)

text \<open>C13. A view counts what it shows: its size is the number of the quads it reads, a size under a cap
  is that number under the cap, and it exists where it is not zero, whether its rows are selected
  exactly, pending in an index's run or pending in a compare, under any tombstones, and with any
  tail; a count changes nothing of what the view holds. The store is of the Default or the Dictionary layout.\<close>

theorem view_counts_exact:
  assumes "store_of fl ox fx d qs appended self rows" "length (store_quads qs appended self rows) \<le> usize_max"
  shows "(\<exists>self'. store_size fl self = Some (length (store_quads qs appended self rows), self') \<and>
      store_of fl ox fx d qs appended self' rows \<and> store_quads qs appended self' rows = store_quads qs appended self rows) \<and>
    (\<exists>self'. size_capped fl self limit = Some (min (length (store_quads qs appended self rows)) limit, self') \<and>
      store_of fl ox fx d qs appended self' rows \<and> store_quads qs appended self' rows = store_quads qs appended self rows) \<and>
    (\<exists>self'. store_exists fl self = Some (store_quads qs appended self rows \<noteq> [], self') \<and>
      store_of fl ox fx d qs appended self' rows \<and> store_quads qs appended self' rows = store_quads qs appended self rows)"
proof (intro conjI)
  show "\<exists>self'. store_size fl self = Some (length (store_quads qs appended self rows), self') \<and>
      store_of fl ox fx d qs appended self' rows \<and> store_quads qs appended self' rows = store_quads qs appended self rows"
    using store_size_quads [OF assms] same_store_quads(1) by blast
  show "\<exists>self'. size_capped fl self limit = Some (min (length (store_quads qs appended self rows)) limit, self') \<and>
      store_of fl ox fx d qs appended self' rows \<and> store_quads qs appended self' rows = store_quads qs appended self rows"
    using size_capped_quads [OF assms, of limit] same_store_quads(1) by blast
  show "\<exists>self'. store_exists fl self = Some (store_quads qs appended self rows \<noteq> [], self') \<and>
      store_of fl ox fx d qs appended self' rows \<and> store_quads qs appended self' rows = store_quads qs appended self rows"
  proof -
    obtain self' where "size_capped fl self 1 = Some (min (length (store_quads qs appended self rows)) 1, self')"
        "store_of fl ox fx d qs appended self' rows" "same_store self self'"
      using size_capped_quads [OF assms, of 1] by blast
    then show ?thesis using same_store_quads(1) [of self self' qs appended rows]
      by (intro exI [of _ self']) (auto simp: store_exists_def)
  qed
qed

theorem view_counts_exact_witness:
  "\<exists>self'. store_size plain_compute (sample_store None) = Some (length sample_quads, self')"
proof -
  have store: "store_of plain_compute plain_oxrdf length sample_dictionary sample_quads [] (sample_store None) [0..<length sample_quads]"
    by (rule sample_store_of) simp
  have small: "length (store_quads sample_quads [] (sample_store None) [0..<length sample_quads]) \<le> usize_max"
    unfolding sample_store_quads by (simp add: sample_quads_def u64_max_def)
  show ?thesis using view_counts_exact [OF store small] unfolding sample_store_quads by blast
qed

end
