(* ===== verification/Narrowings.thy ===== *)
theory Narrowings
  imports Views
begin

text \<open>
  Windows and partitions of a view (\<open>src/core/src/store/query\<close>: \<open>window.rs\<close>, \<open>partitions.rs\<close> and
  \<open>served.rs\<close>). A view that a plan serves is cut in its index's order and stays served; any other is
  cut in base order. A window hands back, beside the windowed view, the view it was cut from with what
  its shared cells keep of the work; partitions only read theirs, and it is not handed back.
\<close>

section \<open>Rows where a test holds\<close>

definition rows_where ::
    "serve_plan \<Rightarrow> mask option \<Rightarrow> string list \<Rightarrow>
     ((string \<Rightarrow> (dtype \<times> scalar list) option) \<Rightarrow> nat \<Rightarrow> mask option) \<Rightarrow> (served_rows \<times> serve_plan) option" where
  "rows_where self deleted columns test =
     do {
       fields \<leftarrow> gather (\<lambda>name. do {
           col \<leftarrow> map_of (tb_columns (sp_array self)) name;
           cells \<leftarrow> (case sp_span self of
               SpanRange a b \<Rightarrow> buf_slice (col_cells col) a b
             | SpanKept kept \<Rightarrow> gather (buf_get (col_cells col)) (sr_positions kept));
           Some (name, (col_type col, cells))
         }) columns;
       holding \<leftarrow> test (map_of fields) (plan_span_len self);
       (case sp_span self of
          SpanKept kept \<Rightarrow>
            map_option (\<lambda>rows. (rows, self))
              (served_collect (zip (positions_and_rids kept) [0..<served_len kept])
                (\<lambda>(row, i). map_option (\<lambda>holds. if holds then Some row else None) (mask_value holding i)))
        | SpanRange a b \<Rightarrow>
            kept_rows self deleted (\<lambda>position _. Option.bind (usub position a) (mask_value holding)))
     }"

section \<open>Served views\<close>

text \<open>The plan that serves a view.\<close>

definition served_of :: "'l quads_source \<Rightarrow> serve_plan option" where
  "served_of quads = rb_serve (qs_memory quads)"

definition narrowed :: "'l quads_source \<Rightarrow> serve_plan \<Rightarrow> served_live \<Rightarrow> 'l quads_source option" where
  "narrowed quads plan rows =
     do {
       (span, row_ids) \<leftarrow> into_span rows (plan_range_ids plan);
       Some (in_memory_with quads (qs_memory quads) (view_pending row_ids) (Some (with_span span plan)))
     }"

definition windowed_tail :: "'l store \<Rightarrow> nat \<Rightarrow> nat \<Rightarrow> Pieces.live \<Rightarrow> nat \<Rightarrow> tail option option" where
  "windowed_tail self offset limit base_live base_taken =
     (case st_tail self of
        None \<Rightarrow> Some None
      | Some tail \<Rightarrow> map_option Some (tail_window tail (offset - at_least base_live) (limit - base_taken)))"

definition served_window_of :: "'l store \<Rightarrow> serve_plan \<Rightarrow> served_live \<Rightarrow> nat \<Rightarrow> nat \<Rightarrow> 'l store option" where
  "served_window_of self plan live offset limit =
     do {
       let base_live = served_live_len live;
       cut \<leftarrow> (case window_rows offset limit base_live of
                 None \<Rightarrow> Some None
               | Some (a, b) \<Rightarrow> map_option Some (served_live_slice live a b));
       let base_taken = (case cut of None \<Rightarrow> 0 | Some piece \<Rightarrow> served_live_len piece);
       tail \<leftarrow> windowed_tail self offset limit (Exact base_live) base_taken;
       quads \<leftarrow> (case cut of
                   Some piece \<Rightarrow> narrowed (st_quads self) plan piece
                 | None \<Rightarrow> Some (with_selection (st_quads self) (ExactRows empty_selection)));
       Some (derived self quads tail)
     }"

text \<open>The plan's ids are shared: what one view decodes of them, every view served by them keeps.\<close>

definition keep_plan :: "'l quads_source \<Rightarrow> serve_plan \<Rightarrow> 'l quads_source" where
  "keep_plan quads plan = quads\<lparr> qs_memory := (qs_memory quads)\<lparr> rb_serve := Some plan \<rparr> \<rparr>"

definition served_window_in_memory :: "'l store \<Rightarrow> nat \<Rightarrow> nat \<Rightarrow> ('l store option \<times> 'l store) option" where
  "served_window_in_memory self offset limit =
     (case served_of (st_quads self) of
        None \<Rightarrow> Some (None, self)
      | Some plan \<Rightarrow>
          do {
            (live, plan) \<leftarrow> plan_live plan (qs_deleted (st_quads self));
            windowed \<leftarrow> served_window_of self plan live offset limit;
            Some (Some windowed, self\<lparr> st_quads := keep_plan (st_quads self) plan \<rparr>)
          })"

section \<open>Windows\<close>

datatype window_checked = CannotCut | MayCut "nat option"

definition window_check :: "'k compute_scheme \<Rightarrow> 'l store \<Rightarrow> nat \<Rightarrow> nat \<Rightarrow> (window_checked \<times> 'l store) option" where
  "window_check fl self offset limit =
     (if offset \<noteq> 0 \<or> is_pending_without_plan (st_quads self) then Some (MayCut None, self)
      else do {
        appended \<leftarrow> tail_size self;
        let fits = (\<lambda>base. sat_add base appended \<le> limit);
        (base, quads) \<leftarrow> base_rows fl (st_quads self) (\<lambda>selected. \<not> fits selected);
        Some (if fits (rows_upper_bound base) then CannotCut else MayCut (br_live base), self\<lparr> st_quads := quads \<rparr>)
      })"

definition base_window ::
    "'l quads_source \<Rightarrow> row_selection \<Rightarrow> nat \<Rightarrow> nat \<Rightarrow> nat option \<Rightarrow> (row_selection \<times> Pieces.live) option" where
  "base_window quads sel offset limit live =
     do {
       live \<leftarrow> (case live of
                  Some live \<Rightarrow> Some live
                | None \<Rightarrow> live_len sel (qs_deleted quads) (base_len quads));
       rows \<leftarrow> sel_window sel offset limit (qs_deleted quads) (base_len quads);
       Some (rows, Exact live)
     }"

definition window_cutting ::
    "'k compute_scheme \<Rightarrow> 'l store \<Rightarrow> nat \<Rightarrow> nat \<Rightarrow> ('l store option \<times> 'l store) option" where
  "window_cutting fl self offset limit =
     do {
       (checked, self) \<leftarrow> window_check fl self offset limit;
       (case checked of
          CannotCut \<Rightarrow> Some (None, self)
        | MayCut base_live \<Rightarrow>
            do {
              (served, self) \<leftarrow> served_window_in_memory self offset limit;
              (case served of
                 Some windowed \<Rightarrow> Some (Some windowed, self)
               | None \<Rightarrow>
                   do {
                     (located, quads) \<leftarrow> located_window fl (st_quads self) offset limit;
                     ((windowed, base_live), quads) \<leftarrow> (case located of
                         Some located \<Rightarrow> Some (located, quads)
                       | None \<Rightarrow>
                           do {
                             (sel, quads) \<leftarrow> materialized_selection fl quads;
                             cut \<leftarrow> base_window quads sel offset limit base_live;
                             Some (cut, quads)
                           });
                     let self = self\<lparr> st_quads := quads \<rparr>;
                     let base_taken = sel_len windowed (base_len quads);
                     tail \<leftarrow> windowed_tail self offset limit base_live base_taken;
                     Some (Some (derived self (with_selection quads (ExactRows windowed)) tail), self)
                   })
            })
     }"

text \<open>The window, beside the view it was cut from.\<close>

definition store_window :: "'k compute_scheme \<Rightarrow> 'l store \<Rightarrow> nat \<Rightarrow> nat \<Rightarrow> ('l store \<times> 'l store) option" where
  "store_window fl self offset limit =
     map_option (\<lambda>(windowed, self). (case windowed of None \<Rightarrow> self | Some view \<Rightarrow> view, self))
       (window_cutting fl self offset limit)"

section \<open>Partitions\<close>

definition partition_tail :: "'l store \<Rightarrow> bool \<Rightarrow> tail option" where
  "partition_tail self final =
     map_option (\<lambda>tail. if final then tail else tail_with_selection tail empty_selection) (st_tail self)"

definition served_partitions_of :: "'l store \<Rightarrow> serve_plan \<Rightarrow> served_live \<Rightarrow> nat \<Rightarrow> 'l store list option option" where
  "served_partitions_of self plan live n =
     (let rows = served_live_len live
      in if rows = 0 then Some None
         else
           let width = div_ceil rows n;
               number = div_ceil rows width
           in map_option Some
                (gather (\<lambda>(i, (a, b)).
                   do {
                     piece \<leftarrow> served_live_slice live a b;
                     quads \<leftarrow> narrowed (st_quads self) plan piece;
                     Some (derived self quads (partition_tail self (i + 1 = number)))
                   }) (enumerate 0 (step_chunks 0 rows width))))"

definition served_partitions_in_memory :: "'l store \<Rightarrow> nat \<Rightarrow> 'l store list option option" where
  "served_partitions_in_memory self n =
     (case served_of (st_quads self) of
        None \<Rightarrow> Some None
      | Some plan \<Rightarrow>
          do {
            (live, plan) \<leftarrow> plan_live plan (qs_deleted (st_quads self));
            served_partitions_of self plan live n
          })"

text \<open>The number of partitions asked for is not zero.\<close>

definition store_partitions :: "'k compute_scheme \<Rightarrow> 'l store \<Rightarrow> nat \<Rightarrow> 'l store list option" where
  "store_partitions fl self n =
     (if n = 1 then Some [self]
      else do {
        served \<leftarrow> served_partitions_in_memory self n;
        (case served of
           Some pieces \<Rightarrow> Some pieces
         | None \<Rightarrow>
             do {
               (sel, quads) \<leftarrow> materialized_selection fl (st_quads self);
               let pieces = sel_split sel n (base_len quads);
               Some (if pieces = [] then [self]
                     else map (\<lambda>(i, piece). derived self (with_selection quads (ExactRows piece))
                            (partition_tail self (i = length pieces - 1))) (enumerate 0 pieces))
             })
      })"

section \<open>A served view narrowed\<close>

lemma plan_live_kept:
  assumes "plan_live plan deleted = Some (live, plan')"
  shows "\<exists>run. plan' = plan\<lparr> sp_ids := run \<rparr>"
proof (cases "sp_span plan")
  case (SpanRange a b)
  then show ?thesis
    using assms
    by (cases deleted)
       (auto simp: plan_live_def kept_rows_def run_order_def split: Option.bind_splits intro: exI [of _ "sp_ids plan"])
next
  case (SpanKept kept)
  then show ?thesis using assms by (cases deleted) (auto simp: plan_live_def intro!: exI [of _ "sp_ids plan"])
qed

text \<open>A plan that keeps more of its run's ids serves what it served.\<close>

lemma keep_plan_source:
  assumes source: "source_of fl ox d layout qs source rows" and plan: "rb_serve (qs_memory source) = Some plan"
    and same: "plan' = plan\<lparr> sp_ids := run \<rparr>" "plan_of (plan_ids plan) plan'"
  shows "source_of fl ox d layout qs (keep_plan source plan') rows"
    "view_rows (keep_plan source plan') rows = view_rows source rows"
proof -
  let ?all = "plan_ids plan" and ?d = "qs_deleted source"
  have serves: "serves fl layout (layout_input ox d layout qs) ?d rows plan" using source plan by (simp add: source_of_def)
  note facts = source_facts [OF source]
  have ids: "plan_ids plan' = ?all" using plan_ids_of [OF same(2)] .
  have fields: "sp_array plan' = sp_array plan" "sp_decode plan' = sp_decode plan" "sp_run plan' = sp_run plan"
      "sp_span plan' = sp_span plan"
    by (simp_all add: same(1))
  have "plan_rows ?all plan' = plan_rows ?all plan" by (simp add: plan_rows_def fields cong: served_span.case_cong)
  then have served: "served ?all plan' ?d = served ?all plan ?d" by (simp only: served_def fields)
  have run_rows: "run_rows plan' = run_rows plan" by (simp add: run_rows_def ids fields)
  then have "serves fl layout (layout_input ox d layout qs) ?d rows plan'"
    using serves same(2) unfolding serves_def plan_reads_def
    by (simp only: ids fields served run_rows) (simp split: served_span.split)
  moreover have "base_of fl ox d layout qs ((qs_memory source)\<lparr> rb_serve := Some plan' \<rparr>)"
    using facts(3) by (simp add: base_of_def Let_def memory_base.defs)
  moreover have "in_plan_order (keep_plan source plan')"
    using source plan by (simp add: source_of_def in_plan_order_def keep_plan_def ids served)
  ultimately show "source_of fl ox d layout qs (keep_plan source plan') rows"
    using source by (simp add: source_of_def keep_plan_def)
  show "view_rows (keep_plan source plan') rows = view_rows source rows"
    by (simp add: view_rows_def keep_plan_def plan ids served)
qed

lemma narrowed_source:
  assumes source: "source_of fl ox d layout qs source rows" and plan: "rb_serve (qs_memory source) = Some plan"
    and same: "plan' = plan\<lparr> sp_ids := run \<rparr>" "plan_of (plan_ids plan) plan'"
    and part: "narrows_to (plan_ids plan) plan' (qs_deleted source) piece part"
      "set part \<subseteq> set (served (plan_ids plan) plan (qs_deleted source))" "distinct (map snd part)"
  shows "\<exists>source'. narrowed source plan' piece = Some source' \<and>
    source_of fl ox d layout qs source' (sort (map snd part)) \<and>
    view_rows source' (sort (map snd part)) = map snd part \<and> qs_deleted source' = qs_deleted source"
proof -
  let ?all = "plan_ids plan" and ?d = "qs_deleted source" and ?rids = "map snd part"
  have serves: "serves fl layout (layout_input ox d layout qs) ?d rows plan" using source plan by (simp add: source_of_def)
  note facts = source_facts [OF source]
  obtain span where span: "into_span piece (plan_range_ids plan') = Some (span, from_unsorted_ids ?rids)"
      "plan_of ?all (with_span span plan')" "served ?all (with_span span plan') ?d = part"
    using part(1) by (auto simp: narrows_to_def)
  let ?plan = "with_span span plan'"
  have ids: "plan_ids ?plan = ?all" using plan_ids_of [OF span(2)] .
  have run: "run_rows ?plan = run_rows plan" by (simp add: run_rows_def ids) (simp add: with_span_def same(1))
  have array: "sp_array ?plan = sp_array plan" "sp_decode ?plan = sp_decode plan"
    by (simp_all add: with_span_def same(1))
  have reads: "plan_reads (layout_input ox d layout qs) ?plan"
    using serves by (simp add: serves_def plan_reads_def run) (simp add: with_span_def same(1))
  have in_run: "set part \<subseteq> set (run_rows plan)"
    using part(2) served_rows_of plan_rows_run(1) [OF serves] by blast
  have rids: "set ?rids \<subseteq> set (live_of ?d rows)"
    using part(2) serves by (auto simp: serves_def)
  have "snd ` set (run_rows plan) = set ?all" unfolding run_rows_def set_map [symmetric] by simp
  then have in_all: "set ?rids \<subseteq> set ?all" using image_mono [OF in_run, of snd] by simp
  have unique: "unique_ids ?rids"
  proof -
    have "length ?rids \<le> length ?all"
      using card_mono [OF _ in_all] distinct_card [OF part(3)] card_length [of ?all] by simp
    then show ?thesis
      using serves in_all part(3) unfolding serves_def unique_ids_def by (meson dual_order.trans subsetD)
  qed
  have live: "\<forall>i \<in> set ?rids. i < length qs \<and> (\<forall>m. ?d = Some m \<longrightarrow> \<not> m ! i)"
    using rids selects_rows(2) [OF facts(1)] by (auto simp: live_of_def split: option.splits)
  let ?vs = "view_pending (from_unsorted_ids ?rids)"
  have vs: "selects fl (length qs) ?d ?vs (sort ?rids)"
    using unique live by (auto simp: view_pending_def from_unsorted_ids_def)
  have all_live: "live_of ?d (sort ?rids) = sort ?rids"
    using live by (auto simp: live_of_def filter_id_conv split: option.splits)
  have served: "map snd (served (plan_ids ?plan) ?plan ?d) = ?rids" by (simp only: ids span(3))
  have kept: "set (positions_and_rids kept) \<subseteq> set (run_rows plan) \<and> distinct (sr_rids kept)" if k: "sp_span ?plan = SpanKept kept" for kept
  proof -
    have "length (sr_positions kept) = length (sr_rids kept)" using span(2) k by (simp add: plan_of_def)
    moreover have "part = positions_and_rids kept" using span(3) k by (simp add: served_def plan_rows_def)
    ultimately show ?thesis using in_run part(3) by (simp add: positions_and_rids_def)
  qed
  have "serves fl layout (layout_input ox d layout qs) ?d (sort ?rids) ?plan"
    using serves reads span(2) kept array
    by (simp add: serves_def ids served [unfolded ids] all_live run split: served_span.split)
  moreover have "base_of fl ox d layout qs ((qs_memory source)\<lparr> rb_serve := Some ?plan \<rparr>)"
    using facts(3) by (simp add: base_of_def Let_def memory_base.defs)
  moreover have "in_plan_order (in_memory_with source (qs_memory source) ?vs (Some ?plan))"
    by (simp add: in_plan_order_def in_memory_with_def served view_pending_def from_unsorted_ids_def)
  ultimately have "source_of fl ox d layout qs (in_memory_with source (qs_memory source) ?vs (Some ?plan)) (sort ?rids)"
    using facts(2) vs by (simp add: source_of_def in_memory_with_def) (simp add: view_pending_def)
  moreover have "view_rows (in_memory_with source (qs_memory source) ?vs (Some ?plan)) (sort ?rids) = ?rids"
    by (simp add: view_rows_def in_memory_with_def served)
  ultimately show ?thesis by (simp add: narrowed_def span(1)) (simp add: in_memory_with_def)
qed

section \<open>Tails cut\<close>

lemma take_drop_append:
  "take k (drop n (xs @ ys)) = take k (drop n xs) @ take (k - length (take k (drop n xs))) (drop (n - length xs) ys)"
  by (auto simp: min_def)

lemma tail_reselected:
  assumes "tail_of ox fl fx appended tail" "wf_selection (length appended) sel"
  shows "tail_of ox fl fx appended (tail_with_selection tail sel)" "tail_layout (tail_with_selection tail sel) = tail_layout tail"
  using assms by (auto simp: tail_of_def tail_with_selection_def)

lemma tail_window_quads:
  assumes tail: "tail_of ox fl fx appended tail"
  shows "\<exists>tail'. tail_window tail offset limit = Some tail' \<and> tail_of ox fl fx appended tail' \<and>
    tail_layout tail' = tail_layout tail \<and> tail_quads appended tail' = take limit (drop offset (tail_quads appended tail))"
proof -
  have wf: "wf_selection (length appended) (tail_selection tail)" "wf_deleted (length appended) (tail_deleted tail)"
    and n: "length appended \<le> u64_max"
    using tail tail_len [OF tail] by (auto simp: tail_of_def chunks_ok_def)
  let ?live = "live_rows (tail_selection tail) (tail_deleted tail) (length appended)"
  obtain sel where sel: "sel_window (tail_selection tail) offset limit (tail_deleted tail) (length appended) = Some sel"
      "wf_selection (length appended) sel" "covered sel (length appended) = take limit (drop offset ?live)"
    using sel_window_live [OF wf n] by blast
  have "live_rows sel (tail_deleted tail) (length appended) = take limit (drop offset ?live)"
    unfolding live_rows_def [of sel] sel(3)
    by (subst filter_id_conv) (auto simp: live_rows_def dest!: in_take_drop)
  then show ?thesis
    using sel tail_reselected [OF tail sel(2)]
    by (auto simp: tail_window_def tail_len [OF tail] tail_quads_def tail_with_selection_def take_map drop_map)
qed

text \<open>A store under another source of the same rows.\<close>

lemma resourced_store:
  assumes "store_of fl ox fx d qs appended self rows" "source_of fl ox d (st_layout self) qs source rows"
    and "view_rows source rows = view_rows (st_quads self) rows"
  shows "store_of fl ox fx d qs appended (self\<lparr> st_quads := source \<rparr>) rows"
    "base_quads qs (self\<lparr> st_quads := source \<rparr>) rows = base_quads qs self rows"
    "store_quads qs appended (self\<lparr> st_quads := source \<rparr>) rows = store_quads qs appended self rows"
  using assms by (simp_all add: store_of_def store_quads_def base_quads_def appended_quads_def)

lemma windowed_tail_quads:
  assumes store: "store_of fl ox fx d qs appended self rows"
  shows "\<exists>tail. windowed_tail self offset limit base_live taken = Some tail \<and>
    (\<forall>t. tail = Some t \<longrightarrow> tail_of ox fl fx appended t \<and> tail_layout t = layout_for (st_layout self)) \<and>
    (case tail of None \<Rightarrow> [] | Some t \<Rightarrow> tail_quads appended t) =
      take (limit - taken) (drop (offset - at_least base_live) (appended_quads appended self))"
proof (cases "st_tail self")
  case None
  then show ?thesis by (simp add: windowed_tail_def appended_quads_def)
next
  case (Some tail)
  then have "tail_of ox fl fx appended tail" "tail_layout tail = layout_for (st_layout self)"
    using store by (simp_all add: store_of_def)
  then show ?thesis
    using tail_window_quads [of ox fl fx appended tail "offset - at_least base_live" "limit - taken"] Some
    by (auto simp: windowed_tail_def appended_quads_def)
qed

text \<open>A store under another source of the same base, and another tail.\<close>

lemma derived_store:
  assumes "store_of fl ox fx d qs appended self rows" "source_of fl ox d (st_layout self) qs source rows'"
    and "\<forall>t. tail = Some t \<longrightarrow> tail_of ox fl fx appended t \<and> tail_layout t = layout_for (st_layout self)"
  shows "store_of fl ox fx d qs appended (derived self source tail) rows'"
    "store_quads qs appended (derived self source tail) rows' =
       map ((!) qs) (view_rows source rows') @ (case tail of None \<Rightarrow> [] | Some t \<Rightarrow> tail_quads appended t)"
  using assms
  by (simp_all add: store_of_def derived_def store_quads_def base_quads_def appended_quads_def)

lemma exact_source:
  assumes "source_of fl ox d layout qs source rows" "wf_selection (length qs) sel"
  shows "source_of fl ox d layout qs (with_selection source (ExactRows sel)) (covered sel (length qs))"
    "view_rows (with_selection source (ExactRows sel)) (covered sel (length qs)) =
       live_of (qs_deleted source) (covered sel (length qs))"
  using assms
  by (auto simp: source_of_def with_selection_def in_memory_with_def view_rows_def base_of_def Let_def memory_base.defs)

section \<open>Windows are windows\<close>

lemma window_rows_take:
  assumes "length xs \<le> u64_max"
  shows "(case window_rows offset limit (length xs) of None \<Rightarrow> [] | Some (a, b) \<Rightarrow> take (b - a) (drop a xs)) =
      take limit (drop offset xs)"
    "window_rows offset limit (length xs) = Some (a, b) \<Longrightarrow> a < b \<and> b \<le> length xs"
proof -
  show ab: "window_rows offset limit (length xs) = Some (a, b) \<Longrightarrow> a < b \<and> b \<le> length xs" for a b
    by (auto simp: window_rows_def Let_def split: if_splits)
  show "(case window_rows offset limit (length xs) of None \<Rightarrow> [] | Some (a, b) \<Rightarrow> take (b - a) (drop a xs)) =
      take limit (drop offset xs)"
    using window_rows_slice [OF assms, of offset limit] ab
    by (auto simp: buf_slice_def split: option.splits)
qed

lemma served_slice_len:
  assumes "served_live_slice live i j = Some piece"
  shows "served_live_len piece = j - i"
  using assms
  by (cases live) (auto simp: served_slice_def served_len_def buf_slice_def split: Option.bind_splits if_splits)

text \<open>A window, beside the view it was cut from, which holds what it held.\<close>

definition window_of ::
    "'k compute_scheme \<Rightarrow> 'l oxrdf \<Rightarrow> hasher \<Rightarrow> term_dictionary \<Rightarrow> 'l rdf_quad list \<Rightarrow> 'l rdf_quad list \<Rightarrow>
     'l store \<Rightarrow> nat list \<Rightarrow> nat \<Rightarrow> nat \<Rightarrow> 'l store \<Rightarrow> 'l store \<Rightarrow> nat list \<Rightarrow> bool" where
  "window_of fl ox fx d qs appended self rows offset limit view self' rows' \<longleftrightarrow>
     store_of fl ox fx d qs appended view rows' \<and>
     store_quads qs appended view rows' = take limit (drop offset (store_quads qs appended self rows)) \<and>
     store_of fl ox fx d qs appended self' rows \<and>
     store_quads qs appended self' rows = store_quads qs appended self rows"

lemma served_window_quads:
  assumes store: "store_of fl ox fx d qs appended self rows" and plan: "served_of (st_quads self) = Some plan"
    and small: "length (base_quads qs self rows) \<le> usize_max"
  shows "\<exists>view self' rows'. served_window_in_memory self offset limit = Some (Some view, self') \<and>
    window_of fl ox fx d qs appended self rows offset limit view self' rows'"
proof -
  let ?source = "st_quads self" and ?all = "plan_ids plan" and ?d = "qs_deleted (st_quads self)"
  let ?served = "served ?all plan ?d"
  have source: "source_of fl ox d (st_layout self) qs ?source rows" using store by (simp add: store_of_def)
  have rb: "rb_serve (qs_memory ?source) = Some plan" using plan by (simp add: served_of_def)
  then have serves: "serves fl (st_layout self) (layout_input ox d (st_layout self) qs) ?d rows plan" using source by (simp add: source_of_def)
  have view: "view_rows ?source rows = map snd ?served" by (simp add: view_rows_def rb)
  have len: "length ?served \<le> u64_max" using small view by (simp add: base_quads_def)
  have plan_ok: "plan_of ?all plan" "marks_run ?all ?d"
    using serves source by (auto simp: serves_def marks_run_def source_of_def)
  obtain live plan' where live: "plan_live plan ?d = Some (live, plan')" "plan_of ?all plan'"
      "served_live_len live = length ?served"
      "\<And>i j. i < j \<Longrightarrow> j \<le> length ?served \<Longrightarrow> \<exists>piece. served_live_slice live i j = Some piece \<and>
         narrows_to ?all plan' ?d piece (take (j - i) (drop i ?served))"
    using served_view_narrows [OF plan_ok, of "\<lambda>_ _. Some True" "\<lambda>_ _. True"] by auto
  obtain run where run: "plan' = plan\<lparr> sp_ids := run \<rparr>" using plan_live_kept [OF live(1)] by blast
  let ?part = "take limit (drop offset ?served)"
  have part: "set ?part \<subseteq> set ?served" "distinct (map snd ?part)"
    using served_distinct [OF plan_rows_run(2) [OF serves], of ?d]
    by (auto dest: in_take_drop simp: take_map [symmetric] drop_map [symmetric])
  have "\<exists>source' rows' cut. (case window_rows offset limit (served_live_len live) of
            None \<Rightarrow> Some None | Some (a, b) \<Rightarrow> map_option Some (served_live_slice live a b)) = Some cut \<and>
      (case cut of Some piece \<Rightarrow> narrowed ?source plan' piece
         | None \<Rightarrow> Some (with_selection ?source (ExactRows empty_selection))) = Some source' \<and>
      (case cut of None \<Rightarrow> 0 | Some piece \<Rightarrow> served_live_len piece) = length ?part \<and>
      source_of fl ox d (st_layout self) qs source' rows' \<and> view_rows source' rows' = map snd ?part"
  proof (cases "window_rows offset limit (length ?served)")
    case None
    then have "?part = []" using window_rows_take(1) [OF len, of offset limit] by simp
    then show ?thesis
      using exact_source [OF source, of empty_selection] None live(3) by (auto simp: empty_selection_def)
  next
    case (Some ab)
    obtain a b where ab: "ab = (a, b)" by fastforce
    have bounds: "a < b" "b \<le> length ?served" using window_rows_take(2) [OF len] Some ab by auto
    have cut: "take (b - a) (drop a ?served) = ?part" using window_rows_take(1) [OF len, of offset limit] Some ab by simp
    obtain piece where piece: "served_live_slice live a b = Some piece" "narrows_to ?all plan' ?d piece ?part"
      using live(4) [OF bounds] unfolding cut by blast
    have "served_live_len piece = length ?part"
      using served_slice_len [OF piece(1)] bounds by (simp add: cut [symmetric])
    then show ?thesis
      using narrowed_source [OF source rb run live(2) piece(2) part] piece(1) Some ab live(3) by auto
  qed
  then obtain source' rows' cut where cut:
      "(case window_rows offset limit (served_live_len live) of
         None \<Rightarrow> Some None | Some (a, b) \<Rightarrow> map_option Some (served_live_slice live a b)) = Some cut"
      "(case cut of Some piece \<Rightarrow> narrowed ?source plan' piece
         | None \<Rightarrow> Some (with_selection ?source (ExactRows empty_selection))) = Some source'"
      "(case cut of None \<Rightarrow> 0 | Some piece \<Rightarrow> served_live_len piece) = length ?part"
      "source_of fl ox d (st_layout self) qs source' rows'" "view_rows source' rows' = map snd ?part"
    by blast
  obtain tail where tail: "windowed_tail self offset limit (Exact (served_live_len live)) (length ?part) = Some tail"
      "\<forall>t. tail = Some t \<longrightarrow> tail_of ox fl fx appended t \<and> tail_layout t = layout_for (st_layout self)"
      "(case tail of None \<Rightarrow> [] | Some t \<Rightarrow> tail_quads appended t) =
        take (limit - length ?part) (drop (offset - length ?served) (appended_quads appended self))"
    using windowed_tail_quads [OF store, of offset limit "Exact (served_live_len live)" "length ?part"] live(3) by auto
  have out: "served_window_in_memory self offset limit =
      Some (Some (derived self source' tail), self\<lparr> st_quads := keep_plan ?source plan' \<rparr>)"
    using cut(1-3) tail(1) by (simp add: served_window_in_memory_def plan live(1) served_window_of_def Let_def)
  note view' = derived_store [OF store cut(4) tail(2)]
  have "store_quads qs appended (derived self source' tail) rows' = map ((!) qs) (map snd ?part) @
      take (limit - length ?part) (drop (offset - length ?served) (appended_quads appended self))"
    by (simp only: view'(2) cut(5) tail(3))
  also have "\<dots> = take limit (drop offset (store_quads qs appended self rows))"
    unfolding store_quads_def take_drop_append base_quads_def view by (simp add: take_map drop_map)
  finally show ?thesis
    using out view'(1) resourced_store [OF store keep_plan_source [OF source rb run live(2)]]
    by (auto simp: window_of_def)
qed

lemma view_len_known:
  assumes "selects fl n deleted vs rows"
  shows "view_len_if_known vs n \<in> {None, Some (length rows)}"
proof (cases vs)
  case (ExactRows sel)
  then show ?thesis using assms sel_len_covered by auto
next
  case (PendingIds row_ids matched)
  then obtain ids where ids: "lazy_of fl ids row_ids" "rows = sort ids" using assms by (auto simp del: lazy_of.simps)
  have "lazy_len_if_known row_ids \<in> {None, Some (length ids)}"
  proof (cases row_ids)
    case (CheckedIds run)
    then show ?thesis using ids(1) by (auto simp: known_len_def known_ids_def cached_def split: option.splits)
  qed (use ids(1) in auto)
  then show ?thesis using PendingIds ids(2) by simp
next
  case (PendingCompare residual)
  then show ?thesis using assms by (auto simp: wf_pending_def len_if_known_def)
qed

lemma base_rows_known:
  assumes source: "source_of fl ox d layout qs source rows"
  shows "\<exists>known source'. base_rows fl source counts = Some (known, source') \<and>
    br_live known \<in> {None, Some (length (view_rows source rows))} \<and>
    length (view_rows source rows) \<le> rows_upper_bound known \<and>
    source_of fl ox d layout qs source' rows \<and> (\<exists>vs. source' = source\<lparr> qs_selection := vs \<rparr>)"
proof -
  note facts = source_facts [OF source]
  have known: "view_len_if_known (qs_selection source) (base_len source) \<in> {None, Some (length rows)}"
    using view_len_known [OF facts(1)] by (simp add: source_len [OF source])
  have rows: "length rows \<le> length qs"
    using selects_rows [OF facts(1)] ascending_length_le by blast
  have live: "length (view_rows source rows) = length (live_of (qs_deleted source) rows)"
    by (rule view_rows_live(3) [OF source])
  have le: "length (view_rows source rows) \<le> length rows" by (simp add: live live_of_def)
  obtain vs where vs: "live_count_of fl source =
      Some (Some (length (view_rows source rows)), source\<lparr> qs_selection := vs \<rparr>)"
      "source_of fl ox d layout qs (source\<lparr> qs_selection := vs \<rparr>) rows"
    using live_count_of_rows [OF source] by blast
  have "\<exists>vs. source = source\<lparr> qs_selection := vs \<rparr>" by (intro exI [of _ "qs_selection source"]) simp
  then show ?thesis
    using known le rows vs live source
    by (auto simp: base_rows_def rows_upper_bound_def source_len [OF source] Let_def)
qed

lemma window_check_cuts:
  assumes store: "store_of fl ox fx d qs appended self rows"
    and small: "length (store_quads qs appended self rows) \<le> usize_max"
  shows "\<exists>checked self'. window_check fl self offset limit = Some (checked, self') \<and>
    (case checked of
       CannotCut \<Rightarrow> offset = 0 \<and> length (store_quads qs appended self rows) \<le> limit
     | MayCut live \<Rightarrow> live \<in> {None, Some (length (base_quads qs self rows))}) \<and>
    store_of fl ox fx d qs appended self' rows \<and> base_quads qs self' rows = base_quads qs self rows \<and>
    store_quads qs appended self' rows = store_quads qs appended self rows"
proof (cases "offset \<noteq> 0 \<or> is_pending_without_plan (st_quads self)")
  case True
  then show ?thesis using store by (simp add: window_check_def)
next
  case False
  have source: "source_of fl ox d (st_layout self) qs (st_quads self) rows" using store by (simp add: store_of_def)
  let ?fits = "\<lambda>base. sat_add base (length (appended_quads appended self)) \<le> limit"
  obtain known source' where known: "base_rows fl (st_quads self) (\<lambda>selected. \<not> ?fits selected) = Some (known, source')"
      "br_live known \<in> {None, Some (length (view_rows (st_quads self) rows))}"
      "length (view_rows (st_quads self) rows) \<le> rows_upper_bound known"
      "source_of fl ox d (st_layout self) qs source' rows" "\<exists>vs. source' = (st_quads self)\<lparr> qs_selection := vs \<rparr>"
    using base_rows_known [OF source] by blast
  then have "view_rows source' rows = view_rows (st_quads self) rows" by auto
  note again = resourced_store [OF store known(4) this]
  have "length (store_quads qs appended self rows) \<le> limit" if "?fits (rows_upper_bound known)"
    using that known(3) small by (auto simp: store_quads_def base_quads_def sat_add_def min_def split: if_splits)
  then show ?thesis
    using False known(1,2) tail_size_quads [OF store] again
    by (auto simp: window_check_def base_quads_def Let_def)
qed

lemma unserved_window_quads:
  assumes store: "store_of fl ox fx d qs appended self rows" and plan: "served_of (st_quads self) = None"
    and small: "length (store_quads qs appended self rows) \<le> usize_max"
    and check: "window_check fl self0 offset limit = Some (MayCut base_live, self)"
      "base_live \<in> {None, Some (length (base_quads qs self rows))}"
  shows "\<exists>view self' rows'. window_cutting fl self0 offset limit = Some (Some view, self') \<and>
    window_of fl ox fx d qs appended self rows offset limit view self' rows'"
proof -
  let ?source = "st_quads self" and ?d = "qs_deleted (st_quads self)" and ?n = "length qs"
  have source: "source_of fl ox d (st_layout self) qs ?source rows" using store by (simp add: store_of_def)
  note facts = source_facts [OF source]
  have n: "?n \<le> u64_max" using facts(3) by (simp add: base_of_def holds_quads_def Let_def)
  have view: "view_rows ?source rows = live_of ?d rows" using plan by (simp add: view_rows_def served_of_def)
  let ?live = "live_of ?d rows"
  obtain w vs where w: "view_window fl (qs_selection ?source) offset limit ?d = Some (w, vs)"
      "selects fl ?n ?d vs rows"
      "\<And>sel seen. w = Some (sel, seen) \<Longrightarrow> wf_selection ?n sel \<and> covered sel ?n = take limit (drop offset ?live) \<and>
         at_least seen \<le> length ?live \<and> (case seen of Exact m \<Rightarrow> m = length ?live | AtLeast m \<Rightarrow> True)"
    using view_window_rows [OF facts(1,2), of offset limit] by blast
  obtain windowed live vs' where windowed: "(case w of
          Some located \<Rightarrow> Some (located, ?source\<lparr> qs_selection := vs \<rparr>)
        | None \<Rightarrow>
            do {
              (sel, quads) \<leftarrow> materialized_selection fl (?source\<lparr> qs_selection := vs \<rparr>);
              cut \<leftarrow> base_window quads sel offset limit base_live;
              Some (cut, quads)
            }) = Some ((windowed, live), ?source\<lparr> qs_selection := vs' \<rparr>)"
      "wf_selection ?n windowed" "covered windowed ?n = take limit (drop offset ?live)"
      "live = Exact (length ?live) \<or> limit \<le> length (take limit (drop offset ?live)) \<and> at_least live \<le> length ?live"
      "source_of fl ox d (st_layout self) qs (?source\<lparr> qs_selection := vs' \<rparr>) rows"
  proof (cases w)
    case None
    obtain sel vs' where sel: "view_materialized fl vs = Some (sel, vs')" "wf_selection ?n sel" "covered sel ?n = rows"
        "selects fl ?n ?d vs' rows"
      using view_materialized_rows [OF w(2)] by blast
    obtain out where out: "sel_window sel offset limit ?d ?n = Some out" "wf_selection ?n out"
        "covered out ?n = take limit (drop offset ?live)"
      using sel_window_live [OF sel(2) facts(2) n] by (auto simp: live_of_rows sel(3))
    have "base_window (?source\<lparr> qs_selection := vs' \<rparr>) sel offset limit base_live = Some (out, Exact (length ?live))"
      using check(2) live_len_of_rows [OF sel(2) facts(2)] out(1) source_len [OF source]
      by (cases base_live) (auto simp: base_window_def base_quads_def view sel(3) base_len_def)
    moreover have "source_of fl ox d (st_layout self) qs (?source\<lparr> qs_selection := vs' \<rparr>) rows"
      using source_reselected [OF source sel(4)] named_kept(1) [OF sel(1)] named_kept(4) [OF w(1)] by simp
    ultimately show ?thesis
      using that [of out "Exact (length ?live)" vs'] None sel(1) out by (simp add: materialized_selection_def)
  next
    case (Some located)
    obtain sel seen where located: "located = (sel, seen)" by fastforce
    note part = w(3) [OF Some [unfolded located]]
    have "limit \<le> length (covered sel ?n)" if "seen = AtLeast m" for m
      using view_window_full [OF facts(1), of offset limit sel m vs] w(1) Some located that by simp
    then have "seen = Exact (length ?live) \<or> limit \<le> length (take limit (drop offset ?live)) \<and> at_least seen \<le> length ?live"
      using part by (cases seen) simp_all
    then show ?thesis
      using that [of sel seen vs] part Some located source_reselected [OF source w(2)] named_kept(4) [OF w(1)] by simp
  qed
  obtain tail where tail: "windowed_tail self offset limit live (sel_len windowed (base_len ?source)) = Some tail"
      "\<forall>t. tail = Some t \<longrightarrow> tail_of ox fl fx appended t \<and> tail_layout t = layout_for (st_layout self)"
      "(case tail of None \<Rightarrow> [] | Some t \<Rightarrow> tail_quads appended t) =
        take (limit - length (take limit (drop offset ?live))) (drop (offset - at_least live) (appended_quads appended self))"
    using windowed_tail_quads [OF store, of offset limit live "sel_len windowed (base_len ?source)"]
    by (auto simp: source_len [OF source] sel_len_covered [OF windowed(2)] windowed(3))
  let ?kept = "?source\<lparr> qs_selection := vs' \<rparr>" and ?self = "self\<lparr> st_quads := ?source\<lparr> qs_selection := vs' \<rparr> \<rparr>"
  have kept: "base_len ?kept = base_len ?source" "windowed_tail ?self = windowed_tail self" "derived ?self = derived self"
    by (simp_all add: base_len_def fun_eq_iff windowed_tail_def derived_def)
  have "view_rows ?kept rows = view_rows ?source rows" by simp
  note again = resourced_store [OF store windowed(5) this]
  have rest: "take (limit - length (take limit (drop offset ?live))) (drop (offset - at_least live) (appended_quads appended self)) =
      take (limit - length (take limit (drop offset ?live))) (drop (offset - length ?live) (appended_quads appended self))"
    using windowed(4) by auto
  have still: "live_of ?d (take limit (drop offset ?live)) = take limit (drop offset ?live)"
    unfolding live_of_def by (subst filter_id_conv) (auto dest!: in_take_drop)
  note exact = exact_source [OF windowed(5,2)]
  let ?view = "derived self (with_selection ?kept (ExactRows windowed)) tail"
  note view' = derived_store [OF store exact(1) tail(2)]
  have "store_quads qs appended ?view (covered windowed ?n) = map ((!) qs) (take limit (drop offset ?live)) @
      take (limit - length (take limit (drop offset ?live))) (drop (offset - length ?live) (appended_quads appended self))"
    unfolding view'(2) exact(2) tail(3) rest by (simp add: windowed(3) still)
  also have "\<dots> = take limit (drop offset (store_quads qs appended self rows))"
    unfolding store_quads_def take_drop_append base_quads_def view by (simp add: take_map drop_map)
  finally have "window_of fl ox fx d qs appended self rows offset limit ?view ?self (covered windowed ?n)"
    using view'(1) again by (simp add: window_of_def)
  moreover have "window_cutting fl self0 offset limit = Some (Some ?view, ?self)"
    using w(1) windowed(1) tail(1) plan check(1)
    by (simp add: window_cutting_def served_window_in_memory_def located_window_def kept Let_def cong: option.case_cong)
  ultimately show ?thesis by blast
qed

lemma window_quads:
  assumes store: "store_of fl ox fx d qs appended self rows"
    and small: "length (store_quads qs appended self rows) \<le> usize_max"
  shows "\<exists>view self' rows'. store_window fl self offset limit = Some (view, self') \<and>
    window_of fl ox fx d qs appended self rows offset limit view self' rows'"
proof -
  obtain checked mid where checked: "window_check fl self offset limit = Some (checked, mid)"
      "case checked of
         CannotCut \<Rightarrow> offset = 0 \<and> length (store_quads qs appended self rows) \<le> limit
       | MayCut live \<Rightarrow> live \<in> {None, Some (length (base_quads qs self rows))}"
    and mid: "store_of fl ox fx d qs appended mid rows" "base_quads qs mid rows = base_quads qs self rows"
      "store_quads qs appended mid rows = store_quads qs appended self rows"
    using window_check_cuts [OF assms] by blast
  show ?thesis
  proof (cases checked)
    case CannotCut
    then show ?thesis using checked mid by (auto simp: store_window_def window_cutting_def window_of_def)
  next
    case (MayCut base_live)
    have "\<exists>view self' rows'. window_cutting fl self offset limit = Some (Some view, self') \<and>
        window_of fl ox fx d qs appended mid rows offset limit view self' rows'"
    proof (cases "served_of (st_quads mid)")
      case None
      then show ?thesis
        using unserved_window_quads [OF mid(1) None, of self offset limit base_live] checked MayCut mid small by auto
    next
      case (Some plan)
      have "length (base_quads qs mid rows) \<le> usize_max" using small mid(2) by (simp add: store_quads_def)
      then obtain view self' rows' where "served_window_in_memory mid offset limit = Some (Some view, self')"
          "window_of fl ox fx d qs appended mid rows offset limit view self' rows'"
        using served_window_quads [OF mid(1) Some, of offset limit] by blast
      then show ?thesis using checked(1) MayCut by (auto simp: window_cutting_def)
    qed
    then show ?thesis using mid(3) by (auto simp: store_window_def window_of_def)
  qed
qed

section \<open>Partitions are the view cut\<close>

lemma gather_each:
  assumes "\<And>x. x \<in> set xs \<Longrightarrow> \<exists>y r. f x = Some y \<and> P x y r"
  shows "\<exists>yrs. gather f xs = Some (map fst yrs) \<and> list_all2 (\<lambda>x (y, r). P x y r) xs yrs"
  using assms
proof (induction xs)
  case (Cons x xs)
  obtain y r where "f x = Some y" "P x y r" using Cons.prems [of x] by auto
  moreover obtain yrs where "gather f xs = Some (map fst yrs)" "list_all2 (\<lambda>x (y, r). P x y r) xs yrs"
    using Cons by auto
  ultimately show ?case by (intro exI [of _ "(y, r) # yrs"]) simp
qed simp

lemma concat_with_last:
  "cs \<noteq> [] \<Longrightarrow> concat (map (\<lambda>(i, c). f c @ (if i + 1 = length cs then ys else [])) (enumerate 0 cs)) = concat (map f cs) @ ys"
proof (induction cs rule: rev_induct)
  case (snoc c cs)
  have "concat (map (\<lambda>(i, c). f c @ (if i + 1 = length (cs @ [c']) then ys else [])) (enumerate 0 cs)) = concat (map f cs)" for c'
    by (rule arg_cong [of _ _ concat], rule nth_equalityI) (auto simp: nth_enumerate_eq)
  then show ?case by (simp add: enumerate_append_eq)
qed simp

lemma step_chunks_count: "0 < per \<Longrightarrow> length (step_chunks start stop per) = div_ceil (stop - start) per"
proof (induction start stop per rule: step_chunks.induct)
  case (1 start stop per)
  show ?case
  proof (cases "start < stop")
    case True
    have "div_ceil (stop - start) per = Suc (div_ceil (stop - (start + per)) per)"
    proof (cases "stop - start \<le> per")
      case small: True
      then have "(stop - start + per - 1) div per = 1"
        using True 1(2) by (intro div_nat_eqI) auto
      moreover have "(per - 1) div per = 0" using 1(2) by simp
      ultimately show ?thesis using small by (simp add: div_ceil_def)
    next
      case False
      then have "stop - start + per - 1 = (stop - (start + per) + per - 1) + per" by simp
      then show ?thesis using 1(2) by (simp only: div_ceil_def div_add_self2)
    qed
    then show ?thesis using True 1 by (subst step_chunks.simps) simp
  next
    case False
    then show ?thesis using 1(2) by (subst step_chunks.simps) (simp add: div_ceil_def)
  qed
qed

text \<open>The views of a partition, each beside the base rows it selects.\<close>

definition partitions_of ::
    "'k compute_scheme \<Rightarrow> 'l oxrdf \<Rightarrow> hasher \<Rightarrow> term_dictionary \<Rightarrow> 'l rdf_quad list \<Rightarrow> 'l rdf_quad list \<Rightarrow>
     'l store \<Rightarrow> nat list \<Rightarrow> nat \<Rightarrow> ('l store \<times> nat list) list \<Rightarrow> bool" where
  "partitions_of fl ox fx d qs appended self rows n views \<longleftrightarrow>
     (\<forall>(view, rows') \<in> set views. store_of fl ox fx d qs appended view rows') \<and> length views \<le> n \<and>
     concat (map (\<lambda>(view, rows'). store_quads qs appended view rows') views) = store_quads qs appended self rows"

lemma partitions_of_pieces:
  assumes pieces: "list_all2 (\<lambda>(i, c) (view, rows'). store_of fl ox fx d qs appended view rows' \<and>
      store_quads qs appended view rows' = f c @ (if i + 1 = length cs then ys else [])) (enumerate 0 cs) views"
    and "cs \<noteq> []" "length cs \<le> n" "concat (map f cs) @ ys = store_quads qs appended self rows"
  shows "partitions_of fl ox fx d qs appended self rows n views"
proof -
  have "map (\<lambda>(view, rows'). store_quads qs appended view rows') views =
      map (\<lambda>(i, c). f c @ (if i + 1 = length cs then ys else [])) (enumerate 0 cs)"
    using list_all2_lengthD [OF pieces] list_all2_nthD2 [OF pieces]
    by (intro nth_equalityI) (auto simp: case_prod_unfold)
  moreover have "\<forall>view \<in> set views. store_of fl ox fx d qs appended (fst view) (snd view)"
    using list_all2_nthD2 [OF pieces]
    by (fastforce simp: in_set_conv_nth case_prod_unfold)
  ultimately show ?thesis
    using assms(2-4) concat_with_last [OF assms(2), of f ys] list_all2_lengthD [OF pieces]
    by (simp add: partitions_of_def case_prod_unfold)
qed

lemma partition_tail_quads:
  assumes store: "store_of fl ox fx d qs appended self rows"
  shows "\<forall>t. partition_tail self final = Some t \<longrightarrow> tail_of ox fl fx appended t \<and> tail_layout t = layout_for (st_layout self)"
    "(case partition_tail self final of None \<Rightarrow> [] | Some t \<Rightarrow> tail_quads appended t) =
       (if final then appended_quads appended self else [])"
proof -
  have tail: "tail_of ox fl fx appended t \<and> tail_layout t = layout_for (st_layout self)" if "st_tail self = Some t" for t
    using store that by (simp add: store_of_def)
  have empty: "wf_selection (length appended) empty_selection" by (simp add: empty_selection_def)
  show "\<forall>t. partition_tail self final = Some t \<longrightarrow> tail_of ox fl fx appended t \<and> tail_layout t = layout_for (st_layout self)"
    using tail tail_reselected [OF _ empty] by (fastforce simp: partition_tail_def)
  show "(case partition_tail self final of None \<Rightarrow> [] | Some t \<Rightarrow> tail_quads appended t) =
      (if final then appended_quads appended self else [])"
    by (auto simp: partition_tail_def appended_quads_def tail_quads_def tail_with_selection_def live_rows_def
        split: option.split)
qed

lemma served_partitions_quads:
  assumes store: "store_of fl ox fx d qs appended self rows" and plan: "served_of (st_quads self) = Some plan"
    and small: "length (base_quads qs self rows) \<le> usize_max" and n: "0 < n"
  shows "served_partitions_in_memory self n = Some None \<and> base_quads qs self rows = [] \<or>
    (\<exists>views. served_partitions_in_memory self n = Some (Some (map fst views)) \<and>
      partitions_of fl ox fx d qs appended self rows n views)"
proof -
  let ?source = "st_quads self" and ?all = "plan_ids plan" and ?d = "qs_deleted (st_quads self)"
  let ?served = "served ?all plan ?d"
  have source: "source_of fl ox d (st_layout self) qs ?source rows" using store by (simp add: store_of_def)
  have rb: "rb_serve (qs_memory ?source) = Some plan" using plan by (simp add: served_of_def)
  then have serves: "serves fl (st_layout self) (layout_input ox d (st_layout self) qs) ?d rows plan" using source by (simp add: source_of_def)
  have view: "view_rows ?source rows = map snd ?served" by (simp add: view_rows_def rb)
  have len: "length ?served \<le> u64_max" using small view by (simp add: base_quads_def)
  have plan_ok: "plan_of ?all plan" "marks_run ?all ?d"
    using serves source by (auto simp: serves_def marks_run_def source_of_def)
  obtain live plan' where live: "plan_live plan ?d = Some (live, plan')" "plan_of ?all plan'"
      "served_live_len live = length ?served"
      "\<And>i j. i < j \<Longrightarrow> j \<le> length ?served \<Longrightarrow> \<exists>piece. served_live_slice live i j = Some piece \<and>
         narrows_to ?all plan' ?d piece (take (j - i) (drop i ?served))"
    using served_view_narrows [OF plan_ok, of "\<lambda>_ _. Some True" "\<lambda>_ _. True"] by auto
  obtain run where run: "plan' = plan\<lparr> sp_ids := run \<rparr>" using plan_live_kept [OF live(1)] by blast
  show ?thesis
  proof (cases "?served = []")
    case True
    then show ?thesis
      using live by (simp add: served_partitions_in_memory_def plan served_partitions_of_def base_quads_def view)
  next
    case False
    let ?rows = "length ?served" and ?width = "div_ceil (length ?served) n"
    let ?cs = "step_chunks 0 ?rows ?width"
    have width: "0 < ?width" using False n by (simp add: div_ceil_pos)
    have number: "length ?cs = div_ceil ?rows ?width" using step_chunks_count [OF width, of 0] by simp
    let ?f = "\<lambda>(a, b). map ((!) qs) (map snd (take (b - a) (drop a ?served)))"
    let ?ys = "appended_quads appended self"
    define step where "step = (\<lambda>(i, (a, b)). do {
        piece \<leftarrow> served_live_slice live a b;
        quads \<leftarrow> narrowed ?source plan' piece;
        Some (derived self quads (partition_tail self (i + 1 = length ?cs)))
      })"
    define P where "P = (\<lambda>(i, c) view rows'. store_of fl ox fx d qs appended view rows' \<and>
        store_quads qs appended view rows' = ?f c @ (if i + 1 = length ?cs then ?ys else []))"
    have each: "\<exists>view rows'. step x = Some view \<and> P x view rows'" if x: "x \<in> set (enumerate 0 ?cs)" for x
    proof -
      obtain i a b where iab: "x = (i, (a, b))" by (metis prod_cases3)
      then have "(a, b) \<in> set ?cs" using x by (auto simp: enumerate_eq_zip dest: set_zip_rightD)
      then have bounds: "a < b" "b \<le> ?rows" using step_chunks_bounds [OF len] by blast+
      let ?part = "take (b - a) (drop a ?served)"
      obtain piece where piece: "served_live_slice live a b = Some piece" "narrows_to ?all plan' ?d piece ?part"
        using live(4) [OF bounds] by blast
      have part: "set ?part \<subseteq> set ?served" "distinct (map snd ?part)"
        using served_distinct [OF plan_rows_run(2) [OF serves], of ?d]
        by (auto dest: in_take_drop simp: take_map [symmetric] drop_map [symmetric])
      obtain source' where s': "narrowed ?source plan' piece = Some source'"
          "source_of fl ox d (st_layout self) qs source' (sort (map snd ?part))"
          "view_rows source' (sort (map snd ?part)) = map snd ?part"
        using narrowed_source [OF source rb run live(2) piece(2) part] by blast
      let ?final = "i + 1 = length ?cs"
      note view' = derived_store [OF store s'(2) partition_tail_quads(1) [OF store, of ?final]]
      have "store_quads qs appended (derived self source' (partition_tail self ?final)) (sort (map snd ?part)) =
          ?f (a, b) @ (if ?final then ?ys else [])"
        unfolding view'(2) partition_tail_quads(2) [OF store] s'(3) by simp
      then show ?thesis using piece(1) s'(1) view'(1) by (auto simp: iab step_def P_def)
    qed
    obtain views where views: "gather step (enumerate 0 ?cs) = Some (map fst views)"
        "list_all2 (\<lambda>x (y, r). P x y r) (enumerate 0 ?cs) views"
      using gather_each [of "enumerate 0 ?cs" step P, OF each] by blast
    have "concat (map (\<lambda>(a, b). take (b - a) (drop a ?served)) ?cs) = map ((!) ?served) [0..<?rows]"
      using step_chunks_bounds [OF len] step_chunks_upt [OF width len, of 0] by (subst slices_concat) auto
    then have "concat (map (\<lambda>(a, b). take (b - a) (drop a ?served)) ?cs) = ?served" by (simp add: map_nth)
    moreover have "concat (map ?f ?cs) = map ((!) qs \<circ> snd) (concat (map (\<lambda>(a, b). take (b - a) (drop a ?served)) ?cs))"
      unfolding map_concat map_map by (simp add: comp_def case_prod_unfold)
    ultimately have "concat (map ?f ?cs) = map ((!) qs) (map snd ?served)" by (simp only: map_map)
    then have whole: "concat (map ?f ?cs) @ ?ys = store_quads qs appended self rows"
      by (simp add: store_quads_def base_quads_def view)
    have "?cs \<noteq> []" using number div_ceil_pos [of ?rows ?width] False width by auto
    moreover have "length ?cs \<le> n"
      using step_chunks_length [of ?rows 0 n ?width] div_ceil_mult_ge [OF n, of ?rows] by simp
    ultimately have "partitions_of fl ox fx d qs appended self rows n views"
      using partitions_of_pieces [of fl ox fx d qs appended ?f ?cs ?ys views n self rows] views(2) whole
      by (simp add: P_def case_prod_unfold)
    moreover have "served_partitions_in_memory self n = Some (Some (map fst views))"
      using views(1) False
      by (simp add: served_partitions_in_memory_def plan live(1,3) served_partitions_of_def Let_def number step_def)
    ultimately show ?thesis by blast
  qed
qed

lemma exact_partitions_quads:
  assumes store: "store_of fl ox fx d qs appended self rows" and plan: "view_rows (st_quads self) rows = live_of (qs_deleted (st_quads self)) rows"
    and n: "0 < n"
  shows "\<exists>views. do {
      (sel, quads) \<leftarrow> materialized_selection fl (st_quads self);
      let pieces = sel_split sel n (base_len quads);
      Some (if pieces = [] then [self]
            else map (\<lambda>(i, piece). derived self (with_selection quads (ExactRows piece))
                   (partition_tail self (i = length pieces - 1))) (enumerate 0 pieces))
    } = Some (map fst views) \<and> partitions_of fl ox fx d qs appended self rows n views"
proof -
  let ?source = "st_quads self" and ?n = "length qs" and ?d = "qs_deleted (st_quads self)"
  let ?ys = "appended_quads appended self"
  have source: "source_of fl ox d (st_layout self) qs ?source rows" using store by (simp add: store_of_def)
  note facts = source_facts [OF source]
  obtain sel vs where sel: "view_materialized fl (qs_selection ?source) = Some (sel, vs)" "wf_selection ?n sel"
      "covered sel ?n = rows" "selects fl ?n ?d vs rows"
    using view_materialized_rows [OF facts(1)] by blast
  let ?quads = "?source\<lparr> qs_selection := vs \<rparr>" and ?pieces = "sel_split sel n ?n"
  have small: "?n \<le> u64_max" using facts(3) by (simp add: base_of_def holds_quads_def Let_def)
  have split: "concat (map (\<lambda>piece. covered piece ?n) ?pieces) = rows" "length ?pieces \<le> n"
      "\<forall>piece \<in> set ?pieces. wf_selection ?n piece"
    using sel_split_partitions [OF sel(2) small, of n] sel(3) n by auto
  have out: "do {
      (sel, quads) \<leftarrow> materialized_selection fl (st_quads self);
      let pieces = sel_split sel n (base_len quads);
      Some (if pieces = [] then [self]
            else map (\<lambda>(i, piece). derived self (with_selection quads (ExactRows piece))
                   (partition_tail self (i = length pieces - 1))) (enumerate 0 pieces))
    } = Some (if ?pieces = [] then [self]
            else map (\<lambda>(i, piece). derived self (with_selection ?quads (ExactRows piece))
                   (partition_tail self (i = length ?pieces - 1))) (enumerate 0 ?pieces))"
    using source_len [OF source] by (simp add: materialized_selection_def sel(1) base_len_def Let_def)
  show ?thesis
  proof (cases "?pieces = []")
    case True
    then show ?thesis
      using out store n by (intro exI [of _ "[(self, rows)]"]) (simp add: partitions_of_def)
  next
    case False
    define f where "f = (\<lambda>piece. map ((!) qs) (live_of ?d (covered piece ?n)))"
    define step where "step = (\<lambda>(i, piece). derived self (with_selection ?quads (ExactRows piece))
      (partition_tail self (i = length ?pieces - 1)))"
    let ?views = "map (\<lambda>(i, piece). (step (i, piece), covered piece ?n)) (enumerate 0 ?pieces)"
    have quads: "source_of fl ox d (st_layout self) qs ?quads rows"
      using source_reselected [OF source sel(4) named_kept(1) [OF sel(1)]] .
    have each: "store_of fl ox fx d qs appended (step (i, piece)) (covered piece ?n) \<and>
        store_quads qs appended (step (i, piece)) (covered piece ?n) = f piece @ (if i + 1 = length ?pieces then ?ys else [])"
      if i: "i < length ?pieces" "piece = ?pieces ! i" for i piece
    proof -
      have "wf_selection ?n piece" using split(3) i by simp
      note exact = exact_source [OF quads this]
      note view' = derived_store [OF store exact(1) partition_tail_quads(1) [OF store, of "i = length ?pieces - 1"]]
      have "(i = length ?pieces - 1) = (i + 1 = length ?pieces)" using i(1) by auto
      then have "store_quads qs appended (step (i, piece)) (covered piece ?n) = f piece @ (if i + 1 = length ?pieces then ?ys else [])"
        unfolding step_def prod.case view'(2) partition_tail_quads(2) [OF store] exact(2) by (simp add: f_def)
      then show ?thesis using view'(1) by (simp add: step_def)
    qed
    have "list_all2 (\<lambda>(i, c) (view, rows'). store_of fl ox fx d qs appended view rows' \<and>
        store_quads qs appended view rows' = f c @ (if i + 1 = length ?pieces then ?ys else [])) (enumerate 0 ?pieces) ?views"
      using each by (auto simp: list_all2_conv_all_nth nth_enumerate_eq)
    moreover have "concat (map f ?pieces) @ ?ys = store_quads qs appended self rows"
    proof -
      have "concat (map f ?pieces) = map ((!) qs) (live_of ?d (concat (map (\<lambda>piece. covered piece ?n) ?pieces)))"
        by (simp add: f_def live_of_def filter_concat map_concat comp_def)
      then show ?thesis by (simp only: split(1) store_quads_def base_quads_def plan)
    qed
    ultimately have "partitions_of fl ox fx d qs appended self rows n ?views"
      using False split(2) by (intro partitions_of_pieces)
    moreover have first: "map fst ?views = map (\<lambda>(i, piece). derived self (with_selection ?quads (ExactRows piece))
        (partition_tail self (i = length ?pieces - 1))) (enumerate 0 ?pieces)"
      by (simp add: step_def case_prod_unfold comp_def)
    ultimately show ?thesis
      unfolding out if_not_P [OF False] first [symmetric] by (intro exI [of _ ?views] conjI refl)
  qed
qed

lemma partitions_quads:
  assumes store: "store_of fl ox fx d qs appended self rows"
    and small: "length (base_quads qs self rows) \<le> usize_max" and n: "0 < n"
  shows "\<exists>views. store_partitions fl self n = Some (map fst views) \<and>
    partitions_of fl ox fx d qs appended self rows n views"
proof (cases "n = 1")
  case True
  then show ?thesis
    using store by (intro exI [of _ "[(self, rows)]"]) (simp add: store_partitions_def partitions_of_def)
next
  case False
  have unserved: "\<exists>views. store_partitions fl self n = Some (map fst views) \<and>
      partitions_of fl ox fx d qs appended self rows n views"
    if none: "served_partitions_in_memory self n = Some None"
      and order: "view_rows (st_quads self) rows = live_of (qs_deleted (st_quads self)) rows"
    using exact_partitions_quads [OF store order n] False none by (simp add: store_partitions_def)
  show ?thesis
  proof (cases "served_of (st_quads self)")
    case None
    then show ?thesis
      by (intro unserved) (simp_all add: served_partitions_in_memory_def view_rows_def served_of_def)
  next
    case (Some plan)
    show ?thesis
    proof (cases "served_partitions_in_memory self n = Some None")
      case True
      have source: "source_of fl ox d (st_layout self) qs (st_quads self) rows" using store by (simp add: store_of_def)
      have "view_rows (st_quads self) rows = []"
        using served_partitions_quads [OF store Some small n] True by (auto simp: base_quads_def)
      then have "live_of (qs_deleted (st_quads self)) rows = []" using view_rows_live(3) [OF source] by simp
      then show ?thesis using True \<open>view_rows (st_quads self) rows = []\<close> by (intro unserved) simp_all
    next
      case some: False
      then obtain views where "served_partitions_in_memory self n = Some (Some (map fst views))"
          "partitions_of fl ox fx d qs appended self rows n views"
        using served_partitions_quads [OF store Some small n] by blast
      then show ?thesis using False by (auto simp: store_partitions_def)
    qed
  qed
qed

section \<open>Windows and partitions of a view\<close>

text \<open>C11. A window of a view is the window of its quads: it never fails, and reads the view's quads
  after the offset, at most the limit's number of them, in the view's own order, the base's rows and
  then the tail's, whether a plan serves the view, its rows are pending, or tombstones lie among
  them. What it gives is a view again; the view it was cut from, with what the window left in its
  shared cells, is a view of the same quads still. The store is of the Default or the Dictionary layout.\<close>

theorem window_is_window_of_quads:
  assumes "store_of fl ox fx d qs appended self rows" "length (store_quads qs appended self rows) \<le> usize_max"
  shows "\<exists>view self' rows'. store_window fl self offset limit = Some (view, self') \<and>
    store_of fl ox fx d qs appended view rows' \<and>
    store_quads qs appended view rows' = take limit (drop offset (store_quads qs appended self rows)) \<and>
    store_of fl ox fx d qs appended self' rows \<and>
    store_quads qs appended self' rows = store_quads qs appended self rows"
  using window_quads [OF assms] unfolding window_of_def by blast

theorem window_is_window_of_quads_witness:
  "\<exists>view self' rows'. store_window plain_compute (sample_store None) 1 1 = Some (view, self') \<and>
     store_quads sample_quads [] view rows' = [sample_quads ! 1] \<and>
     store_quads sample_quads [] self' [0..<length sample_quads] = sample_quads"
proof -
  have store: "store_of plain_compute plain_oxrdf length sample_dictionary sample_quads [] (sample_store None) [0..<length sample_quads]"
    by (rule sample_store_of) simp
  have small: "length (store_quads sample_quads [] (sample_store None) [0..<length sample_quads]) \<le> usize_max"
    unfolding sample_store_quads by (simp add: sample_quads_def u64_max_def)
  have "take 1 (drop 1 sample_quads) = [sample_quads ! 1]" by (simp add: sample_quads_def)
  then show ?thesis
    using window_is_window_of_quads [OF store small, of 1 1] unfolding sample_store_quads by auto
qed

text \<open>C12. The partitions of a view, at most as many as asked for, are views whose quads, one view's
  after the other's, are exactly the view's, in its order: no quad is lost, read twice or moved.
  The store is of the Default or the Dictionary layout.\<close>

theorem partitions_read_the_view:
  assumes "store_of fl ox fx d qs appended self rows" "length (base_quads qs self rows) \<le> usize_max" "0 < n"
  shows "\<exists>views. store_partitions fl self n = Some (map fst views) \<and> length views \<le> n \<and>
    (\<forall>(view, rows') \<in> set views. store_of fl ox fx d qs appended view rows') \<and>
    concat (map (\<lambda>(view, rows'). store_quads qs appended view rows') views) = store_quads qs appended self rows"
  using partitions_quads [OF assms] unfolding partitions_of_def by blast

theorem partitions_read_the_view_witness:
  "\<exists>views. store_partitions plain_compute (sample_store None) 2 = Some (map fst views) \<and> length views \<le> 2 \<and>
     concat (map (\<lambda>(view, rows'). store_quads sample_quads [] view rows') views) = sample_quads"
proof -
  have store: "store_of plain_compute plain_oxrdf length sample_dictionary sample_quads [] (sample_store None) [0..<length sample_quads]"
    by (rule sample_store_of) simp
  have small: "length (base_quads sample_quads (sample_store None) [0..<length sample_quads]) \<le> usize_max"
  proof -
    have "length (base_quads sample_quads (sample_store None) [0..<length sample_quads]) \<le>
        length (store_quads sample_quads [] (sample_store None) [0..<length sample_quads])"
      by (simp add: store_quads_def)
    then show ?thesis unfolding sample_store_quads by (simp add: sample_quads_def u64_max_def)
  qed
  show ?thesis using partitions_read_the_view [OF store small, of 2] unfolding sample_store_quads by auto
qed

end
