(* ===== verification/Matching.thy ===== *)
theory Matching
  imports Narrowings
begin

text \<open>
  Matching a pattern on a view whose base is in memory (\<open>src/core/src/store/query\<close>: \<open>matching/mod.rs\<close>,
  \<open>matching/memory.rs\<close>, and the chain of \<open>served.rs\<close>): the binary searches of the sorted base's prefix,
  the index children, and the compare of what is left, each narrowing the rows the view selects. The
  statistics are on, as they are unless they are switched off. \<^term>\<open>None\<close> is a panic or an error.
\<close>

section \<open>What a match is for\<close>

datatype ids_need = NeedRows | CountOrWindow nat | NeedCount

fun counts_or_windows :: "ids_need \<Rightarrow> bool" where
  "counts_or_windows (CountOrWindow reach) = True"
| "counts_or_windows NeedCount = True"
| "counts_or_windows NeedRows = False"

definition defers_residual :: "ids_need \<Rightarrow> nat \<Rightarrow> bool" where
  "defers_residual self rows \<longleftrightarrow>
     (case self of NeedRows \<Rightarrow> False | CountOrWindow reach \<Rightarrow> reach < rows | NeedCount \<Rightarrow> True) \<and>
     FIRST_PIECE_ROWS < rows"

definition CHAIN_MIN_ROWS :: nat where
  "CHAIN_MIN_ROWS = 1024"

definition INDEX_ROUTING_MIN_ROWS :: nat where
  "INDEX_ROUTING_MIN_ROWS = 4096"

definition fold_row_ids ::
    "'k compute_scheme \<Rightarrow> row_selection \<Rightarrow> lazy_ids \<Rightarrow> bool \<Rightarrow> 'l view_selection option" where
  "fold_row_ids fl existing row_ids defer_ids =
     (if defer_ids then Some (view_pending row_ids)
      else do {
        (ids, row_ids) \<leftarrow> lazy_materialized fl row_ids;
        map_option ExactRows (intersect_ids existing ids)
      })"

section \<open>The prefix of a sorted base\<close>

text \<open>The roles behind the subject, each searched in the run of the roles before it, until one has no
  probe or no code, or the run is empty; beside the last run, how many were answered.\<close>

fun prefix_loop ::
    "'k kernels_scheme \<Rightarrow> table \<Rightarrow> pattern_codes \<Rightarrow> 'l term_ref list \<Rightarrow> nat \<times> nat \<Rightarrow> nat \<Rightarrow>
     ((nat \<times> nat) \<times> nat) option" where
  "prefix_loop fl base codes [] run answered = Some (run, answered)"
| "prefix_loop fl base codes (t # terms) (a, b) answered =
     (case by_name base (column_name (role t)) of
        None \<Rightarrow> Some ((a, b), answered)
      | Some pr \<Rightarrow>
          do {
            needle \<leftarrow> ok (probe_code codes t);
            (case needle of
               None \<Rightarrow> Some ((a, b), answered)
             | Some needle \<Rightarrow>
                 do {
                   (lo, hi) \<leftarrow> bounds_in fl pr a b needle;
                   if \<not> lo < hi then Some ((lo, hi), answered + 1)
                   else prefix_loop fl base codes terms (lo, hi) (answered + 1)
                 })
          })"

definition prefix_behind ::
    "'k kernels_scheme \<Rightarrow> table \<Rightarrow> pattern_codes \<Rightarrow> 'l quad_pattern \<Rightarrow> row_selection \<Rightarrow>
     (row_selection \<times> 'l quad_pattern) option" where
  "prefix_behind fl base codes p sel =
     (case sel of
        RowRange a b \<Rightarrow>
          do {
            ((lo, hi), answered) \<leftarrow> prefix_loop fl base codes (prefix_behind_subject p) (a, b) 0;
            Some (if 0 < answered then (RowRange lo hi, clear_prefix_behind_subject p answered) else (sel, p))
          }
      | _ \<Rightarrow> Some (sel, p))"

text \<open>The subject's column, the scalar it is probed for, if the search is licensed.\<close>

definition prefix_probe ::
    "'k kernels_scheme \<Rightarrow> array_search \<Rightarrow> 'l oxrdf \<Rightarrow> table \<Rightarrow> bool \<Rightarrow> pattern_codes \<Rightarrow> 'l quad_pattern \<Rightarrow>
     row_selection \<Rightarrow> (row_selection \<times> 'l quad_pattern \<times> bool) option" where
  "prefix_probe fl sx ox base sorted_base codes p sel =
     (case (pat_subject p, map_of (tb_columns base) ''s'') of
        (Some s, Some s_col) \<Rightarrow>
          (case (if sorted_base then probe_scalar ox codes (RefSubject s) else Inr None) of
             Inr (Some native) \<Rightarrow>
               (case scalar_cast (col_type s_col) native of
                  None \<Rightarrow> Some (sel, p, False)
                | Some scalar \<Rightarrow>
                    do {
                      (lo, hi) \<leftarrow> (case (by_name base ''s'', unsigned_value scalar) of
                          (Some pr, Some needle) \<Rightarrow> Probe.bounds fl pr needle
                        | _ \<Rightarrow> search_sorted_bounds fl sx s_col scalar);
                      sel \<leftarrow> intersect_range sel lo hi;
                      (sel, p) \<leftarrow> prefix_behind fl base codes (p\<lparr> pat_subject := None \<rparr>) sel;
                      Some (sel, p, True)
                    })
           | _ \<Rightarrow> Some (sel, p, False))
      | _ \<Rightarrow> Some (sel, p, False))"

section \<open>What is left is compared\<close>

text \<open>No selection where the constraints are never met.\<close>

definition residual_narrow ::
    "'k compute_scheme \<Rightarrow> 'l oxrdf \<Rightarrow> memory_base \<Rightarrow> row_selection \<Rightarrow> 'l quad_pattern \<Rightarrow> pattern_codes \<Rightarrow>
     ids_need \<Rightarrow> 'l view_selection option option" where
  "residual_narrow fl ox memory sel p codes need =
     (case constraints ox codes p of
        Inl e \<Rightarrow> None
      | Inr AlwaysFalse \<Rightarrow> Some None
      | Inr (EqAll eqs) \<Rightarrow>
          (let rows = sel_len sel (tb_len (mem_table memory));
               asked = (if asks_statistics rows then ask_statistics memory sel eqs
                        else Open eqs (unasked_classes memory eqs))
           in case asked of
               Nothing \<Rightarrow> Some (Some (ExactRows empty_selection))
             | Everything \<Rightarrow> Some (Some (ExactRows sel))
             | Open eqs classes \<Rightarrow>
                 if defers_residual need rows then Some (Some (PendingCompare (pending_new memory sel eqs classes)))
                 else map_option (\<lambda>narrowed. Some (ExactRows narrowed))
                        (residual_rows fl \<lparr> rc_table = mem_table memory, rc_selection = sel, rc_eqs = eqs,
                           rc_classes = classes, rc_deleted = None \<rparr>)))"

section \<open>A match on a base in memory\<close>

text \<open>The last steps, after the index children have answered: the ids folded in, and what is left
  compared.\<close>

definition finish_match ::
    "'k compute_scheme \<Rightarrow> 'l oxrdf \<Rightarrow> 'l store \<Rightarrow> pattern_codes \<Rightarrow> ids_need \<Rightarrow> bool \<Rightarrow> bool \<Rightarrow> row_selection \<Rightarrow>
     lazy_ids option \<Rightarrow> 'l quad_pattern \<Rightarrow> serve_plan option \<Rightarrow> 'l store option" where
  "finish_match fl ox self codes need unrefined prefix_narrowed sel resolved p plan =
     (let memory = qs_memory (st_quads self);
          n = base_len (st_quads self);
          sole = unrefined \<and> \<not> prefix_narrowed \<and> \<not> any_bound p
      in do {
        sel \<leftarrow> (case resolved of
                  Some row_ids \<Rightarrow> fold_row_ids fl sel row_ids (sole \<and> (plan \<noteq> None \<or> counts_or_windows need))
                | None \<Rightarrow> Some (ExactRows sel));
        left \<leftarrow> (case sel of
                  ExactRows rows \<Rightarrow>
                    if \<not> sel_is_empty rows n \<and> any_bound p then
                      map_option (map_option (\<lambda>narrowed. (narrowed, True)))
                        (residual_narrow fl ox (memory_base.truncate memory) rows p codes need)
                    else Some (Some (sel, False))
                | _ \<Rightarrow> Some (Some (sel, False)));
        (case left of
           None \<Rightarrow> Some (empty_view self)
         | Some (sel, residual_narrowed) \<Rightarrow>
             Some (derived self
               (in_memory_with (st_quads self) memory sel
                  (if unrefined \<and> \<not> prefix_narrowed \<and> \<not> residual_narrowed then plan else None))
               (st_tail self)))
      })"

definition windowed_need :: "ids_need \<Rightarrow> bool" where
  "windowed_need need \<longleftrightarrow> (case need of CountOrWindow reach \<Rightarrow> reach < usize_max | _ \<Rightarrow> False)"

definition match_base_in_memory ::
    "'k compute_scheme \<Rightarrow> array_search \<Rightarrow> 'l oxrdf \<Rightarrow> 'l store \<Rightarrow> 'l quad_pattern \<Rightarrow> pattern_codes \<Rightarrow>
     ids_need \<Rightarrow> 'l store option" where
  "match_base_in_memory fl sx ox self p codes need =
     (let memory = qs_memory (st_quads self);
          n = base_len (st_quads self)
      in do {
        (sel, vs) \<leftarrow> view_materialized fl (qs_selection (st_quads self));
        let unrefined = (sel = AllRows);
        (sel, p, prefix_narrowed) \<leftarrow> prefix_probe fl sx ox (mem_table memory) (rb_sorted memory) codes p sel;
        let worth_indexing = (\<not> prefix_narrowed \<or> INDEX_ROUTING_MIN_ROWS \<le> sel_len sel n);
        resolution \<leftarrow> (if \<not> sel_is_empty sel n \<and> any_bound p \<and> worth_indexing
          then resolve_indexes_in_memory fl sx ox (st_indexes self) (rb_components memory) (st_layout self) p codes
                 (windowed_need need)
          else Some Declined);
        (case resolution of
           ResolvedEmpty \<Rightarrow> Some (empty_view self)
         | Resolved row_ids roles plan \<Rightarrow>
             finish_match fl ox self codes need unrefined prefix_narrowed sel (Some row_ids) (clear_roles roles p) plan
         | Declined \<Rightarrow> finish_match fl ox self codes need unrefined prefix_narrowed sel None p None)
      })"

section \<open>A match on a narrowed served view\<close>

definition served_kept :: "'l store \<Rightarrow> serve_plan \<Rightarrow> served_rows \<Rightarrow> 'l store option" where
  "served_kept self plan kept =
     (if served_len kept = 0 then Some (empty_view self)
      else map_option (\<lambda>quads. derived self quads (st_tail self)) (narrowed (st_quads self) plan (LiveKept kept)))"

text \<open>The scalars the bound roles are compared to; none where a term is absent.\<close>

fun chain_eqs ::
    "'l oxrdf \<Rightarrow> pattern_codes \<Rightarrow> 'l term_ref list \<Rightarrow> equalities \<Rightarrow> equalities option fallible" where
  "chain_eqs ox codes [] eqs = Inr (Some eqs)"
| "chain_eqs ox codes (t # terms) eqs =
     and_then (probe_scalar ox codes t) (\<lambda>native.
       case native of
         None \<Rightarrow> Inr None
       | Some s \<Rightarrow> chain_eqs ox codes terms (eqs @ [(column_name (role t), s)]))"

definition served_chain ::
    "'k compute_scheme \<Rightarrow> 'l oxrdf \<Rightarrow> 'l store \<Rightarrow> serve_plan \<Rightarrow> 'l quad_pattern \<Rightarrow> pattern_codes \<Rightarrow> 'l store option" where
  "served_chain fl ox self plan p codes =
     (case chain_eqs ox codes (bound_roles p) [] of
        Inl e \<Rightarrow> None
      | Inr None \<Rightarrow> Some (empty_view self)
      | Inr (Some eqs) \<Rightarrow>
          if eqs = [] then Some self
          else do {
            (kept, plan) \<leftarrow> rows_where plan (qs_deleted (st_quads self)) (map fst eqs)
              (\<lambda>cols n. mask_for fl cols n eqs);
            served_kept self plan kept
          })"

section \<open>Matches\<close>

text \<open>The view whose rows are pending matches of a pattern over every base row names the pattern where
  its run is wide, or of unknown width.\<close>

definition name_pattern :: "'l quad_pattern \<Rightarrow> 'l view_selection \<Rightarrow> 'l view_selection" where
  "name_pattern p vs =
     (case vs of
        PendingIds row_ids matched \<Rightarrow>
          if (case lazy_len_if_known row_ids of None \<Rightarrow> True | Some rows \<Rightarrow> CHAIN_MIN_ROWS \<le> rows)
          then PendingIds row_ids (Some p) else vs
      | _ \<Rightarrow> vs)"

definition renamed :: "'l quad_pattern \<Rightarrow> 'l store \<Rightarrow> 'l store" where
  "renamed p self =
     self\<lparr> st_quads := (st_quads self)\<lparr> qs_selection := name_pattern p (qs_selection (st_quads self)) \<rparr> \<rparr>"

definition match_one ::
    "'k compute_scheme \<Rightarrow> array_search \<Rightarrow> 'l oxrdf \<Rightarrow> 'l store \<Rightarrow> 'l quad_pattern \<Rightarrow> ids_need \<Rightarrow> 'l store option" where
  "match_one fl sx ox self p need =
     (case prepare_pattern ox (st_layout self) p of
        Inl e \<Rightarrow> None
      | Inr PreparedEmpty \<Rightarrow> Some (empty_view self)
      | Inr (PreparedCodes codes) \<Rightarrow>
          (case Option.bind (served_of (st_quads self)) (\<lambda>plan. if sp_narrowed plan then Some plan else None) of
             Some plan \<Rightarrow> served_chain fl ox self plan p codes
           | None \<Rightarrow>
               do {
                 matched \<leftarrow> match_base_in_memory fl sx ox self p codes need;
                 Some (if is_unrefined (st_quads self) \<and> need = NeedRows then renamed p matched else matched)
               }))"

text \<open>A match on a view whose rows are the pending matches of one pattern is one match of both, which
  starts on every base row.\<close>

function match_base ::
    "'k compute_scheme \<Rightarrow> array_search \<Rightarrow> 'l oxrdf \<Rightarrow> 'l store \<Rightarrow> 'l quad_pattern \<Rightarrow> ids_need \<Rightarrow> 'l store option"
  and match_both ::
    "'k compute_scheme \<Rightarrow> array_search \<Rightarrow> 'l oxrdf \<Rightarrow> 'l store \<Rightarrow> 'l quad_pattern \<Rightarrow> ids_need \<Rightarrow> 'l store option" where
  "match_base fl sx ox self p need =
     (case Option.bind (named_pattern (qs_selection (st_quads self))) (\<lambda>first. pattern_and first p) of
        Some joined \<Rightarrow> match_both fl sx ox self joined need
      | None \<Rightarrow> match_one fl sx ox self p need)"
| "match_both fl sx ox self joined need =
     do {
       matched \<leftarrow> match_base fl sx ox (derived self (unrestricted (st_quads self)) (st_tail self)) joined need;
       if counts_or_windows need then Some matched
       else do {
         (ids, quads) \<leftarrow> materialized_selection fl (st_quads matched);
         Some (derived matched (with_selection (st_quads matched) (ExactRows ids)) (st_tail matched))
       }
     }"
  by pat_completeness auto

termination
  by (relation "measure (\<lambda>call. case call of
        Inl (fl, sx, ox, self, p, need) \<Rightarrow> if named_pattern (qs_selection (st_quads self)) = None then 0 else 2
      | Inr (fl, sx, ox, self, joined, need) \<Rightarrow> 1)")
     (auto simp: derived_def unrestricted_def in_memory_with_def view_all_def split: Option.bind_splits)

declare match_base.simps [simp del] match_both.simps [simp del]

definition match_pattern_for ::
    "'k compute_scheme \<Rightarrow> array_search \<Rightarrow> 'l oxrdf \<Rightarrow> hasher \<Rightarrow> library \<Rightarrow> 'l store \<Rightarrow> 'l quad_pattern \<Rightarrow>
     ids_need \<Rightarrow> 'l store option" where
  "match_pattern_for fl sx ox fx lib self p need =
     do {
       matched \<leftarrow> match_base fl sx ox self p need;
       (case st_tail self of
          None \<Rightarrow> Some matched
        | Some tail \<Rightarrow> map_option (\<lambda>tail. matched\<lparr> st_tail := Some tail \<rparr>) (match_tail ox fx fl lib tail p))
     }"

definition match_pattern ::
    "'k compute_scheme \<Rightarrow> array_search \<Rightarrow> 'l oxrdf \<Rightarrow> hasher \<Rightarrow> library \<Rightarrow> 'l store \<Rightarrow> 'l quad_pattern \<Rightarrow> 'l store option" where
  "match_pattern fl sx ox fx lib self p = match_pattern_for fl sx ox fx lib self p NeedRows"

definition pattern_of :: "'l rdf_quad \<Rightarrow> 'l quad_pattern" where
  "pattern_of q =
     \<lparr> pat_subject = Some (quad_subject q), pat_predicate = Some (quad_predicate q),
        pat_object = Some (quad_object q), pat_graph = Some (quad_graph q) \<rparr>"

definition store_contains ::
    "'k compute_scheme \<Rightarrow> array_search \<Rightarrow> 'l oxrdf \<Rightarrow> hasher \<Rightarrow> library \<Rightarrow> 'l store \<Rightarrow> 'l rdf_quad \<Rightarrow> bool option" where
  "store_contains fl sx ox fx lib self q =
     do {
       matched \<leftarrow> match_pattern fl sx ox fx lib self (pattern_of q);
       map_option fst (store_exists fl matched)
     }"

end
