(* ===== verification/MatchRows.thy ===== *)
theory MatchRows
  imports Matching
begin

text \<open>
  A match selects the rows that match: what the prepared codes say of the base's columns, the prefix's
  binary searches, the compare of what is left, and the plan of an index child that resolved a pattern.
\<close>

section \<open>Prepared codes\<close>

definition codes_exact ::
    "'l oxrdf \<Rightarrow> pattern_codes \<Rightarrow> index_input \<Rightarrow> 'l rdf_quad list \<Rightarrow> 'l quad_pattern \<Rightarrow> bool" where
  "codes_exact ox codes input qs p \<longleftrightarrow>
     pc_layout codes \<noteq> TypedObjectLayout \<and>
     (\<forall>t \<in> set (bound_roles p). \<exists>s. probe_scalar ox codes t = Inr (Some s) \<and> fits (input_type input) s \<and>
        (\<forall>i < length qs. input_cells input (role t) ! i = s \<longleftrightarrow> ref_holds (qs ! i) t))"

lemma probe_code_scalar:
  assumes "probe_scalar ox codes t = Inr (Some s)"
  shows "probe_code codes t = Inr None \<or> (\<exists>code. probe_code codes t = Inr (Some code) \<and> s = CodeScalar code)"
  using assms
  by (auto simp: probe_scalar_def probe_code_def map_ok_def and_then_def split: if_splits sum.splits option.splits)

lemma codes_exact_part:
  assumes "codes_exact ox codes input qs p" "set (bound_roles p') \<subseteq> set (bound_roles p)"
  shows "codes_exact ox codes input qs p'"
  using assms unfolding codes_exact_def by blast

lemma codes_exact_probes:
  assumes "codes_exact ox codes input qs p" "t \<in> set (bound_roles p)"
  shows "probes_exactly ox codes input qs t"
  using assms by (auto simp: codes_exact_def probes_exactly_def)

lemma prepared_strings:
  assumes ox: "lawful_oxrdf ox" and qs: "\<forall>q \<in> set qs. wf_quad ox q" and p: "wf_pattern ox p"
    and codes: "prepare_pattern ox ResolvedDefault p = Inr (PreparedCodes codes)"
  shows "codes_exact ox codes (QuadInput (map (from_quad ox) qs)) qs p"
proof -
  have layout: "probes_by_string codes" "pc_layout codes \<noteq> TypedObjectLayout"
    using codes by (auto simp: prepare_pattern_def probes_by_string_def codes_new_def map_ok_def split: if_splits)
  have "ref_holds (qs ! i) t \<longleftrightarrow> write_nt ox (quad_ref (qs ! i) (role t)) = write_nt ox t"
    if "i < length qs" "t \<in> set (bound_roles p)" for i t
    using ref_holds_spelling [OF ox] qs p that by (simp add: wf_pattern_def list_all_iff)
  then show ?thesis
    using layout by (simp add: codes_exact_def probe_scalar_def raw_field_of)
qed

lemma prepared_dictionary:
  assumes ox: "lawful_oxrdf ox" and qs: "\<forall>q \<in> set qs. wf_quad ox q \<and> held_by ox d q" and p: "wf_pattern ox p"
    and d: "wf_dictionary d" "accesses d access"
    and codes: "prepare_pattern ox (ResolvedDictionary access) p = Inr (PreparedCodes codes)"
  shows "codes_exact ox codes (CodeInput (quad_codes_of ox d qs)) qs p"
proof -
  obtain codes' where codes': "pc_layout codes' = DictionaryLayout"
      "prepare_pattern ox (ResolvedDictionary access) p =
         Inr (if \<exists>t \<in> set (bound_roles p). term_code ox d t = None then PreparedEmpty else PreparedCodes codes')"
      "(\<forall>t \<in> set (bound_roles p). term_code ox d t \<noteq> None) \<longrightarrow>
         (\<forall>t \<in> set (bound_roles p). pc_roles codes' ! slot_of t = Some (term_code ox d t))"
    using prepare_pattern_codes [OF d(2), of ox p] by blast
  have held: "\<forall>t \<in> set (bound_roles p). term_code ox d t \<noteq> None" "codes = codes'"
    using codes codes'(2) by (auto split: if_splits)
  have "\<exists>s. probe_scalar ox codes t = Inr (Some s) \<and> fits (UInt 8) s \<and>
      (\<forall>i < length qs. input_cells (CodeInput (quad_codes_of ox d qs)) (role t) ! i = s \<longleftrightarrow> ref_holds (qs ! i) t)"
    if t: "t \<in> set (bound_roles p)" for t
  proof -
    obtain code where code: "term_code ox d t = Some code" using held t by auto
    have "pc_roles codes ! slot_of t = Some (Some code)" using codes'(3) held t code by simp
    then have native: "probe_scalar ox codes t = Inr (Some (CodeScalar code))"
      using codes'(1) held(2) by (simp add: probe_scalar_def probes_by_string_def pattern_code_def map_ok_def)
    have "probes_exactly ox codes (layout_input ox d (ResolvedDictionary access) qs) qs t"
      using layout_probes_exactly [OF ox qs p d(1) _ codes t] d(2) by simp
    then show ?thesis using native by (simp add: probes_exactly_def)
  qed
  then show ?thesis using codes'(1) held(2) by (simp add: codes_exact_def)
qed

lemma prepared_exact:
  assumes "lawful_oxrdf ox" "holds_quads ox d layout qs" "wf_pattern ox p"
  shows "(prepare_pattern ox layout p = Inr PreparedEmpty \<and> (\<forall>q \<in> set qs. \<not> quad_matches p q)) \<or>
    (\<exists>codes. prepare_pattern ox layout p = Inr (PreparedCodes codes) \<and>
       codes_exact ox codes (layout_input ox d layout qs) qs p)"
proof (cases layout)
  case ResolvedDefault
  have wf: "\<forall>q \<in> set qs. wf_quad ox q" using assms(2) by (simp add: holds_quads_def)
  obtain codes where "prepare_pattern ox ResolvedDefault p = Inr (PreparedCodes codes)"
    using string_constraints [OF assms(1) wf assms(3), of DefaultStrings] by (auto simp: resolved_strings_def)
  then show ?thesis using prepared_strings [OF assms(1) wf assms(3)] ResolvedDefault by auto
next
  case (ResolvedDictionary access)
  have d: "wf_dictionary d" "accesses d access" "\<forall>q \<in> set qs. wf_quad ox q \<and> held_by ox d q"
    using assms(2) ResolvedDictionary by (simp_all add: holds_quads_def)
  show ?thesis
    using code_constraints [OF assms(1) d assms(3)] prepared_dictionary [OF assms(1) d(3) assms(3) d(1,2)]
      ResolvedDictionary by auto
qed (use assms(2) in \<open>simp add: holds_quads_def\<close>)

section \<open>What is left, compared\<close>

lemma constraints_of_codes:
  assumes "pc_layout codes \<noteq> TypedObjectLayout" "\<forall>t \<in> set terms. probe_scalar ox codes t = Inr (Some (f t))"
  shows "constraints_loop ox codes terms eqs = Inr (EqAll (eqs @ map (\<lambda>t. (column_name (role t), f t)) terms))"
  using assms(2)
proof (induction terms arbitrary: eqs)
  case (Cons t terms)
  have native: "probe_scalar ox codes t = Inr (Some (f t))" using Cons.prems by simp
  show ?case
  proof (cases "probes_by_string codes")
    case True
    then have "f t = TextScalar (write_nt ox t)" using native by (simp add: probe_scalar_def)
    then show ?thesis using Cons assms(1) True by (cases "pc_layout codes") (auto split: layout_strategy.splits)
  next
    case False
    then obtain code where "pattern_code codes t = Inr (Some code)" "f t = CodeScalar code"
      using native by (auto simp: probe_scalar_def map_ok_def and_then_def split: sum.splits)
    then show ?thesis using Cons assms(1) False by (cases "pc_layout codes") auto
  qed
qed simp

lemma base_input:
  assumes "base_of fl ox d layout qs memory"
  shows "wf_input (layout_input ox d layout qs)"
proof (cases layout)
  case ResolvedDefault
  then show ?thesis using assms by (simp add: base_of_def holds_quads_def wf_input_def list_all_iff Let_def)
next
  case ResolvedTypedObject
  then show ?thesis using assms by (simp add: base_of_def holds_quads_def Let_def)
next
  case (ResolvedDictionary access)
  then have "wf_dictionary d" "\<forall>q \<in> set qs. held_by ox d q" "length qs \<le> usize_max"
    using assms by (simp_all add: base_of_def holds_quads_def Let_def)
  then show ?thesis by (rule layout_input_wf)
qed

text \<open>The equalities a pattern's codes lower to, and the scalars they compare to.\<close>

lemma codes_eqs:
  assumes base: "base_of fl ox d layout qs memory" and codes: "codes_exact ox codes (layout_input ox d layout qs) qs p"
  obtains f where "\<forall>t \<in> set (bound_roles p). probe_scalar ox codes t = Inr (Some (f t)) \<and>
      fits (input_type (layout_input ox d layout qs)) (f t)"
    "wf_eqs (mem_table memory) (map (\<lambda>t. (column_name (role t), f t)) (bound_roles p))"
    "\<forall>i < length qs. holds (mem_table memory) (map (\<lambda>t. (column_name (role t), f t)) (bound_roles p)) i \<longleftrightarrow>
      quad_matches p (qs ! i)"
proof -
  let ?input = "layout_input ox d layout qs" and ?t = "mem_table memory"
  obtain f where f: "\<And>t. t \<in> set (bound_roles p) \<Longrightarrow> probe_scalar ox codes t = Inr (Some (f t)) \<and>
      fits (input_type ?input) (f t) \<and>
      (\<forall>i < length qs. input_cells ?input (role t) ! i = f t \<longleftrightarrow> ref_holds (qs ! i) t)"
    using codes unfolding codes_exact_def by metis
  let ?eqs = "map (\<lambda>t. (column_name (role t), f t)) (bound_roles p)"
  have input: "wf_input ?input" by (rule base_input [OF base])
  have typed: "typed_column ?t (column_name c) (input_type ?input) (input_cells ?input c)" for c
    using base by (simp add: base_of_def Let_def)
  have fit: "\<forall>s \<in> set (input_cells ?input c). fits (input_type ?input) s" for c
    using input_facts(1) [OF input, rule_format, of c] by (simp add: list_all_iff)
  have "wf_eqs ?t ?eqs" unfolding wf_eqs_def
  proof (intro ballI, clarify)
    fix name s
    assume "(name, s) \<in> set ?eqs"
    then obtain t where t: "t \<in> set (bound_roles p)" "name = column_name (role t)" "s = f t" by auto
    then show "\<exists>col. map_of (tb_columns ?t) name = Some col \<and> fits (col_type col) s \<and>
        (\<forall>c \<in> set (col_cells col). fits (col_type col) c)"
      using typed [of "role t"] f [OF t(1)] fit [of "role t"] by (auto simp: typed_column_def)
  qed
  moreover have "eq_row ?t (column_name (role t), f t) i \<longleftrightarrow> ref_holds (qs ! i) t"
    if "t \<in> set (bound_roles p)" "i < length qs" for t i
    using typed [of "role t"] f [OF that(1)] that(2) by (auto simp: typed_column_def eq_row_def)
  then have "\<forall>i < length qs. holds ?t ?eqs i \<longleftrightarrow> quad_matches p (qs ! i)"
    by (simp add: holds_def quad_matches_refs list_all_iff)
  ultimately show ?thesis using that [of f] f by blast
qed

lemma constraints_exact:
  assumes base: "base_of fl ox d layout qs memory" and codes: "codes_exact ox codes (layout_input ox d layout qs) qs p"
  shows "\<exists>eqs. constraints ox codes p = Inr (EqAll eqs) \<and> wf_eqs (mem_table memory) eqs \<and>
    (\<forall>i < length qs. holds (mem_table memory) eqs i \<longleftrightarrow> quad_matches p (qs ! i))"
proof -
  obtain f where f: "\<forall>t \<in> set (bound_roles p). probe_scalar ox codes t = Inr (Some (f t))"
      "wf_eqs (mem_table memory) (map (\<lambda>t. (column_name (role t), f t)) (bound_roles p))"
      "\<forall>i < length qs. holds (mem_table memory) (map (\<lambda>t. (column_name (role t), f t)) (bound_roles p)) i \<longleftrightarrow>
        quad_matches p (qs ! i)"
    by (rule codes_eqs [OF base codes]) blast
  then show ?thesis
    using constraints_of_codes [of codes "bound_roles p" ox f "[]"] codes
    by (simp add: constraints_def codes_exact_def)
qed

lemma residual_narrow_rows:
  assumes fl: "lawful_compute fl" and base: "base_of fl ox d layout qs memory"
    and codes: "codes_exact ox codes (layout_input ox d layout qs) qs p" and sel: "wf_selection (length qs) sel"
  shows "\<exists>vs. residual_narrow fl ox (memory_base.truncate memory) sel p codes need = Some (Some vs) \<and>
    (\<forall>deleted. selects fl (length qs) deleted vs (filter (\<lambda>i. quad_matches p (qs ! i)) (covered sel (length qs)))) \<and>
    (named_pattern vs = None \<and> held_index_order vs = None) \<and> (need = NeedRows \<longrightarrow> is_exact vs)"
proof -
  let ?m = "memory_base.truncate memory" and ?t = "mem_table memory" and ?n = "length qs"
  let ?rows = "filter (\<lambda>i. quad_matches p (qs ! i)) (covered sel ?n)"
  have mem: "wf_memory fl ?m" "mem_table ?m = ?t" "tb_len ?t = ?n"
    using base by (simp_all add: base_of_def Let_def memory_base.defs)
  have table: "wf_table fl ?t" using mem by (simp add: wf_memory_def)
  obtain eqs where eqs: "constraints ox codes p = Inr (EqAll eqs)" "wf_eqs ?t eqs"
      "\<forall>i < ?n. holds ?t eqs i \<longleftrightarrow> quad_matches p (qs ! i)"
    using constraints_exact [OF base codes] by blast
  have rows: "?rows = filter (holds ?t eqs) (covered sel ?n)"
    using eqs(3) covered_bound [OF sel] by (intro filter_cong) auto
  define asked where "asked = (if asks_statistics (sel_len sel ?n) then ask_statistics ?m sel eqs
    else Open eqs (unasked_classes ?m eqs))"
  have right: "case asked of
      Nothing \<Rightarrow> \<forall>row < ?n. \<not> holds ?t eqs row
    | Everything \<Rightarrow> \<forall>row < ?n. holds ?t eqs row
    | Open eqs' classes \<Rightarrow> wf_eqs ?t eqs' \<and> sound_classes ?t eqs' classes \<and>
        (\<forall>row < ?n. holds ?t eqs row = holds ?t eqs' row)"
    using asked_right [OF mem(1), unfolded mem(2,3), of eqs sel]
      unasked_classes_sound [OF mem(1), unfolded mem(2), of eqs] eqs(2)
    by (simp add: asked_def)
  have narrow: "residual_narrow fl ox ?m sel p codes need =
     (case asked of
        Nothing \<Rightarrow> Some (Some (ExactRows empty_selection))
      | Everything \<Rightarrow> Some (Some (ExactRows sel))
      | Open eqs classes \<Rightarrow>
          if defers_residual need (sel_len sel ?n) then Some (Some (PendingCompare (pending_new ?m sel eqs classes)))
          else map_option (\<lambda>narrowed. Some (ExactRows narrowed))
                 (residual_rows fl \<lparr> rc_table = ?t, rc_selection = sel, rc_eqs = eqs,
                    rc_classes = classes, rc_deleted = None \<rparr>))"
    unfolding residual_narrow_def eqs(1) sum.case column_constraints.case Let_def mem(2,3) asked_def by (rule refl)
  show ?thesis
  proof (cases asked)
    case Nothing
    then have "?rows = []" using right covered_bound [OF sel] by (auto simp: rows filter_empty_conv)
    then show ?thesis using Nothing unfolding narrow
      by (auto simp: empty_selection_def covered_def clamped_def)
  next
    case Everything
    then have "?rows = covered sel ?n" using right covered_bound [OF sel] by (auto simp: rows filter_id_conv)
    then show ?thesis using Everything sel unfolding narrow by auto
  next
    case (Open eqs' classes)
    let ?r = "\<lparr> rc_table = ?t, rc_selection = sel, rc_eqs = eqs', rc_classes = classes, rc_deleted = None \<rparr>"
    have left: "wf_eqs ?t eqs'" "sound_classes ?t eqs' classes" "\<forall>row < ?n. holds ?t eqs row = holds ?t eqs' row"
      using right Open by simp_all
    have wf: "wf_residual fl ?r"
      using fl table sel left(1,2) mem(3) by (simp add: wf_residual_def rc_len_def)
    have same: "filter (holds ?t eqs') (covered sel ?n) = ?rows"
      using left(3) covered_bound [OF sel] unfolding rows by (intro filter_cong) auto
    show ?thesis
    proof (cases "defers_residual need (sel_len sel ?n)")
      case True
      have "wf_pending fl (pending_new ?m sel eqs' classes)"
        using wf mem(2) by (simp add: wf_pending_def pending_new_def pending_compare_def)
      then have "\<forall>deleted. selects fl ?n deleted (PendingCompare (pending_new ?m sel eqs' classes)) ?rows"
        using same mem(2,3) by (simp add: pending_new_def pending_len_def pending_matches_def)
      then show ?thesis using Open True unfolding narrow by (auto simp: defers_residual_def)
    next
      case False
      obtain narrowed where "residual_rows fl ?r = Some narrowed" "wf_selection ?n narrowed"
          "covered narrowed ?n = ?rows"
        using residual_rows_narrows [OF wf] same mem(3)
        by (auto simp: narrows_def rc_len_def passes_def [abs_def])
      then show ?thesis using Open False unfolding narrow by simp
    qed
  qed
qed

section \<open>The prefix, searched\<close>

lemma takeWhile_shorter:
  assumes "\<And>x. P x \<Longrightarrow> Q x"
  shows "length (takeWhile P xs) \<le> length (takeWhile Q xs)"
  using assms by (induction xs) auto

lemma run_of_ordered: "run_of cells a b s = (lo, hi) \<Longrightarrow> lo \<le> hi"
  by (auto simp: run_of_def intro!: takeWhile_shorter)

text \<open>The column of a role, in a run of the sorted base under one key of the roles before it.\<close>

lemma base_run:
  assumes base: "base_of fl ox d layout qs memory" and stamp: "rb_sorted memory"
    and codes: "codes_exact ox codes (layout_input ox d layout qs) qs p" and t: "t \<in> set (bound_roles p)"
    and k: "k < length all_columns" "role t = all_columns ! k" and run: "b \<le> length qs"
      "\<forall>i. a \<le> i \<and> i < b \<longrightarrow> take k (key_at (input_cells (layout_input ox d layout qs)) quad_keys i) = ss"
  shows "\<exists>col s. map_of (tb_columns (mem_table memory)) (column_name (role t)) = Some col \<and>
    probe_scalar ox codes t = Inr (Some s) \<and> fits (col_type col) s \<and>
    list_all (fits (col_type col)) (col_cells col) \<and> length (col_cells col) = length qs \<and>
    sorted (take (b - a) (drop a (col_cells col))) \<and>
    (\<forall>i < length qs. col_cells col ! i = s \<longleftrightarrow> ref_holds (qs ! i) t) \<and>
    (\<forall>i. a \<le> i \<and> i < b \<and> col_cells col ! i = s \<longrightarrow>
       take (Suc k) (key_at (input_cells (layout_input ox d layout qs)) quad_keys i) = ss @ [s])"
proof -
  let ?input = "layout_input ox d layout qs" and ?n = "length qs"
  let ?cells = "input_cells ?input"
  have wf: "wf_input ?input" by (rule base_input [OF base])
  obtain col where col: "map_of (tb_columns (mem_table memory)) (column_name (role t)) = Some col"
      "col_type col = input_type ?input" "col_cells col = ?cells (role t)"
    using base by (auto simp: base_of_def Let_def typed_column_def)
  obtain s where s: "probe_scalar ox codes t = Inr (Some s)" "fits (input_type ?input) s"
      "\<forall>i < ?n. ?cells (role t) ! i = s \<longleftrightarrow> ref_holds (qs ! i) t"
    using codes t unfolding codes_exact_def by blast
  have len: "length (col_cells col) = ?n" using input_facts(1) [OF wf] by (simp add: col(3))
  have key: "k < length quad_keys" "snd (quad_keys ! k) = role t"
    using k by (simp_all add: quad_keys_def)
  have "sorted (map (key_at ?cells quad_keys) [0..<?n])"
    using base stamp by (simp add: base_of_def Let_def)
  then have "sorted (take (b - a) (drop a (map ((!) (?cells (role t))) [0..<?n])))"
    using prefix_run_sorted [of ?cells quad_keys "[0..<?n]" k b a ss] key run by simp
  moreover have "map ((!) (?cells (role t))) [0..<?n] = col_cells col"
    using len by (simp add: col(3)) (metis map_nth)
  ultimately have sorted: "sorted (take (b - a) (drop a (col_cells col)))" by simp
  have "take (Suc k) (key_at ?cells quad_keys i) = ss @ [s]"
    if i: "a \<le> i \<and> i < b \<and> col_cells col ! i = s" for i
  proof -
    have "take (Suc k) (key_at ?cells quad_keys i) = take k (key_at ?cells quad_keys i) @ [?cells (role t) ! i]"
      using key by (simp add: take_Suc_conv_app_nth)
    then show ?thesis using run(2) i col(3) by simp
  qed
  then show ?thesis
    using col s len sorted input_facts(1) [OF wf] by (intro exI [of _ col] exI [of _ s]) simp
qed

lemma prefix_loop_rows:
  assumes fl: "lawful fl" and base: "base_of fl ox d layout qs memory" and stamp: "rb_sorted memory"
    and codes: "codes_exact ox codes (layout_input ox d layout qs) qs p"
  shows "set terms \<subseteq> set (bound_roles p) \<Longrightarrow> map role terms = take (length terms) (drop k all_columns) \<Longrightarrow>
    a \<le> b \<Longrightarrow> b \<le> length qs \<Longrightarrow>
    \<forall>i. a \<le> i \<and> i < b \<longrightarrow> take k (key_at (input_cells (layout_input ox d layout qs)) quad_keys i) = ss \<Longrightarrow>
    \<exists>lo hi found. prefix_loop fl (mem_table memory) codes terms (a, b) answered = Some ((lo, hi), answered + found) \<and>
      found \<le> length terms \<and> a \<le> lo \<and> lo \<le> hi \<and> hi \<le> b \<and>
      (\<forall>i. lo \<le> i \<and> i < hi \<longleftrightarrow> a \<le> i \<and> i < b \<and> (\<forall>t \<in> set (take found terms). ref_holds (qs ! i) t)) \<and>
      (found = 0 \<longrightarrow> lo = a \<and> hi = b)"
proof (induction terms arbitrary: a b k ss answered)
  case (Cons t terms)
  let ?t = "mem_table memory" and ?n = "length qs"
  let ?K = "key_at (input_cells (layout_input ox d layout qs)) quad_keys"
  have stopped: ?case if "prefix_loop fl ?t codes (t # terms) (a, b) answered = Some ((a, b), answered)"
    using that Cons.prems(3) by (intro exI [of _ a] exI [of _ b] exI [of _ 0]) simp
  obtain columns where columns: "drop k all_columns = role t # columns" "map role terms = take (length terms) columns"
    using Cons.prems(2) by (cases "drop k all_columns") auto
  have k: "k < length all_columns" "role t = all_columns ! k"
    using nth_via_drop [OF columns(1)] columns(1) by (metis drop_all list.distinct(1) not_le, simp)
  have rest: "map role terms = take (length terms) (drop (Suc k) all_columns)"
    using columns Cons_nth_drop_Suc [OF k(1)] by simp
  obtain col s where at: "map_of (tb_columns ?t) (column_name (role t)) = Some col"
      "probe_scalar ox codes t = Inr (Some s)" "length (col_cells col) = ?n"
      "sorted (take (b - a) (drop a (col_cells col)))"
      "\<forall>i < ?n. col_cells col ! i = s \<longleftrightarrow> ref_holds (qs ! i) t"
      "\<forall>i. a \<le> i \<and> i < b \<and> col_cells col ! i = s \<longrightarrow> take (Suc k) (?K i) = ss @ [s]"
    using base_run [OF base stamp codes _ k Cons.prems(4,5)] Cons.prems(1) by auto
  show ?case
  proof (cases "by_name ?t (column_name (role t))")
    case None
    then show ?thesis by (intro stopped) simp
  next
    case (Some pr)
    consider "probe_code codes t = Inr None" | code where "probe_code codes t = Inr (Some code)" "s = CodeScalar code"
      using probe_code_scalar [OF at(2)] by blast
    then show ?thesis
    proof cases
      case 1
      then show ?thesis using Some by (intro stopped) (simp add: ok_def)
    next
      case (2 x)
      have "wf_table fl ?t" using base by (simp add: base_of_def Let_def wf_memory_def memory_base.defs)
      then have "probe_for fl pr col" using Some at(1) by (fastforce simp: wf_table_def)
      then have cells: "wf_node fl pr" "col_cells col = map CodeScalar (decode fl pr)" by (simp_all add: probe_for_def)
      have slice: "take (b - a) (drop a (col_cells col)) = map CodeScalar (take (b - a) (drop a (decode fl pr)))"
        by (simp add: cells(2) take_map drop_map)
      have "sorted (take (b - a) (drop a (decode fl pr)))" using at(4) unfolding slice by (simp only: sorted_codes)
      then have inside: "bounds_in fl pr a b x = Some (run_of (col_cells col) a b s)"
        using bounds_in_slice [OF fl cells(1)] Cons.prems(4) at(3)
        unfolding run_of_def slice 2(2) code_takeWhile by (simp add: cells(2) Let_def)
      obtain lo hi where run: "run_of (col_cells col) a b s = (lo, hi)" by fastforce
      have bounded: "a \<le> lo" "hi \<le> b"
        using run_of_rows(1,2) [OF at(4) _ run] Cons.prems(3,4) at(3) by simp_all
      have held: "col_cells col ! i = s \<longleftrightarrow> ref_holds (qs ! i) t" if "i < b" for i
        using at(5) that Cons.prems(4) by simp
      have "\<forall>i. lo \<le> i \<and> i < hi \<longleftrightarrow> a \<le> i \<and> i < b \<and> col_cells col ! i = s"
        using run_of_rows(3) [OF at(4) _ run] Cons.prems(4) at(3) by simp
      then have rows: "a \<le> lo" "lo \<le> hi" "hi \<le> b"
          "\<forall>i. lo \<le> i \<and> i < hi \<longleftrightarrow> a \<le> i \<and> i < b \<and> ref_holds (qs ! i) t"
        using bounded run_of_ordered [OF run] held by blast+
      have step: "prefix_loop fl ?t codes (t # terms) (a, b) answered =
          (if \<not> lo < hi then Some ((lo, hi), answered + 1) else prefix_loop fl ?t codes terms (lo, hi) (answered + 1))"
        using Some 2(1) inside run by (simp add: ok_def)
      show ?thesis
      proof (cases "lo < hi")
        case False
        then show ?thesis using step rows by (intro exI [of _ lo] exI [of _ hi] exI [of _ 1]) simp
      next
        case True
        have "\<forall>i. lo \<le> i \<and> i < hi \<longrightarrow> take (Suc k) (?K i) = ss @ [s]"
          using rows(4) at(6) held by blast
        then obtain lo' hi' found where loop: "prefix_loop fl ?t codes terms (lo, hi) (answered + 1) =
              Some ((lo', hi'), answered + 1 + found)" "found \<le> length terms" "lo \<le> lo'" "lo' \<le> hi'" "hi' \<le> hi"
            "\<forall>i. lo' \<le> i \<and> i < hi' \<longleftrightarrow> lo \<le> i \<and> i < hi \<and> (\<forall>t \<in> set (take found terms). ref_holds (qs ! i) t)"
          using Cons.IH [of "Suc k" lo hi "ss @ [s]" "answered + 1"] Cons.prems(1,4) rest rows(2,3) by auto
        moreover have "lo' \<le> i \<and> i < hi' \<longleftrightarrow>
            a \<le> i \<and> i < b \<and> (\<forall>u \<in> set (take (Suc found) (t # terms)). ref_holds (qs ! i) u)" for i
          using spec [OF rows(4), of i] spec [OF loop(6), of i] unfolding take_Suc_Cons list.set ball_simps by blast
        ultimately show ?thesis
          using step True rows(1-3)
          by (intro exI [of _ lo'] exI [of _ hi'] exI [of _ "Suc found"]) simp
      qed
    qed
  qed
qed (intro exI, auto)


lemma prefix_terms:
  "map role (prefix_behind_subject p) = take (length (prefix_behind_subject p)) (drop 1 all_columns)"
  "set (prefix_behind_subject p) \<subseteq> set (bound_roles p)"
  "found \<le> length (prefix_behind_subject p) \<Longrightarrow>
     quad_matches p q \<longleftrightarrow> (\<forall>t \<in> set (take found (prefix_behind_subject p)). ref_holds q t) \<and>
       quad_matches (clear_prefix_behind_subject p found) q"
  "set (bound_roles (clear_prefix_behind_subject p found)) \<subseteq> set (bound_roles p)"
  by (cases "pat_subject p"; cases "pat_predicate p"; cases "pat_object p"; cases "pat_graph p";
      auto simp: prefix_behind_subject_def bound_roles_def clear_prefix_behind_subject_def quad_matches_def
        all_columns_def le_Suc_eq numeral_2_eq_2 Let_def)+

lemma prefix_behind_rows:
  assumes fl: "lawful fl" and base: "base_of fl ox d layout qs memory" and stamp: "rb_sorted memory"
    and codes: "codes_exact ox codes (layout_input ox d layout qs) qs p" and sel: "wf_selection (length qs) sel"
    and run: "\<forall>i \<in> set (covered sel (length qs)).
      take 1 (key_at (input_cells (layout_input ox d layout qs)) quad_keys i) = ss"
  shows "\<exists>sel' p'. prefix_behind fl (mem_table memory) codes p sel = Some (sel', p') \<and> wf_selection (length qs) sel' \<and>
    filter (\<lambda>i. quad_matches p' (qs ! i)) (covered sel' (length qs)) =
      filter (\<lambda>i. quad_matches p (qs ! i)) (covered sel (length qs)) \<and>
    set (bound_roles p') \<subseteq> set (bound_roles p)"
proof (cases "\<exists>a b. sel = RowRange a b")
  case True
  then obtain a b where ab: "sel = RowRange a b" "a \<le> b" "b \<le> length qs" using sel by auto
  let ?terms = "prefix_behind_subject p"
  have one: "\<forall>i. a \<le> i \<and> i < b \<longrightarrow> take 1 (key_at (input_cells (layout_input ox d layout qs)) quad_keys i) = ss"
    using run ab by simp
  obtain lo hi found where loop: "prefix_loop fl (mem_table memory) codes ?terms (a, b) 0 = Some ((lo, hi), 0 + found)"
      "found \<le> length ?terms" "a \<le> lo" "lo \<le> hi" "hi \<le> b"
      "\<forall>i. lo \<le> i \<and> i < hi \<longleftrightarrow> a \<le> i \<and> i < b \<and> (\<forall>t \<in> set (take found ?terms). ref_holds (qs ! i) t)"
      "found = 0 \<longrightarrow> lo = a \<and> hi = b"
    using prefix_loop_rows [OF fl base stamp codes prefix_terms(2,1) ab(2,3) one, of 0] by blast
  have "(lo \<le> i \<and> i < hi) \<and> quad_matches (clear_prefix_behind_subject p found) (qs ! i) \<longleftrightarrow>
      (a \<le> i \<and> i < b) \<and> quad_matches p (qs ! i)" for i
    using spec [OF loop(6), of i] prefix_terms(3) [OF loop(2), of "qs ! i"] by blast
  then have "filter (\<lambda>i. quad_matches (clear_prefix_behind_subject p found) (qs ! i)) [lo..<hi] =
      filter (\<lambda>i. quad_matches p (qs ! i)) [a..<b]"
    by (intro ascending_unique ascending_filter set_eqI) (simp_all add: conj_commute)
  moreover have "clear_prefix_behind_subject p 0 = p" by (simp add: clear_prefix_behind_subject_def)
  ultimately show ?thesis
    using loop ab prefix_terms(4) [of p found]
    by (cases "found = 0") (auto simp: prefix_behind_def)
qed (use sel in \<open>cases sel; simp add: prefix_behind_def\<close>)


lemma prefix_probe_rows:
  assumes fl: "lawful_compute fl" and sx: "lawful_search fl sx" and base: "base_of fl ox d layout qs memory"
    and codes: "codes_exact ox codes (layout_input ox d layout qs) qs p" and sel: "wf_selection (length qs) sel"
  shows "\<exists>sel' p' narrowed. prefix_probe fl sx ox (mem_table memory) (rb_sorted memory) codes p sel =
      Some (sel', p', narrowed) \<and> wf_selection (length qs) sel' \<and>
    filter (\<lambda>i. quad_matches p' (qs ! i)) (covered sel' (length qs)) =
      filter (\<lambda>i. quad_matches p (qs ! i)) (covered sel (length qs)) \<and>
    set (bound_roles p') \<subseteq> set (bound_roles p) \<and> (\<not> narrowed \<longrightarrow> sel' = sel \<and> p' = p)"
proof (cases "rb_sorted memory \<and> pat_subject p \<noteq> None")
  case False
  then show ?thesis using sel by (auto simp: prefix_probe_def split: option.split)
next
  case True
  let ?n = "length qs" and ?t = "mem_table memory"
  let ?K = "key_at (input_cells (layout_input ox d layout qs)) quad_keys"
  obtain u where u: "pat_subject p = Some u" using True by blast
  let ?r = "RefSubject u"
  have bound: "?r \<in> set (bound_roles p)" by (simp add: bound_roles_def u)
  have kernels: "lawful fl" using fl by (simp add: lawful_compute_def)
  obtain col s where at: "map_of (tb_columns ?t) ''s'' = Some col" "probe_scalar ox codes ?r = Inr (Some s)"
      "fits (col_type col) s" "list_all (fits (col_type col)) (col_cells col)" "length (col_cells col) = ?n"
      "sorted (col_cells col)" "\<forall>i < ?n. col_cells col ! i = s \<longleftrightarrow> ref_holds (qs ! i) ?r"
      "\<forall>i. i < ?n \<and> col_cells col ! i = s \<longrightarrow> take 1 (?K i) = [s]"
    using base_run [OF base conjunct1 [OF True] codes bound, of 0 ?n 0 "[]"]
    by (auto simp: all_columns_def)
  obtain lo hi where run: "run_of (col_cells col) 0 ?n s = (lo, hi)" by fastforce
  have table: "wf_table fl ?t" using base by (simp add: base_of_def Let_def wf_memory_def memory_base.defs)
  have searched: "(case (by_name ?t ''s'', unsigned_value s) of
      (Some pr, Some needle) \<Rightarrow> Probe.bounds fl pr needle
    | _ \<Rightarrow> search_sorted_bounds fl sx col s) = Some (lo, hi)"
  proof (cases "\<exists>pr needle. by_name ?t ''s'' = Some pr \<and> unsigned_value s = Some needle")
    case found: True
    then obtain pr x where pr: "by_name ?t ''s'' = Some pr" "s = CodeScalar x" by (auto simp: unsigned_value_Some)
    have "probe_for fl pr col" using table pr(1) at(1) by (fastforce simp: wf_table_def)
    then show ?thesis using encoded_bounds [OF kernels _ at(6)] run at(5) pr by simp
  next
    case False
    then show ?thesis
      using search_sorted_bounds_run [OF kernels sx at(4,6,3)] run at(5) by (auto split: option.split)
  qed
  have rows: "lo \<le> hi" "hi \<le> ?n" "\<forall>i. lo \<le> i \<and> i < hi \<longleftrightarrow> i < ?n \<and> col_cells col ! i = s"
    using run_of_rows [of ?n 0 "col_cells col" s lo hi] run_of_ordered [OF run] run at(5,6) by simp_all
  obtain sel' where sel': "intersect_range sel lo hi = Some sel'" "wf_selection ?n sel'"
      "covered sel' ?n = filter (\<lambda>i. lo \<le> i \<and> i < hi) (covered sel ?n)"
    using intersect_range_narrows [OF sel rows(1,2)] by blast
  let ?p = "p\<lparr> pat_subject := None \<rparr>"
  have part: "set (bound_roles ?p) \<subseteq> set (bound_roles p)"
    by (auto simp: bound_roles_def u)
  have "\<forall>i \<in> set (covered sel' ?n). take 1 (?K i) = [s]"
    using rows(3) at(8) by (simp add: sel'(3))
  then obtain sel'' p'' where out: "prefix_behind fl ?t codes ?p sel' = Some (sel'', p'')" "wf_selection ?n sel''"
      "filter (\<lambda>i. quad_matches p'' (qs ! i)) (covered sel'' ?n) = filter (\<lambda>i. quad_matches ?p (qs ! i)) (covered sel' ?n)"
      "set (bound_roles p'') \<subseteq> set (bound_roles ?p)"
    using prefix_behind_rows [OF kernels base conjunct1 [OF True] codes_exact_part [OF codes part] sel'(2)] by blast
  have "quad_matches p (qs ! i) \<longleftrightarrow> (lo \<le> i \<and> i < hi) \<and> quad_matches ?p (qs ! i)" if "i < ?n" for i
    using rows(3) at(7) that by (simp add: quad_matches_def u)
  then have "filter (\<lambda>i. quad_matches p (qs ! i)) (covered sel ?n) =
      filter (\<lambda>i. quad_matches ?p (qs ! i)) (covered sel' ?n)"
    unfolding sel'(3) filter_filter using covered_bound [OF sel] by (intro filter_cong) auto
  moreover have "prefix_probe fl sx ox ?t (rb_sorted memory) codes p sel = Some (sel'', p'', True)"
    unfolding prefix_probe_def using True u at(1,2,3) searched sel'(1) out(1) by (simp add: scalar_cast_def)
  ultimately show ?thesis using out part by auto
qed

section \<open>What a resolution serves\<close>

lemma copy_keys_cells:
  assumes "index_choose index p layout = Some chosen" "ip_serve chosen \<noteq> None"
  shows "index = SecondaryByCopy"
    "{(column_name ColS, ColS), (column_name ColP, ColP), (column_name ColO, ColO)} \<subseteq>
       set (child_keys (ci_name (ip_identity chosen)))"
proof -
  show copy: "index = SecondaryByCopy"
    using assms by (cases index) (auto simp: index_choose_def ref_choose_def ref_probe_def split: option.splits if_splits)
  show "{(column_name ColS, ColS), (column_name ColP, ColP), (column_name ColO, ColO)} \<subseteq>
       set (child_keys (ci_name (ip_identity chosen)))"
    using assms copy
    by (cases "pat_predicate p"; cases "pat_object p";
        auto simp: index_choose_def copy_choose_def child_keys_def split: if_splits)
qed

lemma choose_decode:
  assumes "index_choose index p layout = Some chosen" "ip_serve chosen = Some decoder"
  shows "sd_layout decoder = copy_decode_layout layout"
  using assms
  by (cases index) (auto simp: index_choose_def copy_choose_def ref_choose_def ref_probe_def Let_def
      split: option.splits if_splits)

lemma resolved_serves:
  assumes wf: "wf_input input"
    and parts: "\<forall>part \<in> set components. \<exists>perm. component_of fl input part perm"
    and chosen: "index_choose index p layout = Some chosen"
    and out: "resolve_in_memory fl sx ox chosen components codes windowed = Some (Resolved row_ids roles (Some plan))"
  shows "\<exists>ids. lazy_of fl ids row_ids \<and> (\<exists>run. row_ids = ComponentIds run) \<and> \<not> sp_narrowed plan \<and>
    (\<forall>deleted. serves fl layout input deleted (sort ids) plan)"
proof -
  obtain part a b rid rids decoder where run: "find_component components (ci_name (ip_identity chosen)) = Some part"
      "map_of (tb_columns (ic_rows part)) ''rid'' = Some rid" "buf_slice (col_cells rid) a b = Some rids"
      "row_ids = ComponentIds (component_run_new rids (ip_rids_ascend chosen))" "ip_serve chosen = Some decoder"
      "plan = serve_plan_new decoder (ci_name (ic_identity part)) (ic_rows part) (a, b)
         (component_run_new rids (ip_rids_ascend chosen))"
    using out
    by (auto simp: resolve_in_memory_def Let_def split: option.splits Option.bind_splits keys_probed.splits
        graph_checked.splits)
  have copy: "index = SecondaryByCopy" using copy_keys_cells [OF chosen] run(5) by simp
  have rest: "\<not> ip_rids_ascend chosen" using choose_facts(8) [OF chosen] copy by simp
  have name: "part \<in> set components" "ci_name (ic_identity part) = ci_name (ip_identity chosen)"
    using run(1) by (auto simp: find_component_def find_Some_iff)
  obtain perm where part: "component_of fl input part perm" using parts name(1) by blast
  have identity: "ic_identity part = ip_identity chosen"
    using part name(2) choose_facts(7) [OF chosen] copy
    by (auto simp: component_of_def ALL_INDEX_TYPES_def)
  have "ci_index (ip_identity chosen) = SecondaryByCopy"
    using choose_facts(7) [OF chosen] copy by auto
  then have child: "child_of (input_type input) (input_cells input) (input_rows input) (child_keys (ci_name (ip_identity chosen)))
      False True perm (ic_rows part)"
    using part by (simp add: component_of_def component_ok_def identity)
  have perm: "mset perm = mset [0..<input_rows input]" using child by (simp only: child_of_def)
  have len: "length perm = input_rows input" using perm_facts(2) [OF perm] .
  have cells: "typed_column (ic_rows part) (column_name c) (input_type input) (map ((!) (input_cells input c)) perm)" for c
    using child copy_keys_cells(2) [OF chosen] run(5) by (cases c) (auto simp: child_of_def)
  have rid_cells: "col_cells rid = map CodeScalar perm" using child run(2) by (auto simp: child_of_def typed_column_def)
  moreover from this run(3) have ab: "a \<le> b" "b \<le> length perm"
    by (auto simp: buf_slice_def split: if_splits)
  ultimately have rids: "rids = map CodeScalar (take (b - a) (drop a perm))"
    using run(3) by (simp add: buf_slice_Some take_map drop_map)
  let ?ids = "take (b - a) (drop a perm)"
  note ids = run_ids [OF perm input_facts(2) [OF wf] ab(1) ab(2) [unfolded len]]
  have held: "lazy_of fl ?ids row_ids" using ids(1) rest by (simp add: run(4) rids component_run_new_def)
  have plan: "sp_run plan = (a, b)" "sp_span plan = SpanRange a b" "sp_array plan = ic_rows part"
      "sp_ids plan = component_run_new rids False" "\<not> sp_narrowed plan"
    using run(6) rest by (simp_all add: serve_plan_new_def)
  have all: "plan_ids plan = ?ids" by (simp add: plan_ids_def plan(4) component_run_new_def rids comp_def)
  have "plan_of ?ids plan"
    using ab ids(3) by (simp add: plan_of_def plan component_run_new_def rids)
  moreover have "wf_table fl (sp_array plan)" using part by (simp add: plan(3) component_of_def)
  moreover have "sd_layout (sp_decode plan) = copy_decode_layout layout"
    using choose_decode [OF chosen] run(5,6) by (simp add: serve_plan_new_def)
  moreover have "plan_reads input plan" unfolding plan_reads_def
  proof (intro conjI allI)
    have "i < length (col_cells rid) \<and> col_cells rid ! i = CodeScalar r" if "(i, r) \<in> set (run_rows plan)" for i r
      using that ab ids(3) rid_cells by (auto simp: run_rows_def all plan(1) in_set_enumerate_eq)
    moreover have "col_type rid = UInt 8" using child run(2) by (auto simp: child_of_def typed_column_def)
    ultimately show "\<exists>col. map_of (tb_columns (sp_array plan)) ''rid'' = Some col \<and> col_type col = UInt 8 \<and>
        (\<forall>(i, rid) \<in> set (run_rows plan). i < length (col_cells col) \<and> col_cells col ! i = CodeScalar rid)"
      using run(2) unfolding plan(3) by blast
  next
    fix c
    obtain col where col: "map_of (tb_columns (ic_rows part)) (column_name c) = Some col" "col_type col = input_type input"
        "col_cells col = map ((!) (input_cells input c)) perm"
      using cells [of c] by (auto simp: typed_column_def)
    have "fits (input_type input) s" if s: "s \<in> set (col_cells col)" for s
    proof -
      obtain i where "i \<in> set perm" "s = input_cells input c ! i" using s by (auto simp: col(3))
      moreover from this have "i < length (input_cells input c)"
        using perm_facts(1) [OF perm] input_facts(1) [OF wf] by auto
      ultimately show ?thesis using input_facts(1) [OF wf] by (auto simp: list_all_length)
    qed
    moreover have "i < length (col_cells col) \<and> col_cells col ! i = input_cells input c ! r"
      if "(i, r) \<in> set (run_rows plan)" for i r
      using that ab ids(3) by (auto simp: run_rows_def all plan(1) in_set_enumerate_eq col(3))
    ultimately show "\<exists>col. map_of (tb_columns (sp_array plan)) (column_name c) = Some col \<and>
        col_type col = input_type input \<and> (\<forall>s \<in> set (col_cells col). fits (input_type input) s) \<and>
        snd (sp_run plan) \<le> length (col_cells col) \<and>
        (\<forall>(i, rid) \<in> set (run_rows plan). i < length (col_cells col) \<and> col_cells col ! i = input_cells input c ! rid)"
      using col ab(2) unfolding plan(1,3) by (simp; blast)
  qed
  moreover have "set (map snd (served ?ids plan deleted)) = set (live_of deleted (sort ?ids))" for deleted
  proof -
    define f where "f i = ?ids ! (i - a)" for i
    have rows: "plan_rows ?ids plan = map (\<lambda>i. (i, f i)) [a..<b]" by (simp add: plan_rows_def plan f_def)
    have "?ids = map f [a..<b]"
      using ids(3) by (intro nth_equalityI) (auto simp: f_def)
    then have set: "set (sort ?ids) = f ` {a..<b}" by (metis atLeastLessThan_upt list.set_map set_sort)
    show ?thesis
    proof (cases deleted)
      case None
      then show ?thesis using set by (force simp: served_def plan rows live_of_def)
    next
      case (Some m)
      then have "set (map snd (served ?ids plan deleted)) = {r \<in> f ` {a..<b}. \<not> m ! r}"
        by (force simp: served_def plan rows)
      then show ?thesis using set Some by (simp add: live_of_def)
    qed
  qed
  ultimately have "serves fl layout input deleted (sort ?ids) plan" for deleted
    using ids(1,4) by (simp add: serves_def all plan(2))
  then show ?thesis using held run(4) plan(5) by blast
qed

lemma resolved_indexes_serve:
  assumes wf: "wf_input input"
    and parts: "\<forall>part \<in> set components. \<exists>perm. component_of fl input part perm"
    and out: "resolve_indexes_in_memory fl sx ox indexes components layout p codes windowed =
      Some (Resolved row_ids roles (Some plan))"
  shows "\<exists>ids. lazy_of fl ids row_ids \<and> (\<exists>run. row_ids = ComponentIds run) \<and> \<not> sp_narrowed plan \<and>
    (\<forall>deleted. serves fl layout input deleted (sort ids) plan)"
  using out
proof (induction indexes)
  case (Cons index indexes)
  then show ?case
    using resolved_serves [OF wf parts, of index p layout _ sx ox codes windowed row_ids roles plan]
    by (auto split: option.splits Option.bind_splits index_resolution.splits)
qed simp

lemma lazy_ids_same:
  assumes "lazy_of fl ids (ComponentIds run)" "lazy_of fl ids' (ComponentIds run)"
  shows "ids = ids'"
  using assms by (auto simp: inj_map_eq_map inj_def)

end
