(* ===== verification/MatchViews.thy ===== *)
theory MatchViews
  imports MatchRows
begin

text \<open>
  Matches of a view, put together: a match on a base in memory, a match chained on a served view, the
  merge of chained matches, and the match of a store with its tail.
\<close>

section \<open>Matches in memory\<close>

text \<open>What a match of the base leaves: a view of some rows of the same base, under the same
  tombstones, beside some tail where there was one; built for its rows, it has them or a plan.\<close>

definition matched_base ::
    "'k compute_scheme \<Rightarrow> 'l oxrdf \<Rightarrow> term_dictionary \<Rightarrow> 'l rdf_quad list \<Rightarrow> 'l store \<Rightarrow> ids_need \<Rightarrow>
     nat list \<Rightarrow> 'l store \<Rightarrow> bool" where
  "matched_base fl ox d qs self need rows matched \<longleftrightarrow>
     source_of fl ox d (st_layout self) qs (st_quads matched) rows \<and>
     qs_deleted (st_quads matched) = qs_deleted (st_quads self) \<and> st_layout matched = st_layout self \<and>
     (st_tail matched = None \<longleftrightarrow> st_tail self = None) \<and>
     (need = NeedRows \<longrightarrow> \<not> is_pending_without_plan (st_quads matched))"

lemma in_memory_source:
  assumes "source_of fl ox d layout qs source rows" "selects fl (length qs) (qs_deleted source) vs rows'"
    and "named_pattern vs = None \<and> held_index_order vs = None"
    and "\<And>pl. plan = Some pl \<Longrightarrow> serves fl layout (layout_input ox d layout qs) (qs_deleted source) rows' pl"
  shows "source_of fl ox d layout qs (in_memory_with source (qs_memory source) vs plan) rows'"
  using assms by (simp add: source_of_def in_memory_with_def base_of_def Let_def memory_base.defs)

lemma emptied_source:
  assumes "source_of fl ox d layout qs source rows"
  shows "source_of fl ox d layout qs (emptied source) []"
  using assms
  by (simp add: source_of_def emptied_def with_selection_def in_memory_with_def base_of_def Let_def memory_base.defs)

lemma empty_view_matched:
  assumes "source_of fl ox d (st_layout self) qs (st_quads self) rows"
  shows "matched_base fl ox d qs self need [] (empty_view self)"
  using emptied_source [OF assms]
  by (simp add: matched_base_def empty_view_def derived_def is_pending_without_plan_def)
     (simp add: emptied_def with_selection_def in_memory_with_def Let_def)

lemma memory_matched:
  assumes "source_of fl ox d (st_layout self) qs (st_quads self) rows"
    and "selects fl (length qs) (qs_deleted (st_quads self)) vs rows'" "named_pattern vs = None \<and> held_index_order vs = None"
    and "\<And>pl. plan = Some pl \<Longrightarrow>
      serves fl (st_layout self) (layout_input ox d (st_layout self) qs) (qs_deleted (st_quads self)) rows' pl"
    and "need = NeedRows \<Longrightarrow> is_exact vs \<or> plan \<noteq> None"
  shows "matched_base fl ox d qs self need rows'
    (derived self (in_memory_with (st_quads self) (qs_memory (st_quads self)) vs plan) (st_tail self))"
  using in_memory_source [OF assms(1-4)] assms(5)
  by (simp add: matched_base_def derived_def is_pending_without_plan_def served_component_def)
     (auto simp: in_memory_with_def)

lemma fold_rows:
  assumes held: "lazy_of fl ids row_ids" "\<forall>i \<in> set ids. i < n" "\<forall>all cell. row_ids \<noteq> UnsortedIds all cell"
    and sel: "wf_selection n sel" and whole: "later \<longrightarrow> sel = AllRows"
  shows "\<exists>vs. fold_row_ids fl sel row_ids later = Some vs \<and>
    (\<forall>deleted. selects fl n deleted vs (filter (\<lambda>i. i \<in> set ids) (covered sel n))) \<and> (named_pattern vs = None \<and> held_index_order vs = None) \<and>
    (is_exact vs \<longleftrightarrow> \<not> later)"
proof (cases later)
  case True
  have "sort ids = filter (\<lambda>i. i \<in> set ids) [0..<n]"
    using held(2) ascending_sort_ids [OF lazy_unique [OF held(1)]]
    by (intro ascending_unique) (auto intro!: ascending_filter)
  then have "\<forall>deleted. selects fl n deleted (PendingIds row_ids None) (filter (\<lambda>i. i \<in> set ids) [0..<n])"
    using held by auto
  moreover have "live_index_order row_ids = None" using held(3) by (cases row_ids) auto
  ultimately show ?thesis using True whole by (simp add: fold_row_ids_def view_pending_def)
next
  case False
  obtain row_ids' where out: "lazy_materialized fl row_ids = Some (sort ids, row_ids')"
    using lazy_materialized_sorts [OF held(1)] by blast
  obtain sel' where "intersect_ids sel (sort ids) = Some sel'" "wf_selection n sel'"
      "covered sel' n = filter (\<lambda>i. i \<in> set ids) (covered sel n)"
    using intersect_ids_narrows [OF sel, of "sort ids"] ascending_sort_ids [OF lazy_unique [OF held(1)]] held(2) by auto
  then show ?thesis using False out by (simp add: fold_row_ids_def)
qed

lemma covered_empty:
  assumes "sel_is_empty sel n" "wf_selection n sel"
  shows "covered sel n = []"
  using assms sel_len_covered [of n sel] by (simp add: sel_is_empty_def)

lemma unbound_matches: "\<not> any_bound p \<Longrightarrow> quad_matches p q"
  by (simp add: any_bound_roles quad_matches_refs)

lemma finish_match_rows:
  fixes ids :: "nat list" and self :: "'l store"
  assumes fl: "lawful_compute fl" and source: "source_of fl ox d (st_layout self) qs (st_quads self) rows"
    and codes: "codes_exact ox codes (layout_input ox d (st_layout self) qs) qs p"
    and sel: "wf_selection (length qs) sel" and whole: "unrefined \<and> \<not> prefix_narrowed \<longrightarrow> sel = AllRows"
    and resolved: "\<And>row_ids. resolved = Some row_ids \<Longrightarrow> lazy_of fl ids row_ids \<and>
      (\<forall>i \<in> set ids. i < length qs) \<and> (\<forall>all cell. row_ids \<noteq> UnsortedIds all cell)"
    and plan: "\<And>pl deleted. plan = Some pl \<Longrightarrow> resolved \<noteq> None \<and>
      serves fl (st_layout self) (layout_input ox d (st_layout self) qs) deleted (sort ids) pl"
  defines "here \<equiv> (if resolved = None then covered sel (length qs)
    else filter (\<lambda>i. i \<in> set ids) (covered sel (length qs)))"
  shows "\<exists>matched. finish_match fl ox self codes need unrefined prefix_narrowed sel resolved p plan = Some matched \<and>
    matched_base fl ox d qs self need (filter (\<lambda>i. quad_matches p (qs ! i)) here) matched"
proof -
  let ?n = "length qs" and ?q = "st_quads self"
  let ?memory = "qs_memory ?q"
  define sole where "sole \<longleftrightarrow> unrefined \<and> \<not> prefix_narrowed \<and> \<not> any_bound p"
  define later where "later \<longleftrightarrow> resolved \<noteq> None \<and> sole \<and> (plan \<noteq> None \<or> counts_or_windows need)"
  have len: "base_len ?q = ?n" by (rule source_len [OF source])
  obtain vs :: "'l view_selection" where vs: "(case resolved of
        Some row_ids \<Rightarrow> fold_row_ids fl sel row_ids (sole \<and> (plan \<noteq> None \<or> counts_or_windows need))
      | None \<Rightarrow> Some (ExactRows sel)) = Some vs"
      "\<And>deleted. selects fl ?n deleted vs here" "named_pattern vs = None \<and> held_index_order vs = None" "is_exact vs \<longleftrightarrow> \<not> later"
  proof (cases resolved)
    case None
    then show ?thesis using that [of "ExactRows sel"] sel by (simp add: here_def later_def)
  next
    case (Some row_ids)
    define now where "now \<longleftrightarrow> sole \<and> (plan \<noteq> None \<or> counts_or_windows need)"
    have "now \<longrightarrow> sel = AllRows" using whole by (simp add: now_def sole_def)
    note fold = fold_rows [OF _ _ _ sel this, of fl ids row_ids]
    obtain folded :: "'l view_selection" where folded: "fold_row_ids fl sel row_ids now = Some folded" "named_pattern folded = None \<and> held_index_order folded = None"
        "is_exact folded \<longleftrightarrow> \<not> now" "\<forall>deleted. selects fl ?n deleted folded here"
      using fold resolved [OF Some] by (auto simp: here_def Some)
    then show ?thesis using that [of folded] folded Some by (simp add: now_def later_def)
  qed
  have serving: "serves fl (st_layout self) (layout_input ox d (st_layout self) qs) (qs_deleted ?q) here pl"
    if pl: "plan = Some pl" and unr: "unrefined \<and> \<not> prefix_narrowed" for pl
  proof -
    obtain row_ids where some: "resolved = Some row_ids" using plan [OF pl] by blast
    from some have ids: "unique_ids ids" "\<forall>i \<in> set ids. i < ?n"
      using resolved [of row_ids] lazy_unique [of fl ids row_ids] by simp_all
    have "sort ids = filter (\<lambda>i. i \<in> set ids) [0..<?n]"
      using ids(2) ascending_sort_ids [OF ids(1)] by (intro ascending_unique) (auto intro!: ascending_filter)
    then show ?thesis using plan [OF pl] whole unr some by (simp add: here_def)
  qed
  show ?thesis
  proof (cases "\<exists>exact. vs = ExactRows exact \<and> \<not> sel_is_empty exact ?n \<and> any_bound p")
    case True
    then obtain exact where exact: "vs = ExactRows exact" "\<not> sel_is_empty exact ?n" "any_bound p" by blast
    have wf: "wf_selection ?n exact" "covered exact ?n = here" using vs(2) [of None] exact(1) by simp_all
    obtain out where out: "residual_narrow fl ox (memory_base.truncate ?memory) exact p codes need = Some (Some out)"
        "\<forall>deleted. selects fl ?n deleted out (filter (\<lambda>i. quad_matches p (qs ! i)) here)"
        "named_pattern out = None \<and> held_index_order out = None" "need = NeedRows \<longrightarrow> is_exact out"
      using residual_narrow_rows [OF fl source_facts(3) [OF source] codes wf(1), of need] wf(2) by auto
    have "finish_match fl ox self codes need unrefined prefix_narrowed sel resolved p plan =
        Some (derived self (in_memory_with ?q ?memory out None) (st_tail self))"
      unfolding finish_match_def Let_def len sole_def [symmetric] vs(1) using exact out(1) by simp
    then show ?thesis using memory_matched [OF source _ out(3), of _ None need] out(2,4) by blast
  next
    case False
    have all: "filter (\<lambda>i. quad_matches p (qs ! i)) here = here"
    proof (cases "any_bound p")
      case True
      have "is_exact vs" using True vs(4) by (simp add: later_def sole_def)
      then obtain exact where "vs = ExactRows exact" by (cases vs) auto
      then have "here = []" using False True vs(2) [of None] covered_empty by auto
      then show ?thesis by simp
    qed (simp add: unbound_matches)
    let ?plan = "if unrefined \<and> \<not> prefix_narrowed then plan else None"
    have "finish_match fl ox self codes need unrefined prefix_narrowed sel resolved p plan =
        Some (derived self (in_memory_with ?q ?memory vs ?plan) (st_tail self))"
      unfolding finish_match_def Let_def len sole_def [symmetric] vs(1) using False by (cases vs) auto
    moreover have "matched_base fl ox d qs self need here
        (derived self (in_memory_with ?q ?memory vs ?plan) (st_tail self))"
    proof (rule memory_matched [OF source vs(2,3)])
      show "is_exact vs \<or> ?plan \<noteq> None" if "need = NeedRows"
        using that vs(4) by (auto simp: later_def sole_def)
    qed (use serving in \<open>auto split: if_splits\<close>)
    ultimately show ?thesis using all by auto
  qed
qed

lemma resolved_pending:
  assumes "resolve_indexes_in_memory fl sx ox indexes components layout p codes windowed =
    Some (Resolved row_ids roles plan)"
  shows "row_ids \<noteq> UnsortedIds all cell"
  using assms
proof (induction indexes)
  case (Cons index indexes)
  then show ?case
    by (auto simp: resolve_in_memory_def Let_def
        split: option.splits Option.bind_splits index_resolution.splits keys_probed.splits graph_checked.splits)
qed simp

lemma cleared_roles: "set (bound_roles (clear_roles roles p)) \<subseteq> set (bound_roles p)"
  by (cases "pat_subject p"; cases "pat_predicate p"; cases "pat_object p"; cases "pat_graph p";
      auto simp: clear_roles_def bound_roles_def)

lemma match_in_memory_rows:
  assumes fl: "lawful_compute fl" and sx: "lawful_search fl sx"
    and source: "source_of fl ox d (st_layout self) qs (st_quads self) rows"
    and codes: "codes_exact ox codes (layout_input ox d (st_layout self) qs) qs p"
  shows "\<exists>matched. match_base_in_memory fl sx ox self p codes need = Some matched \<and>
    matched_base fl ox d qs self need (filter (\<lambda>i. quad_matches p (qs ! i)) rows) matched"
proof -
  let ?q = "st_quads self" and ?n = "length qs" and ?input = "layout_input ox d (st_layout self) qs"
  let ?m = "qs_memory ?q"
  note facts = source_facts [OF source]
  have len: "base_len ?q = ?n" by (rule source_len [OF source])
  have wf: "wf_input ?input" by (rule base_input [OF facts(3)])
  have parts: "\<forall>part \<in> set (rb_components ?m). \<exists>perm. component_of fl ?input part perm"
    using facts(3) by (simp add: base_of_def Let_def)
  obtain sel vs where sel: "view_materialized fl (qs_selection ?q) = Some (sel, vs)" "wf_selection ?n sel"
      "covered sel ?n = rows"
    using view_materialized_rows [OF facts(1)] by blast
  obtain sel' p' narrowed where probed:
      "prefix_probe fl sx ox (mem_table ?m) (rb_sorted ?m) codes p sel = Some (sel', p', narrowed)"
      "wf_selection ?n sel'"
      "filter (\<lambda>i. quad_matches p' (qs ! i)) (covered sel' ?n) = filter (\<lambda>i. quad_matches p (qs ! i)) rows"
      "set (bound_roles p') \<subseteq> set (bound_roles p)" "\<not> narrowed \<longrightarrow> sel' = sel \<and> p' = p"
    using prefix_probe_rows [OF fl sx facts(3) codes sel(2)] sel(3) by auto
  let ?rows = "filter (\<lambda>i. quad_matches p (qs ! i)) rows"
  have left: "codes_exact ox codes ?input qs p'" by (rule codes_exact_part [OF codes probed(4)])
  define unrefined where "unrefined \<longleftrightarrow> sel = AllRows"
  have whole: "unrefined \<and> \<not> narrowed \<longrightarrow> sel' = AllRows" using probed(5) by (simp add: unrefined_def)
  define worth where
    "worth \<longleftrightarrow> \<not> sel_is_empty sel' ?n \<and> any_bound p' \<and> (\<not> narrowed \<or> INDEX_ROUTING_MIN_ROWS \<le> sel_len sel' ?n)"
  define resolution where "resolution =
    (if worth
     then resolve_indexes_in_memory fl sx ox (st_indexes self) (rb_components ?m) (st_layout self) p' codes (windowed_need need)
     else Some Declined)"
  have match: "match_base_in_memory fl sx ox self p codes need =
      Option.bind resolution (\<lambda>resolution. case resolution of
           ResolvedEmpty \<Rightarrow> Some (empty_view self)
         | Resolved row_ids roles plan \<Rightarrow>
             finish_match fl ox self codes need unrefined narrowed sel' (Some row_ids) (clear_roles roles p') plan
         | Declined \<Rightarrow> finish_match fl ox self codes need unrefined narrowed sel' None p' None)"
    by (simp only: match_base_in_memory_def Let_def sel(1) probed(1) len unrefined_def resolution_def worth_def Option.bind_lunit prod.case)
  have exact: "\<forall>t \<in> set (bound_roles p'). probes_exactly ox codes ?input qs t"
    using codes_exact_probes [OF left] by blast
  obtain res where res: "resolution = Some res" "resolves_exactly fl qs p' res"
      "\<And>row_ids roles plan. res = Resolved row_ids roles plan \<Longrightarrow>
         resolve_indexes_in_memory fl sx ox (st_indexes self) (rb_components ?m) (st_layout self) p' codes (windowed_need need) =
           Some (Resolved row_ids roles plan)"
  proof (cases worth)
    case True
    then show ?thesis
      using resolve_indexes_lemma [OF fl sx wf _ parts exact, of "st_indexes self" "st_layout self" "windowed_need need"] that
      by (auto simp: resolution_def)
  next
    case False
    then show ?thesis using that [of Declined] by (simp add: resolution_def resolves_exactly_def)
  qed
  show ?thesis
  proof (cases res)
    case Declined
    then show ?thesis
      using finish_match_rows [OF fl source left probed(2) whole, where resolved = None and plan = None and need = need] probed(3) res(1)
      by (simp add: match)
  next
    case ResolvedEmpty
    then have "\<forall>i < ?n. \<not> quad_matches p' (qs ! i)" using res(2) by (simp add: resolves_exactly_def)
    then have "?rows = []" using covered_bound [OF probed(2)] unfolding probed(3) [symmetric] by (auto simp: filter_empty_conv)
    then show ?thesis using ResolvedEmpty res(1) empty_view_matched [OF source, of need] by (simp add: match)
  next
    case (Resolved row_ids roles plan)
    obtain ids where ids: "lazy_of fl ids row_ids"
        "\<forall>i. i \<in> set ids \<longleftrightarrow> i < ?n \<and> quad_matches (keep_roles roles p') (qs ! i)"
      using res(2) Resolved by (auto simp: resolves_exactly_def simp del: lazy_of.simps)
    have resolved: "lazy_of fl ids row_ids' \<and> (\<forall>i \<in> set ids. i < ?n) \<and> (\<forall>all cell. row_ids' \<noteq> UnsortedIds all cell)"
      if "Some row_ids = Some row_ids'" for row_ids'
      using that ids resolved_pending [OF res(3) [OF Resolved]] by simp
    have plan: "Some row_ids \<noteq> None \<and> serves fl (st_layout self) ?input deleted (sort ids) pl" if some: "plan = Some pl" for pl deleted
    proof -
      obtain ids' where "lazy_of fl ids' row_ids" "\<exists>run. row_ids = ComponentIds run"
          "\<forall>deleted. serves fl (st_layout self) ?input deleted (sort ids') pl"
        using resolved_indexes_serve [OF wf parts res(3) [OF Resolved [unfolded some]]] by blast
      then show ?thesis using ids(1) lazy_ids_same by blast
    qed
    have cleared: "codes_exact ox codes ?input qs (clear_roles roles p')"
      by (rule codes_exact_part [OF left cleared_roles])
    have "filter (\<lambda>i. quad_matches (clear_roles roles p') (qs ! i)) (filter (\<lambda>i. i \<in> set ids) (covered sel' ?n)) = ?rows"
      unfolding probed(3) [symmetric] filter_filter using ids(2) covered_bound [OF probed(2)] keep_and_clear [of p' _ roles]
      by (intro filter_cong) auto
    then show ?thesis
      using finish_match_rows [OF fl source cleared probed(2) whole resolved plan, where need = need] Resolved res(1)
      by (simp add: match)
  qed
qed

section \<open>Rows of a served view, tested\<close>

lemma plan_cells:
  assumes serves: "serves fl layout input deleted rows plan" and col: "map_of (tb_columns (sp_array plan)) (column_name c) = Some col"
  shows "(case sp_span plan of
      SpanRange a b \<Rightarrow> buf_slice (col_cells col) a b
    | SpanKept kept \<Rightarrow> gather (buf_get (col_cells col)) (sr_positions kept)) =
    Some (map ((!) (input_cells input c)) (map snd (plan_rows (plan_ids plan) plan)))"
proof -
  let ?all = "plan_ids plan" and ?s = "fst (sp_run plan)"
  let ?rows = "plan_rows ?all plan"
  obtain col' where "map_of (tb_columns (sp_array plan)) (column_name c) = Some col'" "snd (sp_run plan) \<le> length (col_cells col')"
      "\<forall>(i, rid) \<in> set (run_rows plan). i < length (col_cells col') \<and> col_cells col' ! i = input_cells input c ! rid"
    using serves unfolding serves_def plan_reads_def by meson
  then have reads: "snd (sp_run plan) \<le> length (col_cells col)"
      "\<And>i rid. (i, rid) \<in> set (run_rows plan) \<Longrightarrow> i < length (col_cells col) \<and> col_cells col ! i = input_cells input c ! rid"
    using col by auto
  have plan: "plan_of ?all plan" using serves by (simp add: serves_def)
  have at: "i < length (col_cells col)" "col_cells col ! i = input_cells input c ! rid" if "(i, rid) \<in> set ?rows" for i rid
    using reads(2) plan_rows_run(1) [OF serves] that by blast+
  have cells: "map (\<lambda>row. col_cells col ! fst row) ?rows = map ((!) (input_cells input c)) (map snd ?rows)"
    using at(2) by auto
  show ?thesis
  proof (cases "sp_span plan")
    case (SpanRange a b)
    have "?rows = map (\<lambda>i. (i, ?all ! (i - ?s))) [a..<b]" by (simp add: plan_rows_def SpanRange)
    then have "map (\<lambda>row. col_cells col ! fst row) ?rows = map ((!) (col_cells col)) [a..<b]" by simp
    also have "\<dots> = take (b - a) (drop a (col_cells col))"
      using plan reads(1) SpanRange by (intro nth_equalityI) (auto simp: plan_of_def)
    finally show ?thesis
      using plan reads(1) SpanRange cells by (simp add: plan_of_def buf_slice_Some)
  next
    case (SpanKept kept)
    have rows: "?rows = zip (sr_positions kept) (sr_rids kept)" "length (sr_positions kept) = length (sr_rids kept)"
      using plan SpanKept by (simp_all add: plan_rows_def positions_and_rids_def plan_of_def)
    have "gather (buf_get (col_cells col)) (sr_positions kept) = Some (map ((!) (col_cells col)) (sr_positions kept))"
    proof (rule gather_Some)
      fix i
      assume "i \<in> set (sr_positions kept)"
      then have "i \<in> set (map fst ?rows)" using rows by simp
      then obtain rid where "(i, rid) \<in> set ?rows" by auto
      then show "buf_get (col_cells col) i = Some (col_cells col ! i)" using at(1) by (simp add: buf_get_def)
    qed
    moreover have "map ((!) (col_cells col)) (sr_positions kept) = map (\<lambda>row. col_cells col ! fst row) ?rows"
      using rows by (metis (no_types, lifting) list.map_comp comp_def map_eq_conv map_fst_zip)
    ultimately show ?thesis using SpanKept cells by simp
  qed
qed

lemma filter_indexed:
  assumes "\<And>i. i < length xs \<Longrightarrow> p i \<longleftrightarrow> q (xs ! i)"
  shows "map fst (filter (\<lambda>(x, i). p i) (zip xs [0..<length xs])) = filter q xs"
proof -
  have "filter (\<lambda>(x, i). p i) (zip xs [0..<length xs]) = filter (\<lambda>row. q (fst row)) (zip xs [0..<length xs])"
    using assms by (intro filter_cong) (auto simp: set_zip)
  then show ?thesis using filter_map [of q fst "zip xs [0..<length xs]"] by (simp add: comp_def)
qed

lemma kept_rows_plan:
  assumes "kept_rows plan deleted admit = Some (rows, plan')"
  shows "\<exists>run. plan' = plan\<lparr> sp_ids := run \<rparr>"
  using assms
  by (cases "sp_span plan")
     (auto simp: kept_rows_def run_order_def Let_def split: Option.bind_splits intro: exI [of _ "sp_ids plan"])

text \<open>The rows of a plan whose base rows satisfy equalities.\<close>

lemma rows_where_held:
  assumes fl: "lawful_compute fl" and base: "base_of fl ox d layout qs memory"
    and serves: "serves fl layout (layout_input ox d layout qs) deleted rows plan" and marks: "wf_deleted (length qs) deleted"
    and eqs: "eqs = map (\<lambda>t. (column_name (role t), f t)) terms" "distinct (map role terms)"
      "\<forall>t \<in> set terms. fits (input_type (layout_input ox d layout qs)) (f t)"
  shows "\<exists>kept plan'. rows_where plan deleted (map fst eqs) (\<lambda>cols n. mask_for fl cols n eqs) = Some (kept, plan') \<and>
    positions_and_rids kept = filter (\<lambda>(i, rid). holds (mem_table memory) eqs rid) (served (plan_ids plan) plan deleted) \<and>
    length (sr_positions kept) = length (sr_rids kept) \<and> plan_of (plan_ids plan) plan' \<and>
    (\<exists>run. plan' = plan\<lparr> sp_ids := run \<rparr>)"
proof -
  let ?input = "layout_input ox d layout qs" and ?all = "plan_ids plan" and ?t = "mem_table memory"
  let ?rows = "plan_rows ?all plan"
  let ?rids = "map snd ?rows" and ?ty = "input_type ?input"
  have wf: "wf_input ?input" by (rule base_input [OF base])
  have plan: "plan_of ?all plan" "\<forall>i \<in> set ?all. i < length qs" using serves by (simp_all add: serves_def)
  have run: "i < length qs" if "i \<in> set ?rids" for i
  proof -
    have "i \<in> snd ` set (run_rows plan)" using that plan_rows_run(1) [OF serves] by auto
    then have "i \<in> set ?all" unfolding run_rows_def set_map [symmetric] by simp
    then show ?thesis using plan(2) by blast
  qed
  define cells where "cells c = map ((!) (input_cells ?input c)) ?rids" for c
  let ?fields = "map (\<lambda>t. (column_name (role t), (?ty, cells (role t)))) terms"
  have fields: "gather (\<lambda>name. do {
           col \<leftarrow> map_of (tb_columns (sp_array plan)) name;
           cells \<leftarrow> (case sp_span plan of
               SpanRange a b \<Rightarrow> buf_slice (col_cells col) a b
             | SpanKept kept \<Rightarrow> gather (buf_get (col_cells col)) (sr_positions kept));
           Some (name, (col_type col, cells))
         }) (map (\<lambda>t. column_name (role t)) ts) = Some (map (\<lambda>t. (column_name (role t), (?ty, cells (role t)))) ts)" for ts
  proof (induction ts)
    case (Cons t ts)
    obtain col where col: "map_of (tb_columns (sp_array plan)) (column_name (role t)) = Some col" "col_type col = ?ty"
      using serves unfolding serves_def plan_reads_def by meson
    show ?case using Cons plan_cells [OF serves col(1)] col by (simp add: cells_def)
  qed simp
  have names: "map fst eqs = map (\<lambda>t. column_name (role t)) terms" by (simp add: eqs(1))
  have inj: "column_name c = column_name c' \<longleftrightarrow> c = c'" for c c' by (cases c; cases c') simp_all
  have held: "map_of ?fields (column_name (role t)) = Some (?ty, cells (role t))" if "t \<in> set terms" for t
    using that eqs(2) by (induction terms) (auto simp: inj image_iff)
  have typed: "typed_column ?t (column_name c) ?ty (input_cells ?input c)" for c
    using base by (simp add: base_of_def Let_def)
  have mask: "mask_for fl (map_of ?fields) (plan_span_len plan) eqs = Some (map (holds ?t eqs) ?rids)"
  proof -
    have len: "plan_span_len plan = length ?rids"
      using plan(1) by (cases "sp_span plan")
        (auto simp: plan_span_len_def plan_rows_def positions_and_rids_def plan_of_def served_len_def)
    obtain res where res: "mask_loop fl (map_of ?fields) eqs None = Some res"
        "res = Some (map (\<lambda>row. True \<and> holds ?t eqs row) ?rids) \<or> res = None \<and> None = (None :: mask option) \<and> eqs = []"
    proof (rule exE [OF mask_loop_bits [OF fl, of eqs "map_of ?fields" ?rids ?t None "\<lambda>row. True"]])
      fix field s
      assume "(field, s) \<in> set eqs"
      then obtain t where t: "t \<in> set terms" "field = column_name (role t)" "s = f t" by (auto simp: eqs(1))
      obtain col where "map_of (tb_columns ?t) field = Some col" "col_cells col = input_cells ?input (role t)"
        using typed [of "role t"] t(2) by (auto simp: typed_column_def)
      then have "map (\<lambda>c. c = s) (cells (role t)) = map (eq_row ?t (field, s)) ?rids"
        by (simp add: cells_def eq_row_def)
      moreover have "\<forall>c \<in> set (cells (role t)). fits ?ty c"
        using run input_facts(1) [OF wf] by (auto simp: cells_def list_all_length)
      ultimately show "\<exists>ty cs. map_of ?fields field = Some (ty, cs) \<and> length cs = length ?rids \<and> fits ty s \<and>
          (\<forall>c \<in> set cs. fits ty c) \<and> map (\<lambda>c. c = s) cs = map (eq_row ?t (field, s)) ?rids"
        using held [OF t(1)] eqs(3) t by (intro exI [of _ ?ty] exI [of _ "cells (role t)"]) (simp add: cells_def)
    qed blast+
    then show ?thesis
      by (auto simp: mask_for_def len holds_def comp_def map_replicate_const)
  qed
  define holding where "holding = map (holds ?t eqs) ?rids"
  have bit: "holding ! i \<longleftrightarrow> holds ?t eqs (snd (?rows ! i))" "i < length holding" if "i < length ?rows" for i
    using that by (simp_all add: holding_def)
  have where_rows: "rows_where plan deleted (map fst eqs) (\<lambda>cols n. mask_for fl cols n eqs) =
      (case sp_span plan of
          SpanKept kept \<Rightarrow>
            map_option (\<lambda>rows. (rows, plan))
              (served_collect (zip (positions_and_rids kept) [0..<served_len kept])
                (\<lambda>(row, i). map_option (\<lambda>holds. if holds then Some row else None) (mask_value holding i)))
        | SpanRange a b \<Rightarrow>
            kept_rows plan deleted (\<lambda>position _. Option.bind (usub position a) (mask_value holding)))"
    unfolding rows_where_def names fields Option.bind_lunit mask holding_def by (rule refl)
  show ?thesis
  proof (cases "sp_span plan")
    case (SpanRange a b)
    have rows: "?rows = map (\<lambda>i. (i, ?all ! (i - fst (sp_run plan)))) [a..<b]" by (simp add: plan_rows_def SpanRange)
    have admit: "Option.bind (usub i a) (mask_value holding) = Some (holds ?t eqs rid)" if "(i, rid) \<in> set ?rows" for i rid
    proof -
      have i: "a \<le> i" "i < b" "?rows ! (i - a) = (i, rid)" "i - a < length ?rows"
        using that by (auto simp: rows)
      then show ?thesis using bit [of "i - a"] by (simp add: usub_def mask_value_Some)
    qed
    have marked: "marks_run ?all deleted" using marks plan(2) by (auto simp: marks_run_def)
    obtain kept plan' where kept: "kept_rows plan deleted (\<lambda>position _. Option.bind (usub position a) (mask_value holding)) =
          Some (kept, plan')"
        "positions_and_rids kept = filter (\<lambda>(i, rid). holds ?t eqs rid) (served ?all plan deleted)"
        "length (sr_positions kept) = length (sr_rids kept)" "plan_of ?all plan'"
      using kept_rows_eq [OF plan(1) marked, where p = "\<lambda>i rid. holds ?t eqs rid" and
          admit = "\<lambda>position _. Option.bind (usub position a) (mask_value holding)", OF admit] by blast
    then show ?thesis using where_rows SpanRange kept_rows_plan [OF kept(1)] by simp
  next
    case (SpanKept kept)
    have rows: "?rows = positions_and_rids kept" "length ?rows = served_len kept"
      using plan(1) SpanKept by (simp_all add: plan_rows_def positions_and_rids_def plan_of_def served_len_def)
    let ?zip = "zip ?rows [0..<length ?rows]"
    have "collect_loop (\<lambda>(row, i). map_option (\<lambda>holds. if holds then Some row else None) (mask_value holding i)) ?zip [] [] =
        Some \<lparr> sr_positions = [] @ map (fst \<circ> fst) (filter (\<lambda>(row, i). holding ! i) ?zip),
          sr_rids = [] @ map (snd \<circ> fst) (filter (\<lambda>(row, i). holding ! i) ?zip) \<rparr>"
    proof (rule collect_loop_eq)
      fix x
      assume "x \<in> set ?zip"
      then obtain i where x: "x = (?rows ! i, i)" "i < length ?rows" unfolding set_zip by auto
      then show "(case x of (row, i) \<Rightarrow> map_option (\<lambda>holds. if holds then Some row else None) (mask_value holding i)) =
          Some (if (case x of (row, i) \<Rightarrow> holding ! i) then Some (fst x) else None)"
        using bit(2) by (simp add: mask_value_Some)
    qed
    moreover have "map fst (filter (\<lambda>(row, i). holding ! i) ?zip) = filter (\<lambda>row. holds ?t eqs (snd row)) ?rows"
      using bit(1) by (intro filter_indexed) simp
    ultimately show ?thesis
      using where_rows SpanKept plan(1) rows
      by (auto simp: served_collect_def positions_and_rids_def served_def plan_rows_def case_prod_unfold
          map_map [symmetric] zip_map_fst_snd simp del: map_map split: option.splits intro!: exI [of _ "sp_ids plan"])
  qed
qed

section \<open>Matches of a view\<close>

lemma chain_eqs_of:
  assumes "\<forall>t \<in> set terms. probe_scalar ox codes t = Inr (Some (f t))"
  shows "chain_eqs ox codes terms eqs = Inr (Some (eqs @ map (\<lambda>t. (column_name (role t), f t)) terms))"
  using assms by (induction terms arbitrary: eqs) auto

lemma narrowed_plan: "narrowed quads plan rows = Some quads' \<Longrightarrow> served_component quads' \<noteq> None"
  by (auto simp: narrowed_def in_memory_with_def served_component_def split: Option.bind_splits prod.splits)

definition matches_live :: "'l rdf_quad list \<Rightarrow> 'l quad_pattern \<Rightarrow> mask option \<Rightarrow> nat list \<Rightarrow> nat list \<Rightarrow> bool" where
  "matches_live qs p deleted rows rows' \<longleftrightarrow>
     live_of deleted rows' = filter (\<lambda>i. quad_matches p (qs ! i)) (live_of deleted rows)"

lemma matches_live_filter: "matches_live qs p deleted rows (filter (\<lambda>i. quad_matches p (qs ! i)) rows)"
  by (simp add: matches_live_def live_of_def conj_commute split: option.split)

lemma live_of_ascending: "ascending rows \<Longrightarrow> ascending (live_of deleted rows)"
  by (simp add: live_of_def ascending_filter split: option.split)

lemma live_of_bound: "set (live_of deleted rows) \<subseteq> set rows"
  by (auto simp: live_of_def split: option.split)

lemma served_chain_rows:
  assumes fl: "lawful_compute fl" and source: "source_of fl ox d (st_layout self) qs (st_quads self) rows"
    and plan: "rb_serve (qs_memory (st_quads self)) = Some plan"
    and codes: "codes_exact ox codes (layout_input ox d (st_layout self) qs) qs p"
  shows "\<exists>matched rows'. served_chain fl ox self plan p codes = Some matched \<and>
    matched_base fl ox d qs self need rows' matched \<and> matches_live qs p (qs_deleted (st_quads self)) rows rows'"
proof -
  let ?q = "st_quads self" and ?d = "qs_deleted (st_quads self)" and ?all = "plan_ids plan"
  let ?t = "mem_table (qs_memory ?q)"
  note facts = source_facts [OF source]
  have serves: "serves fl (st_layout self) (layout_input ox d (st_layout self) qs) ?d rows plan" using source plan by (simp add: source_of_def)
  obtain f where f: "\<forall>t \<in> set (bound_roles p). probe_scalar ox codes t = Inr (Some (f t)) \<and>
        fits (input_type (layout_input ox d (st_layout self) qs)) (f t)"
      "\<forall>i < length qs. holds ?t (map (\<lambda>t. (column_name (role t), f t)) (bound_roles p)) i \<longleftrightarrow> quad_matches p (qs ! i)"
    by (rule codes_eqs [OF facts(3) codes]) blast
  define eqs where "eqs = map (\<lambda>t. (column_name (role t), f t)) (bound_roles p)"
  have chain: "chain_eqs ox codes (bound_roles p) [] = Inr (Some eqs)"
    using chain_eqs_of [of "bound_roles p" ox codes f "[]"] f(1) by (simp add: eqs_def)
  show ?thesis
  proof (cases "eqs = []")
    case True
    then have all: "quad_matches p q" for q by (simp add: eqs_def quad_matches_refs)
    have "matched_base fl ox d qs self need rows self"
      using source plan by (simp add: matched_base_def is_pending_without_plan_def served_component_def)
    then show ?thesis using chain True all by (auto simp: served_chain_def matches_live_def)
  next
    case False
    obtain kept plan' run where kept:
        "rows_where plan ?d (map fst eqs) (\<lambda>cols n. mask_for fl cols n eqs) = Some (kept, plan')"
        "positions_and_rids kept = filter (\<lambda>(i, rid). holds ?t eqs rid) (served ?all plan ?d)"
        "length (sr_positions kept) = length (sr_rids kept)" "plan_of ?all plan'" "plan' = plan\<lparr> sp_ids := run \<rparr>"
      using rows_where_held [OF fl facts(3) serves facts(2) eqs_def bound_roles_distinct] f(1) by blast
    have step: "served_chain fl ox self plan p codes = served_kept self plan' kept"
      by (simp add: served_chain_def chain False kept(1))
    let ?part = "positions_and_rids kept"
    have live: "ascending (live_of ?d rows)" "\<forall>i \<in> set (live_of ?d rows). i < length qs"
      using selects_rows [OF facts(1)] live_of_ascending live_of_bound by blast+
    have "set (map snd ?part) = {rid \<in> set (map snd (served ?all plan ?d)). holds ?t eqs rid}"
      unfolding kept(2) by force
    also have "\<dots> = {rid \<in> set (live_of ?d rows). holds ?t eqs rid}" using serves by (simp add: serves_def)
    also have "\<dots> = {rid \<in> set (live_of ?d rows). quad_matches p (qs ! rid)}"
      using f(2) live(2) by (auto simp: eqs_def)
    finally have rids: "set (map snd ?part) = {rid \<in> set (live_of ?d rows). quad_matches p (qs ! rid)}" .
    have len: "length ?part = served_len kept" using kept(3) by (simp add: positions_and_rids_def served_len_def)
    show ?thesis
    proof (cases "served_len kept = 0")
      case True
      then have "{rid \<in> set (live_of ?d rows). quad_matches p (qs ! rid)} = {}" using rids len by simp
      then have "matches_live qs p ?d rows []"
        by (auto simp: matches_live_def filter_empty_conv live_of_def split: option.splits)
      then show ?thesis
        using step True empty_view_matched [OF source] by (auto simp: served_kept_def)
    next
      case False
      have distinct: "distinct (map snd ?part)"
        unfolding kept(2) using served_distinct [OF plan_rows_run(2) [OF serves]] by (simp add: distinct_map_filter)
      have "narrows_to ?all plan' ?d (LiveKept kept) ?part"
        using kept(3,4)
        by (auto simp: narrows_to_def plan_of_def with_span_def served_def plan_rows_def positions_and_rids_def
            split: option.splits)
      then obtain quads where quads: "narrowed ?q plan' (LiveKept kept) = Some quads"
          "source_of fl ox d (st_layout self) qs quads (sort (map snd ?part))" "qs_deleted quads = ?d"
        using narrowed_source [OF source plan kept(5,4) _ _ distinct] kept(2) by auto
      have "live_of ?d (sort (map snd ?part)) = sort (map snd ?part)"
        using rids by (auto simp: live_of_def filter_id_conv split: option.splits)
      also have "\<dots> = filter (\<lambda>i. quad_matches p (qs ! i)) (live_of ?d rows)"
        by (rule ascending_unique [OF _ ascending_filter [OF live(1)]])
          (use rids distinct in \<open>simp_all add: strict_sorted_iff\<close>)
      finally have "matches_live qs p ?d rows (sort (map snd ?part))" by (simp add: matches_live_def)
      moreover have "matched_base fl ox d qs self need (sort (map snd ?part)) (derived self quads (st_tail self))"
        using quads narrowed_plan [OF quads(1)] by (simp add: matched_base_def derived_def is_pending_without_plan_def)
      ultimately show ?thesis using step False quads(1) by (auto simp: served_kept_def)
    qed
  qed
qed

lemma pattern_and_wf:
  "pattern_and mine other = Some joined \<Longrightarrow> wf_pattern ox mine \<Longrightarrow> wf_pattern ox other \<Longrightarrow> wf_pattern ox joined"
  by (cases "pat_subject mine"; cases "pat_predicate mine"; cases "pat_object mine"; cases "pat_graph mine";
      cases "pat_subject other"; cases "pat_predicate other"; cases "pat_object other"; cases "pat_graph other";
      auto simp: pattern_and_def wf_pattern_def bound_roles_def split: if_splits)

lemma renamed_order: "in_plan_order (st_quads matched) \<Longrightarrow> in_plan_order (st_quads (renamed p matched))"
  by (cases "qs_selection (st_quads matched)") (simp_all add: renamed_def name_pattern_def in_plan_order_def)

lemma renamed_matched:
  assumes "matched_base fl ox d qs self need (filter (\<lambda>i. quad_matches p (qs ! i)) [0..<length qs]) matched"
    and "wf_pattern ox p"
  shows "matched_base fl ox d qs self need (filter (\<lambda>i. quad_matches p (qs ! i)) [0..<length qs]) (renamed p matched)"
  using assms renamed_order [of matched p]
  by (cases "qs_selection (st_quads matched)")
     (auto simp: matched_base_def renamed_def name_pattern_def source_of_def is_pending_without_plan_def served_component_def
        simp del: in_plan_order_triv split: option.splits)

definition matched_view ::
    "'k compute_scheme \<Rightarrow> 'l oxrdf \<Rightarrow> term_dictionary \<Rightarrow> 'l rdf_quad list \<Rightarrow> 'l store \<Rightarrow> ids_need \<Rightarrow>
     'l quad_pattern \<Rightarrow> nat list \<Rightarrow> 'l store option \<Rightarrow> bool" where
  "matched_view fl ox d qs self need p rows res \<longleftrightarrow>
     (\<exists>matched rows'. res = Some matched \<and> matched_base fl ox d qs self need rows' matched \<and>
        matches_live qs p (qs_deleted (st_quads self)) rows rows')"

lemma matched_viewI:
  "res = Some matched \<Longrightarrow> matched_base fl ox d qs self need rows' matched \<Longrightarrow>
    matches_live qs p (qs_deleted (st_quads self)) rows rows' \<Longrightarrow> matched_view fl ox d qs self need p rows res"
  unfolding matched_view_def by blast

lemma match_one_rows:
  assumes fl: "lawful_compute fl" and sx: "lawful_search fl sx" and ox: "lawful_oxrdf ox"
    and source: "source_of fl ox d (st_layout self) qs (st_quads self) rows" and p: "wf_pattern ox p"
  shows "matched_view fl ox d qs self need p rows (match_one fl sx ox self p need)"
proof -
  let ?d = "qs_deleted (st_quads self)" and ?rows = "filter (\<lambda>i. quad_matches p (qs ! i)) rows"
  note facts = source_facts [OF source]
  have holds: "holds_quads ox d (st_layout self) qs" using facts(3) by (simp add: base_of_def Let_def)
  consider "prepare_pattern ox (st_layout self) p = Inr PreparedEmpty" "\<forall>q \<in> set qs. \<not> quad_matches p q"
    | codes where "prepare_pattern ox (st_layout self) p = Inr (PreparedCodes codes)"
        "codes_exact ox codes (layout_input ox d (st_layout self) qs) qs p"
    using prepared_exact [OF ox holds p] by blast
  then show ?thesis
  proof cases
    case 1
    then have "?rows = []" using selects_rows(2) [OF facts(1)] by (auto simp: filter_empty_conv)
    then have "matches_live qs p ?d rows []" using matches_live_filter [of qs p ?d rows] by simp
    then show ?thesis using 1(1) empty_view_matched [OF source] by (auto simp: match_one_def intro!: matched_viewI)
  next
    case (2 codes)
    show ?thesis
    proof (cases "Option.bind (served_of (st_quads self)) (\<lambda>plan. if sp_narrowed plan then Some plan else None)")
      case (Some plan)
      then have "rb_serve (qs_memory (st_quads self)) = Some plan"
        by (auto simp: served_of_def split: Option.bind_splits if_splits)
      then show ?thesis
        using served_chain_rows [OF fl source _ 2(2), of plan need] 2(1) Some
        by (auto simp: match_one_def intro: matched_viewI)
    next
      case None
      obtain matched where matched: "match_base_in_memory fl sx ox self p codes need = Some matched"
          "matched_base fl ox d qs self need ?rows matched"
        using match_in_memory_rows [OF fl sx source 2(2)] by blast
      have whole: "rows = [0..<length qs]" if "is_unrefined (st_quads self)"
      proof (cases "qs_selection (st_quads self)")
        case (ExactRows sel)
        then show ?thesis using that facts(1) by (cases sel) (auto simp: is_unrefined_def)
      qed (use that in \<open>simp_all add: is_unrefined_def\<close>)
      have "match_one fl sx ox self p need =
          Some (if is_unrefined (st_quads self) \<and> need = NeedRows then renamed p matched else matched)"
        using 2(1) None matched(1) by (simp add: match_one_def)
      then show ?thesis
        using renamed_matched [OF _ p] whole matched(2) matches_live_filter
        by (auto intro!: matched_viewI split: if_splits)
    qed
  qed
qed

lemma match_base_rows:
  assumes fl: "lawful_compute fl" and sx: "lawful_search fl sx" and ox: "lawful_oxrdf ox"
    and source: "source_of fl ox d (st_layout self) qs (st_quads self) rows" and p: "wf_pattern ox p"
  shows "matched_view fl ox d qs self need p rows (match_base fl sx ox self p need)"
proof (cases "Option.bind (named_pattern (qs_selection (st_quads self))) (\<lambda>first. pattern_and first p)")
  case None
  then show ?thesis
    using match_one_rows [OF fl sx ox source p] by (simp add: match_base.simps)
next
  case (Some joined)
  then obtain first where first: "named_pattern (qs_selection (st_quads self)) = Some first" "pattern_and first p = Some joined"
    by (auto split: Option.bind_splits)
  let ?q = "st_quads self" and ?n = "length qs"
  let ?d = "qs_deleted ?q"
  let ?all = "derived self (unrestricted ?q) (st_tail self)"
  have rows: "wf_pattern ox first" "rows = filter (\<lambda>i. quad_matches first (qs ! i)) [0..<?n]"
    using source first(1) by (simp_all add: source_of_def)
  have joined: "wf_pattern ox joined"
    using rows(1) p first(2) pattern_and_wf by blast
  have every: "source_of fl ox d (st_layout ?all) qs (st_quads ?all) [0..<?n]" "qs_deleted (st_quads ?all) = ?d"
    using in_memory_source [OF source, of view_all "[0..<?n]" None]
    by (simp_all add: derived_def unrestricted_def view_all_def) (simp add: in_memory_with_def)
  have "named_pattern (qs_selection (st_quads ?all)) = None"
    by (simp add: derived_def unrestricted_def in_memory_with_def view_all_def)
  then have "matched_view fl ox d qs ?all need joined [0..<?n] (match_base fl sx ox ?all joined need)"
    using match_one_rows [OF fl sx ox every(1) joined] by (simp add: match_base.simps)
  then obtain matched rows' where matched: "match_base fl sx ox ?all joined need = Some matched"
      "matched_base fl ox d qs ?all need rows' matched" "matches_live qs joined ?d [0..<?n] rows'"
    unfolding matched_view_def every(2) by blast
  have same: "matched_base fl ox d qs ?all need rows' m \<longleftrightarrow> matched_base fl ox d qs self need rows' m" for m
    using every(2) by (simp add: matched_base_def) (simp add: derived_def)
  have live: "matches_live qs p ?d rows rows'"
    using matched(3)
    by (simp add: matches_live_def rows(2) pattern_and_matches [OF first(2)] live_of_def conj_ac split: option.splits)
  have both: "match_base fl sx ox self p need = match_both fl sx ox self joined need"
    using Some by (simp add: match_base.simps)
  show ?thesis
  proof (cases "counts_or_windows need")
    case True
    then have "match_both fl sx ox self joined need = Some matched"
      using matched(1) by (simp add: match_both.simps)
    then show ?thesis using both matched(2) live same by (auto intro: matched_viewI)
  next
    case False
    have source': "source_of fl ox d (st_layout self) qs (st_quads matched) rows'" "qs_deleted (st_quads matched) = ?d"
        "st_layout matched = st_layout self" "st_tail matched = None \<longleftrightarrow> st_tail self = None"
      using matched(2) [unfolded same] by (simp_all add: matched_base_def)
    obtain ids vs where ids: "view_materialized fl (qs_selection (st_quads matched)) = Some (ids, vs)"
        "wf_selection ?n ids" "covered ids ?n = rows'"
      using view_materialized_rows [OF source_facts(1) [OF source'(1)]] by blast
    let ?m = "derived matched (with_selection (st_quads matched) (ExactRows ids)) (st_tail matched)"
    have "match_both fl sx ox self joined need = Some ?m"
      using False matched(1) ids(1) by (simp add: match_both.simps materialized_selection_def)
    moreover have "matched_base fl ox d qs self need rows' ?m"
      using exact_source(1) [OF source'(1) ids(2)] ids(3) source'(2-4)
      by (simp add: matched_base_def derived_def is_pending_without_plan_def)
         (simp add: with_selection_def in_memory_with_def)
    ultimately show ?thesis using both live by (auto intro: matched_viewI)
  qed
qed

section \<open>Matches of a store\<close>

lemma base_quads_mset:
  assumes "source_of fl ox d layout qs (st_quads self) rows"
  shows "mset (base_quads qs self rows) = image_mset ((!) qs) (mset (live_of (qs_deleted (st_quads self)) rows))"
proof -
  have "distinct (live_of (qs_deleted (st_quads self)) rows)"
    using live_of_ascending selects_rows(1) [OF source_facts(1) [OF assms]] ascending_distinct by blast
  then have "mset (view_rows (st_quads self) rows) = mset (live_of (qs_deleted (st_quads self)) rows)"
    using view_rows_live(1,2) [OF assms] by (simp add: set_eq_iff_mset_eq_distinct)
  then show ?thesis by (simp add: base_quads_def)
qed

lemma match_quads:
  assumes ox: "lawful_oxrdf ox" and fl: "lawful_compute fl" and sx: "lawful_search fl sx" and lib: "lawful_library fl lib"
    and store: "store_of fl ox fx d qs appended self rows" and p: "wf_pattern ox p"
  shows "\<exists>matched rows'. match_pattern_for fl sx ox fx lib self p need = Some matched \<and>
    store_of fl ox fx d qs appended matched rows' \<and>
    mset (base_quads qs matched rows') = filter_mset (quad_matches p) (mset (base_quads qs self rows)) \<and>
    appended_quads appended matched = filter (quad_matches p) (appended_quads appended self) \<and>
    (need = NeedRows \<longrightarrow> \<not> is_pending_without_plan (st_quads matched))"
proof -
  let ?d = "qs_deleted (st_quads self)"
  have source: "source_of fl ox d (st_layout self) qs (st_quads self) rows" using store by (simp add: store_of_def)
  obtain based rows' where based: "match_base fl sx ox self p need = Some based"
      "matched_base fl ox d qs self need rows' based" "matches_live qs p ?d rows rows'"
    using match_base_rows [OF fl sx ox source p] unfolding matched_view_def by blast
  have facts: "source_of fl ox d (st_layout self) qs (st_quads based) rows'" "qs_deleted (st_quads based) = ?d"
      "st_layout based = st_layout self" "st_tail based = None \<longleftrightarrow> st_tail self = None"
      "need = NeedRows \<longrightarrow> \<not> is_pending_without_plan (st_quads based)"
    using based(2) by (simp_all add: matched_base_def)
  have base: "mset (base_quads qs m rows') = filter_mset (quad_matches p) (mset (base_quads qs self rows))"
    if "st_quads m = st_quads based" for m
    using based(3) base_quads_mset [OF source] base_quads_mset [of fl ox d "st_layout self" qs m rows'] facts(1,2) that
    by (simp add: matches_live_def filter_mset_image_mset comp_def)
  show ?thesis
  proof (cases "st_tail self")
    case None
    then show ?thesis
      using based(1) facts base [of based]
      by (intro exI [of _ based] exI [of _ rows']) (simp add: match_pattern_for_def store_of_def appended_quads_def)
  next
    case (Some tail)
    then have tail: "tail_of ox fl fx appended tail" "tail_layout tail = layout_for (st_layout self)"
      using store by (simp_all add: store_of_def)
    obtain tail' where tail': "match_tail ox fx fl lib tail p = Some tail'" "tail_of ox fl fx appended tail'"
        "tail_layout tail' = tail_layout tail"
        "live_rows (tail_selection tail') (tail_deleted tail') (length appended) =
           filter (\<lambda>i. quad_matches p (appended ! i)) (live_rows (tail_selection tail) (tail_deleted tail) (length appended))"
      using match_tail_quads [OF ox fl lib tail(1) p] by blast
    let ?m = "based\<lparr> st_tail := Some tail' \<rparr>"
    have "match_pattern_for fl sx ox fx lib self p need = Some ?m"
      using based(1) Some tail'(1) by (simp add: match_pattern_for_def)
    moreover have "store_of fl ox fx d qs appended ?m rows'"
      using facts(1,3) tail'(2,3) tail(2) by (simp add: store_of_def)
    moreover have "appended_quads appended ?m = filter (quad_matches p) (appended_quads appended self)"
      using Some tail'(4) by (simp add: appended_quads_def tail_quads_def filter_map comp_def)
    ultimately show ?thesis using base [of ?m] facts(5) by auto
  qed
qed

lemma pattern_of_matches: "quad_matches (pattern_of q) q' \<longleftrightarrow> q' = q"
  by (cases q; cases q') (auto simp: quad_matches_def pattern_of_def)

lemma pattern_of_wf: "wf_quad ox q \<Longrightarrow> wf_pattern ox (pattern_of q)"
  by (simp add: wf_pattern_def pattern_of_def bound_roles_def wf_quad_def)

lemma contains_quads:
  assumes "lawful_oxrdf ox" "lawful_compute fl" "lawful_search fl sx" "lawful_library fl lib"
    and "store_of fl ox fx d qs appended self rows" "wf_quad ox q"
    and "length (store_quads qs appended self rows) \<le> usize_max"
  shows "store_contains fl sx ox fx lib self q = Some (q \<in> set (store_quads qs appended self rows))"
proof -
  let ?p = "pattern_of q"
  obtain matched rows' where matched: "match_pattern fl sx ox fx lib self ?p = Some matched"
      "store_of fl ox fx d qs appended matched rows'"
      "mset (base_quads qs matched rows') = filter_mset (quad_matches ?p) (mset (base_quads qs self rows))"
      "appended_quads appended matched = filter (quad_matches ?p) (appended_quads appended self)"
    using match_quads [OF assms(1-5) pattern_of_wf [OF assms(6)], of NeedRows] unfolding match_pattern_def by blast
  have quads: "mset (store_quads qs appended matched rows') =
      filter_mset (quad_matches ?p) (mset (store_quads qs appended self rows))"
    using matched(3,4) by (simp add: store_quads_def)
  have "length (store_quads qs appended matched rows') \<le> usize_max"
    using arg_cong [OF quads, of size] size_filter_mset_lesseq [of "quad_matches ?p" "mset (store_quads qs appended self rows)"]
      assms(7) by simp
  then obtain self' where sized: "size_capped fl matched 1 =
      Some (min (length (store_quads qs appended matched rows')) 1, self')"
    using size_capped_quads [OF matched(2)] by blast
  have "set (store_quads qs appended matched rows') = {q' \<in> set (store_quads qs appended self rows). q' = q}"
    using arg_cong [OF quads, of set_mset] by (simp add: pattern_of_matches)
  then have "store_quads qs appended matched rows' \<noteq> [] \<longleftrightarrow> q \<in> set (store_quads qs appended self rows)"
    unfolding set_empty [symmetric] by auto
  then show ?thesis
    using matched(1) sized by (auto simp: store_contains_def store_exists_def)
qed

section \<open>Correctness of matches\<close>

text \<open>C2. A match of a pattern on any view of a store returns a view of the same store that holds exactly
  the matching quads of the view, each as often, those of the tail in their order: whether the sorted
  prefix is searched, an index child resolves it, a residual is compared or left pending, a served
  view keeps its rows, or a chained match is merged into one, and for whatever the view is
  needed. The store is of the Default or the Dictionary layout.\<close>

theorem match_narrows_view:
  assumes "lawful_oxrdf ox" "lawful_compute fl" "lawful_search fl sx" "lawful_library fl lib"
    and "store_of fl ox fx d qs appended self rows" "wf_pattern ox p"
  shows "\<exists>matched rows'. match_pattern_for fl sx ox fx lib self p need = Some matched \<and>
    store_of fl ox fx d qs appended matched rows' \<and>
    mset (store_quads qs appended matched rows') =
      filter_mset (quad_matches p) (mset (store_quads qs appended self rows)) \<and>
    appended_quads appended matched = filter (quad_matches p) (appended_quads appended self)"
proof -
  obtain matched rows' where "match_pattern_for fl sx ox fx lib self p need = Some matched"
      "store_of fl ox fx d qs appended matched rows'"
      "mset (base_quads qs matched rows') = filter_mset (quad_matches p) (mset (base_quads qs self rows))"
      "appended_quads appended matched = filter (quad_matches p) (appended_quads appended self)"
    using match_quads [OF assms] by blast
  then show ?thesis by (intro exI [of _ matched] exI [of _ rows']) (simp add: store_quads_def)
qed

theorem match_narrows_view_witness:
  "\<exists>matched rows'. match_pattern_for plain_compute plain_search plain_oxrdf length plain_library (sample_store None)
      sample_pattern NeedCount = Some matched \<and>
    mset (store_quads sample_quads [] matched rows') = {# sample_quads ! 1 #}"
proof -
  have store: "store_of plain_compute plain_oxrdf length sample_dictionary sample_quads [] (sample_store None) [0..<length sample_quads]"
    by (rule sample_store_of) simp
  have "filter_mset (quad_matches sample_pattern) (mset sample_quads) = {# sample_quads ! 1 #}"
    by (simp add: quad_matches_def sample_pattern_def sample_quads_def)
  then show ?thesis
    using match_narrows_view [OF plain_lawful plain_compute_lawful plain_search_lawful plain_library_lawful store
        sample_pattern_wf, of NeedCount]
    unfolding sample_store_quads by auto
qed

text \<open>C6. A match always returns, with no panic and no error, chained matches among them, which start
  again on every base row at most once; and a view built for its rows has them at hand: it is never
  pending without a plan that serves it. The store is of the Default or the Dictionary layout.\<close>

theorem match_returns_rows:
  assumes "lawful_oxrdf ox" "lawful_compute fl" "lawful_search fl sx" "lawful_library fl lib"
    and "store_of fl ox fx d qs appended self rows" "wf_pattern ox p"
  shows "match_pattern_for fl sx ox fx lib self p need \<noteq> None \<and>
    (\<forall>matched. match_pattern fl sx ox fx lib self p = Some matched \<longrightarrow> \<not> is_pending_without_plan (st_quads matched))"
  using match_quads [OF assms, of need] match_quads [OF assms, of NeedRows] by (auto simp: match_pattern_def)

theorem match_returns_rows_witness:
  "match_pattern_for plain_compute plain_search plain_oxrdf length plain_library (sample_store None)
     sample_pattern NeedCount \<noteq> None"
proof -
  have store: "store_of plain_compute plain_oxrdf length sample_dictionary sample_quads [] (sample_store None) [0..<length sample_quads]"
    by (rule sample_store_of) simp
  show ?thesis
    using match_returns_rows [OF plain_lawful plain_compute_lawful plain_search_lawful plain_library_lawful store
        sample_pattern_wf, of NeedCount] by blast
qed

text \<open>C7. Whether a store holds a quad is answered by membership in what it shows, tombstoned rows
  counting as absent. The store is of the Default or the Dictionary layout.\<close>

theorem contains_is_membership:
  assumes "lawful_oxrdf ox" "lawful_compute fl" "lawful_search fl sx" "lawful_library fl lib"
    and "store_of fl ox fx d qs appended self rows" "wf_quad ox q"
    and "length (store_quads qs appended self rows) \<le> usize_max"
  shows "store_contains fl sx ox fx lib self q = Some (q \<in> set (store_quads qs appended self rows))"
  by (rule contains_quads [OF assms])

theorem contains_is_membership_witness:
  "store_contains plain_compute plain_search plain_oxrdf length plain_library (sample_store None) (sample_quads ! 0) = Some True"
proof -
  have store: "store_of plain_compute plain_oxrdf length sample_dictionary sample_quads [] (sample_store None) [0..<length sample_quads]"
    by (rule sample_store_of) simp
  have small: "length (store_quads sample_quads [] (sample_store None) [0..<length sample_quads]) \<le> usize_max"
    unfolding sample_store_quads by (simp add: sample_quads_def u64_max_def)
  have held: "sample_quads ! 0 \<in> set sample_quads" by (simp add: sample_quads_def)
  show ?thesis
    using contains_is_membership [OF plain_lawful plain_compute_lawful plain_search_lawful plain_library_lawful store
        bspec [OF sample_quads_wf held] small] held
    unfolding sample_store_quads by simp
qed

end
