(* ===== verification/Ingest.thy ===== *)
theory Ingest
  imports Resolve
begin

text \<open>
  Builds in memory (\<open>src/core/src/store/layouts/dictionary/ingest.rs\<close>, \<open>dictionary/codec/mod.rs\<close>,
  \<open>src/core/src/store/builders/mod.rs\<close> and \<open>sorted_in_memory.rs\<close>): quads sorted, their terms collected
  into a dictionary and coded, by one of three routes, and the index children beside them. An option's
  \<^term>\<open>None\<close> is a panic or an error. The parsed stream is the list of what it yields.
\<close>

section \<open>The order of quads\<close>

definition raw_terms :: "raw_quad \<Rightarrow> string list" where
  "raw_terms q = [raw_s q, raw_p q, raw_o q, raw_g q]"

lemma raw_terms_inject [simp]: "raw_terms a = raw_terms b \<longleftrightarrow> a = b"
  by (cases a; cases b) (simp add: raw_terms_def)

instantiation raw_quad :: linorder
begin

definition less_eq_raw_quad :: "raw_quad \<Rightarrow> raw_quad \<Rightarrow> bool" where
  "less_eq_raw_quad a b \<longleftrightarrow> raw_terms a \<le> raw_terms b"

definition less_raw_quad :: "raw_quad \<Rightarrow> raw_quad \<Rightarrow> bool" where
  "less_raw_quad a b \<longleftrightarrow> raw_terms a < raw_terms b"

instance
  by standard (auto simp: less_eq_raw_quad_def less_raw_quad_def less_le)

end

section \<open>Dictionaries of terms\<close>

definition sorted_unique_terms :: "raw_quad list \<Rightarrow> string list" where
  "sorted_unique_terms quads = sort (remdups (concat (map raw_terms quads)))"

text \<open>The largest dictionary that is built.\<close>

definition max_terms :: nat where
  "max_terms = 2147483647"

definition from_sorted_column :: "string list \<Rightarrow> term_dictionary option" where
  "from_sorted_column terms = (if max_terms < length terms then None else Some \<lparr> dict_terms = terms \<rparr>)"

type_synonym code_map = "string \<Rightarrow> nat option"

definition freeze :: "string list \<Rightarrow> (term_dictionary \<times> code_map) option" where
  "freeze terms =
     map_option (\<lambda>d. (d, map_of (map (\<lambda>(rank, t). (t, code_at rank)) (enumerate 0 terms))))
       (from_sorted_column terms)"

definition from_quads_with_map :: "raw_quad list \<Rightarrow> (term_dictionary \<times> code_map) option" where
  "from_quads_with_map quads = freeze (sorted_unique_terms quads)"

section \<open>Codes of quads\<close>

definition no_codes :: quad_codes where
  "no_codes = \<lparr> codes_s = [], codes_p = [], codes_o = [], codes_g = [] \<rparr>"

text \<open>One quad's codes, in the order of the roles.\<close>

definition push_codes :: "quad_codes \<Rightarrow> nat list \<Rightarrow> quad_codes" where
  "push_codes self row =
     \<lparr> codes_s = codes_s self @ [row ! 0], codes_p = codes_p self @ [row ! 1],
        codes_o = codes_o self @ [row ! 2], codes_g = codes_g self @ [row ! 3] \<rparr>"

definition codes_of_rows :: "nat list list \<Rightarrow> quad_codes" where
  "codes_of_rows rows = foldl push_codes no_codes rows"

definition encode_column :: "code_map \<Rightarrow> (raw_quad \<Rightarrow> string) \<Rightarrow> raw_quad list \<Rightarrow> nat list option" where
  "encode_column code_map field quads = gather (\<lambda>q. code_map (field q)) quads"

definition encode_quads :: "raw_quad list \<Rightarrow> code_map \<Rightarrow> quad_codes option" where
  "encode_quads quads code_map =
     do {
       s \<leftarrow> encode_column code_map raw_s quads;
       p \<leftarrow> encode_column code_map raw_p quads;
       ob \<leftarrow> encode_column code_map raw_o quads;
       g \<leftarrow> encode_column code_map raw_g quads;
       Some \<lparr> codes_s = s, codes_p = p, codes_o = ob, codes_g = g \<rparr>
     }"

text \<open>A chunk of rows, and whether its subjects are stamped sorted.\<close>

definition build_code_chunk :: "quad_codes \<Rightarrow> nat \<times> nat \<Rightarrow> bool \<Rightarrow> (table \<times> bool) option" where
  "build_code_chunk codes rows s_sorted =
     do {
       arrays \<leftarrow> gather (\<lambda>column. map_option code_column (buf_slice (column codes) (fst rows) (snd rows)))
         [codes_s, codes_p, codes_o, codes_g];
       chunk \<leftarrow> named_struct (map column_name all_columns) arrays (snd rows - fst rows);
       Some (chunk, s_sorted)
     }"

section \<open>A build's parts\<close>

record built_array =
  ba_array :: table
  ba_sorted :: bool
  ba_components :: "index_component list"
  ba_dict :: "term_dictionary option"

fun components_loop ::
    "resolver \<Rightarrow> sorter \<Rightarrow> index_type list \<Rightarrow> index_input \<Rightarrow> index_type list \<Rightarrow> index_component list \<Rightarrow>
     index_component list option" where
  "components_loop rs us indexes input [] components = Some components"
| "components_loop rs us indexes input (index # types) components =
     (if index \<in> set indexes then
        do {
          children \<leftarrow> index_components rs us index input;
          components_loop rs us indexes input types (components @ children)
        }
      else components_loop rs us indexes input types components)"

definition build_components ::
    "resolver \<Rightarrow> sorter \<Rightarrow> index_type list \<Rightarrow> index_input \<Rightarrow> index_component list option" where
  "build_components rs us indexes input =
     do {
       (if indexes \<noteq> [] then ok (check_indexed_rows (input_rows input)) else Some ());
       components_loop rs us indexes input ALL_INDEX_TYPES []
     }"

fun string_layout_of :: "layout_strategy \<Rightarrow> string_layout" where
  "string_layout_of TypedObjectLayout = TypedObjectStrings"
| "string_layout_of layout = DefaultStrings"

text \<open>A chunk of any layout; one of the Dictionary layout is over no codes.\<close>

definition struct_array :: "'l oxrdf \<Rightarrow> raw_quad list \<Rightarrow> layout_strategy \<Rightarrow> bool \<Rightarrow> (table \<times> bool) option" where
  "struct_array ox quads layout s_sorted =
     (if layout = DictionaryLayout \<and> quads = [] then build_code_chunk no_codes (0, 0) s_sorted
      else if layout = DictionaryLayout then None
      else map_option (\<lambda>chunk. (chunk, s_sorted)) (ok (build_struct_array ox (string_layout_of layout) quads)))"

definition code_parts ::
    "resolver \<Rightarrow> sorter \<Rightarrow> index_type list \<Rightarrow> term_dictionary \<Rightarrow> quad_codes \<Rightarrow> built_array option" where
  "code_parts rs us indexes d codes =
     do {
       (chunk, stamped) \<leftarrow> build_code_chunk codes (0, length (codes_s codes)) True;
       components \<leftarrow> build_components rs us indexes (CodeInput codes);
       Some \<lparr> ba_array = chunk, ba_sorted = stamped, ba_components = components, ba_dict = Some d \<rparr>
     }"

definition build_parts_from_raws ::
    "resolver \<Rightarrow> sorter \<Rightarrow> 'l oxrdf \<Rightarrow> raw_quad list \<Rightarrow> layout_strategy \<Rightarrow> index_type list \<Rightarrow> built_array option" where
  "build_parts_from_raws rs us ox raws layout indexes =
     (case layout of
        DictionaryLayout \<Rightarrow>
          do {
            (d, code_map) \<leftarrow> from_quads_with_map raws;
            codes \<leftarrow> encode_quads raws code_map;
            (chunk, stamped) \<leftarrow> build_code_chunk codes (0, length raws) True;
            components \<leftarrow> build_components rs us indexes (CodeInput codes);
            Some \<lparr> ba_array = chunk, ba_sorted = stamped, ba_components = components, ba_dict = Some d \<rparr>
          }
      | _ \<Rightarrow>
          do {
            (chunk, stamped) \<leftarrow> struct_array ox raws layout True;
            components \<leftarrow> build_components rs us indexes (QuadInput raws);
            Some \<lparr> ba_array = chunk, ba_sorted = stamped, ba_components = components, ba_dict = None \<rparr>
          })"

section \<open>The interner\<close>

text \<open>The terms with their provisional codes, in the order they came; the quads as they came.\<close>

record interner =
  in_codes :: "(string \<times> nat) list"
  in_quads :: "nat list list"

definition interner_new :: interner where
  "interner_new = \<lparr> in_codes = [], in_quads = [] \<rparr>"

definition intern :: "string \<Rightarrow> interner \<Rightarrow> nat \<times> interner" where
  "intern t self =
     (case map_of (in_codes self) t of
        Some code \<Rightarrow> (code, self)
      | None \<Rightarrow>
          (let fresh = length (in_codes self)
           in (fresh, self\<lparr> in_codes := in_codes self @ [(t, fresh)] \<rparr>)))"

definition interner_push :: "interner \<Rightarrow> raw_quad \<Rightarrow> interner" where
  "interner_push self q =
     (let (s, self) = intern (raw_s q) self;
          (p, self) = intern (raw_p q) self;
          (ob, self) = intern (raw_o q) self;
          (g, self) = intern (raw_g q) self
      in self\<lparr> in_quads := in_quads self @ [[s, p, ob, g]] \<rparr>)"

fun interner_from_stream :: "raw_quad fallible list \<Rightarrow> interner \<Rightarrow> interner fallible" where
  "interner_from_stream [] self = Inr self"
| "interner_from_stream (Inl e # items) self = Inl e"
| "interner_from_stream (Inr q # items) self = interner_from_stream items (interner_push self q)"

text \<open>Provisional codes to ranks.\<close>

definition ranks_of :: "(string \<times> nat) list \<Rightarrow> nat list" where
  "ranks_of entries =
     foldl (\<lambda>ranks (rank, (t, provisional)). ranks[provisional := rank]) (replicate (length entries) 0)
       (enumerate 0 entries)"

definition interner_finish :: "interner \<Rightarrow> (term_dictionary \<times> quad_codes) option" where
  "interner_finish self =
     do {
       let entries = sort (in_codes self);
       let ranks = ranks_of entries;
       d \<leftarrow> from_sorted_column (map fst entries);
       quads \<leftarrow> gather (gather (\<lambda>code. map_option code_at (buf_get ranks code))) (in_quads self);
       Some (d, codes_of_rows (remdups_adj (sort quads)))
     }"

definition finish_interned :: "resolver \<Rightarrow> sorter \<Rightarrow> interner \<Rightarrow> index_type list \<Rightarrow> built_array option" where
  "finish_interned rs us self indexes =
     do {
       (d, codes) \<leftarrow> interner_finish self;
       code_parts rs us indexes d codes
     }"

text \<open>The sink quads are pushed to one at a time.\<close>

record dictionary_sink =
  ds_interner :: interner
  ds_indexes :: "index_type list"

definition sink_new :: "index_type list \<Rightarrow> dictionary_sink" where
  "sink_new indexes = \<lparr> ds_interner = interner_new, ds_indexes = indexes \<rparr>"

definition sink_push :: "dictionary_sink \<Rightarrow> raw_quad \<Rightarrow> dictionary_sink" where
  "sink_push self q = self\<lparr> ds_interner := interner_push (ds_interner self) q \<rparr>"

definition intern_spelled :: "'l oxrdf \<Rightarrow> 'l term_ref \<Rightarrow> interner \<Rightarrow> nat \<times> interner" where
  "intern_spelled ox t self = intern (write_nt ox t) self"

definition sink_push_quad :: "'l oxrdf \<Rightarrow> dictionary_sink \<Rightarrow> 'l rdf_quad \<Rightarrow> dictionary_sink" where
  "sink_push_quad ox self q =
     (let (s, interner) = intern_spelled ox (RefSubject (quad_subject q)) (ds_interner self);
          (p, interner) = intern_spelled ox (RefPredicate (quad_predicate q)) interner;
          (ob, interner) = intern_spelled ox (RefObject (quad_object q)) interner;
          (g, interner) = intern_spelled ox (RefGraph (quad_graph q)) interner
      in self\<lparr> ds_interner := interner\<lparr> in_quads := in_quads interner @ [[s, p, ob, g]] \<rparr> \<rparr>)"

definition sink_finish :: "resolver \<Rightarrow> sorter \<Rightarrow> dictionary_sink \<Rightarrow> built_array option" where
  "sink_finish rs us self = finish_interned rs us (ds_interner self) (ds_indexes self)"

section \<open>The builder in memory\<close>

fun ingest_loop :: "raw_quad fallible list \<Rightarrow> raw_quad list \<Rightarrow> raw_quad list fallible" where
  "ingest_loop [] quads = Inr quads"
| "ingest_loop (Inl e # items) quads = Inl e"
| "ingest_loop (Inr q # items) quads = ingest_loop items (quads @ [q])"

definition ingest_and_sort :: "raw_quad fallible list \<Rightarrow> raw_quad list fallible" where
  "ingest_and_sort items = map_ok (\<lambda>quads. remdups_adj (sort quads)) (ingest_loop items [])"

definition build_vortex_array ::
    "resolver \<Rightarrow> sorter \<Rightarrow> 'l oxrdf \<Rightarrow> raw_quad fallible list \<Rightarrow> layout_strategy \<Rightarrow> index_type list \<Rightarrow>
     built_array option" where
  "build_vortex_array rs us ox items layout indexes =
     (if layout = DictionaryLayout then
        do {
          self \<leftarrow> ok (interner_from_stream items interner_new);
          finish_interned rs us self indexes
        }
      else
        do {
          quads \<leftarrow> ok (ingest_and_sort items);
          build_parts_from_raws rs us ox quads layout indexes
        })"

section \<open>A rebuild from codes\<close>

text \<open>The ranks that codes name, marked; \<^term>\<open>None\<close> where a code names no term.\<close>

fun mark_codes :: "term_dictionary \<Rightarrow> nat list \<Rightarrow> mask \<Rightarrow> mask option" where
  "mark_codes d [] used = Some used"
| "mark_codes d (code # codes) used =
     do {
       rank \<leftarrow> rank_of d code;
       mark_codes d codes (used[rank := True])
     }"

fun mark_terms :: "term_dictionary \<Rightarrow> string list \<Rightarrow> mask \<Rightarrow> string list \<Rightarrow> mask \<times> string list" where
  "mark_terms d [] used fresh = (used, fresh)"
| "mark_terms d (t # terms) used fresh =
     (case Option.bind (encode_exact d t) (rank_of d) of
        Some rank \<Rightarrow> mark_terms d terms (used[rank := True]) fresh
      | None \<Rightarrow> mark_terms d terms used (fresh @ [t]))"

text \<open>The used terms merged with the fresh ones, and the new rank of each old one.\<close>

fun merge_terms ::
    "term_dictionary \<Rightarrow> nat list \<Rightarrow> string list \<Rightarrow> string list \<Rightarrow> nat list \<Rightarrow> (string list \<times> nat list) option" where
  "merge_terms d [] fresh terms ranks = Some (terms @ fresh, ranks)"
| "merge_terms d (rank # used) fresh terms ranks =
     do {
       t \<leftarrow> dict_decode d (code_at rank);
       let terms = terms @ takeWhile (\<lambda>u. u < t) fresh;
       merge_terms d used (dropWhile (\<lambda>u. u < t) fresh) (terms @ [t]) (ranks[rank := length terms])
     }"

definition recode :: "term_dictionary \<Rightarrow> nat list \<Rightarrow> nat \<Rightarrow> nat option" where
  "recode d ranks code =
     do {
       rank \<leftarrow> rank_of d code;
       rank' \<leftarrow> buf_get ranks rank;
       Some (code_at rank')
     }"

text \<open>A binary search of sorted terms for one of them.\<close>

definition code_of_term :: "string list \<Rightarrow> string \<Rightarrow> nat option" where
  "code_of_term terms t =
     map_option code_at (find_by 0 (length terms) (\<lambda>i. compare_bytes (terms ! i) t))"

definition rebuild_from_codes ::
    "resolver \<Rightarrow> sorter \<Rightarrow> term_dictionary \<Rightarrow> quad_codes \<Rightarrow> raw_quad list \<Rightarrow> index_type list \<Rightarrow> built_array option" where
  "rebuild_from_codes rs us d base tail indexes =
     do {
       used \<leftarrow> mark_codes d (codes_s base @ codes_p base @ codes_o base @ codes_g base)
         (replicate (dict_len d) False);
       let tail_terms = remdups_adj (sort (concat (map raw_terms tail)));
       let (used, fresh) = mark_terms d tail_terms used [];
       (terms, ranks) \<leftarrow> merge_terms d (filter (\<lambda>rank. used ! rank) [0..<dict_len d]) fresh []
         (replicate (dict_len d) usize_max);
       fresh_dict \<leftarrow> from_sorted_column terms;
       rows \<leftarrow> gather (gather (recode d ranks))
         (map (\<lambda>(s, p, ob, g). [s, p, ob, g])
           (zip (codes_s base) (zip (codes_p base) (zip (codes_o base) (codes_g base)))));
       tail_rows \<leftarrow> gather (\<lambda>q. gather (code_of_term terms) (raw_terms q)) tail;
       code_parts rs us indexes fresh_dict (codes_of_rows (remdups_adj (sort (rows @ tail_rows))))
     }"

end
