(* ===== verification/IngestRight.thy ===== *)
theory IngestRight
  imports Ingest
begin

section \<open>Codes under a dictionary\<close>

text \<open>A quad's codes, and what keeping the order means.\<close>

definition dict_code :: "term_dictionary \<Rightarrow> string \<Rightarrow> nat" where
  "dict_code d t = the (encode_exact d t)"

definition quad_row_codes :: "term_dictionary \<Rightarrow> raw_quad \<Rightarrow> nat list" where
  "quad_row_codes d q = map (dict_code d) (raw_terms q)"

definition has_terms :: "term_dictionary \<Rightarrow> raw_quad \<Rightarrow> bool" where
  "has_terms d q \<longleftrightarrow> set (raw_terms q) \<subseteq> set (dict_terms d)"

lemma dict_code_at:
  assumes "wf_dictionary d" "t \<in> set (dict_terms d)"
  shows "encode_exact d t = Some (dict_code d t)" "dict_code d t < dict_len d" "dict_terms d ! dict_code d t = t"
proof -
  obtain i where "i < dict_len d" "dict_terms d ! i = t"
    using assms(2) by (auto simp: in_set_conv_nth dict_len_def)
  then have "encode_exact d t = Some i" by (simp add: encode_exact_Some_iff [OF assms(1)])
  then show "encode_exact d t = Some (dict_code d t)" by (simp add: dict_code_def)
  then show "dict_code d t < dict_len d" "dict_terms d ! dict_code d t = t"
    by (simp_all add: encode_exact_Some_iff [OF assms(1)])
qed

lemma dict_code_of: "wf_dictionary d \<Longrightarrow> i < dict_len d \<Longrightarrow> dict_code d (dict_terms d ! i) = i"
  by (simp add: dict_code_def encode_exact_Some_iff [of d _ i, THEN iffD2])

lemma encode_exact_None: "wf_dictionary d \<Longrightarrow> encode_exact d t = None \<longleftrightarrow> t \<notin> set (dict_terms d)"
  using encode_exact_Some_iff [of d t] dict_code_at(1) [of d t]
  by (metis dict_len_def nth_mem option.distinct(1) option.exhaust)

lemma dict_code_less:
  assumes "wf_dictionary d" "t \<in> set (dict_terms d)" "u \<in> set (dict_terms d)"
  shows "dict_code d t < dict_code d u \<longleftrightarrow> t < u"
  using terms_less_iff [OF assms(1) dict_code_at(2) [OF assms(1,2)] dict_code_at(2) [OF assms(1,3)]]
    dict_code_at(3) [OF assms(1,2)] dict_code_at(3) [OF assms(1,3)] by simp

lemma dict_code_inj: "wf_dictionary d \<Longrightarrow> inj_on (dict_code d) (set (dict_terms d))"
  by (rule inj_onI) (metis dict_code_at(3))

lemma map_less_iff:
  fixes f :: "'a :: linorder \<Rightarrow> 'b :: linorder"
  assumes "\<And>x y. x \<in> A \<Longrightarrow> y \<in> A \<Longrightarrow> f x < f y \<longleftrightarrow> x < y"
  shows "set xs \<subseteq> A \<Longrightarrow> set ys \<subseteq> A \<Longrightarrow> map f xs < map f ys \<longleftrightarrow> xs < ys"
proof (induction xs arbitrary: ys)
  case Nil
  then show ?case by (cases ys) simp_all
next
  case (Cons x xs)
  have same: "f u = f v \<longleftrightarrow> u = v" if "u \<in> A" "v \<in> A" for u v
    using assms [OF that] assms [OF that(2,1)] by (metis less_irrefl linorder_neqE)
  show ?case using Cons same assms by (cases ys) auto
qed

lemma row_codes_less:
  assumes "wf_dictionary d" "has_terms d a" "has_terms d b"
  shows "quad_row_codes d a < quad_row_codes d b \<longleftrightarrow> a < b"
  using map_less_iff [of "set (dict_terms d)" "dict_code d"] dict_code_less [OF assms(1)] assms(2,3)
  by (simp add: quad_row_codes_def less_raw_quad_def has_terms_def)

lemma row_codes_inj: "wf_dictionary d \<Longrightarrow> inj_on (quad_row_codes d) {q. has_terms d q}"
  by (rule inj_onI) (metis linorder_neqE mem_Collect_eq order_less_irrefl row_codes_less)

text \<open>Sorting commutes with a map that keeps the order.\<close>

lemma sort_map_mono:
  fixes f :: "'a :: linorder \<Rightarrow> 'b :: linorder"
  assumes "\<And>x y. x \<in> set xs \<Longrightarrow> y \<in> set xs \<Longrightarrow> f x < f y \<longleftrightarrow> x < y"
  shows "sort (map f xs) = map f (sort xs)"
proof (rule properties_for_sort)
  show "mset (map f (sort xs)) = mset (map f xs)" by simp
  have "f x \<le> f y" if "x \<in> set xs" "y \<in> set xs" "x \<le> y" for x y
    using assms [OF that(2,1)] that(3) by (meson leD leI)
  then have "sorted_wrt (\<lambda>x y. f x \<le> f y) (sort xs)"
    by (intro sorted_wrt_mono_rel [OF _ sorted_sort, of _ "\<lambda>x y. f x \<le> f y"]) auto
  then show "sorted (map f (sort xs))" by (simp add: sorted_wrt_map)
qed

lemma remdups_adj_map_on:
  "inj_on f (set xs) \<Longrightarrow> remdups_adj (map f xs) = map f (remdups_adj xs)"
proof (induction xs rule: remdups_adj.induct)
  case (3 x y xs)
  then show ?case by (auto simp: inj_on_def)
qed auto

lemma sorted_rows:
  assumes "wf_dictionary d" "\<forall>q \<in> set quads. has_terms d q"
  shows "remdups_adj (sort (map (quad_row_codes d) quads)) = map (quad_row_codes d) (remdups_adj (sort quads))"
proof -
  have "sort (map (quad_row_codes d) quads) = map (quad_row_codes d) (sort quads)"
    using assms(2) row_codes_less [OF assms(1)] by (intro sort_map_mono) blast
  moreover have "inj_on (quad_row_codes d) (set (sort quads))"
    using row_codes_inj [OF assms(1)] assms(2) by (auto intro: inj_on_subset)
  ultimately show ?thesis by (simp add: remdups_adj_map_on)
qed

lemma ascending_remdups_adj: "sorted xs \<Longrightarrow> ascending (remdups_adj xs)"
proof (induction xs rule: remdups_adj.induct)
  case (3 x y xs)
  then show ?case by (cases "x = y") force+
qed simp_all

section \<open>Codes of quads\<close>

lemma push_codes_columns:
  "foldl push_codes codes rows =
    \<lparr> codes_s = codes_s codes @ map (\<lambda>r. r ! 0) rows, codes_p = codes_p codes @ map (\<lambda>r. r ! 1) rows,
       codes_o = codes_o codes @ map (\<lambda>r. r ! 2) rows, codes_g = codes_g codes @ map (\<lambda>r. r ! 3) rows \<rparr>"
  by (induction rows arbitrary: codes) (simp_all add: push_codes_def)

lemma codes_of_rows_columns:
  "codes_of_rows rows =
    \<lparr> codes_s = map (\<lambda>r. r ! 0) rows, codes_p = map (\<lambda>r. r ! 1) rows, codes_o = map (\<lambda>r. r ! 2) rows,
       codes_g = map (\<lambda>r. r ! 3) rows \<rparr>"
  by (simp add: codes_of_rows_def push_codes_columns no_codes_def)

lemma encode_quads_rows:
  assumes "wf_dictionary d" "\<forall>q \<in> set quads. has_terms d q"
  shows "encode_quads quads (encode_exact d) = Some (codes_of_rows (map (quad_row_codes d) quads))"
proof -
  have "encode_column (encode_exact d) field quads = Some (map (\<lambda>q. dict_code d (field q)) quads)"
    if "\<And>q. field q \<in> set (raw_terms q)" for field
    unfolding encode_column_def
    using assms(2) that by (intro gather_Some dict_code_at(1) [OF assms(1)]) (auto simp: has_terms_def)
  then show ?thesis
    by (simp add: encode_quads_def codes_of_rows_columns quad_row_codes_def raw_terms_def comp_def)
qed

section \<open>Dictionaries of quads\<close>

definition terms_of :: "raw_quad list \<Rightarrow> string set" where
  "terms_of quads = (\<Union>q \<in> set quads. set (raw_terms q))"

lemma sorted_terms:
  "ascending (sorted_unique_terms quads)" "set (sorted_unique_terms quads) = terms_of quads"
  by (auto simp: sorted_unique_terms_def terms_of_def strict_sorted_iff)

lemma from_sorted_column_Some:
  assumes "from_sorted_column terms = Some d" "ascending terms"
  shows "dict_terms d = terms" "wf_dictionary d"
  using assms by (auto simp: from_sorted_column_def wf_dictionary_def dict_len_def max_terms_def u64_max_def split: if_splits)

lemma frozen_map:
  assumes "wf_dictionary d"
  shows "map_of (map (\<lambda>(rank, t). (t, code_at rank)) (enumerate 0 (dict_terms d))) = encode_exact d"
proof
  fix t
  let ?m = "map (\<lambda>(rank, t). (t, code_at rank)) (enumerate 0 (dict_terms d))"
  have keys: "map fst ?m = dict_terms d" by (simp add: comp_def case_prod_unfold)
  have distinct: "distinct (map fst ?m)"
    unfolding keys using assms by (simp add: wf_dictionary_def ascending_distinct)
  show "map_of ?m t = encode_exact d t"
  proof (cases "t \<in> set (dict_terms d)")
    case True
    note at = dict_code_at [OF assms True]
    have "(dict_code d t, t) \<in> set (enumerate 0 (dict_terms d))"
      using at(2,3) by (simp add: in_set_enumerate_eq dict_len_def)
    then have "(t, dict_code d t) \<in> set ?m" by (force simp: code_at_def code_base_def)
    then show ?thesis using map_of_is_SomeI [OF distinct] at(1) by simp
  next
    case False
    then have "t \<notin> set (map fst ?m)" unfolding keys .
    then have "map_of ?m t = None" unfolding map_of_eq_None_iff set_map .
    moreover have "encode_exact d t = None" using encode_exact_None [OF assms] False by blast
    ultimately show ?thesis by simp
  qed
qed

lemma from_quads_with_map_eq:
  "from_quads_with_map quads =
    map_option (\<lambda>d. (d, encode_exact d)) (from_sorted_column (sorted_unique_terms quads))"
proof (cases "from_sorted_column (sorted_unique_terms quads)")
  case (Some d)
  note d = from_sorted_column_Some [OF Some sorted_terms(1)]
  show ?thesis using frozen_map [OF d(2)] Some by (simp add: from_quads_with_map_def freeze_def d(1))
qed (simp add: from_quads_with_map_def freeze_def)

text \<open>The parts of coded quads, whatever route coded them.\<close>

lemma coded_parts:
  assumes "raws = remdups_adj (sort quads)"
  shows "build_parts_from_raws rs us ox raws DictionaryLayout indexes =
    Option.bind (from_sorted_column (sorted_unique_terms quads))
      (\<lambda>d. code_parts rs us indexes d (codes_of_rows (remdups_adj (sort (map (quad_row_codes d) quads)))))"
proof -
  have same: "sorted_unique_terms raws = sorted_unique_terms quads"
    using sorted_terms assms by (intro ascending_unique) (simp_all add: terms_of_def)
  show ?thesis
  proof (cases "from_sorted_column (sorted_unique_terms quads)")
    case (Some d)
    note d = from_sorted_column_Some [OF Some sorted_terms(1)]
    have held: "\<forall>q \<in> set quads. has_terms d q" "\<forall>q \<in> set raws. has_terms d q"
      using sorted_terms(2) [of quads] assms by (auto simp: has_terms_def d(1) terms_of_def)
    have rows: "remdups_adj (sort (map (quad_row_codes d) quads)) = map (quad_row_codes d) raws"
      using sorted_rows [OF d(2) held(1)] assms by simp
    have "length (codes_s (codes_of_rows (map (quad_row_codes d) raws))) = length raws"
      by (simp add: codes_of_rows_columns)
    then show ?thesis
      using Some encode_quads_rows [OF d(2) held(2)]
      by (simp add: build_parts_from_raws_def from_quads_with_map_eq same code_parts_def rows)
  qed (simp add: build_parts_from_raws_def from_quads_with_map_eq same)
qed

section \<open>The interner\<close>

definition wf_codes :: "(string \<times> nat) list \<Rightarrow> bool" where
  "wf_codes cs \<longleftrightarrow> distinct (map fst cs) \<and> map snd cs = [0..<length cs]"

definition grown :: "interner \<Rightarrow> interner \<Rightarrow> string set \<Rightarrow> bool" where
  "grown self self' terms \<longleftrightarrow>
     wf_codes (in_codes self') \<and> set (map fst (in_codes self')) = set (map fst (in_codes self)) \<union> terms \<and>
     (\<forall>t c. map_of (in_codes self) t = Some c \<longrightarrow> map_of (in_codes self') t = Some c) \<and>
     in_quads self' = in_quads self"

lemma intern_grows:
  assumes "wf_codes (in_codes self)" "intern t self = (code, self')"
  shows "grown self self' {t}" "map_of (in_codes self') t = Some code"
proof -
  have "grown self self' {t} \<and> map_of (in_codes self') t = Some code"
  proof (cases "map_of (in_codes self) t")
    case None
    then have new: "t \<notin> set (map fst (in_codes self))" by (simp add: map_of_eq_None_iff)
    have self': "self' = self\<lparr> in_codes := in_codes self @ [(t, length (in_codes self))] \<rparr>" "code = length (in_codes self)"
      using assms(2) None by (auto simp: intern_def Let_def)
    have other: "map_of (in_codes self @ [(t, n)]) u = Some c" if "map_of (in_codes self) u = Some c" for n u c
      using that by simp
    have "map_of (in_codes self @ [(t, n)]) t = Some n" for n using None by (simp add: map_add_def)
    then show ?thesis using assms(1) new other by (auto simp: grown_def wf_codes_def self')
  next
    case (Some c)
    then have "t \<in> set (map fst (in_codes self))" using map_of_SomeD [OF Some] by force
    then show ?thesis using assms Some by (auto simp: intern_def grown_def)
  qed
  then show "grown self self' {t}" "map_of (in_codes self') t = Some code" by blast+
qed

lemma grown_trans: "grown a b T \<Longrightarrow> grown b c U \<Longrightarrow> grown a c (T \<union> U)"
  by (auto simp: grown_def)

definition provisional :: "interner \<Rightarrow> string \<Rightarrow> nat" where
  "provisional self t = the (map_of (in_codes self) t)"

definition interned :: "interner \<Rightarrow> raw_quad list \<Rightarrow> bool" where
  "interned self quads \<longleftrightarrow>
     wf_codes (in_codes self) \<and> set (map fst (in_codes self)) = terms_of quads \<and>
     in_quads self = map (\<lambda>q. map (provisional self) (raw_terms q)) quads"

lemma interned_new: "interned interner_new []"
  by (simp add: interned_def interner_new_def wf_codes_def terms_of_def)

lemma interned_push:
  assumes "interned self quads"
  shows "interned (interner_push self q) (quads @ [q])"
proof -
  obtain s self1 where one: "intern (raw_s q) self = (s, self1)" by fastforce
  obtain p self2 where two: "intern (raw_p q) self1 = (p, self2)" by fastforce
  obtain ob self3 where three: "intern (raw_o q) self2 = (ob, self3)" by fastforce
  obtain g self4 where four: "intern (raw_g q) self3 = (g, self4)" by fastforce
  have wf: "wf_codes (in_codes self)" using assms by (simp add: interned_def)
  note g1 = intern_grows [OF wf one]
  have wf1: "wf_codes (in_codes self1)" using g1(1) by (simp add: grown_def)
  note g2 = intern_grows [OF wf1 two]
  have wf2: "wf_codes (in_codes self2)" using g2(1) by (simp add: grown_def)
  note g3 = intern_grows [OF wf2 three]
  have wf3: "wf_codes (in_codes self3)" using g3(1) by (simp add: grown_def)
  note g4 = intern_grows [OF wf3 four]
  have all: "grown self self4 ({raw_s q} \<union> ({raw_p q} \<union> ({raw_o q} \<union> {raw_g q})))"
    using grown_trans [OF g1(1) grown_trans [OF g2(1) grown_trans [OF g3(1) g4(1)]]] .
  have codes: "map_of (in_codes self4) (raw_s q) = Some s" "map_of (in_codes self4) (raw_p q) = Some p"
      "map_of (in_codes self4) (raw_o q) = Some ob" "map_of (in_codes self4) (raw_g q) = Some g"
    using g1 g2 g3 g4 unfolding grown_def by metis+
  have push: "interner_push self q = self4\<lparr> in_quads := in_quads self4 @ [[s, p, ob, g]] \<rparr>"
    by (simp add: interner_push_def one two three four)
  have old: "provisional self4 t = provisional self t" if "t \<in> terms_of quads" for t
  proof -
    have "t \<in> set (map fst (in_codes self))" using assms that by (simp add: interned_def)
    then obtain c where "map_of (in_codes self) t = Some c" by (cases "map_of (in_codes self) t") (auto simp: map_of_eq_None_iff)
    then show ?thesis using all by (simp add: grown_def provisional_def)
  qed
  have "map (\<lambda>q. map (provisional self4) (raw_terms q)) quads = map (\<lambda>q. map (provisional self) (raw_terms q)) quads"
    using old by (auto simp: terms_of_def)
  moreover have "map (provisional self4) (raw_terms q) = [s, p, ob, g]"
    using codes by (simp add: raw_terms_def provisional_def)
  moreover have "provisional (self4\<lparr> in_quads := x \<rparr>) = provisional self4" for x
    by (simp add: provisional_def fun_eq_iff)
  ultimately show ?thesis
    using assms all by (auto simp: interned_def push grown_def terms_of_def raw_terms_def)
qed

lemma interned_stream:
  assumes "interned self quads"
  shows "case interner_from_stream items self of
      Inl e \<Rightarrow> ingest_loop items quads = Inl e
    | Inr self' \<Rightarrow> \<exists>quads'. ingest_loop items quads = Inr quads' \<and> interned self' quads'"
  using assms
proof (induction items self arbitrary: quads rule: interner_from_stream.induct)
  case (3 q items self)
  show ?case using 3(1) [OF interned_push [OF 3(2), of q]] by (simp only: interner_from_stream.simps ingest_loop.simps)
qed auto

text \<open>A provisional code's rank is the place of its term among the sorted terms.\<close>

lemma foldl_updates:
  assumes "distinct (map snd entries)" "\<forall>c \<in> set (map snd entries). c < length ranks"
  shows "length (foldl (\<lambda>ranks (rank, (t, c)). ranks[c := rank]) ranks (enumerate n entries)) = length ranks \<and>
    (\<forall>i < length entries.
      foldl (\<lambda>ranks (rank, (t, c)). ranks[c := rank]) ranks (enumerate n entries) ! snd (entries ! i) = n + i) \<and>
    (\<forall>c. c \<notin> set (map snd entries) \<longrightarrow>
      foldl (\<lambda>ranks (rank, (t, c)). ranks[c := rank]) ranks (enumerate n entries) ! c = ranks ! c)"
  using assms
proof (induction entries arbitrary: ranks n)
  case (Cons e entries)
  obtain t d where e: "e = (t, d)" by fastforce
  have rest: "distinct (map snd entries)" "\<forall>c \<in> set (map snd entries). c < length (ranks[d := n])" "d < length ranks"
      "d \<notin> set (map snd entries)"
    using Cons.prems by (simp_all add: e)
  define rs where "rs = foldl (\<lambda>ranks (rank, (t, c)). ranks[c := rank]) (ranks[d := n]) (enumerate (Suc n) entries)"
  have ih: "length rs = length ranks" "\<And>i. i < length entries \<Longrightarrow> rs ! snd (entries ! i) = Suc n + i"
      "\<And>c. c \<notin> set (map snd entries) \<Longrightarrow> rs ! c = ranks[d := n] ! c"
    using Cons.IH [OF rest(1,2), of "Suc n", folded rs_def] by simp_all
  have step: "foldl (\<lambda>ranks (rank, (t, c)). ranks[c := rank]) ranks (enumerate n (e # entries)) = rs"
    by (simp add: e rs_def)
  have "rs ! snd ((e # entries) ! i) = n + i" if "i < length (e # entries)" for i
    using that ih(2) [of "i - 1"] ih(3) [OF rest(4)] rest(3) by (cases i) (simp_all add: e)
  moreover have "rs ! c = ranks ! c" if "c \<notin> set (map snd (e # entries))" for c
    using that ih(3) [of c] by (simp add: e)
  ultimately show ?case unfolding step using ih(1) by blast
qed simp

lemma ranks_of_at:
  assumes "distinct (map snd entries)" "\<forall>c \<in> set (map snd entries). c < length entries"
  shows "length (ranks_of entries) = length entries"
    "i < length entries \<Longrightarrow> ranks_of entries ! snd (entries ! i) = i"
  using foldl_updates [of entries "replicate (length entries) 0" 0] assms by (simp_all add: ranks_of_def)

lemma sorted_entries:
  fixes cs :: "(string \<times> nat) list"
  assumes "distinct (map fst cs)"
  shows "ascending (map fst (sort cs))" "set (map fst (sort cs)) = set (map fst cs)"
proof -
  have "sorted (map fst (sort cs))"
    unfolding sorted_map by (rule sorted_wrt_mono_rel [OF _ sorted_sort]) (auto simp: less_eq_prod_def)
  moreover have "distinct (map fst (sort cs))"
    using assms by (metis distinct_map distinct_sort set_sort)
  ultimately show "ascending (map fst (sort cs))" by (simp add: strict_sorted_iff)
qed simp

lemma interner_finish_eq:
  assumes "interned self quads"
  shows "interner_finish self =
    map_option (\<lambda>d. (d, codes_of_rows (remdups_adj (sort (map (quad_row_codes d) quads)))))
      (from_sorted_column (sorted_unique_terms quads))"
proof -
  define entries where "entries = sort (in_codes self)"
  have wf: "distinct (map fst (in_codes self))" "map snd (in_codes self) = [0..<length (in_codes self)]"
    using assms by (simp_all add: interned_def wf_codes_def)
  have terms: "map fst entries = sorted_unique_terms quads"
    using sorted_entries [OF wf(1)] sorted_terms [of quads] assms
    by (intro ascending_unique) (simp_all only: entries_def interned_def)
  have codes: "mset (map snd entries) = mset [0..<length entries]"
    using wf(2) by (simp only: entries_def mset_map mset_sort length_sort) (metis mset_map)
  have distinct: "distinct (map snd entries)" using codes by (metis distinct_upt mset_eq_imp_distinct_iff)
  have small: "\<forall>c \<in> set (map snd entries). c < length entries"
    using mset_eq_setD [OF codes] by simp
  note ranks = ranks_of_at [OF distinct small]
  show ?thesis
  proof (cases "from_sorted_column (sorted_unique_terms quads)")
    case (Some d)
    note d = from_sorted_column_Some [OF Some sorted_terms(1)]
    have rank: "map_option code_at (buf_get (ranks_of entries) (provisional self t)) = Some (dict_code d t)"
      if "t \<in> terms_of quads" for t
    proof -
      have "t \<in> set (map fst (in_codes self))" using assms that by (simp add: interned_def)
      then obtain c where c: "map_of (in_codes self) t = Some c"
        by (cases "map_of (in_codes self) t") (auto simp: map_of_eq_None_iff)
      then have "(t, c) \<in> set entries" using map_of_SomeD [OF c] by (simp add: entries_def)
      then obtain i where i: "i < length entries" "entries ! i = (t, c)" by (meson in_set_conv_nth)
      have at: "dict_terms d ! i = t" using i terms d(1) by (metis fst_conv nth_map)
      have len: "dict_len d = length entries" using terms d(1) by (metis dict_len_def length_map)
      have "dict_code d t = i" using dict_code_of [OF d(2), of i] at len i(1) by simp
      moreover have "ranks_of entries ! c = i" using ranks(2) [OF i(1)] i(2) by simp
      moreover have "c < length entries" using small i by (metis nth_mem length_map nth_map snd_conv)
      ultimately show ?thesis
        by (simp add: provisional_def c buf_get_def ranks(1) code_at_def code_base_def)
    qed
    have "gather (gather (\<lambda>code. map_option code_at (buf_get (ranks_of entries) code))) (in_quads self) =
        Some (map (quad_row_codes d) quads)"
      using assms rank unfolding interned_def
      by (auto simp: gather_map quad_row_codes_def terms_of_def intro!: gather_Some) blast
    then show ?thesis using Some by (simp add: interner_finish_def entries_def [symmetric] terms)
  qed (simp add: interner_finish_def entries_def [symmetric] terms)
qed

section \<open>Every route builds the same parts\<close>

lemma finish_interned_eq:
  assumes "interned self quads"
  shows "finish_interned rs us self indexes =
    build_parts_from_raws rs us ox (remdups_adj (sort quads)) DictionaryLayout indexes"
  unfolding coded_parts [OF refl] finish_interned_def interner_finish_eq [OF assms]
  by (cases "from_sorted_column (sorted_unique_terms quads)") simp_all

lemma sink_pushes:
  "ds_interner (foldl sink_push self quads) = foldl interner_push (ds_interner self) quads \<and>
   ds_indexes (foldl sink_push self quads) = ds_indexes self"
  by (induction quads arbitrary: self) (simp_all add: sink_push_def)

lemma interned_pushes: "interned self quads \<Longrightarrow> interned (foldl interner_push self more_quads) (quads @ more_quads)"
proof (induction more_quads arbitrary: self quads)
  case (Cons q more_quads)
  show ?case using Cons.IH [OF interned_push [OF Cons.prems, of q]] by simp
qed simp

lemma sink_push_spelled: "sink_push_quad ox self q = sink_push self (from_quad ox q)"
  by (simp add: sink_push_quad_def sink_push_def interner_push_def from_quad_def intern_spelled_def Let_def
      case_prod_unfold)

lemma build_route:
  "build_vortex_array rs us ox items layout indexes =
     Option.bind (ok (ingest_and_sort items)) (\<lambda>quads. build_parts_from_raws rs us ox quads layout indexes)"
proof (cases "interner_from_stream items interner_new")
  case (Inl e)
  then have "ingest_loop items [] = Inl e" using interned_stream [OF interned_new, of items] by simp
  then show ?thesis using Inl by (simp add: build_vortex_array_def ingest_and_sort_def map_ok_def Resolve.ok_def)
next
  case (Inr self)
  then obtain raws where "ingest_loop items [] = Inr raws" "interned self raws"
    using interned_stream [OF interned_new, of items] by auto
  then show ?thesis
    using Inr finish_interned_eq [of self raws rs us indexes ox]
    by (simp add: build_vortex_array_def ingest_and_sort_def map_ok_def Resolve.ok_def)
qed

text \<open>C4. Every route of a build gives the parts that come of sorting the quads, dropping the repeated ones
  and coding them: a stream of any layout, the interned one of the Dictionary layout among them, with the
  stream's error its own; and the sink quads are pushed to one at a time, spelled or parsed.\<close>

theorem builds_agree:
  "build_vortex_array rs us ox items layout indexes =
     Option.bind (ok (ingest_and_sort items)) (\<lambda>quads. build_parts_from_raws rs us ox quads layout indexes) \<and>
   sink_finish rs us (foldl sink_push (sink_new indexes) quads) =
     build_parts_from_raws rs us ox (remdups_adj (sort quads)) DictionaryLayout indexes \<and>
   foldl (sink_push_quad ox) (sink_new indexes) rdf = foldl sink_push (sink_new indexes) (map (from_quad ox) rdf)"
proof (intro conjI)
  show "build_vortex_array rs us ox items layout indexes =
     Option.bind (ok (ingest_and_sort items)) (\<lambda>quads. build_parts_from_raws rs us ox quads layout indexes)"
    by (rule build_route)
  have "interned (ds_interner (foldl sink_push (sink_new indexes) quads)) quads"
    using interned_pushes [OF interned_new, of quads] sink_pushes [of "sink_new indexes" quads]
    by (simp add: sink_new_def)
  then show "sink_finish rs us (foldl sink_push (sink_new indexes) quads) =
     build_parts_from_raws rs us ox (remdups_adj (sort quads)) DictionaryLayout indexes"
    using finish_interned_eq sink_pushes [of "sink_new indexes" quads]
    by (simp add: sink_finish_def sink_new_def)
  show "foldl (sink_push_quad ox) (sink_new indexes) rdf = foldl sink_push (sink_new indexes) (map (from_quad ox) rdf)"
    by (simp add: foldl_map sink_push_spelled [abs_def])
qed

section \<open>A rebuild from codes\<close>

lemma rank_of_Some: "rank_of d code = (if code < dict_len d then Some code else None)"
  by (simp add: rank_of_def code_rank_def code_base_def)

lemma mark_codes_eq:
  assumes "length used = dict_len d"
  shows "mark_codes d codes used =
    (if \<forall>code \<in> set codes. code < dict_len d
     then Some (map (\<lambda>i. used ! i \<or> i \<in> set codes) [0..<dict_len d]) else None)"
  using assms
proof (induction codes arbitrary: used)
  case Nil
  then show ?case by (auto simp: map_nth intro: nth_equalityI)
next
  case (Cons code codes)
  show ?case
  proof (cases "code < dict_len d")
    case True
    have "mark_codes d (code # codes) used = mark_codes d codes (used[code := True])"
      using True by (simp add: rank_of_Some)
    also have "\<dots> = (if \<forall>code \<in> set codes. code < dict_len d
        then Some (map (\<lambda>i. used[code := True] ! i \<or> i \<in> set codes) [0..<dict_len d]) else None)"
      using Cons.prems by (intro Cons.IH) simp
    also have "map (\<lambda>i. used[code := True] ! i \<or> i \<in> set codes) [0..<dict_len d] =
        map (\<lambda>i. used ! i \<or> i \<in> set (code # codes)) [0..<dict_len d]"
      using True Cons.prems by (auto simp: nth_list_update)
    finally show ?thesis using True by simp
  qed (simp add: rank_of_Some)
qed

lemma mark_terms_eq:
  assumes "wf_dictionary d" "length used = dict_len d"
  shows "mark_terms d terms used fresh =
    (map (\<lambda>i. used ! i \<or> dict_terms d ! i \<in> set terms) [0..<dict_len d],
     fresh @ filter (\<lambda>t. t \<notin> set (dict_terms d)) terms)"
  using assms(2)
proof (induction terms arbitrary: used fresh)
  case Nil
  then show ?case by (auto simp: map_nth intro: nth_equalityI)
next
  case (Cons t terms)
  show ?case
  proof (cases "t \<in> set (dict_terms d)")
    case True
    note code = dict_code_at [OF assms(1) True]
    have "mark_terms d (t # terms) used fresh = mark_terms d terms (used[dict_code d t := True]) fresh"
      using code by (simp add: rank_of_Some)
    also have "\<dots> = (map (\<lambda>i. used[dict_code d t := True] ! i \<or> dict_terms d ! i \<in> set terms) [0..<dict_len d],
        fresh @ filter (\<lambda>t. t \<notin> set (dict_terms d)) terms)"
      using Cons.prems by (intro Cons.IH) simp
    also have "map (\<lambda>i. used[dict_code d t := True] ! i \<or> dict_terms d ! i \<in> set terms) [0..<dict_len d] =
        map (\<lambda>i. used ! i \<or> dict_terms d ! i \<in> set (t # terms)) [0..<dict_len d]"
      using code Cons.prems dict_code_of [OF assms(1)] by (auto simp: nth_list_update)
    finally show ?thesis using True by simp
  next
    case False
    then have none: "encode_exact d t = None" using encode_exact_None [OF assms(1)] by simp
    have "dict_terms d ! i \<noteq> t" if "i < dict_len d" for i
      using False that by (auto simp: dict_len_def)
    then show ?thesis using False none Cons.IH [OF Cons.prems] by (auto)
  qed
qed

lemma merge_terms_eq:
  assumes "wf_dictionary d" "ascending used" "\<forall>r \<in> set used. r < dict_len d" "ascending fresh"
    "\<forall>t \<in> set fresh. t \<notin> set (dict_terms d)" "length ranks = dict_len d"
  shows "\<exists>merged ranks'. merge_terms d used fresh terms ranks = Some (terms @ merged, ranks') \<and>
    ascending merged \<and> set merged = (\<lambda>r. dict_terms d ! r) ` set used \<union> set fresh \<and>
    length ranks' = dict_len d \<and>
    (\<forall>r \<in> set used. ranks' ! r < length (terms @ merged) \<and> (terms @ merged) ! (ranks' ! r) = dict_terms d ! r) \<and>
    (\<forall>r. r \<notin> set used \<longrightarrow> ranks' ! r = ranks ! r)"
  using assms(2-)
proof (induction used arbitrary: fresh terms ranks)
  case (Cons rank used)
  define t where "t = dict_terms d ! rank"
  let ?low = "takeWhile (\<lambda>u. u < t) fresh" and ?high = "dropWhile (\<lambda>u. u < t) fresh"
  have rank: "rank < dict_len d" using Cons.prems(2) by simp
  have split: "fresh = ?low @ ?high" by simp
  have high: "ascending ?high" "\<forall>u \<in> set ?high. u \<notin> set (dict_terms d)" "set ?high \<subseteq> set fresh"
    using Cons.prems(3,4) sorted_wrt_append [of "(<)" ?low ?high] by (auto dest: set_dropWhileD)
  have above: "t < u" if "u \<in> set ?high" for u
  proof -
    have "t \<notin> set fresh" using Cons.prems(4) rank by (auto simp: t_def dict_len_def)
    then have "t \<noteq> u" using that high(3) by blast
    moreover have "t \<le> u"
    proof (cases ?high)
      case (Cons v vs)
      have "\<not> v < t" using hd_dropWhile [of "\<lambda>u. u < t" fresh] Cons by simp
      moreover have "v \<le> u" using that high(1) unfolding Cons by auto
      ultimately show ?thesis by simp
    qed (use that in \<open>simp only: list.set empty_iff\<close>)
    ultimately show ?thesis by simp
  qed
  obtain merged ranks' where ih:
      "merge_terms d used ?high ((terms @ ?low) @ [t]) (ranks[rank := length (terms @ ?low)]) =
        Some (((terms @ ?low) @ [t]) @ merged, ranks')"
      "ascending merged" "set merged = (\<lambda>r. dict_terms d ! r) ` set used \<union> set ?high" "length ranks' = dict_len d"
      "\<forall>r \<in> set used. ranks' ! r < length (((terms @ ?low) @ [t]) @ merged) \<and>
        (((terms @ ?low) @ [t]) @ merged) ! (ranks' ! r) = dict_terms d ! r"
      "\<forall>r. r \<notin> set used \<longrightarrow> ranks' ! r = ranks[rank := length (terms @ ?low)] ! r"
    using Cons.IH [of ?high "ranks[rank := length (terms @ ?low)]" "(terms @ ?low) @ [t]"] Cons.prems high by auto
  have later: "t < dict_terms d ! r" if "r \<in> set used" for r
    using Cons.prems(1,2) that by (auto simp: t_def intro!: terms_less [OF assms(1)])
  have low: "\<forall>u \<in> set ?low. u < t" by (auto dest: set_takeWhileD)
  have rest: "\<forall>u \<in> set merged. t < u" using ih(3) later above by auto
  have asc_low: "ascending ?low" using Cons.prems(3) sorted_wrt_append [of "(<)" ?low ?high] by simp
  have run: "merge_terms d (rank # used) fresh terms ranks = Some (terms @ (?low @ t # merged), ranks')"
    using ih(1) rank by (simp add: dict_decode_def rank_of_Some code_at_def code_base_def t_def Let_def)
  have "ascending (?low @ t # merged)"
    using asc_low low rest ih(2) by (auto simp: sorted_wrt_append dest: less_trans)
  moreover have "set (?low @ t # merged) = (\<lambda>r. dict_terms d ! r) ` set (rank # used) \<union> set fresh"
  proof -
    have "set fresh = set ?low \<union> set ?high" by (metis set_append takeWhile_dropWhile_id)
    then show ?thesis using ih(3) by (auto simp: t_def)
  qed
  moreover have "ranks' ! rank = length (terms @ ?low)"
    using ih(6) Cons.prems(1,5) rank by (metis less_irrefl nth_list_update_eq sorted_wrt.simps(2))
  then have "\<forall>r \<in> set (rank # used). ranks' ! r < length (terms @ (?low @ t # merged)) \<and>
      (terms @ (?low @ t # merged)) ! (ranks' ! r) = dict_terms d ! r"
    using ih(5) by (auto simp: nth_append t_def)
  moreover have "\<forall>r. r \<notin> set (rank # used) \<longrightarrow> ranks' ! r = ranks ! r" using ih(6) by simp
  ultimately show ?case using run ih(4) by blast
qed simp

text \<open>The base rows a rebuild starts from, decoded.\<close>

definition base_rows :: "quad_codes \<Rightarrow> (nat \<times> nat \<times> nat \<times> nat) list" where
  "base_rows base = zip (codes_s base) (zip (codes_p base) (zip (codes_o base) (codes_g base)))"

definition decode_row :: "term_dictionary \<Rightarrow> nat \<times> nat \<times> nat \<times> nat \<Rightarrow> raw_quad option" where
  "decode_row d row =
     (case row of (s, p, ob, g) \<Rightarrow>
        do {
          s \<leftarrow> dict_decode d s;
          p \<leftarrow> dict_decode d p;
          ob \<leftarrow> dict_decode d ob;
          g \<leftarrow> dict_decode d g;
          Some (RawQuad s p ob g)
        })"

definition even_codes :: "quad_codes \<Rightarrow> bool" where
  "even_codes base \<longleftrightarrow> length (codes_p base) = length (codes_s base) \<and>
     length (codes_o base) = length (codes_s base) \<and> length (codes_g base) = length (codes_s base)"

definition row_list :: "nat \<times> nat \<times> nat \<times> nat \<Rightarrow> nat list" where
  "row_list row = (case row of (s, p, ob, g) \<Rightarrow> [s, p, ob, g])"

lemma base_codes:
  assumes "even_codes base"
  shows "set (codes_s base @ codes_p base @ codes_o base @ codes_g base) = (\<Union>row \<in> set (base_rows base). set (row_list row))"
proof -
  have col: "map fst (base_rows base) = codes_s base" "map (fst \<circ> snd) (base_rows base) = codes_p base"
      "map (fst \<circ> snd \<circ> snd) (base_rows base) = codes_o base" "map (snd \<circ> snd \<circ> snd) (base_rows base) = codes_g base"
    using assms by (simp_all add: base_rows_def even_codes_def map_fst_zip map_snd_zip flip: map_map)
  show ?thesis
    unfolding col [symmetric] set_append by (auto simp: row_list_def image_iff) force+
qed

lemma decode_row_Some:
  assumes "\<forall>code \<in> set (row_list row). code < dict_len d"
  shows "\<exists>q. decode_row d row = Some q \<and> raw_terms q = map (\<lambda>code. dict_terms d ! code) (row_list row)"
  using assms by (cases row) (auto simp: decode_row_def row_list_def dict_decode_def rank_of_Some raw_terms_def)

lemma decode_row_None:
  "\<not> (\<forall>code \<in> set (row_list row). code < dict_len d) \<Longrightarrow> decode_row d row = None"
  by (cases row) (auto simp: decode_row_def row_list_def dict_decode_def rank_of_Some bind_eq_None_conv)

lemma rebuilt_terms:
  assumes "wf_dictionary d" "\<forall>code \<in> set codes. code < dict_len d"
    "set terms = (\<lambda>r. dict_terms d ! r) ` set used \<union> set (filter (\<lambda>t. t \<notin> set (dict_terms d)) tail_terms)"
    "\<And>r. r \<in> set used \<longleftrightarrow> r < dict_len d \<and> (r \<in> set codes \<or> dict_terms d ! r \<in> set tail_terms)"
  shows "set terms = (\<lambda>r. dict_terms d ! r) ` set codes \<union> set tail_terms"
proof (intro set_eqI iffI)
  fix t assume "t \<in> set terms"
  then show "t \<in> (\<lambda>r. dict_terms d ! r) ` set codes \<union> set tail_terms"
    unfolding assms(3) using assms(4) by auto
next
  fix t assume t: "t \<in> (\<lambda>r. dict_terms d ! r) ` set codes \<union> set tail_terms"
  show "t \<in> set terms"
  proof (cases "t \<in> set (dict_terms d)")
    case True
    then obtain i where i: "i < dict_len d" "t = dict_terms d ! i" by (auto simp: in_set_conv_nth dict_len_def)
    have "i \<in> set codes \<or> t \<in> set tail_terms"
      using t i assms(2) dict_code_of [OF assms(1)] by (auto simp: image_iff) metis
    then have "i \<in> set used" using i assms(4) by simp
    then show ?thesis using i(2) unfolding assms(3) by blast
  next
    case False
    moreover have "t \<notin> (\<lambda>r. dict_terms d ! r) ` set codes" using False assms(2) by (auto simp: dict_len_def)
    ultimately show ?thesis using t unfolding assms(3) by simp
  qed
qed

text \<open>Up to the fresh dictionary, a rebuild computes its terms and the new rank of each old term in use.\<close>

lemma rebuild_run:
  assumes "wf_dictionary d" "codes = codes_s base @ codes_p base @ codes_o base @ codes_g base"
    "\<forall>code \<in> set codes. code < dict_len d"
  shows "\<exists>terms ranks. rebuild_from_codes rs us d base tail indexes =
      Option.bind (from_sorted_column terms) (\<lambda>fresh_dict.
        Option.bind (gather (gather (recode d ranks)) (map row_list (base_rows base))) (\<lambda>rows.
        Option.bind (gather (\<lambda>q. gather (code_of_term terms) (raw_terms q)) tail) (\<lambda>tail_rows.
          code_parts rs us indexes fresh_dict (codes_of_rows (remdups_adj (sort (rows @ tail_rows))))))) \<and>
    ascending terms \<and> set terms = (\<lambda>r. dict_terms d ! r) ` set codes \<union> terms_of tail \<and>
    length ranks = dict_len d \<and>
    (\<forall>r \<in> set codes. ranks ! r < length terms \<and> terms ! (ranks ! r) = dict_terms d ! r)"
proof -
  define tail_terms where "tail_terms = remdups_adj (sort (concat (map raw_terms tail)))"
  have tail: "ascending tail_terms" "terms_of tail = set tail_terms"
    by (simp_all add: tail_terms_def terms_of_def ascending_remdups_adj)
  define held where "held = map (\<lambda>i. i \<in> set codes \<or> dict_terms d ! i \<in> set tail_terms) [0..<dict_len d]"
  define fresh where "fresh = filter (\<lambda>t. t \<notin> set (dict_terms d)) tail_terms"
  define used where "used = filter (\<lambda>rank. held ! rank) [0..<dict_len d]"
  have marked: "mark_codes d codes (replicate (dict_len d) False) = Some (map (\<lambda>i. i \<in> set codes) [0..<dict_len d])"
    using assms(3) by (simp add: mark_codes_eq)
  have marked_terms: "mark_terms d tail_terms (map (\<lambda>i. i \<in> set codes) [0..<dict_len d]) [] = (held, fresh)"
    by (simp add: mark_terms_eq [OF assms(1)] held_def fresh_def)
  have used: "ascending used" "\<forall>r \<in> set used. r < dict_len d"
      "\<And>r. r \<in> set used \<longleftrightarrow> r < dict_len d \<and> (r \<in> set codes \<or> dict_terms d ! r \<in> set tail_terms)"
    by (auto simp: used_def held_def intro: ascending_filter)
  have fresh: "ascending fresh" "\<forall>t \<in> set fresh. t \<notin> set (dict_terms d)" "length (replicate (dict_len d) usize_max) = dict_len d"
    using tail(1) by (auto simp: fresh_def intro: ascending_filter)
  obtain terms ranks where merge:
      "merge_terms d used fresh [] (replicate (dict_len d) usize_max) = Some (terms, ranks)"
      "ascending terms" "set terms = (\<lambda>r. dict_terms d ! r) ` set used \<union> set fresh" "length ranks = dict_len d"
      "\<forall>r \<in> set used. ranks ! r < length terms \<and> terms ! (ranks ! r) = dict_terms d ! r"
    using merge_terms_eq [OF assms(1) used(1,2) fresh, of "[]"] by auto
  have "rebuild_from_codes rs us d base tail indexes =
    Option.bind (from_sorted_column terms) (\<lambda>fresh_dict.
      Option.bind (gather (gather (recode d ranks)) (map row_list (base_rows base))) (\<lambda>rows.
      Option.bind (gather (\<lambda>q. gather (code_of_term terms) (raw_terms q)) tail) (\<lambda>tail_rows.
        code_parts rs us indexes fresh_dict (codes_of_rows (remdups_adj (sort (rows @ tail_rows)))))))"
    unfolding rebuild_from_codes_def Let_def assms(2) [symmetric] marked Option.bind_lunit
      tail_terms_def [symmetric] marked_terms prod.case used_def [symmetric] merge(1) base_rows_def [symmetric]
      row_list_def [abs_def, symmetric] ..
  moreover have "set codes \<subseteq> set used" using assms(3) used(3) by auto
  ultimately show ?thesis
    using merge(2,4,5) rebuilt_terms [OF assms(1,3) merge(3) [unfolded fresh_def] used(3)]
    by (intro exI [of _ terms] exI [of _ ranks]) (auto simp: tail(2))
qed

text \<open>Under the fresh dictionary both the base's codes and the tail's terms get their terms' codes.\<close>

lemma recoded:
  assumes "wf_dictionary d'" "ranks ! code < dict_len d'" "dict_terms d' ! (ranks ! code) = dict_terms d ! code"
    "code < dict_len d" "length ranks = dict_len d"
  shows "recode d ranks code = Some (dict_code d' (dict_terms d ! code))"
  using dict_code_of [OF assms(1,2)] assms(3-)
  by (simp add: recode_def rank_of_Some buf_get_def code_at_def code_base_def)

lemma recoded_tail:
  assumes "wf_dictionary d'" "\<forall>q \<in> set tail. has_terms d' q"
  shows "gather (\<lambda>q. gather (code_of_term (dict_terms d')) (raw_terms q)) tail = Some (map (quad_row_codes d') tail)"
proof -
  have "code_of_term (dict_terms d') t = Some (dict_code d' t)" if "t \<in> set (dict_terms d')" for t
    using dict_code_at(1) [OF assms(1) that] by (simp add: code_of_term_def encode_exact_def dict_len_def)
  then show ?thesis
    using assms(2) by (intro gather_Some) (auto simp: quad_row_codes_def has_terms_def intro!: gather_Some)
qed

lemma decoded_rows:
  assumes "\<forall>row \<in> set (base_rows base). \<forall>code \<in> set (row_list row). code < dict_len d"
  shows "\<exists>quads. gather (decode_row d) (base_rows base) = Some quads \<and>
    map raw_terms quads = map (\<lambda>row. map (\<lambda>code. dict_terms d ! code) (row_list row)) (base_rows base)"
proof -
  have decoded: "decode_row d row = Some (the (decode_row d row))"
      "raw_terms (the (decode_row d row)) = map (\<lambda>code. dict_terms d ! code) (row_list row)"
    if "row \<in> set (base_rows base)" for row
    using decode_row_Some [OF bspec [OF assms that]] by auto
  have "gather (decode_row d) (base_rows base) = Some (map (\<lambda>row. the (decode_row d row)) (base_rows base))"
    by (rule gather_Some) (rule decoded(1))
  then show ?thesis using decoded(2) by simp
qed

lemma undecoded_rows:
  assumes "even_codes base" "\<not> (\<forall>row \<in> set (base_rows base). \<forall>code \<in> set (row_list row). code < dict_len d)"
  shows "gather (decode_row d) (base_rows base) = None" "rebuild_from_codes rs us d base tail indexes = None"
proof -
  show "gather (decode_row d) (base_rows base) = None"
    unfolding gather_None_iff using decode_row_None assms(2) by blast
  have "\<not> (\<forall>code \<in> set (codes_s base @ codes_p base @ codes_o base @ codes_g base). code < dict_len d)"
    unfolding base_codes [OF assms(1)] using assms(2) by blast
  then show "rebuild_from_codes rs us d base tail indexes = None"
    by (simp only: rebuild_from_codes_def mark_codes_eq [OF length_replicate] if_False Option.bind_lzero)
qed

text \<open>C5. A rebuild from codes gives the parts a build gives of the base's quads decoded and the tail's, sorted
  together and each kept once; a base code that names no term is its error.\<close>

theorem rebuild_builds:
  assumes "wf_dictionary d" "even_codes base"
  shows "rebuild_from_codes rs us d base tail indexes =
    Option.bind (gather (decode_row d) (base_rows base)) (\<lambda>quads.
      build_parts_from_raws rs us ox (remdups_adj (sort (quads @ tail))) DictionaryLayout indexes)"
proof (cases "\<forall>row \<in> set (base_rows base). \<forall>code \<in> set (row_list row). code < dict_len d")
  case True
  define codes where "codes = codes_s base @ codes_p base @ codes_o base @ codes_g base"
  have codes: "set codes = (\<Union>row \<in> set (base_rows base). set (row_list row))"
    unfolding codes_def by (rule base_codes [OF assms(2)])
  have small: "\<forall>code \<in> set codes. code < dict_len d" using True by (auto simp: codes)
  obtain quads where quads: "gather (decode_row d) (base_rows base) = Some quads"
      "map raw_terms quads = map (\<lambda>row. map (\<lambda>code. dict_terms d ! code) (row_list row)) (base_rows base)"
    using decoded_rows [OF True] by blast
  have "terms_of quads = (\<Union>ts \<in> set (map raw_terms quads). set ts)" by (simp add: terms_of_def)
  then have terms_of: "terms_of (quads @ tail) = (\<lambda>r. dict_terms d ! r) ` set codes \<union> terms_of tail"
    unfolding quads(2) codes by (auto simp: terms_of_def)
  obtain terms ranks where run: "rebuild_from_codes rs us d base tail indexes =
      Option.bind (from_sorted_column terms) (\<lambda>fresh_dict.
        Option.bind (gather (gather (recode d ranks)) (map row_list (base_rows base))) (\<lambda>rows.
        Option.bind (gather (\<lambda>q. gather (code_of_term terms) (raw_terms q)) tail) (\<lambda>tail_rows.
          code_parts rs us indexes fresh_dict (codes_of_rows (remdups_adj (sort (rows @ tail_rows)))))))"
      "ascending terms" "set terms = (\<lambda>r. dict_terms d ! r) ` set codes \<union> terms_of tail" "length ranks = dict_len d"
      "\<forall>r \<in> set codes. ranks ! r < length terms \<and> terms ! (ranks ! r) = dict_terms d ! r"
    using rebuild_run [OF assms(1) codes_def small] by blast
  have same: "terms = sorted_unique_terms (quads @ tail)"
    using sorted_terms run(2,3) terms_of by (intro ascending_unique) simp_all
  show ?thesis
  proof (cases "from_sorted_column terms")
    case None
    then show ?thesis
      unfolding run(1) quads(1) Option.bind_lunit coded_parts [OF refl] same [symmetric] by simp
  next
    case (Some d')
    note d' = from_sorted_column_Some [OF Some run(2)]
    have "gather (recode d ranks) (row_list row) = Some (map (\<lambda>code. dict_code d' (dict_terms d ! code)) (row_list row))"
      if "row \<in> set (base_rows base)" for row
      using that run(4,5) small codes
      by (intro gather_Some recoded [OF d'(2)]) (auto simp: d'(1) dict_len_def)
    then have "gather (gather (recode d ranks)) (map row_list (base_rows base)) =
        Some (map (\<lambda>ts. map (dict_code d') ts) (map raw_terms quads))"
      unfolding quads(2) by (auto simp: gather_map intro!: gather_Some)
    moreover have "\<forall>q \<in> set tail. has_terms d' q" using run(3) by (auto simp: has_terms_def d'(1) terms_of_def)
    ultimately show ?thesis
      unfolding run(1) quads(1) Option.bind_lunit coded_parts [OF refl] same [symmetric] Some
      using recoded_tail [OF d'(2), of tail]
      by (simp add: d'(1) quad_row_codes_def [abs_def] comp_def)
  qed
next
  case False
  show ?thesis by (simp add: undecoded_rows [OF assms(2) False])
qed

theorem rebuild_builds_witness:
  "\<forall>(rs :: resolver) (us :: sorter) (ox :: nat oxrdf).
    rebuild_from_codes rs us sample_dictionary
      \<lparr> codes_s = [3, 1], codes_p = [2, 2], codes_o = [1, 2], codes_g = [0, 0] \<rparr>
      [RawQuad ''_:x'' ''<a:c>'' ''<a:d>'' []] [] =
    build_parts_from_raws rs us ox
      [RawQuad ''<a:b>'' ''<a:c>'' ''<a:c>'' [], RawQuad ''_:x'' ''<a:c>'' ''<a:b>'' [],
       RawQuad ''_:x'' ''<a:c>'' ''<a:d>'' []] DictionaryLayout []"
proof (intro allI)
  fix rs :: resolver and us :: sorter and ox :: "nat oxrdf"
  let ?base = "\<lparr> codes_s = [3, 1], codes_p = [2, 2], codes_o = [1, 2], codes_g = [0, 0] \<rparr>"
  have wf: "wf_dictionary sample_dictionary"
    by (simp add: wf_dictionary_def sample_dictionary_def dict_len_def u64_max_def)
  have even: "even_codes ?base" by (simp add: even_codes_def)
  have decoded: "gather (decode_row sample_dictionary) (base_rows ?base) =
      Some [RawQuad ''_:x'' ''<a:c>'' ''<a:b>'' [], RawQuad ''<a:b>'' ''<a:c>'' ''<a:c>'' []]"
    by (simp add: base_rows_def decode_row_def dict_decode_def rank_of_Some sample_dictionary_def dict_len_def)
  have merged: "remdups_adj (sort ([RawQuad ''_:x'' ''<a:c>'' ''<a:b>'' [], RawQuad ''<a:b>'' ''<a:c>'' ''<a:c>'' []]
        @ [RawQuad ''_:x'' ''<a:c>'' ''<a:d>'' []])) =
      [RawQuad ''<a:b>'' ''<a:c>'' ''<a:c>'' [], RawQuad ''_:x'' ''<a:c>'' ''<a:b>'' [],
       RawQuad ''_:x'' ''<a:c>'' ''<a:d>'' []]"
    by (simp add: less_eq_raw_quad_def less_raw_quad_def raw_terms_def)
  show "rebuild_from_codes rs us sample_dictionary ?base [RawQuad ''_:x'' ''<a:c>'' ''<a:d>'' []] [] =
    build_parts_from_raws rs us ox
      [RawQuad ''<a:b>'' ''<a:c>'' ''<a:c>'' [], RawQuad ''_:x'' ''<a:c>'' ''<a:b>'' [],
       RawQuad ''_:x'' ''<a:c>'' ''<a:d>'' []] DictionaryLayout []"
    by (simp only: rebuild_builds [OF wf even, where ox = ox] decoded merged Option.bind_lunit)
qed

end
