(* ===== verification/Construct.thy ===== *)
theory Construct
  imports Ingest Views
begin

text \<open>
  The construction of a store from a build's parts (\<open>src/core/src/store/construct.rs\<close>): its integer
  columns compressed with the zone maps taken in the same pass (\<open>resident.rs\<close>), the layout its rows
  resolve to, its index children and probes. The array library's encodings are parameters. A column of
  a build in memory is one array. \<^term>\<open>None\<close> is an error.
\<close>

section \<open>The compressed form of integer columns\<close>

record encoder =
  en_constant :: "nat \<Rightarrow> nat \<Rightarrow> column"
  en_run_end :: "nat list \<Rightarrow> column option"
  en_packed :: "nat list \<Rightarrow> nat \<Rightarrow> column option"

fun bit_len :: "nat \<Rightarrow> nat" where
  "bit_len n = (if n = 0 then 0 else Suc (bit_len (n div 2)))"

declare bit_len.simps [simp del]

definition bit_width :: "nat \<Rightarrow> nat" where
  "bit_width n = max (bit_len n) 1"

text \<open>The bounds of a part of the column, the number of runs so far and the value of the last.\<close>

definition part_step :: "nat \<Rightarrow> nat \<times> nat \<times> nat \<times> nat \<Rightarrow> nat \<times> nat \<times> nat \<times> nat" where
  "part_step v acc =
     (case acc of (lo, hi, runs, prev) \<Rightarrow>
        (if v < lo then v else lo, if hi < v then v else hi, if v \<noteq> prev then runs + 1 else runs,
         if v \<noteq> prev then v else prev))"

text \<open>The pass over a column, part by part up to the end of the zone being filled. The source's loop does
  not end where a builder has no room left.\<close>

partial_function (option) compress_pass ::
    "zone_builder \<Rightarrow> nat list \<Rightarrow> nat \<Rightarrow> nat \<Rightarrow> nat \<Rightarrow> nat \<Rightarrow> (zone_builder \<times> nat \<times> nat \<times> nat) option" where
  "compress_pass zones rest mn mx runs prev =
     (if rest = [] then Some (zones, mn, mx, runs)
      else
        let k = min (room zones) (length rest);
            part = take k rest;
            (lo, hi, runs, prev) = fold part_step part (u64_max, 0, runs, prev)
        in compress_pass (builder_push zones part lo hi) (drop k rest) (min mn lo) (max mx hi) runs prev)"

definition compress_int_column ::
    "encoder \<Rightarrow> column \<Rightarrow> nat list \<Rightarrow> bool \<Rightarrow> zone_builder \<Rightarrow> (column \<times> zone_builder) option" where
  "compress_int_column en prim xs ordered zones =
     (if xs = [] then Some (prim, zones)
      else do {
        (zones, mn, mx, runs) \<leftarrow> compress_pass zones xs u64_max 0 1 (hd xs);
        encoded \<leftarrow>
          (if mn = mx then Some (en_constant en mn (length xs))
           else if ordered \<and> runs * 4 \<le> length xs then en_run_end en xs
           else if 64 \<le> bit_width mx then Some prim
           else en_packed en xs (bit_width mx));
        Some (encoded, zones)
      })"

text \<open>\<^term>\<open>Some (None, zones)\<close> leaves a column alone.\<close>

definition compress_int_child ::
    "encoder \<Rightarrow> column \<Rightarrow> bool \<Rightarrow> zone_builder \<Rightarrow> (column option \<times> zone_builder) option" where
  "compress_int_child en child ordered zones =
     (if col_nullable child \<or> \<not> is_unsigned_int (col_type child) then Some (None, zones)
      else (case col_encoding child of
          PrimitiveEncoding xs \<Rightarrow>
            if col_type child \<noteq> UInt 8 then Some (None, zones)
            else map_option (\<lambda>(encoded, zones). (Some encoded, zones)) (compress_int_column en child xs ordered zones)
        | _ \<Rightarrow> Some (None, zones)))"

datatype code_table = BaseTable | ComponentTable

definition zoned :: "code_table \<Rightarrow> nat \<Rightarrow> bool" where
  "zoned self slot \<longleftrightarrow> self = BaseTable \<or> slot = 3"

definition shared :: "code_table \<Rightarrow> bool" where
  "shared self \<longleftrightarrow> self = BaseTable"

fun is_primitive :: "encoding \<Rightarrow> bool" where
  "is_primitive (PrimitiveEncoding xs) = True"
| "is_primitive e = False"

text \<open>A wrapper that decodes its source on first use, and keeps the decoded column.\<close>

definition shared_column :: "column \<Rightarrow> column" where
  "shared_column col = col\<lparr> col_encoding := SharedEncoding (List.map_filter unsigned_value (col_cells col)) False \<rparr>"

definition zones_set :: "quad_zones \<Rightarrow> nat \<Rightarrow> column_zones \<Rightarrow> quad_zones" where
  "zones_set zones slot zs = zones[slot := Some zs]"

definition compress_child ::
    "encoder \<Rightarrow> code_table \<Rightarrow> (string \<Rightarrow> bool) \<Rightarrow> string \<Rightarrow> column \<Rightarrow> quad_zones \<Rightarrow> (column option \<times> quad_zones) option" where
  "compress_child en t stamped name child zones =
     (let slot = (case primary_slot name of Some slot \<Rightarrow> if zoned t slot then Some slot else None | None \<Rightarrow> None);
          zones_of = (if slot = Some 3 then builder_recording else builder_new)
      in do {
        (encoded, zones_of) \<leftarrow> compress_int_child en child (stamped name) zones_of;
        (case encoded of
           None \<Rightarrow> Some (None, zones)
         | Some encoded \<Rightarrow>
             do {
               zones \<leftarrow> (case slot of
                   None \<Rightarrow> Some zones
                 | Some slot \<Rightarrow>
                     (case builder_finish zones_of (length (col_cells child)) of
                        Inl e \<Rightarrow> None
                      | Inr None \<Rightarrow> Some zones
                      | Inr (Some column) \<Rightarrow> Some (zones_set zones slot column)));
               Some (Some (if shared t \<and> \<not> is_primitive (col_encoding encoded) then shared_column encoded else encoded), zones)
             })
      })"

text \<open>\<open>map_struct_children\<close>: each child replaced, or kept.\<close>

fun compress_children ::
    "encoder \<Rightarrow> code_table \<Rightarrow> (string \<Rightarrow> bool) \<Rightarrow> (string \<times> column) list \<Rightarrow> quad_zones \<Rightarrow>
     ((string \<times> column) list \<times> quad_zones) option" where
  "compress_children en t stamped [] zones = Some ([], zones)"
| "compress_children en t stamped ((name, child) # children) zones =
     do {
       (replacement, zones) \<leftarrow> compress_child en t stamped name child zones;
       (children, zones) \<leftarrow> compress_children en t stamped children zones;
       Some ((name, case replacement of Some col \<Rightarrow> col | None \<Rightarrow> child) # children, zones)
     }"

definition no_zones :: quad_zones where
  "no_zones = replicate 4 None"

definition with_compressed_int_children ::
    "encoder \<Rightarrow> code_table \<Rightarrow> (string \<Rightarrow> bool) \<Rightarrow> table \<Rightarrow> (table \<times> quad_zones) option" where
  "with_compressed_int_children en t stamped rows =
     map_option (\<lambda>(columns, zones). (rows\<lparr> tb_columns := columns \<rparr>, zones))
       (compress_children en t stamped (tb_columns rows) no_zones)"

section \<open>Stores from parts\<close>

definition from_dtype :: "table \<Rightarrow> layout_strategy" where
  "from_dtype rows =
     (if (case map_of (tb_columns rows) ''s'' of Some col \<Rightarrow> col_type col = UInt 8 | None \<Rightarrow> False)
      then DictionaryLayout
      else if ''o_kind'' \<in> set (map fst (tb_columns rows)) then TypedObjectLayout
      else DefaultLayout)"

definition store_layout :: "dict_access option \<Rightarrow> table \<Rightarrow> resolved_layout option" where
  "store_layout dict rows =
     (case dict of
        Some access \<Rightarrow> Some (ResolvedDictionary access)
      | None \<Rightarrow>
          (case from_dtype rows of
             TypedObjectLayout \<Rightarrow> Some ResolvedTypedObject
           | DictionaryLayout \<Rightarrow> None
           | DefaultLayout \<Rightarrow> Some ResolvedDefault))"

text \<open>A build stamps the lead column of each child, and the subjects of sorted rows.\<close>

definition lead_stamp :: "component_identity \<Rightarrow> string \<Rightarrow> bool" where
  "lead_stamp identity name \<longleftrightarrow> map fst (take 1 (child_keys (ci_name identity))) = [name]"

definition subject_stamp :: "bool \<Rightarrow> string \<Rightarrow> bool" where
  "subject_stamp ordered name \<longleftrightarrow> ordered \<and> name = ''s''"

definition component_compressor :: "encoder \<Rightarrow> component_identity \<Rightarrow> compressor" where
  "component_compressor en identity rows =
     map_option (\<lambda>(rows, zones). (rows, zones_get zones 3))
       (with_compressed_int_children en ComponentTable (lead_stamp identity) rows)"

text \<open>The store over parts already in their resident form; \<open>generation\<close> is the next one.\<close>

definition assemble_resident ::
    "resolver \<Rightarrow> nat \<Rightarrow> table \<Rightarrow> bool \<Rightarrow> index_component list \<Rightarrow> resolved_layout \<Rightarrow> quad_zones \<Rightarrow> 'l store" where
  "assemble_resident rs generation base ordered components layout zones =
     \<lparr> st_quads = source_new
          \<lparr> mem_table = fresh_probes rs base, mem_zones = covering zones (tb_len base),
             rb_components = components, rb_sorted = ordered, rb_serve = None \<rparr>,
        st_layout = layout, st_indexes = indexes_from_components components,
        st_generation = generation, st_tail = None \<rparr>"

definition adopt ::
    "resolver \<Rightarrow> nat \<Rightarrow> built_array \<Rightarrow> (table \<Rightarrow> (table \<times> quad_zones) option) \<Rightarrow>
     (index_component \<Rightarrow> index_component option) \<Rightarrow> 'l store option" where
  "adopt rs generation made encode_base encode_component =
     do {
       layout \<leftarrow> store_layout (map_option Resident (ba_dict made)) (ba_array made);
       (base, zones) \<leftarrow> encode_base (ba_array made);
       components \<leftarrow> gather encode_component (ba_components made);
       Some (assemble_resident rs generation base (ba_sorted made) components layout zones)
     }"

definition from_built :: "resolver \<Rightarrow> encoder \<Rightarrow> nat \<Rightarrow> built_array \<Rightarrow> 'l store option" where
  "from_built rs en generation made =
     adopt rs generation made
       (with_compressed_int_children en BaseTable (subject_stamp (ba_sorted made)))
       (\<lambda>part. into_compressed rs (component_compressor en (ic_identity part)) part)"

text \<open>The empty store.\<close>

definition store_empty :: "resolver \<Rightarrow> 'l oxrdf \<Rightarrow> nat \<Rightarrow> 'l store option" where
  "store_empty rs ox generation =
     map_option (\<lambda>(base, stamped). assemble_resident rs generation base stamped [] ResolvedDefault no_zones)
       (struct_array ox [] DefaultLayout False)"

end
