(* ===== verification/ConstructRight.thy ===== *)
theory ConstructRight
  imports Construct IngestRight
begin

section \<open>The pass over a column\<close>

definition encodes :: "'k kernels_scheme \<Rightarrow> nat list \<Rightarrow> column \<Rightarrow> bool" where
  "encodes fl xs col \<longleftrightarrow>
     col_type col = UInt 8 \<and> \<not> col_nullable col \<and> col_cells col = map CodeScalar xs \<and>
     col_encoding col = OtherEncoding \<and> (\<forall>pr. col_probe col = Some pr \<longrightarrow> probe_for fl pr col)"

text \<open>What is documented of the array library's encodings: each holds the values it is made of, and a
  bit-packed one can be made where its width holds them.\<close>

definition lawful_encoder :: "'k kernels_scheme \<Rightarrow> encoder \<Rightarrow> bool" where
  "lawful_encoder fl en \<longleftrightarrow>
     (\<forall>x n. encodes fl (replicate n x) (en_constant en x n)) \<and>
     (\<forall>xs. list_all (\<lambda>x. x \<le> u64_max) xs \<longrightarrow> (\<exists>col. en_run_end en xs = Some col \<and> encodes fl xs col)) \<and>
     (\<forall>xs w. w < 64 \<longrightarrow> list_all (\<lambda>x. x < 2 ^ w) xs \<longrightarrow> (\<exists>col. en_packed en xs w = Some col \<and> encodes fl xs col))"

lemma bit_len_bound: "n < 2 ^ bit_len n"
proof (induction n rule: bit_len.induct)
  case (1 n)
  show ?case
  proof (cases "n = 0")
    case False
    then have "n div 2 < 2 ^ bit_len (n div 2)" using 1 by simp
    then have "n < 2 * 2 ^ bit_len (n div 2)" by linarith
    then show ?thesis using False by (simp add: bit_len.simps [of n])
  qed (simp add: bit_len.simps)
qed

lemma bit_width_bound: "x \<le> n \<Longrightarrow> x < 2 ^ bit_width n"
proof -
  assume "x \<le> n"
  also have "n < 2 ^ bit_len n" by (rule bit_len_bound)
  also have "(2 :: nat) ^ bit_len n \<le> 2 ^ bit_width n" by (simp add: bit_width_def)
  finally show ?thesis .
qed

lemma fold_part_step:
  "fold part_step part (lo, hi, runs, prev) =
    (fold min part lo, fold max part hi, snd (snd (fold part_step part (lo, hi, runs, prev))))"
proof (induction part arbitrary: lo hi runs prev)
  case (Cons v part)
  have step: "part_step v (lo, hi, runs, prev) =
      (min v lo, max v hi, if v \<noteq> prev then runs + 1 else runs, if v \<noteq> prev then v else prev)"
    by (simp add: part_step_def min_def max_def)
  show ?case unfolding fold.simps comp_def step by (subst Cons.IH) simp
qed simp

lemma fold_min_Min: "part \<noteq> [] \<Longrightarrow> fold min part (lo :: nat) = min lo (Min (set part))"
  by (induction part arbitrary: lo rule: list_nonempty_induct) (auto simp: min.commute min.left_commute)

lemma fold_max_Max: "part \<noteq> [] \<Longrightarrow> fold max part (hi :: nat) = max hi (Max (set part))"
  by (induction part arbitrary: hi rule: list_nonempty_induct) (auto simp: max.commute max.left_commute)

lemma compress_pass_built:
  assumes "Zones.built r zb codes" "\<forall>c \<in> set codes \<union> set rest. c \<le> u64_max"
  shows "\<exists>zb' runs'. compress_pass zb rest mn mx runs prev = Some (zb', fold min rest mn, fold max rest mx, runs') \<and>
    Zones.built r zb' (codes @ rest)"
  using assms
proof (induction "length rest" arbitrary: rest zb codes mn mx runs prev rule: less_induct)
  case less
  show ?case
  proof (cases "rest = []")
    case True
    then show ?thesis using less.prems by (simp add: compress_pass.simps)
  next
    case False
    have "zb_filled zb < ZONE_ROWS" using less.prems(1) by (simp add: built_def)
    then have room: "0 < room zb" by (simp add: room_def)
    define k where "k = min (room zb) (length rest)"
    have k: "0 < k" "k \<le> room zb" "k \<le> length rest" using room False by (simp_all add: k_def)
    let ?part = "take k rest"
    have part: "?part \<noteq> []" "length ?part \<le> room zb" using k False by auto
    have bounded: "\<forall>c \<in> set ?part. c \<le> u64_max" using less.prems(2) by (auto dest: in_set_takeD)
    obtain runs' prev' where fold: "fold part_step ?part (u64_max, 0, runs, prev) =
        (fold min ?part u64_max, fold max ?part 0, runs', prev')"
      using fold_part_step [of ?part u64_max 0 runs prev] by (metis prod.collapse)
    have "Min (set ?part) \<le> u64_max" using bounded part(1) Min_in [of "set ?part"] by auto
    then have ends: "fold min ?part u64_max = Min (set ?part)" "fold max ?part 0 = Max (set ?part)"
      using fold_min_Min [OF part(1)] fold_max_Max [OF part(1)] by simp_all
    let ?zb = "builder_push zb ?part (Min (set ?part)) (Max (set ?part))"
    have next_zb: "Zones.built r ?zb (codes @ ?part)"
      using less.prems bounded by (intro builder_push_built part) auto
    have run: "compress_pass zb rest mn mx runs prev =
        compress_pass ?zb (drop k rest) (min mn (Min (set ?part))) (max mx (Max (set ?part))) runs' prev'"
      by (subst compress_pass.simps) (simp add: False k_def [symmetric] fold ends Let_def)
    have "length (drop k rest) < length rest" using k False by simp
    moreover have "\<forall>c \<in> set (codes @ ?part) \<union> set (drop k rest). c \<le> u64_max"
      using less.prems(2) by (auto dest: in_set_takeD in_set_dropD)
    ultimately obtain zb' runs'' where rest:
        "compress_pass ?zb (drop k rest) (min mn (Min (set ?part))) (max mx (Max (set ?part))) runs' prev' =
          Some (zb', fold min (drop k rest) (min mn (Min (set ?part))), fold max (drop k rest) (max mx (Max (set ?part))), runs'')"
        "Zones.built r zb' ((codes @ ?part) @ drop k rest)"
      using less.hyps [OF _ next_zb] by blast
    have "fold min rest mn = fold min (drop k rest) (fold min ?part mn)"
        "fold max rest mx = fold max (drop k rest) (fold max ?part mx)"
      by (metis append_take_drop_id comp_apply fold_append)+
    then show ?thesis
      using run rest fold_min_Min [OF part(1)] fold_max_Max [OF part(1)] by simp
  qed
qed

section \<open>A column compressed\<close>

lemma compress_int_column_encodes:
  assumes en: "lawful_encoder fl en" and col: "col_type col = UInt 8" "\<not> col_nullable col" "wf_column fl n col"
      "col_encoding col = PrimitiveEncoding xs"
    and xs: "\<forall>x \<in> set xs. x \<le> u64_max" and zb: "Zones.built r zb []"
  shows "\<exists>col' zb'. compress_int_column en col xs ordered zb = Some (col', zb') \<and> same_cells col col' \<and>
    wf_column fl n col' \<and> Zones.built r zb' xs"
proof (cases "xs = []")
  case True
  then show ?thesis using col zb by (simp add: compress_int_column_def same_cells_def)
next
  case False
  have cells: "col_cells col = map CodeScalar xs" "length xs = n"
    using col by (simp_all add: wf_column_def) (metis length_map)
  obtain zb' runs where pass: "compress_pass zb xs u64_max 0 1 (hd xs) = Some (zb', fold min xs u64_max, fold max xs 0, runs)"
      "Zones.built r zb' xs"
    using compress_pass_built [OF zb, of xs u64_max 0 1 "hd xs"] xs by auto
  have "Min (set xs) \<le> u64_max" using xs False Min_in [of "set xs"] by auto
  then have ends: "fold min xs u64_max = Min (set xs)" "fold max xs 0 = Max (set xs)"
    using fold_min_Min [OF False] fold_max_Max [OF False] by simp_all
  have enc: "same_cells col col' \<and> wf_column fl n col'" if "encodes fl xs col'" for col'
    using that cells col(1,2) by (simp add: encodes_def same_cells_def wf_column_def)
  have alone: "same_cells col col \<and> wf_column fl n col" using col(3) by (simp add: same_cells_def)
  let ?encoded = "if Min (set xs) = Max (set xs) then Some (en_constant en (Min (set xs)) (length xs))
    else if ordered \<and> runs * 4 \<le> length xs then en_run_end en xs
    else if 64 \<le> bit_width (Max (set xs)) then Some col else en_packed en xs (bit_width (Max (set xs)))"
  have "\<exists>col'. ?encoded = Some col' \<and> same_cells col col' \<and> wf_column fl n col'"
  proof (cases "Min (set xs) = Max (set xs)")
    case True
    have "x = Min (set xs)" if "x \<in> set xs" for x
      using that True by (metis List.finite_set Max_ge Min_le le_antisym)
    then have "xs = replicate (length xs) (Min (set xs))" by (metis replicate_eqI)
    then have "encodes fl xs (en_constant en (Min (set xs)) (length xs))"
      using en unfolding lawful_encoder_def by metis
    then show ?thesis using True enc by simp
  next
    case False
    have "list_all (\<lambda>x. x < 2 ^ bit_width (Max (set xs))) xs" by (auto simp: list_all_iff intro: bit_width_bound)
    then have "\<exists>col'. en_packed en xs (bit_width (Max (set xs))) = Some col' \<and> encodes fl xs col'"
      if "bit_width (Max (set xs)) < 64"
      using en that unfolding lawful_encoder_def by blast
    moreover have "\<exists>col'. en_run_end en xs = Some col' \<and> encodes fl xs col'"
      using en xs unfolding lawful_encoder_def by (simp add: list_all_iff)
    ultimately show ?thesis using False enc alone by fastforce
  qed
  then show ?thesis using False pass ends by (auto simp: compress_int_column_def)
qed

section \<open>A table compressed\<close>

text \<open>A column that a build makes: of no nulls, its codes those of its encoding; and a zone map found.\<close>

definition plain_column :: "'k kernels_scheme \<Rightarrow> nat \<Rightarrow> column \<Rightarrow> bool" where
  "plain_column fl n col \<longleftrightarrow> wf_column fl n col \<and> list_all (fits (col_type col)) (col_cells col)"

definition found_for :: "(string \<times> column) list \<Rightarrow> nat \<Rightarrow> column_zones \<Rightarrow> bool" where
  "found_for columns slot zs \<longleftrightarrow>
     (\<exists>name col codes. (name, col) \<in> set columns \<and> primary_slot name = Some slot \<and> col_type col = UInt 8 \<and>
        col_cells col = map CodeScalar codes \<and> describes zs codes \<and> whole_bounds zs codes)"

lemma primary_slot_less: "primary_slot name = Some slot \<Longrightarrow> slot < 4"
  by (auto simp: primary_slot_def split: if_splits)

lemma codes_of_cells: "list_all (fits (UInt w)) cells \<Longrightarrow> cells = map CodeScalar (List.map_filter unsigned_value cells)"
proof (induction cells)
  case (Cons s cells)
  then show ?case by (cases s) (simp_all add: map_filter_simps)
qed (simp add: map_filter_simps)

lemma shared_column_cells:
  assumes "same_cells col col'" "wf_column fl n col'" "list_all (fits (UInt 8)) (col_cells col)"
  shows "same_cells col (shared_column col')" "wf_column fl n (shared_column col')"
proof -
  show "same_cells col (shared_column col')" using assms(1) by (simp add: same_cells_def shared_column_def)
  have "col_cells col' = map CodeScalar (List.map_filter unsigned_value (col_cells col'))"
    using codes_of_cells assms(1,3) by (simp add: same_cells_def)
  then show "wf_column fl n (shared_column col')"
    using assms(2) by (simp add: wf_column_def shared_column_def probe_for_def)
qed

lemma finish_column:
  assumes "Zones.built r zb codes" "\<forall>c \<in> set codes. c \<le> u64_max"
  shows "builder_finish zb (length codes) = Inr None \<or>
    (\<exists>zs. builder_finish zb (length codes) = Inr (Some zs) \<and> describes zs codes \<and> whole_bounds zs codes)"
proof (cases "codes = []")
  case False
  show ?thesis using finish_built [OF assms(1) False assms(2)] by (auto simp: whole_bounds_def)
qed (simp add: builder_finish_def)

lemma compress_child_column:
  assumes en: "lawful_encoder fl en" and child: "plain_column fl n child" and zones: "length zones = 4"
  shows "\<exists>replacement zones'. compress_child en t stamped name child zones = Some (replacement, zones') \<and>
    length zones' = 4 \<and>
    (let col = (case replacement of Some col \<Rightarrow> col | None \<Rightarrow> child) in same_cells child col \<and> wf_column fl n col) \<and>
    (\<forall>slot zs. zones_get zones' slot = Some zs \<longrightarrow> zones_get zones slot = Some zs \<or> found_for [(name, child)] slot zs)"
proof -
  have wf: "wf_column fl n child" using child by (simp add: plain_column_def)
  define slot where "slot = (case primary_slot name of Some slot \<Rightarrow> if zoned t slot then Some slot else None | None \<Rightarrow> None)"
  define zb where "zb = (if slot = Some 3 then builder_recording else builder_new)"
  have zb: "Zones.built (slot = Some 3) zb []" by (simp add: zb_def built_new built_recording)
  have same: "same_cells child child" by (simp add: same_cells_def)
  show ?thesis
  proof (cases "\<exists>xs. \<not> col_nullable child \<and> col_type child = UInt 8 \<and> col_encoding child = PrimitiveEncoding xs")
    case False
    then have "compress_int_child en child (stamped name) zb = Some (None, zb)"
      by (auto simp: compress_int_child_def split: encoding.split)
    then have "compress_child en t stamped name child zones = Some (None, zones)"
      by (simp add: compress_child_def slot_def [symmetric] zb_def [symmetric] Let_def)
    then show ?thesis using wf same zones by simp
  next
    case True
    then obtain xs where col: "\<not> col_nullable child" "col_type child = UInt 8" "col_encoding child = PrimitiveEncoding xs" by blast
    have cells: "col_cells child = map CodeScalar xs" using wf col by (simp add: wf_column_def)
    have xs: "\<forall>x \<in> set xs. x \<le> u64_max"
      using child col(2) by (auto simp: plain_column_def cells list_all_iff u64_max_def)
    obtain col' zb' where encoded: "compress_int_column en child xs (stamped name) zb = Some (col', zb')"
        "same_cells child col'" "wf_column fl n col'" "Zones.built (slot = Some 3) zb' xs"
      using compress_int_column_encodes [OF en col(2,1) wf col(3) xs zb] by blast
    let ?col = "if shared t \<and> \<not> is_primitive (col_encoding col') then shared_column col' else col'"
    have good: "same_cells child ?col" "wf_column fl n ?col"
      using encoded(2,3) shared_column_cells [OF encoded(2,3)] child col(2) by (auto simp: plain_column_def)
    have len: "length (col_cells child) = length xs" by (simp add: cells)
    have "compress_child en t stamped name child zones =
        Option.bind (case slot of
            None \<Rightarrow> Some zones
          | Some slot \<Rightarrow>
              (case builder_finish zb' (length (col_cells child)) of
                 Inl e \<Rightarrow> None
               | Inr None \<Rightarrow> Some zones
               | Inr (Some column) \<Rightarrow> Some (zones_set zones slot column)))
          (\<lambda>zones. Some (Some ?col, zones))"
      using encoded(1) col
      by (simp add: compress_child_def compress_int_child_def slot_def [symmetric] zb_def [symmetric] Let_def)
    note run = this [unfolded len]
    consider (kept) "compress_child en t stamped name child zones = Some (Some ?col, zones)"
      | (found) k zs where "primary_slot name = Some k" "describes zs xs" "whole_bounds zs xs"
          "compress_child en t stamped name child zones = Some (Some ?col, zones_set zones k zs)"
    proof (cases slot)
      case None
      then show ?thesis using run that(1) by simp
    next
      case (Some k)
      then have "primary_slot name = Some k" by (auto simp: slot_def split: option.splits if_splits)
      then show ?thesis using run that Some finish_column [OF encoded(4) xs] by auto
    qed
    then show ?thesis
    proof cases
      case kept
      then show ?thesis using good zones by simp
    next
      case found
      have "zones_get (zones_set zones k zs) i = Some z \<Longrightarrow> zones_get zones i = Some z \<or> i = k \<and> z = zs" for i z
        using zones primary_slot_less [OF found(1)]
        by (auto simp: zones_get_def zones_set_def buf_get_def nth_list_update split: if_splits option.splits)
      then show ?thesis
        using found good zones col(2) cells by (fastforce simp: found_for_def zones_set_def)
    qed
  qed
qed

lemma compress_children_columns:
  assumes en: "lawful_encoder fl en"
  shows "\<forall>(name, col) \<in> set columns. plain_column fl n col \<Longrightarrow> length zones = 4 \<Longrightarrow>
    \<exists>columns' zones'. compress_children en t stamped columns zones = Some (columns', zones') \<and> length zones' = 4 \<and>
      list_all2 (\<lambda>(name, col) (name', col'). name = name' \<and> same_cells col col' \<and> wf_column fl n col') columns columns' \<and>
      (\<forall>slot zs. zones_get zones' slot = Some zs \<longrightarrow> zones_get zones slot = Some zs \<or> found_for columns slot zs)"
proof (induction columns arbitrary: zones)
  case (Cons named columns)
  obtain name child where named: "named = (name, child)" by fastforce
  obtain replacement zones1 where one: "compress_child en t stamped name child zones = Some (replacement, zones1)"
      "length zones1 = 4"
      "same_cells child (case replacement of Some col \<Rightarrow> col | None \<Rightarrow> child)"
      "wf_column fl n (case replacement of Some col \<Rightarrow> col | None \<Rightarrow> child)"
      "\<forall>slot zs. zones_get zones1 slot = Some zs \<longrightarrow> zones_get zones slot = Some zs \<or> found_for [(name, child)] slot zs"
    using compress_child_column [OF en, of n child zones t stamped name] Cons.prems named by (auto simp: Let_def)
  obtain columns' zones' where rest: "compress_children en t stamped columns zones1 = Some (columns', zones')"
      "length zones' = 4"
      "list_all2 (\<lambda>(name, col) (name', col'). name = name' \<and> same_cells col col' \<and> wf_column fl n col') columns columns'"
      "\<forall>slot zs. zones_get zones' slot = Some zs \<longrightarrow> zones_get zones1 slot = Some zs \<or> found_for columns slot zs"
    using Cons.IH [OF _ one(2)] Cons.prems(1) by auto
  have wider: "found_for [(name, child)] slot zs \<or> found_for columns slot zs \<Longrightarrow> found_for (named # columns) slot zs" for slot zs
    by (auto simp: found_for_def named)
  have "compress_children en t stamped (named # columns) zones =
      Some ((name, case replacement of Some col \<Rightarrow> col | None \<Rightarrow> child) # columns', zones')"
    using one(1) rest(1) by (simp add: named)
  then show ?case using one(3-5) rest(2-4) wider named by (auto simp: list_all2_Cons1) blast
qed simp

lemma compressed_table:
  assumes en: "lawful_encoder fl en" and columns: "\<forall>(name, col) \<in> set (tb_columns rows). plain_column fl (tb_len rows) col"
  obtains columns' zones where
    "with_compressed_int_children en t stamped rows = Some (rows\<lparr> tb_columns := columns' \<rparr>, zones)"
    "list_all2 (\<lambda>(name, col) (name', col'). name = name' \<and> same_cells col col' \<and> wf_column fl (tb_len rows) col')
      (tb_columns rows) columns'"
    "\<And>slot zs. zones_get zones slot = Some zs \<Longrightarrow> found_for (tb_columns rows) slot zs"
proof -
  have "zones_get no_zones slot = None" for slot
    by (simp add: zones_get_def no_zones_def buf_get_def)
  moreover have "length no_zones = 4" by (simp add: no_zones_def)
  ultimately show ?thesis
    using compress_children_columns [OF en columns, of no_zones t stamped] that
    by (auto simp: with_compressed_int_children_def)
qed

section \<open>Children compressed\<close>

lemma slot_names: "primary_slot a = Some slot \<Longrightarrow> primary_slot b = Some slot \<Longrightarrow> a = b"
  by (auto simp: primary_slot_def split: if_splits)

lemma fit_columns: "table_fit fl input t \<Longrightarrow> \<forall>(name, col) \<in> set (tb_columns t). plain_column fl (tb_len t) col"
  by (auto simp: table_fit_def plain_column_def)

text \<open>A zone map found is one of the compressed column of its slot.\<close>

lemma found_column:
  assumes "found_for columns slot zs" "distinct (map fst columns)" "primary_slot field = Some slot"
    and "list_all2 (\<lambda>(name, col) (name', col'). name = name' \<and> (same_cells col col' \<and> wf_column fl n col')) columns columns'"
  shows "\<exists>col codes. map_of columns' field = Some col \<and> col_type col = UInt 8 \<and> col_cells col = map CodeScalar codes \<and>
    describes zs codes \<and> whole_bounds zs codes"
proof -
  obtain name col codes where found: "(name, col) \<in> set columns" "primary_slot name = Some slot" "col_type col = UInt 8"
      "col_cells col = map CodeScalar codes" "describes zs codes" "whole_bounds zs codes"
    using assms(1) unfolding found_for_def by blast
  have "map_of columns field = Some col"
    using found(1) assms(2) slot_names [OF found(2) assms(3)] by simp
  then obtain col' where "map_of columns' field = Some col'" "same_cells col col'"
    using map_of_list_all2(1) [OF assms(4)] by blast
  then show ?thesis
    using found by (intro exI [of _ col'] exI [of _ codes]) (simp add: same_cells_def)
qed

lemma component_compresses:
  assumes en: "lawful_encoder fl en" and fit: "table_fit fl input t" and names: "distinct (map fst (tb_columns t))"
  shows "compresses fl (component_compressor en identity) (fresh_probes rs t)"
    "component_compressor en identity (fresh_probes rs t) \<noteq> None"
proof -
  let ?t = "fresh_probes rs t"
  have columns: "tb_columns ?t = tb_columns t" "tb_len ?t = tb_len t" by (simp_all add: fresh_probes_def)
  obtain columns' zones where out:
      "with_compressed_int_children en ComponentTable (lead_stamp identity) ?t = Some (?t\<lparr> tb_columns := columns' \<rparr>, zones)"
      "list_all2 (\<lambda>(name, col) (name', col'). name = name' \<and> same_cells col col' \<and> wf_column fl (tb_len t) col')
        (tb_columns t) columns'"
      "\<And>slot zs. zones_get zones slot = Some zs \<Longrightarrow> found_for (tb_columns t) slot zs"
    by (rule compressed_table [OF en, where rows = ?t and t = ComponentTable and stamped = "lead_stamp identity",
          unfolded columns, OF fit_columns [OF fit]]) blast
  have run: "component_compressor en identity ?t = Some (?t\<lparr> tb_columns := columns' \<rparr>, zones_get zones 3)"
    by (simp add: component_compressor_def out(1))
  then show "component_compressor en identity ?t \<noteq> None" by simp
  have slot: "primary_slot ''g'' = Some 3" by (simp add: primary_slot_def)
  have graph: "\<exists>col codes. map_of columns' ''g'' = Some col \<and> col_type col = UInt 8 \<and> col_cells col = map CodeScalar codes \<and>
      describes zs codes" if "zones_get zones 3 = Some zs" for zs
    using found_column [OF out(3) [OF that] names slot out(2)] by blast
  show "compresses fl (component_compressor en identity) ?t"
    unfolding compresses_def run using out(2) graph by (simp add: columns)
qed

lemma component_names:
  assumes us: "lawful_sorter us" and wf: "wf_input input" and components: "index_components rs us index input = Some components"
  shows "\<forall>part \<in> set components. distinct (map fst (tb_columns (ic_rows part)))"
proof -
  have graphs: "map fst (ref_graphs input perm) = [] \<or> map fst (ref_graphs input perm) = [''g'']" for perm
    by (cases input) simp_all
  have "distinct (map fst (tb_columns (ref_table input c perm)))" for c perm
    using graphs [of perm] by (auto simp: ref_table_def rows_table_def)
  moreover have "distinct (map fst (tb_columns (copy_table input perm)))" for perm
    by (simp add: copy_table_def rows_table_def copy_child_columns_def all_columns_def)
  ultimately show ?thesis
    using components
    by (cases index)
       (auto simp: copy_components_tables [OF us wf] ref_components_tables [OF us wf] component_built_def fresh_probes_def
         simp del: copy_identity.simps ref_identity.simps)
qed

text \<open>A component as a build emits it.\<close>

definition fresh_component :: "'k compute_scheme \<Rightarrow> resolver \<Rightarrow> index_input \<Rightarrow> index_component \<Rightarrow> bool" where
  "fresh_component fl rs input part \<longleftrightarrow>
     (\<exists>index t perm. part = component_built rs (ic_identity part) t \<and> table_fit fl input t \<and>
        distinct (map fst (tb_columns t)) \<and> component_ok input part perm \<and>
        ic_identity part \<in> set (component_identities index))"

lemma index_components_fresh:
  assumes "lawful_sorter us" "lawful_resolver fl rs" "wf_input input"
  shows "\<exists>parts. index_components rs us index input = Some parts \<and> (\<forall>part \<in> set parts. fresh_component fl rs input part)"
proof -
  obtain components where components: "index_components rs us index input = Some components"
      "map ic_identity components = component_identities index"
      "\<forall>part \<in> set components. \<exists>t perm. part = component_built rs (ic_identity part) t \<and>
         table_fit fl input t \<and> component_ok input part perm"
    using index_components_of [OF assms] by blast
  have "fresh_component fl rs input part" if part: "part \<in> set components" for part
  proof -
    obtain t perm where t: "part = component_built rs (ic_identity part) t" "table_fit fl input t" "component_ok input part perm"
      using components(3) part by blast
    have "ic_rows part = fresh_probes rs t" by (subst t(1), simp add: component_built_def)
    then have "distinct (map fst (tb_columns t))"
      using component_names [OF assms(1,3) components(1)] part by (fastforce simp: fresh_probes_def)
    moreover have "ic_identity part \<in> set (component_identities index)"
      unfolding components(2) [symmetric] using part by simp
    ultimately show ?thesis using t unfolding fresh_component_def by blast
  qed
  then show ?thesis using components(1) by blast
qed

lemma components_loop_fresh:
  assumes "lawful_sorter us" "lawful_resolver fl rs" "wf_input input"
  shows "\<forall>part \<in> set components. fresh_component fl rs input part \<Longrightarrow>
    \<exists>components'. components_loop rs us indexes input types components = Some components' \<and>
      (\<forall>part \<in> set components'. fresh_component fl rs input part)"
proof (induction types arbitrary: components)
  case (Cons index types)
  obtain children where children: "index_components rs us index input = Some children"
      "\<forall>part \<in> set children. fresh_component fl rs input part"
    using index_components_fresh [OF assms] by blast
  show ?case
    using Cons.IH [OF Cons.prems] Cons.IH [of "components @ children"] Cons.prems children by auto
qed simp

lemma build_components_fresh:
  assumes "lawful_sorter us" "lawful_resolver fl rs" "wf_input input"
    and "indexes = [] \<or> check_indexed_rows (input_rows input) = Inr ()"
  shows "\<exists>components. build_components rs us indexes input = Some components \<and>
    (\<forall>part \<in> set components. fresh_component fl rs input part)"
  using components_loop_fresh [OF assms(1-3), of "[]" indexes ALL_INDEX_TYPES] assms(4)
  by (auto simp: build_components_def Resolve.ok_def)

lemma compressed_components:
  assumes "lawful_encoder fl en" "lawful_resolver fl rs" "wf_input input"
    and "\<forall>part \<in> set components. fresh_component fl rs input part"
  shows "\<exists>components'. gather (\<lambda>part. into_compressed rs (component_compressor en (ic_identity part)) part) components =
      Some components' \<and> (\<forall>part \<in> set components'. \<exists>perm. component_of fl input part perm)"
proof -
  have "\<exists>part'. into_compressed rs (component_compressor en (ic_identity part)) part = Some part' \<and>
      (\<exists>perm. component_of fl input part' perm)" if member: "part \<in> set components" for part
  proof -
    obtain index t perm where part: "part = component_built rs (ic_identity part) t" "table_fit fl input t"
        "distinct (map fst (tb_columns t))" "component_ok input part perm"
        "ic_identity part \<in> set (component_identities index)"
      using bspec [OF assms(4) member] unfolding fresh_component_def by (elim exE conjE) (rule that; assumption)
    note compress = component_compresses [OF assms(1) part(2,3)]
    have rows: "ic_rows part = fresh_probes rs t" by (subst part(1), simp add: component_built_def)
    obtain out where out: "into_compressed rs (component_compressor en (ic_identity part)) part = Some out"
      using compress(2) [of "ic_identity part" rs] by (auto simp: into_compressed_def rebuilt_def rows)
    then show ?thesis
      using compressed_component_of [OF assms(2) compress(1) assms(3) part(1,2,4,5) out] by blast
  qed
  then show ?thesis
  proof (induction components)
    case (Cons part components)
    obtain part' where "into_compressed rs (component_compressor en (ic_identity part)) part = Some part'"
        "\<exists>perm. component_of fl input part' perm"
      using Cons.prems by fastforce
    then show ?case using Cons.IH Cons.prems by fastforce
  qed simp
qed

section \<open>A base compressed\<close>

lemma covering_get: "zones_get (covering zones n) slot = Some zs \<Longrightarrow> zones_get zones slot = Some zs"
  by (auto simp: zones_get_def covering_def buf_get_def split: if_splits option.splits)

text \<open>The base's memory as a store is assembled.\<close>

definition resident :: "resolver \<Rightarrow> table \<Rightarrow> bool \<Rightarrow> index_component list \<Rightarrow> quad_zones \<Rightarrow> resident_base" where
  "resident rs base ordered components zones =
     \<lparr> mem_table = fresh_probes rs base, mem_zones = covering zones (tb_len base),
        rb_components = components, rb_sorted = ordered, rb_serve = None \<rparr>"

lemma same_dtype:
  assumes "list_all2 (\<lambda>(name, col) (name', col'). name = name' \<and> (same_cells col col' \<and> Q col')) (tb_columns rows) columns"
  shows "table_dtype (rows\<lparr> tb_columns := columns \<rparr>) = table_dtype rows"
proof -
  have "map (\<lambda>(name, col). (name, col_type col, col_nullable col)) ys =
      map (\<lambda>(name, col). (name, col_type col, col_nullable col)) xs"
    if "list_all2 (\<lambda>(name, col) (name', col'). name = name' \<and> (same_cells col col' \<and> Q col')) xs ys" for xs ys
    using that by (induction xs ys) (auto simp: same_cells_def)
  then show ?thesis using assms by (simp add: table_dtype_def)
qed

lemma schema_names: "table_dtype rows = schema_dtype ty \<Longrightarrow> distinct (map fst (tb_columns rows))"
proof -
  assume "table_dtype rows = schema_dtype ty"
  then have "map fst (table_dtype rows) = map fst (schema_dtype ty)" by simp
  then have "map fst (tb_columns rows) = map fst (schema_dtype ty)"
    by (simp add: table_dtype_def comp_def case_prod_unfold)
  then show ?thesis by (simp add: schema_dtype_def all_columns_def)
qed

lemma resident_base_of:
  assumes input: "input = layout_input ox d layout qs"
    and rs: "lawful_resolver fl rs" and qs: "holds_quads ox d layout qs"
    and fit: "table_fit fl input rows" and schema: "table_dtype rows = schema_dtype (input_type input)"
    and cells: "tb_len rows = length qs" "\<forall>c. typed_column rows (column_name c) (input_type input) (input_cells input c)"
    and base: "list_all2 (\<lambda>(name, col) (name', col'). name = name' \<and> (same_cells col col' \<and> wf_column fl (tb_len rows) col'))
      (tb_columns rows) columns"
    and zones: "\<And>slot zs. zones_get zones slot = Some zs \<Longrightarrow> found_for (tb_columns rows) slot zs"
    and components: "\<forall>part \<in> set components. \<exists>perm. component_of fl input part perm"
    and order: "ordered \<longrightarrow> sorted (map (key_at (input_cells input) quad_keys) [0..<length qs])"
  shows "base_of fl ox d layout qs (resident rs (rows\<lparr> tb_columns := columns \<rparr>) ordered components zones)"
proof -
  let ?base = "rows\<lparr> tb_columns := columns \<rparr>"
  have names: "distinct (map fst (tb_columns rows))" by (rule schema_names [OF schema])
  have "table_dtype ?base = table_dtype rows" using base by (rule same_dtype)
  then have schema': "table_dtype (fresh_probes rs ?base) = schema_dtype (input_type input)"
    using schema by (simp add: table_dtype_def fresh_probes_def)
  have fit': "table_fit fl input ?base"
    unfolding table_fit_def
  proof (intro conjI ballI)
    show "tb_len ?base \<le> usize_max" "\<not> tb_component ?base" using fit by (simp_all add: table_fit_def)
    fix named assume "named \<in> set (tb_columns ?base)"
    moreover obtain name col where named: "named = (name, col)" by fastforce
    ultimately obtain old where old: "(name, old) \<in> set (tb_columns rows)" "same_cells old col" "wf_column fl (tb_len rows) col"
      using map_of_list_all2(3) [OF base, of name col] by auto
    have "case (name, old) of (name, col) \<Rightarrow> wf_column fl (tb_len rows) col \<and> list_all (fits (col_type col)) (col_cells col) \<and>
        ((\<exists>codes. input = CodeInput codes) \<longrightarrow> col_type col = UInt 8) \<and> (name = ''g'' \<longrightarrow> col_type col = input_type input)"
      using fit old(1) unfolding table_fit_def by blast
    then show "case named of (name, col) \<Rightarrow> wf_column fl (tb_len ?base) col \<and> list_all (fits (col_type col)) (col_cells col) \<and>
        ((\<exists>codes. input = CodeInput codes) \<longrightarrow> col_type col = UInt 8) \<and> (name = ''g'' \<longrightarrow> col_type col = input_type input)"
      using old(2,3) by (simp add: named same_cells_def)
  qed
  have typed: "typed_column ?base (column_name c) (input_type input) (input_cells input c)" for c
    using cells(2) map_of_list_all2(1) [OF base] by (fastforce simp: typed_column_def same_cells_def)
  have wf: "wf_memory fl (memory_base.truncate (resident rs ?base ordered components zones))"
    unfolding wf_memory_def
  proof (intro conjI allI impI)
    show "wf_table fl (mem_table (memory_base.truncate (resident rs ?base ordered components zones)))"
      using wf_fresh(1) [OF rs fit'] by (simp add: resident_def memory_base.defs)
    fix field slot zs col
    assume "primary_slot field = Some slot"
      "zones_get (mem_zones (memory_base.truncate (resident rs ?base ordered components zones))) slot = Some zs"
      "map_of (tb_columns (mem_table (memory_base.truncate (resident rs ?base ordered components zones)))) field = Some col"
    then show "\<exists>codes. col_cells col = map CodeScalar codes \<and> describes zs codes \<and> whole_bounds zs codes"
      using found_column [OF zones [OF covering_get] names _ base, of "tb_len rows" slot zs field]
      by (auto simp: resident_def memory_base.defs fresh_probes_def)
  qed
  have "typed_column (fresh_probes rs ?base) (column_name c) (input_type input) (input_cells input c)" for c
    using typed by simp
  then show ?thesis
    using wf qs components order cells(1) schema' unfolding base_of_def Let_def input [symmetric]
    by (simp add: resident_def) (simp add: fresh_probes_def)
qed

end
