(* ===== verification/BuiltStores.thy ===== *)
theory BuiltStores
  imports ConstructRight MatchViews
begin

text \<open>
  Built stores: the parts that a build makes of quads, under either layout of plain columns, become a
  store that holds exactly those quads, and every view of it is one of them.
\<close>

section \<open>The quads of a build\<close>

lemma map_sort_key: "map f (sort_key f xs) = sort (map f xs)"
  by (rule sym [OF properties_for_sort]) simp_all

lemma from_quad_inj:
  assumes "lawful_oxrdf ox" "wf_quad ox a" "wf_quad ox b" "from_quad ox a = from_quad ox b"
  shows "a = b"
proof -
  have "quad_ref a c = quad_ref b c" for c
    using assms wf_quad_ref [OF assms(2)] wf_quad_ref [OF assms(3)]
    by (intro write_nt_inj [OF assms(1)]) (simp_all flip: raw_field_of, cases c, simp_all)
  from this [of ColS] this [of ColP] this [of ColO] this [of ColG] show ?thesis by (cases a; cases b) simp
qed

text \<open>The quads in the order of their spellings, each once.\<close>

definition in_order :: "'l oxrdf \<Rightarrow> 'l rdf_quad list \<Rightarrow> 'l rdf_quad list" where
  "in_order ox quads = sort_key (from_quad ox) (remdups quads)"

lemma in_order_set [simp]: "set (in_order ox quads) = set quads" "distinct (in_order ox quads)"
  by (simp_all add: in_order_def)

lemma in_order_length: "length (in_order ox quads) \<le> length quads"
  by (simp add: in_order_def)

lemma in_order_raws:
  assumes "lawful_oxrdf ox" "\<forall>q \<in> set quads. wf_quad ox q"
  shows "map (from_quad ox) (in_order ox quads) = remdups_adj (sort (map (from_quad ox) quads))"
proof (rule ascending_unique)
  have "inj_on (from_quad ox) (set quads)" using from_quad_inj [OF assms(1)] assms(2) by (intro inj_onI) blast
  then have "distinct (map (from_quad ox) (in_order ox quads))" by (simp add: distinct_map)
  moreover have "sorted (map (from_quad ox) (in_order ox quads))" by (simp add: in_order_def)
  ultimately show "ascending (map (from_quad ox) (in_order ox quads))" by (simp add: strict_sorted_iff)
qed (simp_all add: ascending_remdups_adj)

lemma terms_not_less: "\<not> map f ys < map f xs \<Longrightarrow> map f xs \<le> (map f ys :: 'b :: linorder list)"
  by simp

section \<open>Parts under the Default layout\<close>

lemma default_order:
  assumes "sorted raws"
  shows "sorted (map (key_at (input_cells (QuadInput raws)) quad_keys) [0..<length raws])"
proof -
  have key: "key_at (input_cells (QuadInput raws)) quad_keys i = map TextScalar (raw_terms (raws ! i))"
    if "i < length raws" for i
    using that by (simp add: key_at_def quad_keys_def all_columns_def raw_terms_def)
  have "map TextScalar (raw_terms a) \<le> map TextScalar (raw_terms b)" if "a \<le> b" for a b
    using that map_less_iff [of UNIV TextScalar "raw_terms b" "raw_terms a"]
    by (simp add: less_eq_raw_quad_def) (meson leD not_less)
  then show ?thesis
    using assms unfolding sorted_iff_nth_mono by (simp add: key)
qed

lemma default_parts:
  assumes ox: "lawful_oxrdf ox" and us: "lawful_sorter us" and rs: "lawful_resolver fl rs"
    and qs: "\<forall>q \<in> set qs. wf_quad ox q" "length qs \<le> usize_max"
  shows "\<exists>components. build_parts_from_raws rs us ox (map (from_quad ox) qs) DefaultLayout indexes =
      Some \<lparr> ba_array = StringLayouts.built ox DefaultStrings qs, ba_sorted = True, ba_components = components, ba_dict = None \<rparr> \<and>
    (\<forall>part \<in> set components. fresh_component fl rs (layout_input ox d ResolvedDefault qs) part)"
proof -
  let ?input = "QuadInput (map (from_quad ox) qs)"
  have wf: "wf_input ?input" using qs(2) by (auto simp: wf_input_def list_all_iff)
  obtain components where "build_components rs us indexes ?input = Some components"
      "\<forall>part \<in> set components. fresh_component fl rs ?input part"
    using build_components_fresh [OF us rs wf, of indexes] qs(2)
    by (auto simp: check_indexed_rows_def row_limit_def)
  then show ?thesis
    using build_built [OF ox qs(1), of DefaultStrings]
    by (simp add: build_parts_from_raws_def struct_array_def Resolve.ok_def)
qed

lemma default_table:
  assumes "length qs \<le> usize_max"
    and rows_def: "rows = StringLayouts.built ox DefaultStrings qs" and input_def: "input = layout_input ox d ResolvedDefault qs"
  shows "table_fit fl input rows" "table_dtype rows = schema_dtype (input_type input)" "tb_len rows = length qs"
    "typed_column rows (column_name c) (input_type input) (input_cells input c)" "from_dtype rows = DefaultLayout"
proof -
  show "table_fit fl input rows"
    using assms(1)
    by (auto simp: rows_def input_def table_fit_def StringLayouts.built_def rows_table_def default_columns_def
        make_string_array_def wf_column_def list_all_iff Let_def)
  show "table_dtype rows = schema_dtype (input_type input)" "tb_len rows = length qs" "from_dtype rows = DefaultLayout"
    by (simp_all add: rows_def input_def StringLayouts.built_def rows_table_def default_columns_def from_dtype_def
        make_string_array_def Let_def table_dtype_def schema_dtype_def all_columns_def)
  show "typed_column rows (column_name c) (input_type input) (input_cells input c)"
    by (cases c) (auto simp: rows_def input_def typed_column_def StringLayouts.built_def rows_table_def
        default_columns_def make_string_array_def)
qed

section \<open>Parts under the Dictionary layout\<close>

lemma quad_codes_rows:
  "quad_codes_of ox d qs = codes_of_rows (map (quad_row_codes d) (map (from_quad ox) qs))"
proof -
  have "the (term_code ox d (quad_ref q c)) = dict_code d (raw_field c (from_quad ox q))" for q c
    by (simp add: term_code_def dict_code_def raw_field_of)
  then show ?thesis
    by (simp add: quad_codes_of_def codes_of_rows_columns quad_row_codes_def raw_terms_def comp_def)
qed

lemma has_terms_held:
  assumes "wf_dictionary d" "has_terms d (from_quad ox q)"
  shows "held_by ox d q"
proof -
  have "write_nt ox (quad_ref q c) \<in> set (dict_terms d)" for c
    unfolding raw_field_of [symmetric] using assms(2) by (cases c) (auto simp: has_terms_def raw_terms_def)
  then show ?thesis using dict_code_at(1) [OF assms(1)] by (simp add: held_by_def term_code_def)
qed

lemma dictionary_order:
  assumes "wf_dictionary d" "\<forall>q \<in> set qs. has_terms d (from_quad ox q)" "sorted (map (from_quad ox) qs)"
  shows "sorted (map (key_at (input_cells (CodeInput (quad_codes_of ox d qs))) quad_keys) [0..<length qs])"
proof -
  have key: "key_at (input_cells (CodeInput (quad_codes_of ox d qs))) quad_keys i =
      map CodeScalar (quad_row_codes d (from_quad ox (qs ! i)))" if "i < length qs" for i
    using that by (simp add: key_at_def quad_keys_def all_columns_def quad_codes_rows codes_of_rows_columns
        quad_row_codes_def raw_terms_def)
  have "map CodeScalar (quad_row_codes d a) \<le> map CodeScalar (quad_row_codes d b)"
    if "a \<le> b" "has_terms d a" "has_terms d b" for a b
    using that row_codes_less [OF assms(1) that(3,2)]
      map_less_iff [of UNIV CodeScalar "quad_row_codes d b" "quad_row_codes d a"]
    by (simp add: not_less [symmetric])
  then show ?thesis
    using assms(2,3) unfolding sorted_iff_nth_mono by (simp add: key)
qed

lemma code_chunk:
  assumes "length (codes_s codes) = n" "length (codes_p codes) = n" "length (codes_o codes) = n" "length (codes_g codes) = n"
  shows "build_code_chunk codes (0, n) stamped =
    Some (rows_table n (map (\<lambda>c. (column_name c, code_column (code_field c codes))) all_columns), stamped)"
  using assms
  by (simp add: build_code_chunk_def buf_slice_def named_struct_def all_columns_def)
     (simp add: code_column_def)

lemma dictionary_parts:
  assumes us: "lawful_sorter us" and rs: "lawful_resolver fl rs"
    and qs: "\<forall>q \<in> set qs. wf_quad ox q" "length qs \<le> usize_max" "ascending (map (from_quad ox) qs)"
    and d: "from_sorted_column (sorted_unique_terms (map (from_quad ox) qs)) = Some d"
  defines "codes \<equiv> quad_codes_of ox d qs"
  shows "\<exists>components. build_parts_from_raws rs us ox (map (from_quad ox) qs) DictionaryLayout indexes =
      Some \<lparr> ba_array = rows_table (length qs) (map (\<lambda>c. (column_name c, code_column (code_field c codes))) all_columns),
         ba_sorted = True, ba_components = components, ba_dict = Some d \<rparr> \<and>
    (\<forall>part \<in> set components. fresh_component fl rs (CodeInput codes) part)"
    "wf_dictionary d" "\<forall>q \<in> set qs. has_terms d (from_quad ox q)" "wf_input (CodeInput codes)"
proof -
  let ?raws = "map (from_quad ox) qs"
  note dict = from_sorted_column_Some [OF d sorted_terms(1)]
  show wf: "wf_dictionary d" by (rule dict(2))
  show has_terms: "\<forall>q \<in> set qs. has_terms d (from_quad ox q)"
    using sorted_terms(2) [of ?raws] by (auto simp: has_terms_def dict(1) terms_of_def)
  have held: "\<forall>q \<in> set qs. held_by ox d q" using has_terms has_terms_held [OF wf] by blast
  show input: "wf_input (CodeInput codes)"
    using layout_input_wf [OF wf held qs(2), of "ResolvedDictionary (Resident d)"] by (simp add: codes_def)
  have lengths: "length (codes_s codes) = length qs" "length (codes_p codes) = length qs"
      "length (codes_o codes) = length qs" "length (codes_g codes) = length qs"
    by (simp_all add: codes_def quad_codes_of_def)
  obtain components where components: "build_components rs us indexes (CodeInput codes) = Some components"
      "\<forall>part \<in> set components. fresh_component fl rs (CodeInput codes) part"
    using build_components_fresh [OF us rs input, of indexes] qs(2) lengths
    by (auto simp: check_indexed_rows_def row_limit_def)
  have sorted: "?raws = remdups_adj (sort ?raws)"
    using qs(3) by (simp add: strict_sorted_iff sorted_sort_id remdups_adj_distinct)
  have rows: "codes_of_rows (remdups_adj (sort (map (quad_row_codes d) ?raws))) = codes"
    using sorted_rows [OF wf, of ?raws] has_terms sorted by (simp add: codes_def quad_codes_rows)
  have "build_parts_from_raws rs us ox ?raws DictionaryLayout indexes = code_parts rs us indexes d codes"
    unfolding coded_parts [OF sorted] d Option.bind_lunit rows ..
  then show "\<exists>components. build_parts_from_raws rs us ox ?raws DictionaryLayout indexes =
      Some \<lparr> ba_array = rows_table (length qs) (map (\<lambda>c. (column_name c, code_column (code_field c codes))) all_columns),
         ba_sorted = True, ba_components = components, ba_dict = Some d \<rparr> \<and>
    (\<forall>part \<in> set components. fresh_component fl rs (CodeInput codes) part)"
    using components code_chunk [OF lengths] lengths(1) by (simp add: code_parts_def)
qed

section \<open>The store of a build\<close>

lemma store_from_parts:
  fixes ox :: "'l oxrdf"
  assumes en: "lawful_encoder fl en" and rs: "lawful_resolver fl rs" and input: "input = layout_input ox d layout qs"
    and layout: "store_layout (map_option Resident dict) rows = Some layout"
    and qs: "holds_quads ox d layout qs" and fit: "table_fit fl input rows" "table_dtype rows = schema_dtype (input_type input)"
    and cells: "tb_len rows = length qs" "\<forall>c. typed_column rows (column_name c) (input_type input) (input_cells input c)"
    and components: "wf_input input" "\<forall>part \<in> set components. fresh_component fl rs input part"
    and order: "sorted (map (key_at (input_cells input) quad_keys) [0..<length qs])"
  shows "\<exists>store. from_built rs en generation
      \<lparr> ba_array = rows, ba_sorted = True, ba_components = components, ba_dict = dict \<rparr> = Some store \<and>
    store_of fl ox fx d qs [] store [0..<length qs] \<and> store_quads qs [] store [0..<length qs] = qs \<and>
    st_layout store = layout \<and> st_tail store = None \<and> qs_selection (st_quads store) = view_all \<and>
    qs_deleted (st_quads store) = None \<and> st_generation store = generation"
proof -
  obtain columns zones where base: "with_compressed_int_children en BaseTable (subject_stamp True) rows =
        Some (rows\<lparr> tb_columns := columns \<rparr>, zones)"
      "list_all2 (\<lambda>(name, col) (name', col'). name = name' \<and> same_cells col col' \<and> wf_column fl (tb_len rows) col')
        (tb_columns rows) columns"
      "\<And>slot zs. zones_get zones slot = Some zs \<Longrightarrow> found_for (tb_columns rows) slot zs"
    using compressed_table [OF en fit_columns [OF fit(1)], where t = BaseTable and stamped = "subject_stamp True"] by blast
  obtain components' where components':
      "gather (\<lambda>part. into_compressed rs (component_compressor en (ic_identity part)) part) components = Some components'"
      "\<forall>part \<in> set components'. \<exists>perm. component_of fl input part perm"
    using compressed_components [OF en rs components] by blast
  let ?base = "rows\<lparr> tb_columns := columns \<rparr>"
  have memory: "base_of fl ox d layout qs (resident rs ?base True components' zones)"
    using resident_base_of [OF input rs qs fit cells base(2,3) components'(2)] order by blast
  define store :: "'l store" where "store = assemble_resident rs generation ?base True components' layout zones"
  have run: "from_built rs en generation
      \<lparr> ba_array = rows, ba_sorted = True, ba_components = components, ba_dict = dict \<rparr> = Some store"
    using layout base(1) components'(1) by (simp add: from_built_def adopt_def store_def)
  have quads: "st_quads store = source_new (resident rs ?base True components' zones)" "st_layout store = layout"
      "st_tail store = None" "st_generation store = generation"
    by (simp_all add: store_def assemble_resident_def resident_def)
  have "rb_serve (resident rs ?base True components' zones) = None" by (simp add: resident_def)
  then have "store_of fl ox fx d qs [] store [0..<length qs]" "store_quads qs [] store [0..<length qs] = qs"
    using memory quads
    by (simp_all add: store_of_def source_of_def source_new_def view_all_def store_quads_def base_quads_def view_rows_def
        appended_quads_def map_nth)
  then show ?thesis using run quads by (simp add: source_new_def)
qed

lemma ingest_sorted:
  "ok (ingest_and_sort (map Inr raws)) = Some (remdups_adj (sort raws))"
proof -
  have "ingest_loop (map Inr raws) acc = Inr (acc @ raws)" for acc
    by (induction raws arbitrary: acc) simp_all
  then show ?thesis by (simp add: ingest_and_sort_def map_ok_def Resolve.ok_def)
qed

text \<open>The layout a build resolves to; the Dictionary's access is to the dictionary it makes.\<close>

lemma raws_store:
  assumes ox: "lawful_oxrdf ox" and us: "lawful_sorter us" and rs: "lawful_resolver fl rs" and en: "lawful_encoder fl en"
    and layout: "layout \<noteq> TypedObjectLayout"
    and qs: "\<forall>q \<in> set qs. wf_quad ox q" "length qs \<le> usize_max" "ascending (map (from_quad ox) qs)"
    and terms: "layout = DictionaryLayout \<Longrightarrow> card (terms_of (map (from_quad ox) qs)) \<le> max_terms"
  shows "\<exists>made store d. build_parts_from_raws rs us ox (map (from_quad ox) qs) layout indexes = Some made \<and>
    from_built rs en generation made = Some store \<and>
    store_of fl ox fx d qs [] store [0..<length qs] \<and> store_quads qs [] store [0..<length qs] = qs \<and>
    strategy (st_layout store) = layout \<and> st_tail store = None \<and> qs_selection (st_quads store) = view_all \<and>
    qs_deleted (st_quads store) = None \<and> st_generation store = generation"
proof (cases layout)
  case DefaultLayout
  let ?input = "layout_input ox undefined ResolvedDefault qs"
  obtain components where made: "build_parts_from_raws rs us ox (map (from_quad ox) qs) DefaultLayout indexes =
      Some \<lparr> ba_array = StringLayouts.built ox DefaultStrings qs, ba_sorted = True, ba_components = components, ba_dict = None \<rparr>"
      "\<forall>part \<in> set components. fresh_component fl rs ?input part"
    using default_parts [OF ox us rs qs(1,2)] by blast
  note table = default_table [OF qs(2) refl [of "StringLayouts.built ox DefaultStrings qs"] refl [of ?input]]
  have "sorted (map (key_at (input_cells ?input) quad_keys) [0..<length qs])"
    using default_order [of "map (from_quad ox) qs"] qs(3) by (simp add: strict_sorted_iff)
  moreover have "holds_quads ox undefined ResolvedDefault qs" using qs by (simp add: holds_quads_def)
  moreover have "wf_input ?input" using qs(2) by (auto simp: wf_input_def list_all_iff)
  ultimately obtain store where "from_built rs en generation \<lparr> ba_array = StringLayouts.built ox DefaultStrings qs,
        ba_sorted = True, ba_components = components, ba_dict = None \<rparr> = Some store"
      "store_of fl ox fx undefined qs [] store [0..<length qs]" "store_quads qs [] store [0..<length qs] = qs"
      "st_layout store = ResolvedDefault" "st_tail store = None" "qs_selection (st_quads store) = view_all"
      "qs_deleted (st_quads store) = None" "st_generation store = generation"
    using store_from_parts [OF en rs refl _ _ table(1-3) _ _ made(2), of None generation fx] table(4,5)
    by (auto simp: store_layout_def simp del: layout_input.simps)
  then show ?thesis using made(1) DefaultLayout by auto
next
  case DictionaryLayout
  have "length (sorted_unique_terms (map (from_quad ox) qs)) = card (terms_of (map (from_quad ox) qs))"
    using sorted_terms [of "map (from_quad ox) qs"] by (metis ascending_distinct distinct_card)
  then obtain d where d: "from_sorted_column (sorted_unique_terms (map (from_quad ox) qs)) = Some d"
    using terms [OF DictionaryLayout] by (auto simp: from_sorted_column_def)
  define codes where "codes = quad_codes_of ox d qs"
  let ?layout = "ResolvedDictionary (Resident d)"
  let ?rows = "rows_table (length qs) (map (\<lambda>c. (column_name c, code_column (code_field c codes))) all_columns)"
  obtain components where made: "build_parts_from_raws rs us ox (map (from_quad ox) qs) DictionaryLayout indexes =
      Some \<lparr> ba_array = ?rows, ba_sorted = True, ba_components = components, ba_dict = Some d \<rparr>"
      "\<forall>part \<in> set components. fresh_component fl rs (CodeInput codes) part"
    using dictionary_parts(1) [OF us rs qs d] by (auto simp: codes_def)
  note dict = dictionary_parts(2-4) [OF us rs qs d, folded codes_def]
  have input: "CodeInput codes = layout_input ox d ?layout qs" by (simp add: codes_def)
  have lengths: "length (code_field c codes) = length qs" for c
    by (cases c) (simp_all add: codes_def quad_codes_of_def)
  have fits: "list_all (fits (UInt 8)) (map CodeScalar (code_field c codes))" for c
    using input_facts(1) [OF dict(3)] by simp
  have fit: "table_fit fl (CodeInput codes) ?rows"
    using qs(2) fits lengths
    by (auto simp: table_fit_def rows_table_def code_column_def wf_column_def simp del: fits.simps)
  have "typed_column ?rows (column_name c) (input_type (CodeInput codes)) (input_cells (CodeInput codes) c)" for c
    by (cases c) (simp_all add: typed_column_def rows_table_def all_columns_def code_column_def)
  moreover have "table_dtype ?rows = schema_dtype (input_type (CodeInput codes))"
    by (simp add: rows_table_def table_dtype_def schema_dtype_def code_column_def)
  moreover have "holds_quads ox d ?layout qs"
    using qs dict(1,2) has_terms_held [OF dict(1)] by (auto simp: holds_quads_def accesses_def)
  moreover have "sorted (map (key_at (input_cells (CodeInput codes)) quad_keys) [0..<length qs])"
    using dictionary_order [OF dict(1,2)] qs(3) by (simp add: strict_sorted_iff codes_def)
  ultimately obtain store where "from_built rs en generation \<lparr> ba_array = ?rows, ba_sorted = True,
        ba_components = components, ba_dict = Some d \<rparr> = Some store"
      "store_of fl ox fx d qs [] store [0..<length qs]" "store_quads qs [] store [0..<length qs] = qs"
      "st_layout store = ?layout" "st_tail store = None" "qs_selection (st_quads store) = view_all"
      "qs_deleted (st_quads store) = None" "st_generation store = generation"
    using store_from_parts [OF en rs input _ _ fit _ _ _ dict(3) made(2), of "Some d" generation fx]
    by (auto simp: store_layout_def rows_table_def)
  then show ?thesis using made(1) DictionaryLayout by auto
qed (use layout in simp)

lemma built_store:
  assumes ox: "lawful_oxrdf ox" and us: "lawful_sorter us" and rs: "lawful_resolver fl rs" and en: "lawful_encoder fl en"
    and layout: "layout \<noteq> TypedObjectLayout"
    and quads: "\<forall>q \<in> set quads. wf_quad ox q" "length quads \<le> usize_max"
    and terms: "layout = DictionaryLayout \<longrightarrow> card (terms_of (map (from_quad ox) quads)) \<le> max_terms"
  shows "\<exists>made store d. build_vortex_array rs us ox (map (Inr \<circ> from_quad ox) quads) layout indexes = Some made \<and>
    from_built rs en generation made = Some store \<and>
    store_of fl ox fx d (in_order ox quads) [] store [0..<length (in_order ox quads)] \<and>
    store_quads (in_order ox quads) [] store [0..<length (in_order ox quads)] = in_order ox quads \<and>
    strategy (st_layout store) = layout"
proof -
  let ?qs = "in_order ox quads"
  have raws: "map (from_quad ox) ?qs = remdups_adj (sort (map (from_quad ox) quads))"
    by (rule in_order_raws [OF ox quads(1)])
  have "build_vortex_array rs us ox (map (Inr \<circ> from_quad ox) quads) layout indexes =
      build_parts_from_raws rs us ox (map (from_quad ox) ?qs) layout indexes"
    using ingest_sorted [of "map (from_quad ox) quads"] by (simp add: build_route raws)
  moreover have "\<forall>q \<in> set ?qs. wf_quad ox q" "length ?qs \<le> usize_max"
    using quads in_order_length [of ox quads] by simp_all
  moreover have "ascending (map (from_quad ox) ?qs)" unfolding raws by (simp add: ascending_remdups_adj)
  moreover have "terms_of (map (from_quad ox) ?qs) = terms_of (map (from_quad ox) quads)" by (simp add: terms_of_def)
  ultimately show ?thesis
    using raws_store [OF ox us rs en layout, of ?qs indexes generation fx] terms by (simp only:) blast
qed

section \<open>Built stores answer\<close>


text \<open>An encoder that keeps the cells as they are.\<close>

definition plain_encoder :: encoder where
  "plain_encoder =
     \<lparr> en_constant = (\<lambda>x n. (code_column (replicate n x))\<lparr> col_encoding := OtherEncoding \<rparr>),
        en_run_end = (\<lambda>xs. Some ((code_column xs)\<lparr> col_encoding := OtherEncoding \<rparr>)),
        en_packed = (\<lambda>xs w. Some ((code_column xs)\<lparr> col_encoding := OtherEncoding \<rparr>)) \<rparr>"

lemma plain_encoder_lawful: "lawful_encoder fl plain_encoder"
  by (simp add: lawful_encoder_def plain_encoder_def encodes_def code_column_def)

lemma sample_terms: "card (terms_of (map (from_quad plain_oxrdf) sample_quads)) \<le> max_terms"
proof -
  have "card (terms_of (map (from_quad plain_oxrdf) sample_quads)) \<le>
      length (concat (map raw_terms (map (from_quad plain_oxrdf) sample_quads)))"
    using card_length [of "concat (map raw_terms (map (from_quad plain_oxrdf) sample_quads))"] by (simp add: terms_of_def)
  also have "\<dots> \<le> max_terms" by (simp add: sample_quads_def raw_terms_def max_terms_def)
  finally show ?thesis .
qed


end
