(* ===== verification/Mutation.thy ===== *)
theory Mutation
  imports MatchViews
begin

text \<open>
  Mutations of a store (\<open>src/core/src/store/write/mutation.rs\<close>): a delete tombstones what a pattern
  matches, in the base and in the tail, and only a store that owns its rows may be mutated.
  \<^term>\<open>None\<close> is a panic or an error of the array library, \<^term>\<open>Inl\<close> the error of the source.
\<close>

section \<open>Owners and deletes\<close>

definition is_owner :: "'l store \<Rightarrow> bool" where
  "is_owner self \<longleftrightarrow>
     (case st_tail self of None \<Rightarrow> True | Some tail \<Rightarrow> tail_selection tail = AllRows) \<and> is_unrefined (st_quads self)"

definition ensure_owner :: "'l store \<Rightarrow> string \<Rightarrow> unit fallible" where
  "ensure_owner self operation = (if is_owner self then Inr () else Inl (InvalidOperation [operation]))"

text \<open>\<open>generation\<close> is the next one of the process.\<close>

definition delete_matching ::
    "'k compute_scheme \<Rightarrow> array_search \<Rightarrow> 'l oxrdf \<Rightarrow> hasher \<Rightarrow> library \<Rightarrow> nat \<Rightarrow> 'l store \<Rightarrow> 'l quad_pattern \<Rightarrow>
     'l store fallible option" where
  "delete_matching fl sx ox fx lib generation self p =
     (case ensure_owner self ''delete_matching'' of
        Inl e \<Rightarrow> Some (Inl e)
      | Inr _ \<Rightarrow>
          do {
            matched \<leftarrow> match_pattern fl sx ox fx lib self p;
            tail \<leftarrow> (case (st_tail self, st_tail matched) of
                (Some tail, Some doomed) \<Rightarrow> map_option Some (tail_tombstoned tail (tail_selection doomed))
              | (tail, _) \<Rightarrow> Some tail);
            (sel, _) \<leftarrow> view_materialized fl (qs_selection (st_quads matched));
            doomed \<leftarrow> to_mask sel (base_len (st_quads self));
            Some (Inr ((derived self (with_tombstones (st_quads self) doomed) tail)\<lparr> st_generation := generation \<rparr>))
          })"

definition delete_quad ::
    "'k compute_scheme \<Rightarrow> array_search \<Rightarrow> 'l oxrdf \<Rightarrow> hasher \<Rightarrow> library \<Rightarrow> nat \<Rightarrow> 'l store \<Rightarrow> 'l rdf_quad \<Rightarrow>
     'l store fallible option" where
  "delete_quad fl sx ox fx lib generation self q = delete_matching fl sx ox fx lib generation self (pattern_of q)"

section \<open>What a delete leaves\<close>

lemma owner_refused: "\<not> is_owner self \<Longrightarrow> ensure_owner self op = Inl (InvalidOperation [op])"
  "is_owner self \<Longrightarrow> ensure_owner self op = Inr ()"
  by (simp_all add: ensure_owner_def)

lemma owner_selection: "is_owner self \<Longrightarrow> qs_selection (st_quads self) = view_all"
  by (cases "qs_selection (st_quads self)" rule: view_is_all.cases)
     (auto simp: is_owner_def is_unrefined_def view_all_def)

lemma owner_rows:
  assumes "is_owner self" "store_of fl ox fx d qs appended self rows"
  shows "rows = [0..<length qs]"
  using assms owner_selection [OF assms(1)] by (simp add: store_of_def source_of_def view_all_def)

text \<open>The marks of an exact selection join the tombstones.\<close>

lemma union_live:
  assumes "wf_deleted n deleted" "set rows' \<subseteq> {0..<n}"
  shows "wf_deleted n (Some (union_deleted deleted (map (\<lambda>i. i \<in> set rows') [0..<n])))"
    "set rows \<subseteq> {0..<n} \<Longrightarrow>
       live_of (Some (union_deleted deleted (map (\<lambda>i. i \<in> set rows') [0..<n]))) rows =
         filter (\<lambda>i. i \<notin> set rows') (live_of deleted rows)"
  using assms by (auto simp: union_deleted_def live_of_def intro!: filter_cong split: option.splits)

lemma tombstoned_source:
  assumes source: "source_of fl ox d layout qs source rows" and all: "qs_selection source = view_all"
    and doomed: "set rows' \<subseteq> {0..<length qs}"
  defines "source' \<equiv> with_tombstones source (map (\<lambda>i. i \<in> set rows') [0..<length qs])"
  shows "source_of fl ox d layout qs source' rows"
    "view_rows source' rows = filter (\<lambda>i. i \<notin> set rows') (live_of (qs_deleted source) rows)"
    "qs_selection source' = view_all"
proof -
  have rows: "rows = [0..<length qs]" using source all by (simp add: source_of_def view_all_def)
  have parts: "qs_deleted source' = Some (union_deleted (qs_deleted source) (map (\<lambda>i. i \<in> set rows') [0..<length qs]))"
    "qs_selection source' = view_all" "qs_memory source' = (qs_memory source)\<lparr> rb_serve := None \<rparr>"
    by (simp_all add: source'_def with_tombstones_def with_selection_def in_memory_with_def all)
  note live = union_live [OF source_facts(2) [OF source] doomed]
  show "qs_selection source' = view_all" by (rule parts(2))
  show "view_rows source' rows = filter (\<lambda>i. i \<notin> set rows') (live_of (qs_deleted source) rows)"
    using live(2) [of rows] rows parts by (simp add: view_rows_def)
  have "base_of fl ox d layout qs (qs_memory source')"
    using source_facts(3) [OF source] unfolding parts(3) by (simp add: base_of_def Let_def memory_base.defs)
  then show "source_of fl ox d layout qs source' rows"
    using live(1) rows parts by (simp add: source_of_def view_all_def)
qed

lemma filter_doomed:
  assumes "live' = filter P live" "\<forall>i. i \<in> set live \<longrightarrow> (i \<in> set rows' \<longleftrightarrow> i \<in> set live')"
  shows "filter (\<lambda>i. i \<notin> set rows') live = filter (\<lambda>i. \<not> P i) live"
  using assms by (intro filter_cong) auto

lemma doomed_tail:
  assumes "lawful_oxrdf ox" "lawful_compute fl" "lawful_library fl lib"
    and tail: "tail_of ox fl fx appended tail" and p: "wf_pattern ox p"
  shows "\<exists>doomed tail'. match_tail ox fx fl lib tail p = Some doomed \<and>
    tail_tombstoned tail (tail_selection doomed) = Some tail' \<and> tail_of ox fl fx appended tail' \<and>
    tail_layout tail' = tail_layout tail \<and> tail_selection tail' = tail_selection tail \<and>
    tail_quads appended tail' = filter (Not \<circ> quad_matches p) (tail_quads appended tail)"
proof -
  let ?n = "length appended"
  obtain sel where sel: "match_tail ox fx fl lib tail p = Some (tail_with_selection tail sel)" "wf_selection ?n sel"
      "covered sel ?n = filter (\<lambda>i. quad_matches p (appended ! i)) (covered (tail_selection tail) ?n)"
    using match_tail_narrows [OF assms] by blast
  obtain tail' where tail': "tail_tombstoned tail sel = Some tail'" "tail_of ox fl fx appended tail'"
      "tail_layout tail' = tail_layout tail" "tail_selection tail' = tail_selection tail"
      "live_rows (tail_selection tail') (tail_deleted tail') ?n =
        filter (\<lambda>i. i \<notin> set (covered sel ?n)) (live_rows (tail_selection tail) (tail_deleted tail) ?n)"
    using tail_tombstoned_of [OF tail sel(2)] by blast
  have "filter (\<lambda>i. i \<notin> set (covered sel ?n)) (live_rows (tail_selection tail) (tail_deleted tail) ?n) =
      filter (\<lambda>i. \<not> quad_matches p (appended ! i)) (live_rows (tail_selection tail) (tail_deleted tail) ?n)"
    using sel(3) by (intro filter_cong) (auto simp: live_rows_def)
  then have "tail_quads appended tail' = filter (Not \<circ> quad_matches p) (tail_quads appended tail)"
    using tail'(5) by (simp add: tail_quads_def filter_map comp_def)
  then show ?thesis using sel(1) tail'(1-4) by (auto simp: tail_with_selection_def)
qed

lemma delete_leaves:
  assumes ox: "lawful_oxrdf ox" and fl: "lawful_compute fl" and sx: "lawful_search fl sx" and lib: "lawful_library fl lib"
    and store: "store_of fl ox fx d qs appended self rows" and p: "wf_pattern ox p" and owner: "is_owner self"
  shows "\<exists>self'. delete_matching fl sx ox fx lib generation self p = Some (Inr self') \<and>
    store_of fl ox fx d qs appended self' rows \<and> is_owner self' \<and>
    mset (base_quads qs self' rows) = filter_mset (Not \<circ> quad_matches p) (mset (base_quads qs self rows)) \<and>
    appended_quads appended self' = filter (Not \<circ> quad_matches p) (appended_quads appended self) \<and>
    st_generation self' = generation \<and> st_layout self' = st_layout self \<and> st_indexes self' = st_indexes self"
proof -
  let ?d = "qs_deleted (st_quads self)" and ?n = "length qs"
  have source: "source_of fl ox d (st_layout self) qs (st_quads self) rows" using store by (simp add: store_of_def)
  obtain based rows' where based: "match_base fl sx ox self p NeedRows = Some based"
      "matched_base fl ox d qs self NeedRows rows' based" "matches_live qs p ?d rows rows'"
    using match_base_rows [OF fl sx ox source p] unfolding matched_view_def by blast
  have facts: "source_of fl ox d (st_layout self) qs (st_quads based) rows'"
      "st_tail based = None \<longleftrightarrow> st_tail self = None"
    using based(2) by (simp_all add: matched_base_def)
  obtain sel vs where sel: "view_materialized fl (qs_selection (st_quads based)) = Some (sel, vs)"
      "wf_selection ?n sel" "covered sel ?n = rows'"
    using view_materialized_rows [OF source_facts(1) [OF facts(1)]] by blast
  have small: "set rows' \<subseteq> {0..<?n}" using selects_rows(2) [OF source_facts(1) [OF facts(1)]] by auto
  have mask: "to_mask sel (base_len (st_quads self)) = Some (map (\<lambda>i. i \<in> set rows') [0..<?n])"
    using to_mask_eq [OF sel(2)] sel(3) by (simp add: source_len [OF source])
  let ?source = "with_tombstones (st_quads self) (map (\<lambda>i. i \<in> set rows') [0..<?n])"
  note tomb = tombstoned_source [OF source owner_selection [OF owner] small]
  have "view_rows ?source rows = filter (\<lambda>i. \<not> quad_matches p (qs ! i)) (live_of ?d rows)"
    unfolding tomb(2)
  proof (rule filter_doomed)
    show "live_of ?d rows' = filter (\<lambda>i. quad_matches p (qs ! i)) (live_of ?d rows)"
      using based(3) by (simp add: matches_live_def)
  qed (auto simp: live_of_def)
  then have base: "mset (base_quads qs self' rows) = filter_mset (Not \<circ> quad_matches p) (mset (base_quads qs self rows))"
    if "st_quads self' = ?source" for self'
    using base_quads_mset [OF source] that
    by (simp add: base_quads_def filter_map comp_def flip: mset_map mset_filter)
  show ?thesis
  proof (cases "st_tail self")
    case None
    let ?self = "(derived self ?source None)\<lparr> st_generation := generation \<rparr>"
    have "delete_matching fl sx ox fx lib generation self p = Some (Inr ?self)"
      using based(1) sel(1) mask None facts(2)
      by (simp add: delete_matching_def owner_refused owner match_pattern_def match_pattern_for_def)
    moreover have "store_of fl ox fx d qs appended ?self rows" "is_owner ?self"
      using tomb(1,3) by (simp_all add: store_of_def derived_def is_owner_def is_unrefined_def view_all_def)
    ultimately show ?thesis using base [of ?self] None by (simp add: derived_def appended_quads_def)
  next
    case (Some tail)
    then have tail: "tail_of ox fl fx appended tail" "tail_layout tail = layout_for (st_layout self)"
      using store by (simp_all add: store_of_def)
    obtain doomed tail' where tail': "match_tail ox fx fl lib tail p = Some doomed"
        "tail_tombstoned tail (tail_selection doomed) = Some tail'" "tail_of ox fl fx appended tail'"
        "tail_layout tail' = tail_layout tail" "tail_selection tail' = tail_selection tail"
        "tail_quads appended tail' = filter (Not \<circ> quad_matches p) (tail_quads appended tail)"
      using doomed_tail [OF ox fl lib tail(1) p] by blast
    let ?self = "(derived self ?source (Some tail'))\<lparr> st_generation := generation \<rparr>"
    have "delete_matching fl sx ox fx lib generation self p = Some (Inr ?self)"
      using based(1) sel(1) mask Some tail'(1,2)
      by (simp add: delete_matching_def owner_refused owner match_pattern_def match_pattern_for_def)
    moreover have "store_of fl ox fx d qs appended ?self rows"
      using tomb(1) tail'(3,4) tail(2) by (simp add: store_of_def derived_def)
    moreover have "is_owner ?self"
      using tomb(3) owner Some tail'(5) by (simp add: derived_def is_owner_def is_unrefined_def view_all_def)
    ultimately show ?thesis using base [of ?self] Some tail'(6) by (simp add: derived_def appended_quads_def)
  qed
qed

section \<open>Deletes are differences\<close>

text \<open>C3. A delete on a store that owns its rows never fails: it leaves the quads that the pattern does not
  match, each as often, in a store of the next generation that owns its rows still; on a view of
  another's rows it is refused. The store is of the Default or the Dictionary layout.\<close>

theorem delete_is_difference:
  assumes "lawful_oxrdf ox" "lawful_compute fl" "lawful_search fl sx" "lawful_library fl lib"
    and "store_of fl ox fx d qs appended self rows" "wf_pattern ox p"
  shows "if is_owner self then
      \<exists>self'. delete_matching fl sx ox fx lib generation self p = Some (Inr self') \<and>
        store_of fl ox fx d qs appended self' rows \<and> is_owner self' \<and> st_generation self' = generation \<and>
        mset (store_quads qs appended self' rows) =
          filter_mset (Not \<circ> quad_matches p) (mset (store_quads qs appended self rows)) \<and>
        appended_quads appended self' = filter (Not \<circ> quad_matches p) (appended_quads appended self)
    else delete_matching fl sx ox fx lib generation self p = Some (Inl (InvalidOperation [''delete_matching'']))"
proof (cases "is_owner self")
  case True
  obtain self' where "delete_matching fl sx ox fx lib generation self p = Some (Inr self')"
      "store_of fl ox fx d qs appended self' rows" "is_owner self'" "st_generation self' = generation"
      "mset (base_quads qs self' rows) = filter_mset (Not \<circ> quad_matches p) (mset (base_quads qs self rows))"
      "appended_quads appended self' = filter (Not \<circ> quad_matches p) (appended_quads appended self)"
    using delete_leaves [OF assms(1-6) True] by blast
  then show ?thesis using True by (auto simp: store_quads_def simp flip: mset_filter)
qed (simp add: delete_matching_def owner_refused)

theorem delete_is_difference_witness:
  "\<exists>self'. delete_matching plain_compute plain_search plain_oxrdf length plain_library 3 (sample_store None) sample_pattern =
      Some (Inr self') \<and>
    mset (store_quads sample_quads [] self' [0..<length sample_quads]) =
      filter_mset (Not \<circ> quad_matches sample_pattern) (mset sample_quads)"
proof -
  have "is_owner (sample_store None)"
    by (simp add: is_owner_def sample_store_def is_unrefined_def source_new_def view_all_def)
  then show ?thesis
    using delete_is_difference [OF plain_lawful plain_compute_lawful plain_search_lawful plain_library_lawful
        sample_store_of [of None] sample_pattern_wf, of length 3]
    by (auto simp: sample_store_quads)
qed

end
