(* ===== verification/Codec.thy ===== *)
theory Codec
  imports Resolve
begin

unbundle bit_operations_syntax

text \<open>
  Rows of codes decoded against a dictionary (\<open>src/core/src/store/layouts/dictionary/codec/mod.rs\<close>): into
  quads, into rows of term strings and into lines, each through a small memo per role of the terms
  decoded before. A source of terms is a function of the role and the code: a resident dictionary's
  cursors only keep chunks warm, and it never gives up on a row, as a source over a file may.
  \<^term>\<open>None\<close> is a panic.
\<close>

section \<open>Sources of terms\<close>

type_synonym term_source = "nat \<Rightarrow> nat \<Rightarrow> string fallible"

definition dict_terms_at :: "term_dictionary \<Rightarrow> term_source" where
  "dict_terms_at d r code = map_ok ((!) (dict_terms d)) (check_code d code)"

section \<open>Memos\<close>

definition MEMO_MAX_SLOTS :: nat where "MEMO_MAX_SLOTS = 1024"

definition MEMO_MIN_ROWS :: nat where "MEMO_MIN_ROWS = 16"

definition MEMO_TRIAL_MISSES :: nat where "MEMO_TRIAL_MISSES = 64"

definition MEMO_MISSES_PER_HIT :: nat where "MEMO_MISSES_PER_HIT = 8"

text \<open>A trial counts misses, then hits, both below \<open>u32::MAX\<close>.\<close>

datatype admission = Trial nat nat | Admit | Refuse

record 'a term_memo =
  mm_slots :: "(nat \<times> 'a) option list"
  mm_mask :: nat
  mm_admission :: admission

fun ceil_log2 :: "nat \<Rightarrow> nat" where
  "ceil_log2 n = (if n \<le> 1 then 0 else Suc (ceil_log2 ((n + 1) div 2)))"

declare ceil_log2.simps [simp del]

text \<open>\<open>next_power_of_two\<close> at 64 bits: it wraps to 0 past the greatest power.\<close>

definition next_power_of_two :: "nat \<Rightarrow> nat" where
  "next_power_of_two n = (if 2 ^ 63 < n then 0 else 2 ^ ceil_log2 n)"

definition memo_new :: "nat \<Rightarrow> 'a term_memo" where
  "memo_new rows =
     (let slots = if rows < MEMO_MIN_ROWS then 0 else min (max (next_power_of_two rows) 1) MEMO_MAX_SLOTS
      in \<lparr> mm_slots = replicate slots None, mm_mask = slots - 1, mm_admission = Trial 0 0 \<rparr>)"

definition memo_admitting :: "nat \<Rightarrow> 'a term_memo" where
  "memo_admitting rows = (memo_new rows)\<lparr> mm_admission := Admit \<rparr>"

fun counted_hit :: "admission \<Rightarrow> admission" where
  "counted_hit (Trial misses hits) = Trial misses (min (hits + 1) (2 ^ 32 - 1))"
| "counted_hit a = a"

fun counted_miss :: "admission \<Rightarrow> admission" where
  "counted_miss (Trial misses hits) =
     (let misses = misses + 1
      in if misses = MEMO_TRIAL_MISSES
         then (if misses \<le> min (hits * MEMO_MISSES_PER_HIT) (2 ^ 32 - 1) then Admit else Refuse)
         else Trial misses hits)"
| "counted_miss a = a"

definition get_or_insert :: "'a term_memo \<Rightarrow> nat \<Rightarrow> 'a fallible \<Rightarrow> ('a fallible \<times> 'a term_memo) option" where
  "get_or_insert self code fetched =
     (if mm_slots self = [] then Some (fetched, self)
      else do {
        let at = code AND mm_mask self;
        slot \<leftarrow> buf_get (mm_slots self) at;
        (case Option.bind slot (\<lambda>(cached, t). if cached = code then Some t else None) of
           Some t \<Rightarrow> Some (Inr t, self\<lparr> mm_admission := counted_hit (mm_admission self) \<rparr>)
         | None \<Rightarrow>
             (case fetched of
                Inl e \<Rightarrow> Some (Inl e, self)
              | Inr t \<Rightarrow>
                  (let admission = counted_miss (mm_admission self);
                       slots = if admission = Refuse then mm_slots self else (mm_slots self)[at := Some (code, t)]
                   in Some (Inr t, self\<lparr> mm_slots := slots, mm_admission := admission \<rparr>))))
      })"

text \<open>A term read through a memo, or the row's error with the memo back in its place.\<close>

definition memoized ::
    "'a term_memo \<Rightarrow> nat \<Rightarrow> 'a fallible \<Rightarrow> ('a term_memo \<Rightarrow> 'm) \<Rightarrow> ('a \<Rightarrow> 'a term_memo \<Rightarrow> ('r fallible \<times> 'm) option) \<Rightarrow>
     ('r fallible \<times> 'm) option" where
  "memoized memo code fetched back k =
     do {
       (got, memo) \<leftarrow> get_or_insert memo code fetched;
       (case got of Inl e \<Rightarrow> Some (Inl e, back memo) | Inr t \<Rightarrow> k t memo)
     }"

section \<open>Rows as quads\<close>

type_synonym 'l quad_memos =
  "subject_term term_memo \<times> string term_memo \<times> 'l object_term term_memo \<times> graph_term term_memo"

definition decode_row ::
    "'l oxrdf \<Rightarrow> term_source \<Rightarrow> 'l quad_memos \<Rightarrow> nat \<Rightarrow> nat \<Rightarrow> nat \<Rightarrow> nat \<Rightarrow> ('l rdf_quad fallible \<times> 'l quad_memos) option" where
  "decode_row ox src memos s p ob g =
     (case memos of (sm, pm, om, gm) \<Rightarrow>
       memoized sm s (and_then (src 0 s) (\<lambda>t. parse_subject ox t Stored)) (\<lambda>sm. (sm, pm, om, gm)) (\<lambda>subj sm.
       memoized pm p (and_then (src 1 p) (\<lambda>t. named_node ox t Stored)) (\<lambda>pm. (sm, pm, om, gm)) (\<lambda>pred pm.
       memoized om ob (and_then (src 2 ob) (\<lambda>t. parse_term ox t Stored)) (\<lambda>om. (sm, pm, om, gm)) (\<lambda>object om.
       memoized gm g (and_then (src 3 g) (\<lambda>t. parse_graph ox t Stored)) (\<lambda>gm. (sm, pm, om, gm)) (\<lambda>graph gm.
         Some (Inr \<lparr> quad_subject = subj, quad_predicate = pred, quad_object = object, quad_graph = graph \<rparr>,
               (sm, pm, om, gm)))))))"

text \<open>Row \<open>i\<close> of the four columns.\<close>

definition codes_at :: "quad_codes \<Rightarrow> nat \<Rightarrow> (nat \<times> nat \<times> nat \<times> nat) option" where
  "codes_at cols i =
     do {
       s \<leftarrow> buf_get (codes_s cols) i;
       p \<leftarrow> buf_get (codes_p cols) i;
       ob \<leftarrow> buf_get (codes_o cols) i;
       g \<leftarrow> buf_get (codes_g cols) i;
       Some (s, p, ob, g)
     }"

fun decode_loop ::
    "'l oxrdf \<Rightarrow> term_source \<Rightarrow> quad_codes \<Rightarrow> nat list \<Rightarrow> 'l quad_memos \<Rightarrow> 'l rdf_quad fallible list option" where
  "decode_loop ox src cols [] memos = Some []"
| "decode_loop ox src cols (i # rest) memos =
     do {
       (s, p, ob, g) \<leftarrow> codes_at cols i;
       (row, memos) \<leftarrow> decode_row ox src memos s p ob g;
       rows \<leftarrow> decode_loop ox src cols rest memos;
       Some (row # rows)
     }"

definition decode_rows :: "'l oxrdf \<Rightarrow> term_source \<Rightarrow> quad_codes \<Rightarrow> 'l rdf_quad fallible list option" where
  "decode_rows ox src cols =
     (let n = length (codes_s cols)
      in decode_loop ox src cols [0..<n] (memo_new n, memo_new n, memo_new n, memo_new n))"

section \<open>Rows as term strings\<close>

type_synonym string_memos = "string term_memo \<times> string term_memo \<times> string term_memo \<times> string term_memo"

definition shared_row ::
    "term_source \<Rightarrow> string_memos \<Rightarrow> nat \<Rightarrow> nat \<Rightarrow> nat \<Rightarrow> nat \<Rightarrow> (raw_quad fallible \<times> string_memos) option" where
  "shared_row src memos s p ob g =
     (case memos of (sm, pm, om, gm) \<Rightarrow>
       memoized sm s (src 0 s) (\<lambda>sm. (sm, pm, om, gm)) (\<lambda>s sm.
       memoized pm p (src 1 p) (\<lambda>pm. (sm, pm, om, gm)) (\<lambda>p pm.
       memoized om ob (src 2 ob) (\<lambda>om. (sm, pm, om, gm)) (\<lambda>ob om.
       memoized gm g (src 3 g) (\<lambda>gm. (sm, pm, om, gm)) (\<lambda>g gm. Some (Inr (RawQuad s p ob g), (sm, pm, om, gm)))))))"

text \<open>Any failure is the one result.\<close>

fun shared_loop ::
    "term_source \<Rightarrow> quad_codes \<Rightarrow> nat list \<Rightarrow> string_memos \<Rightarrow> raw_quad fallible list \<Rightarrow> raw_quad fallible list option" where
  "shared_loop src cols [] memos rows = Some rows"
| "shared_loop src cols (i # rest) memos rows =
     do {
       (s, p, ob, g) \<leftarrow> codes_at cols i;
       (row, memos) \<leftarrow> shared_row src memos s p ob g;
       (case row of
          Inl e \<Rightarrow> Some [Inl e]
        | Inr quad \<Rightarrow> shared_loop src cols rest memos (rows @ [Inr quad]))
     }"

definition decode_rows_shared :: "term_source \<Rightarrow> quad_codes \<Rightarrow> raw_quad fallible list option" where
  "decode_rows_shared src cols =
     (let n = length (codes_s cols)
      in shared_loop src cols [0..<n] (memo_admitting n, memo_admitting n, memo_admitting n, memo_admitting n) [])"

section \<open>Rows as lines\<close>

definition SPAN_SLOTS :: nat where "SPAN_SLOTS = 256"

text \<open>The span of the lines where a code's term was last written, by slot.\<close>

type_synonym span_memo = "(nat \<times> nat \<times> nat) list"

definition span_memo_new :: span_memo where
  "span_memo_new = replicate SPAN_SLOTS (u64_max, 0, 0)"

definition span_get :: "span_memo \<Rightarrow> nat \<Rightarrow> (nat \<times> nat) option option" where
  "span_get self code =
     map_option (\<lambda>(held, span). if held = code then Some span else None) (buf_get self (code AND (SPAN_SLOTS - 1)))"

definition span_put :: "span_memo \<Rightarrow> nat \<Rightarrow> nat \<times> nat \<Rightarrow> span_memo" where
  "span_put self code span = self[code AND (SPAN_SLOTS - 1) := (code, span)]"

text \<open>One role's term written to the lines: an error of the source, or the lines with the memo.\<close>

definition write_term ::
    "term_source \<Rightarrow> nat \<Rightarrow> nat \<Rightarrow> span_memo \<Rightarrow> nquad_lines \<Rightarrow> (nquad_lines \<times> span_memo) fallible option" where
  "write_term src r code memo lines =
     do {
       let start = length (lines_text lines);
       held \<leftarrow> span_get memo code;
       piece \<leftarrow> (case held of
           Some (a, b) \<Rightarrow> map_option Inr (buf_slice (lines_text lines) a b)
         | None \<Rightarrow> Some (src r code));
       Some (map_ok (\<lambda>t.
         let lines = lines\<lparr> lines_text := lines_text lines @ t \<rparr>;
             stop = length (lines_text lines);
             memo = span_put memo code (start, stop)
         in if r < 3 \<or> start < stop
            then (lines\<lparr> named_graph := named_graph lines \<or> r = 3, lines_text := lines_text lines @ '' '' \<rparr>, memo)
            else (lines, memo)) piece)
     }"

fun write_roles ::
    "term_source \<Rightarrow> (nat \<times> nat) list \<Rightarrow> span_memo list \<Rightarrow> nquad_lines \<Rightarrow>
     (nquad_lines \<times> span_memo list) fallible option" where
  "write_roles src ((r, code) # roles) (memo # memos) lines =
     do {
       written \<leftarrow> write_term src r code memo lines;
       (case written of
          Inl e \<Rightarrow> Some (Inl e)
        | Inr (lines, memo) \<Rightarrow>
            map_option (map_ok (\<lambda>(lines, memos). (lines, memo # memos))) (write_roles src roles memos lines))
     }"
| "write_roles src roles memos lines = Some (Inr (lines, memos))"

fun lines_loop ::
    "term_source \<Rightarrow> (nat \<times> nat \<times> nat \<times> nat) list \<Rightarrow> span_memo list \<Rightarrow> nquad_lines \<Rightarrow> nquad_lines fallible option" where
  "lines_loop src [] memos lines = Some (Inr lines)"
| "lines_loop src ((s, p, ob, g) # rows) memos lines =
     do {
       written \<leftarrow> write_roles src (enumerate 0 [s, p, ob, g]) memos lines;
       (case written of
          Inl e \<Rightarrow> Some (Inl e)
        | Inr (lines, memos) \<Rightarrow>
            lines_loop src rows memos (lines\<lparr> lines_text := lines_text lines @ ''.'' @ [CHR 0x0A] \<rparr>))
     }"

definition decode_lines :: "term_source \<Rightarrow> quad_codes \<Rightarrow> nquad_lines fallible list option" where
  "decode_lines src cols =
     map_option (\<lambda>lines. [lines])
       (lines_loop src (zip (codes_s cols) (zip (codes_p cols) (zip (codes_o cols) (codes_g cols))))
         (replicate 4 span_memo_new) no_lines)"

section \<open>Chunks\<close>

definition field_codes :: "table \<Rightarrow> string \<Rightarrow> nat list fallible" where
  "field_codes t name =
     (case map_of (tb_columns t) name of
        None \<Rightarrow> Inl (Deserialization [name])
      | Some col \<Rightarrow>
          (case col_encoding col of
             PrimitiveEncoding codes \<Rightarrow>
               if col_type col = UInt 8 then Inr codes else Inl (Deserialization [name])
           | _ \<Rightarrow> Inl (Deserialization [name])))"

definition chunk_codes :: "table \<Rightarrow> quad_codes fallible" where
  "chunk_codes t =
     and_then (field_codes t ''s'') (\<lambda>s. and_then (field_codes t ''p'') (\<lambda>p. and_then (field_codes t ''o'') (\<lambda>ob.
       map_ok (\<lambda>g. \<lparr> codes_s = s, codes_p = p, codes_o = ob, codes_g = g \<rparr>) (field_codes t ''g''))))"

definition decode_resident ::
    "(term_source \<Rightarrow> quad_codes \<Rightarrow> 'r fallible list option) \<Rightarrow> table \<Rightarrow> term_dictionary \<Rightarrow> 'r fallible list option" where
  "decode_resident from_codes t d =
     (case chunk_codes t of Inl e \<Rightarrow> Some [Inl e] | Inr cols \<Rightarrow> from_codes (dict_terms_at d) cols)"

end
