(* ===== verification/CodecRight.thy ===== *)
theory CodecRight
  imports Codec Tails
begin

text \<open>
  The memos of a decode change no result: each holds only what its source gives, so a chunk decodes
  into the rows that a decode of every row on its own gives. The codes of quads read back as them.
\<close>

section \<open>Memos are transparent\<close>

definition memo_ok :: "(nat \<Rightarrow> 'a fallible) \<Rightarrow> 'a term_memo \<Rightarrow> bool" where
  "memo_ok f memo \<longleftrightarrow>
     (mm_slots memo = [] \<or> (\<exists>k. length (mm_slots memo) = 2 ^ k \<and> mm_mask memo = 2 ^ k - 1)) \<and>
     (\<forall>code t. Some (code, t) \<in> set (mm_slots memo) \<longrightarrow> f code = Inr t)"

lemma and_mask: "(code :: nat) AND (2 ^ k - 1) = code mod 2 ^ k"
  by (metis mask_eq_exp_minus_1 take_bit_eq_mask take_bit_eq_mod)

lemma masked_slot: "memo_ok f memo \<Longrightarrow> mm_slots memo \<noteq> [] \<Longrightarrow> code AND mm_mask memo < length (mm_slots memo)"
  using and_mask [of code] by (auto simp: memo_ok_def)

lemma memo_new_ok: "memo_ok f (memo_new n)"
proof -
  have "min (2 ^ c) (1024 :: nat) = 2 ^ min c 10" for c
    using power_increasing_iff [of "2 :: nat" c 10] by (auto simp: min_def)
  then have "\<exists>k. min (max (next_power_of_two n) 1) MEMO_MAX_SLOTS = 2 ^ k"
    by (auto simp: next_power_of_two_def MEMO_MAX_SLOTS_def max_def intro: exI [of _ 0])
  then show ?thesis by (auto simp: memo_new_def memo_ok_def Let_def)
qed

lemma memo_admitting_ok: "memo_ok f (memo_admitting n)"
  using memo_new_ok [of f n] by (simp add: memo_ok_def memo_admitting_def)

lemma get_or_insert_exact:
  assumes memo: "memo_ok f memo"
  shows "\<exists>memo'. get_or_insert memo code (f code) = Some (f code, memo') \<and> memo_ok f memo'"
proof (cases "mm_slots memo = []")
  case True
  then show ?thesis using memo by (simp add: get_or_insert_def)
next
  case False
  let ?i = "code AND mm_mask memo"
  have i: "?i < length (mm_slots memo)" by (rule masked_slot [OF memo False])
  show ?thesis
  proof (cases "Option.bind (mm_slots memo ! ?i) (\<lambda>(cached, t). if cached = code then Some t else None)")
    case (Some t)
    then have "Some (code, t) \<in> set (mm_slots memo)"
      using nth_mem [OF i] by (auto split: Option.bind_splits if_splits)
    then have "f code = Inr t" using memo by (simp add: memo_ok_def)
    then show ?thesis
      using Some False i memo by (auto simp: get_or_insert_def buf_get_Some memo_ok_def Let_def)
  next
    case None
    show ?thesis
    proof (cases "f code")
      case (Inl e)
      then show ?thesis using None False i memo by (simp add: get_or_insert_def buf_get_Some Let_def)
    next
      case (Inr t)
      have "memo_ok f (memo\<lparr> mm_slots := (mm_slots memo)[?i := Some (code, t)], mm_admission := a \<rparr>)" for a
        using memo Inr by (auto simp: memo_ok_def dest!: set_update_subset_insert [THEN subsetD])
      moreover have "memo_ok f (memo\<lparr> mm_admission := a \<rparr>)" for a using memo by (simp add: memo_ok_def)
      ultimately show ?thesis using None False i Inr by (simp add: get_or_insert_def buf_get_Some Let_def)
    qed
  qed
qed

section \<open>Quads and term strings\<close>

definition read_quad :: "'l oxrdf \<Rightarrow> term_source \<Rightarrow> nat \<times> nat \<times> nat \<times> nat \<Rightarrow> 'l rdf_quad fallible" where
  "read_quad ox src codes =
     (case codes of (s, p, ob, g) \<Rightarrow>
        and_then (and_then (src 0 s) (\<lambda>t. parse_subject ox t Stored)) (\<lambda>subj.
        and_then (and_then (src 1 p) (\<lambda>t. named_node ox t Stored)) (\<lambda>pred.
        and_then (and_then (src 2 ob) (\<lambda>t. parse_term ox t Stored)) (\<lambda>object.
        map_ok (\<lambda>graph. \<lparr> quad_subject = subj, quad_predicate = pred, quad_object = object, quad_graph = graph \<rparr>)
          (and_then (src 3 g) (\<lambda>t. parse_graph ox t Stored))))))"

definition read_raw :: "term_source \<Rightarrow> nat \<times> nat \<times> nat \<times> nat \<Rightarrow> raw_quad fallible" where
  "read_raw src codes =
     (case codes of (s, p, ob, g) \<Rightarrow>
        and_then (src 0 s) (\<lambda>s. and_then (src 1 p) (\<lambda>p. and_then (src 2 ob) (\<lambda>ob.
          map_ok (RawQuad s p ob) (src 3 g)))))"

definition quad_memos_ok :: "'l oxrdf \<Rightarrow> term_source \<Rightarrow> 'l quad_memos \<Rightarrow> bool" where
  "quad_memos_ok ox src memos \<longleftrightarrow>
     (case memos of (sm, pm, om, gm) \<Rightarrow>
        memo_ok (\<lambda>c. and_then (src 0 c) (\<lambda>t. parse_subject ox t Stored)) sm \<and>
        memo_ok (\<lambda>c. and_then (src 1 c) (\<lambda>t. named_node ox t Stored)) pm \<and>
        memo_ok (\<lambda>c. and_then (src 2 c) (\<lambda>t. parse_term ox t Stored)) om \<and>
        memo_ok (\<lambda>c. and_then (src 3 c) (\<lambda>t. parse_graph ox t Stored)) gm)"

definition string_memos_ok :: "term_source \<Rightarrow> string_memos \<Rightarrow> bool" where
  "string_memos_ok src memos \<longleftrightarrow>
     (case memos of (sm, pm, om, gm) \<Rightarrow> memo_ok (src 0) sm \<and> memo_ok (src 1) pm \<and> memo_ok (src 2) om \<and> memo_ok (src 3) gm)"

lemma decode_row_exact:
  assumes "quad_memos_ok ox src memos"
  shows "\<exists>memos'. decode_row ox src memos s p ob g = Some (read_quad ox src (s, p, ob, g), memos') \<and>
    quad_memos_ok ox src memos'"
proof -
  let ?f = "\<lambda>c. and_then (src 0 c) (\<lambda>t. parse_subject ox t Stored)"
  let ?g = "\<lambda>c. and_then (src 1 c) (\<lambda>t. named_node ox t Stored)"
  let ?h = "\<lambda>c. and_then (src 2 c) (\<lambda>t. parse_term ox t Stored)"
  let ?k = "\<lambda>c. and_then (src 3 c) (\<lambda>t. parse_graph ox t Stored)"
  obtain sm pm om gm where memos: "memos = (sm, pm, om, gm)" by (cases memos) auto
  have ok: "memo_ok ?f sm" "memo_ok ?g pm" "memo_ok ?h om" "memo_ok ?k gm"
    using assms by (simp_all add: quad_memos_ok_def memos)
  obtain sm' where s: "get_or_insert sm s (?f s) = Some (?f s, sm')" "memo_ok ?f sm'"
    using get_or_insert_exact [OF ok(1), of s] by blast
  obtain pm' where p: "get_or_insert pm p (?g p) = Some (?g p, pm')" "memo_ok ?g pm'"
    using get_or_insert_exact [OF ok(2), of p] by blast
  obtain om' where ob: "get_or_insert om ob (?h ob) = Some (?h ob, om')" "memo_ok ?h om'"
    using get_or_insert_exact [OF ok(3), of ob] by blast
  obtain gm' where g: "get_or_insert gm g (?k g) = Some (?k g, gm')" "memo_ok ?k gm'"
    using get_or_insert_exact [OF ok(4), of g] by blast
  show ?thesis
    unfolding decode_row_def memos prod.case memoized_def s(1) p(1) ob(1) g(1) Option.bind_lunit read_quad_def
    using ok s(2) p(2) ob(2) g(2)
    by (cases "?f s"; cases "?g p"; cases "?h ob"; cases "?k g")
       (simp_all only: sum.case and_then_Inl and_then_Inr map_ok_def option.inject prod.inject quad_memos_ok_def prod.case
         simp_thms ex_simps Option.bind_lunit)
qed

lemma shared_row_exact:
  assumes "string_memos_ok src memos"
  shows "\<exists>memos'. shared_row src memos s p ob g = Some (read_raw src (s, p, ob, g), memos') \<and> string_memos_ok src memos'"
proof -
  obtain sm pm om gm where memos: "memos = (sm, pm, om, gm)" by (cases memos) auto
  have ok: "memo_ok (src 0) sm" "memo_ok (src 1) pm" "memo_ok (src 2) om" "memo_ok (src 3) gm"
    using assms by (simp_all add: string_memos_ok_def memos)
  obtain sm' where s: "get_or_insert sm s (src 0 s) = Some (src 0 s, sm')" "memo_ok (src 0) sm'"
    using get_or_insert_exact [OF ok(1), of s] by blast
  obtain pm' where p: "get_or_insert pm p (src 1 p) = Some (src 1 p, pm')" "memo_ok (src 1) pm'"
    using get_or_insert_exact [OF ok(2), of p] by blast
  obtain om' where ob: "get_or_insert om ob (src 2 ob) = Some (src 2 ob, om')" "memo_ok (src 2) om'"
    using get_or_insert_exact [OF ok(3), of ob] by blast
  obtain gm' where g: "get_or_insert gm g (src 3 g) = Some (src 3 g, gm')" "memo_ok (src 3) gm'"
    using get_or_insert_exact [OF ok(4), of g] by blast
  show ?thesis
    unfolding shared_row_def memos prod.case memoized_def s(1) p(1) ob(1) g(1) Option.bind_lunit read_raw_def
    using ok s(2) p(2) ob(2) g(2)
    by (cases "src 0 s"; cases "src 1 p"; cases "src 2 ob"; cases "src 3 g")
       (simp_all only: sum.case and_then_Inl and_then_Inr map_ok_def option.inject prod.inject string_memos_ok_def
         prod.case simp_thms ex_simps Option.bind_lunit)
qed

text \<open>The rows of four columns of one length.\<close>

definition code_rows_of :: "quad_codes \<Rightarrow> (nat \<times> nat \<times> nat \<times> nat) list" where
  "code_rows_of cols = zip (codes_s cols) (zip (codes_p cols) (zip (codes_o cols) (codes_g cols)))"

definition one_length :: "quad_codes \<Rightarrow> bool" where
  "one_length cols \<longleftrightarrow> (\<forall>c. length (code_field c cols) = length (codes_s cols))"

lemma one_lengthD:
  assumes "one_length cols"
  shows "length (codes_p cols) = length (codes_s cols)" "length (codes_o cols) = length (codes_s cols)"
    "length (codes_g cols) = length (codes_s cols)"
  using assms unfolding one_length_def by (metis code_field.simps)+

lemma code_rows_length: "one_length cols \<Longrightarrow> length (code_rows_of cols) = length (codes_s cols)"
  by (simp add: code_rows_of_def one_lengthD)

lemma codes_at_row:
  assumes "one_length cols" "i < length (codes_s cols)"
  shows "codes_at cols i = Some (code_rows_of cols ! i)"
  using assms(2) one_lengthD [OF assms(1)] by (simp add: codes_at_def buf_get_Some code_rows_of_def)

lemma decode_loop_exact:
  assumes "\<forall>i \<in> set is. codes_at cols i = Some (row i)" "quad_memos_ok ox src memos"
  shows "decode_loop ox src cols is memos = Some (map (\<lambda>i. read_quad ox src (row i)) is)"
  using assms
proof (induction "is" arbitrary: memos)
  case (Cons i rest)
  obtain s p ob g where row: "row i = (s, p, ob, g)" by (cases "row i") auto
  obtain memos' where "decode_row ox src memos s p ob g = Some (read_quad ox src (s, p, ob, g), memos')"
      "quad_memos_ok ox src memos'"
    using decode_row_exact [OF Cons.prems(2), of s p ob g] by blast
  then show ?case using Cons.IH [of memos'] Cons.prems(1) row by simp
qed simp

lemma shared_loop_exact:
  assumes "\<forall>i \<in> set is. codes_at cols i = Some (row i)" "string_memos_ok src memos"
  shows "shared_loop src cols is memos rows =
    Some (case collect (map (\<lambda>i. read_raw src (row i)) is) of Inl e \<Rightarrow> [Inl e] | Inr raws \<Rightarrow> rows @ map Inr raws)"
  using assms
proof (induction "is" arbitrary: memos rows)
  case (Cons i rest)
  obtain s p ob g where row: "row i = (s, p, ob, g)" by (cases "row i") auto
  obtain memos' where "shared_row src memos s p ob g = Some (read_raw src (s, p, ob, g), memos')"
      "string_memos_ok src memos'"
    using shared_row_exact [OF Cons.prems(2), of s p ob g] by blast
  then show ?case
    using Cons.IH [of memos' "rows @ [r]" for r] Cons.prems(1) row
    by (cases "read_raw src (s, p, ob, g)") (auto simp: map_ok_def and_then_def split: sum.splits)
qed simp

lemma decode_rows_exact:
  assumes "one_length cols"
  shows "decode_rows ox src cols = Some (map (read_quad ox src) (code_rows_of cols))"
proof -
  have "decode_rows ox src cols = Some (map (\<lambda>i. read_quad ox src (code_rows_of cols ! i)) [0..<length (codes_s cols)])"
    unfolding decode_rows_def Let_def
    by (rule decode_loop_exact) (auto simp: codes_at_row [OF assms] quad_memos_ok_def memo_new_ok)
  also have "map (\<lambda>i. read_quad ox src (code_rows_of cols ! i)) [0..<length (codes_s cols)] =
      map (read_quad ox src) (code_rows_of cols)"
    by (rule nth_equalityI) (simp_all add: code_rows_length [OF assms])
  finally show ?thesis .
qed

lemma decode_shared_exact:
  assumes "one_length cols"
  shows "decode_rows_shared src cols =
    Some (case collect (map (read_raw src) (code_rows_of cols)) of Inl e \<Rightarrow> [Inl e] | Inr raws \<Rightarrow> map Inr raws)"
proof -
  have rows: "map (\<lambda>i. read_raw src (code_rows_of cols ! i)) [0..<length (codes_s cols)] =
      map (read_raw src) (code_rows_of cols)"
    by (rule nth_equalityI) (simp_all add: code_rows_length [OF assms])
  show ?thesis
    unfolding decode_rows_shared_def Let_def
    by (subst shared_loop_exact [where row = "\<lambda>i. code_rows_of cols ! i"])
       (auto simp: codes_at_row [OF assms] string_memos_ok_def memo_admitting_ok rows split: sum.split)
qed

section \<open>Lines\<close>

definition term_written :: "nat \<Rightarrow> string \<Rightarrow> nquad_lines \<Rightarrow> nquad_lines" where
  "term_written r t lines =
     (if r < 3 \<or> t \<noteq> []
      then lines\<lparr> named_graph := named_graph lines \<or> r = 3, lines_text := lines_text lines @ t @ '' '' \<rparr> else lines)"

fun roles_written :: "term_source \<Rightarrow> (nat \<times> nat) list \<Rightarrow> nquad_lines \<Rightarrow> nquad_lines fallible" where
  "roles_written src [] lines = Inr lines"
| "roles_written src ((r, code) # roles) lines =
     and_then (src r code) (\<lambda>t. roles_written src roles (term_written r t lines))"

text \<open>A slot holds the code no dictionary has, or a code and where the lines spell its term.\<close>

definition spans_ok :: "(nat \<Rightarrow> string fallible) \<Rightarrow> string \<Rightarrow> span_memo \<Rightarrow> bool" where
  "spans_ok f text memo \<longleftrightarrow> length memo = SPAN_SLOTS \<and>
     (\<forall>(held, a, b) \<in> set memo. held = u64_max \<or>
        (a \<le> b \<and> b \<le> length text \<and> f held = Inr (take (b - a) (drop a text))))"

lemma spans_grow: "spans_ok f text memo \<Longrightarrow> spans_ok f (text @ extra) memo"
  by (fastforce simp: spans_ok_def)

lemma span_slot: "code AND (SPAN_SLOTS - 1) < SPAN_SLOTS"
  using and_mask [of code 8] by (simp add: SPAN_SLOTS_def)

lemma spans_new: "spans_ok f text span_memo_new"
  by (simp add: spans_ok_def span_memo_new_def)

lemma spans_put:
  assumes "spans_ok f text memo" "f code = Inr t"
  shows "spans_ok f (text @ t) (span_put memo code (length text, length (text @ t)))"
proof -
  have "set (span_put memo code (length text, length (text @ t))) \<subseteq> insert (code, length text, length (text @ t)) (set memo)"
    unfolding span_put_def by (rule set_update_subset_insert)
  then show ?thesis
    using spans_grow [OF assms(1), of t] assms(2) unfolding spans_ok_def by (fastforce simp: span_put_def)
qed

lemma term_written_text: "\<exists>extra. lines_text (term_written r t lines) = lines_text lines @ extra"
  by (simp add: term_written_def)

lemma write_term_exact:
  assumes memo: "spans_ok (src r) (lines_text lines) memo" and code: "code < u64_max"
  shows "\<exists>memo'. write_term src r code memo lines = Some (map_ok (\<lambda>t. (term_written r t lines, memo')) (src r code)) \<and>
    (\<forall>t. src r code = Inr t \<longrightarrow> spans_ok (src r) (lines_text (term_written r t lines)) memo')"
proof -
  have len: "length memo = SPAN_SLOTS" using memo by (simp add: spans_ok_def)
  obtain at a b where slot: "memo ! (code AND (SPAN_SLOTS - 1)) = (at, a, b)" by (metis prod_cases3)
  have member: "(at, a, b) \<in> set memo"
    using nth_mem [of "code AND (SPAN_SLOTS - 1)" memo] span_slot [of code] unfolding slot len by blast
  define held where "held = (if at = code then Some (a, b) else None)"
  have held: "span_get memo code = Some held"
    using span_slot [of code] len slot by (simp add: span_get_def buf_get_def held_def)
  have piece: "(case held of Some (a, b) \<Rightarrow> map_option Inr (buf_slice (lines_text lines) a b) | None \<Rightarrow> Some (src r code)) =
      Some (src r code)"
  proof (cases held)
    case (Some span)
    then have "(code, a, b) \<in> set memo" "span = (a, b)"
      using member by (auto simp: held_def split: if_splits)
    moreover from this have "a \<le> b" "b \<le> length (lines_text lines)" "src r code = Inr (take (b - a) (drop a (lines_text lines)))"
      using memo code unfolding spans_ok_def by fastforce+
    ultimately show ?thesis using Some by (simp add: buf_slice_Some)
  qed simp
  let ?memo = "\<lambda>t. span_put memo code (length (lines_text lines), length (lines_text lines @ t))"
  have grow: "spans_ok (src r) (lines_text (term_written r t lines)) (?memo t)" if "src r code = Inr t" for t
    using spans_put [OF memo that] spans_grow [of "src r" "lines_text lines @ t" "?memo t" "'' ''"]
    by (auto simp: term_written_def)
  show ?thesis
    using grow unfolding write_term_def held Option.bind_lunit Let_def piece
    by (cases "src r code") (auto simp: term_written_def map_ok_def)
qed

lemma write_roles_exact:
  assumes "list_all2 (\<lambda>(r, code) memo. spans_ok (src r) (lines_text lines) memo \<and> code < u64_max) roles memos"
  shows "\<exists>memos'. write_roles src roles memos lines = Some (map_ok (\<lambda>lines'. (lines', memos')) (roles_written src roles lines)) \<and>
    (\<forall>lines'. roles_written src roles lines = Inr lines' \<longrightarrow> (\<exists>extra. lines_text lines' = lines_text lines @ extra) \<and>
       list_all2 (\<lambda>(r, code) memo. spans_ok (src r) (lines_text lines') memo) roles memos')"
  using assms
proof (induction roles arbitrary: memos lines)
  case Nil
  then show ?case by (simp add: map_ok_def)
next
  case (Cons rc roles)
  obtain r code where rc: "rc = (r, code)" by fastforce
  obtain memo rest where memos: "memos = memo # rest" "spans_ok (src r) (lines_text lines) memo" "code < u64_max"
      "list_all2 (\<lambda>(r, code) memo. spans_ok (src r) (lines_text lines) memo \<and> code < u64_max) roles rest"
    using Cons.prems unfolding rc by (cases memos) auto
  obtain memo' where memo': "write_term src r code memo lines = Some (map_ok (\<lambda>t. (term_written r t lines, memo')) (src r code))"
      "\<forall>t. src r code = Inr t \<longrightarrow> spans_ok (src r) (lines_text (term_written r t lines)) memo'"
    using write_term_exact [of src r lines memo code, OF memos(2,3)] by blast
  show ?case
  proof (cases "src r code")
    case (Inl e)
    then show ?thesis using memo' memos(1) by (simp add: rc map_ok_def)
  next
    case (Inr t)
    let ?lines = "term_written r t lines"
    obtain extra where extra: "lines_text ?lines = lines_text lines @ extra" using term_written_text by blast
    have "list_all2 (\<lambda>(r, code) memo. spans_ok (src r) (lines_text ?lines) memo \<and> code < u64_max) roles rest"
      using memos(4) spans_grow unfolding extra by (auto elim!: list_all2_mono)
    then obtain memos' where memos': "write_roles src roles rest ?lines =
          Some (map_ok (\<lambda>lines'. (lines', memos')) (roles_written src roles ?lines))"
        "\<forall>lines'. roles_written src roles ?lines = Inr lines' \<longrightarrow> (\<exists>extra. lines_text lines' = lines_text ?lines @ extra) \<and>
           list_all2 (\<lambda>(r, code) memo. spans_ok (src r) (lines_text lines') memo) roles memos'"
      using Cons.IH by blast
    have run: "write_roles src (rc # roles) memos lines =
        Some (map_ok (\<lambda>lines'. (lines', memo' # memos')) (roles_written src (rc # roles) lines))"
      using memo'(1) memos'(1) memos(1) Inr
      by (cases "roles_written src roles ?lines") (simp_all add: rc map_ok_def)
    moreover have "(\<exists>extra. lines_text lines' = lines_text lines @ extra) \<and>
        list_all2 (\<lambda>(r, code) memo. spans_ok (src r) (lines_text lines') memo) (rc # roles) (memo' # memos')"
      if out: "roles_written src (rc # roles) lines = Inr lines'" for lines'
    proof -
      have "roles_written src roles ?lines = Inr lines'" using out Inr by (simp add: rc)
      then obtain extra' where extra': "lines_text lines' = lines_text ?lines @ extra'"
          "list_all2 (\<lambda>(r, code) memo. spans_ok (src r) (lines_text lines') memo) roles memos'"
        using memos'(2) by blast
      moreover have "spans_ok (src r) (lines_text lines') memo'"
        unfolding extra'(1) using memo'(2) Inr by (intro spans_grow) blast
      ultimately show ?thesis using extra by (simp add: rc)
    qed
    ultimately show ?thesis by blast
  qed
qed

lemma roles_of_row:
  "and_then (roles_written src (enumerate 0 [s, p, ob, g]) lines)
     (\<lambda>lines. Inr (lines\<lparr> lines_text := lines_text lines @ ''.'' @ [CHR 0x0A] \<rparr>)) =
   map_ok (lines_push lines) (read_raw src (s, p, ob, g))"
  by (cases "src 0 s"; cases "src 1 p"; cases "src 2 ob"; cases "src 3 g")
     (simp_all add: read_raw_def map_ok_def term_written_def lines_push_def lines_end_def lines_term_def Let_def
       numeral_2_eq_2 numeral_3_eq_3)

definition role_spans :: "term_source \<Rightarrow> string \<Rightarrow> span_memo list \<Rightarrow> bool" where
  "role_spans src text memos \<longleftrightarrow> list_all2 (\<lambda>r memo. spans_ok (src r) text memo) [0, 1, 2, 3] memos"

lemma role_spans_roles:
  "list_all2 (\<lambda>(r, code) memo. spans_ok (src r) text memo \<and> P code) (enumerate 0 [s, p, ob, g]) memos \<longleftrightarrow>
     role_spans src text memos \<and> (\<forall>code \<in> {s, p, ob, g}. P code)"
  by (auto simp: role_spans_def list_all2_Cons1 numeral_2_eq_2 numeral_3_eq_3)

lemma lines_loop_exact:
  assumes "role_spans src (lines_text lines) memos" "\<forall>(s, p, ob, g) \<in> set rows. \<forall>code \<in> {s, p, ob, g}. code < u64_max"
  shows "lines_loop src rows memos lines =
    Some (map_ok (\<lambda>raws. fold (\<lambda>q lines. lines_push lines q) raws lines) (collect (map (read_raw src) rows)))"
  using assms
proof (induction rows arbitrary: memos lines)
  case (Cons row rows)
  obtain s p ob g where row: "row = (s, p, ob, g)" by (cases row) auto
  let ?roles = "enumerate 0 [s, p, ob, g]"
  have "list_all2 (\<lambda>(r, code) memo. spans_ok (src r) (lines_text lines) memo \<and> code < u64_max) ?roles memos"
    using Cons.prems by (subst role_spans_roles) (simp add: row)
  then obtain memos' where memos': "write_roles src ?roles memos lines =
        Some (map_ok (\<lambda>lines'. (lines', memos')) (roles_written src ?roles lines))"
      "\<forall>lines'. roles_written src ?roles lines = Inr lines' \<longrightarrow> (\<exists>extra. lines_text lines' = lines_text lines @ extra) \<and>
         list_all2 (\<lambda>(r, code) memo. spans_ok (src r) (lines_text lines') memo) ?roles memos'"
    using write_roles_exact by blast
  note row_lines = roles_of_row [of src s p ob g lines]
  show ?case
  proof (cases "roles_written src ?roles lines")
    case (Inl e)
    then have "read_raw src (s, p, ob, g) = Inl e"
      using row_lines by (cases "read_raw src (s, p, ob, g)") (simp_all add: map_ok_def)
    moreover have "lines_loop src (row # rows) memos lines = Some (Inl e)"
      unfolding row lines_loop.simps memos'(1) Inl by (simp add: map_ok_def)
    ultimately show ?thesis by (simp add: row map_ok_def)
  next
    case (Inr lines')
    let ?next = "lines'\<lparr> lines_text := lines_text lines' @ ''.'' @ [CHR 0x0A] \<rparr>"
    obtain raw where raw: "read_raw src (s, p, ob, g) = Inr raw" "?next = lines_push lines raw"
      using row_lines Inr by (cases "read_raw src (s, p, ob, g)") (simp_all add: map_ok_def)
    have "list_all2 (\<lambda>(r, code) memo. spans_ok (src r) (lines_text lines') memo \<and> True) ?roles memos'"
      using memos'(2) Inr by simp
    then have "role_spans src (lines_text lines') memos'" by (subst (asm) role_spans_roles) simp
    then have "role_spans src (lines_text ?next) memos'"
      by (auto simp: role_spans_def list_all2_Cons1 intro: spans_grow)
    then have "lines_loop src rows memos' ?next =
        Some (map_ok (\<lambda>raws. fold (\<lambda>q lines. lines_push lines q) raws ?next) (collect (map (read_raw src) rows)))"
      using Cons.prems(2) by (intro Cons.IH) auto
    then have "lines_loop src (row # rows) memos lines =
        Some (map_ok (\<lambda>raws. fold (\<lambda>q lines. lines_push lines q) raws ?next) (collect (map (read_raw src) rows)))"
      unfolding row lines_loop.simps memos'(1) Inr by (simp add: map_ok_def)
    then show ?thesis
      unfolding raw(2) by (cases "collect (map (read_raw src) rows)") (simp_all add: row raw(1) map_ok_def)
  qed
qed (simp add: map_ok_def)

lemma decode_lines_exact:
  assumes "\<forall>(s, p, ob, g) \<in> set (code_rows_of cols). \<forall>code \<in> {s, p, ob, g}. code < u64_max"
  shows "decode_lines src cols =
    Some [map_ok (\<lambda>raws. fold (\<lambda>q lines. lines_push lines q) raws no_lines) (collect (map (read_raw src) (code_rows_of cols)))]"
proof -
  have "role_spans src (lines_text no_lines) (replicate 4 span_memo_new)"
    by (simp add: role_spans_def spans_new numeral_eq_Suc)
  then show ?thesis
    using lines_loop_exact assms unfolding decode_lines_def code_rows_of_def [symmetric] by simp
qed

section \<open>Codes read back as quads\<close>

lemma code_rows_of_quads:
  "code_rows_of (quad_codes_of ox d qs) =
     map (\<lambda>q. (the (term_code ox d (quad_ref q ColS)), the (term_code ox d (quad_ref q ColP)),
       the (term_code ox d (quad_ref q ColO)), the (term_code ox d (quad_ref q ColG)))) qs"
  by (simp add: code_rows_of_def quad_codes_of_def Let_def zip_map_map zip_same_conv_map comp_def)

lemma one_length_quads: "one_length (quad_codes_of ox d qs)"
  by (simp add: one_length_def code_field_of codes_s_of)

lemma held_term:
  assumes d: "wf_dictionary d" and held: "held_by ox d q"
  shows "dict_terms_at d r (the (term_code ox d (quad_ref q c))) = Inr (raw_field c (from_quad ox q))"
    "the (term_code ox d (quad_ref q c)) < u64_max"
proof -
  obtain code where code: "term_code ox d (quad_ref q c) = Some code" using held unfolding held_by_def by blast
  then have exact: "encode_exact d (write_nt ox (quad_ref q c)) = Some code" by (simp add: term_code_def)
  note at = exact [unfolded encode_exact_Some_iff [OF d]]
  then have "check_code d code = Inr code"
    using d by (simp add: check_code_def rank_of_def code_rank_def code_base_def wf_dictionary_def)
  then show "dict_terms_at d r (the (term_code ox d (quad_ref q c))) = Inr (raw_field c (from_quad ox q))"
    using at code by (simp add: dict_terms_at_def raw_field_of)
  show "the (term_code ox d (quad_ref q c)) < u64_max" using at d code by (simp add: wf_dictionary_def)
qed

lemma read_held:
  assumes ox: "lawful_oxrdf ox" and d: "wf_dictionary d" and q: "wf_quad ox q" "held_by ox d q"
  defines "codes \<equiv> (the (term_code ox d (quad_ref q ColS)), the (term_code ox d (quad_ref q ColP)),
    the (term_code ox d (quad_ref q ColO)), the (term_code ox d (quad_ref q ColG)))"
  shows "read_quad ox (dict_terms_at d) codes = Inr q" "read_raw (dict_terms_at d) codes = Inr (from_quad ox q)"
proof -
  note terms = held_term(1) [OF d q(2)]
  have "read_quad ox (dict_terms_at d) codes =
      quad_from_terms ox (raw_s (from_quad ox q)) (raw_p (from_quad ox q)) (raw_o (from_quad ox q)) (raw_g (from_quad ox q))"
    unfolding read_quad_def codes_def prod.case terms and_then_Inr raw_field.simps quad_from_terms_def by (rule refl)
  then show "read_quad ox (dict_terms_at d) codes = Inr q" using quad_reads [OF ox q(1) refl] by simp
  show "read_raw (dict_terms_at d) codes = Inr (from_quad ox q)"
    unfolding read_raw_def codes_def prod.case terms and_then_Inr map_ok_Inr raw_field.simps by simp
qed

text \<open>A chunk of the codes of quads: its columns are canonical.\<close>

definition holds_codes :: "table \<Rightarrow> quad_codes \<Rightarrow> bool" where
  "holds_codes t cols \<longleftrightarrow> chunk_codes t = Inr cols"

lemma decode_held:
  assumes ox: "lawful_oxrdf ox" and d: "wf_dictionary d" and qs: "\<forall>q \<in> set qs. wf_quad ox q \<and> held_by ox d q"
    and t: "holds_codes t (quad_codes_of ox d qs)"
  shows "decode_resident (decode_rows ox) t d = Some (map Inr qs)"
    "decode_resident decode_rows_shared t d = Some (map (Inr \<circ> from_quad ox) qs)"
    "decode_resident decode_lines t d =
      Some [Inr (fold (\<lambda>q lines. lines_push lines q) (map (from_quad ox) qs) no_lines)]"
proof -
  let ?cols = "quad_codes_of ox d qs" and ?src = "dict_terms_at d"
  have quads: "map (read_quad ox ?src) (code_rows_of ?cols) = map Inr qs"
    using read_held(1) [OF ox d] qs by (simp add: code_rows_of_quads)
  have raws: "collect (map (read_raw ?src) (code_rows_of ?cols)) = Inr (map (from_quad ox) qs)"
    using read_held(2) [OF ox d] qs unfolding code_rows_of_quads map_map comp_def
    by (intro collect_Inr) blast
  have small: "\<forall>(s, p, ob, g) \<in> set (code_rows_of ?cols). \<forall>code \<in> {s, p, ob, g}. code < u64_max"
    using held_term(2) [OF d] qs by (auto simp: code_rows_of_quads simp del: quad_ref.simps)
  show "decode_resident (decode_rows ox) t d = Some (map Inr qs)"
    using t decode_rows_exact [OF one_length_quads [of ox d qs], of ox]
    by (simp add: decode_resident_def holds_codes_def quads)
  show "decode_resident decode_rows_shared t d = Some (map (Inr \<circ> from_quad ox) qs)"
    using t decode_shared_exact [OF one_length_quads [of ox d qs]] by (simp add: decode_resident_def holds_codes_def raws)
  show "decode_resident decode_lines t d =
      Some [Inr (fold (\<lambda>q lines. lines_push lines q) (map (from_quad ox) qs) no_lines)]"
    using t decode_lines_exact [OF small] by (simp add: decode_resident_def holds_codes_def raws)
qed

text \<open>C8. A chunk of the codes of quads decodes, through the memos of its terms, into the quads, into their
  term strings and into the lines that spell them, as a decode of each row on its own would. No blank id of
  the quads starts with \<open>_:\<close>.\<close>

theorem coded_rows_read_back:
  assumes "lawful_oxrdf ox" "wf_dictionary d" "\<forall>q \<in> set qs. wf_quad ox q \<and> held_by ox d q"
    and "chunk_codes t = Inr (quad_codes_of ox d qs)"
  shows "decode_resident (decode_rows ox) t d = Some (map Inr qs) \<and>
    decode_resident decode_rows_shared t d = Some (map (Inr \<circ> from_quad ox) qs) \<and>
    decode_resident decode_lines t d =
      Some [Inr (fold (\<lambda>q lines. lines_push lines q) (map (from_quad ox) qs) no_lines)]"
  using decode_held [OF assms(1-3)] assms(4) by (simp add: holds_codes_def)

theorem coded_rows_read_back_witness:
  "decode_resident (decode_rows plain_oxrdf)
     (rows_table (length sample_quads) (map (\<lambda>c. (column_name c, canonical_column (UInt 8) False
        (map CodeScalar (code_field c (quad_codes_of plain_oxrdf sample_dictionary sample_quads))))) all_columns))
     sample_dictionary = Some (map Inr sample_quads)"
proof -
  have held: "\<forall>q \<in> set sample_quads. wf_quad plain_oxrdf q \<and> held_by plain_oxrdf sample_dictionary q"
    using sample_quads_wf sample_quads_held by blast
  show ?thesis
    using coded_rows_read_back [OF plain_lawful sample_dictionary_wf held]
    by (simp add: chunk_codes_def field_codes_def rows_table_def all_columns_def canonical_column_def comp_def)
qed

end
